(* ===== verification/Prelude.thy ===== *)
theory Prelude
  imports Main "HOL-Library.Word"
begin

text \<open>
  Shared vocabulary of the development.

  \<^item> The result type of the crate (\<^verbatim>\<open>src/error.rs\<close>, \<^verbatim>\<open>enum Error\<close>) and the early-return
    macro \<open>ok!\<close>: a fallible operation returns \<open>error + 'a\<close>.
  \<^item> Sizes and offsets (\<open>u16\<close> bit counts, \<open>u8\<close> reference counts) are \<open>nat\<close>; every addition
    that the code performs at a machine width is written \<open>u16_add\<close> or \<open>u8_add\<close>, which wraps
    the way a release build does.
  \<^item> Data are byte lists (\<open>8 word list\<close>). \<open>nbit d i\<close> is the \<open>i\<close>-th bit of a byte list, most
    significant bit first; the lemmas here say how the byte-level writes of the code
    (index assignment, block copy, shifts, masks) act on \<open>nbit\<close>, so the proofs about the
    builder and the slice are case splits on a bit index.
  \<^item> \<open>to_be_bytes\<close>, \<open>from_be_bytes\<close>, \<open>leading_zeros\<close> and \<open>trailing_zeros\<close> are the standard
    library operations of the same name.
\<close>

unbundle bit_operations_syntax

section \<open>Results and the early-return macro\<close>

datatype error =
    CellUnderflow | CellOverflow | UnexpectedExoticCell | UnexpectedOrdinaryCell
  | InvalidCell | InvalidData | InvalidTag | EmptyProof | DepthOverflow
  | InvalidSignature | InvalidPublicKey | IntOverflow | Cancelled | Unbalanced

type_synonym 'a result = "error + 'a"

text \<open>The macro is used with other error types, too (that of the bag of cells).\<close>

abbreviation Ok :: "'a \<Rightarrow> 'e + 'a" where "Ok \<equiv> Inr"

abbreviation Err :: "'e \<Rightarrow> 'e + 'a" where "Err \<equiv> Inl"

definition ok :: "'e + 'a \<Rightarrow> ('a \<Rightarrow> 'e + 'b) \<Rightarrow> 'e + 'b" where
  "ok r k = (case r of Inl e \<Rightarrow> Inl e | Inr x \<Rightarrow> k x)"

fun is_ok :: "'e + 'a \<Rightarrow> bool" where
  "is_ok (Inr x) = True"
| "is_ok (Inl e) = False"

lemma ok_Ok [simp]: "ok (Ok x) k = k x"
  by (simp add: ok_def)

lemma ok_Err [simp]: "ok (Err e) k = Err e"
  by (simp add: ok_def)

lemma ok_eq_Ok_iff: "ok r k = Ok y \<longleftrightarrow> (\<exists>x. r = Ok x \<and> k x = Ok y)"
  by (cases r) auto

lemma ok_eq_OkE:
  assumes "ok r k = Ok y"
  obtains x where "r = Ok x" "k x = Ok y"
  using assms by (auto simp: ok_eq_Ok_iff)

lemma ok_cong [fundef_cong]:
  "r = r' \<Longrightarrow> (\<And>x. r' = Inr x \<Longrightarrow> k x = k' x) \<Longrightarrow> ok r k = ok r' k'"
  by (cases r') auto

lemma is_ok_iff: "is_ok r \<longleftrightarrow> (\<exists>x. r = Ok x)"
  by (cases r) auto

section \<open>Arithmetic at the width of the code\<close>

definition u16_add :: "nat \<Rightarrow> nat \<Rightarrow> nat" where
  "u16_add a b = (a + b) mod 65536"

definition u8_add :: "nat \<Rightarrow> nat \<Rightarrow> nat" where
  "u8_add a b = (a + b) mod 256"

lemma u16_add_eq [simp]: "a + b < 65536 \<Longrightarrow> u16_add a b = a + b"
  by (simp add: u16_add_def)

lemma u8_add_eq [simp]: "a + b < 256 \<Longrightarrow> u8_add a b = a + b"
  by (simp add: u8_add_def)

definition div_ceil8 :: "nat \<Rightarrow> nat" where
  "div_ceil8 n = (n + 7) div 8"

lemma div_ceil8_le_iff: "div_ceil8 n \<le> m \<longleftrightarrow> n \<le> 8 * m"
  by (auto simp: div_ceil8_def)

lemma div_ceil8_bounds: "n \<le> 8 * div_ceil8 n" "8 * div_ceil8 n < n + 8"
  by (auto simp: div_ceil8_def)

lemma div_ceil8_0 [simp]: "div_ceil8 0 = 0"
  by (simp add: div_ceil8_def)

lemma div_ceil8_pos: "0 < n \<Longrightarrow> 0 < div_ceil8 n"
  by (simp add: div_ceil8_def)

lemma div_ceil8_mono: "m \<le> n \<Longrightarrow> div_ceil8 m \<le> div_ceil8 n"
  by (simp add: div_ceil8_def div_le_mono)

lemma split_index8:
  obtains q j :: nat where "i = 8 * q + j" "j < 8" "i div 8 = q" "i mod 8 = j"
proof
  show "i = 8 * (i div 8) + i mod 8" by simp
qed auto

section \<open>Bits of byte lists\<close>

type_synonym byte = "8 word"

definition nbit :: "byte list \<Rightarrow> nat \<Rightarrow> bool" where
  "nbit d i = bit (d ! (i div 8)) (7 - i mod 8)"

definition bits_range :: "byte list \<Rightarrow> nat \<Rightarrow> nat \<Rightarrow> bool list" where
  "bits_range d i j = map (nbit d) [i..<j]"

definition bytes_bits :: "byte list \<Rightarrow> bool list" where
  "bytes_bits d = bits_range d 0 (8 * length d)"

lemma unat_byte_less [simp]: "unat (x :: byte) < 256"
proof -
  have "unat x < 2 ^ LENGTH(8)" by (rule unsigned_less)
  then show ?thesis by simp
qed

lemma nbit_block: "j < 8 \<Longrightarrow> nbit d (8 * q + j) = bit (d ! q) (7 - j)"
  by (simp add: nbit_def)

lemma nbit_update: "q < length d \<Longrightarrow>
  nbit (d[q := v]) i = (if i div 8 = q then bit v (7 - i mod 8) else nbit d i)"
  by (auto simp: nbit_def)

lemma nbit_append: "nbit (xs @ ys) i =
  (if i < 8 * length xs then nbit xs i else nbit ys (i - 8 * length xs))"
proof -
  obtain q j where i: "i = 8 * q + j" "j < 8" by (rule split_index8)
  show ?thesis
  proof (cases "q < length xs")
    case True
    then have "i < 8 * length xs" using i by linarith
    with True show ?thesis using i by (simp add: nbit_block nth_append)
  next
    case False
    then have e: "i - 8 * length xs = 8 * (q - length xs) + j" "\<not> i < 8 * length xs"
      using i by auto
    show ?thesis unfolding e(1) using False i e(2) by (simp add: nbit_block nth_append)
  qed
qed

lemma nbit_take: "i < 8 * n \<Longrightarrow> nbit (take n d) i = nbit d i"
  by (simp add: nbit_def less_mult_imp_div_less mult.commute)

lemma nbit_drop: "n \<le> length d \<Longrightarrow> nbit (drop n d) i = nbit d (8 * n + i)"
  by (simp add: nbit_def)

lemma nbit_replicate: "i < 8 * n \<Longrightarrow> nbit (replicate n 0) i = False"
  by (simp add: nbit_def less_mult_imp_div_less mult.commute)

lemma length_bits_range [simp]: "length (bits_range d i j) = j - i"
  by (simp add: bits_range_def)

lemma nth_bits_range [simp]: "k < j - i \<Longrightarrow> bits_range d i j ! k = nbit d (i + k)"
  by (simp add: bits_range_def)

lemma bits_range_empty [simp]: "j \<le> i \<Longrightarrow> bits_range d i j = []"
  by (simp add: bits_range_def)

lemma bits_range_append: "i \<le> j \<Longrightarrow> j \<le> k \<Longrightarrow>
  bits_range d i j @ bits_range d j k = bits_range d i k"
  by (metis bits_range_def map_append upt_add_eq_append le_add_diff_inverse)

lemma take_bits_range: "take n (bits_range d i j) = bits_range d i (min j (i + n))"
  by (rule nth_equalityI) auto

lemma drop_bits_range: "drop n (bits_range d i j) = bits_range d (i + n) j"
  by (rule nth_equalityI) (auto simp: ac_simps)

lemma bits_range_cong:
  "(\<And>k. i \<le> k \<Longrightarrow> k < j \<Longrightarrow> nbit d k = nbit d' k) \<Longrightarrow> bits_range d i j = bits_range d' i j"
  by (rule nth_equalityI) auto

lemma bits_range_Cons: "i < j \<Longrightarrow> bits_range d i j = nbit d i # bits_range d (Suc i) j"
  by (simp add: bits_range_def upt_conv_Cons)

lemma bits_range_drop:
  "n \<le> length d \<Longrightarrow> bits_range (drop n d) i j = bits_range d (8 * n + i) (8 * n + j)"
  by (rule nth_equalityI) (auto simp: nbit_drop add.assoc)

lemma bits_range_take: "j \<le> 8 * n \<Longrightarrow> bits_range (take n d) i j = bits_range d i j"
  by (rule bits_range_cong) (simp add: nbit_take)

lemma length_bytes_bits [simp]: "length (bytes_bits d) = 8 * length d"
  by (simp add: bytes_bits_def)

lemma nth_bytes_bits [simp]: "k < 8 * length d \<Longrightarrow> bytes_bits d ! k = nbit d k"
  by (simp add: bytes_bits_def)

lemma byte_list_eqI:
  assumes "length d = length d'" and "\<And>i. i < 8 * length d \<Longrightarrow> nbit d i = nbit d' i"
  shows "d = d'"
proof (rule nth_equalityI [OF assms(1)])
  fix q assume q: "q < length d"
  show "d ! q = d' ! q"
  proof (rule bit_word_eqI)
    fix n assume "n < LENGTH(8)"
    then have n: "7 - n < 8" "7 - (7 - n) = n" by auto
    have "8 * q + (7 - n) < 8 * length d" using q n(1) by linarith
    with assms(2) have "nbit d (8 * q + (7 - n)) = nbit d' (8 * q + (7 - n))" by blast
    then show "bit (d ! q) n = bit (d' ! q) n" using n by (simp only: nbit_block)
  qed
qed

lemma bytes_bits_inj: "bytes_bits d = bytes_bits d' \<longleftrightarrow> d = d'"
proof
  assume e: "bytes_bits d = bytes_bits d'"
  then have l: "length d = length d'" by (metis length_bytes_bits mult_cancel1 zero_neq_numeral)
  show "d = d'" by (rule byte_list_eqI [OF l]) (metis e l nth_bytes_bits)
qed simp

text \<open>\<^verbatim>\<open>ptr::copy_nonoverlapping(src, dst.add(off), n)\<close>.\<close>

definition copy_bytes :: "byte list \<Rightarrow> nat \<Rightarrow> byte list \<Rightarrow> nat \<Rightarrow> byte list" where
  "copy_bytes dst off src n = take off dst @ take n src @ drop (off + n) dst"

lemma length_copy_bytes [simp]:
  "off + n \<le> length dst \<Longrightarrow> n \<le> length src \<Longrightarrow> length (copy_bytes dst off src n) = length dst"
  by (simp add: copy_bytes_def)

lemma nbit_copy_bytes:
  assumes "off + n \<le> length dst" and "n \<le> length src"
  shows "nbit (copy_bytes dst off src n) i =
    (if 8 * off \<le> i \<and> i < 8 * (off + n) then nbit src (i - 8 * off) else nbit dst i)"
proof -
  have "i < 8 * off \<or> 8 * off \<le> i \<and> i < 8 * (off + n) \<or> 8 * (off + n) \<le> i" by linarith
  then show ?thesis
    using assms by (auto simp: copy_bytes_def nbit_append nbit_take nbit_drop add_mult_distrib2)
qed

section \<open>Words and their bytes and bits\<close>

definition to_be_bytes :: "'a::len word \<Rightarrow> byte list" where
  "to_be_bytes w = map (\<lambda>i. ucast (drop_bit (LENGTH('a) - 8 - 8 * i) w)) [0..<LENGTH('a) div 8]"

definition from_be_bytes :: "byte list \<Rightarrow> 'a::len word" where
  "from_be_bytes bs = foldl (\<lambda>acc b. push_bit 8 acc OR ucast b) 0 bs"

definition word_of_bits :: "bool list \<Rightarrow> 'a::len word" where
  "word_of_bits bs = horner_sum of_bool 2 (rev bs)"

definition word_bits :: "nat \<Rightarrow> 'a::len word \<Rightarrow> bool list" where
  "word_bits n w = map (\<lambda>i. bit w (n - 1 - i)) [0..<n]"

definition leading_zeros :: "'a::len word \<Rightarrow> nat" where
  "leading_zeros w = length (takeWhile Not (word_bits LENGTH('a) w))"

definition trailing_zeros :: "'a::len word \<Rightarrow> nat" where
  "trailing_zeros w = length (takeWhile Not (rev (word_bits LENGTH('a) w)))"

lemma length_word_bits [simp]: "length (word_bits n w) = n"
  by (simp add: word_bits_def)

lemma nth_word_bits [simp]: "i < n \<Longrightarrow> word_bits n w ! i = bit w (n - 1 - i)"
  by (simp add: word_bits_def)

lemma bit_word_of_bits [bit_simps]:
  "bit (word_of_bits bs :: 'a::len word) n \<longleftrightarrow>
    n < LENGTH('a) \<and> n < length bs \<and> bs ! (length bs - 1 - n)"
  by (auto simp: word_of_bits_def bit_simps rev_nth)

lemma word_bits_word_of_bits [simp]:
  "length bs = n \<Longrightarrow> n \<le> LENGTH('a) \<Longrightarrow> word_bits n (word_of_bits bs :: 'a::len word) = bs"
  by (rule nth_equalityI) (auto simp: bit_word_of_bits)

lemma word_of_bits_word_bits [simp]:
  "word_of_bits (word_bits LENGTH('a) w) = (w :: 'a::len word)"
  by (rule bit_word_eqI) (auto simp: bit_word_of_bits)

lemma word_of_bits_eqI:
  assumes "\<And>n. n < LENGTH('a) \<Longrightarrow> bit w n \<longleftrightarrow> n < length bs \<and> bs ! (length bs - 1 - n)"
  shows "w = (word_of_bits bs :: 'a::len word)"
  by (rule bit_word_eqI) (simp add: bit_word_of_bits assms)

lemma length_to_be_bytes [simp]: "length (to_be_bytes (w :: 'a::len word)) = LENGTH('a) div 8"
  by (simp add: to_be_bytes_def)

lemma nbit_to_be_bytes:
  fixes w :: "'a::len word"
  assumes "8 dvd LENGTH('a)" and "i < LENGTH('a)"
  shows "nbit (to_be_bytes w) i = bit w (LENGTH('a) - 1 - i)"
proof -
  obtain m where m: "LENGTH('a) = 8 * m" using assms(1) by (auto elim: dvdE)
  obtain q j where i: "i = 8 * q + j" "j < 8" by (rule split_index8)
  have q: "q < m" using assms(2) m i by linarith
  have e: "8 * m - 8 - 8 * q + (7 - j) = 8 * m - 1 - i" "7 - j < 8" using q i by linarith+
  have "nbit (to_be_bytes w) i = bit w (8 * m - 8 - 8 * q + (7 - j))"
    using q i m e(2) by (simp only: nbit_block) (simp add: to_be_bytes_def bit_simps)
  then show ?thesis by (simp only: e m)
qed

lemma from_be_bytes_snoc:
  "from_be_bytes (bs @ [b]) = push_bit 8 (from_be_bytes bs) OR ucast b"
  by (simp add: from_be_bytes_def)

lemma bit_from_be_bytes [bit_simps]:
  "bit (from_be_bytes bs :: 'a::len word) n \<longleftrightarrow>
    n < LENGTH('a) \<and> n < 8 * length bs \<and> nbit bs (8 * length bs - 1 - n)"
proof (induction bs arbitrary: n rule: rev_induct)
  case Nil then show ?case by (simp add: from_be_bytes_def)
next
  case (snoc b bs)
  show ?case
  proof (cases "n < 8")
    case True
    then have e: "8 * length (bs @ [b]) - 1 - n - 8 * length bs = 8 * 0 + (7 - n)" by simp
    have "nbit (bs @ [b]) (8 * length (bs @ [b]) - 1 - n) = bit b n"
      unfolding nbit_append e using True by (subst nbit_block) auto
    with True show ?thesis by (simp add: from_be_bytes_snoc bit_simps)
  next
    case False
    then have a: "8 * length (bs @ [b]) - 1 - n = 8 * length bs - 1 - (n - 8)" by simp
    have b: "\<not> bit (ucast b :: 'a word) n" using False
      by (auto simp: bit_simps dest: bit_imp_le_length)
    show ?thesis
      using False snoc.IH [of "n - 8"] b unfolding a
      by (auto simp: from_be_bytes_snoc bit_simps nbit_append)
  qed
qed

lemma from_to_be_bytes:
  "8 dvd LENGTH('a) \<Longrightarrow> from_be_bytes (to_be_bytes w) = (w :: 'a::len word)"
  by (rule bit_word_eqI) (auto simp: bit_simps nbit_to_be_bytes)

lemma to_from_be_bytes:
  assumes "8 * length bs = LENGTH('a)"
  shows "to_be_bytes (from_be_bytes bs :: 'a::len word) = bs"
proof (rule byte_list_eqI)
  have d: "8 dvd LENGTH('a)" by (simp flip: assms)
  show l: "length (to_be_bytes (from_be_bytes bs :: 'a word)) = length bs"
    by (simp flip: assms)
  fix i assume "i < 8 * length (to_be_bytes (from_be_bytes bs :: 'a word))"
  then have i: "i < LENGTH('a)" by (simp add: l assms)
  then show "nbit (to_be_bytes (from_be_bytes bs :: 'a word)) i = nbit bs i"
    by (simp add: nbit_to_be_bytes [OF d i] bit_from_be_bytes assms)
qed

lemma from_be_bytes_eq_word_of_bits:
  "8 * length bs = LENGTH('a) \<Longrightarrow> from_be_bytes bs = (word_of_bits (bytes_bits bs) :: 'a::len word)"
  by (rule word_of_bits_eqI) (auto simp: bit_simps)

text \<open>A list of bits packed into bytes, the last byte filled with zeros.\<close>

definition pack_bits :: "bool list \<Rightarrow> byte list" where
  "pack_bits bs =
     map (\<lambda>i. word_of_bits (take 8 (drop (8 * i) bs @ replicate 8 False))) [0..<div_ceil8 (length bs)]"

lemma length_pack_bits [simp]: "length (pack_bits bs) = div_ceil8 (length bs)"
  by (simp add: pack_bits_def)

lemma nbit_pack_bits:
  assumes "i < 8 * div_ceil8 (length bs)"
  shows "nbit (pack_bits bs) i \<longleftrightarrow> i < length bs \<and> bs ! i"
proof -
  obtain q j where i: "i = 8 * q + j" "j < 8" by (rule split_index8)
  then have q: "q < div_ceil8 (length bs)" using assms by linarith
  have l: "length (take 8 (drop (8 * q) bs @ replicate 8 False)) = 8" by simp
  have "nbit (pack_bits bs) i = bit (word_of_bits (take 8 (drop (8 * q) bs @ replicate 8 False)) :: byte) (7 - j)"
    using q i by (simp add: nbit_block pack_bits_def)
  also have "\<dots> \<longleftrightarrow> take 8 (drop (8 * q) bs @ replicate 8 False) ! j"
    unfolding bit_word_of_bits l using i(2) by auto
  also have "\<dots> \<longleftrightarrow> i < length bs \<and> bs ! i"
    using i by (auto simp: nth_append)
  finally show ?thesis .
qed

lemma pack_bits_eqI:
  assumes "length d = div_ceil8 (length bs)"
    and "\<And>i. i < 8 * length d \<Longrightarrow> nbit d i \<longleftrightarrow> i < length bs \<and> bs ! i"
  shows "d = pack_bits bs"
  by (rule byte_list_eqI) (simp_all add: assms nbit_pack_bits)

lemma bits_range_pack_bits [simp]: "bits_range (pack_bits bs) 0 (length bs) = bs"
proof (rule nth_equalityI)
  fix i assume "i < length (bits_range (pack_bits bs) 0 (length bs))"
  then have i: "i < length bs" by simp
  then have "i < 8 * div_ceil8 (length bs)" using div_ceil8_bounds(1) [of "length bs"] by simp
  with i show "bits_range (pack_bits bs) 0 (length bs) ! i = bs ! i" by (simp add: nbit_pack_bits)
qed simp

section \<open>Common prefixes and runs of bits\<close>

fun lcp_len :: "bool list \<Rightarrow> bool list \<Rightarrow> nat" where
  "lcp_len (x # xs) (y # ys) = (if x = y then Suc (lcp_len xs ys) else 0)"
| "lcp_len _ _ = 0"

lemma lcp_len_le: "lcp_len xs ys \<le> length xs" "lcp_len xs ys \<le> length ys"
  by (induction xs ys rule: lcp_len.induct) auto

lemma lcp_len_take: "take (lcp_len xs ys) xs = take (lcp_len xs ys) ys"
  by (induction xs ys rule: lcp_len.induct) auto

lemma lcp_len_append [simp]: "lcp_len (ps @ xs) (ps @ ys) = length ps + lcp_len xs ys"
  by (induction ps) auto

lemma lcp_len_full_iff: "lcp_len xs ys = length ys \<longleftrightarrow> (\<exists>zs. xs = ys @ zs)"
  by (induction xs ys rule: lcp_len.induct) auto

lemma lcp_len_sym: "lcp_len xs ys = lcp_len ys xs"
  by (induction xs ys rule: lcp_len.induct) auto

lemma lcp_len_diff:
  assumes "lcp_len xs ys < length xs" and "lcp_len xs ys < length ys"
  shows "xs ! lcp_len xs ys \<noteq> ys ! lcp_len xs ys"
  using assms by (induction xs ys rule: lcp_len.induct) (auto split: if_splits)

lemma lcp_len_eqI:
  assumes "n \<le> length xs" "n \<le> length ys" "\<And>i. i < n \<Longrightarrow> xs ! i = ys ! i"
    and "n < length xs \<Longrightarrow> n < length ys \<Longrightarrow> xs ! n \<noteq> ys ! n"
  shows "lcp_len xs ys = n"
  using assms
proof (induction xs ys arbitrary: n rule: lcp_len.induct)
  case (1 x xs y ys)
  show ?case
  proof (cases n)
    case 0 then show ?thesis using 1 by auto
  next
    case (Suc m)
    have "x = y" using 1(4) [of 0] Suc by simp
    moreover have "lcp_len xs ys = m"
      by (rule 1(1) [OF \<open>x = y\<close>]) (use 1(2-5) Suc in force)+
    ultimately show ?thesis using Suc by simp
  qed
qed auto

definition run_len :: "bool \<Rightarrow> bool list \<Rightarrow> nat" where
  "run_len b xs = length (takeWhile (\<lambda>x. x = b) xs)"

lemma run_len_le: "run_len b xs \<le> length xs"
  by (simp add: run_len_def length_takeWhile_le)

lemma run_len_Nil [simp]: "run_len b [] = 0"
  by (simp add: run_len_def)

lemma run_len_Cons [simp]: "run_len b (x # xs) = (if x = b then Suc (run_len b xs) else 0)"
  by (simp add: run_len_def)

lemma run_len_append:
  "run_len b (xs @ ys) =
    (if run_len b xs = length xs then length xs + run_len b ys else run_len b xs)"
  by (induction xs) auto

lemma run_len_full_iff: "run_len b xs = length xs \<longleftrightarrow> xs = replicate (length xs) b"
  by (induction xs) auto

lemma run_len_nth: "i < run_len b xs \<Longrightarrow> xs ! i = b"
  by (induction xs arbitrary: i) (auto split: if_splits simp: nth_Cons split: nat.splits)

lemma run_len_eqI:
  assumes "n \<le> length xs" "\<And>i. i < n \<Longrightarrow> xs ! i = b" "n < length xs \<Longrightarrow> xs ! n \<noteq> b"
  shows "run_len b xs = n"
proof (rule le_antisym)
  show "run_len b xs \<le> n"
  proof (rule ccontr)
    assume "\<not> run_len b xs \<le> n"
    then have "n < run_len b xs" by simp
    then have "xs ! n = b" "n < length xs" using run_len_nth run_len_le [of b xs] by auto
    with assms(3) show False by blast
  qed
  show "n \<le> run_len b xs"
    using assms(1,2)
  proof (induction xs arbitrary: n)
    case (Cons x xs)
    show ?case
    proof (cases n)
      case (Suc m)
      have "x = b" using Cons.prems(2) [of 0] Suc by simp
      moreover have "m \<le> run_len b xs"
        by (rule Cons.IH) (use Cons.prems Suc in force)+
      ultimately show ?thesis using Suc by simp
    qed simp
  qed simp
qed

lemma leading_zeros_run: "leading_zeros w = run_len False (word_bits LENGTH('a) w)"
  for w :: "'a::len word"
  by (simp add: leading_zeros_def run_len_def)

lemma trailing_zeros_run: "trailing_zeros w = run_len False (rev (word_bits LENGTH('a) w))"
  for w :: "'a::len word"
  by (simp add: trailing_zeros_def run_len_def)

end
