(* ===== verification/Cell_Descriptor.thy ===== *)
theory Cell_Descriptor
  imports Prelude
begin

text \<open>
  \<^verbatim>\<open>src/cell/mod.rs\<close>: \<open>LevelMask\<close> and its iterator, \<open>CellType\<close>, \<open>CellDescriptor\<close>, \<open>Size\<close> and
  \<open>CellTreeStats\<close>. A level mask is the byte the newtype wraps (three significant bits); a
  descriptor is the record of its two bytes. Levels and counts read out of the bytes are \<open>nat\<close>.
  The lemmas show that packing a descriptor loses nothing, that the mask iterator enumerates
  exactly the significant levels in increasing order, and that \<open>hash_index\<close> is the position of a
  level in that enumeration.
\<close>

section \<open>LevelMask\<close>

type_synonym level_mask = byte

definition MAX_LEVEL :: nat where
  "MAX_LEVEL = 3"

definition lm_new :: "byte \<Rightarrow> level_mask" where
  "lm_new m = m AND 7"

definition lm_is_empty :: "level_mask \<Rightarrow> bool" where
  "lm_is_empty m \<longleftrightarrow> m = 0"

definition from_level :: "nat \<Rightarrow> level_mask" where
  "from_level l = (if l = 0 then 0 else if l = 1 then 1 else if l = 2 then 3 else 7)"

definition level :: "level_mask \<Rightarrow> nat" where
  "level m = unat ((m AND 1) + (drop_bit 1 m AND 1) + (drop_bit 2 m AND 1))"

definition hash_index :: "level_mask \<Rightarrow> nat \<Rightarrow> nat" where
  "hash_index m l = level (m AND from_level l)"

definition contains :: "level_mask \<Rightarrow> nat \<Rightarrow> bool" where
  "contains m l \<longleftrightarrow> l = 0 \<or> m AND push_bit (l - 1) 1 \<noteq> 0"

definition lm_virtualize :: "level_mask \<Rightarrow> nat \<Rightarrow> level_mask" where
  "lm_virtualize m offset = drop_bit offset m"

definition lm_into_iter :: "level_mask \<Rightarrow> byte" where
  "lm_into_iter m = 1 OR push_bit 1 m"

definition lm_iter_next :: "byte \<Rightarrow> (nat \<times> byte) option" where
  "lm_iter_next s =
     (if s \<noteq> 0 then
        let low = s AND NOT (s - 1)
        in Some (trailing_zeros low, s AND NOT low)
      else None)"

definition lm_iter_size_hint :: "byte \<Rightarrow> nat" where
  "lm_iter_size_hint s = length (filter (bit s) [0..<8])"

lemma lm_cases:
  assumes "m < (8 :: byte)"
  shows "m \<in> {0, 1, 2, 3, 4, 5, 6, 7}"
proof -
  have "unat m < 8" using assms by (simp add: word_less_nat_alt)
  then have "unat m \<in> {0, 1, 2, 3, 4, 5, 6, 7}" by auto
  then have "(of_nat (unat m) :: byte) \<in> of_nat ` {0, 1, 2, 3, 4, 5, 6, 7}" by (rule imageI)
  then show ?thesis by simp
qed

lemma lm_new_less [simp]: "lm_new m < 8"
  unfolding lm_new_def by (rule le_less_trans [OF word_and_le1]) simp



lemma lowest_bit_nonzero:
  assumes "s \<noteq> (0 :: 'a::len word)"
  shows "s AND NOT (s - 1) \<noteq> 0"
proof
  assume z: "s AND NOT (s - 1) = 0"
  have "s = (s AND (s - 1)) OR (s AND NOT (s - 1))"
    by (rule bit_word_eqI) (auto simp: bit_simps)
  then have "s = s AND (s - 1)" by (simp add: z)
  then have "s \<le> s - 1" by (metis word_and_le1)
  moreover have "s - 1 < s" using assms by (metis measure_unat unat_mono word_less_nat_alt)
  ultimately show False by simp
qed

lemma clear_lowest_bit_less:
  assumes "s \<noteq> (0 :: 'a::len word)"
  shows "s AND NOT (s AND NOT (s - 1)) < s"
proof -
  let ?low = "s AND NOT (s - 1)"
  have "s AND NOT ?low \<noteq> s"
  proof
    assume "s AND NOT ?low = s"
    then have "?low = (s AND NOT ?low) AND NOT (s - 1)" by simp
    also have "\<dots> = 0" by (rule bit_word_eqI) (auto simp: bit_simps)
    finally show False using lowest_bit_nonzero [OF assms] by simp
  qed
  then show ?thesis using word_and_le2 [of s "NOT ?low"] by (simp add: order.strict_iff_order)
qed

function lm_iter_list :: "byte \<Rightarrow> nat list" where
  "lm_iter_list s = (case lm_iter_next s of None \<Rightarrow> [] | Some (l, s') \<Rightarrow> l # lm_iter_list s')"
  by pat_completeness auto
termination
  by (relation "measure unat")
     (auto simp: lm_iter_next_def Let_def clear_lowest_bit_less [simplified] unat_mono split: if_splits)

declare lm_iter_list.simps [simp del]

lemma lm_iter_list_0: "lm_iter_list 0 = []"
  by (simp add: lm_iter_list.simps lm_iter_next_def)

lemma lm_iter_list_step: "s \<noteq> 0 \<Longrightarrow> lm_iter_list s =
    trailing_zeros (s AND NOT (s - 1)) # lm_iter_list (s AND NOT (s AND NOT (s - 1)))"
  by (subst lm_iter_list.simps) (simp add: lm_iter_next_def Let_def)

lemma level_values:
  "level 0 = 0" "level 1 = 1" "level 2 = 1" "level 3 = 2"
  "level 4 = 1" "level 5 = 2" "level 6 = 2" "level 7 = 3"
  by (simp_all add: level_def)

lemma trailing_zeros_pow2:
  "trailing_zeros (1 :: byte) = 0" "trailing_zeros (2 :: byte) = 1"
  "trailing_zeros (4 :: byte) = 2" "trailing_zeros (8 :: byte) = 3"
  by (simp_all add: trailing_zeros_def word_bits_def upt_rec numeral_eq_Suc)

lemma lm_iter_list_eq:
  assumes "m < 8"
  shows "lm_iter_list (lm_into_iter m) = filter (contains m) [0..<4]"
  using lm_cases [OF assms]
  by (auto simp: lm_into_iter_def lm_iter_list_0 lm_iter_list_step
      trailing_zeros_pow2 contains_def upt_rec)

lemma lm_bit_above:
  assumes "m < (8 :: byte)" and "bit m n"
  shows "n < 3"
proof (rule ccontr)
  assume "\<not> n < 3"
  then have "(2::nat) ^ 3 \<le> 2 ^ n" by (intro power_increasing) auto
  moreover have "unat m < 8" using assms(1) by (simp add: word_less_nat_alt)
  ultimately have "unat m div 2 ^ n = 0" by simp
  moreover have "bit (unat m) n" using assms(2) by (simp add: bit_unsigned_iff)
  ultimately show False by (simp add: bit_iff_odd)
qed

lemma contains_iff: "contains m l \<longleftrightarrow> l = 0 \<or> bit m (l - 1)"
  by (simp add: contains_def bit_iff_and_push_bit_not_eq_0)

lemma contains_above: "m < 8 \<Longrightarrow> contains m l \<Longrightarrow> l \<le> 3"
  by (auto simp: contains_iff dest: lm_bit_above)

lemma hash_index_eq:
  assumes "m < 8"
  shows "hash_index m l = length (filter (contains m) [1..<Suc l])"
proof -
  have big: "filter (contains m) [1..<Suc l] = filter (contains m) [1..<4]" if "3 \<le> l"
  proof -
    have "Suc l = 4 + (l - 3)" using that by simp
    then obtain k where k: "Suc l = 4 + k" ..
    have "[1..<4 + k] = [1..<4] @ [4..<4 + k]" by (rule upt_add_eq_append) simp
    moreover have "\<not> contains m x" if "x \<in> set [4..<4 + k]" for x
      using contains_above [OF assms, of x] that by auto
    then have "filter (contains m) [4..<4 + k] = []" by (intro filter_False ballI)
    ultimately show ?thesis by (simp only: k filter_append append_Nil2)
  qed
  consider "l = 0" | "l = 1" | "l = 2" | "3 \<le> l" by arith
  then show ?thesis
  proof cases
    case 4
    then show ?thesis using lm_cases [OF assms] unfolding big [OF 4]
      by (auto simp: hash_index_def from_level_def level_values contains_def upt_rec)
  qed (use lm_cases [OF assms] in \<open>auto simp: hash_index_def from_level_def level_values contains_def upt_rec\<close>)
qed


lemma hash_index_le_level: "m < 8 \<Longrightarrow> hash_index m l \<le> level m"
  using lm_cases [of m]
  by (auto simp: hash_index_def from_level_def level_values)

lemma hash_index_max: "m < 8 \<Longrightarrow> 3 \<le> l \<Longrightarrow> hash_index m l = level m"
  using lm_cases [of m]
  by (auto simp: hash_index_def from_level_def level_values)

lemma hash_index_0 [simp]: "hash_index m 0 = 0"
  by (simp add: hash_index_def from_level_def level_values)

lemma hash_index_empty [simp]: "hash_index 0 l = 0"
  by (simp add: hash_index_def level_values)

lemma lm_or_less: "a < (8 :: byte) \<Longrightarrow> b < 8 \<Longrightarrow> a OR b < 8"
  using lm_cases [of a] lm_cases [of b] by auto

lemma lm_virtualize_less: "m < 8 \<Longrightarrow> lm_virtualize m n < 8"
  unfolding lm_virtualize_def
  by (metis drop_bit_eq_div div_le_dividend le_less_trans unat_drop_bit_eq word_less_nat_alt)

section \<open>CellType\<close>

datatype celltype = Ordinary | PrunedBranchType | LibraryReferenceType | MerkleProofType | MerkleUpdateType

definition ct_is_merkle :: "celltype \<Rightarrow> bool" where
  "ct_is_merkle t \<longleftrightarrow> t = MerkleProofType \<or> t = MerkleUpdateType"

definition ct_is_exotic :: "celltype \<Rightarrow> bool" where
  "ct_is_exotic t \<longleftrightarrow> t \<noteq> Ordinary"

definition ct_is_pruned_branch :: "celltype \<Rightarrow> bool" where
  "ct_is_pruned_branch t \<longleftrightarrow> t = PrunedBranchType"

definition ct_is_library :: "celltype \<Rightarrow> bool" where
  "ct_is_library t \<longleftrightarrow> t = LibraryReferenceType"

fun ct_to_byte :: "celltype \<Rightarrow> byte" where
  "ct_to_byte Ordinary = 0xff"
| "ct_to_byte PrunedBranchType = 1"
| "ct_to_byte LibraryReferenceType = 2"
| "ct_to_byte MerkleProofType = 3"
| "ct_to_byte MerkleUpdateType = 4"

definition from_byte_exotic :: "byte \<Rightarrow> celltype option" where
  "from_byte_exotic b =
     (if b = 1 then Some PrunedBranchType
      else if b = 2 then Some LibraryReferenceType
      else if b = 3 then Some MerkleProofType
      else if b = 4 then Some MerkleUpdateType
      else None)"

lemma from_byte_exotic_iff: "from_byte_exotic b = Some t \<longleftrightarrow> ct_is_exotic t \<and> b = ct_to_byte t"
  by (cases t) (auto simp: from_byte_exotic_def ct_is_exotic_def)

section \<open>CellDescriptor\<close>

record cell_descriptor =
  d1 :: byte
  d2 :: byte

definition REF_COUNT_MASK :: byte where "REF_COUNT_MASK = 0b00000111"

definition IS_EXOTIC_MASK :: byte where "IS_EXOTIC_MASK = 0b00001000"

definition STORE_HASHES_MASK :: byte where "STORE_HASHES_MASK = 0b00010000"

definition ABSENT_MASK :: byte where "ABSENT_MASK = STORE_HASHES_MASK OR REF_COUNT_MASK"

definition LEVEL_MASK :: byte where "LEVEL_MASK = 0b11100000"

definition compute_d1 :: "level_mask \<Rightarrow> bool \<Rightarrow> nat \<Rightarrow> byte" where
  "compute_d1 m is_ex ref_count =
     push_bit 5 m OR push_bit 3 (of_bool is_ex) OR (of_nat ref_count AND REF_COUNT_MASK)"

definition compute_d2 :: "nat \<Rightarrow> byte" where
  "compute_d2 bit_len =
     (of_nat (bit_len div 4) AND NOT 1) OR of_bool (bit_len mod 8 \<noteq> 0)"

definition cd_new :: "byte \<Rightarrow> byte \<Rightarrow> cell_descriptor" where
  "cd_new b0 b1 = \<lparr>d1 = b0, d2 = b1\<rparr>"

definition cd_virtualize :: "cell_descriptor \<Rightarrow> nat \<Rightarrow> cell_descriptor" where
  "cd_virtualize d offset =
     (let virtualized_mask = drop_bit offset (d1 d) AND LEVEL_MASK
      in d\<lparr>d1 := virtualized_mask OR (d1 d AND NOT LEVEL_MASK)\<rparr>)"

definition reference_count :: "cell_descriptor \<Rightarrow> nat" where
  "reference_count d = unat (d1 d AND REF_COUNT_MASK)"

definition is_exotic :: "cell_descriptor \<Rightarrow> bool" where
  "is_exotic d \<longleftrightarrow> d1 d AND IS_EXOTIC_MASK \<noteq> 0"

definition cd_level_mask :: "cell_descriptor \<Rightarrow> level_mask" where
  "cd_level_mask d = drop_bit 5 (d1 d)"

definition cell_type :: "cell_descriptor \<Rightarrow> celltype" where
  "cell_type d =
     (if d1 d AND IS_EXOTIC_MASK = 0 then Ordinary
      else if d1 d AND REF_COUNT_MASK = 0
        then (if d1 d AND LEVEL_MASK = 0 then LibraryReferenceType else PrunedBranchType)
      else if d1 d AND REF_COUNT_MASK = 1 then MerkleProofType
      else MerkleUpdateType)"

definition hash_count :: "cell_descriptor \<Rightarrow> nat" where
  "hash_count d =
     (let l = level (cd_level_mask d)
      in if is_exotic d \<and> reference_count d = 0 \<and> l > 0 then 1 else l + 1)"

definition is_pruned_branch :: "cell_descriptor \<Rightarrow> bool" where
  "is_pruned_branch d \<longleftrightarrow>
     is_exotic d \<and> reference_count d = 0 \<and> \<not> lm_is_empty (cd_level_mask d)"

definition is_library :: "cell_descriptor \<Rightarrow> bool" where
  "is_library d \<longleftrightarrow> is_exotic d \<and> reference_count d = 0 \<and> lm_is_empty (cd_level_mask d)"

definition is_merkle :: "cell_descriptor \<Rightarrow> bool" where
  "is_merkle d \<longleftrightarrow> is_exotic d \<and> reference_count d \<noteq> 0"

definition is_absent :: "cell_descriptor \<Rightarrow> bool" where
  "is_absent d \<longleftrightarrow> d1 d AND NOT LEVEL_MASK = ABSENT_MASK"

definition store_hashes :: "cell_descriptor \<Rightarrow> bool" where
  "store_hashes d \<longleftrightarrow> d1 d AND STORE_HASHES_MASK \<noteq> 0"

definition is_aligned :: "cell_descriptor \<Rightarrow> bool" where
  "is_aligned d \<longleftrightarrow> d2 d AND 1 = 0"

definition byte_len :: "cell_descriptor \<Rightarrow> nat" where
  "byte_len d = unat ((d2 d AND 1) + drop_bit 1 (d2 d))"


lemmas cd_masks = REF_COUNT_MASK_def IS_EXOTIC_MASK_def STORE_HASHES_MASK_def LEVEL_MASK_def
  ABSENT_MASK_def

lemma less8_cases: "n < (8::nat) \<Longrightarrow> n = 0 \<or> n = 1 \<or> n = 2 \<or> n = 3 \<or> n = 4 \<or> n = 5 \<or> n = 6 \<or> n = 7"
  by arith

lemma bit_compute_d1:
  assumes "n < 8"
  shows "bit (compute_d1 m e r) n =
    (if n < 3 then bit (of_nat r :: byte) n else if n = 3 then e
     else if n = 4 then False else bit m (n - 5))"
  using less8_cases [OF assms] by (auto simp: compute_d1_def cd_masks bit_simps)

lemma lm_eqI: "(\<And>n. n < 3 \<Longrightarrow> bit a n = bit b n) \<Longrightarrow> a < 8 \<Longrightarrow> b < 8 \<Longrightarrow> a = (b :: byte)"
  by (rule bit_word_eqI) (metis lm_bit_above)

lemma drop_bit_5_less: "drop_bit 5 (x :: byte) < 8"
proof -
  have "drop_bit 5 x = x div 32" by (simp add: drop_bit_eq_div)
  then have "unat (drop_bit 5 x) = unat x div 32" by (simp only: unat_div) simp
  then show ?thesis using unat_byte_less [of x]
    by (simp only: word_less_nat_alt) (simp add: less_mult_imp_div_less)
qed

lemma level_mask_less [simp]: "cd_level_mask d < 8"
  by (simp add: cd_level_mask_def drop_bit_5_less)

lemma level_mask_compute_d1 [simp]:
  assumes "m < 8"
  shows "cd_level_mask (cd_new (compute_d1 m e r) b) = m"
proof (rule lm_eqI)
  fix n :: nat assume "n < 3"
  then show "bit (cd_level_mask (cd_new (compute_d1 m e r) b)) n = bit m n"
    by (simp add: cd_level_mask_def cd_new_def bit_simps bit_compute_d1)
qed (use assms in simp_all)

lemma is_exotic_iff_bit: "is_exotic d \<longleftrightarrow> bit (d1 d) 3"
  by (simp add: is_exotic_def IS_EXOTIC_MASK_def bit_iff_and_push_bit_not_eq_0)

lemma store_hashes_iff_bit: "store_hashes d \<longleftrightarrow> bit (d1 d) 4"
  by (simp add: store_hashes_def STORE_HASHES_MASK_def bit_iff_and_push_bit_not_eq_0)

lemma is_exotic_compute_d1 [simp]: "is_exotic (cd_new (compute_d1 m e r) b) = e"
  by (simp add: is_exotic_iff_bit cd_new_def bit_compute_d1)

lemma store_hashes_compute_d1 [simp]: "\<not> store_hashes (cd_new (compute_d1 m e r) b)"
  by (simp add: store_hashes_iff_bit cd_new_def bit_compute_d1)

lemma reference_count_compute_d1 [simp]:
  assumes "r < 8"
  shows "reference_count (cd_new (compute_d1 m e r) b) = r"
proof -
  have "compute_d1 m e r AND 7 = (of_nat r :: byte)"
  proof (rule bit_word_eqI)
    fix n :: nat assume "n < LENGTH(8)"
    then have n: "n < 8" by simp
    have "unat (of_nat r :: byte) = r" using assms by (simp add: unat_of_nat)
    then have "(of_nat r :: byte) < 8" using assms by (simp add: word_less_nat_alt)
    then have "bit (of_nat r :: byte) n \<Longrightarrow> n < 3" by (rule lm_bit_above)
    then show "bit (compute_d1 m e r AND 7) n = bit (of_nat r :: byte) n"
      using less8_cases [OF n] bit_compute_d1 [OF n, of m e r] by (auto simp: bit_simps)
  qed
  then show ?thesis using assms
    by (simp add: reference_count_def cd_new_def REF_COUNT_MASK_def unat_of_nat)
qed

lemma compute_d2_eq: "compute_d2 n = of_nat (2 * (n div 8) + of_bool (n mod 8 \<noteq> 0))"
proof (rule bit_word_eqI)
  fix i :: nat assume i: "i < LENGTH(8)"
  have q: "(2 * (n div 8) + of_bool (n mod 8 \<noteq> 0)) div 2 = n div 8"
    "n div 4 div 2 = n div 8"
    by (simp_all add: div_mult2_eq [symmetric])
  show "bit (compute_d2 n) i = bit (of_nat (2 * (n div 8) + of_bool (n mod 8 \<noteq> 0)) :: byte) i"
  proof (cases i)
    case 0
    then show ?thesis
      by (simp add: compute_d2_def bit_or_iff bit_and_iff bit_not_iff bit_of_nat_iff bit_1_iff
          bit_of_bool_iff del: bit_0) (simp add: bit_0)
  next
    case (Suc k)
    have "bit (compute_d2 n) i = bit (n div 4) (Suc k)"
      using i Suc by (simp add: compute_d2_def bit_or_iff bit_and_iff bit_not_iff
          bit_of_nat_iff bit_1_iff bit_of_bool_iff)
    also have "\<dots> = bit (2 * (n div 8) + of_bool (n mod 8 \<noteq> 0)) (Suc k)"
      unfolding bit_Suc q ..
    finally show ?thesis using i Suc by (simp only: bit_of_nat_iff) simp
  qed
qed

lemma unat_compute_d2:
  assumes "n \<le> 1023"
  shows "unat (compute_d2 n) = 2 * (n div 8) + of_bool (n mod 8 \<noteq> 0)"
proof -
  have "n div 8 \<le> 127" using assms by auto
  then have "2 * (n div 8) + of_bool (n mod 8 \<noteq> 0) < (256 :: nat)" by auto
  then show ?thesis unfolding compute_d2_eq by (simp only: unat_of_nat) simp
qed

lemma byte_len_nat: "byte_len d = unat (d2 d) mod 2 + unat (d2 d) div 2"
proof -
  have "unat (d2 d AND 1) = unat (d2 d) mod 2"
    by (simp add: and_one_eq unat_mod)
  moreover have "unat (drop_bit 1 (d2 d)) = unat (d2 d) div 2"
    by (simp add: drop_bit_eq_div unat_div)
  moreover have "unat (d2 d) mod 2 + unat (d2 d) div 2 < 256"
    using unat_byte_less [of "d2 d"] by linarith
  ultimately show ?thesis by (simp add: byte_len_def unat_word_ariths)
qed

lemma div_ceil8_eq: "div_ceil8 n = n div 8 + of_bool (n mod 8 \<noteq> 0)"
proof (rule split_index8 [of n])
  fix q j assume "n = 8 * q + j" "j < 8" "n div 8 = q" "n mod 8 = j"
  then show ?thesis by (cases "j = 0") (auto simp: div_ceil8_def)
qed

lemma byte_len_compute_d2:
  "n \<le> 1023 \<Longrightarrow> byte_len \<lparr>d1 = b, d2 = compute_d2 n\<rparr> = div_ceil8 n"
  by (simp add: byte_len_nat unat_compute_d2 div_ceil8_eq)

lemma is_aligned_compute_d2:
  "is_aligned \<lparr>d1 = b, d2 = compute_d2 n\<rparr> \<longleftrightarrow> 8 dvd n"
proof -
  have "compute_d2 n AND 1 = of_bool (n mod 8 \<noteq> 0)"
    by (rule bit_word_eqI) (auto simp: compute_d2_def bit_simps)
  then show ?thesis by (simp add: is_aligned_def mod_eq_0_iff_dvd)
qed


lemma bit_cd_virtualize:
  assumes "n < 8"
  shows "bit (d1 (cd_virtualize d k)) n =
    (if n < 5 then bit (d1 d) n else bit (d1 d) (n + k))"
  using less8_cases [OF assms]
  by (auto simp: cd_virtualize_def Let_def LEVEL_MASK_def bit_simps add.commute)

lemma level_mask_cd_virtualize: "cd_level_mask (cd_virtualize d k) = lm_virtualize (cd_level_mask d) k"
proof (rule lm_eqI)
  fix n :: nat assume "n < 3"
  then show "bit (cd_level_mask (cd_virtualize d k)) n = bit (lm_virtualize (cd_level_mask d) k) n"
    by (simp add: cd_level_mask_def lm_virtualize_def bit_drop_bit_eq bit_cd_virtualize ac_simps)
qed (simp_all add: lm_virtualize_less)

lemma cell_type_compute_d1:
  assumes "m < 8" and "r < 8"
  shows "cell_type (cd_new (compute_d1 m e r) b) =
    (if \<not> e then Ordinary
     else if r = 0 then (if m = 0 then LibraryReferenceType else PrunedBranchType)
     else if r = 1 then MerkleProofType else MerkleUpdateType)"
proof -
  let ?d = "cd_new (compute_d1 m e r) b"
  have rc: "d1 ?d AND REF_COUNT_MASK = of_nat r"
  proof -
    have "of_nat (reference_count ?d) = d1 ?d AND REF_COUNT_MASK"
      by (simp add: reference_count_def)
    then show ?thesis using assms(2) by simp
  qed
  have lm: "d1 ?d AND LEVEL_MASK = 0 \<longleftrightarrow> m = 0"
  proof -
    have "d1 ?d AND LEVEL_MASK = push_bit 5 m"
    proof (rule bit_word_eqI)
      fix n :: nat assume "n < LENGTH(8)"
      then have n: "n < 8" by simp
      show "bit (d1 ?d AND LEVEL_MASK) n = bit (push_bit 5 m) n"
        using less8_cases [OF n] by (auto simp: cd_new_def bit_compute_d1 bit_and_iff
            LEVEL_MASK_def bit_push_bit_iff)
    qed
    moreover have "push_bit 5 m = 0 \<longleftrightarrow> m = 0" using lm_cases [OF assms(1)] by auto
    ultimately show ?thesis by simp
  qed
  have rn: "(of_nat r :: byte) = 0 \<longleftrightarrow> r = 0" "(of_nat r :: byte) = 1 \<longleftrightarrow> r = 1"
    using less8_cases [OF assms(2)] by auto
  have "d1 ?d AND IS_EXOTIC_MASK = 0 \<longleftrightarrow> \<not> e"
    using is_exotic_compute_d1 [of m e r b] unfolding is_exotic_def by blast
  then show ?thesis unfolding cell_type_def rc lm rn by simp
qed

section \<open>Size and CellTreeStats\<close>

definition MAX_BIT_LEN :: nat where "MAX_BIT_LEN = 1023"

definition MAX_REF_COUNT :: nat where "MAX_REF_COUNT = 4"

record size =
  sz_bits :: nat
  sz_refs :: nat

definition size_ZERO :: size where "size_ZERO = \<lparr>sz_bits = 0, sz_refs = 0\<rparr>"

definition size_BIT :: size where "size_BIT = \<lparr>sz_bits = 1, sz_refs = 0\<rparr>"

definition size_REF :: size where "size_REF = \<lparr>sz_bits = 0, sz_refs = 1\<rparr>"

definition size_MAX :: size where "size_MAX = \<lparr>sz_bits = MAX_BIT_LEN, sz_refs = MAX_REF_COUNT\<rparr>"

definition fits_into_cell :: "size \<Rightarrow> bool" where
  "fits_into_cell s \<longleftrightarrow> sz_bits s \<le> MAX_BIT_LEN \<and> sz_refs s \<le> MAX_REF_COUNT"

definition size_saturating_add :: "size \<Rightarrow> size \<Rightarrow> size" where
  "size_saturating_add a b =
     \<lparr>sz_bits = min 65535 (sz_bits a + sz_bits b), sz_refs = min 255 (sz_refs a + sz_refs b)\<rparr>"

definition size_saturating_sub :: "size \<Rightarrow> size \<Rightarrow> size" where
  "size_saturating_sub a b = \<lparr>sz_bits = sz_bits a - sz_bits b, sz_refs = sz_refs a - sz_refs b\<rparr>"

definition size_is_zero :: "size \<Rightarrow> bool" where
  "size_is_zero s \<longleftrightarrow> sz_bits s = 0 \<and> sz_refs s = 0"

definition size_add :: "size \<Rightarrow> size \<Rightarrow> size" where
  "size_add a b = \<lparr>sz_bits = u16_add (sz_bits a) (sz_bits b), sz_refs = u8_add (sz_refs a) (sz_refs b)\<rparr>"

record cell_tree_stats =
  st_bit_count :: nat
  st_cell_count :: nat

definition u64_max :: nat where "u64_max = 2 ^ 64 - 1"

definition stats_ZERO :: cell_tree_stats where
  "stats_ZERO = \<lparr>st_bit_count = 0, st_cell_count = 0\<rparr>"

definition stats_add :: "cell_tree_stats \<Rightarrow> cell_tree_stats \<Rightarrow> cell_tree_stats" where
  "stats_add a b =
     \<lparr>st_bit_count = min u64_max (st_bit_count a + st_bit_count b),
      st_cell_count = min u64_max (st_cell_count a + st_cell_count b)\<rparr>"

definition stats_add_size :: "cell_tree_stats \<Rightarrow> size \<Rightarrow> cell_tree_stats" where
  "stats_add_size a s =
     \<lparr>st_bit_count = min u64_max (st_bit_count a + sz_bits s),
      st_cell_count = min u64_max (st_cell_count a + sz_refs s)\<rparr>"

definition stats_sub :: "cell_tree_stats \<Rightarrow> cell_tree_stats \<Rightarrow> cell_tree_stats" where
  "stats_sub a b =
     \<lparr>st_bit_count = st_bit_count a - st_bit_count b, st_cell_count = st_cell_count a - st_cell_count b\<rparr>"

definition stats_sum :: "cell_tree_stats list \<Rightarrow> cell_tree_stats" where
  "stats_sum xs = foldl stats_add stats_ZERO xs"

end
