(* ===== verification/Cell_Slice.thy ===== *)
theory Cell_Slice
  imports Cell_Impl
begin

text \<open>
  \<^verbatim>\<open>src/cell/slice.rs\<close>: \<open>CellSliceRange\<close> and \<open>CellSlice\<close>, the read-only window over a cell.
  Every reader works on the packed bytes of the cell with the shifts and masks of the code; a
  \<open>&mut self\<close> method returns the updated slice next to its result, and a failing method leaves the
  receiver as it was. Bit positions are \<open>nat\<close> with \<open>u16\<close> additions written \<open>u16_add\<close>.
  \<open>slice_bits\<close> and \<open>slice_refs\<close> are the window as a list of bits and of child cells: the
  specification side. The lemmas of this theory and of \<open>Cell_Slice_Props\<close> relate the two.
\<close>

section \<open>CellSliceRange\<close>

record cell_slice_range =
  bits_start :: nat
  bits_end :: nat
  refs_start :: nat
  refs_end :: nat

definition range_empty :: cell_slice_range where
  "range_empty = \<lparr>bits_start = 0, bits_end = 0, refs_start = 0, refs_end = 0\<rparr>"

definition range_full :: "cell \<Rightarrow> cell_slice_range" where
  "range_full c =
     \<lparr>bits_start = 0, bits_end = cell_bit_len c, refs_start = 0, refs_end = cell_reference_count c\<rparr>"

definition range_size_bits :: "cell_slice_range \<Rightarrow> nat" where
  "range_size_bits r = bits_end r - bits_start r"

definition range_size_refs :: "cell_slice_range \<Rightarrow> nat" where
  "range_size_refs r = refs_end r - refs_start r"

definition range_size :: "cell_slice_range \<Rightarrow> size" where
  "range_size r = \<lparr>sz_bits = range_size_bits r, sz_refs = range_size_refs r\<rparr>"

definition range_is_data_empty :: "cell_slice_range \<Rightarrow> bool" where
  "range_is_data_empty r \<longleftrightarrow> bits_start r \<ge> bits_end r"

definition range_is_refs_empty :: "cell_slice_range \<Rightarrow> bool" where
  "range_is_refs_empty r \<longleftrightarrow> refs_start r \<ge> refs_end r"

definition range_is_empty :: "cell_slice_range \<Rightarrow> bool" where
  "range_is_empty r \<longleftrightarrow> range_is_data_empty r \<and> range_is_refs_empty r"

definition range_offset :: "cell_slice_range \<Rightarrow> size" where
  "range_offset r = \<lparr>sz_bits = bits_start r, sz_refs = refs_start r\<rparr>"

definition range_has_remaining :: "cell_slice_range \<Rightarrow> nat \<Rightarrow> nat \<Rightarrow> bool" where
  "range_has_remaining r n k \<longleftrightarrow>
     u16_add (bits_start r) n \<le> bits_end r \<and> u8_add (refs_start r) k \<le> refs_end r"

definition range_skip_first :: "cell_slice_range \<Rightarrow> nat \<Rightarrow> nat \<Rightarrow> cell_slice_range result" where
  "range_skip_first r n k =
     (if u16_add (bits_start r) n > bits_end r \<or> u8_add (refs_start r) k > refs_end r
      then Err CellUnderflow
      else Ok (r\<lparr>bits_start := u16_add (bits_start r) n, refs_start := u8_add (refs_start r) k\<rparr>))"

definition range_only_first :: "cell_slice_range \<Rightarrow> nat \<Rightarrow> nat \<Rightarrow> cell_slice_range result" where
  "range_only_first r n k =
     (if u16_add (bits_start r) n > bits_end r \<or> u8_add (refs_start r) k > refs_end r
      then Err CellUnderflow
      else Ok (r\<lparr>bits_end := u16_add (bits_start r) n, refs_end := u8_add (refs_start r) k\<rparr>))"

definition range_skip_last :: "cell_slice_range \<Rightarrow> nat \<Rightarrow> nat \<Rightarrow> cell_slice_range result" where
  "range_skip_last r n k =
     (if u16_add (bits_start r) n > bits_end r \<or> u8_add (refs_start r) k > refs_end r
      then Err CellUnderflow
      else Ok (r\<lparr>bits_end := bits_end r - n, refs_end := refs_end r - k\<rparr>))"

definition range_only_last :: "cell_slice_range \<Rightarrow> nat \<Rightarrow> nat \<Rightarrow> cell_slice_range result" where
  "range_only_last r n k =
     (if u16_add (bits_start r) n > bits_end r \<or> u8_add (refs_start r) k > refs_end r
      then Err CellUnderflow
      else Ok (r\<lparr>bits_start := bits_end r - n, refs_start := refs_end r - k\<rparr>))"

definition range_split_prefix ::
  "cell_slice_range \<Rightarrow> nat \<Rightarrow> nat \<Rightarrow> (cell_slice_range \<times> cell_slice_range) result" where
  "range_split_prefix r n k =
     (if u16_add (bits_start r) n > bits_end r \<or> u8_add (refs_start r) k > refs_end r
      then Err CellUnderflow
      else let r' = r\<lparr>bits_start := u16_add (bits_start r) n, refs_start := u8_add (refs_start r) k\<rparr>
           in Ok (r\<lparr>bits_end := bits_start r', refs_end := refs_start r'\<rparr>, r'))"

definition range_split_suffix ::
  "cell_slice_range \<Rightarrow> nat \<Rightarrow> nat \<Rightarrow> (cell_slice_range \<times> cell_slice_range) result" where
  "range_split_suffix r n k =
     (if u16_add (bits_start r) n > bits_end r \<or> u8_add (refs_start r) k > refs_end r
      then Err CellUnderflow
      else let r' = r\<lparr>bits_end := bits_end r - n, refs_end := refs_end r - k\<rparr>
           in Ok (r\<lparr>bits_start := bits_end r', refs_start := refs_end r'\<rparr>, r'))"

definition range_get_prefix :: "cell_slice_range \<Rightarrow> nat \<Rightarrow> nat \<Rightarrow> cell_slice_range" where
  "range_get_prefix r n k =
     \<lparr>bits_start = bits_start r, bits_end = min (u16_add (bits_start r) n) (bits_end r),
      refs_start = refs_start r, refs_end = min (u8_add (refs_start r) k) (refs_end r)\<rparr>"

definition range_is_full :: "cell_slice_range \<Rightarrow> cell \<Rightarrow> bool" where
  "range_is_full r c \<longleftrightarrow>
     bits_start r = 0 \<and> refs_start r = 0 \<and> bits_end r = cell_bit_len c
     \<and> refs_end r = cell_reference_count c"

section \<open>CellSlice\<close>

record cell_slice =
  sl_cell :: cell
  sl_range :: cell_slice_range

definition slice_new_allow_exotic :: "cell \<Rightarrow> cell_slice" where
  "slice_new_allow_exotic c = \<lparr>sl_cell = c, sl_range = range_full c\<rparr>"

definition slice_new :: "cell \<Rightarrow> cell_slice result" where
  "slice_new c =
     (if cell_is_exotic c then Err UnexpectedExoticCell
      else Ok \<lparr>sl_cell = c, sl_range = range_full c\<rparr>)"

definition range_apply :: "cell_slice_range \<Rightarrow> cell \<Rightarrow> cell_slice result" where
  "range_apply r c =
     (if cell_is_exotic c then Err UnexpectedExoticCell
      else let be = min (bits_end r) (cell_bit_len c);
               re = min (refs_end r) (cell_reference_count c)
           in Ok \<lparr>sl_cell = c, sl_range =
                \<lparr>bits_start = min (bits_start r) be, bits_end = be,
                 refs_start = min (refs_start r) re, refs_end = re\<rparr>\<rparr>)"

definition range_apply_allow_exotic :: "cell_slice_range \<Rightarrow> cell \<Rightarrow> cell_slice" where
  "range_apply_allow_exotic r c = \<lparr>sl_cell = c, sl_range = r\<rparr>"

definition size_bits :: "cell_slice \<Rightarrow> nat" where
  "size_bits s = range_size_bits (sl_range s)"

definition size_refs :: "cell_slice \<Rightarrow> nat" where
  "size_refs s = range_size_refs (sl_range s)"

definition is_data_empty :: "cell_slice \<Rightarrow> bool" where
  "is_data_empty s = range_is_data_empty (sl_range s)"

definition is_refs_empty :: "cell_slice \<Rightarrow> bool" where
  "is_refs_empty s = range_is_refs_empty (sl_range s)"

definition has_remaining :: "cell_slice \<Rightarrow> nat \<Rightarrow> nat \<Rightarrow> bool" where
  "has_remaining s n k = range_has_remaining (sl_range s) n k"

definition slice_is_full :: "cell_slice \<Rightarrow> bool" where
  "slice_is_full s = range_is_full (sl_range s) (sl_cell s)"

definition with_range :: "cell_slice \<Rightarrow> cell_slice_range result \<Rightarrow> cell_slice result" where
  "with_range s r = ok r (\<lambda>r'. Ok (s\<lparr>sl_range := r'\<rparr>))"

definition skip_first :: "cell_slice \<Rightarrow> nat \<Rightarrow> nat \<Rightarrow> cell_slice result" where
  "skip_first s n k = with_range s (range_skip_first (sl_range s) n k)"

definition only_first :: "cell_slice \<Rightarrow> nat \<Rightarrow> nat \<Rightarrow> cell_slice result" where
  "only_first s n k = with_range s (range_only_first (sl_range s) n k)"

definition skip_last :: "cell_slice \<Rightarrow> nat \<Rightarrow> nat \<Rightarrow> cell_slice result" where
  "skip_last s n k = with_range s (range_skip_last (sl_range s) n k)"

definition only_last :: "cell_slice \<Rightarrow> nat \<Rightarrow> nat \<Rightarrow> cell_slice result" where
  "only_last s n k = with_range s (range_only_last (sl_range s) n k)"

definition get_prefix :: "cell_slice \<Rightarrow> nat \<Rightarrow> nat \<Rightarrow> cell_slice" where
  "get_prefix s n k = s\<lparr>sl_range := range_get_prefix (sl_range s) n k\<rparr>"

definition load_remaining :: "cell_slice \<Rightarrow> cell_slice \<times> cell_slice" where
  "load_remaining s =
     (s, s\<lparr>sl_range := (sl_range s)\<lparr>bits_start := bits_end (sl_range s),
                                     refs_start := refs_end (sl_range s)\<rparr>\<rparr>)"

definition load_prefix :: "cell_slice \<Rightarrow> nat \<Rightarrow> nat \<Rightarrow> (cell_slice \<times> cell_slice) result" where
  "load_prefix s n k =
     ok (range_split_prefix (sl_range s) n k) (\<lambda>(p, r). Ok (s\<lparr>sl_range := p\<rparr>, s\<lparr>sl_range := r\<rparr>))"

definition load_suffix :: "cell_slice \<Rightarrow> nat \<Rightarrow> nat \<Rightarrow> (cell_slice \<times> cell_slice) result" where
  "load_suffix s n k =
     ok (range_split_suffix (sl_range s) n k) (\<lambda>(p, r). Ok (s\<lparr>sl_range := p\<rparr>, s\<lparr>sl_range := r\<rparr>))"

definition without_references :: "cell_slice \<Rightarrow> cell_slice" where
  "without_references s = s\<lparr>sl_range := (sl_range s)\<lparr>refs_start := refs_end (sl_range s)\<rparr>\<rparr>"

section \<open>Reading bits and integers\<close>

definition advance :: "cell_slice \<Rightarrow> nat \<Rightarrow> cell_slice" where
  "advance s n = s\<lparr>sl_range := (sl_range s)\<lparr>bits_start := u16_add (bits_start (sl_range s)) n\<rparr>\<rparr>"

definition load_with :: "cell_slice \<Rightarrow> 'a result \<Rightarrow> nat \<Rightarrow> ('a \<times> cell_slice) result" where
  "load_with s res n = ok res (\<lambda>v. Ok (v, advance s n))"

definition get_bit :: "cell_slice \<Rightarrow> nat \<Rightarrow> bool result" where
  "get_bit s offset =
     (let index = u16_add (bits_start (sl_range s)) offset
      in if index < bits_end (sl_range s) then
           (case nth_opt (cell_data (sl_cell s)) (index div 8) of
              Some b \<Rightarrow> Ok (drop_bit (7 - index mod 8) b AND 1 \<noteq> 0)
            | None \<Rightarrow> Err CellUnderflow)
         else Err CellUnderflow)"

definition load_bit :: "cell_slice \<Rightarrow> (bool \<times> cell_slice) result" where
  "load_bit s =
     (let index = bits_start (sl_range s)
      in if index < bits_end (sl_range s) then
           (case nth_opt (cell_data (sl_cell s)) (index div 8) of
              Some b \<Rightarrow> Ok (drop_bit (7 - index mod 8) b AND 1 \<noteq> 0, advance s 1)
            | None \<Rightarrow> Err CellUnderflow)
         else Err CellUnderflow)"

text \<open>
  \<open>get_u16\<close>, \<open>get_u32\<close> and \<open>get_u64\<close> are the same code at three widths: an aligned read, or a read
  of one byte more into an integer of twice the width (\<open>'w\<close>) that is then shifted and truncated.
\<close>

definition get_wide :: "'w::len itself \<Rightarrow> cell_slice \<Rightarrow> nat \<Rightarrow> 'a::len word result" where
  "get_wide W s offset =
    (let n = LENGTH('a); nb = n div 8; r0 = sl_range s
     in if u16_add (u16_add (bits_start r0) offset) n \<le> bits_end r0 then
       let index = u16_add (bits_start r0) offset;
           ds = cell_data (sl_cell s);
           r = index mod 8;
           q = index div 8
       in if r = 0 \<and> q + nb \<le> length ds then Ok (from_be_bytes (take nb (drop q ds)))
          else if r \<noteq> 0 \<and> q + (nb + 1) \<le> length ds then
            let buf = copy_bytes (replicate (LENGTH('w) div 8) 0) (nb - 1) (drop q ds) (nb + 1);
                res = (from_be_bytes buf :: 'w word)
            in Ok (ucast (drop_bit (8 - r) res))
          else Err CellUnderflow
     else Err CellUnderflow)"

definition get_u16 :: "cell_slice \<Rightarrow> nat \<Rightarrow> 16 word result" where
  "get_u16 = get_wide TYPE(32)"

definition get_u32 :: "cell_slice \<Rightarrow> nat \<Rightarrow> 32 word result" where
  "get_u32 = get_wide TYPE(64)"

definition get_u64 :: "cell_slice \<Rightarrow> nat \<Rightarrow> 64 word result" where
  "get_u64 = get_wide TYPE(128)"

definition get_u128 :: "cell_slice \<Rightarrow> nat \<Rightarrow> 128 word result" where
  "get_u128 s offset =
    (let r0 = sl_range s
     in if u16_add (u16_add (bits_start r0) offset) 128 \<le> bits_end r0 then
       let index = u16_add (bits_start r0) offset;
           ds = cell_data (sl_cell s);
           r = index mod 8;
           q = index div 8
       in if r = 0 \<and> q + 16 \<le> length ds then Ok (from_be_bytes (take 16 (drop q ds)))
          else if r \<noteq> 0 \<and> q + 17 \<le> length ds then
            let buf = copy_bytes (replicate 17 0) 0 (drop q ds) 17;
                res = (from_be_bytes (drop 1 buf) :: 128 word)
            in Ok (push_bit (120 + r) (ucast (buf ! 0)) OR drop_bit (8 - r) res)
          else Err CellUnderflow
     else Err CellUnderflow)"

definition get_u256 :: "cell_slice \<Rightarrow> nat \<Rightarrow> hash_bytes result" where
  "get_u256 s offset =
    (let r0 = sl_range s
     in if u16_add (u16_add (bits_start r0) offset) 256 \<le> bits_end r0 then
       let index = u16_add (bits_start r0) offset;
           ds = cell_data (sl_cell s);
           r = index mod 8;
           q = index div 8
       in if r = 0 \<and> q + 32 \<le> length ds then Ok (take 32 (drop q ds))
          else if r \<noteq> 0 \<and> q + 33 \<le> length ds then
            let shift = 8 - r;
                rev_shift = 120 + r;
                buf = copy_bytes (replicate 33 0) 0 (drop q ds) 33;
                ovf = buf ! 0;
                hi = (from_be_bytes (take 16 (drop 1 buf)) :: 128 word);
                lo = (from_be_bytes (drop 17 buf) :: 128 word)
            in Ok (to_be_bytes (drop_bit shift hi OR push_bit rev_shift (ucast ovf))
                   @ to_be_bytes (drop_bit shift lo OR push_bit rev_shift hi))
          else Err CellUnderflow
     else Err CellUnderflow)"

definition get_small_uint :: "cell_slice \<Rightarrow> nat \<Rightarrow> nat \<Rightarrow> byte result" where
  "get_small_uint s offset n =
    (if n = 0 then Ok 0
     else
       let r0 = sl_range s
       in if n \<le> 8 \<and> u16_add (u16_add (bits_start r0) offset) n \<le> bits_end r0 then
         let index = u16_add (bits_start r0) offset;
             r = index mod 8;
             q = index div 8
         in case nth_opt (cell_data (sl_cell s)) q of
              None \<Rightarrow> Err CellUnderflow
            | Some b \<Rightarrow>
              if r = 0 then Ok (drop_bit (8 - n) b)
              else if n \<le> 8 - r then Ok (drop_bit (8 - r - n) b AND (push_bit n 1 - 1))
              else
                (case nth_opt (cell_data (sl_cell s)) (q + 1) of
                   None \<Rightarrow> Err CellUnderflow
                 | Some next_byte \<Rightarrow>
                   let res = (push_bit 8 (ucast b) OR ucast next_byte :: 16 word)
                   in Ok (drop_bit (8 - n) (ucast (drop_bit (8 - r) res))))
       else Err CellUnderflow)"

definition get_u8 :: "cell_slice \<Rightarrow> nat \<Rightarrow> byte result" where
  "get_u8 s offset = get_small_uint s offset 8"

definition get_uint :: "cell_slice \<Rightarrow> nat \<Rightarrow> nat \<Rightarrow> 64 word result" where
  "get_uint s offset n =
    (if n = 0 then Ok 0
     else
       let r0 = sl_range s
       in if n \<le> 64 \<and> u16_add (u16_add (bits_start r0) offset) n \<le> bits_end r0 then
         let index = u16_add (bits_start r0) offset;
             ds = cell_data (sl_cell s)
         in if div_ceil8 (bits_end r0) > length ds then Err CellUnderflow
            else
              let r = index mod 8;
                  q = index div 8;
                  first_byte = ds ! q AND drop_bit r 0xff;
                  right_shift = (8 - (n + r) mod 8) mod 8
              in if r + n \<le> 8 then Ok (ucast (drop_bit right_shift first_byte))
                 else
                   let n' = n - (8 - r);
                       buf = copy_bytes (replicate 8 0) 0 (drop (q + 1) ds) (div_ceil8 n')
                   in Ok (drop_bit (64 - n') (from_be_bytes buf) OR push_bit n' (ucast first_byte))
       else Err CellUnderflow)"

definition load_u8 :: "cell_slice \<Rightarrow> (byte \<times> cell_slice) result" where
  "load_u8 s = load_with s (get_small_uint s 0 8) 8"

definition load_u16 :: "cell_slice \<Rightarrow> (16 word \<times> cell_slice) result" where
  "load_u16 s = load_with s (get_u16 s 0) 16"

definition load_u32 :: "cell_slice \<Rightarrow> (32 word \<times> cell_slice) result" where
  "load_u32 s = load_with s (get_u32 s 0) 32"

definition load_u64 :: "cell_slice \<Rightarrow> (64 word \<times> cell_slice) result" where
  "load_u64 s = load_with s (get_u64 s 0) 64"

definition load_u128 :: "cell_slice \<Rightarrow> (128 word \<times> cell_slice) result" where
  "load_u128 s = load_with s (get_u128 s 0) 128"

definition load_u256 :: "cell_slice \<Rightarrow> (hash_bytes \<times> cell_slice) result" where
  "load_u256 s = load_with s (get_u256 s 0) 256"

definition load_small_uint :: "cell_slice \<Rightarrow> nat \<Rightarrow> (byte \<times> cell_slice) result" where
  "load_small_uint s n = load_with s (get_small_uint s 0 n) n"

definition load_uint :: "cell_slice \<Rightarrow> nat \<Rightarrow> (64 word \<times> cell_slice) result" where
  "load_uint s n = load_with s (get_uint s 0 n) n"

text \<open>
  \<open>get_raw\<close> copies into the caller's buffer \<open>target\<close> and returns the written prefix of it. The
  unaligned loop reads one byte past each byte it writes.
\<close>

fun get_raw_loop :: "byte list \<Rightarrow> nat \<Rightarrow> nat \<Rightarrow> nat \<Rightarrow> nat \<Rightarrow> byte list \<Rightarrow> byte list" where
  "get_raw_loop ds q r i 0 target = target"
| "get_raw_loop ds q r i (Suc n) target =
     get_raw_loop ds (q + 1) r (i + 1) n
       (target[i := push_bit r (ds ! q) OR drop_bit (8 - r) (ds ! (q + 1))])"

definition mask_last :: "byte list \<Rightarrow> nat \<Rightarrow> nat \<Rightarrow> byte list" where
  "mask_last ds i rem = (if rem \<noteq> 0 then ds[i := ds ! i AND push_bit (8 - rem) 0xff] else ds)"

definition get_raw :: "cell_slice \<Rightarrow> nat \<Rightarrow> byte list \<Rightarrow> nat \<Rightarrow> byte list result" where
  "get_raw s offset target n =
    (if n = 0 then Ok []
     else
       let r0 = sl_range s
       in if u16_add (bits_start r0) n \<le> bits_end r0 then
         let index = u16_add (bits_start r0) offset;
             ds = cell_data (sl_cell s);
             target_len = div_ceil8 n
         in if target_len > length target then Err CellUnderflow
            else
              let target = take target_len target;
                  r = index mod 8;
                  q = index div 8
              in if r = 0 \<and> q + target_len \<le> length ds
                 then Ok (mask_last (copy_bytes target 0 (drop q ds) target_len)
                            (target_len - 1) (n mod 8))
                 else if r \<noteq> 0 then
                   let byte_len = div_ceil8 (n + r) - 1
                   in if q + byte_len > length ds then Err CellUnderflow
                      else
                        let target = get_raw_loop ds q r 0 byte_len target;
                            target = (if byte_len < target_len
                                      then target[byte_len := push_bit r (ds ! (q + byte_len))]
                                      else target)
                        in Ok (mask_last target (target_len - 1) (n mod 8))
                 else Err CellUnderflow
       else Err CellUnderflow)"

definition load_raw :: "cell_slice \<Rightarrow> byte list \<Rightarrow> nat \<Rightarrow> (byte list \<times> cell_slice) result" where
  "load_raw s target n = load_with s (get_raw s 0 target n) n"

section \<open>References\<close>

definition get_reference :: "cell_slice \<Rightarrow> nat \<Rightarrow> cell result" where
  "get_reference s index =
     (let i = u8_add (refs_start (sl_range s)) index
      in if i < refs_end (sl_range s) then
           (case reference (sl_cell s) i of Some c \<Rightarrow> Ok c | None \<Rightarrow> Err CellUnderflow)
         else Err CellUnderflow)"

definition get_reference_cloned :: "cell_slice \<Rightarrow> nat \<Rightarrow> cell result" where
  "get_reference_cloned s index =
     (let i = u8_add (refs_start (sl_range s)) index
      in if i < refs_end (sl_range s) then
           (case reference_cloned (sl_cell s) i of Some c \<Rightarrow> Ok c | None \<Rightarrow> Err CellUnderflow)
         else Err CellUnderflow)"

definition get_reference_as_slice :: "cell_slice \<Rightarrow> nat \<Rightarrow> cell_slice result" where
  "get_reference_as_slice s index =
     (let i = u8_add (refs_start (sl_range s)) index
      in if i < refs_end (sl_range s) then
           (case reference (sl_cell s) i of Some c \<Rightarrow> slice_new c | None \<Rightarrow> Err CellUnderflow)
         else Err CellUnderflow)"

definition advance_refs :: "cell_slice \<Rightarrow> cell_slice" where
  "advance_refs s = s\<lparr>sl_range := (sl_range s)\<lparr>refs_start := u8_add (refs_start (sl_range s)) 1\<rparr>\<rparr>"

definition load_reference :: "cell_slice \<Rightarrow> (cell \<times> cell_slice) result" where
  "load_reference s =
     (if refs_start (sl_range s) < refs_end (sl_range s) then
        (case reference (sl_cell s) (refs_start (sl_range s)) of
           Some c \<Rightarrow> Ok (c, advance_refs s)
         | None \<Rightarrow> Err CellUnderflow)
      else Err CellUnderflow)"

definition load_reference_cloned :: "cell_slice \<Rightarrow> (cell \<times> cell_slice) result" where
  "load_reference_cloned s =
     (if refs_start (sl_range s) < refs_end (sl_range s) then
        (case reference_cloned (sl_cell s) (refs_start (sl_range s)) of
           Some c \<Rightarrow> Ok (c, advance_refs s)
         | None \<Rightarrow> Err CellUnderflow)
      else Err CellUnderflow)"

definition load_reference_as_slice :: "cell_slice \<Rightarrow> (cell_slice \<times> cell_slice) result" where
  "load_reference_as_slice s =
     (if refs_start (sl_range s) < refs_end (sl_range s) then
        (case reference (sl_cell s) (refs_start (sl_range s)) of
           Some c \<Rightarrow> ok (slice_new c) (\<lambda>res. Ok (res, advance_refs s))
         | None \<Rightarrow> Err CellUnderflow)
      else Err CellUnderflow)"

text \<open>The iterator \<open>RefsIter\<close>; its operations are in \<^verbatim>\<open>Cell_Tree\<close>.\<close>

record refs_iter =
  ri_cell :: cell
  ri_max :: nat
  ri_index :: nat

definition slice_references :: "cell_slice \<Rightarrow> refs_iter" where
  "slice_references s =
     \<lparr>ri_cell = sl_cell s, ri_max = refs_end (sl_range s), ri_index = refs_start (sl_range s)\<rparr>"

text \<open>What a \<open>for\<close> loop over \<open>references().cloned()\<close> sees: it stops at the first \<open>None\<close>.\<close>

fun iter_cloned :: "cell \<Rightarrow> nat \<Rightarrow> nat \<Rightarrow> cell list" where
  "iter_cloned c i 0 = []"
| "iter_cloned c i (Suc n) =
     (case reference_cloned c i of None \<Rightarrow> [] | Some r \<Rightarrow> r # iter_cloned c (i + 1) n)"

definition slice_references_cloned :: "cell_slice \<Rightarrow> cell list" where
  "slice_references_cloned s =
     iter_cloned (sl_cell s) (refs_start (sl_range s)) (size_refs s)"

end
