(* ===== verification/Cell_Builder.thy ===== *)
theory Cell_Builder
  imports Cell_Slice
begin

text \<open>
  \<^verbatim>\<open>src/cell/builder.rs\<close>: \<open>CellDataBuilder\<close> (a 128-byte buffer with a bit length), \<open>CellBuilder\<close>
  (the buffer, the exotic flag and up to four references) and \<open>CellRefsBuilder\<close>. Every store
  operation is the byte-level code: the shifts, the \<open>|=\<close> into the last partial byte, the block
  copies. The buffer is a byte list of length 128; an operation on \<open>&mut self\<close> returns the updated
  builder, and an operation that fails leaves the receiver unchanged unless said otherwise.
\<close>

section \<open>CellDataBuilder\<close>

record cell_data_builder =
  bd_data :: "byte list"
  bd_bit_len :: nat

definition bd_new :: cell_data_builder where
  "bd_new = \<lparr>bd_data = replicate 128 0, bd_bit_len = 0\<rparr>"

definition bd_size_bits :: "cell_data_builder \<Rightarrow> nat" where
  "bd_size_bits b = bd_bit_len b"

definition spare_capacity_bits :: "cell_data_builder \<Rightarrow> nat" where
  "spare_capacity_bits b = MAX_BIT_LEN - bd_bit_len b"

definition has_capacity_bits :: "cell_data_builder \<Rightarrow> nat \<Rightarrow> bool" where
  "has_capacity_bits b n \<longleftrightarrow> u16_add (bd_bit_len b) n \<le> MAX_BIT_LEN"

definition clear_bits :: "cell_data_builder \<Rightarrow> cell_data_builder" where
  "clear_bits b = \<lparr>bd_data = replicate 128 0, bd_bit_len = 0\<rparr>"

text \<open>\<open>ptr::write_bytes(data_ptr, 0, n)\<close>.\<close>

definition zero_bytes :: "byte list \<Rightarrow> nat \<Rightarrow> nat \<Rightarrow> byte list" where
  "zero_bytes d off n = copy_bytes d off (replicate n 0) n"

definition rewind_bits :: "cell_data_builder \<Rightarrow> nat \<Rightarrow> cell_data_builder result" where
  "rewind_bits b n =
    (if n = 0 then Ok b
     else if bd_bit_len b < n then Err CellUnderflow
     else
       let new_bit_len = bd_bit_len b - n;
           q = new_bit_len div 8;
           r = new_bit_len mod 8
       in if r \<noteq> 0 then
            let shift = 8 - r;
                d = (bd_data b)[q := bd_data b ! q AND push_bit shift 0xff]
            in Ok \<lparr>bd_data = zero_bytes d (q + 1) (div_ceil8 (n - shift)), bd_bit_len = new_bit_len\<rparr>
          else Ok \<lparr>bd_data = zero_bytes (bd_data b) q (div_ceil8 n), bd_bit_len = new_bit_len\<rparr>)"

definition store_zeros :: "cell_data_builder \<Rightarrow> nat \<Rightarrow> cell_data_builder result" where
  "store_zeros b n =
    (if u16_add (bd_bit_len b) n \<le> MAX_BIT_LEN
     then Ok (b\<lparr>bd_bit_len := u16_add (bd_bit_len b) n\<rparr>) else Err CellOverflow)"

definition store_bit_zero :: "cell_data_builder \<Rightarrow> cell_data_builder result" where
  "store_bit_zero b =
    (if bd_bit_len b < MAX_BIT_LEN then Ok (b\<lparr>bd_bit_len := bd_bit_len b + 1\<rparr>) else Err CellOverflow)"

definition store_bit_one :: "cell_data_builder \<Rightarrow> cell_data_builder result" where
  "store_bit_one b =
    (if bd_bit_len b < MAX_BIT_LEN then
       let q = bd_bit_len b div 8;
           r = bd_bit_len b mod 8
       in Ok \<lparr>bd_data = (bd_data b)[q := bd_data b ! q OR push_bit (7 - r) 1],
              bd_bit_len = bd_bit_len b + 1\<rparr>
     else Err CellOverflow)"

definition store_bit :: "cell_data_builder \<Rightarrow> bool \<Rightarrow> cell_data_builder result" where
  "store_bit b v = (if v then store_bit_one b else store_bit_zero b)"

definition store_u8 :: "cell_data_builder \<Rightarrow> byte \<Rightarrow> cell_data_builder result" where
  "store_u8 b v =
    (if u16_add (bd_bit_len b) 8 \<le> MAX_BIT_LEN then
       let q = bd_bit_len b div 8;
           r = bd_bit_len b mod 8;
           d = bd_data b
       in Ok \<lparr>bd_data =
                (if r = 0 then d[q := v]
                 else (d[q := d ! q OR drop_bit r v])[q + 1 := push_bit (8 - r) v]),
              bd_bit_len = bd_bit_len b + 8\<rparr>
     else Err CellOverflow)"

text \<open>The macro \<open>impl_store_uint!\<close>, instantiated at 16, 32, 64 and 128 bits.\<close>

definition store_uint_wide :: "cell_data_builder \<Rightarrow> 'a::len word \<Rightarrow> cell_data_builder result" where
  "store_uint_wide b v =
    (let n = LENGTH('a)
     in if u16_add (bd_bit_len b) n \<le> MAX_BIT_LEN then
       let q = bd_bit_len b div 8;
           r = bd_bit_len b mod 8;
           d = bd_data b
       in Ok \<lparr>bd_data =
                (if r = 0 then copy_bytes d q (to_be_bytes v) (n div 8)
                 else copy_bytes (d[q := d ! q OR ucast (drop_bit (n - 8 + r) v)]) (q + 1)
                        (to_be_bytes (push_bit (8 - r) v)) (n div 8)),
              bd_bit_len = bd_bit_len b + n\<rparr>
     else Err CellOverflow)"

definition store_u16 :: "cell_data_builder \<Rightarrow> 16 word \<Rightarrow> cell_data_builder result" where
  "store_u16 = store_uint_wide"

definition store_u32 :: "cell_data_builder \<Rightarrow> 32 word \<Rightarrow> cell_data_builder result" where
  "store_u32 = store_uint_wide"

definition store_u64 :: "cell_data_builder \<Rightarrow> 64 word \<Rightarrow> cell_data_builder result" where
  "store_u64 = store_uint_wide"

definition store_u128 :: "cell_data_builder \<Rightarrow> 128 word \<Rightarrow> cell_data_builder result" where
  "store_u128 = store_uint_wide"

definition store_u256 :: "cell_data_builder \<Rightarrow> hash_bytes \<Rightarrow> cell_data_builder result" where
  "store_u256 b v =
    (if u16_add (bd_bit_len b) 256 \<le> MAX_BIT_LEN then
       let q = bd_bit_len b div 8;
           r = bd_bit_len b mod 8;
           d = bd_data b
       in Ok \<lparr>bd_data =
                (if r = 0 then copy_bytes d q v 32
                 else
                   let hi = (from_be_bytes (take 16 v) :: 128 word);
                       lo = (from_be_bytes (drop 16 v) :: 128 word);
                       shift = 8 - r;
                       d = d[q := d ! q OR ucast (drop_bit (128 - shift) hi)];
                       hi' = to_be_bytes (push_bit shift hi OR drop_bit (128 - shift) lo);
                       lo' = to_be_bytes (push_bit shift lo)
                   in copy_bytes (copy_bytes d (q + 1) hi' 16) (q + 17) lo' 16),
              bd_bit_len = bd_bit_len b + 256\<rparr>
     else Err CellOverflow)"

definition store_small_uint :: "cell_data_builder \<Rightarrow> byte \<Rightarrow> nat \<Rightarrow> cell_data_builder result" where
  "store_small_uint b v n =
    (if n = 0 then Ok b
     else if u16_add (bd_bit_len b) n \<le> MAX_BIT_LEN then
       let bit_len = (if n \<ge> 8 then bd_bit_len b + (n - 8) else bd_bit_len b);
           n = min n 8;
           v = push_bit (8 - n) v;
           q = bit_len div 8;
           r = bit_len mod 8;
           d = bd_data b;
           d = (if r = 0 then d[q := v]
                else let d = d[q := d ! q OR drop_bit r v]
                     in if n + r > 8 then d[q + 1 := push_bit (8 - r) v] else d)
       in Ok \<lparr>bd_data = d, bd_bit_len = bit_len + n\<rparr>
     else Err CellOverflow)"

definition store_uint :: "cell_data_builder \<Rightarrow> 64 word \<Rightarrow> nat \<Rightarrow> cell_data_builder result" where
  "store_uint b v n =
    (if n = 0 then Ok b
     else if u16_add (bd_bit_len b) n \<le> MAX_BIT_LEN then
       let bit_len = (if n \<ge> 64 then bd_bit_len b + (n - 64) else bd_bit_len b);
           n = min n 64;
           v = push_bit (64 - n) v;
           q = bit_len div 8;
           r = bit_len mod 8;
           d = bd_data b;
           d = (if r = 0 then copy_bytes d q (to_be_bytes v) (div_ceil8 n)
                else
                  let shift = 8 - r;
                      d = d[q := d ! q OR ucast (drop_bit (64 - shift) v)]
                  in if n > shift
                     then copy_bytes d (q + 1) (to_be_bytes (push_bit shift v)) (div_ceil8 (n - shift))
                     else d)
       in Ok \<lparr>bd_data = d, bd_bit_len = bit_len + n\<rparr>
     else Err CellOverflow)"

text \<open>
  The free function \<open>store_raw\<close>. The length of the value in bits is truncated to \<open>u16\<close>; the
  unaligned loop writes one byte past each byte it completes.
\<close>

fun store_raw_loop :: "byte list \<Rightarrow> byte list \<Rightarrow> nat \<Rightarrow> nat \<Rightarrow> nat \<Rightarrow> nat \<Rightarrow> byte list" where
  "store_raw_loop d v q r i 0 = d"
| "store_raw_loop d v q r i (Suc n) =
     store_raw_loop ((d[q := d ! q OR drop_bit r (v ! i)])[q + 1 := push_bit (8 - r) (v ! i)])
       v (q + 1) r (i + 1) n"

definition raw_max_bit_len :: "byte list \<Rightarrow> nat" where
  "raw_max_bit_len v = (length v * 8) mod 65536"

definition store_raw :: "cell_data_builder \<Rightarrow> byte list \<Rightarrow> nat \<Rightarrow> cell_data_builder result" where
  "store_raw b v n =
    (if u16_add (bd_bit_len b) n \<le> MAX_BIT_LEN then
       let m = raw_max_bit_len v;
           bit_len = (if n \<ge> m then bd_bit_len b + (n - m) else bd_bit_len b);
           n = min n m
       in if n = 0 then Ok (b\<lparr>bd_bit_len := bit_len\<rparr>)
          else
            let q = bit_len div 8;
                r = bit_len mod 8;
                d = bd_data b;
                d = (if r = 0 then
                       let byte_len = div_ceil8 n;
                           d = copy_bytes d q v byte_len;
                           bits_r = n mod 8
                       in if bits_r \<noteq> 0
                          then d[q + byte_len - 1 := d ! (q + byte_len - 1) AND push_bit (8 - bits_r) 0xff]
                          else d
                     else
                       let byte_len = div_ceil8 (n + r) - 1;
                           value_len = div_ceil8 n;
                           d = store_raw_loop d v q r 0 byte_len;
                           p = q + byte_len;
                           d = (if byte_len < value_len
                                then d[p := d ! p OR drop_bit r (v ! byte_len)] else d);
                           bits_r = (r + n) mod 8
                       in if bits_r \<noteq> 0 then d[p := d ! p AND push_bit (8 - bits_r) 0xff] else d)
            in Ok \<lparr>bd_data = d, bd_bit_len = bit_len + n\<rparr>
     else Err CellOverflow)"

definition bd_from_raw_data :: "byte list \<Rightarrow> nat \<Rightarrow> cell_data_builder result" where
  "bd_from_raw_data v n = store_raw bd_new v n"

definition store_ones :: "cell_data_builder \<Rightarrow> nat \<Rightarrow> cell_data_builder result" where
  "store_ones b n = store_raw b (cell_data ALL_ONES_CELL) n"

definition store_cell_data :: "cell_data_builder \<Rightarrow> cell \<Rightarrow> cell_data_builder result" where
  "store_cell_data b c = store_raw b (cell_data c) (cell_bit_len c)"

definition store_slice_data :: "cell_data_builder \<Rightarrow> cell_slice \<Rightarrow> cell_data_builder result" where
  "store_slice_data b s =
    (let n = size_bits s
     in if u16_add (bd_bit_len b) n \<le> MAX_BIT_LEN
        then ok (get_raw s 0 (replicate 128 0) n) (\<lambda>slice_data. store_raw b slice_data n)
        else Err CellOverflow)"

definition prepend_raw :: "cell_data_builder \<Rightarrow> byte list \<Rightarrow> nat \<Rightarrow> cell_data_builder result" where
  "prepend_raw b v n =
    (if n = 0 then Ok b
     else if u16_add (bd_bit_len b) n \<le> MAX_BIT_LEN
     then ok (store_raw bd_new v n) (\<lambda>b'. store_raw b' (bd_data b) (bd_bit_len b))
     else Err CellOverflow)"

definition as_data_slice :: "cell_data_builder \<Rightarrow> cell_slice" where
  "as_data_slice b = slice_new_allow_exotic (IntermediateDataCell (bd_data b) (bd_bit_len b))"

definition bd_eq :: "cell_data_builder \<Rightarrow> cell_data_builder \<Rightarrow> bool" where
  "bd_eq a b \<longleftrightarrow> bd_bit_len a = bd_bit_len b \<and> bd_data a = bd_data b"

section \<open>CellBuilder\<close>

record cell_builder =
  cb_inner :: cell_data_builder
  cb_is_exotic :: bool
  cb_references :: "cell list"

definition cb_new :: cell_builder where
  "cb_new = \<lparr>cb_inner = bd_new, cb_is_exotic = False, cb_references = []\<rparr>"

text \<open>A method of the inner builder called through \<open>DerefMut\<close>.\<close>

definition on_inner ::
  "(cell_data_builder \<Rightarrow> cell_data_builder result) \<Rightarrow> cell_builder \<Rightarrow> cell_builder result" where
  "on_inner f b = ok (f (cb_inner b)) (\<lambda>d. Ok (b\<lparr>cb_inner := d\<rparr>))"

definition cb_from_raw_data :: "byte list \<Rightarrow> nat \<Rightarrow> cell_builder result" where
  "cb_from_raw_data v n = ok (bd_from_raw_data v n)
     (\<lambda>d. Ok \<lparr>cb_inner = d, cb_is_exotic = False, cb_references = []\<rparr>)"

definition as_full_slice :: "cell_builder \<Rightarrow> cell_slice" where
  "as_full_slice b = slice_new_allow_exotic
     (IntermediateFullCell (bd_data (cb_inner b)) (bd_bit_len (cb_inner b)) (cb_references b))"

definition cb_size :: "cell_builder \<Rightarrow> size" where
  "cb_size b = \<lparr>sz_bits = bd_bit_len (cb_inner b), sz_refs = length (cb_references b)\<rparr>"

definition spare_capacity_refs :: "cell_builder \<Rightarrow> nat" where
  "spare_capacity_refs b = MAX_REF_COUNT - length (cb_references b)"

definition has_capacity :: "cell_builder \<Rightarrow> nat \<Rightarrow> nat \<Rightarrow> bool" where
  "has_capacity b n k \<longleftrightarrow>
     u16_add (bd_bit_len (cb_inner b)) n \<le> MAX_BIT_LEN \<and> length (cb_references b) + k \<le> MAX_REF_COUNT"

definition set_exotic :: "cell_builder \<Rightarrow> bool \<Rightarrow> cell_builder" where
  "set_exotic b e = b\<lparr>cb_is_exotic := e\<rparr>"

definition store_reference :: "cell_builder \<Rightarrow> cell \<Rightarrow> cell_builder result" where
  "store_reference b c =
    (if length (cb_references b) < MAX_REF_COUNT
     then Ok (b\<lparr>cb_references := cb_references b @ [c]\<rparr>) else Err CellOverflow)"

definition set_references :: "cell_builder \<Rightarrow> cell list \<Rightarrow> cell_builder" where
  "set_references b rs = b\<lparr>cb_references := rs\<rparr>"

text \<open>The \<open>for\<close> loops of \<open>store_builder\<close> and \<open>store_slice\<close>.\<close>

fun store_references :: "cell_builder \<Rightarrow> cell list \<Rightarrow> cell_builder result" where
  "store_references b [] = Ok b"
| "store_references b (c # cs) = ok (store_reference b c) (\<lambda>b'. store_references b' cs)"

definition store_builder :: "cell_builder \<Rightarrow> cell_builder \<Rightarrow> cell_builder result" where
  "store_builder b o' =
    (if u16_add (bd_bit_len (cb_inner b)) (bd_bit_len (cb_inner o')) \<le> MAX_BIT_LEN
        \<and> length (cb_references b) + length (cb_references o') \<le> MAX_REF_COUNT
     then ok (on_inner (\<lambda>d. store_raw d (bd_data (cb_inner o')) (bd_bit_len (cb_inner o'))) b)
       (\<lambda>b'. store_references b' (cb_references o'))
     else Err CellOverflow)"

definition store_slice :: "cell_builder \<Rightarrow> cell_slice \<Rightarrow> cell_builder result" where
  "store_slice b s =
    (if u16_add (bd_bit_len (cb_inner b)) (size_bits s) \<le> MAX_BIT_LEN
        \<and> length (cb_references b) + size_refs s \<le> MAX_REF_COUNT
     then ok (on_inner (\<lambda>d. store_slice_data d s) b)
       (\<lambda>b'. store_references b' (slice_references_cloned s))
     else Err CellOverflow)"

text \<open>\<open>CellRefsBuilder\<close>.\<close>

definition refs_store_reference :: "cell list \<Rightarrow> cell \<Rightarrow> cell list result" where
  "refs_store_reference rs c =
    (if length rs < MAX_REF_COUNT then Ok (rs @ [c]) else Err CellOverflow)"

definition compute_level_mask :: "cell list \<Rightarrow> level_mask" where
  "compute_level_mask rs = foldl (\<lambda>m c. m OR cell_level_mask c) 0 rs"

section \<open>Building a cell\<close>

definition build_level_mask :: "cell_builder \<Rightarrow> level_mask \<Rightarrow> level_mask" where
  "build_level_mask b children_mask =
    (if cb_is_exotic b \<and> bd_bit_len (cb_inner b) \<ge> 8 then
       (case from_byte_exotic (bd_data (cb_inner b) ! 0) of
          Some PrunedBranchType \<Rightarrow> lm_new (bd_data (cb_inner b) ! 1)
        | Some MerkleProofType \<Rightarrow> lm_virtualize children_mask 1
        | Some MerkleUpdateType \<Rightarrow> lm_virtualize children_mask 1
        | Some LibraryReferenceType \<Rightarrow> 0
        | _ \<Rightarrow> children_mask)
     else children_mask)"

definition add_tag :: "byte list \<Rightarrow> nat \<Rightarrow> byte list" where
  "add_tag d n =
    (let rem = n mod 8; last_byte = n div 8
     in if rem > 0 then
          let tag_mask = push_bit (7 - rem) 1;
              data_mask = NOT (tag_mask - 1)
          in d[last_byte := (d ! last_byte AND data_mask) OR tag_mask]
        else d)"

definition build_parts :: "cell_builder \<Rightarrow> cell_parts" where
  "build_parts b =
    (let children_mask = compute_level_mask (cb_references b);
         level_mask = build_level_mask b children_mask;
         bit_len = bd_bit_len (cb_inner b);
         b1 = compute_d1 level_mask (cb_is_exotic b) (length (cb_references b));
         b2 = compute_d2 bit_len;
         d = add_tag (bd_data (cb_inner b)) bit_len
     in \<lparr>cp_bit_len = bit_len, cp_descriptor = cd_new b1 b2, cp_children_mask = children_mask,
         cp_references = cb_references b, cp_data = take (min (div_ceil8 bit_len) 128) d\<rparr>)"

definition build_ext :: "sha256 \<Rightarrow> cell_builder \<Rightarrow> cell result" where
  "build_ext sha b = finalize_cell sha (build_parts b)"

definition build_from :: "sha256 \<Rightarrow> (cell_builder \<Rightarrow> cell_builder result) \<Rightarrow> cell result" where
  "build_from sha store_into = ok (store_into cb_new) (build_ext sha)"

definition build_library :: "sha256 \<Rightarrow> hash_bytes \<Rightarrow> cell result" where
  "build_library sha h =
    (let b = set_exotic cb_new True
     in ok (on_inner (\<lambda>d. store_u8 d (ct_to_byte LibraryReferenceType)) b) (\<lambda>b.
        ok (on_inner (\<lambda>d. store_u256 d h) b) (build_ext sha)))"

section \<open>The \<open>Store\<close> implementations\<close>

definition store_option :: "('a \<Rightarrow> cell_builder \<Rightarrow> cell_builder result) \<Rightarrow> 'a option
    \<Rightarrow> cell_builder \<Rightarrow> cell_builder result" where
  "store_option f v b =
    (case v of Some x \<Rightarrow> ok (on_inner store_bit_one b) (f x) | None \<Rightarrow> on_inner store_bit_zero b)"

definition store_pair :: "('a \<Rightarrow> cell_builder \<Rightarrow> cell_builder result)
    \<Rightarrow> ('b \<Rightarrow> cell_builder \<Rightarrow> cell_builder result) \<Rightarrow> 'a \<times> 'b \<Rightarrow> cell_builder \<Rightarrow> cell_builder result" where
  "store_pair f g v b = ok (f (fst v) b) (g (snd v))"

end
