(* ===== verification/Cell_Slice_Scan.thy ===== *)
theory Cell_Slice_Scan
  imports Cell_Slice
begin

text \<open>
  The comparing and scanning operations of \<^verbatim>\<open>src/cell/slice.rs\<close>: \<open>longest_common_data_prefix\<close>,
  \<open>strip_data_prefix\<close>, \<open>test_uniform\<close>, \<open>count_leading\<close>, \<open>count_trailing\<close>, \<open>lex_cmp\<close>,
  \<open>contents_eq\<close> and the routines \<open>bits_memscan\<close> and \<open>bits_memscan_rev\<close> they are built on. The byte
  loops become recursive functions over the remaining number of bytes or bits. \<open>bits_memscan\<close>
  switches to 64-bit reads when its pointer is aligned, so it takes the address of the data as a
  parameter.
\<close>

section \<open>Longest common prefix\<close>

text \<open>
  One iteration consumes one byte of both sides: the bits left over from the previous byte are
  completed with the high bits of the next one. \<open>Inl\<close> is the early return.
\<close>

fun lcp_loop ::
  "byte list \<Rightarrow> byte list \<Rightarrow> nat \<Rightarrow> nat \<Rightarrow> nat \<Rightarrow> nat \<Rightarrow> nat \<Rightarrow> byte \<Rightarrow> byte \<Rightarrow> nat
   \<Rightarrow> nat + (nat \<times> byte \<times> byte)" where
  "lcp_loop sd od self_r other_r max_bit_len i 0 self_byte other_byte prefix_len =
     Inr (prefix_len, self_byte, other_byte)"
| "lcp_loop sd od self_r other_r max_bit_len i (Suc n) self_byte other_byte prefix_len =
     (let next_self = sd ! i;
          self_byte = self_byte OR ucast (drop_bit (8 - self_r) (ucast next_self :: 16 word));
          next_other = od ! i;
          other_byte = other_byte OR ucast (drop_bit (8 - other_r) (ucast next_other :: 16 word));
          x = self_byte XOR other_byte
      in if x = 0
         then lcp_loop sd od self_r other_r max_bit_len (i + 1) n
                (push_bit self_r next_self) (push_bit other_r next_other) (prefix_len + 8)
         else Inl (min (prefix_len + leading_zeros x) max_bit_len))"

definition lcp_impl :: "cell_slice \<Rightarrow> cell_slice \<Rightarrow> nat \<Rightarrow> nat" where
  "lcp_impl s t max_hint =
    (let rs = sl_range s; rt = sl_range t
     in if bits_start rs \<ge> bits_end rs \<or> bits_start rt \<ge> bits_end rt then 0
        else
          let max_bit_len = min (min (bits_end rs - bits_start rs) (bits_end rt - bits_start rt)) max_hint;
              self_r = bits_start rs mod 8;
              self_q = bits_start rs div 8;
              other_r = bits_start rt mod 8;
              other_q = bits_start rt div 8;
              self_bytes = div_ceil8 (self_r + max_bit_len);
              other_bytes = div_ceil8 (other_r + max_bit_len);
              aligned_bytes = min self_bytes other_bytes;
              sd = drop self_q (cell_data (sl_cell s));
              od = drop other_q (cell_data (sl_cell t))
          in case lcp_loop sd od self_r other_r max_bit_len 1 (aligned_bytes - 1)
                    (push_bit self_r (sd ! 0)) (push_bit other_r (od ! 0)) 0 of
               Inl n \<Rightarrow> n
             | Inr (prefix_len, self_byte, other_byte) \<Rightarrow>
                 let self_byte = (if self_r > 0 \<and> aligned_bytes < self_bytes
                       then self_byte OR drop_bit (8 - self_r) (sd ! aligned_bytes) else self_byte);
                     other_byte = (if other_r > 0 \<and> aligned_bytes < other_bytes
                       then other_byte OR drop_bit (8 - other_r) (od ! aligned_bytes) else other_byte);
                     last_byte_mask = push_bit ((8 - max_bit_len mod 8) mod 8) 0xff;
                     x = (self_byte AND last_byte_mask) XOR (other_byte AND last_byte_mask)
                 in min (prefix_len + leading_zeros x) max_bit_len)"

definition longest_common_data_prefix :: "cell_slice \<Rightarrow> cell_slice \<Rightarrow> cell_slice" where
  "longest_common_data_prefix s t = get_prefix s (lcp_impl s t 65535) 0"

definition strip_data_prefix :: "cell_slice \<Rightarrow> cell_slice \<Rightarrow> cell_slice option" where
  "strip_data_prefix s prefix =
    (let prefix_len = size_bits prefix
     in if prefix_len = 0 then Some s
        else if size_bits s < prefix_len then None
        else
          let lcp = lcp_impl s prefix prefix_len
          in if prefix_len \<le> lcp
             then (case skip_first s prefix_len 0 of Inr result \<Rightarrow> Some result | Inl e \<Rightarrow> None)
             else None)"

section \<open>Scanning for a run of equal bits\<close>

text \<open>The three byte- and word-wise loops of \<open>bits_memscan\<close>; \<open>Inl\<close> is the early return.\<close>

function memscan_bytes_unaligned ::
  "nat \<Rightarrow> byte list \<Rightarrow> byte \<Rightarrow> nat \<Rightarrow> nat \<Rightarrow> nat \<Rightarrow> nat + (nat \<times> nat)" where
  "memscan_bytes_unaligned addr ds xor_value bit_count p rem =
     (if rem \<ge> 8 \<and> (addr + p) mod 8 \<noteq> 0 then
        let v = ds ! p XOR xor_value
        in if v > 0 then Inl (bit_count - rem + leading_zeros v)
           else memscan_bytes_unaligned addr ds xor_value bit_count (p + 1) (rem - 8)
      else Inr (p, rem))"
  by pat_completeness auto
termination
  by (relation "measure (\<lambda>(addr, ds, x, bc, p, rem). rem)") auto

function memscan_words ::
  "byte list \<Rightarrow> 64 word \<Rightarrow> nat \<Rightarrow> nat \<Rightarrow> nat \<Rightarrow> nat + (nat \<times> nat)" where
  "memscan_words ds xor_value_l bit_count p rem =
     (if rem \<ge> 64 then
        let z = from_be_bytes (take 8 (drop p ds)) XOR xor_value_l
        in if z > 0 then Inl (bit_count - rem + leading_zeros z)
           else memscan_words ds xor_value_l bit_count (p + 8) (rem - 64)
      else Inr (p, rem))"
  by pat_completeness auto
termination
  by (relation "measure (\<lambda>(ds, x, bc, p, rem). rem)") auto

function memscan_bytes ::
  "byte list \<Rightarrow> byte \<Rightarrow> nat \<Rightarrow> nat \<Rightarrow> nat \<Rightarrow> nat + (nat \<times> nat)" where
  "memscan_bytes ds xor_value bit_count p rem =
     (if rem \<ge> 8 then
        let v = ds ! p XOR xor_value
        in if v > 0 then Inl (bit_count - rem + leading_zeros v)
           else memscan_bytes ds xor_value bit_count (p + 1) (rem - 8)
      else Inr (p, rem))"
  by pat_completeness auto
termination
  by (relation "measure (\<lambda>(ds, x, bc, p, rem). rem)") auto

declare memscan_bytes_unaligned.simps [simp del] memscan_words.simps [simp del]
  memscan_bytes.simps [simp del]

definition bool_mask :: "bool \<Rightarrow> 'a::len word" where
  "bool_mask b = (if b then - 1 else 0)"

definition memscan_tail :: "byte list \<Rightarrow> byte \<Rightarrow> nat \<Rightarrow> nat \<Rightarrow> nat \<Rightarrow> nat" where
  "memscan_tail ds xor_value bit_count p rem =
     (if rem > 0 then
        let v = ds ! p XOR xor_value;
            c = leading_zeros v
        in if c < rem then bit_count - rem + c else bit_count
      else bit_count)"

definition memscan_from ::
  "nat \<Rightarrow> byte list \<Rightarrow> bool \<Rightarrow> nat \<Rightarrow> nat \<Rightarrow> nat \<Rightarrow> nat" where
  "memscan_from addr ds cmp_to bit_count p rem =
     (case memscan_bytes_unaligned addr ds (bool_mask cmp_to) bit_count p rem of
        Inl n \<Rightarrow> n
      | Inr (p, rem) \<Rightarrow>
        (case memscan_words ds (bool_mask cmp_to) bit_count p rem of
           Inl n \<Rightarrow> n
         | Inr (p, rem) \<Rightarrow>
           (case memscan_bytes ds (bool_mask cmp_to) bit_count p rem of
              Inl n \<Rightarrow> n
            | Inr (p, rem) \<Rightarrow> memscan_tail ds (bool_mask cmp_to) bit_count p rem)))"

definition bits_memscan :: "nat \<Rightarrow> byte list \<Rightarrow> nat \<Rightarrow> nat \<Rightarrow> bool \<Rightarrow> nat" where
  "bits_memscan addr ds offset bit_count cmp_to =
    (if bit_count = 0 then 0
     else
       let p = offset div 8;
           offset = offset mod 8
       in if offset > 0 then
            let v = push_bit offset (ds ! p XOR bool_mask cmp_to);
                c = leading_zeros v;
                l = 8 - offset
            in if c < l \<or> bit_count \<le> l then min c bit_count
               else memscan_from addr ds cmp_to bit_count (p + 1) (bit_count - l)
          else memscan_from addr ds cmp_to bit_count p bit_count)"

function memscan_rev_words ::
  "byte list \<Rightarrow> 32 word \<Rightarrow> nat \<Rightarrow> nat \<Rightarrow> nat \<Rightarrow> nat + (nat \<times> nat \<times> nat)" where
  "memscan_rev_words ds xor_value_l p res bit_count =
     (if bit_count \<ge> 32 then
        let p = p - 4;
            v = from_be_bytes (take 4 (drop p ds)) XOR xor_value_l
        in if v > 0 then Inl (res + trailing_zeros v)
           else memscan_rev_words ds xor_value_l p (res + 32) (bit_count - 32)
      else Inr (p, res, bit_count))"
  by pat_completeness auto
termination
  by (relation "measure (\<lambda>(ds, x, p, res, bc). bc)") auto

function memscan_rev_bytes ::
  "byte list \<Rightarrow> byte \<Rightarrow> nat \<Rightarrow> nat \<Rightarrow> nat \<Rightarrow> nat + (nat \<times> nat \<times> nat)" where
  "memscan_rev_bytes ds xor_value p res bit_count =
     (if bit_count \<ge> 8 then
        let p = p - 1;
            v = ds ! p XOR xor_value
        in if v > 0 then Inl (res + trailing_zeros v)
           else memscan_rev_bytes ds xor_value p (res + 8) (bit_count - 8)
      else Inr (p, res, bit_count))"
  by pat_completeness auto
termination
  by (relation "measure (\<lambda>(ds, x, p, res, bc). bc)") auto

declare memscan_rev_words.simps [simp del] memscan_rev_bytes.simps [simp del]

definition memscan_rev_from :: "byte list \<Rightarrow> bool \<Rightarrow> nat \<Rightarrow> nat \<Rightarrow> nat \<Rightarrow> nat" where
  "memscan_rev_from ds cmp_to p res bit_count =
     (case memscan_rev_words ds (bool_mask cmp_to) p res bit_count of
        Inl n \<Rightarrow> n
      | Inr (p, res, bit_count) \<Rightarrow>
        (case memscan_rev_bytes ds (bool_mask cmp_to) p res bit_count of
           Inl n \<Rightarrow> n
         | Inr (p, res, bit_count) \<Rightarrow>
           if bit_count > 0
           then let v = ds ! (p - 1) XOR bool_mask cmp_to
                in res + min (trailing_zeros v) bit_count
           else res))"

definition bits_memscan_rev :: "byte list \<Rightarrow> nat \<Rightarrow> nat \<Rightarrow> bool \<Rightarrow> nat" where
  "bits_memscan_rev ds offset bit_count cmp_to =
    (if bit_count = 0 then 0
     else
       let p = (offset + bit_count) div 8;
           offset = (offset + bit_count) mod 8
       in if offset > 0 then
            let v = drop_bit (8 - offset) (ds ! p) XOR bool_mask cmp_to;
                c = trailing_zeros v
            in if c < offset \<or> offset \<ge> bit_count then min c bit_count
               else memscan_rev_from ds cmp_to p offset (bit_count - offset)
          else memscan_rev_from ds cmp_to p 0 bit_count)"

definition count_leading :: "nat \<Rightarrow> cell_slice \<Rightarrow> bool \<Rightarrow> nat result" where
  "count_leading addr s b =
    (let r0 = sl_range s; ds = cell_data (sl_cell s)
     in if bits_start r0 \<ge> bits_end r0 then Ok 0
        else if div_ceil8 (bits_end r0) > length ds then Err CellUnderflow
        else Ok (bits_memscan addr ds (bits_start r0) (bits_end r0 - bits_start r0) b))"

definition count_trailing :: "cell_slice \<Rightarrow> bool \<Rightarrow> nat result" where
  "count_trailing s b =
    (let r0 = sl_range s; ds = cell_data (sl_cell s)
     in if bits_start r0 \<ge> bits_end r0 then Ok 0
        else if div_ceil8 (bits_end r0) > length ds then Err CellUnderflow
        else Ok (bits_memscan_rev ds (bits_start r0) (bits_end r0 - bits_start r0) b))"

definition test_uniform_at :: "nat \<Rightarrow> cell_slice \<Rightarrow> bool option" where
  "test_uniform_at addr s =
    (let r0 = sl_range s; ds = cell_data (sl_cell s)
     in if bits_start r0 \<ge> bits_end r0 then None
        else if div_ceil8 (bits_end r0) > length ds then None
        else
          let bit_count = bits_end r0 - bits_start r0;
              r = bits_start r0 mod 8;
              q = bits_start r0 div 8;
              first_byte = ds ! q;
              b = (drop_bit (7 - r) first_byte AND 1 \<noteq> 0)
          in if bit_count < 64 then
               let target = bool_mask b;
                   first_byte_mask = drop_bit r 0xff;
                   last_byte_mask = push_bit ((8 - (bit_count + r) mod 8) mod 8) 0xff
               in if r + bit_count \<le> 8 then
                    if (first_byte XOR target) AND first_byte_mask AND last_byte_mask \<noteq> 0 then None
                    else Some b
                  else if (first_byte XOR target) AND first_byte_mask \<noteq> 0 then None
                  else
                    let bit_count = bit_count - (8 - r);
                        full = bit_count div 8
                    in if \<exists>i \<in> set [0..<full]. ds ! (q + 1 + i) \<noteq> target then None
                       else if bit_count mod 8 \<noteq> 0
                         \<and> (ds ! (q + 1 + full) XOR target) AND last_byte_mask \<noteq> 0 then None
                       else Some b
             else if bits_memscan addr ds (bits_start r0) bit_count b = bit_count then Some b
             else None)"

definition test_uniform :: "cell_slice \<Rightarrow> bool option" where
  "test_uniform s = test_uniform_at 0 s"

section \<open>Comparison\<close>

datatype ordering = Less | Equal | Greater

definition nat_cmp :: "nat \<Rightarrow> nat \<Rightarrow> ordering" where
  "nat_cmp a b = (if a < b then Less else if a = b then Equal else Greater)"

function lex_cmp_words :: "cell_slice \<Rightarrow> cell_slice \<Rightarrow> nat \<Rightarrow> nat \<Rightarrow> ordering result" where
  "lex_cmp_words s t offset limit =
     (if offset < limit then
        ok (get_u32 s offset) (\<lambda>a. ok (get_u32 t offset) (\<lambda>b.
          case nat_cmp (unat a) (unat b) of
            Equal \<Rightarrow> lex_cmp_words s t (offset + 32) limit
          | ord \<Rightarrow> Ok ord))
      else Ok Equal)"
  by pat_completeness auto
termination
  by (relation "measure (\<lambda>(s, t, offset, limit). limit - offset)") auto

declare lex_cmp_words.simps [simp del]

text \<open>
  \<open>same_cell\<close> is the pointer comparison \<open>ptr::addr_eq\<close> of the fast path, a parameter: it may be true
  only for the same cell.
\<close>

definition lex_cmp :: "bool \<Rightarrow> cell_slice \<Rightarrow> cell_slice \<Rightarrow> ordering result" where
  "lex_cmp same_cell s t =
    (let lhs_bits = size_bits s; rhs_bits = size_bits t
     in if same_cell \<and> bits_start (sl_range s) = bits_start (sl_range t)
        then Ok (nat_cmp lhs_bits rhs_bits)
        else
          let n = min lhs_bits rhs_bits;
              rem = n mod 32
          in ok (lex_cmp_words s t 0 (n - rem)) (\<lambda>ord.
               if ord \<noteq> Equal then Ok ord
               else if rem > 0 then
                 ok (get_uint s (n - rem) rem) (\<lambda>a. ok (get_uint t (n - rem) rem) (\<lambda>b.
                   case nat_cmp (unat a) (unat b) of
                     Equal \<Rightarrow> Ok (nat_cmp lhs_bits rhs_bits)
                   | ord \<Rightarrow> Ok ord))
               else Ok (nat_cmp lhs_bits rhs_bits)))"

definition is_data_prefix_of :: "bool \<Rightarrow> cell_slice \<Rightarrow> cell_slice \<Rightarrow> bool result" where
  "is_data_prefix_of same_cell s other =
    (let n = size_bits s
     in if n > size_bits other then Ok False
        else
          let other = (case only_first other n 0 of Inr o' \<Rightarrow> o' | Inl e \<Rightarrow> other)
          in ok (lex_cmp same_cell s other) (\<lambda>ord. Ok (ord = Equal)))"

definition is_data_suffix_of :: "bool \<Rightarrow> cell_slice \<Rightarrow> cell_slice \<Rightarrow> bool result" where
  "is_data_suffix_of same_cell s other =
    (let n = size_bits s
     in if n > size_bits other then Ok False
        else
          let other = (case only_last other n 0 of Inr o' \<Rightarrow> o' | Inl e \<Rightarrow> other)
          in ok (lex_cmp same_cell s other) (\<lambda>ord. Ok (ord = Equal)))"

end
