(* ===== verification/Dict.thy ===== *)
theory Dict
  imports Cell_Builder Cell_Slice_Scan
begin

text \<open>
  \<^verbatim>\<open>src/dict/mod.rs\<close> and \<^verbatim>\<open>src/dict/ops/{get,insert,remove}.rs\<close>: the dictionary as a binary Patricia
  trie of cells. A dictionary is an optional root cell; an edge is a cell that starts with the
  label of the edge, followed by the value (a leaf) or by nothing but two references (a fork).

  A \<open>&dyn Store\<close> value is the function that its \<open>store_into\<close> is; the cell context is
  \<open>EmptyCellContext\<close>, whose loads return the cell they are given. The loops recurse over the cells
  they descend into, so they end on every cell tree: \<open>tree_size\<close> counts the cells of a tree, and a
  child has a smaller count than its parent. The \<open>&mut\<close> key of \<open>dict_insert\<close> is scratch space that
  callers discard; it is returned by \<open>dict_find_value_to_remove\<close>, whose caller goes on using it.
\<close>

section \<open>Branches, modes, bounds\<close>

datatype branch = BrLeft | BrRight

fun branch_index :: "branch \<Rightarrow> nat" where
  "branch_index BrLeft = 0"
| "branch_index BrRight = 1"

definition into_bit :: "branch \<Rightarrow> bool" where
  "into_bit b \<longleftrightarrow> b = BrRight"

fun reversed :: "branch \<Rightarrow> branch" where
  "reversed BrLeft = BrRight"
| "reversed BrRight = BrLeft"

definition branch_from :: "bool \<Rightarrow> branch" where
  "branch_from value = (if value then BrRight else BrLeft)"

datatype set_mode = ModeSet | ModeReplace | ModeAdd

fun set_mode_u8 :: "set_mode \<Rightarrow> byte" where
  "set_mode_u8 ModeSet = 3"
| "set_mode_u8 ModeReplace = 1"
| "set_mode_u8 ModeAdd = 2"

definition can_replace :: "set_mode \<Rightarrow> bool" where
  "can_replace m \<longleftrightarrow> set_mode_u8 m AND 1 \<noteq> 0"

definition can_add :: "set_mode \<Rightarrow> bool" where
  "can_add m \<longleftrightarrow> set_mode_u8 m AND 2 \<noteq> 0"

datatype dict_bound = BoundMin | BoundMax

fun into_branch :: "dict_bound \<Rightarrow> branch" where
  "into_branch BoundMin = BrLeft"
| "into_branch BoundMax = BrRight"

definition update_direction ::
  "dict_bound \<Rightarrow> cell_slice \<Rightarrow> bool \<Rightarrow> branch option \<Rightarrow> branch \<times> branch option" where
  "update_direction bound prefix is_signed direction =
    (case direction of
       None \<Rightarrow>
         (let branch = into_branch bound
          in (if is_signed \<and> is_data_empty prefix then reversed branch else branch, Some branch))
     | Some d \<Rightarrow> (d, direction))"

section \<open>Labels\<close>

definition bits_for_len :: "nat \<Rightarrow> nat" where
  "bits_for_len key_bit_len = 16 - leading_zeros (of_nat key_bit_len :: 16 word)"

definition write_hml_empty :: "cell_builder \<Rightarrow> cell_builder result" where
  "write_hml_empty label = on_inner (\<lambda>d. store_zeros d 2) label"

fun store_u32_max :: "nat \<Rightarrow> cell_builder \<Rightarrow> cell_builder result" where
  "store_u32_max 0 label = Ok label"
| "store_u32_max (Suc n) label =
     ok (on_inner (\<lambda>d. store_u32 d (- 1)) label) (\<lambda>label. store_u32_max n label)"

definition write_hml_short_tag :: "nat \<Rightarrow> cell_builder \<Rightarrow> cell_builder result" where
  "write_hml_short_tag len label =
    ok (on_inner store_bit_zero label) (\<lambda>label.
    ok (store_u32_max (len div 32) label) (\<lambda>label.
    let rem = len mod 32
    in ok (if rem \<noteq> 0 then on_inner (\<lambda>d. store_uint d (- 1) rem) label else Ok label) (\<lambda>label.
       on_inner store_bit_zero label)))"

definition write_hml_long_tag :: "nat \<Rightarrow> nat \<Rightarrow> cell_builder \<Rightarrow> cell_builder result" where
  "write_hml_long_tag len bfl label =
    ok (on_inner store_bit_one label) (\<lambda>label.
    ok (on_inner store_bit_zero label) (\<lambda>label.
    on_inner (\<lambda>d. store_uint d (of_nat len) bfl) label))"

definition write_hml_same :: "bool \<Rightarrow> nat \<Rightarrow> nat \<Rightarrow> cell_builder \<Rightarrow> cell_builder result" where
  "write_hml_same b len bfl label =
    ok (on_inner (\<lambda>d. store_small_uint d (0b110 OR of_bool b) 3) label) (\<lambda>label.
    on_inner (\<lambda>d. store_uint d (of_nat len) bfl) label)"

definition write_label :: "cell_slice \<Rightarrow> nat \<Rightarrow> cell_builder \<Rightarrow> cell_builder result" where
  "write_label key key_bit_len label =
    (if key_bit_len = 0 \<or> is_data_empty key then write_hml_empty label
     else
       let bfl = bits_for_len key_bit_len;
           remaining_bits = size_bits key;
           hml_short_len = 2 + 2 * remaining_bits;
           hml_long_len = 2 + bfl + remaining_bits;
           hml_same_len = 3 + bfl
       in case (if hml_same_len < hml_long_len \<and> hml_same_len < hml_short_len
                then test_uniform key else None) of
            Some b \<Rightarrow> write_hml_same b remaining_bits bfl label
          | None \<Rightarrow>
              ok (if hml_short_len \<le> MAX_BIT_LEN \<and> hml_short_len \<le> hml_long_len
                  then write_hml_short_tag remaining_bits label
                  else if hml_long_len \<le> MAX_BIT_LEN
                  then write_hml_long_tag remaining_bits bfl label
                  else Err InvalidData) (\<lambda>label.
              on_inner (\<lambda>d. store_slice_data d key) label))"

definition write_label_parts ::
  "cell_slice \<Rightarrow> bool \<Rightarrow> cell_slice \<Rightarrow> nat \<Rightarrow> cell_builder \<Rightarrow> cell_builder result" where
  "write_label_parts pfx b rem key_bit_len label =
    (if key_bit_len = 0 then write_hml_empty label
     else
       let bfl = bits_for_len key_bit_len;
           remaining_bits = size_bits pfx + 1 + size_bits rem;
           hml_short_len = 2 + 2 * remaining_bits;
           hml_long_len = 2 + bfl + remaining_bits;
           hml_same_len = 3 + bfl
       in if hml_same_len < hml_long_len \<and> hml_same_len < hml_short_len
            \<and> (is_data_empty pfx \<or> test_uniform pfx = Some b)
            \<and> (is_data_empty rem \<or> test_uniform rem = Some b)
          then write_hml_same b remaining_bits bfl label
          else
            ok (if hml_short_len \<le> MAX_BIT_LEN \<and> hml_short_len \<le> hml_long_len
                then write_hml_short_tag remaining_bits label
                else if hml_long_len \<le> MAX_BIT_LEN
                then write_hml_long_tag remaining_bits bfl label
                else Err InvalidData) (\<lambda>label.
            ok (on_inner (\<lambda>d. store_slice_data d pfx) label) (\<lambda>label.
            ok (on_inner (\<lambda>d. store_bit d b) label) (\<lambda>label.
            on_inner (\<lambda>d. store_slice_data d rem) label))))"

text \<open>
  The loop of \<open>read_hml_short\<close> reads ones up to the first zero. It fails with \<open>CellUnderflow\<close> when the
  window is exhausted, so it makes at most \<open>size_bits\<close> successful iterations: the fuel.
\<close>

fun read_hml_short_loop :: "nat \<Rightarrow> nat \<Rightarrow> cell_slice \<Rightarrow> (nat \<times> cell_slice) result" where
  "read_hml_short_loop 0 len label = Err CellUnderflow"
| "read_hml_short_loop (Suc fuel) len label =
     ok (load_bit label) (\<lambda>(b, label).
       if b then read_hml_short_loop fuel (len + 1) label else Ok (len, label))"

definition read_hml_short :: "cell_slice \<Rightarrow> (cell_slice \<times> cell_slice) result" where
  "read_hml_short label =
    ok (read_hml_short_loop (size_bits label + 1) 0 label) (\<lambda>(len, label).
    ok (skip_first label len 0) (\<lambda>label'. Ok (get_prefix label len 0, label')))"

definition read_hml_long :: "cell_slice \<Rightarrow> nat \<Rightarrow> (cell_slice \<times> cell_slice) result" where
  "read_hml_long label bfl =
    ok (load_uint label bfl) (\<lambda>(v, label).
    let len = unat v mod 65536
    in ok (skip_first label len 0) (\<lambda>label'. Ok (get_prefix label len 0, label')))"

definition read_hml_same :: "cell_slice \<Rightarrow> nat \<Rightarrow> (cell_slice \<times> cell_slice) result" where
  "read_hml_same label bfl =
    ok (load_bit label) (\<lambda>(b, label).
    let cell = (if b then ALL_ONES_CELL else ALL_ZEROS_CELL)
    in ok (load_uint label bfl) (\<lambda>(v, label).
    let len = unat v mod 65536
    in Ok (get_prefix (slice_new_allow_exotic cell) len 0, label)))"

definition read_label :: "cell_slice \<Rightarrow> nat \<Rightarrow> (cell_slice \<times> cell_slice) result" where
  "read_label label key_bit_len =
    (let bfl = bits_for_len key_bit_len
     in if bfl = 0 \<and> is_data_empty label then Ok (get_prefix label 0 0, label)
        else ok (load_bit label) (\<lambda>(b1, label).
          if \<not> b1 then read_hml_short label
          else ok (load_bit label) (\<lambda>(b2, label).
            if \<not> b2 then read_hml_long label bfl else read_hml_same label bfl)))"

definition skip_label_full :: "cell_slice \<Rightarrow> nat \<Rightarrow> cell_slice result" where
  "skip_label_full s key_bit_len =
    ok (read_label s key_bit_len) (\<lambda>(label, s).
    if size_bits label < key_bit_len then skip_first s 0 2 else Ok s)"

end
