(* ===== verification/Cell_Slice_Props.thy ===== *)
theory Cell_Slice_Props
  imports Cell_Slice_Scan
begin

text \<open>
  What the readers of \<open>CellSlice\<close> compute. \<open>slice_bits\<close> and \<open>slice_refs\<close> are the window of a slice
  as a list of bits and a list of child cells; \<open>wf_slice\<close> is the invariant of the type: the window
  lies inside a cell whose byte array covers its bit length. Under it, every reader is a function
  of \<open>slice_bits\<close>: the byte-level code refines \<open>take\<close>, \<open>drop\<close> and \<open>word_of_bits\<close>.
\<close>

section \<open>The window as a list of bits\<close>

definition shape_ok :: "cell \<Rightarrow> bool" where
  "shape_ok c \<longleftrightarrow>
     cell_bit_len c \<le> MAX_BIT_LEN \<and> div_ceil8 (cell_bit_len c) \<le> length (cell_data c)
     \<and> cell_reference_count c \<le> MAX_REF_COUNT
     \<and> list_all (\<lambda>i. reference c i \<noteq> None) [0..<cell_reference_count c]"

definition wf_slice :: "cell_slice \<Rightarrow> bool" where
  "wf_slice s \<longleftrightarrow>
     shape_ok (sl_cell s)
     \<and> bits_start (sl_range s) \<le> bits_end (sl_range s)
     \<and> bits_end (sl_range s) \<le> cell_bit_len (sl_cell s)
     \<and> refs_start (sl_range s) \<le> refs_end (sl_range s)
     \<and> refs_end (sl_range s) \<le> cell_reference_count (sl_cell s)"

definition slice_bits :: "cell_slice \<Rightarrow> bool list" where
  "slice_bits s =
     bits_range (cell_data (sl_cell s)) (bits_start (sl_range s)) (bits_end (sl_range s))"

definition slice_refs :: "cell_slice \<Rightarrow> cell list" where
  "slice_refs s =
     map (\<lambda>i. the (reference (sl_cell s) i)) [refs_start (sl_range s)..<refs_end (sl_range s)]"

lemma length_slice_bits [simp]: "length (slice_bits s) = size_bits s"
  by (simp add: slice_bits_def size_bits_def range_size_bits_def)

lemma length_slice_refs [simp]: "length (slice_refs s) = size_refs s"
  by (simp add: slice_refs_def size_refs_def range_size_refs_def)

lemma wf_sliceD:
  assumes "wf_slice s"
  shows "bits_start (sl_range s) \<le> bits_end (sl_range s)"
    and "bits_end (sl_range s) \<le> 1023"
    and "bits_end (sl_range s) \<le> 8 * length (cell_data (sl_cell s))"
    and "div_ceil8 (bits_end (sl_range s)) \<le> length (cell_data (sl_cell s))"
    and "refs_start (sl_range s) \<le> refs_end (sl_range s)"
    and "refs_end (sl_range s) \<le> 4"
    and "size_bits s \<le> 1023"
  using assms
  by (auto simp: wf_slice_def shape_ok_def MAX_BIT_LEN_def MAX_REF_COUNT_def size_bits_def
      range_size_bits_def div_ceil8_le_iff)

lemma wf_slice_reference:
  assumes "wf_slice s" and "i < refs_end (sl_range s)"
  obtains c where "reference (sl_cell s) i = Some c"
  using assms by (force simp: wf_slice_def shape_ok_def list_all_iff)

lemma size_bits_eq: "size_bits s = bits_end (sl_range s) - bits_start (sl_range s)"
  by (simp add: size_bits_def range_size_bits_def)

lemma size_refs_eq: "size_refs s = refs_end (sl_range s) - refs_start (sl_range s)"
  by (simp add: size_refs_def range_size_refs_def)

lemma nth_slice_bits:
  "i < size_bits s \<Longrightarrow> slice_bits s ! i = nbit (cell_data (sl_cell s)) (bits_start (sl_range s) + i)"
  by (simp add: slice_bits_def size_bits_eq)

lemma slice_bits_window:
  "wf_slice s \<Longrightarrow> off + n \<le> size_bits s \<Longrightarrow> take n (drop off (slice_bits s)) =
    bits_range (cell_data (sl_cell s)) (bits_start (sl_range s) + off) (bits_start (sl_range s) + off + n)"
  using wf_sliceD(1) [of s]
  by (simp add: slice_bits_def drop_bits_range take_bits_range size_bits_eq min_absorb2)

lemma is_data_empty_iff: "is_data_empty s \<longleftrightarrow> slice_bits s = []"
  by (auto simp: is_data_empty_def range_is_data_empty_def slice_bits_def bits_range_def)

text \<open>Slices over a whole cell.\<close>

definition cell_bits :: "cell \<Rightarrow> bool list" where
  "cell_bits c = bits_range (cell_data c) 0 (cell_bit_len c)"

definition cell_refs :: "cell \<Rightarrow> cell list" where
  "cell_refs c = map (\<lambda>i. the (reference c i)) [0..<cell_reference_count c]"

lemma slice_new_eq:
  "slice_new c = (if cell_is_exotic c then Err UnexpectedExoticCell else Ok (slice_new_allow_exotic c))"
  by (simp add: slice_new_def slice_new_allow_exotic_def)

lemma wf_slice_full [simp]: "shape_ok c \<Longrightarrow> wf_slice (slice_new_allow_exotic c)"
  by (simp add: wf_slice_def slice_new_allow_exotic_def range_full_def)

lemma slice_bits_full [simp]: "slice_bits (slice_new_allow_exotic c) = cell_bits c"
  by (simp add: slice_bits_def slice_new_allow_exotic_def range_full_def cell_bits_def)

lemma slice_refs_full [simp]: "slice_refs (slice_new_allow_exotic c) = cell_refs c"
  by (simp add: slice_refs_def slice_new_allow_exotic_def range_full_def cell_refs_def)

section \<open>Moving the window\<close>

text \<open>Offsets that cannot wrap: a \<open>u16\<close> sum with a bit position stays exact below this.\<close>

abbreviation small16 :: "nat \<Rightarrow> bool" where "small16 n \<equiv> n \<le> 64512"

lemma wf_range_update:
  assumes "wf_slice s"
    and "bits_start r \<le> bits_end r" "bits_end r \<le> bits_end (sl_range s)"
    and "refs_start r \<le> refs_end r" "refs_end r \<le> refs_end (sl_range s)"
  shows "wf_slice (s\<lparr>sl_range := r\<rparr>)"
  using assms by (auto simp: wf_slice_def)

lemma u16_start: "wf_slice s \<Longrightarrow> small16 n \<Longrightarrow>
  u16_add (bits_start (sl_range s)) n = bits_start (sl_range s) + n"
  using wf_sliceD(1,2) [of s] by simp

lemma u8_start: "wf_slice s \<Longrightarrow> k \<le> 251 \<Longrightarrow>
  u8_add (refs_start (sl_range s)) k = refs_start (sl_range s) + k"
  using wf_sliceD(5,6) [of s] by simp

lemma wf_advance: "wf_slice s \<Longrightarrow> n \<le> size_bits s \<Longrightarrow> wf_slice (advance s n)"
  unfolding advance_def using wf_sliceD [of s]
  by (intro wf_range_update) (auto simp: size_bits_eq)

lemma slice_bits_advance: "wf_slice s \<Longrightarrow> n \<le> size_bits s \<Longrightarrow>
  slice_bits (advance s n) = drop n (slice_bits s)"
  using wf_sliceD(1,2) [of s]
  by (simp add: advance_def slice_bits_def drop_bits_range size_bits_eq)

lemma slice_refs_advance [simp]: "slice_refs (advance s n) = slice_refs s"
  by (simp add: advance_def slice_refs_def)

lemma sl_cell_advance [simp]: "sl_cell (advance s n) = sl_cell s"
  by (simp add: advance_def)

lemmas range_defs = skip_first_def range_skip_first_def only_first_def range_only_first_def
  skip_last_def range_skip_last_def only_last_def range_only_last_def with_range_def

lemma skip_first_spec:
  assumes "wf_slice s" "small16 n" "k \<le> 251"
  shows "skip_first s n k =
    (if n \<le> size_bits s \<and> k \<le> size_refs s
     then Ok (s\<lparr>sl_range := (sl_range s)\<lparr>bits_start := bits_start (sl_range s) + n,
                                          refs_start := refs_start (sl_range s) + k\<rparr>\<rparr>)
     else Err CellUnderflow)"
  using assms wf_sliceD [OF assms(1)]
  by (auto simp: range_defs u16_start u8_start size_bits_eq size_refs_eq)

lemma skip_first_Ok:
  assumes "wf_slice s" "n \<le> size_bits s" "k \<le> size_refs s"
  obtains s' where "skip_first s n k = Ok s'" "wf_slice s'" "sl_cell s' = sl_cell s"
    "slice_bits s' = drop n (slice_bits s)" "slice_refs s' = drop k (slice_refs s)"
proof -
  let ?s = "s\<lparr>sl_range := (sl_range s)\<lparr>bits_start := bits_start (sl_range s) + n,
                                          refs_start := refs_start (sl_range s) + k\<rparr>\<rparr>"
  have n: "small16 n" "k \<le> 251"
    using assms wf_sliceD [OF assms(1)] by (auto simp: size_bits_eq size_refs_eq)
  show thesis
  proof
    show "skip_first s n k = Ok ?s" using assms n by (simp add: skip_first_spec)
    show "wf_slice ?s"
      using assms wf_sliceD [OF assms(1)]
      by (intro wf_range_update) (auto simp: size_bits_eq size_refs_eq)
  qed (simp_all add: slice_bits_def drop_bits_range slice_refs_def drop_map)
qed

lemma skip_first_advance:
  "wf_slice s \<Longrightarrow> small16 n \<Longrightarrow>
    skip_first s n 0 = (if n \<le> size_bits s then Ok (advance s n) else Err CellUnderflow)"
  using wf_sliceD [of s] by (auto simp: skip_first_spec advance_def)

lemma get_prefix_spec:
  assumes "wf_slice s" "small16 n" "k \<le> 251"
  shows "wf_slice (get_prefix s n k)" "sl_cell (get_prefix s n k) = sl_cell s"
    "slice_bits (get_prefix s n k) = take n (slice_bits s)"
    "slice_refs (get_prefix s n k) = take k (slice_refs s)"
proof -
  show "wf_slice (get_prefix s n k)"
    unfolding get_prefix_def using assms wf_sliceD [OF assms(1)]
    by (intro wf_range_update) (auto simp: range_get_prefix_def)
  show "sl_cell (get_prefix s n k) = sl_cell s" by (simp add: get_prefix_def)
  show "slice_bits (get_prefix s n k) = take n (slice_bits s)"
    using assms
    by (simp add: slice_bits_def get_prefix_def range_get_prefix_def u16_start take_bits_range
        min.commute)
  show "slice_refs (get_prefix s n k) = take k (slice_refs s)"
    using assms wf_sliceD [OF assms(1)]
    by (simp add: slice_refs_def get_prefix_def range_get_prefix_def u8_start take_map min_def
        take_upt flip: take_upt)
qed

end
