(* ===== verification/Cell_Slice_Read.thy ===== *)
theory Cell_Slice_Read
  imports Cell_Slice_Props
begin

text \<open>
  The integer and bit readers of \<open>CellSlice\<close> (\<open>get_bit\<close>, \<open>get_small_uint\<close>, \<open>get_uint\<close>, \<open>get_u16\<close> to
  \<open>get_u256\<close>, \<open>get_raw\<close> and their loading variants) return the value of the addressed bits of the
  window, and fail exactly when the window is too short.
\<close>

section \<open>Single bits\<close>

lemma shifted_bit: "drop_bit n b AND 1 \<noteq> 0 \<longleftrightarrow> bit b n" for b :: "'a::len word"
  by (simp add: bit_iff_odd_drop_bit and_one_eq odd_iff_mod_2_eq_one)

lemma nth_opt_data:
  "wf_slice s \<Longrightarrow> i < bits_end (sl_range s) \<Longrightarrow>
    nth_opt (cell_data (sl_cell s)) (i div 8) = Some (cell_data (sl_cell s) ! (i div 8))"
  using wf_sliceD(3) [of s] by (auto simp: nth_opt_def)

lemma get_bit_spec:
  assumes "wf_slice s" "small16 off"
  shows "get_bit s off = (if off < size_bits s then Ok (slice_bits s ! off) else Err CellUnderflow)"
  using assms wf_sliceD(1) [of s]
  by (auto simp: get_bit_def Let_def u16_start nth_opt_data shifted_bit nth_slice_bits size_bits_eq
      nbit_def)

lemma load_bit_spec:
  assumes "wf_slice s"
  shows "load_bit s = (if slice_bits s = [] then Err CellUnderflow
    else Ok (hd (slice_bits s), advance s 1))"
proof (cases "bits_start (sl_range s) < bits_end (sl_range s)")
  case True
  then have "slice_bits s =
      nbit (cell_data (sl_cell s)) (bits_start (sl_range s))
      # bits_range (cell_data (sl_cell s)) (Suc (bits_start (sl_range s))) (bits_end (sl_range s))"
    by (simp add: slice_bits_def bits_range_Cons)
  with True assms show ?thesis
    by (simp add: load_bit_def Let_def nth_opt_data shifted_bit nbit_def)
next
  case False
  then show ?thesis by (simp add: load_bit_def slice_bits_def)
qed

section \<open>Integers of a variable width\<close>

lemma word_of_bits_range_eqI:
  fixes w :: "'a::len word"
  assumes "\<And>m. m < LENGTH('a) \<Longrightarrow> bit w m \<longleftrightarrow> m < n \<and> nbit ds (i + (n - 1 - m))"
  shows "w = word_of_bits (bits_range ds i (i + n))"
  by (rule word_of_bits_eqI) (simp add: assms cong: conj_cong)

lemma low_mask: "push_bit n 1 - 1 = (mask n :: 'a::len word)"
  by (simp add: mask_eq_exp_minus_1 push_bit_eq_mult)

lemma get_small_uint_aux:
  assumes "0 < n" "n \<le> 8" "j < 8"
  shows "(if j = 0 then drop_bit (8 - n) (ds ! q)
     else if n \<le> 8 - j then drop_bit (8 - j - n) (ds ! q) AND (push_bit n 1 - 1)
     else drop_bit (8 - n)
       (ucast (drop_bit (8 - j) (push_bit 8 (ucast (ds ! q)) OR ucast (ds ! (q + 1)) :: 16 word))))
    = (word_of_bits (bits_range ds (8 * q + j) (8 * q + j + n)) :: byte)"
proof (rule word_of_bits_range_eqI)
  fix m assume "m < LENGTH(8)"
  then have m: "m < 8" by simp
  have e1: "nbit ds (8 * q + j + (n - 1 - m)) = bit (ds ! q) (8 - j - n + m)"
    if "m < n" "n \<le> 8 - j"
  proof -
    have "8 * q + j + (n - 1 - m) = 8 * q + (j + (n - 1 - m))" "7 - (j + (n - 1 - m)) = 8 - j - n + m"
      "j + (n - 1 - m) < 8" using that assms by auto
    then show ?thesis by (simp only: nbit_block)
  qed
  have e2: "nbit ds (8 * q + j + (n - 1 - m)) =
      (if 16 + m - j - n < 8 then bit (ds ! (q + 1)) (16 + m - j - n) else bit (ds ! q) (8 + m - j - n))"
    if "m < n" "\<not> n \<le> 8 - j"
  proof (cases "16 + m - j - n < 8")
    case True
    then have "8 * q + j + (n - 1 - m) = 8 * (q + 1) + (j + n - 9 - m)"
      "7 - (j + n - 9 - m) = 16 + m - j - n" "j + n - 9 - m < 8" using that assms by auto
    then show ?thesis using True by (simp only: nbit_block if_True)
  next
    case False
    then have "8 * q + j + (n - 1 - m) = 8 * q + (j + (n - 1 - m))" "7 - (j + (n - 1 - m)) = 8 + m - j - n"
      "j + (n - 1 - m) < 8" using that assms m by auto
    then show ?thesis using False by (simp only: nbit_block if_False)
  qed
  have mk: "bit (push_bit n 1 - 1 :: byte) m \<longleftrightarrow> m < n"
    unfolding low_mask using m by (simp add: bit_mask_iff)
  show "bit (if j = 0 then drop_bit (8 - n) (ds ! q)
     else if n \<le> 8 - j then drop_bit (8 - j - n) (ds ! q) AND (push_bit n 1 - 1)
     else drop_bit (8 - n)
       (ucast (drop_bit (8 - j) (push_bit 8 (ucast (ds ! q)) OR ucast (ds ! (q + 1)) :: 16 word)))) m
    \<longleftrightarrow> m < n \<and> nbit ds (8 * q + j + (n - 1 - m))"
  proof (cases "j = 0 \<or> n \<le> 8 - j")
    case True
    then show ?thesis using assms m e1 mk by (auto simp: bit_simps dest: bit_imp_le_length)
  next
    case False
    have "\<not> bit b k" if "8 \<le> k" for b :: byte and k using that by (auto dest: bit_imp_le_length)
    then show ?thesis
      using False assms m e2 by (cases "16 + m - j - n < 8") (auto simp: bit_simps)
  qed
qed

text \<open>The window of a read that fits: its byte index and bit offset, and the bytes it touches.\<close>

lemma fitting_window:
  assumes "wf_slice s" "off + n \<le> size_bits s"
  obtains q j where "j < 8"
    "u16_add (bits_start (sl_range s)) off = 8 * q + j" "u16_add (8 * q + j) n = 8 * q + j + n"
    "8 * q + j + n \<le> bits_end (sl_range s)"
    "8 * q + j + n \<le> 8 * length (cell_data (sl_cell s))"
    "take n (drop off (slice_bits s)) = bits_range (cell_data (sl_cell s)) (8 * q + j) (8 * q + j + n)"
proof -
  let ?st = "bits_start (sl_range s)"
  obtain q j where i: "?st + off = 8 * q + j" "j < 8" by (rule split_index8)
  have sm: "small16 off" and l: "?st + off + n \<le> bits_end (sl_range s)"
    using assms wf_sliceD(1,2) [OF assms(1)] by (auto simp: size_bits_eq)
  show thesis
  proof
    show "j < 8" by fact
    show u: "u16_add ?st off = 8 * q + j" using u16_start [OF assms(1) sm] i by simp
    show "8 * q + j + n \<le> bits_end (sl_range s)" using l i by simp
    then show "8 * q + j + n \<le> 8 * length (cell_data (sl_cell s))"
      using wf_sliceD(3) [OF assms(1)] by simp
    show "u16_add (8 * q + j) n = 8 * q + j + n" using l i wf_sliceD(2) [OF assms(1)] by simp
    show "take n (drop off (slice_bits s)) =
        bits_range (cell_data (sl_cell s)) (8 * q + j) (8 * q + j + n)"
      using assms i(1) by (simp add: slice_bits_window)
  qed
qed

lemma short_window:
  assumes "wf_slice s" "small16 (off + n)" "\<not> off + n \<le> size_bits s"
  shows "\<not> u16_add (u16_add (bits_start (sl_range s)) off) n \<le> bits_end (sl_range s)"
  using assms wf_sliceD(1,2) [OF assms(1)] u16_start [OF assms(1), of off]
  by (auto simp: size_bits_eq)

lemma get_small_uint_spec:
  assumes "wf_slice s" "small16 (off + n)"
  shows "get_small_uint s off n =
    (if n = 0 then Ok 0
     else if n \<le> 8 \<and> off + n \<le> size_bits s then Ok (word_of_bits (take n (drop off (slice_bits s))))
     else Err CellUnderflow)"
proof (cases "0 < n \<and> n \<le> 8 \<and> off + n \<le> size_bits s")
  case True
  let ?ds = "cell_data (sl_cell s)"
  obtain q j where j: "j < 8" and u: "u16_add (bits_start (sl_range s)) off = 8 * q + j"
      "u16_add (8 * q + j) n = 8 * q + j + n"
    and l: "8 * q + j + n \<le> bits_end (sl_range s)" "8 * q + j + n \<le> 8 * length ?ds"
    and w: "take n (drop off (slice_bits s)) = bits_range ?ds (8 * q + j) (8 * q + j + n)"
    using fitting_window [OF assms(1)] True by metis
  have q: "q < length ?ds" "n + j > 8 \<Longrightarrow> q + 1 < length ?ds" using l(2) True by auto
  show ?thesis
    using True l(1) q j
    by (simp add: get_small_uint_def Let_def u w nth_opt_def
        flip: get_small_uint_aux [where j = j and ds = ?ds and q = q])
next
  case False
  then show ?thesis
    using short_window [OF assms] by (auto simp: get_small_uint_def Let_def)
qed

lemma byte_bit_high [simp]: "8 \<le> k \<Longrightarrow> \<not> bit (b :: byte) k"
  by (auto dest: bit_imp_le_length)

lemma nbit_shift_block:
  "j + k < 8 \<Longrightarrow> nbit ds (8 * q + j + k) = bit (ds ! q) (7 - (j + k))"
  using nbit_block [of "j + k" ds q] by (simp add: add.assoc)

lemma ones8: "(0xff :: byte) = - 1"
  by simp

lemma get_uint_one_byte:
  assumes "0 < n" "j + n \<le> 8"
  shows "(ucast (drop_bit ((8 - (n + j) mod 8) mod 8) (ds ! q AND drop_bit j 0xff)) :: 64 word)
    = word_of_bits (bits_range ds (8 * q + j) (8 * q + j + n))"
proof (rule word_of_bits_range_eqI)
  fix m
  have sh: "(8 - (n + j) mod 8) mod 8 = 8 - (n + j)" using assms by (cases "n + j = 8") auto
  show "bit (ucast (drop_bit ((8 - (n + j) mod 8) mod 8) (ds ! q AND drop_bit j 0xff)) :: 64 word) m
    \<longleftrightarrow> m < n \<and> nbit ds (8 * q + j + (n - 1 - m))"
  proof (cases "m < n")
    case True
    then have "nbit ds (8 * q + j + (n - 1 - m)) = bit (ds ! q) (8 - (n + j) + m)"
      using assms by (subst nbit_shift_block) (auto intro!: arg_cong [where f = "bit _"])
    then show ?thesis unfolding ones8 using True assms by (auto simp: sh bit_simps)
  qed (use assms in \<open>auto simp: sh bit_simps ones8\<close>)
qed

lemma get_uint_bytes:
  assumes "8 < j + n" "n \<le> 64" "j < 8" "8 * q + j + n \<le> 8 * length ds"
  defines "n' \<equiv> n - (8 - j)"
  defines "buf \<equiv> copy_bytes (replicate 8 0) 0 (drop (q + 1) ds) (div_ceil8 n')"
  shows "drop_bit (64 - n') (from_be_bytes buf :: 64 word) OR push_bit n' (ucast (ds ! q AND drop_bit j 0xff))
    = word_of_bits (bits_range ds (8 * q + j) (8 * q + j + n))"
proof (rule word_of_bits_range_eqI)
  have n': "0 < n'" "n' \<le> 63" "n = n' + (8 - j)" using assms(1-3) by (auto simp: n'_def)
  have c: "div_ceil8 n' \<le> 8" using n' by (auto simp: div_ceil8_le_iff)
  have d: "div_ceil8 n' \<le> length (drop (q + 1) ds)" "q + 1 \<le> length ds"
    using assms(1,3,4) n' by (auto simp: div_ceil8_le_iff)
  have lb: "length buf = 8" using c d by (simp add: buf_def)
  have nb: "nbit buf k = nbit ds (8 * (q + 1) + k)" if "k < n'" for k
  proof -
    have "k < 8 * div_ceil8 n'" using that div_ceil8_bounds(1) [of n'] by simp
    then show ?thesis using c d by (simp add: buf_def nbit_copy_bytes nbit_drop)
  qed
  fix m assume "m < LENGTH(64)"
  then have m: "m < 64" by simp
  show "bit (drop_bit (64 - n') (from_be_bytes buf :: 64 word)
      OR push_bit n' (ucast (ds ! q AND drop_bit j 0xff))) m
    \<longleftrightarrow> m < n \<and> nbit ds (8 * q + j + (n - 1 - m))"
  proof (cases "m < n'")
    case True
    then have e: "63 - (64 - n' + m) = n' - 1 - m" "8 * q + j + (n - 1 - m) = 8 * (q + 1) + (n' - 1 - m)"
      using n' assms(3) by auto
    then have "nbit buf (63 - (64 - n' + m)) = nbit ds (8 * q + j + (n - 1 - m))"
      using nb [of "n' - 1 - m"] True by simp
    then show ?thesis using True m n' by (auto simp: bit_simps lb)
  next
    case False
    have "nbit ds (8 * q + j + (n - 1 - m)) = bit (ds ! q) (m - n')" if "m < n"
      using that False n' assms(3)
      by (subst nbit_shift_block) (auto intro!: arg_cong [where f = "bit _"])
    then show ?thesis unfolding ones8 using False m n' assms(3) by (auto simp: bit_simps lb)
  qed
qed

lemma get_uint_spec:
  assumes "wf_slice s" "small16 (off + n)"
  shows "get_uint s off n =
    (if n = 0 then Ok 0
     else if n \<le> 64 \<and> off + n \<le> size_bits s then Ok (word_of_bits (take n (drop off (slice_bits s))))
     else Err CellUnderflow)"
proof (cases "0 < n \<and> n \<le> 64 \<and> off + n \<le> size_bits s")
  case True
  let ?ds = "cell_data (sl_cell s)"
  obtain q j where j: "j < 8" and u: "u16_add (bits_start (sl_range s)) off = 8 * q + j"
      "u16_add (8 * q + j) n = 8 * q + j + n"
    and l: "8 * q + j + n \<le> bits_end (sl_range s)" "8 * q + j + n \<le> 8 * length ?ds"
    and w: "take n (drop off (slice_bits s)) = bits_range ?ds (8 * q + j) (8 * q + j + n)"
    using fitting_window [OF assms(1)] True by metis
  have d: "\<not> length ?ds < div_ceil8 (bits_end (sl_range s))" using wf_sliceD(4) [OF assms(1)] by simp
  show ?thesis
    using True l j d get_uint_one_byte [of n j ?ds q] get_uint_bytes [of j n q ?ds]
    by (simp add: get_uint_def Let_def u w)
next
  case False
  then show ?thesis
    using short_window [OF assms] by (auto simp: get_uint_def Let_def)
qed

section \<open>Integers of a fixed width\<close>

lemma nbit_take_drop:
  "q + k \<le> length ds \<Longrightarrow> i < 8 * k \<Longrightarrow> nbit (take k (drop q ds)) i = nbit ds (8 * q + i)"
  by (simp add: nbit_take nbit_drop)

lemma wide_aligned:
  assumes "LENGTH('a::len) = 8 * nb" "q + nb \<le> length ds"
  shows "(from_be_bytes (take nb (drop q ds)) :: 'a word)
    = word_of_bits (bits_range ds (8 * q) (8 * q + LENGTH('a)))"
  using assms by (intro word_of_bits_range_eqI) (auto simp: bit_simps nbit_take_drop)

lemma wide_unaligned:
  assumes "LENGTH('a::len) = 8 * nb" "0 < nb" "LENGTH('w::len) = 16 * nb"
    and "q + (nb + 1) \<le> length ds" "0 < j" "j < 8"
  shows "(ucast (drop_bit (8 - j) (from_be_bytes
        (copy_bytes (replicate (LENGTH('w) div 8) 0) (nb - 1) (drop q ds) (nb + 1)) :: 'w word)) :: 'a word)
    = word_of_bits (bits_range ds (8 * q + j) (8 * q + j + LENGTH('a)))"
    (is "ucast (drop_bit _ (from_be_bytes ?buf)) = _")
proof (rule word_of_bits_range_eqI)
  have lb: "length ?buf = 2 * nb" using assms by simp
  fix m assume m: "m < LENGTH('a)"
  then have "nbit ?buf (16 * nb - 1 - (8 - j + m)) = nbit ds (8 * q + j + (8 * nb - 1 - m))"
  proof -
    have e: "8 * (nb - 1) \<le> 16 * nb - 1 - (8 - j + m)" "16 * nb - 1 - (8 - j + m) < 8 * (nb - 1 + (nb + 1))"
      "8 * q + (16 * nb - 1 - (8 - j + m) - 8 * (nb - 1)) = 8 * q + j + (8 * nb - 1 - m)"
      using m assms by auto
    have "nbit ?buf (16 * nb - 1 - (8 - j + m)) = nbit (drop q ds) (16 * nb - 1 - (8 - j + m) - 8 * (nb - 1))"
      using assms e(1,2) by (simp add: nbit_copy_bytes)
    also have "\<dots> = nbit ds (8 * q + j + (8 * nb - 1 - m))"
      using assms(4) by (simp only: nbit_drop e(3))
    finally show ?thesis .
  qed
  moreover have "8 - j + m < 16 * nb" using m assms by linarith
  ultimately show "bit (ucast (drop_bit (8 - j) (from_be_bytes ?buf :: 'w word)) :: 'a word) m \<longleftrightarrow>
      m < LENGTH('a) \<and> nbit ds (8 * q + j + (LENGTH('a) - 1 - m))"
    using m assms(1,3) lb by (simp add: bit_simps)
qed

lemma get_wide_spec:
  assumes "wf_slice s" "small16 (off + LENGTH('a::len))"
    and "LENGTH('a) = 8 * nb" "0 < nb" "LENGTH('w::len) = 16 * nb"
  shows "(get_wide TYPE('w) s off :: 'a word result) =
    (if off + LENGTH('a) \<le> size_bits s
     then Ok (word_of_bits (take LENGTH('a) (drop off (slice_bits s)))) else Err CellUnderflow)"
proof (cases "off + LENGTH('a) \<le> size_bits s")
  case True
  let ?ds = "cell_data (sl_cell s)"
  obtain q j where j: "j < 8" and u: "u16_add (bits_start (sl_range s)) off = 8 * q + j"
      "u16_add (8 * q + j) LENGTH('a) = 8 * q + j + LENGTH('a)"
    and l: "8 * q + j + LENGTH('a) \<le> bits_end (sl_range s)" "8 * q + j + LENGTH('a) \<le> 8 * length ?ds"
    and w: "take LENGTH('a) (drop off (slice_bits s)) =
      bits_range ?ds (8 * q + j) (8 * q + j + LENGTH('a))"
    using fitting_window [OF assms(1) True] by metis
  have d: "q + nb \<le> length ?ds" "0 < j \<Longrightarrow> q + (nb + 1) \<le> length ?ds" using l(2) assms(3) by auto
  have nb: "LENGTH('a) div 8 = nb" using assms(3) by simp
  show ?thesis
    unfolding get_wide_def Let_def u nb w
    using True l(1) j d wide_aligned [OF assms(3) d(1)] wide_unaligned [OF assms(3-5) d(2)]
    by (cases "j = 0") simp_all
next
  case False
  then show ?thesis
    using short_window [OF assms(1,2)] by (auto simp: get_wide_def Let_def)
qed

lemmas get_u16_spec = get_wide_spec [where 'a = 16 and 'w = 32 and nb = 2, folded get_u16_def, simplified]
lemmas get_u32_spec = get_wide_spec [where 'a = 32 and 'w = 64 and nb = 4, folded get_u32_def, simplified]
lemmas get_u64_spec = get_wide_spec [where 'a = 64 and 'w = 128 and nb = 8, folded get_u64_def, simplified]

lemma carry_bit:
  fixes res b :: "'a::len word"
  assumes "j < 8" "m < LENGTH('a)" "k + (8 - j) = LENGTH('a)"
  shows "bit (push_bit k b OR drop_bit (8 - j) res) m \<longleftrightarrow>
    (if m < k then bit res (8 - j + m) else bit b (m - k))"
  using assms by (auto simp: bit_simps dest: bit_imp_le_length)

lemma u128_unaligned:
  assumes "q + 17 \<le> length ds" "0 < j" "j < 8"
  defines "res \<equiv> (from_be_bytes (take 16 (drop (q + 1) ds)) :: 128 word)"
  shows "push_bit (120 + j) (ucast (ds ! q)) OR drop_bit (8 - j) res
    = word_of_bits (bits_range ds (8 * q + j) (8 * q + j + 128))"
proof (rule word_of_bits_range_eqI)
  fix m assume "m < LENGTH(128)"
  then have m: "m < 128" by simp
  have "bit res (8 - j + m) = nbit ds (8 * q + j + (127 - m))" if "m < 120 + j"
  proof -
    have e: "8 * (q + 1) + (127 - (8 - j + m)) = 8 * q + j + (127 - m)" using that assms(3) by simp
    have "bit res (8 - j + m) = nbit ds (8 * (q + 1) + (127 - (8 - j + m)))"
      using that assms(1-3) unfolding res_def by (simp add: bit_simps nbit_take_drop) auto
    then show ?thesis by (simp only: e)
  qed
  moreover have "nbit ds (8 * q + j + (127 - m)) = bit (ds ! q) (m - (120 + j))" if "\<not> m < 120 + j"
    using that m assms(3) by (subst nbit_shift_block) (auto intro!: arg_cong [where f = "bit _"])
  ultimately show "bit (push_bit (120 + j) (ucast (ds ! q)) OR drop_bit (8 - j) res) m
    \<longleftrightarrow> m < 128 \<and> nbit ds (8 * q + j + (128 - 1 - m))"
    using m assms(3) by (subst carry_bit) (auto simp: bit_simps)
qed

lemma get_u128_spec:
  assumes "wf_slice s" "small16 (off + 128)"
  shows "get_u128 s off =
    (if off + 128 \<le> size_bits s then Ok (word_of_bits (take 128 (drop off (slice_bits s))))
     else Err CellUnderflow)"
proof (cases "off + 128 \<le> size_bits s")
  case True
  let ?ds = "cell_data (sl_cell s)"
  obtain q j where j: "j < 8" and u: "u16_add (bits_start (sl_range s)) off = 8 * q + j"
      "u16_add (8 * q + j) 128 = 8 * q + j + 128"
    and l: "8 * q + j + 128 \<le> bits_end (sl_range s)" "8 * q + j + 128 \<le> 8 * length ?ds"
    and w: "take 128 (drop off (slice_bits s)) = bits_range ?ds (8 * q + j) (8 * q + j + 128)"
    using fitting_window [OF assms(1) True] by metis
  have d: "q + 16 \<le> length ?ds" "0 < j \<Longrightarrow> q + 17 \<le> length ?ds" using l(2) by auto
  show ?thesis
    unfolding get_u128_def Let_def u w
    using True l(1) j d wide_aligned [where 'a = 128 and nb = 16, OF _ d(1)]
      u128_unaligned [OF d(2), of j]
    by (cases "j = 0") (simp_all add: copy_bytes_def drop_take)
next
  case False
  then show ?thesis using short_window [OF assms] by (auto simp: get_u128_def Let_def)
qed

lemma push_bit_high:
  assumes "q + 17 \<le> length ds" "0 < j" "j < 8"
  shows "push_bit (120 + j) (from_be_bytes (take 16 (drop (q + 1) ds)) :: 128 word)
    = push_bit (120 + j) (ucast (ds ! (q + 16)))"
proof (rule bit_word_eqI)
  fix m assume "m < LENGTH(128)"
  then have m: "m < 128" by simp
  have "bit (from_be_bytes (take 16 (drop (q + 1) ds)) :: 128 word) (m - (120 + j))
      = bit (ds ! (q + 16)) (m - (120 + j))" if "120 + j \<le> m"
  proof -
    have e: "8 * (q + 1) + (127 - (m - (120 + j))) = 8 * (q + 16) + (7 - (m - (120 + j)))"
      "7 - (7 - (m - (120 + j))) = m - (120 + j)" "7 - (m - (120 + j)) < 8"
      using that m assms(2) by auto
    have "bit (from_be_bytes (take 16 (drop (q + 1) ds)) :: 128 word) (m - (120 + j))
        = nbit ds (8 * (q + 1) + (127 - (m - (120 + j))))"
      using that m assms by (simp add: bit_simps nbit_take_drop) auto
    then show ?thesis by (simp only: e nbit_block)
  qed
  then show "bit (push_bit (120 + j) (from_be_bytes (take 16 (drop (q + 1) ds)) :: 128 word)) m
    = bit (push_bit (120 + j) (ucast (ds ! (q + 16))) :: 128 word) m"
    using m by (auto simp: bit_simps)
qed

lemma to_be_bytes_append_pack:
  assumes "length bs = 128" "length bs' = 128"
  shows "to_be_bytes (word_of_bits bs :: 128 word) @ to_be_bytes (word_of_bits bs' :: 128 word)
    = pack_bits (bs @ bs')"
proof (rule pack_bits_eqI)
  fix i assume "i < 8 * length (to_be_bytes (word_of_bits bs :: 128 word)
    @ to_be_bytes (word_of_bits bs' :: 128 word))"
  then show "nbit (to_be_bytes (word_of_bits bs :: 128 word) @ to_be_bytes (word_of_bits bs' :: 128 word)) i
    \<longleftrightarrow> i < length (bs @ bs') \<and> (bs @ bs') ! i"
    using assms by (auto simp: nbit_append nbit_to_be_bytes bit_word_of_bits nth_append)
qed (simp add: assms div_ceil8_def)

lemma pack_bits_take_drop:
  assumes "q + k \<le> length ds"
  shows "take k (drop q ds) = pack_bits (bits_range ds (8 * q) (8 * q + 8 * k))"
  by (rule pack_bits_eqI) (use assms in \<open>auto simp: div_ceil8_def nbit_take_drop\<close>)

lemma get_u256_spec:
  assumes "wf_slice s" "small16 (off + 256)"
  shows "get_u256 s off =
    (if off + 256 \<le> size_bits s then Ok (pack_bits (take 256 (drop off (slice_bits s))))
     else Err CellUnderflow)"
proof (cases "off + 256 \<le> size_bits s")
  case True
  let ?ds = "cell_data (sl_cell s)"
  obtain q j where j: "j < 8" and u: "u16_add (bits_start (sl_range s)) off = 8 * q + j"
      "u16_add (8 * q + j) 256 = 8 * q + j + 256"
    and l: "8 * q + j + 256 \<le> bits_end (sl_range s)" "8 * q + j + 256 \<le> 8 * length ?ds"
    and w: "take 256 (drop off (slice_bits s)) = bits_range ?ds (8 * q + j) (8 * q + j + 256)"
    using fitting_window [OF assms(1) True] by metis
  show ?thesis
  proof (cases "j = 0")
    case True
    then have "q + 32 \<le> length ?ds" using l(2) by simp
    with True l(1) pack_bits_take_drop [OF this] show ?thesis
      unfolding get_u256_def Let_def u w using \<open>off + 256 \<le> size_bits s\<close> by simp
  next
    case False
    then have d: "q + 33 \<le> length ?ds" "q + 17 \<le> length ?ds" "q + 16 + 17 \<le> length ?ds" "0 < j"
      using l(2) by auto
    let ?hi = "from_be_bytes (take 16 (drop (q + 1) ?ds)) :: 128 word"
      and ?lo = "from_be_bytes (take 16 (drop (q + 16 + 1) ?ds)) :: 128 word"
    have sp: "bits_range ?ds (8 * q + j) (8 * q + j + 256) =
        bits_range ?ds (8 * q + j) (8 * q + j + 128)
        @ bits_range ?ds (8 * (q + 16) + j) (8 * (q + 16) + j + 128)"
      using bits_range_append [of "8 * q + j" "8 * q + j + 128" "8 * q + j + 256" ?ds]
      by (simp add: algebra_simps)
    have v: "to_be_bytes (drop_bit (8 - j) ?hi OR push_bit (120 + j) (ucast (?ds ! q)))
        @ to_be_bytes (drop_bit (8 - j) ?lo OR push_bit (120 + j) ?hi)
        = pack_bits (bits_range ?ds (8 * q + j) (8 * q + j + 256))"
      unfolding sp or.commute [of "drop_bit (8 - j) _"] push_bit_high [OF d(2,4) j]
        u128_unaligned [OF d(2,4) j] u128_unaligned [OF d(3,4) j]
      by (rule to_be_bytes_append_pack) simp_all
    have b: "copy_bytes (replicate 33 0) 0 (drop q ?ds) 33 ! 0 = ?ds ! q"
      "take 16 (drop 1 (copy_bytes (replicate 33 0) 0 (drop q ?ds) 33)) = take 16 (drop (q + 1) ?ds)"
      "drop 17 (copy_bytes (replicate 33 0) 0 (drop q ?ds) 33) = take 16 (drop (q + 16 + 1) ?ds)"
      using d(1) by (simp_all add: copy_bytes_def drop_take min_def add.commute)
    have m: "(8 * q + j) mod 8 = j" "(8 * q + j) div 8 = q" using j by simp_all
    show ?thesis
      unfolding get_u256_def Let_def u w m b v using True l(1) False d(1) by simp
  qed
next
  case False
  then show ?thesis using short_window [OF assms] by (auto simp: get_u256_def Let_def)
qed

section \<open>Raw bytes\<close>

lemma shifted_pair_bit:
  assumes "b < 8" "r < 8"
  shows "bit (push_bit r (ds ! q) OR drop_bit (8 - r) (ds ! (q + 1)) :: byte) (7 - b) = nbit ds (8 * q + r + b)"
proof (cases "r + b < 8")
  case True
  then show ?thesis using assms by (auto simp: bit_simps nbit_shift_block add.commute [of b r])
next
  case False
  then have e: "8 * q + r + b = 8 * (q + 1) + (r + b - 8)" "r + b - 8 < 8"
    "8 - r + (7 - b) = 7 - (r + b - 8)" using assms by auto
  have "nbit ds (8 * q + r + b) = bit (ds ! (q + 1)) (7 - (r + b - 8))"
    unfolding e(1) by (rule nbit_block [OF e(2)])
  then show ?thesis using assms False e(3) by (auto simp: bit_simps)
qed

lemma length_get_raw_loop [simp]: "length (get_raw_loop ds q r i n t) = length t"
  by (induction n arbitrary: q i t) auto

lemma nth_get_raw_loop:
  assumes "i + n \<le> length t" "k < length t"
  shows "get_raw_loop ds q r i n t ! k =
    (if i \<le> k \<and> k < i + n
     then push_bit r (ds ! (q + (k - i))) OR drop_bit (8 - r) (ds ! (q + (k - i) + 1)) else t ! k)"
  using assms
proof (induction n arbitrary: q i t)
  case (Suc n)
  let ?t = "t[i := push_bit r (ds ! q) OR drop_bit (8 - r) (ds ! (q + 1))]"
  have ih: "get_raw_loop ds (q + 1) r (i + 1) n ?t ! k = (if i + 1 \<le> k \<and> k < i + 1 + n
     then push_bit r (ds ! (q + 1 + (k - (i + 1)))) OR drop_bit (8 - r) (ds ! (q + 1 + (k - (i + 1)) + 1))
     else ?t ! k)"
    using Suc.prems by (intro Suc.IH) simp_all
  have "q + 1 + (k - (i + 1)) = q + (k - i)" if "i < k" using that by simp
  then show ?case
    unfolding get_raw_loop.simps ih using Suc.prems by (cases "k = i") auto
qed auto

lemma nbit_mask_last:
  assumes "length t = div_ceil8 n" "i < 8 * length t" "0 < n"
  shows "nbit (mask_last t (div_ceil8 n - 1) (n mod 8)) i \<longleftrightarrow> nbit t i \<and> i < n"
proof (cases "n mod 8 = 0")
  case True
  then have "8 * div_ceil8 n = n" by (auto simp: div_ceil8_def elim!: dvdE)
  with True assms show ?thesis by (simp add: mask_last_def)
next
  case False
  obtain q j where n: "n = 8 * q + j" "j < 8" "n mod 8 = j" using split_index8 by metis
  have d: "div_ceil8 n = q + 1" using n False by (simp add: div_ceil8_def)
  obtain q' j' where i: "i = 8 * q' + j'" "j' < 8" "i div 8 = q'" "i mod 8 = j'" by (rule split_index8)
  have q: "q < length t" "q' \<le> q" using assms i d by simp_all
  have m: "nbit (mask_last t (div_ceil8 n - 1) (n mod 8)) i =
      (if q' = q then bit (t ! q AND push_bit (8 - j) (- 1)) (7 - j') else nbit t i)"
    using q(1) False n(3) i(3,4) unfolding mask_last_def d ones8 by (simp add: nbit_update)
  show ?thesis
  proof (cases "q' = q")
    case True
    then have "i < n \<longleftrightarrow> j' < j" using i n by simp
    with True i n(2) show ?thesis unfolding m by (auto simp: nbit_block bit_simps)
  next
    case False
    then show ?thesis unfolding m using q(2) i n by simp
  qed
qed

lemma length_mask_last [simp]: "length (mask_last t i r) = length t"
  by (simp add: mask_last_def)

lemma mask_last_pack:
  assumes "length t = div_ceil8 n" "0 < n" "\<And>i. i < n \<Longrightarrow> nbit t i = nbit ds (k + i)"
  shows "mask_last t (div_ceil8 n - 1) (n mod 8) = pack_bits (bits_range ds k (k + n))"
  by (rule pack_bits_eqI) (use assms in \<open>auto simp: nbit_mask_last [unfolded One_nat_def]\<close>)

lemma get_raw_unaligned:
  assumes "0 < n" "0 < r" "r < 8" "8 * q + r + n \<le> 8 * length ds" "length t = div_ceil8 n"
  defines "bl \<equiv> div_ceil8 (n + r) - 1"
  defines "t' \<equiv> get_raw_loop ds q r 0 bl t"
  shows "mask_last (if bl < length t then t'[bl := push_bit r (ds ! (q + bl))] else t')
      (length t - 1) (n mod 8)
    = pack_bits (bits_range ds (8 * q + r) (8 * q + r + n))"
proof -
  let ?u = "if bl < length t then t'[bl := push_bit r (ds ! (q + bl))] else t'"
  have bl: "bl \<le> length t" "length t \<le> bl + 1" "n + r \<le> 8 * (bl + 1)"
    using assms(1-3,5) div_ceil8_bounds [of n] div_ceil8_bounds [of "n + r"] by (auto simp: bl_def)
  have "nbit ?u i = nbit ds (8 * q + r + i)" if "i < n" for i
  proof -
    obtain k b where i: "i = 8 * k + b" "b < 8" by (rule split_index8)
    have k: "k < length t" using that i assms(5) div_ceil8_bounds(1) [of n] by linarith
    have ui: "nbit ?u i = bit (?u ! k) (7 - b)" using i by (simp only: nbit_block)
    show ?thesis
    proof (cases "k < bl")
      case True
      then have "?u ! k = push_bit r (ds ! (q + k)) OR drop_bit (8 - r) (ds ! (q + k + 1))"
        using k bl(1) by (simp add: t'_def nth_get_raw_loop)
      moreover have "8 * q + r + i = 8 * (q + k) + r + b" using i by simp
      ultimately show ?thesis unfolding ui by (simp only: shifted_pair_bit [OF i(2) assms(3)])
    next
      case False
      then have kb: "k = bl" using k bl by simp
      then have "?u ! k = push_bit r (ds ! (q + bl))" using k by (simp add: t'_def)
      moreover have rb: "r + b < 8" using that i kb bl(3) by simp
      moreover have e: "8 * q + r + i = 8 * (q + bl) + r + b" using kb i by simp
      ultimately show ?thesis
        unfolding ui e nbit_shift_block [OF rb] by (auto simp: bit_simps add.commute [of b r])
    qed
  qed
  moreover have "length ?u = div_ceil8 n" by (simp add: t'_def assms(5))
  ultimately show ?thesis using mask_last_pack [of ?u n ds "8 * q + r"] assms(1,5) by simp
qed

lemma get_raw_aligned:
  assumes "0 < n" "q + length t \<le> length ds" "length t = div_ceil8 n"
  shows "mask_last (copy_bytes t 0 (drop q ds) (length t)) (length t - 1) (n mod 8)
    = pack_bits (bits_range ds (8 * q) (8 * q + n))"
proof -
  have "nbit (copy_bytes t 0 (drop q ds) (length t)) i = nbit ds (8 * q + i)" if "i < n" for i
    using that assms div_ceil8_bounds(1) [of n] by (simp add: nbit_copy_bytes nbit_drop)
  then show ?thesis using assms mask_last_pack [of "copy_bytes t 0 (drop q ds) (length t)" n ds "8 * q"]
    by simp
qed

lemma get_raw_spec:
  assumes "wf_slice s" "small16 n" "div_ceil8 n \<le> length target"
  shows "get_raw s 0 target n =
    (if n \<le> size_bits s then Ok (pack_bits (take n (slice_bits s))) else Err CellUnderflow)"
proof (cases "n = 0")
  case True
  then show ?thesis by (simp add: get_raw_def pack_bits_def)
next
  case False
  show ?thesis
  proof (cases "n \<le> size_bits s")
    case True
    let ?ds = "cell_data (sl_cell s)" and ?t = "take (div_ceil8 n) target"
    obtain q j where j: "j < 8" and u: "u16_add (bits_start (sl_range s)) 0 = 8 * q + j"
        "u16_add (8 * q + j) n = 8 * q + j + n"
      and l: "8 * q + j + n \<le> bits_end (sl_range s)" "8 * q + j + n \<le> 8 * length ?ds"
      and w: "take n (drop 0 (slice_bits s)) = bits_range ?ds (8 * q + j) (8 * q + j + n)"
      using fitting_window [OF assms(1), of 0 n] True by (metis add_0)
    have st: "bits_start (sl_range s) = 8 * q + j" using u(1) wf_sliceD(1,2) [OF assms(1)] by simp
    have t: "length ?t = div_ceil8 n" using assms(3) by simp
    have m: "(8 * q + j) mod 8 = j" "(8 * q + j) div 8 = q" using j by simp_all
    have d: "j = 0 \<Longrightarrow> q + div_ceil8 n \<le> length ?ds" "q + (div_ceil8 (n + j) - 1) \<le> length ?ds"
      using l(2) div_ceil8_bounds(2) [of n] div_ceil8_bounds(2) [of "n + j"] by auto
    show ?thesis
      unfolding get_raw_def Let_def st u(2) u(1) [unfolded st] m
      using False True l(1) d assms(3) w j t
        get_raw_aligned [of n q ?t ?ds] get_raw_unaligned [of n j q ?ds ?t, OF _ _ j l(2) t]
      by (cases "j = 0") simp_all
  next
    case False
    then show ?thesis
      using \<open>n \<noteq> 0\<close> short_window [of s 0 n] assms u16_start [OF assms(1), of 0]
      by (auto simp: get_raw_def Let_def)
  qed
qed

end
