(* ===== verification/Cell_Slice_Cmp.thy ===== *)
theory Cell_Slice_Cmp
  imports Cell_Slice_Read
begin

text \<open>
  The comparing and scanning operations of \<open>CellSlice\<close> against the list of bits of the window:
  \<open>lcp_impl\<close> is the length of the longest common prefix, \<open>bits_memscan\<close> and \<open>bits_memscan_rev\<close> the
  length of the leading and trailing run of a bit (for every address of the data), \<open>test_uniform\<close>
  decides whether the window is constant, \<open>lex_cmp\<close> is the lexicographic order.
\<close>

section \<open>The first difference\<close>

text \<open>\<open>first_diff P M n\<close>: \<open>n\<close> is the first index below \<open>M\<close> where \<open>P\<close> fails, or \<open>M\<close>.\<close>

definition first_diff :: "(nat \<Rightarrow> bool) \<Rightarrow> nat \<Rightarrow> nat \<Rightarrow> bool" where
  "first_diff P M n \<longleftrightarrow> n \<le> M \<and> (\<forall>i<n. P i) \<and> (n < M \<longrightarrow> \<not> P n)"

lemma first_diffI:
  "(\<And>i. i < n \<Longrightarrow> P i) \<Longrightarrow> (n < M \<Longrightarrow> \<not> P n) \<Longrightarrow> first_diff P M (min n M)"
  by (auto simp: first_diff_def min_def)

lemma first_diff_full: "(\<And>i. i < M \<Longrightarrow> P i) \<Longrightarrow> M \<le> n \<Longrightarrow> first_diff P M (min n M)"
  by (auto simp: first_diff_def min_def)

lemma leading_zeros_props:
  fixes x :: "'a::len word"
  shows "leading_zeros x \<le> LENGTH('a)"
    and "i < leading_zeros x \<Longrightarrow> \<not> bit x (LENGTH('a) - 1 - i)"
    and "leading_zeros x < LENGTH('a) \<Longrightarrow> bit x (LENGTH('a) - 1 - leading_zeros x)"
proof -
  let ?bs = "word_bits LENGTH('a) x"
  show le: "leading_zeros x \<le> LENGTH('a)"
    using run_len_le [of False ?bs] by (simp add: leading_zeros_run)
  show "\<not> bit x (LENGTH('a) - 1 - i)" if "i < leading_zeros x"
    using run_len_nth [of i False ?bs] that le by (simp add: leading_zeros_run)
  show "bit x (LENGTH('a) - 1 - leading_zeros x)" if "leading_zeros x < LENGTH('a)"
    using nth_length_takeWhile [of Not ?bs] that by (simp add: leading_zeros_def)
qed

lemma trailing_zeros_props:
  fixes x :: "'a::len word"
  shows "trailing_zeros x \<le> LENGTH('a)"
    and "i < trailing_zeros x \<Longrightarrow> \<not> bit x i"
    and "trailing_zeros x < LENGTH('a) \<Longrightarrow> bit x (trailing_zeros x)"
proof -
  let ?bs = "rev (word_bits LENGTH('a) x)"
  have n: "?bs ! i = bit x i" if "i < LENGTH('a)" for i using that by (simp add: rev_nth)
  show le: "trailing_zeros x \<le> LENGTH('a)"
    using run_len_le [of False ?bs] by (simp add: trailing_zeros_run)
  show "\<not> bit x i" if "i < trailing_zeros x"
    using run_len_nth [of i False ?bs] that le n [of i] by (simp add: trailing_zeros_run)
  show "bit x (trailing_zeros x)" if "trailing_zeros x < LENGTH('a)"
    using nth_length_takeWhile [of Not ?bs] that n by (simp add: trailing_zeros_def)
qed

lemma leading_zeros_less: "x \<noteq> 0 \<Longrightarrow> leading_zeros x < LENGTH('a)" for x :: "'a::len word"
proof (rule ccontr)
  assume nz: "x \<noteq> 0" and "\<not> leading_zeros x < LENGTH('a)"
  then have l: "leading_zeros x = LENGTH('a)" using leading_zeros_props(1) [of x] by simp
  have "x = 0"
  proof (rule bit_word_eqI)
    fix n assume "n < LENGTH('a)"
    then have "LENGTH('a) - 1 - n < leading_zeros x" "LENGTH('a) - 1 - (LENGTH('a) - 1 - n) = n"
      using l by auto
    then show "bit x n = bit 0 n" using leading_zeros_props(2) [of "LENGTH('a) - 1 - n" x] by simp
  qed
  with nz show False by simp
qed

lemma trailing_zeros_less: "x \<noteq> 0 \<Longrightarrow> trailing_zeros x < LENGTH('a)" for x :: "'a::len word"
proof (rule ccontr)
  assume nz: "x \<noteq> 0" and "\<not> trailing_zeros x < LENGTH('a)"
  then have l: "trailing_zeros x = LENGTH('a)" using trailing_zeros_props(1) [of x] by simp
  have "x = 0" by (rule bit_word_eqI) (use l trailing_zeros_props(2) [of _ x] in simp)
  with nz show False by simp
qed

lemma unat_less_leading_zeros: "unat x < 2 ^ (LENGTH('a) - leading_zeros x)" for x :: "'a::len word"
proof -
  let ?k = "LENGTH('a) - leading_zeros x"
  have z: "k < ?k" if "bit x k" for k
  proof (rule ccontr)
    have k: "k < LENGTH('a)" using bit_imp_le_length [OF that] .
    moreover assume "\<not> k < ?k"
    ultimately have "LENGTH('a) - 1 - k < leading_zeros x" "LENGTH('a) - 1 - (LENGTH('a) - 1 - k) = k"
      using leading_zeros_props(1) [of x] by auto
    with leading_zeros_props(2) [of "LENGTH('a) - 1 - k" x] that show False by simp
  qed
  have "take_bit ?k x = x"
    by (rule bit_word_eqI) (use z in \<open>auto simp only: bit_take_bit_iff\<close>)
  then have "unat x = take_bit ?k (unat x)" by (metis unsigned_take_bit_eq)
  then show ?thesis by (metis take_bit_nat_less_exp)
qed

lemma leading_zeros_ge:
  fixes x :: "'a::len word"
  assumes "unat x < 2 ^ k"
  shows "LENGTH('a) - leading_zeros x \<le> k"
proof (rule ccontr)
  let ?i = "LENGTH('a) - 1 - leading_zeros x"
  assume c: "\<not> LENGTH('a) - leading_zeros x \<le> k"
  then have lz: "leading_zeros x < LENGTH('a)" "k \<le> ?i" by auto
  have "bit x ?i" using leading_zeros_props(3) [OF lz(1)] .
  then have "bit (unat x) ?i" by (simp add: bit_unsigned_iff)
  then have "\<not> unat x < 2 ^ ?i" by (auto simp: bit_iff_odd)
  moreover have "(2::nat) ^ k \<le> 2 ^ ?i" using lz by (intro power_increasing) auto
  ultimately show False using assms by linarith
qed

text \<open>The leading zeros of a word continue a run of \<open>p\<close> bits on which \<open>P\<close> holds.\<close>

lemma first_diff_word:
  fixes x :: "'a::len word"
  assumes "\<And>i. i < p \<Longrightarrow> P i"
    and "\<And>b. b < LENGTH('a) \<Longrightarrow> p + b < M \<Longrightarrow> bit x (LENGTH('a) - 1 - b) \<longleftrightarrow> \<not> P (p + b)"
    and "x \<noteq> 0 \<or> M \<le> p + LENGTH('a)"
  shows "first_diff P M (min (p + leading_zeros x) M)"
proof -
  have P: "P i" if "i < p + leading_zeros x" "i < M" for i
  proof (cases "i < p")
    case False
    then have "\<not> bit x (LENGTH('a) - 1 - (i - p))" "i - p < LENGTH('a)"
      using that leading_zeros_props(1) [of x] leading_zeros_props(2) [of "i - p" x] by auto
    then show ?thesis using assms(2) [of "i - p"] False that by simp
  qed (use assms(1) in simp)
  show ?thesis
  proof (cases "p + leading_zeros x < M")
    case True
    then have "leading_zeros x < LENGTH('a)" using assms(3) leading_zeros_less [of x] by auto
    then have "\<not> P (p + leading_zeros x)"
      using assms(2) [of "leading_zeros x"] leading_zeros_props(3) [of x] True by simp
    with True P show ?thesis by (simp add: first_diff_def)
  next
    case False
    with P show ?thesis by (simp add: first_diff_def)
  qed
qed

section \<open>Longest common prefix\<close>

lemma lcp_loop_spec:
  fixes sr orr :: nat and sd od :: "byte list"
  assumes "sr < 8" "orr < 8"
  defines "P \<equiv> \<lambda>i. nbit sd (sr + i) = nbit od (orr + i)"
  assumes "\<And>i. i < 8 * k \<Longrightarrow> P i"
  shows "case lcp_loop sd od sr orr M (k + 1) n (push_bit sr (sd ! k)) (push_bit orr (od ! k)) (8 * k) of
      Inl v \<Rightarrow> first_diff P M v
    | Inr (pl, sb, ob) \<Rightarrow> pl = 8 * (k + n) \<and> sb = push_bit sr (sd ! (k + n))
        \<and> ob = push_bit orr (od ! (k + n)) \<and> (\<forall>i < 8 * (k + n). P i)"
  using assms(4)
proof (induction n arbitrary: k)
  case (Suc n)
  let ?sb = "push_bit sr (sd ! k) OR drop_bit (8 - sr) (sd ! (k + 1))"
    and ?ob = "push_bit orr (od ! k) OR drop_bit (8 - orr) (od ! (k + 1))"
  have c: "ucast (drop_bit (8 - r) (ucast b :: 16 word)) = drop_bit (8 - r) b" for b :: byte and r
    by (rule bit_word_eqI) (auto simp: bit_simps)
  have x: "bit (?sb XOR ?ob) (7 - b) \<longleftrightarrow> \<not> P (8 * k + b)" if "b < 8" for b
  proof -
    have e: "sr + (8 * k + b) = 8 * k + sr + b" "orr + (8 * k + b) = 8 * k + orr + b" by simp_all
    show ?thesis
      unfolding P_def e bit_xor_iff shifted_pair_bit [OF that assms(1)] shifted_pair_bit [OF that assms(2)]
      by blast
  qed
  show ?case
  proof (cases "?sb XOR ?ob = 0")
    case True
    have P': "P i" if "i < 8 * (k + 1)" for i
    proof (cases "i < 8 * k")
      case False
      then have "i - 8 * k < 8" "8 * k + (i - 8 * k) = i" using that by auto
      then show ?thesis using x [of "i - 8 * k"] True by simp
    qed (use Suc.prems in simp)
    show ?thesis
      using Suc.IH [of "k + 1"] P' True
      by (simp add: c Let_def add.commute [of "8 * k" 8] split: sum.splits prod.splits)
  next
    case False
    then have "first_diff P M (min (8 * k + leading_zeros (?sb XOR ?ob)) M)"
      using Suc.prems x by (intro first_diff_word) simp_all
    with False show ?thesis by (simp add: c Let_def)
  qed
qed simp

text \<open>The last, possibly partial byte: only the bits below the mask count.\<close>

lemma lcp_last_byte:
  fixes d :: "byte list" and n r M :: nat
  assumes "r < 8" "8 * n + b < M" "b < 8"
  defines "sb \<equiv> div_ceil8 (r + M)"
  assumes "n + 1 \<le> sb"
  shows "bit (if r > 0 \<and> n + 1 < sb then push_bit r (d ! n) OR drop_bit (8 - r) (d ! (n + 1))
      else push_bit r (d ! n)) (7 - b) = nbit d (r + (8 * n + b))"
proof -
  have e: "r + (8 * n + b) = 8 * n + r + b" by simp
  show ?thesis
  proof (cases "r > 0 \<and> n + 1 < sb")
    case True
    then show ?thesis unfolding e using shifted_pair_bit [OF assms(3,1), of d n] by simp
  next
    case False
    then have "r = 0 \<or> sb = n + 1" using assms(5) by auto
    then have rb: "r + b < 8"
      using assms(2,3) div_ceil8_bounds(1) [of "r + M"] by (auto simp: sb_def)
    show ?thesis
      unfolding e nbit_shift_block [OF rb] using False rb by (auto simp: bit_simps add.commute [of b r])
  qed
qed

lemma last_mask_bit:
  assumes "8 * n < M" "M \<le> 8 * n + 8" "b < 8"
  shows "bit (push_bit ((8 - M mod 8) mod 8) 0xff :: byte) (7 - b) \<longleftrightarrow> 8 * n + b < M"
proof -
  obtain j where j: "M = 8 * n + j" "0 < j" "j \<le> 8" using assms(1,2) by (metis add_le_cancel_left less_imp_add_positive)
  then have "(8 - M mod 8) mod 8 = 8 - j" by (cases "j = 8") auto
  then show ?thesis unfolding ones8 using j assms(3) by (auto simp: bit_simps)
qed

lemma lcp_core:
  fixes sr orr M :: nat and sd od :: "byte list"
  assumes r: "sr < 8" "orr < 8"
  defines "P \<equiv> \<lambda>i. nbit sd (sr + i) = nbit od (orr + i)"
  defines "n \<equiv> min (div_ceil8 (sr + M)) (div_ceil8 (orr + M))"
  shows "first_diff P M
    (case lcp_loop sd od sr orr M 1 (n - 1) (push_bit sr (sd ! 0)) (push_bit orr (od ! 0)) 0 of
       Inl v \<Rightarrow> v
     | Inr (pl, sb, ob) \<Rightarrow>
         min (pl + leading_zeros
           (((if sr > 0 \<and> n < div_ceil8 (sr + M) then sb OR drop_bit (8 - sr) (sd ! n) else sb)
              AND push_bit ((8 - M mod 8) mod 8) 0xff)
            XOR ((if orr > 0 \<and> n < div_ceil8 (orr + M) then ob OR drop_bit (8 - orr) (od ! n) else ob)
              AND push_bit ((8 - M mod 8) mod 8) 0xff))) M)"
    (is "first_diff P M (case ?L of Inl v \<Rightarrow> v | Inr (pl, sb, ob) \<Rightarrow> ?last pl sb ob)")
proof -
  let ?m = "n - 1"
  have loop: "case ?L of Inl v \<Rightarrow> first_diff P M v
    | Inr (pl, sb, ob) \<Rightarrow> pl = 8 * ?m \<and> sb = push_bit sr (sd ! ?m)
        \<and> ob = push_bit orr (od ! ?m) \<and> (\<forall>i < 8 * ?m. P i)"
    using lcp_loop_spec [OF r, of 0 sd od M ?m] by (simp add: P_def split: sum.splits prod.splits)
  show ?thesis
  proof (cases ?L)
    case (Inl v)
    with loop show ?thesis by simp
  next
    case (Inr y)
    then obtain pl sb ob where L: "?L = Inr (pl, sb, ob)" by (cases y) auto
    with loop have pl: "pl = 8 * ?m" "sb = push_bit sr (sd ! ?m)" "ob = push_bit orr (od ! ?m)"
      and P: "\<And>i. i < 8 * ?m \<Longrightarrow> P i" by auto
    have "first_diff P M (?last pl sb ob)"
    proof (cases "M \<le> 8 * ?m")
      case True
      then show ?thesis using P pl(1) by (intro first_diff_full) auto
    next
      case False
      then have n: "n = ?m + 1" "M \<le> 8 * ?m + 8" "?m + 1 \<le> div_ceil8 (sr + M)" "?m + 1 \<le> div_ceil8 (orr + M)"
        using div_ceil8_bounds(1) [of "sr + M"] div_ceil8_bounds(1) [of "orr + M"]
        by (auto simp: n_def)
      have M: "8 * ?m < M" using False by simp
      show ?thesis
      proof (intro first_diff_word)
        fix b :: nat assume "b < LENGTH(8)" and bM: "pl + b < M"
        then have b: "b < 8" by simp
        note sb = lcp_last_byte [OF r(1) bM [unfolded pl] b n(3), of sd]
          and ob = lcp_last_byte [OF r(2) bM [unfolded pl] b n(4), of od]
        have mk: "bit (push_bit ((8 - M mod 8) mod 8) 0xff :: byte) (7 - b)"
          using last_mask_bit [OF M n(2) b] bM pl by simp
        show "bit (((if sr > 0 \<and> n < div_ceil8 (sr + M) then sb OR drop_bit (8 - sr) (sd ! n) else sb)
              AND push_bit ((8 - M mod 8) mod 8) 0xff)
            XOR ((if orr > 0 \<and> n < div_ceil8 (orr + M) then ob OR drop_bit (8 - orr) (od ! n) else ob)
              AND push_bit ((8 - M mod 8) mod 8) 0xff)) (LENGTH(8) - 1 - b) \<longleftrightarrow> \<not> P (pl + b)"
          using sb ob mk unfolding pl P_def n(1) [symmetric]
          by (simp add: bit_xor_iff bit_and_iff)
      qed (use P pl n in auto)
    qed
    with L show ?thesis by simp
  qed
qed

lemma lcp_impl_spec:
  assumes "wf_slice s" "wf_slice t"
  shows "lcp_impl s t h = min (lcp_len (slice_bits s) (slice_bits t)) h"
proof (cases "slice_bits s = [] \<or> slice_bits t = []")
  case True
  then have "bits_end (sl_range s) \<le> bits_start (sl_range s) \<or> bits_end (sl_range t) \<le> bits_start (sl_range t)"
    by (auto simp: slice_bits_def bits_range_def)
  moreover have "lcp_len (slice_bits s) (slice_bits t) = 0" using True by (cases "slice_bits s") auto
  ultimately show ?thesis by (auto simp: lcp_impl_def Let_def)
next
  case False
  then have ne: "\<not> (bits_end (sl_range s) \<le> bits_start (sl_range s)
      \<or> bits_end (sl_range t) \<le> bits_start (sl_range t))"
    by (auto simp: slice_bits_def bits_range_def)
  let ?M = "min (min (size_bits s) (size_bits t)) h" and ?bs = "slice_bits s" and ?bt = "slice_bits t"
  have nb: "nbit (drop (bits_start (sl_range u) div 8) (cell_data (sl_cell u))) (bits_start (sl_range u) mod 8 + i)
      = slice_bits u ! i" if "wf_slice u" "i < size_bits u" for u i
  proof -
    have "bits_start (sl_range u) div 8 \<le> length (cell_data (sl_cell u))"
      using that(2) wf_sliceD(3) [OF that(1)] by (auto simp: size_bits_eq)
    then show ?thesis using that by (simp add: nbit_drop nth_slice_bits flip: add.assoc)
  qed
  have "first_diff (\<lambda>i. nbit (drop (bits_start (sl_range s) div 8) (cell_data (sl_cell s))) (bits_start (sl_range s) mod 8 + i)
      = nbit (drop (bits_start (sl_range t) div 8) (cell_data (sl_cell t))) (bits_start (sl_range t) mod 8 + i)) ?M (lcp_impl s t h)"
    unfolding lcp_impl_def Let_def if_not_P [OF ne] size_bits_eq
    by (rule lcp_core) simp_all
  then have fd: "lcp_impl s t h \<le> ?M" "\<And>i. i < lcp_impl s t h \<Longrightarrow> ?bs ! i = ?bt ! i"
    "lcp_impl s t h < ?M \<Longrightarrow> ?bs ! lcp_impl s t h \<noteq> ?bt ! lcp_impl s t h"
    using nb [OF assms(1)] nb [OF assms(2)] by (auto simp: first_diff_def)
  show ?thesis
  proof (cases "lcp_impl s t h < h \<or> h \<le> 0")
    case True
    then have "lcp_len ?bs ?bt = lcp_impl s t h \<or> h = 0" using fd by (auto intro!: lcp_len_eqI)
    with True fd show ?thesis by auto
  next
    case False
    then have "lcp_impl s t h = h" using fd by simp
    moreover have "h \<le> lcp_len ?bs ?bt"
    proof (rule ccontr)
      assume "\<not> h \<le> lcp_len ?bs ?bt"
      then have "lcp_len ?bs ?bt < h" by simp
      moreover from this have "?bs ! lcp_len ?bs ?bt \<noteq> ?bt ! lcp_len ?bs ?bt"
        using fd(1) \<open>lcp_impl s t h = h\<close> by (intro lcp_len_diff) auto
      ultimately show False using fd(2) \<open>lcp_impl s t h = h\<close> by simp
    qed
    ultimately show ?thesis by simp
  qed
qed

lemma longest_common_data_prefix_spec:
  assumes "wf_slice s" "wf_slice t"
  shows "wf_slice (longest_common_data_prefix s t)"
    and "slice_bits (longest_common_data_prefix s t)
      = take (lcp_len (slice_bits s) (slice_bits t)) (slice_bits s)"
    and "size_bits (longest_common_data_prefix s t) = lcp_len (slice_bits s) (slice_bits t)"
proof -
  have l: "lcp_len (slice_bits s) (slice_bits t) \<le> 1023"
    using lcp_len_le(1) [of "slice_bits s" "slice_bits t"] wf_sliceD(7) [OF assms(1)] by simp
  then have e: "lcp_impl s t 65535 = lcp_len (slice_bits s) (slice_bits t)"
    by (simp add: lcp_impl_spec assms)
  show "wf_slice (longest_common_data_prefix s t)"
    and b: "slice_bits (longest_common_data_prefix s t)
      = take (lcp_len (slice_bits s) (slice_bits t)) (slice_bits s)"
    using l assms(1) by (simp_all add: longest_common_data_prefix_def e get_prefix_spec)
  show "size_bits (longest_common_data_prefix s t) = lcp_len (slice_bits s) (slice_bits t)"
    using arg_cong [OF b, of length] lcp_len_le(1) [of "slice_bits s" "slice_bits t"] by simp
qed

lemma advance_0: "wf_slice s \<Longrightarrow> advance s 0 = s"
  using wf_sliceD(1,2) [of s] by (simp add: advance_def)

lemma strip_data_prefix_spec:
  assumes "wf_slice s" "wf_slice p"
  shows "strip_data_prefix s p =
    (if take (size_bits p) (slice_bits s) = slice_bits p then Some (advance s (size_bits p)) else None)"
proof -
  have "slice_bits p = []" if "size_bits p = 0" using that by (metis length_0_conv length_slice_bits)
  moreover have "take (size_bits p) (slice_bits s) \<noteq> slice_bits p" if "size_bits s < size_bits p"
    using that by (metis length_slice_bits length_take min.absorb2 min.cobounded1 not_less)
  moreover have "size_bits p \<le> lcp_len (slice_bits s) (slice_bits p)
      \<longleftrightarrow> take (size_bits p) (slice_bits s) = slice_bits p"
    using lcp_len_full_iff [of "slice_bits s" "slice_bits p"] lcp_len_le(2) [of "slice_bits s" "slice_bits p"]
    by (auto dest: sym [of "take _ _"]) (metis append_eq_conv_conj append_take_drop_id length_slice_bits)
  ultimately show ?thesis
    using assms wf_sliceD(7) [OF assms(2)] advance_0 [OF assms(1)]
    by (auto simp: strip_data_prefix_def Let_def lcp_impl_spec skip_first_advance)
qed

section \<open>Runs of a bit\<close>

text \<open>
  The state of the scanning loops: \<open>p\<close> is the byte the remaining \<open>rem\<close> bits start at, and every bit
  before it equals \<open>b\<close>.
\<close>

definition scan_inv :: "byte list \<Rightarrow> bool \<Rightarrow> nat \<Rightarrow> nat \<Rightarrow> nat \<Rightarrow> nat \<Rightarrow> bool" where
  "scan_inv ds b offset bc p rem \<longleftrightarrow>
     8 * p + rem = offset + bc \<and> rem \<le> bc \<and> (\<forall>i < bc - rem. nbit ds (offset + i) = b)"

abbreviation scan_res :: "byte list \<Rightarrow> bool \<Rightarrow> nat \<Rightarrow> nat \<Rightarrow> nat \<Rightarrow> bool" where
  "scan_res ds b offset bc v \<equiv> first_diff (\<lambda>i. nbit ds (offset + i) = b) bc v"

lemma scan_step:
  fixes z :: "'a::len word"
  assumes inv: "scan_inv ds b offset bc p rem" and N: "LENGTH('a) \<le> rem"
    and z: "\<And>k. k < LENGTH('a) \<Longrightarrow> bit z (LENGTH('a) - 1 - k) \<longleftrightarrow> nbit ds (8 * p + k) \<noteq> b"
  shows "z \<noteq> 0 \<Longrightarrow> scan_res ds b offset bc (bc - rem + leading_zeros z)"
    and "z = 0 \<Longrightarrow> LENGTH('a) = 8 * m \<Longrightarrow> scan_inv ds b offset bc (p + m) (rem - LENGTH('a))"
proof -
  have e: "8 * p = offset + (bc - rem)" using inv by (auto simp: scan_inv_def)
  show "scan_res ds b offset bc (bc - rem + leading_zeros z)" if "z \<noteq> 0"
  proof -
    have "first_diff (\<lambda>i. nbit ds (offset + i) = b) bc (min (bc - rem + leading_zeros z) bc)"
      using inv that z [unfolded e]
      by (intro first_diff_word) (auto simp: scan_inv_def add.assoc)
    moreover have "bc - rem + leading_zeros z < bc"
      using leading_zeros_less [OF that] N inv by (auto simp: scan_inv_def)
    ultimately show ?thesis by simp
  qed
  show "scan_inv ds b offset bc (p + m) (rem - LENGTH('a))" if "z = 0" "LENGTH('a) = 8 * m"
  proof -
    have "nbit ds (offset + i) = b" if "i < bc - (rem - LENGTH('a))" for i
    proof (cases "i < bc - rem")
      case False
      then have "i - (bc - rem) < LENGTH('a)" "offset + i = 8 * p + (i - (bc - rem))"
        using that N inv e by (auto simp: scan_inv_def)
      then show ?thesis using z [of "i - (bc - rem)"] \<open>z = 0\<close> by simp
    qed (use inv in \<open>simp add: scan_inv_def\<close>)
    then show ?thesis using inv N that(2) by (auto simp: scan_inv_def)
  qed
qed

lemma xor_bool_mask_bit:
  "n < LENGTH('a) \<Longrightarrow> bit (w XOR bool_mask b :: 'a::len word) n \<longleftrightarrow> bit w n \<noteq> b"
  by (simp add: bool_mask_def bit_simps)

lemma scan_byte_bits:
  "k < LENGTH(8) \<Longrightarrow> bit (ds ! p XOR bool_mask b) (LENGTH(8) - 1 - k) \<longleftrightarrow> nbit ds (8 * p + k) \<noteq> b"
  by (simp add: xor_bool_mask_bit nbit_block)

lemma scan_word_bits:
  assumes "k < LENGTH(64)" "p + 8 \<le> length ds"
  shows "bit (from_be_bytes (take 8 (drop p ds)) XOR bool_mask b :: 64 word) (LENGTH(64) - 1 - k)
    \<longleftrightarrow> nbit ds (8 * p + k) \<noteq> b"
  using assms by (auto simp: xor_bool_mask_bit bit_from_be_bytes nbit_take_drop)

text \<open>What each loop returns: the answer early, or a state with fewer than \<open>n\<close> bits left.\<close>

definition scan_post :: "byte list \<Rightarrow> bool \<Rightarrow> nat \<Rightarrow> nat \<Rightarrow> (nat \<Rightarrow> bool) \<Rightarrow> nat + nat \<times> nat \<Rightarrow> bool" where
  "scan_post ds b offset bc Q r =
     (case r of Inl v \<Rightarrow> scan_res ds b offset bc v
      | Inr (p, rem) \<Rightarrow> scan_inv ds b offset bc p rem \<and> Q rem)"

lemma memscan_bytes_unaligned_spec:
  "scan_inv ds b offset bc p rem \<Longrightarrow>
    scan_post ds b offset bc (\<lambda>_. True) (memscan_bytes_unaligned addr ds (bool_mask b) bc p rem)"
proof (induction addr ds "bool_mask b :: byte" bc p rem rule: memscan_bytes_unaligned.induct)
  case (1 addr ds bc p rem)
  note step = scan_step [OF "1.prems" _ scan_byte_bits]
  show ?case
    using 1 step(1) step(2) [of 1]
    by (subst memscan_bytes_unaligned.simps) (auto simp: scan_post_def Let_def word_gt_0)
qed

lemma memscan_bytes_spec:
  "scan_inv ds b offset bc p rem \<Longrightarrow>
    scan_post ds b offset bc (\<lambda>rem. rem < 8) (memscan_bytes ds (bool_mask b) bc p rem)"
proof (induction ds "bool_mask b :: byte" bc p rem rule: memscan_bytes.induct)
  case (1 ds bc p rem)
  note step = scan_step [OF "1.prems" _ scan_byte_bits]
  show ?case
    using 1 step(1) step(2) [of 1]
    by (subst memscan_bytes.simps) (auto simp: scan_post_def Let_def word_gt_0)
qed

lemma memscan_words_spec:
  assumes "offset + bc \<le> 8 * length ds"
  shows "scan_inv ds b offset bc p rem \<Longrightarrow>
    scan_post ds b offset bc (\<lambda>_. True) (memscan_words ds (bool_mask b) bc p rem)"
  using assms
proof (induction ds "bool_mask b :: 64 word" bc p rem rule: memscan_words.induct)
  case (1 ds bc p rem)
  show ?case
  proof (cases "64 \<le> rem")
    case True
    then have "p + 8 \<le> length ds" using 1(2,3) by (auto simp: scan_inv_def)
    note step = scan_step [OF "1"(2) _ scan_word_bits [OF _ this]]
    show ?thesis
      using 1 True step(1) step(2) [of 8]
      by (subst memscan_words.simps) (auto simp: scan_post_def Let_def word_gt_0)
  next
    case False
    then show ?thesis using 1 by (subst memscan_words.simps) (simp add: scan_post_def)
  qed
qed

lemma memscan_tail_spec:
  assumes "scan_inv ds b offset bc p rem" "rem < 8"
  shows "scan_res ds b offset bc (memscan_tail ds (bool_mask b) bc p rem)"
proof (cases "rem > 0")
  case True
  have e: "8 * p = offset + (bc - rem)" "rem \<le> bc" using assms by (auto simp: scan_inv_def)
  have "first_diff (\<lambda>i. nbit ds (offset + i) = b) bc
      (min (bc - rem + leading_zeros (ds ! p XOR bool_mask b)) bc)"
    using assms scan_byte_bits [of _ ds p b, unfolded e]
    by (intro first_diff_word) (auto simp: scan_inv_def add.assoc)
  moreover have "min (bc - rem + leading_zeros (ds ! p XOR bool_mask b)) bc
      = memscan_tail ds (bool_mask b) bc p rem"
    using True e(2) by (auto simp: memscan_tail_def Let_def)
  ultimately show ?thesis by simp
next
  case False
  then show ?thesis using assms by (simp add: memscan_tail_def scan_inv_def first_diff_def)
qed

lemma memscan_from_spec:
  assumes "offset + bc \<le> 8 * length ds" "scan_inv ds b offset bc p rem"
  shows "scan_res ds b offset bc (memscan_from addr ds b bc p rem)"
proof (cases "memscan_bytes_unaligned addr ds (bool_mask b) bc p rem")
  case (Inr st)
  obtain p1 r1 where st: "st = (p1, r1)" by (cases st)
  have 1: "scan_inv ds b offset bc p1 r1"
    using memscan_bytes_unaligned_spec [OF assms(2), of addr] Inr st by (simp add: scan_post_def)
  show ?thesis
  proof (cases "memscan_words ds (bool_mask b) bc p1 r1")
    case (Inr st')
    obtain p2 r2 where st': "st' = (p2, r2)" by (cases st')
    have 2: "scan_inv ds b offset bc p2 r2"
      using memscan_words_spec [OF assms(1) 1] Inr st' by (simp add: scan_post_def)
    show ?thesis
    proof (cases "memscan_bytes ds (bool_mask b) bc p2 r2")
      case (Inr st'')
      then show ?thesis
        using memscan_bytes_spec [OF 2] memscan_tail_spec [of ds b offset bc]
          \<open>memscan_bytes_unaligned _ _ _ _ _ _ = _\<close> \<open>memscan_words _ _ _ _ _ = _\<close> st st'
        by (cases st'') (simp add: memscan_from_def scan_post_def)
    qed (use memscan_bytes_spec [OF 2] Inr \<open>memscan_bytes_unaligned _ _ _ _ _ _ = _\<close> st st'
      in \<open>simp add: memscan_from_def scan_post_def\<close>)
  qed (use memscan_words_spec [OF assms(1) 1] Inr st in \<open>simp add: memscan_from_def scan_post_def\<close>)
qed (use memscan_bytes_unaligned_spec [OF assms(2), of addr] in \<open>simp add: memscan_from_def scan_post_def\<close>)

lemma bits_memscan_spec:
  assumes "offset + bc \<le> 8 * length ds"
  shows "bits_memscan addr ds offset bc b = run_len b (bits_range ds offset (offset + bc))"
proof -
  have "scan_res ds b offset bc (bits_memscan addr ds offset bc b)"
  proof -
    obtain q j where o: "offset = 8 * q + j" "j < 8" "offset div 8 = q" "offset mod 8 = j"
      by (rule split_index8)
    let ?x = "push_bit j (ds ! q XOR bool_mask b)"
    have x: "bit ?x (LENGTH(8) - 1 - k) \<longleftrightarrow> nbit ds (offset + k) \<noteq> b" if "k < 8 - j" for k
    proof -
      have "bit ?x (LENGTH(8) - 1 - k) = bit (ds ! q XOR bool_mask b) (LENGTH(8) - 1 - (j + k))"
        using that by (auto simp: bit_simps add.commute)
      then show ?thesis using scan_byte_bits [of "j + k" ds q b] that o(1) by (simp add: add.assoc)
    qed
    have z: "bc \<noteq> 0 \<Longrightarrow> j = 0 \<Longrightarrow> ?thesis"
      using memscan_from_spec [OF assms, of b q bc addr] o
      by (simp add: bits_memscan_def Let_def scan_inv_def)
    have fd: "first_diff (\<lambda>i. nbit ds (offset + i) = b) (min bc (8 - j)) (min (leading_zeros ?x) (min bc (8 - j)))"
      using x by (intro first_diff_word [of 0, unfolded add_0]) (simp_all add: min_le_iff_disj)
    show ?thesis
    proof (cases "bc = 0 \<or> j = 0 \<or> leading_zeros ?x < 8 - j \<or> bc \<le> 8 - j")
      case True
      then show ?thesis using z fd o
        by (auto simp: bits_memscan_def Let_def first_diff_def min_def split: if_splits)
    next
      case False
      then have "scan_inv ds b offset bc (q + 1) (bc - (8 - j))"
        using fd o by (auto simp: scan_inv_def first_diff_def)
      from memscan_from_spec [OF assms this, of addr] False o show ?thesis
        by (simp add: bits_memscan_def Let_def)
    qed
  qed
  then show ?thesis by (intro run_len_eqI [symmetric]) (auto simp: first_diff_def)
qed

section \<open>Uniform windows\<close>

lemma byte_nonzero_iff: "x \<noteq> 0 \<longleftrightarrow> (\<exists>k<8. bit x (7 - k))" for x :: byte
proof
  assume "x \<noteq> 0"
  then show "\<exists>k<8. bit x (7 - k)"
    using leading_zeros_less [of x] leading_zeros_props(3) [of x] by auto
qed auto

lemma byte_uniform_iff: "ds ! p = bool_mask b \<longleftrightarrow> (\<forall>k<8. nbit ds (8 * p + k) = b)"
proof
  assume "ds ! p = bool_mask b"
  then show "\<forall>k<8. nbit ds (8 * p + k) = b" by (auto simp: nbit_block bool_mask_def)
next
  assume u: "\<forall>k<8. nbit ds (8 * p + k) = b"
  show "ds ! p = bool_mask b"
  proof (rule bit_word_eqI)
    fix n assume "n < LENGTH(8)"
    then have "7 - n < 8" "7 - (7 - n) = n" "n < 8" by auto
    then show "bit (ds ! p) n = bit (bool_mask b :: byte) n"
      using u [rule_format, of "7 - n"] nbit_block [of "7 - n" ds p] by (simp add: bool_mask_def)
  qed
qed

lemma masked_zero_iff:
  fixes m :: byte
  assumes "\<And>k. k < 8 \<Longrightarrow> bit m (7 - k) \<longleftrightarrow> Q k"
  shows "(ds ! q XOR bool_mask b) AND m = 0 \<longleftrightarrow> (\<forall>k<8. Q k \<longrightarrow> nbit ds (8 * q + k) = b)"
proof -
  have "(ds ! q XOR bool_mask b) AND m \<noteq> 0 \<longleftrightarrow> (\<exists>k<8. nbit ds (8 * q + k) \<noteq> b \<and> Q k)"
    unfolding byte_nonzero_iff bit_and_iff
    by (intro ex_cong1 conj_cong refl) (simp_all add: assms xor_bool_mask_bit nbit_block)
  then show ?thesis by blast
qed

lemma first_mask_bit: "r < 8 \<Longrightarrow> k < 8 \<Longrightarrow> bit (drop_bit r 0xff :: byte) (7 - k) \<longleftrightarrow> r \<le> k"
  unfolding ones8 by (auto simp: bit_simps)

lemma uniform_one_byte:
  assumes "r < 8" "0 < n" "r + n \<le> 8"
  shows "(ds ! q XOR bool_mask b) AND drop_bit r 0xff AND push_bit ((8 - (n + r) mod 8) mod 8) 0xff = 0
    \<longleftrightarrow> (\<forall>k. r \<le> k \<longrightarrow> k < r + n \<longrightarrow> nbit ds (8 * q + k) = b)"
proof -
  have "bit (drop_bit r 0xff AND push_bit ((8 - (n + r) mod 8) mod 8) 0xff :: byte) (7 - k)
      \<longleftrightarrow> r \<le> k \<and> k < r + n" if "k < 8" for k
    unfolding bit_and_iff using that assms last_mask_bit [of 0 "n + r" k] first_mask_bit [of r k]
    by (simp only: mult_0_right add_0) (auto simp: add.commute)
  from masked_zero_iff [OF this, of ds q b] show ?thesis using assms(3) by (auto simp: and.assoc)
qed

lemma uniform_first_byte:
  assumes "r < 8"
  shows "(ds ! q XOR bool_mask b) AND drop_bit r 0xff = 0
    \<longleftrightarrow> (\<forall>k. r \<le> k \<longrightarrow> k < 8 \<longrightarrow> nbit ds (8 * q + k) = b)"
  using masked_zero_iff [OF first_mask_bit [OF assms], of ds q b] by auto

lemma uniform_last_byte:
  assumes "0 < M mod 8"
  shows "(ds ! p XOR bool_mask b) AND push_bit ((8 - M mod 8) mod 8) 0xff = 0
    \<longleftrightarrow> (\<forall>k < M mod 8. nbit ds (8 * p + k) = b)"
proof -
  obtain q j where M: "M = 8 * q + j" "j < 8" "M mod 8 = j" using split_index8 by metis
  have "bit (push_bit ((8 - M mod 8) mod 8) 0xff :: byte) (7 - k) \<longleftrightarrow> k < M mod 8" if "k < 8" for k
    using last_mask_bit [of q M k] that assms M by simp
  from masked_zero_iff [OF this, of ds p b] show ?thesis using M by auto
qed

text \<open>The bytes after the first: full bytes, then a partial one.\<close>

lemma uniform_tail:
  assumes "M mod 8 = n mod 8"
  shows "\<not> (\<exists>i \<in> set [0..<n div 8]. ds ! (p + i) \<noteq> bool_mask b)
      \<and> \<not> (n mod 8 \<noteq> 0
          \<and> (ds ! (p + n div 8) XOR bool_mask b) AND push_bit ((8 - M mod 8) mod 8) 0xff \<noteq> 0)
    \<longleftrightarrow> (\<forall>i<n. nbit ds (8 * p + i) = b)"
    (is "?full \<and> ?part \<longleftrightarrow> ?all")
proof -
  obtain q j where n: "n = 8 * q + j" "j < 8" "n div 8 = q" "n mod 8 = j" by (rule split_index8)
  have full: "?full \<longleftrightarrow> (\<forall>i<q. \<forall>k<8. nbit ds (8 * (p + i) + k) = b)"
    by (auto simp: n byte_uniform_iff)
  have part: "?part \<longleftrightarrow> (\<forall>k<j. nbit ds (8 * (p + q) + k) = b)"
    using uniform_last_byte [of M ds "p + q" b] assms n by (cases "j = 0") auto
  show ?thesis
  proof
    assume "?full \<and> ?part"
    then have f: "i < q \<Longrightarrow> k < 8 \<Longrightarrow> nbit ds (8 * (p + i) + k) = b"
      and l: "k < j \<Longrightarrow> nbit ds (8 * (p + q) + k) = b" for i k
      unfolding full part by auto
    show ?all
    proof (intro allI impI)
      fix i assume "i < n"
      obtain u v where i: "i = 8 * u + v" "v < 8" by (rule split_index8)
      have e: "8 * p + i = 8 * (p + u) + v" using i by simp
      have "u < q \<or> u = q \<and> v < j" using \<open>i < n\<close> i n by auto
      then show "nbit ds (8 * p + i) = b" unfolding e using f l i(2) by auto
    qed
  next
    assume a: ?all
    have "nbit ds (8 * (p + i) + k) = b" if "8 * i + k < n" for i k
      using a that by (metis add.assoc distrib_left)
    then show "?full \<and> ?part" unfolding full part using n by auto
  qed
qed

lemma test_uniform_at_spec:
  assumes "wf_slice s"
  shows "test_uniform_at addr s =
    (if slice_bits s \<noteq> [] \<and> slice_bits s = replicate (size_bits s) (hd (slice_bits s))
     then Some (hd (slice_bits s)) else None)"
proof (cases "slice_bits s = []")
  case True
  then have "bits_end (sl_range s) \<le> bits_start (sl_range s)"
    by (auto simp: slice_bits_def bits_range_def)
  then have "test_uniform_at addr s = None" unfolding test_uniform_at_def Let_def by (rule if_P)
  with True show ?thesis by simp
next
  case False
  let ?ds = "cell_data (sl_cell s)" and ?st = "bits_start (sl_range s)" and ?n = "size_bits s"
  have ne: "?st < bits_end (sl_range s)" "0 < ?n"
    using False by (auto simp: slice_bits_def size_bits_eq bits_range_def not_le)
  have d: "\<not> length ?ds < div_ceil8 (bits_end (sl_range s))" using wf_sliceD(4) [OF assms] by simp
  obtain q r where st: "?st = 8 * q + r" "r < 8" "?st div 8 = q" "?st mod 8 = r" by (rule split_index8)
  define b where "b = nbit ?ds ?st"
  have hd: "hd (slice_bits s) = b" using ne by (simp add: slice_bits_def bits_range_Cons b_def)
  have b: "(drop_bit (7 - r) (?ds ! q) AND 1 \<noteq> 0) = b" by (simp add: shifted_bit b_def st nbit_block)
  have u: "slice_bits s = replicate ?n b \<longleftrightarrow> (\<forall>i < ?n. nbit ?ds (?st + i) = b)"
    by (simp add: list_eq_iff_nth_eq nth_slice_bits)
  define n' where "n' = ?n - (8 - r)"
  have g: "\<not> bits_end (sl_range s) \<le> ?st" using ne(1) by simp
  have tu: "test_uniform_at addr s =
    (if ?n < 64 then
       if r + ?n \<le> 8 then
         if (?ds ! q XOR bool_mask b) AND drop_bit r 0xff
            AND push_bit ((8 - (?n + r) mod 8) mod 8) 0xff \<noteq> 0 then None else Some b
       else if (?ds ! q XOR bool_mask b) AND drop_bit r 0xff \<noteq> 0 then None
       else if \<exists>i \<in> set [0..<n' div 8]. ?ds ! (q + 1 + i) \<noteq> bool_mask b then None
       else if n' mod 8 \<noteq> 0 \<and> (?ds ! (q + 1 + n' div 8) XOR bool_mask b)
            AND push_bit ((8 - (?n + r) mod 8) mod 8) 0xff \<noteq> 0 then None else Some b
     else if bits_memscan addr ?ds ?st ?n b = ?n then Some b else None)"
    unfolding test_uniform_at_def Let_def size_bits_eq [symmetric] st(3,4) b n'_def if_not_P [OF g] if_not_P [OF d]
    by (simp only: and.assoc)
  have all: "test_uniform_at addr s = (if \<forall>i < ?n. nbit ?ds (?st + i) = b then Some b else None)"
  proof (cases "?n < 64")
    case False
    have e: "?st + ?n = bits_end (sl_range s)" using ne(1) by (simp add: size_bits_eq)
    have ms: "bits_memscan addr ?ds ?st ?n b = run_len b (slice_bits s)"
      using bits_memscan_spec [of ?st ?n ?ds addr b] wf_sliceD(3) [OF assms] e
      by (simp add: slice_bits_def)
    have me: "bits_memscan addr ?ds ?st ?n b = ?n \<longleftrightarrow> (\<forall>i < ?n. nbit ?ds (?st + i) = b)"
      unfolding ms u [symmetric] using run_len_full_iff [of b "slice_bits s"] by simp
    show ?thesis unfolding tu if_not_P [OF False] me ..
  next
    case True
    show ?thesis
    proof (cases "r + ?n \<le> 8")
      case one: True
      have "(\<forall>i < ?n. nbit ?ds (?st + i) = b) \<longleftrightarrow> (\<forall>k. r \<le> k \<longrightarrow> k < r + ?n \<longrightarrow> nbit ?ds (8 * q + k) = b)"
        (is "?A \<longleftrightarrow> ?B")
      proof
        assume A: ?A
        show ?B
        proof (intro allI impI)
          fix k assume "r \<le> k" "k < r + ?n"
          then show "nbit ?ds (8 * q + k) = b" using A [rule_format, of "k - r"] st(1) by simp
        qed
      next
        assume B: ?B
        show ?A
        proof (intro allI impI)
          fix i assume "i < ?n"
          then show "nbit ?ds (?st + i) = b" using B [rule_format, of "r + i"] st(1) by (simp add: add.assoc)
        qed
      qed
      then show ?thesis
        unfolding tu if_P [OF True] if_P [OF one]
        by (simp only: uniform_one_byte [OF st(2) ne(2) one] if_not_P not_not split: if_split) simp
    next
      case more: False
      have "?n + r = n' + 8" using more st(2) by (auto simp: n'_def)
      then have n': "?n = (8 - r) + n'" "(?n + r) mod 8 = n' mod 8" using st(2) by auto
      have sp: "(\<forall>i < ?n. nbit ?ds (?st + i) = b) \<longleftrightarrow>
          (\<forall>k. r \<le> k \<longrightarrow> k < 8 \<longrightarrow> nbit ?ds (8 * q + k) = b) \<and> (\<forall>i<n'. nbit ?ds (8 * (q + 1) + i) = b)"
        (is "?A \<longleftrightarrow> ?B \<and> ?C")
      proof
        assume A: ?A
        have "nbit ?ds (8 * q + k) = b" if "r \<le> k" "k < r + ?n" for k
          using A [rule_format, of "k - r"] that st(1) by simp
        moreover have "nbit ?ds (8 * (q + 1) + i) = b" if "i < n'" for i
          using A [rule_format, of "8 - r + i"] that st(1,2) n'(1) by (simp add: algebra_simps)
        ultimately show "?B \<and> ?C" using more by auto
      next
        assume BC: "?B \<and> ?C"
        show ?A
        proof (intro allI impI)
          fix i assume i: "i < ?n"
          show "nbit ?ds (?st + i) = b"
          proof (cases "r + i < 8")
            case True
            then show ?thesis using BC st(1) by (simp add: add.assoc)
          next
            case False
            then have "8 * (q + 1) + (r + i - 8) = ?st + i" "r + i - 8 < n'" using i n'(1) st(1,2) by auto
            then show ?thesis using BC by metis
          qed
        qed
      qed
      show ?thesis
        unfolding tu sp if_P [OF True] if_not_P [OF more] uniform_first_byte [OF st(2), symmetric]
          uniform_tail [OF n'(2), symmetric]
        by (simp split: if_split)
    qed
  qed
  show ?thesis unfolding all hd using False u by simp
qed

lemma test_uniform_spec:
  assumes "wf_slice s"
  shows "test_uniform s =
    (if slice_bits s \<noteq> [] \<and> slice_bits s = replicate (size_bits s) (hd (slice_bits s))
     then Some (hd (slice_bits s)) else None)"
  unfolding test_uniform_def by (rule test_uniform_at_spec [OF assms])

end
