(* ===== verification/Cell_Builder_Props.thy ===== *)
theory Cell_Builder_Props
  imports Cell_Builder Cell_Slice_Cmp
begin

text \<open>
  The builder against a list of bits. \<open>mk_bd bs\<close> is the builder that holds exactly the bits \<open>bs\<close>:
  the buffer is the packed bits followed by zeros. \<open>bd_wf\<close> is the invariant of the type (a 128-byte
  buffer whose bits past the length are zero, which the \<open>|=\<close> writes rely on); a well-formed builder
  is \<open>mk_bd\<close> of its bits. The equations of this theory say that every store operation appends to the
  list, or fails with \<open>CellOverflow\<close> exactly when the result would exceed 1023 bits.
\<close>

section \<open>Bits of an updated byte list\<close>

lemma nbit_set:
  assumes "q < length d"
  shows "nbit (d[q := v]) i = (if 8 * q \<le> i \<and> i < 8 * q + 8 then bit v (7 - (i - 8 * q)) else nbit d i)"
proof -
  obtain q' j where i: "i = 8 * q' + j" "j < 8" "i div 8 = q'" "i mod 8 = j" by (rule split_index8)
  have "8 * q \<le> i \<and> i < 8 * q + 8 \<longleftrightarrow> q' = q" using i by auto
  then show ?thesis using assms i by (simp add: nbit_update)
qed

lemma nbit_in_byte: "8 * q \<le> i \<Longrightarrow> i < 8 * q + 8 \<Longrightarrow> nbit d i = bit (d ! q) (7 - (i - 8 * q))"
  using nbit_block [of "i - 8 * q" d q] by simp

lemma nbit_or:
  "q < length d \<Longrightarrow> nbit (d[q := d ! q OR v]) i =
    (nbit d i \<or> 8 * q \<le> i \<and> i < 8 * q + 8 \<and> bit v (7 - (i - 8 * q)))"
  by (auto simp: nbit_set nbit_in_byte bit_or_iff)

lemma nbit_and:
  "q < length d \<Longrightarrow> nbit (d[q := d ! q AND v]) i =
    (nbit d i \<and> (8 * q \<le> i \<and> i < 8 * q + 8 \<longrightarrow> bit v (7 - (i - 8 * q))))"
  by (auto simp: nbit_set nbit_in_byte bit_and_iff)

lemma nbit_or_set:
  "q + 1 < length d \<Longrightarrow> nbit ((d[q := d ! q OR v])[q + 1 := w]) i =
    (if 8 * (q + 1) \<le> i \<and> i < 8 * (q + 1) + 8 then bit w (7 - (i - 8 * (q + 1)))
     else nbit d i \<or> 8 * q \<le> i \<and> i < 8 * q + 8 \<and> bit v (7 - (i - 8 * q)))"
  by (subst nbit_set) (simp_all add: nbit_or)

lemma high_mask_bit: "k \<le> 7 \<Longrightarrow> s \<le> 8 \<Longrightarrow> bit (push_bit s 0xff :: byte) (7 - k) \<longleftrightarrow> k + s < 8"
  unfolding ones8 by (auto simp: bit_simps)

section \<open>The canonical form\<close>

definition pad128 :: "bool list \<Rightarrow> byte list" where
  "pad128 bs = pack_bits bs @ replicate (128 - div_ceil8 (length bs)) 0"

definition mk_bd :: "bool list \<Rightarrow> cell_data_builder" where
  "mk_bd bs = \<lparr>bd_data = pad128 bs, bd_bit_len = length bs\<rparr>"

definition bd_bits :: "cell_data_builder \<Rightarrow> bool list" where
  "bd_bits b = bits_range (bd_data b) 0 (bd_bit_len b)"

definition bd_wf :: "cell_data_builder \<Rightarrow> bool" where
  "bd_wf b \<longleftrightarrow> length (bd_data b) = 128 \<and> bd_bit_len b \<le> MAX_BIT_LEN
     \<and> list_all (\<lambda>i. \<not> nbit (bd_data b) i) [bd_bit_len b..<1024]"

lemma length_pad128: "length bs \<le> 1024 \<Longrightarrow> length (pad128 bs) = 128"
  by (simp add: pad128_def div_ceil8_le_iff)

lemma nbit_pad128:
  assumes "length bs \<le> 1024" "i < 1024"
  shows "nbit (pad128 bs) i \<longleftrightarrow> i < length bs \<and> bs ! i"
proof (cases "i < 8 * div_ceil8 (length bs)")
  case True
  then show ?thesis by (simp add: pad128_def nbit_append nbit_pack_bits)
next
  case False
  then have "\<not> i < length bs" using div_ceil8_bounds(1) [of "length bs"] by simp
  moreover have "i - 8 * div_ceil8 (length bs) < 8 * (128 - div_ceil8 (length bs))"
    using assms False by (simp add: div_ceil8_le_iff)
  ultimately show ?thesis using False by (simp add: pad128_def nbit_append nbit_replicate)
qed

lemma pad128_eqI:
  assumes "length d = 128" "length bs \<le> 1024"
    and "\<And>i. i < 1024 \<Longrightarrow> nbit d i \<longleftrightarrow> i < length bs \<and> bs ! i"
  shows "d = pad128 bs"
  by (rule byte_list_eqI) (use assms in \<open>auto simp: length_pad128 nbit_pad128\<close>)

lemma mk_bd_sel [simp]: "bd_data (mk_bd bs) = pad128 bs" "bd_bit_len (mk_bd bs) = length bs"
  by (simp_all add: mk_bd_def)

lemma bd_bits_mk_bd [simp]: "length bs \<le> 1024 \<Longrightarrow> bd_bits (mk_bd bs) = bs"
  by (rule nth_equalityI) (auto simp: bd_bits_def nbit_pad128)

lemma bd_wf_mk_bd [simp]: "length bs \<le> 1023 \<Longrightarrow> bd_wf (mk_bd bs)"
  by (simp add: bd_wf_def MAX_BIT_LEN_def length_pad128 nbit_pad128 list_all_iff)

lemma mk_bd_bd_bits:
  assumes "bd_wf b"
  shows "mk_bd (bd_bits b) = b"
proof -
  have "bd_data b = pad128 (bd_bits b)"
    using assms
    by (intro pad128_eqI) (force simp: bd_wf_def bd_bits_def MAX_BIT_LEN_def list_all_iff)+
  then show ?thesis by (simp add: mk_bd_def bd_bits_def)
qed

lemma length_bd_bits: "length (bd_bits b) = bd_bit_len b"
  by (simp add: bd_bits_def)

lemma bd_wf_iff: "bd_wf b \<longleftrightarrow> (\<exists>bs. length bs \<le> 1023 \<and> b = mk_bd bs)"
proof
  assume wf: "bd_wf b"
  then have "length (bd_bits b) \<le> 1023" by (simp add: bd_wf_def length_bd_bits MAX_BIT_LEN_def)
  with mk_bd_bd_bits [OF wf] show "\<exists>bs. length bs \<le> 1023 \<and> b = mk_bd bs" by metis
qed auto

lemma bd_new_mk: "bd_new = mk_bd []"
  by (simp add: bd_new_def mk_bd_def pad128_def pack_bits_def)

lemma pad128_zeros: "length bs + k \<le> 1024 \<Longrightarrow> pad128 (bs @ replicate k False) = pad128 bs"
  by (rule pad128_eqI) (auto simp: length_pad128 nbit_pad128 nth_append)

text \<open>How the writes act on a buffer that holds \<open>bs\<close>: the goal of every store operation.\<close>

lemma mk_bd_appendI:
  assumes "length d = 128" "length bs + length xs \<le> 1024" "n = length bs + length xs"
    and "\<And>i. i < 1024 \<Longrightarrow> nbit d i \<longleftrightarrow>
      (if i < length bs then bs ! i else i < length bs + length xs \<and> xs ! (i - length bs))"
  shows "\<lparr>bd_data = d, bd_bit_len = n\<rparr> = mk_bd (bs @ xs)"
proof -
  have "d = pad128 (bs @ xs)" by (rule pad128_eqI) (use assms in \<open>auto simp: nth_append\<close>)
  with assms(3) show ?thesis by (simp add: mk_bd_def)
qed

definition appended :: "bool list \<Rightarrow> bool list \<Rightarrow> cell_data_builder result" where
  "appended bs xs =
     (if length bs + length xs \<le> MAX_BIT_LEN then Ok (mk_bd (bs @ xs)) else Err CellOverflow)"

lemma u16_fits: "a \<le> 1023 \<Longrightarrow> small16 n \<Longrightarrow> u16_add a n = a + n"
  by simp

section \<open>Storing bits and integers\<close>

lemma store_zeros_mk [simp]:
  "length bs \<le> 1023 \<Longrightarrow> small16 n \<Longrightarrow> store_zeros (mk_bd bs) n = appended bs (replicate n False)"
  by (simp add: store_zeros_def appended_def MAX_BIT_LEN_def mk_bd_def pad128_zeros)

lemma store_bit_zero_mk [simp]: "length bs \<le> 1023 \<Longrightarrow> store_bit_zero (mk_bd bs) = appended bs [False]"
  using pad128_zeros [of bs 1]
  by (simp add: store_bit_zero_def appended_def MAX_BIT_LEN_def mk_bd_def)

text \<open>The byte the length points into, and the bit offset in it.\<close>

lemma bit_len_split:
  assumes "length (bs :: bool list) \<le> 1023"
  obtains q r where "length bs = 8 * q + r" "r < 8" "length bs div 8 = q" "length bs mod 8 = r" "q < 128"
proof -
  obtain q r where l: "length bs = 8 * q + r" "r < 8" "length bs div 8 = q" "length bs mod 8 = r"
    by (rule split_index8)
  with assms show thesis by (intro that) auto
qed

lemma store_bit_one_mk [simp]:
  assumes "length bs \<le> 1023"
  shows "store_bit_one (mk_bd bs) = appended bs [True]"
proof (cases "length bs < 1023")
  case True
  obtain q r where l: "length bs = 8 * q + r" "r < 8" "length bs div 8 = q" "length bs mod 8 = r" "q < 128"
    using assms by (rule bit_len_split)
  have "\<lparr>bd_data = (pad128 bs)[q := pad128 bs ! q OR push_bit (7 - r) 1], bd_bit_len = length bs + 1\<rparr>
      = mk_bd (bs @ [True])"
    using True l
    by (intro mk_bd_appendI) (auto simp: length_pad128 nbit_or nbit_pad128 bit_simps)
  then show ?thesis
    using True by (simp add: store_bit_one_def Let_def appended_def MAX_BIT_LEN_def l(3,4))
next
  case False
  then show ?thesis using assms by (simp add: store_bit_one_def appended_def MAX_BIT_LEN_def)
qed

lemma store_bit_mk [simp]: "length bs \<le> 1023 \<Longrightarrow> store_bit (mk_bd bs) v = appended bs [v]"
  by (simp add: store_bit_def)

lemma store_u8_mk [simp]:
  assumes "length bs \<le> 1023"
  shows "store_u8 (mk_bd bs) v = appended bs (word_bits 8 v)"
proof (cases "length bs + 8 \<le> 1023")
  case True
  obtain q r where l: "length bs = 8 * q + r" "r < 8" "length bs div 8 = q" "length bs mod 8 = r" "q < 128"
    using assms by (rule bit_len_split)
  have "\<lparr>bd_data = (if r = 0 then (pad128 bs)[q := v]
      else ((pad128 bs)[q := pad128 bs ! q OR drop_bit r v])[q + 1 := push_bit (8 - r) v]),
      bd_bit_len = length bs + 8\<rparr> = mk_bd (bs @ word_bits 8 v)" (is "\<lparr>bd_data = ?d, bd_bit_len = _\<rparr> = _")
  proof (rule mk_bd_appendI)
    fix i :: nat assume i: "i < 1024"
    show "nbit ?d i \<longleftrightarrow> (if i < length bs then bs ! i
        else i < length bs + length (word_bits 8 v) \<and> word_bits 8 v ! (i - length bs))"
    proof (cases "r = 0")
      case True
      then show ?thesis using i l \<open>length bs + 8 \<le> 1023\<close>
        by (auto simp: nbit_set length_pad128 nbit_pad128 not_less)
    next
      case False
      then show ?thesis
        unfolding if_not_P [OF False] using i l True
        by (subst nbit_or_set) (auto simp: length_pad128 nbit_pad128 bit_simps ac_simps)
    qed
  qed (use True l in \<open>auto simp: length_pad128\<close>)
  then show ?thesis
    using True by (simp add: store_u8_def Let_def appended_def MAX_BIT_LEN_def l(3,4))
next
  case False
  then show ?thesis using assms by (simp add: store_u8_def appended_def MAX_BIT_LEN_def)
qed

lemma store_uint_wide_mk:
  fixes v :: "'a::len word"
  assumes "length bs \<le> 1023" and n: "LENGTH('a) = 8 * nb" "0 < nb" "small16 (8 * nb)"
  shows "store_uint_wide (mk_bd bs) v = appended bs (word_bits LENGTH('a) v)"
proof (cases "length bs + 8 * nb \<le> 1023")
  case True
  obtain q r where l: "length bs = 8 * q + r" "r < 8" "length bs div 8 = q" "length bs mod 8 = r" "q < 128"
    using assms(1) by (rule bit_len_split)
  have q: "q + nb \<le> 128" "0 < r \<Longrightarrow> q + 1 + nb \<le> 128" using True l by auto
  have "\<lparr>bd_data = (if r = 0 then copy_bytes (pad128 bs) q (to_be_bytes v) nb
      else copy_bytes ((pad128 bs)[q := pad128 bs ! q OR ucast (drop_bit (8 * nb - 8 + r) v)]) (q + 1)
              (to_be_bytes (push_bit (8 - r) v)) nb),
      bd_bit_len = length bs + 8 * nb\<rparr> = mk_bd (bs @ word_bits LENGTH('a) v)"
    (is "\<lparr>bd_data = ?d, bd_bit_len = _\<rparr> = _")
  proof (rule mk_bd_appendI)
    fix i :: nat assume i: "i < 1024"
    have b: "nbit (to_be_bytes w) k = bit w (8 * nb - 1 - k)" if "k < 8 * nb" for k and w :: "'a word"
      using nbit_to_be_bytes [of k w] that n by simp
    show "nbit ?d i \<longleftrightarrow> (if i < length bs then bs ! i
        else i < length bs + length (word_bits LENGTH('a) v) \<and> word_bits LENGTH('a) v ! (i - length bs))"
    proof (cases "r = 0")
      case True
      then show ?thesis using i l n q \<open>length bs + 8 * nb \<le> 1023\<close>
        by (auto simp: nbit_copy_bytes length_pad128 nbit_pad128 b)
    next
      case False
      then have "i < 8 * (q + 1) \<or> 8 * (q + 1) \<le> i \<and> i < 8 * (q + 1 + nb) \<or> 8 * (q + 1 + nb) \<le> i" by linarith
      moreover have "nbit ?d i = nbit ((pad128 bs)[q := pad128 bs ! q OR ucast (drop_bit (8 * nb - 8 + r) v)]) i"
        if "i < 8 * (q + 1) \<or> 8 * (q + 1 + nb) \<le> i"
        using that False q n True l(1) by (auto simp: nbit_copy_bytes length_pad128)
      moreover have "nbit ?d i = bit (push_bit (8 - r) v) (8 * nb - 1 - (i - 8 * (q + 1)))"
        if "8 * (q + 1) \<le> i" "i < 8 * (q + 1 + nb)"
        using that False q n True l(1) b [of "i - 8 * (q + 1)"] by (auto simp: nbit_copy_bytes length_pad128)
      moreover have "8 * nb - 1 - (i - (8 * q + r)) < LENGTH('a)" using n by simp
      ultimately show ?thesis
        using i l n q True False
        by (auto simp: nbit_or length_pad128 nbit_pad128 bit_simps ac_simps dest: bit_imp_le_length)
    qed
  qed (use True l n q in \<open>auto simp: length_pad128\<close>)
  then show ?thesis
    using True n
    by (cases "r = 0") (simp_all add: store_uint_wide_def Let_def appended_def MAX_BIT_LEN_def l(3,4))
next
  case False
  then show ?thesis
    using assms by (simp add: store_uint_wide_def Let_def appended_def MAX_BIT_LEN_def)
qed

lemmas store_u16_mk [simp] =
  store_uint_wide_mk [where 'a = 16 and nb = 2, folded store_u16_def, simplified]
lemmas store_u32_mk [simp] =
  store_uint_wide_mk [where 'a = 32 and nb = 4, folded store_u32_def, simplified]
lemmas store_u64_mk [simp] =
  store_uint_wide_mk [where 'a = 64 and nb = 8, folded store_u64_def, simplified]
lemmas store_u128_mk [simp] =
  store_uint_wide_mk [where 'a = 128 and nb = 16, folded store_u128_def, simplified]

lemma store_small_uint_mk [simp]:
  assumes "length bs \<le> 1023" "small16 n"
  shows "store_small_uint (mk_bd bs) v n
    = appended bs (replicate (n - 8) False @ word_bits (min n 8) v)"
proof (cases "0 < n \<and> length bs + n \<le> 1023")
  case True
  define m where "m = min n 8"
  define bs' where "bs' = bs @ replicate (n - 8) False"
  have m: "0 < m" "m \<le> 8" "length bs' + m \<le> 1023" using True by (auto simp: m_def bs'_def)
  have bl: "(if n \<ge> 8 then length bs + (n - 8) else length bs) = length bs'"
    and pd: "pad128 bs = pad128 bs'"
    using True by (auto simp: bs'_def pad128_zeros)
  obtain q r where l: "length bs' = 8 * q + r" "r < 8" "length bs' div 8 = q" "length bs' mod 8 = r" "q < 128"
    using m(3) bit_len_split [of bs'] by (metis add_leD1)
  let ?v = "push_bit (8 - m) v"
  let ?d = "if r = 0 then (pad128 bs')[q := ?v]
    else if m + r > 8 then ((pad128 bs')[q := pad128 bs' ! q OR drop_bit r ?v])[q + 1 := push_bit (8 - r) ?v]
    else (pad128 bs')[q := pad128 bs' ! q OR drop_bit r ?v]"
  have v: "bit ?v k \<longleftrightarrow> k < 8 \<and> 7 - k < m \<and> bit v (m - 1 - (7 - k))" for k
    using m(1,2) by (cases "k < 8") (auto simp: bit_simps ac_simps)
  have "\<lparr>bd_data = ?d, bd_bit_len = length bs' + m\<rparr> = mk_bd (bs' @ word_bits m v)"
  proof (rule mk_bd_appendI)
    fix i :: nat assume i: "i < 1024"
    show "nbit ?d i \<longleftrightarrow> (if i < length bs' then bs' ! i
        else i < length bs' + length (word_bits m v) \<and> word_bits m v ! (i - length bs'))"
    proof (cases "r = 0")
      case True
      then show ?thesis using i l m
        by (auto simp: nbit_set length_pad128 nbit_pad128 not_less v)
    next
      case r: False
      show ?thesis
      proof (cases "m + r > 8")
        case True
        have "nbit (((pad128 bs')[q := pad128 bs' ! q OR drop_bit r ?v])[q + 1 := push_bit (8 - r) ?v]) i
          \<longleftrightarrow> (if i < length bs' then bs' ! i
        else i < length bs' + length (word_bits m v) \<and> word_bits m v ! (i - length bs'))"
          using i l True m
          by (subst nbit_or_set) (auto simp: length_pad128 nbit_pad128 bit_drop_bit_eq bit_push_bit_iff v ac_simps)
        then show ?thesis using r True by simp
      next
        case False
        then show ?thesis
          using i l r m by (auto simp: nbit_or length_pad128 nbit_pad128 bit_drop_bit_eq v ac_simps)
      qed
    qed
  qed (use m l in \<open>auto simp: length_pad128\<close>)
  moreover have "store_small_uint (mk_bd bs) v n = Ok \<lparr>bd_data = ?d, bd_bit_len = length bs' + m\<rparr>"
    using True unfolding store_small_uint_def Let_def mk_bd_sel bl pd l(3,4) m_def [symmetric] MAX_BIT_LEN_def
    by simp
  ultimately show ?thesis
    using True by (auto simp: appended_def MAX_BIT_LEN_def bs'_def m_def min_def split: if_splits)
next
  case False
  then show ?thesis using assms
    by (auto simp: store_small_uint_def appended_def MAX_BIT_LEN_def word_bits_def)
qed

lemma store_uint_mk [simp]:
  assumes "length bs \<le> 1023" "small16 n"
  shows "store_uint (mk_bd bs) v n
    = appended bs (replicate (n - 64) False @ word_bits (min n 64) v)"
proof (cases "0 < n \<and> length bs + n \<le> 1023")
  case True
  define m where "m = min n 64"
  define bs' where "bs' = bs @ replicate (n - 64) False"
  have m: "0 < m" "m \<le> 64" "length bs' + m \<le> 1023" using True by (auto simp: m_def bs'_def)
  have bl: "(if n \<ge> 64 then length bs + (n - 64) else length bs) = length bs'"
    and pd: "pad128 bs = pad128 bs'"
    using True by (auto simp: bs'_def pad128_zeros)
  obtain q r where l: "length bs' = 8 * q + r" "r < 8" "length bs' div 8 = q" "length bs' mod 8 = r" "q < 128"
    using m(3) bit_len_split [of bs'] by (metis add_leD1)
  let ?v = "push_bit (64 - m) v"
  let ?d1 = "(pad128 bs')[q := pad128 bs' ! q OR ucast (drop_bit (64 - (8 - r)) ?v)]"
  let ?d = "if r = 0 then copy_bytes (pad128 bs') q (to_be_bytes ?v) (div_ceil8 m)
    else if m > 8 - r then copy_bytes ?d1 (q + 1) (to_be_bytes (push_bit (8 - r) ?v)) (div_ceil8 (m - (8 - r)))
    else ?d1"
  have v: "bit ?v k \<longleftrightarrow> k < 64 \<and> 63 - k < m \<and> bit v (m - 1 - (63 - k))" for k
    using m(1,2) by (cases "k < 64") (auto simp: bit_simps ac_simps)
  have b: "nbit (to_be_bytes w) k = bit w (63 - k)" if "k < 64" for k and w :: "64 word"
    using nbit_to_be_bytes [of k w] that by simp
  have c: "q + div_ceil8 m \<le> 128" "div_ceil8 m \<le> 8" "m \<le> 8 * div_ceil8 m" if "r = 0"
    using m l(1) that by (auto simp: div_ceil8_def)
  have c': "q + 1 + div_ceil8 (m - (8 - r)) \<le> 128" "div_ceil8 (m - (8 - r)) \<le> 8"
      "m \<le> 8 - r + 8 * div_ceil8 (m - (8 - r))" if "m > 8 - r" "0 < r"
    using m l(1) that by (auto simp: div_ceil8_def)
  have "\<lparr>bd_data = ?d, bd_bit_len = length bs' + m\<rparr> = mk_bd (bs' @ word_bits m v)"
  proof (rule mk_bd_appendI)
    fix i :: nat assume i: "i < 1024"
    show "nbit ?d i \<longleftrightarrow> (if i < length bs' then bs' ! i
        else i < length bs' + length (word_bits m v) \<and> word_bits m v ! (i - length bs'))"
    proof (cases "r = 0")
      case True
      then show ?thesis using i l m c [OF True]
        by (auto simp: nbit_copy_bytes length_pad128 nbit_pad128 not_less b v ac_simps)
    next
      case r: False
      have da: "nbit ?d1 i \<longleftrightarrow> (if i < length bs' then bs' ! i
          else i < 8 * (q + 1) \<and> i < length bs' + m \<and> bit v (m - 1 - (i - length bs')))"
        using i l m r by (auto simp: nbit_or length_pad128 nbit_pad128 bit_drop_bit_eq bit_ucast_iff v ac_simps)
      show ?thesis
      proof (cases "m > 8 - r")
        case True
        have r': "0 < r" using r by simp
        consider "i < 8 * (q + 1)" | "8 * (q + 1) \<le> i" "i < 8 * (q + 1 + div_ceil8 (m - (8 - r)))"
          | "8 * (q + 1 + div_ceil8 (m - (8 - r))) \<le> i" by linarith
        then show ?thesis
        proof cases
          case 1
          then have "nbit ?d i = nbit ?d1 i"
            using True r m l(1) c' [OF True r'] by (simp add: nbit_copy_bytes length_pad128)
          then show ?thesis unfolding da using 1 by auto
        next
          case 2
          have "i - 8 * (q + 1) < 64" if "x \<le> 8" "i < 8 * (q + 1 + x)" for x using that by simp
          from this [OF c'(2) [OF True r'] 2(2)] have "i - 8 * (q + 1) < 64" .
          note bi = b [OF this, of "push_bit (8 - r) ?v"]
          have "nbit ?d i = nbit (to_be_bytes (push_bit (8 - r) ?v)) (i - 8 * (q + 1))"
            using 2 True r m l(1) c' [OF True r'] by (simp add: nbit_copy_bytes length_pad128)
          also have "\<dots> = bit (push_bit (8 - r) ?v) (63 - (i - 8 * (q + 1)))" by (rule bi)
          also have "\<dots> \<longleftrightarrow> i < length bs' + m \<and> bit v (m - 1 - (i - length bs'))"
            using 2 l m r by (auto simp: bit_push_bit_iff v ac_simps)
          finally show ?thesis using 2 l by auto
        next
          case 3
          then have "nbit ?d i = nbit ?d1 i"
            using True r m l(1) c' [OF True r'] by (simp add: nbit_copy_bytes length_pad128)
          then show ?thesis unfolding da using 3 l c' [OF True r'] by auto
        qed
      next
        case False
        then show ?thesis using r da l m by auto
      qed
    qed
  qed (use m l c c' in \<open>auto simp: length_pad128\<close>)
  moreover have "store_uint (mk_bd bs) v n = Ok \<lparr>bd_data = ?d, bd_bit_len = length bs' + m\<rparr>"
    using True unfolding store_uint_def Let_def mk_bd_sel bl pd l(3,4) m_def [symmetric] MAX_BIT_LEN_def
    by simp
  ultimately show ?thesis
    using True by (auto simp: appended_def MAX_BIT_LEN_def bs'_def m_def min_def split: if_splits)
next
  case False
  then show ?thesis using assms
    by (auto simp: store_uint_def appended_def MAX_BIT_LEN_def word_bits_def)
qed

section \<open>Storing raw bytes\<close>

lemma length_store_raw_loop [simp]: "length (store_raw_loop d v q r i n) = length d"
  by (induction n arbitrary: d q i) auto

lemma nbit_store_raw_loop:
  assumes "q + n < length d" "0 < r" "r < 8"
    and "\<And>k. 8 * q + r \<le> k \<Longrightarrow> k < 8 * q + 8 \<Longrightarrow> \<not> nbit d k"
  shows "nbit (store_raw_loop d v q r i n) k =
    (if k < 8 * q + r then nbit d k
     else if k < 8 * q + r + 8 * n then nbit v (8 * i + (k - (8 * q + r)))
     else if k < 8 * (q + n + 1) then False else nbit d k)"
  using assms
proof (induction n arbitrary: d q i)
  case 0
  then show ?case by auto
next
  case (Suc n)
  let ?d = "(d[q := d ! q OR drop_bit r (v ! i)])[q + 1 := push_bit (8 - r) (v ! i)]"
  have d: "nbit ?d k = (if 8 * (q + 1) \<le> k \<and> k < 8 * (q + 1) + 8
      then bit (push_bit (8 - r) (v ! i)) (7 - (k - 8 * (q + 1)))
      else nbit d k \<or> 8 * q \<le> k \<and> k < 8 * q + 8 \<and> bit (drop_bit r (v ! i)) (7 - (k - 8 * q)))" for k
    using Suc.prems(1) by (intro nbit_or_set) simp
  have vi: "nbit v (8 * i + (k - (8 * q + r))) = bit (v ! i) (7 - (k - (8 * q + r)))"
    if "8 * q + r \<le> k" "k < 8 * q + r + 8" for k
    using that by (intro nbit_block) simp
  have lo: "nbit ?d k = (if k < 8 * q + r then nbit d k else nbit v (8 * i + (k - (8 * q + r))))"
    if "k < 8 * (q + 1) + r" for k
  proof (cases "k < 8 * q + r")
    case True
    then show ?thesis using Suc.prems(2,3) unfolding d by (auto simp: bit_simps)
  next
    case False
    then have "8 * q + r \<le> k" "k < 8 * q + r + 8" using that by simp_all
    note vk = vi [OF this]
    show ?thesis
      unfolding if_not_P [OF False] vk d using False that Suc.prems(2,3) Suc.prems(4) [of k]
      by (auto simp: bit_simps ac_simps)
  qed
  have hi: "nbit ?d k = (k \<ge> 8 * (q + 1) + 8 \<and> nbit d k)" if "8 * (q + 1) + r \<le> k" for k
    using that Suc.prems(2,3) unfolding d by (auto simp: bit_simps)
  have ih: "nbit (store_raw_loop ?d v (q + 1) r (i + 1) n) k =
      (if k < 8 * (q + 1) + r then nbit ?d k
       else if k < 8 * (q + 1) + r + 8 * n then nbit v (8 * (i + 1) + (k - (8 * (q + 1) + r)))
       else if k < 8 * (q + 1 + n + 1) then False else nbit ?d k)"
    using Suc.prems hi by (intro Suc.IH) auto
  have e: "8 * (i + 1) + (k - (8 * (q + 1) + r)) = 8 * i + (k - (8 * q + r))" if "8 * (q + 1) + r \<le> k"
    using that by simp
  show ?case
    unfolding store_raw_loop.simps ih using lo [of k] hi [of k] e Suc.prems(3) by auto
qed

text \<open>
  The bits that \<open>store_raw\<close> appends: zeros for the part of \<open>n\<close> that exceeds the value, then the high
  bits of the value.
\<close>

definition raw_bits :: "byte list \<Rightarrow> nat \<Rightarrow> bool list" where
  "raw_bits v n = replicate (n - 8 * length v) False @ take (min n (8 * length v)) (bytes_bits v)"

lemma length_raw_bits [simp]: "length (raw_bits v n) = n"
  by (simp add: raw_bits_def)

lemma store_raw_aligned:
  assumes l: "length bs = 8 * q" and n: "0 < n" "length bs + n \<le> 1023" "n \<le> 8 * length v"
  defines "d \<equiv> copy_bytes (pad128 bs) q v (div_ceil8 n)"
  shows "\<lparr>bd_data = (if n mod 8 \<noteq> 0
      then d[q + div_ceil8 n - 1 := d ! (q + div_ceil8 n - 1) AND push_bit (8 - n mod 8) 0xff] else d),
      bd_bit_len = length bs + n\<rparr> = mk_bd (bs @ take n (bytes_bits v))"
proof (rule mk_bd_appendI)
  obtain k j where nk: "n = 8 * k + j" "j < 8" "n div 8 = k" "n mod 8 = j" by (rule split_index8)
  have c: "q + div_ceil8 n \<le> 128" "div_ceil8 n \<le> length v"
    using l n by (auto simp: div_ceil8_def)
  have c1: "div_ceil8 n = (if j = 0 then k else k + 1)" using nk by (auto simp: div_ceil8_def)
  have ld: "length d = 128" using c n by (simp add: d_def length_pad128)
  show "length (if n mod 8 \<noteq> 0
      then d[q + div_ceil8 n - 1 := d ! (q + div_ceil8 n - 1) AND push_bit (8 - n mod 8) 0xff] else d) = 128"
    using ld by simp
  fix i :: nat assume i: "i < 1024"
  have nd: "nbit d i = (if i < length bs then bs ! i
      else if i < 8 * (q + div_ceil8 n) then nbit v (i - 8 * q) else False)"
    using c i l n by (auto simp: d_def nbit_copy_bytes length_pad128 nbit_pad128)
  show "nbit (if n mod 8 \<noteq> 0
      then d[q + div_ceil8 n - 1 := d ! (q + div_ceil8 n - 1) AND push_bit (8 - n mod 8) 0xff] else d) i
    \<longleftrightarrow> (if i < length bs then bs ! i
        else i < length bs + length (take n (bytes_bits v)) \<and> take n (bytes_bits v) ! (i - length bs))"
  proof (cases "j = 0")
    case True
    then show ?thesis using nd nk n l c1 by (auto simp: not_less)
  next
    case False
    then have p: "q + div_ceil8 n - 1 = q + k" "q + k < 128" using c c1 by auto
    have m: "bit (push_bit (8 - j) 0xff :: byte) (7 - (i - 8 * (q + k))) \<longleftrightarrow> i < 8 * (q + k) + j"
      if "8 * (q + k) \<le> i" "i < 8 * (q + k) + 8"
      using that nk(2) high_mask_bit [of "i - 8 * (q + k)" "8 - j"] by auto
    have "nbit (d[q + k := d ! (q + k) AND push_bit (8 - j) 0xff]) i
      \<longleftrightarrow> nbit d i \<and> (8 * (q + k) \<le> i \<and> i < 8 * (q + k) + 8 \<longrightarrow> i < 8 * (q + k) + j)"
      using p ld m by (subst nbit_and) auto
    then show ?thesis using False nd nk n l c1 p by (auto simp: not_less)
  qed
qed (use l n in auto)

lemma store_raw_unaligned:
  assumes l: "length bs = 8 * q + r" "0 < r" "r < 8"
    and n: "0 < n" "length bs + n \<le> 1023" "n \<le> 8 * length v"
  defines "bl \<equiv> div_ceil8 (n + r) - 1"
  defines "da \<equiv> store_raw_loop (pad128 bs) v q r 0 bl"
  defines "db \<equiv> if bl < div_ceil8 n then da[q + bl := da ! (q + bl) OR drop_bit r (v ! bl)] else da"
  shows "\<lparr>bd_data = (if (r + n) mod 8 \<noteq> 0
      then db[q + bl := db ! (q + bl) AND push_bit (8 - (r + n) mod 8) 0xff] else db),
      bd_bit_len = length bs + n\<rparr> = mk_bd (bs @ take n (bytes_bits v))"
proof (rule mk_bd_appendI)
  obtain k j where nk: "r + n = 8 * k + j" "j < 8" "(r + n) div 8 = k" "(r + n) mod 8 = j"
    by (rule split_index8)
  have bl: "bl = (if j = 0 then k - 1 else k)" "j = 0 \<Longrightarrow> 0 < k"
    using nk l n(1) by (auto simp: bl_def div_ceil8_def add.commute [of n r])
  have p: "q + bl < 128" using bl nk l n by (auto split: if_splits)
  have vl: "8 * bl < n \<Longrightarrow> bl < div_ceil8 n" "bl < div_ceil8 n \<Longrightarrow> 8 * bl < n"
    by (auto simp: div_ceil8_def)
  have ld: "length da = 128" using n(2) by (simp add: da_def length_pad128)
  have lb: "length db = 128" using ld by (simp add: db_def)
  show "length (if (r + n) mod 8 \<noteq> 0
      then db[q + bl := db ! (q + bl) AND push_bit (8 - (r + n) mod 8) 0xff] else db) = 128"
    using lb by simp
  fix i :: nat assume i: "i < 1024"
  have z: "\<not> nbit (pad128 bs) k" if "8 * q + r \<le> k" "k < 8 * q + 8" for k
    using that l n p by (subst nbit_pad128) auto
  have n1: "nbit da i = (if i < length bs then bs ! i
      else if i < length bs + 8 * bl then nbit v (i - length bs) else False)"
    unfolding da_def using i l n p
    by (subst nbit_store_raw_loop [OF _ l(2,3) z]) (auto simp: length_pad128 nbit_pad128)
  have vb: "nbit v (i - length bs) = bit (v ! bl) (7 - (i - (8 * (q + bl) + r)))"
    if "8 * (q + bl) + r \<le> i" "i < 8 * (q + bl) + 8"
    using that l nbit_in_byte [of bl "i - length bs" v] by (auto simp: algebra_simps)
  have n2: "nbit db i = (if i < length bs then bs ! i
      else if i < length bs + 8 * bl then nbit v (i - length bs)
      else i < 8 * (q + bl) + 8 \<and> 8 * bl < n \<and> nbit v (i - length bs))"
  proof (cases "8 * bl < n")
    case True
    have "nbit db i = (nbit da i \<or> 8 * (q + bl) \<le> i \<and> i < 8 * (q + bl) + 8
        \<and> bit (drop_bit r (v ! bl)) (7 - (i - 8 * (q + bl))))"
      unfolding db_def if_P [OF vl(1) [OF True]] using p ld by (subst nbit_or) auto
    moreover have "bit (drop_bit r (v ! bl)) (7 - (i - 8 * (q + bl)))
        = (8 * (q + bl) + r \<le> i \<and> nbit v (i - length bs))"
      if "8 * (q + bl) \<le> i" "i < 8 * (q + bl) + 8"
    proof (cases "8 * (q + bl) + r \<le> i")
      case True
      from vb [OF this that(2)] True that l(2,3) show ?thesis by (simp add: bit_simps ac_simps)
    next
      case False
      with that l(2,3) show ?thesis by (auto simp: bit_simps)
    qed
    ultimately show ?thesis unfolding n1 using True l by auto
  next
    case False
    then have "\<not> bl < div_ceil8 n" using vl(2) by blast
    then show ?thesis unfolding db_def using n1 False by auto
  qed
  show "nbit (if (r + n) mod 8 \<noteq> 0
      then db[q + bl := db ! (q + bl) AND push_bit (8 - (r + n) mod 8) 0xff] else db) i
    \<longleftrightarrow> (if i < length bs then bs ! i
        else i < length bs + length (take n (bytes_bits v)) \<and> take n (bytes_bits v) ! (i - length bs))"
  proof (cases "j = 0")
    case True
    then show ?thesis using n2 nk l n bl by auto
  next
    case False
    have m: "bit (push_bit (8 - j) 0xff :: byte) (7 - (i - 8 * (q + bl))) \<longleftrightarrow> i < 8 * (q + bl) + j"
      if "8 * (q + bl) \<le> i" "i < 8 * (q + bl) + 8"
      using that nk(2) high_mask_bit [of "i - 8 * (q + bl)" "8 - j"] by auto
    have "nbit (db[q + bl := db ! (q + bl) AND push_bit (8 - j) 0xff]) i
      \<longleftrightarrow> nbit db i \<and> (8 * (q + bl) \<le> i \<and> i < 8 * (q + bl) + 8 \<longrightarrow> i < 8 * (q + bl) + j)"
      using p lb m by (subst nbit_and) auto
    then show ?thesis using False n2 nk n l bl by auto
  qed
qed (use l n in auto)

lemma store_raw_mk:
  assumes "length bs \<le> 1023" "small16 n" "length v < 8192"
  shows "store_raw (mk_bd bs) v n = appended bs (raw_bits v n)"
proof (cases "length bs + n \<le> 1023")
  case True
  have m: "raw_max_bit_len v = 8 * length v" using assms(3) by (simp add: raw_max_bit_len_def)
  define k where "k = min n (8 * length v)"
  define bs' where "bs' = bs @ replicate (n - 8 * length v) False"
  have bl: "(if n \<ge> 8 * length v then length bs + (n - 8 * length v) else length bs) = length bs'"
    and pd: "pad128 bs = pad128 bs'"
    using True by (auto simp: bs'_def pad128_zeros)
  have k: "length bs' + k \<le> 1023" "k \<le> 8 * length v" using True by (auto simp: k_def bs'_def)
  obtain q r where l: "length bs' = 8 * q + r" "r < 8" "length bs' div 8 = q" "length bs' mod 8 = r" "q < 128"
    using k(1) bit_len_split [of bs'] by (metis add_leD1)
  have "store_raw (mk_bd bs) v n = Ok (mk_bd (bs' @ take k (bytes_bits v)))"
  proof (cases "k = 0")
    case True
    then show ?thesis
      using \<open>length bs + n \<le> 1023\<close> assms
      unfolding store_raw_def Let_def mk_bd_sel m bl k_def [symmetric] MAX_BIT_LEN_def
      by (simp add: mk_bd_def pd)
  next
    case False
    then have k0: "0 < k" by simp
    note al = store_raw_aligned [of bs' q k v, OF _ k0 k]
    note un = store_raw_unaligned [of bs' q r k v, OF l(1) _ l(2) k0 k]
    show ?thesis
    proof (cases "r = 0")
      case True
      then show ?thesis
        using \<open>length bs + n \<le> 1023\<close> assms k0 al l(1)
        unfolding store_raw_def Let_def mk_bd_sel m bl k_def [symmetric] MAX_BIT_LEN_def pd l(3,4)
        by simp
    next
      case False
      then show ?thesis
        using \<open>length bs + n \<le> 1023\<close> assms k0 un
        unfolding store_raw_def Let_def mk_bd_sel m bl k_def [symmetric] MAX_BIT_LEN_def pd l(3,4)
        by simp
    qed
  qed
  then show ?thesis
    using True by (simp add: appended_def MAX_BIT_LEN_def raw_bits_def bs'_def k_def)
next
  case False
  then show ?thesis using assms by (simp add: store_raw_def appended_def MAX_BIT_LEN_def)
qed

end
