(* ===== verification/Cell_Impl_Props.thy ===== *)
theory Cell_Impl_Props
  imports Cell_Slice_Props
begin

text \<open>
  What \<open>finalize_cell\<close> guarantees. \<open>wf_cell\<close> is the shape the accessors of a stored cell rely on
  (data length, second descriptor byte, reference count and number of stored hashes agree,
  recursively); \<open>wf_parts\<close> is what a caller has to supply. The lemmas show that a successful
  \<open>finalize_cell\<close> returns a well-formed cell with exactly the data and children of its parts, that
  for an ordinary cell the only possible failure is \<open>DepthOverflow\<close>, and that it does not occur
  below the maximum depth.
\<close>

section \<open>Well-formed cells\<close>

fun wf_cell :: "cell \<Rightarrow> bool" where
  "wf_cell EmptyOrdinaryCell \<longleftrightarrow> True"
| "wf_cell (StaticCell d ds n h) \<longleftrightarrow>
     n \<le> MAX_BIT_LEN \<and> d = cd_new 0 (compute_d2 n) \<and> length ds = div_ceil8 n"
| "wf_cell (OrdinaryCell n hs d rs ds) \<longleftrightarrow>
     n \<le> MAX_BIT_LEN \<and> d2 d = compute_d2 n \<and> length ds = div_ceil8 n
     \<and> reference_count d = length rs \<and> length rs \<le> MAX_REF_COUNT
     \<and> length hs = level (cd_level_mask d) + 1
     \<and> (is_exotic d \<longrightarrow> rs \<noteq> []) \<and> list_all wf_cell rs"
| "wf_cell (LibraryReference h d ds) \<longleftrightarrow>
     is_exotic d \<and> reference_count d = 0 \<and> cd_level_mask d = 0
     \<and> d2 d = compute_d2 264 \<and> length ds = 33"
| "wf_cell (PrunedBranch h l d ds) \<longleftrightarrow>
     is_exotic d \<and> reference_count d = 0 \<and> l = level (cd_level_mask d) \<and> l \<noteq> 0
     \<and> d2 d = compute_d2 (16 + l * 272) \<and> length ds = div_ceil8 (16 + l * 272)"
| "wf_cell (VirtualCell c) \<longleftrightarrow> False"
| "wf_cell (VirtualCellWrapper c l) \<longleftrightarrow> False"
| "wf_cell (IntermediateDataCell ds n) \<longleftrightarrow> False"
| "wf_cell (IntermediateFullCell ds n rs) \<longleftrightarrow> False"

lemma byte_len_d2: "d2 d = compute_d2 n \<Longrightarrow> n \<le> 1023 \<Longrightarrow> byte_len d = div_ceil8 n"
  using byte_len_compute_d2 [of n "d1 d"] by (cases d) simp

lemma level_le_3: "level (cd_level_mask d) \<le> 3"
  using lm_cases [OF level_mask_less [of d]] by (auto simp: level_values)

lemma level_pos: "cd_level_mask d \<noteq> 0 \<Longrightarrow> 0 < level (cd_level_mask d)"
  using lm_cases [OF level_mask_less [of d]] by (auto simp: level_values)

lemma cell_type_eq:
  "cell_type d =
     (if \<not> is_exotic d then Ordinary
      else if reference_count d = 0
        then (if cd_level_mask d = 0 then LibraryReferenceType else PrunedBranchType)
      else if reference_count d = 1 then MerkleProofType else MerkleUpdateType)"
proof -
  have m: "d1 d AND LEVEL_MASK = 0 \<longleftrightarrow> cd_level_mask d = 0"
  proof -
    have "d1 d AND LEVEL_MASK = push_bit 5 (cd_level_mask d)"
    proof (rule bit_word_eqI)
      fix n :: nat assume "n < LENGTH(8)"
      then have n: "n < 8" by simp
      show "bit (d1 d AND LEVEL_MASK) n = bit (push_bit 5 (cd_level_mask d)) n"
        using less8_cases [OF n]
        by (auto simp: bit_and_iff LEVEL_MASK_def bit_push_bit_iff cd_level_mask_def bit_drop_bit_eq)
    qed
    then show ?thesis using lm_cases [OF level_mask_less [of d]] by auto
  qed
  have r: "d1 d AND REF_COUNT_MASK = 0 \<longleftrightarrow> reference_count d = 0"
    "d1 d AND REF_COUNT_MASK = 1 \<longleftrightarrow> reference_count d = 1"
    by (simp_all add: reference_count_def word_unat_eq_iff)
  show ?thesis unfolding cell_type_def m r is_exotic_def by simp
qed

lemma wf_cell_shape:
  assumes "wf_cell c"
  shows "cell_bit_len c \<le> MAX_BIT_LEN"
    and "length (cell_data c) = div_ceil8 (cell_bit_len c)"
    and "cell_reference_count c \<le> MAX_REF_COUNT"
    and "reference_cloned c = reference c"
proof -
  have l: "level (cd_level_mask (descriptor c)) * 272 \<le> 816"
    using level_le_3 [of "descriptor c"] by simp
  show "cell_bit_len c \<le> MAX_BIT_LEN"
    using assms l by (cases c) (auto simp: MAX_BIT_LEN_def)
  show "length (cell_data c) = div_ceil8 (cell_bit_len c)"
    using assms l by (cases c) (auto simp: byte_len_d2 MAX_BIT_LEN_def, simp add: div_ceil8_def)
  show "cell_reference_count c \<le> MAX_REF_COUNT"
    using assms
    by (cases c) (auto simp: cell_reference_count_def MAX_REF_COUNT_def reference_count_def cd_new_def)
  show "reference_cloned c = reference c"
    using assms by (cases c) (auto simp: fun_eq_iff)
qed

fun cell_children :: "cell \<Rightarrow> cell list" where
  "cell_children (OrdinaryCell n hs d rs ds) = rs"
| "cell_children _ = []"

lemma wf_cell_children:
  assumes "wf_cell c"
  shows "cell_refs c = cell_children c" and "cell_reference_count c = length (cell_children c)"
    and "reference c i = nth_opt (cell_children c) i" and "list_all wf_cell (cell_children c)"
proof -
  show n: "cell_reference_count c = length (cell_children c)"
    using assms by (cases c) (auto simp: cell_reference_count_def reference_count_def cd_new_def)
  show r: "reference c i = nth_opt (cell_children c) i" for i
    using assms by (cases c) (auto simp: nth_opt_def)
  show "cell_refs c = cell_children c"
    by (rule nth_equalityI) (auto simp: cell_refs_def n r nth_opt_def)
  show "list_all wf_cell (cell_children c)"
    using assms by (cases c) auto
qed

lemma wf_cell_shape_ok: "wf_cell c \<Longrightarrow> shape_ok c"
  using wf_cell_shape [of c] wf_cell_children [of c]
  by (auto simp: shape_ok_def list_all_iff nth_opt_def)

section \<open>Hash computation\<close>

definition wf_parts :: "cell_parts \<Rightarrow> bool" where
  "wf_parts p \<longleftrightarrow>
     cp_bit_len p \<le> MAX_BIT_LEN \<and> length (cp_data p) = div_ceil8 (cp_bit_len p)
     \<and> d2 (cp_descriptor p) = compute_d2 (cp_bit_len p)
     \<and> reference_count (cp_descriptor p) = length (cp_references p)
     \<and> length (cp_references p) \<le> MAX_REF_COUNT \<and> list_all wf_cell (cp_references p)"

lemma children_depth_error: "children_depth l cs n = Err e \<Longrightarrow> e = DepthOverflow"
  by (induction l cs n rule: children_depth.induct) (auto simp: Let_def split: if_splits)

lemma children_depth_bound:
  "(\<And>c. c \<in> set cs \<Longrightarrow> cell_depth c l \<le> D) \<Longrightarrow> D < 65535 \<Longrightarrow> n \<le> D + 1 \<Longrightarrow>
    \<exists>n'. children_depth l cs n = Ok n' \<and> n' \<le> D + 1"
  by (induction l cs n rule: children_depth.induct) (force simp: Let_def)+

lemma hash_levels_error: "hash_levels sha p pr off ls hs = Err e \<Longrightarrow> e = DepthOverflow"
proof (induction ls arbitrary: hs)
  case (Cons l ls)
  then show ?case
    by (cases "children_depth (l + off) (cp_references p) 0")
       (auto split: if_splits dest: children_depth_error)
qed simp

lemma hash_levels_length:
  "hash_levels sha p pr off ls hs = Ok hs' \<Longrightarrow> length hs' = length hs +
    length (filter (\<lambda>l. l = 0 \<or> \<not> pr \<and> contains (cd_level_mask (cp_descriptor p)) l) ls)"
proof (induction ls arbitrary: hs)
  case (Cons l ls)
  from Cons.prems show ?case
    by (auto split: if_splits elim!: ok_eq_OkE dest!: Cons.IH)
qed simp

lemma hash_levels_bound:
  assumes "\<And>c l. c \<in> set (cp_references p) \<Longrightarrow> l \<in> set ls \<Longrightarrow> cell_depth c (l + off) \<le> D" "D < 65535"
    and "\<And>h. h \<in> set hs \<Longrightarrow> snd h \<le> D + 1"
  shows "\<exists>hs'. hash_levels sha p pr off ls hs = Ok hs' \<and> (\<forall>h \<in> set hs'. snd h \<le> D + 1)"
  using assms
proof (induction ls arbitrary: hs)
  case (Cons l ls)
  obtain n where n: "children_depth (l + off) (cp_references p) 0 = Ok n" "n \<le> D + 1"
    using children_depth_bound [of "cp_references p" "l + off" D 0] Cons.prems by auto
  have ih: "\<exists>hs'. hash_levels sha p pr off ls g = Ok hs' \<and> (\<forall>h \<in> set hs'. snd h \<le> D + 1)"
    if "\<And>h. h \<in> set g \<Longrightarrow> snd h \<le> D + 1" for g
    using Cons.prems that by (intro Cons.IH) auto
  show ?case
  proof (cases "l \<noteq> 0 \<and> (pr \<or> \<not> contains (cd_level_mask (cp_descriptor p)) l)")
    case True
    then show ?thesis using ih [of hs] Cons.prems(3) by simp
  next
    case False
    have "snd h \<le> D + 1" if "h \<in> set (hs @ [(sha (hash_input p pr off l hs), n)])" for h
      using that n(2) Cons.prems(3) [of h] by auto
    then have "\<exists>hs'. hash_levels sha p pr off ls (hs @ [(sha (hash_input p pr off l hs), n)]) = Ok hs'
        \<and> (\<forall>h \<in> set hs'. snd h \<le> D + 1)" by (rule ih)
    then show ?thesis unfolding hash_levels.simps if_not_P [OF False] n(1) ok_Ok .
  qed
qed simp

lemma stored_levels:
  assumes "m < 8"
  shows "length (filter (\<lambda>l. l = 0 \<or> contains m l) [0..<4]) = level m + 1"
    and "length (filter (\<lambda>l. l = (0::nat)) [0..<4]) = 1"
proof -
  have "filter (\<lambda>l. l = 0 \<or> contains m l) [0..<4] = 0 # filter (contains m) [1..<4]"
    by (simp add: upt_conv_Cons)
  then show "length (filter (\<lambda>l. l = 0 \<or> contains m l) [0..<4]) = level m + 1"
    using hash_index_eq [OF assms, of 3] hash_index_max [OF assms, of 3] by simp
qed (simp add: upt_rec)

lemma check_exotic_cases:
  assumes "check_exotic p = Ok (ty, m)"
  shows "ty = PrunedBranchType \<and> m = cd_level_mask (cp_descriptor p) \<and> m \<noteq> 0 \<and> cp_references p = []
      \<and> cp_bit_len p = 16 + level m * 272
    \<or> ty = LibraryReferenceType \<and> m = 0 \<and> cp_references p = [] \<and> cp_bit_len p = 264
    \<or> ty = MerkleProofType \<and> m = lm_virtualize (cp_children_mask p) 1 \<and> length (cp_references p) = 1
      \<and> cp_bit_len p = 280
    \<or> ty = MerkleUpdateType \<and> m = lm_virtualize (cp_children_mask p) 1 \<and> length (cp_references p) = 2
      \<and> cp_bit_len p = 552"
proof -
  have z: "level 0 = 0" by (rule level_values)
  show ?thesis
    using assms z
    by (auto simp: check_exotic_def Let_def algebra_simps split: list.splits option.splits celltype.splits if_splits)
qed

text \<open>
  The type that \<open>CellDescriptor::cell_type\<close> reads off the first descriptor byte is the type the
  validator found in the first data byte.
\<close>

lemma compute_hashes_Ok:
  assumes "compute_hashes sha p = Ok hs" "reference_count (cp_descriptor p) = length (cp_references p)"
  shows "length (cp_data p) \<ge> div_ceil8 (cp_bit_len p)"
    and "is_exotic (cp_descriptor p) \<Longrightarrow>
      check_exotic p = Ok (cell_type (cp_descriptor p), cd_level_mask (cp_descriptor p))"
    and "\<not> is_exotic (cp_descriptor p) \<Longrightarrow> cp_children_mask p = cd_level_mask (cp_descriptor p)"
    and "length hs = (if cell_type (cp_descriptor p) = PrunedBranchType then 1
      else level (cd_level_mask (cp_descriptor p)) + 1)"
proof -
  let ?d = "cp_descriptor p"
  obtain ty m where ty: "(if is_exotic ?d then check_exotic p else Ok (Ordinary, cp_children_mask p)) = Ok (ty, m)"
    and m: "m = cd_level_mask ?d"
    and hs: "hash_levels sha p (ct_is_pruned_branch ty) (if ct_is_merkle ty then 1 else 0) [0..<4] [] = Ok hs"
    and len: "length (cp_data p) \<ge> div_ceil8 (cp_bit_len p)"
    using assms(1) by (force simp: compute_hashes_def not_less split: if_splits elim!: ok_eq_OkE)
  show "length (cp_data p) \<ge> div_ceil8 (cp_bit_len p)" by (rule len)
  have t: "ty = cell_type ?d"
  proof (cases "is_exotic ?d")
    case True
    then have "check_exotic p = Ok (ty, m)" using ty by simp
    from check_exotic_cases [OF this] True m assms(2) show ?thesis
      by (auto simp: cell_type_eq)
  next
    case False
    then show ?thesis using ty by (simp add: cell_type_eq)
  qed
  show "is_exotic ?d \<Longrightarrow> check_exotic p = Ok (cell_type ?d, cd_level_mask ?d)"
    using ty t m by simp
  show "\<not> is_exotic ?d \<Longrightarrow> cp_children_mask p = cd_level_mask ?d" using ty m by simp
  show "length hs = (if cell_type ?d = PrunedBranchType then 1 else level (cd_level_mask ?d) + 1)"
    using hash_levels_length [OF hs] stored_levels [OF level_mask_less [of ?d]]
    by (auto simp: t ct_is_pruned_branch_def cong: conj_cong)
qed

section \<open>The cell that is built\<close>

lemma finalize_cell_wf:
  assumes "wf_parts p" "finalize_cell sha p = Ok c"
  shows "wf_cell c" and "descriptor c = cp_descriptor p" and "cell_bit_len c = cp_bit_len p"
    and "cell_data c = cp_data p" and "cell_children c = cp_references p"
proof -
  let ?d = "cp_descriptor p"
  obtain hs where hs: "compute_hashes sha p = Ok hs" and c: "c = make_cell p hs"
    using assms(2) by (auto simp: finalize_cell_def elim!: ok_eq_OkE)
  have p: "cp_bit_len p \<le> 1023" "length (cp_data p) = div_ceil8 (cp_bit_len p)"
    "d2 ?d = compute_d2 (cp_bit_len p)" "reference_count ?d = length (cp_references p)"
    "length (cp_references p) \<le> 4" "list_all wf_cell (cp_references p)"
    using assms(1) by (simp_all add: wf_parts_def MAX_BIT_LEN_def MAX_REF_COUNT_def)
  have bl: "byte_len ?d = div_ceil8 (cp_bit_len p)" by (rule byte_len_d2) (use p in simp_all)
  note h = compute_hashes_Ok [OF hs p(4)]
  have "wf_cell c \<and> descriptor c = ?d \<and> cell_bit_len c = cp_bit_len p
      \<and> cell_data c = cp_data p \<and> cell_children c = cp_references p"
  proof (cases "is_exotic ?d")
    case True
    note x = check_exotic_cases [OF h(2) [OF True]]
    have lv: "level 0 = 0" by (rule level_values)
    have "div_ceil8 264 = 33" by (simp add: div_ceil8_def)
    then show ?thesis
      using x h(4) p bl True lv level_pos [of ?d]
      by (auto simp: c make_cell_def MAX_BIT_LEN_def MAX_REF_COUNT_def split: celltype.splits)
  next
    case False
    then have t: "cell_type ?d = Ordinary" by (simp add: cell_type_eq)
    show ?thesis
    proof (cases "d1 ?d = 0 \<and> d2 ?d = 0")
      case True
      then have "unat (compute_d2 (cp_bit_len p)) = 0" using p(3) by simp
      then have n: "cp_bit_len p = 0" unfolding unat_compute_d2 [OF p(1)]
        by (auto split: if_splits simp: of_bool_def)
      have "reference_count ?d = 0" using True by (simp add: reference_count_def)
      then show ?thesis
        using True t n p(2,4) by (cases ?d) (auto simp: c make_cell_def cd_new_def)
    next
      case False
      then show ?thesis
        using t p h(4) bl \<open>\<not> is_exotic ?d\<close>
        by (auto simp: c make_cell_def MAX_BIT_LEN_def MAX_REF_COUNT_def)
    qed
  qed
  then show "wf_cell c" "descriptor c = ?d" "cell_bit_len c = cp_bit_len p"
    "cell_data c = cp_data p" "cell_children c = cp_references p" by simp_all
qed

definition depth_le :: "nat \<Rightarrow> cell \<Rightarrow> bool" where
  "depth_le D c \<longleftrightarrow> list_all (\<lambda>l. cell_depth c l \<le> D) [0..<4]"

text \<open>An ordinary cell can only fail on its depth.\<close>

lemma finalize_ordinary:
  assumes "wf_parts p" "\<not> is_exotic (cp_descriptor p)"
    and "cp_children_mask p = cd_level_mask (cp_descriptor p)"
  shows "finalize_cell sha p = Err e \<Longrightarrow> e = DepthOverflow"
    and "D < 65535 \<Longrightarrow> list_all (depth_le D) (cp_references p) \<Longrightarrow>
      \<exists>c. finalize_cell sha p = Ok c \<and> depth_le (D + 1) c"
proof -
  have ch: "compute_hashes sha p = hash_levels sha p False 0 [0..<4] []"
    using assms
    by (simp add: compute_hashes_def wf_parts_def ct_is_pruned_branch_def ct_is_merkle_def)
  show "finalize_cell sha p = Err e \<Longrightarrow> e = DepthOverflow"
    by (cases "compute_hashes sha p") (auto simp: finalize_cell_def ch dest: hash_levels_error)
  show "\<exists>c. finalize_cell sha p = Ok c \<and> depth_le (D + 1) c"
    if "D < 65535" "list_all (depth_le D) (cp_references p)"
  proof -
    have "\<exists>hs. hash_levels sha p False 0 [0..<4] [] = Ok hs \<and> (\<forall>h \<in> set hs. snd h \<le> D + 1)"
      by (rule hash_levels_bound) (use that in \<open>auto simp: depth_le_def list_all_iff\<close>)
    then obtain hs where hs: "compute_hashes sha p = Ok hs" "\<forall>h \<in> set hs. snd h \<le> D + 1"
      using ch by auto
    have t: "cell_type (cp_descriptor p) = Ordinary" using assms(2) by (simp add: cell_type_eq)
    have "reference_count (cp_descriptor p) = length (cp_references p)"
      using assms(1) by (simp add: wf_parts_def)
    then have l: "length hs = level (cd_level_mask (cp_descriptor p)) + 1"
      using compute_hashes_Ok(4) [OF hs(1)] t by simp
    have "depth_le (D + 1) (make_cell p hs)"
    proof -
      have "snd (hs ! cd_hash_index (cp_descriptor p) l) \<le> D + 1" for l
        using hs(2) l hash_index_le_level [OF level_mask_less [of "cp_descriptor p"], of l]
        by (auto simp: cd_hash_index_def)
      then show ?thesis by (simp add: make_cell_def t depth_le_def list_all_iff)
    qed
    then show ?thesis using hs(1) by (simp add: finalize_cell_def)
  qed
qed

end
