(* ===== verification/Cell_Builder_Build.thy ===== *)
theory Cell_Builder_Build
  imports Cell_Builder_Props Cell_Impl_Props
begin

text \<open>
  The remaining operations of the builder against lists of bits (\<open>store_u256\<close>, \<open>store_slice_data\<close>,
  \<open>store_cell_data\<close>, \<open>prepend_raw\<close>, \<open>rewind_bits\<close>, \<open>store_slice\<close>, \<open>store_builder\<close>), and building: an
  ordinary builder that holds \<open>bs\<close> and \<open>rs\<close> builds a cell whose bits are \<open>bs\<close> and whose children
  are \<open>rs\<close>, so a slice of it reads back what was stored.
\<close>

section \<open>Hashes, slices and whole cells\<close>

lemma store_u256_mk [simp]:
  assumes "length bs \<le> 1023" "length v = 32"
  shows "store_u256 (mk_bd bs) v = appended bs (bytes_bits v)"
proof (cases "length bs + 256 \<le> 1023")
  case True
  obtain q r where l: "length bs = 8 * q + r" "r < 8" "length bs div 8 = q" "length bs mod 8 = r" "q < 128"
    using assms(1) by (rule bit_len_split)
  let ?hi = "from_be_bytes (take 16 v) :: 128 word" and ?lo = "from_be_bytes (drop 16 v) :: 128 word"
  let ?da = "(pad128 bs)[q := pad128 bs ! q OR ucast (drop_bit (128 - (8 - r)) ?hi)]"
  let ?h = "push_bit (8 - r) ?hi OR drop_bit (128 - (8 - r)) ?lo" and ?l = "push_bit (8 - r) ?lo"
  let ?d = "if r = 0 then copy_bytes (pad128 bs) q v 32
    else copy_bytes (copy_bytes ?da (q + 1) (to_be_bytes ?h) 16) (q + 17) (to_be_bytes ?l) 16"
  have q: "q + 32 \<le> 128" "0 < r \<Longrightarrow> q + 33 \<le> 128" using True l by auto
  have bh: "bit ?hi m \<longleftrightarrow> m < 128 \<and> nbit v (127 - m)" for m
    using assms(2) by (auto simp: bit_from_be_bytes nbit_take)
  have bl: "bit ?lo m \<longleftrightarrow> m < 128 \<and> nbit v (255 - m)" for m
    using assms(2) by (auto simp: bit_from_be_bytes nbit_drop)
  have b: "nbit (to_be_bytes w) k = bit w (127 - k)" if "k < 128" for k and w :: "128 word"
    using nbit_to_be_bytes [of k w] that by simp
  have "\<lparr>bd_data = ?d, bd_bit_len = length bs + 256\<rparr> = mk_bd (bs @ bytes_bits v)"
  proof (rule mk_bd_appendI)
    fix i :: nat assume i: "i < 1024"
    show "nbit ?d i \<longleftrightarrow> (if i < length bs then bs ! i
        else i < length bs + length (bytes_bits v) \<and> bytes_bits v ! (i - length bs))"
    proof (cases "r = 0")
      case True
      then show ?thesis using i l q assms(2)
        by (auto simp: nbit_copy_bytes length_pad128 nbit_pad128)
    next
      case False
      then have r: "0 < r" "q + 33 \<le> 128" using q(2) by auto
      have da: "nbit ?da i = (if i < length bs then bs ! i else i < 8 * (q + 1) \<and> nbit v (i - length bs))"
        using i l r by (auto simp: nbit_or length_pad128 nbit_pad128 bit_drop_bit_eq bit_ucast_iff bh ac_simps)
      consider "i < 8 * (q + 1)" | "8 * (q + 1) \<le> i" "i < 8 * (q + 17)"
        | "8 * (q + 17) \<le> i" "i < 8 * (q + 33)" | "8 * (q + 33) \<le> i" by linarith
      then show ?thesis
      proof cases
        case 1
        then have "nbit ?d i = nbit ?da i"
          using r l(1) True by (simp add: nbit_copy_bytes length_pad128)
        then show ?thesis unfolding da using 1 l(1) assms(2) by auto
      next
        case 2
        then have "nbit ?d i = bit ?h (127 - (i - 8 * (q + 1)))"
          using r l(1) True b [of "i - 8 * (q + 1)"] by (simp add: nbit_copy_bytes length_pad128)
        also have "\<dots> = nbit v (i - length bs)"
          using 2 r l(1,2) by (auto simp: bit_or_iff bit_push_bit_iff bit_drop_bit_eq bh bl ac_simps)
        finally show ?thesis using 2 l(1,2) assms(2) by auto
      next
        case 3
        then have "nbit ?d i = bit ?l (127 - (i - 8 * (q + 17)))"
          using r l(1) True b [of "i - 8 * (q + 17)"] by (simp add: nbit_copy_bytes length_pad128)
        also have "\<dots> = (i < length bs + 256 \<and> nbit v (i - length bs))"
          using 3 r l(1,2) by (auto simp: bit_push_bit_iff bl ac_simps)
        finally show ?thesis using 3 l(1,2) assms(2) by auto
      next
        case 4
        then have "nbit ?d i = nbit ?da i"
          using r l(1) True by (simp add: nbit_copy_bytes length_pad128)
        then show ?thesis unfolding da using 4 l(1,2) assms(2) by auto
      qed
    qed
  qed (use True l q assms(2) in \<open>auto simp: length_pad128\<close>)
  then show ?thesis
    using True assms(2)
    by (cases "r = 0") (simp_all add: store_u256_def Let_def appended_def MAX_BIT_LEN_def l(3,4))
next
  case False
  then show ?thesis using assms by (simp add: store_u256_def appended_def MAX_BIT_LEN_def)
qed

lemma raw_bits_pack [simp]: "raw_bits (pack_bits bs) (length bs) = bs"
proof -
  have "length bs \<le> 8 * div_ceil8 (length bs)" by (rule div_ceil8_bounds)
  then have "raw_bits (pack_bits bs) (length bs) = bits_range (pack_bits bs) 0 (length bs)"
    by (simp add: raw_bits_def bytes_bits_def take_bits_range min_def)
  then show ?thesis by simp
qed

lemma raw_bits_fit: "n \<le> 8 * length v \<Longrightarrow> raw_bits v n = bits_range v 0 n"
  by (simp add: raw_bits_def bytes_bits_def take_bits_range min_def)

lemma store_slice_data_mk [simp]:
  assumes "length bs \<le> 1023" "wf_slice s"
  shows "store_slice_data (mk_bd bs) s = appended bs (slice_bits s)"
proof -
  have n: "size_bits s \<le> 1023" by (rule wf_sliceD [OF assms(2)])
  then have c: "div_ceil8 (size_bits s) \<le> 128" by (simp add: div_ceil8_le_iff)
  have "take (size_bits s) (slice_bits s) = slice_bits s" by simp
  then have g: "get_raw s 0 (replicate 128 0) (size_bits s) = Ok (pack_bits (slice_bits s))"
    using n c assms(2) by (simp add: get_raw_spec)
  have "store_raw (mk_bd bs) (pack_bits (slice_bits s)) (size_bits s)
      = appended bs (raw_bits (pack_bits (slice_bits s)) (length (slice_bits s)))"
    using n c assms(1) by (subst store_raw_mk) auto
  moreover have "raw_bits (pack_bits (slice_bits s)) (size_bits s) = slice_bits s"
    using raw_bits_pack [of "slice_bits s"] by simp
  ultimately show ?thesis
    using n assms(1) by (simp add: store_slice_data_def g appended_def MAX_BIT_LEN_def)
qed

lemma store_cell_data_mk [simp]:
  assumes "length bs \<le> 1023" "shape_ok c" "length (cell_data c) < 8192"
  shows "store_cell_data (mk_bd bs) c = appended bs (cell_bits c)"
  using assms
  by (simp add: store_cell_data_def store_raw_mk shape_ok_def MAX_BIT_LEN_def raw_bits_fit
      cell_bits_def div_ceil8_le_iff)

lemma store_ones_mk [simp]:
  assumes "length bs \<le> 1023" "n \<le> 1023"
  shows "store_ones (mk_bd bs) n = appended bs (replicate n True)"
proof -
  have "nbit (replicate 128 0xff) i" if "i < 1024" for i
    using that by (simp add: nbit_def less_mult_imp_div_less ones8)
  then have "raw_bits (replicate 128 0xff) n = replicate n True"
    using assms(2) by (intro nth_equalityI) (auto simp: raw_bits_fit)
  then show ?thesis
    using assms by (simp add: store_ones_def store_raw_mk ALL_ONES_CELL_def)
qed

lemma prepend_raw_mk [simp]:
  assumes "length bs \<le> 1023" "small16 n" "length v < 8192"
  shows "prepend_raw (mk_bd bs) v n =
    (if length bs + n \<le> 1023 then Ok (mk_bd (raw_bits v n @ bs)) else Err CellOverflow)"
proof (cases "0 < n \<and> length bs + n \<le> 1023")
  case True
  have "raw_bits (pad128 bs) (length bs) = bs"
    using assms(1) by (intro nth_equalityI) (auto simp: raw_bits_fit length_pad128 nbit_pad128)
  then show ?thesis
    using True assms
    by (simp add: prepend_raw_def bd_new_mk store_raw_mk appended_def MAX_BIT_LEN_def length_pad128)
next
  case False
  then show ?thesis
    using assms by (auto simp: prepend_raw_def raw_bits_def MAX_BIT_LEN_def)
qed

lemma nbit_zero_bytes:
  assumes "off + n \<le> length d"
  shows "nbit (zero_bytes d off n) i = (if 8 * off \<le> i \<and> i < 8 * (off + n) then False else nbit d i)"
  using assms by (auto simp: zero_bytes_def nbit_copy_bytes nbit_replicate)

lemma rewind_bits_mk [simp]:
  assumes "length bs \<le> 1023"
  shows "rewind_bits (mk_bd bs) n =
    (if n \<le> length bs then Ok (mk_bd (take (length bs - n) bs)) else Err CellUnderflow)"
proof (cases "0 < n \<and> n \<le> length bs")
  case True
  define m where "m = length bs - n"
  have ml: "m \<le> 1023" "n = length bs - m" "m < length bs" using True assms by (auto simp: m_def)
  obtain q r where l: "m = 8 * q + r" "r < 8" "m div 8 = q" "m mod 8 = r" by (rule split_index8)
  let ?dm = "(pad128 bs)[q := pad128 bs ! q AND push_bit (8 - r) 0xff]"
  let ?d = "if r \<noteq> 0 then zero_bytes ?dm (q + 1) (div_ceil8 (n - (8 - r)))
    else zero_bytes (pad128 bs) q (div_ceil8 n)"
  have "div_ceil8 (n - (8 - r)) \<le> 127 - q" "r = 0 \<Longrightarrow> div_ceil8 n \<le> 128 - q"
    using ml l assms by (auto simp: div_ceil8_le_iff)
  then have q: "q < 128" "q + 1 + div_ceil8 (n - (8 - r)) \<le> 128" "r = 0 \<Longrightarrow> q + div_ceil8 n \<le> 128"
    using ml l assms by auto
  have z: "length bs \<le> 8 * (q + 1 + div_ceil8 (n - (8 - r)))" "r = 0 \<Longrightarrow> length bs \<le> 8 * (q + div_ceil8 n)"
    using ml l by (auto simp: div_ceil8_def)
  have "?d = pad128 (take m bs)"
  proof (rule pad128_eqI)
    show "length ?d = 128"
      using q assms by (auto simp: zero_bytes_def length_pad128)
    fix i :: nat assume i: "i < 1024"
    show "nbit ?d i \<longleftrightarrow> i < length (take m bs) \<and> take m bs ! i"
    proof (cases "r = 0")
      case True
      then show ?thesis
        using q z l ml i assms by (auto simp: nbit_zero_bytes length_pad128 nbit_pad128)
    next
      case False
      have mk: "bit (push_bit (8 - r) 0xff :: byte) (7 - (i - 8 * q)) \<longleftrightarrow> i < m"
        if "8 * q \<le> i" "i < 8 * q + 8"
        using that l(1,2) high_mask_bit [of "i - 8 * q" "8 - r"] by auto
      have "nbit ?dm i \<longleftrightarrow> (i < length bs \<and> bs ! i) \<and> (8 * q \<le> i \<and> i < 8 * q + 8 \<longrightarrow> i < m)"
        using q(1) assms i mk by (subst nbit_and) (auto simp: length_pad128 nbit_pad128)
      then show ?thesis
        using False q z l ml i assms by (auto simp: nbit_zero_bytes length_pad128)
    qed
  qed (use assms in simp)
  then have e: "mk_bd (take m bs) = \<lparr>bd_data = ?d, bd_bit_len = m\<rparr>"
    using ml by (simp add: mk_bd_def)
  have "rewind_bits (mk_bd bs) n = Ok \<lparr>bd_data = ?d, bd_bit_len = m\<rparr>"
    using True unfolding rewind_bits_def Let_def mk_bd_sel m_def [symmetric] l(3,4) by simp
  then show ?thesis using True e m_def by simp
next
  case False
  then show ?thesis by (auto simp: rewind_bits_def)
qed

section \<open>The cell builder\<close>

definition mk_cb :: "bool list \<Rightarrow> cell list \<Rightarrow> cell_builder" where
  "mk_cb bs rs = \<lparr>cb_inner = mk_bd bs, cb_is_exotic = False, cb_references = rs\<rparr>"

definition cb_appended :: "bool list \<Rightarrow> cell list \<Rightarrow> bool list \<Rightarrow> cell list \<Rightarrow> cell_builder result" where
  "cb_appended bs rs xs ys =
     (if length bs + length xs \<le> MAX_BIT_LEN \<and> length rs + length ys \<le> MAX_REF_COUNT
      then Ok (mk_cb (bs @ xs) (rs @ ys)) else Err CellOverflow)"

definition cb_wf :: "cell_builder \<Rightarrow> bool" where
  "cb_wf b \<longleftrightarrow> bd_wf (cb_inner b) \<and> length (cb_references b) \<le> MAX_REF_COUNT"

lemma cb_new_mk: "cb_new = mk_cb [] []"
  by (simp add: cb_new_def mk_cb_def bd_new_mk)

lemma cb_wf_mk_cb [simp]: "length bs \<le> 1023 \<Longrightarrow> length rs \<le> 4 \<Longrightarrow> cb_wf (mk_cb bs rs)"
  by (simp add: cb_wf_def mk_cb_def MAX_REF_COUNT_def)

lemma cb_wf_iff:
  "cb_wf b \<and> \<not> cb_is_exotic b \<longleftrightarrow> (\<exists>bs rs. length bs \<le> 1023 \<and> length rs \<le> 4 \<and> b = mk_cb bs rs)"
  by (cases b) (auto simp: cb_wf_def bd_wf_iff mk_cb_def MAX_REF_COUNT_def)

lemma on_inner_mk:
  "f (mk_bd bs) = appended bs xs \<Longrightarrow> length rs \<le> 4 \<Longrightarrow> on_inner f (mk_cb bs rs) = cb_appended bs rs xs []"
  by (simp add: on_inner_def mk_cb_def appended_def cb_appended_def MAX_REF_COUNT_def)

lemma store_reference_mk:
  "length bs \<le> 1023 \<Longrightarrow> store_reference (mk_cb bs rs) c = cb_appended bs rs [] [c]"
  by (auto simp: store_reference_def mk_cb_def cb_appended_def MAX_REF_COUNT_def MAX_BIT_LEN_def)

lemma store_references_mk:
  "length bs \<le> 1023 \<Longrightarrow> length rs + length cs \<le> 4 \<Longrightarrow>
    store_references (mk_cb bs rs) cs = Ok (mk_cb bs (rs @ cs))"
  by (induction cs arbitrary: rs)
     (simp_all add: store_reference_mk cb_appended_def MAX_REF_COUNT_def MAX_BIT_LEN_def)

fun is_virtual :: "cell \<Rightarrow> bool" where
  "is_virtual (VirtualCell c) = True"
| "is_virtual (VirtualCellWrapper c l) = True"
| "is_virtual c = False"

lemma reference_cloned_plain: "\<not> is_virtual c \<Longrightarrow> reference_cloned c = reference c"
  by (cases c) (auto simp: fun_eq_iff)

lemma wf_cell_not_virtual: "wf_cell c \<Longrightarrow> \<not> is_virtual c"
  by (cases c) auto

lemma iter_cloned_plain:
  "\<not> is_virtual c \<Longrightarrow> (\<And>j. i \<le> j \<Longrightarrow> j < i + n \<Longrightarrow> reference c j \<noteq> None) \<Longrightarrow>
    iter_cloned c i n = map (\<lambda>j. the (reference c j)) [i..<i + n]"
proof (induction n arbitrary: i)
  case (Suc n)
  then obtain r where "reference c i = Some r" by (metis add_Suc_right le_refl less_add_Suc1 not_None_eq)
  with Suc.prems Suc.IH [of "i + 1"] show ?case
    by (simp add: reference_cloned_plain upt_conv_Cons del: upt_Suc)
qed simp

lemma slice_references_cloned_eq:
  assumes "wf_slice s" "\<not> is_virtual (sl_cell s)"
  shows "slice_references_cloned s = slice_refs s"
proof -
  have e: "refs_start (sl_range s) + size_refs s = refs_end (sl_range s)"
    using wf_sliceD(5) [OF assms(1)] by (simp add: size_refs_eq)
  show ?thesis
    unfolding slice_references_cloned_def slice_refs_def
    by (subst iter_cloned_plain)
       (use assms(2) e wf_slice_reference [OF assms(1)] in \<open>auto simp: e\<close>)
qed

lemma store_slice_mk:
  assumes "length bs \<le> 1023" "length rs \<le> 4" "wf_slice s" "\<not> is_virtual (sl_cell s)"
  shows "store_slice (mk_cb bs rs) s = cb_appended bs rs (slice_bits s) (slice_refs s)"
proof -
  have n: "size_bits s \<le> 1023" by (rule wf_sliceD [OF assms(3)])
  have i: "on_inner (\<lambda>d. store_slice_data d s) (mk_cb bs rs) = cb_appended bs rs (slice_bits s) []"
    using assms by (intro on_inner_mk) simp_all
  have m: "bd_bit_len (cb_inner (mk_cb bs rs)) = length bs" "cb_references (mk_cb bs rs) = rs"
    by (simp_all add: mk_cb_def)
  show ?thesis
    unfolding store_slice_def i m slice_references_cloned_eq [OF assms(3,4)]
    using assms n by (simp add: cb_appended_def MAX_BIT_LEN_def MAX_REF_COUNT_def store_references_mk)
qed

lemma store_builder_mk:
  assumes "length bs \<le> 1023" "length rs \<le> 4" "length bs' \<le> 1023"
  shows "store_builder (mk_cb bs rs) (mk_cb bs' rs') = cb_appended bs rs bs' rs'"
proof -
  have r: "raw_bits (pad128 bs') (length bs') = bs'"
    using assms(3) by (intro nth_equalityI) (auto simp: raw_bits_fit length_pad128 nbit_pad128)
  have i: "on_inner (\<lambda>d. store_raw d (pad128 bs') (length bs')) (mk_cb bs rs) = cb_appended bs rs bs' []"
    using assms by (intro on_inner_mk) (simp_all add: store_raw_mk length_pad128 r)
  have m: "bd_bit_len (cb_inner (mk_cb xs ys)) = length xs" "cb_references (mk_cb xs ys) = ys"
    "bd_data (cb_inner (mk_cb xs ys)) = pad128 xs" for xs ys
    by (simp_all add: mk_cb_def)
  show ?thesis
    unfolding store_builder_def m i
    using assms by (simp add: cb_appended_def MAX_BIT_LEN_def MAX_REF_COUNT_def store_references_mk)
qed

section \<open>Building\<close>

text \<open>The data of a cell: the bits, followed by the completion tag when they do not fill a byte.\<close>

definition tagged :: "bool list \<Rightarrow> byte list" where
  "tagged bs = pack_bits (if length bs mod 8 = 0 then bs else bs @ [True])"

lemma div_ceil8_tag: "n mod 8 \<noteq> 0 \<Longrightarrow> div_ceil8 (Suc n) = div_ceil8 n"
proof (rule split_index8 [of n])
  fix q j assume "n mod 8 \<noteq> 0" "n = 8 * q + j" "j < 8" "n mod 8 = j"
  moreover from this have "(8 * q + (j + 8)) div 8 = q + 1" "(8 * q + (j + 7)) div 8 = q + 1" by simp_all
  ultimately show ?thesis by (simp add: div_ceil8_def add.assoc)
qed

lemma length_tagged [simp]: "length (tagged bs) = div_ceil8 (length bs)"
  by (simp add: tagged_def div_ceil8_tag)

lemma bits_range_tagged [simp]: "bits_range (tagged bs) 0 (length bs) = bs"
proof (cases "length bs mod 8 = 0")
  case False
  have "take (length bs) (bits_range (pack_bits (bs @ [True])) 0 (length (bs @ [True]))) = bs"
    unfolding bits_range_pack_bits by simp
  then show ?thesis using False by (simp add: tagged_def take_bits_range)
qed (simp add: tagged_def)

lemma tagged_inj: "tagged bs = tagged bs' \<Longrightarrow> length bs = length bs' \<Longrightarrow> bs = bs'"
  by (metis bits_range_tagged)

lemma add_tag_pad128:
  assumes "length bs \<le> 1023"
  shows "take (min (div_ceil8 (length bs)) 128) (add_tag (pad128 bs) (length bs)) = tagged bs"
proof -
  obtain q j where l: "length bs = 8 * q + j" "j < 8" "length bs div 8 = q" "length bs mod 8 = j" "q < 128"
    using assms by (rule bit_len_split)
  have c: "div_ceil8 (length bs) \<le> 128" using assms by (simp add: div_ceil8_le_iff)
  have la: "length (add_tag (pad128 bs) (length bs)) = 128"
    using assms by (simp add: add_tag_def Let_def length_pad128)
  show ?thesis
  proof (cases "j = 0")
    case True
    then show ?thesis
      using l c by (simp add: add_tag_def tagged_def pad128_def min_def)
  next
    case False
    let ?t = "push_bit (7 - j) 1 :: byte"
    have m: "bit (NOT (?t - 1)) (7 - k) \<longleftrightarrow> k \<le> j" if "k < 8" for k
    proof -
      have "\<not> 7 - k < 7 - j \<longleftrightarrow> k \<le> j" using that l(2) by auto
      then show ?thesis unfolding low_mask by (auto simp: bit_not_iff bit_mask_iff)
    qed
    have "nbit (add_tag (pad128 bs) (length bs)) i \<longleftrightarrow> i < length bs \<and> bs ! i \<or> i = length bs"
      if i: "i < 8 * div_ceil8 (length bs)" for i
    proof -
      have i1024: "i < 1024" using i c by linarith
      have d: "div_ceil8 (length bs) = q + 1" using l False by (simp add: div_ceil8_def)
      have "nbit (add_tag (pad128 bs) (length bs)) i =
          (if 8 * q \<le> i \<and> i < 8 * q + 8
           then bit (pad128 bs ! q AND NOT (?t - 1) OR ?t) (7 - (i - 8 * q)) else nbit (pad128 bs) i)"
        using False l(5) assms unfolding add_tag_def Let_def l(3,4)
        by (simp add: nbit_set length_pad128)
      also have "\<dots> \<longleftrightarrow> i < length bs \<and> bs ! i \<or> i = length bs"
      proof (cases "8 * q \<le> i")
        case True
        then have k: "i - 8 * q < 8" "i < 8 * q + 8" using i d by auto
        have "bit (pad128 bs ! q) (7 - (i - 8 * q)) \<longleftrightarrow> i < length bs \<and> bs ! i"
          using nbit_in_byte [OF True k(2), of "pad128 bs"] nbit_pad128 [OF _ i1024, of bs] assms by simp
        moreover have "bit ?t (7 - (i - 8 * q)) \<longleftrightarrow> i = length bs"
          using True k l(1,2) by (auto simp: bit_simps)
        ultimately show ?thesis
          using True k m [OF k(1)] l(1,2) by (auto simp: bit_or_iff bit_and_iff)
      next
        case False
        then show ?thesis using nbit_pad128 [OF _ i1024, of bs] assms l(1) by auto
      qed
      finally show ?thesis .
    qed
    moreover have "div_ceil8 (length bs + 1) = div_ceil8 (length bs)"
      using l(4) False div_ceil8_tag [of "length bs"] by simp
    ultimately show ?thesis
      using l False c la unfolding tagged_def
      by (auto intro!: pack_bits_eqI simp: nbit_take nth_append min_def)
  qed
qed

lemma compute_level_mask_less: "compute_level_mask rs < 8"
proof -
  have "foldl (\<lambda>m c. m OR cell_level_mask c) m rs < 8" if "m < 8" for m
    using that
    by (induction rs arbitrary: m) (simp_all add: cell_level_mask_def lm_or_less)
  then show ?thesis by (simp add: compute_level_mask_def)
qed

lemma build_parts_mk:
  assumes "length bs \<le> 1023"
  shows "build_parts (mk_cb bs rs) =
    \<lparr>cp_bit_len = length bs,
     cp_descriptor = cd_new (compute_d1 (compute_level_mask rs) False (length rs)) (compute_d2 (length bs)),
     cp_children_mask = compute_level_mask rs, cp_references = rs, cp_data = tagged bs\<rparr>"
  using assms by (simp add: build_parts_def Let_def mk_cb_def build_level_mask_def add_tag_pad128)

lemma wf_build_parts:
  assumes "length bs \<le> 1023" "length rs \<le> 4" "list_all wf_cell rs"
  shows "wf_parts (build_parts (mk_cb bs rs))"
proof -
  have "reference_count (cd_new (compute_d1 (compute_level_mask rs) False (length rs)) (compute_d2 (length bs)))
      = length rs"
    using assms(2) by (intro reference_count_compute_d1) simp
  then show ?thesis
    using assms by (simp add: build_parts_mk wf_parts_def MAX_BIT_LEN_def MAX_REF_COUNT_def cd_new_def)
qed

text \<open>\<open>holds c bs rs\<close>: \<open>c\<close> is a stored ordinary cell with the bits \<open>bs\<close> and the children \<open>rs\<close>.\<close>

definition holds :: "cell \<Rightarrow> bool list \<Rightarrow> cell list \<Rightarrow> bool" where
  "holds c bs rs \<longleftrightarrow>
     wf_cell c \<and> \<not> cell_is_exotic c \<and> cell_bits c = bs \<and> cell_children c = rs"

lemma build_ext_error:
  assumes "length bs \<le> 1023" "length rs \<le> 4" "list_all wf_cell rs"
    and "build_ext sha (mk_cb bs rs) = Err e"
  shows "e = DepthOverflow"
  using finalize_ordinary(1) [OF wf_build_parts [OF assms(1-3)]] assms compute_level_mask_less [of rs]
  by (simp add: build_ext_def build_parts_mk)

lemma build_ext_holds:
  assumes "length bs \<le> 1023" "length rs \<le> 4" "list_all wf_cell rs"
    and "build_ext sha (mk_cb bs rs) = Ok c"
  shows "holds c bs rs"
proof -
  have f: "finalize_cell sha (build_parts (mk_cb bs rs)) = Ok c" using assms(4) by (simp add: build_ext_def)
  note w = finalize_cell_wf [OF wf_build_parts [OF assms(1-3)] f]
  show ?thesis
    using w assms(1) by (simp add: holds_def cell_is_exotic_def build_parts_mk cell_bits_def)
qed

lemma build_ext_ok:
  assumes "length bs \<le> 1023" "length rs \<le> 4" "list_all wf_cell rs"
    and "D < 65535" "list_all (depth_le D) rs"
  obtains c where "build_ext sha (mk_cb bs rs) = Ok c" "holds c bs rs" "depth_le (D + 1) c"
proof -
  have "\<exists>c. finalize_cell sha (build_parts (mk_cb bs rs)) = Ok c \<and> depth_le (D + 1) c"
    using assms compute_level_mask_less [of rs]
    by (intro finalize_ordinary(2) wf_build_parts) (simp_all add: build_parts_mk)
  then show thesis
    using build_ext_holds [OF assms(1-3)] that by (auto simp: build_ext_def)
qed

lemma holds_slice:
  assumes "holds c bs rs"
  shows "slice_new c = Ok (slice_new_allow_exotic c)"
    and "wf_slice (slice_new_allow_exotic c)"
    and "slice_bits (slice_new_allow_exotic c) = bs"
    and "slice_refs (slice_new_allow_exotic c) = rs"
    and "sl_cell (slice_new_allow_exotic c) = c"
  using assms wf_cell_children(1) [of c]
  by (auto simp: holds_def slice_new_eq wf_cell_shape_ok) (simp add: slice_new_allow_exotic_def)

lemma holds_not_virtual: "holds c bs rs \<Longrightarrow> \<not> is_virtual c"
  by (auto simp: holds_def dest: wf_cell_not_virtual)

lemma holds_reference:
  assumes "holds c bs rs"
  shows "reference c i = nth_opt rs i" "reference_cloned c i = nth_opt rs i"
    "cell_reference_count c = length rs"
  using assms wf_cell_children(2,3) [of c] reference_cloned_plain [OF holds_not_virtual [OF assms]]
  by (auto simp: holds_def)

lemma holds_length: "holds c bs rs \<Longrightarrow> length bs \<le> 1023" "holds c bs rs \<Longrightarrow> length rs \<le> 4"
  using wf_cell_shape(1,3) [of c] wf_cell_children(2) [of c]
  by (auto simp: holds_def cell_bits_def MAX_BIT_LEN_def MAX_REF_COUNT_def)

text \<open>The data slice of a builder reads its bits.\<close>

lemma as_data_slice_spec:
  assumes "bd_wf b"
  shows "wf_slice (as_data_slice b)" "slice_bits (as_data_slice b) = bd_bits b"
    "slice_refs (as_data_slice b) = []" "\<not> is_virtual (sl_cell (as_data_slice b))"
proof -
  let ?c = "IntermediateDataCell (bd_data b) (bd_bit_len b)"
  have r: "reference_count (cd_new 0 (compute_d2 (bd_bit_len b))) = 0"
    by (simp add: reference_count_def cd_new_def)
  have "shape_ok ?c"
    using assms by (simp add: shape_ok_def bd_wf_def r cell_reference_count_def MAX_BIT_LEN_def div_ceil8_le_iff)
  then show "wf_slice (as_data_slice b)" by (simp add: as_data_slice_def)
  show "slice_bits (as_data_slice b) = bd_bits b"
    by (simp add: as_data_slice_def cell_bits_def bd_bits_def)
  show "slice_refs (as_data_slice b) = []"
    by (simp add: as_data_slice_def cell_refs_def cell_reference_count_def r)
  show "\<not> is_virtual (sl_cell (as_data_slice b))"
    by (simp add: as_data_slice_def slice_new_allow_exotic_def)
qed

section \<open>The data builder as a state machine\<close>

text \<open>
  \<open>store_raw\<close> reads no more bytes of the value than its length, cut to \<open>u16\<close> bits, allows: a longer
  value is the same as its first bytes.
\<close>

lemma store_raw_loop_cong:
  "(\<And>j. i \<le> j \<Longrightarrow> j < i + n \<Longrightarrow> v ! j = w ! j) \<Longrightarrow> store_raw_loop d v q r i n = store_raw_loop d w q r i n"
  by (induction d v q r i n rule: store_raw_loop.induct) simp_all

lemma store_raw_take: "store_raw b v n = store_raw b (take (raw_max_bit_len v div 8) v) n"
proof -
  define k where "k = raw_max_bit_len v div 8"
  have "raw_max_bit_len v = 8 * (length v mod 8192)"
    using mod_mult_mult2 [of "length v" 8 8192] by (simp add: raw_max_bit_len_def mult.commute)
  then have k: "raw_max_bit_len v = 8 * k" "k \<le> length v" "k < 8192" by (simp_all add: k_def)
  then have m: "raw_max_bit_len (take k v) = 8 * k" by (simp add: raw_max_bit_len_def)
  let ?n = "min n (8 * k)"
  have n: "div_ceil8 ?n \<le> k" "div_ceil8 (?n + x mod 8) - 1 \<le> k" for x :: nat by (simp_all add: div_ceil8_def)
  have E: "copy_bytes d q v (div_ceil8 ?n) = copy_bytes d q (take k v) (div_ceil8 ?n)"
    "store_raw_loop d v q (x mod 8) 0 (div_ceil8 (?n + x mod 8) - 1)
      = store_raw_loop d (take k v) q (x mod 8) 0 (div_ceil8 (?n + x mod 8) - 1)"
    "j < div_ceil8 ?n \<Longrightarrow> v ! j = take k v ! j" for d q x j
    using n(1) n(2) [of x] by (auto simp: copy_bytes_def min_def intro!: store_raw_loop_cong)
  have "store_raw b v n = store_raw b (take k v) n"
    unfolding store_raw_def Let_def k(1) m E(1,2) by (simp only: E(3) cong: if_cong)
  then show ?thesis by (simp only: k_def)
qed

lemma store_raw_appended:
  assumes "length bs \<le> 1023" "small16 n"
  obtains v' where "store_raw (mk_bd bs) v n = appended bs (raw_bits v' n)"
    "prepend_raw (mk_bd bs) v n = prepend_raw (mk_bd bs) v' n" "length v' < 8192"
proof
  let ?v = "take (raw_max_bit_len v div 8) v"
  have "raw_max_bit_len v div 8 < 8192" using pos_mod_bound [of 65536 "int (8 * length v)"] by (simp add: raw_max_bit_len_def)
  then show l: "length ?v < 8192" by simp
  show "store_raw (mk_bd bs) v n = appended bs (raw_bits ?v n)"
    unfolding store_raw_take [of _ v] by (rule store_raw_mk [OF assms l])
  show "prepend_raw (mk_bd bs) v n = prepend_raw (mk_bd bs) ?v n"
    by (simp only: prepend_raw_def store_raw_take [of bd_new v n])
qed

text \<open>
  The data builder as a state machine: one step is one successful call of an operation of
  \<open>CellDataBuilder\<close> other than the writers of big integers, which are not modelled. Counts of bits that
  the caller passes are at most \<open>m\<close>; hashes have 32 bytes by their type, slices and cells are
  well-formed. The representation invariant \<open>bd_wf\<close> (128 bytes, at most 1023 bits, zeros past the
  length) is what the \<open>|=\<close> writes of the store operations rely on.
\<close>

inductive bd_step :: "nat \<Rightarrow> cell_data_builder \<Rightarrow> cell_data_builder \<Rightarrow> bool" for m where
  step_bit: "store_bit b v = Ok b' \<Longrightarrow> bd_step m b b'"
| step_zeros: "store_zeros b n = Ok b' \<Longrightarrow> n \<le> m \<Longrightarrow> bd_step m b b'"
| step_ones: "store_ones b n = Ok b' \<Longrightarrow> n \<le> m \<Longrightarrow> bd_step m b b'"
| step_u8: "store_u8 b v8 = Ok b' \<Longrightarrow> bd_step m b b'"
| step_u16: "store_u16 b v16 = Ok b' \<Longrightarrow> bd_step m b b'"
| step_u32: "store_u32 b v32 = Ok b' \<Longrightarrow> bd_step m b b'"
| step_u64: "store_u64 b v64 = Ok b' \<Longrightarrow> bd_step m b b'"
| step_u128: "store_u128 b v128 = Ok b' \<Longrightarrow> bd_step m b b'"
| step_u256: "store_u256 b h = Ok b' \<Longrightarrow> length h = 32 \<Longrightarrow> bd_step m b b'"
| step_small_uint: "store_small_uint b v8 n = Ok b' \<Longrightarrow> n \<le> m \<Longrightarrow> bd_step m b b'"
| step_uint: "store_uint b v64 n = Ok b' \<Longrightarrow> n \<le> m \<Longrightarrow> bd_step m b b'"
| step_raw: "store_raw b r n = Ok b' \<Longrightarrow> n \<le> m \<Longrightarrow> bd_step m b b'"
| step_slice_data: "store_slice_data b s = Ok b' \<Longrightarrow> wf_slice s \<Longrightarrow> bd_step m b b'"
| step_cell_data: "store_cell_data b c = Ok b' \<Longrightarrow> wf_cell c \<Longrightarrow> bd_step m b b'"
| step_prepend_raw: "prepend_raw b r n = Ok b' \<Longrightarrow> n \<le> m \<Longrightarrow> bd_step m b b'"
| step_rewind: "rewind_bits b n = Ok b' \<Longrightarrow> bd_step m b b'"
| step_clear: "bd_step m b (clear_bits b)"

inductive_cases bd_stepE: "bd_step m b b'"

inductive bd_reachable :: "nat \<Rightarrow> cell_data_builder \<Rightarrow> bool" for m where
  reach_new: "bd_reachable m bd_new"
| reach_step: "bd_reachable m b \<Longrightarrow> bd_step m b b' \<Longrightarrow> bd_reachable m b'"

lemma appended_wf: "appended bs xs = Ok b \<Longrightarrow> bd_wf b"
  by (auto simp: appended_def MAX_BIT_LEN_def split: if_splits)

lemma appended_mk: "appended bs xs = Ok b \<Longrightarrow> \<exists>cs. length cs \<le> 1023 \<and> b = mk_bd cs"
  using appended_wf bd_wf_iff by blast

lemma wf_cell_data_length: "wf_cell c \<Longrightarrow> length (cell_data c) < 8192"
  using wf_cell_shape(1,2) [of c] div_ceil8_le_iff [of "cell_bit_len c" 128] by (simp add: MAX_BIT_LEN_def)

lemma bd_step_wf:
  assumes m: "m \<le> 64512" and b: "bd_step m b b'" "bd_wf b"
  shows "bd_wf b'"
  using b
proof (induction rule: bd_step.induct)
  case (step_clear b)
  then show ?case using bd_wf_mk_bd [of "[]"] by (simp add: clear_bits_def bd_new_mk [symmetric] bd_new_def)
next
  case (step_rewind b n b')
  then obtain bs where "length bs \<le> 1023" "b = mk_bd bs" using bd_wf_iff by blast
  with step_rewind show ?case by (auto split: if_splits)
next
  case (step_prepend_raw b r n b')
  then obtain bs where bs: "length bs \<le> 1023" "b = mk_bd bs" using bd_wf_iff by blast
  have n: "n \<le> 64512" using step_prepend_raw.hyps m by simp
  obtain r' where "prepend_raw b r n = prepend_raw b r' n" "length r' < 8192"
    using store_raw_appended [OF bs(1) n, of r] unfolding bs(2) by blast
  with bs n step_prepend_raw.hyps show ?case by (auto simp: raw_bits_def split: if_splits)
next
  case (step_raw b r n b')
  then obtain bs where bs: "length bs \<le> 1023" "b = mk_bd bs" using bd_wf_iff by blast
  have "n \<le> 64512" using step_raw.hyps m by simp
  with bs store_raw_appended [OF bs(1), of n r] step_raw show ?case by (metis appended_wf)
next
  case (step_ones b n b')
  then obtain bs where "length bs \<le> 1023" "b = mk_bd bs" using bd_wf_iff by blast
  with step_ones m show ?case by (auto simp: store_ones_def store_raw_mk ALL_ONES_CELL_def intro: appended_wf)
next
  case (step_cell_data b c b')
  then obtain bs where "length bs \<le> 1023" "b = mk_bd bs" using bd_wf_iff by blast
  with step_cell_data show ?case
    by (auto simp: wf_cell_shape_ok wf_cell_data_length intro: appended_wf)
qed (use m in \<open>auto simp: bd_wf_iff dest!: appended_mk\<close>)

lemma bd_reachable_wf:
  assumes "m \<le> 64512" "bd_reachable m b"
  shows "bd_wf b"
  using assms(2) by (induction rule: bd_reachable.induct) (auto simp: bd_new_mk dest: bd_step_wf [OF assms(1)])

text \<open>Conversely every well-formed builder can be reached, bit by bit.\<close>

lemma mk_bd_reachable: "length bs \<le> 1023 \<Longrightarrow> bd_reachable m (mk_bd bs)"
proof (induction bs rule: rev_induct)
  case (snoc x bs)
  then have s: "store_bit (mk_bd bs) x = Ok (mk_bd (bs @ [x]))" and r: "bd_reachable m (mk_bd bs)"
    by (simp_all add: appended_def MAX_BIT_LEN_def)
  show ?case by (rule reach_step [OF r step_bit [OF s]])
qed (simp add: bd_new_mk [symmetric] reach_new)

text \<open>
  A longer count wraps: 64513 zeros after 1023 bits leave the length 0 and the bits in place.
\<close>

lemma wrapped_reachable:
  assumes "64512 < m"
  shows "\<exists>b. bd_reachable m b \<and> \<not> bd_wf b"
proof -
  let ?b = "mk_bd (replicate 1023 True)"
  let ?c = "?b\<lparr>bd_bit_len := 0\<rparr>"
  have "store_zeros ?b 64513 = Ok ?c" by (simp add: store_zeros_def mk_bd_def u16_add_def)
  then have "bd_reachable m ?c" using assms by (intro reach_step [OF mk_bd_reachable step_zeros [of _ 64513]]) simp_all
  moreover have "nbit (bd_data ?c) 0" by (simp add: mk_bd_def nbit_pad128)
  then have "\<not> bd_wf ?c" by (auto simp: bd_wf_def list_all_iff)
  ultimately show ?thesis by blast
qed

end
