(* ===== verification/Cell_Store.thy ===== *)
theory Cell_Store
  imports Cell_Builder_Build
begin

text \<open>
  The contract of the trait \<open>Store\<close> (\<^verbatim>\<open>src/cell/builder.rs\<close>): storing a value appends its bits and its
  references to the builder, or fails with \<open>CellOverflow\<close> when they do not fit. \<open>appends\<close> states it of
  one stored value, the locale \<open>cell_store\<close> of a type of values; sequential stores compose. The
  locale is interpreted on the implementations of the trait in the crate.
\<close>

section \<open>Stores that append\<close>

lemma cb_appended_bind:
  assumes "\<And>bs' rs'. length bs' \<le> 1023 \<Longrightarrow> length rs' \<le> 4 \<Longrightarrow> f (mk_cb bs' rs') = cb_appended bs' rs' ys ss"
  shows "ok (cb_appended bs rs xs qs) f = cb_appended bs rs (xs @ ys) (qs @ ss)"
  using assms [of "bs @ xs" "rs @ qs"]
  by (auto simp: cb_appended_def MAX_BIT_LEN_def MAX_REF_COUNT_def)

text \<open>The contract of a value that is stored in a cell: it appends bits and references.\<close>

definition appends :: "(cell_builder \<Rightarrow> cell_builder result) \<Rightarrow> bool list \<Rightarrow> cell list \<Rightarrow> bool" where
  "appends f xs ys \<longleftrightarrow> (\<forall>bs rs. length bs \<le> 1023 \<and> length rs \<le> 4 \<longrightarrow>
     f (mk_cb bs rs) = cb_appended bs rs xs ys)"

lemma appendsD: "appends f xs ys \<Longrightarrow> length bs \<le> 1023 \<Longrightarrow> length rs \<le> 4 \<Longrightarrow>
    f (mk_cb bs rs) = cb_appended bs rs xs ys"
  by (simp add: appends_def)

lemma appendsI: "(\<And>bs rs. length bs \<le> 1023 \<Longrightarrow> length rs \<le> 4 \<Longrightarrow>
    f (mk_cb bs rs) = cb_appended bs rs xs ys) \<Longrightarrow> appends f xs ys"
  by (simp add: appends_def)

lemma appends_bind:
  "appends f xs qs \<Longrightarrow> appends g ys ss \<Longrightarrow> appends (\<lambda>b. ok (f b) g) (xs @ ys) (qs @ ss)"
  by (rule appendsI) (simp add: appendsD cb_appended_bind)

lemma appends_inner:
  "(\<And>bs. length bs \<le> 1023 \<Longrightarrow> f (mk_bd bs) = appended bs xs) \<Longrightarrow> appends (on_inner f) xs []"
  by (intro appendsI on_inner_mk) auto

lemma appends_Ok: "appends Ok [] []"
  by (rule appendsI) (simp add: cb_appended_def MAX_BIT_LEN_def MAX_REF_COUNT_def)

lemmas appends_ops = appends_inner [where f = store_bit_zero, OF store_bit_zero_mk]
  appends_inner [where f = store_bit_one, OF store_bit_one_mk]

lemma appends_eq: "appends f xs ys \<Longrightarrow> xs = xs' \<Longrightarrow> ys = ys' \<Longrightarrow> appends f xs' ys'"
  by simp

lemma appends_store_uint: "n \<le> 64 \<Longrightarrow> appends (on_inner (\<lambda>d. store_uint d v n)) (word_bits n v) []"
  by (intro appends_inner) simp

lemma appends_store_slice_data: "wf_slice s \<Longrightarrow> appends (on_inner (\<lambda>d. store_slice_data d s)) (slice_bits s) []"
  by (intro appends_inner) simp

lemma appends_store_slice:
  "wf_slice s \<Longrightarrow> \<not> is_virtual (sl_cell s) \<Longrightarrow> appends (\<lambda>b. store_slice b s) (slice_bits s) (slice_refs s)"
  by (intro appendsI store_slice_mk)

lemma appends_store_builder:
  "length bs \<le> 1023 \<Longrightarrow> appends (\<lambda>b. store_builder b (mk_cb bs rs)) bs rs"
  by (intro appendsI store_builder_mk)

lemma appends_store_reference: "appends (\<lambda>b. store_reference b c) [] [c]"
  by (intro appendsI store_reference_mk)

lemma appends_store_cell_data:
  "wf_cell c \<Longrightarrow> appends (on_inner (\<lambda>d. store_cell_data d c)) (cell_bits c) []"
  using wf_cell_shape(1,2) [of c] div_ceil8_le_iff [of "cell_bit_len c" 128]
  by (intro appends_inner store_cell_data_mk) (simp_all add: wf_cell_shape_ok MAX_BIT_LEN_def)

section \<open>The trait as a locale\<close>

locale cell_store =
  fixes valid :: "'v \<Rightarrow> bool"
    and bits_of :: "'v \<Rightarrow> bool list"
    and refs_of :: "'v \<Rightarrow> cell list"
    and store :: "'v \<Rightarrow> cell_builder \<Rightarrow> cell_builder result"
  assumes store_appends: "valid v \<Longrightarrow> appends (store v) (bits_of v) (refs_of v)"
begin

lemma store_new:
  assumes "valid v" "length (bits_of v) \<le> 1023" "length (refs_of v) \<le> 4"
  shows "store v cb_new = Ok (mk_cb (bits_of v) (refs_of v))"
  using appendsD [OF store_appends [OF assms(1)], of "[]" "[]"] assms(2,3)
  by (simp add: cb_new_mk cb_appended_def MAX_BIT_LEN_def MAX_REF_COUNT_def)

lemma build_from_holds:
  assumes "valid v" "list_all wf_cell (refs_of v)" "build_from sha (store v) = Ok c"
  shows "holds c (bits_of v) (refs_of v)"
proof -
  have n: "length (bits_of v) \<le> 1023" "length (refs_of v) \<le> 4"
    using appendsD [OF store_appends [OF assms(1)], of "[]" "[]"] assms(3)
    by (auto simp: build_from_def cb_new_mk cb_appended_def MAX_BIT_LEN_def MAX_REF_COUNT_def split: if_splits)
  then show ?thesis
    using assms build_ext_holds by (simp add: build_from_def store_new)
qed

lemma option_appends:
  "(\<And>x. v = Some x \<Longrightarrow> valid x) \<Longrightarrow> appends (store_option store v)
    (case v of None \<Rightarrow> [False] | Some x \<Rightarrow> True # bits_of x)
    (case v of None \<Rightarrow> [] | Some x \<Rightarrow> refs_of x)"
  using appends_bind [OF appends_ops(2) store_appends]
  by (cases v) (auto simp: store_option_def [abs_def] appends_ops)

end

lemma appends_store_pair:
  "appends (f x) xs qs \<Longrightarrow> appends (g y) ys ss \<Longrightarrow> appends (store_pair f g (x, y)) (xs @ ys) (qs @ ss)"
  unfolding store_pair_def using appends_bind [of "f x" xs qs "g y" ys ss] by simp

interpretation slice_store: cell_store "\<lambda>s. wf_slice s \<and> \<not> is_virtual (sl_cell s)" slice_bits slice_refs
    "\<lambda>s b. store_slice b s"
  by unfold_locales (simp add: appends_store_slice)

interpretation builder_store: cell_store "\<lambda>b. cb_wf b \<and> \<not> cb_is_exotic b" "\<lambda>b. bd_bits (cb_inner b)"
    cb_references "\<lambda>v b. store_builder b v"
proof (unfold_locales, elim conjE)
  fix v assume "cb_wf v" "\<not> cb_is_exotic v"
  then obtain bs rs where v: "length bs \<le> 1023" "v = mk_cb bs rs" using cb_wf_iff by blast
  then show "appends (\<lambda>b. store_builder b v) (bd_bits (cb_inner v)) (cb_references v)"
    using appends_store_builder [of bs rs] by (simp add: mk_cb_def)
qed

interpretation reference_store: cell_store "\<lambda>_. True" "\<lambda>_. []" "\<lambda>c. [c]" "\<lambda>c b. store_reference b c"
  by unfold_locales (rule appends_store_reference)

interpretation u32_store: cell_store "\<lambda>_. True" "word_bits 32" "\<lambda>_. []" "\<lambda>v. on_inner (\<lambda>d. store_u32 d v)"
  by unfold_locales (rule appends_inner, simp)

interpretation u256_store: cell_store "\<lambda>h. length h = 32" bytes_bits "\<lambda>_. []" "\<lambda>h. on_inner (\<lambda>d. store_u256 d h)"
  by unfold_locales (rule appends_inner, simp)

end
