(* ===== verification/Dict_Label.thy ===== *)
theory Dict_Label
  imports Dict Cell_Store
begin

text \<open>
  Dictionary labels. \<open>parse_label\<close> is the grammar of a label as a function on bits (the three
  constructors \<open>hml_short\<close>, \<open>hml_long\<close>, \<open>hml_same\<close> of the TL-B scheme); \<open>read_label\<close> refines it on
  every slice, so a dictionary written with any of the encodings is read. \<open>label_bits\<close> is the shortest
  encoding; \<open>write_label\<close> and \<open>write_label_parts\<close> append it, and it parses back. The \<open>codec\<close> locale is
  the contract between the two directions.
\<close>

section \<open>The bits of a label\<close>

lemma bits_for_len_0 [simp]: "bits_for_len 0 = 0"
  by (simp add: bits_for_len_def leading_zeros_run run_len_full_iff [THEN iffD2] list_eq_iff_nth_eq)

lemma bits_for_len_less:
  assumes "n < 65536"
  shows "n < 2 ^ bits_for_len n"
  using unat_less_leading_zeros [of "of_nat n :: 16 word"] assms
  by (simp add: bits_for_len_def unat_of_nat)

lemma bits_for_len_le: "bits_for_len n \<le> 16"
  by (simp add: bits_for_len_def)

lemma bits_for_len_pos: "0 < n \<Longrightarrow> n < 65536 \<Longrightarrow> 0 < bits_for_len n"
  using bits_for_len_less [of n] by (cases "bits_for_len n") auto

lemma bits_for_len_small:
  assumes "n < 2 ^ k" "k \<le> 16"
  shows "bits_for_len n \<le> k"
proof -
  have "(2::nat) ^ k \<le> 2 ^ 16" using assms(2) by (intro power_increasing) auto
  then show ?thesis
    using leading_zeros_ge [of "of_nat n :: 16 word" k] assms by (simp add: bits_for_len_def unat_of_nat)
qed

text \<open>The longest key whose labels always fit.\<close>

definition MAX_KEY_LEN :: nat where "MAX_KEY_LEN = 1011"

fun is_uniform :: "bool list \<Rightarrow> bool" where
  "is_uniform [] \<longleftrightarrow> False"
| "is_uniform (x # xs) \<longleftrightarrow> list_all ((=) x) xs"

definition label_bits :: "nat \<Rightarrow> bool list \<Rightarrow> bool list" where
  "label_bits n bs =
    (if n = 0 \<or> bs = [] then [False, False]
     else
       let k = bits_for_len n; m = length bs
       in if 3 + k < 2 + k + m \<and> 3 + k < 2 + 2 * m \<and> is_uniform bs
          then [True, True, hd bs] @ word_bits k (of_nat m :: 64 word)
          else if 2 + 2 * m \<le> 2 + k + m then False # replicate m True @ [False] @ bs
          else [True, False] @ word_bits k (of_nat m :: 64 word) @ bs)"

definition split_at :: "nat \<Rightarrow> 'a list \<Rightarrow> ('a list \<times> 'a list) option" where
  "split_at n xs = (if n \<le> length xs then Some (take n xs, drop n xs) else None)"

definition parse_len :: "nat \<Rightarrow> bool list \<Rightarrow> (nat \<times> bool list) option" where
  "parse_len k xs =
    (case split_at k xs of None \<Rightarrow> None | Some (a, r) \<Rightarrow> Some (unat (word_of_bits a :: 64 word), r))"

fun parse_label :: "nat \<Rightarrow> bool list \<Rightarrow> (bool list \<times> bool list) option" where
  "parse_label n [] = (if n = 0 then Some ([], []) else None)"
| "parse_label n (False # xs) =
     (let m = run_len True xs
      in if m < length xs then split_at m (drop (m + 1) xs) else None)"
| "parse_label n [True] = None"
| "parse_label n (True # False # xs) =
     (case parse_len (bits_for_len n) xs of None \<Rightarrow> None | Some (m, r) \<Rightarrow> split_at m r)"
| "parse_label n [True, True] = None"
| "parse_label n (True # True # b # xs) =
     (case parse_len (bits_for_len n) xs of None \<Rightarrow> None
      | Some (m, r) \<Rightarrow> Some (replicate (min m 1023) b, r))"

lemma run_len_replicate: "run_len True (replicate m True @ False # xs) = m"
  by (induction m) simp_all

lemma is_uniform_replicate: "is_uniform bs \<Longrightarrow> replicate (length bs) (hd bs) = bs"
proof (cases bs)
  case (Cons x xs)
  moreover assume "is_uniform bs"
  ultimately have "xs = replicate (length xs) x"
    by (intro replicate_eqI) (auto simp: list_all_iff)
  then show ?thesis using Cons by (metis length_Cons list.sel(1) replicate_Suc)
qed simp

lemma split_at_append [simp]: "split_at (length xs) (xs @ ys) = Some (xs, ys)"
  by (simp add: split_at_def)

lemma split_at_zero [simp]: "split_at 0 xs = Some ([], xs)"
  by (simp add: split_at_def)

lemma parse_len_word:
  assumes "m < 2 ^ k" "k \<le> 16"
  shows "parse_len k (word_bits k (of_nat m :: 64 word) @ r) = Some (m, r)"
proof -
  let ?w = "of_nat m :: 64 word"
  have "(2::nat) ^ k \<le> 2 ^ 16" using assms(2) by (intro power_increasing) auto
  then have "m < 65536" using assms(1) by simp
  then have u: "unat ?w = m" by (simp add: unat_of_nat)
  then have "unat (take_bit k ?w) = m"
    using assms(1) by (simp add: unsigned_take_bit_eq take_bit_nat_eq_self)
  moreover have "word_of_bits (word_bits k ?w) = take_bit k ?w"
    by (rule bit_word_eqI) (use assms(2) in \<open>auto simp: bit_simps\<close>)
  ultimately show ?thesis
    using split_at_append [of "word_bits k ?w" r] by (simp add: parse_len_def)
qed

lemma label_bits_cases:
  assumes "n \<noteq> 0" "bs \<noteq> []"
  obtains (same) "is_uniform bs" "3 + bits_for_len n < 2 + bits_for_len n + length bs"
      "3 + bits_for_len n < 2 + 2 * length bs"
      "label_bits n bs = [True, True, hd bs] @ word_bits (bits_for_len n) (of_nat (length bs) :: 64 word)"
  | (short) "\<not> (3 + bits_for_len n < 2 + bits_for_len n + length bs
        \<and> 3 + bits_for_len n < 2 + 2 * length bs \<and> is_uniform bs)"
      "2 + 2 * length bs \<le> 2 + bits_for_len n + length bs"
      "label_bits n bs = False # replicate (length bs) True @ [False] @ bs"
  | (long) "\<not> (3 + bits_for_len n < 2 + bits_for_len n + length bs
        \<and> 3 + bits_for_len n < 2 + 2 * length bs \<and> is_uniform bs)"
      "\<not> 2 + 2 * length bs \<le> 2 + bits_for_len n + length bs"
      "label_bits n bs = [True, False] @ word_bits (bits_for_len n) (of_nat (length bs) :: 64 word) @ bs"
proof -
  have z: "\<not> (n = 0 \<or> bs = [])" using assms by simp
  let ?k = "bits_for_len n" and ?m = "length bs"
  let ?c = "3 + ?k < 2 + ?k + ?m \<and> 3 + ?k < 2 + 2 * ?m \<and> is_uniform bs"
  have l: "label_bits n bs = (if ?c then [True, True, hd bs] @ word_bits ?k (of_nat ?m :: 64 word)
      else if 2 + 2 * ?m \<le> 2 + ?k + ?m then False # replicate ?m True @ [False] @ bs
      else [True, False] @ word_bits ?k (of_nat ?m :: 64 word) @ bs)"
    unfolding label_bits_def if_not_P [OF z] Let_def by (rule refl)
  show thesis
  proof (cases ?c)
    case True
    show thesis
    proof (rule same)
      show "label_bits n bs = [True, True, hd bs] @ word_bits ?k (of_nat ?m :: 64 word)"
        by (simp only: l if_P [OF True])
    qed (use True in blast)+
  next
    case False
    note l' = l [unfolded if_not_P [OF False]]
    show thesis
    proof (cases "2 + 2 * ?m \<le> 2 + ?k + ?m")
      case True
      show thesis by (rule short [OF False True]) (simp only: l' if_P [OF True])
    next
      case m: False
      show thesis by (rule long [OF False m]) (simp only: l' if_not_P [OF m])
    qed
  qed
qed

lemma parse_label_bits:
  assumes "length bs \<le> n" "n \<le> MAX_KEY_LEN"
  shows "parse_label n (label_bits n bs @ r) = Some (bs, r)"
proof (cases "n = 0 \<or> bs = []")
  case True
  then show ?thesis using assms by (auto simp: label_bits_def)
next
  case False
  have k: "length bs < 2 ^ bits_for_len n" "bits_for_len n \<le> 16" "length bs \<le> 1023"
    using assms bits_for_len_less [of n] bits_for_len_le [of n] by (auto simp: MAX_KEY_LEN_def)
  note pl = parse_len_word [OF k(1,2)]
  from False have "n \<noteq> 0" "bs \<noteq> []" by auto
  then show ?thesis
  proof (cases rule: label_bits_cases)
    case same
    then have "replicate (min (length bs) 1023) (hd bs) = bs"
      using k(3) is_uniform_replicate [of bs] by (simp add: min_def)
    then show ?thesis using same pl by simp
  next
    case short
    then show ?thesis by (simp add: Let_def run_len_replicate)
  next
    case long
    then show ?thesis using pl by simp
  qed
qed

section \<open>Writing labels\<close>

lemma appends_store_u32_max: "appends (store_u32_max n) (replicate (32 * n) True) []"
proof (induction n)
  case (Suc n)
  have "word_bits 32 (- 1 :: 32 word) = replicate 32 True"
    by (rule nth_equalityI) auto
  then have "appends (on_inner (\<lambda>d. store_u32 d (- 1))) (replicate 32 True) []"
    by (intro appends_inner) simp
  from appends_bind [OF this Suc.IH] show ?case
    by (simp add: replicate_add [symmetric] add.commute)
qed (simp add: appends_Ok)

lemma appends_write_hml_short_tag:
  assumes "len \<le> 64512"
  shows "appends (write_hml_short_tag len) (False # replicate len True @ [False]) []"
proof -
  have w: "word_bits r (- 1 :: 64 word) = replicate r True" if "r \<le> 64" for r
    by (rule nth_equalityI) (use that in auto)
  have r: "appends (\<lambda>label. if r \<noteq> 0 then on_inner (\<lambda>d. store_uint d (- 1) r) label else Ok label)
      (replicate r True) []" if "r < 32" for r
  proof (cases "r = 0")
    case False
    have "appends (on_inner (\<lambda>d. store_uint d (- 1) r)) (replicate r True) []"
      using that w [of r] by (intro appends_inner) simp
    then show ?thesis using False by simp
  qed (simp add: appends_Ok)
  have "replicate (32 * (len div 32)) True @ replicate (len mod 32) True = replicate len True"
    by (simp add: replicate_add [symmetric])
  moreover have "appends (write_hml_short_tag len)
      ([False] @ replicate (32 * (len div 32)) True @ replicate (len mod 32) True @ [False])
      ([] @ [] @ [] @ [])"
    unfolding write_hml_short_tag_def Let_def
    by (intro appends_bind appends_ops appends_store_u32_max r) simp_all
  ultimately show ?thesis by (simp add: append.assoc [symmetric] del: append_assoc)
qed

lemma appends_write_hml_long_tag:
  "k \<le> 16 \<Longrightarrow> appends (write_hml_long_tag len k) ([True, False] @ word_bits k (of_nat len :: 64 word)) []"
  unfolding write_hml_long_tag_def
  using appends_bind [OF appends_ops(2) appends_bind [OF appends_ops(1) appends_store_uint [of k "of_nat len"]]]
  by simp

lemma appends_write_hml_same:
  "k \<le> 16 \<Longrightarrow> appends (write_hml_same b len k) ([True, True, b] @ word_bits k (of_nat len :: 64 word)) []"
proof -
  assume k: "k \<le> 16"
  have "word_bits 3 (0b110 OR of_bool b :: byte) = [True, True, b]"
    by (cases b) (simp_all add: word_bits_def upt_rec numeral_eq_Suc)
  then have "appends (on_inner (\<lambda>d. store_small_uint d (0b110 OR of_bool b) 3)) [True, True, b] []"
    by (intro appends_inner) simp
  from appends_bind [OF this appends_store_uint [of k "of_nat len"]] k show ?thesis
    unfolding write_hml_same_def by simp
qed

lemma test_uniform_is_uniform:
  assumes "wf_slice s"
  shows "test_uniform s = (if is_uniform (slice_bits s) then Some (hd (slice_bits s)) else None)"
proof -
  have "slice_bits s \<noteq> [] \<and> slice_bits s = replicate (size_bits s) (hd (slice_bits s))
      \<longleftrightarrow> is_uniform (slice_bits s)"
  proof
    assume a: "slice_bits s \<noteq> [] \<and> slice_bits s = replicate (size_bits s) (hd (slice_bits s))"
    then obtain x xs where x: "slice_bits s = x # xs" by (cases "slice_bits s") auto
    then have "xs = replicate (length xs) x"
      using a length_slice_bits [of s] by (metis length_Cons list.inject list.sel(1) replicate_Suc)
    then have "list_all ((=) x) xs" by (metis (full_types) in_set_replicate list_all_iff)
    then show "is_uniform (slice_bits s)" using x by simp
  next
    assume u: "is_uniform (slice_bits s)"
    then show "slice_bits s \<noteq> [] \<and> slice_bits s = replicate (size_bits s) (hd (slice_bits s))"
      using is_uniform_replicate [OF u] by auto
  qed
  from if_cong [OF this refl refl] show ?thesis unfolding test_uniform_spec [OF assms] .
qed

text \<open>For keys of at most \<open>MAX_KEY_LEN\<close> bits every label fits into a cell, so a label is never \<open>InvalidData\<close>.\<close>

lemma label_fits:
  assumes "m \<le> n" "n \<le> MAX_KEY_LEN"
  shows "2 + bits_for_len n + m \<le> MAX_BIT_LEN"
  using assms bits_for_len_small [of n 10] by (simp add: MAX_KEY_LEN_def MAX_BIT_LEN_def)

lemma appends_write_label:
  assumes "wf_slice key" "size_bits key \<le> n" "n \<le> MAX_KEY_LEN"
  shows "appends (write_label key n) (label_bits n (slice_bits key)) []"
proof (cases "n = 0 \<or> slice_bits key = []")
  case True
  have "appends write_hml_empty [False, False] []"
    unfolding write_hml_empty_def by (intro appends_inner) (simp add: numeral_2_eq_2)
  then show ?thesis
    using True by (auto simp: appends_def write_label_def is_data_empty_iff label_bits_def)
next
  case False
  let ?k = "bits_for_len n" and ?bs = "slice_bits key"
  have k: "?k \<le> 16" "?k \<le> 10" by (simp_all add: bits_for_len_le)
     (use bits_for_len_small [of n 10] assms(3) in \<open>simp add: MAX_KEY_LEN_def\<close>)
  have m: "size_bits key \<le> 1023" "2 + ?k + size_bits key \<le> MAX_BIT_LEN"
    using assms label_fits [of "size_bits key" n] wf_sliceD(7) [of key] by auto
  note wl = write_label_def [of key n, unfolded is_data_empty_iff if_not_P [OF False] Let_def
    test_uniform_is_uniform [OF assms(1)]]
  from False have "n \<noteq> 0" "?bs \<noteq> []" by auto
  then show ?thesis
  proof (cases rule: label_bits_cases)
    case same
    then show ?thesis
      unfolding same(4) using appends_write_hml_same [OF k(1), of "hd ?bs" "size_bits key"]
      by (simp add: appends_def wl)
  next
    case short
    then have w: "write_label key n = (\<lambda>label. ok (write_hml_short_tag (size_bits key) label)
        (on_inner (\<lambda>d. store_slice_data d key)))"
      using m by (auto simp: wl fun_eq_iff MAX_BIT_LEN_def)
    have "appends (write_hml_short_tag (size_bits key)) (False # replicate (size_bits key) True @ [False]) []"
      using m by (intro appends_write_hml_short_tag) simp
    from appends_bind [OF this appends_store_slice_data [OF assms(1)]] show ?thesis
      unfolding w short(3) by simp
  next
    case long
    then have w: "write_label key n = (\<lambda>label. ok (write_hml_long_tag (size_bits key) ?k label)
        (on_inner (\<lambda>d. store_slice_data d key)))"
      using m by (auto simp: wl fun_eq_iff MAX_BIT_LEN_def)
    from appends_bind [OF appends_write_hml_long_tag [OF k(1)] appends_store_slice_data [OF assms(1)]]
    show ?thesis unfolding w long(3) by simp
  qed
qed

lemma is_uniform_parts:
  "is_uniform (xs @ b # ys) \<and> hd (xs @ b # ys) = b \<longleftrightarrow>
    (xs = [] \<or> is_uniform xs \<and> hd xs = b) \<and> (ys = [] \<or> is_uniform ys \<and> hd ys = b)"
  by (cases xs; cases ys) (auto simp: list_all_iff)

lemma is_uniform_hd: "is_uniform (xs @ b # ys) \<Longrightarrow> hd (xs @ b # ys) = b"
  by (cases xs) auto

lemma appends_write_label_parts:
  assumes "wf_slice pfx" "wf_slice rem" "size_bits pfx + 1 + size_bits rem \<le> n" "n \<le> MAX_KEY_LEN"
  shows "appends (write_label_parts pfx b rem n) (label_bits n (slice_bits pfx @ b # slice_bits rem)) []"
proof -
  let ?k = "bits_for_len n" and ?bs = "slice_bits pfx @ b # slice_bits rem"
  let ?m = "size_bits pfx + 1 + size_bits rem"
  have n: "n \<noteq> 0" "?bs \<noteq> []" "length ?bs = ?m" using assms(3) by auto
  have k: "?k \<le> 16" "?k \<le> 10" by (simp_all add: bits_for_len_le)
     (use bits_for_len_small [of n 10] assms(4) in \<open>simp add: MAX_KEY_LEN_def\<close>)
  have m: "?m \<le> 1023" "2 + ?k + ?m \<le> MAX_BIT_LEN"
    using assms label_fits [of ?m n] by (auto simp: MAX_KEY_LEN_def)
  have u: "(slice_bits s = [] \<or> test_uniform s = Some b)
      \<longleftrightarrow> (slice_bits s = [] \<or> is_uniform (slice_bits s) \<and> hd (slice_bits s) = b)" if "wf_slice s" for s
    by (auto simp: test_uniform_is_uniform [OF that])
  have c: "(slice_bits pfx = [] \<or> test_uniform pfx = Some b) \<and> (slice_bits rem = [] \<or> test_uniform rem = Some b)
      \<longleftrightarrow> is_uniform ?bs"
    unfolding u [OF assms(1)] u [OF assms(2)] is_uniform_parts [symmetric] using is_uniform_hd by blast
  note wl = write_label_parts_def [of pfx b rem n, unfolded is_data_empty_iff Let_def c if_not_P [OF n(1)]]
  have tail: "appends (\<lambda>label. ok (on_inner (\<lambda>d. store_slice_data d pfx) label) (\<lambda>label.
      ok (on_inner (\<lambda>d. store_bit d b) label) (on_inner (\<lambda>d. store_slice_data d rem)))) ?bs []"
    using appends_bind [OF appends_store_slice_data [OF assms(1)]
        appends_bind [OF appends_inner appends_store_slice_data [OF assms(2)]], of "\<lambda>d. store_bit d b" "[b]"]
    by simp
  from n(1,2) show ?thesis
  proof (cases rule: label_bits_cases)
    case same
    then have "hd ?bs = b" using is_uniform_hd by blast
    with same show ?thesis
      unfolding same(4) using appends_write_hml_same [OF k(1), of b ?m]
      by (simp add: appends_def wl)
  next
    case short
    then have w: "write_label_parts pfx b rem n = (\<lambda>label. ok (write_hml_short_tag ?m label)
        (\<lambda>label. ok (on_inner (\<lambda>d. store_slice_data d pfx) label) (\<lambda>label.
          ok (on_inner (\<lambda>d. store_bit d b) label) (on_inner (\<lambda>d. store_slice_data d rem)))))"
      using m unfolding n(3) by (auto simp: wl fun_eq_iff MAX_BIT_LEN_def)
    have "appends (write_hml_short_tag ?m) (False # replicate ?m True @ [False]) []"
      using m by (intro appends_write_hml_short_tag) simp
    from appends_bind [OF this tail] show ?thesis
      unfolding w short(3) n(3) by (simp only: append.simps append_assoc)
  next
    case long
    then have w: "write_label_parts pfx b rem n = (\<lambda>label. ok (write_hml_long_tag ?m ?k label)
        (\<lambda>label. ok (on_inner (\<lambda>d. store_slice_data d pfx) label) (\<lambda>label.
          ok (on_inner (\<lambda>d. store_bit d b) label) (on_inner (\<lambda>d. store_slice_data d rem)))))"
      using m unfolding n(3) by (auto simp: wl fun_eq_iff MAX_BIT_LEN_def)
    from appends_bind [OF appends_write_hml_long_tag [OF k(1), of ?m] tail]
    show ?thesis unfolding w long(3) n(3) by (simp only: append.simps append_assoc)
  qed
qed

section \<open>Reading labels\<close>

lemma advance_advance: "advance (advance s a) b = advance s (a + b)"
  by (simp add: advance_def u16_add_def mod_add_left_eq add.assoc)

lemma size_bits_advance: "wf_slice s \<Longrightarrow> n \<le> size_bits s \<Longrightarrow> size_bits (advance s n) = size_bits s - n"
  using slice_bits_advance [of s n] by (metis length_drop length_slice_bits)

lemma load_bit_Cons:
  "wf_slice s \<Longrightarrow> slice_bits s = x # xs \<Longrightarrow> load_bit s = Ok (x, advance s 1)"
  by (simp add: load_bit_spec)

lemma load_bit_Nil: "wf_slice s \<Longrightarrow> slice_bits s = [] \<Longrightarrow> load_bit s = Err CellUnderflow"
  by (simp add: load_bit_spec)

lemma advance_Cons:
  assumes "wf_slice s" "slice_bits s = x # xs"
  shows "wf_slice (advance s 1)" "slice_bits (advance s 1) = xs"
proof -
  have "1 \<le> size_bits s" using assms(2) length_slice_bits [of s] by simp
  then show "wf_slice (advance s 1)" "slice_bits (advance s 1) = xs"
    using assms by (simp_all add: wf_advance slice_bits_advance)
qed

lemma read_hml_short_loop_spec:
  "wf_slice s \<Longrightarrow> size_bits s < fuel \<Longrightarrow> read_hml_short_loop fuel len s =
    (let m = run_len True (slice_bits s)
     in if m < size_bits s then Ok (len + m, advance s (m + 1)) else Err CellUnderflow)"
proof (induction fuel arbitrary: len s)
  case (Suc fuel)
  show ?case
  proof (cases "slice_bits s")
    case Nil
    then have "size_bits s = 0" using length_slice_bits [of s] by simp
    then show ?thesis using Nil Suc.prems by (simp add: load_bit_Nil)
  next
    case (Cons x xs)
    note a = advance_Cons [OF Suc.prems(1) Cons]
    have l: "size_bits s = Suc (length xs)" "size_bits (advance s 1) = length xs"
      using Cons a(2) length_slice_bits [of s] length_slice_bits [of "advance s 1"] by simp_all
    show ?thesis
    proof (cases x)
      case True
      have "read_hml_short_loop fuel (len + 1) (advance s 1) =
          (let m = run_len True xs
           in if m < length xs then Ok (len + 1 + m, advance (advance s 1) (m + 1)) else Err CellUnderflow)"
        using Suc.IH [OF a(1), of "len + 1"] Suc.prems(2) l unfolding a(2) by (simp add: Let_def)
      then show ?thesis
        using Cons True l Suc.prems(1)
        by (simp add: load_bit_Cons Let_def advance_advance plus_1_eq_Suc del: One_nat_def)
    next
      case False
      then show ?thesis using Cons l Suc.prems(1) by (simp add: load_bit_Cons)
    qed
  qed
qed simp

text \<open>Taking \<open>m\<close> bits off the front of a slice.\<close>

lemma take_prefix_spec:
  assumes "wf_slice s" "m \<le> 1023"
  shows "ok (skip_first s m 0) (\<lambda>s'. Ok (get_prefix s m 0, s')) =
    (if m \<le> size_bits s then Ok (get_prefix s m 0, advance s m) else Err CellUnderflow)"
  using assms by (simp add: skip_first_advance)

lemma load_uint_len:
  assumes "wf_slice s" "k \<le> 16"
  shows "case parse_len k (slice_bits s) of
      None \<Rightarrow> load_uint s k = Err CellUnderflow
    | Some (m, r) \<Rightarrow> m < 2 ^ k \<and> k \<le> size_bits s \<and> r = slice_bits (advance s k)
        \<and> (\<exists>v. load_uint s k = Ok (v, advance s k) \<and> unat v = m)"
proof (cases "k \<le> size_bits s")
  case True
  let ?v = "word_of_bits (take k (slice_bits s)) :: 64 word"
  have "get_uint s 0 k = Ok ?v"
    using True assms by (cases "k = 0") (simp_all add: get_uint_spec word_of_bits_def)
  moreover have "unat ?v < 2 ^ k"
  proof -
    have "take_bit k ?v = ?v"
      by (rule bit_word_eqI) (use True in \<open>auto simp: bit_simps\<close>)
    then show ?thesis by (metis take_bit_nat_less_exp unsigned_take_bit_eq)
  qed
  ultimately show ?thesis
    using True assms by (simp add: parse_len_def split_at_def load_uint_def load_with_def slice_bits_advance)
next
  case False
  then have "k \<noteq> 0" by auto
  then show ?thesis
    using False assms by (simp add: parse_len_def split_at_def load_uint_def load_with_def get_uint_spec)
qed

text \<open>
  \<open>label_result s p r\<close>: reading from \<open>s\<close> gave what the parse result \<open>p\<close> says: the label as a
  well-formed slice, and the slice advanced past it.
\<close>

definition label_result :: "cell_slice \<Rightarrow> (bool list \<times> bool list) option
    \<Rightarrow> (cell_slice \<times> cell_slice) result \<Rightarrow> bool" where
  "label_result s p r \<longleftrightarrow>
    (case p of None \<Rightarrow> r = Err CellUnderflow
     | Some (lab, rest) \<Rightarrow> (\<exists>l k. r = Ok (l, advance s k) \<and> wf_slice l \<and> slice_bits l = lab
         \<and> k \<le> size_bits s \<and> drop k (slice_bits s) = rest))"

lemma label_result_advance:
  assumes "wf_slice s" "j \<le> size_bits s" "label_result (advance s j) p r"
  shows "label_result s p r"
proof (cases p)
  case None
  then show ?thesis using assms(3) by (simp add: label_result_def)
next
  case (Some x)
  obtain lab rest where x: "x = (lab, rest)" by (cases x)
  obtain l k where "r = Ok (l, advance (advance s j) k)" "wf_slice l" "slice_bits l = lab"
    "k \<le> size_bits (advance s j)" "drop k (slice_bits (advance s j)) = rest"
    using assms(3) by (auto simp: label_result_def Some x)
  then show ?thesis
    using assms(1,2) by (auto simp: label_result_def Some x advance_advance size_bits_advance
        slice_bits_advance add.commute intro!: exI [of _ "j + k"])
qed

lemma label_result_prefix:
  assumes "wf_slice s" "m \<le> 1023"
  shows "label_result s (split_at m (slice_bits s))
    (ok (skip_first s m 0) (\<lambda>s'. Ok (get_prefix s m 0, s')))"
  using assms get_prefix_spec [OF assms(1), of m 0]
  by (auto simp: take_prefix_spec split_at_def label_result_def)

lemma read_hml_short_spec:
  assumes "wf_slice s"
  shows "label_result s
    (let m = run_len True (slice_bits s)
     in if m < size_bits s then split_at m (drop (m + 1) (slice_bits s)) else None) (read_hml_short s)"
proof -
  let ?m = "run_len True (slice_bits s)"
  note r = read_hml_short_loop_spec [OF assms, of "size_bits s + 1" 0]
  show ?thesis
  proof (cases "?m < size_bits s")
    case True
    then have m: "?m + 1 \<le> size_bits s" "?m \<le> 1023" using wf_sliceD(7) [OF assms] by auto
    have "read_hml_short s = ok (skip_first (advance s (?m + 1)) ?m 0)
        (\<lambda>s'. Ok (get_prefix (advance s (?m + 1)) ?m 0, s'))"
      unfolding read_hml_short_def using r True by (simp add: Let_def del: read_hml_short_loop.simps)
    with label_result_advance [OF assms m(1) label_result_prefix [OF wf_advance [OF assms m(1)] m(2)]] True
    show ?thesis by (simp add: Let_def slice_bits_advance [OF assms m(1), simplified])
  next
    case False
    then show ?thesis
      using r by (simp add: read_hml_short_def label_result_def Let_def del: read_hml_short_loop.simps)
  qed
qed

lemma read_hml_long_spec:
  assumes "wf_slice s" "k \<le> 10"
  shows "label_result s
    (case parse_len k (slice_bits s) of None \<Rightarrow> None | Some (m, r) \<Rightarrow> split_at m r) (read_hml_long s k)"
proof -
  have k: "k \<le> 16" "(2::nat) ^ k \<le> 2 ^ 10" using assms(2) power_increasing [of k 10 "2::nat"] by simp_all
  note u = load_uint_len [OF assms(1) k(1)]
  show ?thesis
  proof (cases "parse_len k (slice_bits s)")
    case None
    then show ?thesis using u by (simp add: read_hml_long_def label_result_def)
  next
    case (Some x)
    obtain m r where x: "x = (m, r)" by (cases x)
    obtain v where m: "m < 2 ^ k" "k \<le> size_bits s" "r = slice_bits (advance s k)"
      "load_uint s k = Ok (v, advance s k)" "unat v = m"
      using u by (auto simp: Some x)
    then have m': "m \<le> 1023" using k(2) by simp
    have "read_hml_long s k = ok (skip_first (advance s k) m 0)
        (\<lambda>s'. Ok (get_prefix (advance s k) m 0, s'))"
      using m m' by (simp add: read_hml_long_def)
    with label_result_prefix [OF wf_advance [OF assms(1) m(2)] m'] show ?thesis
      using label_result_advance [OF assms(1) m(2)] by (simp add: Some x m(3))
  qed
qed

lemma static_cells:
  "shape_ok (if b then ALL_ONES_CELL else ALL_ZEROS_CELL)"
  "cell_bits (if b then ALL_ONES_CELL else ALL_ZEROS_CELL) = replicate 1023 b"
proof -
  have b1: "nbit (replicate 128 0xff) i" if "i < 1024" for i
    using that by (simp add: nbit_def less_mult_imp_div_less ones8)
  have b0: "\<not> nbit (replicate 127 0 @ [1]) i" if "i < 1023" for i
  proof (cases "i < 1016")
    case True
    then show ?thesis by (simp add: nbit_append nbit_replicate)
  next
    case False
    then have "i - 1016 < 7" using that by simp
    then have "i - 1016 < 8" "7 - (i - 1016) \<noteq> 0" by auto
    then have "\<not> nbit [1] (i - 1016)" by (simp add: nbit_def bit_1_iff)
    then show ?thesis using False by (simp add: nbit_append)
  qed
  show "shape_ok (if b then ALL_ONES_CELL else ALL_ZEROS_CELL)"
    by (simp add: shape_ok_def ALL_ONES_CELL_def ALL_ZEROS_CELL_def MAX_BIT_LEN_def div_ceil8_def
        cell_reference_count_def reference_count_def cd_new_def)
  show "cell_bits (if b then ALL_ONES_CELL else ALL_ZEROS_CELL) = replicate 1023 b"
    by (rule nth_equalityI)
       (use b0 b1 in \<open>auto simp: cell_bits_def ALL_ONES_CELL_def ALL_ZEROS_CELL_def\<close>)
qed

lemma read_hml_same_spec:
  assumes "wf_slice s" "k \<le> 10" "slice_bits s = b # xs"
  shows "label_result s
    (case parse_len k xs of None \<Rightarrow> None | Some (m, r) \<Rightarrow> Some (replicate (min m 1023) b, r)) (read_hml_same s k)"
proof -
  have k: "k \<le> 16" "(2::nat) ^ k \<le> 2 ^ 10" using assms(2) power_increasing [of k 10 "2::nat"] by simp_all
  note a = advance_Cons [OF assms(1,3)]
  have l: "1 \<le> size_bits s" using assms(3) length_slice_bits [of s] by simp
  note u = load_uint_len [OF a(1) k(1), unfolded a(2)]
  have "label_result (advance s 1)
    (case parse_len k xs of None \<Rightarrow> None | Some (m, r) \<Rightarrow> Some (replicate (min m 1023) b, r)) (read_hml_same s k)"
  proof (cases "parse_len k xs")
    case None
    then show ?thesis
      using u assms by (simp add: read_hml_same_def label_result_def load_bit_Cons)
  next
    case (Some x)
    let ?c = "if b then ALL_ONES_CELL else ALL_ZEROS_CELL"
    obtain m r where x: "x = (m, r)" by (cases x)
    obtain v where m: "m < 2 ^ k" "k \<le> size_bits (advance s 1)" "r = slice_bits (advance (advance s 1) k)"
      "load_uint (advance s 1) k = Ok (v, advance (advance s 1) k)" "unat v = m"
      using u by (auto simp: Some x)
    then have m': "m \<le> 1023" using k(2) by simp
    have "read_hml_same s k = Ok (get_prefix (slice_new_allow_exotic ?c) m 0, advance (advance s 1) k)"
      using m m' assms load_bit_Cons [OF assms(1,3)] by (simp add: read_hml_same_def Let_def)
    moreover have "wf_slice (slice_new_allow_exotic ?c)"
      "slice_bits (slice_new_allow_exotic ?c) = replicate 1023 b"
      using static_cells [of b] by simp_all
    ultimately show ?thesis
      using get_prefix_spec [of "slice_new_allow_exotic ?c" m 0] m m' a(1)
      by (auto simp: label_result_def Some x slice_bits_advance min_def)
  qed
  from label_result_advance [OF assms(1) l this] show ?thesis .
qed

lemma read_label_spec:
  assumes "wf_slice s" "n \<le> 1023"
  shows "label_result s (parse_label n (slice_bits s)) (read_label s n)"
proof -
  let ?k = "bits_for_len n"
  have k: "?k \<le> 10" using bits_for_len_small [of n 10] assms(2) by auto
  have z: "?k = 0 \<longleftrightarrow> n = 0" using bits_for_len_pos [of n] assms(2) by (cases "n = 0") auto
  show ?thesis
  proof (cases "slice_bits s")
    case Nil
    then have e: "size_bits s = 0" using length_slice_bits [of s] by simp
    show ?thesis
    proof (cases "n = 0")
      case True
      have "read_label s n = Ok (get_prefix s 0 0, advance s 0)"
        using True Nil assms(1) by (simp add: read_label_def is_data_empty_iff advance_0)
      then show ?thesis
        using get_prefix_spec [OF assms(1), of 0 0] True Nil
        by (auto simp: label_result_def intro!: exI [of _ 0])
    next
      case False
      then show ?thesis
        using Nil z assms(1) by (simp add: read_label_def load_bit_Nil label_result_def)
    qed
  next
    case (Cons x xs)
    note a = advance_Cons [OF assms(1) Cons]
    have l: "1 \<le> size_bits s" using Cons length_slice_bits [of s] by simp
    have r: "read_label s n = ok (load_bit s) (\<lambda>(b1, label).
        if \<not> b1 then read_hml_short label
        else ok (load_bit label) (\<lambda>(b2, label).
          if \<not> b2 then read_hml_long label ?k else read_hml_same label ?k))"
      using Cons by (simp add: read_label_def is_data_empty_iff Let_def)
    show ?thesis
    proof (cases x)
      case False
      then have "read_label s n = read_hml_short (advance s 1)"
        unfolding r using load_bit_Cons [OF assms(1) Cons] by simp
      moreover have "size_bits (advance s 1) = length xs" using a(2) length_slice_bits by metis
      ultimately show ?thesis
        using label_result_advance [OF assms(1) l read_hml_short_spec [OF a(1)]]
        unfolding a(2) Cons using False by simp
    next
      case True
      then have r': "read_label s n = ok (load_bit (advance s 1)) (\<lambda>(b2, label).
          if \<not> b2 then read_hml_long label ?k else read_hml_same label ?k)"
        unfolding r using load_bit_Cons [OF assms(1) Cons] by simp
      show ?thesis
      proof (cases xs)
        case Nil
        then show ?thesis
          unfolding r' using True Cons a by (simp add: load_bit_Nil label_result_def)
      next
        case (Cons y ys)
        have c2: "slice_bits (advance s 1) = y # ys" using a(2) Cons by simp
        note a2 = advance_Cons [OF a(1) c2]
        have l2: "1 \<le> size_bits (advance s 1)" using c2 length_slice_bits [of "advance s 1"] by simp
        note la = label_result_advance [OF assms(1) l label_result_advance [OF a(1) l2]]
        have r2: "read_label s n = (if \<not> y then read_hml_long (advance (advance s 1) 1) ?k
            else read_hml_same (advance (advance s 1) 1) ?k)"
          unfolding r' using load_bit_Cons [OF a(1) c2] by simp
        show ?thesis
        proof (cases y)
          case False
          with la [OF read_hml_long_spec [OF a2(1) k]] show ?thesis
            unfolding r2 a2(2) by (simp add: \<open>slice_bits s = x # xs\<close> True Cons)
        next
          case y: True
          show ?thesis
          proof (cases ys)
            case Nil
            have "load_bit (advance (advance s 1) 1) = Err CellUnderflow"
              using a2 Nil by (simp add: load_bit_Nil)
            then show ?thesis
              unfolding r2 using y Nil \<open>xs = y # ys\<close> \<open>slice_bits s = x # xs\<close> True
              by (simp add: label_result_def read_hml_same_def)
          next
            case c3: (Cons z zs)
            have "slice_bits (advance (advance s 1) 1) = z # zs" using a2 c3 by simp
            with la [OF read_hml_same_spec [OF a2(1) k this]] show ?thesis
              unfolding r2 using y c3 \<open>xs = y # ys\<close> \<open>slice_bits s = x # xs\<close> True by simp
          qed
        qed
      qed
    qed
  qed
qed

section \<open>Optimality\<close>

lemma split_at_Some: "split_at m xs = Some (a, r) \<longleftrightarrow> m \<le> length xs \<and> a = take m xs \<and> r = drop m xs"
  by (auto simp: split_at_def)

lemma label_bits_le:
  assumes "n \<noteq> 0"
  shows "length (label_bits n bs) \<le> 2 + 2 * length bs"
    and "length (label_bits n bs) \<le> 2 + bits_for_len n + length bs"
    and "is_uniform bs \<Longrightarrow> length (label_bits n bs) \<le> 3 + bits_for_len n"
  by (cases "bs = []"; use assms in \<open>auto simp: label_bits_def Let_def\<close>)+

lemma replicate_uniform: "is_uniform (replicate m b) \<longleftrightarrow> m \<noteq> 0"
  by (cases m) (auto simp: list_all_iff)

lemma parse_len_length: "parse_len k xs = Some (m, r) \<Longrightarrow> length xs = k + length r"
  by (auto simp: parse_len_def split_at_def split: if_splits option.splits)

text \<open>No encoding of a label is shorter than the one that is written.\<close>

lemma label_bits_shortest:
  assumes "n \<noteq> 0" "parse_label n xs = Some (bs, r)"
  shows "length (label_bits n bs) + length r \<le> length xs"
proof -
  note le = label_bits_le [OF assms(1), of bs]
  show ?thesis
  proof (cases "(n, xs)" rule: parse_label.cases)
    case (2 n' ys)
    then have p: "(if run_len True ys < length ys then split_at (run_len True ys) (drop (run_len True ys + 1) ys)
        else None) = Some (bs, r)"
      using assms(2) by (simp only: prod.inject parse_label.simps Let_def)
    define m where "m = run_len True ys"
    have m: "m < length ys" "split_at m (drop (m + 1) ys) = Some (bs, r)"
      using p unfolding m_def [symmetric] by (metis option.distinct(1))+
    from m(2) have "length bs = m" "m + length r = length ys - (m + 1)"
      unfolding split_at_Some by auto
    then have "length ys = 1 + 2 * length bs + length r" using m(1) by simp
    then show ?thesis using le(1) 2 by simp
  next
    case (4 n' ys)
    then obtain m q where q: "parse_len (bits_for_len n) ys = Some (m, q)" "split_at m q = Some (bs, r)"
      using assms by (auto split: option.splits)
    then have "length q = length bs + length r" by (auto simp: split_at_Some)
    then show ?thesis using le(2) 4 parse_len_length [OF q(1)] by simp
  next
    case (6 n' b ys)
    then obtain m where q: "parse_len (bits_for_len n) ys = Some (m, r)" "bs = replicate (min m 1023) b"
      using assms by (auto split: option.splits)
    have "length (label_bits n bs) \<le> 3 + bits_for_len n"
      using le(1,3) unfolding q(2) replicate_uniform by (cases "min m 1023 = 0") auto
    then show ?thesis using 6 parse_len_length [OF q(1)] by simp
  qed (use assms in auto)
qed

section \<open>The two directions as a codec\<close>

locale codec =
  fixes valid :: "'v \<Rightarrow> bool"
    and enc :: "'v \<Rightarrow> bool list"
    and dec :: "bool list \<Rightarrow> ('v \<times> bool list) option"
  assumes dec_enc: "valid x \<Longrightarrow> dec (enc x @ r) = Some (x, r)"
begin

lemma enc_prefix_free: "valid x \<Longrightarrow> valid y \<Longrightarrow> enc x @ r = enc y @ r' \<Longrightarrow> x = y \<and> r = r'"
  by (metis dec_enc option.inject prod.inject)

lemma enc_inj: "valid x \<Longrightarrow> valid y \<Longrightarrow> enc x = enc y \<Longrightarrow> x = y"
  by (metis enc_prefix_free)

end

interpretation label_codec: codec "\<lambda>bs. length bs \<le> n \<and> n \<le> MAX_KEY_LEN" "label_bits n" "parse_label n"
  for n :: nat
  by unfold_locales (simp add: parse_label_bits)

end
