(* ===== verification/Cell_Tree.thy ===== *)
theory Cell_Tree
  imports Cell_Slice
begin

text \<open>
  The size of a cell tree, which the recursive descents over cells decrease, and the iterators over
  children of \<^verbatim>\<open>src/cell/mod.rs\<close>: \<open>RefsIter\<close>, \<open>ClonedRefsIter\<close> and \<open>RefsHashesIter\<close>. A \<open>for\<close> loop
  over an iterator is a recursion over the list \<open>iter_list\<close> that its \<open>next\<close> produces.
\<close>

fun tree_size :: "cell \<Rightarrow> nat" where
  "tree_size EmptyOrdinaryCell = 1"
| "tree_size (StaticCell _ _ _ _) = 1"
| "tree_size (OrdinaryCell _ _ _ rs _) = 1 + sum_list (map tree_size rs)"
| "tree_size (LibraryReference _ _ _) = 1"
| "tree_size (PrunedBranch _ _ _ _) = 1"
| "tree_size (VirtualCell c) = tree_size c"
| "tree_size (VirtualCellWrapper c _) = tree_size c"
| "tree_size (IntermediateDataCell _ _) = 1"
| "tree_size (IntermediateFullCell _ _ rs) = 1 + sum_list (map tree_size rs)"

lemma tree_size_virtualize [simp]: "tree_size (virtualize c) = tree_size c"
  by (induction c) auto

lemma nth_opt_size: "nth_opt rs i = Some r \<Longrightarrow> tree_size r < Suc (sum_list (map tree_size rs))"
  by (auto simp: nth_opt_def less_Suc_eq_le split: if_splits intro!: member_le_sum_list)

lemma reference_size: "reference c i = Some r \<Longrightarrow> tree_size r < tree_size c"
  by (induction c arbitrary: r) (auto simp: nth_opt_size split: if_splits)

section \<open>The iterators over children\<close>

definition references :: "cell \<Rightarrow> refs_iter" where
  "references c = \<lparr>ri_cell = c, ri_max = cell_reference_count c, ri_index = 0\<rparr>"

definition ri_peek :: "refs_iter \<Rightarrow> cell option" where
  "ri_peek it = (if ri_index it \<ge> ri_max it then None else reference (ri_cell it) (ri_index it))"

definition ri_peek_cloned :: "refs_iter \<Rightarrow> cell option" where
  "ri_peek_cloned it = (if ri_index it \<ge> ri_max it then None else reference_cloned (ri_cell it) (ri_index it))"

definition ri_peek_prev :: "refs_iter \<Rightarrow> cell option" where
  "ri_peek_prev it = (if ri_index it > 0 then reference (ri_cell it) (ri_index it - 1) else None)"

definition ri_peek_prev_cloned :: "refs_iter \<Rightarrow> cell option" where
  "ri_peek_prev_cloned it = (if ri_index it > 0 then reference_cloned (ri_cell it) (ri_index it - 1) else None)"

definition ri_next :: "refs_iter \<Rightarrow> cell option \<times> refs_iter" where
  "ri_next it =
    (if ri_index it \<ge> ri_max it then (None, it)
     else let child = reference (ri_cell it) (ri_index it)
          in (child, it\<lparr>ri_index := ri_index it + 1\<rparr>))"

definition ri_size_hint :: "refs_iter \<Rightarrow> nat" where
  "ri_size_hint it = ri_max it - ri_index it"

definition ri_next_back :: "refs_iter \<Rightarrow> cell option \<times> refs_iter" where
  "ri_next_back it =
    (if ri_max it > ri_index it
     then (reference (ri_cell it) (ri_max it - 1), it\<lparr>ri_max := ri_max it - 1\<rparr>)
     else (None, it))"

definition cri_next :: "refs_iter \<Rightarrow> cell option \<times> refs_iter" where
  "cri_next it =
    (if ri_index it \<ge> ri_max it then (None, it)
     else let child = reference_cloned (ri_cell it) (ri_index it)
          in (child, it\<lparr>ri_index := ri_index it + 1\<rparr>))"

definition cri_next_back :: "refs_iter \<Rightarrow> cell option \<times> refs_iter" where
  "cri_next_back it =
    (if ri_max it > ri_index it
     then (reference_cloned (ri_cell it) (ri_max it - 1), it\<lparr>ri_max := ri_max it - 1\<rparr>)
     else (None, it))"

definition rhi_next :: "refs_iter \<Rightarrow> hash_bytes option \<times> refs_iter" where
  "rhi_next it =
    (if ri_index it \<ge> ri_max it then (None, it)
     else let hash = reference_repr_hash (ri_cell it) (ri_index it)
          in (hash, it\<lparr>ri_index := ri_index it + 1\<rparr>))"

function iter_list :: "refs_iter \<Rightarrow> cell list" where
  "iter_list it = (case ri_next it of (Some c, it') \<Rightarrow> c # iter_list it' | (None, _) \<Rightarrow> [])"
  by pat_completeness auto
termination
  by (relation "measure (\<lambda>it. ri_max it - ri_index it)") (auto simp: ri_next_def split: if_splits)

declare iter_list.simps [simp del]

lemma ri_next_Some: "ri_next it = (Some c, it') \<Longrightarrow> reference (ri_cell it) (ri_index it) = Some c
    \<and> ri_index it < ri_max it \<and> it' = it\<lparr>ri_index := ri_index it + 1\<rparr>"
  by (auto simp: ri_next_def split: if_splits)

lemma ri_next_cell: "ri_next it = (x, it') \<Longrightarrow> ri_cell it' = ri_cell it"
  by (auto simp: ri_next_def split: if_splits)

text \<open>What an iterator yields are children, so they are smaller.\<close>

lemma iter_list_size: "r \<in> set (iter_list it) \<Longrightarrow> tree_size r < tree_size (ri_cell it)"
proof (induction it rule: iter_list.induct)
  case (1 it)
  obtain x it' where n: "ri_next it = (x, it')" by (cases "ri_next it")
  show ?case
  proof (cases x)
    case (Some c)
    then have "r = c \<or> r \<in> set (iter_list it')" using 1(2) n by (subst (asm) iter_list.simps) simp
    then show ?thesis
      using 1(1) [OF n [symmetric] Some] ri_next_Some [of it c it'] reference_size [of "ri_cell it" "ri_index it"] n Some
      by (auto dest: ri_next_cell)
  qed (use 1(2) n in \<open>simp add: iter_list.simps\<close>)
qed

lemma iter_list_drop:
  assumes "\<And>i. i < length rs \<Longrightarrow> reference c i = Some (rs ! i)" "i \<le> length rs"
  shows "iter_list \<lparr>ri_cell = c, ri_max = length rs, ri_index = i\<rparr> = drop i rs"
  using assms(2)
proof (induction "length rs - i" arbitrary: i)
  case (Suc n)
  then have "i < length rs" by simp
  then have "ri_next \<lparr>ri_cell = c, ri_max = length rs, ri_index = i\<rparr>
      = (Some (rs ! i), \<lparr>ri_cell = c, ri_max = length rs, ri_index = Suc i\<rparr>)"
    using assms(1) [of i] by (simp add: ri_next_def)
  then show ?case
    using Suc.hyps(1) [of "Suc i"] Suc.hyps(2) \<open>i < length rs\<close>
    by (subst iter_list.simps) (simp add: Cons_nth_drop_Suc)
qed (simp add: iter_list.simps ri_next_def)

text \<open>All that an iterator yields is, together, smaller than the cell.\<close>

definition child_size :: "cell \<Rightarrow> nat \<Rightarrow> nat" where
  "child_size c i = (case reference c i of None \<Rightarrow> 0 | Some r \<Rightarrow> tree_size r)"

lemma child_size_Some: "reference c i = Some r \<Longrightarrow> child_size c i = tree_size r"
  by (simp add: child_size_def)

lemma sum_nth_opt: "sum_list (map (\<lambda>i. case nth_opt rs i of None \<Rightarrow> 0 | Some r \<Rightarrow> f r) [0..<n])
    = (sum_list (map f (take n rs)) :: nat)"
  by (induction n) (auto simp: nth_opt_def take_Suc_conv_app_nth)

lemma sum_nth_opt_le: "sum_list (map (\<lambda>i. case nth_opt rs i of None \<Rightarrow> 0 | Some r \<Rightarrow> f r) [0..<n])
    \<le> (sum_list (map f rs) :: nat)"
  unfolding sum_nth_opt by (metis append_take_drop_id le_add1 map_append sum_list_append)

lemma sum_child_size: "sum_list (map (child_size c) [0..<n]) < tree_size c"
proof (induction c)
  case (OrdinaryCell m hs d rs ds)
  have "sum_list (map (child_size (OrdinaryCell m hs d rs ds)) [0..<n])
      \<le> sum_list (map (\<lambda>i. case nth_opt rs i of None \<Rightarrow> 0 | Some r \<Rightarrow> tree_size r) [0..<n])"
    by (intro sum_list_mono) (simp add: child_size_def)
  then show ?case using sum_nth_opt_le [of tree_size rs n] by (simp del: upt_Suc)
next
  case (IntermediateFullCell ds m rs)
  show ?case using sum_nth_opt_le [of tree_size rs n] by (simp add: child_size_def [abs_def])
next
  case (VirtualCell c)
  have "child_size (VirtualCell c) = child_size c" by (auto simp: child_size_def fun_eq_iff split: option.split)
  then show ?case using VirtualCell by simp
next
  case (VirtualCellWrapper c l)
  have "child_size (VirtualCellWrapper c l) = child_size c" by (auto simp: child_size_def fun_eq_iff split: option.split)
  then show ?case using VirtualCellWrapper by simp
qed (simp_all add: child_size_def [abs_def])

lemma iter_list_sum_le:
  "sum_list (map tree_size (iter_list it)) \<le> sum_list (map (child_size (ri_cell it)) [ri_index it..<ri_max it])"
proof (induction it rule: iter_list.induct)
  case (1 it)
  obtain x it' where n: "ri_next it = (x, it')" by (cases "ri_next it")
  show ?case
  proof (cases x)
    case (Some c)
    note s = ri_next_Some [OF n [unfolded Some]]
    then have "[ri_index it..<ri_max it] = ri_index it # [ri_index it'..<ri_max it']"
      by (simp add: upt_conv_Cons)
    then show ?thesis
      using 1 [OF n [symmetric] Some] s by (subst iter_list.simps) (simp add: n Some child_size_Some)
  qed (simp add: iter_list.simps n)
qed

lemma references_sum: "sum_list (map tree_size (iter_list (references c))) < tree_size c"
  using iter_list_sum_le [of "references c"] sum_child_size [of c "cell_reference_count c"]
  by (simp add: references_def)

text \<open>
  A search with an explicit stack keeps the iterators of the cells it is inside of; a frame weighs what
  its iterator has left to visit.
\<close>

definition frame_weight :: "refs_iter \<Rightarrow> nat" where
  "frame_weight it = 1 + sum_list (map (\<lambda>c. 2 * tree_size c) (iter_list it))"

lemma frame_weight_next:
  "ri_next it = (Some c, it') \<Longrightarrow> frame_weight it = frame_weight it' + 2 * tree_size c"
  by (simp add: frame_weight_def iter_list.simps [of it])

lemma frame_weight_references: "frame_weight (references c) < 2 * tree_size c"
  using references_sum [of c] by (simp add: frame_weight_def sum_list_const_mult)

lemma frame_weight_pos: "0 < frame_weight it"
  by (simp add: frame_weight_def)

lemma frame_weight_step:
  assumes "(Some c, it') = ri_next it"
  shows "frame_weight (references c) + frame_weight it' < frame_weight it" "frame_weight it' < frame_weight it"
  using frame_weight_next [OF assms [symmetric]] frame_weight_references [of c] frame_weight_pos [of "references c"]
  by simp_all

end
