(* ===== verification/Dict_Ops.thy ===== *)
theory Dict_Ops
  imports Dict Cell_Tree
begin

text \<open>
  \<^verbatim>\<open>src/dict/mod.rs\<close> (\<open>make_leaf\<close>, \<open>split_edge\<close>, \<open>Segment\<close>, \<open>rebuild_dict_from_stack\<close>,
  \<open>dict_load_from_root\<close>) and \<^verbatim>\<open>src/dict/ops/{get,insert,remove}.rs\<close>. The stack of segments is a list
  with its top first. Where the code has \<open>unreachable_unchecked\<close> for a common prefix longer than the
  key, the model continues as in the last branch; the common prefix is never longer.
\<close>

lemma load_dyn_cell_Ok [simp]: "load_dyn_cell c m = Ok c"
  by (simp add: load_dyn_cell_def)

lemma load_cell_Ok [simp]: "load_cell c m = Ok c"
  by (simp add: load_cell_def)

lemma slice_new_cell: "slice_new c = Ok s \<Longrightarrow> sl_cell s = c"
  by (auto simp: slice_new_def split: if_splits)

section \<open>Lookup\<close>

text \<open>\<open>data.cell()\<close> is the cell the slice was made of, and reading a label keeps it.\<close>

function dict_get_loop :: "cell \<Rightarrow> cell_slice \<Rightarrow> cell_slice option result" where
  "dict_get_loop cell key =
    ok (slice_new cell) (\<lambda>data.
    ok (read_label data (size_bits key)) (\<lambda>(prefix, data).
    let next = (\<lambda>key.
      ok (load_bit key) (\<lambda>(child_index, key).
      case reference cell (of_bool child_index) of
        Some child \<Rightarrow> ok (load_dyn_cell child Full) (\<lambda>child. dict_get_loop child key)
      | None \<Rightarrow> Err CellUnderflow))
    in case strip_data_prefix key prefix of
         Some stripped_key \<Rightarrow>
           if is_data_empty stripped_key then Ok (Some data)
           else if size_refs data < 2 then Ok None
           else next stripped_key
       | None \<Rightarrow> Ok (if is_data_empty key then Some data else None)))"
  by pat_completeness auto
termination
  by (relation "measure (\<lambda>(cell, key). tree_size cell)") (auto simp: reference_size)

declare dict_get_loop.simps [simp del]

definition dict_get :: "cell option \<Rightarrow> nat \<Rightarrow> cell_slice \<Rightarrow> cell_slice option result" where
  "dict_get dict key_bit_len key =
    (if size_bits key \<noteq> key_bit_len then Err CellUnderflow
     else case dict of
       Some root \<Rightarrow> ok (load_dyn_cell root Full) (\<lambda>root. dict_get_loop root key)
     | None \<Rightarrow> Ok None)"

text \<open>\<open>dict_get_owned\<close> returns the range of the value in its cell, reached again through the parent.\<close>

function dict_get_owned_loop ::
  "cell \<Rightarrow> (cell \<times> nat) option \<Rightarrow> cell_slice \<Rightarrow> (cell_slice \<times> (cell \<times> nat) option) option result" where
  "dict_get_owned_loop cell prev key =
    ok (slice_new cell) (\<lambda>data.
    ok (read_label data (size_bits key)) (\<lambda>(prefix, data).
    let next = (\<lambda>key.
      ok (load_bit key) (\<lambda>(child_index, key).
      case reference cell (of_bool child_index) of
        Some child \<Rightarrow> ok (load_dyn_cell child Full) (\<lambda>child.
          dict_get_owned_loop child (Some (cell, of_bool child_index)) key)
      | None \<Rightarrow> Err CellUnderflow))
    in case strip_data_prefix key prefix of
         Some stripped_key \<Rightarrow>
           if is_data_empty stripped_key then Ok (Some (data, prev))
           else if size_refs data < 2 then Ok None
           else next stripped_key
       | None \<Rightarrow> Ok (if is_data_empty key then Some (data, prev) else None)))"
  by pat_completeness auto
termination
  by (relation "measure (\<lambda>(cell, prev, key). tree_size cell)") (auto simp: reference_size)

declare dict_get_owned_loop.simps [simp del]

definition dict_get_owned ::
  "cell option \<Rightarrow> nat \<Rightarrow> cell_slice \<Rightarrow> (cell_slice_range \<times> cell) option result" where
  "dict_get_owned dict key_bit_len key =
    (if size_bits key \<noteq> key_bit_len then Err CellUnderflow
     else case dict of
       None \<Rightarrow> Ok None
     | Some cell \<Rightarrow> ok (load_cell cell Full) (\<lambda>root.
         ok (dict_get_owned_loop root None key) (\<lambda>res.
         case res of
           None \<Rightarrow> Ok None
         | Some (data, Some (prev, child_index)) \<Rightarrow>
             (case reference_cloned prev child_index of
                Some cell \<Rightarrow> ok (load_cell cell Resolve) (\<lambda>cell. Ok (Some (sl_range data, cell)))
              | None \<Rightarrow> Err CellUnderflow)
         | Some (data, None) \<Rightarrow> Ok (Some (sl_range data, root)))))"

section \<open>Leaves and edges\<close>

type_synonym store_fn = "cell_builder \<Rightarrow> cell_builder result"

definition make_leaf :: "sha256 \<Rightarrow> cell_slice \<Rightarrow> nat \<Rightarrow> store_fn \<Rightarrow> cell result" where
  "make_leaf sha key key_bit_len value =
    ok (write_label key key_bit_len cb_new) (\<lambda>builder.
    ok (value builder) (\<lambda>builder. build_ext sha builder))"

definition make_leaf_with_extra ::
  "sha256 \<Rightarrow> cell_slice \<Rightarrow> nat \<Rightarrow> store_fn \<Rightarrow> store_fn \<Rightarrow> cell result" where
  "make_leaf_with_extra sha key key_bit_len extra value =
    ok (write_label key key_bit_len cb_new) (\<lambda>builder.
    ok (extra builder) (\<lambda>builder.
    ok (value builder) (\<lambda>builder. build_ext sha builder)))"

definition split_edge ::
  "sha256 \<Rightarrow> cell_slice \<Rightarrow> cell_slice \<Rightarrow> cell_slice \<Rightarrow> cell_slice \<Rightarrow> store_fn \<Rightarrow> cell result" where
  "split_edge sha data prefix lcp key value =
    (let prev_key_bit_len = size_bits key
     in ok (skip_first key (size_bits lcp + 1) 0) (\<lambda>key.
        let prefix = (case skip_first prefix (size_bits lcp) 0 of Inr p \<Rightarrow> p | Inl e \<Rightarrow> prefix)
        in ok (load_bit prefix) (\<lambda>(old_to_right, prefix).
           ok (make_leaf sha prefix (size_bits key) (\<lambda>b. store_slice b data)) (\<lambda>left.
           ok (make_leaf sha key (size_bits key) value) (\<lambda>right.
           let (left, right) = (if old_to_right then (right, left) else (left, right))
           in ok (write_label lcp prev_key_bit_len cb_new) (\<lambda>builder.
              ok (store_reference builder left) (\<lambda>builder.
              ok (store_reference builder right) (\<lambda>builder.
              build_ext sha builder))))))))"

record segment =
  sg_data :: cell
  sg_next_branch :: branch
  sg_key_bit_len :: nat

fun rebuild_dict_from_stack :: "sha256 \<Rightarrow> segment list \<Rightarrow> cell \<Rightarrow> cell result" where
  "rebuild_dict_from_stack sha [] leaf = Ok leaf"
| "rebuild_dict_from_stack sha (seg # segments) leaf =
     ok (case sg_next_branch seg of
           BrLeft \<Rightarrow> (case reference_cloned (sg_data seg) 1 of
             Some cell \<Rightarrow> Ok (leaf, cell) | None \<Rightarrow> Err CellUnderflow)
         | BrRight \<Rightarrow> (case reference_cloned (sg_data seg) 0 of
             Some cell \<Rightarrow> Ok (cell, leaf) | None \<Rightarrow> Err CellUnderflow)) (\<lambda>(left, right).
     ok (on_inner (\<lambda>d. store_cell_data d (sg_data seg)) cb_new) (\<lambda>builder.
     ok (store_reference builder left) (\<lambda>builder.
     ok (store_reference builder right) (\<lambda>builder.
     ok (build_ext sha builder) (\<lambda>leaf. rebuild_dict_from_stack sha segments leaf)))))"

definition dict_load_from_root :: "sha256 \<Rightarrow> cell_slice \<Rightarrow> nat \<Rightarrow> (cell \<times> cell_slice) result" where
  "dict_load_from_root sha s key_bit_len =
    (let root = s
     in ok (read_label s key_bit_len) (\<lambda>(label, s).
        ok (if size_bits label \<noteq> key_bit_len
            then ok (skip_first s 0 2) (\<lambda>s.
              Ok (get_prefix root (size_bits root - size_bits s) (size_refs root - size_refs s), s))
            else Ok (root, snd (load_remaining s))) (\<lambda>(root, s).
        ok (store_slice cb_new root) (\<lambda>builder.
        ok (build_ext sha builder) (\<lambda>cell. Ok (cell, s))))))"

section \<open>Insertion\<close>

text \<open>
  The loop of \<open>dict_insert\<close>: \<open>None\<close> is the early return of \<open>false\<close>; otherwise the new leaf and the stack.
\<close>

function dict_insert_loop ::
  "sha256 \<Rightarrow> store_fn \<Rightarrow> set_mode \<Rightarrow> cell \<Rightarrow> cell_slice \<Rightarrow> segment list
   \<Rightarrow> (cell \<times> segment list) option result" where
  "dict_insert_loop sha value mode data key stack =
    ok (slice_new data) (\<lambda>remaining_data.
    ok (read_label remaining_data (size_bits key)) (\<lambda>(prefix, remaining_data).
    let lcp = longest_common_data_prefix key prefix
    in if size_bits lcp = size_bits key then
         (if \<not> can_replace mode then Ok None
          else ok (make_leaf sha prefix (size_bits key) value) (\<lambda>leaf. Ok (Some (leaf, stack))))
       else if size_bits lcp < size_bits prefix then
         (if \<not> can_add mode then Ok None
          else ok (split_edge sha remaining_data prefix lcp key value) (\<lambda>leaf. Ok (Some (leaf, stack))))
       else if cell_reference_count data < 2 then Err CellUnderflow
       else
         let key_bit_len = size_bits key;
             key = (case skip_first key (size_bits lcp) 0 of Inr k \<Rightarrow> k | Inl e \<Rightarrow> key)
         in ok (load_bit key) (\<lambda>(bit, key).
            let next_branch = branch_from bit
            in case reference data (branch_index next_branch) of
                 None \<Rightarrow> Err CellUnderflow
               | Some cell \<Rightarrow> ok (load_dyn_cell cell Full) (\<lambda>child.
                   dict_insert_loop sha value mode child key
                     (\<lparr>sg_data = data, sg_next_branch = next_branch, sg_key_bit_len = key_bit_len\<rparr> # stack)))))"
  by pat_completeness auto
termination
  by (relation "measure (\<lambda>(sha, value, mode, data, key, stack). tree_size data)")
     (auto simp: reference_size)

declare dict_insert_loop.simps [simp del]

text \<open>The new dictionary and the flag; on an error the dictionary is unchanged.\<close>

definition dict_insert ::
  "sha256 \<Rightarrow> cell option \<Rightarrow> cell_slice \<Rightarrow> nat \<Rightarrow> store_fn \<Rightarrow> set_mode \<Rightarrow> (cell option \<times> bool) result" where
  "dict_insert sha dict key key_bit_len value mode =
    (if size_bits key \<noteq> key_bit_len then Err CellUnderflow
     else case dict of
       None \<Rightarrow>
         if can_add mode
         then ok (make_leaf sha key key_bit_len value) (\<lambda>leaf. Ok (Some leaf, True))
         else Ok (None, False)
     | Some root \<Rightarrow> ok (load_dyn_cell root Full) (\<lambda>data.
         ok (dict_insert_loop sha value mode data key []) (\<lambda>res.
         case res of
           None \<Rightarrow> Ok (dict, False)
         | Some (leaf, stack) \<Rightarrow>
             ok (rebuild_dict_from_stack sha stack leaf) (\<lambda>leaf. Ok (Some leaf, True)))))"

section \<open>Removal\<close>

function dict_find_value_to_remove_loop ::
  "cell \<Rightarrow> cell_slice \<Rightarrow> nat \<Rightarrow> segment list
   \<Rightarrow> (segment list \<times> cell_slice_range \<times> nat \<times> cell_slice) option result" where
  "dict_find_value_to_remove_loop data key prev_key_bit_len stack =
    ok (slice_new data) (\<lambda>remaining_data.
    ok (read_label remaining_data (size_bits key)) (\<lambda>(prefix, remaining_data).
    let lcp = longest_common_data_prefix key prefix
    in if size_bits lcp = size_bits key
       then Ok (Some (stack, sl_range remaining_data, prev_key_bit_len, key))
       else if size_bits lcp < size_bits prefix then Ok None
       else if cell_reference_count data < 2 then Err CellUnderflow
       else
         let prev_key_bit_len = size_bits key;
             key = (case skip_first key (size_bits lcp) 0 of Inr k \<Rightarrow> k | Inl e \<Rightarrow> key)
         in ok (load_bit key) (\<lambda>(bit, key).
            let next_branch = branch_from bit
            in case reference data (branch_index next_branch) of
                 None \<Rightarrow> Err CellUnderflow
               | Some cell \<Rightarrow> ok (load_dyn_cell cell Full) (\<lambda>child.
                   dict_find_value_to_remove_loop child key prev_key_bit_len
                     (\<lparr>sg_data = data, sg_next_branch = next_branch, sg_key_bit_len = prev_key_bit_len\<rparr>
                      # stack)))))"
  by pat_completeness auto
termination
  by (relation "measure (\<lambda>(data, key, prev, stack). tree_size data)") (auto simp: reference_size)

declare dict_find_value_to_remove_loop.simps [simp del]

definition dict_find_value_to_remove ::
  "cell \<Rightarrow> cell_slice \<Rightarrow> (segment list \<times> cell_slice_range \<times> nat \<times> cell_slice) option result" where
  "dict_find_value_to_remove root key =
    ok (load_dyn_cell root Full) (\<lambda>data.
      dict_find_value_to_remove_loop data key (size_bits key) [])"

definition rebuild_as_removed ::
  "sha256 \<Rightarrow> segment \<Rightarrow> cell_slice \<Rightarrow> nat \<Rightarrow> (cell \<times> cell) result" where
  "rebuild_as_removed sha sg key prev_key_bit_len =
    (let index = branch_index (sg_next_branch sg)
     in case reference_cloned (sg_data sg) index of
          None \<Rightarrow> Err CellUnderflow
        | Some value \<Rightarrow> ok (load_cell value Resolve) (\<lambda>value.
            ok (read_label (slice_new_allow_exotic (sg_data sg)) prev_key_bit_len) (\<lambda>(pfx, _).
            ok (case reference (sg_data sg) (1 - index) of
                  Some cell \<Rightarrow> ok (load_dyn_cell cell Full) slice_new
                | None \<Rightarrow> Err CellUnderflow) (\<lambda>opposite.
            ok (read_label opposite (size_bits key)) (\<lambda>(rem, opposite).
            ok (write_label_parts pfx (index = 0) rem prev_key_bit_len cb_new) (\<lambda>builder.
            ok (store_slice builder opposite) (\<lambda>builder.
            ok (build_ext sha builder) (\<lambda>leaf. Ok (leaf, value)))))))))"

definition dict_remove_owned ::
  "sha256 \<Rightarrow> cell option \<Rightarrow> cell_slice \<Rightarrow> nat \<Rightarrow> bool
   \<Rightarrow> (cell option \<times> (cell_slice_range \<times> cell) option) result" where
  "dict_remove_owned sha dict key key_bit_len allow_subtree =
    (if \<not> allow_subtree \<and> size_bits key \<noteq> key_bit_len then Err CellUnderflow
     else case dict of
       None \<Rightarrow> Ok (dict, None)
     | Some root \<Rightarrow>
         ok (dict_find_value_to_remove root key) (\<lambda>found.
         case found of
           None \<Rightarrow> Ok (dict, None)
         | Some (seg # stack, removed, prev_key_bit_len, key) \<Rightarrow>
             ok (rebuild_as_removed sha seg key prev_key_bit_len) (\<lambda>(leaf, value).
             ok (rebuild_dict_from_stack sha stack leaf) (\<lambda>root'.
             Ok (Some root', Some (removed, value))))
         | Some ([], removed, _, _) \<Rightarrow> Ok (None, Some (removed, root))))"

end
