(* ===== verification/Dict_Tree.thy ===== *)
theory Dict_Tree
  imports Dict_Label Dict_Ops
begin

text \<open>
  Dictionaries as Patricia trees. A \<open>ptree\<close> is the abstract content of a dictionary; \<open>rep\<close> says that a
  cell stores it (with any encoding of the labels), that its values leave room for labels and that its
  depth leaves room for rebuilding. \<open>pt_lookup\<close>, \<open>pt_insert\<close> and \<open>pt_delete\<close> are the operations on
  trees, which implement the operations on maps from keys to values: the locale \<open>key_map\<close>.
\<close>

section \<open>Patricia trees as maps\<close>

type_synonym dict_value = "bool list \<times> cell list"

datatype ptree =
    PLeaf "bool list" "bool list" "cell list"
  | PFork "bool list" ptree ptree

fun pt_label :: "ptree \<Rightarrow> bool list" where
  "pt_label (PLeaf lab _ _) = lab"
| "pt_label (PFork lab _ _) = lab"

fun pt_relabel :: "bool list \<Rightarrow> ptree \<Rightarrow> ptree" where
  "pt_relabel lab (PLeaf _ vb vr) = PLeaf lab vb vr"
| "pt_relabel lab (PFork _ l r) = PFork lab l r"

text \<open>Every path of a tree for keys of \<open>n\<close> bits spells \<open>n\<close> bits.\<close>

fun pt_inv :: "nat \<Rightarrow> ptree \<Rightarrow> bool" where
  "pt_inv n (PLeaf lab _ _) \<longleftrightarrow> length lab = n"
| "pt_inv n (PFork lab l r) \<longleftrightarrow> length lab < n
     \<and> pt_inv (n - length lab - 1) l \<and> pt_inv (n - length lab - 1) r"

fun pt_lookup :: "ptree \<Rightarrow> bool list \<Rightarrow> dict_value option" where
  "pt_lookup (PLeaf lab vb vr) k = (if k = lab then Some (vb, vr) else None)"
| "pt_lookup (PFork lab l r) k =
     (if take (length lab) k = lab
      then (case drop (length lab) k of [] \<Rightarrow> None
            | b # k' \<Rightarrow> if b then pt_lookup r k' else pt_lookup l k')
      else None)"

definition pt_split :: "nat \<Rightarrow> bool list \<Rightarrow> dict_value \<Rightarrow> ptree \<Rightarrow> ptree" where
  "pt_split m k v t =
    (let old = pt_relabel (drop (m + 1) (pt_label t)) t;
         new = PLeaf (drop (m + 1) k) (fst v) (snd v)
     in if pt_label t ! m then PFork (take m (pt_label t)) new old
        else PFork (take m (pt_label t)) old new)"

fun pt_insert :: "bool list \<Rightarrow> dict_value \<Rightarrow> ptree \<Rightarrow> ptree" where
  "pt_insert k v (PLeaf lab vb vr) =
     (if k = lab then PLeaf lab (fst v) (snd v)
      else pt_split (lcp_len k lab) k v (PLeaf lab vb vr))"
| "pt_insert k v (PFork lab l r) =
     (if take (length lab) k = lab
      then (case drop (length lab) k of [] \<Rightarrow> PFork lab l r
            | b # k' \<Rightarrow> if b then PFork lab l (pt_insert k' v r) else PFork lab (pt_insert k' v l) r)
      else pt_split (lcp_len k lab) k v (PFork lab l r))"

text \<open>Deleting a key of a fork that is a leaf joins the fork with its other child.\<close>

definition pt_join :: "bool list \<Rightarrow> bool \<Rightarrow> ptree \<Rightarrow> ptree" where
  "pt_join lab b t = pt_relabel (lab @ b # pt_label t) t"

fun pt_delete :: "bool list \<Rightarrow> ptree \<Rightarrow> ptree option" where
  "pt_delete k (PLeaf lab vb vr) = (if k = lab then None else Some (PLeaf lab vb vr))"
| "pt_delete k (PFork lab l r) =
     (if take (length lab) k = lab
      then (case drop (length lab) k of [] \<Rightarrow> Some (PFork lab l r)
            | b # k' \<Rightarrow>
              if b then (case pt_delete k' r of None \<Rightarrow> Some (pt_join lab False l)
                         | Some r' \<Rightarrow> Some (PFork lab l r'))
              else (case pt_delete k' l of None \<Rightarrow> Some (pt_join lab True r)
                    | Some l' \<Rightarrow> Some (PFork lab l' r)))
      else Some (PFork lab l r))"

lemma pt_relabel_label [simp]: "pt_label (pt_relabel lab t) = lab"
  by (cases t) auto

text \<open>Changing the label of a tree shifts its keys.\<close>

lemma pt_lookup_relabel:
  "pt_lookup (pt_relabel lab t) k =
    (if take (length lab) k = lab then pt_lookup t (pt_label t @ drop (length lab) k) else None)"
proof (cases t)
  case (PLeaf l vb vr)
  have "k = lab \<longleftrightarrow> take (length lab) k = lab \<and> drop (length lab) k = []"
    by (metis append_take_drop_id append_Nil2 drop_eq_Nil order_refl take_all)
  then show ?thesis by (auto simp: PLeaf)
qed auto

lemma pt_inv_relabel:
  "pt_inv n t \<Longrightarrow> length lab + n = length (pt_label t) + n' \<Longrightarrow> pt_inv n' (pt_relabel lab t)"
proof (cases t)
  case (PFork l a b)
  assume "pt_inv n t" "length lab + n = length (pt_label t) + n'"
  then have "length lab < n'" "n' - length lab - 1 = n - length l - 1" by (auto simp: PFork)
  with \<open>pt_inv n t\<close> show ?thesis by (simp add: PFork)
qed auto

lemma pt_inv_label: "pt_inv n t \<Longrightarrow> length (pt_label t) \<le> n"
  by (cases t) auto

lemma pt_lookup_length: "pt_inv n t \<Longrightarrow> pt_lookup t k = Some v \<Longrightarrow> length k = n"
proof (induction t arbitrary: n k)
  case (PFork lab l r)
  from PFork.prems obtain b k' where k: "take (length lab) k = lab" "drop (length lab) k = b # k'"
    "pt_lookup (if b then r else l) k' = Some v"
    by (auto split: if_splits list.splits)
  then have "length k' = n - length lab - 1" using PFork by (auto split: if_splits)
  moreover have "length k = length lab + 1 + length k'"
    using k(1,2) by (metis Suc_eq_plus1_left add.assoc append_take_drop_id length_Cons length_append)
  ultimately show ?case using PFork.prems(1) by simp
qed (auto split: if_splits)

lemma pt_lookup_label:
  "pt_lookup t k = Some v \<Longrightarrow> take (length (pt_label t)) k = pt_label t"
  by (cases t) (auto split: if_splits)

lemma diverge:
  assumes "length lab \<le> length k" "take (length lab) k \<noteq> lab"
  obtains p x ks ls where "k = p @ x # ks" "lab = p @ (\<not> x) # ls" "lcp_len k lab = length p"
proof -
  let ?m = "lcp_len k lab"
  have m: "?m < length lab"
    using lcp_len_le(2) [of k lab] lcp_len_full_iff [of k lab] assms
    by (metis append_eq_conv_conj le_neq_implies_less)
  then have d: "k ! ?m \<noteq> lab ! ?m" using lcp_len_diff [of k lab] assms(1) by simp
  show thesis
  proof
    show "k = take ?m k @ (k ! ?m) # drop (Suc ?m) k"
      using m assms(1) by (intro id_take_nth_drop) simp
    have "lab = take ?m lab @ (lab ! ?m) # drop (Suc ?m) lab"
      using m by (rule id_take_nth_drop)
    then show "lab = take ?m k @ (\<not> k ! ?m) # drop (Suc ?m) lab"
      using d lcp_len_take [of k lab] by simp
    show "?m = length (take ?m k)" using m assms(1) by simp
  qed
qed

lemma pt_split_parts:
  assumes "pt_label t = p @ (\<not> x) # ls"
  shows "pt_split (length p) (p @ x # ks) v t =
    PFork p (if x then pt_relabel ls t else PLeaf ks (fst v) (snd v))
            (if x then PLeaf ks (fst v) (snd v) else pt_relabel ls t)"
  by (simp add: pt_split_def assms nth_append Let_def)

lemma take_append_prefix: "take (length (xs @ ys)) zs = xs @ ys \<Longrightarrow> take (length xs) zs = xs"
  by (drule arg_cong [of _ _ "take (length xs)"]) (simp add: min_def)

lemma pt_split_map:
  fixes v :: dict_value
  assumes "pt_inv n t" "length k = n" "take (length (pt_label t)) k \<noteq> pt_label t"
  defines "t' \<equiv> pt_split (lcp_len k (pt_label t)) k v t"
  shows "pt_inv n t'" and "pt_lookup t' = (pt_lookup t)(k \<mapsto> v)"
proof -
  have "length (pt_label t) \<le> length k" using pt_inv_label [OF assms(1)] assms(2) by simp
  from diverge [OF this assms(3)] obtain p x ks ls
    where d: "k = p @ x # ks" "pt_label t = p @ (\<not> x) # ls" "lcp_len k (pt_label t) = length p" .
  have t': "t' = PFork p (if x then pt_relabel ls t else PLeaf ks (fst v) (snd v))
      (if x then PLeaf ks (fst v) (snd v) else pt_relabel ls t)"
    unfolding t'_def d(3) unfolding d(1) by (rule pt_split_parts [OF d(2)])
  have n: "n = length p + 1 + length ks" using d(1) assms(2) by simp
  have "pt_inv (n - length p - 1) (pt_relabel ls t)"
    using pt_inv_label [OF assms(1)] d(2) n by (intro pt_inv_relabel [OF assms(1)]) simp
  then show "pt_inv n t'" using n by (simp add: t')
  show "pt_lookup t' = (pt_lookup t)(k \<mapsto> v)"
  proof
    fix j
    show "pt_lookup t' j = ((pt_lookup t)(k \<mapsto> v)) j"
    proof (cases "take (length p) j = p")
      case False
      then have "take (length (pt_label t)) j \<noteq> pt_label t"
        unfolding d(2) using take_append_prefix by blast
      then have "pt_lookup t j = None" using pt_lookup_label [of t j] by (cases "pt_lookup t j") auto
      then show ?thesis using False by (auto simp: t' d(1))
    next
      case True
      then obtain q where j: "j = p @ q" by (metis append_take_drop_id)
      show ?thesis
      proof (cases q)
        case Nil
        then have "pt_lookup t j = None"
          using pt_lookup_label [of t j] j by (cases "pt_lookup t j") (auto simp: d(2))
        then show ?thesis using Nil by (simp add: t' d(1) j)
      next
        case (Cons y q')
        have same: "pt_lookup t (p @ (\<not> x) # q') = pt_lookup (pt_relabel ls t) q'"
        proof (cases "take (length ls) q' = ls")
          case True
          then have "p @ (\<not> x) # q' = pt_label t @ drop (length ls) q'"
            unfolding d(2) by (metis append_Cons append_assoc append_take_drop_id)
          then show ?thesis using True by (simp add: pt_lookup_relabel)
        next
          case False
          then have "pt_lookup t (p @ (\<not> x) # q') = None"
            using pt_lookup_label [of t "p @ (\<not> x) # q'"]
            by (cases "pt_lookup t (p @ (\<not> x) # q')") (auto simp: d(2))
          then show ?thesis using False by (simp add: pt_lookup_relabel)
        qed
        have other: "pt_lookup t (p @ x # q') = None"
          using pt_lookup_label [of t "p @ x # q'"]
          by (cases "pt_lookup t (p @ x # q')") (auto simp: d(2))
        show ?thesis
          using same other by (cases "y = x"; cases x) (auto simp: t' d(1) j Cons)
      qed
    qed
  qed
qed

lemma pt_insert_map:
  "pt_inv n t \<Longrightarrow> length k = n \<Longrightarrow>
    pt_inv n (pt_insert k v t) \<and> pt_lookup (pt_insert k v t) = (pt_lookup t)(k \<mapsto> v)"
proof (induction t arbitrary: n k)
  case (PLeaf lab vb vr)
  then show ?case
    using pt_split_map [of n "PLeaf lab vb vr" k v] by (auto simp: fun_eq_iff)
next
  case (PFork lab l r)
  show ?case
  proof (cases "take (length lab) k = lab")
    case False
    then show ?thesis 
      using pt_split_map [of n "PFork lab l r" k v] PFork.prems by (simp del: pt_lookup.simps)
  next
    case True
    have "length (drop (length lab) k) \<noteq> 0" using PFork.prems by simp
    then obtain b k' where d: "drop (length lab) k = b # k'" by (cases "drop (length lab) k") auto
    then have k: "k = lab @ b # k'" using True by (metis append_take_drop_id)
    then have n: "length k' = n - length lab - 1" using PFork.prems by simp
    have ih: "pt_inv (n - length lab - 1) (pt_insert k' v (if b then r else l))
        \<and> pt_lookup (pt_insert k' v (if b then r else l)) = (pt_lookup (if b then r else l))(k' \<mapsto> v)"
      using PFork n by (cases b) auto
    have "pt_lookup (pt_insert k v (PFork lab l r)) j = ((pt_lookup (PFork lab l r))(k \<mapsto> v)) j" for j
    proof (cases "take (length lab) j = lab")
      case True
      then obtain q where j: "j = lab @ q" by (metis append_take_drop_id)
      show ?thesis using ih by (cases q; cases b) (auto simp: j k)
    next
      case False
      then show ?thesis by (cases b) (auto simp: k)
    qed
    then show ?thesis using ih PFork.prems by (cases b) (auto simp: k)
  qed
qed

text \<open>A dictionary is an optional tree.\<close>

fun opt_lookup :: "ptree option \<Rightarrow> bool list \<Rightarrow> dict_value option" where
  "opt_lookup None k = None"
| "opt_lookup (Some t) k = pt_lookup t k"

fun opt_inv :: "nat \<Rightarrow> ptree option \<Rightarrow> bool" where
  "opt_inv n None \<longleftrightarrow> True"
| "opt_inv n (Some t) \<longleftrightarrow> pt_inv n t"

definition opt_insert :: "bool list \<Rightarrow> dict_value \<Rightarrow> ptree option \<Rightarrow> ptree option" where
  "opt_insert k v d = Some (case d of None \<Rightarrow> PLeaf k (fst v) (snd v) | Some t \<Rightarrow> pt_insert k v t)"

definition opt_delete :: "bool list \<Rightarrow> ptree option \<Rightarrow> ptree option" where
  "opt_delete k d = (case d of None \<Rightarrow> None | Some t \<Rightarrow> pt_delete k t)"

lemma opt_lookup_Some [simp]: "opt_lookup (Some t) = pt_lookup t"
  by (rule ext) simp

lemma pt_join_map:
  assumes "pt_inv (n - length lab - 1) t" "length lab < n"
  shows "pt_inv n (pt_join lab b t)"
    and "pt_lookup (pt_join lab b t) (lab @ c # k) = (if c = b then pt_lookup t k else None)"
    and "take (length lab) k \<noteq> lab \<Longrightarrow> pt_lookup (pt_join lab b t) k = None"
    and "pt_lookup (pt_join lab b t) lab = None"
proof -
  show "pt_inv n (pt_join lab b t)"
    unfolding pt_join_def using assms pt_inv_label [OF assms(1)] by (intro pt_inv_relabel [OF assms(1)]) simp
  have "pt_lookup t k = None" if "take (length (pt_label t)) k \<noteq> pt_label t"
    using that pt_lookup_label [of t k] by (cases "pt_lookup t k") auto
  then show "pt_lookup (pt_join lab b t) (lab @ c # k) = (if c = b then pt_lookup t k else None)"
    by (auto simp: pt_join_def pt_lookup_relabel) (metis append_take_drop_id)+
  show "pt_lookup (pt_join lab b t) k = None" if "take (length lab) k \<noteq> lab"
    using that take_append_prefix [of lab "b # pt_label t" k]
    by (auto simp: pt_join_def pt_lookup_relabel)
  show "pt_lookup (pt_join lab b t) lab = None"
    by (simp add: pt_join_def pt_lookup_relabel)
qed

lemma pt_delete_map:
  "pt_inv n t \<Longrightarrow> length k = n \<Longrightarrow>
    opt_inv n (pt_delete k t) \<and> opt_lookup (pt_delete k t) = (pt_lookup t)(k := None)"
proof (induction t arbitrary: n k)
  case (PFork lab l r)
  show ?case
  proof (cases "take (length lab) k = lab")
    case False
    then have "(pt_lookup (PFork lab l r))(k := None) = pt_lookup (PFork lab l r)"
      by (auto simp: fun_eq_iff)
    then show ?thesis using False PFork.prems by (simp del: pt_lookup.simps)
  next
    case True
    have "length (drop (length lab) k) \<noteq> 0" using PFork.prems by simp
    then obtain b k' where d: "drop (length lab) k = b # k'" by (cases "drop (length lab) k") auto
    then have k: "k = lab @ b # k'" using True by (metis append_take_drop_id)
    then have n: "length k' = n - length lab - 1" "length lab < n" using PFork.prems by auto
    let ?t = "if b then r else l" and ?o = "if b then l else r"
    have inv: "pt_inv (n - length lab - 1) ?t" "pt_inv (n - length lab - 1) ?o" using PFork.prems by auto
    have ih: "opt_inv (n - length lab - 1) (pt_delete k' ?t)
        \<and> opt_lookup (pt_delete k' ?t) = (pt_lookup ?t)(k' := None)"
      using PFork.IH inv(1) n by (cases b) auto
    have del: "pt_delete k (PFork lab l r) = (case pt_delete k' ?t of None \<Rightarrow> Some (pt_join lab (\<not> b) ?o)
        | Some t' \<Rightarrow> Some (if b then PFork lab l t' else PFork lab t' r))"
      using True d by (cases b) (simp_all split: option.split)
    show ?thesis
    proof (cases "pt_delete k' ?t")
      case None
      note j = pt_join_map [OF inv(2) n(2), where b = "\<not> b"]
      have e: "pt_lookup ?t q = None" if "q \<noteq> k'" for q
        using ih that None by (metis fun_upd_other opt_lookup.simps(1))
      have "pt_lookup (pt_join lab (\<not> b) ?o) q = ((pt_lookup (PFork lab l r))(k := None)) q" for q
      proof (cases "take (length lab) q = lab")
        case True
        then obtain q' where q: "q = lab @ q'" by (metis append_take_drop_id)
        show ?thesis
        proof (cases q')
          case Nil
          then show ?thesis using j(4) by (simp add: q)
        next
          case (Cons c q'')
          then show ?thesis using j(2) [of c q''] e [of q''] by (cases b; cases c) (auto simp: q k)
        qed
      next
        case False
        then show ?thesis using j(3) [of q] by simp
      qed
      then have "pt_lookup (pt_join lab (\<not> b) ?o) = (pt_lookup (PFork lab l r))(k := None)" by (rule ext)
      then show ?thesis using j(1) by (simp only: del None option.case opt_inv.simps opt_lookup_Some simp_thms)
    next
      case (Some t')
      have "pt_lookup (if b then PFork lab l t' else PFork lab t' r) q
          = ((pt_lookup (PFork lab l r))(k := None)) q" for q
      proof (cases "take (length lab) q = lab")
        case True
        then obtain q' where q: "q = lab @ q'" by (metis append_take_drop_id)
        show ?thesis using ih Some by (cases q'; cases b) (auto simp: q k)
      qed (cases b; auto simp: k)
      then have "pt_lookup (if b then PFork lab l t' else PFork lab t' r) = (pt_lookup (PFork lab l r))(k := None)"
        by (rule ext)
      moreover have "pt_inv n (if b then PFork lab l t' else PFork lab t' r)"
        using ih Some PFork.prems by (cases b) auto
      ultimately show ?thesis by (simp only: del Some option.case opt_inv.simps opt_lookup_Some simp_thms)
    qed
  qed
qed auto

section \<open>The contract of a map\<close>

locale key_map =
  fixes key_ok :: "'k \<Rightarrow> bool"
    and val_ok :: "'v \<Rightarrow> bool"
    and inv :: "'m \<Rightarrow> bool"
    and empty :: "'m"
    and lookup :: "'m \<Rightarrow> 'k \<Rightarrow> 'v option"
    and insert :: "'k \<Rightarrow> 'v \<Rightarrow> 'm \<Rightarrow> 'm"
    and delete :: "'k \<Rightarrow> 'm \<Rightarrow> 'm"
  assumes inv_empty: "inv empty"
    and lookup_empty: "key_ok k \<Longrightarrow> lookup empty k = None"
    and inv_insert: "inv m \<Longrightarrow> key_ok k \<Longrightarrow> val_ok v \<Longrightarrow> inv (insert k v m)"
    and lookup_insert: "inv m \<Longrightarrow> key_ok k \<Longrightarrow> val_ok v \<Longrightarrow> key_ok j \<Longrightarrow>
      lookup (insert k v m) j = (if j = k then Some v else lookup m j)"
    and inv_delete: "inv m \<Longrightarrow> key_ok k \<Longrightarrow> inv (delete k m)"
    and lookup_delete: "inv m \<Longrightarrow> key_ok k \<Longrightarrow> key_ok j \<Longrightarrow>
      lookup (delete k m) j = (if j = k then None else lookup m j)"
begin

lemma inv_insert_all:
  "inv m \<Longrightarrow> list_all (\<lambda>(k, v). key_ok k \<and> val_ok v) kvs \<Longrightarrow> inv (fold (\<lambda>(k, v). insert k v) kvs m)"
  by (induction kvs arbitrary: m) (auto simp: inv_insert)

lemma lookup_insert_all:
  "inv m \<Longrightarrow> list_all (\<lambda>(k, v). key_ok k \<and> val_ok v) kvs \<Longrightarrow> key_ok j \<Longrightarrow>
    lookup (fold (\<lambda>(k, v). insert k v) kvs m) j
      = (case map_of (rev kvs) j of Some v \<Rightarrow> Some v | None \<Rightarrow> lookup m j)"
  by (induction kvs arbitrary: m)
     (auto simp: inv_insert lookup_insert map_add_def split: option.splits)

lemma delete_insert:
  "inv m \<Longrightarrow> key_ok k \<Longrightarrow> val_ok v \<Longrightarrow> key_ok j \<Longrightarrow> lookup m k = None \<Longrightarrow>
    lookup (delete k (insert k v m)) j = lookup m j"
  by (simp add: inv_insert lookup_insert lookup_delete)

lemma insert_commute:
  "inv m \<Longrightarrow> key_ok k \<Longrightarrow> val_ok v \<Longrightarrow> key_ok k' \<Longrightarrow> val_ok v' \<Longrightarrow> key_ok j \<Longrightarrow> k \<noteq> k' \<Longrightarrow>
    lookup (insert k v (insert k' v' m)) j = lookup (insert k' v' (insert k v m)) j"
  by (simp add: inv_insert lookup_insert)

end

interpretation tree_map: key_map "\<lambda>k. length k = n" "\<lambda>_. True" "opt_inv n" None opt_lookup opt_insert opt_delete
  for n :: nat
proof unfold_locales
  fix m :: "ptree option" and k j :: "bool list" and v :: dict_value
  assume m: "opt_inv n m" and k: "length k = n"
  show "opt_inv n (opt_insert k v m)"
    using m k pt_insert_map [of n _ k v] by (cases m) (auto simp: opt_insert_def)
  show "opt_lookup (opt_insert k v m) j = (if j = k then Some v else opt_lookup m j)"
    using m k pt_insert_map [of n _ k v] by (cases m) (auto simp: opt_insert_def)
  show "opt_inv n (opt_delete k m)"
    using m k pt_delete_map [of n _ k] by (cases m) (auto simp: opt_delete_def)
  show "opt_lookup (opt_delete k m) j = (if j = k then None else opt_lookup m j)"
    using m k pt_delete_map [of n _ k] by (cases m) (auto simp: opt_delete_def)
qed simp_all

end
