(* ===== verification/Dict_Rep.thy ===== *)
theory Dict_Rep
  imports Dict_Tree
begin

text \<open>
  Cells that store a Patricia tree, and the construction of edges. \<open>rep K D V n c t\<close>: the cell \<open>c\<close> stores
  the tree \<open>t\<close> for keys of \<open>n\<close> bits; its values have at most \<open>V\<close> bits and references that are at most
  \<open>D\<close> deep. \<open>room D V n\<close> is what the operations need to never overflow: the longest label and value fit
  into 1023 bits, and the tree stays below the maximal depth.
\<close>

definition room :: "nat \<Rightarrow> nat \<Rightarrow> nat \<Rightarrow> bool" where
  "room D V n \<longleftrightarrow> n \<le> MAX_KEY_LEN \<and> 2 + bits_for_len n + n + V \<le> 1023 \<and> D + 1 + n < 65535"

text \<open>
  With \<open>K = Some sha\<close> the cells are also canonical: every edge is what the builder makes of the shortest
  label, so the cell is a function of the tree. \<open>K = None\<close> admits any encoding of the labels.
\<close>

definition canon :: "sha256 option \<Rightarrow> bool list \<Rightarrow> cell list \<Rightarrow> cell \<Rightarrow> bool" where
  "canon K bs rs c \<longleftrightarrow> (case K of None \<Rightarrow> True | Some sha \<Rightarrow> build_ext sha (mk_cb bs rs) = Ok c)"

abbreviation canon_by :: "sha256 \<Rightarrow> sha256 option \<Rightarrow> bool" where
  "canon_by sha K \<equiv> K = None \<or> K = Some sha"

lemma canonI: "canon_by sha K \<Longrightarrow> build_ext sha (mk_cb bs rs) = Ok c \<Longrightarrow> canon K bs rs c"
  by (auto simp: canon_def)

fun rep :: "sha256 option \<Rightarrow> nat \<Rightarrow> nat \<Rightarrow> nat \<Rightarrow> cell \<Rightarrow> ptree \<Rightarrow> bool" where
  "rep K D V n c (PLeaf lab vb vr) \<longleftrightarrow>
     length lab = n \<and> length vb \<le> V \<and> list_all (depth_le D) vr \<and> depth_le (D + 1 + n) c
     \<and> holds c (cell_bits c) vr \<and> parse_label n (cell_bits c) = Some (lab, vb)
     \<and> canon K (label_bits n lab @ vb) vr c"
| "rep K D V n c (PFork lab l r) \<longleftrightarrow>
     length lab < n \<and> depth_le (D + 1 + n) c \<and> parse_label n (cell_bits c) = Some (lab, [])
     \<and> (\<exists>lc rc. holds c (cell_bits c) [lc, rc] \<and> canon K (label_bits n lab) [lc, rc] c
          \<and> rep K D V (n - length lab - 1) lc l \<and> rep K D V (n - length lab - 1) rc r)"

fun pt_rest :: "ptree \<Rightarrow> bool list" where
  "pt_rest (PLeaf _ vb _) = vb"
| "pt_rest (PFork _ _ _) = []"

lemma bits_for_len_mono: "n \<le> m \<Longrightarrow> m < 65536 \<Longrightarrow> bits_for_len n \<le> bits_for_len m"
  using bits_for_len_less [of m] by (intro bits_for_len_small bits_for_len_le) simp

lemma room_mono: "room D V n \<Longrightarrow> n' \<le> n \<Longrightarrow> room D V n'"
  using bits_for_len_mono [of n' n] by (simp add: room_def MAX_KEY_LEN_def)

lemma room_len: "room D V n \<Longrightarrow> n \<le> MAX_KEY_LEN" "room D V n \<Longrightarrow> n \<le> 1023"
  by (simp_all add: room_def MAX_KEY_LEN_def)

lemma depth_le_mono: "depth_le a c \<Longrightarrow> a \<le> b \<Longrightarrow> depth_le b c"
  by (auto simp: depth_le_def list_all_iff intro: le_trans)

lemma holds_refs_wf: "holds c bs rs \<Longrightarrow> list_all wf_cell rs"
  using wf_cell_children(4) [of c] by (simp add: holds_def)

lemma rep_inv: "rep K D V n c t \<Longrightarrow> pt_inv n t"
  by (induction t arbitrary: n c) auto

lemma rep_edge:
  assumes "rep K D V n c t"
  shows "holds c (cell_bits c) (cell_children c)"
    and "parse_label n (cell_bits c) = Some (pt_label t, pt_rest t)"
    and "depth_le (D + 1 + n) c"
  using assms by (cases t; auto simp: holds_def)+

text \<open>Reading an edge: the label, and the rest of the cell.\<close>

lemma read_edge:
  assumes "rep K D V n c t" "n \<le> 1023"
  obtains l s where "slice_new c = Ok (slice_new_allow_exotic c)"
    "read_label (slice_new_allow_exotic c) n = Ok (l, s)"
    "wf_slice l" "slice_bits l = pt_label t"
    "wf_slice s" "slice_bits s = pt_rest t" "slice_refs s = cell_children c" "sl_cell s = c"
    "\<not> is_virtual c"
proof -
  note e = rep_edge [OF assms(1)]
  note h = holds_slice [OF e(1)]
  let ?s = "slice_new_allow_exotic c"
  from read_label_spec [OF h(2) assms(2)] obtain l k where
    "read_label ?s n = Ok (l, advance ?s k)" "wf_slice l" "slice_bits l = pt_label t"
    "k \<le> size_bits ?s" "drop k (slice_bits ?s) = pt_rest t"
    unfolding h(3) e(2) by (auto simp: label_result_def)
  then show thesis
    using h holds_not_virtual [OF e(1)]
    by (intro that [of l "advance ?s k"]) (simp_all add: wf_advance slice_bits_advance)
qed

text \<open>The length of the shortest label is at most that of the long one.\<close>

lemma label_bits_length: "length (label_bits n bs) \<le> 2 + bits_for_len n + length bs"
proof (cases "n = 0 \<or> bs = []")
  case False
  then have "n \<noteq> 0" "bs \<noteq> []" by auto
  then show ?thesis by (cases rule: label_bits_cases) auto
qed (simp add: label_bits_def)

text \<open>
  Building an edge: the label, then \<open>rest\<close> and \<open>refs\<close>. \<open>appends\<close> is the contract of the stored value.
\<close>

lemma make_edge:
  assumes "room D V n" "length lab \<le> n" "length rest \<le> V" "length refs \<le> 4" "list_all wf_cell refs"
    and "d < 65535" "list_all (depth_le d) refs"
  obtains c where "build_ext sha (mk_cb (label_bits n lab @ rest) refs) = Ok c"
    "holds c (label_bits n lab @ rest) refs" "cell_bits c = label_bits n lab @ rest" "depth_le (d + 1) c"
    "parse_label n (cell_bits c) = Some (lab, rest)"
proof -
  have "length (label_bits n lab @ rest) \<le> 1023"
    using assms(1-3) label_bits_length [of n lab] by (simp add: room_def)
  from build_ext_ok [OF this assms(4,5,6,7)] obtain c
    where c: "build_ext sha (mk_cb (label_bits n lab @ rest) refs) = Ok c"
      "holds c (label_bits n lab @ rest) refs" "depth_le (d + 1) c" .
  moreover have "cell_bits c = label_bits n lab @ rest" using c(2) by (simp add: holds_def)
  ultimately show thesis
    using that [of c] assms(1,2) room_len(1) parse_label_bits [of lab n rest] by simp
qed

lemma make_leaf_builds:
  assumes "wf_slice key" "size_bits key \<le> n" "room D V n" "appends value vb vr"
    and "length vb \<le> V" "length vr \<le> 4"
  shows "make_leaf sha key n value = build_ext sha (mk_cb (label_bits n (slice_bits key) @ vb) vr)"
proof -
  have "length (label_bits n (slice_bits key) @ vb) \<le> 1023"
    using assms label_bits_length [of n "slice_bits key"] by (simp add: room_def)
  then have "ok (write_label key n cb_new) value = Ok (mk_cb (label_bits n (slice_bits key) @ vb) vr)"
    using appendsD [OF appends_bind [OF appends_write_label [OF assms(1,2) room_len(1) [OF assms(3)]] assms(4)],
        of "[]" "[]"] assms(6)
    by (simp add: cb_new_mk cb_appended_def MAX_BIT_LEN_def MAX_REF_COUNT_def)
  then show ?thesis by (auto simp: make_leaf_def ok_eq_Ok_iff)
qed

text \<open>A value that can be stored in the dictionary.\<close>

definition value_ok :: "nat \<Rightarrow> nat \<Rightarrow> dict_value \<Rightarrow> bool" where
  "value_ok D V v \<longleftrightarrow> length (fst v) \<le> V \<and> length (snd v) \<le> 4 \<and> list_all wf_cell (snd v)
     \<and> list_all (depth_le D) (snd v)"

lemma make_leaf_rep:
  assumes "wf_slice key" "size_bits key = n" "room D V n" "appends value (fst v) (snd v)" "value_ok D V v"
    and "canon_by sha K"
  obtains c where "make_leaf sha key n value = Ok c" "rep K D V n c (PLeaf (slice_bits key) (fst v) (snd v))"
proof -
  from assms(5) have v: "length (fst v) \<le> V" "length (snd v) \<le> 4" "list_all wf_cell (snd v)"
    "list_all (depth_le D) (snd v)" by (simp_all add: value_ok_def)
  have d: "D < 65535" using assms(3) by (simp add: room_def)
  have l: "length (slice_bits key) \<le> n" using assms(2) by simp
  from make_edge [OF assms(3) l v(1-3) d v(4), of sha] obtain c
    where c: "build_ext sha (mk_cb (label_bits n (slice_bits key) @ fst v) (snd v)) = Ok c"
      "holds c (label_bits n (slice_bits key) @ fst v) (snd v)"
      "cell_bits c = label_bits n (slice_bits key) @ fst v"
      "depth_le (D + 1) c" "parse_label n (cell_bits c) = Some (slice_bits key, fst v)" .
  have "make_leaf sha key n value = Ok c"
    using make_leaf_builds [OF assms(1) _ assms(3,4) v(1,2)] assms(2) c(1) by simp
  moreover have "depth_le (D + 1 + n) c" using c(4) by (rule depth_le_mono) simp
  ultimately show thesis using that c v assms(2) canonI [OF assms(6) c(1)] by auto
qed

text \<open>Moving the content of an edge under another label, for keys that are longer or shorter by as much.\<close>

lemma rep_relabel:
  assumes "rep K D V n c t" "room D V n'" "length lab + n = length (pt_label t) + n'" "canon_by sha K"
  obtains c' where "build_ext sha (mk_cb (label_bits n' lab @ pt_rest t) (cell_children c)) = Ok c'"
    "rep K D V n' c' (pt_relabel lab t)"
proof -
  note e = rep_edge [OF assms(1)]
  note w = holds_refs_wf [OF e(1)] holds_length(2) [OF e(1)]
  have l: "length lab \<le> n'" using assms(3) pt_inv_label [OF rep_inv [OF assms(1)]] by simp
  show thesis
  proof (cases t)
    case (PLeaf lab0 vb vr)
    with assms(1) have v: "length vb \<le> V" "list_all (depth_le D) vr" "cell_children c = vr" "length lab = n'"
      using assms(3) by (auto simp: holds_def)
    have d: "D < 65535" using assms(2) by (simp add: room_def)
    from make_edge [OF assms(2) l v(1) w(2,1) d, of sha] v(2,3) obtain c'
      where c: "build_ext sha (mk_cb (label_bits n' lab @ vb) (cell_children c)) = Ok c'"
        "holds c' (label_bits n' lab @ vb) vr" "cell_bits c' = label_bits n' lab @ vb"
        "depth_le (D + 1) c'" "parse_label n' (cell_bits c') = Some (lab, vb)" by auto
    moreover have "depth_le (D + 1 + n') c'" using c(4) by (rule depth_le_mono) simp
    ultimately show thesis using v that [of c'] canonI [OF assms(4), of _ vr] by (simp add: PLeaf)
  next
    case (PFork lab0 a b)
    let ?m = "n - length lab0 - 1"
    from assms(1) obtain lc rc where f: "length lab0 < n" "cell_children c = [lc, rc]"
      "rep K D V ?m lc a" "rep K D V ?m rc b"
      by (auto simp: PFork holds_def)
    have m: "?m = n' - length lab - 1" "?m + 1 \<le> n'" "length lab < n'" using assms(3) f(1) by (auto simp: PFork)
    have d: "D + 1 + ?m < 65535" using assms(2) m(2) unfolding room_def by linarith
    have dl: "list_all (depth_le (D + 1 + ?m)) [lc, rc]"
      using rep_edge(3) [OF f(3)] rep_edge(3) [OF f(4)] by simp
    from make_edge [OF assms(2) l _ w(2,1) d, of "[]" sha] dl obtain c'
      where c: "build_ext sha (mk_cb (label_bits n' lab @ []) (cell_children c)) = Ok c'"
        "holds c' (label_bits n' lab @ []) [lc, rc]" "cell_bits c' = label_bits n' lab @ []"
        "depth_le (D + 1 + ?m + 1) c'" "parse_label n' (cell_bits c') = Some (lab, [])"
      unfolding f(2) by auto
    moreover have "depth_le (D + 1 + n') c'" using c(4) by (rule depth_le_mono) (use m in simp)
    ultimately show thesis using f m that [of c'] canonI [OF assms(4), of _ "[lc, rc]"] by (auto simp: PFork)
  qed
qed

text \<open>A fork of two trees.\<close>

lemma rep_fork:
  assumes "room D V n" "length lab < n" "rep K D V (n - length lab - 1) lc l" "rep K D V (n - length lab - 1) rc r" "canon_by sha K"
  obtains c where "build_ext sha (mk_cb (label_bits n lab) [lc, rc]) = Ok c" "rep K D V n c (PFork lab l r)"
proof -
  let ?m = "n - length lab - 1"
  have w: "list_all wf_cell [lc, rc]"
    using rep_edge(1) [OF assms(3)] rep_edge(1) [OF assms(4)] by (simp add: holds_def)
  have m: "?m + 1 \<le> n" using assms(2) by simp
  then have d: "D + 1 + ?m < 65535" using assms(1) unfolding room_def by linarith
  have dl: "list_all (depth_le (D + 1 + ?m)) [lc, rc]"
    using rep_edge(3) [OF assms(3)] rep_edge(3) [OF assms(4)] by simp
  from make_edge [OF assms(1) less_imp_le [OF assms(2)] _ _ w d dl, of "[]" sha] obtain c
    where c: "build_ext sha (mk_cb (label_bits n lab) [lc, rc]) = Ok c"
      "holds c (label_bits n lab) [lc, rc]" "cell_bits c = label_bits n lab"
      "depth_le (D + 1 + ?m + 1) c" "parse_label n (cell_bits c) = Some (lab, [])" by auto
  moreover have "depth_le (D + 1 + n) c" using c(4) by (rule depth_le_mono) (use assms(2) in simp)
  ultimately show thesis using assms(2-4) that [of c] canonI [OF assms(5) c(1)] by auto
qed

end
