(* ===== verification/Dict_Ops_Props.thy ===== *)
theory Dict_Ops_Props
  imports Dict_Rep
begin

text \<open>
  The dictionary operations on cells implement those on trees: \<open>dict_get\<close> is \<open>pt_lookup\<close>, a successful
  \<open>dict_insert\<close> is \<open>pt_insert\<close> and \<open>dict_remove_owned\<close> is \<open>pt_delete\<close>, with the exact flag and removed
  value, and none of them fails on a dictionary with room.
\<close>

section \<open>Keys\<close>

text \<open>A key is a well-formed slice; what the loops do with it, on its bits.\<close>

lemma is_data_empty_size: "is_data_empty s \<longleftrightarrow> size_bits s = 0"
  using length_slice_bits [of s] by (metis is_data_empty_iff length_0_conv)

lemma strip_key:
  assumes "wf_slice key" "wf_slice l" "length (slice_bits l) \<le> size_bits key"
  shows "strip_data_prefix key l =
    (if take (length (slice_bits l)) (slice_bits key) = slice_bits l
     then Some (advance key (length (slice_bits l))) else None)"
    and "wf_slice (advance key (length (slice_bits l)))"
    and "slice_bits (advance key (length (slice_bits l))) = drop (length (slice_bits l)) (slice_bits key)"
  using assms by (simp_all add: strip_data_prefix_spec wf_advance slice_bits_advance)

lemma lcp_key:
  assumes "wf_slice key" "wf_slice l"
  shows "size_bits (longest_common_data_prefix key l) = lcp_len (slice_bits key) (slice_bits l)"
  using longest_common_data_prefix_spec(3) [OF assms] .

lemma skip_key:
  assumes "wf_slice key" "m \<le> size_bits key"
  shows "(case skip_first key m 0 of Inr k \<Rightarrow> k | Inl e \<Rightarrow> key) = advance key m"
    and "wf_slice (advance key m)" "slice_bits (advance key m) = drop m (slice_bits key)"
  using assms wf_sliceD(7) [OF assms(1)]
  by (simp_all add: skip_first_advance wf_advance slice_bits_advance)

lemma lcp_len_prefix: "lcp_len (xs @ ys) xs = length xs"
  using lcp_len_append [of xs ys "[]"] by simp

text \<open>The step from a fork to the child that the next bit of the key selects.\<close>

lemma fork_step:
  assumes "rep K D V n c (PFork lab l r)" "slice_bits key = lab @ b # k'" "wf_slice key" "size_bits key = n"
  defines "m \<equiv> n - length lab - 1"
  obtains lc rc where "holds c (cell_bits c) [lc, rc]" "cell_children c = [lc, rc]"
    "rep K D V m lc l" "rep K D V m rc r"
    "reference c (of_bool b) = Some (if b then rc else lc)"
    "cell_reference_count c = 2"
    "load_bit (advance key (length lab)) = Ok (b, advance (advance key (length lab)) 1)"
    "wf_slice (advance (advance key (length lab)) 1)"
    "slice_bits (advance (advance key (length lab)) 1) = k'"
    "size_bits (advance (advance key (length lab)) 1) = m" "m < n"
proof -
  from assms(1) obtain lc rc where f: "holds c (cell_bits c) [lc, rc]" "rep K D V m lc l" "rep K D V m rc r"
    by (auto simp: m_def)
  have n: "n = length lab + 1 + length k'" using assms(2,4) length_slice_bits [of key] by simp
  then have a: "wf_slice (advance key (length lab))" "slice_bits (advance key (length lab)) = b # k'"
    using skip_key [OF assms(3), of "length lab"] assms(2,4) by simp_all
  note a2 = advance_Cons [OF a]
  have "size_bits (advance (advance key (length lab)) 1) = m"
    using a2(2) length_slice_bits [of "advance (advance key (length lab)) 1"] n by (simp add: m_def)
  moreover have "reference c (of_bool b) = Some (if b then rc else lc)"
    using holds_reference(1) [OF f(1)] by (cases b) (simp_all add: nth_opt_def)
  moreover have "cell_children c = [lc, rc]" using f(1) by (simp add: holds_def)
  ultimately show thesis
    using f a2 load_bit_Cons [OF a] holds_reference(3) [OF f(1)] n
    by (intro that [of lc rc]) (simp_all add: m_def)
qed

section \<open>Lookup\<close>

text \<open>The value a slice reads: its bits and its references.\<close>

definition slice_value :: "cell_slice \<Rightarrow> dict_value" where
  "slice_value s = (slice_bits s, slice_refs s)"

lemma rep_leaf_value:
  "rep K D V n c (PLeaf lab vb vr) \<Longrightarrow> slice_bits s = vb \<Longrightarrow> slice_refs s = cell_children c \<Longrightarrow>
    slice_value s = (vb, vr)"
  by (simp add: slice_value_def holds_def)

text \<open>The last conjunct of a tree that is matched to the end: it is a leaf with that label.\<close>

lemma pt_match_cases:
  assumes "pt_inv n t" "length k = n" "take (length (pt_label t)) k = pt_label t"
  obtains (leaf) vb vr where "t = PLeaf k vb vr"
  | (fork) lab l r b k' where "t = PFork lab l r" "k = lab @ b # k'"
proof (cases t)
  case (PLeaf lab vb vr)
  then show thesis using assms leaf [of vb vr] by simp
next
  case (PFork lab l r)
  then have "length (drop (length lab) k) \<noteq> 0" using assms by simp
  then obtain b k' where "drop (length lab) k = b # k'" by (cases "drop (length lab) k") auto
  then have "k = lab @ b # k'" using assms(3) PFork by (metis append_take_drop_id pt_label.simps(2))
  with PFork show thesis by (rule fork)
qed

lemma dict_get_loop_spec:
  "rep K D V n c t \<Longrightarrow> n \<le> 1023 \<Longrightarrow> wf_slice key \<Longrightarrow> size_bits key = n \<Longrightarrow>
    \<exists>res. dict_get_loop c key = Ok res \<and> map_option slice_value res = pt_lookup t (slice_bits key)
      \<and> (\<forall>s. res = Some s \<longrightarrow> wf_slice s)"
proof (induction t arbitrary: n c key)
  case (PLeaf lab vb vr)
  let ?k = "slice_bits key"
  from read_edge [OF PLeaf.prems(1,2), unfolded pt_label.simps pt_rest.simps] obtain l s
    where r: "slice_new c = Ok (slice_new_allow_exotic c)"
      "read_label (slice_new_allow_exotic c) n = Ok (l, s)" "wf_slice l" "slice_bits l = lab"
      "wf_slice s" "slice_bits s = vb" "slice_refs s = cell_children c" "sl_cell s = c" "\<not> is_virtual c" .
  have n: "length lab = n" using PLeaf.prems(1) by simp
  note st = strip_key [OF PLeaf.prems(3) r(3), unfolded r(4), OF eq_refl]
  have e: "is_data_empty (advance key (length lab))"
    using st(3) n PLeaf.prems(4) by (simp add: is_data_empty_iff)
  have take: "take (length lab) ?k = ?k" using n PLeaf.prems(4) by simp
  show ?case
  proof (cases "?k = lab")
    case True
    then have "dict_get_loop c key = Ok (Some s)"
      using r st(1) e n PLeaf.prems(4) take
      by (subst dict_get_loop.simps) (simp add: Let_def)
    moreover have "slice_value s = (vb, vr)" using rep_leaf_value [OF PLeaf.prems(1) r(6,7)] .
    ultimately show ?thesis using True r(5) by simp
  next
    case False
    then have "n \<noteq> 0" using n PLeaf.prems(4) by (metis length_0_conv length_slice_bits)
    then have "\<not> is_data_empty key"
      using PLeaf.prems(4) by (simp add: is_data_empty_size)
    then have "dict_get_loop c key = Ok None"
      using r st(1) n PLeaf.prems(4) take False
      by (subst dict_get_loop.simps) (simp add: Let_def)
    then show ?thesis using False by simp
  qed
next
  case (PFork lab l r)
  let ?k = "slice_bits key"
  from read_edge [OF PFork.prems(1,2), unfolded pt_label.simps pt_rest.simps] obtain lb s
    where rd: "slice_new c = Ok (slice_new_allow_exotic c)"
      "read_label (slice_new_allow_exotic c) n = Ok (lb, s)" "wf_slice lb" "slice_bits lb = lab"
      "wf_slice s" "slice_bits s = []" "slice_refs s = cell_children c" "sl_cell s = c" "\<not> is_virtual c" .
  have n: "length lab < n" using PFork.prems(1) by simp
  then have "length (slice_bits lb) \<le> size_bits key" using rd(4) PFork.prems(4) by simp
  note st = strip_key [OF PFork.prems(3) rd(3) this, unfolded rd(4)]
  have ne: "\<not> is_data_empty key" "\<not> is_data_empty (advance key (length lab))"
    using n PFork.prems(3,4) by (simp_all add: is_data_empty_size size_bits_advance)
  show ?case
  proof (cases "take (length lab) ?k = lab")
    case False
    then have "dict_get_loop c key = Ok None"
      using rd st(1) ne PFork.prems(4)
      by (subst dict_get_loop.simps) (simp add: Let_def)
    then show ?thesis using False by simp
  next
    case True
    have "length (drop (length lab) ?k) \<noteq> 0" using n PFork.prems(4) by simp
    then obtain b k' where "drop (length lab) ?k = b # k'" by (cases "drop (length lab) ?k") auto
    then have k: "?k = lab @ b # k'" using True by (metis append_take_drop_id)
    obtain lc rc where f: "cell_children c = [lc, rc]"
      "rep K D V (n - length lab - 1) lc l" "rep K D V (n - length lab - 1) rc r"
      "reference c (of_bool b) = Some (if b then rc else lc)"
      "load_bit (advance key (length lab)) = Ok (b, advance (advance key (length lab)) 1)"
      "wf_slice (advance (advance key (length lab)) 1)"
      "slice_bits (advance (advance key (length lab)) 1) = k'"
      "size_bits (advance (advance key (length lab)) 1) = n - length lab - 1" "n - length lab - 1 < n"
      using fork_step [OF PFork.prems(1) k PFork.prems(3,4)] by metis
    have "size_refs s = 2" using rd(7) f(1) length_slice_refs [of s] by simp
    then have e: "dict_get_loop c key
        = dict_get_loop (if b then rc else lc) (advance (advance key (length lab)) 1)"
      using rd st(1) ne PFork.prems(4) f(4,5) True
      by (subst dict_get_loop.simps) (simp add: Let_def)
    have m: "n - length lab - 1 \<le> 1023" using PFork.prems(2) by simp
    note ih = PFork.IH(1) [OF f(2) m f(6,8)] PFork.IH(2) [OF f(3) m f(6,8)]
    show ?thesis
    proof (cases b)
      case True
      then show ?thesis using ih(2) unfolding e k f(7) by simp
    next
      case False
      then show ?thesis using ih(1) unfolding e k f(7) by simp
    qed
  qed
qed

text \<open>The conclusion of the lookup loop for a dictionary, stated of \<open>dict_get\<close> itself.\<close>

lemma dict_get_spec:
  assumes "rep K D V n c t" "n \<le> 1023" "wf_slice key" "size_bits key = n"
  obtains res where "dict_get (Some c) n key = Ok res"
    "map_option slice_value res = pt_lookup t (slice_bits key)"
  using dict_get_loop_spec [OF assms] assms(4) by (auto simp: dict_get_def)

section \<open>Insertion\<close>

lemma build_fork:
  assumes "wf_slice lb" "size_bits lb \<le> n" "room D V n"
  shows "ok (write_label lb n cb_new) (\<lambda>builder. ok (store_reference builder a) (\<lambda>builder.
      ok (store_reference builder b) (\<lambda>builder. build_ext sha builder)))
    = build_ext sha (mk_cb (label_bits n (slice_bits lb)) [a, b])"
proof -
  have l: "length (label_bits n (slice_bits lb)) \<le> 1023"
    using assms(2,3) label_bits_length [of n "slice_bits lb"] by (simp add: room_def)
  then have "write_label lb n cb_new = Ok (mk_cb (label_bits n (slice_bits lb)) [])"
    using appendsD [OF appends_write_label [OF assms(1,2) room_len(1) [OF assms(3)]], of "[]" "[]"]
    by (simp add: cb_new_mk cb_appended_def MAX_BIT_LEN_def MAX_REF_COUNT_def)
  then show ?thesis
    using l by (simp add: store_reference_mk cb_appended_def MAX_BIT_LEN_def MAX_REF_COUNT_def)
qed

lemma pt_rest_length: "rep K D V n c t \<Longrightarrow> length (pt_rest t) \<le> V"
  by (cases t) auto

text \<open>The rest of an edge, stored under a label.\<close>

lemma make_leaf_relabel:
  assumes "rep K D V n c t" "room D V n'" "size_bits lb + n = length (pt_label t) + n'" "wf_slice lb"
    and "wf_slice s" "slice_bits s = pt_rest t" "slice_refs s = cell_children c" "sl_cell s = c"
    and "canon_by sha K"
  obtains c' where "make_leaf sha lb n' (\<lambda>b. store_slice b s) = Ok c'"
    "rep K D V n' c' (pt_relabel (slice_bits lb) t)"
proof -
  note e = rep_edge [OF assms(1)]
  have "appends (\<lambda>b. store_slice b s) (pt_rest t) (cell_children c)"
    using appends_store_slice [OF assms(5)] holds_not_virtual [OF e(1)] assms(6-8) by simp
  moreover have "size_bits lb \<le> n'" using assms(3) pt_inv_label [OF rep_inv [OF assms(1)]] by simp
  ultimately have "make_leaf sha lb n' (\<lambda>b. store_slice b s)
      = build_ext sha (mk_cb (label_bits n' (slice_bits lb) @ pt_rest t) (cell_children c))"
    using make_leaf_builds [OF assms(4) _ assms(2)] pt_rest_length [OF assms(1)]
      holds_length(2) [OF e(1)] by simp
  moreover have "length (slice_bits lb) + n = length (pt_label t) + n'" using assms(3) by simp
  ultimately show thesis using rep_relabel [OF assms(1,2) _ assms(9)] that by metis
qed

lemma split_edge_spec:
  assumes "rep K D V n c t" "room D V n" "wf_slice key" "size_bits key = n"
    and "wf_slice p" "slice_bits p = pt_label t"
    and "wf_slice s" "slice_bits s = pt_rest t" "slice_refs s = cell_children c" "sl_cell s = c"
    and "take (length (pt_label t)) (slice_bits key) \<noteq> pt_label t"
    and "appends value (fst v) (snd v)" "value_ok D V v" "canon_by sha K"
  obtains c' where "split_edge sha s p (longest_common_data_prefix key p) key value = Ok c'"
    "rep K D V n c' (pt_split (lcp_len (slice_bits key) (pt_label t)) (slice_bits key) v t)"
proof -
  let ?lcp = "longest_common_data_prefix key p"
  have "length (pt_label t) \<le> length (slice_bits key)"
    using pt_inv_label [OF rep_inv [OF assms(1)]] assms(4) by simp
  from diverge [OF this assms(11)] obtain q x ks ls
    where d: "slice_bits key = q @ x # ks" "pt_label t = q @ (\<not> x) # ls"
      "lcp_len (slice_bits key) (pt_label t) = length q" .
  have n: "n = length q + 1 + length ks" using d(1) assms(4) length_slice_bits [of key] by simp
  define n1 where "n1 = length ks"
  note l = longest_common_data_prefix_spec [OF assms(3,5)]
  have lcp: "wf_slice ?lcp" "slice_bits ?lcp = q" "size_bits ?lcp = length q"
    using l d(1,3) assms(6) by simp_all
  have sp: "size_bits p = length q + 1 + length ls" using assms(6) d(2) length_slice_bits [of p] by simp
  have key: "skip_first key (length q + 1) 0 = Ok (advance key (length q + 1))"
    "wf_slice (advance key (length q + 1))" "slice_bits (advance key (length q + 1)) = ks"
    "size_bits (advance key (length q + 1)) = n1"
    using assms(3,4) n d(1) wf_sliceD(7) [OF assms(3)]
    by (simp_all add: skip_first_advance wf_advance slice_bits_advance size_bits_advance n1_def)
  have pre: "(case skip_first p (length q) 0 of Inr r \<Rightarrow> r | Inl e \<Rightarrow> p) = advance p (length q)"
    "wf_slice (advance p (length q))" "slice_bits (advance p (length q)) = (\<not> x) # ls"
    using skip_key [OF assms(5), of "length q"] sp assms(6) d(2) by simp_all
  note pre2 = advance_Cons [OF pre(2,3)]
  have "size_bits (advance (advance p (length q)) 1) = length ls" using pre2(2) length_slice_bits by metis
  then have sl: "size_bits (advance (advance p (length q)) 1) + n = length (pt_label t) + n1"
    using n d(2) by (simp add: n1_def)
  have r1: "room D V n1" using room_mono [OF assms(2)] n by (simp add: n1_def)
  obtain old where old: "make_leaf sha (advance (advance p (length q)) 1) n1 (\<lambda>b. store_slice b s) = Ok old"
    "rep K D V n1 old (pt_relabel ls t)"
    using make_leaf_relabel [OF assms(1) r1 sl pre2(1) assms(7-10,14)] pre2(2) by metis
  obtain new where new: "make_leaf sha (advance key (length q + 1)) n1 value = Ok new"
    "rep K D V n1 new (PLeaf ks (fst v) (snd v))"
    using make_leaf_rep [OF key(2,4) r1 assms(12-14)] key(3) by metis
  let ?l = "if x then old else new" and ?r = "if x then new else old"
  have m: "n - length q - 1 = n1" "length q < n" using n by (simp_all add: n1_def)
  have "rep K D V (n - length q - 1) ?l (if x then pt_relabel ls t else PLeaf ks (fst v) (snd v))"
    "rep K D V (n - length q - 1) ?r (if x then PLeaf ks (fst v) (snd v) else pt_relabel ls t)"
    unfolding m(1) using old(2) new(2) by (cases x; simp)+
  from rep_fork [OF assms(2) m(2) this assms(14)] obtain c'
    where c': "build_ext sha (mk_cb (label_bits n q) [?l, ?r]) = Ok c'"
      "rep K D V n c' (PFork q (if x then pt_relabel ls t else PLeaf ks (fst v) (snd v))
        (if x then PLeaf ks (fst v) (snd v) else pt_relabel ls t))" .
  have bf: "ok (write_label ?lcp n cb_new) (\<lambda>builder. ok (store_reference builder a) (\<lambda>builder.
      ok (store_reference builder b) (\<lambda>builder. build_ext sha builder)))
    = build_ext sha (mk_cb (label_bits n q) [a, b])" for a b
    using build_fork [OF lcp(1) _ assms(2), where sha = sha and a = a and b = b] lcp(2,3) m(2) by simp
  have "split_edge sha s p ?lcp key value = build_ext sha (mk_cb (label_bits n q) [?l, ?r])"
    using key pre(1) load_bit_Cons [OF pre(2,3)] old(1) new(1) bf
    unfolding split_edge_def Let_def lcp(3) assms(4) by (cases x) simp_all
  moreover have "pt_split (lcp_len (slice_bits key) (pt_label t)) (slice_bits key) v t
      = PFork q (if x then pt_relabel ls t else PLeaf ks (fst v) (snd v))
        (if x then PLeaf ks (fst v) (snd v) else pt_relabel ls t)"
    unfolding d(3) unfolding d(1) by (rule pt_split_parts [OF d(2)])
  ultimately show thesis using that c' by simp
qed

lemma rebuild_fork:
  assumes "rep K D V n c (PFork lab l r)" "room D V n" "rep K D V (n - length lab - 1) c1 t1" "canon_by sha K"
  obtains c' where "\<forall>stack. rebuild_dict_from_stack sha
      (\<lparr>sg_data = c, sg_next_branch = branch_from b, sg_key_bit_len = kl\<rparr> # stack) c1
      = rebuild_dict_from_stack sha stack c'"
    "rep K D V n c' (if b then PFork lab l t1 else PFork lab t1 r)"
proof -
  let ?m = "n - length lab - 1"
  from assms(1) obtain lc rc where f: "holds c (cell_bits c) [lc, rc]" "rep K D V ?m lc l" "rep K D V ?m rc r"
    "length lab < n" "parse_label n (cell_bits c) = Some (lab, [])" "canon K (label_bits n lab) [lc, rc] c" by auto
  let ?rs = "if b then [lc, c1] else [c1, rc]"
  have w: "list_all wf_cell ?rs" "list_all (depth_le (D + 1 + ?m)) ?rs" "length ?rs \<le> 4"
    using rep_edge(1,3) [OF f(2)] rep_edge(1,3) [OF f(3)] rep_edge(1,3) [OF assms(3)]
    by (auto simp: holds_def)
  have m: "?m + 1 \<le> n" using f(4) by simp
  then have d: "D + 1 + ?m < 65535" using assms(2) unfolding room_def by linarith
  have lb: "length (cell_bits c) \<le> 1023" by (rule holds_length(1) [OF f(1)])
  from build_ext_ok [OF lb w(3,1) d w(2), of sha] obtain c'
    where c': "build_ext sha (mk_cb (cell_bits c) ?rs) = Ok c'" "holds c' (cell_bits c) ?rs"
      "depth_le (D + 1 + ?m + 1) c'" .
  have "wf_cell c" using f(1) by (simp add: holds_def)
  then have cd: "on_inner (\<lambda>d. store_cell_data d c) cb_new = Ok (mk_cb (cell_bits c) [])"
    using appendsD [OF appends_store_cell_data [of c], of "[]" "[]"] lb
    by (simp add: cb_new_mk cb_appended_def MAX_BIT_LEN_def MAX_REF_COUNT_def)
  have r: "reference_cloned c 0 = Some lc" "reference_cloned c 1 = Some rc"
    using holds_reference(2) [OF f(1)] by (simp_all add: nth_opt_def)
  show thesis
  proof
    show "\<forall>stack. rebuild_dict_from_stack sha
        (\<lparr>sg_data = c, sg_next_branch = branch_from b, sg_key_bit_len = kl\<rparr> # stack) c1
        = rebuild_dict_from_stack sha stack c'"
      using r cd c'(1) lb
      by (cases b) (simp_all add: branch_from_def store_reference_mk cb_appended_def MAX_BIT_LEN_def
          MAX_REF_COUNT_def)
  next
    have "cell_bits c' = cell_bits c" using c'(2) by (simp add: holds_def)
    moreover have "depth_le (D + 1 + n) c'" using c'(3) by (rule depth_le_mono) (use m in simp)
    moreover have "canon K (label_bits n lab) ?rs c'"
      using assms(4)
    proof
      assume K: "K = Some sha"
      have "length (label_bits n lab) \<le> 1023"
        using label_bits_length [of n lab] assms(2) f(4) by (simp add: room_def)
      then have "holds c (label_bits n lab) [lc, rc]"
        using f(6) rep_edge(1) [OF f(2)] rep_edge(1) [OF f(3)]
        by (intro build_ext_holds) (auto simp: K canon_def holds_def)
      then have "cell_bits c = label_bits n lab" by (simp add: holds_def)
      then show ?thesis using c'(1) by (simp add: K canon_def)
    qed (simp add: canon_def)
    ultimately show "rep K D V n c' (if b then PFork lab l t1 else PFork lab t1 r)"
      using c'(2) f assms(3) by (cases b) auto
  qed
qed

lemma lcp_label:
  assumes "length lab \<le> length k"
  shows "take (length lab) k = lab \<Longrightarrow> lcp_len k lab = length lab"
    and "take (length lab) k \<noteq> lab \<Longrightarrow> lcp_len k lab < length lab"
proof -
  show "lcp_len k lab = length lab" if "take (length lab) k = lab"
    using lcp_len_prefix [of lab "drop (length lab) k"] that append_take_drop_id [of "length lab" k] by simp
  show "lcp_len k lab < length lab" if "take (length lab) k \<noteq> lab"
    using lcp_len_le(2) [of k lab] lcp_len_full_iff [of k lab] that
    by (metis append_eq_conv_conj le_neq_implies_less)
qed

definition allowed :: "set_mode \<Rightarrow> 'v option \<Rightarrow> bool" where
  "allowed mode old = (case old of None \<Rightarrow> can_add mode | Some _ \<Rightarrow> can_replace mode)"

text \<open>What the loop of \<open>dict_insert\<close> returns, whatever is already on the stack.\<close>

definition insert_result ::
  "sha256 option \<Rightarrow> nat \<Rightarrow> nat \<Rightarrow> nat \<Rightarrow> sha256 \<Rightarrow> ptree \<Rightarrow> bool \<Rightarrow> segment list
    \<Rightarrow> (cell \<times> segment list) option result \<Rightarrow> bool" where
  "insert_result K D V n sha t' go stack res \<longleftrightarrow>
    (if go then \<exists>leaf stk c'. res = Ok (Some (leaf, stk))
        \<and> rebuild_dict_from_stack sha stk leaf = rebuild_dict_from_stack sha stack c' \<and> rep K D V n c' t'
     else res = Ok None)"

lemma insert_resultI:
  "go \<Longrightarrow> rep K D V n c' t' \<Longrightarrow> insert_result K D V n sha t' go stack (Ok (Some (c', stack)))"
  by (auto simp: insert_result_def)

text \<open>The case in which the label of the edge is not a prefix of the key.\<close>

lemma dict_insert_loop_split:
  assumes "rep K D V n c t" "room D V n" "wf_slice key" "size_bits key = n"
    and "appends value (fst v) (snd v)" "value_ok D V v" "canon_by sha K"
    and "take (length (pt_label t)) (slice_bits key) \<noteq> pt_label t"
  shows "insert_result K D V n sha (pt_split (lcp_len (slice_bits key) (pt_label t)) (slice_bits key) v t)
    (can_add mode) stack (dict_insert_loop sha value mode c key stack)"
proof -
  from read_edge [OF assms(1) room_len(2) [OF assms(2)]] obtain l s
    where r: "slice_new c = Ok (slice_new_allow_exotic c)"
      "read_label (slice_new_allow_exotic c) n = Ok (l, s)" "wf_slice l" "slice_bits l = pt_label t"
      "wf_slice s" "slice_bits s = pt_rest t" "slice_refs s = cell_children c" "sl_cell s = c" "\<not> is_virtual c" .
  have le: "length (pt_label t) \<le> length (slice_bits key)"
    using pt_inv_label [OF rep_inv [OF assms(1)]] assms(4) by simp
  note lt = lcp_label(2) [OF le assms(8)]
  have sl: "size_bits l = length (pt_label t)" using r(4) length_slice_bits by metis
  from split_edge_spec [OF assms(1-4) r(3-8) assms(8,5-7)] obtain c'
    where c': "split_edge sha s l (longest_common_data_prefix key l) key value = Ok c'"
      "rep K D V n c' (pt_split (lcp_len (slice_bits key) (pt_label t)) (slice_bits key) v t)" .
  have "dict_insert_loop sha value mode c key stack = (if can_add mode then Ok (Some (c', stack)) else Ok None)"
    using r c'(1) lt le sl assms(4)
    by (subst dict_insert_loop.simps) (simp add: Let_def lcp_key [OF assms(3) r(3)])
  then show ?thesis
    using c'(2) by (cases "can_add mode") (simp_all add: insert_resultI, simp add: insert_result_def)
qed

lemma dict_insert_loop_spec:
  "rep K D V n c t \<Longrightarrow> room D V n \<Longrightarrow> wf_slice key \<Longrightarrow> size_bits key = n \<Longrightarrow>
    appends value (fst v) (snd v) \<Longrightarrow> value_ok D V v \<Longrightarrow> canon_by sha K \<Longrightarrow>
    insert_result K D V n sha (pt_insert (slice_bits key) v t) (allowed mode (pt_lookup t (slice_bits key))) stack
      (dict_insert_loop sha value mode c key stack)"
proof (induction t arbitrary: n c key stack)
  case (PLeaf lab vb vr)
  let ?k = "slice_bits key"
  have n: "length lab = n" "length ?k = n" using PLeaf.prems(1,4) by simp_all
  show ?case
  proof (cases "?k = lab")
    case False
    with dict_insert_loop_split [OF PLeaf.prems, of mode stack] n show ?thesis
      by (simp add: allowed_def)
  next
    case True
    from read_edge [OF PLeaf.prems(1) room_len(2) [OF PLeaf.prems(2)], unfolded pt_label.simps pt_rest.simps]
    obtain l s where r: "slice_new c = Ok (slice_new_allow_exotic c)"
      "read_label (slice_new_allow_exotic c) n = Ok (l, s)" "wf_slice l" "slice_bits l = lab"
      "wf_slice s" "slice_bits s = vb" "slice_refs s = cell_children c" "sl_cell s = c" "\<not> is_virtual c" .
    have sl: "size_bits l = n" using r(4) n(1) length_slice_bits by metis
    from make_leaf_rep [OF r(3) sl PLeaf.prems(2,5-7)] r(4) obtain c'
      where c': "make_leaf sha l n value = Ok c'" "rep K D V n c' (PLeaf lab (fst v) (snd v))" by metis
    have "lcp_len ?k lab = n" using lcp_label(1) [of lab ?k] True n by simp
    then have "dict_insert_loop sha value mode c key stack
        = (if can_replace mode then Ok (Some (c', stack)) else Ok None)"
      using r c'(1) PLeaf.prems(4)
      by (subst dict_insert_loop.simps) (simp add: Let_def lcp_key [OF PLeaf.prems(3) r(3)])
    then show ?thesis
      using c'(2) True
      by (cases "can_replace mode") (simp_all add: allowed_def insert_resultI, simp add: insert_result_def)
  qed
next
  case (PFork lab l r)
  let ?k = "slice_bits key"
  have n: "length lab < n" "length ?k = n" using PFork.prems(1,4) by simp_all
  show ?case
  proof (cases "take (length lab) ?k = lab")
    case False
    with dict_insert_loop_split [OF PFork.prems, of mode stack] show ?thesis
      by (simp add: allowed_def)
  next
    case True
    from read_edge [OF PFork.prems(1) room_len(2) [OF PFork.prems(2)], unfolded pt_label.simps pt_rest.simps]
    obtain lb s where rd: "slice_new c = Ok (slice_new_allow_exotic c)"
      "read_label (slice_new_allow_exotic c) n = Ok (lb, s)" "wf_slice lb" "slice_bits lb = lab"
      "wf_slice s" "slice_bits s = []" "slice_refs s = cell_children c" "sl_cell s = c" "\<not> is_virtual c" .
    have sl: "size_bits lb = length lab" using rd(4) length_slice_bits by metis
    have "length (drop (length lab) ?k) \<noteq> 0" using n by simp
    then obtain b k' where "drop (length lab) ?k = b # k'" by (cases "drop (length lab) ?k") auto
    then have k: "?k = lab @ b # k'" using True by (metis append_take_drop_id)
    let ?m = "n - length lab - 1"
    from fork_step [OF PFork.prems(1) k PFork.prems(3,4)] obtain lc rc
      where f: "holds c (cell_bits c) [lc, rc]" "cell_children c = [lc, rc]"
      "rep K D V ?m lc l" "rep K D V ?m rc r" "reference c (of_bool b) = Some (if b then rc else lc)"
      "cell_reference_count c = 2"
      "load_bit (advance key (length lab)) = Ok (b, advance (advance key (length lab)) 1)"
      "wf_slice (advance (advance key (length lab)) 1)"
      "slice_bits (advance (advance key (length lab)) 1) = k'"
      "size_bits (advance (advance key (length lab)) 1) = ?m" "?m < n" .
    let ?key = "advance (advance key (length lab)) 1" and ?child = "if b then rc else lc"
    let ?t = "if b then r else l"
    let ?seg = "\<lparr>sg_data = c, sg_next_branch = branch_from b, sg_key_bit_len = n\<rparr>"
    have bi: "branch_index (branch_from b) = of_bool b" by (simp add: branch_from_def)
    have "lcp_len ?k lab = length lab" using lcp_label(1) [of lab ?k] True n by simp
    then have step: "dict_insert_loop sha value mode c key stack
        = dict_insert_loop sha value mode ?child ?key (?seg # stack)"
      using rd sl f(5,6,7) n skip_key(1) [OF PFork.prems(3), of "length lab"] PFork.prems(4)
      by (subst dict_insert_loop.simps) (simp add: Let_def lcp_key [OF PFork.prems(3) rd(3)] bi)
    have rm: "room D V ?m" using room_mono [OF PFork.prems(2)] by simp
    have ih: "insert_result K D V ?m sha (pt_insert k' v ?t) (allowed mode (pt_lookup ?t k')) (?seg # stack)
        (dict_insert_loop sha value mode ?child ?key (?seg # stack))"
      using PFork.IH(1) [OF f(3) rm f(8,10) PFork.prems(5-7), of "?seg # stack"]
        PFork.IH(2) [OF f(4) rm f(8,10) PFork.prems(5-7), of "?seg # stack"] f(9)
      by (cases b) (simp_all del: One_nat_def)
    have al: "pt_lookup (PFork lab l r) ?k = pt_lookup ?t k'" by (simp add: k)
    have ins: "pt_insert ?k v (PFork lab l r)
        = (if b then PFork lab l (pt_insert k' v ?t) else PFork lab (pt_insert k' v ?t) r)"
      by (simp add: k)
    show ?thesis
    proof (cases "allowed mode (pt_lookup ?t k')")
      case False
      then show ?thesis using ih unfolding step al by (simp add: insert_result_def)
    next
      case True
      then obtain leaf stk c1 where i: "dict_insert_loop sha value mode ?child ?key (?seg # stack) = Ok (Some (leaf, stk))"
        "rebuild_dict_from_stack sha stk leaf = rebuild_dict_from_stack sha (?seg # stack) c1"
        "rep K D V ?m c1 (pt_insert k' v ?t)"
        using ih by (auto simp: insert_result_def)
      from rebuild_fork [OF PFork.prems(1,2) i(3) PFork.prems(7), where b = b and kl = n] obtain c'
        where "\<forall>stack. rebuild_dict_from_stack sha (?seg # stack) c1 = rebuild_dict_from_stack sha stack c'"
          "rep K D V n c' (if b then PFork lab l (pt_insert k' v ?t) else PFork lab (pt_insert k' v ?t) r)" .
      then show ?thesis
        using i True unfolding step al ins insert_result_def by auto
    qed
  qed
qed

text \<open>An optional root cell and the dictionary it stores.\<close>

fun opt_rep :: "sha256 option \<Rightarrow> nat \<Rightarrow> nat \<Rightarrow> nat \<Rightarrow> cell option \<Rightarrow> ptree option \<Rightarrow> bool" where
  "opt_rep K D V n None t \<longleftrightarrow> t = None"
| "opt_rep K D V n (Some c) t \<longleftrightarrow> (case t of None \<Rightarrow> False | Some t \<Rightarrow> rep K D V n c t)"

lemma opt_rep_inv: "opt_rep K D V n d t \<Longrightarrow> opt_inv n t"
  by (cases d; cases t) (auto simp: rep_inv)

lemma dict_insert_spec:
  assumes "opt_rep K D V n d t" "room D V n" "wf_slice key" "size_bits key = n"
    and "appends value (fst v) (snd v)" "value_ok D V v" "canon_by sha K"
  shows "if allowed mode (opt_lookup t (slice_bits key))
    then \<exists>d'. dict_insert sha d key n value mode = Ok (d', True)
      \<and> opt_rep K D V n d' (opt_insert (slice_bits key) v t)
    else dict_insert sha d key n value mode = Ok (d, False)"
proof (cases d)
  case None
  then have t: "t = None" using assms(1) by simp
  from make_leaf_rep [OF assms(3,4,2,5-7)] obtain c
    where "make_leaf sha key n value = Ok c" "rep K D V n c (PLeaf (slice_bits key) (fst v) (snd v))" .
  then show ?thesis using assms(4) by (simp add: dict_insert_def None t allowed_def opt_insert_def)
next
  case (Some c)
  then obtain t' where t: "t = Some t'" "rep K D V n c t'" using assms(1) by (auto split: option.splits)
  have "insert_result K D V n sha (pt_insert (slice_bits key) v t') (allowed mode (pt_lookup t' (slice_bits key))) []
      (dict_insert_loop sha value mode c key [])"
    by (rule dict_insert_loop_spec [OF t(2) assms(2-7)])
  then show ?thesis
    using assms(4) by (auto simp: insert_result_def dict_insert_def Some t opt_insert_def)
qed

lemma dict_get_opt_spec:
  assumes "opt_rep K D V n d t" "n \<le> 1023" "wf_slice key" "size_bits key = n"
  obtains res where "dict_get d n key = Ok res"
    "map_option slice_value res = opt_lookup t (slice_bits key)"
proof (cases d)
  case None
  then show thesis using assms that [of None] by (simp add: dict_get_def)
next
  case (Some c)
  then obtain t' where t: "t = Some t'" "rep K D V n c t'" using assms(1) by (auto split: option.splits)
  from dict_get_spec [OF t(2) assms(2-4)] that show thesis by (auto simp: Some t(1))
qed

section \<open>Removal\<close>

text \<open>
  What \<open>dict_remove_owned\<close> hands back for a removed value is its range in its cell: \<open>part_value\<close> reads it.
\<close>

definition part_value :: "cell_slice_range \<times> cell \<Rightarrow> dict_value" where
  "part_value p = slice_value (range_apply_allow_exotic (fst p) (snd p))"

lemma part_value_slice: "part_value (sl_range s, sl_cell s) = slice_value s"
  by (cases s) (simp add: part_value_def range_apply_allow_exotic_def)

text \<open>
  What \<open>dict_find_value_to_remove\<close> returns on a dictionary that has the key: the range of the value, and
  either nothing new on the stack (the root is the leaf) or the fork above the leaf on top of the
  stack, such that rebuilding without the leaf gives the tree without the key.
\<close>

definition remove_found ::
  "sha256 option \<Rightarrow> nat \<Rightarrow> nat \<Rightarrow> nat \<Rightarrow> sha256 \<Rightarrow> ptree \<Rightarrow> bool list \<Rightarrow> cell \<Rightarrow> cell_slice \<Rightarrow> nat \<Rightarrow> segment list
    \<Rightarrow> (segment list \<times> cell_slice_range \<times> nat \<times> cell_slice) option result \<Rightarrow> bool" where
  "remove_found K D V n sha t k c key prev stack res \<longleftrightarrow>
    (\<exists>stk rg prev' key'. res = Ok (Some (stk, rg, prev', key')) \<and>
      (case pt_delete k t of
         None \<Rightarrow> stk = stack \<and> prev' = prev \<and> key' = key \<and> Some (part_value (rg, c)) = pt_lookup t k
       | Some t' \<Rightarrow> \<exists>seg stk' leaf value c'. stk = seg # stk'
           \<and> rebuild_as_removed sha seg key' prev' = Ok (leaf, value)
           \<and> rebuild_dict_from_stack sha stk' leaf = rebuild_dict_from_stack sha stack c'
           \<and> rep K D V n c' t' \<and> Some (part_value (rg, value)) = pt_lookup t k))"

text \<open>Joining a fork with the child that is left.\<close>

lemma rebuild_as_removed_spec:
  assumes "rep K D V n c (PFork lab l r)" "room D V n" "wf_slice key" "size_bits key = n - length lab - 1"
    and "cell_children c = [lc, rc]" "canon_by sha K"
  obtains leaf where "rebuild_as_removed sha
      \<lparr>sg_data = c, sg_next_branch = branch_from b, sg_key_bit_len = kl\<rparr> key n
      = Ok (leaf, if b then rc else lc)"
    "rep K D V n leaf (pt_join lab (\<not> b) (if b then l else r))"
proof -
  let ?m = "n - length lab - 1" and ?o = "if b then lc else rc" and ?t = "if b then l else r"
  from assms(1,5) have f: "holds c (cell_bits c) [lc, rc]" "rep K D V ?m lc l" "rep K D V ?m rc r"
    "length lab < n" by (auto simp: holds_def)
  have o: "rep K D V ?m ?o ?t" using f by simp
  have rm: "room D V ?m" using room_mono [OF assms(2)] by simp
  from read_edge [OF assms(1) room_len(2) [OF assms(2)], unfolded pt_label.simps pt_rest.simps]
  obtain p s where p: "slice_new c = Ok (slice_new_allow_exotic c)"
    "read_label (slice_new_allow_exotic c) n = Ok (p, s)" "wf_slice p" "slice_bits p = lab"
    "wf_slice s" "slice_bits s = []" "slice_refs s = cell_children c" "sl_cell s = c" "\<not> is_virtual c" .
  from read_edge [OF o room_len(2) [OF rm]]
  obtain q u where q: "slice_new ?o = Ok (slice_new_allow_exotic ?o)"
    "read_label (slice_new_allow_exotic ?o) ?m = Ok (q, u)" "wf_slice q" "slice_bits q = pt_label ?t"
    "wf_slice u" "slice_bits u = pt_rest ?t" "slice_refs u = cell_children ?o" "sl_cell u = ?o"
    "\<not> is_virtual ?o" .
  have sp: "size_bits p = length lab" "size_bits q = length (pt_label ?t)"
    using p(4) q(4) length_slice_bits by metis+
  have pl: "length (pt_label ?t) \<le> ?m" by (rule pt_inv_label [OF rep_inv [OF o]])
  let ?lab = "lab @ (\<not> b) # pt_label ?t"
  have ll: "size_bits p + 1 + size_bits q \<le> n" using sp pl f(4) by simp
  have wl: "appends (write_label_parts p (\<not> b) q n) (label_bits n ?lab) []"
    using appends_write_label_parts [OF p(3) q(3) ll room_len(1) [OF assms(2)], of "\<not> b"]
    by (simp only: p(4) q(4))
  have ws: "appends (\<lambda>b. store_slice b u) (pt_rest ?t) (cell_children ?o)"
    using appends_store_slice [OF q(5)] q(6-9) by simp
  have "length (label_bits n ?lab @ pt_rest ?t) \<le> 1023"
    using label_bits_length [of n ?lab] assms(2) ll sp pt_rest_length [OF o] by (simp add: room_def)
  then have bd: "ok (write_label_parts p (\<not> b) q n cb_new) (\<lambda>builder. store_slice builder u)
      = Ok (mk_cb (label_bits n ?lab @ pt_rest ?t) (cell_children ?o))"
    using appendsD [OF appends_bind [OF wl ws], of "[]" "[]"] holds_length(2) [OF rep_edge(1) [OF o]]
    by (simp add: cb_new_mk cb_appended_def MAX_BIT_LEN_def MAX_REF_COUNT_def)
  have "length ?lab + ?m = length (pt_label ?t) + n" using f(4) by simp
  from rep_relabel [OF o assms(2) this assms(6)] obtain leaf
    where leaf: "build_ext sha (mk_cb (label_bits n ?lab @ pt_rest ?t) (cell_children ?o)) = Ok leaf"
      "rep K D V n leaf (pt_relabel ?lab ?t)" .
  have r: "reference_cloned c (branch_index (branch_from b)) = Some (if b then rc else lc)"
    "reference c (1 - branch_index (branch_from b)) = Some ?o"
    "(branch_index (branch_from b) = 0) = (\<not> b)"
    using holds_reference(1,2) [OF f(1)] by (cases b; simp add: nth_opt_def branch_from_def)+
  obtain builder where w: "write_label_parts p (\<not> b) q n cb_new = Ok builder"
    "store_slice builder u = Ok (mk_cb (label_bits n ?lab @ pt_rest ?t) (cell_children ?o))"
    using bd by (auto simp: ok_eq_Ok_iff)
  have "rebuild_as_removed sha \<lparr>sg_data = c, sg_next_branch = branch_from b, sg_key_bit_len = kl\<rparr> key n
      = Ok (leaf, if b then rc else lc)"
    unfolding rebuild_as_removed_def Let_def segment.simps r assms(4) using p(2) q(1,2) w leaf(1) by simp
  then show thesis using that leaf(2) by (simp add: pt_join_def)
qed

lemma pt_delete_None: "pt_delete k t = None \<longleftrightarrow> (\<exists>vb vr. t = PLeaf k vb vr)"
  by (cases t) (auto split: list.splits option.splits)

lemma dict_find_value_to_remove_loop_spec:
  "rep K D V n c t \<Longrightarrow> room D V n \<Longrightarrow> wf_slice key \<Longrightarrow> size_bits key = n \<Longrightarrow> canon_by sha K \<Longrightarrow>
    (if pt_lookup t (slice_bits key) = None
     then dict_find_value_to_remove_loop c key prev stack = Ok None
     else remove_found K D V n sha t (slice_bits key) c key prev stack
       (dict_find_value_to_remove_loop c key prev stack))"
proof (induction t arbitrary: n c key prev stack)
  case (PLeaf lab vb vr)
  let ?k = "slice_bits key"
  have n: "length lab = n" "length ?k = n" using PLeaf.prems(1,4) by simp_all
  from read_edge [OF PLeaf.prems(1) room_len(2) [OF PLeaf.prems(2)], unfolded pt_label.simps pt_rest.simps]
  obtain l s where r: "slice_new c = Ok (slice_new_allow_exotic c)"
    "read_label (slice_new_allow_exotic c) n = Ok (l, s)" "wf_slice l" "slice_bits l = lab"
    "wf_slice s" "slice_bits s = vb" "slice_refs s = cell_children c" "sl_cell s = c" "\<not> is_virtual c" .
  have sl: "size_bits l = n" using r(4) n(1) length_slice_bits by metis
  note eq = dict_find_value_to_remove_loop.simps [of c key prev stack]
  show ?case
  proof (cases "?k = lab")
    case False
    then have "lcp_len ?k lab < n" using lcp_label(2) [of lab ?k] n by simp
    then have "dict_find_value_to_remove_loop c key prev stack = Ok None"
      using r sl PLeaf.prems(4) by (subst eq) (simp add: Let_def lcp_key [OF PLeaf.prems(3) r(3)])
    then show ?thesis using False by simp
  next
    case True
    then have "lcp_len ?k lab = n" using lcp_label(1) [of lab ?k] n by simp
    then have "dict_find_value_to_remove_loop c key prev stack = Ok (Some (stack, sl_range s, prev, key))"
      using r sl PLeaf.prems(4) by (subst eq) (simp add: Let_def lcp_key [OF PLeaf.prems(3) r(3)])
    moreover have "part_value (sl_range s, c) = (vb, vr)"
      using part_value_slice [of s] rep_leaf_value [OF PLeaf.prems(1) r(6,7)] r(8) by simp
    ultimately show ?thesis using True by (simp add: remove_found_def)
  qed
next
  case (PFork lab l r)
  let ?k = "slice_bits key"
  have n: "length lab < n" "length ?k = n" using PFork.prems(1,4) by simp_all
  from read_edge [OF PFork.prems(1) room_len(2) [OF PFork.prems(2)], unfolded pt_label.simps pt_rest.simps]
  obtain lb s where rd: "slice_new c = Ok (slice_new_allow_exotic c)"
    "read_label (slice_new_allow_exotic c) n = Ok (lb, s)" "wf_slice lb" "slice_bits lb = lab"
    "wf_slice s" "slice_bits s = []" "slice_refs s = cell_children c" "sl_cell s = c" "\<not> is_virtual c" .
  have sl: "size_bits lb = length lab" using rd(4) length_slice_bits by metis
  note eq = dict_find_value_to_remove_loop.simps [of c key prev stack]
  show ?case
  proof (cases "take (length lab) ?k = lab")
    case False
    then have "lcp_len ?k lab < length lab" using lcp_label(2) [of lab ?k] n by simp
    then have "dict_find_value_to_remove_loop c key prev stack = Ok None"
      using rd sl n PFork.prems(4) by (subst eq) (simp add: Let_def lcp_key [OF PFork.prems(3) rd(3)])
    then show ?thesis using False by simp
  next
    case True
    have "length (drop (length lab) ?k) \<noteq> 0" using n by simp
    then obtain b k' where "drop (length lab) ?k = b # k'" by (cases "drop (length lab) ?k") auto
    then have k: "?k = lab @ b # k'" using True by (metis append_take_drop_id)
    let ?m = "n - length lab - 1"
    from fork_step [OF PFork.prems(1) k PFork.prems(3,4)] obtain lc rc
      where f: "holds c (cell_bits c) [lc, rc]" "cell_children c = [lc, rc]"
      "rep K D V ?m lc l" "rep K D V ?m rc r" "reference c (of_bool b) = Some (if b then rc else lc)"
      "cell_reference_count c = 2"
      "load_bit (advance key (length lab)) = Ok (b, advance (advance key (length lab)) 1)"
      "wf_slice (advance (advance key (length lab)) 1)"
      "slice_bits (advance (advance key (length lab)) 1) = k'"
      "size_bits (advance (advance key (length lab)) 1) = ?m" "?m < n" .
    let ?key = "advance (advance key (length lab)) 1" and ?child = "if b then rc else lc"
    let ?t = "if b then r else l" and ?o = "if b then l else r"
    let ?seg = "\<lparr>sg_data = c, sg_next_branch = branch_from b, sg_key_bit_len = n\<rparr>"
    have bi: "branch_index (branch_from b) = of_bool b" by (simp add: branch_from_def)
    have "lcp_len ?k lab = length lab" using lcp_label(1) [of lab ?k] True n by simp
    then have step: "dict_find_value_to_remove_loop c key prev stack
        = dict_find_value_to_remove_loop ?child ?key n (?seg # stack)"
      using rd sl f(5,6,7) n skip_key(1) [OF PFork.prems(3), of "length lab"] PFork.prems(4)
      by (subst eq) (simp add: Let_def lcp_key [OF PFork.prems(3) rd(3)] bi)
    have rm: "room D V ?m" using room_mono [OF PFork.prems(2)] by simp
    have ih: "if pt_lookup ?t k' = None
        then dict_find_value_to_remove_loop ?child ?key n (?seg # stack) = Ok None
        else remove_found K D V ?m sha ?t k' ?child ?key n (?seg # stack)
          (dict_find_value_to_remove_loop ?child ?key n (?seg # stack))"
      proof (cases b)
      case True
      then show ?thesis
        using PFork.IH(2) [OF f(4) rm f(8,10) PFork.prems(5), of n "?seg # stack", unfolded f(9)] by (simp only: if_True)
    next
      case False
      then show ?thesis
        using PFork.IH(1) [OF f(3) rm f(8,10) PFork.prems(5), of n "?seg # stack", unfolded f(9)] by (simp only: if_False)
    qed
    have al: "pt_lookup (PFork lab l r) ?k = pt_lookup ?t k'" by (simp add: k)
    have del: "pt_delete ?k (PFork lab l r) = (case pt_delete k' ?t of None \<Rightarrow> Some (pt_join lab (\<not> b) ?o)
        | Some t' \<Rightarrow> Some (if b then PFork lab l t' else PFork lab t' r))"
      by (cases b) (simp_all add: k split: option.split)
    show ?thesis
    proof (cases "pt_lookup ?t k' = None")
      case True
      then show ?thesis using ih unfolding step al by simp
    next
      case False
      then obtain stk rg prev' key' where
        i: "dict_find_value_to_remove_loop ?child ?key n (?seg # stack) = Ok (Some (stk, rg, prev', key'))"
        and i2: "case pt_delete k' ?t of
         None \<Rightarrow> stk = ?seg # stack \<and> prev' = n \<and> key' = ?key \<and> Some (part_value (rg, ?child)) = pt_lookup ?t k'
       | Some t' \<Rightarrow> \<exists>seg stk' leaf value c'. stk = seg # stk'
           \<and> rebuild_as_removed sha seg key' prev' = Ok (leaf, value)
           \<and> rebuild_dict_from_stack sha stk' leaf = rebuild_dict_from_stack sha (?seg # stack) c'
           \<and> rep K D V ?m c' t' \<and> Some (part_value (rg, value)) = pt_lookup ?t k'"
        using ih [unfolded if_not_P [OF False] remove_found_def] by blast
      have "remove_found K D V n sha (PFork lab l r) ?k c key prev stack
        (Ok (Some (stk, rg, prev', key')))"
      proof (cases "pt_delete k' ?t")
        case None
        from rebuild_as_removed_spec [OF PFork.prems(1,2) f(8,10,2) PFork.prems(5), where b = b and kl = n]
        obtain leaf where leaf: "rebuild_as_removed sha ?seg ?key n = Ok (leaf, ?child)"
          "rep K D V n leaf (pt_join lab (\<not> b) ?o)" .
        have e: "stk = ?seg # stack" "prev' = n" "key' = ?key"
          "Some (part_value (rg, ?child)) = pt_lookup ?t k'"
          using i2 by (simp_all add: None)
        show ?thesis
          unfolding remove_found_def del None al using leaf e by (auto simp del: One_nat_def)
      next
        case (Some t')
        then obtain seg stk' leaf vl c1 where e: "stk = seg # stk'"
          "rebuild_as_removed sha seg key' prev' = Ok (leaf, vl)"
          "rebuild_dict_from_stack sha stk' leaf = rebuild_dict_from_stack sha (?seg # stack) c1"
          "rep K D V ?m c1 t'" "Some (part_value (rg, vl)) = pt_lookup ?t k'"
          using i2 by auto
        from rebuild_fork [OF PFork.prems(1,2) e(4) PFork.prems(5), where b = b and kl = n] obtain c'
          where c': "\<forall>stack. rebuild_dict_from_stack sha (?seg # stack) c1 = rebuild_dict_from_stack sha stack c'"
            "rep K D V n c' (if b then PFork lab l t' else PFork lab t' r)" .
        then have "rebuild_dict_from_stack sha stk' leaf = rebuild_dict_from_stack sha stack c'"
          using e(3) by simp
        then show ?thesis
          unfolding remove_found_def del Some al option.case using e(1,2,5) c'(2) by blast
      qed
      then show ?thesis using False unfolding step al i by simp
    qed
  qed
qed

lemma dict_remove_owned_spec:
  assumes "opt_rep K D V n d t" "room D V n" "wf_slice key" "size_bits key = n" "canon_by sha K"
  shows "case opt_lookup t (slice_bits key) of
      None \<Rightarrow> dict_remove_owned sha d key n allow_subtree = Ok (d, None)
    | Some v \<Rightarrow> \<exists>d' part. dict_remove_owned sha d key n allow_subtree = Ok (d', Some part)
        \<and> part_value part = v \<and> opt_rep K D V n d' (opt_delete (slice_bits key) t)"
proof (cases d)
  case None
  then show ?thesis using assms by (simp add: dict_remove_owned_def)
next
  case (Some c)
  then obtain t' where t: "t = Some t'" "rep K D V n c t'" using assms(1) by (auto split: option.splits)
  let ?k = "slice_bits key"
  note l = dict_find_value_to_remove_loop_spec [OF t(2) assms(2-5), of n "[]"]
  show ?thesis
  proof (cases "pt_lookup t' ?k")
    case None
    then show ?thesis
      using l assms(4) by (simp add: t Some dict_remove_owned_def dict_find_value_to_remove_def)
  next
    case v: (Some v)
    then have ne: "pt_lookup t' ?k \<noteq> None" by simp
    obtain stk rg prev' key' where
      i: "dict_find_value_to_remove_loop c key n [] = Ok (Some (stk, rg, prev', key'))"
      and i2: "case pt_delete ?k t' of
         None \<Rightarrow> stk = [] \<and> prev' = n \<and> key' = key \<and> Some (part_value (rg, c)) = pt_lookup t' ?k
       | Some t2 \<Rightarrow> \<exists>seg stk' leaf value c'. stk = seg # stk'
           \<and> rebuild_as_removed sha seg key' prev' = Ok (leaf, value)
           \<and> rebuild_dict_from_stack sha stk' leaf = rebuild_dict_from_stack sha [] c'
           \<and> rep K D V n c' t2 \<and> Some (part_value (rg, value)) = pt_lookup t' ?k"
      using l [unfolded if_not_P [OF ne] remove_found_def] by blast
    have d: "dict_remove_owned sha d key n allow_subtree = (case stk of
        seg # stack \<Rightarrow>
             ok (rebuild_as_removed sha seg key' prev') (\<lambda>(leaf, value).
             ok (rebuild_dict_from_stack sha stack leaf) (\<lambda>root'.
             Ok (Some root', Some (rg, value))))
      | [] \<Rightarrow> Ok (None, Some (rg, c)))"
      using i assms(4)
      by (simp add: Some dict_remove_owned_def dict_find_value_to_remove_def split: list.split)
    show ?thesis
    proof (cases "pt_delete ?k t'")
      case None
      then show ?thesis using i2 v by (simp add: d t opt_delete_def)
    next
      case (Some t'')
      then show ?thesis using i2 v by (auto simp: d t opt_delete_def)
    qed
  qed
qed

section \<open>The content determines the cell\<close>

lemma pt_has_key: "\<exists>k. pt_lookup t k \<noteq> None"
proof (induction t)
  case (PFork lab l r)
  then obtain k where "pt_lookup l k \<noteq> None" by blast
  then have "pt_lookup (PFork lab l r) (lab @ False # k) \<noteq> None" by simp
  then show ?case by blast
qed auto

lemma pt_fork_lookup:
  "pt_lookup (PFork lab l r) (lab @ b # k) = pt_lookup (if b then r else l) k"
  by (cases b) simp_all

text \<open>The label of a tree is a prefix of the label of any fork with the same content.\<close>

lemma pt_label_prefix:
  assumes "pt_lookup (PFork lab l r) = pt_lookup t"
  shows "take (length (pt_label t)) lab = pt_label t"
proof -
  let ?p = "pt_label t"
  obtain x y where x: "pt_lookup l x \<noteq> None" and y: "pt_lookup r y \<noteq> None"
    using pt_has_key by metis
  have "pt_lookup t (lab @ False # x) \<noteq> None" "pt_lookup t (lab @ True # y) \<noteq> None"
    unfolding assms [symmetric] pt_fork_lookup using x y by simp_all
  then have p: "take (length ?p) (lab @ False # x) = ?p" "take (length ?p) (lab @ True # y) = ?p"
    using pt_lookup_label by blast+
  show ?thesis
  proof (cases "length ?p \<le> length lab")
    case True
    then show ?thesis using p(1) by simp
  next
    case False
    then have "take (length ?p) (lab @ False # x) ! length lab = False"
      "take (length ?p) (lab @ True # y) ! length lab = True" by (simp_all add: nth_append)
    then show ?thesis using p by simp
  qed
qed

lemma pt_unique:
  "pt_inv n t \<Longrightarrow> pt_inv n t' \<Longrightarrow> pt_lookup t = pt_lookup t' \<Longrightarrow> t = t'"
proof (induction t arbitrary: n t')
  case (PLeaf lab vb vr)
  show ?case
  proof (cases t')
    case (PLeaf lab' vb' vr')
    then show ?thesis using PLeaf.prems(3) by (auto dest: fun_cong [of _ _ lab] split: if_splits)
  next
    case (PFork lab' l r)
    obtain x y where x: "pt_lookup l x \<noteq> None" and y: "pt_lookup r y \<noteq> None"
      using pt_has_key by metis
    have "pt_lookup (PLeaf lab vb vr) (lab' @ False # x) \<noteq> None"
      "pt_lookup (PLeaf lab vb vr) (lab' @ True # y) \<noteq> None"
      unfolding PLeaf.prems(3) PFork pt_fork_lookup using x y by simp_all
    then show ?thesis by (auto split: if_splits)
  qed
next
  case (PFork lab l r)
  show ?case
  proof (cases t')
    case (PLeaf lab' vb' vr')
    obtain x y where x: "pt_lookup l x \<noteq> None" and y: "pt_lookup r y \<noteq> None"
      using pt_has_key by metis
    have "pt_lookup t' (lab @ False # x) \<noteq> None" "pt_lookup t' (lab @ True # y) \<noteq> None"
      unfolding PFork.prems(3) [symmetric] pt_fork_lookup using x y by simp_all
    then show ?thesis by (auto simp: PLeaf split: if_splits)
  next
    case f: (PFork lab' l' r')
    have "take (length lab') lab = lab'" "take (length lab) lab' = lab"
      using pt_label_prefix [OF PFork.prems(3)] pt_label_prefix [OF PFork.prems(3) [unfolded f, symmetric]]
      unfolding f pt_label.simps by simp_all
    then have lab: "lab' = lab" by (metis length_take min.cobounded1 order_antisym take_all)
    have "pt_lookup l k = pt_lookup l' k" "pt_lookup r k = pt_lookup r' k" for k
      using fun_cong [OF PFork.prems(3), of "lab @ False # k"] fun_cong [OF PFork.prems(3), of "lab @ True # k"]
      unfolding f lab pt_fork_lookup by simp_all
    then have "pt_lookup l = pt_lookup l'" "pt_lookup r = pt_lookup r'" by auto
    then show ?thesis
      using PFork.IH(1) [of "n - length lab - 1" l'] PFork.IH(2) [of "n - length lab - 1" r']
        PFork.prems(1,2) by (simp add: f lab)
  qed
qed

lemma canonical_unique:
  "rep (Some sha) D V n c t \<Longrightarrow> rep (Some sha) D' V' n c' t \<Longrightarrow> c = c'"
proof (induction t arbitrary: n c c')
  case (PFork lab l r)
  from PFork.prems(1) obtain lc rc where 1: "canon (Some sha) (label_bits n lab) [lc, rc] c"
    "rep (Some sha) D V (n - length lab - 1) lc l" "rep (Some sha) D V (n - length lab - 1) rc r" by auto
  from PFork.prems(2) obtain lc' rc' where 2: "canon (Some sha) (label_bits n lab) [lc', rc'] c'"
    "rep (Some sha) D' V' (n - length lab - 1) lc' l" "rep (Some sha) D' V' (n - length lab - 1) rc' r" by auto
  have "lc = lc'" "rc = rc'" using PFork.IH(1) [OF 1(2) 2(2)] PFork.IH(2) [OF 1(3) 2(3)] by simp_all
  then show ?case using 1(1) 2(1) by (simp add: canon_def)
qed (simp add: canon_def)

lemma canonical_content:
  assumes "opt_rep (Some sha) D V n d t" "opt_rep (Some sha) D' V' n d' t'"
    and "opt_lookup t = opt_lookup t'"
  shows "d = d'"
proof (cases "t = None \<or> t' = None")
  case True
  have "opt_lookup (Some u) k \<noteq> opt_lookup None k" if "pt_lookup u k \<noteq> None" for u k using that by simp
  then have "t = None \<and> t' = None"
    using True assms(3) pt_has_key by (metis option.exhaust opt_lookup.simps(1) opt_lookup_Some)
  then show ?thesis using assms(1,2) by (cases d; cases d') auto
next
  case False
  then obtain u u' c c' where e: "t = Some u" "t' = Some u'" "d = Some c" "d' = Some c'"
    using assms(1,2) by (cases t; cases t'; cases d; cases d') auto
  then have r: "rep (Some sha) D V n c u" "rep (Some sha) D' V' n c' u'" using assms(1,2) by simp_all
  have "pt_lookup u = pt_lookup u'" using assms(3) e(1,2) by simp
  then have "u = u'" using pt_unique rep_inv [OF r(1)] rep_inv [OF r(2)] by blast
  then show ?thesis using canonical_unique r e(3,4) by metis
qed

end
