(* ===== verification/Dict_Map.thy ===== *)
theory Dict_Map
  imports Dict_Ops_Props
begin

text \<open>
  Dictionary cells as an implementation of maps. \<open>stores K D V n d m\<close> relates an optional root cell to
  the map it stands for; the operations of the crate, called the way \<open>RawDict\<close> calls them (a key is the
  data slice of a builder, a value is a builder), satisfy the contract \<open>key_map\<close>.
\<close>

section \<open>The content of a dictionary\<close>

definition stores :: "sha256 option \<Rightarrow> nat \<Rightarrow> nat \<Rightarrow> nat \<Rightarrow> cell option
    \<Rightarrow> (bool list \<Rightarrow> dict_value option) \<Rightarrow> bool" where
  "stores K D V n d m \<longleftrightarrow> (\<exists>t. opt_rep K D V n d t \<and> opt_lookup t = m)"

lemma storesI: "opt_rep K D V n d t \<Longrightarrow> opt_lookup t = m \<Longrightarrow> stores K D V n d m"
  by (auto simp: stores_def)

lemma storesE:
  assumes "stores K D V n d m"
  obtains t where "opt_rep K D V n d t" "opt_lookup t = m" "opt_inv n t"
  using assms opt_rep_inv by (auto simp: stores_def)

lemma stores_None: "stores K D V n None m \<longleftrightarrow> m = (\<lambda>_. None)"
  by (auto simp: stores_def fun_eq_iff)

lemma stores_key_length: "stores K D V n d m \<Longrightarrow> m k = Some v \<Longrightarrow> length k = n"
  by (auto simp: stores_def fun_eq_iff split: option.splits dest!: pt_lookup_length [OF rep_inv]
      elim!: opt_rep.elims)

lemma dict_get_stores:
  assumes "stores K D V n d m" "n \<le> 1023" "wf_slice key" "size_bits key = n"
  obtains res where "dict_get d n key = Ok res" "map_option slice_value res = m (slice_bits key)"
proof -
  from assms(1) obtain t where t: "opt_rep K D V n d t" "opt_lookup t = m" by (rule storesE)
  from dict_get_opt_spec [OF t(1) assms(2-4)] that t(2) show thesis by auto
qed

lemma dict_insert_stores:
  assumes "stores K D V n d m" "room D V n" "wf_slice key" "size_bits key = n"
    and "appends value (fst v) (snd v)" "value_ok D V v" "canon_by sha K"
  shows "if allowed mode (m (slice_bits key))
    then \<exists>d'. dict_insert sha d key n value mode = Ok (d', True) \<and> stores K D V n d' (m(slice_bits key \<mapsto> v))
    else dict_insert sha d key n value mode = Ok (d, False)"
proof -
  from assms(1) obtain t where t: "opt_rep K D V n d t" "opt_lookup t = m" "opt_inv n t" by (rule storesE)
  have "opt_lookup (opt_insert (slice_bits key) v t) = m(slice_bits key \<mapsto> v)"
    using t(3) assms(4) pt_insert_map [of n _ "slice_bits key" v] unfolding t(2) [symmetric]
    by (cases t) (auto simp: opt_insert_def fun_eq_iff)
  then show ?thesis
    using dict_insert_spec [OF t(1) assms(2-7), of mode] unfolding t(2)
    by (auto intro: storesI split: if_splits)
qed

lemma dict_remove_stores:
  assumes "stores K D V n d m" "room D V n" "wf_slice key" "size_bits key = n" "canon_by sha K"
  shows "case m (slice_bits key) of
      None \<Rightarrow> dict_remove_owned sha d key n allow_subtree = Ok (d, None)
    | Some v \<Rightarrow> \<exists>d' part. dict_remove_owned sha d key n allow_subtree = Ok (d', Some part)
        \<and> part_value part = v \<and> stores K D V n d' (m(slice_bits key := None))"
proof -
  from assms(1) obtain t where t: "opt_rep K D V n d t" "opt_lookup t = m" "opt_inv n t" by (rule storesE)
  have "opt_lookup (opt_delete (slice_bits key) t) = m(slice_bits key := None)"
    using t(3) assms(4) pt_delete_map [of n _ "slice_bits key"] unfolding t(2) [symmetric]
    by (cases t) (auto simp: opt_delete_def fun_eq_iff)
  then show ?thesis
    using dict_remove_owned_spec [OF t(1) assms(2-5), of allow_subtree] unfolding t(2)
    by (fastforce intro: storesI split: option.split)
qed

text \<open>Canonical dictionaries with the same content are the same cell.\<close>

lemma stores_unique: "stores (Some sha) D V n d m \<Longrightarrow> stores (Some sha) D' V' n d' m \<Longrightarrow> d = d'"
  using canonical_content by (metis stores_def)

lemma stores_ext: "stores K D V n d m \<Longrightarrow> stores K D V n d' m' \<Longrightarrow>
    (\<And>k. length k = n \<Longrightarrow> m k = m' k) \<Longrightarrow> m = m'"
  using stores_key_length by (intro ext) (metis option.exhaust)

section \<open>The operations of a map\<close>

definition bits_key :: "bool list \<Rightarrow> cell_slice" where
  "bits_key k = as_data_slice (mk_bd k)"

definition value_store :: "dict_value \<Rightarrow> store_fn" where
  "value_store v = (\<lambda>b. store_builder b (mk_cb (fst v) (snd v)))"

definition dict_lookup :: "nat \<Rightarrow> cell option \<Rightarrow> bool list \<Rightarrow> dict_value option" where
  "dict_lookup n d k = (case dict_get d n (bits_key k) of Inr (Some s) \<Rightarrow> Some (slice_value s) | _ \<Rightarrow> None)"

definition dict_put :: "sha256 \<Rightarrow> nat \<Rightarrow> bool list \<Rightarrow> dict_value \<Rightarrow> cell option \<Rightarrow> cell option" where
  "dict_put sha n k v d =
    (case dict_insert sha d (bits_key k) n (value_store v) ModeSet of Inr (d', _) \<Rightarrow> d' | Inl _ \<Rightarrow> d)"

definition dict_del :: "sha256 \<Rightarrow> nat \<Rightarrow> bool list \<Rightarrow> cell option \<Rightarrow> cell option" where
  "dict_del sha n k d =
    (case dict_remove_owned sha d (bits_key k) n False of Inr (d', _) \<Rightarrow> d' | Inl _ \<Rightarrow> d)"

definition put_all :: "sha256 \<Rightarrow> nat \<Rightarrow> (bool list \<times> dict_value) list \<Rightarrow> cell option \<Rightarrow> cell option" where
  "put_all sha n kvs d = fold (\<lambda>(k, v). dict_put sha n k v) kvs d"

lemma bits_key_spec:
  assumes "length k \<le> 1023"
  shows "wf_slice (bits_key k)" "slice_bits (bits_key k) = k" "size_bits (bits_key k) = length k"
proof -
  show w: "wf_slice (bits_key k)" "slice_bits (bits_key k) = k"
    using as_data_slice_spec [of "mk_bd k"] assms by (simp_all add: bits_key_def)
  then show "size_bits (bits_key k) = length k" using length_slice_bits [of "bits_key k"] by simp
qed

lemma appends_value_store: "value_ok D V v \<Longrightarrow> V \<le> 1023 \<Longrightarrow> appends (value_store v) (fst v) (snd v)"
  using appends_store_builder [of "fst v" "snd v"] by (simp add: value_store_def [abs_def] value_ok_def)

lemma room_V: "room D V n \<Longrightarrow> V \<le> 1023"
  by (simp add: room_def)

lemma allowed_Set [simp]: "allowed ModeSet old"
  by (cases old) (simp_all add: allowed_def can_add_def can_replace_def)

lemma dict_lookup_stores:
  assumes "stores K D V n d m" "room D V n" "length k = n"
  shows "dict_lookup n d k = m k"
proof -
  note n = room_len(2) [OF assms(2)]
  note k = bits_key_spec [of k, unfolded assms(3), OF n]
  from dict_get_stores [OF assms(1) n k(1,3)] obtain res
    where "dict_get d n (bits_key k) = Ok res" "map_option slice_value res = m k" unfolding k(2) .
  then show ?thesis by (cases res) (simp_all add: dict_lookup_def)
qed

lemma dict_put_stores:
  assumes "stores K D V n d m" "room D V n" "canon_by sha K" "length k = n" "value_ok D V v"
  shows "stores K D V n (dict_put sha n k v d) (m(k \<mapsto> v))"
proof -
  note k = bits_key_spec [of k, unfolded assms(4), OF room_len(2) [OF assms(2)]]
  note a = appends_value_store [OF assms(5) room_V [OF assms(2)]]
  from dict_insert_stores [OF assms(1,2) k(1,3) a assms(5,3), of ModeSet] obtain d'
    where "dict_insert sha d (bits_key k) n (value_store v) ModeSet = Ok (d', True)"
      "stores K D V n d' (m(k \<mapsto> v))" unfolding k(2) by auto
  then show ?thesis by (simp add: dict_put_def)
qed

lemma dict_del_stores:
  assumes "stores K D V n d m" "room D V n" "canon_by sha K" "length k = n"
  shows "stores K D V n (dict_del sha n k d) (m(k := None))"
proof -
  note k = bits_key_spec [of k, unfolded assms(4), OF room_len(2) [OF assms(2)]]
  note r = dict_remove_stores [OF assms(1,2) k(1,3) assms(3), of False, unfolded k(2)]
  show ?thesis
  proof (cases "m k")
    case None
    then have "m(k := None) = m" by (simp add: fun_upd_idem_iff)
    then show ?thesis using r None assms(1) by (simp add: dict_del_def)
  next
    case (Some v)
    then show ?thesis using r by (auto simp: dict_del_def)
  qed
qed

text \<open>The cells are a map from keys of \<open>n\<close> bits to values.\<close>

interpretation cell_map: key_map
    "\<lambda>k. room D V n \<and> length k = n" "value_ok D V"
    "\<lambda>d. \<exists>m. stores (Some sha) D V n d m" None "dict_lookup n" "dict_put sha n" "dict_del sha n"
  for sha :: sha256 and D V n :: nat
proof (unfold_locales, goal_cases)
  case 1
  show ?case by (simp add: stores_None)
next
  case (2 k)
  then show ?case using dict_lookup_stores [of "Some sha" D V n None "\<lambda>_. None" k] by (simp add: stores_None)
next
  case (3 d k v)
  then show ?case using dict_put_stores by metis
next
  case (4 d k v j)
  then obtain m where m: "stores (Some sha) D V n d m" by auto
  from dict_put_stores [OF m, of sha k v] 4
  have "stores (Some sha) D V n (dict_put sha n k v d) (m(k \<mapsto> v))" by simp
  from dict_lookup_stores [OF this, of j] dict_lookup_stores [OF m, of j] 4 show ?case by simp
next
  case (5 d k)
  then show ?case using dict_del_stores by metis
next
  case (6 d k j)
  then obtain m where m: "stores (Some sha) D V n d m" by auto
  from dict_del_stores [OF m, of sha k] 6
  have "stores (Some sha) D V n (dict_del sha n k d) (m(k := None))" by simp
  from dict_lookup_stores [OF this, of j] dict_lookup_stores [OF m, of j] 6 show ?case by simp
qed

end
