(* ===== verification/Cell_Properties.thy ===== *)
theory Cell_Properties
  imports Cell_Builder_Build
begin

text \<open>
  The properties of cells, slices and builders (\<^verbatim>\<open>src/cell\<close>), each with a concrete instance where
  it has hypotheses. The library lemmas behind them are in the theories of the components.
\<close>

section \<open>Concrete data for the instances\<close>

definition demo_cell :: cell where
  "demo_cell = IntermediateDataCell [0xA5, 0xC3, 0xF0] 20"

definition demo_slice :: cell_slice where
  "demo_slice = slice_new_allow_exotic demo_cell"

definition demo_bits :: "bool list" where
  "demo_bits = [True, False, True, False, False, True, False, True, True, True, False, False,
    False, False, True, True, True, True, True, True]"

lemma demo_slice_wf: "wf_slice demo_slice"
  by code_simp

lemma demo_slice_bits: "slice_bits demo_slice = demo_bits"
  by code_simp

lemma demo_size_bits: "size_bits demo_slice = 20"
  by code_simp

definition no_hash :: sha256 where
  "no_hash x = replicate 32 0"

section \<open>Building and reading cells\<close>

text \<open>
  C1. A well-formed ordinary builder that builds gives a cell from which an ordinary slice reads
  back exactly the stored bits and references.
\<close>

theorem build_then_read:
  assumes "cb_wf b" "\<not> cb_is_exotic b" "list_all wf_cell (cb_references b)" "build_ext sha b = Ok c"
  shows "\<exists>s. slice_new c = Ok s \<and> wf_slice s
    \<and> slice_bits s = bd_bits (cb_inner b) \<and> slice_refs s = cb_references b"
proof -
  obtain bs rs where b: "length bs \<le> 1023" "length rs \<le> 4" "b = mk_cb bs rs"
    using assms(1,2) cb_wf_iff by blast
  have i: "cb_inner b = mk_bd bs" "cb_references b = rs" by (simp_all add: b(3) mk_cb_def)
  have "holds c bs rs" using build_ext_holds [of bs rs sha c] b assms(3,4) i by simp
  from holds_slice [OF this] show ?thesis using b(1) i by simp
qed

definition demo_builder :: cell_builder where
  "demo_builder = mk_cb [True, False, True] [EmptyOrdinaryCell]"

lemma demo_builder_wf:
  "cb_wf demo_builder" "\<not> cb_is_exotic demo_builder" "list_all wf_cell (cb_references demo_builder)"
  "bd_bits (cb_inner demo_builder) = [True, False, True]"
  "cb_references demo_builder = [EmptyOrdinaryCell]"
  by (simp_all add: demo_builder_def mk_cb_def MAX_REF_COUNT_def cb_wf_def)

lemma demo_builder_builds:
  obtains c where "build_ext no_hash demo_builder = Ok c"
  using build_ext_ok [of "[True, False, True]" "[EmptyOrdinaryCell]" 0 no_hash]
  by (auto simp: depth_le_def demo_builder_def list_all_iff)

lemma build_then_read_witness:
  "\<exists>c s. build_ext no_hash demo_builder = Ok c \<and> slice_new c = Ok s
    \<and> slice_bits s = [True, False, True] \<and> slice_refs s = [EmptyOrdinaryCell]"
proof -
  obtain c where c: "build_ext no_hash demo_builder = Ok c" by (rule demo_builder_builds)
  note w = demo_builder_wf
  from build_then_read [OF w(1-3) c] c w(4,5) show ?thesis by auto
qed

text \<open>
  C2. Building an ordinary cell from well-formed children cannot fail with anything but
  \<open>DepthOverflow\<close>, and succeeds when every child is less than 65535 deep at every level.
\<close>

theorem build_ordinary_total:
  assumes "cb_wf b" "\<not> cb_is_exotic b" "list_all wf_cell (cb_references b)"
  shows "(\<forall>e. build_ext sha b = Err e \<longrightarrow> e = DepthOverflow)
    \<and> (list_all (\<lambda>c. list_all (\<lambda>l. cell_depth c l < 65535) [0..<4]) (cb_references b)
        \<longrightarrow> is_ok (build_ext sha b))"
proof -
  obtain bs rs where b: "length bs \<le> 1023" "length rs \<le> 4" "b = mk_cb bs rs"
    using assms(1,2) cb_wf_iff by blast
  have i: "cb_references b = rs" by (simp add: b(3) mk_cb_def)
  have "is_ok (build_ext sha b)"
    if "list_all (\<lambda>c. list_all (\<lambda>l. cell_depth c l < 65535) [0..<4]) rs"
  proof -
    have "list_all (depth_le 65534) rs"
      using that unfolding depth_le_def by (elim list.pred_mono_strong) simp
    then obtain c where "build_ext sha (mk_cb bs rs) = Ok c"
      using build_ext_ok [of bs rs 65534 sha] b(1,2) assms(3) i by auto
    then show ?thesis using b(3) by simp
  qed
  then show ?thesis using build_ext_error [of bs rs sha] b assms(3) i by auto
qed

lemma build_ordinary_total_witness: "is_ok (build_ext no_hash demo_builder)"
  using build_ordinary_total [OF demo_builder_wf(1-3), of no_hash]
  by (simp add: demo_builder_wf(5) list_all_iff)

section \<open>Readers and writers\<close>

text \<open>
  C3. \<open>store_uint\<close> and \<open>get_uint\<close> are inverse: on any well-formed builder, after storing an
  \<open>n\<close>-bit integer (\<open>n \<le> 64\<close>, any bit alignment) the \<open>n\<close> bits at the old length read back as the
  low \<open>n\<close> bits of the value.
\<close>

theorem store_uint_get_uint:
  assumes "bd_wf b" "n \<le> 64" "store_uint b v n = Ok b'"
  shows "get_uint (as_data_slice b') (bd_bit_len b) n = Ok (v AND mask n)"
proof -
  obtain bs where b: "length bs \<le> 1023" "b = mk_bd bs" using assms(1) bd_wf_iff by blast
  have b': "b' = mk_bd (bs @ word_bits n v)" "length bs + n \<le> 1023"
    using assms b by (auto simp: appended_def MAX_BIT_LEN_def split: if_splits)
  note d = as_data_slice_spec [of b']
  have w: "bd_wf b'" "size_bits (as_data_slice b') = length bs + n"
    using b' d(2) length_slice_bits [of "as_data_slice b'"] by simp_all
  have "word_of_bits (word_bits n v) = v AND mask n"
    by (rule bit_word_eqI) (use assms(2) in \<open>auto simp: bit_simps\<close>)
  moreover have "v AND mask 0 = 0" by simp
  ultimately show ?thesis
    using w d b b' assms(2) by (cases "n = 0") (simp_all add: get_uint_spec)
qed

lemma store_uint_get_uint_witness:
  "\<exists>b'. store_uint (mk_bd [True]) 0x3FF 9 = Ok b' \<and> get_uint (as_data_slice b') 1 9 = Ok 0x1FF"
proof -
  have s: "store_uint (mk_bd [True]) 0x3FF 9 = Ok (mk_bd ([True] @ word_bits 9 (0x3FF :: 64 word)))"
    by (simp add: appended_def MAX_BIT_LEN_def)
  have "get_uint (as_data_slice (mk_bd ([True] @ word_bits 9 (0x3FF :: 64 word)))) 1 9 = Ok (0x3FF AND mask 9)"
    using store_uint_get_uint [OF _ _ s] by simp
  moreover have "(0x3FF AND mask 9 :: 64 word) = 0x1FF" by (simp add: mask_eq_exp_minus_1)
  ultimately show ?thesis using s by auto
qed

text \<open>
  The same for the 256-bit values (hashes and account addresses): the two 128-bit halves and the
  carry byte that \<open>store_u256\<close> and \<open>get_u256\<close> shift through give back the 32 bytes.
\<close>

theorem store_u256_get_u256:
  assumes "bd_wf b" "length h = 32" "store_u256 b h = Ok b'"
  shows "get_u256 (as_data_slice b') (bd_bit_len b) = Ok h"
proof -
  obtain bs where b: "length bs \<le> 1023" "b = mk_bd bs" using assms(1) bd_wf_iff by blast
  have b': "b' = mk_bd (bs @ bytes_bits h)" "length bs + 256 \<le> 1023"
    using assms b by (auto simp: appended_def MAX_BIT_LEN_def split: if_splits)
  note d = as_data_slice_spec [of b']
  have w: "bd_wf b'" "size_bits (as_data_slice b') = length bs + 256"
    using b' assms(2) d(2) length_slice_bits [of "as_data_slice b'"] by simp_all
  have "pack_bits (bytes_bits h) = h"
    by (rule byte_list_eqI) (use assms(2) in \<open>auto simp: nbit_pack_bits div_ceil8_def\<close>)
  then show ?thesis using w d b b' assms(2) by (simp add: get_u256_spec)
qed

lemma store_u256_get_u256_witness:
  "\<exists>b'. store_u256 (mk_bd [True, False, True]) EMPTY_CELL_HASH = Ok b'
    \<and> get_u256 (as_data_slice b') 3 = Ok EMPTY_CELL_HASH"
proof -
  have l: "length EMPTY_CELL_HASH = 32" by (simp add: EMPTY_CELL_HASH_def)
  have s: "store_u256 (mk_bd [True, False, True]) EMPTY_CELL_HASH
      = Ok (mk_bd ([True, False, True] @ bytes_bits EMPTY_CELL_HASH))"
    by (simp add: appended_def MAX_BIT_LEN_def l)
  show ?thesis using store_u256_get_u256 [OF _ l s] s by (simp add: numeral_3_eq_3)
qed

text \<open>
  \<open>get_uint\<close> reads a window: any width from 1 to 64 bits, at any offset of any well-formed slice,
  is the big-endian value of those bits of the window, and a read that leaves the window is
  \<open>CellUnderflow\<close>.
\<close>

theorem get_uint_window:
  assumes "wf_slice s" "off + n \<le> 64512" "0 < n"
  shows "get_uint s off n =
    (if n \<le> 64 \<and> off + n \<le> size_bits s then Ok (word_of_bits (take n (drop off (slice_bits s))))
     else Err CellUnderflow)"
  using assms by (simp add: get_uint_spec)

lemma get_uint_window_witness: "get_uint demo_slice 4 10 = Ok 0x170"
  using get_uint_window [OF demo_slice_wf, of 4 10]
  by (simp add: demo_size_bits demo_slice_bits demo_bits_def word_of_bits_def)

text \<open>
  \<open>store_raw\<close> appends: for a value of less than 8192 bytes the first bits of the value (zeros
  first when more bits are asked for than the value has) follow the stored ones; the builder stays
  well-formed, and the only error is exceeding 1023 bits.
\<close>

theorem store_raw_appends:
  assumes "bd_wf b" "n \<le> 64512" "length v < 8192"
  shows "case store_raw b v n of
      Inl e \<Rightarrow> e = CellOverflow \<and> bd_bit_len b + n > 1023
    | Inr b' \<Rightarrow> bd_wf b' \<and> bd_bit_len b + n \<le> 1023 \<and> bd_bits b' = bd_bits b
        @ replicate (n - 8 * length v) False @ take (min n (8 * length v)) (bytes_bits v)"
proof -
  obtain bs where b: "length bs \<le> 1023" "b = mk_bd bs" using assms(1) bd_wf_iff by blast
  have "length (raw_bits v n) = n" by simp
  then show ?thesis
    using b assms by (auto simp: store_raw_mk appended_def MAX_BIT_LEN_def raw_bits_def)
qed

lemma store_raw_appends_witness:
  "\<exists>b'. store_raw (mk_bd [True, True, False]) [0xA5, 0xFF] 12 = Ok b' \<and> bd_bit_len b' = 15
    \<and> bd_bits b' = [True, True, False, True, False, True, False, False, True, False, True,
                    True, True, True, True]"
proof (cases "store_raw (mk_bd [True, True, False]) [0xA5, 0xFF] 12")
  case (Inl e)
  then show ?thesis using store_raw_appends [of "mk_bd [True, True, False]" 12 "[0xA5, 0xFF]"] by simp
next
  case (Inr b')
  have b: "take 12 (bytes_bits [0xA5, 0xFF]) =
      [True, False, True, False, False, True, False, True, True, True, True, True]" by code_simp
  have "bd_bits b' = [True, True, False, True, False, True, False, False, True, False, True,
                    True, True, True, True]"
    using store_raw_appends [of "mk_bd [True, True, False]" 12 "[0xA5, 0xFF]"] Inr b by simp
  with length_bd_bits [of b'] Inr show ?thesis by simp
qed

text \<open>
  C4. The representation invariant of \<open>CellDataBuilder\<close> (128 bytes, at most 1023 bits, zero bits past
  the length) holds of exactly the builders that sequences of its operations, those on big integers
  aside, reach from \<open>new\<close>, as long as no caller passes a count of more than 64512 bits. That bound is
  exact: if a larger count may be passed, the addition of lengths at 16 bits wraps and a builder outside
  the invariant is reached.
\<close>

theorem reachable_builders:
  "if m \<le> 64512 then \<forall>b. bd_reachable m b \<longleftrightarrow> bd_wf b else \<exists>b. bd_reachable m b \<and> \<not> bd_wf b"
proof (cases "m \<le> 64512")
  case True
  have "bd_reachable m b" if b: "bd_wf b" for b
  proof -
    obtain bs where "length bs \<le> 1023" "b = mk_bd bs" using b bd_wf_iff by blast
    then show ?thesis by (simp add: mk_bd_reachable)
  qed
  with bd_reachable_wf [OF True] True show ?thesis by auto
qed (use wrapped_reachable in simp)

text \<open>
  \<open>rewind_bits\<close> drops the last \<open>n\<close> bits and clears them, so a rewound builder is the builder as
  it was: rewinding what \<open>store_uint\<close> stored gives back the very same bytes.
\<close>

theorem rewind_undoes_store:
  assumes "bd_wf b" "n \<le> 64512" "store_uint b v n = Ok b'"
  shows "rewind_bits b' n = Ok b"
proof -
  obtain bs where b: "length bs \<le> 1023" "b = mk_bd bs" using assms(1) bd_wf_iff by blast
  let ?xs = "replicate (n - 64) False @ word_bits (min n 64) v"
  have l: "length ?xs = n" by simp
  have b': "b' = mk_bd (bs @ ?xs)" "length bs + n \<le> 1023"
    using assms b l by (auto simp: appended_def MAX_BIT_LEN_def split: if_splits)
  have "length (bs @ ?xs) = length bs + n" by simp
  then show ?thesis using b b'(2) unfolding b'(1) by (subst rewind_bits_mk) simp_all
qed

lemma rewind_undoes_store_witness:
  "\<exists>b'. store_uint (mk_bd [True]) 0x3FF 9 = Ok b' \<and> rewind_bits b' 9 = Ok (mk_bd [True])"
proof -
  have s: "store_uint (mk_bd [True]) 0x3FF 9 = Ok (mk_bd ([True] @ word_bits 9 (0x3FF :: 64 word)))"
    by (simp add: appended_def MAX_BIT_LEN_def)
  show ?thesis using rewind_undoes_store [OF _ _ s] s by simp
qed

text \<open>
  \<open>store_slice\<close> copies a window: bits and references of the slice follow those of the builder,
  whatever the alignment of either, and the only error is \<open>CellOverflow\<close>.
\<close>

theorem store_slice_appends:
  assumes "cb_wf b" "\<not> cb_is_exotic b" "wf_slice s" "\<not> is_virtual (sl_cell s)"
  shows "case store_slice b s of
      Inl e \<Rightarrow> e = CellOverflow
        \<and> (bd_bit_len (cb_inner b) + size_bits s > 1023 \<or> length (cb_references b) + size_refs s > 4)
    | Inr b' \<Rightarrow> cb_wf b' \<and> bd_bits (cb_inner b') = bd_bits (cb_inner b) @ slice_bits s
        \<and> cb_references b' = cb_references b @ slice_refs s"
proof -
  obtain bs rs where b: "length bs \<le> 1023" "length rs \<le> 4" "b = mk_cb bs rs"
    using assms(1,2) cb_wf_iff by blast
  have m: "cb_inner (mk_cb xs ys) = mk_bd xs" "cb_references (mk_cb xs ys) = ys" for xs ys
    by (simp_all add: mk_cb_def)
  show ?thesis
    using b assms(3,4)
    by (auto simp: store_slice_mk cb_appended_def MAX_BIT_LEN_def MAX_REF_COUNT_def m)
qed

lemma store_slice_appends_witness:
  "\<exists>b'. store_slice demo_builder demo_slice = Ok b'
    \<and> bd_bits (cb_inner b') = [True, False, True] @ demo_bits
    \<and> cb_references b' = [EmptyOrdinaryCell]"
proof -
  have w: "wf_slice demo_slice" "\<not> is_virtual (sl_cell demo_slice)"
    by (rule demo_slice_wf) (simp add: demo_slice_def demo_cell_def slice_new_allow_exotic_def)
  have n: "bd_bit_len (cb_inner demo_builder) = 3" "length (cb_references demo_builder) = 1"
    "size_refs demo_slice = 0" "slice_refs demo_slice = []"
    by (simp_all add: demo_builder_def mk_cb_def) code_simp+
  show ?thesis
    using store_slice_appends [OF demo_builder_wf(1,2) w] n demo_size_bits demo_builder_wf(4,5)
    by (auto simp: demo_slice_bits split: sum.splits)
qed

section \<open>Comparing and scanning bits\<close>

text \<open>
  C5. The common-prefix computation, which compares two windows of different alignment byte by byte
  through shifted accumulators, finds the length of the longest common prefix of the two bit
  strings, and the returned slice is that prefix.
\<close>

theorem longest_common_prefix:
  assumes "wf_slice s" "wf_slice t"
  shows "size_bits (longest_common_data_prefix s t) = lcp_len (slice_bits s) (slice_bits t)
    \<and> wf_slice (longest_common_data_prefix s t)
    \<and> slice_bits (longest_common_data_prefix s t)
        = take (lcp_len (slice_bits s) (slice_bits t)) (slice_bits s)"
  using longest_common_data_prefix_spec [OF assms] by simp

definition demo_tail :: cell_slice where
  "demo_tail = advance demo_slice 3"

lemma demo_tail_wf: "wf_slice demo_tail" and demo_tail_bits: "slice_bits demo_tail = drop 3 demo_bits"
  using demo_slice_wf by (simp_all add: demo_tail_def wf_advance slice_bits_advance demo_size_bits demo_slice_bits)

definition demo_other :: cell_slice where
  "demo_other = slice_new_allow_exotic (IntermediateDataCell [0x28] 8)"

lemma demo_other_wf: "wf_slice demo_other" and demo_other_bits:
  "slice_bits demo_other = [False, False, True, False, True, False, False, False]"
  by code_simp+

lemma longest_common_prefix_witness:
  "size_bits (longest_common_data_prefix demo_tail demo_other) = 5"
  using longest_common_prefix [OF demo_tail_wf demo_other_wf]
  by (simp add: demo_tail_bits demo_bits_def demo_other_bits)

text \<open>
  \<open>strip_data_prefix\<close> succeeds exactly when the one bit string is a prefix of the other, and
  leaves the rest of it.
\<close>

theorem strip_prefix:
  assumes "wf_slice s" "wf_slice p"
  shows "case strip_data_prefix s p of
      None \<Rightarrow> \<not> (\<exists>rest. slice_bits s = slice_bits p @ rest)
    | Some r \<Rightarrow> wf_slice r \<and> slice_bits s = slice_bits p @ slice_bits r \<and> slice_refs r = slice_refs s"
proof (cases "take (size_bits p) (slice_bits s) = slice_bits p")
  case True
  then have "size_bits p \<le> size_bits s" by (metis length_slice_bits length_take min.cobounded1)
  then show ?thesis
    using True assms
    by (simp add: strip_data_prefix_spec wf_advance slice_bits_advance)
       (metis append_take_drop_id)
next
  case False
  have "take (size_bits p) (slice_bits p @ r) = slice_bits p" for r by simp
  with False show ?thesis using assms by (auto simp: strip_data_prefix_spec)
qed

lemma strip_prefix_witness: "strip_data_prefix demo_slice demo_other = None"
  using strip_prefix [OF demo_slice_wf demo_other_wf]
  by (auto simp: demo_slice_bits demo_bits_def demo_other_bits split: option.splits)

text \<open>
  The word-at-a-time bit scan gives the length of the leading run of a bit, whatever the
  alignment in memory of the data it scans: the address only selects how many single bytes are
  looked at before the 64-bit loop.
\<close>

theorem memscan_is_run_length:
  assumes "offset + bits \<le> 8 * length ds"
  shows "bits_memscan addr ds offset bits b = run_len b (bits_range ds offset (offset + bits))"
  by (rule bits_memscan_spec) (rule assms)

lemma memscan_is_run_length_witness:
  "bits_memscan 3 [0xFF, 0xFF, 0xFE, 0] 3 25 True = 20"
proof -
  have "run_len True (bits_range [0xFF, 0xFF, 0xFE, 0] 3 (3 + 25)) = 20" by code_simp
  then show ?thesis using memscan_is_run_length [of 3 25 "[0xFF, 0xFF, 0xFE, 0]" 3 True] by simp
qed

text \<open>
  \<open>test_uniform\<close> (the byte-wise mask comparison that picks the \<open>hml_same\<close> label) answers
  \<open>Some b\<close> exactly when the window is a non-empty repetition of \<open>b\<close>.
\<close>

theorem test_uniform_correct:
  assumes "wf_slice s"
  shows "test_uniform s = Some b \<longleftrightarrow> slice_bits s \<noteq> [] \<and> slice_bits s = replicate (size_bits s) b"
proof -
  have u: "slice_bits s = replicate (size_bits s) b \<Longrightarrow> slice_bits s \<noteq> [] \<Longrightarrow> hd (slice_bits s) = b"
    by (metis hd_replicate length_0_conv length_slice_bits)
  show ?thesis
  proof (cases "slice_bits s \<noteq> [] \<and> slice_bits s = replicate (size_bits s) (hd (slice_bits s))")
    case True
    show ?thesis unfolding test_uniform_spec [OF assms] if_P [OF True] option.inject
    proof
      assume "hd (slice_bits s) = b"
      from True [unfolded this] show "slice_bits s \<noteq> [] \<and> slice_bits s = replicate (size_bits s) b" .
    qed (use u in blast)
  next
    case False
    have "\<not> (slice_bits s \<noteq> [] \<and> slice_bits s = replicate (size_bits s) b)"
    proof
      assume a: "slice_bits s \<noteq> [] \<and> slice_bits s = replicate (size_bits s) b"
      with u have "b = hd (slice_bits s)" by blast
      from a [unfolded this] False show False by blast
    qed
    then show ?thesis unfolding test_uniform_spec [OF assms] if_not_P [OF False] by blast
  qed
qed

lemma test_uniform_correct_witness: "test_uniform demo_slice \<noteq> Some True"
  using test_uniform_correct [OF demo_slice_wf, of True]
  by (simp add: demo_slice_bits demo_bits_def demo_size_bits numeral_eq_Suc)

section \<open>Descriptors, level masks and the cell validator\<close>

text \<open>
  The level-mask iterator (lowest set bit, then clear it) yields level 0 and every significant
  level, in increasing order and once each, and \<open>hash_index\<close> of a level is the number of
  significant levels from 1 up to it: the position at which the hash for that level is stored.
\<close>

theorem level_mask_enumeration:
  "lm_iter_list (lm_into_iter (lm_new m)) = filter (contains (lm_new m)) [0..<4]
    \<and> hash_index (lm_new m) l = length (filter (contains (lm_new m)) [1..<Suc l])"
  using lm_iter_list_eq [OF lm_new_less] hash_index_eq [OF lm_new_less] by simp

text \<open>
  The two descriptor bytes lose nothing: level mask, exotic flag, reference count, byte length
  and alignment of the data are read back from them, and the type they encode is the one the
  arguments determine.
\<close>

theorem descriptor_roundtrip:
  assumes "r \<le> 4" "n \<le> 1023"
  shows "let d = cd_new (compute_d1 (lm_new m) e r) (compute_d2 n) in
    cd_level_mask d = lm_new m \<and> is_exotic d = e \<and> reference_count d = r \<and> \<not> store_hashes d
    \<and> byte_len d = div_ceil8 n \<and> (is_aligned d \<longleftrightarrow> 8 dvd n)
    \<and> cell_type d = (if \<not> e then Ordinary
        else if r = 0 then (if lm_new m = 0 then LibraryReferenceType else PrunedBranchType)
        else if r = 1 then MerkleProofType else MerkleUpdateType)"
  using assms byte_len_compute_d2 [of n "compute_d1 (lm_new m) e r"]
    is_aligned_compute_d2 [of "compute_d1 (lm_new m) e r" n]
    cell_type_compute_d1 [of "lm_new m" r e "compute_d2 n"]
  by (simp add: cd_new_def [of _ "compute_d2 n"])
     (simp flip: cd_new_def)

lemma descriptor_roundtrip_witness:
  "byte_len (cd_new (compute_d1 (lm_new 5) True 2) (compute_d2 552)) = 69
    \<and> cell_type (cd_new (compute_d1 (lm_new 5) True 2) (compute_d2 552)) = MerkleUpdateType"
  using descriptor_roundtrip [of 2 552 5 True] by (simp add: Let_def div_ceil8_def)

text \<open>
  C6. A cell that \<open>finalize_cell\<close> returns is well-formed (the number of stored hashes, the reference
  count, the data length and the descriptor agree, recursively) and has exactly the descriptor,
  bit length, data and children of the parts.
\<close>

theorem finalize_cell_sound:
  assumes "wf_parts p" "finalize_cell sha p = Ok c"
  shows "wf_cell c \<and> descriptor c = cp_descriptor p \<and> cell_bit_len c = cp_bit_len p
    \<and> cell_data c = cp_data p \<and> cell_refs c = cp_references p"
  using finalize_cell_wf [OF assms] wf_cell_children(1) [of c] by simp

definition demo_library_parts :: cell_parts where
  "demo_library_parts =
    \<lparr>cp_bit_len = 264, cp_descriptor = cd_new (compute_d1 0 True 0) (compute_d2 264),
     cp_children_mask = 0, cp_references = [], cp_data = 2 # replicate 32 7\<rparr>"

lemma demo_library_parts_wf: "wf_parts demo_library_parts"
  by code_simp

lemma demo_library_cell:
  "finalize_cell no_hash demo_library_parts =
    Ok (LibraryReference (replicate 32 0) (cd_new 8 66) (2 # replicate 32 7))"
  by code_simp

lemma finalize_cell_sound_witness:
  "wf_cell (LibraryReference (replicate 32 0) (cd_new 8 66) (2 # replicate 32 7))"
  by (rule finalize_cell_sound [OF demo_library_parts_wf demo_library_cell, THEN conjunct1])

text \<open>
  C7. The validator of exotic cells: the type byte in the data agrees with the type encoded in the
  descriptor; a Merkle proof or update commits to the level-0 hash and depth of its children; a
  pruned branch stores its own level mask.
\<close>

theorem exotic_cells_validated:
  assumes "wf_parts p" "is_exotic (cp_descriptor p)" "finalize_cell sha p = Ok c"
  shows "case cell_type (descriptor c) of
      PrunedBranchType \<Rightarrow> cell_data c ! 0 = 1 \<and> cell_data c ! 1 = cell_level_mask c
    | LibraryReferenceType \<Rightarrow> cell_data c ! 0 = 2 \<and> cell_level_mask c = 0
    | MerkleProofType \<Rightarrow> cell_data c ! 0 = 3
        \<and> take 32 (drop 1 (cell_data c)) = cell_hash (cell_refs c ! 0) 0
        \<and> be16 (drop 33 (cell_data c)) = cell_depth (cell_refs c ! 0) 0
    | MerkleUpdateType \<Rightarrow> cell_data c ! 0 = 4
        \<and> take 32 (drop 1 (cell_data c)) = cell_hash (cell_refs c ! 0) 0
        \<and> take 32 (drop 33 (cell_data c)) = cell_hash (cell_refs c ! 1) 0
        \<and> be16 (drop 65 (cell_data c)) = cell_depth (cell_refs c ! 0) 0
        \<and> be16 (drop 67 (cell_data c)) = cell_depth (cell_refs c ! 1) 0
    | Ordinary \<Rightarrow> False"
proof -
  note w = finalize_cell_wf [OF assms(1,3)]
  have r: "cell_refs c = cp_references p" using w(1,5) wf_cell_children(1) by simp
  obtain hs where hs: "compute_hashes sha p = Ok hs"
    using assms(3) by (auto simp: finalize_cell_def elim!: ok_eq_OkE)
  have "reference_count (cp_descriptor p) = length (cp_references p)"
    using assms(1) by (simp add: wf_parts_def)
  then have "check_exotic p = Ok (cell_type (descriptor c), cell_level_mask c)"
    using compute_hashes_Ok(2) [OF hs] assms(2) w(2) by (simp add: cell_level_mask_def)
  then show ?thesis
    unfolding r w(4)
    by (auto simp: check_exotic_def Let_def from_byte_exotic_def cell_level_mask_def w(2) nth_opt_def
          level_values
        split: list.splits option.splits if_splits)
qed

lemma exotic_cells_validated_witness:
  "(2 # replicate 32 7 :: byte list) ! 0 = 2
    \<and> cell_level_mask (LibraryReference (replicate 32 0) (cd_new 8 66) (2 # replicate 32 7)) = 0"
proof -
  have "is_exotic (cp_descriptor demo_library_parts)"
    "cell_type (descriptor (LibraryReference (replicate 32 0) (cd_new 8 66) (2 # replicate 32 7)))
      = LibraryReferenceType" by code_simp+
  with exotic_cells_validated [OF demo_library_parts_wf _ demo_library_cell] show ?thesis by simp
qed

section \<open>Two byte copies that leave their contract\<close>

text \<open>
  \<open>get_raw\<close> tests the window with \<open>bits_start + bits\<close>, not with the offset: on an 8-bit window of a
  longer cell, reading 8 bits at offset 8 returns the next byte of the cell, where the bit and
  integer readers answer \<open>CellUnderflow\<close>.
\<close>

theorem get_raw_leaves_window:
  "size_bits (get_prefix demo_slice 8 0) = 8
    \<and> get_raw (get_prefix demo_slice 8 0) 8 [0] 8 = Ok [0xC3]
    \<and> get_uint (get_prefix demo_slice 8 0) 8 8 = Err CellUnderflow
    \<and> get_bit (get_prefix demo_slice 8 0) 8 = Err CellUnderflow"
proof -
  have p: "wf_slice (get_prefix demo_slice 8 0)" "length (slice_bits (get_prefix demo_slice 8 0)) = 8"
    using get_prefix_spec [OF demo_slice_wf, of 8 0] by (simp_all add: demo_slice_bits demo_bits_def)
  then have n: "size_bits (get_prefix demo_slice 8 0) = 8" by simp
  have "get_raw (get_prefix demo_slice 8 0) 8 [0] 8 = Ok [0xC3]"
    by (simp add: get_raw_def get_prefix_def range_get_prefix_def demo_slice_def demo_cell_def
        slice_new_allow_exotic_def range_full_def Let_def div_ceil8_def copy_bytes_def mask_last_def)
  then show ?thesis using p n by (simp add: get_uint_spec get_bit_spec)
qed

text \<open>
  \<open>store_raw\<close> truncates the length of the value in bits to \<open>u16\<close>: for a value of exactly 8192 bytes
  it is taken to be empty, and zeros are stored in place of its bits.
\<close>

theorem store_raw_wraps_length:
  assumes "length v = 8192" "n \<le> 1023"
  shows "store_raw bd_new v n = Ok (mk_bd (replicate n False))"
proof -
  have "raw_max_bit_len v = 0" using assms(1) by (simp add: raw_max_bit_len_def)
  moreover have "mk_bd (replicate n False) = bd_new\<lparr>bd_bit_len := n\<rparr>"
    using pad128_zeros [of "[]" n] assms(2) by (simp add: bd_new_mk mk_bd_def)
  ultimately show ?thesis using assms(2) by (simp add: store_raw_def bd_new_def MAX_BIT_LEN_def)
qed

lemma store_raw_wraps_length_witness:
  "store_raw bd_new (replicate 8192 0xFF) 3 = Ok (mk_bd [False, False, False])"
proof -
  have "replicate 3 False = [False, False, False]" by (simp add: numeral_eq_Suc)
  then show ?thesis using store_raw_wraps_length [of "replicate 8192 0xFF" 3] by simp
qed

end
