(* ===== verification/Dict_Properties.thy ===== *)
theory Dict_Properties
  imports Dict_Map Cell_Properties
begin

text \<open>
  The properties of dictionaries: labels, lookup, insertion, removal, and what follows for a dictionary
  as a whole. \<open>stores K D V n d m\<close> says that the root \<open>d\<close> stores the map \<open>m\<close> from keys of \<open>n\<close> bits to values;
  with \<open>K = None\<close> the labels of its cells may be encoded in any way, with \<open>K = Some sha\<close> they are the
  shortest ones and the cells were built with the hash \<open>sha\<close>.
\<close>

section \<open>Labels\<close>

text \<open>
  C8. A label of at most 1011 bits is always written, and it reads back whatever follows it, leaving the
  rest of the slice: for every key slice and every key length.
\<close>

theorem label_roundtrip:
  assumes "wf_slice key" "size_bits key \<le> n" "n \<le> MAX_KEY_LEN"
  shows "\<exists>b. write_label key n cb_new = Ok b \<and>
    (\<forall>s rest. wf_slice s \<and> slice_bits s = bd_bits (cb_inner b) @ rest \<longrightarrow>
      (\<exists>l s'. read_label s n = Ok (l, s') \<and> slice_bits l = slice_bits key \<and> slice_bits s' = rest))"
proof -
  let ?bs = "label_bits n (slice_bits key)"
  have l: "length ?bs \<le> 1023"
    using label_bits_length [of n "slice_bits key"] label_fits [OF assms(2,3)] by (simp add: MAX_BIT_LEN_def)
  then have b: "write_label key n cb_new = Ok (mk_cb ?bs [])"
    using appendsD [OF appends_write_label [OF assms], of "[]" "[]"]
    by (simp add: cb_new_mk cb_appended_def MAX_BIT_LEN_def MAX_REF_COUNT_def)
  have "\<exists>l s'. read_label s n = Ok (l, s') \<and> slice_bits l = slice_bits key \<and> slice_bits s' = rest"
    if "wf_slice s" "slice_bits s = ?bs @ rest" for s rest
  proof -
    have "parse_label n (slice_bits s) = Some (slice_bits key, rest)"
      using parse_label_bits [of "slice_bits key" n rest] assms that(2) by simp
    then have "label_result s (Some (slice_bits key, rest)) (read_label s n)"
      using read_label_spec [OF that(1), of n] assms(3) by (simp add: MAX_KEY_LEN_def)
    then obtain l k where "read_label s n = Ok (l, advance s k)" "slice_bits l = slice_bits key"
      "k \<le> size_bits s" "drop k (slice_bits s) = rest"
      by (auto simp: label_result_def)
    then show ?thesis using that(1) by (auto simp: slice_bits_advance)
  qed
  then show ?thesis using b l by (auto simp: mk_cb_def)
qed

lemma label_roundtrip_witness:
  "is_ok (write_label demo_other 32 cb_new)"
proof -
  have "size_bits demo_other = 8" using demo_other_bits length_slice_bits [of demo_other] by simp
  then show ?thesis
    using label_roundtrip [OF demo_other_wf, of 32] by (auto simp: MAX_KEY_LEN_def is_ok_iff)
qed

text \<open>
  No label is longer than needed: whatever encoding \<open>read_label\<close> decoded, \<open>write_label\<close> writes the same
  label in at most as many bits as were read.
\<close>

theorem label_is_shortest:
  assumes "wf_slice s" "0 < n" "n \<le> MAX_KEY_LEN" "read_label s n = Ok (l, s')" "size_bits l \<le> n"
  shows "\<exists>b. write_label l n cb_new = Ok b \<and> bd_bit_len (cb_inner b) + size_bits s' \<le> size_bits s"
proof -
  have "label_result s (parse_label n (slice_bits s)) (Ok (l, s'))"
    using read_label_spec [OF assms(1), of n] assms(3,4) by (simp add: MAX_KEY_LEN_def)
  then obtain k where
    r: "parse_label n (slice_bits s) = Some (slice_bits l, drop k (slice_bits s))" "wf_slice l"
      "k \<le> size_bits s" "s' = advance s k"
    by (auto simp: label_result_def split: option.splits)
  have "length (label_bits n (slice_bits l)) \<le> k"
    using label_bits_shortest [OF _ r(1)] assms(2) r(3) by simp
  moreover have "write_label l n cb_new = Ok (mk_cb (label_bits n (slice_bits l)) [])"
    using appendsD [OF appends_write_label [OF r(2) assms(5,3)], of "[]" "[]"]
      label_bits_length [of n "slice_bits l"] label_fits [OF assms(5,3)]
    by (simp add: cb_new_mk cb_appended_def MAX_BIT_LEN_def MAX_REF_COUNT_def)
  ultimately show ?thesis
    using r(3,4) size_bits_advance [OF assms(1) r(3)] by (simp add: mk_cb_def)
qed

text \<open>A label of three bits in the long form (13 bits), then three bits of content.\<close>

definition demo_long_label :: cell_slice where
  "demo_long_label = slice_new_allow_exotic (IntermediateDataCell [0x80, 0xD4] 16)"

lemma label_is_shortest_witness:
  "\<exists>l s' b. read_label demo_long_label 200 = Ok (l, s') \<and> size_bits s' = 3
    \<and> write_label l 200 cb_new = Ok b \<and> bd_bit_len (cb_inner b) \<le> 13"
proof -
  have w: "wf_slice demo_long_label" "size_bits demo_long_label = 16" by code_simp+
  have "parse_label 200 (slice_bits demo_long_label) = Some ([False, True, False], [True, False, False])"
    by code_simp
  with read_label_spec [OF w(1), of 200] obtain l k where
    r: "read_label demo_long_label 200 = Ok (l, advance demo_long_label k)" "slice_bits l = [False, True, False]"
      "k \<le> 16" "drop k (slice_bits demo_long_label) = [True, False, False]"
    using w(2) by (auto simp: label_result_def)
  have l: "size_bits l = 3" using r(2) length_slice_bits [of l] by simp
  have "size_bits (advance demo_long_label k) = 3"
    using size_bits_advance [OF w(1), of k] arg_cong [OF r(4), of length] w(2) r(3) by simp
  with label_is_shortest [OF w(1) _ _ r(1)] l w(2) r(1) show ?thesis
    by (fastforce simp: MAX_KEY_LEN_def)
qed

text \<open>
  \<open>read_label\<close> decodes exactly the grammar of labels, on every slice: it returns the label and the rest
  of the slice when the bits parse, and \<open>CellUnderflow\<close> otherwise, never anything else.
\<close>

theorem read_label_decodes:
  assumes "wf_slice s" "n \<le> 1023"
  shows "case parse_label n (slice_bits s) of
      None \<Rightarrow> read_label s n = Err CellUnderflow
    | Some (lab, rest) \<Rightarrow> \<exists>l s'. read_label s n = Ok (l, s') \<and> wf_slice l \<and> wf_slice s'
        \<and> slice_bits l = lab \<and> slice_bits s' = rest \<and> slice_refs s' = slice_refs s"
  using read_label_spec [OF assms] assms(1)
  by (auto simp: label_result_def wf_advance slice_bits_advance split: option.splits)

lemma read_label_decodes_witness: "read_label (bits_key [True, True, False]) 6 = Err CellUnderflow"
proof -
  note k = bits_key_spec [of "[True, True, False]"]
  have "bits_for_len 6 = 3" by code_simp
  then have "parse_label 6 (slice_bits (bits_key [True, True, False])) = None"
    using k by (simp add: parse_len_def split_at_def)
  then show ?thesis using read_label_decodes [of "bits_key [True, True, False]" 6] k(1) by simp
qed

text \<open>
  Joining the label of a removed fork with the label of the remaining child writes the same bits as
  \<open>write_label\<close> on the concatenated label would.
\<close>

theorem label_parts_join:
  assumes "wf_slice pfx" "wf_slice rem" "wf_slice key" "slice_bits key = slice_bits pfx @ b # slice_bits rem"
    and "size_bits key \<le> n" "n \<le> MAX_KEY_LEN" "cb_wf bld" "\<not> cb_is_exotic bld"
  shows "write_label_parts pfx b rem n bld = write_label key n bld"
proof -
  from assms(7,8) obtain bs rs where b: "length bs \<le> 1023" "length rs \<le> 4" "bld = mk_cb bs rs"
    using cb_wf_iff by blast
  have "size_bits pfx + 1 + size_bits rem = size_bits key"
    using arg_cong [OF assms(4), of length] by simp
  then show ?thesis
    using appendsD [OF appends_write_label_parts [OF assms(1,2) _ assms(6), of b] b(1,2)]
      appendsD [OF appends_write_label [OF assms(3,5,6)] b(1,2)] assms(4,5) b(3) by simp
qed

lemma label_parts_join_witness:
  "write_label_parts (bits_key [True]) True (bits_key [True, True]) 100 demo_builder
    = write_label (bits_key [True, True, True, True]) 100 demo_builder"
  by (rule label_parts_join) (simp_all add: bits_key_spec demo_builder_wf MAX_KEY_LEN_def)

section \<open>Lookup, insertion, removal\<close>

definition demo_entries :: "(bool list \<times> dict_value) list" where
  "demo_entries = [([False, True, True], ([True], [])), ([False, False, True], ([False, True], [EmptyOrdinaryCell])),
     ([True, True, True], ([], []))]"

definition demo_dict :: "cell option" where
  "demo_dict = put_all no_hash 3 demo_entries None"

definition demo_content :: "bool list \<Rightarrow> dict_value option" where
  "demo_content = map_of demo_entries"

lemma demo_room: "room 0 64 3"
  using bits_for_len_small [of 3 2] by (simp add: room_def MAX_KEY_LEN_def)

lemma demo_value_ok: "list_all (\<lambda>(k, v). length k = 3 \<and> value_ok 0 64 v) demo_entries"
  by (simp add: demo_entries_def value_ok_def depth_le_def list_all_iff)

lemma put_all_stores:
  "stores K D V n d m \<Longrightarrow> room D V n \<Longrightarrow> canon_by sha K \<Longrightarrow>
    list_all (\<lambda>(k, v). length k = n \<and> value_ok D V v) kvs \<Longrightarrow> stores K D V n (put_all sha n kvs d) (m ++ map_of (rev kvs))"
proof (induction kvs arbitrary: d m)
  case (Cons kv kvs)
  obtain k v where kv: "kv = (k, v)" by (cases kv)
  from dict_put_stores [OF Cons.prems(1-3), of k v] Cons.prems(4)
  have "stores K D V n (dict_put sha n k v d) (m(k \<mapsto> v))" by (simp add: kv)
  moreover have "list_all (\<lambda>(k, v). length k = n \<and> value_ok D V v) kvs" using Cons.prems(4) by simp
  ultimately have "stores K D V n (put_all sha n kvs (dict_put sha n k v d)) (m(k \<mapsto> v) ++ map_of (rev kvs))"
    by (rule Cons.IH [OF _ Cons.prems(2,3)])
  moreover have "put_all sha n kvs (dict_put sha n k v d) = put_all sha n (kv # kvs) d"
    by (simp add: put_all_def kv)
  moreover have "m(k \<mapsto> v) ++ map_of (rev kvs) = m ++ map_of (rev (kv # kvs))"
    by (simp add: kv map_add_def fun_eq_iff split: option.split)
  ultimately show ?case by (simp only:)
qed (simp add: put_all_def)

lemma demo_dict_stores: "stores (Some no_hash) 0 64 3 demo_dict demo_content"
proof -
  have "map_of (rev demo_entries) = demo_content"
    by (simp add: demo_content_def demo_entries_def fun_eq_iff)
  then show ?thesis
    using put_all_stores [of "Some no_hash" 0 64 3 None "\<lambda>_. None" no_hash demo_entries] demo_room demo_value_ok
    by (simp add: stores_None demo_dict_def)
qed

text \<open>
  C9. \<open>dict_get\<close> computes the map: on a dictionary that stores \<open>m\<close> it never fails on a key of the right
  length and returns exactly the value of the key (its bits and references), or \<open>None\<close> when it is absent;
  on a key of another length it returns \<open>CellUnderflow\<close>.
\<close>

theorem dict_get_correct:
  assumes "stores K D V n d m" "n \<le> 1023" "wf_slice key"
  shows "if size_bits key = n
    then \<exists>res. dict_get d n key = Ok res \<and> map_option slice_value res = m (slice_bits key)
    else dict_get d n key = Err CellUnderflow"
proof (cases "size_bits key = n")
  case True
  from dict_get_stores [OF assms True] True show ?thesis by auto
qed (simp add: dict_get_def)

lemma dict_get_correct_witness:
  "\<exists>s. dict_get demo_dict 3 (bits_key [False, False, True]) = Ok (Some s)
    \<and> slice_value s = ([False, True], [EmptyOrdinaryCell])"
  using dict_get_correct [OF demo_dict_stores, of "bits_key [False, False, True]"]
  by (auto simp: bits_key_spec demo_content_def demo_entries_def)

text \<open>
  C10. \<open>dict_insert\<close> is map update, for every set mode: \<open>Set\<close> always writes, \<open>Add\<close> only an absent key and
  \<open>Replace\<close> only a present one. The flag says whether it wrote; when it did, the new root stores the
  updated map (and is canonical if the old one was), otherwise the dictionary is unchanged. It does not
  fail as long as there is room for labels, values and depth.
\<close>

theorem dict_insert_correct:
  assumes "stores K D V n d m" "room D V n" "wf_slice key"
    and "appends val (fst v) (snd v)" "value_ok D V v" "K = None \<or> K = Some sha"
  shows "if size_bits key \<noteq> n then dict_insert sha d key n val mode = Err CellUnderflow
    else if (case mode of ModeSet \<Rightarrow> True | ModeAdd \<Rightarrow> m (slice_bits key) = None
             | ModeReplace \<Rightarrow> m (slice_bits key) \<noteq> None)
    then \<exists>d'. dict_insert sha d key n val mode = Ok (d', True) \<and> stores K D V n d' (m(slice_bits key \<mapsto> v))
    else dict_insert sha d key n val mode = Ok (d, False)"
proof (cases "size_bits key = n")
  case True
  have "allowed mode (m (slice_bits key)) \<longleftrightarrow> (case mode of ModeSet \<Rightarrow> True | ModeAdd \<Rightarrow> m (slice_bits key) = None
      | ModeReplace \<Rightarrow> m (slice_bits key) \<noteq> None)"
    by (cases mode; cases "m (slice_bits key)") (simp_all add: allowed_def can_add_def can_replace_def)
  with dict_insert_stores [OF assms(1-3) True assms(4-6), of mode] True show ?thesis by simp
qed (simp add: dict_insert_def)

lemma dict_insert_correct_witness:
  "\<exists>d'. dict_insert no_hash demo_dict (bits_key [False, True, True]) 3 (value_store ([False], [])) ModeReplace = Ok (d', True)
    \<and> stores (Some no_hash) 0 64 3 d' (demo_content([False, True, True] \<mapsto> ([False], [])))"
proof -
  let ?v = "([False], []) :: dict_value"
  have "value_ok 0 64 ?v" by (simp add: value_ok_def)
  then show ?thesis
    using dict_insert_correct [OF demo_dict_stores demo_room, where key = "bits_key [False, True, True]"
        and v = ?v and val = "value_store ?v" and mode = ModeReplace and sha = no_hash]
      appends_value_store [of 0 64 ?v]
    by (simp add: bits_key_spec demo_content_def demo_entries_def)
qed

text \<open>
  C11. \<open>dict_remove_owned\<close> is map deletion: it returns the removed value, as a range of its cell, and a root
  that stores the map without the key; an absent key leaves the dictionary as it is. It does not fail
  as long as there is room.
\<close>

theorem dict_remove_correct:
  assumes "stores K D V n d m" "room D V n" "wf_slice key" "size_bits key = n" "K = None \<or> K = Some sha"
  shows "case m (slice_bits key) of
      None \<Rightarrow> dict_remove_owned sha d key n allow_subtree = Ok (d, None)
    | Some v \<Rightarrow> \<exists>d' range cell. dict_remove_owned sha d key n allow_subtree = Ok (d', Some (range, cell))
        \<and> slice_value (range_apply_allow_exotic range cell) = v
        \<and> stores K D V n d' (m(slice_bits key := None))"
  using dict_remove_stores [OF assms, of allow_subtree] by (force simp: part_value_def split: option.split)

lemma dict_remove_correct_witness:
  "\<exists>d' part. dict_remove_owned no_hash demo_dict (bits_key [True, True, True]) 3 False = Ok (d', Some part)
    \<and> stores (Some no_hash) 0 64 3 d' (demo_content([True, True, True] := None))"
  using dict_remove_correct [OF demo_dict_stores demo_room, where key = "bits_key [True, True, True]"
      and sha = no_hash and allow_subtree = False]
  by (auto simp: bits_key_spec demo_content_def demo_entries_def)

section \<open>Dictionaries as a whole\<close>

text \<open>
  After any sequence of insertions, lookup returns the last value inserted under a key, and what the
  dictionary had before for the keys that were not inserted. The law is proved once for the interface
  \<open>key_map\<close> and holds of the cells by interpretation.
\<close>

theorem dict_insertions:
  assumes "stores (Some sha) D V n d m" "room D V n" "length k = n"
    and "\<forall>(k, v) \<in> set kvs. length k = n \<and> value_ok D V v"
  shows "dict_lookup n (put_all sha n kvs d) k
    = (case map_of (rev kvs) k of Some v \<Rightarrow> Some v | None \<Rightarrow> dict_lookup n d k)"
proof -
  have "list_all (\<lambda>(k, v). (room D V n \<and> length k = n) \<and> value_ok D V v) kvs"
    using assms(2,4) by (auto simp: list_all_iff)
  then show ?thesis
    unfolding put_all_def using assms(1-3) by (intro cell_map.lookup_insert_all) auto
qed

lemma dict_insertions_witness:
  "dict_lookup 3 (put_all no_hash 3 [([True, False, False], ([True], [])), ([True, False, False], ([False], []))] demo_dict)
      [True, False, False] = Some ([False], [])"
proof -
  have "length [True, False, False] = (3::nat)" by simp
  from dict_insertions [OF demo_dict_stores demo_room this,
      of "[([True, False, False], ([True], [])), ([True, False, False], ([False], []))]"]
  show ?thesis by (simp add: value_ok_def)
qed

text \<open>
  C12. The root cell is a function of the content: two dictionaries that were built by insertions and
  removals from canonical ones and that hold the same entries are the same cell, whatever the history
  (so their representation hashes agree).
\<close>

theorem dict_history_independent:
  assumes "stores (Some sha) D V n d m" "room D V n"
    and "\<forall>(k, v) \<in> set kvs \<union> set kvs'. length k = n \<and> value_ok D V v"
    and "map_of (rev kvs) = map_of (rev kvs')"
  shows "put_all sha n kvs d = put_all sha n kvs' d"
proof -
  have "list_all (\<lambda>(k, v). length k = n \<and> value_ok D V v) kvs"
    "list_all (\<lambda>(k, v). length k = n \<and> value_ok D V v) kvs'"
    using assms(3) by (auto simp: list_all_iff)
  from put_all_stores [OF assms(1,2) _ this(1), of sha] put_all_stores [OF assms(1,2) _ this(2), of sha]
  show ?thesis unfolding assms(4) using stores_unique by blast
qed

lemma dict_history_independent_witness: "put_all no_hash 3 (rev demo_entries) None = demo_dict"
proof -
  have e: "stores (Some no_hash) 0 64 3 None (\<lambda>_. None)" by (simp add: stores_None)
  have "\<forall>(k, v) \<in> set (rev demo_entries) \<union> set demo_entries. length k = 3 \<and> value_ok 0 64 v"
    using demo_value_ok by (auto simp: list_all_iff)
  moreover have "map_of (rev (rev demo_entries)) k = map_of (rev demo_entries) k" for k
    by (simp add: demo_entries_def)
  then have "map_of (rev (rev demo_entries)) = map_of (rev demo_entries)" by (rule ext)
  ultimately show ?thesis
    unfolding demo_dict_def by (rule dict_history_independent [OF e demo_room])
qed

text \<open>
  Removing a key that was just inserted gives back the very root cell, when the key was absent.
\<close>

theorem dict_insert_then_remove:
  assumes "stores (Some sha) D V n d m" "room D V n" "length k = n" "value_ok D V v" "m k = None"
  shows "dict_del sha n k (dict_put sha n k v d) = d"
proof -
  have "stores (Some sha) D V n (dict_del sha n k (dict_put sha n k v d)) ((m(k \<mapsto> v))(k := None))"
    using assms(1-4) by (intro dict_del_stores dict_put_stores) simp_all
  moreover have "(m(k \<mapsto> v))(k := None) = m" using assms(5) by (simp add: fun_upd_idem)
  ultimately have "stores (Some sha) D V n (dict_del sha n k (dict_put sha n k v d)) m" by (simp only:)
  then show ?thesis by (rule stores_unique) (rule assms(1))
qed

lemma dict_insert_then_remove_witness:
  "dict_del no_hash 3 [True, True, False] (dict_put no_hash 3 [True, True, False] ([True], []) demo_dict) = demo_dict"
  using dict_insert_then_remove [OF demo_dict_stores demo_room, of "[True, True, False]" "([True], [])"]
  by (simp add: value_ok_def demo_content_def demo_entries_def)

end
