(* ===== verification/Dict_Find.thy ===== *)
theory Dict_Find
  imports Dict_Ops
begin

text \<open>
  \<^verbatim>\<open>src/dict/ops/find.rs\<close> (\<open>dict_find_owned\<close>, \<open>dict_find_bound\<close>, \<open>dict_find_bound_owned\<close>) and
  \<open>dict_remove_bound_owned\<close> of \<^verbatim>\<open>src/dict/ops/remove.rs\<close>: the least and the greatest key, and the
  nearest key in one direction. A stack has its top first. Not modelled: the search by the extra of an
  augmented dictionary.
\<close>

section \<open>Bounds\<close>

function dict_find_bound_loop ::
  "dict_bound \<Rightarrow> bool \<Rightarrow> cell \<Rightarrow> nat \<Rightarrow> branch option \<Rightarrow> cell_data_builder \<Rightarrow> (cell_data_builder \<times> cell_slice) result" where
  "dict_find_bound_loop bound is_signed cell key_bit_len direction key =
    ok (slice_new cell) (\<lambda>data.
    ok (read_label data key_bit_len) (\<lambda>(prefix, data).
    ok (if \<not> is_data_empty prefix then store_slice_data key prefix else Ok key) (\<lambda>key.
    if key_bit_len < size_bits prefix then Err CellUnderflow
    else if key_bit_len - size_bits prefix = 0 then Ok (key, data)
    else if size_refs data < 2 then Err CellUnderflow
    else
      let (next_branch, direction) = update_direction bound prefix is_signed direction
      in ok (store_bit key (into_bit next_branch)) (\<lambda>key.
         case reference cell (branch_index next_branch) of
           Some child \<Rightarrow> ok (load_dyn_cell child Full) (\<lambda>child.
             dict_find_bound_loop bound is_signed child (key_bit_len - size_bits prefix - 1) direction key)
         | None \<Rightarrow> Err CellUnderflow))))"
  by pat_completeness auto
termination
  by (relation "measure (\<lambda>(bound, is_signed, cell, key_bit_len, direction, key). tree_size cell)") (auto simp: reference_size)

declare dict_find_bound_loop.simps [simp del]

definition dict_find_bound ::
  "cell option \<Rightarrow> nat \<Rightarrow> dict_bound \<Rightarrow> bool \<Rightarrow> (cell_data_builder \<times> cell_slice) option result" where
  "dict_find_bound dict key_bit_len bound is_signed =
    (case dict of
       None \<Rightarrow> Ok None
     | Some data \<Rightarrow> ok (load_dyn_cell data Full) (\<lambda>data.
         ok (dict_find_bound_loop bound is_signed data key_bit_len None bd_new) (\<lambda>res. Ok (Some res))))"

text \<open>The owned form also keeps the parent of the leaf, through which the cell of the leaf is reached again.\<close>

function dict_find_bound_owned_loop ::
  "dict_bound \<Rightarrow> bool \<Rightarrow> cell \<Rightarrow> (cell \<times> branch) option \<Rightarrow> nat \<Rightarrow> branch option \<Rightarrow> cell_data_builder
   \<Rightarrow> (cell_data_builder \<times> cell_slice \<times> (cell \<times> branch) option) result" where
  "dict_find_bound_owned_loop bound is_signed cell prev key_bit_len direction key =
    ok (slice_new cell) (\<lambda>data.
    ok (read_label data key_bit_len) (\<lambda>(prefix, data).
    ok (if \<not> is_data_empty prefix then store_slice_data key prefix else Ok key) (\<lambda>key.
    if key_bit_len < size_bits prefix then Err CellUnderflow
    else if key_bit_len - size_bits prefix = 0 then Ok (key, data, prev)
    else if size_refs data < 2 then Err CellUnderflow
    else
      let (next_branch, direction) = update_direction bound prefix is_signed direction
      in ok (store_bit key (into_bit next_branch)) (\<lambda>key.
         case reference cell (branch_index next_branch) of
           Some child \<Rightarrow> ok (load_dyn_cell child Full) (\<lambda>child.
             dict_find_bound_owned_loop bound is_signed child (Some (cell, next_branch))
               (key_bit_len - size_bits prefix - 1) direction key)
         | None \<Rightarrow> Err CellUnderflow))))"
  by pat_completeness auto
termination
  by (relation "measure (\<lambda>(bound, is_signed, cell, prev, key_bit_len, direction, key). tree_size cell)")
     (auto simp: reference_size)

declare dict_find_bound_owned_loop.simps [simp del]

text \<open>The cell below the last fork of a search, or the root.\<close>

definition resolve_prev :: "(cell \<times> branch) option \<Rightarrow> cell \<Rightarrow> cell result" where
  "resolve_prev prev root =
    (case prev of
       Some (prev, next_branch) \<Rightarrow>
         (case reference_cloned prev (branch_index next_branch) of
            Some cell \<Rightarrow> load_cell cell Resolve
          | None \<Rightarrow> Err CellUnderflow)
     | None \<Rightarrow> Ok root)"

definition dict_find_bound_owned ::
  "cell option \<Rightarrow> nat \<Rightarrow> dict_bound \<Rightarrow> bool \<Rightarrow> (cell_data_builder \<times> cell_slice_range \<times> cell) option result" where
  "dict_find_bound_owned dict key_bit_len bound is_signed =
    (case dict of
       None \<Rightarrow> Ok None
     | Some data \<Rightarrow> ok (load_cell data Full) (\<lambda>root.
         ok (dict_find_bound_owned_loop bound is_signed root None key_bit_len None bd_new) (\<lambda>(key, data, prev).
         ok (resolve_prev prev root) (\<lambda>cell. Ok (Some (key, sl_range data, cell))))))"

section \<open>The nearest key\<close>

datatype find_leaf = LeafValue cell_slice_range | LeafDivergence branch

text \<open>
  The first loop of \<open>dict_find_owned\<close>: the leaf or the edge at which the key leaves the tree, with the cell
  it is in, the rest of the key, the stack of the forks above and the last of them.
\<close>

function dict_find_loop ::
  "bool \<Rightarrow> cell \<Rightarrow> cell_slice \<Rightarrow> segment list \<Rightarrow> (cell \<times> branch) option
   \<Rightarrow> (find_leaf \<times> cell \<times> cell_slice \<times> segment list \<times> (cell \<times> branch) option) result" where
  "dict_find_loop is_signed data key stack prev =
    ok (slice_new data) (\<lambda>remaining_data.
    ok (read_label remaining_data (size_bits key)) (\<lambda>(prefix, remaining_data).
    let lcp = longest_common_data_prefix key prefix; lcp_len = size_bits lcp
    in if lcp_len = size_bits key then Ok (LeafValue (sl_range remaining_data), data, key, stack, prev)
       else if lcp_len < size_bits prefix then
         ok (get_bit key lcp_len) (\<lambda>bit.
         let next_branch = branch_from bit;
             next_branch = (if is_signed \<and> stack = [] \<and> lcp_len = 0 then reversed next_branch else next_branch)
         in Ok (LeafDivergence next_branch, data, key, stack, prev))
       else if cell_reference_count data < 2 then Err CellUnderflow
       else
         let key = (case skip_first key (size_bits lcp) 0 of Inr k \<Rightarrow> k | Inl e \<Rightarrow> key)
         in ok (load_bit key) (\<lambda>(bit, key).
            let next_branch = branch_from bit
            in case reference data (branch_index next_branch) of
                 None \<Rightarrow> Err CellUnderflow
               | Some cell \<Rightarrow> ok (load_dyn_cell cell Full) (\<lambda>child.
                   dict_find_loop is_signed child key
                     (\<lparr>sg_data = data, sg_next_branch = next_branch, sg_key_bit_len = size_bits key\<rparr> # stack)
                     (Some (data, next_branch))))))"
  by pat_completeness auto
termination
  by (relation "measure (\<lambda>(is_signed, data, key, stack, prev). tree_size data)") (auto simp: reference_size)

declare dict_find_loop.simps [simp del]

text \<open>Rewinding: the topmost fork with a branch on the other side of the key, the branch and the length of the key up to it.\<close>

fun dict_find_rewind :: "branch \<Rightarrow> bool \<Rightarrow> nat \<Rightarrow> segment list \<Rightarrow> (segment \<times> nat \<times> branch) option" where
  "dict_find_rewind rev_direction is_signed key_bit_len [] = None"
| "dict_find_rewind rev_direction is_signed key_bit_len (seg # stack) =
    (let prefix_len = key_bit_len - sg_key_bit_len seg;
         signed_root = (is_signed \<and> prefix_len = 1)
     in if signed_root \<and> sg_next_branch seg \<noteq> rev_direction then Some (seg, prefix_len - 1, rev_direction)
        else if \<not> signed_root \<and> sg_next_branch seg = rev_direction then Some (seg, prefix_len - 1, reversed rev_direction)
        else dict_find_rewind rev_direction is_signed key_bit_len stack)"

text \<open>The second loop: down to the leaf that is nearest to the key.\<close>

function dict_find_descend ::
  "branch \<Rightarrow> cell \<Rightarrow> nat \<Rightarrow> cell_data_builder \<Rightarrow> (cell \<times> branch) option
   \<Rightarrow> (cell_slice_range \<times> cell_data_builder \<times> (cell \<times> branch) option) result" where
  "dict_find_descend rev_direction data remaining_bits result_key prev =
    ok (slice_new data) (\<lambda>remaining_data.
    ok (read_label remaining_data remaining_bits) (\<lambda>(prefix, remaining_data).
    ok (if \<not> is_data_empty prefix then store_slice_data result_key prefix else Ok result_key) (\<lambda>result_key.
    if remaining_bits < size_bits prefix then Err CellUnderflow
    else if remaining_bits - size_bits prefix = 0 then Ok (sl_range remaining_data, result_key, prev)
    else if size_refs remaining_data < 2 then Err CellUnderflow
    else
      ok (store_bit result_key (into_bit rev_direction)) (\<lambda>result_key.
      case reference data (branch_index rev_direction) of
        Some child \<Rightarrow> ok (load_dyn_cell child Full) (\<lambda>child.
          dict_find_descend rev_direction child (remaining_bits - size_bits prefix - 1) result_key (Some (data, rev_direction)))
      | None \<Rightarrow> Err CellUnderflow))))"
  by pat_completeness auto
termination
  by (relation "measure (\<lambda>(rev_direction, data, remaining_bits, result_key, prev). tree_size data)") (auto simp: reference_size)

declare dict_find_descend.simps [simp del]

text \<open>
  \<open>start\<close> is the value of the block \<open>'fork\<close>: the cell to start from, the bits left at it, the bits of the
  key above it, the branch to take at it and the new \<open>prev\<close>.
\<close>

definition dict_find_owned ::
  "cell option \<Rightarrow> nat \<Rightarrow> cell_slice \<Rightarrow> dict_bound \<Rightarrow> bool \<Rightarrow> bool
   \<Rightarrow> (cell_data_builder \<times> cell_slice_range \<times> cell) option result" where
  "dict_find_owned dict key_bit_len key towards inclusive is_signed =
    (if size_bits key \<noteq> key_bit_len then Err CellUnderflow
     else case dict of
       None \<Rightarrow> Ok None
     | Some data \<Rightarrow> ok (load_cell data Full) (\<lambda>root.
         let original_key_range = sl_range key; key_cell = sl_cell key
         in ok (dict_find_loop is_signed root key [] None) (\<lambda>(leaf, data, key, stack, prev).
         let search = (\<lambda>_.
           let rev_direction = reversed (into_branch towards);
               start = (if leaf = LeafDivergence rev_direction
                        then Some (data, size_bits key, key_bit_len - size_bits key, None, prev)
                        else map_option (\<lambda>(seg, prefix_len, branch).
                          (sg_data seg, sg_key_bit_len seg, prefix_len, Some branch, Some (sg_data seg, sg_next_branch seg)))
                          (dict_find_rewind rev_direction is_signed key_bit_len stack))
           in case start of
                None \<Rightarrow> Ok None
              | Some (data, remaining_bits, prefix_len, first_branch, prev) \<Rightarrow>
                  ok (range_apply (range_get_prefix original_key_range prefix_len 0) key_cell) (\<lambda>original_key.
                  ok (store_slice_data bd_new original_key) (\<lambda>result_key.
                  ok (case first_branch of
                        Some branch \<Rightarrow>
                          ok (store_bit result_key (into_bit branch)) (\<lambda>result_key.
                          case reference data (branch_index branch) of
                            Some child \<Rightarrow> ok (load_dyn_cell child Full) (\<lambda>child. Ok (child, result_key, Some (data, branch)))
                          | None \<Rightarrow> Err CellUnderflow)
                      | None \<Rightarrow> Ok (data, result_key, prev)) (\<lambda>(data, result_key, prev).
                  ok (dict_find_descend rev_direction data remaining_bits result_key prev) (\<lambda>(value_range, result_key, prev).
                  ok (resolve_prev prev root) (\<lambda>cell. Ok (Some (result_key, value_range, cell))))))))
         in case leaf of
              LeafValue value_range \<Rightarrow>
                if inclusive
                then ok (resolve_prev (case stack of seg # _ \<Rightarrow> Some (sg_data seg, sg_next_branch seg) | [] \<Rightarrow> None) root) (\<lambda>cell.
                  ok (range_apply original_key_range key_cell) (\<lambda>original_key.
                  ok (store_slice_data bd_new original_key) (\<lambda>result_key.
                  Ok (Some (result_key, value_range, cell)))))
                else search ()
            | LeafDivergence _ \<Rightarrow> search ())))"

section \<open>Removing a bound\<close>

function dict_remove_bound_loop ::
  "dict_bound \<Rightarrow> bool \<Rightarrow> cell \<Rightarrow> nat \<Rightarrow> nat \<Rightarrow> branch option \<Rightarrow> cell_data_builder \<Rightarrow> segment list
   \<Rightarrow> (cell_slice_range \<times> nat \<times> nat \<times> cell_data_builder \<times> segment list) result" where
  "dict_remove_bound_loop bound is_signed data prev_key_bit_len key_bit_len direction key stack =
    ok (slice_new data) (\<lambda>remaining_data.
    ok (read_label remaining_data key_bit_len) (\<lambda>(prefix, remaining_data).
    ok (if \<not> is_data_empty prefix then store_slice_data key prefix else Ok key) (\<lambda>key.
    if key_bit_len < size_bits prefix then Err CellUnderflow
    else if key_bit_len - size_bits prefix = 0 then Ok (sl_range remaining_data, prev_key_bit_len, key_bit_len, key, stack)
    else if size_refs remaining_data < 2 then Err CellUnderflow
    else
      let (next_branch, direction) = update_direction bound prefix is_signed direction
      in ok (store_bit key (into_bit next_branch)) (\<lambda>key.
         case reference data (branch_index next_branch) of
           Some cell \<Rightarrow> ok (load_dyn_cell cell Full) (\<lambda>child.
             dict_remove_bound_loop bound is_signed child key_bit_len (key_bit_len - size_bits prefix - 1) direction key
               (\<lparr>sg_data = data, sg_next_branch = next_branch, sg_key_bit_len = 0\<rparr> # stack))
         | None \<Rightarrow> Err CellUnderflow))))"
  by pat_completeness auto
termination
  by (relation "measure (\<lambda>(bound, is_signed, data, prev_key_bit_len, key_bit_len, direction, key, stack). tree_size data)")
     (auto simp: reference_size)

declare dict_remove_bound_loop.simps [simp del]

definition dict_remove_bound_owned ::
  "sha256 \<Rightarrow> cell option \<Rightarrow> nat \<Rightarrow> dict_bound \<Rightarrow> bool
   \<Rightarrow> (cell option \<times> (cell_data_builder \<times> cell_slice_range \<times> cell) option) result" where
  "dict_remove_bound_owned sha dict key_bit_len bound is_signed =
    (case dict of
       None \<Rightarrow> Ok (dict, None)
     | Some data \<Rightarrow> ok (load_cell data Full) (\<lambda>root.
         ok (dict_remove_bound_loop bound is_signed root key_bit_len key_bit_len None bd_new []) (\<lambda>(removed, prev_key_bit_len, key_bit_len, key, stack).
         case stack of
           [] \<Rightarrow> Ok (None, Some (key, removed, root))
         | top_seg # stack \<Rightarrow>
             let index = branch_index (sg_next_branch top_seg)
             in ok (case reference_cloned (sg_data top_seg) index of
                      Some cell \<Rightarrow> load_cell cell Resolve
                    | None \<Rightarrow> Err CellUnderflow) (\<lambda>value.
                ok (read_label (slice_new_allow_exotic (sg_data top_seg)) prev_key_bit_len) (\<lambda>(pfx, _).
                ok (case reference (sg_data top_seg) (1 - index) of
                      Some cell \<Rightarrow> ok (load_dyn_cell cell Full) slice_new
                    | None \<Rightarrow> Err CellUnderflow) (\<lambda>opposite.
                ok (read_label opposite key_bit_len) (\<lambda>(rem, opposite).
                ok (write_label_parts pfx (index = 0) rem prev_key_bit_len cb_new) (\<lambda>builder.
                ok (store_slice builder opposite) (\<lambda>builder.
                ok (build_ext sha builder) (\<lambda>leaf.
                ok (rebuild_dict_from_stack sha stack leaf) (\<lambda>root'.
                Ok (Some root', Some (key, removed, value)))))))))))))"

end
