(* ===== verification/Dict_Order.thy ===== *)
theory Dict_Order
  imports Dict_Map
begin

text \<open>
  The order of the keys of a dictionary: that of the unsigned numbers, or, for signed keys, of the numbers
  in two's complement. The entries of a prefix tree in this order, or from the greatest to the least.
\<close>

section \<open>The order of keys\<close>

fun bits_less :: "bool list \<Rightarrow> bool list \<Rightarrow> bool" where
  "bits_less (x # xs) (y # ys) \<longleftrightarrow> (if x = y then bits_less xs ys else y)"
| "bits_less _ _ \<longleftrightarrow> False"

fun key_less :: "bool \<Rightarrow> bool list \<Rightarrow> bool list \<Rightarrow> bool" where
  "key_less sg (x # xs) (y # ys) \<longleftrightarrow> (if x = y then bits_less xs ys else y \<noteq> sg)"
| "key_less sg _ _ \<longleftrightarrow> False"

text \<open>The number of a list of bits, the first of which has a negative weight if the key is signed.\<close>

definition bits_int :: "bool list \<Rightarrow> int" where
  "bits_int xs = horner_sum of_bool 2 (rev xs)"

definition key_int :: "bool \<Rightarrow> bool list \<Rightarrow> int" where
  "key_int sg xs = bits_int xs - (if sg \<and> xs \<noteq> [] \<and> hd xs then 2 ^ length xs else 0)"

lemma bits_int_Cons: "bits_int (x # xs) = of_bool x * 2 ^ length xs + bits_int xs"
  by (simp add: bits_int_def horner_sum_append)

lemma bits_int_bounds: "0 \<le> bits_int xs" "bits_int xs < 2 ^ length xs"
proof -
  show "0 \<le> bits_int xs" by (induction xs) (simp_all add: bits_int_Cons, simp add: bits_int_def)
  show "bits_int xs < 2 ^ length xs"
  proof (induction xs)
    case (Cons x xs)
    have "bits_int xs < 2 * 2 ^ length xs" by (rule less_trans [OF Cons]) simp
    with Cons show ?case by (cases x) (simp_all add: bits_int_Cons)
  qed (simp add: bits_int_def)
qed

lemma bits_less_int: "length xs = length ys \<Longrightarrow> bits_less xs ys \<longleftrightarrow> bits_int xs < bits_int ys"
proof (induction xs ys rule: list_induct2)
  case (Cons x xs y ys)
  then show ?case using bits_int_bounds [of xs] bits_int_bounds [of ys] by (cases x; cases y) (auto simp: bits_int_Cons)
qed simp

lemma key_less_int: "length xs = length ys \<Longrightarrow> key_less sg xs ys \<longleftrightarrow> key_int sg xs < key_int sg ys"
proof (cases xs; cases ys)
  fix x xs' y ys' assume "xs = x # xs'" "ys = y # ys'" "length xs = length ys"
  then show ?thesis
    using bits_int_bounds [of xs'] bits_int_bounds [of ys'] bits_less_int [of xs' ys']
    by (cases x; cases y; cases sg) (auto simp: key_int_def bits_int_Cons)
qed auto

lemma key_less_False: "key_less False = bits_less"
  by (intro ext) (rule bits_less.induct, auto)

lemma bits_less_prefix: "bits_less (p @ xs) (p @ ys) \<longleftrightarrow> bits_less xs ys"
  by (induction p) auto

lemma key_less_prefix: "key_less sg (p @ xs) (p @ ys) \<longleftrightarrow> key_less (sg \<and> p = []) xs ys"
  by (cases p) (auto simp: bits_less_prefix key_less_False)

lemma key_less_fork:
  "key_less sg (p @ b # xs) (p @ c # ys) \<longleftrightarrow> (if b = c then bits_less xs ys else c \<noteq> (sg \<and> p = []))"
  by (auto simp: key_less_prefix)

lemma key_less_linear: "length xs = length ys \<Longrightarrow> xs = ys \<or> key_less sg xs ys \<or> key_less sg ys xs"
proof -
  have "xs = ys \<or> bits_less xs ys \<or> bits_less ys xs" if "length xs = length ys" for xs ys :: "bool list"
    using that by (induction xs ys rule: list_induct2) auto
  then show "length xs = length ys \<Longrightarrow> ?thesis" by (cases xs; cases ys) auto
qed

lemma key_less_irrefl [simp]: "\<not> bits_less xs xs" "\<not> key_less sg xs xs"
proof -
  show "\<not> bits_less xs xs" for xs by (induction xs) auto
  then show "\<not> key_less sg xs xs" by (cases xs) auto
qed

section \<open>The entries of a tree in order\<close>

definition pt_down :: "bool list \<Rightarrow> bool \<Rightarrow> (bool list \<times> dict_value) list \<Rightarrow> (bool list \<times> dict_value) list" where
  "pt_down lab b = map (\<lambda>(k, v). (lab @ b # k, v))"

text \<open>The branch of a fork that is visited first.\<close>

definition pt_first :: "bool \<Rightarrow> bool \<Rightarrow> bool list \<Rightarrow> bool" where
  "pt_first rv sg lab \<longleftrightarrow> rv \<noteq> (sg \<and> lab = [])"

fun pt_entries :: "bool \<Rightarrow> bool \<Rightarrow> ptree \<Rightarrow> (bool list \<times> dict_value) list" where
  "pt_entries rv sg (PLeaf lab vb vr) = [(lab, (vb, vr))]"
| "pt_entries rv sg (PFork lab l r) =
    pt_down lab (pt_first rv sg lab) (pt_entries rv False (if pt_first rv sg lab then r else l))
    @ pt_down lab (\<not> pt_first rv sg lab) (pt_entries rv False (if pt_first rv sg lab then l else r))"

definition in_order :: "bool \<Rightarrow> bool \<Rightarrow> (bool list \<times> 'v) \<Rightarrow> (bool list \<times> 'v) \<Rightarrow> bool" where
  "in_order rv sg x y \<longleftrightarrow> (if rv then key_less sg (fst y) (fst x) else key_less sg (fst x) (fst y))"

lemma pt_lookup_fork_iff:
  "pt_lookup (PFork lab l r) k = Some v \<longleftrightarrow> (\<exists>b k'. k = lab @ b # k' \<and> pt_lookup (if b then r else l) k' = Some v)"
  (is "?L \<longleftrightarrow> ?R")
proof
  assume ?L
  then obtain b k' where "take (length lab) k = lab" "drop (length lab) k = b # k'" "pt_lookup (if b then r else l) k' = Some v"
    by (auto split: if_splits list.splits)
  then show ?R by (metis append_take_drop_id)
qed (auto simp: pt_fork_lookup)

lemma set_pt_down: "(k, v) \<in> set (pt_down lab b xs) \<longleftrightarrow> (\<exists>k'. k = lab @ b # k' \<and> (k', v) \<in> set xs)"
  by (auto simp: pt_down_def)

lemma set_pt_entries: "(k, v) \<in> set (pt_entries rv sg t) \<longleftrightarrow> pt_lookup t k = Some v"
proof (induction t arbitrary: k sg)
  case (PFork lab l r)
  show ?case
    unfolding pt_lookup_fork_iff pt_entries.simps set_append Un_iff set_pt_down
    by (cases "pt_first rv sg lab") (simp_all add: PFork ex_bool_eq disj_commute)
qed auto

lemma sorted_pt_entries: "sorted_wrt (in_order rv sg) (pt_entries rv sg t)"
proof (induction t arbitrary: sg)
  case (PFork lab l r)
  have "sorted_wrt (in_order rv sg) (pt_down lab b xs)" if "sorted_wrt (in_order rv False) xs" for b and xs :: "(bool list \<times> dict_value) list"
    unfolding pt_down_def sorted_wrt_map
    using that by (rule sorted_wrt_mono_rel [rotated]) (auto simp: in_order_def key_less_fork key_less_False)
  moreover have "in_order rv sg x y" if "x \<in> set (pt_down lab (pt_first rv sg lab) xs)" "y \<in> set (pt_down lab (\<not> pt_first rv sg lab) ys)"
    for x y and xs ys :: "(bool list \<times> dict_value) list"
    using that by (auto simp: pt_down_def in_order_def key_less_fork pt_first_def)
  ultimately show ?case using PFork by (simp add: sorted_wrt_append)
qed simp

lemma pt_entries_nonempty: "pt_entries rv sg t \<noteq> []"
  by (induction t arbitrary: sg) (auto simp: pt_down_def)

end
