(* ===== verification/Dict_Find_Props.thy ===== *)
theory Dict_Find_Props
  imports Dict_Find Dict_Order
begin

text \<open>
  The searches against the entries of the tree in order: the bounds are the first entries, and the nearest
  key is the first one after (or before) the key that is looked for.
\<close>

section \<open>Edges\<close>

text \<open>Visiting an edge: its label is appended to the key that is put together on the way down.\<close>

lemma visit_edge:
  assumes "rep K D V n c t" "length pre + n \<le> 1023"
  obtains l s where "slice_new c = Ok (slice_new_allow_exotic c)" "read_label (slice_new_allow_exotic c) n = Ok (l, s)"
    "(if \<not> is_data_empty l then store_slice_data (mk_bd pre) l else Ok (mk_bd pre)) = Ok (mk_bd (pre @ pt_label t))"
    "size_bits l = length (pt_label t)" "is_data_empty l \<longleftrightarrow> pt_label t = []" "length (pt_label t) \<le> n"
    "wf_slice s" "slice_value s = (pt_rest t, cell_children c)" "size_refs s = length (cell_children c)" "sl_cell s = c"
    "wf_slice l" "slice_bits l = pt_label t"
proof -
  from read_edge [OF assms(1)] assms(2) obtain l s where r: "slice_new c = Ok (slice_new_allow_exotic c)"
    "read_label (slice_new_allow_exotic c) n = Ok (l, s)" "wf_slice l" "slice_bits l = pt_label t" "wf_slice s"
    "slice_bits s = pt_rest t" "slice_refs s = cell_children c" "sl_cell s = c" by (metis le_add2 order.trans)
  have n: "length (pt_label t) \<le> n" by (rule pt_inv_label [OF rep_inv [OF assms(1)]])
  have "size_bits l = length (pt_label t)" "size_refs s = length (cell_children c)"
    using r(4,7) length_slice_bits [of l] length_slice_refs [of s] by simp_all
  moreover have e: "is_data_empty l \<longleftrightarrow> pt_label t = []" using r(4) by (simp add: is_data_empty_iff)
  moreover have "(if \<not> is_data_empty l then store_slice_data (mk_bd pre) l else Ok (mk_bd pre)) = Ok (mk_bd (pre @ pt_label t))"
    using e assms(2) r(3,4) n by (simp add: appended_def MAX_BIT_LEN_def)
  ultimately show thesis using r n by (intro that [of l s]) (simp_all add: slice_value_def)
qed

lemma rep_leaf_children: "rep K D V n c (PLeaf lab vb vr) \<Longrightarrow> cell_children c = vr"
  by (simp add: holds_def)

lemma fork_children:
  assumes "rep K D V n c (PFork lab l r)"
  obtains lc rc where "cell_children c = [lc, rc]" "rep K D V (n - length lab - 1) lc l" "rep K D V (n - length lab - 1) rc r"
    "\<And>b. reference c (branch_index (branch_from b)) = Some (if b then rc else lc)"
    "\<And>b. reference_cloned c (branch_index (branch_from b)) = Some (if b then rc else lc)"
    "cell_reference_count c = 2" "holds c (cell_bits c) [lc, rc]"
proof -
  from assms obtain lc rc where f: "holds c (cell_bits c) [lc, rc]" "rep K D V (n - length lab - 1) lc l"
    "rep K D V (n - length lab - 1) rc r" by auto
  show thesis
    using f holds_reference [OF f(1)] by (intro that [of lc rc]) (simp_all add: holds_def branch_from_def nth_opt_def)
qed

lemma into_bit_branch_from [simp]: "into_bit (branch_from b) = b"
  by (simp add: into_bit_def branch_from_def)

lemma reversed_branch_from [simp]: "reversed (branch_from b) = branch_from (\<not> b)"
  by (simp add: branch_from_def)

lemma branch_from_eq_iff [simp]: "branch_from a = branch_from b \<longleftrightarrow> a = b"
  by (simp add: branch_from_def)

lemma branch_from_into_bit [simp]: "branch_from (into_bit b) = b"
  by (cases b) (simp_all add: into_bit_def branch_from_def)

definition is_max :: "dict_bound \<Rightarrow> bool" where
  "is_max bound \<longleftrightarrow> bound = BoundMax"

lemma into_branch_from: "into_branch bound = branch_from (is_max bound)"
  by (cases bound) (simp_all add: is_max_def branch_from_def)

text \<open>The direction is chosen at the first edge; only there a signed key is treated differently.\<close>

definition direction_ok :: "dict_bound \<Rightarrow> branch option \<Rightarrow> bool" where
  "direction_ok bound direction \<longleftrightarrow> direction = None \<or> direction = Some (into_branch bound)"

lemma update_direction_first:
  assumes "direction_ok bound direction" "is_data_empty l \<longleftrightarrow> lab = []"
  shows "update_direction bound l sg direction
    = (branch_from (pt_first (is_max bound) (sg \<and> direction = None) lab), Some (into_branch bound))"
  using assms by (auto simp: update_direction_def direction_ok_def pt_first_def into_branch_from Let_def)

section \<open>The first entry\<close>

text \<open>
  \<open>found root prev s\<close>: the slice \<open>s\<close> is in the cell that \<open>prev\<close> leads to.
\<close>

lemma hd_pt_entries_fork:
  "hd (pt_entries rv sg (PFork lab l r))
    = (let e = hd (pt_entries rv False (if pt_first rv sg lab then r else l)) in (lab @ pt_first rv sg lab # fst e, snd e))"
  using pt_entries_nonempty [of rv False r] pt_entries_nonempty [of rv False l]
  by (simp add: hd_append pt_down_def hd_map split_beta Let_def)

lemma pt_first_False [simp]: "pt_first rv False lab = rv"
  by (simp add: pt_first_def)

lemma find_bound_owned_loop_spec:
  assumes "rep K D V n c t" "length pre + n \<le> 1023" "direction_ok bound direction" "resolve_prev prev root = Ok c"
  shows "\<exists>s prev'. dict_find_bound_owned_loop bound sg c prev n direction (mk_bd pre)
      = Ok (mk_bd (pre @ fst (hd (pt_entries (is_max bound) (sg \<and> direction = None) t))), s, prev')
    \<and> slice_value s = snd (hd (pt_entries (is_max bound) (sg \<and> direction = None) t)) \<and> wf_slice s
    \<and> resolve_prev prev' root = Ok (sl_cell s)"
  using assms
proof (induction t arbitrary: n c pre direction prev)
  case (PLeaf lab vb vr)
  obtain l s where e: "slice_new c = Ok (slice_new_allow_exotic c)" "read_label (slice_new_allow_exotic c) n = Ok (l, s)"
    "(if \<not> is_data_empty l then store_slice_data (mk_bd pre) l else Ok (mk_bd pre)) = Ok (mk_bd (pre @ lab))"
    "size_bits l = length lab" "wf_slice s" "slice_value s = (vb, cell_children c)" "sl_cell s = c"
    by (rule visit_edge [OF PLeaf.prems(1,2)]) simp
  have "length lab = n" using PLeaf.prems(1) by simp
  then have "dict_find_bound_owned_loop bound sg c prev n direction (mk_bd pre) = Ok (mk_bd (pre @ lab), s, prev)"
    by (subst dict_find_bound_owned_loop.simps) (simp add: e(1,2,4) e(3) [simplified])
  then show ?case using e(5-7) rep_leaf_children [OF PLeaf.prems(1)] PLeaf.prems(4) by simp
next
  case (PFork lab l r)
  obtain la s where e: "slice_new c = Ok (slice_new_allow_exotic c)" "read_label (slice_new_allow_exotic c) n = Ok (la, s)"
    "(if \<not> is_data_empty la then store_slice_data (mk_bd pre) la else Ok (mk_bd pre)) = Ok (mk_bd (pre @ lab))"
    "size_bits la = length lab" "is_data_empty la \<longleftrightarrow> lab = []" "size_refs s = length (cell_children c)"
    by (rule visit_edge [OF PFork.prems(1,2)]) simp
  obtain lc rc where f: "cell_children c = [lc, rc]" "rep K D V (n - length lab - 1) lc l" "rep K D V (n - length lab - 1) rc r"
    "\<And>b. reference c (branch_index (branch_from b)) = Some (if b then rc else lc)"
    "\<And>b. reference_cloned c (branch_index (branch_from b)) = Some (if b then rc else lc)"
    by (rule fork_children [OF PFork.prems(1)]) (rule that)
  let ?b = "pt_first (is_max bound) (sg \<and> direction = None) lab"
  let ?c = "if ?b then rc else lc" and ?t = "if ?b then r else l"
  have n: "length lab < n" using PFork.prems(1) by simp
  have u: "update_direction bound la sg direction = (branch_from ?b, Some (into_branch bound))"
    by (rule update_direction_first [OF PFork.prems(3) e(5)])
  have "store_bit (mk_bd (pre @ lab)) ?b = Ok (mk_bd (pre @ lab @ [?b]))"
    using PFork.prems(2) n by (simp add: appended_def MAX_BIT_LEN_def)
  then have step: "dict_find_bound_owned_loop bound sg c prev n direction (mk_bd pre)
      = dict_find_bound_owned_loop bound sg ?c (Some (c, branch_from ?b)) (n - length lab - 1) (Some (into_branch bound)) (mk_bd (pre @ lab @ [?b]))"
    using n by (subst dict_find_bound_owned_loop.simps) (simp add: e(1,2,4,6) e(3) [simplified] u f(1,4))
  have "rep K D V (n - length lab - 1) ?c ?t" using f(2,3) by simp
  moreover have "length (pre @ lab @ [?b]) + (n - length lab - 1) \<le> 1023" using PFork.prems(2) n by simp
  moreover have "resolve_prev (Some (c, branch_from ?b)) root = Ok ?c" by (simp add: resolve_prev_def f(5))
  ultimately show ?case
    using PFork.IH(1) [of "n - length lab - 1" ?c "pre @ lab @ [?b]" "Some (into_branch bound)" "Some (c, branch_from ?b)"]
      PFork.IH(2) [of "n - length lab - 1" ?c "pre @ lab @ [?b]" "Some (into_branch bound)" "Some (c, branch_from ?b)"]
    unfolding step hd_pt_entries_fork by (cases ?b) (simp_all add: direction_ok_def Let_def)
qed

text \<open>The other two loops go down the same way.\<close>

lemma ok_ok: "ok (ok r f) g = ok r (\<lambda>x. ok (f x) g)"
  by (cases r) simp_all

lemma find_bound_loop_owned:
  "dict_find_bound_loop bound sg c n direction key
    = ok (dict_find_bound_owned_loop bound sg c prev n direction key) (\<lambda>(k, s, p). Ok (k, s))"
proof (induction bound sg c prev n direction key rule: dict_find_bound_owned_loop.induct)
  case (1 bound sg c prev n direction key)
  show ?case
    by (subst dict_find_bound_loop.simps, subst dict_find_bound_owned_loop.simps)
      (use 1 in \<open>auto simp: ok_ok split: option.splits prod.splits intro!: ok_cong\<close>)
qed

lemma find_descend_owned:
  "dict_find_descend rv c n key prev
    = ok (dict_find_bound_owned_loop bound sg c prev n (Some rv) key) (\<lambda>(k, s, p). Ok (sl_range s, k, p))"
proof (induction rv c n key prev rule: dict_find_descend.induct)
  case (1 rv c n key prev)
  show ?case
    by (subst dict_find_descend.simps, subst dict_find_bound_owned_loop.simps)
      (use 1 in \<open>auto simp: ok_ok update_direction_def split: option.splits prod.splits intro!: ok_cong\<close>)
qed

lemma find_descend_spec:
  assumes "rep K D V n c t" "length pre + n \<le> 1023" "resolve_prev prev root = Ok c"
  obtains s prev' where "dict_find_descend (branch_from rv) c n (mk_bd pre) prev
      = Ok (sl_range s, mk_bd (pre @ fst (hd (pt_entries rv False t))), prev')"
    "resolve_prev prev' root = Ok (sl_cell s)" "slice_value s = snd (hd (pt_entries rv False t))"
proof -
  let ?b = "if rv then BoundMax else BoundMin"
  have b: "branch_from rv = into_branch ?b" "is_max ?b = rv" by (simp_all add: branch_from_def is_max_def)
  have "direction_ok ?b (Some (branch_from rv))" by (simp add: direction_ok_def b(1))
  from find_bound_owned_loop_spec [OF assms(1,2) this assms(3), of False] obtain s prev' where
    s: "dict_find_bound_owned_loop ?b False c prev n (Some (branch_from rv)) (mk_bd pre)
        = Ok (mk_bd (pre @ fst (hd (pt_entries rv False t))), s, prev')"
      "slice_value s = snd (hd (pt_entries rv False t))" "resolve_prev prev' root = Ok (sl_cell s)" unfolding b(2) by auto
  show thesis by (rule that [of s prev']) (simp_all add: s find_descend_owned [of _ _ _ _ _ ?b False])
qed

section \<open>The bounds of a dictionary\<close>

text \<open>The entry of a map that is first in an order.\<close>

definition first_entry :: "bool \<Rightarrow> bool \<Rightarrow> (bool list \<Rightarrow> dict_value option) \<Rightarrow> bool list \<Rightarrow> bool" where
  "first_entry rv sg m k \<longleftrightarrow> m k \<noteq> None \<and> (\<forall>j. m j \<noteq> None \<longrightarrow> j = k \<or> (if rv then key_less sg j k else key_less sg k j))"

lemma hd_pt_entries:
  shows "pt_lookup t (fst (hd (pt_entries rv sg t))) = Some (snd (hd (pt_entries rv sg t)))"
    and "first_entry rv sg (pt_lookup t) (fst (hd (pt_entries rv sg t)))"
proof -
  obtain e es where e: "pt_entries rv sg t = e # es" using pt_entries_nonempty [of rv sg t] by (cases "pt_entries rv sg t") auto
  then show l: "pt_lookup t (fst (hd (pt_entries rv sg t))) = Some (snd (hd (pt_entries rv sg t)))"
    using set_pt_entries [of "fst e" "snd e" rv sg t] by simp
  have "j = fst e \<or> in_order rv sg e (j, v)" if "pt_lookup t j = Some v" for j v
    using that sorted_pt_entries [of rv sg t] unfolding set_pt_entries [of j v rv sg t, symmetric] e by auto
  then show "first_entry rv sg (pt_lookup t) (fst (hd (pt_entries rv sg t)))"
    using l unfolding first_entry_def e list.sel in_order_def fst_conv by (metis option.distinct(1) not_Some_eq)
qed

lemma stores_Some:
  assumes "stores K D V n (Some c) m"
  obtains t where "rep K D V n c t" "pt_lookup t = m"
  using assms by (auto elim!: storesE split: option.splits)

lemma dict_find_bound_stores:
  assumes "stores K D V n d m" "n \<le> 1023"
  shows "if m = (\<lambda>_. None) then dict_find_bound d n bound sg = Ok None \<and> dict_find_bound_owned d n bound sg = Ok None
    else \<exists>k s. dict_find_bound d n bound sg = Ok (Some (mk_bd k, s)) \<and> m k = Some (slice_value s) \<and> first_entry (is_max bound) sg m k
      \<and> dict_find_bound_owned d n bound sg = Ok (Some (mk_bd k, sl_range s, sl_cell s))"
proof (cases d)
  case None
  then show ?thesis using assms(1) by (simp add: stores_None dict_find_bound_def dict_find_bound_owned_def)
next
  case (Some c)
  obtain t where t: "rep K D V n c t" "pt_lookup t = m" using assms(1) unfolding Some by (rule stores_Some)
  let ?e = "hd (pt_entries (is_max bound) sg t)"
  have "direction_ok bound None" "resolve_prev None c = Ok c" by (simp_all add: direction_ok_def resolve_prev_def)
  from find_bound_owned_loop_spec [OF t(1) _ this, of "[]" sg] assms(2) obtain s prev' where
    s: "dict_find_bound_owned_loop bound sg c None n None (mk_bd []) = Ok (mk_bd (fst ?e), s, prev')"
      "slice_value s = snd ?e" "resolve_prev prev' c = Ok (sl_cell s)" by auto
  have "m \<noteq> (\<lambda>_. None)" using hd_pt_entries(1) [where t = t] t(2) by auto
  moreover have "dict_find_bound d n bound sg = Ok (Some (mk_bd (fst ?e), s))"
    using find_bound_loop_owned [of bound sg c n None bd_new None] s(1) by (simp add: dict_find_bound_def Some bd_new_mk)
  moreover have "dict_find_bound_owned d n bound sg = Ok (Some (mk_bd (fst ?e), sl_range s, sl_cell s))"
    using s by (simp add: dict_find_bound_owned_def Some bd_new_mk)
  ultimately show ?thesis using hd_pt_entries [where t = t] s(2) t(2) by auto
qed

end
