(* ===== verification/Dict_Nearest.thy ===== *)
theory Dict_Nearest
  imports Dict_Find_Props
begin

text \<open>
  \<open>dict_find_owned\<close> finds the nearest key in one direction. The loop and the rewinding together compute the
  first entry of the tree, in the order of the search, that lies strictly behind the key.
\<close>

section \<open>The first entry behind a key\<close>

definition behind :: "bool \<Rightarrow> bool \<Rightarrow> bool list \<Rightarrow> bool list \<Rightarrow> bool" where
  "behind rv sg k j \<longleftrightarrow> (if rv then key_less sg j k else key_less sg k j)"

definition pt_next :: "bool \<Rightarrow> bool \<Rightarrow> bool list \<Rightarrow> ptree \<Rightarrow> (bool list \<times> dict_value) option" where
  "pt_next rv sg k t = List.find (\<lambda>e. behind rv sg k (fst e)) (pt_entries rv sg t)"

lemma behind_fork:
  "behind rv sg (p @ b # k) (p @ c # j) \<longleftrightarrow> (if b = c then behind rv False k j else b = pt_first rv sg p)"
  by (cases rv) (auto simp: behind_def key_less_fork key_less_False pt_first_def)

lemma find_append: "List.find P (xs @ ys) = (case List.find P xs of None \<Rightarrow> List.find P ys | Some x \<Rightarrow> Some x)"
  by (induction xs) auto

lemma find_hd: "xs \<noteq> [] \<Longrightarrow> \<forall>x \<in> set xs. P x \<Longrightarrow> List.find P xs = Some (hd xs)"
  by (cases xs) auto

lemma find_none: "\<forall>x \<in> set xs. \<not> P x \<Longrightarrow> List.find P xs = None"
  by (induction xs) auto

lemma find_pt_down:
  "List.find P (pt_down lab b xs) = map_option (\<lambda>e. (lab @ b # fst e, snd e)) (List.find (\<lambda>e. P (lab @ b # fst e, snd e)) xs)"
  by (induction xs) (auto simp: pt_down_def)

lemma pt_next_fork:
  fixes rv sg lab
  defines "f \<equiv> pt_first rv sg lab"
  shows "pt_next rv sg (lab @ b # k) (PFork lab l r) =
    (case pt_next rv False k (if b then r else l) of
       Some e \<Rightarrow> Some (lab @ b # fst e, snd e)
     | None \<Rightarrow> if b = f
         then let e = hd (pt_entries rv False (if f then l else r)) in Some (lab @ (\<not> f) # fst e, snd e)
         else None)"
proof -
  let ?P = "\<lambda>e :: bool list \<times> dict_value. behind rv sg (lab @ b # k) (fst e)"
  have c: "List.find ?P (pt_down lab b (pt_entries rv False (if b then r else l)))
      = map_option (\<lambda>e. (lab @ b # fst e, snd e)) (pt_next rv False k (if b then r else l))"
    by (simp add: find_pt_down pt_next_def behind_fork)
  have o: "List.find ?P (pt_down lab (\<not> b) xs) = (if b = f \<and> xs \<noteq> [] then Some (lab @ (\<not> b) # fst (hd xs), snd (hd xs)) else None)" for xs
    by (cases xs) (auto simp: pt_down_def behind_fork f_def split_beta intro!: find_none)
  let ?t = "if b then r else l" and ?u = "if b then l else r"
  show ?thesis
  proof (cases "b = f")
    case True
    then have E: "pt_entries rv sg (PFork lab l r) = pt_down lab b (pt_entries rv False ?t) @ pt_down lab (\<not> b) (pt_entries rv False ?u)"
      by (simp add: f_def)
    have "pt_next rv sg (lab @ b # k) (PFork lab l r) =
        (case map_option (\<lambda>e. (lab @ b # fst e, snd e)) (pt_next rv False k ?t) of
           None \<Rightarrow> Some (lab @ (\<not> b) # fst (hd (pt_entries rv False ?u)), snd (hd (pt_entries rv False ?u))) | Some x \<Rightarrow> Some x)"
      unfolding pt_next_def [of rv sg] E find_append c o using True pt_entries_nonempty [of rv False ?u] by simp
    then show ?thesis using True by (cases "pt_next rv False k ?t") (simp_all add: Let_def)
  next
    case False
    then have f: "f = (\<not> b)" by blast
    then have E: "pt_entries rv sg (PFork lab l r) = pt_down lab (\<not> b) (pt_entries rv False ?u) @ pt_down lab b (pt_entries rv False ?t)"
      by (simp add: f_def)
    have "pt_next rv sg (lab @ b # k) (PFork lab l r) = map_option (\<lambda>e. (lab @ b # fst e, snd e)) (pt_next rv False k ?t)"
      unfolding pt_next_def [of rv sg] E find_append c o using False by simp
    then show ?thesis using False by (cases "pt_next rv False k ?t") simp_all
  qed
qed

text \<open>A key that leaves the tree at an edge has all entries on one side.\<close>

lemma pt_next_diverge:
  assumes "pt_label t = p @ (\<not> x) # ls"
  shows "pt_next rv sg (p @ x # ks) t = (if x = pt_first rv sg p then Some (hd (pt_entries rv sg t)) else None)"
proof -
  have "behind rv sg (p @ x # ks) j \<longleftrightarrow> x = pt_first rv sg p" if jv: "(j, v) \<in> set (pt_entries rv sg t)" for j v
  proof -
    from jv have "take (length (pt_label t)) j = pt_label t" unfolding set_pt_entries by (rule pt_lookup_label)
    then have "j = p @ (\<not> x) # (ls @ drop (length (pt_label t)) j)"
      using append_take_drop_id [of "length (pt_label t)" j] assms by simp
    then show ?thesis by (metis behind_fork)
  qed
  then show ?thesis
    unfolding pt_next_def using pt_entries_nonempty [of rv sg t] by (auto intro!: find_hd find_none)
qed

lemma pt_next_leaf: "pt_next rv sg k (PLeaf k vb vr) = None"
  by (simp add: pt_next_def behind_def)

text \<open>What the search looks for, on the map: the first of the keys behind the key.\<close>

definition nearest :: "bool \<Rightarrow> bool \<Rightarrow> (bool list \<Rightarrow> dict_value option) \<Rightarrow> bool list \<Rightarrow> bool list \<Rightarrow> bool" where
  "nearest rv sg m k j \<longleftrightarrow> m j \<noteq> None \<and> behind rv sg k j \<and> (\<forall>i. m i \<noteq> None \<and> behind rv sg k i \<longrightarrow> i = j \<or> behind rv sg j i)"

lemma find_sorted:
  assumes "sorted_wrt R xs" "List.find P xs = Some x"
  shows "x \<in> set xs \<and> P x \<and> (\<forall>y \<in> set xs. P y \<longrightarrow> y = x \<or> R x y)"
  using assms by (induction xs) (auto split: if_splits)

lemma pt_next_nearest:
  shows "pt_next rv sg k t = Some e \<Longrightarrow> nearest rv sg (pt_lookup t) k (fst e) \<and> pt_lookup t (fst e) = Some (snd e)"
    and "pt_next rv sg k t = None \<Longrightarrow> \<forall>j. pt_lookup t j \<noteq> None \<longrightarrow> \<not> behind rv sg k j"
proof -
  assume "pt_next rv sg k t = Some e"
  note f = find_sorted [OF sorted_pt_entries this [unfolded pt_next_def]]
  have e: "pt_lookup t (fst e) = Some (snd e)" using f set_pt_entries [of "fst e" "snd e" rv sg t] by simp
  have "i = fst e \<or> behind rv sg (fst e) i" if "pt_lookup t i = Some v" "behind rv sg k i" for i v
  proof -
    have "(i, v) \<in> set (pt_entries rv sg t)" using that(1) by (simp only: set_pt_entries)
    with f that(2) have "(i, v) = e \<or> in_order rv sg e (i, v)" by (metis fst_conv)
    then show ?thesis by (auto simp: in_order_def behind_def)
  qed
  then show "nearest rv sg (pt_lookup t) k (fst e) \<and> pt_lookup t (fst e) = Some (snd e)"
    using e f by (auto simp: nearest_def)
next
  assume "pt_next rv sg k t = None"
  then show "\<forall>j. pt_lookup t j \<noteq> None \<longrightarrow> \<not> behind rv sg k j"
    unfolding pt_next_def find_None_iff by (auto simp flip: set_pt_entries [of _ _ rv sg])
qed

section \<open>The loop and the rewinding\<close>

definition stack_prev :: "segment list \<Rightarrow> (cell \<times> branch) option" where
  "stack_prev stack = (case stack of seg # _ \<Rightarrow> Some (sg_data seg, sg_next_branch seg) | [] \<Rightarrow> None)"

text \<open>The block \<open>'fork\<close> of the code: where the second loop starts.\<close>

definition find_start :: "branch \<Rightarrow> bool \<Rightarrow> nat \<Rightarrow> find_leaf \<Rightarrow> cell \<Rightarrow> cell_slice \<Rightarrow> segment list \<Rightarrow> (cell \<times> branch) option
    \<Rightarrow> (cell \<times> nat \<times> nat \<times> branch option \<times> (cell \<times> branch) option) option" where
  "find_start rev_direction sg N leaf data key stack prev =
    (if leaf = LeafDivergence rev_direction
     then Some (data, size_bits key, N - size_bits key, None, prev)
     else map_option (\<lambda>(seg, prefix_len, branch).
       (sg_data seg, sg_key_bit_len seg, prefix_len, Some branch, Some (sg_data seg, sg_next_branch seg)))
       (dict_find_rewind rev_direction sg N stack))"

text \<open>The start of the second loop is such that its end is the entry \<open>e\<close>; \<open>kb\<close> are the bits of the key.\<close>

definition leads_to :: "sha256 option \<Rightarrow> nat \<Rightarrow> nat \<Rightarrow> bool \<Rightarrow> cell \<Rightarrow> bool list
    \<Rightarrow> (cell \<times> nat \<times> nat \<times> branch option \<times> (cell \<times> branch) option) option \<Rightarrow> bool list \<times> dict_value \<Rightarrow> bool" where
  "leads_to K D V rv root kb start e \<longleftrightarrow>
    (\<exists>data rem plen first prev c u. start = Some (data, rem, plen, first, prev) \<and> rep K D V rem c u
      \<and> snd e = snd (hd (pt_entries rv False u))
      \<and> (case first of
           None \<Rightarrow> c = data \<and> resolve_prev prev root = Ok c \<and> plen + rem = length kb
             \<and> fst e = take plen kb @ fst (hd (pt_entries rv False u))
         | Some b \<Rightarrow> reference data (branch_index b) = Some c \<and> resolve_prev (Some (data, b)) root = Ok c
             \<and> plen + 1 + rem = length kb \<and> fst e = take plen kb @ into_bit b # fst (hd (pt_entries rv False u))))"

text \<open>The result of the first loop started at a tree \<open>t\<close> below \<open>stack\<close>.\<close>

definition find_ok :: "sha256 option \<Rightarrow> nat \<Rightarrow> nat \<Rightarrow> bool \<Rightarrow> bool \<Rightarrow> cell \<Rightarrow> bool list \<Rightarrow> nat \<Rightarrow> ptree \<Rightarrow> segment list
    \<Rightarrow> (find_leaf \<times> cell \<times> cell_slice \<times> segment list \<times> (cell \<times> branch) option) result \<Rightarrow> bool" where
  "find_ok K D V rv sg root kb n t stack res \<longleftrightarrow>
    (\<exists>leaf data key stack' prev. res = Ok (leaf, data, key, stack', prev)
      \<and> (case pt_lookup t (drop (length kb - n) kb) of
           Some v \<Rightarrow> \<exists>rg. leaf = LeafValue rg \<and> part_value (rg, data) = v \<and> resolve_prev (stack_prev stack') root = Ok data
         | None \<Rightarrow> \<exists>b. leaf = LeafDivergence b)
      \<and> (case pt_next rv (sg \<and> stack = []) (drop (length kb - n) kb) t of
           Some e \<Rightarrow> leads_to K D V rv root kb (find_start (branch_from rv) sg (length kb) leaf data key stack' prev)
             (take (length kb - n) kb @ fst e, snd e)
         | None \<Rightarrow> leaf \<noteq> LeafDivergence (branch_from rv)
             \<and> dict_find_rewind (branch_from rv) sg (length kb) stack' = dict_find_rewind (branch_from rv) sg (length kb) stack))"

lemma pt_entries_label: "lab \<noteq> [] \<Longrightarrow> pt_label t = lab \<Longrightarrow> pt_entries rv sg t = pt_entries rv False t"
  by (cases t) (simp_all add: pt_first_def)

lemma find_loop_diverge:
  assumes "rep K D V n c t" "length kb \<le> 1023" "wf_slice key" "slice_bits key = drop (length kb - n) kb" "n \<le> length kb"
    and "resolve_prev (stack_prev stack) root = Ok c"
    and "take (length (pt_label t)) (slice_bits key) \<noteq> pt_label t"
  shows "find_ok K D V rv sg root kb n t stack (dict_find_loop sg c key stack (stack_prev stack))"
proof -
  have n: "size_bits key = n" using assms(4,5) length_slice_bits [of key] by simp
  have le: "length (pt_label t) \<le> length (slice_bits key)" using pt_inv_label [OF rep_inv [OF assms(1)]] n by simp
  from read_edge [OF assms(1)] assms(2,5) obtain l s where r: "slice_new c = Ok (slice_new_allow_exotic c)"
    "read_label (slice_new_allow_exotic c) n = Ok (l, s)" "wf_slice l" "slice_bits l = pt_label t" by (metis order.trans)
  obtain p x ks ls where d: "slice_bits key = p @ x # ks" "pt_label t = p @ (\<not> x) # ls" "lcp_len (slice_bits key) (pt_label t) = length p"
    by (rule diverge [OF le assms(7)])
  have sl: "size_bits l = length (pt_label t)" using r(4) length_slice_bits by metis
  have np: "length p < n" "n \<le> 1023" using d(1) n length_slice_bits [of key] assms(2,5) by simp_all
  let ?sg = "sg \<and> stack = []"
  let ?b = "if ?sg \<and> p = [] then \<not> x else x"
  have loop: "dict_find_loop sg c key stack (stack_prev stack) = Ok (LeafDivergence (branch_from ?b), c, key, stack, stack_prev stack)"
    using r(1,2) n np d sl lcp_key [OF assms(3) r(3)] get_bit_spec [OF assms(3), of "length p"]
    by (subst dict_find_loop.simps) (simp add: r(4) Let_def nth_append)
  have "pt_lookup t (slice_bits key) = None" using pt_lookup_label assms(7) by (metis not_None_eq)
  moreover have b: "x = pt_first rv ?sg p \<longleftrightarrow> ?b = rv" by (auto simp: pt_first_def)
  moreover have "pt_entries rv ?sg t = pt_entries rv False t" by (rule pt_entries_label [OF _ d(2)]) simp
  moreover have "leads_to K D V rv root kb (Some (c, n, length kb - n, None, stack_prev stack))
      (take (length kb - n) kb @ fst (hd (pt_entries rv False t)), snd (hd (pt_entries rv False t)))"
    using assms(1,5,6) by (auto simp: leads_to_def)
  ultimately show ?thesis
    using pt_next_diverge [OF d(2), of rv ?sg ks] unfolding find_ok_def loop
    by (simp add: assms(4) [symmetric] d(1) [symmetric] find_start_def n)
qed

lemma leads_to_branch:
  "reference data (branch_index b) = Some c \<Longrightarrow> resolve_prev (Some (data, b)) root = Ok c \<Longrightarrow> rep K D V rem c u \<Longrightarrow>
   plen + 1 + rem = length kb \<Longrightarrow> leads_to K D V rv root kb (Some (data, rem, plen, Some b, prev))
     (take plen kb @ into_bit b # fst (hd (pt_entries rv False u)), snd (hd (pt_entries rv False u)))"
  unfolding leads_to_def by auto

lemma rewind_step:
  assumes "sg \<and> N - m = 1 \<longleftrightarrow> sg' \<and> lab = []"
  shows "dict_find_rewind (branch_from rv) sg N (\<lparr>sg_data = c, sg_next_branch = branch_from b, sg_key_bit_len = m\<rparr> # stack)
    = (if b = pt_first rv sg' lab
       then Some (\<lparr>sg_data = c, sg_next_branch = branch_from b, sg_key_bit_len = m\<rparr>, N - m - 1, branch_from (\<not> b))
       else dict_find_rewind (branch_from rv) sg N stack)"
  using assms by (cases "sg \<and> N - m = 1") (auto simp: pt_first_def Let_def)

lemma find_loop_spec:
  assumes "rep K D V n c t" "length kb \<le> 1023" "wf_slice key" "slice_bits key = drop (length kb - n) kb" "n \<le> length kb"
    and "resolve_prev (stack_prev stack) root = Ok c" "stack = [] \<longleftrightarrow> n = length kb"
  shows "find_ok K D V rv sg root kb n t stack (dict_find_loop sg c key stack (stack_prev stack))"
  using assms(1,3-7)
proof (induction t arbitrary: n c key stack)
  case (PLeaf lab vb vr)
  have n: "size_bits key = n" using PLeaf.prems(3,4) length_slice_bits [of key] by simp
  show ?case
  proof (cases "take (length lab) (slice_bits key) = lab")
    case False
    then show ?thesis using find_loop_diverge [OF PLeaf.prems(1) assms(2) PLeaf.prems(2-5)] by simp
  next
    case True
    then have k: "slice_bits key = lab" using PLeaf.prems(1) n by (simp add: take_all)
    from read_edge [OF PLeaf.prems(1)] assms(2) PLeaf.prems(4) obtain l s where r: "slice_new c = Ok (slice_new_allow_exotic c)"
      "read_label (slice_new_allow_exotic c) n = Ok (l, s)" "wf_slice l" "slice_bits l = lab" "slice_bits s = vb"
      "slice_refs s = cell_children c" "sl_cell s = c" unfolding pt_label.simps pt_rest.simps by (metis order.trans)
    have "lcp_len (slice_bits key) lab = n" using k n length_slice_bits [of key] lcp_label(1) [of lab "slice_bits key"] by simp
    then have "dict_find_loop sg c key stack (stack_prev stack) = Ok (LeafValue (sl_range s), c, key, stack, stack_prev stack)"
      using r n lcp_key [OF PLeaf.prems(2) r(3)] by (subst dict_find_loop.simps) (simp add: Let_def)
    moreover have "part_value (sl_range s, c) = (vb, vr)"
      using part_value_slice [of s] rep_leaf_value [OF PLeaf.prems(1) r(5,6)] r(7) by simp
    ultimately show ?thesis
      using PLeaf.prems(3,5) k by (simp add: find_ok_def pt_next_leaf)
  qed
next
  case (PFork lab l r)
  let ?N = "length kb"
  have n: "size_bits key = n" using PFork.prems(3,4) length_slice_bits [of key] by simp
  have lab: "length lab < n" using PFork.prems(1) by simp
  show ?case
  proof (cases "take (length lab) (slice_bits key) = lab")
    case False
    then show ?thesis using find_loop_diverge [OF PFork.prems(1) assms(2) PFork.prems(2-5)] by simp
  next
    case True
    then obtain b k' where k: "slice_bits key = lab @ b # k'"
      using lab n length_slice_bits [of key] by (metis append_take_drop_id drop_eq_Nil leD list.exhaust)
    let ?m = "n - length lab - 1"
    let ?key = "advance (advance key (length lab)) 1"
    from fork_step [OF PFork.prems(1) k PFork.prems(2) n] obtain lc rc where
      f: "holds c (cell_bits c) [lc, rc]" "rep K D V ?m lc l" "rep K D V ?m rc r"
        "reference c (of_bool b) = Some (if b then rc else lc)" "cell_reference_count c = 2"
        "load_bit (advance key (length lab)) = Ok (b, ?key)" "wf_slice ?key" "slice_bits ?key = k'" "size_bits ?key = ?m" .
    let ?c = "if b then rc else lc" and ?t = "if b then r else l"
    let ?seg = "\<lparr>sg_data = c, sg_next_branch = branch_from b, sg_key_bit_len = ?m\<rparr>"
    from read_edge [OF PFork.prems(1)] assms(2) PFork.prems(4) obtain la s where r: "slice_new c = Ok (slice_new_allow_exotic c)"
      "read_label (slice_new_allow_exotic c) n = Ok (la, s)" "wf_slice la" "slice_bits la = lab"
      unfolding pt_label.simps by (metis order.trans)
    have i: "branch_index (branch_from b') = of_bool b'" for b' by (simp add: branch_from_def)
    have "lcp_len (slice_bits key) lab = length lab" "size_bits la = length lab"
      using k lcp_len_prefix r(4) length_slice_bits [of la] by simp_all
    then have step: "dict_find_loop sg c key stack (stack_prev stack) = dict_find_loop sg ?c ?key (?seg # stack) (stack_prev (?seg # stack))"
      using r n lab f(4,5,6,9) lcp_key [OF PFork.prems(2) r(3)] skip_key(1) [OF PFork.prems(2), of "length lab"]
      by (subst dict_find_loop.simps) (simp add: Let_def i stack_prev_def)
    have c: "reference c (branch_index (branch_from b')) = Some (if b' then rc else lc)"
      "resolve_prev (Some (c, branch_from b')) root = Ok (if b' then rc else lc)" for b'
      using holds_reference [OF f(1)] by (simp_all add: i nth_opt_def resolve_prev_def)
    have nm: "?N - ?m = (?N - n) + length lab + 1" using lab PFork.prems(4) by simp
    have kb: "take (?N - ?m) kb = take (?N - n) kb @ lab @ [b]" "take (?N - ?m - 1) kb = take (?N - n) kb @ lab" "drop (?N - ?m) kb = k'"
    proof -
      have "take (?N - n + (length lab + 1)) kb = take (?N - n) kb @ lab @ [b]" "take (?N - n + length lab) kb = take (?N - n) kb @ lab"
        unfolding take_add PFork.prems(3) [symmetric] k by simp_all
      moreover have "drop (length lab + 1) (drop (?N - n) kb) = k'" unfolding PFork.prems(3) [symmetric] k by simp
      ultimately show "take (?N - ?m) kb = take (?N - n) kb @ lab @ [b]" "take (?N - ?m - 1) kb = take (?N - n) kb @ lab" "drop (?N - ?m) kb = k'"
        unfolding nm by (simp_all add: ac_simps)
    qed
    have "find_ok K D V rv sg root kb ?m ?t (?seg # stack) (dict_find_loop sg ?c ?key (?seg # stack) (stack_prev (?seg # stack)))"
      using PFork.IH(1) [of ?m ?c ?key "?seg # stack"] PFork.IH(2) [of ?m ?c ?key "?seg # stack"] f(2,3,7,8) kb(3) lab PFork.prems(4) c(2) [of b]
      by (cases b) (simp_all add: stack_prev_def)
    then obtain leaf data key' stack' prev where ih: "dict_find_loop sg c key stack (stack_prev stack) = Ok (leaf, data, key', stack', prev)"
      "case pt_lookup ?t k' of Some v \<Rightarrow> \<exists>rg. leaf = LeafValue rg \<and> part_value (rg, data) = v \<and> resolve_prev (stack_prev stack') root = Ok data
         | None \<Rightarrow> \<exists>b. leaf = LeafDivergence b"
      "case pt_next rv False k' ?t of
           Some e \<Rightarrow> leads_to K D V rv root kb (find_start (branch_from rv) sg ?N leaf data key' stack' prev) (take (?N - ?m) kb @ fst e, snd e)
         | None \<Rightarrow> leaf \<noteq> LeafDivergence (branch_from rv)
             \<and> dict_find_rewind (branch_from rv) sg ?N stack' = dict_find_rewind (branch_from rv) sg ?N (?seg # stack)"
      unfolding step find_ok_def kb(3) by auto
    have sr: "sg \<and> ?N - ?m = 1 \<longleftrightarrow> (sg \<and> stack = []) \<and> lab = []" using nm PFork.prems(4,6) by auto
    note rw = rewind_step [OF sr, of rv c b stack]
    have nx: "case pt_next rv (sg \<and> stack = []) (lab @ b # k') (PFork lab l r) of
           Some e \<Rightarrow> leads_to K D V rv root kb (find_start (branch_from rv) sg ?N leaf data key' stack' prev) (take (?N - n) kb @ fst e, snd e)
         | None \<Rightarrow> leaf \<noteq> LeafDivergence (branch_from rv)
             \<and> dict_find_rewind (branch_from rv) sg ?N stack' = dict_find_rewind (branch_from rv) sg ?N stack"
    proof (cases "pt_next rv False k' ?t")
      case (Some e)
      then show ?thesis using ih(3) unfolding pt_next_fork kb(1) by simp
    next
      case None
      let ?f = "pt_first rv (sg \<and> stack = []) lab"
      show ?thesis
      proof (cases "b = ?f")
        case False
        then show ?thesis using ih(3) rw None unfolding pt_next_fork by simp
      next
        case True
        have "leads_to K D V rv root kb (Some (c, ?m, ?N - ?m - 1, Some (branch_from (\<not> b)), Some (c, branch_from b)))
           (take (?N - n) kb @ lab @ (\<not> b) # fst (hd (pt_entries rv False (if b then l else r))), snd (hd (pt_entries rv False (if b then l else r))))"
          using leads_to_branch [OF c(1) [of "\<not> b"] c(2) [of "\<not> b"], of K D V ?m "if b then l else r" "?N - ?m - 1" kb rv "Some (c, branch_from b)"]
            f(2,3) kb(2) nm lab PFork.prems(4) by (cases b) simp_all
        then show ?thesis using ih(3) rw None True unfolding pt_next_fork find_start_def by (simp add: Let_def)
      qed
    qed
    show ?thesis
      unfolding find_ok_def ih(1) PFork.prems(3) [symmetric] k pt_fork_lookup
      using ih(2) nx by blast
  qed
qed
section \<open>The search\<close>

lemma range_apply_wf: "wf_slice s \<Longrightarrow> \<not> cell_is_exotic (sl_cell s) \<Longrightarrow> range_apply (sl_range s) (sl_cell s) = Ok s"
  by (cases s; cases "sl_range s") (simp add: range_apply_def wf_slice_def Let_def min_def)

lemma stored_key_prefix:
  assumes "wf_slice key" "\<not> cell_is_exotic (sl_cell key)" "plen \<le> size_bits key"
  shows "ok (range_apply (range_get_prefix (sl_range key) plen 0) (sl_cell key)) (\<lambda>original_key. ok (store_slice_data bd_new original_key) f)
    = f (mk_bd (take plen (slice_bits key)))"
proof -
  have n: "plen \<le> 1023" using assms(3) wf_sliceD(7) [OF assms(1)] by simp
  note g = get_prefix_spec [OF assms(1), of plen 0]
  have "range_apply (range_get_prefix (sl_range key) plen 0) (sl_cell key) = Ok (get_prefix key plen 0)"
    using range_apply_wf [OF g(1)] g(2) assms(2) n by (simp add: get_prefix_def)
  then show ?thesis using g n by (simp add: bd_new_mk appended_def MAX_BIT_LEN_def min.coboundedI2)
qed

lemma stored_key:
  assumes "wf_slice key" "\<not> cell_is_exotic (sl_cell key)"
  shows "ok (range_apply (sl_range key) (sl_cell key)) (\<lambda>original_key. ok (store_slice_data bd_new original_key) f) = f (mk_bd (slice_bits key))"
  using assms wf_sliceD(7) [OF assms(1)] by (simp add: range_apply_wf bd_new_mk appended_def MAX_BIT_LEN_def)

text \<open>The second part of \<open>dict_find_owned\<close>, from the start on.\<close>

lemma find_from_start:
  assumes "leads_to K D V rv root (slice_bits key) start e" "wf_slice key" "\<not> cell_is_exotic (sl_cell key)"
  obtains part where "(case start of
                None \<Rightarrow> Ok None
              | Some (data, remaining_bits, prefix_len, first_branch, prev) \<Rightarrow>
                  ok (range_apply (range_get_prefix (sl_range key) prefix_len 0) (sl_cell key)) (\<lambda>original_key.
                  ok (store_slice_data bd_new original_key) (\<lambda>result_key.
                  ok (case first_branch of
                        Some branch \<Rightarrow>
                          ok (store_bit result_key (into_bit branch)) (\<lambda>result_key.
                          case reference data (branch_index branch) of
                            Some child \<Rightarrow> ok (load_dyn_cell child Full) (\<lambda>child. Ok (child, result_key, Some (data, branch)))
                          | None \<Rightarrow> Err CellUnderflow)
                      | None \<Rightarrow> Ok (data, result_key, prev)) (\<lambda>(data, result_key, prev).
                  ok (dict_find_descend (branch_from rv) data remaining_bits result_key prev) (\<lambda>(value_range, result_key, prev).
                  ok (resolve_prev prev root) (\<lambda>cell. Ok (Some (result_key, value_range, cell))))))))
     = Ok (Some (mk_bd (fst e), part))" "part_value part = snd e"
proof -
  from assms(1) obtain data rem plen first prev c u where l: "start = Some (data, rem, plen, first, prev)" "rep K D V rem c u"
    "snd e = snd (hd (pt_entries rv False u))"
    "case first of None \<Rightarrow> c = data \<and> resolve_prev prev root = Ok c \<and> plen + rem = size_bits key
             \<and> fst e = take plen (slice_bits key) @ fst (hd (pt_entries rv False u))
         | Some b \<Rightarrow> reference data (branch_index b) = Some c \<and> resolve_prev (Some (data, b)) root = Ok c
             \<and> plen + 1 + rem = size_bits key \<and> fst e = take plen (slice_bits key) @ into_bit b # fst (hd (pt_entries rv False u))"
    unfolding leads_to_def length_slice_bits by blast
  have N: "size_bits key \<le> 1023" by (rule wf_sliceD(7) [OF assms(2)])
  have p: "plen \<le> size_bits key" using l(4) by (cases first) auto
  let ?pre = "take plen (slice_bits key) @ (case first of None \<Rightarrow> [] | Some b \<Rightarrow> [into_bit b])"
  let ?prev = "case first of None \<Rightarrow> prev | Some b \<Rightarrow> Some (data, b)"
  have "length ?pre + rem \<le> 1023" "resolve_prev ?prev root = Ok c" using l(4) N by (auto split: option.splits)
  from find_descend_spec [OF l(2) this, of rv] obtain s prev' where
    s: "dict_find_descend (branch_from rv) c rem (mk_bd ?pre) ?prev
        = Ok (sl_range s, mk_bd (?pre @ fst (hd (pt_entries rv False u))), prev')"
      "resolve_prev prev' root = Ok (sl_cell s)" "slice_value s = snd (hd (pt_entries rv False u))" .
  have st: "store_bit (mk_bd (take plen (slice_bits key))) (into_bit b) = Ok (mk_bd (take plen (slice_bits key) @ [into_bit b]))" if "first = Some b" for b
    using l(4) N that by (simp add: appended_def MAX_BIT_LEN_def)
  have v: "part_value (sl_range s, sl_cell s) = snd e" using s(3) l(3) part_value_slice [of s] by simp
  show thesis
    by (rule that [OF _ v], cases first)
      (use s(1,2) l st in \<open>simp_all add: stored_key_prefix [OF assms(2,3) p]\<close>)
qed

lemma dict_find_owned_stores:
  fixes towards
  assumes "stores K D V n d m" "n \<le> 1023" "wf_slice key" "size_bits key = n" "\<not> cell_is_exotic (sl_cell key)"
  defines "k \<equiv> slice_bits key" and "rv \<equiv> \<not> is_max towards"
  shows "if inclusive \<and> m k \<noteq> None
    then \<exists>part. dict_find_owned d n key towards inclusive sg = Ok (Some (mk_bd k, part)) \<and> m k = Some (part_value part)
    else if \<exists>j. m j \<noteq> None \<and> behind rv sg k j
    then \<exists>j part. dict_find_owned d n key towards inclusive sg = Ok (Some (mk_bd j, part)) \<and> m j = Some (part_value part) \<and> nearest rv sg m k j
    else dict_find_owned d n key towards inclusive sg = Ok None"
proof (cases d)
  case None
  then show ?thesis using assms(1,4) by (simp add: stores_None dict_find_owned_def)
next
  case (Some c)
  obtain t where t: "rep K D V n c t" "pt_lookup t = m" using assms(1) unfolding Some by (rule stores_Some)
  have N: "length k = n" using assms(4) by (simp add: k_def)
  have p: "resolve_prev (stack_prev []) c = Ok c" "stack_prev [] = None" by (simp_all add: resolve_prev_def stack_prev_def)
  have "find_ok K D V rv sg c k n t [] (dict_find_loop sg c key [] (stack_prev []))"
    by (rule find_loop_spec [OF t(1) _ assms(3) _ _ p(1)]) (use N assms(2) k_def in simp_all)
  then obtain leaf data key' stack' prev where f1: "dict_find_loop sg c key [] None = Ok (leaf, data, key', stack', prev)"
    and f2: "case m k of Some v \<Rightarrow> \<exists>rg. leaf = LeafValue rg \<and> part_value (rg, data) = v \<and> resolve_prev (stack_prev stack') c = Ok data
         | None \<Rightarrow> \<exists>b. leaf = LeafDivergence b"
    and f3: "case pt_next rv sg k t of
           Some e \<Rightarrow> leads_to K D V rv c k (find_start (branch_from rv) sg n leaf data key' stack' prev) e
         | None \<Rightarrow> leaf \<noteq> LeafDivergence (branch_from rv) \<and> dict_find_rewind (branch_from rv) sg n stack' = None"
    unfolding find_ok_def p(2) t(2) [symmetric] N dict_find_rewind.simps(1) diff_self_eq_0 take_0 append_Nil prod.collapse by auto
  have "case pt_next rv sg k t of
           Some e \<Rightarrow> leads_to K D V rv c k (find_start (branch_from rv) sg n leaf data key' stack' prev) e
         | None \<Rightarrow> find_start (branch_from rv) sg n leaf data key' stack' prev = None"
    using f3 by (cases "pt_next rv sg k t") (simp_all add: find_start_def)
  note f = f1 f2 this
  have rv: "reversed (into_branch towards) = branch_from rv" by (simp add: rv_def into_branch_from)
  show ?thesis
  proof (cases "inclusive \<and> m k \<noteq> None")
    case True
    then obtain rg where "leaf = LeafValue rg" "m k = Some (part_value (rg, data))" "resolve_prev (stack_prev stack') c = Ok data"
      using f(2) by auto
    then show ?thesis
      using True f(1) assms(4)
      by (simp add: dict_find_owned_def Some Let_def k_def stack_prev_def stored_key [OF assms(3,5)])
  next
    case False
    show ?thesis
    proof (cases "pt_next rv sg k t")
      case None
      then have "dict_find_owned d n key towards inclusive sg = Ok None"
        using False f assms(4) by (auto simp: dict_find_owned_def Some Let_def rv find_start_def split: option.splits if_splits)
      then show ?thesis using False pt_next_nearest(2) [OF None] t(2) by auto
    next
      case nx: (Some e)
      obtain part where "dict_find_owned d n key towards inclusive sg = Ok (Some (mk_bd (fst e), part))" "part_value part = snd e"
        by (rule find_from_start [of K D V rv c key "find_start (branch_from rv) sg n leaf data key' stack' prev" e])
          (use False f assms(3-5) nx in \<open>auto simp: dict_find_owned_def Some Let_def rv find_start_def k_def split: option.splits\<close>)
      then show ?thesis using False pt_next_nearest(1) [OF nx] t(2) by (auto simp: nearest_def)
    qed
  qed
qed

end
