(* ===== verification/Dict_Remove_Bound.thy ===== *)
theory Dict_Remove_Bound
  imports Dict_Find_Props
begin

text \<open>
  Removing the least or the greatest entry: \<open>dict_remove_bound_owned\<close> goes down the way the search for a
  bound does and leaves the dictionary that \<open>dict_remove_owned\<close> leaves for the key it finds.
\<close>

definition same_segment :: "segment \<Rightarrow> segment \<Rightarrow> bool" where
  "same_segment a b \<longleftrightarrow> sg_data a = sg_data b \<and> sg_next_branch a = sg_next_branch b"

lemma rebuild_same_stack:
  "list_all2 same_segment stk stk' \<Longrightarrow> rebuild_dict_from_stack sha stk leaf = rebuild_dict_from_stack sha stk' leaf"
proof (induction arbitrary: leaf rule: list_all2_induct)
  case (Cons a stk b stk')
  have "(\<lambda>leaf. rebuild_dict_from_stack sha stk leaf) = (\<lambda>leaf. rebuild_dict_from_stack sha stk' leaf)" using Cons.IH by blast
  moreover have "sg_data a = sg_data b" "sg_next_branch a = sg_next_branch b" using Cons.hyps(1) by (simp_all add: same_segment_def)
  ultimately show ?case unfolding rebuild_dict_from_stack.simps by (simp only:)
qed simp

lemma remove_bound_loop_spec:
  assumes "rep K D V n c t" "length pre + n \<le> 1023" "direction_ok bound direction" "list_all2 same_segment stack stack2"
    and "wf_slice key" "slice_bits key = fst (hd (pt_entries (is_max bound) (sg \<and> direction = None) t))"
  shows "\<exists>rg p nn stk stk2 key'. dict_remove_bound_loop bound sg c prev n direction (mk_bd pre) stack
      = Ok (rg, p, nn, mk_bd (pre @ slice_bits key), stk)
    \<and> dict_find_value_to_remove_loop c key prev stack2 = Ok (Some (stk2, rg, p, key'))
    \<and> list_all2 same_segment stk stk2 \<and> size_bits key' = nn"
  using assms
proof (induction t arbitrary: n c pre direction prev stack stack2 key)
  case (PLeaf lab vb vr)
  obtain l s where e: "slice_new c = Ok (slice_new_allow_exotic c)" "read_label (slice_new_allow_exotic c) n = Ok (l, s)"
    "(if \<not> is_data_empty l then store_slice_data (mk_bd pre) l else Ok (mk_bd pre)) = Ok (mk_bd (pre @ lab))"
    "size_bits l = length lab" "wf_slice l" "slice_bits l = lab"
    by (rule visit_edge [OF PLeaf.prems(1,2)]) simp
  have n: "length lab = n" "slice_bits key = lab" "size_bits key = n"
    using PLeaf.prems(1,6) length_slice_bits [of key] by simp_all
  then have "dict_remove_bound_loop bound sg c prev n direction (mk_bd pre) stack = Ok (sl_range s, prev, n, mk_bd (pre @ lab), stack)"
    by (subst dict_remove_bound_loop.simps) (simp add: e(1,2,4) e(3) [simplified])
  moreover have "lcp_len (slice_bits key) lab = n" using n lcp_label(1) [of lab "slice_bits key"] by simp
  then have "dict_find_value_to_remove_loop c key prev stack2 = Ok (Some (stack2, sl_range s, prev, key))"
    using e n lcp_key [OF PLeaf.prems(5) e(5)] by (subst dict_find_value_to_remove_loop.simps) (simp add: Let_def)
  ultimately show ?case using n PLeaf.prems(4) by simp
next
  case (PFork lab l r)
  obtain la s where e: "slice_new c = Ok (slice_new_allow_exotic c)" "read_label (slice_new_allow_exotic c) n = Ok (la, s)"
    "(if \<not> is_data_empty la then store_slice_data (mk_bd pre) la else Ok (mk_bd pre)) = Ok (mk_bd (pre @ lab))"
    "size_bits la = length lab" "is_data_empty la \<longleftrightarrow> lab = []" "size_refs s = length (cell_children c)" "wf_slice la" "slice_bits la = lab"
    by (rule visit_edge [OF PFork.prems(1,2)]) simp
  let ?b = "pt_first (is_max bound) (sg \<and> direction = None) lab"
  let ?t = "if ?b then r else l" and ?m = "n - length lab - 1"
  let ?k' = "fst (hd (pt_entries (is_max bound) False ?t))"
  have k: "slice_bits key = lab @ ?b # ?k'" using PFork.prems(6) unfolding hd_pt_entries_fork by (simp add: Let_def)
  have "length (slice_bits key) = n"
    using pt_lookup_length [OF rep_inv [OF PFork.prems(1)] hd_pt_entries(1) [of _ "is_max bound" "sg \<and> direction = None"]] PFork.prems(6) by simp
  then have n: "size_bits key = n" "length lab < n" using k length_slice_bits [of key] by simp_all
  let ?key = "advance (advance key (length lab)) 1"
  from fork_step [OF PFork.prems(1) k PFork.prems(5) n(1)] obtain lc rc where
    f: "cell_children c = [lc, rc]" "rep K D V ?m lc l" "rep K D V ?m rc r"
      "reference c (of_bool ?b) = Some (if ?b then rc else lc)" "cell_reference_count c = 2"
      "load_bit (advance key (length lab)) = Ok (?b, ?key)" "wf_slice ?key" "slice_bits ?key = ?k'" "size_bits ?key = ?m" .
  let ?c = "if ?b then rc else lc"
  have i: "branch_index (branch_from b') = of_bool b'" for b' by (simp add: branch_from_def)
  have u: "update_direction bound la sg direction = (branch_from ?b, Some (into_branch bound))"
    by (rule update_direction_first [OF PFork.prems(3) e(5)])
  have "store_bit (mk_bd (pre @ lab)) ?b = Ok (mk_bd (pre @ lab @ [?b]))"
    using PFork.prems(2) n by (simp add: appended_def MAX_BIT_LEN_def)
  then have step: "dict_remove_bound_loop bound sg c prev n direction (mk_bd pre) stack
      = dict_remove_bound_loop bound sg ?c n ?m (Some (into_branch bound)) (mk_bd (pre @ lab @ [?b]))
          (\<lparr>sg_data = c, sg_next_branch = branch_from ?b, sg_key_bit_len = 0\<rparr> # stack)"
    using n by (subst dict_remove_bound_loop.simps) (simp add: e(1,2,4,6) e(3) [simplified] u f(1,4) i)
  have "lcp_len (slice_bits key) lab = length lab" using k lcp_len_prefix by simp
  then have step2: "dict_find_value_to_remove_loop c key prev stack2
      = dict_find_value_to_remove_loop ?c ?key n (\<lparr>sg_data = c, sg_next_branch = branch_from ?b, sg_key_bit_len = n\<rparr> # stack2)"
    using e n f(4,5,6) lcp_key [OF PFork.prems(5) e(7)] skip_key(1) [OF PFork.prems(5), of "length lab"]
    by (subst dict_find_value_to_remove_loop.simps) (simp add: Let_def i)
  have "rep K D V ?m ?c ?t" using f(2,3) by simp
  moreover have "length (pre @ lab @ [?b]) + ?m \<le> 1023" using PFork.prems(2) n by simp
  moreover have "list_all2 same_segment (\<lparr>sg_data = c, sg_next_branch = branch_from ?b, sg_key_bit_len = 0\<rparr> # stack)
      (\<lparr>sg_data = c, sg_next_branch = branch_from ?b, sg_key_bit_len = n\<rparr> # stack2)"
    unfolding list_all2_Cons same_segment_def [of "segment.make _ _ _", unfolded segment.make_def] using PFork.prems(4) by simp
  ultimately show ?case
    using PFork.IH(1) [of ?m ?c "pre @ lab @ [?b]" "Some (into_branch bound)" _ _ ?key n]
      PFork.IH(2) [of ?m ?c "pre @ lab @ [?b]" "Some (into_branch bound)" _ _ ?key n] f(7,8)
    unfolding step step2 k by (cases ?b) (simp_all add: direction_ok_def)
qed

text \<open>\<open>dict_remove_bound_owned\<close> and \<open>dict_remove_owned\<close> end alike.\<close>

lemma remove_bound_is_remove:
  assumes "rep K D V n c t" "n \<le> 1023" "wf_slice key" "slice_bits key = fst (hd (pt_entries (is_max bound) sg t))"
  shows "dict_remove_bound_owned sha (Some c) n bound sg
    = ok (dict_remove_owned sha (Some c) key n False) (\<lambda>(d, removed). Ok (d, map_option (Pair (mk_bd (slice_bits key))) removed))"
proof -
  have d: "direction_ok bound None" by (simp add: direction_ok_def)
  have n: "size_bits key = n"
    using pt_lookup_length [OF rep_inv [OF assms(1)] hd_pt_entries(1)] assms(4) length_slice_bits [of key] by metis
  have e: "slice_bits key = fst (hd (pt_entries (is_max bound) (sg \<and> None = None) t))" using assms(4) by simp
  from remove_bound_loop_spec [OF assms(1) _ d _ assms(3) e, of "[]" "[]" "[]" n] assms(2) obtain rg p nn stk stk2 key' where
    r: "dict_remove_bound_loop bound sg c n n None (mk_bd []) [] = Ok (rg, p, nn, mk_bd (slice_bits key), stk)"
      "dict_find_value_to_remove_loop c key n [] = Ok (Some (stk2, rg, p, key'))" "list_all2 same_segment stk stk2" "size_bits key' = nn"
    by auto
  show ?thesis
  proof (cases stk)
    case Nil
    then show ?thesis
      using r n by (simp add: dict_remove_bound_owned_def dict_remove_owned_def dict_find_value_to_remove_def bd_new_mk)
  next
    case (Cons sg stk')
    then obtain sg2 stk2' where c: "stk2 = sg2 # stk2'" "same_segment sg sg2" "list_all2 same_segment stk' stk2'"
      using r(3) by (auto simp: list_all2_Cons1)
    have q: "sg_data sg = sg_data sg2" "sg_next_branch sg = sg_next_branch sg2" using c(2) by (simp_all add: same_segment_def)
    show ?thesis
      using r(1,2,4) n Cons c(1)
      by (cases "reference_cloned (sg_data sg2) (branch_index (sg_next_branch sg2))")
        (simp_all add: dict_remove_bound_owned_def dict_remove_owned_def dict_find_value_to_remove_def bd_new_mk rebuild_as_removed_def
          ok_ok q rebuild_same_stack [OF c(3)] Let_def case_prod_unfold)
  qed
qed
lemma dict_remove_bound_stores:
  assumes "stores K D V n d m" "room D V n" "canon_by sha K"
  shows "if m = (\<lambda>_. None) then dict_remove_bound_owned sha d n bound sg = Ok (d, None)
    else \<exists>k d' part. dict_remove_bound_owned sha d n bound sg = Ok (d', Some (mk_bd k, part))
      \<and> first_entry (is_max bound) sg m k \<and> m k = Some (part_value part) \<and> stores K D V n d' (m(k := None))"
proof (cases d)
  case None
  then show ?thesis using assms(1) by (simp add: stores_None dict_remove_bound_owned_def)
next
  case (Some c)
  obtain t where t: "rep K D V n c t" "pt_lookup t = m" using assms(1) unfolding Some by (rule stores_Some)
  let ?e = "hd (pt_entries (is_max bound) sg t)"
  have e: "m (fst ?e) = Some (snd ?e)" "first_entry (is_max bound) sg m (fst ?e)" using hd_pt_entries [where t = t] t(2) by simp_all
  have n: "length (fst ?e) = n" by (rule stores_key_length [OF assms(1) e(1)])
  note k = bits_key_spec [of "fst ?e", unfolded n, OF room_len(2) [OF assms(2)]]
  have r: "dict_remove_bound_owned sha d n bound sg
      = ok (dict_remove_owned sha d (bits_key (fst ?e)) n False) (\<lambda>(d, removed). Ok (d, map_option (Pair (mk_bd (fst ?e))) removed))"
    using remove_bound_is_remove [OF t(1) room_len(2) [OF assms(2)] k(1,2)] by (simp add: Some k(2))
  from dict_remove_stores [OF assms(1,2) k(1,3) assms(3), of False] obtain d' part where
    "dict_remove_owned sha d (bits_key (fst ?e)) n False = Ok (d', Some part)" "part_value part = snd ?e"
    "stores K D V n d' (m(fst ?e := None))" unfolding k(2) e(1) by auto
  then show ?thesis unfolding r using e by auto
qed

end
