(* ===== verification/Dict_Iter.thy ===== *)
theory Dict_Iter
  imports Dict_Ops
begin

text \<open>
  \<^verbatim>\<open>src/dict/raw.rs\<close>: the iterators over the entries, the keys and the values of a dictionary. An
  iterator keeps the path to the place it has reached as a stack of segments (here with its top first)
  and the bits of the path in a builder. The loop of \<open>next_impl\<close> is a partial function: on a stack that
  no iterator can have it might go on forever, and then its value is \<open>None\<close>. An iterator that has met an
  error is never read again but for its status; its other fields are left as they were before the call.
\<close>

section \<open>The state of an iterator\<close>

datatype iter_status = StatusValid | StatusUnexpectedCell | StatusBroken

definition status_is_valid :: "iter_status \<Rightarrow> bool" where
  "status_is_valid s \<longleftrightarrow> s = StatusValid"

definition status_is_unexpected_cell :: "iter_status \<Rightarrow> bool" where
  "status_is_unexpected_cell s \<longleftrightarrow> s = StatusUnexpectedCell"

record iter_segment =
  it_data :: cell_slice
  it_remaining_bit_len :: nat
  it_prefix :: "cell_slice option"

record raw_iter =
  ri_segments :: "iter_segment list"
  ri_status :: iter_status
  ri_builder :: cell_data_builder
  ri_reversed :: bool
  ri_signed :: bool

definition raw_iter_new_ext :: "cell option \<Rightarrow> nat \<Rightarrow> bool \<Rightarrow> bool \<Rightarrow> raw_iter" where
  "raw_iter_new_ext root bit_len is_reversed is_signed =
    (let iter = (\<lambda>segments status. \<lparr>ri_segments = segments, ri_status = status, ri_builder = bd_new,
           ri_reversed = is_reversed, ri_signed = is_signed\<rparr>)
     in case root of
          Some root \<Rightarrow>
            (case slice_new root of
               Inr data \<Rightarrow> iter [\<lparr>it_data = data, it_remaining_bit_len = bit_len, it_prefix = None\<rparr>] StatusValid
             | Inl e \<Rightarrow> iter [] StatusUnexpectedCell)
        | None \<Rightarrow> iter [] StatusValid)"

definition raw_iter_new :: "cell option \<Rightarrow> nat \<Rightarrow> raw_iter" where
  "raw_iter_new root bit_len = raw_iter_new_ext root bit_len False False"

definition raw_iter_reversed :: "raw_iter \<Rightarrow> raw_iter" where
  "raw_iter_reversed it = it\<lparr>ri_reversed := True\<rparr>"

definition raw_iter_signed :: "raw_iter \<Rightarrow> raw_iter" where
  "raw_iter_signed it = it\<lparr>ri_signed := True\<rparr>"

definition cell_get_reference_as_slice :: "cell \<Rightarrow> nat \<Rightarrow> cell_slice result" where
  "cell_get_reference_as_slice c index = (case reference c index of Some c' \<Rightarrow> slice_new c' | None \<Rightarrow> Err CellUnderflow)"

definition skip_reference :: "cell_slice \<Rightarrow> cell_slice" where
  "skip_reference s = (case skip_first s 0 1 of Inr s' \<Rightarrow> s' | Inl e \<Rightarrow> s)"

section \<open>The next entry\<close>

text \<open>
  The inner loop of \<open>next_impl\<close>: segments with no branch left are popped, and the next branch of the first
  other segment is pushed.
\<close>

fun iter_seek :: "bool \<Rightarrow> bool \<Rightarrow> nat \<Rightarrow> iter_segment list \<Rightarrow> cell_data_builder
    \<Rightarrow> (iter_segment \<times> iter_segment list \<times> cell_data_builder) option result" where
  "iter_seek reverse is_signed to_rewind [] builder = Ok None"
| "iter_seek reverse is_signed to_rewind (segment # segments) builder =
    (let is_root = (segments = [])
     in case it_prefix segment of
          None \<Rightarrow> Ok (Some (segment, segments, builder))
        | Some prefix \<Rightarrow>
            let refs_offset = refs_start (sl_range (it_data segment))
            in if refs_offset < 2 then
                 let next_bit = (((refs_offset \<noteq> 0) \<noteq> reverse) \<noteq> (is_signed \<and> is_root \<and> is_data_empty prefix))
                 in ok (cell_get_reference_as_slice (sl_cell (it_data segment)) (of_bool next_bit)) (\<lambda>data.
                    let segment' = segment\<lparr>it_data := skip_reference (it_data segment)\<rparr>
                    in ok (rewind_bits builder to_rewind) (\<lambda>builder.
                       ok (store_bit builder next_bit) (\<lambda>builder.
                       Ok (Some (\<lparr>it_data = data, it_remaining_bit_len = it_remaining_bit_len segment, it_prefix = None\<rparr>,
                         segment' # segments, builder)))))
               else
                 let to_rewind = u16_add to_rewind (size_bits prefix);
                     to_rewind = u16_add to_rewind (of_bool (segments \<noteq> []))
                 in iter_seek reverse is_signed to_rewind segments builder)"

partial_function (option) next_impl :: "bool \<Rightarrow> bool \<Rightarrow> iter_segment list \<Rightarrow> cell_data_builder
    \<Rightarrow> ((cell_data_builder \<times> cell_slice) option \<times> iter_segment list \<times> cell_data_builder) result option" where
  "next_impl reverse is_signed segments builder =
    (case iter_seek reverse is_signed 0 segments builder of
       Inl e \<Rightarrow> Some (Err e)
     | Inr None \<Rightarrow> Some (Ok (None, [], builder))
     | Inr (Some (segment, segments, builder)) \<Rightarrow>
         (case read_label (it_data segment) (it_remaining_bit_len segment) of
            Inl e \<Rightarrow> Some (Err e)
          | Inr (prefix, data) \<Rightarrow>
              if it_remaining_bit_len segment < size_bits prefix then Some (Err CellUnderflow)
              else if it_remaining_bit_len segment - size_bits prefix = 0 then
                Some (ok (store_slice_data builder prefix) (\<lambda>key.
                  ok (rewind_bits builder (of_bool (segments \<noteq> []))) (\<lambda>builder.
                  Ok (Some (key, data), segments, builder))))
              else if size_refs data < 2 then Some (Err CellUnderflow)
              else
                (case store_slice_data builder prefix of
                   Inl e \<Rightarrow> Some (Err e)
                 | Inr builder \<Rightarrow>
                     next_impl reverse is_signed
                       (\<lparr>it_data = data, it_remaining_bit_len = it_remaining_bit_len segment - size_bits prefix - 1, it_prefix = Some prefix\<rparr>
                        # segments) builder)))"

text \<open>An item of an iterator: nothing at the end, otherwise an entry or an error.\<close>

type_synonym 'a item = "'a result option"

definition raw_iter_finish :: "raw_iter \<Rightarrow> raw_iter" where
  "raw_iter_finish it = it\<lparr>ri_status := StatusBroken\<rparr>"

definition raw_iter_next :: "raw_iter \<Rightarrow> (raw_iter \<times> (cell_data_builder \<times> cell_slice) item) option" where
  "raw_iter_next it =
    (if \<not> status_is_valid (ri_status it)
     then Some (if status_is_unexpected_cell (ri_status it)
       then (it\<lparr>ri_status := StatusBroken\<rparr>, Some (Err UnexpectedExoticCell)) else (it, None))
     else case next_impl (ri_reversed it) (ri_signed it) (ri_segments it) (ri_builder it) of
       None \<Rightarrow> None
     | Some (Inl e) \<Rightarrow> Some (raw_iter_finish it, Some (Err e))
     | Some (Inr (res, segments, builder)) \<Rightarrow>
         Some (it\<lparr>ri_segments := segments, ri_builder := builder\<rparr>, map_option Ok res))"

definition raw_keys_next :: "raw_iter \<Rightarrow> (raw_iter \<times> cell_data_builder item) option" where
  "raw_keys_next it = map_option (\<lambda>(it, item). (it, map_option (\<lambda>r. ok r (\<lambda>(key, _). Ok key)) item)) (raw_iter_next it)"

text \<open>The owned form reaches the cell of the entry through the segment above it.\<close>

definition next_owned :: "raw_iter \<Rightarrow> cell option \<Rightarrow> (raw_iter \<times> (cell_data_builder \<times> cell_slice_range \<times> cell) item) option" where
  "next_owned it root =
    (case raw_iter_next it of
       None \<Rightarrow> None
     | Some (it, None) \<Rightarrow> Some (it, None)
     | Some (it, Some (Inl e)) \<Rightarrow> Some (it, Some (Err e))
     | Some (it, Some (Inr (key, value_slice))) \<Rightarrow>
         Some (case ri_segments it of
                 segment # _ \<Rightarrow>
                   let refs_offset = refs_start (sl_range (it_data segment));
                       next_bit = (((refs_offset \<noteq> 1) \<noteq> ri_reversed it) \<noteq> (ri_signed it \<and> length (ri_segments it) = 1
                         \<and> (case it_prefix segment of Some prefix \<Rightarrow> is_data_empty prefix | None \<Rightarrow> False)))
                   in (case reference_cloned (sl_cell (it_data segment)) (of_bool next_bit) of
                         Some cell \<Rightarrow> (it, Some (Ok (key, sl_range value_slice, cell)))
                       | None \<Rightarrow> (raw_iter_finish it, Some (Err CellUnderflow)))
               | [] \<Rightarrow>
                   (case root of
                      Some root \<Rightarrow> (it, Some (Ok (key, sl_range value_slice, root)))
                    | None \<Rightarrow> (it, None))))"

section \<open>The values only\<close>

record values_segment =
  vs_data :: cell_slice
  vs_remaining_bit_len :: nat

record raw_values =
  rv_segments :: "values_segment list"
  rv_status :: iter_status
  rv_reversed :: bool
  rv_signed :: bool

definition raw_values_new_ext :: "cell option \<Rightarrow> nat \<Rightarrow> bool \<Rightarrow> bool \<Rightarrow> raw_values" where
  "raw_values_new_ext root bit_len is_reversed is_signed =
    (let iter = (\<lambda>segments status. \<lparr>rv_segments = segments, rv_status = status, rv_reversed = is_reversed, rv_signed = is_signed\<rparr>)
     in case root of
          Some root \<Rightarrow>
            (case slice_new root of
               Inr data \<Rightarrow> iter [\<lparr>vs_data = data, vs_remaining_bit_len = bit_len\<rparr>] StatusValid
             | Inl e \<Rightarrow> iter [] StatusUnexpectedCell)
        | None \<Rightarrow> iter [] StatusValid)"

fun values_seek :: "bool \<Rightarrow> bool \<Rightarrow> values_segment list \<Rightarrow> (values_segment \<times> values_segment list) option result" where
  "values_seek reverse is_signed [] = Ok None"
| "values_seek reverse is_signed (segment # segments) =
    (let is_root = (segments = [])
     in if bits_start (sl_range (vs_data segment)) = 0 then Ok (Some (segment, segments))
        else
          let refs_offset = refs_start (sl_range (vs_data segment))
          in if refs_offset < 2 then
               let next_bit = (((refs_offset \<noteq> 0) \<noteq> reverse) \<noteq> (is_signed \<and> is_root \<and> is_data_empty (vs_data segment)))
               in ok (cell_get_reference_as_slice (sl_cell (vs_data segment)) (of_bool next_bit)) (\<lambda>data.
                  let segment' = segment\<lparr>vs_data := skip_reference (vs_data segment)\<rparr>
                  in Ok (Some (\<lparr>vs_data = data, vs_remaining_bit_len = vs_remaining_bit_len segment\<rparr>, segment' # segments)))
             else values_seek reverse is_signed segments)"

partial_function (option) values_next_impl :: "bool \<Rightarrow> bool \<Rightarrow> values_segment list
    \<Rightarrow> (cell_slice option \<times> values_segment list) result option" where
  "values_next_impl reverse is_signed segments =
    (case values_seek reverse is_signed segments of
       Inl e \<Rightarrow> Some (Err e)
     | Inr None \<Rightarrow> Some (Ok (None, []))
     | Inr (Some (segment, segments)) \<Rightarrow>
         (case read_label (vs_data segment) (vs_remaining_bit_len segment) of
            Inl e \<Rightarrow> Some (Err e)
          | Inr (prefix, data) \<Rightarrow>
              if vs_remaining_bit_len segment < size_bits prefix then Some (Err CellUnderflow)
              else if vs_remaining_bit_len segment - size_bits prefix = 0 then Some (Ok (Some data, segments))
              else if size_refs data < 2 then Some (Err CellUnderflow)
              else
                values_next_impl reverse is_signed
                  (\<lparr>vs_data = data, vs_remaining_bit_len = vs_remaining_bit_len segment - size_bits prefix - 1\<rparr> # segments)))"

definition raw_values_finish :: "raw_values \<Rightarrow> raw_values" where
  "raw_values_finish it = it\<lparr>rv_status := StatusBroken\<rparr>"

definition raw_values_next :: "raw_values \<Rightarrow> (raw_values \<times> cell_slice item) option" where
  "raw_values_next it =
    (if \<not> status_is_valid (rv_status it)
     then Some (if status_is_unexpected_cell (rv_status it)
       then (it\<lparr>rv_status := StatusBroken\<rparr>, Some (Err UnexpectedExoticCell)) else (it, None))
     else case values_next_impl (rv_reversed it) (rv_signed it) (rv_segments it) of
       None \<Rightarrow> None
     | Some (Inl e) \<Rightarrow> Some (raw_values_finish it, Some (Err e))
     | Some (Inr (res, segments)) \<Rightarrow> Some (it\<lparr>rv_segments := segments\<rparr>, map_option Ok res))"

definition owned_values_next :: "raw_values \<Rightarrow> cell option \<Rightarrow> (raw_values \<times> (cell_slice_range \<times> cell) item) option" where
  "owned_values_next it root =
    (case raw_values_next it of
       None \<Rightarrow> None
     | Some (it, None) \<Rightarrow> Some (it, None)
     | Some (it, Some (Inl e)) \<Rightarrow> Some (it, Some (Err e))
     | Some (it, Some (Inr value_slice)) \<Rightarrow>
         Some (case rv_segments it of
                 segment # _ \<Rightarrow>
                   let refs_offset = refs_start (sl_range (vs_data segment))
                   in (case reference_cloned (sl_cell (vs_data segment)) (refs_offset - 1) of
                         Some cell \<Rightarrow> (it, Some (Ok (sl_range value_slice, cell)))
                       | None \<Rightarrow> (raw_values_finish it, Some (Err CellUnderflow)))
               | [] \<Rightarrow>
                   (case root of
                      Some root \<Rightarrow> (it, Some (Ok (sl_range value_slice, root)))
                    | None \<Rightarrow> (it, None))))"

end
