(* ===== verification/Dict_Iter_Props.thy ===== *)
theory Dict_Iter_Props
  imports Dict_Iter Dict_Find_Props
begin

text \<open>
  The iterators against the entries of the tree in order. A stack of segments stands for the entries that
  are still to come; a call returns the first of them and leaves a stack for the others, so an iterator
  ends after it has returned every entry once.
\<close>

section \<open>What a stack of segments stands for\<close>

text \<open>A fork at \<open>path\<close> of which \<open>i\<close> branches have been visited.\<close>

definition fork_todo :: "bool \<Rightarrow> bool \<Rightarrow> bool list \<Rightarrow> ptree \<Rightarrow> ptree \<Rightarrow> nat \<Rightarrow> (bool list \<times> dict_value) list" where
  "fork_todo rv f path l r i =
    (if i = 0 then pt_down path f (pt_entries rv False (if f then r else l)) else [])
    @ (if i \<le> 1 then pt_down path (\<not> f) (pt_entries rv False (if f then l else r)) else [])"

inductive stack_rep :: "sha256 option \<Rightarrow> nat \<Rightarrow> nat \<Rightarrow> bool \<Rightarrow> bool \<Rightarrow> iter_segment list \<Rightarrow> bool list
    \<Rightarrow> (bool list \<times> dict_value) list \<Rightarrow> bool" for K D V rv sg where
  stack_Nil: "stack_rep K D V rv sg [] [] []"
| stack_Cons: "stack_rep K D V rv sg (seg # segs) (base @ lab) (fork_todo rv (pt_first rv (sg \<and> segs = []) lab) (base @ lab) l r i @ rest)"
  if "stack_rep K D V rv sg segs path rest" "base = (if segs = [] then [] else path @ [b])" "length (base @ lab) + 1 + it_remaining_bit_len seg \<le> 1023"
    "rep K D V n c (PFork lab l r)" "it_remaining_bit_len seg = n - length lab - 1"
    "it_prefix seg = Some p" "wf_slice p" "slice_bits p = lab"
    "wf_slice (it_data seg)" "sl_cell (it_data seg) = c" "refs_start (sl_range (it_data seg)) = i" "i \<le> 2" "refs_end (sl_range (it_data seg)) = 2"

lemma stack_ConsE:
  assumes "stack_rep K D V rv sg (seg # segs) path rest"
  obtains path0 rest0 base b lab n c l r p i where
    "path = base @ lab" "rest = fork_todo rv (pt_first rv (sg \<and> segs = []) lab) (base @ lab) l r i @ rest0"
    "stack_rep K D V rv sg segs path0 rest0" "base = (if segs = [] then [] else path0 @ [b])" "length (base @ lab) + 1 + it_remaining_bit_len seg \<le> 1023"
    "rep K D V n c (PFork lab l r)" "it_remaining_bit_len seg = n - length lab - 1"
    "it_prefix seg = Some p" "wf_slice p" "slice_bits p = lab"
    "wf_slice (it_data seg)" "sl_cell (it_data seg) = c" "refs_start (sl_range (it_data seg)) = i" "i \<le> 2" "refs_end (sl_range (it_data seg)) = 2"
  using assms by (cases rule: stack_rep.cases) blast

lemma stack_rep_length: "stack_rep K D V rv sg segs path rest \<Longrightarrow> length path \<le> 1023"
  by (induction rule: stack_rep.induct) auto

lemma stack_rep_empty_path: "stack_rep K D V rv sg [] path rest \<Longrightarrow> path = [] \<and> rest = []"
  by (auto elim: stack_rep.cases)

text \<open>Reading a segment that has not been read before.\<close>

definition next_read :: "bool \<Rightarrow> bool \<Rightarrow> iter_segment \<Rightarrow> iter_segment list \<Rightarrow> cell_data_builder
    \<Rightarrow> ((cell_data_builder \<times> cell_slice) option \<times> iter_segment list \<times> cell_data_builder) result option" where
  "next_read reverse is_signed segment segments builder =
    (case read_label (it_data segment) (it_remaining_bit_len segment) of
            Inl e \<Rightarrow> Some (Err e)
          | Inr (prefix, data) \<Rightarrow>
              if it_remaining_bit_len segment < size_bits prefix then Some (Err CellUnderflow)
              else if it_remaining_bit_len segment - size_bits prefix = 0 then
                Some (ok (store_slice_data builder prefix) (\<lambda>key.
                  ok (rewind_bits builder (of_bool (segments \<noteq> []))) (\<lambda>builder.
                  Ok (Some (key, data), segments, builder))))
              else if size_refs data < 2 then Some (Err CellUnderflow)
              else
                (case store_slice_data builder prefix of
                   Inl e \<Rightarrow> Some (Err e)
                 | Inr builder \<Rightarrow>
                     next_impl reverse is_signed
                       (\<lparr>it_data = data, it_remaining_bit_len = it_remaining_bit_len segment - size_bits prefix - 1, it_prefix = Some prefix\<rparr>
                        # segments) builder))"

lemma next_impl_read:
  "next_impl rv sg segs b = (case iter_seek rv sg 0 segs b of
     Inl e \<Rightarrow> Some (Err e) | Inr None \<Rightarrow> Some (Ok (None, [], b)) | Inr (Some (seg, segs, b)) \<Rightarrow> next_read rv sg seg segs b)"
  unfolding next_impl.simps [of rv sg segs b] next_read_def by (rule refl)

lemma skip_reference_spec:
  assumes "wf_slice s" "refs_start (sl_range s) < refs_end (sl_range s)"
  shows "wf_slice (skip_reference s)" "sl_cell (skip_reference s) = sl_cell s"
    "refs_start (sl_range (skip_reference s)) = refs_start (sl_range s) + 1" "refs_end (sl_range (skip_reference s)) = refs_end (sl_range s)"
proof -
  have "skip_first s 0 1 = Ok (s\<lparr>sl_range := (sl_range s)\<lparr>refs_start := refs_start (sl_range s) + 1\<rparr>\<rparr>)"
    using assms wf_sliceD(1,2,5,6) [OF assms(1)] by (simp add: skip_first_def range_skip_first_def with_range_def)
  then have e: "skip_reference s = s\<lparr>sl_range := (sl_range s)\<lparr>refs_start := refs_start (sl_range s) + 1\<rparr>\<rparr>" by (simp add: skip_reference_def)
  show "wf_slice (skip_reference s)" using assms by (simp add: e wf_slice_def)
  show "sl_cell (skip_reference s) = sl_cell s" "refs_start (sl_range (skip_reference s)) = refs_start (sl_range s) + 1"
    "refs_end (sl_range (skip_reference s)) = refs_end (sl_range s)" by (simp_all add: e)
qed

text \<open>The branch of a fork that comes after \<open>i\<close> others.\<close>

lemma next_bit_first: "i < 2 \<Longrightarrow> (((i \<noteq> (0::nat)) \<noteq> rv) \<noteq> (sg \<and> root \<and> lab = [])) \<longleftrightarrow> (if i = 0 then pt_first rv (sg \<and> root) lab else \<not> pt_first rv (sg \<and> root) lab)"
  by (auto simp: pt_first_def)

lemma fork_todo_next:
  fixes f
  assumes "i < 2"
  defines "b \<equiv> if i = 0 then f else \<not> f"
  shows "fork_todo rv f path l r i = pt_down path b (pt_entries rv False (if b then r else l)) @ fork_todo rv f path l r (i + 1)"
proof -
  from assms(1) consider "i = 0" | "i = 1" by linarith
  then show ?thesis by cases (simp_all add: fork_todo_def b_def)
qed

text \<open>The cell that the owned iterator reaches through the top of the stack.\<close>

definition reach :: "bool \<Rightarrow> bool \<Rightarrow> cell \<Rightarrow> iter_segment list \<Rightarrow> cell \<Rightarrow> bool" where
  "reach rv sg root segs c \<longleftrightarrow>
    (case segs of
       [] \<Rightarrow> root = c
     | seg # _ \<Rightarrow> reference_cloned (sl_cell (it_data seg)) (of_bool (((refs_start (sl_range (it_data seg)) \<noteq> 1) \<noteq> rv)
         \<noteq> (sg \<and> length segs = 1 \<and> (case it_prefix seg of Some prefix \<Rightarrow> is_data_empty prefix | None \<Rightarrow> False)))) = Some c)"

section \<open>Finding the next segment\<close>

lemma rep_child_slice:
  assumes "rep K D V n c t" "n \<le> 1023"
  shows "slice_new c = Ok (slice_new_allow_exotic c)"
  by (rule read_edge [OF assms])

lemma seek_push:
  assumes "stack_rep K D V rv sg (seg # segs) path rest" "refs_start (sl_range (it_data seg)) < 2" "length ext = k" "length (path @ ext) \<le> 1023"
  obtains c n u b segs' rest' where
    "iter_seek rv sg k (seg # segs) (mk_bd (path @ ext))
      = Ok (Some (\<lparr>it_data = slice_new_allow_exotic c, it_remaining_bit_len = n, it_prefix = None\<rparr>, segs', mk_bd (path @ [b])))"
    "rep K D V n c u" "stack_rep K D V rv sg segs' path rest'" "rest = pt_down path b (pt_entries rv False u) @ rest'"
    "length path + 1 + n \<le> 1023" "segs' \<noteq> []" "n = it_remaining_bit_len seg" "reach rv sg root segs' c"
  using assms(1)
proof (cases rule: stack_ConsE)
  case (1 path0 rest0 base b0 lab n c l r p i)
  obtain lc rc where f: "cell_children c = [lc, rc]" "rep K D V (n - length lab - 1) lc l" "rep K D V (n - length lab - 1) rc r"
    "\<And>b. reference c (branch_index (branch_from b)) = Some (if b then rc else lc)"
    "\<And>b. reference_cloned c (branch_index (branch_from b)) = Some (if b then rc else lc)"
    by (rule fork_children [OF 1(6)]) (rule that)
  let ?f = "pt_first rv (sg \<and> segs = []) lab"
  let ?b = "if i = 0 then ?f else \<not> ?f"
  let ?c = "if ?b then rc else lc" and ?u = "if ?b then r else l"
  let ?seg = "seg\<lparr>it_data := skip_reference (it_data seg)\<rparr>"
  have i: "i < 2" using assms(2) 1 by simp
  have e: "is_data_empty p \<longleftrightarrow> lab = []" using 1 by (simp add: is_data_empty_iff)
  have bi: "of_bool b = branch_index (branch_from b)" for b by (simp add: branch_from_def)
  have m: "it_remaining_bit_len seg = n - length lab - 1" "length path + 1 + it_remaining_bit_len seg \<le> 1023" using 1 by simp_all
  have u: "rep K D V (it_remaining_bit_len seg) ?c ?u" using f(2,3) m by simp
  have sn: "slice_new ?c = Ok (slice_new_allow_exotic ?c)" by (rule rep_child_slice [OF u]) (use m in simp)
  have seek: "iter_seek rv sg k (seg # segs) (mk_bd (path @ ext))
      = Ok (Some (\<lparr>it_data = slice_new_allow_exotic ?c, it_remaining_bit_len = it_remaining_bit_len seg, it_prefix = None\<rparr>, ?seg # segs, mk_bd (path @ [?b])))"
    using 1 i assms(2-4) m sn f(4) next_bit_first [OF i, of rv sg "segs = []" lab]
    by (simp add: Let_def e bi cell_get_reference_as_slice_def appended_def MAX_BIT_LEN_def del: if_split)
  have s: "wf_slice (skip_reference (it_data seg))" "sl_cell (skip_reference (it_data seg)) = c"
    "refs_start (sl_range (skip_reference (it_data seg))) = i + 1" "refs_end (sl_range (skip_reference (it_data seg))) = 2"
    using skip_reference_spec [of "it_data seg"] 1 i by simp_all
  have st: "stack_rep K D V rv sg (?seg # segs) path (fork_todo rv ?f path l r (i + 1) @ rest0)"
    unfolding 1(1) by (rule stack_Cons [OF 1(3) 1(4) _ 1(6)]) (use 1 s i m in simp_all)
  have "rest = pt_down path ?b (pt_entries rv False ?u) @ (fork_todo rv ?f path l r (i + 1) @ rest0)"
    unfolding 1(1,2) by (subst fork_todo_next [OF i]) simp
  moreover have "reach rv sg root (?seg # segs) ?c"
    using 1 s f(5) next_bit_first [OF i, of rv sg "segs = []" lab] by (simp add: reach_def e bi del: if_split)
  ultimately show thesis using that [OF seek u st _ m(2)] by simp
qed


text \<open>The inner loop: segments that are done are popped, and their bits are taken off the path.\<close>

lemma seek_spec:
  assumes "stack_rep K D V rv sg segs path rest" "length ext = k" "length (path @ ext) \<le> 1023"
  shows "(rest = [] \<and> iter_seek rv sg k segs (mk_bd (path @ ext)) = Ok None)
    \<or> (\<exists>c n u b segs' path' rest'. iter_seek rv sg k segs (mk_bd (path @ ext))
          = Ok (Some (\<lparr>it_data = slice_new_allow_exotic c, it_remaining_bit_len = n, it_prefix = None\<rparr>, segs', mk_bd (path' @ [b])))
        \<and> rep K D V n c u \<and> stack_rep K D V rv sg segs' path' rest' \<and> rest = pt_down path' b (pt_entries rv False u) @ rest'
        \<and> length path' + 1 + n \<le> 1023 \<and> segs' \<noteq> [] \<and> reach rv sg root segs' c)"
  using assms
proof (induction segs arbitrary: path rest ext k)
  case Nil
  then show ?case using stack_rep_empty_path by auto
next
  case (Cons seg segs)
  show ?case
  proof (cases "refs_start (sl_range (it_data seg)) < 2")
    case True
    from seek_push [OF Cons.prems(1) True Cons.prems(2,3)] show ?thesis by metis
  next
    case False
    from Cons.prems(1) show ?thesis
    proof (cases rule: stack_ConsE)
      case (1 path0 rest0 base b lab n c l r p i)
      have i: "i = 2" using False 1 by simp
      let ?x = "(if segs = [] then [] else [b]) @ lab @ ext"
      have e: "path @ ext = path0 @ ?x" using 1(1,3,4) stack_rep_empty_path by (cases "segs = []") auto
      have r: "rest = rest0" using 1(2) i by (simp add: fork_todo_def)
      have x: "length ?x = u16_add (u16_add k (size_bits p)) (of_bool (segs \<noteq> []))"
        using Cons.prems(2,3) 1(1,4,10) length_slice_bits [of p] by (auto split: if_splits)
      have "iter_seek rv sg k (seg # segs) (mk_bd (path @ ext)) = iter_seek rv sg (length ?x) segs (mk_bd (path0 @ ?x))"
        unfolding e [symmetric] x using 1 False by (simp add: Let_def)
      moreover have "length (path0 @ ?x) \<le> 1023" using Cons.prems(3) unfolding e .
      ultimately show ?thesis using Cons.IH [OF 1(3), of ?x "length ?x"] unfolding r by simp
    qed
  qed
qed

section \<open>The next entry\<close>

declare iter_seek.simps [simp del]

text \<open>Reading down to the first leaf of a subtree; the other entries of the subtree are left on the stack.\<close>

definition shift_keys :: "bool list \<Rightarrow> (bool list \<times> dict_value) list \<Rightarrow> (bool list \<times> dict_value) list" where
  "shift_keys base = map (\<lambda>(k, v). (base @ k, v))"

lemma shift_pt_down: "shift_keys base (pt_down lab b es) = pt_down (base @ lab) b es"
  by (simp add: shift_keys_def pt_down_def case_prod_unfold comp_def)

lemma shift_keys_snoc: "shift_keys (base @ lab @ [b]) es = pt_down (base @ lab) b es"
  by (simp add: shift_keys_def pt_down_def)

lemma shift_entries_fork:
  "shift_keys base (pt_entries rv sg (PFork lab l r)) = fork_todo rv (pt_first rv sg lab) (base @ lab) l r 0"
  by (simp add: fork_todo_def shift_keys_def pt_down_def case_prod_unfold comp_def)

text \<open>A returned value is a slice that can be read and stored again.\<close>

definition item_ok :: "nat \<Rightarrow> nat \<Rightarrow> cell_slice \<Rightarrow> bool" where
  "item_ok D V s \<longleftrightarrow> wf_slice s \<and> \<not> is_virtual (sl_cell s) \<and> value_ok D V (slice_value s)"

lemma leaf_item_ok:
  assumes "rep K D V n c (PLeaf lab vb vr)" "wf_slice s" "sl_cell s = c" "slice_value s = (vb, cell_children c)"
  shows "item_ok D V s"
proof -
  have h: "holds c (cell_bits c) vr" "length vb \<le> V" "list_all (depth_le D) vr" using assms(1) by simp_all
  then show ?thesis
    using assms(2-4) holds_not_virtual [OF h(1)] holds_refs_wf [OF h(1)] holds_length(2) [OF h(1)]
    by (simp add: item_ok_def value_ok_def holds_def)
qed

lemma next_read_spec:
  assumes "rep K D V n c u" "stack_rep K D V rv sg segs path rest" "base = (if segs = [] then [] else path @ [b])" "length base + n \<le> 1023"
    "reach rv sg root segs c"
  shows "\<exists>k s segs' path' rest'. next_read rv sg \<lparr>it_data = slice_new_allow_exotic c, it_remaining_bit_len = n, it_prefix = None\<rparr> segs (mk_bd base)
      = Some (Ok (Some (mk_bd k, s), segs', mk_bd path'))
    \<and> stack_rep K D V rv sg segs' path' rest' \<and> shift_keys base (pt_entries rv (sg \<and> segs = []) u) @ rest = (k, slice_value s) # rest'
    \<and> length k \<le> 1023 \<and> reach rv sg root segs' (sl_cell s) \<and> item_ok D V s"
  using assms
proof (induction n arbitrary: c u segs path rest base b rule: less_induct)
  case (less n)
  show ?case
  proof (cases u)
    case (PLeaf lab vb vr)
    obtain l s where e: "read_label (slice_new_allow_exotic c) n = Ok (l, s)"
      "size_bits l = length lab" "wf_slice l" "slice_bits l = lab" "slice_value s = (vb, cell_children c)" "sl_cell s = c" "wf_slice s"
      by (rule visit_edge [OF less.prems(1,4)]) (simp add: PLeaf)
    have n: "length lab = n" using less.prems(1) by (simp add: PLeaf)
    have p: "take (length base - of_bool (segs \<noteq> [])) base = path"
    proof (cases "segs = []")
      case True
      then show ?thesis using stack_rep_empty_path [of K D V rv sg path rest] less.prems(2,3) by simp
    qed (simp add: less.prems(3))
    have "next_read rv sg \<lparr>it_data = slice_new_allow_exotic c, it_remaining_bit_len = n, it_prefix = None\<rparr> segs (mk_bd base)
        = Some (Ok (Some (mk_bd (base @ lab), s), segs, mk_bd path))"
      using e n less.prems(3,4) p by (auto simp: next_read_def appended_def MAX_BIT_LEN_def)
    note nr = this
    show ?thesis
      by (rule exI [of _ "base @ lab"], rule exI [of _ s], rule exI [of _ segs], rule exI [of _ path], rule exI [of _ rest])
        (insert nr less.prems(1,2,4,5) e(5,6) n rep_leaf_children [of K D V n c lab vb vr] leaf_item_ok [OF less.prems(1) [unfolded PLeaf] e(7,6,5)],
          simp add: shift_keys_def PLeaf)
  next
    case (PFork lab l r)
    obtain la s where e: "read_label (slice_new_allow_exotic c) n = Ok (la, s)" "size_bits la = length lab" "wf_slice la" "slice_bits la = lab"
      "wf_slice s" "size_refs s = length (cell_children c)" "sl_cell s = c"
      by (rule visit_edge [OF less.prems(1,4)]) (simp add: PFork)
    obtain lc rc where f: "cell_children c = [lc, rc]" "cell_reference_count c = 2"
      by (rule fork_children [OF less.prems(1) [unfolded PFork]]) (rule that)
    have n: "length lab < n" using less.prems(1) by (simp add: PFork)
    let ?seg = "\<lparr>it_data = s, it_remaining_bit_len = n - length lab - 1, it_prefix = Some la\<rparr>"
    have "refs_end (sl_range s) - refs_start (sl_range s) = 2" "refs_end (sl_range s) \<le> 2"
      using e(5-7) f by (simp_all add: size_refs_eq wf_slice_def)
    then have w: "refs_start (sl_range s) = 0" "refs_end (sl_range s) = 2" by linarith+
    have st: "stack_rep K D V rv sg (?seg # segs) (base @ lab) (shift_keys base (pt_entries rv (sg \<and> segs = []) u) @ rest)"
      unfolding PFork shift_entries_fork
      by (rule stack_Cons [OF less.prems(2,3) _ less.prems(1) [unfolded PFork]]) (use e w n less.prems(4) in simp_all)
    obtain c' n' u' b' segs' rest' where
      k: "iter_seek rv sg 0 (?seg # segs) (mk_bd (base @ lab))
        = Ok (Some (\<lparr>it_data = slice_new_allow_exotic c', it_remaining_bit_len = n', it_prefix = None\<rparr>, segs', mk_bd ((base @ lab) @ [b'])))"
      "rep K D V n' c' u'" "stack_rep K D V rv sg segs' (base @ lab) rest'"
      "shift_keys base (pt_entries rv (sg \<and> segs = []) u) @ rest = pt_down (base @ lab) b' (pt_entries rv False u') @ rest'"
      "length (base @ lab) + 1 + n' \<le> 1023" "segs' \<noteq> []" "n' = n - length lab - 1" "reach rv sg root segs' c'"
      by (rule seek_push [OF st, of "[]" 0 root]) (use w less.prems(4) n in auto)
    have "next_read rv sg \<lparr>it_data = slice_new_allow_exotic c, it_remaining_bit_len = n, it_prefix = None\<rparr> segs (mk_bd base)
        = next_read rv sg \<lparr>it_data = slice_new_allow_exotic c', it_remaining_bit_len = n', it_prefix = None\<rparr> segs' (mk_bd ((base @ lab) @ [b']))"
      using e f(1) n k(1) less.prems(4) unfolding next_read_def [of rv sg _ segs] next_impl_read by (simp add: appended_def MAX_BIT_LEN_def)
    moreover have "n' < n" using k(7) n by simp
    ultimately show ?thesis
      using less.IH [OF _ k(2,3), of "(base @ lab) @ [b']" b'] k(4-6,8) shift_keys_snoc [of base lab b'] by simp
  qed
qed

text \<open>One call on a stack.\<close>

lemma next_impl_spec:
  assumes "stack_rep K D V rv sg segs path rest"
  shows "if rest = [] then next_impl rv sg segs (mk_bd path) = Some (Ok (None, [], mk_bd path))
    else \<exists>k s segs' path' rest'. next_impl rv sg segs (mk_bd path) = Some (Ok (Some (mk_bd k, s), segs', mk_bd path'))
      \<and> stack_rep K D V rv sg segs' path' rest' \<and> rest = (k, slice_value s) # rest' \<and> length k \<le> 1023 \<and> reach rv sg root segs' (sl_cell s) \<and> item_ok D V s"
proof -
  have "length ([] :: bool list) = 0" "length (path @ []) \<le> 1023" using stack_rep_length [OF assms] by simp_all
  from seek_spec [OF assms this, of root] show ?thesis
  proof (elim disjE exE conjE)
    fix c n u b segs' path' rest'
    assume k: "iter_seek rv sg 0 segs (mk_bd (path @ []))
          = Ok (Some (\<lparr>it_data = slice_new_allow_exotic c, it_remaining_bit_len = n, it_prefix = None\<rparr>, segs', mk_bd (path' @ [b])))"
      "rep K D V n c u" "stack_rep K D V rv sg segs' path' rest'" "rest = pt_down path' b (pt_entries rv False u) @ rest'"
      "length path' + 1 + n \<le> 1023" "segs' \<noteq> []" "reach rv sg root segs' c"
    have "shift_keys (path' @ [b]) (pt_entries rv False u) @ rest' = rest" using k(4) shift_keys_snoc [of path' "[]" b] by simp
    then show ?thesis
      using next_read_spec [OF k(2,3), of "path' @ [b]" b root] k(1,5,6,7) unfolding next_impl_read by auto
  qed (auto simp: next_impl_read)
qed

section \<open>The whole iteration\<close>

text \<open>The items of an iterator that ends without an error.\<close>

inductive iterates :: "('s \<Rightarrow> ('s \<times> 'a item) option) \<Rightarrow> 's \<Rightarrow> 'a list \<Rightarrow> bool" for next_item where
  iterates_end: "next_item it = Some (it', None) \<Longrightarrow> iterates next_item it []"
| iterates_step: "next_item it = Some (it', Some (Ok x)) \<Longrightarrow> iterates next_item it' xs \<Longrightarrow> iterates next_item it (x # xs)"

inductive_cases iterates_NilE: "iterates next_item it []"
inductive_cases iterates_ConsE: "iterates next_item it (x # xs)"

text \<open>An iterator that has the entries \<open>rest\<close> still to return.\<close>

definition iter_rep :: "sha256 option \<Rightarrow> nat \<Rightarrow> nat \<Rightarrow> cell \<Rightarrow> raw_iter \<Rightarrow> (bool list \<times> dict_value) list \<Rightarrow> bool" where
  "iter_rep K D V root it rest \<longleftrightarrow> ri_status it = StatusValid
    \<and> ((\<exists>path. ri_builder it = mk_bd path \<and> stack_rep K D V (ri_reversed it) (ri_signed it) (ri_segments it) path rest)
       \<or> (\<exists>n u. ri_builder it = mk_bd [] \<and> rep K D V n root u \<and> n \<le> 1023 \<and> rest = pt_entries (ri_reversed it) (ri_signed it) u
            \<and> ri_segments it = [\<lparr>it_data = slice_new_allow_exotic root, it_remaining_bit_len = n, it_prefix = None\<rparr>]))"

lemma iter_rep_returns:
  assumes "ri_status it = StatusValid"
    and "next_impl (ri_reversed it) (ri_signed it) (ri_segments it) (ri_builder it) = Some (Ok (Some (mk_bd k, s), segs', mk_bd path'))"
    and "stack_rep K D V (ri_reversed it) (ri_signed it) segs' path' rest'"
  shows "\<exists>it'. raw_iter_next it = Some (it', Some (Ok (mk_bd k, s))) \<and> iter_rep K D V root it' rest' \<and> ri_segments it' = segs'
    \<and> ri_reversed it' = ri_reversed it \<and> ri_signed it' = ri_signed it"
  using assms by (intro exI [of _ "it\<lparr>ri_segments := segs', ri_builder := mk_bd path'\<rparr>"])
    (auto simp: raw_iter_next_def status_is_valid_def iter_rep_def)

lemma iter_rep_next:
  assumes "iter_rep K D V root it rest"
  shows "if rest = [] then \<exists>it'. raw_iter_next it = Some (it', None)
    else \<exists>k s it' rest'. raw_iter_next it = Some (it', Some (Ok (mk_bd k, s))) \<and> iter_rep K D V root it' rest'
      \<and> rest = (k, slice_value s) # rest' \<and> length k \<le> 1023
      \<and> reach (ri_reversed it') (ri_signed it') root (ri_segments it') (sl_cell s) \<and> item_ok D V s"
  using assms [unfolded iter_rep_def]
proof (elim conjE disjE exE)
  fix path assume v: "ri_status it = StatusValid" "ri_builder it = mk_bd path"
    and st: "stack_rep K D V (ri_reversed it) (ri_signed it) (ri_segments it) path rest"
  show ?thesis
    using next_impl_spec [OF st, of root] v
      iter_rep_returns [where it = it and root = root and K = K and D = D and V = V]
    by (cases "rest = []") (simp add: raw_iter_next_def status_is_valid_def, fastforce)
next
  fix n u assume v: "ri_status it = StatusValid" "ri_builder it = mk_bd []" and u: "rep K D V n root u" "n \<le> 1023"
    "rest = pt_entries (ri_reversed it) (ri_signed it) u"
    "ri_segments it = [\<lparr>it_data = slice_new_allow_exotic root, it_remaining_bit_len = n, it_prefix = None\<rparr>]"
  have r: "next_impl (ri_reversed it) (ri_signed it) (ri_segments it) (mk_bd [])
      = next_read (ri_reversed it) (ri_signed it) \<lparr>it_data = slice_new_allow_exotic root, it_remaining_bit_len = n, it_prefix = None\<rparr> [] (mk_bd [])"
    by (simp add: next_impl_read u(4) iter_seek.simps)
  have "shift_keys [] es = es" for es by (simp add: shift_keys_def)
  then obtain k s segs' path' rest' where
    "next_impl (ri_reversed it) (ri_signed it) (ri_segments it) (mk_bd []) = Some (Ok (Some (mk_bd k, s), segs', mk_bd path'))"
    "stack_rep K D V (ri_reversed it) (ri_signed it) segs' path' rest'" "rest = (k, slice_value s) # rest'" "length k \<le> 1023"
    "reach (ri_reversed it) (ri_signed it) root segs' (sl_cell s)" "item_ok D V s"
    using next_read_spec [OF u(1) stack_Nil, where base = "[]" and root = root and rv = "ri_reversed it" and sg = "ri_signed it"] u(2,3) unfolding r by (auto simp: reach_def [of _ _ _ "[]"])
  then show ?thesis using iter_rep_returns [of it k s segs' path' K D V rest' root] v by auto
qed

lemma next_owned_reach:
  assumes "raw_iter_next it = Some (it', Some (Ok (k, s)))" "reach (ri_reversed it') (ri_signed it') root (ri_segments it') (sl_cell s)"
  shows "next_owned it (Some root) = Some (it', Some (Ok (k, sl_range s, sl_cell s)))"
  using assms by (cases "ri_segments it'") (simp_all add: next_owned_def reach_def Let_def)

text \<open>The three iterators return the same entries.\<close>

lemma iter_rep_iterates:
  "iter_rep K D V root it rest \<Longrightarrow> \<exists>xs. iterates raw_iter_next it xs \<and> rest = map (\<lambda>(k, s). (bd_bits k, slice_value s)) xs
    \<and> iterates (\<lambda>it. next_owned it (Some root)) it (map (\<lambda>(k, s). (k, sl_range s, sl_cell s)) xs) \<and> iterates raw_keys_next it (map fst xs)
    \<and> list_all (\<lambda>(k, s). bd_wf k \<and> item_ok D V s) xs"
proof (induction rest arbitrary: it)
  case Nil
  then obtain it' where n: "raw_iter_next it = Some (it', None)" using iter_rep_next [OF Nil] by auto
  then have "next_owned it (Some root) = Some (it', None)" "raw_keys_next it = Some (it', None)"
    by (simp_all add: next_owned_def raw_keys_next_def)
  then show ?case using n by (auto intro!: exI [of _ "[]"] iterates_end)
next
  case (Cons e rest)
  from iter_rep_next [OF Cons.prems] obtain k s it' where n: "raw_iter_next it = Some (it', Some (Ok (mk_bd k, s)))"
    "iter_rep K D V root it' rest" "e = (k, slice_value s)" "length k \<le> 1023"
    "reach (ri_reversed it') (ri_signed it') root (ri_segments it') (sl_cell s)" "item_ok D V s" by auto
  from Cons.IH [OF n(2)] obtain xs where xs: "iterates raw_iter_next it' xs" "rest = map (\<lambda>(k, s). (bd_bits k, slice_value s)) xs"
    "iterates (\<lambda>it. next_owned it (Some root)) it' (map (\<lambda>(k, s). (k, sl_range s, sl_cell s)) xs)" "iterates raw_keys_next it' (map fst xs)"
    "list_all (\<lambda>(k, s). bd_wf k \<and> item_ok D V s) xs" by blast
  have "raw_keys_next it = Some (it', Some (Ok (mk_bd k)))" by (simp add: raw_keys_next_def n(1))
  then show ?case
    using iterates_step [of raw_iter_next, OF n(1) xs(1)] iterates_step [where next_item = "\<lambda>it. next_owned it (Some root)", OF next_owned_reach [OF n(1,5)] xs(3)]
      iterates_step [of raw_keys_next, OF _ xs(4)] n(3,4,6) xs(2,5)
    by (intro exI [of _ "(mk_bd k, s) # xs"]) simp
qed

lemma raw_iter_new_rep:
  assumes "rep K D V n c t" "n \<le> 1023"
  shows "iter_rep K D V c (raw_iter_new_ext (Some c) n rv sg) (pt_entries rv sg t)"
  using rep_child_slice [OF assms] assms by (auto simp: iter_rep_def raw_iter_new_ext_def bd_new_mk)

lemma raw_iter_stores:
  assumes "stores K D V n d m" "n \<le> 1023"
  shows "\<exists>xs. iterates raw_iter_next (raw_iter_new_ext d n rv sg) xs
    \<and> sorted_wrt (in_order rv sg) (map (\<lambda>(k, s). (bd_bits k, slice_value s)) xs)
    \<and> (\<forall>k v. (k, v) \<in> set (map (\<lambda>(k, s). (bd_bits k, slice_value s)) xs) \<longleftrightarrow> m k = Some v)
    \<and> iterates (\<lambda>it. next_owned it d) (raw_iter_new_ext d n rv sg) (map (\<lambda>(k, s). (k, sl_range s, sl_cell s)) xs)
    \<and> iterates raw_keys_next (raw_iter_new_ext d n rv sg) (map fst xs)
    \<and> list_all (\<lambda>(k, s). bd_wf k \<and> item_ok D V s) xs"
proof (cases d)
  case None
  let ?it = "raw_iter_new_ext None n rv sg"
  have "raw_iter_next ?it = Some (?it, None)"
    by (simp add: raw_iter_next_def raw_iter_new_ext_def status_is_valid_def next_impl_read iter_seek.simps)
  moreover from this have "next_owned ?it None = Some (?it, None)" "raw_keys_next ?it = Some (?it, None)"
    by (simp_all add: next_owned_def raw_keys_next_def)
  ultimately have "iterates raw_iter_next ?it []" "iterates (\<lambda>it. next_owned it None) ?it []" "iterates raw_keys_next ?it []"
    by (auto intro!: iterates_end)
  then show ?thesis using assms(1) None by (auto simp: stores_None intro!: exI [of _ "[]"])
next
  case (Some c)
  obtain t where t: "rep K D V n c t" "pt_lookup t = m" using assms(1) unfolding Some by (rule stores_Some)
  from iter_rep_iterates [OF raw_iter_new_rep [OF t(1) assms(2), of rv sg]] obtain xs where
    xs: "iterates raw_iter_next (raw_iter_new_ext (Some c) n rv sg) xs" "pt_entries rv sg t = map (\<lambda>(k, s). (bd_bits k, slice_value s)) xs"
      "iterates (\<lambda>it. next_owned it (Some c)) (raw_iter_new_ext (Some c) n rv sg) (map (\<lambda>(k, s). (k, sl_range s, sl_cell s)) xs)"
      "iterates raw_keys_next (raw_iter_new_ext (Some c) n rv sg) (map fst xs)" "list_all (\<lambda>(k, s). bd_wf k \<and> item_ok D V s) xs" by blast
  show ?thesis
    using xs(1,3-5) sorted_pt_entries [of rv sg t] set_pt_entries [of _ _ rv sg t] t(2) unfolding xs(2) Some by blast
qed

end
