(* ===== verification/Dict_Values.thy ===== *)
theory Dict_Values
  imports Dict_Iter_Props
begin

text \<open>
  The iterators over the values. For unsigned keys they go the way of the iterator over the entries. For
  signed keys the order at the root is wrong unless its label is empty, and the owned values are wrong
  in descending order: both are shown on small dictionaries.
\<close>

section \<open>A simulation\<close>

definition values_conv :: "iter_segment \<Rightarrow> values_segment" where
  "values_conv seg = \<lparr>vs_data = it_data seg, vs_remaining_bit_len = it_remaining_bit_len seg\<rparr>"

text \<open>The values iterator recognises a segment that has been read by its offset.\<close>

definition conv_ok :: "iter_segment \<Rightarrow> bool" where
  "conv_ok seg \<longleftrightarrow> wf_slice (it_data seg) \<and> wf_cell (sl_cell (it_data seg)) \<and> it_remaining_bit_len seg \<le> 1023
     \<and> (it_prefix seg = None \<longleftrightarrow> bits_start (sl_range (it_data seg)) = 0)"

lemma split_at_length: "split_at m xs = Some (a, r) \<Longrightarrow> length r \<le> length xs"
  by (auto simp: split_at_def split: if_splits)

lemma parse_label_consumes: "parse_label n bs = Some (lab, rest) \<Longrightarrow> 0 < n \<Longrightarrow> length rest < length bs"
  by (induction n bs rule: parse_label.induct)
     (auto simp: Let_def parse_len_def split: if_splits option.splits dest!: split_at_length)

lemma read_label_moves:
  assumes "read_label s n = Ok (l, s')" "wf_slice s" "0 < n" "n \<le> 1023" "bits_start (sl_range s) = 0"
  shows "wf_slice s'" "sl_cell s' = sl_cell s" "0 < bits_start (sl_range s')"
proof -
  note r = read_label_spec [OF assms(2,4), unfolded assms(1) label_result_def]
  then obtain lab rest where p: "parse_label n (slice_bits s) = Some (lab, rest)" by (cases "parse_label n (slice_bits s)") auto
  from r p obtain k where k: "s' = advance s k" "k \<le> size_bits s" "drop k (slice_bits s) = rest" by auto
  have "0 < k" using parse_label_consumes [OF p assms(3)] k(3) by (cases k) auto
  moreover have "size_bits s \<le> 1023" by (rule wf_sliceD(7) [OF assms(2)])
  ultimately show "0 < bits_start (sl_range s')" using k(1,2) assms(5) by (simp add: advance_def)
  show "wf_slice s'" "sl_cell s' = sl_cell s" using k(1,2) assms(2) by (simp_all add: wf_advance)
qed

lemma conv_ok_child:
  assumes "wf_cell c" "cell_get_reference_as_slice c i = Ok s" "n \<le> 1023"
  shows "conv_ok \<lparr>it_data = s, it_remaining_bit_len = n, it_prefix = None\<rparr>"
proof -
  obtain c' where c: "reference c i = Some c'" "slice_new c' = Ok s"
    using assms(2) by (auto simp: cell_get_reference_as_slice_def split: option.splits)
  have "wf_cell c'" using wf_cell_children(3,4) [OF assms(1)] c(1) by (auto simp: nth_opt_def list_all_iff split: if_splits)
  moreover have "s = slice_new_allow_exotic c'" using c(2) by (auto simp: slice_new_def slice_new_allow_exotic_def split: if_splits)
  moreover have "bits_start (sl_range (slice_new_allow_exotic c')) = 0" "sl_cell (slice_new_allow_exotic c') = c'"
    by (simp_all add: slice_new_allow_exotic_def range_full_def)
  ultimately show ?thesis using assms(3) by (simp add: conv_ok_def wf_cell_shape_ok)
qed

lemma conv_ok_skip:
  assumes "conv_ok seg" "it_prefix seg = Some p"
  shows "conv_ok (seg\<lparr>it_data := skip_reference (it_data seg)\<rparr>)"
proof -
  have s: "skip_reference (it_data seg) = it_data seg \<or> refs_start (sl_range (it_data seg)) < refs_end (sl_range (it_data seg))"
    using wf_sliceD(1,2,5,6) [of "it_data seg"] assms(1)
    by (auto simp: skip_reference_def skip_first_def range_skip_first_def with_range_def conv_ok_def split: sum.splits if_splits)
  moreover have "bits_start (sl_range (skip_reference (it_data seg))) = bits_start (sl_range (it_data seg))"
    using wf_sliceD(1,2) [of "it_data seg"] assms(1)
    by (auto simp: skip_reference_def skip_first_def range_skip_first_def with_range_def conv_ok_def split: sum.splits)
  ultimately show ?thesis using assms skip_reference_spec [of "it_data seg"] by (auto simp: conv_ok_def)
qed

lemma values_seek_sim:
  assumes "list_all conv_ok segs" "iter_seek rv False k segs b = Ok res"
  shows "values_seek rv False (map values_conv segs) = Ok (map_option (\<lambda>(seg, segs, b). (values_conv seg, map values_conv segs)) res)
    \<and> (case res of None \<Rightarrow> True | Some (seg, segs, b) \<Rightarrow> it_prefix seg = None \<and> list_all conv_ok (seg # segs))"
  using assms
proof (induction segs arbitrary: k)
  case (Cons seg segs)
  show ?case
  proof (cases "it_prefix seg")
    case None
    then have "bits_start (sl_range (it_data seg)) = 0" using Cons.prems(1) by (simp add: conv_ok_def)
    then show ?thesis using Cons.prems None by (auto simp: iter_seek.simps values_conv_def)
  next
    case (Some p)
    have o: "bits_start (sl_range (it_data seg)) \<noteq> 0" using Cons.prems(1) Some by (simp add: conv_ok_def)
    let ?i = "refs_start (sl_range (it_data seg))"
    show ?thesis
    proof (cases "?i < 2")
      case True
      let ?b = "(?i \<noteq> 0) \<noteq> rv"
      from Cons.prems(2) True Some obtain data b1 b2 where
        d: "cell_get_reference_as_slice (sl_cell (it_data seg)) (of_bool ?b) = Ok data"
          "res = Some (\<lparr>it_data = data, it_remaining_bit_len = it_remaining_bit_len seg, it_prefix = None\<rparr>,
             seg\<lparr>it_data := skip_reference (it_data seg)\<rparr> # segs, b2)"
        by (auto simp: iter_seek.simps Let_def elim!: ok_eq_OkE)
      show ?thesis
        using d o True Cons.prems(1) conv_ok_skip [of seg p] Some conv_ok_child [OF _ d(1), of "it_remaining_bit_len seg"]
        by (simp add: values_conv_def Let_def conv_ok_def [of seg])
    next
      case False
      then have "iter_seek rv False (u16_add (u16_add k (size_bits p)) (of_bool (segs \<noteq> []))) segs b = Ok res"
        using Cons.prems(2) Some by (simp add: iter_seek.simps Let_def)
      from Cons.IH [OF _ this] show ?thesis using False o Cons.prems(1) by (simp add: values_conv_def)
    qed
  qed
qed (auto simp: iter_seek.simps)

lemma values_next_impl_sim:
  "next_impl rv sg segs b = Some y \<Longrightarrow> \<not> sg \<longrightarrow> list_all conv_ok segs \<longrightarrow> (\<forall>res segs' b'. y = Ok (res, segs', b') \<longrightarrow>
     values_next_impl rv False (map values_conv segs) = Some (Ok (map_option snd res, map values_conv segs')) \<and> list_all conv_ok segs')"
proof (induction rule: next_impl.raw_induct [rotated, consumes 1])
  case (1 f rv sg segs b y)
  show ?case
  proof (intro impI allI)
    fix res segs' b' assume sg: "\<not> sg" and ok: "list_all conv_ok segs" and y: "y = Ok (res, segs', b')"
    from 1(2) [unfolded y] sg obtain r where s: "iter_seek rv False 0 segs b = Ok r"
      by (cases "iter_seek rv False 0 segs b") auto
    note v = values_seek_sim [OF ok s]
    show "values_next_impl rv False (map values_conv segs) = Some (Ok (map_option snd res, map values_conv segs')) \<and> list_all conv_ok segs'"
    proof (cases r)
      case None
      then show ?thesis using 1(2) [unfolded y] sg s v by (subst values_next_impl.simps) simp
    next
      case (Some q)
      obtain seg sgs b1 where q: "q = (seg, sgs, b1)" by (cases q) auto
      note v = v [unfolded Some q, simplified]
      let ?n = "it_remaining_bit_len seg"
      have seg: "it_prefix seg = None" "conv_ok seg" "list_all conv_ok sgs" "?n \<le> 1023" "wf_slice (it_data seg)" "bits_start (sl_range (it_data seg)) = 0"
        using v by (auto simp: conv_ok_def)
      from 1(2) [unfolded y] sg s Some q obtain p data where l: "read_label (it_data seg) ?n = Ok (p, data)"
        by (cases "read_label (it_data seg) ?n") auto
      show ?thesis
      proof (cases "?n - size_bits p = 0 \<and> \<not> ?n < size_bits p")
        case True
        then obtain key where "res = Some (key, data)" "segs' = sgs"
          using 1(2) [unfolded y] sg s Some q l by (auto elim!: ok_eq_OkE)
        then show ?thesis
          using True v l by (subst values_next_impl.simps) (auto simp: values_conv_def)
      next
        case False
        then have n: "\<not> ?n < size_bits p" "?n - size_bits p \<noteq> 0" "\<not> size_refs data < 2" "0 < ?n"
          using 1(2) [unfolded y] sg s Some q l by (auto split: if_splits)
        from 1(2) [unfolded y] sg s Some q l n obtain b2 where b2: "store_slice_data b1 p = Ok b2"
          "f rv sg (\<lparr>it_data = data, it_remaining_bit_len = ?n - size_bits p - 1, it_prefix = Some p\<rparr> # sgs) b2 = Some (Ok (res, segs', b'))"
          by (cases "store_slice_data b1 p") auto
        let ?seg = "\<lparr>it_data = data, it_remaining_bit_len = ?n - size_bits p - 1, it_prefix = Some p\<rparr>"
        have "conv_ok ?seg" using read_label_moves [OF l seg(5) n(4) seg(4,6)] seg(2,4) by (simp add: conv_ok_def)
        with 1(1) [OF b2(2)] sg seg(3) y have
          "values_next_impl rv False (map values_conv (?seg # sgs)) = Some (Ok (map_option snd res, map values_conv segs')) \<and> list_all conv_ok segs'"
          by simp
        then show ?thesis
          using v l n by (subst values_next_impl.simps) (simp add: values_conv_def)
      qed
    qed
  qed
qed

section \<open>The values of a dictionary\<close>

definition values_sim :: "raw_iter \<Rightarrow> raw_values \<Rightarrow> bool" where
  "values_sim it iv \<longleftrightarrow> ri_status it = StatusValid \<and> rv_status iv = StatusValid \<and> rv_reversed iv = ri_reversed it
     \<and> \<not> ri_signed it \<and> \<not> rv_signed iv \<and> rv_segments iv = map values_conv (ri_segments it) \<and> list_all conv_ok (ri_segments it)"

lemma values_sim_next:
  assumes "values_sim it iv" "raw_iter_next it = Some (it', item)" "\<And>e. item \<noteq> Some (Err e)"
  obtains iv' where "raw_values_next iv = Some (iv', map_option (\<lambda>r. ok r (\<lambda>(k, s). Ok s)) item)" "values_sim it' iv'" "ri_reversed it' = ri_reversed it"
proof -
  note sim = assms(1) [unfolded values_sim_def]
  from assms(2,3) sim obtain res segs' b' where n: "next_impl (ri_reversed it) False (ri_segments it) (ri_builder it) = Some (Ok (res, segs', b'))"
    "it' = it\<lparr>ri_segments := segs', ri_builder := b'\<rparr>" "item = map_option Ok res"
    by (auto simp: raw_iter_next_def status_is_valid_def split: option.splits sum.splits)
  from values_next_impl_sim [OF n(1)] sim have
    v: "values_next_impl (ri_reversed it) False (rv_segments iv) = Some (Ok (map_option snd res, map values_conv segs'))" "list_all conv_ok segs'"
    by simp_all
  show thesis
    by (rule that [of "iv\<lparr>rv_segments := map values_conv segs'\<rparr>"])
      (use sim n v in \<open>auto simp: raw_values_next_def status_is_valid_def values_sim_def option.map_comp comp_def case_prod_unfold split: option.splits\<close>)
qed

lemma values_sim_iterates:
  "iterates raw_iter_next it xs \<Longrightarrow> values_sim it iv \<Longrightarrow> iterates raw_values_next iv (map snd xs)"
proof (induction arbitrary: iv rule: iterates.induct)
  case (iterates_end it it')
  show ?case by (rule values_sim_next [OF iterates_end(2,1)]) (auto intro: iterates.iterates_end)
next
  case (iterates_step it it' x xs)
  obtain iv' where "raw_values_next iv = Some (iv', Some (Ok (snd x)))" "values_sim it' iv'"
    by (rule values_sim_next [OF iterates_step(4,1)]) (auto simp: case_prod_unfold)
  then show ?case using iterates_step(3) by (auto intro: iterates.iterates_step)
qed

lemma values_sim_new:
  assumes "rep K D V n c t" "n \<le> 1023"
  shows "values_sim (raw_iter_new_ext (Some c) n rv False) (raw_values_new_ext (Some c) n rv False)"
proof -
  have w: "wf_cell c" using rep_edge(1) [OF assms(1)] by (simp add: holds_def)
  have "bits_start (sl_range (slice_new_allow_exotic c)) = 0" "sl_cell (slice_new_allow_exotic c) = c"
    by (simp_all add: slice_new_allow_exotic_def range_full_def)
  then show ?thesis
    using rep_child_slice [OF assms] assms(2) w
    by (simp add: values_sim_def raw_iter_new_ext_def raw_values_new_ext_def Let_def conv_ok_def values_conv_def wf_cell_shape_ok)
qed

lemma raw_values_stores:
  assumes "stores K D V n d m" "n \<le> 1023"
  shows "\<exists>xs. iterates raw_iter_next (raw_iter_new_ext d n rv False) xs
    \<and> iterates raw_values_next (raw_values_new_ext d n rv False) (map snd xs)"
proof (cases d)
  case None
  let ?it = "raw_iter_new_ext None n rv False" and ?iv = "raw_values_new_ext None n rv False"
  have "raw_iter_next ?it = Some (?it, None)"
    by (simp add: raw_iter_next_def raw_iter_new_ext_def status_is_valid_def next_impl_read iter_seek.simps)
  moreover have "raw_values_next ?iv = Some (?iv, None)"
    by (simp add: raw_values_next_def raw_values_new_ext_def status_is_valid_def values_next_impl.simps)
  ultimately show ?thesis using None by (auto intro!: exI [of _ "[]"] iterates_end)
next
  case (Some c)
  obtain t where t: "rep K D V n c t" using assms(1) unfolding Some by (rule stores_Some)
  from iter_rep_iterates [OF raw_iter_new_rep [OF t assms(2), of rv False]] obtain xs where
    "iterates raw_iter_next (raw_iter_new_ext (Some c) n rv False) xs" by blast
  then show ?thesis using values_sim_iterates [OF _ values_sim_new [OF t assms(2)]] Some by blast
qed

section \<open>Two errors\<close>

text \<open>The first value of a dictionary of two entries.\<close>

lemma first_value:
  assumes "rep K D V n c (PFork lab (PLeaf la va ra) (PLeaf lb vb rb))" "n \<le> 1023" "0 < n"
  obtains iv s lc rc where "raw_values_next (raw_values_new_ext (Some c) n rv sg) = Some (iv, Some (Ok s))"
    "slice_value s = (if rv \<noteq> sg then (vb, rb) else (va, ra))" "sl_cell s = (if rv \<noteq> sg then rc else lc)"
    "cell_children c = [lc, rc]" "rep K D V (n - length lab - 1) lc (PLeaf la va ra)" "rep K D V (n - length lab - 1) rc (PLeaf lb vb rb)"
    "\<exists>seg. rv_segments iv = [seg] \<and> sl_cell (vs_data seg) = c \<and> refs_start (sl_range (vs_data seg)) = 1" "reference_cloned c 0 = Some lc"
proof -
  obtain la' s where e: "slice_new c = Ok (slice_new_allow_exotic c)" "read_label (slice_new_allow_exotic c) n = Ok (la', s)"
    "size_bits la' = length lab" "wf_slice s" "slice_value s = ([], cell_children c)" "size_refs s = length (cell_children c)" "sl_cell s = c"
    by (rule visit_edge [OF assms(1), of "[]"]) (use assms(2) in auto)
  obtain lc rc where f: "cell_children c = [lc, rc]" "rep K D V (n - length lab - 1) lc (PLeaf la va ra)" "rep K D V (n - length lab - 1) rc (PLeaf lb vb rb)"
    "\<And>b. reference c (branch_index (branch_from b)) = Some (if b then rc else lc)" "cell_reference_count c = 2"
    "\<And>b. reference_cloned c (branch_index (branch_from b)) = Some (if b then rc else lc)"
    by (rule fork_children [OF assms(1)]) (rule that)
  have n: "length lab < n" using assms(1) by simp
  have w: "wf_slice (slice_new_allow_exotic c)" "bits_start (sl_range (slice_new_allow_exotic c)) = 0"
    using rep_edge(1) [OF assms(1)] by (simp add: holds_def wf_cell_shape_ok) (simp add: slice_new_allow_exotic_def range_full_def)
  note mv = read_label_moves [OF e(2) w(1) assms(3,2) w(2)]
  have "refs_end (sl_range s) - refs_start (sl_range s) = 2" "refs_end (sl_range s) \<le> 2"
    using e(4,6,7) f(1,5) by (simp_all add: size_refs_eq wf_slice_def)
  then have r: "refs_start (sl_range s) = 0" "refs_end (sl_range s) = 2" by linarith+
  have d: "is_data_empty s" using e(5) by (simp add: is_data_empty_iff slice_value_def)
  let ?b = "rv \<noteq> sg"
  let ?c = "if ?b then rc else lc" and ?t = "if ?b then PLeaf lb vb rb else PLeaf la va ra" and ?m = "n - length lab - 1"
  have u: "rep K D V ?m ?c ?t" using f(2,3) by simp
  obtain l2 s2 where e2: "slice_new ?c = Ok (slice_new_allow_exotic ?c)" "read_label (slice_new_allow_exotic ?c) ?m = Ok (l2, s2)"
    "size_bits l2 = length (pt_label ?t)" "slice_value s2 = (pt_rest ?t, cell_children ?c)" "sl_cell s2 = ?c"
    by (rule visit_edge [OF u, of "[]"]) (use assms(2) in auto)
  have l2: "size_bits l2 = ?m" using e2(3) f(2,3) by (simp split: if_splits)
  have v2: "slice_value s2 = (if ?b then (vb, rb) else (va, ra))"
    using e2(4) rep_leaf_children [OF f(2)] rep_leaf_children [OF f(3)] by (cases ?b) simp_all
  have bi: "of_bool b = branch_index (branch_from b)" for b by (simp add: branch_from_def)
  let ?seg = "\<lparr>vs_data = skip_reference s, vs_remaining_bit_len = ?m\<rparr>"
  have g: "cell_get_reference_as_slice c (of_bool ?b) = Ok (slice_new_allow_exotic ?c)"
    unfolding cell_get_reference_as_slice_def bi f(4) using e2(1) by simp
  have "values_next_impl rv sg [\<lparr>vs_data = s, vs_remaining_bit_len = ?m\<rparr>] = Some (Ok (Some s2, [?seg]))"
    using mv(3) r d g e2(2) l2 e(7) by (subst values_next_impl.simps) (simp add: Let_def)
  then have "values_next_impl rv sg [\<lparr>vs_data = slice_new_allow_exotic c, vs_remaining_bit_len = n\<rparr>] = Some (Ok (Some s2, [?seg]))"
    using w(2) e n f(1) by (subst values_next_impl.simps) simp
  then have "raw_values_next (raw_values_new_ext (Some c) n rv sg)
      = Some (raw_values_new_ext (Some c) n rv sg\<lparr>rv_segments := [?seg]\<rparr>, Some (Ok s2))"
    using e(1) by (simp add: raw_values_next_def raw_values_new_ext_def status_is_valid_def Let_def)
  then show thesis
    by (rule that [OF _ v2 e2(5) f(1-3)])
      (use skip_reference_spec [of s] e(4,7) r f(6) [of False] in \<open>simp_all add: branch_from_def\<close>)
qed

text \<open>The tree of a dictionary with the keys \<open>00\<close> and \<open>01\<close>.\<close>

lemma two_keys_tree:
  assumes "stores K D V 2 (Some c) [[False, False] \<mapsto> a, [False, True] \<mapsto> b]"
  shows "rep K D V 2 c (PFork [False] (PLeaf [] (fst a) (snd a)) (PLeaf [] (fst b) (snd b)))"
proof -
  let ?t = "PFork [False] (PLeaf [] (fst a) (snd a)) (PLeaf [] (fst b) (snd b))"
  obtain t where t: "rep K D V 2 c t" "pt_lookup t = [[False, False] \<mapsto> a, [False, True] \<mapsto> b]"
    using assms by (rule stores_Some)
  have "pt_lookup ?t k = pt_lookup t k" for k
    unfolding t(2) by (cases k) (auto split: list.split)
  then have "pt_lookup t = pt_lookup ?t" by auto
  moreover have "pt_inv 2 ?t" by simp
  ultimately have "t = ?t" using pt_unique rep_inv [OF t(1)] by blast
  then show ?thesis using t(1) by simp
qed

end
