(* ===== verification/Dict_Search_Properties.thy ===== *)
theory Dict_Search_Properties
  imports Dict_Properties Dict_Nearest Dict_Remove_Bound Dict_Values
begin

text \<open>
  The properties of searching and walking dictionaries. The order of keys is the order of the integers
  they encode (\<open>key_int\<close>: big endian, in two's complement for signed keys).
\<close>

section \<open>Smallest, largest and nearest keys\<close>

lemma first_entry_int:
  assumes "stores K D V n d m" "first_entry rv sg m k" "m j \<noteq> None"
  shows "if rv then key_int sg j \<le> key_int sg k else key_int sg k \<le> key_int sg j"
proof -
  have "length j = n" "length k = n" using assms stores_key_length by (auto simp: first_entry_def)
  then show ?thesis
    using assms(2,3) key_less_int [of j k sg] key_less_int [of k j sg] by (auto simp: first_entry_def split: if_splits)
qed

lemma behind_int:
  "length k = length j \<Longrightarrow> behind rv sg k j \<longleftrightarrow> (if rv then key_int sg j < key_int sg k else key_int sg k < key_int sg j)"
  using key_less_int [of j k sg] key_less_int [of k j sg] by (auto simp: behind_def)

text \<open>
  C15. \<open>dict_find_bound\<close> finds the smallest or the largest key: on a dictionary without entries it returns
  nothing, otherwise an entry of the map whose key is least (greatest for \<open>Max\<close>) as an unsigned or a
  signed number. The owned variant returns the same entry as a range of the cell that holds it.
\<close>

theorem dict_find_bound_correct:
  assumes "stores K D V n d m" "n \<le> 1023"
  shows "if m = (\<lambda>_. None) then dict_find_bound d n bound sg = Ok None \<and> dict_find_bound_owned d n bound sg = Ok None
    else \<exists>k s. dict_find_bound d n bound sg = Ok (Some (mk_bd k, s)) \<and> m k = Some (slice_value s)
      \<and> (\<forall>j. m j \<noteq> None \<longrightarrow> (if is_max bound then key_int sg j \<le> key_int sg k else key_int sg k \<le> key_int sg j))
      \<and> dict_find_bound_owned d n bound sg = Ok (Some (mk_bd k, sl_range s, sl_cell s))"
  using dict_find_bound_stores [OF assms, of bound sg] first_entry_int [OF assms(1)] by (fastforce split: if_split)

lemma dict_find_bound_correct_witness:
  "\<exists>k s. dict_find_bound demo_dict 3 BoundMin True = Ok (Some (mk_bd k, s)) \<and> key_int True k = -1"
proof -
  have "demo_content \<noteq> (\<lambda>_. None)" by (auto simp: demo_content_def demo_entries_def fun_eq_iff)
  then obtain k s where k: "dict_find_bound demo_dict 3 BoundMin True = Ok (Some (mk_bd k, s))" "demo_content k = Some (slice_value s)"
    "\<And>j. demo_content j \<noteq> None \<Longrightarrow> key_int True k \<le> key_int True j"
    using dict_find_bound_correct [OF demo_dict_stores, of BoundMin True] by (auto simp: is_max_def)
  have "key_int True k \<le> key_int True [True, True, True]" by (rule k(3)) (simp add: demo_content_def demo_entries_def)
  moreover have "key_int True [True, True, True] = -1" "key_int True [False, True, True] = 3" "key_int True [False, False, True] = 1" by code_simp+
  ultimately show ?thesis using k(1,2) by (auto simp: demo_content_def demo_entries_def split: if_splits)
qed

text \<open>A key lies beyond another in the direction of a search.\<close>

definition beyond :: "dict_bound \<Rightarrow> bool \<Rightarrow> bool list \<Rightarrow> bool list \<Rightarrow> bool" where
  "beyond towards sg k j \<longleftrightarrow> (if is_max towards then key_int sg k < key_int sg j else key_int sg j < key_int sg k)"

text \<open>
  C16. \<open>dict_find_owned\<close> finds the nearest key: an inclusive search for a present key returns that key;
  otherwise the result is the entry that follows (precedes) the key in the order of the numbers, with no
  other entry in between, and nothing if there is none.
\<close>

theorem dict_find_correct:
  assumes "stores K D V n d m" "n \<le> 1023" "wf_slice key" "size_bits key = n" "\<not> cell_is_exotic (sl_cell key)"
  shows "if inclusive \<and> m (slice_bits key) \<noteq> None
    then \<exists>part. dict_find_owned d n key towards inclusive sg = Ok (Some (mk_bd (slice_bits key), part)) \<and> m (slice_bits key) = Some (part_value part)
    else if \<exists>j. m j \<noteq> None \<and> beyond towards sg (slice_bits key) j
    then \<exists>j part. dict_find_owned d n key towards inclusive sg = Ok (Some (mk_bd j, part)) \<and> m j = Some (part_value part)
      \<and> beyond towards sg (slice_bits key) j \<and> (\<forall>i. m i \<noteq> None \<and> beyond towards sg (slice_bits key) i \<longrightarrow> \<not> beyond towards sg i j)
    else dict_find_owned d n key towards inclusive sg = Ok None"
proof -
  have b: "behind (\<not> is_max towards) sg i j \<longleftrightarrow> beyond towards sg i j" if "length i = n" "length j = n" for i j
    using behind_int [of i j] that by (auto simp: beyond_def)
  have l: "length j = n" if "m j \<noteq> None" for j using that stores_key_length [OF assms(1)] by auto
  let ?rv = "\<not> is_max towards" and ?k = "slice_bits key"
  have lk: "length ?k = n" using assms(4) by simp
  have e: "(\<exists>j. m j \<noteq> None \<and> behind ?rv sg ?k j) \<longleftrightarrow> (\<exists>j. m j \<noteq> None \<and> beyond towards sg ?k j)"
    using b [OF lk l] by auto
  have near: "beyond towards sg ?k j \<and> (\<forall>i. m i \<noteq> None \<and> beyond towards sg ?k i \<longrightarrow> \<not> beyond towards sg i j)"
    if "nearest ?rv sg m ?k j" for j
  proof -
    note h = that [unfolded nearest_def]
    have "\<not> beyond towards sg i j" if i: "m i \<noteq> None" "beyond towards sg ?k i" for i
    proof -
      have "i = j \<or> beyond towards sg j i" using h i b [OF lk l [OF i(1)]] b [OF l [of j] l [OF i(1)]] by auto
      then show ?thesis by (auto simp: beyond_def)
    qed
    then show ?thesis using h b [OF lk l] by auto
  qed
  note found = dict_find_owned_stores [OF assms, of inclusive towards sg, unfolded e]
  show ?thesis
  proof (cases "inclusive \<and> m ?k \<noteq> None")
    case True
    then show ?thesis using found unfolding if_P [OF True] by blast
  next
    case False
    note found = found [unfolded if_not_P [OF False]]
    show ?thesis
    proof (cases "\<exists>j. m j \<noteq> None \<and> beyond towards sg ?k j")
      case True
      from found [unfolded if_P [OF True]] near show ?thesis unfolding if_not_P [OF False] if_P [OF True] by blast
    next
      case none: False
      from found [unfolded if_not_P [OF none]] show ?thesis unfolding if_not_P [OF False] if_not_P [OF none] .
    qed
  qed
qed

lemma dict_find_correct_witness:
  "\<exists>part. dict_find_owned demo_dict 3 (bits_key [False, True, False]) BoundMax True False = Ok (Some (mk_bd [False, True, True], part))
    \<and> part_value part = ([True], [])"
proof -
  have i: "key_int False [False, True, False] = 2" "key_int False [True, True, True] = 7" "key_int False [False, True, True] = 3"
    "key_int False [False, False, True] = 1" by code_simp+
  have k: "wf_slice (bits_key [False, True, False])" "size_bits (bits_key [False, True, False]) = 3"
    "slice_bits (bits_key [False, True, False]) = [False, True, False]" "\<not> cell_is_exotic (sl_cell (bits_key [False, True, False]))"
    by (simp_all add: bits_key_spec) (simp add: bits_key_def as_data_slice_def slice_new_allow_exotic_def cell_is_exotic_def is_exotic_def cd_new_def)
  let ?m = demo_content
  have ex: "\<exists>j. ?m j \<noteq> None \<and> beyond BoundMax False [False, True, False] j"
    by (intro exI [of _ "[False, True, True]"]) (simp add: demo_content_def demo_entries_def beyond_def is_max_def i)
  have n: "?m [False, True, False] = None" by (simp add: demo_content_def demo_entries_def)
  from dict_find_correct [OF demo_dict_stores _ k(1,2,4), of True BoundMax False, unfolded k(3)] ex n obtain j part where
    j: "dict_find_owned demo_dict 3 (bits_key [False, True, False]) BoundMax True False = Ok (Some (mk_bd j, part))"
      "?m j = Some (part_value part)" "beyond BoundMax False [False, True, False] j"
      "\<And>i. ?m i \<noteq> None \<Longrightarrow> beyond BoundMax False [False, True, False] i \<Longrightarrow> \<not> beyond BoundMax False i j"
    by auto
  have "\<not> beyond BoundMax False [False, True, True] j"
    by (rule j(4)) (simp_all add: demo_content_def demo_entries_def beyond_def is_max_def i)
  then show ?thesis
    using j(1-3) by (auto simp: demo_content_def demo_entries_def beyond_def is_max_def i split: if_splits)
qed

section \<open>Removing from the ends\<close>

text \<open>
  \<open>dict_remove_bound_owned\<close> removes the smallest (largest) key and returns it with its value; the new
  root stores the other entries. An empty dictionary is returned as it is.
\<close>

theorem dict_remove_bound_correct:
  assumes "stores K D V n d m" "room D V n" "canon_by sha K"
  shows "if m = (\<lambda>_. None) then dict_remove_bound_owned sha d n bound sg = Ok (d, None)
    else \<exists>k d' part. dict_remove_bound_owned sha d n bound sg = Ok (d', Some (mk_bd k, part))
      \<and> (\<forall>j. m j \<noteq> None \<longrightarrow> (if is_max bound then key_int sg j \<le> key_int sg k else key_int sg k \<le> key_int sg j))
      \<and> m k = Some (part_value part) \<and> stores K D V n d' (m(k := None))"
  using dict_remove_bound_stores [OF assms, of bound sg] first_entry_int [OF assms(1)] by (fastforce split: if_split)

lemma dict_remove_bound_correct_witness:
  "\<exists>d' part. dict_remove_bound_owned no_hash demo_dict 3 BoundMax False = Ok (d', Some (mk_bd [True, True, True], part))
    \<and> stores (Some no_hash) 0 64 3 d' (demo_content([True, True, True] := None))"
proof -
  have "demo_content \<noteq> (\<lambda>_. None)" by (auto simp: demo_content_def demo_entries_def fun_eq_iff)
  with dict_remove_bound_correct [OF demo_dict_stores demo_room, of no_hash BoundMax False] obtain k d' part where
    k: "dict_remove_bound_owned no_hash demo_dict 3 BoundMax False = Ok (d', Some (mk_bd k, part))" "demo_content k = Some (part_value part)"
      "stores (Some no_hash) 0 64 3 d' (demo_content(k := None))"
      "\<And>j. demo_content j \<noteq> None \<Longrightarrow> key_int False j \<le> key_int False k"
    by (auto simp: is_max_def)
  have "key_int False [True, True, True] \<le> key_int False k" by (rule k(4)) (simp add: demo_content_def demo_entries_def)
  moreover have "key_int False [True, True, True] = 7" "key_int False [False, True, True] = 3" "key_int False [False, False, True] = 1" by code_simp+
  ultimately have "k = [True, True, True]" using k(2) by (auto simp: demo_content_def demo_entries_def split: if_splits)
  then show ?thesis using k(1,3) by auto
qed

section \<open>Iteration\<close>

lemma distinct_sorted_keys:
  fixes g :: "'a \<Rightarrow> int"
  shows "sorted_wrt (\<lambda>x y. if rv then g (f y) < g (f x) else g (f x) < g (f y)) xs \<Longrightarrow> distinct (map f xs)"
  by (induction xs) (auto split: if_splits)

lemma option_eqI: "(\<And>v. x = Some v \<longleftrightarrow> y = Some v) \<Longrightarrow> x = y"
  by (cases x; cases y) auto

text \<open>
  C17. Iterating over a dictionary ends, and it returns every entry exactly once in the order of the keys
  (ascending or descending, signed or unsigned), without an error. The iterator over keys and the one
  that returns cells with ranges go through the same entries.
\<close>

theorem raw_iter_complete:
  assumes "stores K D V n d m" "n \<le> 1023"
  shows "\<exists>xs. iterates raw_iter_next (raw_iter_new_ext d n rv sg) xs
    \<and> sorted_wrt (\<lambda>x y. if rv then key_int sg (bd_bits (fst y)) < key_int sg (bd_bits (fst x))
         else key_int sg (bd_bits (fst x)) < key_int sg (bd_bits (fst y))) xs
    \<and> map_of (map (\<lambda>(k, s). (bd_bits k, slice_value s)) xs) = m
    \<and> iterates (\<lambda>it. next_owned it d) (raw_iter_new_ext d n rv sg) (map (\<lambda>(k, s). (k, sl_range s, sl_cell s)) xs)
    \<and> iterates raw_keys_next (raw_iter_new_ext d n rv sg) (map fst xs)"
proof -
  let ?e = "\<lambda>(k, s). (bd_bits k, slice_value s)"
  obtain xs where xs: "iterates raw_iter_next (raw_iter_new_ext d n rv sg) xs" "sorted_wrt (in_order rv sg) (map ?e xs)"
    "\<And>k v. (k, v) \<in> set (map ?e xs) \<longleftrightarrow> m k = Some v"
    "iterates (\<lambda>it. next_owned it d) (raw_iter_new_ext d n rv sg) (map (\<lambda>(k, s). (k, sl_range s, sl_cell s)) xs)"
    "iterates raw_keys_next (raw_iter_new_ext d n rv sg) (map fst xs)"
    using raw_iter_stores [OF assms, of rv sg] by blast
  have l: "length (bd_bits (fst x)) = n" if "x \<in> set xs" for x
    using stores_key_length [OF assms(1)] xs(3) [of "bd_bits (fst x)" "slice_value (snd x)"] that by (force simp: case_prod_unfold)
  have i: "in_order rv sg (?e x) (?e y) \<longleftrightarrow> (if rv then key_int sg (bd_bits (fst y)) < key_int sg (bd_bits (fst x))
      else key_int sg (bd_bits (fst x)) < key_int sg (bd_bits (fst y)))" if "x \<in> set xs" "y \<in> set xs" for x y
    using key_less_int [of "bd_bits (fst x)" "bd_bits (fst y)" sg] key_less_int [of "bd_bits (fst y)" "bd_bits (fst x)" sg] l that
    by (simp add: in_order_def case_prod_unfold)
  have s: "sorted_wrt (\<lambda>x y. if rv then key_int sg (bd_bits (fst y)) < key_int sg (bd_bits (fst x))
         else key_int sg (bd_bits (fst x)) < key_int sg (bd_bits (fst y))) xs"
    using xs(2) i unfolding sorted_wrt_map by (rule_tac sorted_wrt_mono_rel) auto
  have "distinct (map fst (map ?e xs))" using distinct_sorted_keys [where f = "\<lambda>x. bd_bits (fst x)" and g = "key_int sg" and rv = rv, OF s] by (simp add: comp_def case_prod_unfold)
  then have "map_of (map ?e xs) k = Some v \<longleftrightarrow> m k = Some v" for k v using xs(3) [of k v] by simp
  then have "map_of (map ?e xs) = m" by (intro ext option_eqI) 
  then show ?thesis using xs(1,4,5) s by blast
qed

lemma raw_iter_complete_witness:
  "\<exists>xs. iterates raw_iter_next (raw_iter_new_ext demo_dict 3 False True) xs \<and> length xs = 3"
proof -
  obtain xs where xs: "iterates raw_iter_next (raw_iter_new_ext demo_dict 3 False True) xs"
    "sorted_wrt (\<lambda>x y. key_int True (bd_bits (fst x)) < key_int True (bd_bits (fst y))) xs"
    "map_of (map (\<lambda>(k, s). (bd_bits k, slice_value s)) xs) = demo_content"
    using raw_iter_complete [OF demo_dict_stores, of False True] by auto
  have d: "distinct (map (\<lambda>x. bd_bits (fst x)) xs)"
    by (rule distinct_sorted_keys [where g = "key_int True" and rv = False]) (use xs(2) in simp)
  have "set (map (\<lambda>x. bd_bits (fst x)) xs) = dom demo_content"
    unfolding xs(3) [symmetric] by (auto simp: dom_map_of_conv_image_fst image_image case_prod_unfold)
  moreover have "dom demo_content = set [[False, True, True], [False, False, True], [True, True, True]]"
    by (auto simp: demo_content_def demo_entries_def dom_def)
  ultimately have "length (map (\<lambda>x. bd_bits (fst x)) xs) = card (set [[False, True, True], [False, False, True], [True, True, True]])"
    using distinct_card [OF d] by metis
  then show ?thesis using xs(1) by auto
qed

text \<open>
  For unsigned keys the iterator over the values returns the values of the entries in their order, in
  both directions.
\<close>

theorem raw_values_complete:
  assumes "stores K D V n d m" "n \<le> 1023"
  shows "\<exists>xs. iterates raw_iter_next (raw_iter_new_ext d n rv False) xs
    \<and> iterates raw_values_next (raw_values_new_ext d n rv False) (map snd xs)"
  by (rule raw_values_stores [OF assms])

lemma raw_values_complete_witness:
  "\<exists>vs. iterates raw_values_next (raw_values_new_ext demo_dict 3 True False) vs"
  using raw_values_complete [OF demo_dict_stores, of True] by auto

text \<open>
  C18. For signed keys and for owned values that does not hold. On a dictionary with the two keys \<open>00\<close> and
  \<open>01\<close> the signed iterator over the entries starts with the key \<open>00\<close>, and the one over the values with
  the value of \<open>01\<close>; and the owned iterator in descending order returns the range of the value of \<open>01\<close>
  together with the cell of \<open>00\<close>.
\<close>

theorem raw_values_order_errors:
  assumes "stores K D V 2 (Some c) [[False, False] \<mapsto> a, [False, True] \<mapsto> b]"
  shows "(\<exists>it k s. raw_iter_next (raw_iter_new_ext (Some c) 2 False True) = Some (it, Some (Ok (k, s))) \<and> bd_bits k = [False, False])
    \<and> (\<exists>iv s. raw_values_next (raw_values_new_ext (Some c) 2 False True) = Some (iv, Some (Ok s)) \<and> slice_value s = b)
    \<and> (\<exists>iv s. raw_values_next (raw_values_new_ext (Some c) 2 True False) = Some (iv, Some (Ok s)) \<and> slice_value s = b
         \<and> sl_cell s = cell_children c ! 1
         \<and> owned_values_next (raw_values_new_ext (Some c) 2 True False) (Some c) = Some (iv, Some (Ok (sl_range s, cell_children c ! 0))))"
proof (intro conjI)
  note t = two_keys_tree [OF assms]
  from iter_rep_iterates [OF raw_iter_new_rep [OF t, of False True]] obtain x xs where
    "iterates raw_iter_next (raw_iter_new_ext (Some c) 2 False True) (x # xs)" "bd_bits (fst x) = [False, False]"
    by (auto simp: pt_down_def pt_first_def Cons_eq_map_conv case_prod_unfold)
  then show "\<exists>it k s. raw_iter_next (raw_iter_new_ext (Some c) 2 False True) = Some (it, Some (Ok (k, s))) \<and> bd_bits k = [False, False]"
    by (cases x) (auto elim!: iterates_ConsE)
  show "\<exists>iv s. raw_values_next (raw_values_new_ext (Some c) 2 False True) = Some (iv, Some (Ok s)) \<and> slice_value s = b"
    by (rule first_value [OF t, of False True]) auto
  obtain iv s lc rc seg where v: "raw_values_next (raw_values_new_ext (Some c) 2 True False) = Some (iv, Some (Ok s))"
    "slice_value s = b" "sl_cell s = rc" "cell_children c = [lc, rc]" "rv_segments iv = [seg]" "sl_cell (vs_data seg) = c"
    "refs_start (sl_range (vs_data seg)) = 1" "reference_cloned c 0 = Some lc"
    by (rule first_value [OF t, of True False]) auto
  then show "\<exists>iv s. raw_values_next (raw_values_new_ext (Some c) 2 True False) = Some (iv, Some (Ok s)) \<and> slice_value s = b
      \<and> sl_cell s = cell_children c ! 1
      \<and> owned_values_next (raw_values_new_ext (Some c) 2 True False) (Some c) = Some (iv, Some (Ok (sl_range s, cell_children c ! 0)))"
    by (intro exI [of _ iv] exI [of _ s]) (simp add: owned_values_next_def)
qed

definition demo_pair :: "(bool list \<times> dict_value) list" where
  "demo_pair = [([False, False], ([True], [])), ([False, True], ([False, True], []))]"

lemma raw_values_order_errors_witness:
  "\<exists>c iv s. put_all no_hash 2 demo_pair None = Some c
    \<and> raw_values_next (raw_values_new_ext (Some c) 2 False True) = Some (iv, Some (Ok s)) \<and> slice_value s = ([False, True], [])"
proof -
  have r: "room 0 64 2" using bits_for_len_small [of 2 2] by (simp add: room_def MAX_KEY_LEN_def)
  have "list_all (\<lambda>(k, v). length k = 2 \<and> value_ok 0 64 v) demo_pair" by (simp add: demo_pair_def value_ok_def)
  from put_all_stores [of "Some no_hash" 0 64 2 None "\<lambda>_. None" no_hash, OF _ r _ this]
  have s: "stores (Some no_hash) 0 64 2 (put_all no_hash 2 demo_pair None) [[False, False] \<mapsto> ([True], []), [False, True] \<mapsto> ([False, True], [])]"
    by (simp add: stores_None demo_pair_def fun_upd_twist)
  then obtain c where c: "put_all no_hash 2 demo_pair None = Some c"
    by (cases "put_all no_hash 2 demo_pair None") (auto simp: stores_None dest: fun_cong [of _ _ "[False, True]"])
  from raw_values_order_errors [OF s [unfolded c]] c show ?thesis by blast
qed

end
