(* ===== verification/Dict_Split.thy ===== *)
theory Dict_Split
  imports Dict_Iter
begin

text \<open>
  \<^verbatim>\<open>src/dict/ops/split_merge.rs\<close>: splitting a dictionary by a prefix of its keys, and merging two
  dictionaries. The two merges of siblings share \<open>dict_merge_sibling_roots\<close>; the augmented one passes the
  function that combines the extra values of the children.
\<close>

section \<open>Splitting\<close>

text \<open>The closure \<open>rebuild_branch\<close> takes the next reference of the remaining data.\<close>

definition rebuild_branch :: "sha256 \<Rightarrow> nat \<Rightarrow> cell_slice \<Rightarrow> nat \<Rightarrow> bool \<Rightarrow> cell_slice \<Rightarrow> (cell \<times> cell_slice) result" where
  "rebuild_branch sha key_bit_len key_prefix subdict_bit_len b remaining_data =
    ok (load_reference remaining_data) (\<lambda>(cell, remaining_data).
    ok (ok (load_dyn_cell cell Full) slice_new) (\<lambda>branch.
    ok (read_label branch subdict_bit_len) (\<lambda>(label, branch).
    ok (store_slice cb_new key_prefix) (\<lambda>key_builder.
    ok (on_inner (\<lambda>d. store_bit d b) key_builder) (\<lambda>key_builder.
    ok (on_inner (\<lambda>d. store_slice_data d label) key_builder) (\<lambda>key_builder.
    let key = as_data_slice (cb_inner key_builder)
    in ok (write_label key key_bit_len cb_new) (\<lambda>builder.
       ok (store_slice builder branch) (\<lambda>builder.
       ok (build_ext sha builder) (\<lambda>cell. Ok (cell, remaining_data))))))))))"

definition dict_split_by_prefix ::
  "sha256 \<Rightarrow> cell option \<Rightarrow> nat \<Rightarrow> cell_slice \<Rightarrow> (cell option \<times> cell option) result" where
  "dict_split_by_prefix sha dict key_bit_len key_prefix =
    (if key_bit_len = 0 then Ok (None, None)
     else case dict of
       None \<Rightarrow> Ok (None, None)
     | Some data \<Rightarrow>
         ok (ok (load_dyn_cell data Full) slice_new) (\<lambda>remaining_data.
         ok (read_label remaining_data key_bit_len) (\<lambda>(root_label, remaining_data).
         case strip_data_prefix root_label key_prefix of
           None \<Rightarrow> Err CellUnderflow
         | Some root_label_rem \<Rightarrow>
             if is_data_empty root_label_rem then
               if key_bit_len < size_bits root_label + 1 then Err CellUnderflow
               else
                 let subdict_bit_len = key_bit_len - (size_bits root_label + 1)
                 in ok (rebuild_branch sha key_bit_len key_prefix subdict_bit_len False remaining_data) (\<lambda>(left, remaining_data).
                    ok (rebuild_branch sha key_bit_len key_prefix subdict_bit_len True remaining_data) (\<lambda>(right, remaining_data).
                    Ok (Some left, Some right)))
             else
               ok (get_bit root_label_rem 0) (\<lambda>b.
               Ok (if b then (None, dict) else (dict, None))))))"

record partial_split_dict =
  ps_remaining_bit_len :: nat
  ps_left_branch :: "cell option"
  ps_right_branch :: "cell option"

definition dict_split_raw :: "cell option \<Rightarrow> nat \<Rightarrow> partial_split_dict result" where
  "dict_split_raw dict key_bit_len =
    (if key_bit_len = 0 then Ok \<lparr>ps_remaining_bit_len = 0, ps_left_branch = None, ps_right_branch = None\<rparr>
     else case dict of
       None \<Rightarrow> Ok \<lparr>ps_remaining_bit_len = key_bit_len, ps_left_branch = None, ps_right_branch = None\<rparr>
     | Some data \<Rightarrow>
         ok (ok (load_dyn_cell data Full) slice_new) (\<lambda>remaining_data.
         ok (read_label remaining_data key_bit_len) (\<lambda>(root_label, remaining_data).
         if is_data_empty root_label then
           let subdict_bit_len = key_bit_len - 1
           in ok (load_reference_cloned remaining_data) (\<lambda>(left, remaining_data).
              ok (load_cell left Full) (\<lambda>left.
              ok (load_reference_cloned remaining_data) (\<lambda>(right, remaining_data).
              ok (load_cell right Full) (\<lambda>right.
              Ok \<lparr>ps_remaining_bit_len = subdict_bit_len, ps_left_branch = Some left, ps_right_branch = Some right\<rparr>))))
         else
           ok (get_bit root_label 0) (\<lambda>b.
           Ok (if b then \<lparr>ps_remaining_bit_len = key_bit_len, ps_left_branch = None, ps_right_branch = dict\<rparr>
               else \<lparr>ps_remaining_bit_len = key_bit_len, ps_left_branch = dict, ps_right_branch = None\<rparr>)))))"

section \<open>Merging\<close>

text \<open>
  The loop of \<open>dict_merge\<close> over the entries of the right dictionary. It ends at the first error of the
  iterator, which is not reported. The left dictionary is changed in place: what has been merged before
  an insertion fails stays in it.
\<close>

partial_function (option) dict_merge_loop :: "sha256 \<Rightarrow> raw_iter \<Rightarrow> cell option \<Rightarrow> (cell option \<times> unit result) option" where
  "dict_merge_loop sha right_dict_iter left =
    (case raw_iter_next right_dict_iter of
       None \<Rightarrow> None
     | Some (right_dict_iter, Some (Inr (key, v))) \<Rightarrow>
         (case dict_insert sha left (as_data_slice key) (bd_bit_len key) (\<lambda>b. store_slice b v) ModeSet of
            Inl e \<Rightarrow> Some (left, Err e)
          | Inr (left, _) \<Rightarrow> dict_merge_loop sha right_dict_iter left)
     | Some _ \<Rightarrow> Some (left, Ok ()))"

definition dict_merge :: "sha256 \<Rightarrow> cell option \<Rightarrow> cell option \<Rightarrow> nat \<Rightarrow> (cell option \<times> unit result) option" where
  "dict_merge sha left right key_bit_length =
    (case (left, right) of
       (_, None) \<Rightarrow> Some (left, Ok ())
     | (None, Some right) \<Rightarrow> Some (Some right, Ok ())
     | (Some left_cell, Some right_cell) \<Rightarrow>
         if cell_bit_len left_cell \<noteq> cell_bit_len right_cell \<and> cell_bit_len left_cell \<noteq> key_bit_length
         then Some (left, Err InvalidCell)
         else dict_merge_loop sha (raw_iter_new right key_bit_length) left)"

type_synonym aug_dict_fn = "cell_slice \<Rightarrow> cell_slice \<Rightarrow> cell_builder \<Rightarrow> cell_builder result"

definition dict_merge_sibling_roots :: "sha256 \<Rightarrow> nat \<Rightarrow> cell \<Rightarrow> cell \<Rightarrow> aug_dict_fn option \<Rightarrow> cell result" where
  "dict_merge_sibling_roots sha key_bit_length left right comparator =
    ok (slice_new left) (\<lambda>left_slice.
    ok (read_label left_slice key_bit_length) (\<lambda>(left_label, left_slice).
    ok (slice_new right) (\<lambda>right_slice.
    ok (read_label right_slice key_bit_length) (\<lambda>(right_label, right_slice).
    let min_label_len = min (size_bits left_label) (size_bits right_label)
    in if min_label_len = 0 then Err InvalidData
       else
         let lcp = longest_common_data_prefix left_label right_label
         in if size_bits lcp \<ge> min_label_len \<or> key_bit_length < size_bits lcp + 1 then Err InvalidData
            else
              ok (skip_first left_label (size_bits lcp) 0) (\<lambda>left_label.
              ok (skip_first right_label (size_bits lcp) 0) (\<lambda>right_label.
              ok (load_bit left_label) (\<lambda>(left_bit, left_label).
              if left_bit then Err InvalidData
              else ok (load_bit right_label) (\<lambda>(right_bit, right_label).
              if \<not> right_bit then Err InvalidData
              else
                let remaining_kbl = key_bit_length - 1 - size_bits lcp
                in ok (make_leaf sha left_label remaining_kbl (\<lambda>b. store_slice b left_slice)) (\<lambda>left.
                   ok (make_leaf sha right_label remaining_kbl (\<lambda>b. store_slice b right_slice)) (\<lambda>right.
                   ok (write_label lcp key_bit_length cb_new) (\<lambda>new_root_builder.
                   ok (store_reference new_root_builder left) (\<lambda>new_root_builder.
                   ok (store_reference new_root_builder right) (\<lambda>new_root_builder.
                   ok (case comparator of
                         None \<Rightarrow> Ok new_root_builder
                       | Some comparator \<Rightarrow>
                           ok (if size_bits left_label < remaining_kbl then skip_first left_slice 0 2 else Ok left_slice) (\<lambda>left_slice.
                           ok (if size_bits right_label < remaining_kbl then skip_first right_slice 0 2 else Ok right_slice) (\<lambda>right_slice.
                           comparator left_slice right_slice new_root_builder)))
                     (build_ext sha))))))))))))))"

definition dict_merge_siblings :: "sha256 \<Rightarrow> cell option \<Rightarrow> cell option \<Rightarrow> nat \<Rightarrow> cell option result" where
  "dict_merge_siblings sha left right key_bit_length =
    (case (left, right) of
       (None, None) \<Rightarrow> Ok None
     | (Some left, None) \<Rightarrow> Ok (Some left)
     | (None, Some right) \<Rightarrow> Ok (Some right)
     | (Some left, Some right) \<Rightarrow> ok (dict_merge_sibling_roots sha key_bit_length left right None) (\<lambda>c. Ok (Some c)))"

definition aug_dict_merge_siblings ::
  "sha256 \<Rightarrow> cell option \<Rightarrow> cell option \<Rightarrow> nat \<Rightarrow> aug_dict_fn \<Rightarrow> cell option result" where
  "aug_dict_merge_siblings sha left right key_bit_length comparator =
    (case (left, right) of
       (None, None) \<Rightarrow> Ok None
     | (Some left, None) \<Rightarrow> Ok (Some left)
     | (None, Some right) \<Rightarrow> Ok (Some right)
     | (Some left, Some right) \<Rightarrow>
         ok (dict_merge_sibling_roots sha key_bit_length left right (Some comparator)) (\<lambda>c. Ok (Some c)))"

end
