(* ===== verification/Dict_Build.thy ===== *)
theory Dict_Build
  imports Dict_Split
begin

text \<open>
  \<^verbatim>\<open>src/dict/ops/build.rs\<close>: building a dictionary from sorted entries. The builder keeps a stack of items,
  here with its top first: leaves that are not built yet, finished nodes, and nodes whose label has to be
  written again. The trait \<open>MergeStackItemMode\<close> is a record of functions, with an instance for simple and one
  for augmented dictionaries. A value is its \<open>store_into\<close>, a key is given by \<open>store_into_data\<close> and the
  comparison of its type.
\<close>

definition u16_sub :: "nat \<Rightarrow> nat \<Rightarrow> nat" where
  "u16_sub a b = (a + 65536 - b) mod 65536"

lemma u16_sub_eq [simp]: "b \<le> a \<Longrightarrow> a < 65536 \<Longrightarrow> u16_sub a b = a - b"
proof -
  assume a: "b \<le> a" "a < 65536"
  then have "a + 65536 - b = a - b + 65536" by simp
  then show ?thesis using a mod_add_self2 [of "a - b" 65536] mod_less [of "a - b" 65536] unfolding u16_sub_def by simp
qed

section \<open>Modes\<close>

record ('a, 'n, 'o) merge_mode =
  mm_write_leaf_extra :: "'a \<Rightarrow> store_fn"
  mm_read_node_extra :: "cell \<Rightarrow> nat \<Rightarrow> 'n result"
  mm_leaf_extra_offset :: "cell_builder \<Rightarrow> 'o"
  mm_node_extra_offset :: "'n \<Rightarrow> 'o"
  mm_denorm_node_extra_offset :: "cell_builder \<Rightarrow> bool \<Rightarrow> 'o"
  mm_merge_node :: "cell \<Rightarrow> cell \<Rightarrow> 'o \<Rightarrow> 'o \<Rightarrow> cell_builder \<Rightarrow> ('n \<times> cell_builder) result"

definition simple_mode :: "(unit, unit, unit) merge_mode" where
  "simple_mode =
    \<lparr>mm_write_leaf_extra = (\<lambda>_ b. Ok b),
     mm_read_node_extra = (\<lambda>_ _. Ok ()),
     mm_leaf_extra_offset = (\<lambda>_. ()),
     mm_node_extra_offset = (\<lambda>_. ()),
     mm_denorm_node_extra_offset = (\<lambda>_ _. ()),
     mm_merge_node = (\<lambda>left_cell right_cell _ _ builder.
       ok (store_reference builder left_cell) (\<lambda>builder.
       ok (store_reference builder right_cell) (\<lambda>builder. Ok ((), builder))))\<rparr>"

definition aug_mode :: "('a \<Rightarrow> store_fn) \<Rightarrow> aug_dict_fn \<Rightarrow> ('a, nat \<times> bool, nat \<times> nat) merge_mode" where
  "aug_mode store_extra comparator =
    \<lparr>mm_write_leaf_extra = store_extra,
     mm_read_node_extra = (\<lambda>cell key_bit_len.
       ok (slice_new cell) (\<lambda>s.
       ok (read_label s key_bit_len) (\<lambda>(label, s).
       Ok (bits_start (sl_range s), size_bits label = key_bit_len)))),
     mm_leaf_extra_offset = (\<lambda>builder. (bd_bit_len (cb_inner builder), 0)),
     mm_node_extra_offset = (\<lambda>(extra_bits_offset, is_leaf). (extra_bits_offset, if is_leaf then 0 else 2)),
     mm_denorm_node_extra_offset = (\<lambda>builder is_leaf. (bd_bit_len (cb_inner builder), if is_leaf then 0 else 2)),
     mm_merge_node = (\<lambda>left_cell right_cell left_extra_offset right_extra_offset builder.
       ok (store_reference builder left_cell) (\<lambda>builder.
       ok (store_reference builder right_cell) (\<lambda>builder.
       let extra_offset = bd_bit_len (cb_inner builder)
       in ok (slice_new left_cell) (\<lambda>left_extra_slice.
          ok (skip_first left_extra_slice (fst left_extra_offset) (snd left_extra_offset)) (\<lambda>left_extra_slice.
          ok (slice_new right_cell) (\<lambda>right_extra_slice.
          ok (skip_first right_extra_slice (fst right_extra_offset) (snd right_extra_offset)) (\<lambda>right_extra_slice.
          ok (comparator left_extra_slice right_extra_slice builder) (\<lambda>builder.
          Ok ((extra_offset, False), builder)))))))))\<rparr>"

section \<open>Items of the stack\<close>

datatype ('a, 'n) merge_stack_item =
    MsLeaf (msi_prefix: cell_data_builder) (msi_value: store_fn) (msi_leaf_extra: 'a) (msi_prev_lcp_len: nat)
  | MsNode (msi_prefix: cell_data_builder) (msi_cell: cell) (msi_extra: 'n) (msi_prev_lcp_len: nat)
  | MsDenormNode (msi_prefix: cell_data_builder) (msi_cell: cell) (msi_after_label_offset: nat) (msi_is_leaf: bool)
      (msi_prev_lcp_len: nat)

definition msi_prefix_slice :: "('a, 'n) merge_stack_item \<Rightarrow> cell_slice" where
  "msi_prefix_slice item = as_data_slice (msi_prefix item)"

definition msi_build :: "sha256 \<Rightarrow> ('a, 'n, 'o) merge_mode \<Rightarrow> ('a, 'n) merge_stack_item \<Rightarrow> nat \<Rightarrow> cell result" where
  "msi_build sha mode item key_bit_len =
    (case item of
       MsLeaf pfx v extra _ \<Rightarrow>
         ok (write_label (as_data_slice pfx) key_bit_len cb_new) (\<lambda>b.
         ok (mm_write_leaf_extra mode extra b) (\<lambda>b.
         ok (v b) (\<lambda>b. build_ext sha b)))
     | MsNode _ cell _ _ \<Rightarrow> Ok cell
     | MsDenormNode pfx cell after_label_offset _ _ \<Rightarrow>
         ok (slice_new cell) (\<lambda>data.
         ok (skip_first data after_label_offset 0) (\<lambda>data.
         make_leaf sha (as_data_slice pfx) key_bit_len (\<lambda>b. store_slice b data))))"

text \<open>The child that an item becomes under a fork at \<open>split_at\<close>: the same code for the left and the right one.\<close>

definition msi_child :: "sha256 \<Rightarrow> ('a, 'n, 'o) merge_mode \<Rightarrow> ('a, 'n) merge_stack_item \<Rightarrow> nat \<Rightarrow> nat \<Rightarrow> (cell \<times> 'o) result" where
  "msi_child sha mode item split_at leaf_key_bit_len =
    (case item of
       MsLeaf pfx v extra _ \<Rightarrow>
         ok (skip_first (as_data_slice pfx) (u16_add split_at 1) 0) (\<lambda>prefix_slice.
         ok (write_label prefix_slice leaf_key_bit_len cb_new) (\<lambda>builder.
         let extra_offset = mm_leaf_extra_offset mode builder
         in ok (mm_write_leaf_extra mode extra builder) (\<lambda>builder.
            ok (v builder) (\<lambda>builder.
            ok (build_ext sha builder) (\<lambda>cell. Ok (cell, extra_offset))))))
     | MsNode _ cell extra _ \<Rightarrow> Ok (cell, mm_node_extra_offset mode extra)
     | MsDenormNode pfx cell after_label_offset is_leaf _ \<Rightarrow>
         ok (skip_first (as_data_slice pfx) (u16_add split_at 1) 0) (\<lambda>prefix_slice.
         ok (write_label prefix_slice leaf_key_bit_len cb_new) (\<lambda>builder.
         let extra_offset = mm_denorm_node_extra_offset mode builder is_leaf
         in ok (slice_new cell) (\<lambda>data.
            ok (skip_first data after_label_offset 0) (\<lambda>data.
            ok (store_slice builder data) (\<lambda>builder.
            ok (build_ext sha builder) (\<lambda>cell. Ok (cell, extra_offset))))))))"

definition msi_merge :: "sha256 \<Rightarrow> ('a, 'n, 'o) merge_mode \<Rightarrow> ('a, 'n) merge_stack_item \<Rightarrow> ('a, 'n) merge_stack_item
    \<Rightarrow> nat \<Rightarrow> nat \<Rightarrow> ('a, 'n) merge_stack_item result" where
  "msi_merge sha mode left right key_offset key_bit_len =
    (let left_offset = msi_prev_lcp_len left;
         split_at = msi_prev_lcp_len right;
         label_len = u16_sub split_at key_offset;
         leaf_key_bit_len = u16_sub (u16_sub key_bit_len split_at) 1;
         key_bit_len = u16_sub key_bit_len key_offset
     in ok (skip_first (msi_prefix_slice right) key_offset 0) (\<lambda>common_prefix.
        ok (write_label (get_prefix common_prefix label_len 0) key_bit_len cb_new) (\<lambda>builder.
        ok (msi_child sha mode right split_at leaf_key_bit_len) (\<lambda>(right_cell, right_extra_offset).
        ok (msi_child sha mode left split_at leaf_key_bit_len) (\<lambda>(left_cell, left_extra_offset).
        ok (mm_merge_node mode left_cell right_cell left_extra_offset right_extra_offset builder) (\<lambda>(extra, builder).
        ok (build_ext sha builder) (\<lambda>cell.
        Ok (MsNode (msi_prefix right) cell extra left_offset))))))))"

section \<open>The stack\<close>

text \<open>The loop that merges the items on top as long as they part after the common prefix with the next key.\<close>

fun reduce_loop :: "sha256 \<Rightarrow> ('a, 'n, 'o) merge_mode \<Rightarrow> nat \<Rightarrow> nat \<Rightarrow> ('a, 'n) merge_stack_item
    \<Rightarrow> ('a, 'n) merge_stack_item list \<Rightarrow> ('a, 'n) merge_stack_item list result" where
  "reduce_loop sha mode key_bit_len lcp right [] = Ok [right]"
| "reduce_loop sha mode key_bit_len lcp right (left # stack) =
    (if msi_prev_lcp_len right \<le> lcp then Ok (right # left # stack)
     else
       let key_offset = max (if stack = [] then 1 else u16_add (msi_prev_lcp_len left) 1) (u16_add lcp 1)
       in ok (msi_merge sha mode left right key_offset key_bit_len) (\<lambda>right.
          reduce_loop sha mode key_bit_len lcp right stack))"

definition msi_reduce :: "sha256 \<Rightarrow> ('a, 'n, 'o) merge_mode \<Rightarrow> ('a, 'n) merge_stack_item list \<Rightarrow> cell_slice \<Rightarrow> nat
    \<Rightarrow> (nat \<times> ('a, 'n) merge_stack_item list) result" where
  "msi_reduce sha mode res_stack key key_bit_len =
    (case res_stack of
       [] \<Rightarrow> Ok (0, [])
     | item # stack \<Rightarrow>
         let lcp = size_bits (longest_common_data_prefix (msi_prefix_slice item) key)
         in if lcp \<le> msi_prev_lcp_len item
            then ok (reduce_loop sha mode key_bit_len lcp item stack) (\<lambda>res_stack. Ok (lcp, res_stack))
            else Ok (lcp, res_stack))"

fun finalize_loop :: "sha256 \<Rightarrow> ('a, 'n, 'o) merge_mode \<Rightarrow> nat \<Rightarrow> ('a, 'n) merge_stack_item
    \<Rightarrow> ('a, 'n) merge_stack_item list \<Rightarrow> ('a, 'n) merge_stack_item result" where
  "finalize_loop sha mode key_bit_len result [] = Ok result"
| "finalize_loop sha mode key_bit_len result (left # stack) =
    (let key_offset = (if stack = [] then 0 else u16_add (msi_prev_lcp_len left) 1)
     in ok (msi_merge sha mode left result key_offset key_bit_len) (\<lambda>result.
        finalize_loop sha mode key_bit_len result stack))"

definition msi_finalize :: "sha256 \<Rightarrow> ('a, 'n, 'o) merge_mode \<Rightarrow> ('a, 'n) merge_stack_item list \<Rightarrow> nat \<Rightarrow> cell option result" where
  "msi_finalize sha mode stack key_bit_len =
    (case stack of
       [] \<Rightarrow> Ok None
     | result # stack \<Rightarrow>
         ok (finalize_loop sha mode key_bit_len result stack) (\<lambda>result.
         ok (msi_build sha mode result key_bit_len) (\<lambda>cell. Ok (Some cell))))"

section \<open>Building\<close>

datatype cmp_ordering = OrdLess | OrdEqual | OrdGreater

fun build_loop :: "sha256 \<Rightarrow> ('a, 'n, 'o) merge_mode \<Rightarrow> ('k \<Rightarrow> 'k \<Rightarrow> cmp_ordering)
    \<Rightarrow> ('k \<Rightarrow> cell_data_builder \<Rightarrow> cell_data_builder result) \<Rightarrow> nat \<Rightarrow> 'k option \<Rightarrow> ('a, 'n) merge_stack_item list
    \<Rightarrow> ('k \<times> 'a \<times> store_fn) list \<Rightarrow> ('a, 'n) merge_stack_item list result" where
  "build_loop sha mode cmp store_key bits prev_key stack [] = Ok stack"
| "build_loop sha mode cmp store_key bits prev_key stack ((key, extra, v) # entries) =
    (let push =
       ok (store_key key bd_new) (\<lambda>pfx.
       ok (msi_reduce sha mode stack (as_data_slice pfx) bits) (\<lambda>(lcp, stack).
       build_loop sha mode cmp store_key bits (Some key) (MsLeaf pfx v extra lcp # stack) entries))
     in case prev_key of
          None \<Rightarrow> push
        | Some prev \<Rightarrow>
            (case cmp key prev of
               OrdEqual \<Rightarrow> build_loop sha mode cmp store_key bits prev_key stack entries
             | OrdGreater \<Rightarrow> push
             | OrdLess \<Rightarrow> Err InvalidData))"

definition build_dict_from_sorted_iter :: "sha256 \<Rightarrow> ('k \<Rightarrow> 'k \<Rightarrow> cmp_ordering)
    \<Rightarrow> ('k \<Rightarrow> cell_data_builder \<Rightarrow> cell_data_builder result) \<Rightarrow> nat \<Rightarrow> ('k \<times> store_fn) list \<Rightarrow> cell option result" where
  "build_dict_from_sorted_iter sha cmp store_key bits entries =
    ok (build_loop sha simple_mode cmp store_key bits None [] (map (\<lambda>(key, v). (key, (), v)) entries)) (\<lambda>stack.
    msi_finalize sha simple_mode stack bits)"

definition build_aug_dict_from_sorted_iter :: "sha256 \<Rightarrow> ('a \<Rightarrow> store_fn) \<Rightarrow> aug_dict_fn \<Rightarrow> ('k \<Rightarrow> 'k \<Rightarrow> cmp_ordering)
    \<Rightarrow> ('k \<Rightarrow> cell_data_builder \<Rightarrow> cell_data_builder result) \<Rightarrow> nat \<Rightarrow> ('k \<times> 'a \<times> store_fn) list \<Rightarrow> cell option result" where
  "build_aug_dict_from_sorted_iter sha store_extra comparator cmp store_key bits entries =
    ok (build_loop sha (aug_mode store_extra comparator) cmp store_key bits None [] entries) (\<lambda>stack.
    msi_finalize sha (aug_mode store_extra comparator) stack bits)"

end
