(* ===== verification/Cell_Load.thy ===== *)
theory Cell_Load
  imports Cell_Store Cell_Slice_Read
begin

text \<open>
  The contract of the trait \<open>Load\<close> (\<^verbatim>\<open>src/cell/slice.rs\<close>) next to that of \<open>Store\<close>: loading from a slice
  that starts with the bits and the references of a value gives the value and leaves what follows.
  \<open>loads\<close> states it of one value, the locale \<open>cell_codec\<close> of a type of values that is stored and loaded;
  what a codec stores in a cell it loads from the cell.
\<close>

section \<open>Bytes and bits\<close>

lemma bytes_bits_append: "bytes_bits (a @ b) = bytes_bits a @ bytes_bits b"
  by (rule nth_equalityI) (auto simp: nbit_append nth_append)

lemma bytes_bits_to_be:
  "8 dvd LENGTH('a) \<Longrightarrow> bytes_bits (to_be_bytes (w :: 'a::len word)) = word_bits LENGTH('a) w"
  by (rule nth_equalityI) (auto simp: nbit_to_be_bytes)

lemma bytes_bits_byte: "bytes_bits [b] = word_bits 8 b"
  by (rule nth_equalityI) (auto simp: nbit_def)

lemma bytes_bits_Cons: "bytes_bits (b # bs) = word_bits 8 b @ bytes_bits bs"
  using bytes_bits_append [of "[b]" bs] by (simp add: bytes_bits_byte)

lemma pack_bytes_bits [simp]: "pack_bits (bytes_bits h) = h"
proof -
  have "div_ceil8 (8 * length h) = length h" by (simp add: div_ceil8_def)
  then have "bytes_bits (pack_bits (bytes_bits h)) = bits_range (pack_bits (bytes_bits h)) 0 (length (bytes_bits h))"
    by (simp add: bytes_bits_def [of "pack_bits (bytes_bits h)"])
  also have "\<dots> = bytes_bits h" by (rule bits_range_pack_bits)
  finally show ?thesis by (simp add: bytes_bits_inj)
qed

section \<open>Loads that consume\<close>

definition loads :: "(cell_slice \<Rightarrow> ('v \<times> cell_slice) result) \<Rightarrow> bool list \<Rightarrow> cell list \<Rightarrow> 'v \<Rightarrow> bool" where
  "loads f xs ys v \<longleftrightarrow> (\<forall>s r q. wf_slice s \<and> \<not> is_virtual (sl_cell s) \<and> slice_bits s = xs @ r \<and> slice_refs s = ys @ q \<longrightarrow>
     (\<exists>s'. f s = Ok (v, s') \<and> wf_slice s' \<and> sl_cell s' = sl_cell s \<and> slice_bits s' = r \<and> slice_refs s' = q))"

lemma loadsI:
  "(\<And>s r q. wf_slice s \<Longrightarrow> \<not> is_virtual (sl_cell s) \<Longrightarrow> slice_bits s = xs @ r \<Longrightarrow> slice_refs s = ys @ q \<Longrightarrow>
     \<exists>s'. f s = Ok (v, s') \<and> wf_slice s' \<and> sl_cell s' = sl_cell s \<and> slice_bits s' = r \<and> slice_refs s' = q) \<Longrightarrow>
   loads f xs ys v"
  by (auto simp: loads_def)

lemma loadsE:
  assumes "loads f xs ys v" "wf_slice s" "\<not> is_virtual (sl_cell s)" "slice_bits s = xs @ r" "slice_refs s = ys @ q"
  obtains s' where "f s = Ok (v, s')" "wf_slice s'" "sl_cell s' = sl_cell s" "slice_bits s' = r" "slice_refs s' = q"
  using assms unfolding loads_def by blast

lemma loads_eq: "loads f xs ys v \<Longrightarrow> xs = xs' \<Longrightarrow> ys = ys' \<Longrightarrow> loads f xs' ys' v"
  by simp

lemma loads_Ok: "loads (\<lambda>s. Ok (v, s)) [] [] v"
  by (rule loadsI) simp

lemma loads_bind:
  assumes "loads f xs ys v" "loads (g v) xs' ys' w"
  shows "loads (\<lambda>s. ok (f s) (\<lambda>(v, s). g v s)) (xs @ xs') (ys @ ys') w"
proof (rule loadsI)
  fix s r q assume s: "wf_slice s" "\<not> is_virtual (sl_cell s)" "slice_bits s = (xs @ xs') @ r" "slice_refs s = (ys @ ys') @ q"
  from loadsE [OF assms(1) s(1,2), of "xs' @ r" "ys' @ q"] s(3,4) obtain s' where
    s': "f s = Ok (v, s')" "wf_slice s'" "sl_cell s' = sl_cell s" "slice_bits s' = xs' @ r" "slice_refs s' = ys' @ q" by auto
  from loadsE [OF assms(2) s'(2) _ s'(4,5)] s'(1,3) s(2) show "\<exists>s'. ok (f s) (\<lambda>(v, s). g v s) = Ok (w, s')
      \<and> wf_slice s' \<and> sl_cell s' = sl_cell s \<and> slice_bits s' = r \<and> slice_refs s' = q" by auto
qed

lemma loads_map: "loads f xs ys v \<Longrightarrow> loads (\<lambda>s. ok (f s) (\<lambda>(v, s). Ok (h v, s))) xs ys (h v)"
  using loads_bind [of f xs ys v "\<lambda>v s. Ok (h v, s)" "[]" "[]" "h v"] by (simp add: loads_Ok)

text \<open>Loading the fields of a structure one after the other.\<close>

lemma loads_fields2:
  assumes "loads f1 x1 y1 v1" "loads f2 x2 y2 v2"
  shows "loads (\<lambda>s. ok (f1 s) (\<lambda>(a1, s). ok (f2 s) (\<lambda>(a2, s). Ok (h a1 a2, s))))
    (x1 @ x2) (y1 @ y2) (h v1 v2)"
  using loads_bind [OF assms(1), where g = "\<lambda>a1 s. ok (f2 s) (\<lambda>(a2, s). Ok (h a1 a2, s))", OF loads_map [where h = "h v1", OF assms(2)]] by simp

lemma loads_fields3:
  assumes "loads f1 x1 y1 v1" "loads f2 x2 y2 v2" "loads f3 x3 y3 v3"
  shows "loads (\<lambda>s. ok (f1 s) (\<lambda>(a1, s). ok (f2 s) (\<lambda>(a2, s). ok (f3 s) (\<lambda>(a3, s). Ok (h a1 a2 a3, s)))))
    (x1 @ x2 @ x3) (y1 @ y2 @ y3) (h v1 v2 v3)"
  using loads_bind [OF assms(1), where g = "\<lambda>a1 s. ok (f2 s) (\<lambda>(a2, s). ok (f3 s) (\<lambda>(a3, s). Ok (h a1 a2 a3, s)))", OF loads_fields2 [where h = "h v1", OF assms(2-3)]] by simp

lemma loads_fields4:
  assumes "loads f1 x1 y1 v1" "loads f2 x2 y2 v2" "loads f3 x3 y3 v3" "loads f4 x4 y4 v4"
  shows "loads (\<lambda>s. ok (f1 s) (\<lambda>(a1, s). ok (f2 s) (\<lambda>(a2, s). ok (f3 s) (\<lambda>(a3, s). ok (f4 s) (\<lambda>(a4, s). Ok (h a1 a2 a3 a4, s))))))
    (x1 @ x2 @ x3 @ x4) (y1 @ y2 @ y3 @ y4) (h v1 v2 v3 v4)"
  using loads_bind [OF assms(1), where g = "\<lambda>a1 s. ok (f2 s) (\<lambda>(a2, s). ok (f3 s) (\<lambda>(a3, s). ok (f4 s) (\<lambda>(a4, s). Ok (h a1 a2 a3 a4, s))))", OF loads_fields3 [where h = "h v1", OF assms(2-4)]] by simp

lemma loads_fields5:
  assumes "loads f1 x1 y1 v1" "loads f2 x2 y2 v2" "loads f3 x3 y3 v3" "loads f4 x4 y4 v4" "loads f5 x5 y5 v5"
  shows "loads (\<lambda>s. ok (f1 s) (\<lambda>(a1, s). ok (f2 s) (\<lambda>(a2, s). ok (f3 s) (\<lambda>(a3, s). ok (f4 s) (\<lambda>(a4, s). ok (f5 s) (\<lambda>(a5, s). Ok (h a1 a2 a3 a4 a5, s)))))))
    (x1 @ x2 @ x3 @ x4 @ x5) (y1 @ y2 @ y3 @ y4 @ y5) (h v1 v2 v3 v4 v5)"
  using loads_bind [OF assms(1), where g = "\<lambda>a1 s. ok (f2 s) (\<lambda>(a2, s). ok (f3 s) (\<lambda>(a3, s). ok (f4 s) (\<lambda>(a4, s). ok (f5 s) (\<lambda>(a5, s). Ok (h a1 a2 a3 a4 a5, s)))))", OF loads_fields4 [where h = "h v1", OF assms(2-5)]] by simp

lemma loads_fields6:
  assumes "loads f1 x1 y1 v1" "loads f2 x2 y2 v2" "loads f3 x3 y3 v3" "loads f4 x4 y4 v4" "loads f5 x5 y5 v5" "loads f6 x6 y6 v6"
  shows "loads (\<lambda>s. ok (f1 s) (\<lambda>(a1, s). ok (f2 s) (\<lambda>(a2, s). ok (f3 s) (\<lambda>(a3, s). ok (f4 s) (\<lambda>(a4, s). ok (f5 s) (\<lambda>(a5, s). ok (f6 s) (\<lambda>(a6, s). Ok (h a1 a2 a3 a4 a5 a6, s))))))))
    (x1 @ x2 @ x3 @ x4 @ x5 @ x6) (y1 @ y2 @ y3 @ y4 @ y5 @ y6) (h v1 v2 v3 v4 v5 v6)"
  using loads_bind [OF assms(1), where g = "\<lambda>a1 s. ok (f2 s) (\<lambda>(a2, s). ok (f3 s) (\<lambda>(a3, s). ok (f4 s) (\<lambda>(a4, s). ok (f5 s) (\<lambda>(a5, s). ok (f6 s) (\<lambda>(a6, s). Ok (h a1 a2 a3 a4 a5 a6, s))))))", OF loads_fields5 [where h = "h v1", OF assms(2-6)]] by simp

lemma loads_fields7:
  assumes "loads f1 x1 y1 v1" "loads f2 x2 y2 v2" "loads f3 x3 y3 v3" "loads f4 x4 y4 v4" "loads f5 x5 y5 v5" "loads f6 x6 y6 v6" "loads f7 x7 y7 v7"
  shows "loads (\<lambda>s. ok (f1 s) (\<lambda>(a1, s). ok (f2 s) (\<lambda>(a2, s). ok (f3 s) (\<lambda>(a3, s). ok (f4 s) (\<lambda>(a4, s). ok (f5 s) (\<lambda>(a5, s). ok (f6 s) (\<lambda>(a6, s). ok (f7 s) (\<lambda>(a7, s). Ok (h a1 a2 a3 a4 a5 a6 a7, s)))))))))
    (x1 @ x2 @ x3 @ x4 @ x5 @ x6 @ x7) (y1 @ y2 @ y3 @ y4 @ y5 @ y6 @ y7) (h v1 v2 v3 v4 v5 v6 v7)"
  using loads_bind [OF assms(1), where g = "\<lambda>a1 s. ok (f2 s) (\<lambda>(a2, s). ok (f3 s) (\<lambda>(a3, s). ok (f4 s) (\<lambda>(a4, s). ok (f5 s) (\<lambda>(a5, s). ok (f6 s) (\<lambda>(a6, s). ok (f7 s) (\<lambda>(a7, s). Ok (h a1 a2 a3 a4 a5 a6 a7, s)))))))", OF loads_fields6 [where h = "h v1", OF assms(2-7)]] by simp

lemma loads_with:
  assumes "\<And>s. wf_slice s \<Longrightarrow> n \<le> size_bits s \<Longrightarrow> take n (slice_bits s) = xs \<Longrightarrow> g s = Ok v" "length xs = n"
  shows "loads (\<lambda>s. load_with s (g s) n) xs [] v"
proof (rule loadsI)
  fix s r q assume s: "wf_slice s" "slice_bits s = xs @ r" "slice_refs s = [] @ q"
  have n: "n \<le> size_bits s" using arg_cong [OF s(2), of length] assms(2) by simp
  show "\<exists>s'. load_with s (g s) n = Ok (v, s') \<and> wf_slice s' \<and> sl_cell s' = sl_cell s \<and> slice_bits s' = r \<and> slice_refs s' = q"
    using assms s n by (intro exI [of _ "advance s n"]) (simp add: load_with_def wf_advance slice_bits_advance)
qed

lemma loads_bit: "loads load_bit [b] [] b"
proof (rule loadsI)
  fix s r q assume s: "wf_slice s" "slice_bits s = [b] @ r" "slice_refs s = [] @ q"
  then have "1 \<le> size_bits s" by (metis append_Cons impossible_Cons length_Cons length_slice_bits le_add1 plus_1_eq_Suc)
  then show "\<exists>s'. load_bit s = Ok (b, s') \<and> wf_slice s' \<and> sl_cell s' = sl_cell s \<and> slice_bits s' = r \<and> slice_refs s' = q"
    using s by (intro exI [of _ "advance s 1"]) (simp add: load_bit_spec wf_advance slice_bits_advance)
qed

lemma loads_u8: "loads load_u8 (word_bits 8 v) [] v"
  unfolding load_u8_def [abs_def]
  by (intro loads_with) (simp_all add: get_small_uint_spec word_of_bits_word_bits [where 'a = 8, simplified])

lemma loads_u16: "loads load_u16 (word_bits 16 v) [] v"
  unfolding load_u16_def [abs_def]
  by (intro loads_with) (simp_all add: get_u16_spec word_of_bits_word_bits [where 'a = 16, simplified])

lemma loads_u32: "loads load_u32 (word_bits 32 v) [] v"
  unfolding load_u32_def [abs_def]
  by (intro loads_with) (simp_all add: get_u32_spec word_of_bits_word_bits [where 'a = 32, simplified])

lemma loads_u64: "loads load_u64 (word_bits 64 v) [] v"
  unfolding load_u64_def [abs_def]
  by (intro loads_with) (simp_all add: get_u64_spec word_of_bits_word_bits [where 'a = 64, simplified])

lemma loads_u256: "length v = 32 \<Longrightarrow> loads load_u256 (bytes_bits v) [] v"
  unfolding load_u256_def [abs_def]
  by (intro loads_with) (auto simp: get_u256_spec)

lemma loads_uint:
  assumes "n \<le> 64" "take_bit n v = v"
  shows "loads (\<lambda>s. load_uint s n) (word_bits n v) [] v"
proof -
  have "word_of_bits (word_bits n v) = v"
  proof (rule bit_word_eqI)
    fix i assume "i < LENGTH(64)"
    then show "bit (word_of_bits (word_bits n v) :: 64 word) i = bit v i"
      using arg_cong [OF assms(2), of "\<lambda>w. bit w i"] by (auto simp: bit_simps)
  qed
  then show ?thesis
    unfolding load_uint_def [abs_def]
    using assms(1) by (intro loads_with) (auto simp: get_uint_spec word_bits_def word_of_bits_def)
qed

lemma slice_refs_Cons:
  assumes "wf_slice s" "slice_refs s = c # q"
  shows "refs_start (sl_range s) < refs_end (sl_range s)" "reference (sl_cell s) (refs_start (sl_range s)) = Some c"
    "wf_slice (advance_refs s)" "sl_cell (advance_refs s) = sl_cell s" "slice_bits (advance_refs s) = slice_bits s"
    "slice_refs (advance_refs s) = q"
proof -
  let ?i = "refs_start (sl_range s)" and ?e = "refs_end (sl_range s)"
  show lt: "?i < ?e" using assms(2) by (cases "?i < ?e") (auto simp: slice_refs_def)
  then have u: "[?i..<?e] = ?i # [Suc ?i..<?e]" by (rule upt_conv_Cons)
  obtain d where "reference (sl_cell s) ?i = Some d" by (rule wf_slice_reference [OF assms(1) lt])
  then show "reference (sl_cell s) ?i = Some c" using assms(2) u by (simp add: slice_refs_def)
  have a: "u8_add ?i 1 = Suc ?i" "u8_add ?i (Suc 0) = Suc ?i" using lt wf_sliceD(6) [OF assms(1)] by simp_all
  show "wf_slice (advance_refs s)" using assms(1) lt by (simp add: wf_slice_def advance_refs_def a)
  show "sl_cell (advance_refs s) = sl_cell s" by (simp add: advance_refs_def)
  show "slice_bits (advance_refs s) = slice_bits s" by (simp add: advance_refs_def slice_bits_def)
  show "slice_refs (advance_refs s) = q" using assms(2) u by (simp add: slice_refs_def advance_refs_def a)
qed

lemma loads_reference: "loads load_reference [] [c] c" and loads_reference_cloned: "loads load_reference_cloned [] [c] c"
  using slice_refs_Cons by (auto intro!: loadsI simp: load_reference_def load_reference_cloned_def reference_cloned_plain)

section \<open>The implementations of the trait\<close>

text \<open>The provided implementations for options and tuples; integers, hashes and references are the methods of the slice.\<close>

definition load_option :: "(cell_slice \<Rightarrow> ('v \<times> cell_slice) result) \<Rightarrow> cell_slice \<Rightarrow> ('v option \<times> cell_slice) result" where
  "load_option f s = ok (load_bit s) (\<lambda>(b, s).
    if b then ok (f s) (\<lambda>(v, s). Ok (Some v, s)) else Ok (None, s))"

definition load_pair :: "(cell_slice \<Rightarrow> ('v \<times> cell_slice) result) \<Rightarrow> (cell_slice \<Rightarrow> ('w \<times> cell_slice) result)
    \<Rightarrow> cell_slice \<Rightarrow> (('v \<times> 'w) \<times> cell_slice) result" where
  "load_pair f g s = ok (f s) (\<lambda>(v, s). ok (g s) (\<lambda>(w, s). Ok ((v, w), s)))"

lemma loads_pair: "loads f xs ys v \<Longrightarrow> loads g xs' ys' w \<Longrightarrow> loads (load_pair f g) (xs @ xs') (ys @ ys') (v, w)"
  unfolding load_pair_def [abs_def] by (erule loads_bind) (erule loads_map)

lemma loads_option_None: "loads (load_option f) [False] [] None"
  unfolding load_option_def [abs_def]
  using loads_bind [OF loads_bit [of False], of "\<lambda>b s. if b then ok (f s) (\<lambda>(v, s). Ok (Some v, s)) else Ok (None, s)"]
    loads_Ok by fastforce

lemma loads_option_Some:
  assumes "loads f xs ys v"
  shows "loads (load_option f) (True # xs) ys (Some v)"
  unfolding load_option_def [abs_def]
  using loads_bind [OF loads_bit [of True], of "\<lambda>b s. if b then ok (f s) (\<lambda>(v, s). Ok (Some v, s)) else Ok (None, s)"]
    loads_map [OF assms, of Some] by fastforce

section \<open>Types that are stored and loaded\<close>

text \<open>A value is written to a cell and read back from it, and nothing is left over.\<close>

definition reads_back :: "sha256 \<Rightarrow> ('v \<Rightarrow> cell_builder \<Rightarrow> cell_builder result)
    \<Rightarrow> (cell_slice \<Rightarrow> ('v \<times> cell_slice) result) \<Rightarrow> 'v \<Rightarrow> bool" where
  "reads_back sha store_into load_from v \<longleftrightarrow> (\<exists>c s s'. build_from sha (store_into v) = Ok c \<and> slice_new c = Ok s
     \<and> load_from s = Ok (v, s') \<and> slice_bits s' = [] \<and> slice_refs s' = [])"

locale cell_codec = cell_store +
  fixes load :: "cell_slice \<Rightarrow> ('a \<times> cell_slice) result"
  assumes load_loads: "valid v \<Longrightarrow> loads load (bits_of v) (refs_of v) v"
begin

text \<open>What is stored in a cell is loaded from it, and nothing is left.\<close>

lemma build_then_load:
  assumes "valid v" "list_all wf_cell (refs_of v)" "build_from sha (store v) = Ok c"
  obtains s s' where "slice_new c = Ok s" "load s = Ok (v, s')" "slice_bits s' = []" "slice_refs s' = []"
proof -
  from build_from_holds [OF assms] have h: "holds c (bits_of v) (refs_of v)" .
  note s = holds_slice [OF h]
  from loadsE [OF load_loads [OF assms(1)] s(2), of "[]" "[]"] holds_not_virtual [OF h] s
  show thesis using that by auto
qed

lemma stored_reads_back:
  assumes "valid v" "length (bits_of v) \<le> 1023" "length (refs_of v) \<le> 4"
    "list_all wf_cell (refs_of v)" "list_all (depth_le D) (refs_of v)" "D < 65535"
  shows "reads_back sha store load v"
proof -
  obtain c where c: "build_ext sha (mk_cb (bits_of v) (refs_of v)) = Ok c"
    by (rule build_ext_ok [of "bits_of v" "refs_of v" D sha]) (use assms in auto)
  then have b: "build_from sha (store v) = Ok c" using assms by (simp add: build_from_def store_new)
  show ?thesis
    by (rule build_then_load [OF assms(1,4) b]) (auto simp: reads_back_def b)
qed

lemma option_loads:
  "(\<And>x. v = Some x \<Longrightarrow> valid x) \<Longrightarrow> loads (load_option load)
    (case v of None \<Rightarrow> [False] | Some x \<Rightarrow> True # bits_of x) (case v of None \<Rightarrow> [] | Some x \<Rightarrow> refs_of x) v"
  by (cases v) (simp_all add: loads_option_None loads_option_Some load_loads)

end

interpretation u32_codec: cell_codec "\<lambda>_. True" "word_bits 32" "\<lambda>_. []" "\<lambda>v. on_inner (\<lambda>d. store_u32 d v)" load_u32
  by unfold_locales (rule loads_u32)

interpretation u256_codec: cell_codec "\<lambda>h. length h = 32" bytes_bits "\<lambda>_. []" "\<lambda>h. on_inner (\<lambda>d. store_u256 d h)" load_u256
  by unfold_locales (rule loads_u256)

interpretation reference_codec: cell_codec "\<lambda>_. True" "\<lambda>_. []" "\<lambda>c. [c]" "\<lambda>c b. store_reference b c" load_reference_cloned
  by unfold_locales (rule loads_reference_cloned)

end
