(* ===== verification/Dict_Split_Props.thy ===== *)
theory Dict_Split_Props
  imports Dict_Split Dict_Map Dict_Iter_Props Cell_Load
begin

text \<open>
  Splitting a dictionary restricts its map to the keys below either bit after the prefix; merging siblings
  and \<open>dict_merge\<close> join two maps.
\<close>

section \<open>Splitting\<close>

definition below :: "bool list \<Rightarrow> bool \<Rightarrow> bool list set" where
  "below p b = {k. take (length p + 1) k = p @ [b]}"

lemma below_iff: "k \<in> below p b \<longleftrightarrow> (\<exists>r. k = p @ b # r)"
proof
  assume "k \<in> below p b"
  then have "k = (p @ [b]) @ drop (length p + 1) k" using append_take_drop_id [of "length p + 1" k] by (simp add: below_def)
  then show "\<exists>r. k = p @ b # r" by (metis append.assoc append_Cons append_Nil)
qed (auto simp: below_def)

lemma stores_rep: "rep K D V n c t \<Longrightarrow> pt_lookup t = m \<Longrightarrow> stores K D V n (Some c) m"
  by (intro storesI [of _ _ _ _ _ "Some t"]) simp_all

lemma load_reference_Cons:
  "wf_slice s \<Longrightarrow> slice_refs s = c # q \<Longrightarrow> load_reference s = Ok (c, advance_refs s)"
  using slice_refs_Cons(1,2) [of s c q] by (simp add: load_reference_def)

lemma rebuild_branch_spec:
  assumes "rep K D V m c u" "room D V n" "n = size_bits p + 1 + m" "wf_slice p" "\<not> is_virtual (sl_cell p)"
    and "wf_slice s" "slice_refs s = c # q" "canon_by sha K"
  obtains c' where "rebuild_branch sha n p m b s = Ok (c', advance_refs s)" "rep K D V n c' (pt_join (slice_bits p) b u)"
proof -
  note n = room_len(2) [OF assms(2)]
  have "m \<le> 1023" using n assms(3) by simp
  from read_edge [OF assms(1) this] obtain l t where r: "slice_new c = Ok (slice_new_allow_exotic c)"
    "read_label (slice_new_allow_exotic c) m = Ok (l, t)" "wf_slice l" "slice_bits l = pt_label u"
    "wf_slice t" "slice_bits t = pt_rest u" "slice_refs t = cell_children c" "sl_cell t = c" .
  let ?key = "slice_bits p @ b # pt_label u"
  have len: "length ?key \<le> n" using pt_inv_label [OF rep_inv [OF assms(1)]] assms(3) by simp
  have rl: "length (slice_refs p) \<le> 4" using wf_sliceD(5,6) [OF assms(4)] by (simp add: slice_refs_def)
  have kb: "ok (store_slice cb_new p) (\<lambda>kb. ok (on_inner (\<lambda>d. store_bit d b) kb) (on_inner (\<lambda>d. store_slice_data d l)))
      = Ok (mk_cb ?key (slice_refs p))"
    using appendsD [OF appends_bind [OF appends_store_slice [OF assms(4,5)]
        appends_bind [OF appends_inner [of "\<lambda>d. store_bit d b" "[b]"] appends_store_slice_data [OF r(3)]]], of "[]" "[]"] len n rl r(4)
    by (simp add: cb_new_mk cb_appended_def MAX_BIT_LEN_def MAX_REF_COUNT_def)
  let ?k = "as_data_slice (mk_bd ?key)"
  have k: "wf_slice ?k" "slice_bits ?k = ?key" using as_data_slice_spec [of "mk_bd ?key"] len n by simp_all
  then have "size_bits ?k + m = length (pt_label u) + n" using assms(3) length_slice_bits [of ?k] by simp
  from make_leaf_relabel [OF assms(1,2) this k(1) r(5-8) assms(8)] obtain c'
    where c': "make_leaf sha ?k n (\<lambda>b. store_slice b t) = Ok c'" "rep K D V n c' (pt_relabel ?key u)" unfolding k(2) .
  show thesis
  proof
    from kb obtain k1 k2 where k: "store_slice cb_new p = Ok k1" "on_inner (\<lambda>d. store_bit d b) k1 = Ok k2"
      "on_inner (\<lambda>d. store_slice_data d l) k2 = Ok (mk_cb ?key (slice_refs p))"
      by (auto simp: ok_eq_Ok_iff)
    have "ok (write_label ?k n cb_new) (\<lambda>builder. ok (store_slice builder t) (\<lambda>builder. build_ext sha builder)) = Ok c'"
      using c'(1) by (simp add: make_leaf_def)
    then obtain b1 b2 where "write_label ?k n cb_new = Ok b1" "store_slice b1 t = Ok b2" "build_ext sha b2 = Ok c'"
      by (auto simp: ok_eq_Ok_iff)
    then show "rebuild_branch sha n p m b s = Ok (c', advance_refs s)"
      using load_reference_Cons [OF assms(6,7)] r(1,2) k by (simp add: rebuild_branch_def mk_cb_def)
    show "rep K D V n c' (pt_join (slice_bits p) b u)" using c'(2) by (simp add: pt_join_def)
  qed
qed

text \<open>The keys of a tree begin with its label, and with nothing longer if it is a fork.\<close>

lemma pt_keys_prefix:
  assumes "pt_inv n t" "length p < n"
  shows "(\<forall>k \<in> dom (pt_lookup t). take (length p) k = p) \<longleftrightarrow> take (length p) (pt_label t) = p"
proof
  assume a: "take (length p) (pt_label t) = p"
  then have l: "length p \<le> length (pt_label t)" by (metis length_take min.cobounded1)
  show "\<forall>k \<in> dom (pt_lookup t). take (length p) k = p"
  proof
    fix k assume "k \<in> dom (pt_lookup t)"
    then have "take (length (pt_label t)) k = pt_label t" using pt_lookup_label by (auto simp: dom_def)
    then show "take (length p) k = p" using a l by (metis min.absorb1 take_take)
  qed
next
  assume a: "\<forall>k \<in> dom (pt_lookup t). take (length p) k = p"
  show "take (length p) (pt_label t) = p"
  proof (cases t)
    case (PLeaf lab vb vr)
    then show ?thesis using a by (simp add: dom_def)
  next
    case (PFork lab l r)
    obtain x y where xy: "pt_lookup l x \<noteq> None" "pt_lookup r y \<noteq> None" using pt_has_key by metis
    then have "lab @ False # x \<in> dom (pt_lookup t)" "lab @ True # y \<in> dom (pt_lookup t)"
      by (simp_all add: PFork dom_def)
    then have *: "take (length p) (lab @ False # x) = p" "take (length p) (lab @ True # y) = p" using a by blast+
    show ?thesis
    proof (cases "length p \<le> length lab")
      case True
      then show ?thesis using *(1) by (simp add: PFork)
    next
      case False
      then have "take (length p) (lab @ False # x) ! length lab = False" "take (length p) (lab @ True # y) ! length lab = True"
        by (simp_all add: nth_append)
      then show ?thesis using * by simp
    qed
  qed
qed

lemma restrict_all: "dom m \<subseteq> A \<Longrightarrow> m |` A = m"
  by (rule ext) (metis domIff restrict_map_def subsetD)

lemma restrict_none: "dom m \<inter> A = {} \<Longrightarrow> m |` A = (\<lambda>_. None)"
  by (auto simp: restrict_map_def fun_eq_iff dom_def)

lemma pt_lookup_outside: "take (length (pt_label t)) k \<noteq> pt_label t \<Longrightarrow> pt_lookup t k = None"
  using pt_lookup_label [of t k] by (cases "pt_lookup t k") auto

text \<open>A tree whose label goes on after the prefix lies on one side.\<close>

lemma pt_one_side:
  assumes "pt_label t = p @ b # r"
  shows "dom (pt_lookup t) \<subseteq> below p b" "dom (pt_lookup t) \<inter> below p (\<not> b) = {}"
proof -
  show *: "dom (pt_lookup t) \<subseteq> below p b"
  proof
    fix k assume "k \<in> dom (pt_lookup t)"
    then have "take (length (p @ b # r)) k = (p @ [b]) @ r" using pt_lookup_label [of t k] assms by (auto simp: dom_def)
    then have "take (length p + 1) (take (length (p @ b # r)) k) = p @ [b]" by simp
    then show "k \<in> below p b" by (simp add: below_def)
  qed
  then show "dom (pt_lookup t) \<inter> below p (\<not> b) = {}" by (auto simp: below_def)
qed

text \<open>The two sides of a fork.\<close>

lemma pt_side:
  assumes "pt_inv n (PFork p l r)"
  shows "pt_lookup (pt_join p b (if b then r else l)) = pt_lookup (PFork p l r) |` below p b"
proof
  fix k
  let ?u = "if b then r else l"
  have i: "pt_inv (n - length p - 1) ?u" "length p < n" using assms by auto
  note j = pt_join_map [OF i, where b = b]
  show "pt_lookup (pt_join p b ?u) k = (pt_lookup (PFork p l r) |` below p b) k"
  proof (cases "take (length p) k = p")
    case False
    then have "k \<notin> below p b" by (auto simp: below_iff)
    then show ?thesis using j(3) [OF False] by simp
  next
    case True
    then obtain q where k: "k = p @ q" by (metis append_take_drop_id)
    show ?thesis
    proof (cases q)
      case Nil
      then show ?thesis using j(4) by (simp add: k below_def)
    next
      case (Cons c q')
      have "k \<in> below p b \<longleftrightarrow> c = b" by (simp add: k Cons below_def)
      then show ?thesis using j(2) [where c = c and k = q'] by (auto simp: k Cons restrict_map_def)
    qed
  qed
qed

theorem dict_split_stores:
  assumes "stores K D V n d m" "room D V n" "wf_slice p" "\<not> is_virtual (sl_cell p)" "size_bits p < n" "canon_by sha K"
  shows "if \<forall>k \<in> dom m. take (size_bits p) k = slice_bits p
    then \<exists>l r. dict_split_by_prefix sha d n p = Ok (l, r)
      \<and> stores K D V n l (m |` below (slice_bits p) False) \<and> stores K D V n r (m |` below (slice_bits p) True)
    else dict_split_by_prefix sha d n p = Err CellUnderflow"
proof (cases d)
  case None
  then have "m = (\<lambda>_. None)" using assms(1) by (simp add: stores_None)
  then show ?thesis using assms(5) None by (simp add: dict_split_by_prefix_def stores_None restrict_map_def)
next
  case (Some c)
  from assms(1) obtain t where t: "rep K D V n c t" "pt_lookup t = m"
    by (auto simp: stores_def Some split: option.splits)
  let ?p = "slice_bits p"
  have sp: "length ?p < n" using assms(5) by simp
  from read_edge [OF t(1) room_len(2) [OF assms(2)]] obtain lb s
    where r: "slice_new c = Ok (slice_new_allow_exotic c)"
      "read_label (slice_new_allow_exotic c) n = Ok (lb, s)" "wf_slice lb" "slice_bits lb = pt_label t"
      "wf_slice s" "slice_bits s = pt_rest t" "slice_refs s = cell_children c" "sl_cell s = c" .
  have pre: "(\<forall>k \<in> dom m. take (size_bits p) k = ?p) \<longleftrightarrow> take (size_bits p) (pt_label t) = ?p"
    using pt_keys_prefix [OF rep_inv [OF t(1)] sp] t(2) by simp
  have sd: "strip_data_prefix lb p = (if take (size_bits p) (pt_label t) = ?p then Some (advance lb (size_bits p)) else None)"
    using strip_data_prefix_spec [OF r(3) assms(3)] r(4) by simp
  note df = dict_split_by_prefix_def Some
  show ?thesis
  proof (cases "take (size_bits p) (pt_label t) = ?p")
    case False
    then show ?thesis unfolding pre using r(1,2) sd sp by (simp add: df)
  next
    case True
    have ll: "size_bits lb = length (pt_label t)" using r(4) length_slice_bits by metis
    have "size_bits p \<le> size_bits lb" using True unfolding ll by (metis length_slice_bits length_take min.cobounded1)
    then have a: "wf_slice (advance lb (size_bits p))" "slice_bits (advance lb (size_bits p)) = drop (size_bits p) (pt_label t)"
      using r(3,4) by (simp_all add: wf_advance slice_bits_advance)
    have lab: "pt_label t = ?p @ drop (size_bits p) (pt_label t)" using True append_take_drop_id by metis
    show ?thesis
    proof (cases "drop (size_bits p) (pt_label t)")
      case (Cons b q)
      have g: "get_bit (advance lb (size_bits p)) 0 = Ok b"
        using get_bit_spec [OF a(1), of 0] a(2) Cons length_slice_bits [of "advance lb (size_bits p)"] by simp
      have "dict_split_by_prefix sha d n p = Ok (if b then (None, d) else (d, None))"
        using r(1,2) sd True sp g a(2) Cons by (simp add: df is_data_empty_iff)
      moreover have "stores K D V n d (m |` below ?p b)" "m |` below ?p (\<not> b) = (\<lambda>_. None)"
        using pt_one_side [of t ?p b q] lab Cons assms(1) t(2) by (simp_all add: restrict_all restrict_none)
      ultimately show ?thesis unfolding pre using True by (cases b) (simp_all add: stores_None)
    next
      case Nil
      then have e: "pt_label t = ?p" using lab by simp
      obtain u v where f: "t = PFork ?p u v"
        using e rep_inv [OF t(1)] sp by (cases t) auto
      let ?m = "n - length ?p - 1"
      from t(1) obtain lc rc where ch: "cell_children c = [lc, rc]" "rep K D V ?m lc u" "rep K D V ?m rc v"
        by (auto simp: f holds_def)
      have nm: "n = size_bits p + 1 + ?m" using sp by simp
      note r7 = r(7) [unfolded ch(1)]
      note s2 = slice_refs_Cons(3,6) [OF r(5) r7]
      obtain l' where l': "rebuild_branch sha n p ?m False s = Ok (l', advance_refs s)" "rep K D V n l' (pt_join ?p False u)"
        by (rule rebuild_branch_spec [OF ch(2) assms(2) nm assms(3,4) r(5) r7 assms(6)])
      obtain r' where r': "rebuild_branch sha n p ?m True (advance_refs s) = Ok (r', advance_refs (advance_refs s))"
          "rep K D V n r' (pt_join ?p True v)"
        by (rule rebuild_branch_spec [OF ch(3) assms(2) nm assms(3,4) s2 assms(6)])
      have "size_bits lb = size_bits p" using ll e by simp
      then have "dict_split_by_prefix sha d n p = Ok (Some l', Some r')"
        using r(1,2) sd True sp l'(1) r'(1) a(2) Nil by (simp add: df is_data_empty_iff)
      moreover have "stores K D V n (Some l') (m |` below ?p False)" "stores K D V n (Some r') (m |` below ?p True)"
        using l'(2) r'(2) pt_side [OF rep_inv [OF t(1) [unfolded f]], of False] pt_side [OF rep_inv [OF t(1) [unfolded f]], of True] t(2) f
        by (auto intro!: stores_rep)
      ultimately show ?thesis unfolding pre using True by simp
    qed
  qed
qed

section \<open>Merging siblings\<close>

lemma lcp_cases:
  obtains (prefix_label) "lcp_len xs ys = min (length xs) (length ys)"
  | (parted) q b us vs where "xs = q @ b # us" "ys = q @ (\<not> b) # vs" "lcp_len xs ys = length q"
proof (cases "lcp_len xs ys < min (length xs) (length ys)")
  case False
  then have "lcp_len xs ys = min (length xs) (length ys)" using lcp_len_le [of xs ys] by linarith
  then show thesis by (rule prefix_label)
next
  case True
  let ?k = "lcp_len xs ys"
  have d: "ys ! ?k = (\<not> xs ! ?k)" using True lcp_len_diff [of xs ys] by auto
  show thesis
  proof (rule parted)
    show "xs = take ?k xs @ xs ! ?k # drop (Suc ?k) xs" using True by (intro id_take_nth_drop) simp
    show "ys = take ?k xs @ (\<not> xs ! ?k) # drop (Suc ?k) ys"
      using id_take_nth_drop [of ?k ys] lcp_len_take [of xs ys] d True by simp
    show "?k = length (take ?k xs)" using True by simp
  qed
qed

text \<open>Relabelling a tree under a fork does not change its content.\<close>

lemma pt_relabel_side:
  assumes "pt_label t = q @ b # ls"
  shows "pt_lookup (pt_relabel ls t) k = pt_lookup t (q @ b # k)"
proof (cases "take (length ls) k = ls")
  case True
  then have "q @ b # k = pt_label t @ drop (length ls) k" using append_take_drop_id [of "length ls" k] by (simp add: assms)
  then show ?thesis using True by (simp add: pt_lookup_relabel)
next
  case False
  then show ?thesis using pt_lookup_outside [of t "q @ b # k"] by (simp add: pt_lookup_relabel assms)
qed

lemma pt_merge_map:
  assumes "pt_label t = q @ False # ls" "pt_label u = q @ True # us"
  shows "pt_lookup (PFork q (pt_relabel ls t) (pt_relabel us u)) = pt_lookup t ++ pt_lookup u"
proof
  fix k
  show "pt_lookup (PFork q (pt_relabel ls t) (pt_relabel us u)) k = (pt_lookup t ++ pt_lookup u) k"
  proof (cases "\<exists>b r. k = q @ b # r")
    case True
    then obtain b r where k: "k = q @ b # r" by blast
    have "pt_lookup t (q @ True # r) = None" "pt_lookup u (q @ False # r) = None"
      using assms by (simp_all add: pt_lookup_outside)
    then show ?thesis using pt_relabel_side [OF assms(1), of r] pt_relabel_side [OF assms(2), of r]
      by (cases b) (simp_all add: k map_add_def split: option.split)
  next
    case False
    have "pt_lookup t k = None"
    proof (rule ccontr)
      assume "pt_lookup t k \<noteq> None"
      then have "k \<in> below q False" using pt_one_side(1) [OF assms(1)] by auto
      then show False using False by (auto simp: below_iff)
    qed
    moreover have "pt_lookup u k = None"
    proof (rule ccontr)
      assume "pt_lookup u k \<noteq> None"
      then have "k \<in> below q True" using pt_one_side(1) [OF assms(2)] by auto
      then show False using False by (auto simp: below_iff)
    qed
    moreover have "pt_lookup (PFork q (pt_relabel ls t) (pt_relabel us u)) k = None"
      using False by (auto split: list.splits) (metis append_take_drop_id)+
    ultimately show ?thesis by (simp add: map_add_def)
  qed
qed

text \<open>The siblings that merge: the label of the left one turns left where that of the right one turns right.\<close>

lemma merge_roots_spec:
  assumes "rep K D V n c t" "rep K D V n e u" "room D V n" "canon_by sha K"
  shows "if \<exists>q ls us. pt_label t = q @ False # ls \<and> pt_label u = q @ True # us
    then \<exists>r w. dict_merge_sibling_roots sha n c e None = Ok r \<and> rep K D V n r w \<and> pt_lookup w = pt_lookup t ++ pt_lookup u
    else dict_merge_sibling_roots sha n c e None = Err InvalidData"
proof -
  note n = room_len(2) [OF assms(3)]
  from read_edge [OF assms(1) n] obtain l s where r: "slice_new c = Ok (slice_new_allow_exotic c)"
    "read_label (slice_new_allow_exotic c) n = Ok (l, s)" "wf_slice l" "slice_bits l = pt_label t"
    "wf_slice s" "slice_bits s = pt_rest t" "slice_refs s = cell_children c" "sl_cell s = c" .
  from read_edge [OF assms(2) n] obtain l' s' where r': "slice_new e = Ok (slice_new_allow_exotic e)"
    "read_label (slice_new_allow_exotic e) n = Ok (l', s')" "wf_slice l'" "slice_bits l' = pt_label u"
    "wf_slice s'" "slice_bits s' = pt_rest u" "slice_refs s' = cell_children e" "sl_cell s' = e" .
  have sl: "size_bits l = length (pt_label t)" "size_bits l' = length (pt_label u)"
    using r(4) r'(4) length_slice_bits by metis+
  let ?lcp = "longest_common_data_prefix l l'"
  note lcp = longest_common_data_prefix_spec [OF r(3) r'(3), unfolded r(4) r'(4)]
  note df = dict_merge_sibling_roots_def Let_def
  show ?thesis
  proof (cases "pt_label t" "pt_label u" rule: lcp_cases)
    case prefix_label
    then have no: "\<not> (\<exists>q ls us. pt_label t = q @ False # ls \<and> pt_label u = q @ True # us)" by auto
    have "dict_merge_sibling_roots sha n c e None = Err InvalidData"
      using r(1,2) r'(1,2) sl lcp(3) prefix_label by (simp add: df)
    then show ?thesis using no by simp
  next
    case (parted q b ls us)
    have ll: "length q + 1 + length ls \<le> n" "length q + 1 + length us \<le> n"
      using pt_inv_label [OF rep_inv [OF assms(1)]] pt_inv_label [OF rep_inv [OF assms(2)]] parted(1,2) by simp_all
    have sk: "skip_first l (length q) 0 = Ok (advance l (length q))" "skip_first l' (length q) 0 = Ok (advance l' (length q))"
      using r(3) r'(3) sl parted(1,2) wf_sliceD(7) [OF r(3)] wf_sliceD(7) [OF r'(3)] by (simp_all add: skip_first_advance)
    have a: "wf_slice (advance l (length q))" "slice_bits (advance l (length q)) = b # ls"
      "wf_slice (advance l' (length q))" "slice_bits (advance l' (length q)) = (\<not> b) # us"
      using r(3,4) r'(3,4) sl parted(1,2) by (simp_all add: wf_advance slice_bits_advance)
    note a1 = advance_Cons [OF a(1,2)] and a2 = advance_Cons [OF a(3,4)]
    have lc: "size_bits ?lcp = length q" "slice_bits ?lcp = q" using lcp(2,3) parted(1,3) by simp_all
    have go: "\<not> (length q \<ge> min (size_bits l) (size_bits l'))" "min (size_bits l) (size_bits l') \<noteq> 0" "\<not> n < length q + 1"
      using sl parted(1,2) ll by simp_all
    show ?thesis
    proof (cases b)
      case True
      have no: "\<not> (\<exists>q ls us. pt_label t = q @ False # ls \<and> pt_label u = q @ True # us)"
      proof
        assume "\<exists>q ls us. pt_label t = q @ False # ls \<and> pt_label u = q @ True # us"
        then obtain q' x y where "pt_label t = q' @ False # x" "pt_label u = q' @ True # y" by blast
        moreover from this have "length q' = length q" using parted(3) by simp
        ultimately have "(q' @ False # x) ! length q' = (q @ b # ls) ! length q" using parted(1) by simp
        then show False using True by simp
      qed
      have "dict_merge_sibling_roots sha n c e None = Err InvalidData"
        using r(1,2) r'(1,2) lc(1) go sk load_bit_Cons [OF a(1,2)] True by (simp add: df)
      then show ?thesis using no by simp
    next
      case False
      let ?m = "n - 1 - length q"
      have rm: "room D V ?m" using room_mono [OF assms(3)] by simp
      let ?x = "advance (advance l (length q)) 1" and ?y = "advance (advance l' (length q)) 1"
      have z: "size_bits ?x = length ls" "size_bits ?y = length us" using a1(2) a2(2) length_slice_bits by metis+
      have e1: "size_bits ?x + n = length (pt_label t) + ?m" "size_bits ?y + n = length (pt_label u) + ?m"
        using z ll parted(1,2) by simp_all
      obtain c1 where c1: "make_leaf sha ?x ?m (\<lambda>b. store_slice b s) = Ok c1" "rep K D V ?m c1 (pt_relabel ls t)"
        using make_leaf_relabel [OF assms(1) rm e1(1) a1(1) r(5-8) assms(4)] a1(2) by metis
      obtain c2 where c2: "make_leaf sha ?y ?m (\<lambda>b. store_slice b s') = Ok c2" "rep K D V ?m c2 (pt_relabel us u)"
        using make_leaf_relabel [OF assms(2) rm e1(2) a2(1) r'(5-8) assms(4)] a2(2) by metis
      have m: "?m = n - length q - 1" "length q < n" using ll by simp_all
      from rep_fork [OF assms(3) m(2) c1(2) [unfolded m(1)] c2(2) [unfolded m(1)] assms(4)] obtain w
        where w: "build_ext sha (mk_cb (label_bits n q) [c1, c2]) = Ok w" "rep K D V n w (PFork q (pt_relabel ls t) (pt_relabel us u))" .
      have "ok (write_label ?lcp n cb_new) (\<lambda>b. ok (store_reference b c1) (\<lambda>b. ok (store_reference b c2) (build_ext sha))) = Ok w"
        using build_fork [OF lcp(1) _ assms(3), where sha = sha and a = c1 and b = c2] lc ll w(1) by simp
      then have "dict_merge_sibling_roots sha n c e None = Ok w"
        using r(1,2) r'(1,2) lc(1) go sk load_bit_Cons [OF a(1,2)] load_bit_Cons [OF a(3,4)] False c1(1) c2(1) by (simp add: df)
      moreover have "pt_lookup (PFork q (pt_relabel ls t) (pt_relabel us u)) = pt_lookup t ++ pt_lookup u"
        using parted(1,2) False by (intro pt_merge_map) simp_all
      moreover have "\<exists>q ls us. pt_label t = q @ False # ls \<and> pt_label u = q @ True # us" using parted(1,2) False by auto
      ultimately show ?thesis using w(2) by (metis (no_types))
    qed
  qed
qed

text \<open>The same condition on the keys.\<close>

lemma pt_sides_iff:
  assumes "pt_inv n t" "pt_inv n u"
  shows "(\<exists>q. dom (pt_lookup t) \<subseteq> below q False \<and> dom (pt_lookup u) \<subseteq> below q True)
    \<longleftrightarrow> (\<exists>q ls us. pt_label t = q @ False # ls \<and> pt_label u = q @ True # us)"
proof
  have *: "\<exists>r. pt_label t = q @ b # r" if "dom (pt_lookup t) \<subseteq> below q b" "pt_inv n t" for t q b
  proof -
    obtain k where k: "pt_lookup t k \<noteq> None" using pt_has_key by metis
    then have "k \<in> below q b" "length k = n" using that pt_lookup_length by (auto simp: dom_def)
    then have l: "length q < n" by (auto simp: below_iff)
    have "\<forall>k \<in> dom (pt_lookup t). take (length (q @ [b])) k = q @ [b]" using that(1) by (auto simp: below_def)
    then have "take (length (q @ [b])) (pt_label t) = q @ [b]"
    proof (cases "length (q @ [b]) < n")
      case True
      then show ?thesis using pt_keys_prefix [OF that(2) True] \<open>\<forall>k \<in> _. _\<close> by blast
    next
      case False
      then have n: "n = length q + 1" using l by simp
      show ?thesis
      proof (cases t)
        case (PLeaf lab vb vr)
        then show ?thesis using \<open>\<forall>k \<in> _. _\<close> by (auto simp: dom_def split: if_splits)
      next
        case (PFork lab x y)
        obtain i j where ij: "pt_lookup x i \<noteq> None" "pt_lookup y j \<noteq> None" using pt_has_key by metis
        then have k: "lab @ False # i \<in> below q b" "lab @ True # j \<in> below q b" using that(1) by (auto simp: PFork dom_def)
        have "length lab \<le> length q" using that(2) n by (simp add: PFork)
        moreover have "take (length q + 1) (lab @ False # i) ! length lab = take (length q + 1) (lab @ True # j) ! length lab"
          using k by (simp add: below_def)
        ultimately show ?thesis by (simp add: nth_append)
      qed
    qed
    then show ?thesis using append_take_drop_id [of "length (q @ [b])" "pt_label t"] by (metis append.assoc append_Cons append_Nil)
  qed
  assume "\<exists>q. dom (pt_lookup t) \<subseteq> below q False \<and> dom (pt_lookup u) \<subseteq> below q True"
  then show "\<exists>q ls us. pt_label t = q @ False # ls \<and> pt_label u = q @ True # us" using *  assms by meson
next
  assume "\<exists>q ls us. pt_label t = q @ False # ls \<and> pt_label u = q @ True # us"
  then show "\<exists>q. dom (pt_lookup t) \<subseteq> below q False \<and> dom (pt_lookup u) \<subseteq> below q True" using pt_one_side(1) by metis
qed

text \<open>Both sides of a merge, in terms of their keys.\<close>

lemma dict_merge_siblings_stores:
  assumes "stores K D V n l m1" "stores K D V n r m2" "room D V n" "canon_by sha K"
  shows "if m1 = (\<lambda>_. None) \<or> m2 = (\<lambda>_. None) \<or> (\<exists>p. dom m1 \<subseteq> below p False \<and> dom m2 \<subseteq> below p True)
    then \<exists>d. dict_merge_siblings sha l r n = Ok d \<and> stores K D V n d (m1 ++ m2)
    else dict_merge_siblings sha l r n = Err InvalidData"
proof (cases "l = None \<or> r = None")
  case True
  have e: "(\<lambda>_. None) ++ m = m" for m :: "bool list \<Rightarrow> dict_value option" by (simp add: map_add_def fun_eq_iff split: option.split)
  show ?thesis using True assms(1,2) e by (cases l; cases r) (auto simp: dict_merge_siblings_def stores_None)
next
  case False
  then obtain c1 c2 where lr: "l = Some c1" "r = Some c2" by auto
  obtain t u where t: "rep K D V n c1 t" "pt_lookup t = m1" and u: "rep K D V n c2 u" "pt_lookup u = m2"
    using assms(1,2) by (auto simp: lr stores_def split: option.splits)
  have ne: "m1 \<noteq> (\<lambda>_. None)" "m2 \<noteq> (\<lambda>_. None)" using pt_has_key t(2) u(2) by metis+
  note s = merge_roots_spec [OF t(1) u(1) assms(3,4)] and i = pt_sides_iff [OF rep_inv [OF t(1)] rep_inv [OF u(1)]]
  show ?thesis
  proof (cases "\<exists>q ls us. pt_label t = q @ False # ls \<and> pt_label u = q @ True # us")
    case True
    then obtain w v where w: "dict_merge_sibling_roots sha n c1 c2 None = Ok w" "rep K D V n w v" "pt_lookup v = m1 ++ m2"
      using s t(2) u(2) by auto
    then have "dict_merge_siblings sha l r n = Ok (Some w)" "stores K D V n (Some w) (m1 ++ m2)"
      by (simp_all add: dict_merge_siblings_def lr stores_rep)
    then show ?thesis using True [folded i] t(2) u(2) by auto
  next
    case False
    then have "dict_merge_siblings sha l r n = Err InvalidData" using s by (simp add: dict_merge_siblings_def lr)
    then show ?thesis using False [folded i] t(2) u(2) ne by auto
  qed
qed

text \<open>The two sides of a split merge.\<close>

lemma below_parts: "\<forall>k \<in> dom m. take (length p) k = p \<and> length p < length k \<Longrightarrow> m |` below p False ++ m |` below p True = m"
proof (rule ext)
  fix k assume a: "\<forall>k \<in> dom m. take (length p) k = p \<and> length p < length k"
  show "(m |` below p False ++ m |` below p True) k = m k"
  proof (cases "m k")
    case (Some v)
    then have "take (length p) k = p" "length p < length k" using a by (auto simp: dom_def)
    then have "take (length p + 1) k = p @ [k ! length p]" using take_Suc_conv_app_nth [of "length p" k] by simp
    then have "k \<in> below p (k ! length p)" "\<And>b. k \<in> below p b \<Longrightarrow> b = (k ! length p)" by (simp_all add: below_def)
    then show ?thesis using Some by (cases "k ! length p") (auto simp: map_add_def restrict_map_def)
  qed (simp add: map_add_def restrict_map_def)
qed

lemma dict_split_merge:
  assumes "stores (Some sha) D V n d m" "room D V n" "wf_slice p" "\<not> is_virtual (sl_cell p)" "size_bits p < n"
    and "\<forall>k \<in> dom m. take (size_bits p) k = slice_bits p"
  shows "\<exists>l r. dict_split_by_prefix sha d n p = Ok (l, r) \<and> dict_merge_siblings sha l r n = Ok d
    \<and> stores (Some sha) D V n l (m |` below (slice_bits p) False) \<and> stores (Some sha) D V n r (m |` below (slice_bits p) True)"
proof -
  let ?p = "slice_bits p"
  from dict_split_stores [OF assms(1-5), of sha] assms(6) obtain l r where s: "dict_split_by_prefix sha d n p = Ok (l, r)"
    "stores (Some sha) D V n l (m |` below ?p False)" "stores (Some sha) D V n r (m |` below ?p True)" by auto
  have "dom (m |` below ?p False) \<subseteq> below ?p False \<and> dom (m |` below ?p True) \<subseteq> below ?p True" by auto
  then have e: "\<exists>q. dom (m |` below ?p False) \<subseteq> below q False \<and> dom (m |` below ?p True) \<subseteq> below q True" by blast
  have "\<forall>k \<in> dom m. take (length ?p) k = ?p \<and> length ?p < length k"
    using assms(5,6) stores_key_length [OF assms(1)] by auto
  note j = below_parts [OF this]
  obtain d' where d': "dict_merge_siblings sha l r n = Ok d'" "stores (Some sha) D V n d' m"
    using dict_merge_siblings_stores [OF s(2,3) assms(2), of sha] e unfolding j by auto
  then show ?thesis using s stores_unique [OF d'(2) assms(1)] by blast
qed

section \<open>The raw split\<close>

lemma dict_split_raw_stores:
  assumes "stores K D V n d m" "room D V n" "0 < n"
  shows "\<exists>rem l r. dict_split_raw d n = Ok \<lparr>ps_remaining_bit_len = rem, ps_left_branch = l, ps_right_branch = r\<rparr>
    \<and> (if rem = n then stores K D V n l (m |` below [] False) \<and> stores K D V n r (m |` below [] True)
       else rem = n - 1 \<and> stores K D V rem l (\<lambda>k. m (False # k)) \<and> stores K D V rem r (\<lambda>k. m (True # k)))"
proof (cases d)
  case None
  then show ?thesis using assms by (simp add: dict_split_raw_def stores_None restrict_map_def)
next
  case (Some c)
  from assms(1) obtain t where t: "rep K D V n c t" "pt_lookup t = m"
    by (auto simp: stores_def Some split: option.splits)
  from read_edge [OF t(1) room_len(2) [OF assms(2)]] obtain lb s
    where r: "slice_new c = Ok (slice_new_allow_exotic c)"
      "read_label (slice_new_allow_exotic c) n = Ok (lb, s)" "wf_slice lb" "slice_bits lb = pt_label t"
      "wf_slice s" "slice_bits s = pt_rest t" "slice_refs s = cell_children c" "sl_cell s = c" .
  note df = dict_split_raw_def Some
  show ?thesis
  proof (cases "pt_label t")
    case Nil
    then obtain u v where f: "t = PFork [] u v" using rep_inv [OF t(1)] assms(3) by (cases t) auto
    from t(1) obtain lc rc where ch: "cell_children c = [lc, rc]" "rep K D V (n - 1) lc u" "rep K D V (n - 1) rc v"
      by (auto simp: f holds_def)
    note r7 = r(7) [unfolded ch(1)]
    have "load_reference_cloned s = Ok (lc, advance_refs s)" "load_reference_cloned (advance_refs s) = Ok (rc, advance_refs (advance_refs s))"
      using slice_refs_Cons(1,2) [OF r(5) r7] slice_refs_Cons(1,2,4) [OF slice_refs_Cons(3,6) [OF r(5) r7]]
        slice_refs_Cons(4) [OF r(5) r7] r(8) holds_not_virtual [OF rep_edge(1) [OF t(1)]]
      by (simp_all add: load_reference_cloned_def reference_cloned_plain)
    then have "dict_split_raw d n = Ok \<lparr>ps_remaining_bit_len = n - 1, ps_left_branch = Some lc, ps_right_branch = Some rc\<rparr>"
      using r(1-4) Nil assms(3) by (simp add: df is_data_empty_iff)
    moreover have "(\<lambda>k. m (False # k)) = pt_lookup u" "(\<lambda>k. m (True # k)) = pt_lookup v" by (simp_all add: t(2) [symmetric] f)
    ultimately show ?thesis using ch(2,3) assms(3) by (auto simp: stores_rep)
  next
    case (Cons b q)
    have g: "get_bit lb 0 = Ok b" using get_bit_spec [OF r(3), of 0] r(4) Cons length_slice_bits [of lb] by simp
    have "dict_split_raw d n = Ok \<lparr>ps_remaining_bit_len = n, ps_left_branch = (if b then None else d), ps_right_branch = (if b then d else None)\<rparr>"
      using r(1-4) g Cons assms(3) by (simp add: df is_data_empty_iff)
    moreover have "stores K D V n d (m |` below [] b)" "m |` below [] (\<not> b) = (\<lambda>_. None)"
      using pt_one_side [of t "[]" b q] Cons assms(1) t(2) by (simp_all add: restrict_all restrict_none)
    ultimately show ?thesis by (cases b) (auto simp: stores_None)
  qed
qed

section \<open>Merging by insertion\<close>

lemma dict_merge_loop_spec:
  "iterates raw_iter_next it xs \<Longrightarrow> stores K D V n l m \<Longrightarrow> room D V n \<Longrightarrow> canon_by sha K \<Longrightarrow>
    list_all (\<lambda>(k, s). bd_wf k \<and> item_ok D V s \<and> length (bd_bits k) = n) xs \<Longrightarrow>
    \<exists>l'. dict_merge_loop sha it l = Some (l', Ok ())
      \<and> stores K D V n l' (m ++ map_of (rev (map (\<lambda>(k, s). (bd_bits k, slice_value s)) xs)))"
proof (induction xs arbitrary: l m rule: iterates.induct)
  case (iterates_end it it')
  then show ?case by (subst dict_merge_loop.simps) simp
next
  case (iterates_step it it' x xs)
  obtain k s where x: "x = (k, s)" by (cases x)
  have k: "bd_wf k" "item_ok D V s" "length (bd_bits k) = n" using iterates_step.prems(4) by (simp_all add: x)
  note a = as_data_slice_spec [OF k(1)]
  have kl: "bd_bit_len k = n" "size_bits (as_data_slice k) = n"
    using k(1,3) a(2) length_slice_bits [of "as_data_slice k"] by (simp_all add: length_bd_bits)
  have v: "appends (\<lambda>b. store_slice b s) (fst (slice_value s)) (snd (slice_value s))" "value_ok D V (slice_value s)"
    using k(2) appends_store_slice [of s] by (simp_all add: item_ok_def slice_value_def)
  obtain l' where l': "dict_insert sha l (as_data_slice k) n (\<lambda>b. store_slice b s) ModeSet = Ok (l', True)"
    "stores K D V n l' (m(bd_bits k \<mapsto> slice_value s))"
    using dict_insert_stores [OF iterates_step.prems(1,2) a(1) kl(2) v iterates_step.prems(3), of ModeSet] a(2) by auto
  have "list_all (\<lambda>(k, s). bd_wf k \<and> item_ok D V s \<and> length (bd_bits k) = n) xs" using iterates_step.prems(4) by simp
  from iterates_step.IH [OF l'(2) iterates_step.prems(2,3) this] show ?case
    using iterates_step.hyps(1) l'(1) kl(1) by (subst dict_merge_loop.simps) (simp add: x del: fun_upd_apply)
qed

text \<open>
  \<open>dict_merge\<close> overrides the left map by the right one, unless it stops at its check of the lengths of the
  root cells.
\<close>

lemma dict_merge_stores:
  assumes "stores K D V n l m1" "stores K D V n r m2" "room D V n" "canon_by sha K"
  shows "case (l, r) of
      (Some c, Some d) \<Rightarrow>
        if cell_bit_len c = cell_bit_len d \<or> cell_bit_len c = n
        then \<exists>l'. dict_merge sha l r n = Some (l', Ok ()) \<and> stores K D V n l' (m1 ++ m2)
        else dict_merge sha l r n = Some (l, Err InvalidCell)
    | _ \<Rightarrow> \<exists>l'. dict_merge sha l r n = Some (l', Ok ()) \<and> stores K D V n l' (m1 ++ m2)"
proof -
  have e: "(\<lambda>_. None) ++ m = m" for m :: "bool list \<Rightarrow> dict_value option" by (simp add: map_add_def fun_eq_iff split: option.split)
  obtain xs where xs: "iterates raw_iter_next (raw_iter_new_ext r n False False) xs"
    "\<And>k v. (k, v) \<in> set (map (\<lambda>(k, s). (bd_bits k, slice_value s)) xs) \<longleftrightarrow> m2 k = Some v"
    "list_all (\<lambda>(k, s). bd_wf k \<and> item_ok D V s) xs"
    using raw_iter_stores [OF assms(2) room_len(2) [OF assms(3)], of False False] by blast
  let ?es = "map (\<lambda>(k, s). (bd_bits k, slice_value s)) xs"
  have "map_of (rev ?es) k = m2 k" for k
  proof (cases "map_of (rev ?es) k")
    case None
    then have "k \<notin> fst ` set (rev ?es)" by (simp only: map_of_eq_None_iff) simp
    then have "m2 k \<noteq> Some v" for v using xs(2) [of k v] by (force simp del: set_map)
    then show ?thesis using None by (cases "m2 k") auto
  next
    case (Some v)
    then have "(k, v) \<in> set ?es" using map_of_SomeD [of "rev ?es" k v] by simp
    then show ?thesis using xs(2) Some by simp
  qed
  then have m: "map_of (rev ?es) = m2" by blast
  have "length (bd_bits k) = n" if "(k, s) \<in> set xs" for k s
    using xs(2) [of "bd_bits k" "slice_value s"] stores_key_length [OF assms(2)] that by force
  then have "list_all (\<lambda>(k, s). bd_wf k \<and> item_ok D V s \<and> length (bd_bits k) = n) xs"
    using xs(3) by (auto simp: list_all_iff)
  from dict_merge_loop_spec [OF xs(1) assms(1,3,4) this] obtain l'
    where "dict_merge_loop sha (raw_iter_new r n) l = Some (l', Ok ())" "stores K D V n l' (m1 ++ m2)"
    unfolding m raw_iter_new_def by blast
  then show ?thesis using assms(1,2) e by (cases l; cases r) (auto simp: dict_merge_def stores_None)
qed

end
