(* ===== verification/Dict_Build_Props.thy ===== *)
theory Dict_Build_Props
  imports Dict_Build Dict_Split_Props
begin

text \<open>
  Building from sorted entries: every item of the stack stands for a tree over whole keys, of which it
  holds the part below some offset. Neighbours part at the length of the common prefix that the upper one
  records, and these lengths increase towards the top. Then the stack stands for the union of its trees.
\<close>

section \<open>Items\<close>

definition item_rep :: "sha256 option \<Rightarrow> nat \<Rightarrow> nat \<Rightarrow> nat \<Rightarrow> nat \<Rightarrow> (unit, unit) merge_stack_item \<Rightarrow> ptree \<Rightarrow> bool" where
  "item_rep K D V n off x t \<longleftrightarrow> pt_inv n t
    \<and> (\<exists>k. msi_prefix x = mk_bd k \<and> length k \<le> n \<and> take (length (pt_label t)) k = pt_label t)
    \<and> (case x of
         MsLeaf pfx v _ _ \<Rightarrow> \<exists>k vb vr. t = PLeaf k vb vr \<and> pfx = mk_bd k \<and> appends v vb vr \<and> value_ok D V (vb, vr)
       | MsNode _ cell _ _ \<Rightarrow> off \<le> length (pt_label t) \<and> rep K D V (n - off) cell (pt_relabel (drop off (pt_label t)) t)
       | MsDenormNode pfx cell after_label _ _ \<Rightarrow> pfx = mk_bd (pt_label t)
           \<and> (\<exists>m lab s0 s. rep K D V m cell (pt_relabel lab t) \<and> m + length (pt_label t) = n + length lab
                \<and> slice_new cell = Ok s0 \<and> skip_first s0 after_label 0 = Ok s \<and> wf_slice s \<and> slice_bits s = pt_rest t
                \<and> slice_refs s = cell_children cell \<and> sl_cell s = cell))"

lemma pt_relabel_self [simp]: "pt_relabel (pt_label t) t = t"
  by (cases t) auto

lemma pt_relabel_twice [simp]: "pt_relabel a (pt_relabel b t) = pt_relabel a t"
  by (cases t) auto

lemma pt_rest_relabel [simp]: "pt_rest (pt_relabel a t) = pt_rest t"
  by (cases t) auto

lemma item_rep_leaf:
  assumes "length k = n" "appends v vb vr" "value_ok D V (vb, vr)"
  shows "item_rep K D V n off (MsLeaf (mk_bd k) v () p) (PLeaf k vb vr)"
  using assms by (auto simp: item_rep_def intro!: exI [of _ k])

lemma item_rep_leaf_offset: "item_rep K D V n off (MsLeaf pfx v e p) t \<Longrightarrow> item_rep K D V n off' (MsLeaf pfx v e p) t"
  by (simp add: item_rep_def)

lemma prefix_slice:
  assumes "length k \<le> n" "n \<le> 1023"
  shows "wf_slice (as_data_slice (mk_bd k))" "slice_bits (as_data_slice (mk_bd k)) = k" "size_bits (as_data_slice (mk_bd k)) = length k"
  using bits_key_spec [of k, unfolded bits_key_def] assms by simp_all

lemma skip_prefix_slice:
  assumes "length k \<le> n" "n \<le> 1023" "s \<le> length k"
  obtains x where "skip_first (as_data_slice (mk_bd k)) s 0 = Ok x" "wf_slice x" "slice_bits x = drop s k" "size_bits x = length k - s"
proof -
  note p = prefix_slice [OF assms(1,2)]
  have "wf_slice (advance (as_data_slice (mk_bd k)) s)" "slice_bits (advance (as_data_slice (mk_bd k)) s) = drop s k"
    using p assms(3) by (simp_all add: wf_advance slice_bits_advance)
  moreover from this(2) have "size_bits (advance (as_data_slice (mk_bd k)) s) = length k - s" using length_slice_bits length_drop by metis
  moreover have "skip_first (as_data_slice (mk_bd k)) s 0 = Ok (advance (as_data_slice (mk_bd k)) s)"
    using p assms by (simp add: skip_first_advance)
  ultimately show thesis using that by blast
qed

lemma child_spec:
  assumes "item_rep K D V n (s + 1) x t" "s < length (pt_label t)" "room D V n" "canon_by sha K"
  obtains c where "msi_child sha simple_mode x s (n - s - 1) = Ok (c, ())"
    "rep K D V (n - s - 1) c (pt_relabel (drop (s + 1) (pt_label t)) t)"
proof -
  note n = room_len(2) [OF assms(3)]
  have inv: "pt_inv n t" using assms(1) by (simp add: item_rep_def)
  have l: "length (pt_label t) \<le> n" by (rule pt_inv_label [OF inv])
  have u: "u16_add s 1 = s + 1" using assms(2) l n by simp
  have rm: "room D V (n - s - 1)" using room_mono [OF assms(3)] by simp
  obtain y where y: "skip_first (as_data_slice (mk_bd (pt_label t))) (s + 1) 0 = Ok y" "wf_slice y"
    "slice_bits y = drop (s + 1) (pt_label t)" "size_bits y = length (pt_label t) - (s + 1)"
    using skip_prefix_slice [OF l n, of "s + 1"] assms(2) by auto
  show thesis
  proof (cases x)
    case (MsLeaf pfx v e p)
    then obtain k vb vr where t: "t = PLeaf k vb vr" "pfx = mk_bd k" "appends v vb vr" "value_ok D V (vb, vr)"
      using assms(1) by (auto simp: item_rep_def)
    have "size_bits y = n - s - 1" using y(4) t(1) inv by simp
    from make_leaf_rep [OF y(2) this rm _ t(4) assms(4), of v] t(3) obtain c
      where c: "make_leaf sha y (n - s - 1) v = Ok c" "rep K D V (n - s - 1) c (PLeaf (slice_bits y) vb vr)" by auto
    have "msi_child sha simple_mode x s (n - s - 1) = Ok (c, ())"
      using y(1) c(1) u t(1,2) by (auto simp: msi_child_def MsLeaf simple_mode_def make_leaf_def ok_eq_Ok_iff Let_def)
    then show thesis using that c(2) y(3) t(1) by simp
  next
    case (MsNode pfx c e p)
    then have "msi_child sha simple_mode x s (n - s - 1) = Ok (c, ())" by (simp add: msi_child_def simple_mode_def)
    moreover have "rep K D V (n - s - 1) c (pt_relabel (drop (s + 1) (pt_label t)) t)"
      using assms(1) by (simp add: item_rep_def MsNode)
    ultimately show thesis by (rule that)
  next
    case (MsDenormNode pfx cell off lf p)
    then obtain m lab s0 z where d: "rep K D V m cell (pt_relabel lab t)" "m + length (pt_label t) = n + length lab"
      "slice_new cell = Ok s0" "skip_first s0 off 0 = Ok z" "wf_slice z" "slice_bits z = pt_rest t"
      "slice_refs z = cell_children cell" "sl_cell z = cell" "pfx = mk_bd (pt_label t)"
      using assms(1) by (auto simp: item_rep_def)
    have "size_bits y + m = length (pt_label (pt_relabel lab t)) + (n - s - 1)" using y(4) d(2) assms(2) l by simp
    from make_leaf_relabel [OF d(1) rm this y(2) d(5) _ d(7,8) assms(4)] d(6) obtain c
      where c: "make_leaf sha y (n - s - 1) (\<lambda>b. store_slice b z) = Ok c"
        "rep K D V (n - s - 1) c (pt_relabel (slice_bits y) t)" by auto
    have "msi_child sha simple_mode x s (n - s - 1) = Ok (c, ())"
      using y(1) c(1) u d(3,4,9) by (auto simp: msi_child_def MsDenormNode simple_mode_def make_leaf_def ok_eq_Ok_iff Let_def)
    then show thesis using that c(2) y(3) by simp
  qed
qed

text \<open>Two labels that part after \<open>s\<close> bits, the first to the left.\<close>

definition parts_at :: "nat \<Rightarrow> bool list \<Rightarrow> bool list \<Rightarrow> bool" where
  "parts_at s a b \<longleftrightarrow> (\<exists>q u v. a = q @ False # u \<and> b = q @ True # v \<and> length q = s)"

lemma merge_fork:
  assumes "item_rep K D V n (s + 1) x t" "item_rep K D V n (s + 1) y u" "msi_prev_lcp_len y = s"
    and "s < length (pt_label t)" "s < length (pt_label u)" "off \<le> s" "room D V n" "canon_by sha K"
  obtains e k where "msi_merge sha simple_mode x y off n = Ok (MsNode (mk_bd k) e () (msi_prev_lcp_len x))"
    "length k \<le> n" "take s k = take s (pt_label u)"
    "rep K D V (n - off) e (PFork (drop off (take s (pt_label u))) (pt_relabel (drop (s + 1) (pt_label t)) t) (pt_relabel (drop (s + 1) (pt_label u)) u))"
proof -
  note n = room_len(2) [OF assms(7)]
  let ?a = "drop (s + 1) (pt_label t)" and ?b = "drop (s + 1) (pt_label u)"
  define q where "q = take s (pt_label u)"
  have ql: "length q = s" using assms(5) by (simp add: q_def)
  obtain c where c: "msi_child sha simple_mode x s (n - s - 1) = Ok (c, ())" "rep K D V (n - s - 1) c (pt_relabel ?a t)"
    using child_spec [OF assms(1,4,7,8)] .
  obtain d where d: "msi_child sha simple_mode y s (n - s - 1) = Ok (d, ())" "rep K D V (n - s - 1) d (pt_relabel ?b u)"
    using child_spec [OF assms(2,5,7,8)] .
  have inv: "pt_inv n t" "pt_inv n u" using assms(1,2) by (simp_all add: item_rep_def)
  then have sn: "s < n" using pt_inv_label [of n u] assms(5) by simp
  obtain k where k: "msi_prefix y = mk_bd k" "length k \<le> n" "take (length (pt_label u)) k = pt_label u"
    using assms(2) by (auto simp: item_rep_def)
  have ks: "take s k = q"
  proof -
    have "take s (take (length (pt_label u)) k) = take s (pt_label u)" by (simp only: k(3))
    then show ?thesis using assms(5) by (simp add: q_def)
  qed
  then have "s \<le> length k" using ql by (metis length_take min.cobounded1)
  then obtain z where z: "skip_first (as_data_slice (mk_bd k)) off 0 = Ok z" "wf_slice z" "slice_bits z = drop off k"
    using skip_prefix_slice [OF k(2) n, of off] assms(6) by auto
  let ?lb = "get_prefix z (s - off) 0"
  have g: "wf_slice ?lb" "slice_bits ?lb = drop off q"
    using get_prefix_spec [OF z(2), of "s - off" 0] sn n z(3) ks assms(6) by (simp_all add: take_drop)
  have gl: "size_bits ?lb = s - off" using g(2) ql length_slice_bits [of ?lb] by simp
  have u16: "u16_sub s off = s - off" "u16_sub (u16_sub n s) 1 = n - s - 1" "u16_sub n off = n - off"
    using assms(6) sn n by simp_all
  have rm: "room D V (n - off)" using room_mono [OF assms(7)] by simp
  have m: "n - off - length (drop off q) - 1 = n - s - 1" "length (drop off q) < n - off" using assms(6) sn ql by simp_all
  obtain e where e: "build_ext sha (mk_cb (label_bits (n - off) (drop off q)) [c, d]) = Ok e"
    "rep K D V (n - off) e (PFork (drop off q) (pt_relabel ?a t) (pt_relabel ?b u))"
    using rep_fork [OF rm m(2) c(2) [folded m(1)] d(2) [folded m(1)] assms(8)] .
  have "ok (write_label ?lb (n - off) cb_new) (\<lambda>bd. ok (store_reference bd c) (\<lambda>bd. ok (store_reference bd d) (build_ext sha))) = Ok e"
    using build_fork [OF g(1) _ rm, where sha = sha and a = c and b = d] gl g(2) m(2) ql e(1) by simp
  then have "msi_merge sha simple_mode x y off n = Ok (MsNode (mk_bd k) e () (msi_prev_lcp_len x))"
    using z(1) c(1) d(1) by (auto simp: msi_merge_def assms(3) u16 [unfolded One_nat_def] Let_def msi_prefix_slice_def k(1) simple_mode_def ok_eq_Ok_iff)
  then show thesis using that k(2) ks e(2) unfolding q_def by blast
qed

lemma merge_spec:
  assumes "item_rep K D V n (s + 1) x t" "item_rep K D V n (s + 1) y u" "msi_prev_lcp_len y = s"
    and "parts_at s (pt_label t) (pt_label u)" "off \<le> s" "room D V n" "canon_by sha K"
  obtains z w where "msi_merge sha simple_mode x y off n = Ok z" "item_rep K D V n off z w"
    "msi_prev_lcp_len z = msi_prev_lcp_len x" "pt_label w = take s (pt_label u)" "pt_lookup w = pt_lookup t ++ pt_lookup u"
proof -
  obtain q a b where q: "pt_label t = q @ False # a" "pt_label u = q @ True # b" "length q = s"
    using assms(4) by (auto simp: parts_at_def)
  have d: "s < length (pt_label t)" "s < length (pt_label u)" "drop (s + 1) (pt_label t) = a" "drop (s + 1) (pt_label u) = b"
    "take s (pt_label u) = q" using q by auto
  obtain e k where e: "msi_merge sha simple_mode x y off n = Ok (MsNode (mk_bd k) e () (msi_prev_lcp_len x))"
    "length k \<le> n" "take s k = q" "rep K D V (n - off) e (PFork (drop off q) (pt_relabel a t) (pt_relabel b u))"
    by (rule merge_fork [OF assms(1-3) d(1,2) assms(5-7), unfolded d(3-5)])
  let ?w = "PFork q (pt_relabel a t) (pt_relabel b u)"
  have sn: "s < n" using assms(2) pt_inv_label [of n u] q(2,3) by (simp add: item_rep_def)
  then have m: "n - off - Suc (s - off) = n - Suc s" using assms(5) by simp
  have "pt_inv n ?w" using rep_inv [OF e(4)] sn q(3) assms(5) m by simp
  then have "item_rep K D V n off (MsNode (mk_bd k) e () (msi_prev_lcp_len x)) ?w"
    using e(2-4) q(3) assms(5) by (auto simp: item_rep_def intro!: exI [of _ k])
  then show thesis using that [OF e(1)] q pt_merge_map [OF q(1,2)] by simp
qed

lemma msi_build_spec:
  assumes "item_rep K D V n 0 x t" "room D V n" "canon_by sha K"
  obtains c where "msi_build sha simple_mode x n = Ok c" "rep K D V n c t"
proof -
  note n = room_len(2) [OF assms(2)]
  have inv: "pt_inv n t" using assms(1) by (simp add: item_rep_def)
  note p = prefix_slice [OF pt_inv_label [OF inv] n]
  show thesis
  proof (cases x)
    case (MsLeaf pfx v e p')
    then obtain k vb vr where t: "t = PLeaf k vb vr" "pfx = mk_bd k" "appends v vb vr" "value_ok D V (vb, vr)"
      using assms(1) by (auto simp: item_rep_def)
    have "size_bits (as_data_slice (mk_bd k)) = n" using p(3) t(1) inv by simp
    from make_leaf_rep [OF _ this assms(2) _ t(4) assms(3), of v] t(1,3) p obtain c
      where "make_leaf sha (as_data_slice (mk_bd k)) n v = Ok c" "rep K D V n c t" by auto
    then show thesis using that t(2) by (simp add: msi_build_def MsLeaf simple_mode_def make_leaf_def)
  next
    case (MsNode pfx c e p')
    then show thesis using that [of c] assms(1) by (simp add: item_rep_def msi_build_def)
  next
    case (MsDenormNode pfx cell off lf p')
    then obtain m lab s0 z where d: "rep K D V m cell (pt_relabel lab t)" "m + length (pt_label t) = n + length lab"
      "slice_new cell = Ok s0" "skip_first s0 off 0 = Ok z" "wf_slice z" "slice_bits z = pt_rest t"
      "slice_refs z = cell_children cell" "sl_cell z = cell" "pfx = mk_bd (pt_label t)"
      using assms(1) by (auto simp: item_rep_def)
    have "size_bits (as_data_slice (mk_bd (pt_label t))) + m = length (pt_label (pt_relabel lab t)) + n" using p(3) d(2) by simp
    from make_leaf_relabel [OF d(1) assms(2) this p(1) d(5) _ d(7,8) assms(3)] d(6) p(2) obtain c
      where "make_leaf sha (as_data_slice (mk_bd (pt_label t))) n (\<lambda>b. store_slice b z) = Ok c" "rep K D V n c t" by auto
    then show thesis using that d(3,4,9) by (simp add: msi_build_def MsDenormNode)
  qed
qed

section \<open>The stack\<close>

fun items_rep :: "sha256 option \<Rightarrow> nat \<Rightarrow> nat \<Rightarrow> nat \<Rightarrow> nat \<Rightarrow> (unit, unit) merge_stack_item list \<Rightarrow> ptree list \<Rightarrow> bool" where
  "items_rep K D V n off [] ts \<longleftrightarrow> ts = []"
| "items_rep K D V n off (x # xs) [] \<longleftrightarrow> False"
| "items_rep K D V n off (x # xs) (t # ts) \<longleftrightarrow> item_rep K D V n off x t
     \<and> (case (xs, ts) of
          (y # ys, u # us) \<Rightarrow> parts_at (msi_prev_lcp_len x) (pt_label u) (pt_label t)
            \<and> (ys \<noteq> [] \<longrightarrow> msi_prev_lcp_len y < msi_prev_lcp_len x)
        | _ \<Rightarrow> msi_prev_lcp_len x = 0)
     \<and> items_rep K D V n (msi_prev_lcp_len x + 1) xs ts"

fun items_map :: "ptree list \<Rightarrow> bool list \<Rightarrow> dict_value option" where
  "items_map [] = (\<lambda>_. None)"
| "items_map (t # ts) = items_map ts ++ pt_lookup t"

lemma items_rep_ConsE:
  assumes "items_rep K D V n off (x # xs) ts"
  obtains t us where "ts = t # us" "item_rep K D V n off x t" "items_rep K D V n (msi_prev_lcp_len x + 1) xs us"
    "xs = [] \<Longrightarrow> msi_prev_lcp_len x = 0 \<and> us = []"
    "\<And>y ys. xs = y # ys \<Longrightarrow> \<exists>u vs. us = u # vs \<and> parts_at (msi_prev_lcp_len x) (pt_label u) (pt_label t)
       \<and> (ys \<noteq> [] \<longrightarrow> msi_prev_lcp_len y < msi_prev_lcp_len x)"
proof (cases ts)
  case (Cons t us)
  then show thesis using assms that [of t us] by (cases xs; cases us) auto
qed (use assms in simp)

lemma parts_at_unique: "parts_at p a b \<Longrightarrow> parts_at q b c \<Longrightarrow> p \<noteq> q"
  unfolding parts_at_def by (metis nth_append_length)

lemma parts_at_take:
  assumes "parts_at p a b" "p < s" "s \<le> length b"
  shows "parts_at p a (take s b)"
proof -
  obtain q u v where q: "a = q @ False # u" "b = q @ True # v" "length q = p" using assms(1) by (auto simp: parts_at_def)
  then have "take s b = q @ True # take (s - p - 1) v" using assms(2) by (simp add: take_Cons')
  then show ?thesis using q by (auto simp: parts_at_def)
qed

lemma parts_at_take_left:
  assumes "parts_at p b c" "p < s" "s \<le> length b"
  shows "parts_at p (take s b) c"
proof -
  obtain q u v where q: "b = q @ False # u" "c = q @ True # v" "length q = p" using assms(1) by (auto simp: parts_at_def)
  then have "take s b = q @ False # take (s - p - 1) u" using assms(2) by (simp add: take_Cons')
  then show ?thesis using q by (auto simp: parts_at_def)
qed

lemma parts_at_less: "parts_at p a b \<Longrightarrow> p < length a \<and> p < length b"
  by (auto simp: parts_at_def)

lemma parts_at_same: "parts_at s a b \<Longrightarrow> take s a = take s b"
  by (auto simp: parts_at_def)

text \<open>Merging the two items on top, at an offset that does not reach the place where they part.\<close>

lemma merge_top:
  assumes "items_rep K D V n (msi_prev_lcp_len y + 1) (y # x # xs) (u # t # ts)" "room D V n" "canon_by sha K"
    and "off \<le> msi_prev_lcp_len y"
    and "off = (if xs = [] then off else max (msi_prev_lcp_len x + 1) off)"
  obtains z w where "msi_merge sha simple_mode x y off n = Ok z" "items_rep K D V n off (z # xs) (w # ts)"
    "msi_prev_lcp_len z = msi_prev_lcp_len x" "pt_label w = take (msi_prev_lcp_len y) (pt_label u)"
    "items_map (w # ts) = items_map (u # t # ts)"
proof -
  let ?s = "msi_prev_lcp_len y"
  have i: "item_rep K D V n (?s + 1) y u" "item_rep K D V n (?s + 1) x t" "parts_at ?s (pt_label t) (pt_label u)"
    "xs \<noteq> [] \<Longrightarrow> msi_prev_lcp_len x < ?s" "items_rep K D V n (msi_prev_lcp_len x + 1) xs ts"
    "xs = [] \<Longrightarrow> msi_prev_lcp_len x = 0"
    "\<And>v vs. xs \<noteq> [] \<Longrightarrow> ts = v # vs \<Longrightarrow> parts_at (msi_prev_lcp_len x) (pt_label v) (pt_label t)
       \<and> (tl xs \<noteq> [] \<longrightarrow> msi_prev_lcp_len (hd xs) < msi_prev_lcp_len x)"
    using assms(1) by (cases xs; cases ts; simp)+
  obtain z w where z: "msi_merge sha simple_mode x y off n = Ok z" "item_rep K D V n off z w"
    "msi_prev_lcp_len z = msi_prev_lcp_len x" "pt_label w = take ?s (pt_label u)" "pt_lookup w = pt_lookup t ++ pt_lookup u"
    using merge_spec [OF i(2,1) refl i(3) assms(4,2,3)] .
  have st: "pt_label w = take ?s (pt_label t)" using z(4) parts_at_same [OF i(3)] by simp
  have "items_rep K D V n off (z # xs) (w # ts)"
  proof (cases xs)
    case Nil
    then show ?thesis using i(5,6) z(2,3) by simp
  next
    case (Cons a as)
    then obtain v vs where ts: "ts = v # vs" using i(5) by (cases ts) auto
    have "parts_at (msi_prev_lcp_len x) (pt_label v) (take ?s (pt_label t))"
      using i(4,7) Cons ts parts_at_less [OF i(3)] by (intro parts_at_take) simp_all
    then show ?thesis using i(5) i(7) [OF _ ts] Cons ts z(2,3) st by simp
  qed
  moreover have "items_map (w # ts) = items_map (u # t # ts)" by (simp add: z(5) map_add_assoc)
  ultimately show thesis by (rule that [OF z(1) _ z(3,4)])
qed

lemma label_bound: "item_rep K D V n off x t \<Longrightarrow> length (pt_label t) \<le> n"
  by (simp add: item_rep_def pt_inv_label)

lemma reduce_loop_spec:
  "items_rep K D V n (max (msi_prev_lcp_len y) lcp + 1) (y # xs) (u # ts) \<Longrightarrow> room D V n \<Longrightarrow> canon_by sha K \<Longrightarrow>
    parts_at lcp (pt_label u) key \<Longrightarrow>
    \<exists>z zs w ws. reduce_loop sha simple_mode n lcp y xs = Ok (z # zs) \<and> items_rep K D V n (lcp + 1) (z # zs) (w # ws)
      \<and> parts_at lcp (pt_label w) key \<and> (zs \<noteq> [] \<longrightarrow> msi_prev_lcp_len z < lcp) \<and> items_map (w # ws) = items_map (u # ts)"
proof (induction xs arbitrary: y u ts)
  case Nil
  then have "msi_prev_lcp_len y = 0" by simp
  then show ?case using Nil by (intro exI [of _ y] exI [of _ "[]"] exI [of _ u] exI [of _ ts]) simp
next
  case (Cons x xs)
  let ?p = "msi_prev_lcp_len y"
  obtain t ts' where ts: "ts = t # ts'" "parts_at ?p (pt_label t) (pt_label u)" using Cons.prems(1) by (cases ts) auto
  have ne: "?p \<noteq> lcp" using parts_at_unique [OF ts(2) Cons.prems(4)] .
  show ?case
  proof (cases "?p \<le> lcp")
    case True
    then have "max ?p lcp = lcp" "?p < lcp" using ne by simp_all
    then show ?thesis using Cons.prems True by (intro exI [of _ y] exI [of _ "x # xs"] exI [of _ u] exI [of _ ts]) simp
  next
    case False
    let ?q = "msi_prev_lcp_len x"
    have xs: "xs = [] \<Longrightarrow> ?q = 0" "xs \<noteq> [] \<Longrightarrow> ?q < ?p" "item_rep K D V n (?p + 1) x t"
      using Cons.prems(1) ts(1) by (cases xs; cases ts'; simp)+
    have b: "?p < n" using parts_at_less [OF ts(2)] label_bound [OF xs(3)] by simp
    then have small: "?p < 1023" using room_len(2) [OF Cons.prems(2)] by simp
    let ?off = "max ?q lcp + 1"
    have q: "?q < ?p" using xs(1,2) False by (cases "xs = []") auto
    then have ko: "max (if xs = [] then 1 else u16_add ?q 1) (u16_add lcp 1) = ?off"
      using small False xs(1) by (cases "xs = []") auto
    have "max ?p lcp + 1 = ?p + 1" using False by simp
    then have it: "items_rep K D V n (?p + 1) (y # x # xs) (u # t # ts')" using Cons.prems(1) ts(1) by simp
    have o: "?off \<le> ?p" "?off = (if xs = [] then ?off else max (?q + 1) ?off)" using q False by auto
    obtain z w where z: "msi_merge sha simple_mode x y ?off n = Ok z" "items_rep K D V n ?off (z # xs) (w # ts')"
      "msi_prev_lcp_len z = ?q" "pt_label w = take ?p (pt_label u)" "items_map (w # ts') = items_map (u # t # ts')"
      using merge_top [OF it Cons.prems(2,3) o] .
    have "parts_at lcp (pt_label w) key"
      unfolding z(4) using Cons.prems(4) False parts_at_less [OF ts(2)] by (intro parts_at_take_left) simp_all
    moreover have "items_rep K D V n (max (msi_prev_lcp_len z) lcp + 1) (z # xs) (w # ts')" using z(2) unfolding z(3) .
    ultimately obtain z' zs w' ws where r: "reduce_loop sha simple_mode n lcp z xs = Ok (z' # zs)" "items_rep K D V n (lcp + 1) (z' # zs) (w' # ws)"
      "parts_at lcp (pt_label w') key" "zs \<noteq> [] \<longrightarrow> msi_prev_lcp_len z' < lcp" "items_map (w' # ws) = items_map (w # ts')"
      using Cons.IH [OF _ Cons.prems(2,3), of z w ts'] by blast
    have "reduce_loop sha simple_mode n lcp y (x # xs) = Ok (z' # zs)"
      using False z(1) r(1) unfolding reduce_loop.simps Let_def ko by simp
    then show ?thesis using r(2-5) z(5) ts(1) by auto
  qed
qed

lemma finalize_loop_spec:
  "items_rep K D V n (if xs = [] then 0 else msi_prev_lcp_len y + 1) (y # xs) (u # ts) \<Longrightarrow> room D V n \<Longrightarrow> canon_by sha K \<Longrightarrow>
    \<exists>z w. finalize_loop sha simple_mode n y xs = Ok z \<and> item_rep K D V n 0 z w \<and> pt_lookup w = items_map (u # ts)"
proof (induction xs arbitrary: y u ts)
  case Nil
  then show ?case by (cases ts) (auto simp: map_add_def fun_eq_iff split: option.split)
next
  case (Cons x xs)
  let ?p = "msi_prev_lcp_len y" and ?q = "msi_prev_lcp_len x"
  obtain t ts' where ts: "ts = t # ts'" "parts_at ?p (pt_label t) (pt_label u)" using Cons.prems(1) by (cases ts) auto
  have xs: "xs \<noteq> [] \<Longrightarrow> ?q < ?p" "item_rep K D V n (?p + 1) x t"
    using Cons.prems(1) ts(1) by (cases xs; cases ts'; simp)+
  have "?p < n" using parts_at_less [OF ts(2)] label_bound [OF xs(2)] by simp
  then have small: "?p < 1023" using room_len(2) [OF Cons.prems(2)] by simp
  let ?off = "if xs = [] then 0 else ?q + 1"
  have ko: "(if xs = [] then 0 else u16_add ?q 1) = ?off" using xs(1) small by (cases "xs = []") simp_all
  have it: "items_rep K D V n (?p + 1) (y # x # xs) (u # t # ts')" using Cons.prems(1) ts(1) by simp
  have o: "?off \<le> ?p" "?off = (if xs = [] then ?off else max (?q + 1) ?off)" using xs(1) by auto
  obtain z w where z: "msi_merge sha simple_mode x y ?off n = Ok z" "items_rep K D V n ?off (z # xs) (w # ts')"
    "msi_prev_lcp_len z = ?q" "items_map (w # ts') = items_map (u # t # ts')"
    using merge_top [OF it Cons.prems(2,3) o] by metis
  have "items_rep K D V n (if xs = [] then 0 else msi_prev_lcp_len z + 1) (z # xs) (w # ts')" using z(2) unfolding z(3) .
  from Cons.IH [OF this Cons.prems(2,3)] obtain z' w' where
    r: "finalize_loop sha simple_mode n z xs = Ok z'" "item_rep K D V n 0 z' w'" "pt_lookup w' = items_map (w # ts')" by blast
  have "finalize_loop sha simple_mode n y (x # xs) = Ok z'"
    using z(1) r(1) unfolding finalize_loop.simps Let_def ko by simp
  then show ?case using r(2,3) z(4) ts(1) by auto
qed

section \<open>Building\<close>

lemma bits_less_parts:
  assumes "length a = length b" "bits_less a b"
  shows "parts_at (lcp_len a b) a b"
proof (cases a b rule: lcp_cases)
  case prefix_label
  then have "lcp_len a b = length b" using assms(1) by simp
  then have "a = b" using lcp_len_full_iff [of a b] assms(1) by auto
  then show ?thesis using assms(2) by simp
next
  case (parted q c u v)
  then have "\<not> c" using assms(2) by (simp add: bits_less_prefix)
  then show ?thesis unfolding parts_at_def parted(3) using parted(1,2) by (intro exI [of _ q] exI [of _ u] exI [of _ v]) simp
qed

definition leaf_at :: "(unit, unit) merge_stack_item list \<Rightarrow> ptree list \<Rightarrow> bool list \<Rightarrow> bool" where
  "leaf_at stack ts k \<longleftrightarrow> (\<exists>v p xs vb vr us. stack = MsLeaf (mk_bd k) v () p # xs \<and> ts = PLeaf k vb vr # us)"

lemma msi_reduce_spec:
  assumes "items_rep K D V n 0 stack ts" "leaf_at stack ts k" "length k = n" "length k' = n" "bits_less k k'"
    and "room D V n" "canon_by sha K"
  shows "\<exists>z zs w ws. msi_reduce sha simple_mode stack (as_data_slice (mk_bd k')) n = Ok (lcp_len k k', z # zs)
    \<and> items_rep K D V n (lcp_len k k' + 1) (z # zs) (w # ws) \<and> parts_at (lcp_len k k') (pt_label w) k'
    \<and> (zs \<noteq> [] \<longrightarrow> msi_prev_lcp_len z < lcp_len k k') \<and> items_map (w # ws) = items_map ts"
proof -
  obtain v p xs vb vr us where s: "stack = MsLeaf (mk_bd k) v () p # xs" "ts = PLeaf k vb vr # us"
    using assms(2) by (auto simp: leaf_at_def)
  let ?x = "MsLeaf (mk_bd k) v () p :: (unit, unit) merge_stack_item" and ?s = "lcp_len k k'"
  have pa: "parts_at ?s (pt_label (PLeaf k vb vr)) k'" using bits_less_parts [of k k'] assms(3-5) by simp
  note b = prefix_slice [of k n] prefix_slice [of k' n]
  have l: "size_bits (longest_common_data_prefix (msi_prefix_slice ?x) (as_data_slice (mk_bd k'))) = ?s"
    using longest_common_data_prefix_spec(3) [of "as_data_slice (mk_bd k)" "as_data_slice (mk_bd k')"] b assms(3,4) room_len(2) [OF assms(6)]
    by (simp add: msi_prefix_slice_def)
  have off: "items_rep K D V n off (?x # xs) (PLeaf k vb vr # us)" for off
    using assms(1) item_rep_leaf_offset [of K D V n 0 "mk_bd k" v "()" p _ off] by (simp add: s)
  show ?thesis
  proof (cases "?s \<le> p")
    case True
    from reduce_loop_spec [OF off assms(6,7) pa] obtain z zs w ws
      where z: "reduce_loop sha simple_mode n ?s ?x xs = Ok (z # zs)" "items_rep K D V n (?s + 1) (z # zs) (w # ws)"
        "parts_at ?s (pt_label w) k'" "zs \<noteq> [] \<longrightarrow> msi_prev_lcp_len z < ?s" "items_map (w # ws) = items_map ts" unfolding s(2) by blast
    have "msi_reduce sha simple_mode stack (as_data_slice (mk_bd k')) n = Ok (?s, z # zs)"
      unfolding msi_reduce_def s(1) list.case Let_def l using True z(1) by simp
    then show ?thesis using z(2-5) by blast
  next
    case False
    then have "msi_reduce sha simple_mode stack (as_data_slice (mk_bd k')) n = Ok (?s, ?x # xs)"
      using l by (simp add: msi_reduce_def s(1) Let_def)
    moreover have "items_map (PLeaf k vb vr # us) = items_map ts" by (simp add: s(2))
    moreover have "xs \<noteq> [] \<longrightarrow> msi_prev_lcp_len ?x < ?s" using False by simp
    ultimately show ?thesis using off [of "?s + 1"] pa by blast
  qed
qed

definition build_inv :: "sha256 option \<Rightarrow> nat \<Rightarrow> nat \<Rightarrow> nat \<Rightarrow> bool list option \<Rightarrow> (unit, unit) merge_stack_item list \<Rightarrow> ptree list \<Rightarrow> bool" where
  "build_inv K D V n prev stack ts \<longleftrightarrow> items_rep K D V n 0 stack ts
    \<and> (case prev of None \<Rightarrow> stack = []
       | Some k \<Rightarrow> leaf_at stack ts k \<and> length k = n \<and> (\<forall>j \<in> dom (items_map ts). bits_int j \<le> bits_int k))"

lemma build_push:
  assumes "build_inv K D V n prev stack ts" "length k = n" "\<And>p. prev = Some p \<Longrightarrow> bits_int p < bits_int k"
    and "appends v (fst x) (snd x)" "value_ok D V x" "room D V n" "canon_by sha K"
  shows "\<exists>lcp stack' ts'. msi_reduce sha simple_mode stack (as_data_slice (mk_bd k)) n = Ok (lcp, stack')
    \<and> build_inv K D V n (Some k) (MsLeaf (mk_bd k) v () lcp # stack') ts' \<and> items_map ts' = (items_map ts)(k \<mapsto> x)"
proof -
  let ?t = "PLeaf k (fst x) (snd x)"
  have look: "pt_lookup ?t = [k \<mapsto> x]" by (auto simp: fun_eq_iff)
  have it: "item_rep K D V n 0 (MsLeaf (mk_bd k) v () p) ?t" for p using item_rep_leaf assms(2,4,5) by simp
  show ?thesis
  proof (cases prev)
    case None
    then have "stack = []" "ts = []" using assms(1) by (auto simp: build_inv_def)
    then show ?thesis using it [of 0] assms(2) look
      by (intro exI [of _ 0] exI [of _ "[]"] exI [of _ "[?t]"]) (simp add: msi_reduce_def build_inv_def leaf_at_def del: pt_lookup.simps)
  next
    case (Some p)
    have i: "items_rep K D V n 0 stack ts" "leaf_at stack ts p" "length p = n" "\<forall>j \<in> dom (items_map ts). bits_int j \<le> bits_int p"
      using assms(1) by (simp_all add: build_inv_def Some)
    have lt: "bits_less p k" "bits_int p < bits_int k" using bits_less_int [of p k] i(3) assms(2) assms(3) [OF Some] by simp_all
    from msi_reduce_spec [OF i(1-3) assms(2) lt(1) assms(6,7)] obtain z zs w ws where
      r: "msi_reduce sha simple_mode stack (as_data_slice (mk_bd k)) n = Ok (lcp_len p k, z # zs)"
        "items_rep K D V n (lcp_len p k + 1) (z # zs) (w # ws)" "parts_at (lcp_len p k) (pt_label w) k"
        "zs \<noteq> [] \<longrightarrow> msi_prev_lcp_len z < lcp_len p k" "items_map (w # ws) = items_map ts" by blast
    have m: "items_map (?t # w # ws) = (items_map ts)(k \<mapsto> x)" unfolding items_map.simps(2) [of ?t] r(5) look by simp
    have "bits_int j \<le> bits_int k" if "j \<in> dom ((items_map ts)(k \<mapsto> x))" for j
    proof -
      have "j = k \<or> j \<in> dom (items_map ts)" using that by (auto split: if_splits)
      then show ?thesis using i(4) lt(2) by (auto dest!: bspec)
    qed
    then have "build_inv K D V n (Some k) (MsLeaf (mk_bd k) v () (lcp_len p k) # z # zs) (?t # w # ws)"
      using it [of "lcp_len p k"] r(2-4) assms(2) m
      by (simp add: build_inv_def leaf_at_def del: items_map.simps)
    then show ?thesis using r(1) m by blast
  qed
qed

text \<open>A comparison of keys that is that of their bits.\<close>

definition bitwise_cmp :: "('k \<Rightarrow> 'k \<Rightarrow> cmp_ordering) \<Rightarrow> ('k \<Rightarrow> bool list) \<Rightarrow> 'k set \<Rightarrow> bool" where
  "bitwise_cmp cmp kb S \<longleftrightarrow> (\<forall>x \<in> S. \<forall>y \<in> S.
     cmp x y = (if bits_int (kb x) < bits_int (kb y) then OrdLess else if kb x = kb y then OrdEqual else OrdGreater))"

lemma bitwise_cmp_subset: "bitwise_cmp cmp kb S \<Longrightarrow> T \<subseteq> S \<Longrightarrow> bitwise_cmp cmp kb T"
  unfolding bitwise_cmp_def by blast

text \<open>An entry that can be stored.\<close>

definition entries_ok :: "nat \<Rightarrow> nat \<Rightarrow> nat \<Rightarrow> ('k \<Rightarrow> cell_data_builder \<Rightarrow> cell_data_builder result) \<Rightarrow> ('k \<Rightarrow> bool list) \<Rightarrow> ('v \<Rightarrow> store_fn)
    \<Rightarrow> ('v \<Rightarrow> dict_value) \<Rightarrow> ('k \<times> 'v) list \<Rightarrow> bool" where
  "entries_ok D V n store_key kb st ct es \<longleftrightarrow> (\<forall>(k, v) \<in> set es. store_key k bd_new = Ok (mk_bd (kb k)) \<and> length (kb k) = n
     \<and> appends (st v) (fst (ct v)) (snd (ct v)) \<and> value_ok D V (ct v))"

lemma build_loop_spec:
  assumes "room D V n" "canon_by sha K"
    and "entries_ok D V n store_key kb st ct es" "bitwise_cmp cmp kb (set_option prev \<union> fst ` set es)"
    and "build_inv K D V n (map_option kb prev) stack ts"
  shows "if sorted ((case prev of None \<Rightarrow> [] | Some p \<Rightarrow> [bits_int (kb p)]) @ map (\<lambda>(k, v). bits_int (kb k)) es)
    then \<exists>prev' stack' ts'. build_loop sha simple_mode cmp store_key n prev stack (map (\<lambda>(k, v). (k, (), st v)) es) = Ok stack'
      \<and> build_inv K D V n prev' stack' ts' \<and> items_map ts' = map_of (map (\<lambda>(k, v). (kb k, ct v)) es) ++ items_map ts
    else build_loop sha simple_mode cmp store_key n prev stack (map (\<lambda>(k, v). (k, (), st v)) es) = Err InvalidData"
  using assms(3-5)
proof (induction es arbitrary: prev stack ts)
  case Nil
  then show ?case by (cases prev) auto
next
  case (Cons e es)
  obtain k v where e: "e = (k, v)" by (cases e)
  have k: "store_key k bd_new = Ok (mk_bd (kb k))" "length (kb k) = n" "appends (st v) (fst (ct v)) (snd (ct v))" "value_ok D V (ct v)"
    and es: "entries_ok D V n store_key kb st ct es"
    using Cons.prems(1) by (simp_all add: e entries_ok_def)
  have cm: "cmp x y = (if bits_int (kb x) < bits_int (kb y) then OrdLess else if kb x = kb y then OrdEqual else OrdGreater)"
    if "x \<in> set_option prev \<union> {k} \<union> fst ` set es" "y \<in> set_option prev \<union> {k} \<union> fst ` set es" for x y
  proof -
    have "bitwise_cmp cmp kb (set_option prev \<union> {k} \<union> fst ` set es)"
      by (rule bitwise_cmp_subset [OF Cons.prems(2)]) (auto simp: e)
    then show ?thesis using that unfolding bitwise_cmp_def by blast
  qed
  let ?run = "\<lambda>prev stack es. build_loop sha simple_mode cmp store_key n prev stack (map (\<lambda>(k, v). (k, (), st v)) es)"
  let ?c = "\<lambda>es. map_of (map (\<lambda>(k, v). (kb k, ct v)) es)"
  text \<open>The entry is pushed.\<close>
  have push: ?case
    if go: "\<And>p. prev = Some p \<Longrightarrow> bits_int (kb p) < bits_int (kb k)"
  proof -
    obtain lcp stack' ts' where p: "msi_reduce sha simple_mode stack (as_data_slice (mk_bd (kb k))) n = Ok (lcp, stack')"
      "build_inv K D V n (Some (kb k)) (MsLeaf (mk_bd (kb k)) (st v) () lcp # stack') ts'" "items_map ts' = (items_map ts)(kb k \<mapsto> ct v)"
      using build_push [OF Cons.prems(3) k(2) _ k(3,4) assms(1,2)] go by (cases prev) auto
    have new: "items_map ts (kb k) = None"
    proof (cases prev)
      case None
      then show ?thesis using Cons.prems(3) by (cases ts) (auto simp: build_inv_def)
    next
      case (Some q)
      then show ?thesis using Cons.prems(3) go [OF Some] by (force simp: build_inv_def)
    qed
    have run: "?run prev stack (e # es) = ?run (Some k) (MsLeaf (mk_bd (kb k)) (st v) () lcp # stack') es"
    proof (cases prev)
      case None
      then show ?thesis using k(1) p(1) by (simp add: e Let_def)
    next
      case (Some q)
      then have "cmp k q = OrdGreater" using cm [of k q] go [OF Some] by auto
      then show ?thesis using k(1) p(1) Some by (simp add: e Let_def)
    qed
    have content: "?c es ++ items_map ts' = ?c (e # es) ++ items_map ts"
      unfolding p(3) using new by (auto simp: e fun_eq_iff map_add_def split: option.split)
    have so: "sorted ((case prev of None \<Rightarrow> [] | Some p \<Rightarrow> [bits_int (kb p)]) @ map (\<lambda>(k, v). bits_int (kb k)) (e # es))
        \<longleftrightarrow> sorted (bits_int (kb k) # map (\<lambda>(k, v). bits_int (kb k)) es)"
      using go by (cases prev) (auto simp: e)
    have "bitwise_cmp cmp kb (set_option (Some k) \<union> fst ` set es)"
      by (rule bitwise_cmp_subset [OF Cons.prems(2)]) (auto simp: e)
    note ih = Cons.IH [OF es this, of "MsLeaf (mk_bd (kb k)) (st v) () lcp # stack'" ts', unfolded option.map option.case append_Cons append_Nil, OF p(2)]
    show ?thesis unfolding so run content [symmetric] by (rule ih)
  qed
  show ?case
  proof (cases prev)
    case None
    then show ?thesis using push by simp
  next
    case (Some q)
    then have kq: "cmp k q = (if bits_int (kb k) < bits_int (kb q) then OrdLess else if kb k = kb q then OrdEqual else OrdGreater)"
      using cm [of k q] by simp
    have inv: "leaf_at stack ts (kb q)" "length (kb q) = n" using Cons.prems(3) by (simp_all add: build_inv_def Some)
    consider "bits_int (kb k) < bits_int (kb q)" | "kb k = kb q" | "bits_int (kb q) < bits_int (kb k)" "kb k \<noteq> kb q"
      using bits_less_int [of "kb k" "kb q"] bits_less_int [of "kb q" "kb k"] key_less_linear [of "kb k" "kb q" False] k(2) inv(2)
      by (auto simp: key_less_False)
    then show ?thesis
    proof cases
      case 1
      then show ?thesis using kq by (simp add: Some e)
    next
      case 2
      then have kq: "cmp k q = OrdEqual" using kq by simp
      have "items_map ts (kb k) \<noteq> None" using inv(1) 2 by (auto simp: leaf_at_def)
      then have content: "?c (e # es) ++ items_map ts = ?c es ++ items_map ts"
        by (auto simp: e fun_eq_iff map_add_def split: option.split)
      have so: "sorted ([bits_int (kb q)] @ map (\<lambda>(k, v). bits_int (kb k)) (e # es))
          \<longleftrightarrow> sorted ([bits_int (kb q)] @ map (\<lambda>(k, v). bits_int (kb k)) es)" using 2 by (auto simp: e)
      have run: "?run (Some q) stack (e # es) = ?run (Some q) stack es" using kq by (simp add: e)
      have "bitwise_cmp cmp kb (set_option (Some q) \<union> fst ` set es)"
        by (rule bitwise_cmp_subset [OF Cons.prems(2)]) (auto simp: e Some)
      note ih = Cons.IH [OF es this, unfolded option.case, OF Cons.prems(3) [unfolded Some]]
      show ?thesis unfolding Some option.case so run content by (rule ih)
    next
      case 3
      then show ?thesis using push Some by simp
    qed
  qed
qed

text \<open>The dictionary of sorted entries; of equal keys the first one counts.\<close>

lemma build_dict_stores:
  assumes "room D V n" "canon_by sha K"
    and "entries_ok D V n store_key kb st ct es" "bitwise_cmp cmp kb (fst ` set es)"
  shows "if sorted (map (\<lambda>(k, v). bits_int (kb k)) es)
    then \<exists>d. build_dict_from_sorted_iter sha cmp store_key n (map (\<lambda>(k, v). (k, st v)) es) = Ok d
      \<and> stores K D V n d (map_of (map (\<lambda>(k, v). (kb k, ct v)) es))
    else build_dict_from_sorted_iter sha cmp store_key n (map (\<lambda>(k, v). (k, st v)) es) = Err InvalidData"
proof -
  have m: "map ((\<lambda>(key, v). (key, (), v)) \<circ> (\<lambda>(k, v). (k, st v))) es = map (\<lambda>(k, v). (k, (), st v)) es"
    by (simp add: case_prod_unfold comp_def)
  have "build_inv K D V n (map_option kb None) [] []" by (simp add: build_inv_def)
  note b = build_loop_spec [OF assms(1-3) _ this, of cmp]
  have bc: "bitwise_cmp cmp kb (set_option None \<union> fst ` set es)" using assms(4) by simp
  note b = b [OF bc, unfolded option.case append_Nil items_map.simps(1)]
  show ?thesis
  proof (cases "sorted (map (\<lambda>(k, v). bits_int (kb k)) es)")
    case False
    then show ?thesis using b by (simp add: build_dict_from_sorted_iter_def m)
  next
    case True
    then obtain prev' stack ts where s: "build_loop sha simple_mode cmp store_key n None [] (map (\<lambda>(k, v). (k, (), st v)) es) = Ok stack"
      "build_inv K D V n prev' stack ts" "items_map ts = map_of (map (\<lambda>(k, v). (kb k, ct v)) es)"
      using b by (auto simp: map_add_def fun_eq_iff)
    show ?thesis
    proof (cases stack)
      case Nil
      then have "ts = []" using s(2) by (simp add: build_inv_def)
      then show ?thesis using True s(1,3) Nil by (simp add: build_dict_from_sorted_iter_def m msi_finalize_def stores_None)
    next
      case (Cons x xs)
      then obtain k where "leaf_at stack ts k" "items_rep K D V n 0 stack ts"
        using s(2) by (auto simp: build_inv_def split: option.splits)
      then obtain v p vb vr us where l: "x = MsLeaf (mk_bd k) v () p" "ts = PLeaf k vb vr # us" "items_rep K D V n 0 (x # xs) ts"
        using Cons by (auto simp: leaf_at_def)
      have "items_rep K D V n off (x # xs) (PLeaf k vb vr # us)" for off
        using l item_rep_leaf_offset [of K D V n 0 "mk_bd k" v "()" p _ off] by simp
      from finalize_loop_spec [OF this assms(1,2)] obtain z w
        where z: "finalize_loop sha simple_mode n x xs = Ok z" "item_rep K D V n 0 z w" "pt_lookup w = items_map ts"
        unfolding l(2) by blast
      obtain c where c: "msi_build sha simple_mode z n = Ok c" "rep K D V n c w" using msi_build_spec [OF z(2) assms(1,2)] .
      have "build_dict_from_sorted_iter sha cmp store_key n (map (\<lambda>(k, v). (k, st v)) es) = Ok (Some c)"
        using s(1) Cons z(1) c(1) by (simp add: build_dict_from_sorted_iter_def m msi_finalize_def)
      then show ?thesis using True stores_rep [OF c(2)] z(3) s(3) by auto
    qed
  qed
qed

text \<open>
  Two entries whose first bits are in descending order, as a comparison of signed numbers admits: they are
  stored under each other's first bit.
\<close>

lemma build_descending:
  assumes "room D V (Suc (length a))" "length b = length a" "canon_by sha K" "cmp k2 k1 = OrdGreater"
    and "entries_ok D V (Suc (length a)) store_key kb st ct [(k1, v1), (k2, v2)]" "kb k1 = True # a" "kb k2 = False # b"
  shows "\<exists>d. build_dict_from_sorted_iter sha cmp store_key (Suc (length a)) [(k1, st v1), (k2, st v2)] = Ok d
    \<and> stores K D V (Suc (length a)) d [False # a \<mapsto> ct v1, True # b \<mapsto> ct v2]"
proof -
  let ?n = "Suc (length a)"
  let ?x = "MsLeaf (mk_bd (True # a)) (st v1) () 0 :: (unit, unit) merge_stack_item"
  let ?y = "MsLeaf (mk_bd (False # b)) (st v2) () 0 :: (unit, unit) merge_stack_item"
  have k: "store_key k1 bd_new = Ok (mk_bd (True # a))" "store_key k2 bd_new = Ok (mk_bd (False # b))"
    "appends (st v1) (fst (ct v1)) (snd (ct v1))" "appends (st v2) (fst (ct v2)) (snd (ct v2))" "value_ok D V (ct v1)" "value_ok D V (ct v2)"
    using assms(5-7) by (auto simp: entries_ok_def)
  have n: "?n \<le> 1023" using room_len(2) [OF assms(1)] .
  have p: "wf_slice (as_data_slice (mk_bd (True # a)))" "slice_bits (as_data_slice (mk_bd (True # a))) = True # a"
    "wf_slice (as_data_slice (mk_bd (False # b)))" "slice_bits (as_data_slice (mk_bd (False # b))) = False # b"
    using prefix_slice [of "True # a" ?n] prefix_slice [of "False # b" ?n] n assms(2) by simp_all
  have l: "size_bits (longest_common_data_prefix (msi_prefix_slice ?x) (as_data_slice (mk_bd (False # b)))) = 0"
    using longest_common_data_prefix_spec(3) [OF p(1,3)] p(2,4) by (simp add: msi_prefix_slice_def)
  have r: "msi_reduce sha simple_mode [?x] (as_data_slice (mk_bd (False # b))) ?n = Ok (0, [?x])"
    unfolding msi_reduce_def list.case Let_def l by simp
  have loop: "build_loop sha simple_mode cmp store_key ?n None [] [(k1, (), st v1), (k2, (), st v2)] = Ok [?y, ?x]"
    using k(1,2) r assms(4) by (simp add: msi_reduce_def)
  have i: "item_rep K D V ?n 1 ?x (PLeaf (True # a) (fst (ct v1)) (snd (ct v1)))" "item_rep K D V ?n 1 ?y (PLeaf (False # b) (fst (ct v2)) (snd (ct v2)))"
    using item_rep_leaf k(3-6) assms(2) by simp_all
  let ?t = "PLeaf (True # a) (fst (ct v1)) (snd (ct v1))" and ?u = "PLeaf (False # b) (fst (ct v2)) (snd (ct v2))"
  have j: "item_rep K D V ?n (0 + 1) ?x ?t" "item_rep K D V ?n (0 + 1) ?y ?u" "msi_prev_lcp_len ?y = 0"
    "0 < length (pt_label ?t)" "0 < length (pt_label ?u)" using i by simp_all
  obtain e k' where e': "msi_merge sha simple_mode ?x ?y 0 ?n = Ok (MsNode (mk_bd k') e () (msi_prev_lcp_len ?x))"
    "rep K D V (?n - 0) e (PFork (drop 0 (take 0 (pt_label ?u))) (pt_relabel (drop (0 + 1) (pt_label ?t)) ?t) (pt_relabel (drop (0 + 1) (pt_label ?u)) ?u))"
    by (rule merge_fork [OF j le_refl assms(1,3)])
  then have e: "msi_merge sha simple_mode ?x ?y 0 ?n = Ok (MsNode (mk_bd k') e () 0)"
    "rep K D V ?n e (PFork [] (PLeaf a (fst (ct v1)) (snd (ct v1))) (PLeaf b (fst (ct v2)) (snd (ct v2))))"
    by simp_all
  have "build_dict_from_sorted_iter sha cmp store_key ?n [(k1, st v1), (k2, st v2)] = Ok (Some e)"
    using loop e(1) by (simp add: build_dict_from_sorted_iter_def msi_finalize_def msi_build_def)
  moreover have "pt_lookup (PFork [] (PLeaf a (fst (ct v1)) (snd (ct v1))) (PLeaf b (fst (ct v2)) (snd (ct v2))))
      = [False # a \<mapsto> ct v1, True # b \<mapsto> ct v2]" by (auto simp: fun_eq_iff split: list.splits)
  ultimately show ?thesis using stores_rep [OF e(2)] by metis
qed

end
