(* ===== verification/Dict_Iter_Total.thy ===== *)
theory Dict_Iter_Total
  imports Dict_Iter_Props
begin

text \<open>
  Iterating over any tree of cells ends, whether it is a dictionary or not. A segment whose edge is not
  read yet, with \<open>r\<close> bits of the key left, weighs \<open>2 ^ (r + 1) - 1\<close>; a read segment weighs as much as the
  branches it has left. Every read makes the stack lighter.
\<close>

definition edge_weight :: "nat \<Rightarrow> nat" where
  "edge_weight r = 2 ^ (r + 1) - 1"

lemma edge_weight_Suc: "edge_weight (Suc r) = 1 + 2 * edge_weight r"
proof -
  obtain x where "(2::nat) ^ r = Suc x" by (metis not0_implies_Suc power_not_zero zero_neq_numeral)
  then show ?thesis by (simp add: edge_weight_def)
qed

lemma edge_weight_mono: "r \<le> s \<Longrightarrow> edge_weight r \<le> edge_weight s"
  by (simp add: edge_weight_def diff_le_mono)

lemma edge_weight_pos: "0 < edge_weight r"
  using one_less_power [of "2 :: nat" "r + 1"] by (simp add: edge_weight_def)

lemma edge_weight_step: "l < r \<Longrightarrow> 1 + 2 * edge_weight (r - l - 1) \<le> edge_weight r"
  using edge_weight_Suc [of "r - l - 1"] edge_weight_mono [of "Suc (r - l - 1)" r] by simp

definition seg_weight :: "iter_segment \<Rightarrow> nat" where
  "seg_weight seg = (case it_prefix seg of
     None \<Rightarrow> edge_weight (it_remaining_bit_len seg)
   | Some _ \<Rightarrow> (2 - refs_start (sl_range (it_data seg))) * edge_weight (it_remaining_bit_len seg))"

definition segs_weight :: "iter_segment list \<Rightarrow> nat" where
  "segs_weight segs = sum_list (map seg_weight segs)"

lemma segs_weight_simps [simp]: "segs_weight [] = 0" "segs_weight (seg # segs) = seg_weight seg + segs_weight segs"
  by (simp_all add: segs_weight_def)

definition seg_ok :: "iter_segment \<Rightarrow> bool" where
  "seg_ok seg \<longleftrightarrow> wf_slice (it_data seg) \<and> wf_cell (sl_cell (it_data seg)) \<and> it_remaining_bit_len seg \<le> 1023
     \<and> (it_prefix seg \<noteq> None \<longrightarrow> 2 \<le> refs_end (sl_range (it_data seg)))"

definition fresh_seg :: "iter_segment \<Rightarrow> bool" where
  "fresh_seg seg \<longleftrightarrow> seg_ok seg \<and> it_prefix seg = None \<and> refs_start (sl_range (it_data seg)) = 0"

text \<open>A stack that the iterator can have: only its top may be unread, and then from its first reference on.\<close>

definition segs_ok :: "iter_segment list \<Rightarrow> bool" where
  "segs_ok segs \<longleftrightarrow> list_all (\<lambda>seg. seg_ok seg \<and> (it_prefix seg = None \<longrightarrow> fresh_seg seg)) segs"

lemma child_slice:
  assumes "wf_cell c" "cell_get_reference_as_slice c i = Ok s"
  shows "wf_slice s" "wf_cell (sl_cell s)" "refs_start (sl_range s) = 0"
proof -
  obtain c' where c': "reference c i = Some c'" "slice_new c' = Ok s"
    using assms(2) by (auto simp: cell_get_reference_as_slice_def split: option.splits)
  then have "c' \<in> set (cell_children c)" using wf_cell_children(3) [OF assms(1), of i] by (auto simp: nth_opt_def split: if_splits)
  then have w: "wf_cell c'" using wf_cell_children(4) [OF assms(1)] by (auto simp: list_all_iff)
  have s: "s = slice_new_allow_exotic c'" using c'(2) by (auto simp: slice_new_eq split: if_splits)
  show "wf_slice s" "wf_cell (sl_cell s)" "refs_start (sl_range s) = 0"
    using w by (simp_all add: s slice_new_allow_exotic_def range_full_def wf_slice_def wf_cell_shape_ok)
qed

lemma seek_weight:
  "segs_ok segs \<Longrightarrow> iter_seek rv sg k segs b = Ok (Some (seg, segs', b')) \<Longrightarrow>
    fresh_seg seg \<and> segs_ok segs' \<and> seg_weight seg + segs_weight segs' \<le> segs_weight segs"
proof (induction rv sg k segs b rule: iter_seek.induct)
  case (2 rv sg k s segs b)
  have s: "seg_ok s" "segs_ok segs" using "2.prems"(1) by (simp_all add: segs_ok_def)
  show ?case
  proof (cases "it_prefix s")
    case None
    then show ?thesis using "2.prems" by (auto simp: segs_ok_def iter_seek.simps)
  next
    case (Some p)
    let ?i = "refs_start (sl_range (it_data s))"
    show ?thesis
    proof (cases "?i < 2")
      case False
      have "seg_weight s = 0" using False by (simp add: seg_weight_def Some)
      then show ?thesis
        using "2.IH" [OF refl Some refl False refl refl s(2)] "2.prems"(2) Some False by (simp add: iter_seek.simps Let_def)
    next
      case True
      have e: "?i < refs_end (sl_range (it_data s))" "wf_slice (it_data s)" using s(1) True Some by (simp_all add: seg_ok_def)
      note sk = skip_reference_spec [OF e(2,1)]
      obtain bit d b1 where d: "cell_get_reference_as_slice (sl_cell (it_data s)) (of_bool bit) = Ok d"
        "seg = \<lparr>it_data = d, it_remaining_bit_len = it_remaining_bit_len s, it_prefix = None\<rparr>"
        "segs' = s\<lparr>it_data := skip_reference (it_data s)\<rparr> # segs"
        using "2.prems"(2) Some True by (auto simp: iter_seek.simps Let_def ok_eq_Ok_iff)
      note c = child_slice [OF _ d(1)]
      have "fresh_seg seg" using c s(1) by (simp add: fresh_seg_def seg_ok_def d(2))
      moreover have "segs_ok segs'" using s sk Some by (simp add: segs_ok_def d(3) seg_ok_def)
      moreover have "seg_weight seg + seg_weight (s\<lparr>it_data := skip_reference (it_data s)\<rparr>) = seg_weight s"
      proof -
        have "2 - ?i = 1 + (2 - (?i + 1))" using True by simp
        then show ?thesis using sk Some by (simp add: seg_weight_def d(2))
      qed
      ultimately show ?thesis by (simp add: d(3))
    qed
  qed
qed (simp add: iter_seek.simps)

text \<open>One call returns, and after an entry the stack is lighter.\<close>

lemma next_impl_returns:
  "segs_ok segs \<Longrightarrow> \<exists>res. next_impl rv sg segs b = Some res
    \<and> (\<forall>x segs' b'. res = Ok (Some x, segs', b') \<longrightarrow> segs_ok segs' \<and> segs_weight segs' < segs_weight segs)"
proof (induction "segs_weight segs" arbitrary: segs b rule: less_induct)
  case less
  show ?case
  proof (cases "iter_seek rv sg 0 segs b")
    case (Inl e)
    then show ?thesis by (subst next_impl_read) simp
  next
    case (Inr r)
    show ?thesis
    proof (cases r)
      case None
      then show ?thesis using Inr by (subst next_impl_read) simp
    next
      case (Some x)
      obtain seg segs1 b1 where x: "x = (seg, segs1, b1)" by (cases x)
      have sk: "fresh_seg seg" "segs_ok segs1" "seg_weight seg + segs_weight segs1 \<le> segs_weight segs"
        using seek_weight [OF less.prems, of rv sg 0 b seg segs1 b1] Inr Some x by simp_all
      let ?r = "it_remaining_bit_len seg"
      have sw: "seg_weight seg = edge_weight ?r" using sk(1) by (simp add: fresh_seg_def seg_weight_def)
      have ok: "wf_slice (it_data seg)" "wf_cell (sl_cell (it_data seg))" "?r \<le> 1023" "refs_start (sl_range (it_data seg)) = 0"
        using sk(1) by (simp_all add: fresh_seg_def seg_ok_def)
      have n: "next_impl rv sg segs b = next_read rv sg seg segs1 b1" using Inr Some x by (subst next_impl_read) simp
      show ?thesis
      proof (cases "read_label (it_data seg) ?r")
        case (Inl e)
        then show ?thesis unfolding n by (simp add: next_read_def)
      next
        case (Inr y)
        obtain l d where y: "y = (l, d)" by (cases y)
        have lr: "label_result (it_data seg) (parse_label ?r (slice_bits (it_data seg))) (Ok (l, d))"
          using read_label_spec [OF ok(1,3)] Inr y by simp
        then obtain k where d: "d = advance (it_data seg) k" "k \<le> size_bits (it_data seg)"
          by (auto simp: label_result_def split: option.splits prod.splits)
        show ?thesis
        proof (cases "size_bits l < ?r \<and> \<not> size_refs d < 2")
          case False
          then show ?thesis
            using Inr y sk sw edge_weight_pos [of ?r] unfolding n next_read_def
            by (auto simp: ok_eq_Ok_iff)
        next
          case True
          let ?seg = "\<lparr>it_data = d, it_remaining_bit_len = ?r - size_bits l - 1, it_prefix = Some l\<rparr>"
          have w: "wf_slice d" "sl_cell d = sl_cell (it_data seg)" "refs_start (sl_range d) = 0" "2 \<le> refs_end (sl_range d)"
            using wf_advance [OF ok(1) d(2)] d ok True by (simp_all add: size_refs_eq) (simp_all add: advance_def)
          then have so: "segs_ok (?seg # segs1)" using ok(2,3) sk(2) by (simp add: segs_ok_def seg_ok_def)
          have "segs_weight (?seg # segs1) < segs_weight segs"
          proof -
            have "seg_weight ?seg = 2 * edge_weight (?r - size_bits l - 1)" using w(3) by (simp add: seg_weight_def)
            then show ?thesis
              unfolding segs_weight_simps using edge_weight_step [of "size_bits l" ?r] True sk(3) unfolding sw by linarith
          qed
          note ih = less.hyps [OF this so]
          show ?thesis
          proof (cases "store_slice_data b1 l")
            case (Inl e)
            then show ?thesis using Inr y True unfolding n by (simp add: next_read_def)
          next
            case i: (Inr b2)
            have "next_impl rv sg segs b = next_impl rv sg (?seg # segs1) b2"
              using Inr y True i unfolding n by (simp add: next_read_def)
            then show ?thesis using ih [of b2] \<open>segs_weight (?seg # segs1) < segs_weight segs\<close>
              by (auto intro: less_trans)
          qed
        qed
      qed
    qed
  qed
qed

text \<open>The items of an iterator up to its end, errors included.\<close>

inductive drains :: "('s \<Rightarrow> ('s \<times> 'a item) option) \<Rightarrow> 's \<Rightarrow> 'a result list \<Rightarrow> bool" for next_item where
  drains_end: "next_item it = Some (it', None) \<Longrightarrow> drains next_item it []"
| drains_step: "next_item it = Some (it', Some r) \<Longrightarrow> drains next_item it' rs \<Longrightarrow> drains next_item it (r # rs)"

lemma broken_drains: "ri_status it = StatusBroken \<Longrightarrow> drains raw_iter_next it []"
  by (rule drains_end) (simp add: raw_iter_next_def status_is_valid_def status_is_unexpected_cell_def)

lemma raw_iter_drains:
  "segs_ok (ri_segments it) \<Longrightarrow> \<exists>rs. drains raw_iter_next it rs \<and> length rs \<le> segs_weight (ri_segments it) + 1"
proof (induction "segs_weight (ri_segments it)" arbitrary: it rule: less_induct)
  case less
  show ?case
  proof (cases "status_is_valid (ri_status it)")
    case False
    show ?thesis
    proof (cases "status_is_unexpected_cell (ri_status it)")
      case True
      then have "raw_iter_next it = Some (it\<lparr>ri_status := StatusBroken\<rparr>, Some (Err UnexpectedExoticCell))"
        using False by (simp add: raw_iter_next_def)
      from drains_step [of raw_iter_next, OF this broken_drains] show ?thesis by fastforce
    next
      case u: False
      then have "raw_iter_next it = Some (it, None)" using False by (simp add: raw_iter_next_def)
      then show ?thesis using drains_end [of raw_iter_next] by fastforce
    qed
  next
    case True
    obtain res where r: "next_impl (ri_reversed it) (ri_signed it) (ri_segments it) (ri_builder it) = Some res"
      "\<And>x segs' b'. res = Ok (Some x, segs', b') \<Longrightarrow> segs_ok segs' \<and> segs_weight segs' < segs_weight (ri_segments it)"
      using next_impl_returns [OF less.prems] by blast
    show ?thesis
    proof (cases res)
      case (Inl e)
      then have "raw_iter_next it = Some (raw_iter_finish it, Some (Err e))" using True r(1) by (simp add: raw_iter_next_def)
      from drains_step [of raw_iter_next, OF this broken_drains] show ?thesis by (fastforce simp: raw_iter_finish_def)
    next
      case (Inr y)
      obtain x segs' b' where y: "y = (x, segs', b')" by (cases y)
      let ?it = "it\<lparr>ri_segments := segs', ri_builder := b'\<rparr>"
      have n: "raw_iter_next it = Some (?it, map_option Ok x)" using True r(1) Inr y by (simp add: raw_iter_next_def)
      show ?thesis
      proof (cases x)
        case None
        then show ?thesis using n drains_end [of raw_iter_next] by fastforce
      next
        case (Some z)
        have w: "segs_ok segs'" "segs_weight segs' < segs_weight (ri_segments it)" using r(2) [of z segs' b'] Inr y Some by simp_all
        obtain rs where rs: "drains raw_iter_next ?it rs" "length rs \<le> segs_weight segs' + 1"
          using less.hyps [of ?it] w by auto
        have "drains raw_iter_next it (Ok z # rs)" using drains_step [of raw_iter_next, OF _ rs(1)] n Some by simp
        moreover have "length (Ok z # rs) \<le> segs_weight (ri_segments it) + 1" using rs(2) w(2) by simp
        ultimately show ?thesis by blast
      qed
    qed
  qed
qed

lemma raw_iter_new_ext_drains:
  assumes "\<forall>c. root = Some c \<longrightarrow> wf_cell c" "n \<le> 1023"
  shows "\<exists>rs. drains raw_iter_next (raw_iter_new_ext root n rv sg) rs \<and> length rs \<le> 2 ^ (n + 1)"
proof -
  let ?it = "raw_iter_new_ext root n rv sg"
  have "segs_ok (ri_segments ?it) \<and> segs_weight (ri_segments ?it) \<le> edge_weight n"
  proof (cases root)
    case (Some c)
    then show ?thesis
      using assms wf_cell_shape_ok [of c] by (simp add: raw_iter_new_ext_def slice_new_eq slice_new_allow_exotic_def range_full_def
          segs_ok_def fresh_seg_def seg_ok_def wf_slice_def seg_weight_def)
  qed (simp add: raw_iter_new_ext_def segs_ok_def)
  moreover have "edge_weight n + 1 = 2 ^ (n + 1)" using edge_weight_pos [of n] by (simp add: edge_weight_def)
  ultimately show ?thesis using raw_iter_drains [of ?it] by (metis le_trans add_le_mono1)
qed

end
