(* ===== verification/Lazy.thy ===== *)
theory Lazy
  imports Cell_Load
begin

text \<open>
  Cells that stand for values: the typed wrapper \<open>Lazy\<close> of \<^verbatim>\<open>src/cell/lazy.rs\<close>, whose phantom type is the
  argument that stores or loads the value and whose constant parameter \<open>EXOTIC\<close> is a boolean, the parsing of
  cells (\<^verbatim>\<open>src/cell/mod.rs\<close>), and the typed dictionary \<open>Dict\<close> of \<^verbatim>\<open>src/dict/typed.rs\<close> as a field of other
  types, that is, its optional root cell.
\<close>

section \<open>Parsing cells\<close>

definition cell_parse :: "(cell_slice \<Rightarrow> ('v \<times> cell_slice) result) \<Rightarrow> cell \<Rightarrow> 'v result" where
  "cell_parse load_from c = ok (slice_new c) (\<lambda>s. ok (load_from s) (\<lambda>(v, _). Ok v))"

definition cell_parse_exotic :: "(cell \<Rightarrow> 'v result) \<Rightarrow> cell \<Rightarrow> 'v result" where
  "cell_parse_exotic load_from_cell c = (if cell_is_exotic c then load_from_cell c else Err UnexpectedOrdinaryCell)"

section \<open>Lazy\<close>

record lazy =
  lz_cell :: cell

definition lz_exact_size :: "lazy \<Rightarrow> size" where
  "lz_exact_size l = \<lparr>sz_bits = 0, sz_refs = 1\<rparr>"

definition lz_eq :: "lazy \<Rightarrow> lazy \<Rightarrow> bool" where
  "lz_eq a b \<longleftrightarrow> repr_hash (lz_cell a) = repr_hash (lz_cell b)"

definition lz_from_raw :: "bool \<Rightarrow> cell \<Rightarrow> lazy result" where
  "lz_from_raw exotic c =
    (if cell_is_exotic c \<noteq> exotic then Err (if exotic then UnexpectedOrdinaryCell else UnexpectedExoticCell)
     else Ok \<lparr>lz_cell = c\<rparr>)"

definition lz_new :: "bool \<Rightarrow> sha256 \<Rightarrow> ('v \<Rightarrow> cell_builder \<Rightarrow> cell_builder result) \<Rightarrow> 'v \<Rightarrow> lazy result" where
  "lz_new exotic sha store_into data = ok (build_from sha (store_into data)) (lz_from_raw exotic)"

definition lz_set :: "bool \<Rightarrow> sha256 \<Rightarrow> ('v \<Rightarrow> cell_builder \<Rightarrow> cell_builder result) \<Rightarrow> lazy \<Rightarrow> 'v \<Rightarrow> lazy result" where
  "lz_set exotic sha store_into l data = ok (lz_new exotic sha store_into data) Ok"

definition lz_load :: "(cell_slice \<Rightarrow> ('v \<times> cell_slice) result) \<Rightarrow> lazy \<Rightarrow> 'v result" where
  "lz_load load_from l = cell_parse load_from (lz_cell l)"

definition lz_load_exotic :: "(cell \<Rightarrow> 'v result) \<Rightarrow> lazy \<Rightarrow> 'v result" where
  "lz_load_exotic load_from_cell l = cell_parse_exotic load_from_cell (lz_cell l)"

definition lz_store_into :: "lazy \<Rightarrow> cell_builder \<Rightarrow> cell_builder result" where
  "lz_store_into l b = store_reference b (lz_cell l)"

definition lz_load_from :: "bool \<Rightarrow> cell_slice \<Rightarrow> (lazy \<times> cell_slice) result" where
  "lz_load_from exotic s = ok (load_reference_cloned s) (\<lambda>(c, s). ok (lz_from_raw exotic c) (\<lambda>l. Ok (l, s)))"

lemma lz_codec:
  "appends (lz_store_into l) [] [lz_cell l]"
  "cell_is_exotic (lz_cell l) = exotic \<Longrightarrow> loads (lz_load_from exotic) [] [lz_cell l] l"
proof -
  show "appends (lz_store_into l) [] [lz_cell l]"
    unfolding lz_store_into_def [abs_def] by (rule appends_store_reference)
  assume "cell_is_exotic (lz_cell l) = exotic"
  then have "lz_from_raw exotic (lz_cell l) = Ok l" by (simp add: lz_from_raw_def)
  then have "loads (\<lambda>s. ok (lz_from_raw exotic (lz_cell l)) (\<lambda>l. Ok (l, s))) [] [] l" by (simp add: loads_Ok)
  from loads_bind [OF loads_reference_cloned, where g = "\<lambda>c s. ok (lz_from_raw exotic c) (\<lambda>l. Ok (l, s))", OF this]
  show "loads (lz_load_from exotic) [] [lz_cell l] l" unfolding lz_load_from_def [abs_def] by simp
qed

interpretation lazy_codec: cell_codec "\<lambda>l. \<not> cell_is_exotic (lz_cell l)" "\<lambda>_. []" "\<lambda>l. [lz_cell l]" lz_store_into "lz_load_from False"
  by unfold_locales (rule lz_codec, rule lz_codec, simp)

text \<open>What is wrapped is loaded.\<close>

context cell_codec begin

lemma lz_new_load:
  assumes "valid v" "list_all wf_cell (refs_of v)" "lz_new False sha store v = Ok l"
  shows "lz_load load l = Ok v"
proof -
  obtain c where c: "build_from sha (store v) = Ok c" "l = \<lparr>lz_cell = c\<rparr>"
    using assms(3) by (auto simp: lz_new_def lz_from_raw_def ok_eq_Ok_iff split: if_splits)
  show ?thesis
    by (rule build_then_load [OF assms(1,2) c(1)]) (simp add: lz_load_def cell_parse_def c(2))
qed

end

section \<open>Dictionaries as fields\<close>

record typed_dict =
  td_root :: "cell option"

definition td_new :: typed_dict where "td_new = \<lparr>td_root = None\<rparr>"

definition td_from_raw :: "cell option \<Rightarrow> typed_dict" where "td_from_raw c = \<lparr>td_root = c\<rparr>"

definition td_is_empty :: "typed_dict \<Rightarrow> bool" where "td_is_empty d \<longleftrightarrow> td_root d = None"

definition td_exact_size :: "typed_dict \<Rightarrow> size" where
  "td_exact_size d = \<lparr>sz_bits = 1, sz_refs = of_bool (td_root d \<noteq> None)\<rparr>"

definition td_store_into :: "typed_dict \<Rightarrow> cell_builder \<Rightarrow> cell_builder result" where
  "td_store_into d b = store_option (\<lambda>c b. store_reference b c) (td_root d) b"

definition td_load_from :: "cell_slice \<Rightarrow> (typed_dict \<times> cell_slice) result" where
  "td_load_from s = ok (load_option load_reference_cloned s) (\<lambda>(root, s). Ok (\<lparr>td_root = root\<rparr>, s))"

definition opt_refs :: "cell option \<Rightarrow> cell list" where
  "opt_refs c = (case c of None \<Rightarrow> [] | Some c \<Rightarrow> [c])"

lemma opt_cell_codec:
  "appends (store_option (\<lambda>c b. store_reference b c) c) [c \<noteq> None] (opt_refs c)"
  "loads (load_option load_reference_cloned) [c \<noteq> None] (opt_refs c) c"
  using reference_store.option_appends [of c] reference_codec.option_loads [of c]
  by (cases c; simp add: opt_refs_def)+

interpretation dict_codec: cell_codec "\<lambda>_. True" "\<lambda>d. [\<not> td_is_empty d]" "\<lambda>d. opt_refs (td_root d)" td_store_into td_load_from
proof (unfold_locales)
  fix d :: typed_dict
  show "appends (td_store_into d) [\<not> td_is_empty d] (opt_refs (td_root d))"
    unfolding td_store_into_def [abs_def] td_is_empty_def by (rule opt_cell_codec)
  show "loads td_load_from [\<not> td_is_empty d] (opt_refs (td_root d)) d"
    unfolding td_load_from_def [abs_def] td_is_empty_def
    using loads_map [OF opt_cell_codec(2), where h = "\<lambda>r. \<lparr>td_root = r\<rparr>", of "td_root d"] by (cases d) simp
qed

end
