(* ===== verification/Dict_Aug.thy ===== *)
theory Dict_Aug
  imports Dict_Map Dict_Split Lazy
begin

text \<open>
  Augmented dictionaries: \<^verbatim>\<open>src/dict/aug.rs\<close>, and \<open>split_aug_edge\<close>, \<open>rebuild_aug_dict_from_stack\<close>,
  \<open>aug_dict_insert\<close> and \<open>aug_dict_remove_owned\<close> of \<^verbatim>\<open>src/dict\<close>. Every leaf and every fork starts with an extra
  value, that of a fork combines those of its children. The trait \<open>AugDictExtra\<close> is a record of functions
  and, for the proofs, the locale \<open>augmentation\<close>. The extra of the dictionary of old masterchain blocks,
  \<open>KeyMaxLt\<close> of \<^verbatim>\<open>src/models/shard/shard_extra.rs\<close>, interprets it.
\<close>

section \<open>Insertion and removal\<close>

text \<open>
  What \<open>split_aug_edge\<close> and \<open>rebuild_aug_dict_from_stack\<close> do in the end: a fork of two edges for keys of
  \<open>child_bits\<close> bits, with their combined extra.
\<close>

definition aug_fork :: "sha256 \<Rightarrow> cell_slice \<Rightarrow> nat \<Rightarrow> cell \<Rightarrow> cell \<Rightarrow> nat \<Rightarrow> aug_dict_fn \<Rightarrow> cell result" where
  "aug_fork sha label key_bit_len left right child_bits comparator =
    ok (slice_new left) (\<lambda>left_slice.
    ok (slice_new right) (\<lambda>right_slice.
    ok (skip_label_full left_slice child_bits) (\<lambda>left_slice.
    ok (skip_label_full right_slice child_bits) (\<lambda>right_slice.
    ok (write_label label key_bit_len cb_new) (\<lambda>builder.
    ok (store_reference builder left) (\<lambda>builder.
    ok (store_reference builder right) (\<lambda>builder.
    ok (comparator left_slice right_slice builder) (\<lambda>builder.
    build_ext sha builder))))))))"

definition split_aug_edge :: "sha256 \<Rightarrow> cell_slice \<Rightarrow> cell_slice \<Rightarrow> cell_slice \<Rightarrow> cell_slice
    \<Rightarrow> store_fn \<Rightarrow> store_fn \<Rightarrow> aug_dict_fn \<Rightarrow> cell result" where
  "split_aug_edge sha data prefix lcp key extra value comparator =
    (let prev_key_bit_len = size_bits key
     in ok (skip_first key (size_bits lcp + 1) 0) (\<lambda>key.
        let prefix = (case skip_first prefix (size_bits lcp) 0 of Inr p \<Rightarrow> p | Inl e \<Rightarrow> prefix)
        in ok (load_bit prefix) (\<lambda>(old_to_right, prefix).
           ok (make_leaf sha prefix (size_bits key) (\<lambda>b. store_slice b data)) (\<lambda>left.
           ok (make_leaf_with_extra sha key (size_bits key) extra value) (\<lambda>right.
           let (left, right) = (if old_to_right then (right, left) else (left, right))
           in aug_fork sha lcp prev_key_bit_len left right (size_bits key) comparator)))))"

fun rebuild_aug_dict_from_stack :: "sha256 \<Rightarrow> aug_dict_fn \<Rightarrow> segment list \<Rightarrow> cell \<Rightarrow> cell result" where
  "rebuild_aug_dict_from_stack sha comparator [] leaf = Ok leaf"
| "rebuild_aug_dict_from_stack sha comparator (seg # segments) leaf =
     ok (case sg_next_branch seg of
           BrLeft \<Rightarrow> (case reference_cloned (sg_data seg) 1 of
             Some cell \<Rightarrow> Ok (leaf, cell) | None \<Rightarrow> Err CellUnderflow)
         | BrRight \<Rightarrow> (case reference_cloned (sg_data seg) 0 of
             Some cell \<Rightarrow> Ok (cell, leaf) | None \<Rightarrow> Err CellUnderflow)) (\<lambda>(left, right).
     ok (slice_new (sg_data seg)) (\<lambda>last_data_slice.
     ok (read_label last_data_slice (sg_key_bit_len seg)) (\<lambda>(last_label, _).
     let child_key_bit_len = sg_key_bit_len seg - size_bits last_label - 1
     in ok (aug_fork sha last_label (sg_key_bit_len seg) left right child_key_bit_len comparator) (\<lambda>leaf.
        rebuild_aug_dict_from_stack sha comparator segments leaf))))"

function aug_dict_insert_loop :: "sha256 \<Rightarrow> store_fn \<Rightarrow> store_fn \<Rightarrow> set_mode \<Rightarrow> aug_dict_fn
   \<Rightarrow> cell \<Rightarrow> cell_slice \<Rightarrow> segment list \<Rightarrow> (cell \<times> segment list) option result" where
  "aug_dict_insert_loop sha extra value mode comparator data key stack =
    ok (slice_new data) (\<lambda>remaining_data.
    ok (read_label remaining_data (size_bits key)) (\<lambda>(prefix, remaining_data).
    let lcp = longest_common_data_prefix key prefix
    in if size_bits lcp = size_bits key then
         (if \<not> can_replace mode then Ok None
          else ok (make_leaf_with_extra sha prefix (size_bits key) extra value) (\<lambda>leaf. Ok (Some (leaf, stack))))
       else if size_bits lcp < size_bits prefix then
         (if \<not> can_add mode then Ok None
          else ok (split_aug_edge sha remaining_data prefix lcp key extra value comparator) (\<lambda>leaf.
            Ok (Some (leaf, stack))))
       else if cell_reference_count data < 2 then Err CellUnderflow
       else
         let key_bit_len = size_bits key;
             key = (case skip_first key (size_bits lcp) 0 of Inr k \<Rightarrow> k | Inl e \<Rightarrow> key)
         in ok (load_bit key) (\<lambda>(bit, key).
            let next_branch = branch_from bit
            in case reference data (branch_index next_branch) of
                 None \<Rightarrow> Err CellUnderflow
               | Some cell \<Rightarrow> ok (load_dyn_cell cell Full) (\<lambda>child.
                   aug_dict_insert_loop sha extra value mode comparator child key
                     (\<lparr>sg_data = data, sg_next_branch = next_branch, sg_key_bit_len = key_bit_len\<rparr> # stack)))))"
  by pat_completeness auto
termination
  by (relation "measure (\<lambda>(sha, extra, value, mode, comparator, data, key, stack). tree_size data)")
     (auto simp: reference_size)

declare aug_dict_insert_loop.simps [simp del]

definition aug_dict_insert :: "sha256 \<Rightarrow> cell option \<Rightarrow> cell_slice \<Rightarrow> nat \<Rightarrow> store_fn \<Rightarrow> store_fn \<Rightarrow> set_mode
    \<Rightarrow> aug_dict_fn \<Rightarrow> (cell option \<times> bool) result" where
  "aug_dict_insert sha dict key key_bit_len extra value mode comparator =
    (if size_bits key \<noteq> key_bit_len then Err CellUnderflow
     else case dict of
       None \<Rightarrow>
         if can_add mode
         then ok (make_leaf_with_extra sha key key_bit_len extra value) (\<lambda>cell. Ok (Some cell, True))
         else Ok (None, False)
     | Some root \<Rightarrow> ok (load_dyn_cell root Full) (\<lambda>data.
         ok (aug_dict_insert_loop sha extra value mode comparator data key []) (\<lambda>res.
         case res of
           None \<Rightarrow> Ok (dict, False)
         | Some (leaf, stack) \<Rightarrow>
             ok (rebuild_aug_dict_from_stack sha comparator stack leaf) (\<lambda>leaf. Ok (Some leaf, True)))))"

definition aug_dict_remove_owned :: "sha256 \<Rightarrow> cell option \<Rightarrow> cell_slice \<Rightarrow> nat \<Rightarrow> bool \<Rightarrow> aug_dict_fn
   \<Rightarrow> (cell option \<times> (cell_slice_range \<times> cell) option) result" where
  "aug_dict_remove_owned sha dict key key_bit_len allow_subtree comparator =
    (if \<not> allow_subtree \<and> size_bits key \<noteq> key_bit_len then Err CellUnderflow
     else case dict of
       None \<Rightarrow> Ok (dict, None)
     | Some root \<Rightarrow>
         ok (dict_find_value_to_remove root key) (\<lambda>found.
         case found of
           None \<Rightarrow> Ok (dict, None)
         | Some (seg # stack, removed, prev_key_bit_len, key) \<Rightarrow>
             ok (rebuild_as_removed sha seg key prev_key_bit_len) (\<lambda>(leaf, value).
             ok (rebuild_aug_dict_from_stack sha comparator stack leaf) (\<lambda>root'.
             Ok (Some root', Some (removed, value))))
         | Some ([], removed, _, _) \<Rightarrow> Ok (None, Some (removed, root))))"

section \<open>The front end\<close>

text \<open>The trait \<open>AugDictExtra\<close> with the traits that it and the operations ask for, and \<open>AugDict\<close>.\<close>

record 'a aug_extra =
  ax_default :: 'a
  ax_store :: "'a \<Rightarrow> store_fn"
  ax_load :: "cell_slice \<Rightarrow> ('a \<times> cell_slice) result"
  ax_comp_add :: aug_dict_fn

record 'a aug_dict =
  ad_dict :: typed_dict
  ad_extra :: 'a

type_synonym 'k store_key = "'k \<Rightarrow> cell_data_builder \<Rightarrow> cell_data_builder result"

definition ad_new :: "'a aug_extra \<Rightarrow> 'a aug_dict" where
  "ad_new A = \<lparr>ad_dict = td_new, ad_extra = ax_default A\<rparr>"

definition ad_from_parts :: "typed_dict \<Rightarrow> 'a \<Rightarrow> 'a aug_dict" where
  "ad_from_parts dict extra = \<lparr>ad_dict = dict, ad_extra = extra\<rparr>"

definition ad_is_empty :: "'a aug_dict \<Rightarrow> bool" where
  "ad_is_empty d \<longleftrightarrow> td_is_empty (ad_dict d)"

definition ad_store_into :: "'a aug_extra \<Rightarrow> 'a aug_dict \<Rightarrow> store_fn" where
  "ad_store_into A d b = ok (td_store_into (ad_dict d) b) (ax_store A (ad_extra d))"

definition ad_load_from :: "'a aug_extra \<Rightarrow> cell_slice \<Rightarrow> ('a aug_dict \<times> cell_slice) result" where
  "ad_load_from A s = ok (td_load_from s) (\<lambda>(dict, s). ok (ax_load A s) (\<lambda>(extra, s).
     Ok (\<lparr>ad_dict = dict, ad_extra = extra\<rparr>, s)))"

definition ad_update_root_extra :: "'a aug_extra \<Rightarrow> nat \<Rightarrow> 'a aug_dict \<Rightarrow> 'a aug_dict result" where
  "ad_update_root_extra A key_bits d =
    (case td_root (ad_dict d) of
       Some root \<Rightarrow>
         ok (slice_new root) (\<lambda>slice.
         ok (read_label slice key_bits) (\<lambda>(prefix, slice).
         ok (if size_bits prefix \<noteq> key_bits then skip_first slice 0 2 else Ok slice) (\<lambda>slice.
         ok (ax_load A slice) (\<lambda>(extra, _). Ok (d\<lparr>ad_extra := extra\<rparr>)))))
     | None \<Rightarrow> Ok (d\<lparr>ad_extra := ax_default A\<rparr>))"

text \<open>
  The root is replaced before the extra is read back, so these return the dictionary also with an error.
\<close>

definition ad_insert_impl :: "sha256 \<Rightarrow> 'a aug_extra \<Rightarrow> 'k store_key \<Rightarrow> nat \<Rightarrow> 'a aug_dict \<Rightarrow> 'k \<Rightarrow> 'a \<Rightarrow> store_fn
    \<Rightarrow> set_mode \<Rightarrow> 'a aug_dict \<times> bool result" where
  "ad_insert_impl sha A store_key key_bits d key extra value mode =
    (case ok (store_key key bd_new) (\<lambda>key_builder.
        aug_dict_insert sha (td_root (ad_dict d)) (as_data_slice key_builder) key_bits (ax_store A extra) value mode
          (ax_comp_add A)) of
       Inl e \<Rightarrow> (d, Err e)
     | Inr (root, inserted) \<Rightarrow>
         let d = d\<lparr>ad_dict := \<lparr>td_root = root\<rparr>\<rparr>
         in if inserted
            then (case ad_update_root_extra A key_bits d of Inl e \<Rightarrow> (d, Err e) | Inr d \<Rightarrow> (d, Ok inserted))
            else (d, Ok inserted))"

definition ad_set_ext :: "sha256 \<Rightarrow> 'a aug_extra \<Rightarrow> 'k store_key \<Rightarrow> nat \<Rightarrow> 'a aug_dict \<Rightarrow> 'k \<Rightarrow> 'a \<Rightarrow> store_fn
    \<Rightarrow> 'a aug_dict \<times> bool result" where
  "ad_set_ext sha A store_key key_bits d key aug value = ad_insert_impl sha A store_key key_bits d key aug value ModeSet"

definition ad_replace_ext :: "sha256 \<Rightarrow> 'a aug_extra \<Rightarrow> 'k store_key \<Rightarrow> nat \<Rightarrow> 'a aug_dict \<Rightarrow> 'k \<Rightarrow> 'a \<Rightarrow> store_fn
    \<Rightarrow> 'a aug_dict \<times> bool result" where
  "ad_replace_ext sha A store_key key_bits d key aug value = ad_insert_impl sha A store_key key_bits d key aug value ModeReplace"

definition ad_add_ext :: "sha256 \<Rightarrow> 'a aug_extra \<Rightarrow> 'k store_key \<Rightarrow> nat \<Rightarrow> 'a aug_dict \<Rightarrow> 'k \<Rightarrow> 'a \<Rightarrow> store_fn
    \<Rightarrow> 'a aug_dict \<times> bool result" where
  "ad_add_ext sha A store_key key_bits d key aug value = ad_insert_impl sha A store_key key_bits d key aug value ModeAdd"

definition ad_remove_impl :: "sha256 \<Rightarrow> 'a aug_extra \<Rightarrow> 'k store_key \<Rightarrow> nat \<Rightarrow> 'a aug_dict \<Rightarrow> 'k
    \<Rightarrow> 'a aug_dict \<times> (cell_slice_range \<times> cell) option result" where
  "ad_remove_impl sha A store_key key_bits d key =
    (case ok (store_key key bd_new) (\<lambda>key_builder.
        aug_dict_remove_owned sha (td_root (ad_dict d)) (as_data_slice key_builder) key_bits False (ax_comp_add A)) of
       Inl e \<Rightarrow> (d, Err e)
     | Inr (root, res) \<Rightarrow>
         let d = d\<lparr>ad_dict := \<lparr>td_root = root\<rparr>\<rparr>
         in if res \<noteq> None
            then (case ad_update_root_extra A key_bits d of Inl e \<Rightarrow> (d, Err e) | Inr d \<Rightarrow> (d, Ok res))
            else (d, Ok res))"

section \<open>Trees with extras\<close>

text \<open>
  \<open>arep\<close> says that a cell stores a tree and that its extra is \<open>x\<close>. The value of a leaf starts with the
  extra of the leaf; the rest of a fork is the sum of the extras below. Extras have no references.
\<close>

fun arep :: "('a \<Rightarrow> bool list) \<Rightarrow> ('a \<Rightarrow> 'a \<Rightarrow> 'a) \<Rightarrow> nat \<Rightarrow> nat \<Rightarrow> nat \<Rightarrow> cell \<Rightarrow> ptree \<Rightarrow> 'a \<Rightarrow> bool" where
  "arep bits add D V n c (PLeaf lab vb vr) x \<longleftrightarrow> rep None D V n c (PLeaf lab vb vr) \<and> (\<exists>r. vb = bits x @ r)"
| "arep bits add D V n c (PFork lab l r) x \<longleftrightarrow>
     length lab < n \<and> depth_le (D + 1 + n) c \<and> parse_label n (cell_bits c) = Some (lab, bits x)
     \<and> (\<exists>lc rc y z. holds c (cell_bits c) [lc, rc] \<and> x = add y z
          \<and> arep bits add D V (n - length lab - 1) lc l y \<and> arep bits add D V (n - length lab - 1) rc r z)"

fun pt_arest :: "('a \<Rightarrow> bool list) \<Rightarrow> ptree \<Rightarrow> 'a \<Rightarrow> bool list" where
  "pt_arest bits (PLeaf _ vb _) x = vb"
| "pt_arest bits (PFork _ _ _) x = bits x"

lemma arep_inv: "arep bits add D V n c t x \<Longrightarrow> pt_inv n t"
  by (induction t arbitrary: n c x) auto

lemma arep_edge:
  assumes "arep bits add D V n c t x"
  shows "holds c (cell_bits c) (cell_children c)"
    and "parse_label n (cell_bits c) = Some (pt_label t, pt_arest bits t x)"
    and "depth_le (D + 1 + n) c"
  using assms by (cases t; auto simp: holds_def)+

lemma arep_starts: "arep bits add D V n c t x \<Longrightarrow> \<exists>r. pt_arest bits t x = bits x @ r"
  by (cases t) auto

text \<open>Reading an edge, whatever follows its label.\<close>

lemma read_edge_of:
  assumes "holds c (cell_bits c) rs" "parse_label n (cell_bits c) = Some (lab, rest)" "n \<le> 1023"
  obtains l s where "slice_new c = Ok (slice_new_allow_exotic c)"
    "read_label (slice_new_allow_exotic c) n = Ok (l, s)" "wf_slice l" "slice_bits l = lab" "size_bits l = length lab"
    "wf_slice s" "slice_bits s = rest" "slice_refs s = rs" "sl_cell s = c" "\<not> is_virtual c"
proof -
  note h = holds_slice [OF assms(1)]
  let ?s = "slice_new_allow_exotic c"
  from read_label_spec [OF h(2) assms(3)] obtain l k where
    "read_label ?s n = Ok (l, advance ?s k)" "wf_slice l" "slice_bits l = lab"
    "k \<le> size_bits ?s" "drop k (slice_bits ?s) = rest"
    unfolding h(3) assms(2) by (auto simp: label_result_def)
  then show thesis
    using h holds_not_virtual [OF assms(1)] length_slice_bits [of l]
    by (intro that [of l "advance ?s k"]) (simp_all add: wf_advance slice_bits_advance)
qed

text \<open>What follows the label in an edge, and in a fork also the two references, starts with the extra.\<close>

lemma skip_label_extra:
  assumes "arep bits add D V n c t x" "n \<le> 1023"
  obtains s r where "slice_new c = Ok (slice_new_allow_exotic c)" "skip_label_full (slice_new_allow_exotic c) n = Ok s"
    "wf_slice s" "sl_cell s = c" "\<not> is_virtual c" "slice_bits s = bits x @ r"
proof -
  note e = arep_edge [OF assms(1)]
  from read_edge_of [OF e(1,2) assms(2)] obtain l s where
    r: "slice_new c = Ok (slice_new_allow_exotic c)" "read_label (slice_new_allow_exotic c) n = Ok (l, s)"
    "size_bits l = length (pt_label t)" "wf_slice s" "slice_bits s = pt_arest bits t x"
    "slice_refs s = cell_children c" "sl_cell s = c" "\<not> is_virtual c" .
  show thesis
  proof (cases t)
    case (PLeaf lab vb vr)
    then show thesis
      using r assms(1) arep_starts [OF assms(1)] that by (auto simp: skip_label_full_def)
  next
    case (PFork lab a b)
    then have "length lab < n" "size_refs s = 2"
      using assms(1) r(6) length_slice_refs [of s] by (auto simp: holds_def)
    moreover from skip_first_Ok [OF r(4), of 0 2] this(2) obtain s'
      where "skip_first s 0 2 = Ok s'" "wf_slice s'" "sl_cell s' = sl_cell s" "slice_bits s' = slice_bits s" by auto
    ultimately show thesis using that [of s' "[]"] r PFork by (simp add: skip_label_full_def)
  qed
qed

text \<open>\<open>KeyMaxLt\<close> and the like: what the operations need of an extra and its trait functions.\<close>

locale augmentation = cell_codec valid bits_of refs_of store load
  for valid :: "'a \<Rightarrow> bool" and bits_of refs_of store load +
  fixes add :: "'a \<Rightarrow> 'a \<Rightarrow> 'a" and X :: nat and comp :: aug_dict_fn
  assumes all_valid: "valid x" and no_refs: "refs_of x = []" and short: "length (bits_of x) \<le> X"
    and comp_adds: "wf_slice s \<Longrightarrow> \<not> is_virtual (sl_cell s) \<Longrightarrow> slice_bits s = bits_of x @ a \<Longrightarrow>
      wf_slice u \<Longrightarrow> \<not> is_virtual (sl_cell u) \<Longrightarrow> slice_bits u = bits_of y @ b \<Longrightarrow>
      appends (comp s u) (bits_of (add x y)) []"
begin

lemma arest_length:
  assumes "arep bits_of add D V n c t x" "X \<le> V"
  shows "length (pt_arest bits_of t x) \<le> V"
  using assms short [of x] by (cases t) auto

lemma arep_fork:
  assumes "room D V n" "X \<le> V" "length lab < n"
    and "arep bits_of add D V (n - length lab - 1) lc l y" "arep bits_of add D V (n - length lab - 1) rc r z"
  obtains c where "build_ext sha (mk_cb (label_bits n lab @ bits_of (add y z)) [lc, rc]) = Ok c"
    "arep bits_of add D V n c (PFork lab l r) (add y z)"
proof -
  let ?m = "n - length lab - 1"
  note e = arep_edge [OF assms(4)] arep_edge [OF assms(5)]
  have w: "list_all wf_cell [lc, rc]" using e(1,4) by (simp add: holds_def)
  have m: "?m + 1 \<le> n" using assms(3) by simp
  then have d: "D + 1 + ?m < 65535" using assms(1) unfolding room_def by linarith
  have dl: "list_all (depth_le (D + 1 + ?m)) [lc, rc]" using e(3,6) by simp
  have b: "length (bits_of (add y z)) \<le> V" using short assms(2) by (rule le_trans)
  from make_edge [OF assms(1) less_imp_le [OF assms(3)] b _ w d dl, of sha] obtain c
    where c: "build_ext sha (mk_cb (label_bits n lab @ bits_of (add y z)) [lc, rc]) = Ok c"
      "holds c (label_bits n lab @ bits_of (add y z)) [lc, rc]" "cell_bits c = label_bits n lab @ bits_of (add y z)"
      "depth_le (D + 1 + ?m + 1) c" "parse_label n (cell_bits c) = Some (lab, bits_of (add y z))" by auto
  moreover have "depth_le (D + 1 + n) c" using c(4) by (rule depth_le_mono) (use assms(3) in simp)
  ultimately show thesis using assms(3-5) that [of c] by auto
qed

text \<open>A fork of two edges, as \<open>split_aug_edge\<close> and \<open>rebuild_aug_dict_from_stack\<close> build it.\<close>

lemma aug_fork_arep:
  assumes "room D V n" "X \<le> V" "wf_slice lb" "size_bits lb < n" "m = n - size_bits lb - 1"
    and "arep bits_of add D V m lc l y" "arep bits_of add D V m rc r z"
  obtains c where "aug_fork sha lb n lc rc m comp = Ok c"
    "arep bits_of add D V n c (PFork (slice_bits lb) l r) (add y z)"
proof -
  have m: "m \<le> 1023" using room_len(2) [OF assms(1)] assms(5) by simp
  obtain s a where s: "slice_new lc = Ok (slice_new_allow_exotic lc)" "skip_label_full (slice_new_allow_exotic lc) m = Ok s"
    "wf_slice s" "sl_cell s = lc" "\<not> is_virtual lc" "slice_bits s = bits_of y @ a" by (rule skip_label_extra [OF assms(6) m])
  obtain u b where u: "slice_new rc = Ok (slice_new_allow_exotic rc)" "skip_label_full (slice_new_allow_exotic rc) m = Ok u"
    "wf_slice u" "sl_cell u = rc" "\<not> is_virtual rc" "slice_bits u = bits_of z @ b" by (rule skip_label_extra [OF assms(7) m])
  have comp: "appends (comp s u) (bits_of (add y z)) []" by (rule comp_adds) (use s u in simp_all)
  have n: "length (slice_bits lb) < n" "m = n - length (slice_bits lb) - 1" using assms(4,5) by simp_all
  from arep_fork [OF assms(1,2) n(1) assms(6,7) [unfolded n(2)], of sha] obtain c
    where c: "build_ext sha (mk_cb (label_bits n (slice_bits lb) @ bits_of (add y z)) [lc, rc]) = Ok c"
      "arep bits_of add D V n c (PFork (slice_bits lb) l r) (add y z)" .
  have "length (label_bits n (slice_bits lb) @ bits_of (add y z)) \<le> 1023"
    using label_bits_length [of n "slice_bits lb"] short [of "add y z"] assms(1,2) n(1) by (simp add: room_def)
  moreover have lb: "appends (write_label lb n) (label_bits n (slice_bits lb)) []"
    by (rule appends_write_label [OF assms(3) less_imp_le [OF assms(4)] room_len(1) [OF assms(1)]])
  note ap = appends_bind [OF lb appends_bind [OF appends_store_reference [of lc] appends_bind [OF appends_store_reference [of rc] comp]]]
  ultimately have "ok (write_label lb n cb_new) (\<lambda>b. ok (store_reference b lc) (\<lambda>b. ok (store_reference b rc) (comp s u)))
      = Ok (mk_cb (label_bits n (slice_bits lb) @ bits_of (add y z)) [lc, rc])"
    using appendsD [OF ap, of "[]" "[]"] by (simp add: cb_new_mk cb_appended_def MAX_BIT_LEN_def MAX_REF_COUNT_def)
  then have "aug_fork sha lb n lc rc m comp = Ok c"
    using c(1) by (auto simp: aug_fork_def s(1,2) u(1,2) ok_eq_Ok_iff)
  then show thesis using c(2) by (rule that)
qed

end

section \<open>Insertion with extras\<close>

lemma make_leaf_with_extra_eq: "make_leaf_with_extra sha key n extra value = make_leaf sha key n (\<lambda>b. ok (extra b) value)"
  by (auto simp: make_leaf_with_extra_def make_leaf_def ok_def split: sum.splits)

context augmentation begin

lemma aug_leaf:
  assumes "room D V n" "wf_slice key" "size_bits key = n" "appends value vb vr" "value_ok D V (bits_of e @ vb, vr)"
  obtains c where "make_leaf_with_extra sha key n (store e) value = Ok c"
    "arep bits_of add D V n c (PLeaf (slice_bits key) (bits_of e @ vb) vr) e"
proof -
  have "appends (store e) (bits_of e) []" using store_appends [OF all_valid, of e] by (simp add: no_refs)
  from appends_bind [OF this assms(4)]
  have a: "appends (\<lambda>b. ok (store e b) value) (fst (bits_of e @ vb, vr)) (snd (bits_of e @ vb, vr))" by simp
  from make_leaf_rep [OF assms(2,3,1) a assms(5), where sha = sha and K = None] obtain c
    where "make_leaf sha key n (\<lambda>b. ok (store e b) value) = Ok c" "rep None D V n c (PLeaf (slice_bits key) (bits_of e @ vb) vr)"
    by auto
  then show thesis using that [of c] by (simp add: make_leaf_with_extra_eq)
qed

text \<open>The content of an edge under another label keeps its extra.\<close>

lemma arep_relabel:
  assumes "room D V n'" "X \<le> V" "arep bits_of add D V n c t x" "length lab + n = length (pt_label t) + n'"
  obtains c' where "build_ext sha (mk_cb (label_bits n' lab @ pt_arest bits_of t x) (cell_children c)) = Ok c'"
    "arep bits_of add D V n' c' (pt_relabel lab t) x"
proof (cases t)
  case (PLeaf lab0 vb vr)
  with assms(3) have r: "rep None D V n c (PLeaf lab0 vb vr)" "\<exists>r. vb = bits_of x @ r" by simp_all
  from rep_relabel [OF r(1) assms(1), where lab = lab and sha = sha] assms(4) PLeaf obtain c'
    where "build_ext sha (mk_cb (label_bits n' lab @ vb) (cell_children c)) = Ok c'" "rep None D V n' c' (PLeaf lab vb vr)" by auto
  then show thesis using that [of c'] r(2) by (simp add: PLeaf)
next
  case (PFork lab0 a b)
  let ?m = "n - length lab0 - 1"
  from assms(3) obtain lc rc y z where f: "length lab0 < n" "cell_children c = [lc, rc]" "x = add y z"
    "arep bits_of add D V ?m lc a y" "arep bits_of add D V ?m rc b z" by (auto simp: PFork holds_def)
  have m: "?m = n' - length lab - 1" "length lab < n'" using assms(4) f(1) by (auto simp: PFork)
  from arep_fork [OF assms(1,2) m(2) f(4,5) [unfolded m(1)], of sha] that f(2,3) show thesis by (auto simp: PFork)
qed

lemma aug_relabel_edge:
  assumes "room D V n'" "X \<le> V" "arep bits_of add D V n c t x" "size_bits lb + n = length (pt_label t) + n'" "wf_slice lb"
    and "wf_slice s" "slice_bits s = pt_arest bits_of t x" "slice_refs s = cell_children c" "sl_cell s = c"
  obtains c' where "make_leaf sha lb n' (\<lambda>b. store_slice b s) = Ok c'"
    "arep bits_of add D V n' c' (pt_relabel (slice_bits lb) t) x"
proof -
  note e = arep_edge [OF assms(3)]
  have "appends (\<lambda>b. store_slice b s) (pt_arest bits_of t x) (cell_children c)"
    using appends_store_slice [OF assms(6)] holds_not_virtual [OF e(1)] assms(7-9) by simp
  moreover have "size_bits lb \<le> n'" using assms(4) pt_inv_label [OF arep_inv [OF assms(3)]] by simp
  ultimately have "make_leaf sha lb n' (\<lambda>b. store_slice b s)
      = build_ext sha (mk_cb (label_bits n' (slice_bits lb) @ pt_arest bits_of t x) (cell_children c))"
    using make_leaf_builds [OF assms(5) _ assms(1)] arest_length [OF assms(3,2)] holds_length(2) [OF e(1)] by simp
  moreover have "length (slice_bits lb) + n = length (pt_label t) + n'" using assms(4) by simp
  ultimately show thesis using arep_relabel [OF assms(1-3)] that by metis
qed

lemma split_aug_edge_spec:
  assumes "room D V n" "X \<le> V" "arep bits_of add D V n c t x" "wf_slice key" "size_bits key = n"
    and "wf_slice p" "slice_bits p = pt_label t"
    and "wf_slice s" "slice_bits s = pt_arest bits_of t x" "slice_refs s = cell_children c" "sl_cell s = c"
    and "take (length (pt_label t)) (slice_bits key) \<noteq> pt_label t"
    and "appends value vb vr" "value_ok D V (bits_of e @ vb, vr)"
  obtains c' x' where "split_aug_edge sha s p (longest_common_data_prefix key p) key (store e) value comp = Ok c'"
    "arep bits_of add D V n c' (pt_split (lcp_len (slice_bits key) (pt_label t)) (slice_bits key) (bits_of e @ vb, vr) t) x'"
proof -
  let ?lcp = "longest_common_data_prefix key p"
  have "length (pt_label t) \<le> length (slice_bits key)"
    using pt_inv_label [OF arep_inv [OF assms(3)]] assms(5) by simp
  from diverge [OF this assms(12)] obtain q b ks ls
    where d: "slice_bits key = q @ b # ks" "pt_label t = q @ (\<not> b) # ls"
      "lcp_len (slice_bits key) (pt_label t) = length q" .
  have n: "n = length q + 1 + length ks" using d(1) assms(5) length_slice_bits [of key] by simp
  define m where "m = length ks"
  note l = longest_common_data_prefix_spec [OF assms(4,6)]
  have lcp: "wf_slice ?lcp" "slice_bits ?lcp = q" "size_bits ?lcp = length q" using l d(1,3) assms(7) by simp_all
  have sp: "size_bits p = length q + 1 + length ls" using assms(7) d(2) length_slice_bits [of p] by simp
  have key: "skip_first key (length q + 1) 0 = Ok (advance key (length q + 1))"
    "wf_slice (advance key (length q + 1))" "slice_bits (advance key (length q + 1)) = ks"
    "size_bits (advance key (length q + 1)) = m"
    using assms(4,5) n d(1) wf_sliceD(7) [OF assms(4)]
    by (simp_all add: skip_first_advance wf_advance slice_bits_advance size_bits_advance m_def)
  have pre: "(case skip_first p (length q) 0 of Inr r \<Rightarrow> r | Inl e \<Rightarrow> p) = advance p (length q)"
    "wf_slice (advance p (length q))" "slice_bits (advance p (length q)) = (\<not> b) # ls"
    using skip_key [OF assms(6), of "length q"] sp assms(7) d(2) by simp_all
  note pre2 = advance_Cons [OF pre(2,3)]
  have "size_bits (advance (advance p (length q)) 1) = length ls" using pre2(2) length_slice_bits by metis
  then have sl: "size_bits (advance (advance p (length q)) 1) + n = length (pt_label t) + m" using n d(2) by (simp add: m_def)
  have rm: "room D V m" using room_mono [OF assms(1)] n by (simp add: m_def)
  obtain old where old: "make_leaf sha (advance (advance p (length q)) 1) m (\<lambda>b. store_slice b s) = Ok old"
    "arep bits_of add D V m old (pt_relabel ls t) x"
    using aug_relabel_edge [OF rm assms(2,3) sl pre2(1) assms(8-11)] pre2(2) by metis
  obtain new where new: "make_leaf_with_extra sha (advance key (length q + 1)) m (store e) value = Ok new"
    "arep bits_of add D V m new (PLeaf ks (bits_of e @ vb) vr) e"
    using aug_leaf [OF rm key(2,4) assms(13,14)] key(3) by metis
  have mq: "size_bits ?lcp < n" "m = n - size_bits ?lcp - 1" using lcp(3) n by (simp_all add: m_def)
  note split = pt_split_parts [OF d(2), of ks "(bits_of e @ vb, vr)"]
  show thesis
  proof (cases b)
    case True
    obtain c' where "aug_fork sha ?lcp n old new m comp = Ok c'"
      "arep bits_of add D V n c' (PFork q (pt_relabel ls t) (PLeaf ks (bits_of e @ vb) vr)) (add x e)"
      using aug_fork_arep [OF assms(1,2) lcp(1) mq old(2) new(2)] lcp(2) by metis
    moreover from this(1) have "split_aug_edge sha s p ?lcp key (store e) value comp = Ok c'"
      using key pre(1) load_bit_Cons [OF pre(2,3)] old(1) new(1) True
      unfolding split_aug_edge_def Let_def lcp(3) assms(5) by simp
    ultimately show thesis using that [unfolded d(3), unfolded d(1) split] True by (simp only: if_True if_False fst_conv snd_conv HOL.simp_thms)
  next
    case False
    obtain c' where "aug_fork sha ?lcp n new old m comp = Ok c'"
      "arep bits_of add D V n c' (PFork q (PLeaf ks (bits_of e @ vb) vr) (pt_relabel ls t)) (add e x)"
      using aug_fork_arep [OF assms(1,2) lcp(1) mq new(2) old(2)] lcp(2) by metis
    moreover from this(1) have "split_aug_edge sha s p ?lcp key (store e) value comp = Ok c'"
      using key pre(1) load_bit_Cons [OF pre(2,3)] old(1) new(1) False
      unfolding split_aug_edge_def Let_def lcp(3) assms(5) by simp
    ultimately show thesis using that [unfolded d(3), unfolded d(1) split] False by (simp only: if_True if_False fst_conv snd_conv HOL.simp_thms)
  qed
qed

end

text \<open>The step from a fork to the child that the next bit of the key selects.\<close>

lemma arep_fork_step:
  assumes "arep bits add D V n c (PFork lab l r) x" "slice_bits key = lab @ b # k'" "wf_slice key" "size_bits key = n"
  defines "m \<equiv> n - length lab - 1"
  obtains lc rc y z where "holds c (cell_bits c) [lc, rc]" "x = add y z"
    "arep bits add D V m lc l y" "arep bits add D V m rc r z"
    "reference c (of_bool b) = Some (if b then rc else lc)" "cell_reference_count c = 2"
    "load_bit (advance key (length lab)) = Ok (b, advance (advance key (length lab)) 1)"
    "wf_slice (advance (advance key (length lab)) 1)" "slice_bits (advance (advance key (length lab)) 1) = k'"
    "size_bits (advance (advance key (length lab)) 1) = m"
proof -
  from assms(1) obtain lc rc y z where f: "holds c (cell_bits c) [lc, rc]" "x = add y z"
    "arep bits add D V m lc l y" "arep bits add D V m rc r z" by (auto simp: m_def)
  have n: "n = length lab + 1 + length k'" using assms(2,4) length_slice_bits [of key] by simp
  then have a: "wf_slice (advance key (length lab))" "slice_bits (advance key (length lab)) = b # k'"
    using skip_key [OF assms(3), of "length lab"] assms(2,4) by simp_all
  note a2 = advance_Cons [OF a]
  have "size_bits (advance (advance key (length lab)) 1) = m"
    using a2(2) length_slice_bits [of "advance (advance key (length lab)) 1"] n by (simp add: m_def)
  moreover have "reference c (of_bool b) = Some (if b then rc else lc)"
    using holds_reference(1) [OF f(1)] by (cases b) (simp_all add: nth_opt_def)
  ultimately show thesis
    using f a2 load_bit_Cons [OF a] holds_reference(3) [OF f(1)]
    by (intro that [of lc rc y z]) simp_all
qed

text \<open>What the loop of \<open>aug_dict_insert\<close> returns, whatever is on the stack: \<open>P\<close> is the new tree.\<close>

definition aug_inserted :: "(segment list \<Rightarrow> cell \<Rightarrow> cell result) \<Rightarrow> (cell \<Rightarrow> bool) \<Rightarrow> bool \<Rightarrow> segment list
    \<Rightarrow> (cell \<times> segment list) option result \<Rightarrow> bool" where
  "aug_inserted rebuild P go stack res \<longleftrightarrow>
    (if go then \<exists>leaf stk c'. res = Ok (Some (leaf, stk)) \<and> rebuild stk leaf = rebuild stack c' \<and> P c'
     else res = Ok None)"

lemma aug_insertedI:
  "(go \<Longrightarrow> P c') \<Longrightarrow> res = (if go then Ok (Some (c', stack)) else Ok None) \<Longrightarrow> aug_inserted rebuild P go stack res"
  by (auto simp: aug_inserted_def)

lemma aug_inserted_step:
  assumes "aug_inserted rebuild Q go (seg # stack) res"
    and "\<And>c. Q c \<Longrightarrow> \<exists>c'. (\<forall>stack. rebuild (seg # stack) c = rebuild stack c') \<and> P c'"
  shows "aug_inserted rebuild P go stack res"
  using assms unfolding aug_inserted_def by (cases go) (simp_all, metis)

context augmentation begin

lemma rebuild_aug_fork:
  assumes "room D V n" "X \<le> V" "arep bits_of add D V n c (PFork lab l r) x" "arep bits_of add D V (n - length lab - 1) c1 t1 x1"
  shows "\<exists>c'. (\<forall>stack. rebuild_aug_dict_from_stack sha comp
        (\<lparr>sg_data = c, sg_next_branch = branch_from b, sg_key_bit_len = n\<rparr> # stack) c1
      = rebuild_aug_dict_from_stack sha comp stack c')
    \<and> (\<exists>x'. arep bits_of add D V n c' (if b then PFork lab l t1 else PFork lab t1 r) x')"
proof -
  let ?m = "n - length lab - 1"
  from assms(3) obtain lc rc y z where f: "holds c (cell_bits c) [lc, rc]" "parse_label n (cell_bits c) = Some (lab, bits_of x)"
    "arep bits_of add D V ?m lc l y" "arep bits_of add D V ?m rc r z" "length lab < n" by auto
  obtain lb s where e: "slice_new c = Ok (slice_new_allow_exotic c)" "read_label (slice_new_allow_exotic c) n = Ok (lb, s)"
    "wf_slice lb" "slice_bits lb = lab" "size_bits lb = length lab"
    by (rule read_edge_of [OF f(1,2) room_len(2) [OF assms(1)]])
  have r: "reference_cloned c 0 = Some lc" "reference_cloned c 1 = Some rc"
    using holds_reference(2) [OF f(1)] by (simp_all add: nth_opt_def)
  let ?l = "if b then lc else c1" and ?r = "if b then c1 else rc"
  have lr: "arep bits_of add D V ?m ?l (if b then l else t1) (if b then y else x1)"
    "arep bits_of add D V ?m ?r (if b then t1 else r) (if b then x1 else z)" using f(3,4) assms(4) by simp_all
  have m: "size_bits lb < n" "?m = n - size_bits lb - 1" using e(5) f(5) by simp_all
  from aug_fork_arep [OF assms(1,2) e(3) m lr, of sha] obtain c' where
    c': "aug_fork sha lb n ?l ?r ?m comp = Ok c'"
      "\<exists>x'. arep bits_of add D V n c' (PFork lab (if b then l else t1) (if b then t1 else r)) x'" unfolding e(4) by metis
  have "rebuild_aug_dict_from_stack sha comp (\<lparr>sg_data = c, sg_next_branch = branch_from b, sg_key_bit_len = n\<rparr> # stack) c1
      = rebuild_aug_dict_from_stack sha comp stack c'" for stack
    using r e(1,2,5) c'(1) by (cases b) (simp_all add: branch_from_def Let_def)
  moreover have "\<exists>x'. arep bits_of add D V n c' (if b then PFork lab l t1 else PFork lab t1 r) x'"
    using c'(2) by (cases b) (simp_all only: if_True if_False)
  ultimately show ?thesis by blast
qed

lemma aug_insert_loop_split:
  assumes "room D V n" "X \<le> V" "arep bits_of add D V n c t x" "wf_slice key" "size_bits key = n"
    and "appends value vb vr" "value_ok D V (bits_of e @ vb, vr)"
    and "take (length (pt_label t)) (slice_bits key) \<noteq> pt_label t"
  shows "aug_inserted (rebuild_aug_dict_from_stack sha comp)
    (\<lambda>c'. \<exists>x'. arep bits_of add D V n c' (pt_split (lcp_len (slice_bits key) (pt_label t)) (slice_bits key) (bits_of e @ vb, vr) t) x')
    (can_add mode) stack (aug_dict_insert_loop sha (store e) value mode comp c key stack)"
proof -
  note a = arep_edge [OF assms(3)]
  obtain l s where r: "slice_new c = Ok (slice_new_allow_exotic c)"
    "read_label (slice_new_allow_exotic c) n = Ok (l, s)" "wf_slice l" "slice_bits l = pt_label t" "size_bits l = length (pt_label t)"
    "wf_slice s" "slice_bits s = pt_arest bits_of t x" "slice_refs s = cell_children c" "sl_cell s = c" "\<not> is_virtual c"
    by (rule read_edge_of [OF a(1,2) room_len(2) [OF assms(1)]])
  have le: "length (pt_label t) \<le> length (slice_bits key)"
    using pt_inv_label [OF arep_inv [OF assms(3)]] assms(5) by simp
  note lt = lcp_label(2) [OF le assms(8)]
  obtain c' x' where c': "split_aug_edge sha s l (longest_common_data_prefix key l) key (store e) value comp = Ok c'"
    "arep bits_of add D V n c' (pt_split (lcp_len (slice_bits key) (pt_label t)) (slice_bits key) (bits_of e @ vb, vr) t) x'"
    by (rule split_aug_edge_spec [OF assms(1-5) r(3,4,6-9) assms(8,6,7)])
  show ?thesis
  proof (rule aug_insertedI)
    show "\<exists>x'. arep bits_of add D V n c' (pt_split (lcp_len (slice_bits key) (pt_label t)) (slice_bits key) (bits_of e @ vb, vr) t) x'"
      using c'(2) ..
    show "aug_dict_insert_loop sha (store e) value mode comp c key stack
        = (if can_add mode then Ok (Some (c', stack)) else Ok None)"
      using r c'(1) lt le assms(5)
      by (subst aug_dict_insert_loop.simps) (simp add: Let_def lcp_key [OF assms(4) r(3)])
  qed
qed

lemma aug_insert_loop_spec:
  assumes "X \<le> V" "appends value vb vr" "value_ok D V (bits_of e @ vb, vr)"
  shows "room D V n \<Longrightarrow> arep bits_of add D V n c t x \<Longrightarrow> wf_slice key \<Longrightarrow> size_bits key = n \<Longrightarrow>
    aug_inserted (rebuild_aug_dict_from_stack sha comp)
      (\<lambda>c'. \<exists>x'. arep bits_of add D V n c' (pt_insert (slice_bits key) (bits_of e @ vb, vr) t) x')
      (allowed mode (pt_lookup t (slice_bits key))) stack (aug_dict_insert_loop sha (store e) value mode comp c key stack)"
proof (induction t arbitrary: n c x key stack)
  case (PLeaf lab lb lr)
  let ?k = "slice_bits key"
  have n: "length lab = n" "length ?k = n" using PLeaf.prems(2,4) by simp_all
  note split = aug_insert_loop_split [OF PLeaf.prems(1) assms(1) PLeaf.prems(2-4) assms(2,3), of sha mode stack]
  show ?case
  proof (cases "?k = lab")
    case False
    with split n show ?thesis by (simp add: allowed_def)
  next
    case True
    note a = arep_edge [OF PLeaf.prems(2)]
    obtain l s where r: "slice_new c = Ok (slice_new_allow_exotic c)"
      "read_label (slice_new_allow_exotic c) n = Ok (l, s)" "wf_slice l" "slice_bits l = lab" "size_bits l = n"
      by (rule read_edge_of [OF a(1,2) room_len(2) [OF PLeaf.prems(1)]]) (use n in simp)
    obtain c' where c': "make_leaf_with_extra sha l n (store e) value = Ok c'"
      "arep bits_of add D V n c' (PLeaf (slice_bits l) (bits_of e @ vb) vr) e"
      by (rule aug_leaf [OF PLeaf.prems(1) r(3,5) assms(2,3)])
    have "lcp_len ?k lab = n" using lcp_label(1) [of lab ?k] True n by simp
    then have "aug_dict_insert_loop sha (store e) value mode comp c key stack
        = (if can_replace mode then Ok (Some (c', stack)) else Ok None)"
      using r c'(1) PLeaf.prems(4)
      by (subst aug_dict_insert_loop.simps) (simp add: Let_def lcp_key [OF PLeaf.prems(3) r(3)])
    moreover have "\<exists>x'. arep bits_of add D V n c' (pt_insert ?k (bits_of e @ vb, vr) (PLeaf lab lb lr)) x'"
      using c'(2) True r(4) by auto
    ultimately show ?thesis using True by (intro aug_insertedI) (simp_all add: allowed_def)
  qed
next
  case (PFork lab l r)
  let ?k = "slice_bits key"
  have n: "length lab < n" "length ?k = n" using PFork.prems(2,4) by simp_all
  note split = aug_insert_loop_split [OF PFork.prems(1) assms(1) PFork.prems(2-4) assms(2,3), of sha mode stack]
  show ?case
  proof (cases "take (length lab) ?k = lab")
    case False
    with split show ?thesis by (simp add: allowed_def)
  next
    case True
    note a = arep_edge [OF PFork.prems(2)]
    obtain lb s where rd: "slice_new c = Ok (slice_new_allow_exotic c)"
      "read_label (slice_new_allow_exotic c) n = Ok (lb, s)" "wf_slice lb" "slice_bits lb = lab" "size_bits lb = length lab"
      by (rule read_edge_of [OF a(1,2) room_len(2) [OF PFork.prems(1)]]) simp
    have "length (drop (length lab) ?k) \<noteq> 0" using n by simp
    then obtain b k' where "drop (length lab) ?k = b # k'" by (cases "drop (length lab) ?k") auto
    then have k: "?k = lab @ b # k'" using True by (metis append_take_drop_id)
    let ?m = "n - length lab - 1"
    obtain lc rc y z where f: "holds c (cell_bits c) [lc, rc]" "x = add y z"
      "arep bits_of add D V ?m lc l y" "arep bits_of add D V ?m rc r z"
      "reference c (of_bool b) = Some (if b then rc else lc)" "cell_reference_count c = 2"
      "load_bit (advance key (length lab)) = Ok (b, advance (advance key (length lab)) 1)"
      "wf_slice (advance (advance key (length lab)) 1)" "slice_bits (advance (advance key (length lab)) 1) = k'"
      "size_bits (advance (advance key (length lab)) 1) = ?m"
      by (rule arep_fork_step [OF PFork.prems(2) k PFork.prems(3,4)])
    let ?key = "advance (advance key (length lab)) 1" and ?child = "if b then rc else lc"
    let ?t = "if b then r else l"
    let ?seg = "\<lparr>sg_data = c, sg_next_branch = branch_from b, sg_key_bit_len = n\<rparr>"
    have bi: "branch_index (branch_from b) = of_bool b" by (simp add: branch_from_def)
    have "lcp_len ?k lab = length lab" using lcp_label(1) [of lab ?k] True n by simp
    then have step: "aug_dict_insert_loop sha (store e) value mode comp c key stack
        = aug_dict_insert_loop sha (store e) value mode comp ?child ?key (?seg # stack)"
      using rd f(5-7) n skip_key(1) [OF PFork.prems(3), of "length lab"] PFork.prems(4)
      by (subst aug_dict_insert_loop.simps) (simp add: Let_def lcp_key [OF PFork.prems(3) rd(3)] bi)
    have rm: "room D V ?m" using room_mono [OF PFork.prems(1)] by simp
    have ih: "aug_inserted (rebuild_aug_dict_from_stack sha comp)
        (\<lambda>c'. \<exists>x'. arep bits_of add D V ?m c' (pt_insert k' (bits_of e @ vb, vr) ?t) x')
        (allowed mode (pt_lookup ?t k')) (?seg # stack)
        (aug_dict_insert_loop sha (store e) value mode comp ?child ?key (?seg # stack))"
      using PFork.IH(1) [OF rm f(3,8,10), of "?seg # stack"] PFork.IH(2) [OF rm f(4,8,10), of "?seg # stack"] f(9)
      by (cases b) (simp_all del: One_nat_def)
    have al: "pt_lookup (PFork lab l r) ?k = pt_lookup ?t k'" by (simp add: k)
    have ins: "pt_insert ?k v (PFork lab l r)
        = (if b then PFork lab l (pt_insert k' v ?t) else PFork lab (pt_insert k' v ?t) r)" for v by (simp add: k)
    show ?thesis unfolding step al ins
    proof (rule aug_inserted_step [OF ih], elim exE)
      fix c1 x1 assume "arep bits_of add D V ?m c1 (pt_insert k' (bits_of e @ vb, vr) ?t) x1"
      from rebuild_aug_fork [OF PFork.prems(1) assms(1) PFork.prems(2) this, of sha b]
      show "\<exists>c'. (\<forall>stack. rebuild_aug_dict_from_stack sha comp (?seg # stack) c1 = rebuild_aug_dict_from_stack sha comp stack c')
        \<and> (\<exists>x'. arep bits_of add D V n c' (if b then PFork lab l (pt_insert k' (bits_of e @ vb, vr) ?t)
             else PFork lab (pt_insert k' (bits_of e @ vb, vr) ?t) r) x')" .
    qed
  qed
qed

end

section \<open>Removal with extras\<close>

text \<open>
  What the search for the value to remove returns on a tree with the key: on top of the stack is the fork
  above the leaf, unless the root is the leaf, and rebuilding without the leaf gives the tree without the key.
\<close>

definition aug_found :: "sha256 \<Rightarrow> (segment list \<Rightarrow> cell \<Rightarrow> cell result) \<Rightarrow> (cell \<Rightarrow> ptree \<Rightarrow> bool) \<Rightarrow> ptree \<Rightarrow> bool list
    \<Rightarrow> cell \<Rightarrow> cell_slice \<Rightarrow> nat \<Rightarrow> segment list \<Rightarrow> (segment list \<times> cell_slice_range \<times> nat \<times> cell_slice) option result \<Rightarrow> bool" where
  "aug_found sha rebuild P t k c key prev stack res \<longleftrightarrow>
    (if pt_lookup t k = None then res = Ok None
     else \<exists>stk rg prev' key'. res = Ok (Some (stk, rg, prev', key')) \<and>
      (case pt_delete k t of
         None \<Rightarrow> stk = stack \<and> prev' = prev \<and> key' = key \<and> Some (part_value (rg, c)) = pt_lookup t k
       | Some t' \<Rightarrow> \<exists>seg stk' leaf vl c'. stk = seg # stk' \<and> rebuild_as_removed sha seg key' prev' = Ok (leaf, vl)
           \<and> rebuild stk' leaf = rebuild stack c' \<and> P c' t' \<and> Some (part_value (rg, vl)) = pt_lookup t k))"

text \<open>From a child to its fork: the leaf is the child, which is joined away, or it is deeper.\<close>

lemma aug_found_step:
  assumes "aug_found sha rebuild Q t k child key n (seg # stack) res"
    and "pt_lookup u k' = pt_lookup t k"
    and "pt_delete k' u = (case pt_delete k t of None \<Rightarrow> Some joined | Some t' \<Rightarrow> Some (back t'))"
    and "\<exists>leaf. rebuild_as_removed sha seg key n = Ok (leaf, child) \<and> P leaf joined"
    and "\<And>c1 t1. Q c1 t1 \<Longrightarrow> \<exists>c'. (\<forall>stack. rebuild (seg # stack) c1 = rebuild stack c') \<and> P c' (back t1)"
  shows "aug_found sha rebuild P u k' c key0 prev stack res"
proof (cases "pt_lookup t k = None")
  case True
  then show ?thesis using assms(1,2) by (simp add: aug_found_def)
next
  case False
  then obtain stk rg prev' key' where i: "res = Ok (Some (stk, rg, prev', key'))"
    and i2: "case pt_delete k t of
         None \<Rightarrow> stk = seg # stack \<and> prev' = n \<and> key' = key \<and> Some (part_value (rg, child)) = pt_lookup t k
       | Some t' \<Rightarrow> \<exists>seg' stk' leaf vl c'. stk = seg' # stk' \<and> rebuild_as_removed sha seg' key' prev' = Ok (leaf, vl)
           \<and> rebuild stk' leaf = rebuild (seg # stack) c' \<and> Q c' t' \<and> Some (part_value (rg, vl)) = pt_lookup t k"
    using assms(1) unfolding aug_found_def by auto
  show ?thesis
  proof (cases "pt_delete k t")
    case None
    then show ?thesis using i i2 assms(2-4) False by (auto simp: aug_found_def)
  next
    case (Some t')
    then obtain seg' stk' leaf vl c1 where e: "stk = seg' # stk'" "rebuild_as_removed sha seg' key' prev' = Ok (leaf, vl)"
      "rebuild stk' leaf = rebuild (seg # stack) c1" "Q c1 t'" "Some (part_value (rg, vl)) = pt_lookup t k"
      using i2 by auto
    from assms(5) [OF e(4)] obtain c' where "rebuild stk' leaf = rebuild stack c'" "P c' (back t')" using e(3) by auto
    then show ?thesis using i e(1,2,5) Some assms(2,3) False unfolding aug_found_def by auto
  qed
qed

context augmentation begin

lemma rebuild_as_removed_aug:
  assumes "room D V n" "X \<le> V" "arep bits_of add D V n c (PFork lab l r) x" "wf_slice key" "size_bits key = n - length lab - 1"
    and "holds c (cell_bits c) [lc, rc]"
  shows "\<exists>leaf. rebuild_as_removed sha \<lparr>sg_data = c, sg_next_branch = branch_from b, sg_key_bit_len = kl\<rparr> key n
      = Ok (leaf, if b then rc else lc)
    \<and> (\<exists>x'. arep bits_of add D V n leaf (pt_join lab (\<not> b) (if b then l else r)) x')"
proof -
  let ?m = "n - length lab - 1" and ?o = "if b then lc else rc" and ?t = "if b then l else r"
  from assms(3,6) obtain y z where f: "parse_label n (cell_bits c) = Some (lab, bits_of x)"
    "arep bits_of add D V ?m lc l y" "arep bits_of add D V ?m rc r z" "length lab < n" by (auto simp: holds_def)
  have o: "arep bits_of add D V ?m ?o ?t (if b then y else z)" using f(2,3) by simp
  note ao = arep_edge [OF o]
  have rm: "room D V ?m" using room_mono [OF assms(1)] by simp
  obtain p s where p: "slice_new c = Ok (slice_new_allow_exotic c)" "read_label (slice_new_allow_exotic c) n = Ok (p, s)"
    "wf_slice p" "slice_bits p = lab" "size_bits p = length lab"
    by (rule read_edge_of [OF assms(6) f(1) room_len(2) [OF assms(1)]])
  obtain q u where q: "slice_new ?o = Ok (slice_new_allow_exotic ?o)" "read_label (slice_new_allow_exotic ?o) ?m = Ok (q, u)"
    "wf_slice q" "slice_bits q = pt_label ?t" "size_bits q = length (pt_label ?t)"
    "wf_slice u" "slice_bits u = pt_arest bits_of ?t (if b then y else z)" "slice_refs u = cell_children ?o" "sl_cell u = ?o" "\<not> is_virtual ?o"
    by (rule read_edge_of [OF ao(1,2) room_len(2) [OF rm]])
  have pl: "length (pt_label ?t) \<le> ?m" by (rule pt_inv_label [OF arep_inv [OF o]])
  let ?lab = "lab @ (\<not> b) # pt_label ?t" and ?rest = "pt_arest bits_of ?t (if b then y else z)"
  have ll: "size_bits p + 1 + size_bits q \<le> n" using p(5) q(5) pl f(4) by simp
  have wl: "appends (write_label_parts p (\<not> b) q n) (label_bits n ?lab) []"
    using appends_write_label_parts [OF p(3) q(3) ll room_len(1) [OF assms(1)], of "\<not> b"] by (simp only: p(4) q(4))
  have ws: "appends (\<lambda>b. store_slice b u) ?rest (cell_children ?o)"
    using appends_store_slice [OF q(6)] q(7-10) by simp
  have "length (label_bits n ?lab @ ?rest) \<le> 1023"
    using label_bits_length [of n ?lab] assms(1) ll p(5) q(5) arest_length [OF o assms(2)] by (simp add: room_def)
  then have bd: "ok (write_label_parts p (\<not> b) q n cb_new) (\<lambda>builder. store_slice builder u)
      = Ok (mk_cb (label_bits n ?lab @ ?rest) (cell_children ?o))"
    using appendsD [OF appends_bind [OF wl ws], of "[]" "[]"] holds_length(2) [OF ao(1)]
    by (simp add: cb_new_mk cb_appended_def MAX_BIT_LEN_def MAX_REF_COUNT_def)
  have "length ?lab + ?m = length (pt_label ?t) + n" using f(4) by simp
  from arep_relabel [OF assms(1,2) o this, of sha] obtain leaf
    where leaf: "build_ext sha (mk_cb (label_bits n ?lab @ ?rest) (cell_children ?o)) = Ok leaf"
      "arep bits_of add D V n leaf (pt_relabel ?lab ?t) (if b then y else z)" .
  have r: "reference_cloned c (branch_index (branch_from b)) = Some (if b then rc else lc)"
    "reference c (1 - branch_index (branch_from b)) = Some ?o" "(branch_index (branch_from b) = 0) = (\<not> b)"
    using holds_reference(1,2) [OF assms(6)] by (cases b; simp add: nth_opt_def branch_from_def)+
  obtain builder where w: "write_label_parts p (\<not> b) q n cb_new = Ok builder"
    "store_slice builder u = Ok (mk_cb (label_bits n ?lab @ ?rest) (cell_children ?o))"
    using bd by (auto simp: ok_eq_Ok_iff)
  have "rebuild_as_removed sha \<lparr>sg_data = c, sg_next_branch = branch_from b, sg_key_bit_len = kl\<rparr> key n
      = Ok (leaf, if b then rc else lc)"
    unfolding rebuild_as_removed_def Let_def segment.simps r assms(5) using p(2) q(1,2) w leaf(1) by simp
  then show ?thesis using leaf(2) unfolding pt_join_def by blast
qed

lemma aug_find_value_to_remove_spec:
  assumes "X \<le> V"
  shows "room D V n \<Longrightarrow> arep bits_of add D V n c t x \<Longrightarrow> wf_slice key \<Longrightarrow> size_bits key = n \<Longrightarrow>
    aug_found sha (rebuild_aug_dict_from_stack sha comp) (\<lambda>c' t'. \<exists>x'. arep bits_of add D V n c' t' x') t (slice_bits key) c key prev stack
      (dict_find_value_to_remove_loop c key prev stack)"
proof (induction t arbitrary: n c x key prev stack)
  case (PLeaf lab vb vr)
  let ?k = "slice_bits key"
  have n: "length lab = n" "length ?k = n" "cell_children c = vr" using PLeaf.prems(2,4) by (simp_all add: holds_def)
  note a = arep_edge [OF PLeaf.prems(2)]
  obtain l s where r: "slice_new c = Ok (slice_new_allow_exotic c)"
    "read_label (slice_new_allow_exotic c) n = Ok (l, s)" "wf_slice l" "slice_bits l = lab" "size_bits l = n"
    "slice_bits s = vb" "slice_refs s = vr" "sl_cell s = c"
    by (rule read_edge_of [OF a(1,2) room_len(2) [OF PLeaf.prems(1)]]) (use n in simp)
  note eq = dict_find_value_to_remove_loop.simps [of c key prev stack]
  have "lcp_len ?k lab = n \<longleftrightarrow> ?k = lab" "lcp_len ?k lab \<le> n"
    using lcp_label [of lab ?k] lcp_len_le(2) [of ?k lab] n by (cases "?k = lab"; auto)+
  then have "dict_find_value_to_remove_loop c key prev stack
      = (if ?k = lab then Ok (Some (stack, sl_range s, prev, key)) else Ok None)"
    using r(1,2,5) PLeaf.prems(4)
    by (subst eq) (simp add: Let_def lcp_key [OF PLeaf.prems(3) r(3)] r(4))
  moreover have "part_value (sl_range s, c) = (vb, vr)"
    using part_value_slice [of s] r(6-8) by (simp add: slice_value_def)
  ultimately show ?case by (simp add: aug_found_def)
next
  case (PFork lab l r)
  let ?k = "slice_bits key" and ?m = "n - length lab - 1"
  have n: "length lab < n" "length ?k = n" using PFork.prems(2,4) by simp_all
  note a = arep_edge [OF PFork.prems(2)]
  obtain lb s where rd: "slice_new c = Ok (slice_new_allow_exotic c)"
    "read_label (slice_new_allow_exotic c) n = Ok (lb, s)" "wf_slice lb" "slice_bits lb = lab" "size_bits lb = length lab"
    by (rule read_edge_of [OF a(1,2) room_len(2) [OF PFork.prems(1)]]) simp
  note eq = dict_find_value_to_remove_loop.simps [of c key prev stack]
  show ?case
  proof (cases "take (length lab) ?k = lab")
    case False
    then have "lcp_len ?k lab < length lab" using lcp_label(2) [of lab ?k] n by simp
    then have "dict_find_value_to_remove_loop c key prev stack = Ok None"
      using rd n PFork.prems(4) by (subst eq) (simp add: Let_def lcp_key [OF PFork.prems(3) rd(3)])
    then show ?thesis using False by (simp add: aug_found_def)
  next
    case True
    have "length (drop (length lab) ?k) \<noteq> 0" using n by simp
    then obtain b k' where "drop (length lab) ?k = b # k'" by (cases "drop (length lab) ?k") auto
    then have k: "?k = lab @ b # k'" using True by (metis append_take_drop_id)
    obtain lc rc y z where f: "holds c (cell_bits c) [lc, rc]" "x = add y z"
      "arep bits_of add D V ?m lc l y" "arep bits_of add D V ?m rc r z"
      "reference c (of_bool b) = Some (if b then rc else lc)" "cell_reference_count c = 2"
      "load_bit (advance key (length lab)) = Ok (b, advance (advance key (length lab)) 1)"
      "wf_slice (advance (advance key (length lab)) 1)" "slice_bits (advance (advance key (length lab)) 1) = k'"
      "size_bits (advance (advance key (length lab)) 1) = ?m"
      by (rule arep_fork_step [OF PFork.prems(2) k PFork.prems(3,4)])
    let ?key = "advance (advance key (length lab)) 1" and ?child = "if b then rc else lc"
    let ?t = "if b then r else l" and ?o = "if b then l else r"
    let ?seg = "\<lparr>sg_data = c, sg_next_branch = branch_from b, sg_key_bit_len = n\<rparr>"
    have bi: "branch_index (branch_from b) = of_bool b" by (simp add: branch_from_def)
    have "lcp_len ?k lab = length lab" using lcp_label(1) [of lab ?k] True n by simp
    then have step: "dict_find_value_to_remove_loop c key prev stack = dict_find_value_to_remove_loop ?child ?key n (?seg # stack)"
      using rd f(5-7) n skip_key(1) [OF PFork.prems(3), of "length lab"] PFork.prems(4)
      by (subst eq) (simp add: Let_def lcp_key [OF PFork.prems(3) rd(3)] bi)
    have rm: "room D V ?m" using room_mono [OF PFork.prems(1)] by simp
    have ih: "aug_found sha (rebuild_aug_dict_from_stack sha comp) (\<lambda>c' t'. \<exists>x'. arep bits_of add D V ?m c' t' x') ?t k' ?child ?key n
        (?seg # stack) (dict_find_value_to_remove_loop ?child ?key n (?seg # stack))"
      using PFork.IH(1) [OF rm f(3,8,10), of n "?seg # stack"] PFork.IH(2) [OF rm f(4,8,10), of n "?seg # stack"] f(9)
      by (cases b) (simp_all del: One_nat_def)
    have del: "pt_delete ?k (PFork lab l r) = (case pt_delete k' ?t of None \<Rightarrow> Some (pt_join lab (\<not> b) ?o)
        | Some t' \<Rightarrow> Some (if b then PFork lab l t' else PFork lab t' r))"
      by (cases b) (simp_all add: k split: option.split)
    show ?thesis unfolding step
    proof (rule aug_found_step [OF ih _ del])
      show "pt_lookup (PFork lab l r) ?k = pt_lookup ?t k'" by (simp add: k)
      show "\<exists>leaf. rebuild_as_removed sha ?seg ?key n = Ok (leaf, ?child)
          \<and> (\<exists>x'. arep bits_of add D V n leaf (pt_join lab (\<not> b) ?o) x')"
        by (rule rebuild_as_removed_aug [OF PFork.prems(1) assms PFork.prems(2) f(8,10,1)])
    next
      fix c1 t1 assume "\<exists>x'. arep bits_of add D V ?m c1 t1 x'"
      then show "\<exists>c'. (\<forall>stack. rebuild_aug_dict_from_stack sha comp (?seg # stack) c1 = rebuild_aug_dict_from_stack sha comp stack c')
          \<and> (\<exists>x'. arep bits_of add D V n c' (if b then PFork lab l t1 else PFork lab t1 r) x')"
        using rebuild_aug_fork [OF PFork.prems(1) assms PFork.prems(2), of c1 t1 _ sha b] by blast
    qed
  qed
qed

end

section \<open>Dictionaries with extras\<close>

text \<open>A root cell, the tree it stores and the extra at its root.\<close>

definition opt_arep :: "('a \<Rightarrow> bool list) \<Rightarrow> ('a \<Rightarrow> 'a \<Rightarrow> 'a) \<Rightarrow> 'a \<Rightarrow> nat \<Rightarrow> nat \<Rightarrow> nat \<Rightarrow> cell option \<Rightarrow> ptree option \<Rightarrow> 'a \<Rightarrow> bool" where
  "opt_arep bits add z D V n d t x \<longleftrightarrow> (case t of
     None \<Rightarrow> d = None \<and> x = z
   | Some t \<Rightarrow> \<exists>c. d = Some c \<and> arep bits add D V n c t x)"

lemma opt_arep_simps [simp]:
  "opt_arep bits add z D V n d None x \<longleftrightarrow> d = None \<and> x = z"
  "opt_arep bits add z D V n d (Some t) x \<longleftrightarrow> (\<exists>c. d = Some c \<and> arep bits add D V n c t x)"
  by (simp_all add: opt_arep_def)

lemma opt_arep_inv: "opt_arep bits add z D V n d t x \<Longrightarrow> opt_inv n t"
  using arep_inv by (cases t) auto

text \<open>An augmented dictionary and its content; the extra of the dictionary is that of its root.\<close>

definition ad_stores :: "('a \<Rightarrow> bool list) \<Rightarrow> ('a \<Rightarrow> 'a \<Rightarrow> 'a) \<Rightarrow> 'a aug_extra \<Rightarrow> nat \<Rightarrow> nat \<Rightarrow> nat \<Rightarrow> 'a aug_dict
    \<Rightarrow> (bool list \<Rightarrow> dict_value option) \<Rightarrow> bool" where
  "ad_stores bits add A D V n d m \<longleftrightarrow>
    (\<exists>t. opt_arep bits add (ax_default A) D V n (td_root (ad_dict d)) t (ad_extra d) \<and> opt_lookup t = m)"

lemma ad_stores_new: "ad_stores bits add A D V n (ad_new A) (\<lambda>_. None)"
  unfolding ad_stores_def by (rule exI [of _ None]) (auto simp: ad_new_def td_new_def)

context augmentation begin

lemma aug_dict_insert_spec:
  assumes "room D V n" "X \<le> V" "opt_arep bits_of add z D V n d t x" "wf_slice key" "size_bits key = n"
    and "appends value vb vr" "value_ok D V (bits_of e @ vb, vr)"
  shows "if allowed mode (opt_lookup t (slice_bits key))
    then \<exists>d' x'. aug_dict_insert sha d key n (store e) value mode comp = Ok (d', True)
      \<and> opt_arep bits_of add z D V n d' (opt_insert (slice_bits key) (bits_of e @ vb, vr) t) x'
    else aug_dict_insert sha d key n (store e) value mode comp = Ok (d, False)"
proof (cases t)
  case None
  obtain c where "make_leaf_with_extra sha key n (store e) value = Ok c"
    "arep bits_of add D V n c (PLeaf (slice_bits key) (bits_of e @ vb) vr) e"
    by (rule aug_leaf [OF assms(1,4-7)])
  then show ?thesis
    using assms(3,5) by (auto simp: aug_dict_insert_def None allowed_def opt_insert_def)
next
  case (Some u)
  then obtain c where c: "d = Some c" "arep bits_of add D V n c u x" using assms(3) by auto
  have "aug_inserted (rebuild_aug_dict_from_stack sha comp)
      (\<lambda>c'. \<exists>x'. arep bits_of add D V n c' (pt_insert (slice_bits key) (bits_of e @ vb, vr) u) x')
      (allowed mode (pt_lookup u (slice_bits key))) [] (aug_dict_insert_loop sha (store e) value mode comp c key [])"
    by (rule aug_insert_loop_spec [OF assms(2,6,7,1) c(2) assms(4,5)])
  then show ?thesis
    using assms(5) by (auto simp: aug_inserted_def aug_dict_insert_def c(1) Some opt_insert_def; blast)
qed

lemma aug_dict_remove_spec:
  assumes "room D V n" "X \<le> V" "opt_arep bits_of add z D V n d t x" "wf_slice key" "size_bits key = n"
  shows "case opt_lookup t (slice_bits key) of
      None \<Rightarrow> aug_dict_remove_owned sha d key n allow_subtree comp = Ok (d, None)
    | Some v \<Rightarrow> \<exists>d' part x'. aug_dict_remove_owned sha d key n allow_subtree comp = Ok (d', Some part)
        \<and> part_value part = v \<and> opt_arep bits_of add z D V n d' (opt_delete (slice_bits key) t) x'"
proof (cases t)
  case None
  then show ?thesis using assms by (simp add: aug_dict_remove_owned_def)
next
  case (Some u)
  let ?k = "slice_bits key"
  obtain c where c: "d = Some c" "arep bits_of add D V n c u x" using assms(3) Some by auto
  have l: "aug_found sha (rebuild_aug_dict_from_stack sha comp) (\<lambda>c' t'. \<exists>x'. arep bits_of add D V n c' t' x') u ?k c key n []
      (dict_find_value_to_remove_loop c key n [])"
    by (rule aug_find_value_to_remove_spec [OF assms(2,1) c(2) assms(4,5)])
  note defs = aug_dict_remove_owned_def dict_find_value_to_remove_def c(1) Some opt_delete_def
  show ?thesis
  proof (cases "pt_lookup u ?k")
    case None
    then show ?thesis using l assms(5) by (simp add: aug_found_def defs)
  next
    case v: (Some v)
    show ?thesis
    proof (cases "pt_delete ?k u")
      case None
      then show ?thesis using l v assms(5) by (auto simp: aug_found_def defs)
    next
      case (Some u')
      then obtain seg stk rg prev' key' leaf vl c' x' where
        "dict_find_value_to_remove_loop c key n [] = Ok (Some (seg # stk, rg, prev', key'))"
        "rebuild_as_removed sha seg key' prev' = Ok (leaf, vl)" "rebuild_aug_dict_from_stack sha comp stk leaf = Ok c'"
        "arep bits_of add D V n c' u' x'" "part_value (rg, vl) = v"
        using l v unfolding aug_found_def by (auto; blast)
      then show ?thesis using assms(5) v Some by (auto simp: defs; blast)
    qed
  qed
qed

text \<open>Reading the extra of the root back.\<close>

lemma update_root_extra_spec:
  assumes "n \<le> 1023" "opt_arep bits_of add (ax_default A) D V n (td_root (ad_dict d)) t x" "ax_load A = load"
  shows "ad_update_root_extra A n d = Ok (d\<lparr>ad_extra := x\<rparr>)"
proof (cases t)
  case None
  then show ?thesis using assms(2) by (simp add: ad_update_root_extra_def)
next
  case (Some u)
  then obtain c where c: "td_root (ad_dict d) = Some c" "arep bits_of add D V n c u x" using assms(2) by auto
  obtain s r where s: "slice_new c = Ok (slice_new_allow_exotic c)" "skip_label_full (slice_new_allow_exotic c) n = Ok s"
    "wf_slice s" "sl_cell s = c" "\<not> is_virtual c" "slice_bits s = bits_of x @ r" by (rule skip_label_extra [OF c(2) assms(1)])
  have l: "loads load (bits_of x) [] x" using load_loads [OF all_valid, of x] by (simp add: no_refs)
  obtain s' where s': "load s = Ok (x, s')"
    by (rule loadsE [OF l s(3) _ s(6), of "slice_refs s"]) (use s(4,5) in auto)
  note e = arep_edge [OF c(2)]
  obtain p u' where "read_label (slice_new_allow_exotic c) n = Ok (p, u')" "size_bits p = length (pt_label u)"
    by (rule read_edge_of [OF e(1,2) assms(1)])
  moreover have "length (pt_label u) \<le> n" by (rule pt_inv_label [OF arep_inv [OF c(2)]])
  ultimately show ?thesis
    using s(1,2) s' by (auto simp: ad_update_root_extra_def c(1) skip_label_full_def assms(3) split: if_splits)
qed

lemma ad_insert_stores:
  assumes "room D V n" "X \<le> V" "ad_stores bits_of add A D V n d m" "store_key key bd_new = Ok (mk_bd k)" "length k = n"
    and "appends value vb vr" "value_ok D V (bits_of e @ vb, vr)" "ax_store A = store" "ax_load A = load" "ax_comp_add A = comp"
  shows "if allowed mode (m k)
    then \<exists>d'. ad_insert_impl sha A store_key n d key e value mode = (d', Ok True) \<and> ad_stores bits_of add A D V n d' (m(k \<mapsto> (bits_of e @ vb, vr)))
    else ad_insert_impl sha A store_key n d key e value mode = (d, Ok False)"
proof -
  note n = room_len(2) [OF assms(1)]
  from assms(3) obtain t where t: "opt_arep bits_of add (ax_default A) D V n (td_root (ad_dict d)) t (ad_extra d)" "opt_lookup t = m"
    by (auto simp: ad_stores_def)
  note k = bits_key_spec [of k, unfolded assms(5), OF n]
  note ins = aug_dict_insert_spec [OF assms(1,2) t(1) k(1,3) assms(6,7), of mode sha, unfolded k(2) t(2)]
  have impl: "ad_insert_impl sha A store_key n d key e value mode
      = (case aug_dict_insert sha (td_root (ad_dict d)) (bits_key k) n (store e) value mode comp of
         Inl err \<Rightarrow> (d, Err err)
       | Inr (root, inserted) \<Rightarrow>
           let d = d\<lparr>ad_dict := \<lparr>td_root = root\<rparr>\<rparr>
           in if inserted
              then (case ad_update_root_extra A n d of Inl err \<Rightarrow> (d, Err err) | Inr d \<Rightarrow> (d, Ok inserted))
              else (d, Ok inserted))"
    by (simp add: ad_insert_impl_def assms(4,8,10) bits_key_def)
  show ?thesis
  proof (cases "allowed mode (m k)")
    case False
    then show ?thesis using ins by (simp add: impl)
  next
    case True
    then obtain r x where r: "aug_dict_insert sha (td_root (ad_dict d)) (bits_key k) n (store e) value mode comp = Ok (r, True)"
      "opt_arep bits_of add (ax_default A) D V n r (opt_insert k (bits_of e @ vb, vr) t) x" using ins by auto
    let ?d = "d\<lparr>ad_dict := \<lparr>td_root = r\<rparr>\<rparr>"
    have "ad_update_root_extra A n ?d = Ok (?d\<lparr>ad_extra := x\<rparr>)"
      by (rule update_root_extra_spec [OF n _ assms(9)]) (use r(2) in simp)
    moreover have "opt_lookup (opt_insert k (bits_of e @ vb, vr) t) = m(k \<mapsto> (bits_of e @ vb, vr))"
      using pt_insert_map [of n _ k "(bits_of e @ vb, vr)"] opt_arep_inv [OF t(1)] assms(5) unfolding t(2) [symmetric]
      by (cases t) (auto simp: opt_insert_def fun_eq_iff)
    ultimately show ?thesis using True r by (auto simp: impl ad_stores_def)
  qed
qed

lemma ad_remove_stores:
  assumes "room D V n" "X \<le> V" "ad_stores bits_of add A D V n d m" "store_key key bd_new = Ok (mk_bd k)" "length k = n"
    and "ax_load A = load" "ax_comp_add A = comp"
  shows "case m k of
      None \<Rightarrow> ad_remove_impl sha A store_key n d key = (d, Ok None)
    | Some v \<Rightarrow> \<exists>d' part. ad_remove_impl sha A store_key n d key = (d', Ok (Some part))
        \<and> part_value part = v \<and> ad_stores bits_of add A D V n d' (m(k := None))"
proof -
  note n = room_len(2) [OF assms(1)]
  from assms(3) obtain t where t: "opt_arep bits_of add (ax_default A) D V n (td_root (ad_dict d)) t (ad_extra d)" "opt_lookup t = m"
    by (auto simp: ad_stores_def)
  note k = bits_key_spec [of k, unfolded assms(5), OF n]
  note rem = aug_dict_remove_spec [OF assms(1,2) t(1) k(1,3), of sha False, unfolded k(2) t(2)]
  have impl: "ad_remove_impl sha A store_key n d key
      = (case aug_dict_remove_owned sha (td_root (ad_dict d)) (bits_key k) n False comp of
         Inl err \<Rightarrow> (d, Err err)
       | Inr (root, res) \<Rightarrow>
           let d = d\<lparr>ad_dict := \<lparr>td_root = root\<rparr>\<rparr>
           in if res \<noteq> None
              then (case ad_update_root_extra A n d of Inl err \<Rightarrow> (d, Err err) | Inr d \<Rightarrow> (d, Ok res))
              else (d, Ok res))"
    by (simp add: ad_remove_impl_def assms(4,7) bits_key_def)
  show ?thesis
  proof (cases "m k")
    case None
    then show ?thesis using rem by (simp add: impl)
  next
    case (Some v)
    then obtain r part x where r: "aug_dict_remove_owned sha (td_root (ad_dict d)) (bits_key k) n False comp = Ok (r, Some part)"
      "part_value part = v" "opt_arep bits_of add (ax_default A) D V n r (opt_delete k t) x" using rem by auto
    let ?d = "d\<lparr>ad_dict := \<lparr>td_root = r\<rparr>\<rparr>"
    have "ad_update_root_extra A n ?d = Ok (?d\<lparr>ad_extra := x\<rparr>)"
      by (rule update_root_extra_spec [OF n _ assms(6)]) (use r(3) in simp)
    moreover have "opt_lookup (opt_delete k t) = m(k := None)"
      using pt_delete_map [of n _ k] opt_arep_inv [OF t(1)] assms(5) unfolding t(2) [symmetric]
      by (cases t) (auto simp: opt_delete_def fun_eq_iff)
    ultimately show ?thesis using Some r by (auto simp: impl ad_stores_def)
  qed
qed

end

section \<open>The old masterchain blocks\<close>

text \<open>The extra says whether a key block is below, and the greatest logical time.\<close>

record key_max_lt =
  kl_has_key_block :: bool
  kl_max_end_lt :: "64 word"

definition kl_store_into :: "key_max_lt \<Rightarrow> store_fn" where
  "kl_store_into e b = ok (on_inner (\<lambda>d. store_bit d (kl_has_key_block e)) b) (on_inner (\<lambda>d. store_u64 d (kl_max_end_lt e)))"

definition kl_load_from :: "cell_slice \<Rightarrow> (key_max_lt \<times> cell_slice) result" where
  "kl_load_from s = ok (load_bit s) (\<lambda>(has_key_block, s). ok (load_u64 s) (\<lambda>(max_end_lt, s).
     Ok (\<lparr>kl_has_key_block = has_key_block, kl_max_end_lt = max_end_lt\<rparr>, s)))"

definition kl_comp_add :: aug_dict_fn where
  "kl_comp_add left right b =
    ok (kl_load_from left) (\<lambda>(left, _).
    ok (kl_load_from right) (\<lambda>(right, _).
    kl_store_into \<lparr>kl_has_key_block = kl_has_key_block left \<or> kl_has_key_block right,
      kl_max_end_lt = max (kl_max_end_lt left) (kl_max_end_lt right)\<rparr> b))"

definition KeyMaxLt_extra :: "key_max_lt aug_extra" where
  "KeyMaxLt_extra = \<lparr>ax_default = \<lparr>kl_has_key_block = False, kl_max_end_lt = 0\<rparr>,
     ax_store = kl_store_into, ax_load = kl_load_from, ax_comp_add = kl_comp_add\<rparr>"

definition kl_bits :: "key_max_lt \<Rightarrow> bool list" where
  "kl_bits e = kl_has_key_block e # word_bits 64 (kl_max_end_lt e)"

definition kl_add :: "key_max_lt \<Rightarrow> key_max_lt \<Rightarrow> key_max_lt" where
  "kl_add x y = \<lparr>kl_has_key_block = kl_has_key_block x \<or> kl_has_key_block y,
     kl_max_end_lt = max (kl_max_end_lt x) (kl_max_end_lt y)\<rparr>"

lemma kl_stores: "appends (kl_store_into e) (kl_bits e) []"
proof -
  have "appends (on_inner (\<lambda>d. store_bit d (kl_has_key_block e))) [kl_has_key_block e] []"
    "appends (on_inner (\<lambda>d. store_u64 d (kl_max_end_lt e))) (word_bits 64 (kl_max_end_lt e)) []"
    by (rule appends_inner, simp)+
  from appends_bind [OF this] show ?thesis by (simp add: kl_store_into_def [abs_def] kl_bits_def)
qed

lemma kl_loads: "loads kl_load_from (kl_bits e) [] e"
  unfolding kl_load_from_def [abs_def] kl_bits_def
  using loads_fields2 [OF loads_bit loads_u64, where h = "\<lambda>x y. \<lparr>kl_has_key_block = x, kl_max_end_lt = y\<rparr>",
    of "kl_has_key_block e" "kl_max_end_lt e"] by (cases e) simp

lemma length_kl_bits [simp]: "length (kl_bits e) = 65"
  by (simp add: kl_bits_def)

lemma kl_comp_adds:
  assumes "wf_slice s" "\<not> is_virtual (sl_cell s)" "slice_bits s = kl_bits x @ a"
    and "wf_slice u" "\<not> is_virtual (sl_cell u)" "slice_bits u = kl_bits y @ b"
  shows "appends (kl_comp_add s u) (kl_bits (kl_add x y)) []"
proof -
  obtain s' where "kl_load_from s = Ok (x, s')" by (rule loadsE [OF kl_loads assms(1-3), of "slice_refs s"]) simp_all
  moreover obtain u' where "kl_load_from u = Ok (y, u')" by (rule loadsE [OF kl_loads assms(4-6), of "slice_refs u"]) simp_all
  ultimately show ?thesis using kl_stores [of "kl_add x y"] by (simp add: kl_comp_add_def [abs_def] kl_add_def)
qed

interpretation key_max_lt_aug: augmentation "\<lambda>_. True" kl_bits "\<lambda>_. []" kl_store_into kl_load_from kl_add 65 kl_comp_add
  by unfold_locales (simp_all add: kl_stores kl_loads kl_comp_adds)

text \<open>The extra of a tree, from the extras of its entries.\<close>

definition kl_extras :: "ptree \<Rightarrow> key_max_lt set" where
  "kl_extras t = {e. \<exists>k r vr. pt_lookup t k = Some (kl_bits e @ r, vr)}"

lemma kl_bits_inj: "kl_bits x @ r = kl_bits y @ s \<longleftrightarrow> x = y \<and> r = s"
proof -
  have "v = w" if "word_bits 64 v = word_bits 64 w" for v w :: "64 word"
    using arg_cong [OF that, of "word_of_bits :: bool list \<Rightarrow> 64 word"] word_of_bits_word_bits [where 'a = 64] by simp
  then show ?thesis by (cases x; cases y) (auto simp: kl_bits_def)
qed

lemma kl_extras_fork: "kl_extras (PFork lab l r) = kl_extras l \<union> kl_extras r"
proof (intro set_eqI iffI)
  fix e assume "e \<in> kl_extras (PFork lab l r)"
  then show "e \<in> kl_extras l \<union> kl_extras r" unfolding kl_extras_def by (auto split: if_splits list.splits)
next
  fix e assume "e \<in> kl_extras l \<union> kl_extras r"
  then obtain b k s vr where "pt_lookup (if b then r else l) k = Some (kl_bits e @ s, vr)"
    by (auto simp: kl_extras_def) metis+
  then have "pt_lookup (PFork lab l r) (lab @ b # k) = Some (kl_bits e @ s, vr)" by (simp only: pt_fork_lookup)
  then show "e \<in> kl_extras (PFork lab l r)" by (auto simp: kl_extras_def simp del: pt_lookup.simps)
qed

lemma kl_extra_of:
  "arep kl_bits kl_add D V n c t x \<Longrightarrow> finite (kl_extras t) \<and> kl_extras t \<noteq> {}
    \<and> kl_has_key_block x = (\<exists>e\<in>kl_extras t. kl_has_key_block e) \<and> kl_max_end_lt x = Max (kl_max_end_lt ` kl_extras t)"
proof (induction t arbitrary: n c x)
  case (PLeaf lab vb vr)
  then have "kl_extras (PLeaf lab vb vr) = {x}" by (auto simp: kl_extras_def kl_bits_inj)
  then show ?case by simp
next
  case (PFork lab l r)
  from PFork.prems obtain lc rc y z where f: "x = kl_add y z"
    "arep kl_bits kl_add D V (n - length lab - 1) lc l y" "arep kl_bits kl_add D V (n - length lab - 1) rc r z" by auto
  from PFork.IH(1) [OF f(2)] PFork.IH(2) [OF f(3)] show ?case
    by (auto simp: f(1) kl_add_def kl_extras_fork image_Un Max_Un)
qed

section \<open>Lookup with extras\<close>

text \<open>Lookup does not look at the extras: it returns the extra and the value of a leaf together.\<close>

lemma arep_get_loop:
  "arep bits add D V n c t x \<Longrightarrow> n \<le> 1023 \<Longrightarrow> wf_slice key \<Longrightarrow> size_bits key = n \<Longrightarrow>
    \<exists>res. dict_get_loop c key = Ok res \<and> map_option slice_value res = pt_lookup t (slice_bits key)"
proof (induction t arbitrary: n c x key)
  case (PLeaf lab vb vr)
  from dict_get_loop_spec [of None D V n c "PLeaf lab vb vr" key] PLeaf show ?case by auto
next
  case (PFork lab l r)
  let ?k = "slice_bits key"
  note a = arep_edge [OF PFork.prems(1)]
  obtain lb s where rd: "slice_new c = Ok (slice_new_allow_exotic c)"
    "read_label (slice_new_allow_exotic c) n = Ok (lb, s)" "wf_slice lb" "slice_bits lb = lab" "size_bits lb = length lab"
    "slice_refs s = cell_children c"
    by (rule read_edge_of [OF a(1,2) PFork.prems(2)]) simp
  have n: "length lab < n" "length (slice_bits lb) \<le> size_bits key" using PFork.prems(1,4) rd(4) by auto
  note st = strip_key [OF PFork.prems(3) rd(3) n(2), unfolded rd(4)]
  have ne: "\<not> is_data_empty key" "\<not> is_data_empty (advance key (length lab))"
    using n PFork.prems(3,4) by (simp_all add: is_data_empty_size size_bits_advance)
  show ?case
  proof (cases "take (length lab) ?k = lab")
    case False
    then have "dict_get_loop c key = Ok None"
      using rd st(1) ne PFork.prems(4) by (subst dict_get_loop.simps) (simp add: Let_def)
    then show ?thesis using False by simp
  next
    case True
    have "length (drop (length lab) ?k) \<noteq> 0" using n PFork.prems(4) by simp
    then obtain b k' where "drop (length lab) ?k = b # k'" by (cases "drop (length lab) ?k") auto
    then have k: "?k = lab @ b # k'" using True by (metis append_take_drop_id)
    let ?m = "n - length lab - 1" and ?key = "advance (advance key (length lab)) 1"
    obtain lc rc y z where f: "holds c (cell_bits c) [lc, rc]" "arep bits add D V ?m lc l y" "arep bits add D V ?m rc r z"
      "reference c (of_bool b) = Some (if b then rc else lc)"
      "load_bit (advance key (length lab)) = Ok (b, ?key)" "wf_slice ?key" "slice_bits ?key = k'" "size_bits ?key = ?m"
      by (rule arep_fork_step [OF PFork.prems(1) k PFork.prems(3,4)])
    have "size_refs s = 2" using rd(6) f(1) length_slice_refs [of s] by (simp add: holds_def)
    then have e: "dict_get_loop c key = dict_get_loop (if b then rc else lc) ?key"
      using rd st(1) ne PFork.prems(4) f(4,5) True
      by (subst dict_get_loop.simps) (simp add: Let_def)
    have m: "?m \<le> 1023" using PFork.prems(2) by simp
    show ?thesis
      using PFork.IH(1) [OF f(2) m f(6,8)] PFork.IH(2) [OF f(3) m f(6,8)] unfolding e k f(7) by (cases b) simp_all
  qed
qed

lemma ad_get_stores:
  assumes "ad_stores bits add A D V n d m" "length k = n" "n \<le> 1023"
  shows "\<exists>res. dict_get (td_root (ad_dict d)) n (bits_key k) = Ok res \<and> map_option slice_value res = m k"
proof -
  from assms(1) obtain t where t: "opt_arep bits add (ax_default A) D V n (td_root (ad_dict d)) t (ad_extra d)" "opt_lookup t = m"
    by (auto simp: ad_stores_def)
  note k = bits_key_spec [of k, unfolded assms(2), OF assms(3)]
  show ?thesis
  proof (cases t)
    case None
    then show ?thesis using t k by (auto simp: dict_get_def)
  next
    case (Some u)
    then obtain c where "td_root (ad_dict d) = Some c" "arep bits add D V n c u (ad_extra d)" using t(1) by auto
    then show ?thesis using arep_get_loop [OF _ assms(3) k(1,3)] k t(2) Some by (auto simp: dict_get_def)
  qed
qed

section \<open>The content of the old masterchain blocks\<close>

text \<open>Entries are typed: an extra and the rest of the value.\<close>

type_synonym kl_map = "bool list \<Rightarrow> (key_max_lt \<times> dict_value) option"

definition kl_value :: "key_max_lt \<times> dict_value \<Rightarrow> dict_value" where
  "kl_value p = (kl_bits (fst p) @ fst (snd p), snd (snd p))"

definition old_blocks :: "nat \<Rightarrow> nat \<Rightarrow> nat \<Rightarrow> key_max_lt aug_dict \<Rightarrow> kl_map \<Rightarrow> bool" where
  "old_blocks D V n d M \<longleftrightarrow> ad_stores kl_bits kl_add KeyMaxLt_extra D V n d (\<lambda>k. map_option kl_value (M k))"

definition kl_total :: "kl_map \<Rightarrow> key_max_lt" where
  "kl_total M = \<lparr>kl_has_key_block = (\<exists>(e, v) \<in> ran M. kl_has_key_block e),
     kl_max_end_lt = Max (insert 0 ((\<lambda>(e, v). kl_max_end_lt e) ` ran M))\<rparr>"

lemma old_blocks_new: "old_blocks D V n (ad_new KeyMaxLt_extra) (\<lambda>_. None)"
  using ad_stores_new by (simp add: old_blocks_def)

lemma old_blocks_extra:
  assumes "old_blocks D V n d M"
  shows "ad_extra d = kl_total M"
proof -
  from assms obtain t where t: "opt_arep kl_bits kl_add (ax_default KeyMaxLt_extra) D V n (td_root (ad_dict d)) t (ad_extra d)"
    "\<And>k. opt_lookup t k = map_option kl_value (M k)" by (auto simp: old_blocks_def ad_stores_def)
  show ?thesis
  proof (cases t)
    case None
    then have "ran M = {}" using t(2) by (auto simp: ran_def)
    then show ?thesis using t(1) None by (simp add: kl_total_def KeyMaxLt_extra_def)
  next
    case (Some u)
    then have ext: "kl_extras u = fst ` ran M"
      using t(2) by (fastforce simp: kl_extras_def kl_value_def ran_def kl_bits_inj image_iff)
    from t(1) Some obtain c where "arep kl_bits kl_add D V n c u (ad_extra d)" by auto
    from kl_extra_of [OF this, unfolded ext]
    have r: "finite (fst ` ran M)" "fst ` ran M \<noteq> {}" "kl_has_key_block (ad_extra d) = (\<exists>e\<in>fst ` ran M. kl_has_key_block e)"
      "kl_max_end_lt (ad_extra d) = Max (kl_max_end_lt ` fst ` ran M)"
      by blast+
    have "(\<lambda>(e, v). kl_max_end_lt e) ` ran M = kl_max_end_lt ` fst ` ran M" by (force simp: image_iff)
    then have "kl_max_end_lt (kl_total M) = Max (kl_max_end_lt ` fst ` ran M)"
      using r(1,2) by (simp add: kl_total_def Max_insert max_def)
    moreover have "kl_has_key_block (kl_total M) = (\<exists>e\<in>fst ` ran M. kl_has_key_block e)"
      by (auto simp: kl_total_def split_beta)
    ultimately show ?thesis using r(3,4) by (intro key_max_lt.equality) simp_all
  qed
qed

lemma old_blocks_get:
  assumes "old_blocks D V n d M" "length k = n" "n \<le> 1023"
  shows "\<exists>res. dict_get (td_root (ad_dict d)) n (bits_key k) = Ok res \<and> map_option slice_value res = map_option kl_value (M k)"
  using ad_get_stores [OF assms(1) [unfolded old_blocks_def] assms(2,3)] .

lemma KeyMaxLt_parts: "ax_store KeyMaxLt_extra = kl_store_into" "ax_load KeyMaxLt_extra = kl_load_from"
  "ax_comp_add KeyMaxLt_extra = kl_comp_add"
  by (simp_all add: KeyMaxLt_extra_def)

lemma old_blocks_insert:
  assumes "room D V n" "65 \<le> V" "old_blocks D V n d M" "store_key key bd_new = Ok (mk_bd k)" "length k = n"
    and "appends value (fst v) (snd v)" "value_ok D V (kl_value (e, v))"
  shows "if allowed mode (M k)
    then \<exists>d'. ad_insert_impl sha KeyMaxLt_extra store_key n d key e value mode = (d', Ok True) \<and> old_blocks D V n d' (M(k \<mapsto> (e, v)))
    else ad_insert_impl sha KeyMaxLt_extra store_key n d key e value mode = (d, Ok False)"
proof -
  have v: "(kl_bits e @ fst v, snd v) = kl_value (e, v)" by (simp add: kl_value_def)
  have u: "(\<lambda>k. map_option kl_value (M k))(k \<mapsto> kl_value (e, v)) = (\<lambda>j. map_option kl_value ((M(k \<mapsto> (e, v))) j))" by auto
  have al: "allowed mode (map_option kl_value (M k)) = allowed mode (M k)" by (cases "M k") (simp_all add: allowed_def)
  show ?thesis
    using key_max_lt_aug.ad_insert_stores [where store_key = store_key and key = key and mode = mode and sha = sha, OF assms(1,2) assms(3) [unfolded old_blocks_def] assms(4-6) assms(7) [folded v] KeyMaxLt_parts]
    unfolding v u al old_blocks_def .
qed

lemma old_blocks_remove:
  assumes "room D V n" "65 \<le> V" "old_blocks D V n d M" "store_key key bd_new = Ok (mk_bd k)" "length k = n"
  shows "case M k of
      None \<Rightarrow> ad_remove_impl sha KeyMaxLt_extra store_key n d key = (d, Ok None)
    | Some p \<Rightarrow> \<exists>d' part. ad_remove_impl sha KeyMaxLt_extra store_key n d key = (d', Ok (Some part))
        \<and> part_value part = kl_value p \<and> old_blocks D V n d' (M(k := None))"
proof -
  have u: "(\<lambda>k. map_option kl_value (M k))(k := None) = (\<lambda>j. map_option kl_value ((M(k := None)) j))" by auto
  show ?thesis
    using key_max_lt_aug.ad_remove_stores [where store_key = store_key and key = key and sha = sha, OF assms(1,2) assms(3) [unfolded old_blocks_def] assms(4,5) KeyMaxLt_parts(2,3)]
    unfolding u old_blocks_def by (cases "M k") simp_all
qed

section \<open>Search by extra\<close>

text \<open>
  \<open>aug_dict_find_by_extra\<close> (\<^verbatim>\<open>src/dict/ops/find.rs\<close>). The trait \<open>SearchByExtra\<close> has methods on \<open>&mut self\<close>: they take and
  return the state of the search. A \<open>ControlFlow\<close> is an optional branch, \<open>None\<close> stops.
\<close>

record ('a, 'f) search_by_extra =
  sb_on_leaf :: "'f \<Rightarrow> 'a \<Rightarrow> bool \<times> 'f"
  sb_on_edge :: "'f \<Rightarrow> 'a \<Rightarrow> 'a \<Rightarrow> branch option \<times> 'f"

definition branch_search :: "('a, branch) search_by_extra" where
  "branch_search = \<lparr>sb_on_leaf = (\<lambda>f _. (True, f)), sb_on_edge = (\<lambda>f _ _. (Some f, f))\<rparr>"

definition ordering_search :: "('a \<Rightarrow> 'a \<Rightarrow> 'o) \<Rightarrow> ('a, 'o) search_by_extra" where
  "ordering_search cmp = \<lparr>sb_on_leaf = (\<lambda>f _. (True, f)),
     sb_on_edge = (\<lambda>f left_extra right_extra. (Some (if f = cmp left_extra right_extra then BrLeft else BrRight), f))\<rparr>"

datatype 'a search_next =
    NextLeaf (next_prefix: cell_slice) (next_extra: 'a) cell_slice
  | NextEdge (next_prefix: cell_slice) nat (next_extra: 'a) cell cell

definition preload_branch :: "(cell_slice \<Rightarrow> ('a \<times> cell_slice) result) \<Rightarrow> cell \<Rightarrow> nat \<Rightarrow> 'a search_next result" where
  "preload_branch load_from data key_bit_len =
    ok (slice_new data) (\<lambda>data.
    ok (read_label data key_bit_len) (\<lambda>(prefix, data).
    if key_bit_len < size_bits prefix then Err CellUnderflow
    else if key_bit_len - size_bits prefix = 0 then ok (load_from data) (\<lambda>(extra, data). Ok (NextLeaf prefix extra data))
    else if size_refs data < 2 then Err CellUnderflow
    else
      ok (load_reference data) (\<lambda>(left, data).
      ok (load_reference data) (\<lambda>(right, data).
      ok (load_from data) (\<lambda>(extra, data).
      Ok (NextEdge prefix (key_bit_len - size_bits prefix - 1) extra left right))))))"

fun next_size :: "'a search_next \<Rightarrow> nat" where
  "next_size (NextLeaf _ _ _) = 0"
| "next_size (NextEdge _ _ _ left right) = Suc (max (tree_size left) (tree_size right))"

lemma load_bit_cell: "load_bit s = Ok (v, s') \<Longrightarrow> sl_cell s' = sl_cell s"
  by (auto simp: load_bit_def Let_def split: if_splits option.splits)

lemma load_uint_cell: "load_uint s n = Ok (v, s') \<Longrightarrow> sl_cell s' = sl_cell s"
  by (auto simp: load_uint_def load_with_def ok_eq_Ok_iff)

lemma skip_first_cell: "skip_first s n k = Ok s' \<Longrightarrow> sl_cell s' = sl_cell s"
  by (auto simp: skip_first_def with_range_def ok_eq_Ok_iff split: sum.splits)

lemma read_hml_short_loop_cell: "read_hml_short_loop fuel len s = Ok (n, s') \<Longrightarrow> sl_cell s' = sl_cell s"
  by (induction fuel len s rule: read_hml_short_loop.induct) (auto simp: ok_eq_Ok_iff dest: load_bit_cell split: if_splits)

lemma read_label_cell: "read_label s n = Ok (l, s') \<Longrightarrow> sl_cell s' = sl_cell s"
  by (auto simp: read_label_def read_hml_short_def read_hml_long_def read_hml_same_def Let_def ok_eq_Ok_iff
      dest!: load_bit_cell load_uint_cell skip_first_cell read_hml_short_loop_cell split: if_splits)

lemma load_reference_size: "load_reference s = Ok (c, s') \<Longrightarrow> tree_size c < tree_size (sl_cell s) \<and> sl_cell s' = sl_cell s"
  by (auto simp: load_reference_def advance_refs_def reference_size split: if_splits option.splits)

lemma preload_branch_size: "preload_branch load_from c n = Ok next \<Longrightarrow> next_size next \<le> tree_size c"
  by (auto simp: preload_branch_def ok_eq_Ok_iff Suc_le_eq dest!: slice_new_cell read_label_cell load_reference_size split: if_splits)

function find_by_extra_loop :: "(cell_slice \<Rightarrow> ('a \<times> cell_slice) result) \<Rightarrow> ('a, 'f) search_by_extra \<Rightarrow> 'f \<Rightarrow> cell_data_builder
    \<Rightarrow> 'a search_next \<Rightarrow> (cell_data_builder \<times> 'a \<times> cell_slice) option result" where
  "find_by_extra_loop load_from S flow key_builder next =
    ok (if \<not> is_data_empty (next_prefix next) then store_slice_data key_builder (next_prefix next) else Ok key_builder) (\<lambda>key_builder.
    case next of
      NextLeaf _ extra val \<Rightarrow> Ok (if fst (sb_on_leaf S flow extra) then Some (key_builder, extra, val) else None)
    | NextEdge _ key_bit_len _ left right \<Rightarrow>
        ok (preload_branch load_from left key_bit_len) (\<lambda>left.
        ok (preload_branch load_from right key_bit_len) (\<lambda>right.
        case sb_on_edge S flow (next_extra left) (next_extra right) of
          (None, _) \<Rightarrow> Ok None
        | (Some BrLeft, flow) \<Rightarrow> ok (store_bit_zero key_builder) (\<lambda>key_builder. find_by_extra_loop load_from S flow key_builder left)
        | (Some BrRight, flow) \<Rightarrow> ok (store_bit_one key_builder) (\<lambda>key_builder. find_by_extra_loop load_from S flow key_builder right))))"
  by pat_completeness auto
termination
  by (relation "measure (\<lambda>(load_from, S, flow, key_builder, next). next_size next)")
     (auto dest!: preload_branch_size simp: less_Suc_eq_le)

declare find_by_extra_loop.simps [simp del]

definition aug_dict_find_by_extra :: "(cell_slice \<Rightarrow> ('a \<times> cell_slice) result) \<Rightarrow> ('a, 'f) search_by_extra
    \<Rightarrow> cell option \<Rightarrow> nat \<Rightarrow> 'f \<Rightarrow> (cell_data_builder \<times> 'a \<times> cell_slice) option result" where
  "aug_dict_find_by_extra load_from S dict key_bit_len flow =
    (case dict of
       None \<Rightarrow> Ok None
     | Some data \<Rightarrow> ok (preload_branch load_from data key_bit_len) (find_by_extra_loop load_from S flow bd_new))"

text \<open>A search that, from any extra with \<open>Q\<close>, goes to a child with \<open>Q\<close> and accepts a leaf with \<open>Q\<close>.\<close>

definition searches :: "('a \<Rightarrow> 'a \<Rightarrow> 'a) \<Rightarrow> ('a \<Rightarrow> bool) \<Rightarrow> ('a, 'f) search_by_extra \<Rightarrow> bool" where
  "searches add Q S \<longleftrightarrow> (\<forall>f x. Q x \<longrightarrow> fst (sb_on_leaf S f x))
     \<and> (\<forall>f y z. Q (add y z) \<longrightarrow> (case fst (sb_on_edge S f y z) of
          None \<Rightarrow> False | Some BrLeft \<Rightarrow> Q y | Some BrRight \<Rightarrow> Q z))"

text \<open>What is found is an entry below the prefix \<open>p\<close>, and has \<open>Q\<close> if the extra \<open>x\<close> of the whole tree has it.\<close>

definition find_result :: "('a \<Rightarrow> bool list) \<Rightarrow> ('a \<Rightarrow> bool) \<Rightarrow> bool list \<Rightarrow> (bool list \<Rightarrow> dict_value option) \<Rightarrow> 'a
    \<Rightarrow> (cell_data_builder \<times> 'a \<times> cell_slice) option result \<Rightarrow> bool" where
  "find_result bits Q p m x res \<longleftrightarrow> (\<exists>r. res = Ok r
     \<and> (\<forall>kb e s. r = Some (kb, e, s) \<longrightarrow> (\<exists>k. kb = mk_bd (p @ k) \<and> m k = Some (bits e @ slice_bits s, slice_refs s)))
     \<and> (Q x \<longrightarrow> (\<exists>kb e s. r = Some (kb, e, s) \<and> Q e)))"

lemma find_result_branch:
  assumes "find_result bits Q (p @ lab @ [b]) (pt_lookup (if b then r else l)) y res" "Q x \<Longrightarrow> Q y"
  shows "find_result bits Q p (pt_lookup (PFork lab l r)) x res"
proof -
  obtain res' where r: "res = Ok res'"
    "\<And>kb e s. res' = Some (kb, e, s) \<Longrightarrow> \<exists>k. kb = mk_bd ((p @ lab @ [b]) @ k) \<and> pt_lookup (if b then r else l) k = Some (bits e @ slice_bits s, slice_refs s)"
    "Q y \<Longrightarrow> \<exists>kb e s. res' = Some (kb, e, s) \<and> Q e" using assms(1) by (auto simp: find_result_def)
  have "\<exists>k. kb = mk_bd (p @ k) \<and> pt_lookup (PFork lab l r) k = Some (bits e @ slice_bits s, slice_refs s)"
    if found: "res' = Some (kb, e, s)" for kb e s
  proof -
    from r(2) [OF found] obtain k where "kb = mk_bd ((p @ lab @ [b]) @ k)"
      "pt_lookup (if b then r else l) k = Some (bits e @ slice_bits s, slice_refs s)" by auto
    then show ?thesis by (intro exI [of _ "lab @ b # k"]) (simp only: pt_fork_lookup append_assoc append_Cons append_Nil simp_thms)
  qed
  then show ?thesis using r(1,3) assms(2) unfolding find_result_def by auto
qed

context augmentation begin

lemma preload_leaf:
  assumes "arep bits_of add D V n c (PLeaf lab vb vr) x" "n \<le> 1023"
  obtains p s where "preload_branch load c n = Ok (NextLeaf p x s)" "wf_slice p" "slice_bits p = lab"
    "vb = bits_of x @ slice_bits s" "slice_refs s = vr"
proof -
  note e = arep_edge [OF assms(1)]
  obtain p s where r: "slice_new c = Ok (slice_new_allow_exotic c)" "read_label (slice_new_allow_exotic c) n = Ok (p, s)"
    "wf_slice p" "slice_bits p = lab" "size_bits p = length lab"
    "wf_slice s" "slice_bits s = vb" "slice_refs s = cell_children c" "sl_cell s = c" "\<not> is_virtual c"
    by (rule read_edge_of [OF e(1,2) assms(2)]) simp
  obtain b where b: "vb = bits_of x @ b" using assms(1) by auto
  have n: "length lab = n" "cell_children c = vr" using assms(1) by (simp_all add: holds_def)
  have l: "loads load (bits_of x) [] x" using load_loads [OF all_valid, of x] by (simp add: no_refs)
  obtain s' where "load s = Ok (x, s')" "slice_bits s' = b" "slice_refs s' = vr"
    by (rule loadsE [OF l r(6), of b vr]) (use r b n in auto)
  then show thesis using r n b that [of p s'] by (simp add: preload_branch_def)
qed

lemma preload_fork:
  assumes "arep bits_of add D V n c (PFork lab l r) x" "n \<le> 1023"
  obtains p lc rc y z where "preload_branch load c n = Ok (NextEdge p (n - length lab - 1) x lc rc)" "wf_slice p" "slice_bits p = lab"
    "x = add y z" "arep bits_of add D V (n - length lab - 1) lc l y" "arep bits_of add D V (n - length lab - 1) rc r z"
proof -
  from assms(1) obtain lc rc y z where f: "length lab < n" "holds c (cell_bits c) [lc, rc]" "x = add y z"
    "parse_label n (cell_bits c) = Some (lab, bits_of x)"
    "arep bits_of add D V (n - length lab - 1) lc l y" "arep bits_of add D V (n - length lab - 1) rc r z" by auto
  obtain p s where r: "slice_new c = Ok (slice_new_allow_exotic c)" "read_label (slice_new_allow_exotic c) n = Ok (p, s)"
    "wf_slice p" "slice_bits p = lab" "size_bits p = length lab"
    "wf_slice s" "slice_bits s = bits_of x" "slice_refs s = [lc, rc]" "sl_cell s = c" "\<not> is_virtual c"
    by (rule read_edge_of [OF f(2,4) assms(2)])
  have l: "loads load (bits_of x) [] x" using load_loads [OF all_valid, of x] by (simp add: no_refs)
  have "loads (\<lambda>s. ok (load_reference s) (\<lambda>(left, s). ok (load_reference s) (\<lambda>(right, s). ok (load s) (\<lambda>(extra, s).
      Ok ((extra, left, right), s))))) (bits_of x) [lc, rc] (x, lc, rc)"
    using loads_fields3 [OF loads_reference [of lc] loads_reference [of rc] l, where h = "\<lambda>a b c. (c, a, b)"] by simp
  from loadsE [OF this r(6), of "[]" "[]"] r(7-10) obtain s' where
    "ok (load_reference s) (\<lambda>(left, s). ok (load_reference s) (\<lambda>(right, s). ok (load s) (\<lambda>(extra, s).
      Ok ((extra, left, right), s)))) = Ok ((x, lc, rc), s')" by auto
  then obtain s1 s2 where "load_reference s = Ok (lc, s1)" "load_reference s1 = Ok (rc, s2)" "load s2 = Ok (x, s')"
    by (auto simp: ok_eq_Ok_iff)
  moreover have "size_refs s = 2" using r(8) length_slice_refs [of s] by simp
  ultimately show thesis
    using that [of p lc rc y z] r(1-5) f by (simp add: preload_branch_def)
qed

lemma next_prefix_stored:
  assumes "wf_slice s" "length p + size_bits s \<le> 1023"
  shows "(if \<not> is_data_empty s then store_slice_data (mk_bd p) s else Ok (mk_bd p)) = Ok (mk_bd (p @ slice_bits s))"
  using assms by (auto simp: appended_def MAX_BIT_LEN_def is_data_empty_iff)

lemma find_by_extra_spec:
  assumes "searches add Q S"
  shows "arep bits_of add D V n c t x \<Longrightarrow> length p + n \<le> 1023 \<Longrightarrow>
    \<exists>nx. preload_branch load c n = Ok nx \<and> next_extra nx = x
      \<and> find_result bits_of Q p (pt_lookup t) x (find_by_extra_loop load S flow (mk_bd p) nx)"
proof (induction t arbitrary: n c x p flow)
  case (PLeaf lab vb vr)
  obtain pre s where r: "preload_branch load c n = Ok (NextLeaf pre x s)" "wf_slice pre" "slice_bits pre = lab"
    "vb = bits_of x @ slice_bits s" "slice_refs s = vr" by (rule preload_leaf [OF PLeaf.prems(1)]) (use PLeaf.prems(2) in simp)
  have "length lab = n" using PLeaf.prems(1) by simp
  then have "find_by_extra_loop load S flow (mk_bd p) (NextLeaf pre x s)
      = Ok (if fst (sb_on_leaf S flow x) then Some (mk_bd (p @ lab), x, s) else None)"
    using next_prefix_stored [OF r(2), of p] r(3) PLeaf.prems(2) length_slice_bits [of pre]
    by (subst find_by_extra_loop.simps, unfold search_next.sel) (simp split del: if_split)
  then show ?case using r(1,4,5) assms by (auto simp: find_result_def searches_def)
next
  case (PFork lab l r)
  let ?m = "n - length lab - 1"
  obtain pre lc rc y z where f: "preload_branch load c n = Ok (NextEdge pre ?m x lc rc)" "wf_slice pre" "slice_bits pre = lab"
    "x = add y z" "arep bits_of add D V ?m lc l y" "arep bits_of add D V ?m rc r z"
    by (rule preload_fork [OF PFork.prems(1)]) (use PFork.prems(2) in simp)
  have n: "length lab < n" using PFork.prems(1) by simp
  have pm: "length (p @ lab @ [b]) + ?m \<le> 1023" for b :: bool using n PFork.prems(2) by simp
  obtain nl where nl: "preload_branch load lc ?m = Ok nl" "next_extra nl = y" using PFork.IH(1) [OF f(5) pm] by blast
  obtain nr where nr: "preload_branch load rc ?m = Ok nr" "next_extra nr = z" using PFork.IH(2) [OF f(6) pm] by blast
  have ihl: "find_result bits_of Q (p @ lab @ [False]) (pt_lookup l) y (find_by_extra_loop load S fl (mk_bd (p @ lab @ [False])) nl)" for fl
    using PFork.IH(1) [OF f(5) pm, of False fl] nl(1) by auto
  have ihr: "find_result bits_of Q (p @ lab @ [True]) (pt_lookup r) z (find_by_extra_loop load S fl (mk_bd (p @ lab @ [True])) nr)" for fl
    using PFork.IH(2) [OF f(6) pm, of True fl] nr(1) by auto
  have "length (p @ lab) + 1 \<le> 1023" using n PFork.prems(2) by simp
  then have loop: "find_by_extra_loop load S flow (mk_bd p) (NextEdge pre ?m x lc rc)
      = (case sb_on_edge S flow y z of
          (None, _) \<Rightarrow> Ok None
        | (Some BrLeft, flow) \<Rightarrow> find_by_extra_loop load S flow (mk_bd (p @ lab @ [False])) nl
        | (Some BrRight, flow) \<Rightarrow> find_by_extra_loop load S flow (mk_bd (p @ lab @ [True])) nr)"
    using next_prefix_stored [OF f(2), of p] f(3) length_slice_bits [of pre] nl nr
    by (subst find_by_extra_loop.simps, unfold search_next.sel)
      (simp add: appended_def MAX_BIT_LEN_def split del: if_split split: option.split prod.split branch.split)
  obtain br fl where e: "sb_on_edge S flow y z = (br, fl)" by (cases "sb_on_edge S flow y z")
  have q: "case br of None \<Rightarrow> False | Some BrLeft \<Rightarrow> Q y | Some BrRight \<Rightarrow> Q z" if "Q x"
    using that assms e unfolding searches_def f(4) by (metis fst_conv)
  have "find_result bits_of Q p (pt_lookup (PFork lab l r)) x (find_by_extra_loop load S flow (mk_bd p) (NextEdge pre ?m x lc rc))"
  proof (cases br)
    case None
    then show ?thesis using q unfolding loop e by (auto simp: find_result_def)
  next
    case (Some b)
    show ?thesis
    proof (cases b)
      case BrLeft
      then show ?thesis using find_result_branch [of bits_of Q p lab False r l y _ x] ihl q Some unfolding loop e by simp
    next
      case BrRight
      then show ?thesis using find_result_branch [of bits_of Q p lab True r l z _ x] ihr q Some unfolding loop e by simp
    qed
  qed
  then show ?case using f(1) by (intro exI [of _ "NextEdge pre ?m x lc rc"] conjI) (assumption | rule search_next.sel)+
qed

lemma ad_find_stores:
  assumes "searches add Q S" "ad_stores bits_of add A D V n d m" "n \<le> 1023" "ax_load A = load"
  shows "if m = (\<lambda>_. None) then aug_dict_find_by_extra (ax_load A) S (td_root (ad_dict d)) n flow = Ok None
    else find_result bits_of Q [] m (ad_extra d) (aug_dict_find_by_extra (ax_load A) S (td_root (ad_dict d)) n flow)"
proof -
  from assms(2) obtain t where t: "opt_arep bits_of add (ax_default A) D V n (td_root (ad_dict d)) t (ad_extra d)" "opt_lookup t = m"
    by (auto simp: ad_stores_def)
  show ?thesis
  proof (cases t)
    case None
    then show ?thesis using t by (auto simp: aug_dict_find_by_extra_def)
  next
    case (Some u)
    then obtain c where c: "td_root (ad_dict d) = Some c" "arep bits_of add D V n c u (ad_extra d)" using t(1) by auto
    have "m \<noteq> (\<lambda>_. None)" using pt_has_key [of u] t(2) Some by auto
    moreover have "bd_new = mk_bd []" by (rule bd_new_mk)
    ultimately show ?thesis
      using find_by_extra_spec [OF assms(1) c(2), of "[]" flow] assms(3,4) t(2) Some
      by (auto simp: aug_dict_find_by_extra_def c(1))
  qed
qed

end

end
