(* ===== verification/Dict_Build_Properties.thy ===== *)
theory Dict_Build_Properties
  imports Dict_Search_Properties Dict_Build_Props Dict_Iter_Total Dict_Aug
begin

text \<open>The properties of splitting, merging and building dictionaries, and of augmented dictionaries.\<close>

section \<open>Splitting and merging\<close>

text \<open>
  C19. Splitting a dictionary whose keys all begin with a prefix gives the entries with either bit after the
  prefix, each as a dictionary with whole keys, and merging the two siblings gives back the same root cell.
  If a key does not begin with the prefix, the split fails with \<open>CellUnderflow\<close>.
\<close>

theorem dict_split_correct:
  assumes "stores (Some sha) D V n d m" "room D V n" "wf_slice p" "\<not> is_virtual (sl_cell p)" "size_bits p < n"
  shows "if \<forall>k. m k \<noteq> None \<longrightarrow> take (size_bits p) k = slice_bits p
    then \<exists>l r. dict_split_by_prefix sha d n p = Ok (l, r) \<and> dict_merge_siblings sha l r n = Ok d
      \<and> stores (Some sha) D V n l (m |` {k. \<exists>q. k = slice_bits p @ False # q})
      \<and> stores (Some sha) D V n r (m |` {k. \<exists>q. k = slice_bits p @ True # q})
    else dict_split_by_prefix sha d n p = Err CellUnderflow"
proof -
  have b: "below (slice_bits p) b = {k. \<exists>q. k = slice_bits p @ b # q}" for b using below_iff by auto
  have k: "(\<forall>k. m k \<noteq> None \<longrightarrow> take (size_bits p) k = slice_bits p) \<longleftrightarrow> (\<forall>k \<in> dom m. take (size_bits p) k = slice_bits p)" by auto
  show ?thesis
  proof (cases "\<forall>k \<in> dom m. take (size_bits p) k = slice_bits p")
    case True
    then show ?thesis using dict_split_merge [OF assms True] unfolding k b by simp
  next
    case False
    then show ?thesis using dict_split_stores [OF assms, of sha] unfolding k by (simp only: if_False simp_thms)
  qed
qed

lemma dict_split_correct_witness:
  "\<exists>l r. dict_split_by_prefix no_hash demo_dict 3 (bits_key []) = Ok (l, r) \<and> dict_merge_siblings no_hash l r 3 = Ok demo_dict"
proof -
  have "\<not> is_virtual (sl_cell (bits_key []))" using as_data_slice_spec(4) [of "mk_bd []"] by (simp add: bits_key_def)
  then show ?thesis using dict_split_correct [OF demo_dict_stores demo_room, of "bits_key []"] by (auto simp: bits_key_spec)
qed

text \<open>
  Merging siblings succeeds, with the entries of both, exactly if one side is empty or the keys of the
  left side go left and those of the right side go right after a common prefix; otherwise it fails with
  \<open>InvalidData\<close>.
\<close>

theorem dict_merge_siblings_correct:
  assumes "stores K D V n l m1" "stores K D V n r m2" "room D V n" "K = None \<or> K = Some sha"
  shows "if m1 = Map.empty \<or> m2 = Map.empty
      \<or> (\<exists>p. (\<forall>k. m1 k \<noteq> None \<longrightarrow> (\<exists>q. k = p @ False # q)) \<and> (\<forall>k. m2 k \<noteq> None \<longrightarrow> (\<exists>q. k = p @ True # q)))
    then \<exists>d. dict_merge_siblings sha l r n = Ok d \<and> stores K D V n d (m1 ++ m2)
    else dict_merge_siblings sha l r n = Err InvalidData"
proof -
  have "dom m \<subseteq> below p b \<longleftrightarrow> (\<forall>k. m k \<noteq> None \<longrightarrow> (\<exists>q. k = p @ b # q))" for m :: "bool list \<Rightarrow> dict_value option" and p b
    unfolding subset_iff below_iff by (simp add: domIff)
  then show ?thesis using dict_merge_siblings_stores [OF assms] by simp
qed

lemma dict_merge_siblings_correct_witness:
  "dict_merge_siblings no_hash demo_dict demo_dict 3 = Err InvalidData"
proof -
  have "demo_content [False, True, True] \<noteq> None" "demo_content [True, True, True] \<noteq> None" by (auto simp: demo_content_def demo_entries_def)
  moreover have "demo_content \<noteq> Map.empty" using calculation(1) fun_cong [of demo_content Map.empty "[False, True, True]"] by metis
  moreover have "\<not> (\<forall>k. demo_content k \<noteq> None \<longrightarrow> (\<exists>q. k = p @ False # q))
      \<or> \<not> (\<forall>k. demo_content k \<noteq> None \<longrightarrow> (\<exists>q. k = p @ True # q))" for p
  proof (cases p)
    case Nil
    then show ?thesis using calculation(1) by (metis append_Nil list.inject)
  next
    case (Cons x q)
    then show ?thesis using calculation(1,2) by (metis append_Cons list.inject)
  qed
  ultimately show ?thesis using dict_merge_siblings_correct [OF demo_dict_stores demo_dict_stores demo_room, of no_hash] by auto
qed

text \<open>
  C20. \<open>dict_merge\<close> ends and lets the right dictionary override the left one, but only if one of them is
  empty, or the root cells have the same number of data bits, or that number is the length of a key: a check
  that compares the lengths of the roots as if they were the lengths of the keys. Otherwise it refuses to
  merge with \<open>InvalidCell\<close> and leaves the left dictionary as it is.
\<close>

theorem dict_merge_correct:
  assumes "stores K D V n l m1" "stores K D V n r m2" "room D V n" "K = None \<or> K = Some sha"
  shows "if l = None \<or> r = None \<or> cell_bit_len (the l) = cell_bit_len (the r) \<or> cell_bit_len (the l) = n
    then \<exists>l'. dict_merge sha l r n = Some (l', Ok ()) \<and> stores K D V n l' (m1 ++ m2)
    else dict_merge sha l r n = Some (l, Err InvalidCell)"
  using dict_merge_stores [OF assms] by (cases l; cases r) auto

lemma dict_merge_correct_witness:
  "\<exists>l'. dict_merge no_hash demo_dict demo_dict 3 = Some (l', Ok ()) \<and> stores (Some no_hash) 0 64 3 l' (demo_content ++ demo_content)"
  using dict_merge_correct [OF demo_dict_stores demo_dict_stores demo_room, of no_hash] by simp

section \<open>Building from sorted entries\<close>

lemma key_int_unsigned: "key_int False k = bits_int k"
  by (simp add: key_int_def)

text \<open>
  C21. If the comparison of the keys is that of their bits as unsigned numbers, a dictionary is built from
  ascending entries, the first of equal keys counting, and it is the same cell as the one that insertions
  one by one give. Entries that are not in ascending order are refused with \<open>InvalidData\<close>.
\<close>

theorem build_from_sorted_correct:
  assumes "room D V n"
    and "\<forall>(k, v) \<in> set entries. store_key k bd_new = Ok (mk_bd (kb k)) \<and> length (kb k) = n \<and> value_ok D V v"
    and "\<forall>x y. cmp x y = (if key_int False (kb x) < key_int False (kb y) then OrdLess else if kb x = kb y then OrdEqual else OrdGreater)"
  shows "let built = build_dict_from_sorted_iter sha cmp store_key n (map (\<lambda>(k, v). (k, value_store v)) entries);
      contents = map (\<lambda>(k, v). (kb k, v)) entries
    in if sorted (map (\<lambda>(k, v). key_int False (kb k)) entries)
       then \<exists>d. built = Ok d \<and> stores (Some sha) D V n d (map_of contents) \<and> d = put_all sha n (rev contents) None
       else built = Err InvalidData"
proof -
  let ?c = "map (\<lambda>(k, v). (kb k, v)) entries"
  have c: "bitwise_cmp cmp kb (fst ` set entries)" using assms(3) by (simp add: bitwise_cmp_def key_int_unsigned)
  have e: "entries_ok D V n store_key kb value_store id entries"
    using assms(2) appends_value_store [OF _ room_V [OF assms(1)]] by (fastforce simp: entries_ok_def)
  have p: "stores (Some sha) D V n (put_all sha n (rev ?c) None) (map_of ?c)"
  proof -
    have "list_all (\<lambda>(k, v). length k = n \<and> value_ok D V v) (rev ?c)" using assms(2) by (fastforce simp: list_all_iff)
    then show ?thesis
      using put_all_stores [of "Some sha" D V n None "\<lambda>_. None" sha "rev ?c"] assms(1) by (simp add: stores_None)
  qed
  show ?thesis
  proof (cases "sorted (map (\<lambda>(k, v). bits_int (kb k)) entries)")
    case True
    then obtain d where d: "build_dict_from_sorted_iter sha cmp store_key n (map (\<lambda>(k, v). (k, value_store v)) entries) = Ok d"
      "stores (Some sha) D V n d (map_of ?c)"
      using build_dict_stores [OF assms(1) _ e c, where sha = sha and K = "Some sha"] by auto
    then show ?thesis using True stores_unique [OF d(2) p] by (simp add: key_int_unsigned Let_def)
  next
    case False
    then show ?thesis using build_dict_stores [OF assms(1) _ e c, where sha = sha and K = "Some sha"] by (simp add: key_int_unsigned Let_def)
  qed
qed

definition demo_cmp :: "bool \<Rightarrow> bool list \<Rightarrow> bool list \<Rightarrow> cmp_ordering" where
  "demo_cmp sg x y = (if key_int sg x < key_int sg y then OrdLess else if x = y then OrdEqual else OrdGreater)"

definition demo_store_key :: "bool list \<Rightarrow> cell_data_builder \<Rightarrow> cell_data_builder result" where
  "demo_store_key k b = Ok (mk_bd k)"

lemma build_from_sorted_correct_witness:
  "build_dict_from_sorted_iter no_hash (demo_cmp False) demo_store_key 3
      (map (\<lambda>(k, v). (k, value_store v)) (demo_entries @ [hd demo_entries])) = Err InvalidData"
proof -
  let ?es = "demo_entries @ [hd demo_entries]"
  have 1: "\<forall>(k, v) \<in> set ?es. demo_store_key k bd_new = Ok (mk_bd (id k)) \<and> length (id k) = 3 \<and> value_ok 0 64 v"
    using demo_value_ok by (auto simp: demo_store_key_def list_all_iff demo_entries_def)
  have 2: "\<forall>x y. demo_cmp False x y = (if key_int False (id x) < key_int False (id y) then OrdLess else if id x = id y then OrdEqual else OrdGreater)"
    by (simp add: demo_cmp_def)
  have 3: "\<not> sorted (map (\<lambda>(k, v). key_int False (id k)) ?es)"
    by (simp add: demo_entries_def key_int_def bits_int_def)
  from build_from_sorted_correct [where kb = id and entries = ?es and sha = no_hash and store_key = demo_store_key and cmp = "demo_cmp False" and n = 3 and D = 0 and V = 64, OF demo_room 1 2] show ?thesis unfolding Let_def if_not_P [OF 3] .
qed

text \<open>
  C22. With signed keys, whose comparison puts a key that begins with a one before a key that begins with a
  zero, the two entries change sides: each value is stored under the bits of its key with the first bit
  of the other.
\<close>

theorem build_signed_swaps:
  assumes "room D V (Suc (length a))" "length b = length a" "value_ok D V v" "value_ok D V w"
    and "store_key x bd_new = Ok (mk_bd (True # a))" "store_key y bd_new = Ok (mk_bd (False # b))" "cmp y x = OrdGreater"
  shows "\<exists>d. build_dict_from_sorted_iter sha cmp store_key (Suc (length a)) [(x, value_store v), (y, value_store w)] = Ok d
    \<and> stores (Some sha) D V (Suc (length a)) d [False # a \<mapsto> v, True # b \<mapsto> w]"
proof -
  define kb where "kb = (\<lambda>k. if k = x then True # a else False # b)"
  have "bd_bits (mk_bd (True # a)) = True # a" "bd_bits (mk_bd (False # b)) = False # b"
    using room_len(2) [OF assms(1)] assms(2) by simp_all
  then have "x \<noteq> y" using assms(5,6) by (metis Inr_inject list.inject)
  then have kb: "kb x = True # a" "kb y = False # b" by (simp_all add: kb_def)
  have e: "entries_ok D V (Suc (length a)) store_key kb value_store id [(x, v), (y, w)]"
    using assms(2-6) kb appends_value_store [OF _ room_V [OF assms(1)]] by (auto simp: entries_ok_def)
  show ?thesis using build_descending [where sha = sha and K = "Some sha" and ?k1.0 = x and ?k2.0 = y and kb = kb and st = value_store and ct = id and ?v1.0 = v and ?v2.0 = w and cmp = cmp and store_key = store_key and a = a and b = b and D = D and V = V, OF assms(1,2) _ assms(7) e kb] by simp
qed

lemma build_signed_swaps_witness:
  "\<exists>d. build_dict_from_sorted_iter no_hash (demo_cmp True) demo_store_key 3
      [([True, True, True], value_store ([True], [])), ([False, False, False], value_store ([], []))] = Ok d
    \<and> stores (Some no_hash) 0 64 3 d [[False, True, True] \<mapsto> ([True], []), [True, False, False] \<mapsto> ([], [])]"
proof -
  have "demo_cmp True [False, False, False] [True, True, True] = OrdGreater" by (simp add: demo_cmp_def key_int_def bits_int_def)
  then show ?thesis
    using build_signed_swaps [of 0 64 "[True, True]" "[False, False]" "([True], [])" "([], [])" demo_store_key "[True, True, True]" "[False, False, False]"
        "demo_cmp True" no_hash] demo_room
    by (simp add: demo_store_key_def value_ok_def numeral_3_eq_3)
qed

section \<open>Termination\<close>

text \<open>
  C23. Iterating over the entries ends on any well-formed tree of cells, whether it is a dictionary or not, in
  both directions, signed or not: every call of \<open>next\<close> returns, and after at most \<open>2 ^ (n + 1)\<close> items, errors
  included, the iterator is at its end.
\<close>

theorem raw_iter_terminates:
  assumes "\<forall>c. root = Some c \<longrightarrow> wf_cell c" "n \<le> 1023"
  shows "\<exists>items. drains raw_iter_next (raw_iter_new_ext root n rv sg) items \<and> length items \<le> 2 ^ (n + 1)"
  by (rule raw_iter_new_ext_drains [OF assms])

lemma raw_iter_terminates_witness:
  "\<exists>items. drains raw_iter_next (raw_iter_new_ext (Some EmptyOrdinaryCell) 3 True True) items \<and> length items \<le> 16"
  using raw_iter_terminates [of "Some EmptyOrdinaryCell" 3 True True] by simp

section \<open>Augmented dictionaries\<close>

text \<open>
  C13. The dictionary of old masterchain blocks (extra \<open>KeyMaxLt\<close>) is a map with a summary: lookup finds the entry of a key,
  insertion in any mode changes the map exactly when the mode allows it, removal gives back the entry and
  drops it, none of them fails, and the extra of the dictionary is always that of all entries together: whether
  one of them is a key block, and their greatest logical time.
\<close>

theorem aug_dict_correct:
  assumes "room D V n" "65 \<le> V" "old_blocks D V n d M" "store_key key bd_new = Ok (mk_bd k)" "length k = n"
    and "appends value (fst v) (snd v)" "value_ok D V (kl_value (e, v))"
  shows "ad_extra d = kl_total M
    \<and> (\<exists>res. dict_get (td_root (ad_dict d)) n (bits_key k) = Ok res \<and> map_option slice_value res = map_option kl_value (M k))
    \<and> (if allowed mode (M k)
       then \<exists>d'. ad_insert_impl sha KeyMaxLt_extra store_key n d key e value mode = (d', Ok True) \<and> old_blocks D V n d' (M(k \<mapsto> (e, v)))
       else ad_insert_impl sha KeyMaxLt_extra store_key n d key e value mode = (d, Ok False))
    \<and> (case M k of
         None \<Rightarrow> ad_remove_impl sha KeyMaxLt_extra store_key n d key = (d, Ok None)
       | Some p \<Rightarrow> \<exists>d' part. ad_remove_impl sha KeyMaxLt_extra store_key n d key = (d', Ok (Some part))
           \<and> part_value part = kl_value p \<and> old_blocks D V n d' (M(k := None)))"
  using old_blocks_extra [OF assms(3)] old_blocks_get [OF assms(3,5) room_len(2) [OF assms(1)]]
    old_blocks_insert [where store_key = store_key and key = key and mode = mode and sha = sha, OF assms]
    old_blocks_remove [where store_key = store_key and key = key and sha = sha, OF assms(1-5)] by blast

definition demo_u32_key :: "32 word \<Rightarrow> cell_data_builder \<Rightarrow> cell_data_builder result" where
  "demo_u32_key k b = store_u32 b k"

definition demo_none :: dict_value where
  "demo_none = ([], [])"

definition demo_extra :: key_max_lt where
  "demo_extra = \<lparr>kl_has_key_block = True, kl_max_end_lt = 7\<rparr>"

definition demo_blocks :: "key_max_lt aug_dict" where
  "demo_blocks = fst (ad_insert_impl no_hash KeyMaxLt_extra demo_u32_key 32 (ad_new KeyMaxLt_extra) 5 demo_extra (value_store demo_none) ModeSet)"

lemma demo_aug:
  "room 0 65 32" "demo_u32_key k bd_new = Ok (mk_bd (word_bits 32 k))" "appends (value_store demo_none) (fst demo_none) (snd demo_none)"
  "value_ok 0 65 (kl_value (e, demo_none))"
proof -
  show "room 0 65 32" using bits_for_len_small [of 32 6] by (simp add: room_def MAX_KEY_LEN_def)
  show "demo_u32_key k bd_new = Ok (mk_bd (word_bits 32 k))"
    by (simp add: demo_u32_key_def bd_new_mk appended_def MAX_BIT_LEN_def)
  show "appends (value_store demo_none) (fst demo_none) (snd demo_none)"
    by (rule appends_value_store [of 0 0]) (simp_all add: value_ok_def demo_none_def)
  show "value_ok 0 65 (kl_value (e, demo_none))" by (simp add: value_ok_def kl_value_def demo_none_def)
qed

lemma demo_blocks_content: "old_blocks 0 65 32 demo_blocks [word_bits 32 (5 :: 32 word) \<mapsto> (demo_extra, demo_none)]"
  using old_blocks_insert [where store_key = demo_u32_key and key = 5 and mode = ModeSet and sha = no_hash and e = demo_extra,
      OF demo_aug(1) _ old_blocks_new demo_aug(2) _ demo_aug(3,4)] by (auto simp: demo_blocks_def)

lemma aug_dict_correct_witness:
  "\<exists>d part. ad_remove_impl no_hash KeyMaxLt_extra demo_u32_key 32 demo_blocks 5 = (d, Ok (Some part))
    \<and> part_value part = (kl_bits demo_extra, []) \<and> old_blocks 0 65 32 d (\<lambda>_. None)"
proof -
  note r = aug_dict_correct [where store_key = demo_u32_key and key = 5 and mode = ModeSet and sha = no_hash and e = demo_extra,
      OF demo_aug(1) _ demo_blocks_content demo_aug(2) _ demo_aug(3,4)]
  have "[word_bits 32 (5 :: 32 word) \<mapsto> (demo_extra, demo_none)](word_bits 32 (5 :: 32 word) := None) = (\<lambda>_. None)" by auto
  then show ?thesis using r by (simp add: kl_value_def demo_none_def)
qed

text \<open>
  C14. A search by extra never fails on the dictionary of old masterchain blocks (extra \<open>KeyMaxLt\<close>), and what it
  returns, if anything, is an entry whose key and extra it reports. If from every extra with a property it goes on to
  a branch with the property and accepts a leaf with it, then it finds an entry with the property whenever all entries
  together have it.
\<close>

theorem aug_find_correct:
  assumes "old_blocks D V n d M" "n \<le> 1023" "searches kl_add Q S"
  shows "\<exists>r. aug_dict_find_by_extra kl_load_from S (td_root (ad_dict d)) n flow = Ok r
    \<and> (\<forall>kb e s. r = Some (kb, e, s) \<longrightarrow> (\<exists>k. kb = mk_bd k \<and> M k = Some (e, slice_value s)))
    \<and> (M \<noteq> (\<lambda>_. None) \<and> Q (kl_total M) \<longrightarrow> (\<exists>kb e s. r = Some (kb, e, s) \<and> Q e))"
proof (cases "M = (\<lambda>_. None)")
  case True
  then show ?thesis
    using key_max_lt_aug.ad_find_stores [OF assms(3) assms(1) [unfolded old_blocks_def] assms(2) KeyMaxLt_parts(2), of flow]
    by (simp add: KeyMaxLt_parts)
next
  case False
  then have "(\<lambda>k. map_option kl_value (M k)) \<noteq> (\<lambda>_. None)" by (auto simp: fun_eq_iff)
  then obtain r where r: "aug_dict_find_by_extra kl_load_from S (td_root (ad_dict d)) n flow = Ok r"
    "\<And>kb e s. r = Some (kb, e, s) \<Longrightarrow> \<exists>k. kb = mk_bd k \<and> map_option kl_value (M k) = Some (kl_bits e @ slice_bits s, slice_refs s)"
    "Q (ad_extra d) \<Longrightarrow> \<exists>kb e s. r = Some (kb, e, s) \<and> Q e"
    using key_max_lt_aug.ad_find_stores [OF assms(3) assms(1) [unfolded old_blocks_def] assms(2) KeyMaxLt_parts(2), of flow]
    by (auto simp: KeyMaxLt_parts find_result_def)
  have "M k = Some (e, slice_value s)" if "map_option kl_value (M k) = Some (kl_bits e @ slice_bits s, slice_refs s)" for k e s
    using that by (auto simp: kl_value_def kl_bits_inj slice_value_def)
  then show ?thesis using r old_blocks_extra [OF assms(1)] by metis
qed

text \<open>A search for a block that ends at time 7 or later.\<close>

definition demo_search :: "(key_max_lt, unit) search_by_extra" where
  "demo_search = \<lparr>sb_on_leaf = (\<lambda>f e. (7 \<le> kl_max_end_lt e, f)),
     sb_on_edge = (\<lambda>f x y. (Some (if 7 \<le> kl_max_end_lt x then BrLeft else BrRight), f))\<rparr>"

lemma aug_find_correct_witness:
  "\<exists>kb e s. aug_dict_find_by_extra kl_load_from demo_search (td_root (ad_dict demo_blocks)) 32 () = Ok (Some (kb, e, s))
    \<and> 7 \<le> kl_max_end_lt e"
proof -
  have s: "searches kl_add (\<lambda>e. 7 \<le> kl_max_end_lt e) demo_search"
    by (auto simp: searches_def demo_search_def kl_add_def max_def)
  have "7 \<le> kl_max_end_lt (kl_total [word_bits 32 (5 :: 32 word) \<mapsto> (demo_extra, demo_none)])"
    by (simp add: kl_total_def demo_extra_def)
  moreover have "[word_bits 32 (5 :: 32 word) \<mapsto> (demo_extra, demo_none)] \<noteq> (\<lambda>_. None)" by (simp add: fun_eq_iff)
  ultimately show ?thesis using aug_find_correct [OF demo_blocks_content _ s, of "()"] by auto
qed

end
