(* ===== verification/Boc_Ser.thy ===== *)
theory Boc_Ser
  imports Cell_Tree
begin

text \<open>
  \<^verbatim>\<open>src/boc/ser.rs\<close> and the tag of \<^verbatim>\<open>src/boc/mod.rs\<close>: the serializer of a bag of cells. The hash map
  from representation hashes to reversed indices is a partial map; \<open>crc\<close> stands for \<open>crc32c::crc32c\<close>.
  Cells are numbered in the order in which a depth-first search leaves them; a cell is written after
  every cell that refers to it, so indices in the file are \<open>cell_count - rev_index - 1\<close>.
\<close>

section \<open>The tag\<close>

datatype boc_tag = Indexed | IndexedCrc32 | Generic

definition tag_INDEXED :: "byte list" where "tag_INDEXED = [0x68, 0xff, 0x65, 0xf3]"

definition tag_INDEXED_CRC32 :: "byte list" where "tag_INDEXED_CRC32 = [0xac, 0xc3, 0xa7, 0x28]"

definition tag_GENERIC :: "byte list" where "tag_GENERIC = [0xb5, 0xee, 0x9c, 0x72]"

definition tag_from_bytes :: "byte list \<Rightarrow> boc_tag option" where
  "tag_from_bytes d =
    (if d = tag_GENERIC then Some Generic
     else if d = tag_INDEXED_CRC32 then Some IndexedCrc32
     else if d = tag_INDEXED then Some Indexed
     else None)"

fun tag_to_bytes :: "boc_tag \<Rightarrow> byte list" where
  "tag_to_bytes Indexed = tag_INDEXED"
| "tag_to_bytes IndexedCrc32 = tag_INDEXED_CRC32"
| "tag_to_bytes Generic = tag_GENERIC"

section \<open>The state of the serializer\<close>

definition u32_add :: "nat \<Rightarrow> nat \<Rightarrow> nat" where "u32_add a b = (a + b) mod 2 ^ 32"

definition u64_add :: "nat \<Rightarrow> nat \<Rightarrow> nat" where "u64_add a b = (a + b) mod 2 ^ 64"

record boc_ser =
  root_rev_indices :: "nat list"
  rev_indices :: "hash_bytes \<Rightarrow> nat option"
  rev_cells :: "cell list"
  total_data_size :: nat
  total_reference_count :: nat
  cell_count :: nat
  without_hashes :: bool
  include_crc :: bool

definition ser_new :: boc_ser where
  "ser_new = \<lparr>root_rev_indices = [], rev_indices = (\<lambda>_. None), rev_cells = [], total_data_size = 0,
    total_reference_count = 0, cell_count = 0, without_hashes = False, include_crc = False\<rparr>"

definition ser_clear :: "boc_ser \<Rightarrow> boc_ser" where
  "ser_clear s = s\<lparr>root_rev_indices := [], rev_indices := (\<lambda>_. None), rev_cells := [], total_data_size := 0,
    total_reference_count := 0, cell_count := 0\<rparr>"

definition with_crc :: "boc_ser \<Rightarrow> bool \<Rightarrow> boc_ser" where
  "with_crc s b = s\<lparr>include_crc := b\<rparr>"

definition set_without_hashes :: "boc_ser \<Rightarrow> bool \<Rightarrow> boc_ser" where
  "set_without_hashes s b = s\<lparr>without_hashes := b\<rparr>"

definition byte_len_full :: "cell_descriptor \<Rightarrow> bool \<Rightarrow> nat" where
  "byte_len_full d no_hashes =
    byte_len d + (if \<not> no_hashes \<and> store_hashes d then (level (cd_level_mask d) + 1) * (32 + 2) else 0)"

section \<open>Collecting the cells\<close>

text \<open>What both searches do when they leave a cell.\<close>

definition ser_visit :: "cell \<Rightarrow> boc_ser \<Rightarrow> boc_ser" where
  "ser_visit cell s =
    (let d = descriptor cell
     in s\<lparr>rev_indices := (rev_indices s)(repr_hash cell \<mapsto> cell_count s),
          rev_cells := rev_cells s @ [cell],
          total_data_size := u64_add (total_data_size s) (byte_len_full d (without_hashes s)),
          total_reference_count := u64_add (total_reference_count s) (reference_count d),
          cell_count := u32_add (cell_count s) 1\<rparr>)"

function fill_recursive :: "cell \<Rightarrow> boc_ser \<Rightarrow> boc_ser" where
  "fill_recursive cell s =
    ser_visit cell
      (fold (\<lambda>child s. if rev_indices s (repr_hash child) = None then fill_recursive child s else s)
        (iter_list (references cell)) s)"
  by pat_completeness auto
termination
  by (relation "measure (\<lambda>(cell, s). tree_size cell)")
     (use iter_list_size in \<open>fastforce simp: references_def\<close>)+

declare fill_recursive.simps [simp del]

text \<open>The search with an explicit stack of iterators, its top first.\<close>

function fill_deep_loop :: "refs_iter list \<Rightarrow> boc_ser \<Rightarrow> boc_ser" where
  "fill_deep_loop [] s = s"
| "fill_deep_loop (children # stack) s =
    (case ri_next children of
       (Some cell, children') \<Rightarrow>
         fill_deep_loop
           (if rev_indices s (repr_hash cell) = None then references cell # children' # stack
            else children' # stack) s
     | (None, children') \<Rightarrow> fill_deep_loop stack (ser_visit (ri_cell children') s))"
  by pat_completeness auto
termination
proof (relation "measure (\<lambda>(stack, s). sum_list (map frame_weight stack))", goal_cases)
  case (2 children stack s x children')
  then show ?case by (simp add: frame_weight_def)
next
  case (3 children stack s x children' cell)
  then have "frame_weight children = frame_weight children' + 2 * tree_size cell"
    by (intro frame_weight_next) simp
  then show ?case using frame_weight_references [of cell] by simp
qed simp

definition fill_deep :: "cell \<Rightarrow> boc_ser \<Rightarrow> boc_ser" where
  "fill_deep root s = fill_deep_loop [references root] s"

definition SAFE_DEPTH :: nat where "SAFE_DEPTH = 128"

definition ser_fill :: "cell \<Rightarrow> boc_ser \<Rightarrow> nat \<times> boc_ser" where
  "ser_fill root s =
    (case rev_indices s (repr_hash root) of
       Some index \<Rightarrow> (index, s)
     | None \<Rightarrow>
         let s = (if repr_depth root \<le> SAFE_DEPTH then fill_recursive root s else fill_deep root s)
         in (cell_count s - 1, s))"

definition add_root :: "cell \<Rightarrow> boc_ser \<Rightarrow> boc_ser" where
  "add_root root s =
    (let (root_rev_index, s) = ser_fill root s
     in s\<lparr>root_rev_indices := root_rev_indices s @ [root_rev_index]\<rparr>)"

definition with_root :: "cell \<Rightarrow> boc_ser" where
  "with_root root = add_root root ser_new"

section \<open>Writing\<close>

record boc_stats =
  st_offset_size :: nat
  st_ref_size :: nat
  st_total_cells_size :: nat
  st_total_size :: nat

definition number_of_bytes_to_fit :: "nat \<Rightarrow> nat" where
  "number_of_bytes_to_fit l = 8 - leading_zeros (of_nat l :: 64 word) div 8"

definition compute_stats :: "boc_ser \<Rightarrow> boc_stats" where
  "compute_stats s =
    (let root_count = length (root_rev_indices s);
         ref_size = number_of_bytes_to_fit (cell_count s);
         total_cells_size = u64_add (u64_add (total_data_size s) (cell_count s * 2))
           ((ref_size * total_reference_count s) mod 2 ^ 64);
         offset_size = number_of_bytes_to_fit total_cells_size;
         total_size = u64_add (4 + 2 + ref_size * (3 + root_count) + offset_size)
           (u64_add total_cells_size (of_bool (include_crc s) * 4))
     in \<lparr>st_offset_size = offset_size, st_ref_size = ref_size, st_total_cells_size = total_cells_size,
         st_total_size = total_size\<rparr>)"

text \<open>\<open>&x.to_be_bytes()[4 - size..]\<close>, and the same for eight bytes.\<close>

definition be_tail32 :: "nat \<Rightarrow> nat \<Rightarrow> byte list" where
  "be_tail32 n x = drop (4 - n) (to_be_bytes (of_nat x :: 32 word))"

definition be_tail64 :: "nat \<Rightarrow> nat \<Rightarrow> byte list" where
  "be_tail64 n x = drop (8 - n) (to_be_bytes (of_nat x :: 64 word))"

definition header_bytes :: "boc_ser \<Rightarrow> byte list" where
  "header_bytes s =
    (let stats = compute_stats s;
         root_count = length (root_rev_indices s);
         ref_size = st_ref_size stats;
         flags = of_nat ref_size OR (of_bool (include_crc s) * 0b01000000) :: byte
     in tag_GENERIC
        @ [flags, of_nat (st_offset_size stats)]
        @ be_tail32 ref_size (cell_count s)
        @ be_tail32 ref_size root_count
        @ drop (4 - ref_size) (replicate 4 0)
        @ be_tail64 (st_offset_size stats) (st_total_cells_size stats)
        @ concat (map (\<lambda>rev_index. be_tail32 ref_size (cell_count s - rev_index - 1)) (root_rev_indices s)))"

definition cell_bytes :: "boc_ser \<Rightarrow> nat \<Rightarrow> cell \<Rightarrow> byte list" where
  "cell_bytes s ref_size cell =
    (let descriptor_mask = NOT (of_bool (without_hashes s) * STORE_HASHES_MASK);
         d = (descriptor cell)\<lparr>d1 := d1 (descriptor cell) AND descriptor_mask\<rparr>
     in [d1 d, d2 d]
        @ (if store_hashes d then
             let level_mask = lm_iter_list (lm_into_iter (cd_level_mask d))
             in concat (map (cell_hash cell) level_mask)
                @ concat (map (\<lambda>level. u16_be (cell_depth cell level)) level_mask)
           else [])
        @ cell_data cell
        @ concat (map (\<lambda>child.
            case rev_indices s (repr_hash child) of
              Some rev_index \<Rightarrow> be_tail32 ref_size (cell_count s - rev_index - 1)
            | None \<Rightarrow> []) (iter_list (references cell))))"

definition encode_cells_chunk :: "boc_ser \<Rightarrow> cell list \<Rightarrow> nat \<Rightarrow> byte list" where
  "encode_cells_chunk s chunk ref_size = concat (map (cell_bytes s ref_size) (rev chunk))"

definition to_le_bytes32 :: "32 word \<Rightarrow> byte list" where
  "to_le_bytes32 w = rev (to_be_bytes w)"

definition encode_crc :: "(byte list \<Rightarrow> 32 word) \<Rightarrow> boc_ser \<Rightarrow> nat \<Rightarrow> byte list \<Rightarrow> byte list" where
  "encode_crc crc s target_len_before target =
    (if include_crc s then target @ to_le_bytes32 (crc (drop target_len_before target)) else target)"

definition boc_encode :: "(byte list \<Rightarrow> 32 word) \<Rightarrow> boc_ser \<Rightarrow> byte list \<Rightarrow> byte list" where
  "boc_encode crc s target =
    (let target_len_before = length target;
         target = target @ header_bytes s;
         target = target @ encode_cells_chunk s (rev_cells s) (st_ref_size (compute_stats s))
     in encode_crc crc s target_len_before target)"

text \<open>
  Writing in chunks: \<open>rchunks\<close> cuts from the end. The checksum is updated chunk by chunk with
  \<open>crc32c_append\<close>. The result is the sequence of buffers passed to \<open>write_all\<close>.
\<close>

function rchunks :: "nat \<Rightarrow> 'a list \<Rightarrow> 'a list list" where
  "rchunks n xs =
    (if xs = [] \<or> n = 0 then [] else drop (length xs - n) xs # rchunks n (take (length xs - n) xs))"
  by pat_completeness auto
termination
  by (relation "measure (\<lambda>(n, xs). length xs)") (auto simp: min_def not_le intro!: diff_less)

declare rchunks.simps [simp del]

definition CELLS_CHUNK_SIZE :: nat where "CELLS_CHUNK_SIZE = 1000"

fun reset_chunk :: "(32 word \<Rightarrow> byte list \<Rightarrow> 32 word) \<Rightarrow> 32 word option \<Rightarrow> byte list \<Rightarrow> 32 word option" where
  "reset_chunk crc_append None chunk = None"
| "reset_chunk crc_append (Some c) chunk = Some (crc_append c chunk)"

definition encode_to_writer :: "(32 word \<Rightarrow> byte list \<Rightarrow> 32 word) \<Rightarrow> boc_ser \<Rightarrow> byte list list" where
  "encode_to_writer crc_append s =
    (let crc = (if include_crc s then Some 0 else None);
         ref_size = st_ref_size (compute_stats s);
         chunk = header_bytes s;
         crc = reset_chunk crc_append crc chunk;
         (written, crc) = fold (\<lambda>cells (written, crc).
             let chunk = encode_cells_chunk s cells ref_size
             in (written @ [chunk], reset_chunk crc_append crc chunk))
           (rchunks CELLS_CHUNK_SIZE (rev_cells s)) ([chunk], crc)
     in case crc of None \<Rightarrow> written | Some crc \<Rightarrow> written @ [to_le_bytes32 crc])"

section \<open>\<open>Boc\<close>\<close>

definition Boc_encode :: "(byte list \<Rightarrow> 32 word) \<Rightarrow> cell \<Rightarrow> byte list" where
  "Boc_encode crc cell = boc_encode crc (with_root cell) []"

definition Boc_encode_pair :: "(byte list \<Rightarrow> 32 word) \<Rightarrow> cell \<times> cell \<Rightarrow> byte list" where
  "Boc_encode_pair crc cells = boc_encode crc (add_root (snd cells) (with_root (fst cells))) []"

end
