(* ===== verification/Boc_De.thy ===== *)
theory Boc_De
  imports Boc_Ser
begin

text \<open>
  \<^verbatim>\<open>src/boc/de.rs\<close> and the entry points \<open>Boc::decode_ext\<close> and \<open>Boc::decode_pair_ext\<close> of
  \<^verbatim>\<open>src/boc/mod.rs\<close>: the deserializer of a bag of cells. The reader is an offset into the input; the
  unchecked reads of the code are \<open>drop\<close> and \<open>take\<close> at the offset, and every one of them follows the
  check that makes it safe. Counts read from the header are at most four bytes long and sizes at
  most eight, so the \<open>u64\<close> sums of the code do not wrap and are written as sums.
\<close>

datatype boc_error =
    UnexpectedEof | UnknownBocTag | InvalidHeader | InvalidRefSize | InvalidOffsetSize
  | RootCellNotFound | UnexpectedMultipleRoots | TooManyRootCells | AbsentCellsNotSupported
  | TooFewRootCells | InvalidTotalSize | RootOutOfBounds | InvalidRef | UnnormalizedCell
  | InvalidRefOrder | BocInvalidCell | InvalidChecksum

record boc_options =
  min_roots :: "nat option"
  max_roots :: "nat option"

definition options_exact :: "nat \<Rightarrow> boc_options" where
  "options_exact n = \<lparr>min_roots = Some n, max_roots = Some n\<rparr>"

definition MAX_ROOTS :: nat where "MAX_ROOTS = 32"

record boc_header =
  bh_ref_size :: nat
  bh_cells :: "byte list list"
  bh_roots :: "nat list"

section \<open>Reading integers\<close>

text \<open>
  A big-endian integer of the next \<open>n\<close> bytes: one to four of them are zero-extended to a \<open>u32\<close>, one to
  eight to a \<open>u64\<close>.
\<close>

definition read_be_u32_fast :: "byte list \<Rightarrow> nat \<Rightarrow> nat" where
  "read_be_u32_fast data n = unat (from_be_bytes (take n data) :: 32 word)"

definition read_be_u64_fast :: "byte list \<Rightarrow> nat \<Rightarrow> nat" where
  "read_be_u64_fast data n =
    (if n \<le> 4 then read_be_u32_fast data n else unat (from_be_bytes (take n data) :: 64 word))"

definition from_le_bytes32 :: "byte list \<Rightarrow> 32 word" where
  "from_le_bytes32 bs = from_be_bytes (rev bs)"

definition br_require :: "byte list \<Rightarrow> nat \<Rightarrow> nat \<Rightarrow> bool" where
  "br_require data offset len \<longleftrightarrow> offset + len \<le> length data"

definition read_next_be_uint_fast :: "byte list \<Rightarrow> nat \<Rightarrow> nat \<Rightarrow> nat \<times> nat" where
  "read_next_be_uint_fast data offset n = (read_be_u32_fast (drop offset data) n, offset + n)"

definition read_next_be_uint_full :: "byte list \<Rightarrow> nat \<Rightarrow> nat \<Rightarrow> nat \<times> nat" where
  "read_next_be_uint_full data offset n = (read_be_u64_fast (drop offset data) n, offset + n)"

definition check_crc :: "(byte list \<Rightarrow> 32 word) \<Rightarrow> byte list \<Rightarrow> nat \<Rightarrow> bool" where
  "check_crc crc data offset \<longleftrightarrow> from_le_bytes32 (take 4 (drop offset data)) = crc (take offset data)"

section \<open>Raw cells\<close>

text \<open>The length of the raw cell at the start of \<open>bytes\<close>.\<close>

definition read_raw_cell_len :: "byte list \<Rightarrow> nat \<Rightarrow> boc_error + nat" where
  "read_raw_cell_len bytes ref_size =
    (if length bytes < 2 then Err UnexpectedEof
     else
       let d = cd_new (bytes ! 0) (bytes ! 1)
       in if is_absent d then Err AbsentCellsNotSupported
          else
            let data_len = byte_len d;
                ref_count = reference_count d
            in if ref_count > MAX_REF_COUNT then Err InvalidRef
               else
                 let lv = level (cd_level_mask d)
                 in if store_hashes d \<and> is_exotic d \<and> ref_count = 0 \<and> lv > 0 then Err UnnormalizedCell
                    else
                      let data_offset = (if store_hashes d then (32 + 2) * (lv + 1) else 0);
                          total_len = 2 + data_offset + data_len + ref_count * ref_size
                      in if length bytes < total_len then Err UnexpectedEof
                         else if data_len > 0 \<and> \<not> is_aligned d
                           \<and> bytes ! (2 + data_offset + data_len - 1) AND 0x7f = 0
                         then Err UnnormalizedCell
                         else Ok total_len)"

definition read_raw_cell :: "byte list \<Rightarrow> nat \<Rightarrow> boc_error + (byte list \<times> byte list)" where
  "read_raw_cell bytes ref_size =
    ok (read_raw_cell_len bytes ref_size) (\<lambda>total_len. Ok (take total_len bytes, drop total_len bytes))"

text \<open>The references of a raw cell, among the cells that were already built.\<close>

fun raw_references ::
  "nat \<Rightarrow> byte list \<Rightarrow> cell list \<Rightarrow> nat \<Rightarrow> nat \<Rightarrow> cell list \<Rightarrow> level_mask
   \<Rightarrow> boc_error + (cell list \<times> level_mask)" where
  "raw_references 0 data cells count ref_size refs children_mask = Ok (refs, children_mask)"
| "raw_references (Suc n) data cells count ref_size refs children_mask =
    (let child_index = read_be_u32_fast data ref_size
     in if child_index \<ge> count then Err InvalidRef
        else case nth_opt cells (count - child_index - 1) of
          None \<Rightarrow> Err InvalidRefOrder
        | Some child \<Rightarrow>
            raw_references n (drop ref_size data) cells count ref_size (refs @ [child])
              (children_mask OR cd_level_mask (descriptor child)))"

definition from_raw_cell :: "byte list \<Rightarrow> cell list \<Rightarrow> nat \<Rightarrow> nat \<Rightarrow> boc_error + cell_parts" where
  "from_raw_cell raw cells count ref_size =
    (let d = cd_new (raw ! 0) (raw ! 1);
         data_len = byte_len d;
         data_start = 2 + (if store_hashes d then (32 + 2) * (level (cd_level_mask d) + 1) else 0);
         data = take data_len (drop data_start raw);
         bit_len = (if is_aligned d then data_len * 8
                    else if data \<noteq> [] then data_len * 8 - trailing_zeros (last data) - 1
                    else 0)
     in ok (raw_references (reference_count d) (drop (data_start + data_len) raw) cells count ref_size [] 0)
          (\<lambda>(refs, children_mask).
        Ok \<lparr>cp_bit_len = bit_len, cp_descriptor = d, cp_children_mask = children_mask,
            cp_references = refs, cp_data = data\<rparr>))"

section \<open>The header\<close>

fun read_roots :: "nat \<Rightarrow> byte list \<Rightarrow> nat \<Rightarrow> nat \<Rightarrow> nat \<Rightarrow> nat list \<Rightarrow> boc_error + (nat list \<times> nat)" where
  "read_roots 0 data offset ref_size count roots = Ok (roots, offset)"
| "read_roots (Suc n) data offset ref_size count roots =
    (let (root_index, offset) = read_next_be_uint_fast data offset ref_size
     in if root_index \<ge> count then Err RootOutOfBounds
        else read_roots n data offset ref_size count (roots @ [root_index]))"

fun read_cells :: "nat \<Rightarrow> byte list \<Rightarrow> nat \<Rightarrow> nat \<Rightarrow> byte list list \<Rightarrow> boc_error + (byte list list \<times> nat)" where
  "read_cells 0 data offset ref_size cells = Ok (cells, offset)"
| "read_cells (Suc n) data offset ref_size cells =
    ok (read_raw_cell_len (drop offset data) ref_size) (\<lambda>total_len.
      read_cells n data (offset + total_len) ref_size (cells @ [take total_len (drop offset data)]))"

text \<open>The tag and the flags byte: has index, has checksum, has cache bits, reference size, many roots.\<close>

fun boc_flags :: "boc_tag \<Rightarrow> byte \<Rightarrow> bool \<times> bool \<times> bool \<times> nat \<times> bool" where
  "boc_flags Indexed flags = (True, False, False, unat flags, False)"
| "boc_flags IndexedCrc32 flags = (True, True, False, unat flags, False)"
| "boc_flags Generic flags =
    (flags AND 0b10000000 \<noteq> 0, flags AND 0b01000000 \<noteq> 0, flags AND 0b00100000 \<noteq> 0,
     unat (flags AND 0b00000111), True)"

definition boc_decode :: "(byte list \<Rightarrow> 32 word) \<Rightarrow> byte list \<Rightarrow> boc_options \<Rightarrow> boc_error + boc_header" where
  "boc_decode crc data options =
    (if \<not> br_require data 0 6 then Err UnexpectedEof
     else
       let flags = data ! 4; offset_size = unat (data ! 5)
       in case tag_from_bytes (take 4 data) of
            None \<Rightarrow> Err UnknownBocTag
          | Some tag \<Rightarrow>
       let (has_index, has_crc, has_cache_bits, ref_size, supports_multiple_roots) = boc_flags tag flags
       in if has_cache_bits \<and> \<not> has_index then Err InvalidHeader
          else if ref_size = 0 \<or> ref_size > 4 then Err InvalidRefSize
          else if offset_size = 0 \<or> offset_size > 8 then Err InvalidOffsetSize
          else if \<not> br_require data 6 (ref_size * 3 + offset_size) then Err InvalidHeader
          else
       let (count, offset) = read_next_be_uint_fast data 6 ref_size;
           (root_count, offset) = read_next_be_uint_fast data offset ref_size;
           (absent_count, offset) = read_next_be_uint_fast data offset ref_size
       in if root_count = 0 then Err RootCellNotFound
          else if \<not> supports_multiple_roots \<and> root_count > 1 then Err UnexpectedMultipleRoots
          else if root_count + absent_count > count then Err TooManyRootCells
          else if absent_count > 0 then Err AbsentCellsNotSupported
          else if (case min_roots options of Some m \<Rightarrow> root_count < m | None \<Rightarrow> False) then Err TooFewRootCells
          else if root_count > (case max_roots options of Some m \<Rightarrow> m | None \<Rightarrow> MAX_ROOTS) then Err TooManyRootCells
          else
       let (total_cells_size, offset) = read_next_be_uint_full data offset offset_size
       in if total_cells_size < count * (2 + ref_size) - root_count * ref_size then Err InvalidTotalSize
          else if total_cells_size > count * (2 + 4 * (2 + 32) + 128 + MAX_REF_COUNT * ref_size)
          then Err InvalidTotalSize
          else if \<not> br_require data offset (root_count * ref_size) then Err UnexpectedEof
          else
       ok (if supports_multiple_roots then read_roots root_count data offset ref_size count []
           else Ok ([0], offset)) (\<lambda>(roots, offset).
       let index_size = of_bool has_index * count * offset_size
       in if \<not> br_require data offset (index_size + total_cells_size + of_bool has_crc * 4)
          then Err UnexpectedEof
          else
       let offset = (if has_index then offset + count * offset_size else offset);
           cells_start_offset = offset
       in ok (read_cells count data offset ref_size []) (\<lambda>(cells, offset).
          if cells_start_offset + total_cells_size \<noteq> offset then Err InvalidTotalSize
          else if has_crc \<and> \<not> br_require data offset 4 then Err UnexpectedEof
          else if has_crc \<and> \<not> check_crc crc data offset then Err InvalidChecksum
          else Ok \<lparr>bh_ref_size = ref_size, bh_cells = cells, bh_roots = roots\<rparr>)))"

section \<open>Building the cells\<close>

fun finalize_cells ::
  "sha256 \<Rightarrow> byte list list \<Rightarrow> nat \<Rightarrow> nat \<Rightarrow> cell list \<Rightarrow> boc_error + cell list" where
  "finalize_cells sha [] count ref_size res = Ok res"
| "finalize_cells sha (raw # raws) count ref_size res =
    ok (from_raw_cell raw res count ref_size) (\<lambda>ctx.
    case finalize_cell sha ctx of
      Inr cell \<Rightarrow> finalize_cells sha raws count ref_size (res @ [cell])
    | Inl _ \<Rightarrow> Err BocInvalidCell)"

definition bh_finalize :: "sha256 \<Rightarrow> boc_header \<Rightarrow> boc_error + cell list" where
  "bh_finalize sha h = finalize_cells sha (rev (bh_cells h)) (length (bh_cells h)) (bh_ref_size h) []"

text \<open>For an index that is too large the subtraction wraps, and the access is out of bounds.\<close>

definition processed_get :: "cell list \<Rightarrow> nat \<Rightarrow> cell option" where
  "processed_get cells index = (if index < length cells then nth_opt cells (length cells - index - 1) else None)"

definition Boc_decode :: "(byte list \<Rightarrow> 32 word) \<Rightarrow> sha256 \<Rightarrow> byte list \<Rightarrow> boc_error + cell" where
  "Boc_decode crc sha data =
    ok (boc_decode crc data \<lparr>min_roots = Some 1, max_roots = Some 1\<rparr>) (\<lambda>header.
    case bh_roots header of
      root # _ \<Rightarrow> ok (bh_finalize sha header) (\<lambda>cells.
        case processed_get cells root of Some root \<Rightarrow> Ok root | None \<Rightarrow> Err RootCellNotFound)
    | [] \<Rightarrow> Err RootCellNotFound)"

definition Boc_decode_pair :: "(byte list \<Rightarrow> 32 word) \<Rightarrow> sha256 \<Rightarrow> byte list \<Rightarrow> boc_error + (cell \<times> cell)" where
  "Boc_decode_pair crc sha data =
    ok (boc_decode crc data \<lparr>min_roots = Some 2, max_roots = Some 2\<rparr>) (\<lambda>header.
    case bh_roots header of
      root1 # root2 # _ \<Rightarrow> ok (bh_finalize sha header) (\<lambda>cells.
        case (processed_get cells root1, processed_get cells root2) of
          (Some root1, Some root2) \<Rightarrow> Ok (root1, root2)
        | _ \<Rightarrow> Err RootCellNotFound)
    | _ \<Rightarrow> Err RootCellNotFound)"

end
