(* ===== verification/Boc_Bytes.thy ===== *)
theory Boc_Bytes
  imports Boc_De Cell_Slice_Cmp
begin

text \<open>
  The integers of a bag of cells: a number written in its \<open>n\<close> low bytes is read back from any input that
  starts with them, and \<open>number_of_bytes_to_fit\<close> is the least \<open>n\<close> for which this works.
\<close>

lemma bit_from_be_tail:
  fixes w :: "'a::len word"
  assumes "8 dvd LENGTH('a)" "n \<le> LENGTH('a) div 8"
  shows "bit (from_be_bytes (drop (LENGTH('a) div 8 - n) (to_be_bytes w)) :: 'b::len word) i
    \<longleftrightarrow> i < LENGTH('b) \<and> i < 8 * n \<and> bit w i"
proof -
  let ?d = "LENGTH('a) div 8 - n"
  have L: "8 * (LENGTH('a) div 8) = LENGTH('a)" using assms(1) by simp
  have l: "length (drop ?d (to_be_bytes w)) = n" using assms(2) by simp
  have "nbit (drop ?d (to_be_bytes w)) (8 * n - 1 - i) = bit w i" if "i < 8 * n"
  proof -
    have e: "8 * ?d + (8 * n - 1 - i) = LENGTH('a) - 1 - i" "8 * ?d + (8 * n - 1 - i) < LENGTH('a)"
      "LENGTH('a) - 1 - (LENGTH('a) - 1 - i) = i"
      using L assms(2) that by linarith+
    have "nbit (drop ?d (to_be_bytes w)) (8 * n - 1 - i) = nbit (to_be_bytes w) (8 * ?d + (8 * n - 1 - i))"
      by (rule nbit_drop) simp
    then show ?thesis unfolding nbit_to_be_bytes [OF assms(1) e(2)] unfolding e(1) e(3) .
  qed
  then show ?thesis unfolding bit_from_be_bytes l by auto
qed

lemma length_be_tail [simp]: "n \<le> 4 \<Longrightarrow> length (be_tail32 n x) = n" "n \<le> 8 \<Longrightarrow> length (be_tail64 n x) = n"
  by (simp_all add: be_tail32_def be_tail64_def)

lemma unat_eq_of_bits:
  assumes "x < 2 ^ k" "k \<le> LENGTH('a)" "\<And>i. bit (w :: 'a::len word) i \<longleftrightarrow> i < k \<and> bit x i"
  shows "unat w = x"
proof -
  have "bit (unat w) i = bit x i" for i
  proof -
    have "bit x i \<Longrightarrow> i < k"
      using assms(1) by (metis bit_take_bit_iff take_bit_nat_eq_self)
    then show ?thesis using assms(2,3) by (auto simp: bit_unsigned_iff dest: bit_imp_le_length)
  qed
  then show ?thesis by (rule bit_eqI)
qed

lemma be_tail_bits:
  "n \<le> 4 \<Longrightarrow> bit (from_be_bytes (be_tail32 n x) :: 'b::len word) i \<longleftrightarrow> i < LENGTH('b) \<and> i < 8 * n \<and> bit x i"
  "n \<le> 8 \<Longrightarrow> bit (from_be_bytes (be_tail64 n x) :: 'b::len word) i \<longleftrightarrow> i < LENGTH('b) \<and> i < 8 * n \<and> bit x i"
proof -
  have d: "8 dvd LENGTH(32)" "8 dvd LENGTH(64)" "LENGTH(32) div 8 = 4" "LENGTH(64) div 8 = 8" by simp_all
  show "bit (from_be_bytes (be_tail32 n x) :: 'b word) i \<longleftrightarrow> i < LENGTH('b) \<and> i < 8 * n \<and> bit x i" if "n \<le> 4"
  proof -
    have "i < 8 * n \<Longrightarrow> i < LENGTH(32)" using that by simp
    then show ?thesis
      using bit_from_be_tail [OF d(1), of n "of_nat x :: 32 word" i, where 'b = 'b] that
      unfolding d be_tail32_def bit_of_nat_iff possible_bit_word by blast
  qed
  show "bit (from_be_bytes (be_tail64 n x) :: 'b word) i \<longleftrightarrow> i < LENGTH('b) \<and> i < 8 * n \<and> bit x i" if "n \<le> 8"
  proof -
    have "i < 8 * n \<Longrightarrow> i < LENGTH(64)" using that by simp
    then show ?thesis
      using bit_from_be_tail [OF d(2), of n "of_nat x :: 64 word" i, where 'b = 'b] that
      unfolding d be_tail64_def bit_of_nat_iff possible_bit_word by blast
  qed
qed

lemma be_tail_value:
  assumes "x < 256 ^ n" "8 * n \<le> LENGTH('b)"
  shows "n \<le> 4 \<Longrightarrow> unat (from_be_bytes (be_tail32 n x) :: 'b::len word) = x"
    and "n \<le> 8 \<Longrightarrow> unat (from_be_bytes (be_tail64 n x) :: 'b::len word) = x"
proof -
  have x: "x < 2 ^ (8 * n)" using assms(1) by (simp add: power_mult)
  have i: "i < 8 * n \<Longrightarrow> i < LENGTH('b)" for i using assms(2) by simp
  show "unat (from_be_bytes (be_tail32 n x) :: 'b word) = x" if "n \<le> 4"
    by (rule unat_eq_of_bits [OF x assms(2)]) (use i be_tail_bits(1) [OF that] in blast)
  show "unat (from_be_bytes (be_tail64 n x) :: 'b word) = x" if "n \<le> 8"
    by (rule unat_eq_of_bits [OF x assms(2)]) (use i be_tail_bits(2) [OF that] in blast)
qed

lemma read_be_tail32: "x < 256 ^ n \<Longrightarrow> n \<le> 4 \<Longrightarrow> read_be_u32_fast (be_tail32 n x @ r) n = x"
  using be_tail_value(1) [of x n, where 'b = 32] by (simp add: read_be_u32_fast_def)

lemma read_be_tail64: "x < 256 ^ n \<Longrightarrow> n \<le> 8 \<Longrightarrow> read_be_u64_fast (be_tail64 n x @ r) n = x"
  using be_tail_value(2) [of x n, where 'b = 32] be_tail_value(2) [of x n, where 'b = 64]
  by (simp add: read_be_u64_fast_def read_be_u32_fast_def)

lemma number_of_bytes_to_fit:
  assumes "l < 2 ^ 64"
  shows "l < 256 ^ number_of_bytes_to_fit l" and "number_of_bytes_to_fit l \<le> 8"
    and "k \<le> 8 \<Longrightarrow> l < 256 ^ k \<Longrightarrow> number_of_bytes_to_fit l \<le> k"
    and "0 < l \<Longrightarrow> 0 < number_of_bytes_to_fit l"
proof -
  let ?x = "of_nat l :: 64 word"
  let ?n = "number_of_bytes_to_fit l"
  have u: "unat ?x = l" using assms by (simp add: unat_of_nat)
  have "64 - leading_zeros ?x \<le> 8 * ?n"
    using leading_zeros_props(1) [of ?x] by (simp add: number_of_bytes_to_fit_def)
  then have "(2::nat) ^ (64 - leading_zeros ?x) \<le> 2 ^ (8 * ?n)" by (intro power_increasing) auto
  moreover have "l < 2 ^ (64 - leading_zeros ?x)" using unat_less_leading_zeros [of ?x] u by simp
  ultimately have "l < 2 ^ (8 * ?n)" by linarith
  then show l: "l < 256 ^ ?n" by (simp add: power_mult)
  show "?n \<le> 8" by (simp add: number_of_bytes_to_fit_def)
  show "?n \<le> k" if "k \<le> 8" "l < 256 ^ k"
  proof -
    have "unat ?x < 2 ^ (8 * k)" using that(2) u by (simp add: power_mult)
    from leading_zeros_ge [OF this] that(1) show ?thesis by (simp add: number_of_bytes_to_fit_def)
  qed
  show "0 < ?n" if "0 < l" using l that by (cases ?n) auto
qed

lemma le_bytes_crc: "from_le_bytes32 (to_le_bytes32 w) = w" and length_le_bytes32 [simp]: "length (to_le_bytes32 w) = 4"
  by (simp_all add: from_le_bytes32_def to_le_bytes32_def from_to_be_bytes)

end
