(* ===== verification/Cell_Tree_Props.thy ===== *)
theory Cell_Tree_Props
  imports Cell_Tree Cell_Impl_Props
begin

text \<open>
  The cells of a tree: \<open>subcells c\<close> lists them, \<open>tree_set U\<close> says that \<open>U\<close> is closed under children and
  that the representation hash identifies its cells (which is what a collision-free hash gives).
\<close>

fun subcells :: "cell \<Rightarrow> cell list" where
  "subcells (OrdinaryCell n hs d rs ds) = OrdinaryCell n hs d rs ds # concat (map subcells rs)"
| "subcells c = [c]"

lemma subcells_self [simp]: "c \<in> set (subcells c)"
  by (cases c) auto

lemma subcells_children: "x \<in> set (subcells c) \<Longrightarrow> r \<in> set (cell_children x) \<Longrightarrow> r \<in> set (subcells c)"
  by (induction c) (auto, (meson subcells_self)+)

lemma wf_subcells: "wf_cell c \<Longrightarrow> x \<in> set (subcells c) \<Longrightarrow> wf_cell x"
  by (induction c) (auto simp: list_all_iff)

lemma iter_references: "wf_cell c \<Longrightarrow> iter_list (references c) = cell_children c"
  using iter_list_drop [of "cell_children c" c 0] wf_cell_children [of c]
  by (simp add: references_def nth_opt_def)

text \<open>A set of cells that is closed under children, in which the representation hash identifies a cell.\<close>

definition tree_set :: "cell set \<Rightarrow> bool" where
  "tree_set U \<longleftrightarrow> (\<forall>c \<in> U. wf_cell c \<and> set (cell_children c) \<subseteq> U) \<and> inj_on repr_hash U"

lemma tree_setD:
  assumes "tree_set U" "c \<in> U"
  shows "wf_cell c" "r \<in> set (cell_children c) \<Longrightarrow> r \<in> U" "d \<in> U \<Longrightarrow> repr_hash c = repr_hash d \<longleftrightarrow> c = d"
  using assms by (auto simp: tree_set_def inj_on_def)

lemma tree_set_subcells:
  "wf_cell c \<Longrightarrow> inj_on repr_hash (set (subcells c)) \<Longrightarrow> tree_set (set (subcells c))"
  by (auto simp: tree_set_def wf_subcells subcells_children)

lemma children_size: "wf_cell c \<Longrightarrow> r \<in> set (cell_children c) \<Longrightarrow> tree_size r < tree_size c"
  using iter_list_size [of r "references c"] by (simp add: iter_references) (simp add: references_def)

section \<open>The hashes of a cell\<close>

lemma hash_levels_width:
  assumes "\<forall>x. length (sha x) = 32"
  shows "hash_levels sha p pr off ls hs = Ok hs' \<Longrightarrow> \<forall>h \<in> set hs. length (fst h) = 32 \<Longrightarrow>
    \<forall>h \<in> set hs'. length (fst h) = 32"
proof (induction ls arbitrary: hs)
  case (Cons l ls)
  show ?case
  proof (cases "l \<noteq> 0 \<and> (pr \<or> \<not> contains (cd_level_mask (cp_descriptor p)) l)")
    case True
    then show ?thesis using Cons.IH Cons.prems by simp
  next
    case False
    then obtain n where "hash_levels sha p pr off ls (hs @ [(sha (hash_input p pr off l hs), n)]) = Ok hs'"
      using Cons.prems(1) unfolding hash_levels.simps if_not_P [OF False] by (auto simp: ok_eq_Ok_iff)
    from Cons.IH [OF this] Cons.prems(2) assms show ?thesis by simp
  qed
qed simp

lemma children_depth_less: "children_depth l cs n = Ok d \<Longrightarrow> n < 65536 \<Longrightarrow> d < 65536"
  by (induction l cs n rule: children_depth.induct) (auto simp: Let_def split: if_splits)

lemma hash_levels_depth:
  "hash_levels sha p pr off ls hs = Ok hs' \<Longrightarrow> \<forall>h \<in> set hs. snd h < 65536 \<Longrightarrow> \<forall>h \<in> set hs'. snd h < 65536"
proof (induction ls arbitrary: hs)
  case (Cons l ls)
  show ?case
  proof (cases "l \<noteq> 0 \<and> (pr \<or> \<not> contains (cd_level_mask (cp_descriptor p)) l)")
    case True
    then show ?thesis using Cons.IH Cons.prems by simp
  next
    case False
    then obtain n where n: "children_depth (l + off) (cp_references p) 0 = Ok n"
      and h: "hash_levels sha p pr off ls (hs @ [(sha (hash_input p pr off l hs), n)]) = Ok hs'"
      using Cons.prems(1) unfolding hash_levels.simps if_not_P [OF False] by (auto simp: ok_eq_Ok_iff)
    from Cons.IH [OF h] Cons.prems(2) children_depth_less [OF n] show ?thesis by simp
  qed
qed simp

lemma be16_less [simp]: "be16 bs < 65536"
  using unsigned_less [of "from_be_bytes (take 2 bs) :: 16 word"] by (simp add: be16_def)

text \<open>The hashes of a finalized cell have the width of the hash, its depths fit into two bytes.\<close>

lemma finalize_bounds:
  assumes "finalize_cell sha p = Ok c" "wf_parts p" "\<forall>x. length (sha x) = 32"
  shows "length (cell_hash c l) = 32" "cell_depth c l < 65536"
proof -
  let ?d = "cp_descriptor p"
  from assms(1) obtain hs where hs: "compute_hashes sha p = Ok hs" and c: "c = make_cell p hs"
    by (auto simp: finalize_cell_def elim!: ok_eq_OkE)
  have w: "wf_cell c" by (rule finalize_cell_wf [OF assms(2,1)])
  have "\<exists>pr off. hash_levels sha p pr off [0..<4] [] = Ok hs"
    using hs unfolding compute_hashes_def by (auto split: if_splits elim!: ok_eq_OkE) blast+
  then obtain pr off where "hash_levels sha p pr off [0..<4] [] = Ok hs" by blast
  then have h: "\<forall>h \<in> set hs. length (fst h) = 32 \<and> snd h < 65536"
    using hash_levels_width [OF assms(3)] hash_levels_depth by fastforce
  have "reference_count ?d = length (cp_references p)" using assms(2) by (simp add: wf_parts_def)
  from compute_hashes_Ok(4) [OF hs this]
  have n: "length hs = (if cell_type ?d = PrunedBranchType then 1 else level (cd_level_mask ?d) + 1)" .
  have le: "hash_index (cd_level_mask ?d) l \<le> level (cd_level_mask ?d)"
    by (rule hash_index_le_level) simp
  have i: "length (fst (hs ! i)) = 32 \<and> snd (hs ! i) < 65536" if "i < length hs" for i using h that by simp
  have "length (cell_hash c l) = 32 \<and> cell_depth c l < 65536"
  proof (cases "cell_type ?d = PrunedBranchType")
    case True
    let ?lv = "level (cd_level_mask ?d)" and ?hi = "hash_index (cd_level_mask ?d) l"
    have m: "c = PrunedBranch (fst (hs ! 0)) ?lv ?d (cp_data p)" using True by (simp add: c make_cell_def)
    then have "length (cp_data p) = 2 + 34 * ?lv" using w by (simp add: div_ceil8_def)
    moreover have "2 + ?hi * 32 + 32 \<le> 2 + 34 * ?lv" if "?hi \<noteq> ?lv" using that le by simp
    ultimately show ?thesis using i [of 0] n True by (auto simp: m cd_hash_index_def Let_def)
  next
    case False
    then show ?thesis
      using i [of 0] i [of "hash_index (cd_level_mask ?d) l"] n le
      by (auto simp: c make_cell_def cd_hash_index_def EMPTY_CELL_HASH_def split: celltype.split)
  qed
  then show "length (cell_hash c l) = 32" "cell_depth c l < 65536" by simp_all
qed

end
