(* ===== verification/Boc_Ser_Props.thy ===== *)
theory Boc_Ser_Props
  imports Boc_Ser Cell_Tree_Props
begin

text \<open>
  What the serializer collects. The iterative search is the recursive one; both visit the cells of a
  tree in an order in which every cell comes after its children, each hash once.
\<close>

section \<open>The two searches\<close>

definition fill_step :: "cell \<Rightarrow> boc_ser \<Rightarrow> boc_ser" where
  "fill_step child s = (if rev_indices s (repr_hash child) = None then fill_recursive child s else s)"

lemma fill_step_new: "rev_indices s (repr_hash c) = None \<Longrightarrow> fill_step c s = fill_recursive c s"
  and fill_step_seen: "rev_indices s (repr_hash c) \<noteq> None \<Longrightarrow> fill_step c s = s"
  by (simp_all only: fill_step_def simp_thms if_True if_False)

lemma fill_recursive_eq: "fill_recursive c s = ser_visit c (fold fill_step (iter_list (references c)) s)"
  unfolding fill_step_def [abs_def] by (rule fill_recursive.simps)

lemma fill_deep_loop_frame:
  "fill_deep_loop (it # stack) s = fill_deep_loop stack (ser_visit (ri_cell it) (fold fill_step (iter_list it) s))"
proof (induction "frame_weight it" arbitrary: it stack s rule: less_induct)
  case less
  obtain x it' where n: "ri_next it = (x, it')" by (cases "ri_next it")
  note cell = ri_next_cell [OF n]
  show ?case
  proof (cases x)
    case None
    then show ?thesis using n cell by (simp add: iter_list.simps [of it])
  next
    case (Some c)
    then have il: "iter_list it = c # iter_list it'" using n by (simp add: iter_list.simps [of it])
    have w: "frame_weight it = frame_weight it' + 2 * tree_size c"
      using n Some by (intro frame_weight_next) simp
    then have w1: "frame_weight (references c) < frame_weight it" and w2: "frame_weight it' < frame_weight it"
      using frame_weight_references [of c] by simp_all
    have c: "ri_cell (references c) = c" by (simp add: references_def)
    show ?thesis
    proof (cases "rev_indices s (repr_hash c) = None")
      case True
      then have "fill_deep_loop (it # stack) s = fill_deep_loop (references c # it' # stack) s"
        using n Some by simp
      also have "\<dots> = fill_deep_loop (it' # stack) (fill_recursive c s)"
        unfolding less.hyps [OF w1] c fill_recursive_eq ..
      also have "\<dots> = fill_deep_loop stack (ser_visit (ri_cell it') (fold fill_step (iter_list it') (fill_recursive c s)))"
        by (rule less.hyps [OF w2])
      finally show ?thesis by (simp add: il fill_step_new [OF True] cell del: fill_deep_loop.simps)
    next
      case False
      then have "fill_deep_loop (it # stack) s = fill_deep_loop (it' # stack) s" using n Some by auto
      also have "\<dots> = fill_deep_loop stack (ser_visit (ri_cell it') (fold fill_step (iter_list it') s))"
        by (rule less.hyps [OF w2])
      finally show ?thesis by (simp add: il fill_step_seen [OF False] cell del: fill_deep_loop.simps)
    qed
  qed
qed

lemma fill_deep_eq: "fill_deep c s = fill_recursive c s"
proof -
  have "ri_cell (references c) = c" by (simp add: references_def)
  then show ?thesis
    by (simp only: fill_deep_def fill_deep_loop_frame fill_recursive_eq fill_deep_loop.simps(1))
qed

section \<open>The order in which cells are collected\<close>

definition topo :: "cell list \<Rightarrow> bool" where
  "topo xs \<longleftrightarrow> (\<forall>i < length xs. \<forall>r \<in> set (cell_children (xs ! i)). r \<in> set (take i xs))"

lemma topo_Nil [simp]: "topo []"
  by (simp add: topo_def)

lemma topo_snoc: "topo xs \<Longrightarrow> set (cell_children c) \<subseteq> set xs \<Longrightarrow> topo (xs @ [c])"
  by (auto simp: topo_def nth_append less_Suc_eq)

definition collected :: "cell set \<Rightarrow> cell list \<Rightarrow> bool" where
  "collected U xs \<longleftrightarrow> set xs \<subseteq> U \<and> distinct xs \<and> topo xs"

definition tracks :: "cell list \<Rightarrow> boc_ser \<Rightarrow> bool" where
  "tracks xs s \<longleftrightarrow> rev_cells s = xs \<and> (\<forall>h. rev_indices s h = None \<longleftrightarrow> h \<notin> repr_hash ` set xs)"

lemma tracks_visit: "tracks xs s \<Longrightarrow> tracks (xs @ [c]) (ser_visit c s)"
  by (auto simp: tracks_def ser_visit_def Let_def)

lemma tracks_visits: "tracks xs s \<Longrightarrow> tracks (xs @ ys) (fold ser_visit ys s)"
proof (induction ys arbitrary: xs s)
  case (Cons y ys)
  from Cons.IH [OF tracks_visit [OF Cons.prems, of y]] show ?case by simp
qed simp

lemma tracks_seen:
  assumes "tracks xs s" "tree_set U" "set xs \<subseteq> U" "c \<in> U"
  shows "rev_indices s (repr_hash c) = None \<longleftrightarrow> c \<notin> set xs"
proof -
  have "repr_hash c \<in> repr_hash ` set xs \<longleftrightarrow> c \<in> set xs"
    using tree_setD(3) [OF assms(2,4)] assms(3) by auto
  then show ?thesis using assms(1) unfolding tracks_def by simp
qed

text \<open>
  The search from \<open>c\<close> appends the cells of its tree that were not collected yet, \<open>c\<close> last; the number of
  new cells is at most one more than the number of their references.
\<close>

definition edges :: "cell list \<Rightarrow> nat" where
  "edges xs = sum_list (map (\<lambda>c. length (cell_children c)) xs)"

lemma edges_append [simp]: "edges (xs @ ys) = edges xs + edges ys" and edges_Nil [simp]: "edges [] = 0"
  and edges_Cons [simp]: "edges (c # xs) = length (cell_children c) + edges xs"
  by (simp_all add: edges_def)

lemma fill_steps:
  assumes "tree_set U"
    and "\<And>r xs s. r \<in> set rs \<Longrightarrow> collected U xs \<Longrightarrow> tracks xs s \<Longrightarrow> r \<notin> set xs \<Longrightarrow>
      \<exists>ys. fill_recursive r s = fold ser_visit (ys @ [r]) s \<and> collected U (xs @ ys @ [r])
        \<and> (\<forall>y \<in> set ys. tree_size y < tree_size r) \<and> length ys \<le> edges (ys @ [r])"
  shows "collected U xs \<Longrightarrow> tracks xs s \<Longrightarrow> set rs \<subseteq> U \<Longrightarrow> \<forall>r \<in> set rs. tree_size r < m \<Longrightarrow>
    \<exists>ys. fold fill_step rs s = fold ser_visit ys s \<and> collected U (xs @ ys) \<and> set rs \<subseteq> set (xs @ ys)
      \<and> (\<forall>y \<in> set ys. tree_size y < m) \<and> length ys \<le> length rs + edges ys"
  using assms(2)
proof (induction rs arbitrary: xs s)
  case (Cons r rs)
  have r: "r \<in> U" "tree_size r < m" using Cons.prems by auto
  have seen: "rev_indices s (repr_hash r) = None \<longleftrightarrow> r \<notin> set xs"
    using tracks_seen [OF Cons.prems(2) assms(1) _ r(1)] Cons.prems(1) by (simp add: collected_def)
  show ?case
  proof (cases "r \<in> set xs")
    case True
    then have "fold fill_step (r # rs) s = fold fill_step rs s" using seen fill_step_seen by auto
    moreover have "\<exists>ys. fold fill_step rs s = fold ser_visit ys s \<and> collected U (xs @ ys) \<and> set rs \<subseteq> set (xs @ ys)
      \<and> (\<forall>y \<in> set ys. tree_size y < m) \<and> length ys \<le> length rs + edges ys"
      using Cons.prems by (intro Cons.IH) auto
    ultimately show ?thesis using True by (auto intro: le_SucI)
  next
    case False
    from Cons.prems(5) [OF _ Cons.prems(1,2) False] obtain zs where
      z: "fill_recursive r s = fold ser_visit (zs @ [r]) s" "collected U (xs @ zs @ [r])"
        "\<forall>y \<in> set zs. tree_size y < tree_size r" "length zs \<le> edges (zs @ [r])" by auto
    have "tracks (xs @ zs @ [r]) (fold ser_visit (zs @ [r]) s)" using tracks_visits [OF Cons.prems(2)] .
    then have "\<exists>ys. fold fill_step rs (fold ser_visit (zs @ [r]) s) = fold ser_visit ys (fold ser_visit (zs @ [r]) s)
        \<and> collected U ((xs @ zs @ [r]) @ ys) \<and> set rs \<subseteq> set ((xs @ zs @ [r]) @ ys)
        \<and> (\<forall>y \<in> set ys. tree_size y < m) \<and> length ys \<le> length rs + edges ys"
      using Cons.prems z(2) by (intro Cons.IH) auto
    then obtain ys where y: "fold fill_step rs (fold ser_visit (zs @ [r]) s) = fold ser_visit ys (fold ser_visit (zs @ [r]) s)"
      "collected U ((xs @ zs @ [r]) @ ys)" "set rs \<subseteq> set ((xs @ zs @ [r]) @ ys)"
      "\<forall>y \<in> set ys. tree_size y < m" "length ys \<le> length rs + edges ys" by blast
    show ?thesis
    proof (intro exI conjI)
      show "fold fill_step (r # rs) s = fold ser_visit ((zs @ [r]) @ ys) s"
        using seen False z(1) y(1) by (simp add: fill_step_def)
      show "collected U (xs @ (zs @ [r]) @ ys)" using y(2) by simp
      show "set (r # rs) \<subseteq> set (xs @ (zs @ [r]) @ ys)" using y(3) by auto
      show "\<forall>y \<in> set ((zs @ [r]) @ ys). tree_size y < m" using z(3) y(4) r(2) by auto
      show "length ((zs @ [r]) @ ys) \<le> length (r # rs) + edges ((zs @ [r]) @ ys)" using z(4) y(5) by simp
    qed
  qed
qed (auto intro: exI [of _ "[]"])

lemma fill_recursive_spec:
  assumes "tree_set U"
  shows "c \<in> U \<Longrightarrow> collected U xs \<Longrightarrow> tracks xs s \<Longrightarrow> c \<notin> set xs \<Longrightarrow>
    \<exists>ys. fill_recursive c s = fold ser_visit (ys @ [c]) s \<and> collected U (xs @ ys @ [c])
      \<and> (\<forall>y \<in> set ys. tree_size y < tree_size c) \<and> length ys \<le> edges (ys @ [c])"
proof (induction "tree_size c" arbitrary: c xs s rule: less_induct)
  case less
  note c = tree_setD [OF assms less.prems(1)]
  have "\<exists>ys. fold fill_step (cell_children c) s = fold ser_visit ys s \<and> collected U (xs @ ys)
      \<and> set (cell_children c) \<subseteq> set (xs @ ys)
      \<and> (\<forall>y \<in> set ys. tree_size y < tree_size c) \<and> length ys \<le> length (cell_children c) + edges ys"
    using less.hyps less.prems(2,3) c(2) children_size [OF c(1)] by (intro fill_steps [OF assms]) auto
  then obtain ys where y: "fold fill_step (cell_children c) s = fold ser_visit ys s" "collected U (xs @ ys)"
      "set (cell_children c) \<subseteq> set (xs @ ys)" "\<forall>y \<in> set ys. tree_size y < tree_size c"
      "length ys \<le> length (cell_children c) + edges ys" by blast
  have "c \<notin> set ys" using y(4) by blast
  then have "collected U (xs @ ys @ [c])"
    using y(2,3) less.prems(1,4) topo_snoc [of "xs @ ys" c] by (auto simp: collected_def)
  then show ?case
    using y by (intro exI [of _ ys]) (simp add: fill_recursive_eq iter_references [OF c(1)])
qed

section \<open>The state after a search\<close>

definition base :: "bool \<Rightarrow> bool \<Rightarrow> cell list \<Rightarrow> boc_ser" where
  "base wh ic xs = fold ser_visit xs (ser_new\<lparr>without_hashes := wh, include_crc := ic\<rparr>)"

lemma base_snoc: "base wh ic (xs @ [c]) = ser_visit c (base wh ic xs)"
  by (simp add: base_def)

definition data_size :: "bool \<Rightarrow> cell list \<Rightarrow> nat" where
  "data_size wh xs = sum_list (map (\<lambda>c. byte_len_full (descriptor c) wh) xs)"

lemma base_flags [simp]:
  "without_hashes (base wh ic xs) = wh" "include_crc (base wh ic xs) = ic"
  "rev_cells (base wh ic xs) = xs" "root_rev_indices (base wh ic xs) = []"
  by (induction xs rule: rev_induct) (simp_all add: base_snoc, simp_all add: base_def ser_visit_def ser_new_def Let_def)

lemma tracks_base: "tracks xs (base wh ic xs)"
proof -
  have "tracks [] (base wh ic [])" by (simp add: tracks_def base_def ser_new_def)
  from tracks_visits [OF this, of xs] show ?thesis by (simp add: base_def)
qed

lemma byte_len_le: "byte_len d \<le> 128"
  using unat_byte_less [of "d2 d"] unfolding byte_len_nat by linarith

lemma u64_add_mod: "u64_add (a mod 18446744073709551616) b = (a + b) mod 18446744073709551616"
  by (simp add: u64_add_def mod_add_left_eq)

lemma base_counts:
  "length xs < 2 ^ 32 \<Longrightarrow> cell_count (base wh ic xs) = length xs"
  "total_data_size (base wh ic xs) = data_size wh xs mod 2 ^ 64"
  "list_all wf_cell xs \<Longrightarrow> total_reference_count (base wh ic xs) = edges xs mod 2 ^ 64"
proof (induction xs rule: rev_induct)
  case (snoc c xs)
  {
    case 1
    then show ?case using snoc.IH(1) by (simp add: base_snoc ser_visit_def Let_def u32_add_def)
  next
    case 2
    show ?case using snoc.IH(2) by (simp add: base_snoc ser_visit_def Let_def u64_add_mod data_size_def add.commute)
  next
    case 3
    then have "reference_count (descriptor c) = length (cell_children c)"
      using wf_cell_children(2) [of c] by (simp add: cell_reference_count_def)
    then show ?case using snoc.IH(3) 3 by (simp add: base_snoc ser_visit_def Let_def u64_add_mod)
  }
qed (simp_all add: base_def ser_new_def data_size_def)

lemma base_index:
  "length xs < 2 ^ 32 \<Longrightarrow> distinct (map repr_hash xs) \<Longrightarrow> i < length xs \<Longrightarrow>
    rev_indices (base wh ic xs) (repr_hash (xs ! i)) = Some i"
proof (induction xs arbitrary: i rule: rev_induct)
  case (snoc c xs)
  show ?case
  proof (cases "i < length xs")
    case True
    then have "repr_hash (xs ! i) \<in> repr_hash ` set xs" by simp
    then have "repr_hash (xs ! i) \<noteq> repr_hash c" using snoc.prems(2) by auto
    then show ?thesis
      using snoc.IH [of i] snoc.prems True by (simp add: base_snoc ser_visit_def Let_def nth_append)
  next
    case False
    then have "i = length xs" using snoc.prems(3) by simp
    then show ?thesis
      using snoc.prems(1) base_counts(1) [of xs] by (simp add: base_snoc ser_visit_def Let_def)
  qed
qed simp

lemma collected_hashes: "tree_set U \<Longrightarrow> collected U xs \<Longrightarrow> distinct (map repr_hash xs)"
  by (auto simp: collected_def distinct_map tree_set_def inj_on_subset)

section \<open>Adding roots\<close>

definition ser_state :: "cell set \<Rightarrow> bool \<Rightarrow> bool \<Rightarrow> cell list \<Rightarrow> cell list \<Rightarrow> boc_ser \<Rightarrow> bool" where
  "ser_state U wh ic roots xs s \<longleftrightarrow> collected U xs \<and> set roots \<subseteq> set xs \<and> length xs \<le> length roots + edges xs
     \<and> (\<exists>ris. s = (base wh ic xs)\<lparr>root_rev_indices := ris\<rparr>
          \<and> (length xs < 2 ^ 32 \<longrightarrow> length ris = length roots
              \<and> (\<forall>i < length roots. ris ! i < length xs \<and> xs ! (ris ! i) = roots ! i)))"

lemma visit_roots: "ser_visit c (s\<lparr>root_rev_indices := r\<rparr>) = (ser_visit c s)\<lparr>root_rev_indices := r\<rparr>"
  by (simp add: ser_visit_def Let_def)

lemma visits_roots: "fold ser_visit xs (s\<lparr>root_rev_indices := r\<rparr>) = (fold ser_visit xs s)\<lparr>root_rev_indices := r\<rparr>"
  by (induction xs arbitrary: s) (simp_all add: visit_roots)

lemma add_root_state:
  assumes "tree_set U" "c \<in> U" "ser_state U wh ic roots xs s"
  obtains ys where "ser_state U wh ic (roots @ [c]) (xs @ ys) (add_root c s)"
proof -
  from assms(3) obtain ris where s: "collected U xs" "set roots \<subseteq> set xs" "length xs \<le> length roots + edges xs"
      "s = (base wh ic xs)\<lparr>root_rev_indices := ris\<rparr>"
      "length xs < 2 ^ 32 \<Longrightarrow> length ris = length roots
        \<and> (\<forall>i < length roots. ris ! i < length xs \<and> xs ! (ris ! i) = roots ! i)"
    by (auto simp: ser_state_def)
  have t: "tracks xs s" using tracks_base [of xs wh ic] by (simp add: s(4) tracks_def)
  show thesis
  proof (cases "c \<in> set xs")
    case True
    then have "rev_indices s (repr_hash c) \<noteq> None"
      using tracks_seen [OF t assms(1) _ assms(2)] s(1) by (auto simp: collected_def)
    then obtain j where j: "rev_indices s (repr_hash c) = Some j" by auto
    have "j < length xs \<and> xs ! j = c" if "length xs < 2 ^ 32"
    proof -
      obtain i where i: "i < length xs" "xs ! i = c" using True by (auto simp: in_set_conv_nth)
      then show ?thesis
        using base_index [OF that collected_hashes [OF assms(1) s(1)] i(1), of wh ic] j by (simp add: s(4))
    qed
    have "add_root c s = s\<lparr>root_rev_indices := root_rev_indices s @ [j]\<rparr>"
      by (simp add: add_root_def ser_fill_def j)
    then have "add_root c s = (base wh ic xs)\<lparr>root_rev_indices := ris @ [j]\<rparr>" by (simp add: s(4))
    with \<open>length xs < 2 ^ 32 \<Longrightarrow> j < length xs \<and> xs ! j = c\<close>
    have "ser_state U wh ic (roots @ [c]) (xs @ []) (add_root c s)"
      using True s unfolding ser_state_def
      by (intro conjI exI [of _ "ris @ [j]"]) (auto simp: less_Suc_eq nth_append)
    then show thesis by (rule that)
  next
    case False
    then have n: "rev_indices s (repr_hash c) = None"
      using tracks_seen [OF t assms(1) _ assms(2)] s(1) by (auto simp: collected_def)
    from fill_recursive_spec [OF assms(1,2) s(1) t False] obtain ys where
      y: "fill_recursive c s = fold ser_visit (ys @ [c]) s" "collected U (xs @ ys @ [c])"
        "length ys \<le> edges (ys @ [c])" by blast
    have b: "fold ser_visit (ys @ [c]) s = (base wh ic (xs @ ys @ [c]))\<lparr>root_rev_indices := ris\<rparr>"
      unfolding s(4) visits_roots by (simp add: base_def)
    have "add_root c s = (base wh ic (xs @ ys @ [c]))
        \<lparr>root_rev_indices := ris @ [cell_count (base wh ic (xs @ ys @ [c])) - 1]\<rparr>"
      by (simp add: add_root_def ser_fill_def n fill_deep_eq y(1) b [simplified] Let_def)
    moreover have "cell_count (base wh ic (xs @ ys @ [c])) - 1 = length (xs @ ys)" if "length (xs @ ys @ [c]) < 2 ^ 32"
      using base_counts(1) [OF that, of wh ic] by simp
    ultimately have "ser_state U wh ic (roots @ [c]) (xs @ ys @ [c]) (add_root c s)"
      using s y unfolding ser_state_def
      by (intro conjI exI [of _ "ris @ [cell_count (base wh ic (xs @ ys @ [c])) - 1]"])
        (auto simp: less_Suc_eq nth_append intro: trans_less_add1)
    then show thesis by (rule that)
  qed
qed

end
