(* ===== verification/Boc_Cells.thy ===== *)
theory Boc_Cells
  imports Boc_Bytes Boc_Ser_Props Cell_Builder_Build
begin

text \<open>
  One cell in a bag of cells. \<open>storable sha c\<close>: finalizing the parts that \<open>c\<close> shows (descriptor, data,
  children) gives \<open>c\<close> again, and its data end with the completion tag. Cells made by a builder are
  storable, and a storable cell is read back from the bytes that the serializer writes for it.
\<close>

section \<open>The completion tag\<close>

lemma trailing_zeros_eqI:
  fixes x :: "'a::len word"
  assumes "bit x k" "\<And>i. i < k \<Longrightarrow> \<not> bit x i"
  shows "trailing_zeros x = k"
proof -
  have k: "k < LENGTH('a)" using bit_imp_le_length [OF assms(1)] .
  have "\<not> k < trailing_zeros x" using trailing_zeros_props(2) [of k x] assms(1) by blast
  moreover have "\<not> trailing_zeros x < k"
    using trailing_zeros_props(3) [of x] assms(2) [of "trailing_zeros x"] k by auto
  ultimately show ?thesis by simp
qed

definition tag_ok :: "byte list \<Rightarrow> nat \<Rightarrow> bool" where
  "tag_ok ds n \<longleftrightarrow> (n mod 8 \<noteq> 0 \<longrightarrow> ds \<noteq> [] \<and> trailing_zeros (last ds) = 7 - n mod 8)"

lemma tag_byte: "(x :: byte) AND 0x7f \<noteq> 0 \<longleftrightarrow> trailing_zeros x < 7"
proof -
  have b: "bit (0x7f :: byte) i \<longleftrightarrow> i < 7" for i
  proof -
    have "(0x7f :: byte) = mask 7" by (simp add: mask_eq_exp_minus_1)
    then show ?thesis unfolding \<open>0x7f = mask 7\<close> bit_mask_iff by auto
  qed
  show ?thesis
  proof
    assume "x AND 0x7f \<noteq> 0"
    then obtain i where i: "bit x i" "i < 7" using b by (auto simp: bit_eq_iff bit_and_iff)
    then show "trailing_zeros x < 7" using trailing_zeros_props(2) [of i x] by (meson leI le_less_trans not_less)
  next
    assume t: "trailing_zeros x < 7"
    then have "bit x (trailing_zeros x)" using trailing_zeros_props(3) [of x] by simp
    then have "bit (x AND 0x7f) (trailing_zeros x)" unfolding bit_and_iff b using t by blast
    then show "x AND 0x7f \<noteq> 0" by auto
  qed
qed

lemma tag_ok_tagged: "tag_ok (tagged bs) (length bs)"
proof (cases "length bs mod 8 = 0")
  case False
  obtain q j where n: "length bs = 8 * q + j" "j < 8" "length bs mod 8 = j" by (rule split_index8)
  have d: "div_ceil8 (length bs) = q + 1" using n False by (simp add: div_ceil8_def)
  have t: "tagged bs = pack_bits (bs @ [True])" using False by (simp add: tagged_def)
  have dt: "div_ceil8 (length (bs @ [True])) = q + 1" using div_ceil8_tag [of "length bs"] False d by simp
  have l: "length (tagged bs) = q + 1" using d by simp
  then have ne: "tagged bs \<noteq> []" by (metis add_is_0 length_0_conv zero_neq_one)
  then have last: "last (tagged bs) = tagged bs ! q" using l by (simp add: last_conv_nth)
  have b: "bit (last (tagged bs)) (7 - k) \<longleftrightarrow> k = j \<or> k < j \<and> bs ! (8 * q + k)" if "k < 8" for k
  proof -
    have "bit (last (tagged bs)) (7 - k) = nbit (tagged bs) (8 * q + k)"
      unfolding last using nbit_block [OF that] by simp
    also have "\<dots> \<longleftrightarrow> 8 * q + k < length (bs @ [True]) \<and> (bs @ [True]) ! (8 * q + k)"
      unfolding t using that dt by (intro nbit_pack_bits) simp
    finally show ?thesis using n(1) by (auto simp: nth_append)
  qed
  have "trailing_zeros (last (tagged bs)) = 7 - j"
  proof (rule trailing_zeros_eqI)
    show "bit (last (tagged bs)) (7 - j)" using b [OF n(2)] by simp
    fix i assume "i < 7 - j"
    then have "7 - i < 8" "7 - (7 - i) = i" "j < 7 - i" by auto
    then show "\<not> bit (last (tagged bs)) i" using b [of "7 - i"] by simp
  qed
  then show ?thesis using ne n(3) by (simp add: tag_ok_def)
qed (simp add: tag_ok_def)

section \<open>Storable cells\<close>

definition parts_of :: "cell \<Rightarrow> cell_parts" where
  "parts_of c = \<lparr>cp_bit_len = cell_bit_len c, cp_descriptor = descriptor c,
    cp_children_mask = compute_level_mask (cell_children c), cp_references = cell_children c, cp_data = cell_data c\<rparr>"

definition pruned_with_hashes :: "cell_descriptor \<Rightarrow> bool" where
  "pruned_with_hashes d \<longleftrightarrow> store_hashes d \<and> is_exotic d \<and> reference_count d = 0 \<and> level (cd_level_mask d) > 0"

definition storable :: "sha256 \<Rightarrow> cell \<Rightarrow> bool" where
  "storable sha c \<longleftrightarrow> wf_cell c \<and> finalize_cell sha (parts_of c) = Ok c \<and> tag_ok (cell_data c) (cell_bit_len c)
     \<and> \<not> pruned_with_hashes (descriptor c)"

definition storable_tree :: "sha256 \<Rightarrow> cell \<Rightarrow> bool" where
  "storable_tree sha c \<longleftrightarrow> list_all (storable sha) (subcells c)"

lemma storable_tree_wf: "storable_tree sha c \<Longrightarrow> wf_cell c"
  using subcells_self [of c] by (auto simp: storable_tree_def list_all_iff storable_def simp del: subcells_self)

lemma storable_finalized:
  assumes "wf_parts p" "finalize_cell sha p = Ok c" "cp_children_mask p = compute_level_mask (cp_references p)"
    and "tag_ok (cp_data p) (cp_bit_len p)" "\<not> pruned_with_hashes (cp_descriptor p)"
  shows "storable sha c" and "parts_of c = p"
proof -
  note w = finalize_cell_wf [OF assms(1,2)]
  show p: "parts_of c = p" using w assms(3) by (simp add: parts_of_def)
  show "storable sha c" using w assms p by (simp add: storable_def)
qed

lemma subcells_cases: "set (subcells c) = insert c (\<Union>r \<in> set (cell_children c). set (subcells r))"
  by (cases c) auto

lemma storable_tree_finalized:
  assumes "wf_parts p" "finalize_cell sha p = Ok c" "cp_children_mask p = compute_level_mask (cp_references p)"
    and "tag_ok (cp_data p) (cp_bit_len p)" "\<not> pruned_with_hashes (cp_descriptor p)"
    and "list_all (storable_tree sha) (cp_references p)"
  shows "storable_tree sha c"
  using storable_finalized(1) [OF assms(1-5)] assms(6) finalize_cell_wf(5) [OF assms(1,2)]
  by (auto simp: storable_tree_def list_all_iff subcells_cases [of c])

text \<open>What a builder builds is storable.\<close>

lemma build_ext_storable:
  assumes "length bs \<le> 1023" "length rs \<le> 4" "list_all (storable_tree sha) rs"
    and "build_ext sha (mk_cb bs rs) = Ok c"
  shows "storable_tree sha c"
proof -
  have w: "list_all wf_cell rs" using assms(3) storable_tree_wf by (auto simp: list_all_iff)
  note p = wf_build_parts [OF assms(1,2) w]
  let ?d = "cd_new (compute_d1 (compute_level_mask rs) False (length rs)) (compute_d2 (length bs))"
  have "\<not> is_exotic ?d"
    by simp
  then show ?thesis
    using storable_tree_finalized [OF p, of sha c] assms tag_ok_tagged [of bs]
    by (simp add: build_parts_mk build_ext_def pruned_with_hashes_def)
qed

section \<open>The bytes of a cell\<close>

lemma storable_hash_length:
  assumes "storable sha c" "\<forall>x. length (sha x) = 32"
    and "\<not> (is_exotic (descriptor c) \<and> reference_count (descriptor c) = 0 \<and> level (cd_level_mask (descriptor c)) > 0)"
  shows "length (cell_hash c l) = 32"
proof -
  let ?p = "parts_of c" and ?d = "descriptor c"
  from assms(1) obtain hs where hs: "compute_hashes sha ?p = Ok hs" and c: "make_cell ?p hs = c"
    by (auto simp: storable_def finalize_cell_def elim!: ok_eq_OkE)
  have p: "cp_descriptor ?p = ?d" "cp_references ?p = cell_children c" by (simp_all add: parts_of_def)
  have w: "wf_cell c" using assms(1) by (simp add: storable_def)
  have "\<exists>pr off. hash_levels sha ?p pr off [0..<4] [] = Ok hs"
    using hs unfolding compute_hashes_def by (auto split: if_splits elim!: ok_eq_OkE) blast+
  then obtain pr off where "hash_levels sha ?p pr off [0..<4] [] = Ok hs" by blast
  then have hl: "\<forall>h \<in> set hs. length (fst h) = 32" by (rule hash_levels_width [OF assms(2)]) simp
  have "reference_count ?d = length (cell_children c)"
    using wf_cell_children(2) [OF w] by (simp add: cell_reference_count_def)
  with compute_hashes_Ok(4) [OF hs] have n: "length hs = (if cell_type ?d = PrunedBranchType then 1 else level (cd_level_mask ?d) + 1)"
    unfolding p by simp
  then have h0: "length (fst (hs ! 0)) = 32" using hl by (simp split: if_splits)
  have i: "length (fst (hs ! cd_hash_index ?d l)) = 32" if "cell_type ?d \<noteq> PrunedBranchType"
    using hl n that hash_index_le_level [OF level_mask_less [of ?d], of l]
    by (auto simp: cd_hash_index_def)
  have "cell_type ?d \<noteq> PrunedBranchType"
    using assms(3) level_pos [of ?d] by (auto simp: cell_type_eq split: if_splits)
  then have "cell_hash (make_cell ?p hs) l = fst (hs ! 0) \<or> cell_hash (make_cell ?p hs) l = fst (hs ! cd_hash_index ?d l)
      \<or> cell_hash (make_cell ?p hs) l = EMPTY_CELL_HASH"
    by (auto simp: make_cell_def p split: celltype.splits)
  then show ?thesis using h0 i \<open>cell_type ?d \<noteq> PrunedBranchType\<close> unfolding c
    by (auto simp: EMPTY_CELL_HASH_def)
qed

definition stored_hashes_len :: "cell_descriptor \<Rightarrow> nat" where
  "stored_hashes_len d = (if store_hashes d then (32 + 2) * (level (cd_level_mask d) + 1) else 0)"

lemma length_levels: "length (lm_iter_list (lm_into_iter (cd_level_mask d))) = level (cd_level_mask d) + 1"
proof -
  have "filter (contains (cd_level_mask d)) [0..<4] = filter (\<lambda>l. l = 0 \<or> contains (cd_level_mask d) l) [0..<4]"
    by (intro filter_cong) (auto simp: contains_def)
  then show ?thesis
    using stored_levels(1) [OF level_mask_less [of d]] by (simp add: lm_iter_list_eq)
qed

lemma length_u16_be [simp]: "length (u16_be n) = 2"
  by (simp add: u16_be_def)

lemma length_concat_const: "(\<And>x. x \<in> set xs \<Longrightarrow> length (f x) = n) \<Longrightarrow> length (concat (map f xs)) = n * length xs"
  by (induction xs) auto

text \<open>The references of a cell are written as indices; \<open>idx\<close> gives the index of each child.\<close>

definition indexed :: "boc_ser \<Rightarrow> (cell \<Rightarrow> nat) \<Rightarrow> cell \<Rightarrow> bool" where
  "indexed s idx c \<longleftrightarrow> (\<forall>r \<in> set (cell_children c). \<exists>j. rev_indices s (repr_hash r) = Some j \<and> cell_count s - j - 1 = idx r)"

lemma cell_bytes_layout:
  assumes "storable sha c" "\<forall>x. length (sha x) = 32" "without_hashes s \<Longrightarrow> \<not> store_hashes (descriptor c)"
    and "indexed s idx c"
  obtains hs where "cell_bytes s n c = [d1 (descriptor c), d2 (descriptor c)] @ hs @ cell_data c
      @ concat (map (\<lambda>r. be_tail32 n (idx r)) (cell_children c))"
    "length hs = stored_hashes_len (descriptor c)"
proof -
  let ?d = "descriptor c"
  let ?lm = "lm_iter_list (lm_into_iter (cd_level_mask ?d))"
  let ?hs = "if store_hashes ?d then concat (map (cell_hash c) ?lm) @ concat (map (\<lambda>l. u16_be (cell_depth c l)) ?lm) else []"
  have w: "wf_cell c" and np: "\<not> pruned_with_hashes ?d" using assms(1) by (simp_all add: storable_def)
  have "d1 ?d AND NOT (of_bool (without_hashes s) * STORE_HASHES_MASK) = d1 ?d"
  proof (cases "without_hashes s")
    case True
    then have z: "d1 ?d AND STORE_HASHES_MASK = 0" using assms(3) by (simp add: store_hashes_def)
    have "d1 ?d = (d1 ?d AND STORE_HASHES_MASK) OR (d1 ?d AND NOT STORE_HASHES_MASK)"
      by (rule bit_word_eqI) (auto simp: bit_simps)
    then show ?thesis using True unfolding z by simp
  qed simp
  then have d: "?d\<lparr>d1 := d1 ?d AND NOT (of_bool (without_hashes s) * STORE_HASHES_MASK)\<rparr> = ?d" by simp
  have refs: "concat (map (\<lambda>child. case rev_indices s (repr_hash child) of
        Some rev_index \<Rightarrow> be_tail32 n (cell_count s - rev_index - 1) | None \<Rightarrow> []) (iter_list (references c)))
      = concat (map (\<lambda>r. be_tail32 n (idx r)) (cell_children c))"
    unfolding iter_references [OF w] using assms(4)
    by (intro arg_cong [of _ _ concat] map_cong) (auto simp: indexed_def)
  have "length ?hs = stored_hashes_len ?d"
  proof (cases "store_hashes ?d")
    case True
    then have "length (cell_hash c l) = 32" for l
      using np by (intro storable_hash_length [OF assms(1,2)]) (auto simp: pruned_with_hashes_def)
    then have "length (concat (map (cell_hash c) ?lm)) = 32 * length ?lm"
      "length (concat (map (\<lambda>l. u16_be (cell_depth c l)) ?lm)) = 2 * length ?lm"
      by (intro length_concat_const; simp)+
    then show ?thesis using True by (simp add: stored_hashes_len_def length_levels)
  qed (simp add: stored_hashes_len_def)
  moreover have "cell_bytes s n c = [d1 ?d, d2 ?d] @ ?hs @ cell_data c
      @ concat (map (\<lambda>r. be_tail32 n (idx r)) (cell_children c))"
    unfolding cell_bytes_def Let_def d refs by simp
  ultimately show thesis by (rule that [rotated])
qed

section \<open>Reading a cell back\<close>

lemma wf_cell_d2: "wf_cell c \<Longrightarrow> d2 (descriptor c) = compute_d2 (cell_bit_len c)"
  by (cases c) (auto simp: cd_new_def compute_d2_def)

lemma wf_cell_bytes:
  assumes "wf_cell c"
  shows "byte_len (descriptor c) = length (cell_data c)"
    and "is_aligned (descriptor c) \<longleftrightarrow> cell_bit_len c mod 8 = 0"
    and "reference_count (descriptor c) = length (cell_children c)"
    and "length (cell_children c) \<le> 4"
    and "cd_new (d1 (descriptor c)) (d2 (descriptor c)) = descriptor c"
proof -
  note w = wf_cell_shape [OF assms] and d = wf_cell_d2 [OF assms]
  show "byte_len (descriptor c) = length (cell_data c)"
    using byte_len_d2 [OF d] w(1,2) by (simp add: MAX_BIT_LEN_def)
  show "is_aligned (descriptor c) \<longleftrightarrow> cell_bit_len c mod 8 = 0"
    using is_aligned_compute_d2 [of "d1 (descriptor c)" "cell_bit_len c"] d
    by (cases "descriptor c") (simp add: mod_eq_0_iff_dvd)
  show "reference_count (descriptor c) = length (cell_children c)"
    using wf_cell_children(2) [OF assms] by (simp add: cell_reference_count_def)
  then show "length (cell_children c) \<le> 4"
    using w(3) by (simp add: cell_reference_count_def MAX_REF_COUNT_def)
  show "cd_new (d1 (descriptor c)) (d2 (descriptor c)) = descriptor c"
    by (simp add: cd_new_def)
qed

lemma not_absent: "reference_count d \<le> 4 \<Longrightarrow> \<not> is_absent d"
proof
  assume r: "reference_count d \<le> 4" and "is_absent d"
  then have a: "d1 d AND NOT LEVEL_MASK = ABSENT_MASK" by (simp add: is_absent_def)
  have "d1 d AND REF_COUNT_MASK = (d1 d AND NOT LEVEL_MASK) AND REF_COUNT_MASK"
  proof (rule bit_word_eqI)
    fix i :: nat assume "i < LENGTH(8)"
    then have i: "i < 8" by simp
    show "bit (d1 d AND REF_COUNT_MASK) i = bit ((d1 d AND NOT LEVEL_MASK) AND REF_COUNT_MASK) i"
      using less8_cases [OF i] by (auto simp: bit_simps cd_masks)
  qed
  also have "\<dots> = 7" unfolding a by (simp add: cd_masks)
  finally show False using r by (simp add: reference_count_def)
qed

text \<open>The length of a raw cell.\<close>

lemma read_raw_cell_len_bytes:
  assumes "storable sha c" "length hs = stored_hashes_len (descriptor c)"
    and "length rs = length (cell_children c) * n"
  shows "read_raw_cell_len (([d1 (descriptor c), d2 (descriptor c)] @ hs @ cell_data c @ rs) @ r) n
    = Ok (length ([d1 (descriptor c), d2 (descriptor c)] @ hs @ cell_data c @ rs))"
proof -
  let ?d = "descriptor c" and ?b = "([d1 (descriptor c), d2 (descriptor c)] @ hs @ cell_data c @ rs) @ r"
  have w: "wf_cell c" and t: "tag_ok (cell_data c) (cell_bit_len c)" and np: "\<not> pruned_with_hashes ?d"
    using assms(1) by (simp_all add: storable_def)
  note b = wf_cell_bytes [OF w]
  have last: "?b ! (2 + stored_hashes_len ?d + length (cell_data c) - 1) = last (cell_data c)"
    if "0 < length (cell_data c)"
    using that assms(2) by (cases "cell_data c" rule: rev_cases) (auto simp: nth_append)
  have tag: "0 < length (cell_data c) \<and> \<not> is_aligned ?d \<Longrightarrow> last (cell_data c) AND 0x7f \<noteq> 0"
    unfolding tag_byte using t b(2) by (simp add: tag_ok_def)
  have l: "length ?b \<ge> 2 + stored_hashes_len ?d + length (cell_data c) + length (cell_children c) * n"
    using assms(2,3) by simp
  have c1: "\<not> length ?b < 2" by simp
  have d: "cd_new (?b ! 0) (?b ! 1) = ?d" using b(5) by simp
  have c2: "\<not> is_absent ?d" using not_absent b(3,4) by simp
  have c3: "\<not> reference_count ?d > MAX_REF_COUNT" using b(3,4) by (simp add: MAX_REF_COUNT_def)
  have c4: "\<not> (store_hashes ?d \<and> is_exotic ?d \<and> reference_count ?d = 0 \<and> level (cd_level_mask ?d) > 0)"
    using np by (simp add: pruned_with_hashes_def)
  have "2 + stored_hashes_len ?d + length (cell_data c) + length (cell_children c) * n
      = length ([d1 ?d, d2 ?d] @ hs @ cell_data c @ rs)" using assms(2,3) by simp
  then show ?thesis
    unfolding read_raw_cell_len_def Let_def d if_not_P [OF c1] if_not_P [OF c2] if_not_P [OF c3] if_not_P [OF c4]
      stored_hashes_len_def [symmetric]
    unfolding b(1) b(3)
    using l last tag by (auto simp del: append_assoc)
qed

text \<open>Its references, when the cells they point to were built.\<close>

lemma raw_references_bytes:
  assumes "\<And>r. r \<in> set cs \<Longrightarrow> idx r < 256 ^ n \<and> idx r < count \<and> nth_opt cells (count - idx r - 1) = Some r"
    and "n \<le> 4"
  shows "raw_references (length cs) (concat (map (\<lambda>r. be_tail32 n (idx r)) cs) @ rest) cells count n acc m
    = Ok (acc @ cs, foldl (\<lambda>m c. m OR cell_level_mask c) m cs)"
  using assms(1)
proof (induction cs arbitrary: acc m)
  case (Cons r cs)
  have r: "idx r < 256 ^ n" "idx r < count" "nth_opt cells (count - idx r - 1) = Some r" using Cons.prems by auto
  have "raw_references (length (r # cs)) (concat (map (\<lambda>r. be_tail32 n (idx r)) (r # cs)) @ rest) cells count n acc m
      = raw_references (length cs) (concat (map (\<lambda>r. be_tail32 n (idx r)) cs) @ rest) cells count n (acc @ [r])
          (m OR cell_level_mask r)"
    using r read_be_tail32 [OF r(1) assms(2)] assms(2) by (simp add: cell_level_mask_def)
  also have "\<dots> = Ok ((acc @ [r]) @ cs, foldl (\<lambda>m c. m OR cell_level_mask c) (m OR cell_level_mask r) cs)"
    using Cons.prems by (intro Cons.IH) auto
  finally show ?case by simp
qed simp

lemma from_raw_cell_bytes:
  assumes "storable sha c" "length hs = stored_hashes_len (descriptor c)" "n \<le> 4"
    and "\<And>r. r \<in> set (cell_children c) \<Longrightarrow>
      idx r < 256 ^ n \<and> idx r < count \<and> nth_opt cells (count - idx r - 1) = Some r"
  shows "from_raw_cell ([d1 (descriptor c), d2 (descriptor c)] @ hs @ cell_data c
      @ concat (map (\<lambda>r. be_tail32 n (idx r)) (cell_children c))) cells count n = Ok (parts_of c)"
proof -
  let ?d = "descriptor c" and ?n = "cell_bit_len c"
  let ?rs = "concat (map (\<lambda>r. be_tail32 n (idx r)) (cell_children c))"
  let ?b = "[d1 ?d, d2 ?d] @ hs @ cell_data c @ ?rs"
  have w: "wf_cell c" and t: "tag_ok (cell_data c) ?n" using assms(1) by (simp_all add: storable_def)
  note b = wf_cell_bytes [OF w] and l = wf_cell_shape(2) [OF w]
  have d: "cd_new (?b ! 0) (?b ! 1) = ?d" using b(5) by simp
  have data: "take (length (cell_data c)) (drop (2 + stored_hashes_len ?d) ?b) = cell_data c"
    "drop (2 + stored_hashes_len ?d + length (cell_data c)) ?b = ?rs"
    using assms(2) by simp_all
  have bits: "(if is_aligned ?d then length (cell_data c) * 8
      else if cell_data c \<noteq> [] then length (cell_data c) * 8 - trailing_zeros (last (cell_data c)) - 1 else 0) = ?n"
  proof (rule split_index8 [of ?n])
    fix q j assume n: "?n = 8 * q + j" "j < 8" "?n div 8 = q" "?n mod 8 = j"
    show ?thesis
    proof (cases "j = 0")
      case True
      then show ?thesis using b(2) l n by (simp add: div_ceil8_def)
    next
      case False
      then have "length (cell_data c) = q + 1" using l n by (simp add: div_ceil8_def)
      then show ?thesis using False t b(2) n by (auto simp: tag_ok_def)
    qed
  qed
  have "raw_references (length (cell_children c)) ?rs cells count n [] 0
      = Ok (cell_children c, compute_level_mask (cell_children c))"
    using raw_references_bytes [OF assms(4) assms(3), of "cell_children c" "[]" "[]" 0]
    by (simp add: compute_level_mask_def)
  then show ?thesis
    unfolding from_raw_cell_def Let_def d stored_hashes_len_def [symmetric] b(1) b(3) data bits
    by (simp add: parts_of_def)
qed

end
