(* ===== verification/Boc_Roundtrip.thy ===== *)
theory Boc_Roundtrip
  imports Boc_Cells
begin

text \<open>
  What the serializer writes is what the deserializer accepts: the header, the raw cells and the
  checksum, and the cells that are built from them.
\<close>

section \<open>The header\<close>

lemma read_roots_bytes:
  assumes "\<forall>r \<in> set rs. r < cnt" "cnt < 256 ^ n" "n \<le> 4"
    and "drop off data = concat (map (be_tail32 n) rs) @ rest"
  shows "read_roots (length rs) data off n cnt acc = Ok (acc @ rs, off + length rs * n)"
  using assms(1,4)
proof (induction rs arbitrary: off acc)
  case (Cons r rs)
  have r: "r < 256 ^ n" using Cons.prems(1) assms(2) by simp
  have "drop (off + n) data = drop n (drop off data)" by (simp add: add.commute)
  also have "\<dots> = concat (map (be_tail32 n) rs) @ rest" unfolding Cons.prems(2) using assms(3) by simp
  finally have d: "drop (off + n) data = concat (map (be_tail32 n) rs) @ rest" .
  have "read_be_u32_fast (drop off data) n = r"
    unfolding Cons.prems(2) using read_be_tail32 [OF r assms(3)] by simp
  then show ?case
    using Cons.IH [OF _ d, of "acc @ [r]"] Cons.prems(1) by (simp add: read_next_be_uint_fast_def)
qed simp

lemma read_next_at:
  "drop off data = be_tail32 n x @ rest \<Longrightarrow> x < 256 ^ n \<Longrightarrow> n \<le> 4 \<Longrightarrow>
    read_next_be_uint_fast data off n = (x, off + n)"
  "drop off data = be_tail64 n x @ rest \<Longrightarrow> x < 256 ^ n \<Longrightarrow> n \<le> 8 \<Longrightarrow>
    read_next_be_uint_full data off n = (x, off + n)"
  by (simp_all add: read_next_be_uint_fast_def read_next_be_uint_full_def read_be_tail32 read_be_tail64)

lemma header_flags:
  assumes "0 < n" "n \<le> 4"
  shows "boc_flags Generic (of_nat n OR (of_bool ic * 0b01000000)) = (False, ic, False, n, True)"
proof -
  have "n = 1 \<or> n = 2 \<or> n = 3 \<or> n = 4" using assms by auto
  then show ?thesis by (cases ic) auto
qed

definition boc_layout ::
  "bool \<Rightarrow> nat \<Rightarrow> nat \<Rightarrow> nat \<Rightarrow> nat \<Rightarrow> nat list \<Rightarrow> byte list \<Rightarrow> byte list" where
  "boc_layout ic n os cnt T rts body =
    tag_GENERIC @ [of_nat n OR (of_bool ic * 0b01000000), of_nat os] @ be_tail32 n cnt
      @ be_tail32 n (length rts) @ be_tail32 n 0 @ be_tail64 os T @ concat (map (be_tail32 n) rts) @ body"

lemma boc_decode_layout:
  fixes os n cnt T :: nat and rts :: "nat list"
  defines "start \<equiv> 6 + 3 * n + os + length rts * n"
  assumes n: "0 < n" "n \<le> 4" and os: "0 < os" "os \<le> 8"
    and cnt: "cnt < 256 ^ n" and T: "T < 256 ^ os" "length body = T"
    and rts: "rts \<noteq> []" "length rts \<le> cnt" "\<forall>r \<in> set rts. r < cnt"
    and opts: "\<And>m. min_roots options = Some m \<Longrightarrow> m \<le> length rts"
      "length rts \<le> (case max_roots options of Some m \<Rightarrow> m | None \<Rightarrow> MAX_ROOTS)"
    and bounds: "cnt * (2 + n) \<le> T + length rts * n" "T \<le> cnt * (2 + 4 * (2 + 32) + 128 + MAX_REF_COUNT * n)"
    and tail: "tail = (if ic then to_le_bytes32 (crc (boc_layout ic n os cnt T rts body)) else [])"
    and data: "data = boc_layout ic n os cnt T rts body @ tail"
    and cells: "read_cells cnt data start n [] = Ok (cells, start + T)"
  shows "boc_decode crc data options = Ok \<lparr>bh_ref_size = n, bh_cells = cells, bh_roots = rts\<rparr>"
proof -
  let ?fl = "of_nat n OR (of_bool ic * 0b01000000) :: byte"
  note lay = data [unfolded boc_layout_def tag_GENERIC_def]
  have lr: "length (concat (map (be_tail32 n) rts)) = length rts * n"
    using length_concat_const [of rts "be_tail32 n" n] n(2) by (simp add: mult.commute)
  have lL: "length (boc_layout ic n os cnt T rts body) = start + T"
    using n(2) os(2) T(2) lr by (simp add: boc_layout_def tag_GENERIC_def start_def)
  have len: "length data = start + T + of_bool ic * 4" unfolding data using lL by (simp add: tail)
  have u: "unat (of_nat os :: byte) = os" using os(2) by (simp add: unat_of_nat)
  have bytes: "data ! 4 = ?fl" "unat (data ! 5) = os" "tag_from_bytes (take 4 data) = Some Generic"
    unfolding lay by (simp_all add: u tag_from_bytes_def tag_GENERIC_def)
  have d0: "drop 6 data = be_tail32 n cnt @ be_tail32 n (length rts) @ be_tail32 n 0 @ be_tail64 os T
      @ concat (map (be_tail32 n) rts) @ body @ tail"
    unfolding lay by simp
  have d1: "drop (6 + n) data = be_tail32 n (length rts) @ be_tail32 n 0 @ be_tail64 os T
      @ concat (map (be_tail32 n) rts) @ body @ tail"
    using arg_cong [OF d0, of "drop n"] n(2) by (simp add: add.commute)
  have d2: "drop (6 + n + n) data = be_tail32 n 0 @ be_tail64 os T @ concat (map (be_tail32 n) rts) @ body @ tail"
    using arg_cong [OF d1, of "drop n"] n(2) by (simp add: add.commute)
  have d3: "drop (6 + n + n + n) data = be_tail64 os T @ concat (map (be_tail32 n) rts) @ body @ tail"
    using arg_cong [OF d2, of "drop n"] n(2) by (simp add: add.commute)
  have d4: "drop (6 + n + n + n + os) data = concat (map (be_tail32 n) rts) @ body @ tail"
    using arg_cong [OF d3, of "drop os"] os(2) by (simp add: add.commute)
  have rc: "length rts < 256 ^ n" using rts(2) cnt by simp
  note r = read_next_at(1) [OF d0 cnt n(2)] read_next_at(1) [OF d1 rc n(2)] read_next_at(1) [OF d2 _ n(2)]
    read_next_at(2) [OF d3 T(1) os(2)] read_roots_bytes [OF rts(3) cnt n(2) d4, of "[]"]
  have st: "6 + n + n + n + os + length rts * n = start" by (simp add: start_def)
  have req: "br_require data 0 6" "br_require data 6 (n * 3 + os)" "br_require data (6 + n + n + n + os) (length rts * n)"
    "br_require data start (of_bool False * cnt * os + T + of_bool ic * 4)" "ic \<Longrightarrow> br_require data (start + T) 4"
    using len by (simp_all add: br_require_def start_def)
  have crc: "ic \<Longrightarrow> check_crc crc data (start + T)"
    using lL unfolding check_crc_def data tail by (simp add: le_bytes_crc)
  have o1: "\<not> (case min_roots options of Some m \<Rightarrow> length rts < m | None \<Rightarrow> False)"
    using opts(1) by (auto split: option.split simp: not_less)
  have b: "\<not> T < cnt * (2 + n) - length rts * n" "\<not> T > cnt * (2 + 4 * (2 + 32) + 128 + MAX_REF_COUNT * n)"
    using bounds by linarith+
  have z: "(0::nat) < 256 ^ n" by simp
  have nz: "\<not> (n = 0 \<or> n > 4)" "\<not> (os = 0 \<or> os > 8)" "length rts \<noteq> 0" using n os rts(1) by auto
  have m: "\<not> length rts > (case max_roots options of Some m \<Rightarrow> m | None \<Rightarrow> MAX_ROOTS)" using opts(2) by simp
  have l: "\<not> length rts + 0 > cnt" using rts(2) by simp
  show ?thesis
    unfolding boc_decode_def Let_def bytes option.case header_flags [OF n] prod.case
      r(1) r(2) r(3) [OF z] r(4) r(5) simp_thms if_True if_False ok_Ok
    using req nz o1 m l b crc cells unfolding st by simp
qed

section \<open>The cells\<close>

lemma read_cells_bytes:
  assumes "\<And>c r. c \<in> set cs \<Longrightarrow> read_raw_cell_len (f c @ r) n = Ok (length (f c))"
    and "drop off data = concat (map f cs) @ rest"
  shows "read_cells (length cs) data off n acc = Ok (acc @ map f cs, off + length (concat (map f cs)))"
  using assms
proof (induction cs arbitrary: off acc)
  case (Cons c cs)
  have "drop (off + length (f c)) data = drop (length (f c)) (drop off data)" by (simp add: add.commute)
  also have "\<dots> = concat (map f cs) @ rest" unfolding Cons.prems(2) by simp
  finally have d: "drop (off + length (f c)) data = concat (map f cs) @ rest" .
  have c: "read_raw_cell_len (drop off data) n = Ok (length (f c))" "take (length (f c)) (drop off data) = f c"
    unfolding Cons.prems(2) using Cons.prems(1) [of c "concat (map f cs) @ rest"] by simp_all
  have "read_cells (length cs) data (off + length (f c)) n (acc @ [f c])
      = Ok ((acc @ [f c]) @ map f cs, off + length (f c) + length (concat (map f cs)))"
    using Cons.prems(1) by (intro Cons.IH [OF _ d]) simp
  then show ?case using c by (simp add: add.assoc)
qed simp

lemma finalize_cells_bytes:
  assumes "\<And>i. i < length xs \<Longrightarrow> from_raw_cell (f (xs ! i)) (take i xs) cnt n = Ok (parts_of (xs ! i))
      \<and> finalize_cell sha (parts_of (xs ! i)) = Ok (xs ! i)"
  shows "i \<le> length xs \<Longrightarrow> finalize_cells sha (map f (drop i xs)) cnt n (take i xs) = Ok xs"
proof (induction "length xs - i" arbitrary: i)
  case (Suc k)
  then have i: "i < length xs" by simp
  have "finalize_cells sha (map f (drop i xs)) cnt n (take i xs)
      = finalize_cells sha (map f (drop (Suc i) xs)) cnt n (take (Suc i) xs)"
    using assms [OF i] i by (simp add: Cons_nth_drop_Suc [symmetric] take_Suc_conv_app_nth)
  then show ?case using Suc.hyps(1) [of "Suc i"] Suc.hyps(2) i by simp
qed simp

section \<open>The serializer's output\<close>

text \<open>
  \<open>ready sha U wh ic roots xs s\<close>: the serializer \<open>s\<close> collected the cells \<open>xs\<close> from \<open>roots\<close>, few enough to be
  counted, and hashes are only left out when no cell asks for them.
\<close>

definition ready :: "sha256 \<Rightarrow> cell set \<Rightarrow> bool \<Rightarrow> bool \<Rightarrow> cell list \<Rightarrow> cell list \<Rightarrow> boc_ser \<Rightarrow> bool" where
  "ready sha U wh ic roots xs s \<longleftrightarrow> tree_set U \<and> ser_state U wh ic roots xs s
     \<and> (\<forall>c \<in> U. storable sha c) \<and> (\<forall>x. length (sha x) = 32)
     \<and> (wh \<longrightarrow> (\<forall>c \<in> set xs. \<not> store_hashes (descriptor c)))
     \<and> length xs < 2 ^ 32 \<and> roots \<noteq> [] \<and> length roots \<le> length xs"

definition child_index :: "cell list \<Rightarrow> boc_ser \<Rightarrow> cell \<Rightarrow> nat" where
  "child_index xs s r = length xs - the (rev_indices s (repr_hash r)) - 1"

lemma ready_facts:
  assumes "ready sha U wh ic roots xs s"
  obtains ris where "s = (base wh ic xs)\<lparr>root_rev_indices := ris\<rparr>" "length ris = length roots"
    "\<And>i. i < length roots \<Longrightarrow> ris ! i < length xs \<and> xs ! (ris ! i) = roots ! i"
    "cell_count s = length xs" "rev_cells s = xs" "without_hashes s = wh" "include_crc s = ic"
    "\<And>i. i < length xs \<Longrightarrow> rev_indices s (repr_hash (xs ! i)) = Some i"
    "\<And>c. c \<in> set xs \<Longrightarrow> storable sha c" "collected U xs" "length xs \<le> length roots + edges xs"
proof -
  from assms obtain ris where r: "s = (base wh ic xs)\<lparr>root_rev_indices := ris\<rparr>" "length ris = length roots"
    "\<forall>i < length roots. ris ! i < length xs \<and> xs ! (ris ! i) = roots ! i"
    and c: "collected U xs" "length xs < 2 ^ 32" "tree_set U" "\<forall>c \<in> U. storable sha c"
    "length xs \<le> length roots + edges xs"
    by (auto simp: ready_def ser_state_def)
  show thesis
  proof (rule that [of ris])
    show "cell_count s = length xs" using base_counts(1) [OF c(2)] by (simp add: r(1))
    show "rev_indices s (repr_hash (xs ! i)) = Some i" if "i < length xs" for i
      using base_index [OF c(2) collected_hashes [OF c(3,1)] that] by (simp add: r(1))
    show "storable sha x" if "x \<in> set xs" for x using that c(1,4) by (auto simp: collected_def)
  qed (use r c in auto)
qed

text \<open>The bytes of the \<open>i\<close>-th cell, and what reading them gives.\<close>

lemma ready_children:
  assumes "ready sha U wh ic roots xs s" "i < length xs" "r \<in> set (cell_children (xs ! i))"
  obtains j where "j < i" "xs ! j = r" "rev_indices s (repr_hash r) = Some j" "child_index xs s r = length xs - j - 1"
proof -
  from ready_facts [OF assms(1)] have f: "\<And>i. i < length xs \<Longrightarrow> rev_indices s (repr_hash (xs ! i)) = Some i"
    "collected U xs" by metis+
  then have "r \<in> set (take i xs)" using assms(2,3) by (auto simp: collected_def topo_def)
  then obtain j where "j < i" "xs ! j = r" using assms(2) by (auto simp: in_set_conv_nth)
  then show thesis using f(1) [of j] assms(2) by (intro that) (auto simp: child_index_def)
qed

lemma ready_cell:
  assumes "ready sha U wh ic roots xs s" "i < length xs" "n \<le> 4" "length xs \<le> 256 ^ n"
  shows "length (cell_bytes s n (xs ! i)) = 2 + byte_len_full (descriptor (xs ! i)) wh + length (cell_children (xs ! i)) * n"
    and "read_raw_cell_len (cell_bytes s n (xs ! i) @ r) n = Ok (length (cell_bytes s n (xs ! i)))"
    and "from_raw_cell (cell_bytes s n (xs ! i)) (take i xs) (length xs) n = Ok (parts_of (xs ! i))"
proof -
  let ?c = "xs ! i" and ?idx = "child_index xs s"
  from ready_facts [OF assms(1)] assms(2) have f: "cell_count s = length xs" "storable sha ?c" "without_hashes s = wh"
    by (metis nth_mem)+
  have sha: "\<forall>x. length (sha x) = 32" and wh: "wh \<Longrightarrow> \<not> store_hashes (descriptor ?c)"
    using assms(1,2) by (auto simp: ready_def)
  have "indexed s ?idx ?c"
    unfolding indexed_def f(1) using ready_children [OF assms(1,2)] by metis
  from cell_bytes_layout [OF f(2) sha _ this, of n] wh f(3) obtain hs where
    b: "cell_bytes s n ?c = [d1 (descriptor ?c), d2 (descriptor ?c)] @ hs @ cell_data ?c
      @ concat (map (\<lambda>r. be_tail32 n (?idx r)) (cell_children ?c))"
      "length hs = stored_hashes_len (descriptor ?c)" by auto
  have lr: "length (concat (map (\<lambda>r. be_tail32 n (?idx r)) (cell_children ?c))) = length (cell_children ?c) * n"
    using length_concat_const [of "cell_children ?c" "\<lambda>r. be_tail32 n (?idx r)" n] assms(3) by (simp add: mult.commute)
  have w: "wf_cell ?c" using f(2) by (simp add: storable_def)
  have "byte_len_full (descriptor ?c) wh = stored_hashes_len (descriptor ?c) + length (cell_data ?c)"
    using wh wf_cell_bytes(1) [OF w] by (auto simp: byte_len_full_def stored_hashes_len_def)
  then show "length (cell_bytes s n ?c) = 2 + byte_len_full (descriptor ?c) wh + length (cell_children ?c) * n"
    unfolding b(1) using b(2) lr by simp
  show "read_raw_cell_len (cell_bytes s n ?c @ r) n = Ok (length (cell_bytes s n ?c))"
    unfolding b(1) by (rule read_raw_cell_len_bytes [OF f(2) b(2) lr])
  have "?idx r < 256 ^ n \<and> ?idx r < length xs \<and> nth_opt (take i xs) (length xs - ?idx r - 1) = Some r"
    if "r \<in> set (cell_children ?c)" for r
  proof -
    from ready_children [OF assms(1,2) that] obtain j where j: "j < i" "xs ! j = r" "?idx r = length xs - j - 1" .
    then have "length xs - ?idx r - 1 = j" "?idx r < length xs" using assms(2) by auto
    then show ?thesis using j assms(2,4) by (simp add: nth_opt_def)
  qed
  then show "from_raw_cell (cell_bytes s n ?c) (take i xs) (length xs) n = Ok (parts_of ?c)"
    unfolding b(1) by (rule from_raw_cell_bytes [OF f(2) b(2) assms(3)])
qed

section \<open>Sizes\<close>

lemma level_mask_len: "level (cd_level_mask d) \<le> 3"
  by (rule level_le_3)

lemma byte_len_full_le: "byte_len_full d wh \<le> 4 * (2 + 32) + 128"
  using byte_len_le [of d] level_le_3 [of d] by (simp add: byte_len_full_def)

lemma data_size_le: "data_size wh xs \<le> (4 * (2 + 32) + 128) * length xs"
proof (induction xs)
  case (Cons x xs)
  then show ?case using byte_len_full_le [of "descriptor x" wh] by (simp add: data_size_def)
qed (simp add: data_size_def)

lemma edges_le: "list_all wf_cell xs \<Longrightarrow> edges xs \<le> 4 * length xs"
proof (induction xs)
  case (Cons x xs)
  then show ?case using wf_cell_bytes(4) [of x] by simp
qed simp

definition cells_size :: "bool \<Rightarrow> cell list \<Rightarrow> nat" where
  "cells_size wh xs = data_size wh xs + length xs * 2 + number_of_bytes_to_fit (length xs) * edges xs"

lemma ready_stats:
  assumes "ready sha U wh ic roots xs s"
  defines "n \<equiv> number_of_bytes_to_fit (length xs)"
  shows "st_ref_size (compute_stats s) = n" "st_total_cells_size (compute_stats s) = cells_size wh xs"
    "st_offset_size (compute_stats s) = number_of_bytes_to_fit (cells_size wh xs)"
    "0 < n" "n \<le> 4" "length xs < 256 ^ n" "cells_size wh xs < 2 ^ 64" "0 < cells_size wh xs"
    "cells_size wh xs \<le> length xs * (2 + 4 * (2 + 32) + 128 + MAX_REF_COUNT * n)"
    "length xs * (2 + n) \<le> cells_size wh xs + length roots * n"
proof -
  from ready_facts [OF assms(1)] obtain ris where f: "s = (base wh ic xs)\<lparr>root_rev_indices := ris\<rparr>"
    "cell_count s = length xs" "\<And>c. c \<in> set xs \<Longrightarrow> storable sha c" "length xs \<le> length roots + edges xs" by metis
  have l: "length xs < 2 ^ 32" "0 < length xs" using assms(1) by (auto simp: ready_def)
  have w: "list_all wf_cell xs" using f(3) by (auto simp: list_all_iff storable_def)
  have "length xs < 256 ^ 4" using l(1) by simp
  moreover have l64: "length xs < 2 ^ 64" using l(1) by simp
  ultimately show n: "0 < n" "n \<le> 4" "length xs < 256 ^ n"
    using number_of_bytes_to_fit [OF l64] l(2) number_of_bytes_to_fit(3) [OF l64, of 4] unfolding n_def by auto
  have d: "data_size wh xs \<le> 264 * length xs" "edges xs \<le> 4 * length xs"
    using data_size_le [of wh xs] edges_le [OF w] by simp_all
  have ne: "n * edges xs \<le> 4 * (4 * length xs)" using n(2) d(2) by (intro mult_le_mono)
  have e: "data_size wh xs < 2 ^ 64" "edges xs < 2 ^ 64" "n * edges xs < 2 ^ 64" using d ne l(1) by simp_all
  show T: "cells_size wh xs < 2 ^ 64" unfolding cells_size_def n_def [symmetric] using d(1) ne l(1) by simp
  show "0 < cells_size wh xs" using l(2) by (simp add: cells_size_def)
  have "n * edges xs \<le> n * (4 * length xs)" using d(2) by (rule mult_le_mono2)
  also have "\<dots> = length xs * (4 * n)" by simp
  finally have "n * edges xs \<le> length xs * (4 * n)" .
  moreover have "length xs * (2 + 4 * (2 + 32) + 128 + MAX_REF_COUNT * n) = length xs * 266 + length xs * (4 * n)"
    by (simp add: MAX_REF_COUNT_def distrib_left)
  ultimately show "cells_size wh xs \<le> length xs * (2 + 4 * (2 + 32) + 128 + MAX_REF_COUNT * n)"
    using d(1) unfolding cells_size_def n_def [symmetric] by linarith
  have "length xs * n \<le> (length roots + edges xs) * n" using f(4) by (rule mult_le_mono1)
  then show "length xs * (2 + n) \<le> cells_size wh xs + length roots * n"
    unfolding cells_size_def n_def [symmetric] by (simp add: algebra_simps)
  have c: "total_data_size s = data_size wh xs" "total_reference_count s = edges xs"
    using base_counts(2) [of wh ic xs] base_counts(3) [OF w, of wh ic] e by (simp_all add: f(1))
  have "u64_add (u64_add (total_data_size s) (cell_count s * 2)) ((n * total_reference_count s) mod 2 ^ 64) = cells_size wh xs"
  proof -
    have "n * edges xs mod 2 ^ 64 = n * edges xs" using e(3) by (rule mod_less)
    then show ?thesis
      using T unfolding c f(2) u64_add_def mod_add_left_eq cells_size_def n_def [symmetric] by simp
  qed
  then show "st_ref_size (compute_stats s) = n" "st_total_cells_size (compute_stats s) = cells_size wh xs"
    "st_offset_size (compute_stats s) = number_of_bytes_to_fit (cells_size wh xs)"
    by (simp_all add: compute_stats_def Let_def n_def f(2))
qed

lemma ready_body:
  assumes "ready sha U wh ic roots xs s"
  shows "length (encode_cells_chunk s xs (number_of_bytes_to_fit (length xs))) = cells_size wh xs"
proof -
  let ?n = "number_of_bytes_to_fit (length xs)"
  note st = ready_stats [OF assms]
  have "length (cell_bytes s ?n c) = 2 + byte_len_full (descriptor c) wh + length (cell_children c) * ?n" if "c \<in> set xs" for c
    using that ready_cell(1) [OF assms _ st(5) less_imp_le [OF st(6)]] by (auto simp: in_set_conv_nth)
  then have "length (concat (map (cell_bytes s ?n) (rev ys))) = data_size wh ys + length ys * 2 + ?n * edges ys"
    if "set ys \<subseteq> set xs" for ys
    using that by (induction ys) (auto simp: data_size_def algebra_simps)
  then show ?thesis by (simp add: encode_cells_chunk_def cells_size_def)
qed

section \<open>The round trip\<close>

definition root_indices :: "cell list \<Rightarrow> boc_ser \<Rightarrow> nat list" where
  "root_indices xs s = map (\<lambda>ri. length xs - ri - 1) (root_rev_indices s)"

lemma boc_encode_layout:
  assumes "ready sha U wh ic roots xs s"
  defines "n \<equiv> number_of_bytes_to_fit (length xs)" and "os \<equiv> number_of_bytes_to_fit (cells_size wh xs)"
  defines "lay \<equiv> boc_layout ic n os (length xs) (cells_size wh xs) (root_indices xs s) (encode_cells_chunk s xs n)"
  shows "boc_encode crc s [] = lay @ (if ic then to_le_bytes32 (crc lay) else [])"
proof -
  note st = ready_stats [OF assms(1), folded n_def os_def]
  from ready_facts [OF assms(1)] have f: "cell_count s = length xs" "rev_cells s = xs" "include_crc s = ic"
    by metis+
  have "to_be_bytes (0 :: 32 word) = replicate 4 0" by code_simp
  then have z: "drop (4 - n) (replicate 4 0) = be_tail32 n 0" by (simp add: be_tail32_def)
  have "header_bytes s @ encode_cells_chunk s (rev_cells s) (st_ref_size (compute_stats s)) = lay"
    unfolding header_bytes_def Let_def st(1-3) f z lay_def boc_layout_def root_indices_def
    by (simp add: comp_def)
  then show ?thesis by (simp add: boc_encode_def encode_crc_def f(3) Let_def)
qed

theorem ready_decode:
  assumes "ready sha U wh ic roots xs s"
    and "\<And>m. min_roots options = Some m \<Longrightarrow> m \<le> length roots"
    and "length roots \<le> (case max_roots options of Some m \<Rightarrow> m | None \<Rightarrow> MAX_ROOTS)"
  obtains h where "boc_decode crc (boc_encode crc s []) options = Ok h" "bh_roots h = root_indices xs s"
    "bh_finalize sha h = Ok xs"
    "length (root_indices xs s) = length roots"
    "\<And>i. i < length roots \<Longrightarrow> processed_get xs (root_indices xs s ! i) = Some (roots ! i)"
proof -
  let ?n = "number_of_bytes_to_fit (length xs)" and ?os = "number_of_bytes_to_fit (cells_size wh xs)"
  let ?body = "encode_cells_chunk s xs ?n" and ?rts = "root_indices xs s"
  let ?cells = "map (cell_bytes s ?n) (rev xs)"
  let ?h = "\<lparr>bh_ref_size = ?n, bh_cells = ?cells, bh_roots = ?rts\<rparr>"
  note st = ready_stats [OF assms(1)]
  from ready_facts [OF assms(1)] obtain ris where f: "s = (base wh ic xs)\<lparr>root_rev_indices := ris\<rparr>"
    "length ris = length roots" "\<And>i. i < length roots \<Longrightarrow> ris ! i < length xs \<and> xs ! (ris ! i) = roots ! i"
    "\<And>c. c \<in> set xs \<Longrightarrow> storable sha c" by metis
  have r: "?rts = map (\<lambda>ri. length xs - ri - 1) ris" by (simp add: root_indices_def f(1))
  have rts: "length ?rts = length roots" "\<forall>r \<in> set ?rts. r < length xs" "?rts \<noteq> []" "length ?rts \<le> length xs"
    using st(4) assms(1) f(2) by (auto simp: r ready_def intro!: diff_less)
  note o = number_of_bytes_to_fit [OF st(7)]
  let ?start = "6 + 3 * ?n + ?os + length ?rts * ?n"
  let ?lay = "boc_layout ic ?n ?os (length xs) (cells_size wh xs) ?rts ?body"
  let ?tail = "if ic then to_le_bytes32 (crc ?lay) else []"
  have rl: "length (concat (map (be_tail32 ?n) ?rts)) = length ?rts * ?n"
    using length_concat_const [of ?rts "be_tail32 ?n" ?n] st(5) by (simp add: mult.commute)
  let ?pre = "boc_layout ic ?n ?os (length xs) (cells_size wh xs) ?rts []"
  have "length ?pre = ?start" using st(5) o(2) rl by (simp add: boc_layout_def tag_GENERIC_def)
  moreover have "?lay @ ?tail = ?pre @ concat ?cells @ ?tail"
    by (simp add: boc_layout_def encode_cells_chunk_def)
  ultimately have "drop ?start (?lay @ ?tail) = concat ?cells @ ?tail" by (metis append_eq_conv_conj)
  moreover have "read_raw_cell_len (cell_bytes s ?n c @ q) ?n = Ok (length (cell_bytes s ?n c))" if "c \<in> set (rev xs)" for c q
    using that ready_cell(2) [OF assms(1) _ st(5) less_imp_le [OF st(6)]] by (auto simp: in_set_conv_nth)
  ultimately have "read_cells (length (rev xs)) (?lay @ ?tail) ?start ?n [] = Ok ([] @ ?cells, ?start + length (concat ?cells))"
    by (intro read_cells_bytes) auto
  then have cells: "read_cells (length xs) (?lay @ ?tail) ?start ?n [] = Ok (?cells, ?start + cells_size wh xs)"
    using ready_body [OF assms(1)] by (simp add: encode_cells_chunk_def)
  have dec: "boc_decode crc (boc_encode crc s []) options = Ok ?h"
    unfolding boc_encode_layout [OF assms(1)]
  proof (rule boc_decode_layout [where os = ?os and cnt = "length xs" and T = "cells_size wh xs" and body = ?body
        and ic = ic and tail = ?tail])
    show "min_roots options = Some m \<Longrightarrow> m \<le> length ?rts" for m using assms(2) rts(1) by simp
    show "length ?rts \<le> (case max_roots options of Some m \<Rightarrow> m | None \<Rightarrow> MAX_ROOTS)" using assms(3) rts(1) by simp
    show "length xs * (2 + ?n) \<le> cells_size wh xs + length ?rts * ?n" using st(10) rts(1) by simp
  qed (rule refl st(4,5,6,9) o(1,2) o(4) [OF st(8)] ready_body [OF assms(1)] rts(2,3,4) cells)+
  have fin: "finalize_cells sha (map (cell_bytes s ?n) (drop 0 xs)) (length xs) ?n (take 0 xs) = Ok xs"
    by (rule finalize_cells_bytes)
      (use ready_cell(3) [OF assms(1) _ st(5) less_imp_le [OF st(6)]] f(4) in \<open>auto simp: storable_def\<close>)
  show thesis
  proof (rule that [of ?h])
    show "bh_finalize sha ?h = Ok xs" using fin by (simp add: bh_finalize_def rev_map)
    show "processed_get xs (?rts ! i) = Some (roots ! i)" if "i < length roots" for i
      using f(2) f(3) [OF that] that by (auto simp: processed_get_def r nth_opt_def)
  qed (use dec rts in simp_all)
qed

end
