(* ===== verification/Boc_Sound.thy ===== *)
theory Boc_Sound
  imports Boc_Cells
begin

text \<open>
  What the deserializer accepts. Every cell that it returns, from whatever bytes, is storable: its
  descriptor, length, completion tag and children fit together and its hashes are those of its content.
\<close>

section \<open>Raw cells\<close>

definition raw_ok :: "nat \<Rightarrow> byte list \<Rightarrow> bool" where
  "raw_ok n raw \<longleftrightarrow> read_raw_cell_len raw n = Ok (length raw)"

lemma read_raw_cell_len_facts:
  assumes "read_raw_cell_len bytes n = Ok l"
  defines "d \<equiv> cd_new (bytes ! 0) (bytes ! 1)"
  shows "l = 2 + stored_hashes_len d + byte_len d + reference_count d * n" "l \<le> length bytes"
    "reference_count d \<le> 4" "\<not> is_absent d" "\<not> pruned_with_hashes d"
    "byte_len d > 0 \<Longrightarrow> \<not> is_aligned d \<Longrightarrow> bytes ! (2 + stored_hashes_len d + byte_len d - 1) AND 0x7f \<noteq> 0"
  using assms(1) unfolding read_raw_cell_len_def Let_def d_def [symmetric] stored_hashes_len_def [symmetric]
  by (auto simp: pruned_with_hashes_def MAX_REF_COUNT_def not_less split: if_splits)

lemma raw_ok_take:
  assumes "read_raw_cell_len bytes n = Ok l"
  shows "raw_ok n (take l bytes)"
proof -
  note f = read_raw_cell_len_facts [OF assms]
  have l: "2 \<le> l" "length (take l bytes) = l" using f(1,2) by auto
  then have d: "cd_new (take l bytes ! 0) (take l bytes ! 1) = cd_new (bytes ! 0) (bytes ! 1)" by simp
  show ?thesis
    unfolding raw_ok_def read_raw_cell_len_def Let_def d l(2) stored_hashes_len_def [symmetric]
    using f l(1) by (auto simp: pruned_with_hashes_def MAX_REF_COUNT_def)
qed

lemma is_aligned_even: "is_aligned d \<longleftrightarrow> even (unat (d2 d))"
proof -
  have "unat (d2 d AND 1) = unat (d2 d) mod 2" by (simp add: and_one_eq unat_mod)
  moreover have "is_aligned d \<longleftrightarrow> unat (d2 d AND 1) = 0" by (simp add: is_aligned_def unat_eq_zero)
  ultimately show ?thesis by (simp add: even_iff_mod_2_eq_zero)
qed

text \<open>The bit length that is read off the completion tag.\<close>

lemma tag_bit_len:
  assumes "length ds = byte_len d" "\<And>x. byte_len d > 0 \<Longrightarrow> \<not> is_aligned d \<Longrightarrow> trailing_zeros (last ds) < 7"
  defines "n \<equiv> (if is_aligned d then byte_len d * 8
    else if ds \<noteq> [] then byte_len d * 8 - trailing_zeros (last ds) - 1 else 0)"
  shows "n \<le> 1023" "length ds = div_ceil8 n" "d2 d = compute_d2 n" "tag_ok ds n"
proof -
  have u: "unat (d2 d) < 256" by simp
  have "n \<le> 1023 \<and> length ds = div_ceil8 n \<and> unat (d2 d) = 2 * (n div 8) + of_bool (n mod 8 \<noteq> 0) \<and> tag_ok ds n"
  proof (cases "is_aligned d")
    case True
    then have "unat (d2 d) = 2 * byte_len d" by (auto simp: is_aligned_even byte_len_nat elim!: evenE)
    then show ?thesis using True assms(1) u by (simp add: n_def div_ceil8_def tag_ok_def)
  next
    case False
    define q where "q = byte_len d - 1"
    define j where "j = 7 - trailing_zeros (last ds)"
    have b: "unat (d2 d) = 2 * q + 1" "byte_len d = q + 1"
      using False by (auto simp: q_def is_aligned_even byte_len_nat elim!: oddE)
    then have ne: "ds \<noteq> []" using assms(1) by auto
    have t: "trailing_zeros (last ds) < 7" using assms(2) b(2) False by simp
    have e: "n = 8 * q + j" "0 < j" "j < 8" using False ne t b(2) by (auto simp: n_def j_def)
    have dm: "n div 8 = q" "n mod 8 = j" unfolding e(1) using e(3) by simp_all
    have tz: "trailing_zeros (last ds) = 7 - j" using t by (simp add: j_def)
    have "q \<le> 127" using b(1) u by simp
    then show ?thesis
      using e b assms(1) ne tz unfolding tag_ok_def div_ceil8_eq dm by auto
  qed
  then show "n \<le> 1023" "length ds = div_ceil8 n" "tag_ok ds n" "d2 d = compute_d2 n"
    using unat_compute_d2 [of n] word_unat_eq_iff [of "d2 d" "compute_d2 n"] by simp_all
qed

lemma raw_references_Ok:
  "raw_references k data cells cnt n acc m = Ok (refs, m') \<Longrightarrow>
    \<exists>cs. refs = acc @ cs \<and> length cs = k \<and> set cs \<subseteq> set cells \<and> m' = foldl (\<lambda>m c. m OR cell_level_mask c) m cs"
proof (induction k arbitrary: data acc m)
  case (Suc k)
  from Suc.prems obtain child where c: "nth_opt cells (cnt - read_be_u32_fast data n - 1) = Some child"
    "raw_references k (drop n data) cells cnt n (acc @ [child]) (m OR cd_level_mask (descriptor child)) = Ok (refs, m')"
    by (auto simp: Let_def split: if_splits option.splits)
  then have "child \<in> set cells" by (auto simp: nth_opt_def split: if_splits)
  moreover from Suc.IH [OF c(2)] obtain cs where "refs = (acc @ [child]) @ cs" "length cs = k" "set cs \<subseteq> set cells"
    "m' = foldl (\<lambda>m c. m OR cell_level_mask c) (m OR cd_level_mask (descriptor child)) cs" by auto
  ultimately show ?case by (intro exI [of _ "child # cs"]) (simp add: cell_level_mask_def)
qed simp

lemma from_raw_cell_wf:
  assumes "raw_ok n raw" "list_all wf_cell cells" "from_raw_cell raw cells cnt n = Ok p"
  shows "wf_parts p" "cp_children_mask p = compute_level_mask (cp_references p)"
    "tag_ok (cp_data p) (cp_bit_len p)" "\<not> pruned_with_hashes (cp_descriptor p)"
    "set (cp_references p) \<subseteq> set cells"
proof -
  let ?d = "cd_new (raw ! 0) (raw ! 1)"
  let ?data = "take (byte_len ?d) (drop (2 + stored_hashes_len ?d) raw)"
  let ?bits = "if is_aligned ?d then byte_len ?d * 8
    else if ?data \<noteq> [] then byte_len ?d * 8 - trailing_zeros (last ?data) - 1 else 0"
  note f = read_raw_cell_len_facts [OF assms(1) [unfolded raw_ok_def]]
  from assms(3) obtain refs m where r: "raw_references (reference_count ?d)
      (drop (2 + stored_hashes_len ?d + byte_len ?d) raw) cells cnt n [] 0 = Ok (refs, m)"
    and p: "p = \<lparr>cp_bit_len = ?bits, cp_descriptor = ?d, cp_children_mask = m, cp_references = refs, cp_data = ?data\<rparr>"
    unfolding from_raw_cell_def Let_def stored_hashes_len_def [symmetric] by (auto elim!: ok_eq_OkE)
  from raw_references_Ok [OF r] have refs: "length refs = reference_count ?d" "set refs \<subseteq> set cells"
    "m = compute_level_mask refs" by (auto simp: compute_level_mask_def)
  have dl: "length ?data = byte_len ?d" using f(1) by simp
  have "trailing_zeros (last ?data) < 7" if b: "byte_len ?d > 0" "\<not> is_aligned ?d"
  proof -
    have ne: "?data \<noteq> []" using dl b(1) by (metis length_0_conv less_numeral_extra(3))
    have "last ?data = raw ! (2 + stored_hashes_len ?d + byte_len ?d - 1)"
      using dl b(1) f(1) unfolding last_conv_nth [OF ne] dl by simp
    then show ?thesis using f(6) [OF b] tag_byte by metis
  qed
  note bits = tag_bit_len [OF dl this]
  show "wf_parts p"
    using bits(1-3) refs f(3) assms(2) by (auto simp: wf_parts_def p MAX_BIT_LEN_def MAX_REF_COUNT_def list_all_iff)
  show "cp_children_mask p = compute_level_mask (cp_references p)" using refs(3) by (simp add: p)
  show "tag_ok (cp_data p) (cp_bit_len p)" using bits(4) by (simp add: p)
  show "\<not> pruned_with_hashes (cp_descriptor p)" using f(5) by (simp add: p)
  show "set (cp_references p) \<subseteq> set cells" using refs(2) by (simp add: p)
qed

section \<open>All cells\<close>

lemma finalize_cells_sound:
  "finalize_cells sha raws cnt n res = Ok cells \<Longrightarrow> list_all (raw_ok n) raws \<Longrightarrow> list_all (storable_tree sha) res \<Longrightarrow>
    list_all (storable_tree sha) cells \<and> length cells = length res + length raws"
proof (induction raws arbitrary: res)
  case (Cons raw raws)
  from Cons.prems(1) obtain p c where p: "from_raw_cell raw res cnt n = Ok p" "finalize_cell sha p = Ok c"
    "finalize_cells sha raws cnt n (res @ [c]) = Ok cells"
    by (auto elim!: ok_eq_OkE split: sum.splits)
  have w: "list_all wf_cell res" using Cons.prems(3) storable_tree_wf by (auto simp: list_all_iff)
  have "raw_ok n raw" using Cons.prems(2) by simp
  note r = from_raw_cell_wf [OF this w p(1)]
  have "list_all (storable_tree sha) (cp_references p)" using r(5) Cons.prems(3) by (auto simp: list_all_iff)
  from storable_tree_finalized [OF r(1) p(2) r(2-4) this] have "storable_tree sha c" .
  then show ?case using Cons.IH [OF p(3)] Cons.prems(2,3) by simp
qed simp

lemma read_cells_Ok:
  "read_cells k data off n acc = Ok (cells, off') \<Longrightarrow> list_all (raw_ok n) acc \<Longrightarrow>
    list_all (raw_ok n) cells \<and> length cells = length acc + k"
proof (induction k arbitrary: off acc)
  case (Suc k)
  from Suc.prems(1) obtain l where l: "read_raw_cell_len (drop off data) n = Ok l"
    "read_cells k data (off + l) n (acc @ [take l (drop off data)]) = Ok (cells, off')"
    by (auto elim!: ok_eq_OkE)
  from Suc.IH [OF l(2)] raw_ok_take [OF l(1)] Suc.prems(2) show ?case by simp
qed simp

lemma read_roots_Ok:
  "read_roots k data off n cnt acc = Ok (roots, off') \<Longrightarrow> \<forall>r \<in> set acc. r < cnt \<Longrightarrow>
    (\<forall>r \<in> set roots. r < cnt) \<and> length roots = length acc + k"
proof (induction k arbitrary: off acc)
  case (Suc k)
  from Suc.prems(1) have "read_be_u32_fast (drop off data) n < cnt"
    "read_roots k data (off + n) n cnt (acc @ [read_be_u32_fast (drop off data) n]) = Ok (roots, off')"
    by (auto simp: read_next_be_uint_fast_def not_le split: if_splits)
  with Suc.IH [of "off + n" "acc @ [read_be_u32_fast (drop off data) n]"] Suc.prems(2) show ?case by auto
qed simp

lemma Ok_iffs:
  "(if b then Inl e else x) = Inr y \<longleftrightarrow> \<not> b \<and> x = Inr y"
  "(case z of None \<Rightarrow> Inl e | Some t \<Rightarrow> f t) = Inr y \<longleftrightarrow> (\<exists>t. z = Some t \<and> f t = Inr y)"
  "(case p of (a, b) \<Rightarrow> g a b) = Inr y \<longleftrightarrow> (\<exists>a b. p = (a, b) \<and> g a b = Inr y)"
  by (auto split: option.split prod.split)

lemma boc_decode_sound:
  assumes "boc_decode crc data options = Ok h"
  shows "list_all (raw_ok (bh_ref_size h)) (bh_cells h)" "\<forall>r \<in> set (bh_roots h). r < length (bh_cells h)"
    "bh_roots h \<noteq> []"
proof -
  have "\<exists>n cnt rc roots cells off off' off'' m mult.
      read_cells cnt data off n [] = Ok (cells, off')
      \<and> (if mult then read_roots rc data off'' n cnt [] else Ok ([0], off'')) = Ok (roots, m)
      \<and> h = \<lparr>bh_ref_size = n, bh_cells = cells, bh_roots = roots\<rparr> \<and> rc \<noteq> 0 \<and> rc \<le> cnt"
    using assms unfolding boc_decode_def Let_def Ok_iffs ok_eq_Ok_iff sum.inject
    by - (elim exE conjE, hypsubst, intro exI conjI, assumption, assumption, rule refl, assumption, linarith)
  then obtain n cnt rc roots cells off off' off'' m mult where
    c: "read_cells cnt data off n [] = Ok (cells, off')"
    and r: "(if mult then read_roots rc data off'' n cnt [] else Ok ([0], off'')) = Ok (roots, m)"
    and h: "h = \<lparr>bh_ref_size = n, bh_cells = cells, bh_roots = roots\<rparr>"
    and rc: "rc \<noteq> 0" "rc \<le> cnt"
    by blast
  show "list_all (raw_ok (bh_ref_size h)) (bh_cells h)" using read_cells_Ok [OF c] by (simp add: h)
  show "\<forall>r \<in> set (bh_roots h). r < length (bh_cells h)" "bh_roots h \<noteq> []"
    using read_cells_Ok [OF c] r read_roots_Ok [of rc data off'' n cnt "[]" roots m] rc
    by (auto simp: h split: if_splits)
qed

end
