(* ===== verification/Boc_Properties.thy ===== *)
theory Boc_Properties
  imports Boc_Roundtrip Boc_Sound Cell_Properties
begin

text \<open>
  The properties of bags of cells. \<open>crc\<close> stands for CRC32-C and \<open>sha\<close> for SHA-256; what is assumed of
  \<open>sha\<close> is that digests have 32 bytes and, where cells are identified by their hash, that no two
  different cells of the tree have the same one.
\<close>

section \<open>Preparation\<close>

lemma base_with_crc: "(base wh ic xs)\<lparr>include_crc := b\<rparr> = base wh b xs"
proof (induction xs rule: rev_induct)
  case (snoc c xs)
  have "(ser_visit c s)\<lparr>include_crc := b\<rparr> = ser_visit c (s\<lparr>include_crc := b\<rparr>)" for s
    by (simp add: ser_visit_def Let_def)
  then show ?case using snoc by (simp add: base_snoc)
qed (simp add: base_def ser_new_def)

lemma ser_state_with_crc:
  assumes "ser_state U wh ic roots xs s"
  shows "ser_state U wh b roots xs (with_crc s b)"
proof -
  from assms obtain ris where s: "s = (base wh ic xs)\<lparr>root_rev_indices := ris\<rparr>" "collected U xs" "set roots \<subseteq> set xs"
    "length xs \<le> length roots + edges xs"
    "length xs < 2 ^ 32 \<longrightarrow> length ris = length roots
      \<and> (\<forall>i < length roots. ris ! i < length xs \<and> xs ! (ris ! i) = roots ! i)"
    by (auto simp: ser_state_def)
  have "with_crc s b = ((base wh ic xs)\<lparr>include_crc := b\<rparr>)\<lparr>root_rev_indices := ris\<rparr>" by (simp add: s(1) with_crc_def)
  then have "with_crc s b = (base wh b xs)\<lparr>root_rev_indices := ris\<rparr>" by (simp only: base_with_crc)
  then show ?thesis unfolding ser_state_def using s(2-5) by blast
qed

lemma ser_state_new: "ser_state U False False [] [] ser_new"
  by (simp add: ser_state_def collected_def base_def ser_new_def)

lemma with_root_state:
  assumes "tree_set U" "c \<in> U"
  obtains xs where "ser_state U False False [c] xs (with_root c)"
proof -
  from add_root_state [OF assms ser_state_new] obtain ys where "ser_state U False False ([] @ [c]) ([] @ ys) (add_root c ser_new)" .
  then show thesis by (intro that [of ys]) (simp add: with_root_def)
qed

definition tree_ok :: "sha256 \<Rightarrow> cell set \<Rightarrow> bool" where
  "tree_ok sha U \<longleftrightarrow> (\<forall>c \<in> U. storable sha c) \<and> inj_on repr_hash U \<and> (\<forall>x. length (sha x) = 32)"

lemma tree_ok_set:
  assumes "tree_ok sha (set (subcells c))"
  shows "tree_set (set (subcells c))"
proof -
  have "wf_cell c" using assms subcells_self [of c] unfolding tree_ok_def storable_def by blast
  then show ?thesis using assms by (intro tree_set_subcells) (simp_all add: tree_ok_def)
qed

lemma ser_state_cells: "ser_state U wh ic roots xs s \<Longrightarrow> rev_cells s = xs"
  by (auto simp: ser_state_def)

lemma ser_state_ready:
  assumes "tree_set U" "tree_ok sha U" "ser_state U False ic roots xs s" "length (rev_cells s) < 2 ^ 32"
    and "roots \<noteq> []" "length roots \<le> length (rev_cells s)"
  shows "ready sha U False ic roots xs s"
  using assms ser_state_cells [OF assms(3)] by (simp add: ready_def tree_ok_def)

text \<open>A single root, with or without a checksum.\<close>

lemma ready_single:
  assumes "\<forall>x \<in> set (subcells c). storable sha x" "inj_on repr_hash (set (subcells c))"
    and "\<forall>x. length (sha x) = 32" "length (rev_cells (with_root c)) < 2 ^ 32"
  obtains xs where "ready sha (set (subcells c)) False ic [c] xs (with_crc (with_root c) ic)"
proof -
  let ?U = "set (subcells c)" and ?s = "with_crc (with_root c) ic"
  have ok: "tree_ok sha ?U" using assms(1-3) by (simp add: tree_ok_def)
  note ts = tree_ok_set [OF ok]
  from with_root_state [OF ts subcells_self] obtain xs where x: "ser_state ?U False False [c] xs (with_root c)" .
  note xc = ser_state_cells [OF x] and st = ser_state_with_crc [OF x, of ic]
  have "xs \<noteq> []" using x by (auto simp: ser_state_def)
  then have "Suc 0 \<le> length xs" by (cases xs) auto
  then have "ready sha ?U False ic [c] xs ?s"
    using assms(4) xc by (intro ser_state_ready [OF ts ok st]) (auto simp: with_crc_def)
  then show thesis by (rule that)
qed

lemma ready_single_decode:
  assumes "ready sha U wh ic [c] xs s"
  shows "Boc_decode crc sha (boc_encode crc s []) = Ok c"
proof -
  have "\<And>m. min_roots \<lparr>min_roots = Some 1, max_roots = Some 1\<rparr> = Some m \<Longrightarrow> m \<le> length [c]"
    "length [c] \<le> (case max_roots \<lparr>min_roots = Some 1, max_roots = Some 1\<rparr> of Some m \<Rightarrow> m | None \<Rightarrow> MAX_ROOTS)"
    by simp_all
  from ready_decode [OF assms this] obtain h where
    h: "boc_decode crc (boc_encode crc s []) \<lparr>min_roots = Some 1, max_roots = Some 1\<rparr> = Ok h"
      "bh_roots h = root_indices xs s" "bh_finalize sha h = Ok xs" "length (root_indices xs s) = length [c]"
      "\<And>i. i < length [c] \<Longrightarrow> processed_get xs (root_indices xs s ! i) = Some ([c] ! i)" by blast
  from h(4) obtain ri where ri: "root_indices xs s = [ri]" by (cases "root_indices xs s") auto
  have "processed_get xs ri = Some c" using h(5) [of 0] ri by simp
  then show ?thesis unfolding Boc_decode_def h(1) ok_Ok h(2,3) ri by simp
qed

text \<open>A cell with three bits that refers to the empty cell twice.\<close>

definition demo_tree :: cell where
  "demo_tree = OrdinaryCell 3 [(replicate 32 0, 1)] (cd_new 2 1) [EmptyOrdinaryCell, EmptyOrdinaryCell] [0xB0]"

lemma demo_tree_parts:
  "cd_level_mask (cd_new 2 1) = 0" "is_exotic (cd_new 2 1) = False" "reference_count (cd_new 2 1) = 2"
  "store_hashes (cd_new 2 1) = False" "compute_level_mask [EmptyOrdinaryCell, EmptyOrdinaryCell] = 0"
  "compute_d2 3 = 1" "tag_ok [0xB0] 3" "cell_type (cd_new 2 1) = Ordinary" "div_ceil8 3 = 1" "d2 (cd_new 2 1) = 1"
  "d1 (cd_new 2 1) = 2" "level 0 = 0" "byte_len (cd_new 2 1) = 1"
  by code_simp+

lemma demo_tree_storable: "storable no_hash demo_tree" "storable no_hash EmptyOrdinaryCell"
proof -
  let ?p = "\<lparr>cp_bit_len = 3, cp_descriptor = cd_new 2 1, cp_children_mask = 0,
    cp_references = [EmptyOrdinaryCell, EmptyOrdinaryCell], cp_data = [0xB0]\<rparr>"
  note p = demo_tree_parts
  have "hash_levels no_hash ?p False 0 [0..<4] [] = Ok [(replicate 32 0, 1)]"
    by (simp add: upt_rec contains_def p no_hash_def)
  then have "finalize_cell no_hash ?p = Ok demo_tree"
    by (simp add: finalize_cell_def compute_hashes_def p ct_is_pruned_branch_def ct_is_merkle_def make_cell_def demo_tree_def)
  moreover have "parts_of demo_tree = ?p" by (simp add: parts_of_def demo_tree_def p)
  moreover have "wf_cell demo_tree"
    by (simp add: demo_tree_def p MAX_BIT_LEN_def MAX_REF_COUNT_def)
  ultimately show "storable no_hash demo_tree"
    by (simp add: storable_def pruned_with_hashes_def p, simp add: demo_tree_def p)
  show "storable no_hash EmptyOrdinaryCell" by code_simp
qed

lemma demo_tree_cells: "set (subcells demo_tree) = {demo_tree, EmptyOrdinaryCell}"
  by (auto simp: demo_tree_def)

lemma demo_tree_hashes: "inj_on repr_hash {demo_tree, EmptyOrdinaryCell}"
proof -
  have "repr_hash demo_tree \<noteq> repr_hash EmptyOrdinaryCell" by code_simp
  then show ?thesis by (auto simp: inj_on_def)
qed

lemma no_hash_length: "\<forall>x. length (no_hash x) = 32"
  by (simp add: no_hash_def)

lemma ser_state_count:
  assumes "tree_set U" "ser_state U wh ic roots xs s" "finite U"
  shows "length (rev_cells s) \<le> card U"
  using assms ser_state_cells [OF assms(2)] card_mono [OF assms(3), of "set xs"]
  by (auto simp: ser_state_def collected_def distinct_card)

lemma demo_tree_ok: "tree_ok no_hash {demo_tree, EmptyOrdinaryCell}"
  unfolding tree_ok_def by (intro conjI demo_tree_hashes no_hash_length) (simp add: demo_tree_storable)

lemmas demo_tree_set = tree_ok_set [of no_hash demo_tree, unfolded demo_tree_cells, OF demo_tree_ok]

lemmas demo_tree_facts = demo_tree_ok [unfolded tree_ok_def, THEN conjunct1]
  demo_tree_hashes no_hash_length

lemma demo_tree_count: "length (rev_cells (with_root demo_tree)) < 2 ^ 32"
  "length (rev_cells (add_root EmptyOrdinaryCell (with_root demo_tree))) < 2 ^ 32"
proof -
  have c: "card {demo_tree, EmptyOrdinaryCell} \<le> 2" by (simp add: card_insert_if)
  from with_root_state [OF demo_tree_set, of demo_tree] obtain xs where
    x: "ser_state {demo_tree, EmptyOrdinaryCell} False False [demo_tree] xs (with_root demo_tree)" by auto
  then have "length (rev_cells (with_root demo_tree)) \<le> 2"
    using ser_state_count [OF demo_tree_set x] c by simp
  then show "length (rev_cells (with_root demo_tree)) < 2 ^ 32" by simp
  from add_root_state [OF demo_tree_set _ x, of EmptyOrdinaryCell] obtain ys where
    y: "ser_state {demo_tree, EmptyOrdinaryCell} False False ([demo_tree] @ [EmptyOrdinaryCell]) (xs @ ys)
      (add_root EmptyOrdinaryCell (with_root demo_tree))" by auto
  then have "length (rev_cells (add_root EmptyOrdinaryCell (with_root demo_tree))) \<le> 2"
    using ser_state_count [OF demo_tree_set y] c by simp
  then show "length (rev_cells (add_root EmptyOrdinaryCell (with_root demo_tree))) < 2 ^ 32" by simp
qed

lemma demo_tree_decodes:
  "Boc_decode crc no_hash (boc_encode crc (with_crc (with_root demo_tree) ic) []) = Ok demo_tree"
proof -
  from ready_single [of demo_tree no_hash ic, unfolded demo_tree_cells, OF demo_tree_facts demo_tree_count(1)]
  obtain xs where "ready no_hash {demo_tree, EmptyOrdinaryCell} False ic [demo_tree] xs (with_crc (with_root demo_tree) ic)" .
  then show ?thesis by (rule ready_single_decode)
qed

section \<open>Round trips\<close>

text \<open>
  C24. A cell tree that is encoded, with or without a checksum, is decoded to the same tree: the same
  cells with the same data, types, children, hashes and depths, whatever the sharing between them and
  however deep it is.
\<close>

theorem boc_roundtrip:
  assumes "\<forall>x \<in> set (subcells c). storable sha x" "inj_on repr_hash (set (subcells c))"
    and "\<forall>x. length (sha x) = 32" "length (rev_cells (with_root c)) < 2 ^ 32"
  shows "Boc_decode crc sha (boc_encode crc (with_crc (with_root c) ic) []) = Ok c"
proof -
  from ready_single [OF assms] obtain xs
    where "ready sha (set (subcells c)) False ic [c] xs (with_crc (with_root c) ic)" .
  then show ?thesis by (rule ready_single_decode)
qed

lemma boc_roundtrip_witness:
  "Boc_decode (\<lambda>_. 0) no_hash (boc_encode (\<lambda>_. 0) (with_crc (with_root demo_tree) True) []) = Ok demo_tree"
  by (rule boc_roundtrip [where c = demo_tree, unfolded demo_tree_cells, OF demo_tree_facts demo_tree_count(1)])

text \<open>
  A pair of cell trees is decoded to the same pair, provided that there are at least two cells in
  all (the trees may share any number of cells, and may be equal).
\<close>

theorem boc_pair_roundtrip:
  assumes "\<forall>x \<in> set (subcells c1) \<union> set (subcells c2). storable sha x"
    and "inj_on repr_hash (set (subcells c1) \<union> set (subcells c2))" "\<forall>x. length (sha x) = 32"
    and "length (rev_cells (add_root c2 (with_root c1))) < 2 ^ 32" "c1 \<noteq> c2 \<or> cell_children c1 \<noteq> []"
  shows "Boc_decode_pair crc sha (Boc_encode_pair crc (c1, c2)) = Ok (c1, c2)"
proof -
  let ?U = "set (subcells c1) \<union> set (subcells c2)" and ?s = "add_root c2 (with_root c1)"
  have ok: "tree_ok sha ?U" using assms(1-3) by (simp add: tree_ok_def)
  have ts: "tree_set ?U"
    using assms(1,2) subcells_children by (auto simp: tree_set_def storable_def)
  have "c1 \<in> ?U" "c2 \<in> ?U" by simp_all
  from with_root_state [OF ts this(1)] obtain ys where y: "ser_state ?U False False [c1] ys (with_root c1)" .
  from add_root_state [OF ts \<open>c2 \<in> ?U\<close> y] obtain zs where
    x: "ser_state ?U False False [c1, c2] (ys @ zs) ?s" by auto
  let ?xs = "ys @ zs"
  note xc = ser_state_cells [OF x]
  have mem: "c1 \<in> set ?xs" "c2 \<in> set ?xs" "topo ?xs" using x by (auto simp: ser_state_def collected_def)
  have "2 \<le> length ?xs"
  proof (rule ccontr)
    assume "\<not> 2 \<le> length ?xs"
    moreover have "length ?xs \<noteq> 0" using mem(1) by auto
    ultimately have "length ?xs = Suc 0" by linarith
    then obtain d where d: "?xs = [d]" unfolding length_Suc_conv by auto
    then have "c1 = d" "c2 = d" using mem by auto
    moreover have "\<forall>r \<in> set (cell_children d). False" using mem(3) unfolding d topo_def by simp
    then have "cell_children d = []" by (cases "cell_children d") auto
    ultimately show False using assms(5) by simp
  qed
  then have r: "ready sha ?U False False [c1, c2] ?xs ?s"
    using assms(4) xc by (intro ser_state_ready [OF ts ok x]) auto
  have "\<And>m. min_roots \<lparr>min_roots = Some 2, max_roots = Some 2\<rparr> = Some m \<Longrightarrow> m \<le> length [c1, c2]"
    "length [c1, c2] \<le> (case max_roots \<lparr>min_roots = Some 2, max_roots = Some 2\<rparr> of Some m \<Rightarrow> m | None \<Rightarrow> MAX_ROOTS)"
    by simp_all
  from ready_decode [OF r this] obtain h where
    h: "boc_decode crc (boc_encode crc ?s []) \<lparr>min_roots = Some 2, max_roots = Some 2\<rparr> = Ok h"
      "bh_roots h = root_indices ?xs ?s" "bh_finalize sha h = Ok ?xs" "length (root_indices ?xs ?s) = length [c1, c2]"
      "\<And>i. i < length [c1, c2] \<Longrightarrow> processed_get ?xs (root_indices ?xs ?s ! i) = Some ([c1, c2] ! i)" by blast
  from h(4) obtain r1 r2 where ri: "root_indices ?xs ?s = [r1, r2]"
    by (cases "root_indices ?xs ?s"; cases "tl (root_indices ?xs ?s)") auto
  have "processed_get ?xs r1 = Some c1" "processed_get ?xs r2 = Some c2"
    using h(5) [of 0] h(5) [of 1] ri by simp_all
  then show ?thesis unfolding Boc_decode_pair_def Boc_encode_pair_def fst_conv snd_conv h(1) ok_Ok h(2,3) ri by simp
qed

lemma boc_pair_roundtrip_witness:
  "Boc_decode_pair (\<lambda>_. 0) no_hash (Boc_encode_pair (\<lambda>_. 0) (demo_tree, EmptyOrdinaryCell))
    = Ok (demo_tree, EmptyOrdinaryCell)"
proof -
  have u: "set (subcells demo_tree) \<union> set (subcells EmptyOrdinaryCell) = {demo_tree, EmptyOrdinaryCell}"
    by (auto simp: demo_tree_cells)
  have "demo_tree \<noteq> EmptyOrdinaryCell \<or> cell_children demo_tree \<noteq> []" by (simp add: demo_tree_def)
  then show ?thesis
    by (rule boc_pair_roundtrip [where ?c1.0 = demo_tree and ?c2.0 = EmptyOrdinaryCell, unfolded u,
          OF demo_tree_facts demo_tree_count(2)])
qed

text \<open>
  The exception is real: a pair of equal cells without children is encoded with two roots and one
  cell, and the decoder answers \<open>TooManyRootCells\<close>.
\<close>

theorem boc_pair_same_leaf:
  "Boc_decode_pair crc sha (Boc_encode_pair crc (EmptyOrdinaryCell, EmptyOrdinaryCell)) = Err TooManyRootCells"
proof -
  let ?s = "ser_visit EmptyOrdinaryCell ser_new"
  have "iter_list (references EmptyOrdinaryCell) = []" using iter_references [of EmptyOrdinaryCell] by simp
  then have f: "fill_recursive EmptyOrdinaryCell ser_new = ?s" by (simp add: fill_recursive_eq)
  have "ser_fill EmptyOrdinaryCell ser_new = (cell_count ?s - 1, ?s)"
    by (simp add: ser_fill_def f repr_depth_def Let_def SAFE_DEPTH_def ser_new_def [THEN arg_cong, of rev_indices])
  then have "with_root EmptyOrdinaryCell = ?s\<lparr>root_rev_indices := [0]\<rparr>"
    by (simp add: with_root_def add_root_def) (simp add: ser_visit_def ser_new_def Let_def u32_add_def)
  then have s: "add_root EmptyOrdinaryCell (with_root EmptyOrdinaryCell) = ?s\<lparr>root_rev_indices := [0, 0]\<rparr>"
    by (simp add: add_root_def ser_fill_def) (simp add: ser_visit_def ser_new_def Let_def u32_add_def)
  have n: "number_of_bytes_to_fit 1 = 1" "number_of_bytes_to_fit 2 = 1" "be_tail32 1 1 = [1]" "be_tail32 1 2 = [2]"
    "be_tail64 1 2 = [2]" "be_tail32 1 0 = [0]" "drop 3 (replicate 4 (0 :: byte)) = [0]"
    "byte_len_full (descriptor EmptyOrdinaryCell) False = 0" "reference_count (descriptor EmptyOrdinaryCell) = 0"
    "(of_nat 1 :: byte) OR of_bool False * 64 = 1" by code_simp+
  have "header_bytes (add_root EmptyOrdinaryCell (with_root EmptyOrdinaryCell))
      = tag_GENERIC @ [1, 1, 1, 2, 0, 2, 0, 0]"
    "include_crc (add_root EmptyOrdinaryCell (with_root EmptyOrdinaryCell)) = False"
    unfolding s using n
    by (simp_all add: header_bytes_def compute_stats_def Let_def ser_visit_def ser_new_def u32_add_def u64_add_def
        n(2,4,5) [unfolded One_nat_def numeral_2_eq_2])
  then have "Boc_encode_pair crc (EmptyOrdinaryCell, EmptyOrdinaryCell)
      = tag_GENERIC @ [1, 1, 1, 2, 0, 2, 0, 0] @ encode_cells_chunk (add_root EmptyOrdinaryCell (with_root EmptyOrdinaryCell))
        (rev_cells (add_root EmptyOrdinaryCell (with_root EmptyOrdinaryCell)))
        (st_ref_size (compute_stats (add_root EmptyOrdinaryCell (with_root EmptyOrdinaryCell))))"
    by (simp add: Boc_encode_pair_def boc_encode_def encode_crc_def)
  then obtain r where e: "Boc_encode_pair crc (EmptyOrdinaryCell, EmptyOrdinaryCell) = tag_GENERIC @ [1, 1, 1, 2, 0, 2, 0, 0] @ r"
    by blast
  have f32: "unat (from_be_bytes [b] :: 32 word) = unat b" for b :: byte
    using unat_byte_less [of b] by (simp add: from_be_bytes_def unsigned_ucast_eq take_bit_nat_eq_self_iff del: unat_byte_less)
  show ?thesis
    unfolding Boc_decode_pair_def e
    by (simp add: boc_decode_def br_require_def tag_from_bytes_def tag_GENERIC_def Let_def
        read_next_be_uint_fast_def read_be_u32_fast_def f32)
qed

section \<open>Decoding anything\<close>

text \<open>
  C25. Whatever the input bytes: a decoded cell is well-formed, and it and all cells below it are exactly
  what finalizing their data and children gives (so their hashes and depths are those of their content
  and exotic cells passed validation), with a correct completion tag. The root index is always found:
  after a header was accepted, the only failures are those of building cells.
\<close>

theorem boc_decode_safe:
  assumes "Boc_decode crc sha data = Ok c"
  shows "\<forall>x \<in> set (subcells c). wf_cell x \<and> finalize_cell sha (parts_of x) = Ok x \<and> tag_ok (cell_data x) (cell_bit_len x)"
proof -
  from assms obtain h root rs cells where
    h: "boc_decode crc data \<lparr>min_roots = Some 1, max_roots = Some 1\<rparr> = Ok h" "bh_roots h = root # rs"
      "bh_finalize sha h = Ok cells" "processed_get cells root = Some c"
    by (auto simp: Boc_decode_def elim!: ok_eq_OkE split: list.splits option.splits)
  have "list_all (raw_ok (bh_ref_size h)) (rev (bh_cells h))" using boc_decode_sound(1) [OF h(1)] by (simp add: list_all_iff)
  then have "list_all (storable_tree sha) cells"
    using finalize_cells_sound [OF h(3) [unfolded bh_finalize_def]] by simp
  moreover have "c \<in> set cells" using h(4) by (auto simp: processed_get_def nth_opt_def split: if_splits)
  ultimately have "storable_tree sha c" by (simp add: list_all_iff)
  then show ?thesis by (simp add: storable_tree_def list_all_iff storable_def)
qed

lemma boc_decode_safe_witness: "finalize_cell no_hash (parts_of demo_tree) = Ok demo_tree"
  using boc_decode_safe [OF demo_tree_decodes [of "\<lambda>_. 0" False]] subcells_self [of demo_tree] by blast

text \<open>
  The iterative search for deep trees collects exactly what the recursive one collects, in the same
  order, from every state; so \<open>fill\<close> does not depend on its depth threshold.
\<close>

theorem fill_deep_is_recursive:
  "fill_deep root s = fill_recursive root s
    \<and> ser_fill root s = (case rev_indices s (repr_hash root) of
      Some index \<Rightarrow> (index, s) | None \<Rightarrow> (cell_count (fill_recursive root s) - 1, fill_recursive root s))"
  by (simp_all add: fill_deep_eq ser_fill_def Let_def split: option.split)

section \<open>Writing\<close>

lemma concat_rchunks: "0 < n \<Longrightarrow> concat (rev (rchunks n xs)) = xs"
proof (induction n xs rule: rchunks.induct)
  case (1 n xs)
  show ?case
  proof (cases "xs = []")
    case False
    then have "rchunks n xs = drop (length xs - n) xs # rchunks n (take (length xs - n) xs)"
      using 1(2) by (subst rchunks.simps) simp
    then show ?thesis using 1 False by simp
  qed (simp add: rchunks.simps)
qed

lemma encode_chunks: "encode_cells_chunk s (concat (rev yss)) n = concat (map (\<lambda>ys. encode_cells_chunk s ys n) yss)"
  by (induction yss) (simp_all add: encode_cells_chunk_def)

lemma write_chunks:
  assumes "\<forall>a b. crc_append (crc a) b = crc (a @ b)"
  shows "fold (\<lambda>cells (written, c).
      let chunk = encode_cells_chunk s cells n in (written @ [chunk], reset_chunk crc_append c chunk)) yss
      (ws, if ic then Some (crc (concat ws)) else None)
    = (ws @ map (\<lambda>ys. encode_cells_chunk s ys n) yss,
       if ic then Some (crc (concat ws @ concat (map (\<lambda>ys. encode_cells_chunk s ys n) yss))) else None)"
proof (induction yss arbitrary: ws)
  case (Cons ys yss)
  have "reset_chunk crc_append (if ic then Some (crc (concat ws)) else None) (encode_cells_chunk s ys n)
      = (if ic then Some (crc (concat (ws @ [encode_cells_chunk s ys n]))) else None)"
    using assms by simp
  then show ?case using Cons.IH [of "ws @ [encode_cells_chunk s ys n]"] by (simp add: Let_def)
qed simp

text \<open>
  Writing a bag of cells in chunks writes the same bytes as encoding it at once, for every collected
  state: the chunks are cut from the end, reversed, and the checksum is updated chunk by chunk. What
  is assumed of the library is that updating a checksum by \<open>crc32c_append\<close> is the checksum of the
  concatenation.
\<close>

theorem encode_to_writer_encodes:
  assumes "\<forall>a b. crc_append (crc a) b = crc (a @ b)" "crc [] = 0"
  shows "concat (encode_to_writer crc_append s) = boc_encode crc s []"
proof -
  let ?n = "st_ref_size (compute_stats s)" and ?h = "header_bytes s"
  let ?c = "if include_crc s then Some (crc (concat [?h])) else None"
  have h: "reset_chunk crc_append (if include_crc s then Some 0 else None) ?h = ?c"
    using assms(1) [rule_format, of "[]" ?h] assms(2) by simp
  have "encode_cells_chunk s (concat (rev (rchunks CELLS_CHUNK_SIZE (rev_cells s)))) ?n
      = encode_cells_chunk s (rev_cells s) ?n"
    by (subst concat_rchunks) (simp_all add: CELLS_CHUNK_SIZE_def)
  then have b: "concat (map (\<lambda>ys. encode_cells_chunk s ys ?n) (rchunks CELLS_CHUNK_SIZE (rev_cells s)))
      = encode_cells_chunk s (rev_cells s) ?n" by (simp only: encode_chunks)
  show ?thesis
    unfolding encode_to_writer_def Let_def h write_chunks [OF assms(1), where s = s and n = ?n and ws = "[?h]", unfolded Let_def]
    by (simp add: boc_encode_def encode_crc_def Let_def b)
qed

text \<open>A checksum with the two laws.\<close>

definition sum_crc :: "32 word \<Rightarrow> byte list \<Rightarrow> 32 word" where
  "sum_crc = foldl (\<lambda>a b. 33 * a + ucast b)"

lemma encode_to_writer_encodes_witness:
  "concat (encode_to_writer sum_crc (with_crc (with_root demo_tree) True))
    = boc_encode (sum_crc 0) (with_crc (with_root demo_tree) True) []"
  by (rule encode_to_writer_encodes) (simp_all add: sum_crc_def)

text \<open>
  The statistics are exact: the encoded bag has \<open>total_size\<close> bytes, of which \<open>total_cells_size\<close> are
  cells; the sizes do not wrap and fit into the widths of the header.
\<close>

theorem boc_encoded_size:
  assumes "\<forall>x \<in> set (subcells c). storable sha x" "inj_on repr_hash (set (subcells c))"
    and "\<forall>x. length (sha x) = 32" "length (rev_cells (with_root c)) < 2 ^ 32"
  shows "let s = with_crc (with_root c) ic; st = compute_stats s
    in length (boc_encode crc s []) = st_total_size st
      \<and> length (encode_cells_chunk s (rev_cells s) (st_ref_size st)) = st_total_cells_size st
      \<and> 1 \<le> st_ref_size st \<and> st_ref_size st \<le> 4 \<and> cell_count s < 256 ^ st_ref_size st
      \<and> 1 \<le> st_offset_size st \<and> st_offset_size st \<le> 8 \<and> st_total_cells_size st < 256 ^ st_offset_size st"
proof -
  let ?s = "with_crc (with_root c) ic"
  from ready_single [OF assms] obtain xs where r: "ready sha (set (subcells c)) False ic [c] xs ?s" .
  note st = ready_stats [OF r] and b = ready_body [OF r]
  note o = number_of_bytes_to_fit [OF st(7)]
  from ready_facts [OF r] obtain ris where g: "?s = (base False ic xs)\<lparr>root_rev_indices := ris\<rparr>" "length ris = length [c]"
    and h: "cell_count ?s = length xs" "rev_cells ?s = xs" "include_crc ?s = ic" by metis
  have "root_rev_indices ?s = ris" "length ris = 1" using arg_cong [OF g(1), of root_rev_indices] g(2) by simp_all
  note f = h this
  have ri: "length (root_indices xs ?s) = 1" using f(4,5) by (simp add: root_indices_def)
  then have rl: "length (concat (map (be_tail32 (number_of_bytes_to_fit (length xs))) (root_indices xs ?s)))
      = number_of_bytes_to_fit (length xs)"
    using length_concat_const [of "root_indices xs ?s" "be_tail32 (number_of_bytes_to_fit (length xs))"] st(5) by simp
  have "length xs * (4 * number_of_bytes_to_fit (length xs)) \<le> length xs * 16"
    using st(5) by (intro mult_le_mono2) simp
  moreover have "cells_size False xs \<le> length xs * 266 + length xs * (4 * number_of_bytes_to_fit (length xs))"
    using st(9) by (simp add: MAX_REF_COUNT_def distrib_left)
  ultimately have "cells_size False xs \<le> length xs * 282" by linarith
  moreover have "length xs < 2 ^ 32" using r by (simp add: ready_def)
  ultimately have t: "cells_size False xs + 100 < 2 ^ 64" by simp
  have "st_total_size (compute_stats ?s) = 6 + number_of_bytes_to_fit (length xs) * 4
      + number_of_bytes_to_fit (cells_size False xs) + cells_size False xs + of_bool ic * 4"
    using t st(5) o(2) st(1-3) f(3-5) unfolding compute_stats_def Let_def u64_add_def by auto
  moreover have "length (boc_encode crc ?s []) = 6 + number_of_bytes_to_fit (length xs) * 4
      + number_of_bytes_to_fit (cells_size False xs) + cells_size False xs + of_bool ic * 4"
    unfolding boc_encode_layout [OF r] using rl ri b st(5) o(2) by (simp add: boc_layout_def tag_GENERIC_def)
  ultimately show ?thesis using st(1-6) o(1,2) o(4) [OF st(8)] b f by (simp add: Let_def)
qed

lemma boc_encoded_size_witness:
  "length (boc_encode (\<lambda>_. 0) (with_crc (with_root demo_tree) True) [])
    = st_total_size (compute_stats (with_crc (with_root demo_tree) True))"
  using boc_encoded_size [where c = demo_tree and ic = True and crc = "\<lambda>_. 0", unfolded demo_tree_cells,
      OF demo_tree_facts demo_tree_count(1)] by (simp add: Let_def)

end
