(* ===== verification/Merkle_Proof.thy ===== *)
theory Merkle_Proof
  imports Cell_Tree Cell_Builder
begin

text \<open>
  \<^verbatim>\<open>src/merkle/mod.rs\<close>, \<^verbatim>\<open>src/merkle/pruned_branch.rs\<close> and \<^verbatim>\<open>src/merkle/proof.rs\<close>: filters, pruned
  branches, the parsed Merkle proof with its loader and writer, and the builder of proofs. A filter is
  a function from representation hashes; a hash map of cells is a map from hashes. The Merkle depth of
  a cell is the number of Merkle cells above it.
\<close>

section \<open>Filters\<close>

datatype filter_action = Skip | Include | IncludeSubtree

type_synonym merkle_filter = "hash_bytes \<Rightarrow> filter_action"

text \<open>The implementations of \<open>MerkleFilter\<close> by a set of hashes and by a usage tree with subtrees.\<close>

definition set_filter :: "hash_bytes set \<Rightarrow> merkle_filter" where
  "set_filter S h = (if h \<in> S then Include else Skip)"

definition subtrees_filter :: "hash_bytes set \<Rightarrow> hash_bytes set \<Rightarrow> merkle_filter" where
  "subtrees_filter visited subtrees h =
    (if h \<in> visited then Include else if h \<in> subtrees then IncludeSubtree else Skip)"

section \<open>Pruned branches\<close>

text \<open>A call whose error is ignored (\<open>_ = f(&mut b)\<close>); a failing store leaves the builder as it was.\<close>

definition attempt :: "('b \<Rightarrow> 'b result) \<Rightarrow> 'b \<Rightarrow> 'b" where
  "attempt f b = (case f b of Inr b' \<Rightarrow> b' | Inl _ \<Rightarrow> b)"

definition store_hash_of :: "cell \<Rightarrow> nat \<Rightarrow> cell_builder \<Rightarrow> cell_builder" where
  "store_hash_of cell l = attempt (on_inner (\<lambda>d. store_u256 d (cell_hash cell l)))"

definition store_depth_of :: "cell \<Rightarrow> nat \<Rightarrow> cell_builder \<Rightarrow> cell_builder" where
  "store_depth_of cell l = attempt (on_inner (\<lambda>d. store_u16 d (of_nat (cell_depth cell l))))"

definition make_pruned_branch :: "sha256 \<Rightarrow> cell \<Rightarrow> nat \<Rightarrow> cell result" where
  "make_pruned_branch sha cell merkle_depth =
    (let cell_level_mask = cd_level_mask (descriptor cell);
         new_level = push_bit (merkle_depth mod 8) 1;
         level_mask = lm_new (cell_level_mask OR new_level);
         b = set_exotic cb_new True;
         b = attempt (on_inner (\<lambda>d. store_u16 d (from_be_bytes [ct_to_byte PrunedBranchType, level_mask]))) b;
         lower = lm_new (cell_level_mask AND (new_level - 1));
         levels = lm_iter_list (lm_into_iter lower);
         b = fold (store_hash_of cell) levels b;
         b = fold (store_depth_of cell) levels b
     in build_ext sha b)"

definition PRUNED_BITS_THRESHOLD :: nat where "PRUNED_BITS_THRESHOLD = 288"

section \<open>The parsed proof\<close>

record merkle_proof =
  mp_hash :: hash_bytes
  mp_depth :: nat
  mp_cell :: cell

definition mp_BITS :: nat where "mp_BITS = 8 + 256 + 16"

definition mp_REFS :: nat where "mp_REFS = 1"

definition mp_default :: merkle_proof where
  "mp_default = \<lparr>mp_hash = EMPTY_CELL_HASH, mp_depth = 0, mp_cell = EmptyOrdinaryCell\<rparr>"

definition mp_eq :: "merkle_proof \<Rightarrow> merkle_proof \<Rightarrow> bool" where
  "mp_eq a b \<longleftrightarrow> mp_hash a = mp_hash b \<and> mp_depth a = mp_depth b \<and> cell_eq (mp_cell a) (mp_cell b)"

definition mp_load_from_cell :: "cell \<Rightarrow> merkle_proof result" where
  "mp_load_from_cell cell =
    (if \<not> cell_is_exotic cell then Err UnexpectedOrdinaryCell
     else
       let s = slice_new_allow_exotic cell
       in if size_bits s \<noteq> mp_BITS \<or> size_refs s \<noteq> mp_REFS then Err CellUnderflow
          else ok (load_u8 s) (\<lambda>(tag, s).
            if tag \<noteq> ct_to_byte MerkleProofType then Err InvalidCell
            else ok (load_u256 s) (\<lambda>(hash, s). ok (load_u16 s) (\<lambda>(depth, s). ok (load_reference_cloned s) (\<lambda>(child, s).
              let res = \<lparr>mp_hash = hash, mp_depth = unat depth, mp_cell = child\<rparr>
              in if cell_hash child 0 = hash \<and> cell_depth child 0 = unat depth then Ok res else Err InvalidCell)))))"

definition mp_store_into :: "merkle_proof \<Rightarrow> cell_builder \<Rightarrow> cell_builder result" where
  "mp_store_into p b =
    (if \<not> has_capacity b mp_BITS mp_REFS then Err CellOverflow
     else
       let b = set_exotic b True
       in ok (on_inner (\<lambda>d. store_u8 d (ct_to_byte MerkleProofType)) b) (\<lambda>b.
          ok (on_inner (\<lambda>d. store_u256 d (mp_hash p)) b) (\<lambda>b.
          ok (on_inner (\<lambda>d. store_u16 d (of_nat (mp_depth p))) b) (\<lambda>b.
          store_reference b (mp_cell p)))))"

section \<open>Building a proof\<close>

text \<open>A cell that is being rebuilt, and what the builder remembers: rebuilt cells and pruned hashes.\<close>

record merkle_node =
  nd_references :: refs_iter
  nd_descriptor :: cell_descriptor
  nd_merkle_depth :: nat
  nd_children :: "cell list"

record merkle_state =
  ms_cells :: "hash_bytes \<Rightarrow> cell option"
  ms_pruned :: "hash_bytes set option"

definition open_node :: "nat \<Rightarrow> cell \<Rightarrow> merkle_node" where
  "open_node merkle_depth cell =
    \<lparr>nd_references = references cell, nd_descriptor = descriptor cell,
     nd_merkle_depth = u8_add merkle_depth (of_bool (is_merkle (descriptor cell))), nd_children = []\<rparr>"

definition push_child :: "merkle_node \<Rightarrow> cell \<Rightarrow> merkle_node" where
  "push_child n c = n\<lparr>nd_children := attempt (\<lambda>rs. refs_store_reference rs c) (nd_children n)\<rparr>"

definition close_node :: "sha256 \<Rightarrow> merkle_node \<Rightarrow> cell result" where
  "close_node sha n =
    (let b = set_exotic cb_new (is_exotic (nd_descriptor n));
         b = attempt (on_inner (\<lambda>d. store_cell_data d (ri_cell (nd_references n)))) b;
         b = set_references b (nd_children n)
     in build_ext sha b)"

text \<open>
  The loop of \<open>BuilderImpl::build\<close>, the top of its stack first. The stack is empty only when the root
  was returned; the clone of a child that the iterator has just yielded exists.
\<close>

definition prunes_child :: "merkle_filter \<Rightarrow> bool \<Rightarrow> cell \<Rightarrow> bool" where
  "prunes_child flt prune_big child \<longleftrightarrow>
    flt (repr_hash child) = Skip
    \<and> (reference_count (descriptor child) > 0 \<or> prune_big \<and> cell_bit_len child > PRUNED_BITS_THRESHOLD)"

function merkle_loop ::
  "sha256 \<Rightarrow> merkle_filter \<Rightarrow> bool \<Rightarrow> merkle_node list \<Rightarrow> merkle_state \<Rightarrow> (cell \<times> merkle_state) result" where
  "merkle_loop sha flt prune_big [] s = Err EmptyProof"
| "merkle_loop sha flt prune_big (node # stack) s =
    (case ri_next (nd_references node) of
       (Some child, it) \<Rightarrow>
         let node = node\<lparr>nd_references := it\<rparr>
         in (case ms_cells s (repr_hash child) of
               Some c \<Rightarrow> merkle_loop sha flt prune_big (push_child node c # stack) s
             | None \<Rightarrow>
                 if flt (repr_hash child) = IncludeSubtree
                 then merkle_loop sha flt prune_big (push_child node (the (ri_peek_prev_cloned it)) # stack) s
                 else if prunes_child flt prune_big child
                 then ok (make_pruned_branch sha child (nd_merkle_depth node)) (\<lambda>c.
                   merkle_loop sha flt prune_big (push_child node c # stack)
                     (s\<lparr>ms_pruned := map_option (insert (repr_hash child)) (ms_pruned s)\<rparr>))
                 else merkle_loop sha flt prune_big (open_node (nd_merkle_depth node) child # node # stack) s)
     | (None, it) \<Rightarrow>
         ok (close_node sha node) (\<lambda>c.
           let s = s\<lparr>ms_cells := (ms_cells s)(repr_hash (ri_cell (nd_references node)) \<mapsto> c)\<rparr>
           in case stack of
                parent # stack \<Rightarrow> merkle_loop sha flt prune_big (push_child parent c # stack) s
              | [] \<Rightarrow> Ok (c, s)))"
  by pat_completeness auto
termination
  by (relation "measure (\<lambda>(sha, flt, prune_big, stack, s). sum_list (map (frame_weight \<circ> nd_references) stack))")
     (auto simp: push_child_def open_node_def frame_weight_pos frame_weight_step)

declare merkle_loop.simps(2) [simp del]

record merkle_proof_builder =
  pb_root :: cell
  pb_filter :: merkle_filter
  pb_allow_different_root :: bool
  pb_prune_big_cells :: bool

definition proof_create :: "cell \<Rightarrow> merkle_filter \<Rightarrow> merkle_proof_builder" where
  "proof_create root flt =
    \<lparr>pb_root = root, pb_filter = flt, pb_allow_different_root = False, pb_prune_big_cells = False\<rparr>"

definition set_allow_different_root :: "merkle_proof_builder \<Rightarrow> bool \<Rightarrow> merkle_proof_builder" where
  "set_allow_different_root b allow = b\<lparr>pb_allow_different_root := allow\<rparr>"

definition set_prune_big_cells :: "merkle_proof_builder \<Rightarrow> bool \<Rightarrow> merkle_proof_builder" where
  "set_prune_big_cells b allow = b\<lparr>pb_prune_big_cells := allow\<rparr>"

definition merkle_build :: "sha256 \<Rightarrow> merkle_proof_builder \<Rightarrow> hash_bytes set option \<Rightarrow> (cell \<times> merkle_state) result" where
  "merkle_build sha b pruned_branches =
    (if \<not> pb_allow_different_root b \<and> pb_filter b (repr_hash (pb_root b)) = Skip then Err EmptyProof
     else merkle_loop sha (pb_filter b) (pb_prune_big_cells b) [open_node 0 (pb_root b)]
       \<lparr>ms_cells = Map.empty, ms_pruned = pruned_branches\<rparr>)"

definition proof_build_raw :: "sha256 \<Rightarrow> merkle_proof_builder \<Rightarrow> cell result" where
  "proof_build_raw sha b = ok (merkle_build sha b None) (\<lambda>(cell, s). Ok cell)"

definition proof_build :: "sha256 \<Rightarrow> merkle_proof_builder \<Rightarrow> merkle_proof result" where
  "proof_build sha b = ok (proof_build_raw sha b) (\<lambda>cell.
    Ok \<lparr>mp_hash = repr_hash (pb_root b), mp_depth = repr_depth (pb_root b), mp_cell = cell\<rparr>)"

text \<open>With \<open>track_pruned_branches\<close>: the root, the rebuilt cells and the hashes of the pruned cells.\<close>

definition ext_build_raw ::
  "sha256 \<Rightarrow> merkle_proof_builder \<Rightarrow> (cell \<times> (hash_bytes \<Rightarrow> cell option) \<times> hash_bytes set) result" where
  "ext_build_raw sha b = ok (merkle_build sha b (Some {})) (\<lambda>(cell, s).
    Ok (cell, ms_cells s, case ms_pruned s of Some pruned \<Rightarrow> pruned | None \<Rightarrow> {}))"

section \<open>Proofs for one cell\<close>

text \<open>The search for the first occurrence of the hash; the stack holds the ancestors.\<close>

function find_path :: "hash_bytes \<Rightarrow> refs_iter list \<Rightarrow> refs_iter list" where
  "find_path child_hash [] = []"
| "find_path child_hash (last_cells # stack) =
    (case ri_next last_cells of
       (Some child, last_cells) \<Rightarrow>
         if repr_hash child = child_hash then last_cells # stack
         else find_path child_hash (references child # last_cells # stack)
     | (None, last_cells) \<Rightarrow> find_path child_hash stack)"
  by pat_completeness auto
termination
  by (relation "measure (\<lambda>(child_hash, stack). sum_list (map frame_weight stack))")
     (auto simp: frame_weight_pos frame_weight_step)

declare find_path.simps(2) [simp del]

definition root_or_child :: "hash_bytes set \<Rightarrow> hash_bytes \<Rightarrow> merkle_filter" where
  "root_or_child cells child_hash h = (if h \<in> cells \<or> h = child_hash then Include else Skip)"

definition create_for_cell :: "cell \<Rightarrow> hash_bytes \<Rightarrow> merkle_proof_builder" where
  "create_for_cell root child_hash =
    (let stack = find_path child_hash [references root];
         cells = (\<lambda>item. repr_hash (ri_cell item)) ` set stack
     in proof_create root (root_or_child cells child_hash))"

end
