(* ===== verification/Merkle_Cells.thy ===== *)
theory Merkle_Cells
  imports Merkle_Proof Cell_Tree_Props Cell_Load
begin

text \<open>
  The cells a Merkle proof is made of. \<open>built sha c\<close>: a builder given the bits, the kind and the
  children of \<open>c\<close> builds \<open>c\<close>. Rebuilding an ordinary cell over children that keep the hash and the depth
  of level 0 keeps its own; a pruned branch keeps the hashes and depths of every level up to its own.
\<close>

section \<open>Rebuilding a cell\<close>

definition cb_like :: "cell \<Rightarrow> cell list \<Rightarrow> cell_builder" where
  "cb_like c rs = \<lparr>cb_inner = mk_bd (cell_bits c), cb_is_exotic = cell_is_exotic c, cb_references = rs\<rparr>"

definition built :: "sha256 \<Rightarrow> cell \<Rightarrow> bool" where
  "built sha c \<longleftrightarrow> wf_cell c \<and> build_ext sha (cb_like c (cell_children c)) = Ok c"

lemma cb_like_ordinary: "\<not> cell_is_exotic c \<Longrightarrow> cb_like c rs = mk_cb (cell_bits c) rs"
  by (simp add: cb_like_def mk_cb_def)

lemma build_ext_built:
  assumes "length bs \<le> 1023" "length rs \<le> 4" "list_all wf_cell rs" "build_ext sha (mk_cb bs rs) = Ok c"
  shows "built sha c"
  using build_ext_holds [OF assms] assms(4) by (simp add: built_def holds_def cb_like_ordinary)

lemma wf_cell_bits_length: "wf_cell c \<Longrightarrow> length (cell_bits c) \<le> 1023"
  using wf_cell_shape(1) [of c] by (simp add: cell_bits_def MAX_BIT_LEN_def)

lemma store_cell_data_new:
  assumes "wf_cell c"
  shows "store_cell_data bd_new c = Ok (mk_bd (cell_bits c))"
proof -
  note w = wf_cell_shape [OF assms]
  have "div_ceil8 (cell_bit_len c) \<le> 128" using w(1) by (simp add: MAX_BIT_LEN_def div_ceil8_le_iff)
  then have l: "length (cell_data c) < 8192" using w(2) by simp
  show ?thesis
    using store_cell_data_mk [of "[]" c] wf_cell_shape_ok [OF assms] l wf_cell_bits_length [OF assms]
    by (simp add: bd_new_mk appended_def MAX_BIT_LEN_def)
qed

lemma close_node_eq:
  assumes "wf_cell (ri_cell (nd_references n))" "nd_descriptor n = descriptor (ri_cell (nd_references n))"
  shows "close_node sha n = build_ext sha (cb_like (ri_cell (nd_references n)) (nd_children n))"
  using store_cell_data_new [OF assms(1)]
  by (simp add: close_node_def attempt_def on_inner_def set_exotic_def cb_new_def set_references_def cb_like_def
      assms(2) cell_is_exotic_def)

section \<open>Children that keep the hash of level 0\<close>

definition low_mask :: "cell \<Rightarrow> bool" where
  "low_mask c \<longleftrightarrow> cell_level_mask c = 0 \<or> cell_level_mask c = 1"

definition keeps :: "cell \<Rightarrow> cell \<Rightarrow> bool" where
  "keeps c c' \<longleftrightarrow> wf_cell c' \<and> low_mask c' \<and> cell_hash c' 0 = cell_hash c 0
     \<and> cell_depth c' 0 = cell_depth c 0 \<and> cell_depth c' 1 \<le> cell_depth c 0"

lemma compute_level_mask_low:
  assumes "list_all low_mask rs"
  shows "compute_level_mask rs = 0 \<or> compute_level_mask rs = 1"
proof -
  have "foldl (\<lambda>m c. m OR cell_level_mask c) m rs = 0 \<or> foldl (\<lambda>m c. m OR cell_level_mask c) m rs = 1"
    if "m = 0 \<or> m = 1" for m
    using assms that
  proof (induction rs arbitrary: m)
    case (Cons r rs)
    have "m OR cell_level_mask r = 0 \<or> m OR cell_level_mask r = 1"
      using Cons.prems by (elim disjE) (auto simp: low_mask_def)
    then show ?case using Cons.IH [of "m OR cell_level_mask r"] Cons.prems(1) by simp
  qed simp
  then show ?thesis by (simp add: compute_level_mask_def)
qed

lemma children_depth_same:
  "list_all2 keeps rs rs' \<Longrightarrow> children_depth 0 rs' n = children_depth 0 rs n"
  by (induction rs rs' arbitrary: n rule: list_all2_induct) (simp_all add: keeps_def Let_def)

lemma children_depth_1:
  "list_all2 keeps rs rs' \<Longrightarrow> children_depth 0 rs n = Ok d \<Longrightarrow> n' \<le> n \<Longrightarrow>
    \<exists>d'. children_depth 1 rs' n' = Ok d' \<and> d' \<le> d"
proof (induction rs rs' arbitrary: n n' rule: list_all2_induct)
  case (Cons r rs r' rs')
  have k: "cell_depth r' 1 \<le> cell_depth r 0" using Cons.hyps(1) by (simp add: keeps_def)
  have b: "cell_depth r 0 + 1 < 65536" "children_depth 0 rs (max n (cell_depth r 0 + 1)) = Ok d"
    using Cons.prems(1) by (simp_all add: Let_def split: if_splits)
  from Cons.IH [OF b(2), of "max n' (cell_depth r' 1 + 1)"] k Cons.prems(2) b(1) show ?case
    by (simp add: Let_def max.coboundedI2 max.mono)
qed auto

lemma concat_same: "list_all2 P xs ys \<Longrightarrow> (\<And>x y. P x y \<Longrightarrow> f y = f x) \<Longrightarrow> concat (map f ys) = concat (map f xs)"
  by (induction xs ys rule: list_all2_induct) auto

text \<open>The hashes of an ordinary cell with at most one significant level.\<close>

lemma hash_levels_low:
  assumes "cd_level_mask (cp_descriptor p) = 0 \<or> cd_level_mask (cp_descriptor p) = 1"
  shows "hash_levels sha p False 0 [0..<4] [] = ok (children_depth 0 (cp_references p) 0) (\<lambda>d0.
    let h0 = (sha (hash_input p False 0 0 []), d0)
    in if cd_level_mask (cp_descriptor p) = 0 then Ok [h0]
       else ok (children_depth 1 (cp_references p) 0) (\<lambda>d1. Ok [h0, (sha (hash_input p False 0 1 [h0]), d1)]))"
proof -
  have u: "[0..<4] = [0, 1, 2, 3]" by (simp add: upt_rec)
  have c: "\<not> contains 0 1" "\<not> contains 0 2" "\<not> contains 0 3" "contains 1 1" "\<not> contains 1 2" "\<not> contains 1 3"
    by (simp_all add: contains_def)
  show ?thesis
    using assms c by (auto simp: u Let_def ok_def split: sum.split)
qed

definition ordinary_parts :: "bool list \<Rightarrow> cell list \<Rightarrow> cell_parts" where
  "ordinary_parts bs rs =
    \<lparr>cp_bit_len = length bs,
     cp_descriptor = cd_new (compute_d1 (compute_level_mask rs) False (length rs)) (compute_d2 (length bs)),
     cp_children_mask = compute_level_mask rs, cp_references = rs, cp_data = tagged bs\<rparr>"

lemma ordinary_parts_simps [simp]:
  "cp_bit_len (ordinary_parts bs rs) = length bs" "cp_references (ordinary_parts bs rs) = rs"
  "cp_data (ordinary_parts bs rs) = tagged bs" "cp_children_mask (ordinary_parts bs rs) = compute_level_mask rs"
  "d2 (cp_descriptor (ordinary_parts bs rs)) = compute_d2 (length bs)"
  "cd_level_mask (cp_descriptor (ordinary_parts bs rs)) = compute_level_mask rs"
  "\<not> is_exotic (cp_descriptor (ordinary_parts bs rs))"
  using compute_level_mask_less [of rs]
  by (simp_all add: ordinary_parts_def) (simp add: cd_new_def)

lemma build_ordinary_low:
  assumes "length bs \<le> 1023" "length rs \<le> 4" "list_all wf_cell rs"
    and "compute_level_mask rs = 0 \<or> compute_level_mask rs = 1"
  shows "build_ext sha (mk_cb bs rs) = ok (children_depth 0 rs 0) (\<lambda>d0.
    let p = ordinary_parts bs rs; h0 = (sha (hash_input p False 0 0 []), d0)
    in if compute_level_mask rs = 0 then Ok (make_cell p [h0])
       else ok (children_depth 1 rs 0) (\<lambda>d1. Ok (make_cell p [h0, (sha (hash_input p False 0 1 [h0]), d1)])))"
proof -
  let ?p = "ordinary_parts bs rs"
  have "compute_hashes sha ?p = hash_levels sha ?p False 0 [0..<4] []"
    by (simp add: compute_hashes_def ct_is_pruned_branch_def ct_is_merkle_def)
  then show ?thesis
    using hash_levels_low [of ?p sha] assms(1,4)
    by (auto simp: build_ext_def build_parts_mk ordinary_parts_def [symmetric] finalize_cell_def ok_def Let_def
        split: sum.split)
qed

lemma hash_input_low:
  assumes "length rs' = length rs" "length rs \<le> 4"
    and "compute_level_mask rs = 0 \<or> compute_level_mask rs = 1" "compute_level_mask rs' = 0 \<or> compute_level_mask rs' = 1"
    and "list_all2 keeps rs rs'"
  shows "hash_input (ordinary_parts bs rs') False 0 0 [] = hash_input (ordinary_parts bs rs) False 0 0 []"
proof -
  have d: "compute_d1 m False (length rs) AND NOT (LEVEL_MASK OR STORE_HASHES_MASK) = of_nat (length rs) AND REF_COUNT_MASK"
    if "m = 0 \<or> m = 1" for m
  proof -
    consider "length rs = 0" | "length rs = 1" | "length rs = 2" | "length rs = 3" | "length rs = 4"
      using assms(2) by linarith
    then show ?thesis using that by cases (auto simp: compute_d1_def cd_masks)
  qed
  have "d1 (cp_descriptor (ordinary_parts bs rs')) AND NOT (LEVEL_MASK OR STORE_HASHES_MASK)
      = d1 (cp_descriptor (ordinary_parts bs rs)) AND NOT (LEVEL_MASK OR STORE_HASHES_MASK)"
    using d [OF assms(3)] d [OF assms(4)] assms(1) by (simp add: ordinary_parts_def cd_new_def)
  moreover have "concat (map (\<lambda>c. u16_be (cell_depth c 0)) rs') = concat (map (\<lambda>c. u16_be (cell_depth c 0)) rs)"
    "concat (map (\<lambda>c. cell_hash c 0) rs') = concat (map (\<lambda>c. cell_hash c 0) rs)"
    by (rule concat_same [OF assms(5)]; simp add: keeps_def)+
  ultimately show ?thesis by (simp add: hash_input_def Let_def)
qed

lemma make_ordinary:
  assumes "\<not> (bs = [] \<and> rs = [])" "length bs \<le> 1023" "length rs \<le> 4"
  shows "make_cell (ordinary_parts bs rs) hs
    = OrdinaryCell (length bs) hs (cp_descriptor (ordinary_parts bs rs)) rs (tagged bs)"
proof -
  have "\<not> (d1 (cp_descriptor (ordinary_parts bs rs)) = 0 \<and> d2 (cp_descriptor (ordinary_parts bs rs)) = 0)"
  proof
    assume z: "d1 (cp_descriptor (ordinary_parts bs rs)) = 0 \<and> d2 (cp_descriptor (ordinary_parts bs rs)) = 0"
    then have "unat (compute_d2 (length bs)) = 0" by simp
    then have "length bs = 0" unfolding unat_compute_d2 [OF assms(2)] by (auto split: if_splits simp: of_bool_def)
    moreover have "reference_count (cp_descriptor (ordinary_parts bs rs)) = length rs"
      using assms(3) by (simp add: ordinary_parts_def reference_count_compute_d1)
    then have "length rs = 0" using z by (simp add: reference_count_def)
    ultimately show False using assms(1) by simp
  qed
  then show ?thesis by (simp add: make_cell_def cell_type_eq)
qed

lemma rebuild_ordinary:
  assumes "built sha c" "\<not> cell_is_exotic c" "list_all low_mask (cell_children c)"
    and "list_all2 keeps (cell_children c) rs'"
  shows "\<exists>c'. build_ext sha (cb_like c rs') = Ok c' \<and> keeps c c' \<and> cell_children c' = rs'
    \<and> cell_bits c' = cell_bits c \<and> \<not> cell_is_exotic c'"
proof -
  define bs rs where "bs = cell_bits c" and "rs = cell_children c"
  have w: "wf_cell c" and b: "build_ext sha (mk_cb bs rs) = Ok c"
    using assms(1,2) by (simp_all add: built_def cb_like_ordinary bs_def rs_def)
  have l: "length bs \<le> 1023" "length rs \<le> 4" "list_all wf_cell rs" "length rs' = length rs"
    using wf_cell_bits_length [OF w] wf_cell_children(2,4) [OF w] wf_cell_shape(3) [OF w] list_all2_lengthD [OF assms(4)]
    by (simp_all add: bs_def rs_def MAX_REF_COUNT_def)
  have k: "list_all2 keeps rs rs'" using assms(4) by (simp add: rs_def)
  then have w': "list_all wf_cell rs'" "list_all low_mask rs'"
    by (auto simp: list_all2_conv_all_nth list_all_length keeps_def)
  have m: "compute_level_mask rs = 0 \<or> compute_level_mask rs = 1" "compute_level_mask rs' = 0 \<or> compute_level_mask rs' = 1"
    using compute_level_mask_low assms(3) w'(2) by (simp_all add: rs_def)
  let ?h = "sha (hash_input (ordinary_parts bs rs) False 0 0 [])"
  note i = hash_input_low [OF l(4,2) m k]
  note B = build_ordinary_low [OF l(1-3) m(1), of sha]
  from b obtain d0 hs where d0: "children_depth 0 rs 0 = Ok d0" and c: "c = make_cell (ordinary_parts bs rs) ((?h, d0) # hs)"
    unfolding B by (auto simp: Let_def ok_eq_Ok_iff split: if_splits)
  note d1 = children_depth_1 [OF k d0 order_refl]
  have d0': "children_depth 0 rs' 0 = Ok d0" using children_depth_same [OF k] d0 by simp
  obtain hs' where b': "build_ext sha (mk_cb bs rs') = Ok (make_cell (ordinary_parts bs rs') ((?h, d0) # hs'))"
    and hs': "compute_level_mask rs' = 0 \<and> hs' = [] \<or> compute_level_mask rs' = 1 \<and> (\<exists>h d. hs' = [(h, d)] \<and> d \<le> d0)"
    using build_ordinary_low [OF l(1) _ w'(1) m(2), of sha] d0' d1 l(2,4) m(2) by (auto simp: i Let_def)
  let ?c' = "make_cell (ordinary_parts bs rs') ((?h, d0) # hs')"
  have hd: "holds ?c' bs rs'" using build_ext_holds [OF l(1) _ w'(1) b'] l(2,4) by simp
  have "keeps c ?c'"
  proof (cases "bs = [] \<and> rs = []")
    case True
    then have "?c' = c" using l(4) b b' by simp
    moreover have "c = EmptyOrdinaryCell"
      using True by (simp add: c make_cell_def cell_type_eq) (simp add: ordinary_parts_def compute_level_mask_def
        compute_d1_def compute_d2_def cd_new_def)
    ultimately show ?thesis by (simp add: keeps_def low_mask_def cell_level_mask_def cd_level_mask_def cd_new_def)
  next
    case False
    then have "\<not> (bs = [] \<and> rs' = [])" using l(4) by auto
    from make_ordinary [OF this l(1)] make_ordinary [OF False l(1,2)] l(2,4) show ?thesis
      using hd hs' by (auto simp: keeps_def holds_def c cd_hash_index_def low_mask_def cell_level_mask_def
        hash_index_def from_level_def level_values)
  qed
  then show ?thesis
    using b' hd assms(2) by (auto simp: cb_like_ordinary holds_def bs_def)
qed

section \<open>Bytes in blocks\<close>

lemma tagged_bytes [simp]: "tagged (bytes_bits ds) = ds"
  by (simp add: tagged_def)

lemma length_concat_block: "(\<And>x. x \<in> set xs \<Longrightarrow> length (f x) = n) \<Longrightarrow> length (concat (map f xs)) = n * length xs"
  by (induction xs) auto

lemma take_drop_block:
  assumes "\<And>x. x \<in> set xs \<Longrightarrow> length (f x) = n" "i < length xs"
  shows "take n (drop (n * i) (concat (map f xs) @ r)) = f (xs ! i)"
proof -
  have x: "xs = take i xs @ xs ! i # drop (Suc i) xs" using assms(2) by (rule id_take_nth_drop)
  have "length (concat (map f (take i xs))) = n * i"
    using length_concat_block [of "take i xs" f n] assms by (auto dest: in_set_takeD)
  then show ?thesis using assms by (subst x) simp
qed

section \<open>Pruned branches\<close>

text \<open>The levels that a pruned branch stores, by the masks of three levels.\<close>

lemma mask_below:
  fixes m :: level_mask
  shows "m < 2 \<Longrightarrow> m \<in> {0, 1}" "m < 4 \<Longrightarrow> m \<in> {0, 1, 2, 3}"
proof -
  show f: "m \<in> {0, 1, 2, 3}" if a: "m < 4"
  proof -
    from a have "m < 8" by (rule less_trans) simp
    from lm_cases [OF this] a show ?thesis by (elim insertE emptyE; hypsubst; simp)
  qed
  show "m \<in> {0, 1}" if a: "m < 2"
  proof -
    from a have "m < 4" by (rule less_trans) simp
    from f [OF this] a show ?thesis by (elim insertE emptyE; hypsubst; simp)
  qed
qed

lemma iter_masks:
  "lm_iter_list (lm_into_iter 0) = [0]" "lm_iter_list (lm_into_iter 1) = [0, 1]"
  "lm_iter_list (lm_into_iter 2) = [0, 2]" "lm_iter_list (lm_into_iter 3) = [0, 1, 2]"
  "lm_iter_list (lm_into_iter 4) = [0, 3]" "lm_iter_list (lm_into_iter 5) = [0, 1, 3]"
  "lm_iter_list (lm_into_iter 6) = [0, 2, 3]" "lm_iter_list (lm_into_iter 7) = [0, 1, 2, 3]"
  by (simp_all add: lm_iter_list_eq contains_def upt_rec)
lemma hi_masks:
  "hash_index m 1 = level (m AND 1)" "hash_index m (Suc 0) = level (m AND 1)"
  "hash_index m 2 = level (m AND 3)" "hash_index m 3 = level (m AND 7)"
  by (simp_all add: hash_index_def from_level_def)

lemma pruned_levels:
  fixes m new lm :: level_mask
  assumes "md \<le> 2" "m < push_bit (md + 1) 1" "new = push_bit (md mod 8) 1" "lm = lm_new (m OR new)"
    and "ls = lm_iter_list (lm_into_iter (lm_new (m AND (new - 1))))"
  shows "lm \<noteq> 0" "level lm = length ls" "length ls \<le> 3" "lm < 8" "l \<le> md \<Longrightarrow> hash_index lm l < length ls"
    "l \<le> md \<Longrightarrow> hash_index m (ls ! hash_index lm l) = hash_index m l"
proof -
  have c: "md = 0 \<and> m \<in> {0, 1} \<or> md = 1 \<and> m \<in> {0, 1, 2, 3} \<or> md = 2 \<and> m \<in> {0, 1, 2, 3, 4, 5, 6, 7}"
  proof -
    have "md = 0 \<or> md = 1 \<or> md = 2" using assms(1) by auto
    then show ?thesis
      using assms(2) mask_below [of m] lm_cases [of m] by (elim disjE; hypsubst) simp_all
  qed
  have l: "l = 0 \<or> md \<noteq> 0 \<and> l = 1 \<or> md = 2 \<and> l = 2" if "l \<le> md" using that assms(1) by auto
  note s = lm_new_def iter_masks level_values hi_masks
  show "lm \<noteq> 0" "level lm = length ls" "length ls \<le> 3" "lm < 8"
    using c unfolding assms(3-5) by (elim disjE conjE insertE emptyE; simp add: s)+
  show "l \<le> md \<Longrightarrow> hash_index lm l < length ls" "l \<le> md \<Longrightarrow> hash_index m (ls ! hash_index lm l) = hash_index m l"
    using c l unfolding assms(3-5) by (elim disjE conjE insertE emptyE; simp add: s; elim disjE; simp add: s)+
qed

lemma cell_hash_level:
  assumes "wf_cell c" "hash_index (cell_level_mask c) l = hash_index (cell_level_mask c) l'"
  shows "cell_hash c l = cell_hash c l'" "cell_depth c l = cell_depth c l'"
  using assms by (cases c; simp add: cd_hash_index_def cell_level_mask_def)+

definition cb_exotic :: "bool list \<Rightarrow> cell_builder" where
  "cb_exotic bs = \<lparr>cb_inner = mk_bd bs, cb_is_exotic = True, cb_references = []\<rparr>"

lemma store_hash_of_mk:
  "length bs + 256 \<le> 1023 \<Longrightarrow> length (cell_hash c l) = 32 \<Longrightarrow>
    store_hash_of c l (cb_exotic bs) = cb_exotic (bs @ bytes_bits (cell_hash c l))"
  by (simp add: store_hash_of_def attempt_def on_inner_def cb_exotic_def appended_def MAX_BIT_LEN_def)

lemma store_depth_of_mk:
  "length bs + 16 \<le> 1023 \<Longrightarrow> store_depth_of c l (cb_exotic bs) = cb_exotic (bs @ bytes_bits (u16_be (cell_depth c l)))"
  by (simp add: store_depth_of_def attempt_def on_inner_def cb_exotic_def appended_def MAX_BIT_LEN_def
      u16_be_def bytes_bits_to_be)

lemma fold_store_mk:
  assumes "\<And>bs l. l \<in> set ls \<Longrightarrow> length bs + 8 * k \<le> 1023 \<Longrightarrow> f l (cb_exotic bs) = cb_exotic (bs @ bytes_bits (g l))"
    and "\<And>l. l \<in> set ls \<Longrightarrow> length (g l) = k" "length bs + 8 * k * length ls \<le> 1023"
  shows "fold f ls (cb_exotic bs) = cb_exotic (bs @ bytes_bits (concat (map g ls)))"
  using assms
proof (induction ls arbitrary: bs)
  case (Cons l ls)
  have "f l (cb_exotic bs) = cb_exotic (bs @ bytes_bits (g l))" using Cons.prems by simp
  moreover have "fold f ls (cb_exotic (bs @ bytes_bits (g l)))
      = cb_exotic ((bs @ bytes_bits (g l)) @ bytes_bits (concat (map g ls)))"
    using Cons.prems by (intro Cons.IH) simp_all
  ultimately show ?case by (simp add: bytes_bits_append)
qed (simp add: bytes_bits_def)

text \<open>Building an exotic cell without children.\<close>

lemma build_parts_exotic:
  assumes "8 * length ds \<le> 1023" "ds \<noteq> []"
  shows "build_parts (cb_exotic (bytes_bits ds)) =
    \<lparr>cp_bit_len = 8 * length ds,
     cp_descriptor = cd_new (compute_d1 (case from_byte_exotic (ds ! 0) of
        Some PrunedBranchType \<Rightarrow> lm_new ((ds @ [0]) ! 1) | _ \<Rightarrow> 0) True 0) (compute_d2 (8 * length ds)),
     cp_children_mask = 0, cp_references = [], cp_data = ds\<rparr>"
proof -
  have n: "length (bytes_bits ds) \<le> 1023" using assms(1) by simp
  have p: "pad128 (bytes_bits ds) = ds @ replicate (128 - length ds) 0"
    by (simp add: pad128_def div_ceil8_def)
  have "0 < length ds" "length ds < 128" using assms by auto
  then have b: "pad128 (bytes_bits ds) ! 0 = ds ! 0" "pad128 (bytes_bits ds) ! 1 = (ds @ [0]) ! 1"
    unfolding p by (cases "length ds = 1"; auto simp: nth_append)+
  have "8 \<le> 8 * length ds" using \<open>0 < length ds\<close> by linarith
  then show ?thesis
    using add_tag_pad128 [OF n] n b
    by (simp add: build_parts_def Let_def cb_exotic_def mk_bd_def build_level_mask_def compute_level_mask_def lm_virtualize_def
        split: option.split celltype.split)
qed

lemma finalize_pruned:
  assumes "lm \<noteq> 0" "lm < 8" "length ds = 2 + level lm * 34" "ds ! 0 = 1" "ds ! 1 = lm"
  defines "d \<equiv> cd_new (compute_d1 lm True 0) (compute_d2 (8 * length ds))"
  shows "build_ext sha (cb_exotic (bytes_bits ds))
    = Ok (PrunedBranch (sha (hash_input \<lparr>cp_bit_len = 8 * length ds, cp_descriptor = d, cp_children_mask = 0,
        cp_references = [], cp_data = ds\<rparr> True 0 0 [])) (level lm) d ds)"
proof -
  let ?p = "\<lparr>cp_bit_len = 8 * length ds, cp_descriptor = d, cp_children_mask = 0, cp_references = [], cp_data = ds\<rparr>"
  have lv: "level lm \<le> 3" "0 < level lm" using lm_cases [OF assms(2)] assms(1) by (auto simp: level_values)
  have ne: "ds \<noteq> []" "8 * length ds \<le> 1023" using assms(3) lv by auto
  have x: "from_byte_exotic (ds ! 0) = Some PrunedBranchType" unfolding assms(4) by (simp add: from_byte_exotic_def)
  have lm: "lm_new lm = lm" using lm_cases [OF assms(2)] by (auto simp: lm_new_def)
  have "(ds @ [0]) ! 1 = lm" using assms(3,5) lv by (simp add: nth_append)
  then have p: "build_parts (cb_exotic (bytes_bits ds)) = ?p"
    using build_parts_exotic [OF ne(2,1)] by (simp add: x lm d_def)
  have d: "cd_level_mask d = lm" "is_exotic d" "reference_count d = 0"
    using assms(2) by (simp_all add: d_def)
  obtain y ys where ds: "ds = y # ys" "y = 1" using assms(4) ne(1) by (cases ds) auto
  have "nth_opt ds 1 = Some lm" using assms(3,5) lv by (simp add: nth_opt_def)
  then have "check_exotic ?p = Ok (PrunedBranchType, lm)"
    using x lv assms(3) d(1) by (simp add: check_exotic_def ds(1))
  moreover have "[0..<4] = [0, 1, 2, 3]" by (simp add: upt_rec)
  ultimately have "compute_hashes sha ?p = Ok [(sha (hash_input ?p True 0 0 []), 0)]"
    using d by (simp add: compute_hashes_def div_ceil8_def ct_is_pruned_branch_def ct_is_merkle_def)
  then show ?thesis
    using d assms(1) by (simp add: build_ext_def p finalize_cell_def make_cell_def cell_type_eq)
qed

lemma pruned_branch:
  assumes "wf_cell c" "md \<le> 2" "cell_level_mask c < push_bit (md + 1) 1"
    and "\<And>l. length (cell_hash c l) = 32" "\<And>l. cell_depth c l < 65536"
  obtains pb where "make_pruned_branch sha c md = Ok pb" "wf_cell pb" "cell_children pb = []" "is_pruned_branch (descriptor pb)"
    "cell_level_mask pb = lm_new (cell_level_mask c OR push_bit (md mod 8) 1)"
    "\<And>l. l \<le> md \<Longrightarrow> cell_hash pb l = cell_hash c l \<and> cell_depth pb l = cell_depth c l"
    "hash_index (cell_level_mask pb) l = level (cell_level_mask pb) \<Longrightarrow> cell_depth pb l = 0"
    "repr_hash pb = sha ([d1 (descriptor pb), d2 (descriptor pb)] @ cell_data pb)"
    "cell_bit_len pb = 16 + level (cell_level_mask pb) * 272"
proof -
  define m new lm ls where "m = cell_level_mask c" and "new = push_bit (md mod 8) (1 :: byte)"
    and "lm = lm_new (m OR new)" and "ls = lm_iter_list (lm_into_iter (lm_new (m AND (new - 1))))"
  note P = pruned_levels [OF assms(2,3) [folded m_def] new_def lm_def ls_def]
  define hs where "hs = concat (map (cell_hash c) ls)"
  define dp where "dp = concat (map (\<lambda>l. u16_be (cell_depth c l)) ls)"
  let ?ds = "[1, lm] @ hs @ dp"
  have lhs: "length hs = 32 * length ls" using length_concat_block [of ls "cell_hash c" 32] assms(4) by (simp add: hs_def)
  have ldp: "length dp = 2 * length ls"
    using length_concat_block [of ls "\<lambda>l. u16_be (cell_depth c l)" 2] by (simp add: dp_def u16_be_def)
  have bytes_ds: "bytes_bits ?ds = bytes_bits ([1, lm] @ hs) @ bytes_bits dp"
    using bytes_bits_append [of "[1, lm] @ hs" dp] by simp
  have len: "length ?ds = 2 + level lm * 34" using P(2) lhs ldp by simp
  have w16: "word_bits 16 (from_be_bytes [ct_to_byte PrunedBranchType, lm] :: 16 word) = bytes_bits [1, lm]"
    by (subst from_be_bytes_eq_word_of_bits) simp_all
  have "attempt (on_inner (\<lambda>d. store_u16 d (from_be_bytes [ct_to_byte PrunedBranchType, lm]))) (set_exotic cb_new True)
      = cb_exotic (bytes_bits [1, lm])"
    using w16 by (simp add: attempt_def on_inner_def set_exotic_def cb_new_def bd_new_mk appended_def MAX_BIT_LEN_def cb_exotic_def)
  moreover have "fold (store_hash_of c) ls (cb_exotic (bytes_bits [1, lm])) = cb_exotic (bytes_bits ([1, lm] @ hs))"
    using fold_store_mk [of ls 32 "store_hash_of c" "cell_hash c" "bytes_bits [1, lm]"] P(3) assms(4)
    unfolding bytes_bits_append hs_def by (simp add: store_hash_of_mk)
  moreover have "fold (store_depth_of c) ls (cb_exotic (bytes_bits ([1, lm] @ hs))) = cb_exotic (bytes_bits ?ds)"
    using fold_store_mk [of ls 2 "store_depth_of c" "\<lambda>l. u16_be (cell_depth c l)" "bytes_bits ([1, lm] @ hs)"] P(3) lhs
    unfolding bytes_ds unfolding dp_def by (simp add: store_depth_of_mk u16_be_def)
  ultimately have mk: "make_pruned_branch sha c md = build_ext sha (cb_exotic (bytes_bits ?ds))"
    by (simp add: make_pruned_branch_def Let_def m_def new_def lm_def ls_def cell_level_mask_def)
  let ?d = "cd_new (compute_d1 lm True 0) (compute_d2 (8 * length ?ds))"
  define h where "h = sha (hash_input \<lparr>cp_bit_len = 8 * length ?ds, cp_descriptor = ?d, cp_children_mask = 0,
    cp_references = [], cp_data = ?ds\<rparr> True 0 0 [])"
  have b: "make_pruned_branch sha c md = Ok (PrunedBranch h (level lm) ?d ?ds)"
    unfolding mk h_def using finalize_pruned [OF P(1,4) len, of sha] by simp
  show thesis
  proof (rule that [OF b])
    have "hash_index lm 3 = level lm" "(compute_d1 lm True 0 AND NOT (LEVEL_MASK OR STORE_HASHES_MASK)) OR push_bit 5 lm = compute_d1 lm True 0"
      using lm_cases [OF P(4)] by (auto simp: hi_masks level_values compute_d1_def cd_masks)
    moreover have "8 * length ?ds \<le> 1023" using len P(2,3) by simp
    then have "byte_len ?d = length ?ds" using byte_len_d2 [of ?d "8 * length ?ds"] by (simp add: cd_new_def div_ceil8_def)
    ultimately show "repr_hash (PrunedBranch h (level lm) ?d ?ds) = sha ([d1 (descriptor (PrunedBranch h (level lm) ?d ?ds)),
        d2 (descriptor (PrunedBranch h (level lm) ?d ?ds))] @ cell_data (PrunedBranch h (level lm) ?d ?ds))"
      using P(4) by (simp add: repr_hash_def MAX_LEVEL_def cd_hash_index_def h_def hash_input_def, simp add: cd_new_def)
    have "0 < level lm" using lm_cases [OF P(4)] P(1) by (auto simp: level_values)
    moreover have n: "8 * length ?ds = 16 + level lm * 272" unfolding len by simp
    moreover have "length ?ds = div_ceil8 (16 + level lm * 272)" unfolding len by (simp add: div_ceil8_def)
    ultimately show "wf_cell (PrunedBranch h (level lm) ?d ?ds)"
      unfolding wf_cell.simps n using P(4) by (simp add: reference_count_compute_d1) (simp add: cd_new_def)
    show "cell_bit_len (PrunedBranch h (level lm) ?d ?ds) = 16 + level (cell_level_mask (PrunedBranch h (level lm) ?d ?ds)) * 272"
      using P(4) by (simp add: cell_level_mask_def)
    show "cell_level_mask (PrunedBranch h (level lm) ?d ?ds) = lm_new (cell_level_mask c OR push_bit (md mod 8) 1)"
      using P(4) by (simp add: cell_level_mask_def lm_def new_def m_def)
    show "is_pruned_branch (descriptor (PrunedBranch h (level lm) ?d ?ds))"
      using P(1,4) by (simp add: is_pruned_branch_def lm_is_empty_def reference_count_compute_d1)
    fix l assume l: "l \<le> md"
    let ?i = "hash_index lm l"
    have i: "?i < length ls" "?i \<noteq> level lm" using P(2) P(5) [OF l] by auto
    have "take 32 (drop (2 + ?i * 32) ?ds) = cell_hash c (ls ! ?i)"
      using take_drop_block [of ls "cell_hash c" 32 ?i dp] assms(4) i(1) by (simp add: hs_def mult.commute)
    moreover have "take 2 (drop (2 + level lm * 32 + ?i * 2) ?ds) = u16_be (cell_depth c (ls ! ?i))"
      using take_drop_block [of ls "\<lambda>l. u16_be (cell_depth c l)" 2 ?i "[]"] i(1) lhs P(2)
      by (simp add: dp_def u16_be_def mult.commute)
    then have "be16 (drop (2 + level lm * 32 + ?i * 2) ?ds) = cell_depth c (ls ! ?i)"
      using assms(5) [of "ls ! ?i"] by (simp add: be16_def u16_be_def from_to_be_bytes unat_of_nat)
    moreover have "hash_index m (ls ! ?i) = hash_index m l" by (rule P(6) [OF l])
    ultimately show "cell_hash (PrunedBranch h (level lm) ?d ?ds) l = cell_hash c l
        \<and> cell_depth (PrunedBranch h (level lm) ?d ?ds) l = cell_depth c l"
      using cell_hash_level [OF assms(1), of "ls ! ?i" l] i(2) P(4) by (simp add: m_def cd_hash_index_def)
  next
    assume "hash_index (cell_level_mask (PrunedBranch h (level lm) ?d ?ds)) l = level (cell_level_mask (PrunedBranch h (level lm) ?d ?ds))"
    then show "cell_depth (PrunedBranch h (level lm) ?d ?ds) l = 0"
      using P(4) by (simp add: cd_hash_index_def cell_level_mask_def)
  qed simp
qed

end
