(* ===== verification/Merkle_Exotic.thy ===== *)
theory Merkle_Exotic
  imports Merkle_Cells
begin

text \<open>
  The exotic cells that hold a Merkle proof or a Merkle update: what their parsed forms store, that the
  validator accepts exactly the forms whose hashes and depths are those of the children, and that the
  loader gives the form back.
\<close>

section \<open>Building exotic cells with children\<close>

definition cb_full :: "bool list \<Rightarrow> cell list \<Rightarrow> cell_builder" where
  "cb_full bs rs = \<lparr>cb_inner = mk_bd bs, cb_is_exotic = True, cb_references = rs\<rparr>"

lemma cb_full_new: "set_exotic cb_new True = cb_full [] []"
  by (simp add: set_exotic_def cb_new_def cb_full_def bd_new_mk)

lemma on_inner_full:
  "f (mk_bd bs) = appended bs xs \<Longrightarrow> length bs + length xs \<le> 1023 \<Longrightarrow> on_inner f (cb_full bs rs) = Ok (cb_full (bs @ xs) rs)"
  by (simp add: on_inner_def cb_full_def appended_def MAX_BIT_LEN_def)

lemma store_reference_full: "length rs < 4 \<Longrightarrow> store_reference (cb_full bs rs) c = Ok (cb_full bs (rs @ [c]))"
  by (simp add: store_reference_def cb_full_def MAX_REF_COUNT_def)

definition merkle_parts :: "byte list \<Rightarrow> cell list \<Rightarrow> cell_parts" where
  "merkle_parts ds rs =
    \<lparr>cp_bit_len = 8 * length ds,
     cp_descriptor = cd_new (compute_d1 (lm_virtualize (compute_level_mask rs) 1) True (length rs)) (compute_d2 (8 * length ds)),
     cp_children_mask = compute_level_mask rs, cp_references = rs, cp_data = ds\<rparr>"

lemma merkle_parts_simps [simp]:
  "cp_bit_len (merkle_parts ds rs) = 8 * length ds" "cp_references (merkle_parts ds rs) = rs"
  "cp_data (merkle_parts ds rs) = ds" "cp_children_mask (merkle_parts ds rs) = compute_level_mask rs"
  "cd_level_mask (cp_descriptor (merkle_parts ds rs)) = lm_virtualize (compute_level_mask rs) 1"
  "is_exotic (cp_descriptor (merkle_parts ds rs))"
  using lm_virtualize_less [OF compute_level_mask_less [of rs], of 1] by (simp_all add: merkle_parts_def)

lemma build_parts_merkle:
  assumes "8 * length ds \<le> 1023" "ds \<noteq> []" "from_byte_exotic (ds ! 0) \<in> {Some MerkleProofType, Some MerkleUpdateType}"
  shows "build_parts (cb_full (bytes_bits ds) rs) = merkle_parts ds rs"
proof -
  have n: "length (bytes_bits ds) \<le> 1023" using assms(1) by simp
  have p: "pad128 (bytes_bits ds) = ds @ replicate (128 - length ds) 0"
    by (simp add: pad128_def div_ceil8_def)
  have "0 < length ds" using assms(2) by simp
  then have b: "pad128 (bytes_bits ds) ! 0 = ds ! 0"
    unfolding p by (simp add: nth_append)
  have l: "8 \<le> 8 * length ds" using \<open>0 < length ds\<close> by linarith
  show ?thesis
    using add_tag_pad128 [OF n] n b l assms(3)
    by (auto simp: build_parts_def Let_def cb_full_def mk_bd_def build_level_mask_def merkle_parts_def)
qed

lemma wf_merkle_parts:
  assumes "8 * length ds \<le> 1023" "length rs \<le> 4" "list_all wf_cell rs"
  shows "wf_parts (merkle_parts ds rs)"
proof -
  have "reference_count (cp_descriptor (merkle_parts ds rs)) = length rs"
    using assms(2) by (simp add: merkle_parts_def reference_count_compute_d1)
  then show ?thesis
    using assms by (simp add: wf_parts_def MAX_BIT_LEN_def MAX_REF_COUNT_def div_ceil8_def)
      (simp add: merkle_parts_def cd_new_def)
qed

text \<open>The validator of a Merkle cell only depends on its check of the bytes, and on the depths.\<close>

lemma build_merkle:
  assumes "8 * length ds \<le> 1023" "ds \<noteq> []" "from_byte_exotic (ds ! 0) \<in> {Some MerkleProofType, Some MerkleUpdateType}"
    and "length rs \<le> 4" "list_all wf_cell rs" "\<And>r l. r \<in> set rs \<Longrightarrow> cell_depth r l \<le> 65534"
  shows "check_exotic (merkle_parts ds rs) = Err e \<Longrightarrow> build_ext sha (cb_full (bytes_bits ds) rs) = Err e"
    and "check_exotic (merkle_parts ds rs) = Ok (ty, lm_virtualize (compute_level_mask rs) 1) \<Longrightarrow> ct_is_merkle ty \<Longrightarrow>
      \<exists>c. build_ext sha (cb_full (bytes_bits ds) rs) = Ok c \<and> wf_cell c \<and> descriptor c = cp_descriptor (merkle_parts ds rs)
        \<and> cell_bit_len c = 8 * length ds \<and> cell_data c = ds \<and> cell_children c = rs"
proof -
  let ?p = "merkle_parts ds rs"
  have d: "\<not> length ds < div_ceil8 (8 * length ds)" by (simp add: div_ceil8_def)
  note b = build_parts_merkle [OF assms(1-3)]
  show "build_ext sha (cb_full (bytes_bits ds) rs) = Err e" if "check_exotic ?p = Err e"
    using that d by (simp add: build_ext_def b finalize_cell_def compute_hashes_def)
  show "\<exists>c. build_ext sha (cb_full (bytes_bits ds) rs) = Ok c \<and> wf_cell c \<and> descriptor c = cp_descriptor ?p
      \<and> cell_bit_len c = 8 * length ds \<and> cell_data c = ds \<and> cell_children c = rs"
    if t: "check_exotic ?p = Ok (ty, lm_virtualize (compute_level_mask rs) 1)" "ct_is_merkle ty"
  proof -
    have "\<exists>hs. hash_levels sha ?p (ct_is_pruned_branch ty) 1 [0..<4] [] = Ok hs \<and> (\<forall>h \<in> set hs. snd h \<le> 65534 + 1)"
      by (rule hash_levels_bound) (use assms(6) in auto)
    then obtain hs where "compute_hashes sha ?p = Ok hs" using t d by (auto simp: compute_hashes_def)
    then have f: "finalize_cell sha ?p = Ok (make_cell ?p hs)" by (simp add: finalize_cell_def)
    from finalize_cell_wf [OF wf_merkle_parts [OF assms(1,4,5)] f] f show ?thesis by (simp add: build_ext_def b)
  qed
qed

section \<open>The cell of a Merkle proof\<close>

definition mp_bytes :: "merkle_proof \<Rightarrow> byte list" where
  "mp_bytes p = [ct_to_byte MerkleProofType] @ mp_hash p @ u16_be (mp_depth p)"

definition mp_valid :: "merkle_proof \<Rightarrow> bool" where
  "mp_valid p \<longleftrightarrow> cell_hash (mp_cell p) 0 = mp_hash p \<and> cell_depth (mp_cell p) 0 = mp_depth p"

lemma length_mp_bytes: "length (mp_hash p) = 32 \<Longrightarrow> length (mp_bytes p) = 35"
  by (simp add: mp_bytes_def u16_be_def)

lemma mp_bits: "bytes_bits (mp_bytes p) = word_bits 8 (ct_to_byte MerkleProofType) @ bytes_bits (mp_hash p)
    @ word_bits 16 (of_nat (mp_depth p) :: 16 word)"
  by (simp add: mp_bytes_def bytes_bits_append bytes_bits_Cons u16_be_def bytes_bits_to_be)

lemma mp_store_into_new:
  assumes "length (mp_hash p) = 32"
  shows "mp_store_into p cb_new = Ok (cb_full (bytes_bits (mp_bytes p)) [mp_cell p])"
proof -
  have c: "has_capacity cb_new mp_BITS mp_REFS"
    by (simp add: has_capacity_def cb_new_def bd_new_def mp_BITS_def mp_REFS_def MAX_BIT_LEN_def MAX_REF_COUNT_def)
  show ?thesis
    using assms c unfolding mp_bits
    by (simp add: mp_store_into_def Let_def cb_full_new on_inner_full store_reference_full)
qed

lemma u16_be_be16: "d < 65536 \<Longrightarrow> be16 (u16_be d @ r) = d"
  by (simp add: be16_def u16_be_def from_to_be_bytes unat_of_nat)

lemma check_exotic_proof:
  assumes "length (mp_hash p) = 32" "mp_depth p < 65536"
  shows "check_exotic (merkle_parts (mp_bytes p) [mp_cell p]) =
    (if mp_valid p then Ok (MerkleProofType, lm_virtualize (compute_level_mask [mp_cell p]) 1) else Err InvalidCell)"
proof -
  have n: "length (mp_bytes p) = 35" by (rule length_mp_bytes [OF assms(1)])
  have c: "mp_bytes p = 3 # mp_hash p @ u16_be (mp_depth p)" by (simp add: mp_bytes_def)
  have x: "from_byte_exotic 3 = Some MerkleProofType" by (simp add: from_byte_exotic_def)
  have t: "take 32 (drop 1 (mp_bytes p)) = mp_hash p" "be16 (drop 33 (mp_bytes p)) = mp_depth p"
    using assms u16_be_be16 [of "mp_depth p" "[]"] by (simp_all add: c)
  show ?thesis
    unfolding check_exotic_def Let_def merkle_parts_simps
    using n t by (simp add: c x mp_valid_def)
qed

lemma slice_exotic:
  assumes "wf_cell c"
  defines "s \<equiv> slice_new_allow_exotic c"
  shows "wf_slice s" "\<not> is_virtual (sl_cell s)" "slice_bits s = cell_bits c" "slice_refs s = cell_children c"
    "size_bits s = cell_bit_len c" "size_refs s = length (cell_children c)"
proof -
  note w = wf_cell_children [OF assms(1)]
  show "wf_slice s" unfolding s_def by (rule wf_slice_full [OF wf_cell_shape_ok [OF assms(1)]])
  show "\<not> is_virtual (sl_cell s)" using wf_cell_not_virtual [OF assms(1)] by (simp add: s_def slice_new_allow_exotic_def)
  show "slice_bits s = cell_bits c" by (simp add: s_def)
  show r: "slice_refs s = cell_children c"
    using w(1) by (simp add: s_def slice_refs_def slice_new_allow_exotic_def range_full_def cell_refs_def)
  show "size_bits s = cell_bit_len c" using length_slice_bits [of s] by (simp add: s_def cell_bits_def)
  show "size_refs s = length (cell_children c)" using arg_cong [OF r, of length] by simp
qed

lemma mp_load_stored:
  assumes "wf_cell c" "cell_is_exotic c" "cell_bit_len c = 280" "cell_data c = mp_bytes p" "cell_children c = [mp_cell p]"
    and "length (mp_hash p) = 32" "mp_depth p < 65536" "mp_valid p"
  shows "mp_load_from_cell c = Ok p"
proof -
  note S = slice_exotic [OF assms(1)]
  let ?s = "slice_new_allow_exotic c"
  have "cell_bits c = bytes_bits (mp_bytes p)"
    using assms(3,4) length_mp_bytes [OF assms(6)] by (simp add: cell_bits_def bytes_bits_def)
  then have b: "slice_bits ?s = word_bits 8 (ct_to_byte MerkleProofType) @ bytes_bits (mp_hash p)
      @ word_bits 16 (of_nat (mp_depth p) :: 16 word)" using S(3) mp_bits by simp
  have r: "slice_refs ?s = [] @ [mp_cell p]" using S(4) assms(5) by simp
  obtain s1 where s1: "load_u8 ?s = Ok (ct_to_byte MerkleProofType, s1)" "wf_slice s1" "sl_cell s1 = sl_cell ?s"
    "slice_bits s1 = bytes_bits (mp_hash p) @ word_bits 16 (of_nat (mp_depth p) :: 16 word)" "slice_refs s1 = [mp_cell p]"
    using loadsE [OF loads_u8 S(1,2) b r] by blast
  obtain s2 where s2: "load_u256 s1 = Ok (mp_hash p, s2)" "wf_slice s2" "sl_cell s2 = sl_cell ?s"
    "slice_bits s2 = word_bits 16 (of_nat (mp_depth p) :: 16 word) @ []" "slice_refs s2 = [] @ [mp_cell p]"
    using loadsE [OF loads_u256 [OF assms(6)] s1(2) _ s1(4)] s1(3,5) S(2) by auto
  obtain s3 where s3: "load_u16 s2 = Ok (of_nat (mp_depth p), s3)" "wf_slice s3" "sl_cell s3 = sl_cell ?s"
    "slice_bits s3 = [] @ []" "slice_refs s3 = [mp_cell p] @ []"
    using loadsE [OF loads_u16 s2(2) _ s2(4,5)] s2(3) S(2) by auto
  obtain s4 where s4: "load_reference_cloned s3 = Ok (mp_cell p, s4)"
    using loadsE [OF loads_reference_cloned s3(2) _ s3(4,5)] s3(3) S(2) by auto
  have u: "unat (of_nat (mp_depth p) :: 16 word) = mp_depth p" using assms(7) by (simp add: unat_of_nat)
  show ?thesis
    unfolding mp_load_from_cell_def Let_def
    using assms(2,3,5,8) S(5,6) s1(1) s2(1) s3(1) s4 u
    by (simp add: mp_BITS_def mp_REFS_def mp_valid_def)
qed

text \<open>Storing a parsed proof in a cell: it is accepted exactly if hash and depth are those of its tree.\<close>

lemma mp_build:
  assumes "wf_cell (mp_cell p)" "length (mp_hash p) = 32" "mp_depth p < 65536" "\<And>l. cell_depth (mp_cell p) l \<le> 65534"
  shows "\<not> mp_valid p \<Longrightarrow> build_from sha (mp_store_into p) = Err InvalidCell"
    and "mp_valid p \<Longrightarrow> \<exists>c. build_from sha (mp_store_into p) = Ok c \<and> mp_load_from_cell c = Ok p
      \<and> cell_level_mask c = lm_virtualize (cell_level_mask (mp_cell p)) 1"
proof -
  have n: "length (mp_bytes p) = 35" by (rule length_mp_bytes [OF assms(2)])
  have x: "from_byte_exotic (mp_bytes p ! 0) = Some MerkleProofType" by (simp add: mp_bytes_def from_byte_exotic_def)
  have ne: "8 * length (mp_bytes p) \<le> 1023" "mp_bytes p \<noteq> []" using n by auto
  note B = build_merkle [of "mp_bytes p" "[mp_cell p]"]
  note ck = check_exotic_proof [OF assms(2,3)]
  have st: "build_from sha (mp_store_into p) = build_ext sha (cb_full (bytes_bits (mp_bytes p)) [mp_cell p])"
    by (simp add: build_from_def mp_store_into_new [OF assms(2)])
  show "\<not> mp_valid p \<Longrightarrow> build_from sha (mp_store_into p) = Err InvalidCell"
    unfolding st using B(1) ne x assms(1,4) ck by simp
  show "\<exists>c. build_from sha (mp_store_into p) = Ok c \<and> mp_load_from_cell c = Ok p
      \<and> cell_level_mask c = lm_virtualize (cell_level_mask (mp_cell p)) 1" if v: "mp_valid p"
  proof -
    obtain c where c: "build_ext sha (cb_full (bytes_bits (mp_bytes p)) [mp_cell p]) = Ok c" "wf_cell c"
      "descriptor c = cp_descriptor (merkle_parts (mp_bytes p) [mp_cell p])" "cell_bit_len c = 280"
      "cell_data c = mp_bytes p" "cell_children c = [mp_cell p]"
      using B(2) [of MerkleProofType sha] ne x assms(1,4) ck v n by (auto simp: ct_is_merkle_def)
    have "cell_is_exotic c" by (simp add: cell_is_exotic_def c(3))
    from mp_load_stored [OF c(2) this c(4-6) assms(2,3) v] show ?thesis
      using c(1,3) by (auto simp: st cell_level_mask_def compute_level_mask_def)
  qed
qed

end
