(* ===== verification/Merkle_Proof_Props.thy ===== *)
theory Merkle_Proof_Props
  imports Merkle_Cells
begin

text \<open>
  What the proof builder builds. \<open>prunes sha flt big P c c'\<close> says that \<open>c'\<close> is \<open>c\<close> with subtrees replaced
  by pruned branches, as the filter tells; \<open>P\<close> holds the hashes of the cells that were pruned. The loop
  of the builder returns such a copy of its root, and never fails, for trees whose cells were built by
  builders, which have no Merkle cells and no level above 1.
\<close>

section \<open>Cells that can be proved\<close>

definition proof_set :: "sha256 \<Rightarrow> cell set \<Rightarrow> bool" where
  "proof_set sha U \<longleftrightarrow> tree_set U \<and> (\<forall>x. length (sha x) = 32)
     \<and> (\<forall>c \<in> U. built sha c \<and> low_mask c \<and> \<not> is_merkle (descriptor c))"

lemma proof_setD:
  assumes "proof_set sha U" "c \<in> U"
  shows "wf_cell c" "built sha c" "low_mask c" "\<not> is_merkle (descriptor c)" "set (cell_children c) \<subseteq> U"
    "list_all low_mask (cell_children c)" "d \<in> U \<Longrightarrow> repr_hash c = repr_hash d \<longleftrightarrow> c = d"
  using assms tree_setD [of U c] by (auto simp: proof_set_def list_all_iff)

lemma exotic_childless:
  assumes "wf_cell c" "cell_is_exotic c" "\<not> is_merkle (descriptor c)"
  shows "cell_children c = []"
  using assms wf_cell_children(2) [OF assms(1)] by (simp add: is_merkle_def cell_is_exotic_def cell_reference_count_def)

lemma wf_parts_like:
  assumes "wf_cell c" "length rs \<le> 4" "list_all wf_cell rs"
  shows "wf_parts (build_parts (cb_like c rs))"
proof -
  have n: "length (cell_bits c) \<le> 1023" using assms(1) by (rule wf_cell_bits_length)
  have "reference_count (cd_new (compute_d1 m e (length rs)) b) = length rs" for m e b
    using assms(2) by (intro reference_count_compute_d1) simp
  then show ?thesis
    using n assms add_tag_pad128 [OF n]
    by (simp add: wf_parts_def build_parts_def Let_def cb_like_def mk_bd_def MAX_BIT_LEN_def MAX_REF_COUNT_def)
       (simp add: cd_new_def)
qed

lemma built_bounds:
  assumes "proof_set sha U" "c \<in> U"
  shows "length (cell_hash c l) = 32" "cell_depth c l < 65536"
proof -
  note D = proof_setD [OF assms]
  have "wf_parts (build_parts (cb_like c (cell_children c)))"
    using wf_cell_children(2,4) [OF D(1)] wf_cell_shape(3) [OF D(1)] by (intro wf_parts_like D(1)) (simp_all add: MAX_REF_COUNT_def)
  then show "length (cell_hash c l) = 32" "cell_depth c l < 65536"
    using finalize_bounds [of sha _ c] D(2) assms(1) by (auto simp: built_def build_ext_def proof_set_def)
qed

lemma low_mask_less: "low_mask c \<Longrightarrow> cell_level_mask c < push_bit (0 + 1) 1"
  by (auto simp: low_mask_def)

lemma prune_low:
  assumes "proof_set sha U" "c \<in> U"
  obtains pb where "make_pruned_branch sha c 0 = Ok pb" "keeps c pb" "cell_children pb = []"
    "is_pruned_branch (descriptor pb)" "cell_level_mask pb = 1"
proof -
  note D = proof_setD [OF assms] and B = built_bounds [OF assms]
  obtain pb where pb: "make_pruned_branch sha c 0 = Ok pb" "wf_cell pb" "cell_children pb = []" "is_pruned_branch (descriptor pb)"
    "cell_level_mask pb = lm_new (cell_level_mask c OR push_bit (0 mod 8) 1)"
    "\<And>l. l \<le> 0 \<Longrightarrow> cell_hash pb l = cell_hash c l \<and> cell_depth pb l = cell_depth c l"
    "hash_index (cell_level_mask pb) 1 = level (cell_level_mask pb) \<Longrightarrow> cell_depth pb 1 = 0"
    using pruned_branch [OF D(1) le0 low_mask_less [OF D(3)] B, where l = 1] by blast
  have m: "cell_level_mask pb = 1" using pb(5) D(3) by (auto simp: low_mask_def lm_new_def)
  then have "cell_depth pb 1 = 0" using pb(7) by (simp add: hi_masks level_values)
  then have "keeps c pb" using pb(2) pb(6) [of 0] m by (simp add: keeps_def low_mask_def)
  then show thesis using that pb m by blast
qed

lemma keeps_leaf:
  assumes "proof_set sha U" "c \<in> U" "cell_is_exotic c"
  shows "keeps c c"
proof -
  note D = proof_setD [OF assms(1,2)]
  have "cell_depth c 1 \<le> cell_depth c 0"
    using D(1,3) exotic_childless [OF D(1) assms(3) D(4)] assms(3)
    by (cases c) (auto simp: low_mask_def cell_is_exotic_def cell_level_mask_def cd_hash_index_def hi_masks level_values)
  then show ?thesis using D(1,3) by (simp add: keeps_def)
qed

text \<open>Rebuilding a cell over children that were kept or pruned.\<close>

lemma rebuild:
  assumes "proof_set sha U" "c \<in> U" "list_all2 keeps (cell_children c) rs"
  obtains c' where "build_ext sha (cb_like c rs) = Ok c'" "keeps c c'" "cell_children c' = rs" "cell_bits c' = cell_bits c"
    "cell_is_exotic c' = cell_is_exotic c"
proof (cases "cell_is_exotic c")
  case True
  note D = proof_setD [OF assms(1,2)]
  have "cell_children c = []" by (rule exotic_childless [OF D(1) True D(4)])
  then show thesis using that [of c] D(2) assms(3) keeps_leaf [OF assms(1,2) True] by (simp add: built_def)
next
  case False
  note D = proof_setD [OF assms(1,2)]
  show thesis using rebuild_ordinary [OF D(2) False D(6) assms(3)] that False by blast
qed

lemma keeps_refl:
  assumes "proof_set sha U"
  shows "c \<in> U \<Longrightarrow> keeps c c"
proof (induction "tree_size c" arbitrary: c rule: less_induct)
  case less
  note D = proof_setD [OF assms less.prems]
  have "list_all2 keeps (cell_children c) (cell_children c)"
    using less.hyps children_size [OF D(1)] D(5) by (auto simp: list_all2_same)
  from rebuild [OF assms less.prems this] show ?case using D(2) by (auto simp: built_def)
qed

section \<open>Pruned copies\<close>

text \<open>
  What the filter asks for, cell by cell: a cell with \<open>IncludeSubtree\<close> stays as it is, with everything
  below it; a skipped cell gives way to a pruned branch if it has children, or if it is big and big cells
  are to be pruned; every other cell is opened, which means that it is built again over the copies of its
  children. The three rules exclude each other.
\<close>

definition is_cut :: "merkle_filter \<Rightarrow> bool \<Rightarrow> cell \<Rightarrow> bool" where
  "is_cut flt big c \<longleftrightarrow> flt (repr_hash c) = Skip \<and> (cell_children c \<noteq> [] \<or> big \<and> 288 < cell_bit_len c)"

lemma prunes_child_cut: "wf_cell c \<Longrightarrow> prunes_child flt big c \<longleftrightarrow> is_cut flt big c"
  using wf_cell_children(2) [of c]
  by (simp add: prunes_child_def is_cut_def PRUNED_BITS_THRESHOLD_def cell_reference_count_def)

inductive prunes :: "sha256 \<Rightarrow> merkle_filter \<Rightarrow> bool \<Rightarrow> hash_bytes set \<Rightarrow> cell \<Rightarrow> cell \<Rightarrow> bool"
  for sha flt big P where
  subtree: "flt (repr_hash c) = IncludeSubtree \<Longrightarrow> prunes sha flt big P c c"
| pruned: "is_cut flt big c \<Longrightarrow> repr_hash c \<in> P \<Longrightarrow> make_pruned_branch sha c 0 = Ok pb \<Longrightarrow> prunes sha flt big P c pb"
| node: "flt (repr_hash c) \<noteq> IncludeSubtree \<Longrightarrow> \<not> is_cut flt big c \<Longrightarrow>
    list_all2 (prunes sha flt big P) (cell_children c) rs \<Longrightarrow> build_ext sha (cb_like c rs) = Ok c' \<Longrightarrow> prunes sha flt big P c c'"

definition opened :: "sha256 \<Rightarrow> merkle_filter \<Rightarrow> bool \<Rightarrow> hash_bytes set \<Rightarrow> cell \<Rightarrow> cell \<Rightarrow> bool" where
  "opened sha flt big P c c' \<longleftrightarrow>
    (\<exists>rs. list_all2 (prunes sha flt big P) (cell_children c) rs \<and> build_ext sha (cb_like c rs) = Ok c')"

lemma prunes_mono: "prunes sha flt big P c c' \<Longrightarrow> P \<subseteq> Q \<Longrightarrow> prunes sha flt big Q c c'"
proof (induction rule: prunes.induct)
  case (node c rs c')
  then have "list_all2 (prunes sha flt big Q) (cell_children c) rs" by (auto elim: list_all2_mono)
  then show ?case using node by (intro prunes.node)
qed (auto intro: prunes.intros)

lemma opened_mono: "opened sha flt big P c c' \<Longrightarrow> P \<subseteq> Q \<Longrightarrow> opened sha flt big Q c c'"
  unfolding opened_def by (blast intro: list_all2_mono prunes_mono)

lemma opened_prunes:
  "opened sha flt big P c c' \<Longrightarrow> flt (repr_hash c) \<noteq> IncludeSubtree \<Longrightarrow> \<not> is_cut flt big c \<Longrightarrow> prunes sha flt big P c c'"
  by (auto simp: opened_def intro: prunes.node)

text \<open>The filter determines the copy.\<close>

lemma list_all2_unique:
  "list_all2 (\<lambda>x y. \<forall>z. P x z \<longrightarrow> y = z) xs ys \<Longrightarrow> list_all2 P xs zs \<Longrightarrow> ys = zs"
  by (induction xs ys arbitrary: zs rule: list_all2_induct) (auto simp: list_all2_Cons1)

lemma prunes_unique:
  "prunes sha flt big P c c' \<Longrightarrow> prunes sha flt big P c d \<Longrightarrow> c' = d"
proof (induction arbitrary: d rule: prunes.induct)
  case (subtree c)
  from subtree.prems show ?case by cases (use subtree.hyps in \<open>simp_all add: is_cut_def\<close>)
next
  case (pruned c pb)
  from pruned.prems show ?case by cases (use pruned.hyps in \<open>auto simp: is_cut_def\<close>)
next
  case (node c rs c')
  have rs: "list_all2 (\<lambda>x y. \<forall>z. prunes sha flt big P x z \<longrightarrow> y = z) (cell_children c) rs"
    using node.IH by (auto elim: list_all2_mono)
  from node.prems show ?case
    by cases (use node.hyps list_all2_unique [OF rs] in auto)
qed

lemma opened_unique:
  assumes "opened sha flt big P c c'" "opened sha flt big P c d"
  shows "d = c'"
proof -
  obtain rs where rs: "list_all2 (prunes sha flt big P) (cell_children c) rs" "build_ext sha (cb_like c rs) = Ok c'"
    using assms(1) by (auto simp: opened_def)
  have "list_all2 (\<lambda>x y. \<forall>z. prunes sha flt big P x z \<longrightarrow> y = z) (cell_children c) rs"
    by (rule list_all2_mono [OF rs(1)]) (blast intro: prunes_unique)
  from list_all2_unique [OF this] show ?thesis using assms(2) rs(2) by (auto simp: opened_def)
qed

lemma list_all2_mono_set:
  "list_all2 P xs ys \<Longrightarrow> (\<And>x y. x \<in> set xs \<Longrightarrow> P x y \<Longrightarrow> Q x y) \<Longrightarrow> list_all2 Q xs ys"
  by (induction xs ys rule: list_all2_induct) auto

lemma prunes_keeps:
  assumes U: "proof_set sha U" and "prunes sha flt big P c c'"
  shows "c \<in> U \<Longrightarrow> keeps c c'"
  using assms(2)
proof (induction rule: prunes.induct)
  case (subtree c)
  show ?case by (rule keeps_refl [OF U subtree.prems])
next
  case (pruned c pb)
  from prune_low [OF U pruned.prems] show ?case using pruned.hyps(3) by (metis Inr_inject)
next
  case (node c rs c')
  have "list_all2 keeps (cell_children c) rs"
    by (rule list_all2_mono_set [OF node.IH]) (use proof_setD(5) [OF U node.prems] in blast)
  from rebuild [OF U node.prems this] show ?case using node.hyps(3) by (metis Inr_inject)
qed

lemma opened_keeps:
  assumes "proof_set sha U" "c \<in> U" "list_all2 (prunes sha flt big P) (cell_children c) rs"
  obtains c' where "build_ext sha (cb_like c rs) = Ok c'" "keeps c c'" "cell_children c' = rs" "cell_bits c' = cell_bits c"
    "cell_is_exotic c' = cell_is_exotic c"
proof -
  have "list_all2 keeps (cell_children c) rs"
    by (rule list_all2_mono_set [OF assms(3)]) (use proof_setD(5) [OF assms(1,2)] prunes_keeps [OF assms(1)] in blast)
  from rebuild [OF assms(1,2) this] show thesis using that by blast
qed

section \<open>The loop\<close>

definition pruned_hashes :: "merkle_state \<Rightarrow> hash_bytes set" where
  "pruned_hashes s = (case ms_pruned s of Some S \<Rightarrow> S | None \<Rightarrow> UNIV)"

definition state_ok :: "sha256 \<Rightarrow> merkle_filter \<Rightarrow> bool \<Rightarrow> cell set \<Rightarrow> merkle_state \<Rightarrow> bool" where
  "state_ok sha flt big U s \<longleftrightarrow>
    (\<forall>h c'. ms_cells s h = Some c' \<longrightarrow> (\<exists>c \<in> U. repr_hash c = h \<and> prunes sha flt big (pruned_hashes s) c c'))
    \<and> (\<forall>S. ms_pruned s = Some S \<longrightarrow> (\<forall>h \<in> S. \<exists>c \<in> U. repr_hash c = h \<and> prunes_child flt big c))"

definition remember :: "cell \<Rightarrow> cell \<Rightarrow> merkle_state \<Rightarrow> merkle_state" where
  "remember c c' s = s\<lparr>ms_cells := (ms_cells s)(repr_hash c \<mapsto> c')\<rparr>"

lemma remember_pruned [simp]: "pruned_hashes (remember c c' s) = pruned_hashes s" "ms_pruned (remember c c' s) = ms_pruned s"
  by (simp_all add: remember_def pruned_hashes_def)

lemma state_ok_remember:
  "state_ok sha flt big U s \<Longrightarrow> c \<in> U \<Longrightarrow> prunes sha flt big (pruned_hashes s) c c' \<Longrightarrow>
    state_ok sha flt big U (remember c c' s)"
  unfolding state_ok_def remember_pruned by (auto simp: remember_def)

text \<open>A child joins the parent; the loop goes on, or ends.\<close>

definition deliver ::
  "sha256 \<Rightarrow> merkle_filter \<Rightarrow> bool \<Rightarrow> merkle_node list \<Rightarrow> cell \<Rightarrow> merkle_state \<Rightarrow> (cell \<times> merkle_state) result" where
  "deliver sha flt big stack c s =
    (case stack of [] \<Rightarrow> Ok (c, s) | parent # stack \<Rightarrow> merkle_loop sha flt big (push_child parent c # stack) s)"

lemma merkle_loop_close:
  "ri_next (nd_references n) = (None, it) \<Longrightarrow> close_node sha n = Ok c \<Longrightarrow>
    merkle_loop sha flt big (n # stack) s = deliver sha flt big stack c (remember (ri_cell (nd_references n)) c s)"
  by (simp add: merkle_loop.simps(2) deliver_def remember_def Let_def split: list.split)

text \<open>A node in the middle of its children: it has the copies of those that its iterator has passed.\<close>

definition node_ok ::
  "sha256 \<Rightarrow> merkle_filter \<Rightarrow> bool \<Rightarrow> cell set \<Rightarrow> hash_bytes set \<Rightarrow> cell list \<Rightarrow> merkle_node \<Rightarrow> bool" where
  "node_ok sha flt big U P ys n \<longleftrightarrow>
    ri_cell (nd_references n) \<in> U \<and> nd_descriptor n = descriptor (ri_cell (nd_references n)) \<and> nd_merkle_depth n = 0
    \<and> cell_children (ri_cell (nd_references n)) = ys @ iter_list (nd_references n)
    \<and> list_all2 (prunes sha flt big P) ys (nd_children n)"

lemma node_ok_mono: "node_ok sha flt big U P ys n \<Longrightarrow> P \<subseteq> Q \<Longrightarrow> node_ok sha flt big U Q ys n"
  unfolding node_ok_def by (blast intro: list_all2_mono prunes_mono)

lemma node_ok_open:
  assumes "proof_set sha U" "c \<in> U"
  shows "node_ok sha flt big U P [] (open_node 0 c)" "ri_cell (nd_references (open_node 0 c)) = c"
  using proof_setD(1,4) [OF assms] assms(2)
  by (simp_all add: node_ok_def open_node_def iter_references) (simp_all add: references_def)

text \<open>The next child of a node, and its copy.\<close>

lemma node_ok_next:
  assumes "proof_set sha U" "node_ok sha flt big U P ys n" "ri_next (nd_references n) = (Some c, it)"
    and "prunes sha flt big P c c'"
  shows "node_ok sha flt big U P (ys @ [c]) (push_child (n\<lparr>nd_references := it\<rparr>) c')"
    and "c \<in> U" "the (ri_peek_prev_cloned it) = c"
proof -
  let ?x = "ri_cell (nd_references n)"
  have it: "iter_list (nd_references n) = c # iter_list it" using assms(3) by (simp add: iter_list.simps [of "nd_references n"])
  have N: "?x \<in> U" "cell_children ?x = ys @ c # iter_list it" "list_all2 (prunes sha flt big P) ys (nd_children n)"
    "nd_descriptor n = descriptor ?x" "nd_merkle_depth n = 0"
    using assms(2) it by (simp_all add: node_ok_def)
  note D = proof_setD [OF assms(1) N(1)] and s = ri_next_Some [OF assms(3)]
  show "c \<in> U" using N(2) D(5) by auto
  have "length (cell_children ?x) \<le> 4"
    using wf_cell_children(2) [OF D(1)] wf_cell_shape(3) [OF D(1)] by (simp add: MAX_REF_COUNT_def)
  then have "length (nd_children n) < MAX_REF_COUNT"
    using N(2,3) by (auto simp: list_all2_lengthD MAX_REF_COUNT_def dest!: arg_cong [of _ _ length])
  then show "node_ok sha flt big U P (ys @ [c]) (push_child (n\<lparr>nd_references := it\<rparr>) c')"
    using N assms(4) ri_next_cell [OF assms(3)]
    by (simp add: node_ok_def push_child_def attempt_def refs_store_reference_def list_all2_appendI)
  show "the (ri_peek_prev_cloned it) = c"
    using s wf_cell_shape(4) [OF D(1)] by (simp add: ri_peek_prev_cloned_def)
qed

lemma merkle_frame:
  assumes U: "proof_set sha U"
  shows "node_ok sha flt big U (pruned_hashes s) ys n \<Longrightarrow> state_ok sha flt big U s \<Longrightarrow>
    \<exists>c' s'. merkle_loop sha flt big (n # stack) s
        = deliver sha flt big stack c' (remember (ri_cell (nd_references n)) c' s')
      \<and> opened sha flt big (pruned_hashes s') (ri_cell (nd_references n)) c'
      \<and> state_ok sha flt big U s' \<and> pruned_hashes s \<subseteq> pruned_hashes s' \<and> (ms_pruned s = None \<longleftrightarrow> ms_pruned s' = None)"
proof (induction "frame_weight (nd_references n)" arbitrary: n ys s stack rule: less_induct)
  case less
  let ?x = "ri_cell (nd_references n)" and ?P = "pruned_hashes s"
  obtain r it where n: "ri_next (nd_references n) = (r, it)" by (cases "ri_next (nd_references n)")
  have N: "?x \<in> U" "cell_children ?x = ys @ iter_list (nd_references n)"
    "list_all2 (prunes sha flt big ?P) ys (nd_children n)" "nd_descriptor n = descriptor ?x" "nd_merkle_depth n = 0"
    using less.prems(1) by (simp_all add: node_ok_def)
  show ?case
  proof (cases r)
    case None
    then have "cell_children ?x = ys" using N(2) n by (simp add: iter_list.simps [of "nd_references n"])
    then have c: "list_all2 (prunes sha flt big ?P) (cell_children ?x) (nd_children n)" using N(3) by simp
    from opened_keeps [OF U N(1) c] obtain c' where b: "build_ext sha (cb_like ?x (nd_children n)) = Ok c'" by blast
    then have "close_node sha n = Ok c'" using close_node_eq [OF _ N(4)] proof_setD(1) [OF U N(1)] by simp
    from merkle_loop_close [OF n [unfolded None] this] show ?thesis
      using b c less.prems(2) by (auto simp: opened_def)
  next
    case (Some child)
    note n = n [unfolded Some]
    define m where "m = n\<lparr>nd_references := it\<rparr>"
    note nx = node_ok_next [OF U less.prems(1) n, folded m_def]
    have x: "ri_cell it = ?x" by (rule ri_next_cell [OF n])
    have go: ?thesis
      if "merkle_loop sha flt big (n # stack) s = merkle_loop sha flt big (push_child m c # stack) t"
        "prunes sha flt big (pruned_hashes t) child c" "state_ok sha flt big U t" "?P \<subseteq> pruned_hashes t"
        "ms_pruned s = None \<longleftrightarrow> ms_pruned t = None" for c t
    proof -
      have "node_ok sha flt big U (pruned_hashes t) ys n" by (rule node_ok_mono [OF less.prems(1) that(4)])
      note ok = node_ok_next(1) [OF U this n that(2), folded m_def]
      have r: "nd_references (push_child m c) = it" by (simp add: push_child_def m_def)
      have "frame_weight (nd_references (push_child m c)) < frame_weight (nd_references n)"
        unfolding r using frame_weight_step(2) [OF n [symmetric]] .
      from less.hyps [OF this ok that(3), of stack] obtain c' s' where
        "merkle_loop sha flt big (push_child m c # stack) t = deliver sha flt big stack c' (remember ?x c' s')"
        "opened sha flt big (pruned_hashes s') ?x c'" "state_ok sha flt big U s'" "pruned_hashes t \<subseteq> pruned_hashes s'"
        "ms_pruned t = None \<longleftrightarrow> ms_pruned s' = None"
        unfolding r x by - (elim exE conjE, rule that)
      then show ?thesis using that(1,4,5) by (intro exI [of _ c'] exI [of _ s']) auto
    qed
    have U': "child \<in> U" using N(2) n proof_setD(5) [OF U N(1)] by (auto simp: iter_list.simps [of "nd_references n"])
    note loop = merkle_loop.simps(2) [of sha flt big n stack s, unfolded n option.case prod.case Let_def, folded m_def]
    show ?thesis
    proof (cases "ms_cells s (repr_hash child)")
      case (Some c)
      then obtain d where "d \<in> U" "repr_hash d = repr_hash child" "prunes sha flt big ?P d c"
        using less.prems(2) unfolding state_ok_def by blast
      then have "prunes sha flt big ?P child c" using proof_setD(7) [OF U, of d child] U' by simp
      then show ?thesis using loop less.prems(2) by (intro go [of c s]) (simp_all add: Some)
    next
      case None
      show ?thesis
      proof (cases "flt (repr_hash child) = IncludeSubtree")
        case True
        then have "prunes sha flt big ?P child child" by (rule prunes.subtree)
        moreover from nx(3) [OF this] have "the (ri_peek_prev_cloned it) = child" .
        ultimately show ?thesis using loop less.prems(2) by (intro go [of child s]) (simp_all add: None True)
      next
        case ninc: False
        note cut = prunes_child_cut [OF proof_setD(1) [OF U U'], of flt big]
        show ?thesis
        proof (cases "prunes_child flt big child")
          case True
          obtain pb where pb: "make_pruned_branch sha child 0 = Ok pb" by (rule prune_low [OF U U'])
          let ?t = "s\<lparr>ms_pruned := map_option (insert (repr_hash child)) (ms_pruned s)\<rparr>"
          have P: "?P \<subseteq> pruned_hashes ?t" "repr_hash child \<in> pruned_hashes ?t"
            by (auto simp: pruned_hashes_def split: option.split)
          have "state_ok sha flt big U ?t"
            unfolding state_ok_def
          proof (intro conjI allI impI)
            fix h c' assume "ms_cells ?t h = Some c'"
            then show "\<exists>c \<in> U. repr_hash c = h \<and> prunes sha flt big (pruned_hashes ?t) c c'"
              using less.prems(2) prunes_mono [OF _ P(1)] unfolding state_ok_def by simp blast
          qed (use less.prems(2) True U' in \<open>auto simp: state_ok_def\<close>)
          moreover have "prunes sha flt big (pruned_hashes ?t) child pb" by (rule prunes.pruned [OF True [unfolded cut] P(2) pb])
          ultimately show ?thesis
            using loop P(1) N(5) by (intro go [of pb ?t]) (simp_all add: None ninc True pb m_def)
        next
          case False
          let ?o = "open_node 0 child"
          have "frame_weight (nd_references ?o) < frame_weight (nd_references n)"
            using frame_weight_step(1) [OF n [symmetric]] by (simp add: open_node_def)
          from less.hyps [OF this node_ok_open(1) [OF U U'] less.prems(2), of "m # stack"] obtain c t where
            t: "merkle_loop sha flt big (?o # m # stack) s = deliver sha flt big (m # stack) c (remember child c t)"
            "opened sha flt big (pruned_hashes t) child c" "state_ok sha flt big U t" "?P \<subseteq> pruned_hashes t"
            "ms_pruned s = None \<longleftrightarrow> ms_pruned t = None"
            unfolding node_ok_open(2) [OF U U'] by - (elim exE conjE, rule that)
          have p: "prunes sha flt big (pruned_hashes t) child c" by (rule opened_prunes [OF t(2) ninc False [unfolded cut]])
          from state_ok_remember [OF t(3) U' p] t(4,5) p loop show ?thesis
            by (intro go [of c "remember child c t"]) (simp_all add: None ninc False N(5) m_def t(1) [unfolded m_def] deliver_def)
        qed
      qed
    qed
  qed
qed

section \<open>The builder\<close>

lemma merkle_build_correct:
  assumes U: "proof_set sha U" and r: "pb_root b \<in> U"
    and "pb_allow_different_root b \<or> pb_filter b (repr_hash (pb_root b)) \<noteq> Skip" "pr = None \<or> pr = Some {}"
  obtains c' s where "merkle_build sha b pr = Ok (c', remember (pb_root b) c' s)"
    "opened sha (pb_filter b) (pb_prune_big_cells b) (pruned_hashes s) (pb_root b) c'"
    "state_ok sha (pb_filter b) (pb_prune_big_cells b) U s" "pr = None \<longleftrightarrow> ms_pruned s = None"
proof -
  let ?s = "\<lparr>ms_cells = Map.empty, ms_pruned = pr\<rparr>"
  have ok: "state_ok sha (pb_filter b) (pb_prune_big_cells b) U ?s" using assms(4) by (auto simp: state_ok_def)
  show thesis
    using merkle_frame [OF U node_ok_open(1) [OF U r] ok, of "[]"] assms(3) that
    unfolding node_ok_open(2) [OF U r] by (auto simp: merkle_build_def deliver_def)
qed

lemma opened_root:
  assumes "proof_set sha U" "c \<in> U" "opened sha flt big P c c'"
  shows "keeps c c'" "cell_bits c' = cell_bits c" "cell_is_exotic c' = cell_is_exotic c"
    "list_all2 (prunes sha flt big P) (cell_children c) (cell_children c')"
proof -
  obtain rs where rs: "list_all2 (prunes sha flt big P) (cell_children c) rs" "build_ext sha (cb_like c rs) = Ok c'"
    using assms(3) by (auto simp: opened_def)
  from opened_keeps [OF assms(1,2) rs(1)] rs show "keeps c c'" "cell_bits c' = cell_bits c"
    "cell_is_exotic c' = cell_is_exotic c" "list_all2 (prunes sha flt big P) (cell_children c) (cell_children c')"
    by (metis Inr_inject)+
qed

lemma proof_build_ok:
  assumes U: "proof_set sha U" and r: "pb_root b \<in> U"
    and "pb_allow_different_root b \<or> pb_filter b (repr_hash (pb_root b)) \<noteq> Skip"
  obtains c' where "proof_build_raw sha b = Ok c'"
    "proof_build sha b = Ok \<lparr>mp_hash = repr_hash (pb_root b), mp_depth = repr_depth (pb_root b), mp_cell = c'\<rparr>"
    "opened sha (pb_filter b) (pb_prune_big_cells b) UNIV (pb_root b) c'"
proof -
  obtain c' s where m: "merkle_build sha b None = Ok (c', remember (pb_root b) c' s)"
    "opened sha (pb_filter b) (pb_prune_big_cells b) (pruned_hashes s) (pb_root b) c'"
    by (rule merkle_build_correct [OF assms, where pr = None]) simp_all
  have "opened sha (pb_filter b) (pb_prune_big_cells b) UNIV (pb_root b) c'"
    by (rule opened_mono [OF m(2)]) simp
  then show thesis using that [of c'] m(1) by (simp add: proof_build_raw_def proof_build_def)
qed

end
