(* ===== verification/Merkle_Update.thy ===== *)
theory Merkle_Update
  imports Merkle_Proof
begin

text \<open>
  \<^verbatim>\<open>src/merkle/update.rs\<close>: the parsed Merkle update, the traversals that check it against the old tree,
  the applier that rebuilds the new tree out of the update and the old one, and the builder of updates.
  Hash sets are sets of hashes, hash maps are maps from hashes. The parallel variants (\<open>par_*\<close>) are not
  modelled.
\<close>

section \<open>The parsed update\<close>

record merkle_update =
  mu_old_hash :: hash_bytes
  mu_new_hash :: hash_bytes
  mu_old_depth :: nat
  mu_new_depth :: nat
  mu_old :: cell
  mu_new :: cell

definition mu_BITS :: nat where "mu_BITS = 8 + (256 + 16) * 2"

definition mu_REFS :: nat where "mu_REFS = 2"

definition mu_default :: merkle_update where
  "mu_default = \<lparr>mu_old_hash = EMPTY_CELL_HASH, mu_new_hash = EMPTY_CELL_HASH, mu_old_depth = 0, mu_new_depth = 0,
    mu_old = EmptyOrdinaryCell, mu_new = EmptyOrdinaryCell\<rparr>"

definition mu_eq :: "merkle_update \<Rightarrow> merkle_update \<Rightarrow> bool" where
  "mu_eq a b \<longleftrightarrow> mu_old_hash a = mu_old_hash b \<and> mu_new_hash a = mu_new_hash b
     \<and> mu_old_depth a = mu_old_depth b \<and> mu_new_depth a = mu_new_depth b
     \<and> cell_eq (mu_old a) (mu_old b) \<and> cell_eq (mu_new a) (mu_new b)"

definition mu_load_from_cell :: "cell \<Rightarrow> merkle_update result" where
  "mu_load_from_cell cell =
    (if \<not> cell_is_exotic cell then Err UnexpectedOrdinaryCell
     else
       let s = slice_new_allow_exotic cell
       in if size_bits s \<noteq> mu_BITS \<or> size_refs s \<noteq> mu_REFS then Err CellUnderflow
          else ok (load_u8 s) (\<lambda>(tag, s).
            if tag \<noteq> ct_to_byte MerkleUpdateType then Err InvalidCell
            else ok (load_u256 s) (\<lambda>(old_hash, s). ok (load_u256 s) (\<lambda>(new_hash, s).
              ok (load_u16 s) (\<lambda>(old_depth, s). ok (load_u16 s) (\<lambda>(new_depth, s).
              ok (load_reference_cloned s) (\<lambda>(old, s). ok (load_reference_cloned s) (\<lambda>(new, s).
              let res = \<lparr>mu_old_hash = old_hash, mu_new_hash = new_hash, mu_old_depth = unat old_depth,
                mu_new_depth = unat new_depth, mu_old = old, mu_new = new\<rparr>
              in if cell_hash old 0 = old_hash \<and> cell_depth old 0 = unat old_depth
                   \<and> cell_hash new 0 = new_hash \<and> cell_depth new 0 = unat new_depth
                 then Ok res else Err InvalidCell))))))))"

definition mu_store_into :: "merkle_update \<Rightarrow> cell_builder \<Rightarrow> cell_builder result" where
  "mu_store_into u b =
    (if \<not> has_capacity b mu_BITS mu_REFS then Err CellOverflow
     else
       let b = set_exotic b True
       in ok (on_inner (\<lambda>d. store_u8 d (ct_to_byte MerkleUpdateType)) b) (\<lambda>b.
          ok (on_inner (\<lambda>d. store_u256 d (mu_old_hash u)) b) (\<lambda>b.
          ok (on_inner (\<lambda>d. store_u256 d (mu_new_hash u)) b) (\<lambda>b.
          ok (on_inner (\<lambda>d. store_u32 d (push_bit 16 (of_nat (mu_old_depth u)) OR of_nat (mu_new_depth u))) b) (\<lambda>b.
          ok (store_reference b (mu_old u)) (\<lambda>b. store_reference b (mu_new u)))))))"

section \<open>Traversals\<close>

text \<open>
  The loops \<open>'outer: while let Some(iter) = stack.last_mut()\<close> of this file share one shape: the next
  child of the top iterator is visited, and either its own children come next or the loop goes on with
  its siblings; an exhausted iterator is popped. \<open>visit\<close> is the body for a child (the iterator has just
  yielded it) and tells whether to descend, \<open>leave\<close> is what happens before the pop.
\<close>

function dfs_loop ::
  "(cell \<Rightarrow> refs_iter \<Rightarrow> 's \<Rightarrow> (bool \<times> 's) result) \<Rightarrow> (cell \<Rightarrow> 's \<Rightarrow> 's) \<Rightarrow> refs_iter list \<Rightarrow> 's \<Rightarrow> 's result" where
  "dfs_loop visit leave [] s = Ok s"
| "dfs_loop visit leave (it # stack) s =
    (case ri_next it of
       (Some child, it) \<Rightarrow> ok (visit child it s) (\<lambda>(descend, s).
         dfs_loop visit leave (if descend then references child # it # stack else it # stack) s)
     | (None, it) \<Rightarrow> dfs_loop visit leave stack (leave (ri_cell it) s))"
  by pat_completeness auto
termination
  by (relation "measure (\<lambda>(visit, leave, stack, s). sum_list (map frame_weight stack))")
     (auto simp: frame_weight_pos frame_weight_step)

declare dfs_loop.simps(2) [simp del]

record 'a traversal =
  tv_depth :: nat
  tv_visited :: "hash_bytes set"
  tv_acc :: 'a

definition tv_enter :: "cell \<Rightarrow> 'a traversal \<Rightarrow> 'a traversal" where
  "tv_enter cell s = s\<lparr>tv_depth := u8_add (tv_depth s) (of_bool (is_merkle (descriptor cell)))\<rparr>"

definition tv_leave :: "cell \<Rightarrow> 'a traversal \<Rightarrow> 'a traversal" where
  "tv_leave cell s = s\<lparr>tv_depth := tv_depth s - of_bool (is_merkle (descriptor cell))\<rparr>"

text \<open>The cells of one side of the update, each at its Merkle depth.\<close>

definition visit_update :: "cell \<Rightarrow> refs_iter \<Rightarrow> hash_bytes set traversal \<Rightarrow> (bool \<times> hash_bytes set traversal) result" where
  "visit_update child it s =
    (if repr_hash child \<in> tv_visited s then Ok (False, s)
     else
       let s = s\<lparr>tv_visited := insert (repr_hash child) (tv_visited s)\<rparr>;
           s = s\<lparr>tv_acc := insert (cell_hash child (tv_depth s)) (tv_acc s)\<rparr>
       in if is_pruned_branch (descriptor child) then Ok (False, s) else Ok (True, tv_enter child s))"

definition update_hashes :: "cell \<Rightarrow> hash_bytes set traversal result" where
  "update_hashes root =
    (let s = tv_enter root \<lparr>tv_depth = 0, tv_visited = {repr_hash root}, tv_acc = {cell_hash root 0}\<rparr>
     in dfs_loop visit_update tv_leave [references root] s)"

text \<open>Unchanged cells of the new side must be on the old side.\<close>

definition visit_new :: "hash_bytes set \<Rightarrow> cell \<Rightarrow> refs_iter \<Rightarrow> unit traversal \<Rightarrow> (bool \<times> unit traversal) result" where
  "visit_new old_cells child it s =
    (if repr_hash child \<in> tv_visited s then Ok (False, s)
     else
       let s = s\<lparr>tv_visited := insert (repr_hash child) (tv_visited s)\<rparr>; d = descriptor child
       in if is_pruned_branch d
          then if level (cd_level_mask d) = tv_depth s + 1 \<and> cell_hash child (tv_depth s) \<notin> old_cells
               then Err InvalidData else Ok (False, s)
          else Ok (True, tv_enter child s))"

definition find_old_cells :: "merkle_update \<Rightarrow> hash_bytes set result" where
  "find_old_cells u =
    ok (update_hashes (mu_old u)) (\<lambda>s.
      let old_cells = tv_acc s;
          s = tv_enter (mu_new u) \<lparr>tv_depth = tv_depth s, tv_visited = {repr_hash (mu_new u)}, tv_acc = ()\<rparr>
      in ok (dfs_loop (visit_new old_cells) tv_leave [references (mu_new u)] s) (\<lambda>_. Ok old_cells))"

text \<open>The cells of the original old tree that the update mentions, as owned cells.\<close>

type_synonym cell_map = "hash_bytes \<Rightarrow> cell option"

definition visit_old_tree ::
  "hash_bytes set \<Rightarrow> cell \<Rightarrow> refs_iter \<Rightarrow> cell_map traversal \<Rightarrow> (bool \<times> cell_map traversal) result" where
  "visit_old_tree old_cell_hashes child it s =
    (if repr_hash child \<in> tv_visited s then Ok (False, s)
     else
       let s = s\<lparr>tv_visited := insert (repr_hash child) (tv_visited s)\<rparr>; hash = cell_hash child (tv_depth s)
       in if hash \<notin> old_cell_hashes then Ok (False, s)
          else Ok (True, tv_enter child (s\<lparr>tv_acc := (tv_acc s)(hash \<mapsto> the (ri_peek_prev_cloned it))\<rparr>)))"

definition collect_old_cells :: "hash_bytes set \<Rightarrow> cell \<Rightarrow> cell_map result" where
  "collect_old_cells old_cell_hashes old =
    (let s = tv_enter old \<lparr>tv_depth = 0, tv_visited = {repr_hash old}, tv_acc = [cell_hash old 0 \<mapsto> old]\<rparr>
     in ok (dfs_loop (visit_old_tree old_cell_hashes) tv_leave [references old] s) (\<lambda>s. Ok (tv_acc s)))"

section \<open>Rebuilding the new tree\<close>

text \<open>
  \<open>MerkleUpdateApplier\<close>: \<open>find_cell\<close> finds the old cells, \<open>in_new\<close> is the flag \<open>find_in_new_cells\<close>, and the
  state are the rebuilt cells. A pruned branch of the level of its position is replaced by an old cell.
\<close>

definition resolve_pruned ::
  "(hash_bytes \<Rightarrow> cell option) \<Rightarrow> bool \<Rightarrow> cell \<Rightarrow> nat \<Rightarrow> cell \<Rightarrow> nat \<Rightarrow> cell_map \<Rightarrow> (cell \<times> cell_map) result" where
  "resolve_pruned find_cell in_new child child_merkle_depth cell child_idx new_cells =
    (let m = cd_level_mask (descriptor child)
     in if m AND push_bit (child_merkle_depth mod 8) 1 \<noteq> 0
        then
          let child_hash = cell_hash child (level m - 1)
          in case (if in_new then new_cells child_hash else None) of
               Some c \<Rightarrow> Ok (c, new_cells)
             | None \<Rightarrow> (case find_cell child_hash of
                 Some c \<Rightarrow> Ok (c, if in_new then new_cells(child_hash \<mapsto> c) else new_cells)
               | None \<Rightarrow> Err InvalidData)
        else case reference_cloned cell child_idx of
               Some c \<Rightarrow> Ok (c, new_cells)
             | None \<Rightarrow> Err CellUnderflow)"

lemma reference_count_less: "reference_count d < 8"
proof -
  have "d1 d AND REF_COUNT_MASK \<le> 7" unfolding REF_COUNT_MASK_def by (rule word_and_le1)
  then show ?thesis by (simp add: reference_count_def word_le_nat_alt)
qed

lemma tree_size_pos: "0 < tree_size c"
  by (induction c) auto

function applier_run ::
    "sha256 \<Rightarrow> (hash_bytes \<Rightarrow> cell option) \<Rightarrow> bool \<Rightarrow> cell \<Rightarrow> nat \<Rightarrow> cell_map \<Rightarrow> (cell \<times> cell_map) result"
  and applier_children ::
    "sha256 \<Rightarrow> (hash_bytes \<Rightarrow> cell option) \<Rightarrow> bool \<Rightarrow> cell \<Rightarrow> nat \<Rightarrow> nat \<Rightarrow> nat \<Rightarrow> cell_builder \<Rightarrow> cell_map
      \<Rightarrow> (cell_builder \<times> cell_map) result" where
  "applier_run sha find_cell in_new cell merkle_depth new_cells =
    (let d = descriptor cell;
         child_merkle_depth = u8_add merkle_depth (of_bool (ct_is_merkle (cell_type d)));
         result = set_exotic cb_new (is_exotic d)
     in ok (applier_children sha find_cell in_new cell child_merkle_depth 0 (reference_count d) result new_cells)
       (\<lambda>(result, new_cells).
          let result = attempt (on_inner (\<lambda>b. store_cell_data b cell)) result
          in ok (build_ext sha result) (\<lambda>c. Ok (c, new_cells))))"
| "applier_children sha find_cell in_new cell child_merkle_depth child_idx 0 result new_cells = Ok (result, new_cells)"
| "applier_children sha find_cell in_new cell child_merkle_depth child_idx (Suc n) result new_cells =
    (case reference cell child_idx of
       None \<Rightarrow> Err CellUnderflow
     | Some child \<Rightarrow>
         ok (if is_pruned_branch (descriptor child)
             then resolve_pruned find_cell in_new child child_merkle_depth cell child_idx new_cells
             else
               let child_hash = cell_hash child child_merkle_depth
               in case new_cells child_hash of
                    Some c \<Rightarrow> Ok (c, new_cells)
                  | None \<Rightarrow>
                      ok (applier_run sha find_cell in_new child child_merkle_depth new_cells) (\<lambda>(c, new_cells).
                        Ok (c, new_cells(child_hash \<mapsto> c))))
           (\<lambda>(c, new_cells).
              applier_children sha find_cell in_new cell child_merkle_depth (child_idx + 1) n
                (attempt (\<lambda>b. store_reference b c) result) new_cells))"
  by pat_completeness auto
termination
proof (relation "measure (\<lambda>x. case x of
      Inl (sha, find_cell, in_new, cell, merkle_depth, new_cells) \<Rightarrow> 16 * tree_size cell
    | Inr (sha, find_cell, in_new, cell, merkle_depth, child_idx, n, result, new_cells) \<Rightarrow> 16 * tree_size cell - 8 + n)",
    goal_cases)
  case (2 sha find_cell in_new cell merkle_depth new_cells d child_merkle_depth result)
  then show ?case using reference_count_less [of d] tree_size_pos [of cell] by simp
next
  case (3 sha find_cell in_new cell child_merkle_depth child_idx n result new_cells child)
  then show ?case using reference_size [of cell child_idx child] by simp
qed simp_all

declare applier_run.simps [simp del] applier_children.simps(2) [simp del]

record merkle_apply_result =
  ar_cell :: cell
  ar_new_cells_count :: nat

definition map_len :: "('k \<Rightarrow> 'v option) \<Rightarrow> nat" where
  "map_len m = card (dom m)"

text \<open>What all ways to apply an update end with.\<close>

definition run_applier :: "sha256 \<Rightarrow> (hash_bytes \<Rightarrow> cell option) \<Rightarrow> merkle_update \<Rightarrow> merkle_apply_result result" where
  "run_applier sha find_cell u =
    ok (applier_run sha find_cell False (mu_new u) 0 Map.empty) (\<lambda>(new, new_cells).
      if repr_hash new = mu_new_hash u
      then Ok \<lparr>ar_cell = new, ar_new_cells_count = map_len new_cells + 1\<rparr>
      else Err InvalidData)"

definition apply_ext_with_stats :: "sha256 \<Rightarrow> merkle_update \<Rightarrow> cell \<Rightarrow> merkle_apply_result result" where
  "apply_ext_with_stats sha u old =
    (if repr_hash old \<noteq> mu_old_hash u then Err InvalidData
     else if mu_old_hash u = mu_new_hash u then Ok \<lparr>ar_cell = old, ar_new_cells_count = 0\<rparr>
     else ok (find_old_cells u) (\<lambda>old_cell_hashes.
       ok (collect_old_cells old_cell_hashes old) (\<lambda>old_cells. run_applier sha old_cells u)))"

definition mu_apply :: "sha256 \<Rightarrow> merkle_update \<Rightarrow> cell \<Rightarrow> cell result" where
  "mu_apply sha u old = ok (apply_ext_with_stats sha u old) (\<lambda>r. Ok (ar_cell r))"

definition apply_trusted_ext_with_stats ::
  "sha256 \<Rightarrow> merkle_update \<Rightarrow> (hash_bytes \<Rightarrow> cell option) \<Rightarrow> merkle_apply_result result" where
  "apply_trusted_ext_with_stats sha u find_cell =
    (if mu_old_hash u = mu_new_hash u
     then case find_cell (mu_old_hash u) of
            Some cell \<Rightarrow> Ok \<lparr>ar_cell = cell, ar_new_cells_count = 0\<rparr>
          | None \<Rightarrow> Err InvalidData
     else run_applier sha find_cell u)"

definition apply_trusted :: "sha256 \<Rightarrow> merkle_update \<Rightarrow> (hash_bytes \<Rightarrow> cell option) \<Rightarrow> cell result" where
  "apply_trusted sha u find_cell = ok (apply_trusted_ext_with_stats sha u find_cell) (\<lambda>r. Ok (ar_cell r))"

section \<open>Removed cells\<close>

definition visit_removed ::
  "hash_bytes set \<Rightarrow> cell \<Rightarrow> refs_iter \<Rightarrow> (hash_bytes \<Rightarrow> nat option) \<Rightarrow> (bool \<times> (hash_bytes \<Rightarrow> nat option)) result" where
  "visit_removed new_cells child it counts =
    (let hash = repr_hash child
     in case counts hash of
          Some n \<Rightarrow> Ok (False, counts(hash \<mapsto> n + 1))
        | None \<Rightarrow>
            Ok (\<not> (reference_count (descriptor child) = 0 \<or> hash \<in> new_cells), counts(hash \<mapsto> 1)))"

definition compute_removed_cells :: "merkle_update \<Rightarrow> cell \<Rightarrow> (hash_bytes \<Rightarrow> nat option) result" where
  "compute_removed_cells u old =
    (if repr_hash old \<noteq> mu_old_hash u \<or> cell_hash (mu_old u) 0 \<noteq> repr_hash old then Err InvalidData
     else if mu_old_hash u = mu_new_hash u then Ok Map.empty
     else ok (update_hashes (mu_new u)) (\<lambda>s.
       let new_cells = tv_acc s;
           stack = (if repr_hash old \<notin> new_cells then [references old] else [])
       in dfs_loop (visit_removed new_cells) (\<lambda>_ counts. counts) stack [repr_hash old \<mapsto> 1]))"

section \<open>Building an update\<close>

record merkle_resolver =
  rs_visited :: "hash_bytes \<Rightarrow> bool option"
  rs_changed :: "hash_bytes set"

definition fill_decision :: "merkle_filter \<Rightarrow> hash_bytes \<Rightarrow> bool \<Rightarrow> bool \<times> bool" where
  "fill_decision flt h skip_filter =
    (if skip_filter then (True, skip_filter)
     else case flt h of Skip \<Rightarrow> (False, skip_filter) | Include \<Rightarrow> (True, skip_filter) | IncludeSubtree \<Rightarrow> (True, True))"

function resolver_fill ::
  "merkle_filter \<Rightarrow> hash_bytes set \<Rightarrow> cell \<Rightarrow> bool \<Rightarrow> merkle_resolver \<Rightarrow> bool \<times> merkle_resolver" where
  "resolver_fill flt pruned cell skip_filter st =
    (case rs_visited st (repr_hash cell) of
       Some result \<Rightarrow> (result, st)
     | None \<Rightarrow>
         let (process_children, skip_filter) = fill_decision flt (repr_hash cell) skip_filter;
             (result, st) =
               (if process_children
                then
                  let (result, st) = fold (\<lambda>child (result, st).
                        let (r, st) = resolver_fill flt pruned child skip_filter st in (result \<or> r, st))
                        (iter_list (references cell)) (False, st)
                  in (result, if result then st\<lparr>rs_changed := insert (repr_hash cell) (rs_changed st)\<rparr> else st)
                else (False, st));
             result = (result \<or> repr_hash cell \<in> pruned)
         in (result, st\<lparr>rs_visited := (rs_visited st)(repr_hash cell \<mapsto> result)\<rparr>))"
  by pat_completeness auto
termination
  by (relation "measure (\<lambda>(flt, pruned, cell, skip_filter, st). tree_size cell)")
     (use iter_list_size in \<open>fastforce simp: references_def\<close>)+

declare resolver_fill.simps [simp del]

text \<open>The cells that are not in the filter are the new ones; old cells are pruned.\<close>

definition inverted_filter :: "merkle_filter \<Rightarrow> merkle_filter" where
  "inverted_filter flt h = (if flt h = Skip then Include else Skip)"

record merkle_build_result =
  br_update :: merkle_update
  br_new_cells_count :: nat

definition update_build :: "sha256 \<Rightarrow> cell \<Rightarrow> cell \<Rightarrow> merkle_filter \<Rightarrow> merkle_build_result result" where
  "update_build sha old new flt =
    (let old_hash = repr_hash old; old_depth = repr_depth old; new_hash = repr_hash new; new_depth = repr_depth new
     in if old_hash = new_hash
        then ok (make_pruned_branch sha old 0) (\<lambda>pruned.
          Ok \<lparr>br_update = \<lparr>mu_old_hash = old_hash, mu_new_hash = old_hash, mu_old_depth = old_depth,
                mu_new_depth = old_depth, mu_old = pruned, mu_new = pruned\<rparr>,
              br_new_cells_count = 0\<rparr>)
        else
          ok (ext_build_raw sha (set_allow_different_root (proof_create new (inverted_filter flt)) True))
            (\<lambda>(new, new_cells, pruned_branches).
          let (result, resolver) = resolver_fill flt pruned_branches old False \<lparr>rs_visited = Map.empty, rs_changed = {}\<rparr>;
              changed_cells = (if result then insert old_hash (rs_changed resolver) else rs_changed resolver)
          in ok (proof_build_raw sha (set_allow_different_root (proof_create old (set_filter changed_cells)) True)) (\<lambda>old.
          Ok \<lparr>br_update = \<lparr>mu_old_hash = old_hash, mu_new_hash = new_hash, mu_old_depth = old_depth,
                mu_new_depth = new_depth, mu_old = old, mu_new = new\<rparr>,
              br_new_cells_count = map_len new_cells\<rparr>)))"

end
