(* ===== verification/Merkle_Search.thy ===== *)
theory Merkle_Search
  imports Merkle_Update Cell_Tree_Props
begin

text \<open>
  The traversals of \<^verbatim>\<open>src/merkle/update.rs\<close> are complete: if the body for a child marks its hash as seen
  and descends into the unseen children that satisfy \<open>enter\<close>, then in the end everything is seen that is
  reachable through such cells. \<open>I\<close> is any invariant that the body and the end of a frame keep.
\<close>

definition search_closed :: "cell set \<Rightarrow> (cell \<Rightarrow> bool) \<Rightarrow> hash_bytes set \<Rightarrow> hash_bytes set \<Rightarrow> bool" where
  "search_closed W enter A B \<longleftrightarrow> A \<subseteq> B \<and>
    (\<forall>c \<in> W. repr_hash c \<in> B \<and> repr_hash c \<notin> A \<and> enter c \<longrightarrow> repr_hash ` set (cell_children c) \<subseteq> B)"

lemma search_closed_refl: "search_closed W enter A A"
  by (auto simp: search_closed_def)

lemma search_closed_trans: "search_closed W enter A B \<Longrightarrow> search_closed W enter B C \<Longrightarrow> search_closed W enter A C"
  unfolding search_closed_def by blast

lemma search_closed_insert:
  assumes "tree_set W" "x \<in> W" "enter x \<Longrightarrow> repr_hash x \<notin> A \<Longrightarrow> repr_hash ` set (cell_children x) \<subseteq> B"
    and "search_closed W enter (insert (repr_hash x) A) B"
  shows "search_closed W enter A B"
  using assms tree_setD(3) [OF assms(1,2)] unfolding search_closed_def by (metis insert_iff insert_subset)

lemma dfs_frame:
  fixes visit :: "cell \<Rightarrow> refs_iter \<Rightarrow> 's \<Rightarrow> (bool \<times> 's) result"
  assumes W: "tree_set W"
    and visit: "\<And>c it s. c \<in> W \<Longrightarrow> I s \<Longrightarrow> the (ri_peek_prev_cloned it) = c \<Longrightarrow>
      \<exists>s'. visit c it s = Ok (repr_hash c \<notin> seen s \<and> enter c, s') \<and> I s' \<and> seen s' = insert (repr_hash c) (seen s)"
    and leave: "\<And>c s. c \<in> W \<Longrightarrow> I s \<Longrightarrow> I (leave c s) \<and> seen (leave c s) = seen s"
  shows "ri_cell it \<in> W \<Longrightarrow> set (iter_list it) \<subseteq> W \<Longrightarrow> I s \<Longrightarrow>
    \<exists>s'. dfs_loop visit leave (it # stack) s = dfs_loop visit leave stack s' \<and> I s'
      \<and> repr_hash ` set (iter_list it) \<subseteq> seen s' \<and> search_closed W enter (seen s) (seen s')"
proof (induction "frame_weight it" arbitrary: it s stack rule: less_induct)
  case less
  obtain r it' where n: "ri_next it = (r, it')" by (cases "ri_next it")
  have x: "ri_cell it' = ri_cell it" by (rule ri_next_cell [OF n])
  show ?case
  proof (cases r)
    case None
    then show ?thesis
      using n leave [OF less.prems(1,3)] by (auto simp: dfs_loop.simps(2) iter_list.simps [of it] x search_closed_refl)
  next
    case (Some c)
    note n = n [unfolded Some]
    have il: "iter_list it = c # iter_list it'" using n by (simp add: iter_list.simps [of it])
    have c: "c \<in> W" "set (iter_list it') \<subseteq> W" using less.prems(2) il by auto
    have "the (ri_peek_prev_cloned it') = c"
      using ri_next_Some [OF n] wf_cell_shape(4) [OF tree_setD(1) [OF W less.prems(1)]] by (simp add: ri_peek_prev_cloned_def)
    from visit [OF c(1) less.prems(3) this] obtain s1 where
      s1: "visit c it' s = Ok (repr_hash c \<notin> seen s \<and> enter c, s1)" "I s1" "seen s1 = insert (repr_hash c) (seen s)" by blast
    have go: ?thesis
      if t: "dfs_loop visit leave (it # stack) s = dfs_loop visit leave (it' # stack) t" "I t"
        "search_closed W enter (insert (repr_hash c) (seen s)) (seen t)"
        "enter c \<Longrightarrow> repr_hash c \<notin> seen s \<Longrightarrow> repr_hash ` set (cell_children c) \<subseteq> seen t" for t
    proof -
      from less.hyps [OF frame_weight_step(2) [OF n [symmetric]] _ c(2) t(2), of stack] x less.prems(1) obtain s' where
        s': "dfs_loop visit leave (it' # stack) t = dfs_loop visit leave stack s'" "I s'"
          "repr_hash ` set (iter_list it') \<subseteq> seen s'" "search_closed W enter (seen t) (seen s')" by auto
      have "search_closed W enter (seen s) (seen t)" by (rule search_closed_insert [where x = c, OF W c(1) t(4) t(3)])
      from search_closed_trans [OF this s'(4)] have k: "search_closed W enter (seen s) (seen s')" .
      have "repr_hash c \<in> seen s'" using t(3) s'(4) by (auto simp: search_closed_def)
      then show ?thesis using t(1) s' k il by auto
    qed
    show ?thesis
    proof (cases "repr_hash c \<notin> seen s \<and> enter c")
      case True
      have "frame_weight (references c) < frame_weight it"
        using frame_weight_step(1) [OF n [symmetric]] by simp
      note f = less.hyps [OF this, of s1 "it' # stack"]
      have r: "ri_cell (references c) = c" "iter_list (references c) = cell_children c"
        using iter_references tree_setD(1) [OF W c(1)] by (auto simp: references_def)
      have "set (cell_children c) \<subseteq> W" using tree_setD(2) [OF W c(1)] by auto
      with f c(1) s1(2) obtain t where
        t: "dfs_loop visit leave (references c # it' # stack) s1 = dfs_loop visit leave (it' # stack) t" "I t"
          "repr_hash ` set (cell_children c) \<subseteq> seen t" "search_closed W enter (seen s1) (seen t)"
        unfolding r by auto
      show ?thesis
        by (rule go [OF _ t(2)]) (use n s1 True t in \<open>simp_all add: dfs_loop.simps(2)\<close>)
    next
      case False
      show ?thesis
        by (rule go [OF _ s1(2)]) (use n s1 False in \<open>auto simp: dfs_loop.simps(2) search_closed_refl\<close>)
    qed
  qed
qed

text \<open>A search from a root whose hash alone has been seen.\<close>

lemma dfs_root:
  fixes visit :: "cell \<Rightarrow> refs_iter \<Rightarrow> 's \<Rightarrow> (bool \<times> 's) result"
  assumes W: "tree_set W" "root \<in> W" and s: "I s" "seen s = {repr_hash root}"
    and visit: "\<And>c it s. c \<in> W \<Longrightarrow> I s \<Longrightarrow> the (ri_peek_prev_cloned it) = c \<Longrightarrow>
      \<exists>s'. visit c it s = Ok (repr_hash c \<notin> seen s \<and> enter c, s') \<and> I s' \<and> seen s' = insert (repr_hash c) (seen s)"
    and leave: "\<And>c s. c \<in> W \<Longrightarrow> I s \<Longrightarrow> I (leave c s) \<and> seen (leave c s) = seen s"
  obtains s' where "dfs_loop visit leave [references root] s = Ok s'" "I s'" "repr_hash root \<in> seen s'"
    "\<And>c. c \<in> W \<Longrightarrow> repr_hash c \<in> seen s' \<Longrightarrow> c = root \<or> enter c \<Longrightarrow> repr_hash ` set (cell_children c) \<subseteq> seen s'"
proof -
  have r: "ri_cell (references root) = root" "iter_list (references root) = cell_children root"
    using iter_references tree_setD(1) [OF W] by (auto simp: references_def)
  have "set (cell_children root) \<subseteq> W" using tree_setD(2) [OF W] by auto
  with W(2) s(1) have "\<exists>s'. dfs_loop visit leave (references root # []) s = dfs_loop visit leave [] s' \<and> I s'
      \<and> repr_hash ` set (iter_list (references root)) \<subseteq> seen s' \<and> search_closed W enter (seen s) (seen s')"
    using visit leave r by (intro dfs_frame [where I = I and seen = seen and enter = enter, OF W(1)]) simp_all
  then obtain s' where
    s': "dfs_loop visit leave [references root] s = Ok s'" "I s'" "repr_hash ` set (cell_children root) \<subseteq> seen s'"
      "search_closed W enter (seen s) (seen s')" unfolding r dfs_loop.simps(1) by - (elim exE conjE, rule that)
  show thesis
  proof (rule that [OF s'(1,2)])
    show "repr_hash root \<in> seen s'" using s'(4) s(2) by (auto simp: search_closed_def)
    fix c assume c: "c \<in> W" "repr_hash c \<in> seen s'" "c = root \<or> enter c"
    show "repr_hash ` set (cell_children c) \<subseteq> seen s'"
    proof (cases "c = root")
      case False
      then have "repr_hash c \<notin> seen s" using s(2) tree_setD(3) [OF W(1) c(1) W(2)] by simp
      then show ?thesis using s'(4) c False unfolding search_closed_def by blast
    qed (use s'(3) in simp)
  qed
qed

end
