(* ===== verification/Merkle_Copy.thy ===== *)
theory Merkle_Copy
  imports Merkle_Proof_Props Merkle_Search
begin

text \<open>
  Copies of level 0 trees with pruned branches, as the two sides of a Merkle update have them: which
  cells of a copy are pruned branches, that a copy has no Merkle cells, and that the applier of
  \<^verbatim>\<open>src/merkle/update.rs\<close> restores the tree from a copy if it finds the cells that were pruned.
\<close>

section \<open>Trees of level 0\<close>

definition plain_set :: "sha256 \<Rightarrow> cell set \<Rightarrow> bool" where
  "plain_set sha U \<longleftrightarrow> proof_set sha U \<and> (\<forall>c \<in> U. cell_level_mask c = 0)"

lemma plain_setD:
  assumes "plain_set sha U"
  shows "proof_set sha U" "tree_set U" "c \<in> U \<Longrightarrow> cell_level_mask c = 0" "c \<in> U \<Longrightarrow> cell_hash c 0 = repr_hash c"
    "c \<in> U \<Longrightarrow> \<not> is_pruned_branch (descriptor c)"
proof -
  show p: "proof_set sha U" "tree_set U" and m: "c \<in> U \<Longrightarrow> cell_level_mask c = 0" for c
    using assms by (simp_all add: plain_set_def proof_set_def)
  show "cell_hash c 0 = repr_hash c" if "c \<in> U"
    unfolding repr_hash_def using m [OF that] by (intro cell_hash_level tree_setD(1) [OF p(2) that]) (simp add: hash_index_def)
  show "\<not> is_pruned_branch (descriptor c)" if "c \<in> U"
    using m [OF that] by (simp add: is_pruned_branch_def cell_level_mask_def lm_is_empty_def)
qed

lemma plain_subset:
  assumes "plain_set sha U" "V \<subseteq> U" "\<And>c. c \<in> V \<Longrightarrow> set (cell_children c) \<subseteq> V"
  shows "plain_set sha V"
proof -
  have "inj_on repr_hash V" using assms(1,2) by (auto simp: plain_set_def proof_set_def tree_set_def elim: inj_on_subset)
  moreover have "wf_cell c \<and> built sha c \<and> low_mask c \<and> \<not> is_merkle (descriptor c) \<and> cell_level_mask c = 0"
    if "c \<in> V" for c using proof_setD(1-4) [OF plain_setD(1) [OF assms(1)]] plain_setD(3) [OF assms(1)] that assms(2) by blast
  ultimately show ?thesis using assms(1,3) by (simp add: plain_set_def proof_set_def tree_set_def)
qed

lemma subcells_in: "tree_set U \<Longrightarrow> c \<in> U \<Longrightarrow> set (subcells c) \<subseteq> U"
proof (induction c)
  case (OrdinaryCell n hs d rs ds)
  then show ?case using tree_setD(2) [OF OrdinaryCell.prems] by fastforce
qed auto

lemma subcells_unfold: "set (subcells c) = insert c (\<Union>r \<in> set (cell_children c). set (subcells r))"
  by (cases c) auto

lemma list_all2_right: "list_all2 (\<lambda>x y. Q y) xs ys \<Longrightarrow> \<forall>y \<in> set ys. Q y"
  by (induction xs ys rule: list_all2_induct) auto

section \<open>The cells of a copy\<close>

text \<open>A cell of a copy is a pruned branch for a cell of \<open>P\<close>, or an open cell.\<close>

definition copy_ok :: "cell set \<Rightarrow> hash_bytes set \<Rightarrow> cell \<Rightarrow> bool" where
  "copy_ok U P z \<longleftrightarrow> wf_cell z \<and> \<not> is_merkle (descriptor z)
    \<and> (is_pruned_branch (descriptor z) \<longrightarrow>
        cell_level_mask z = 1 \<and> (\<exists>c \<in> U. repr_hash c \<in> P \<and> cell_hash z 0 = repr_hash c))"

lemma plain_copy_ok: "plain_set sha U \<Longrightarrow> c \<in> U \<Longrightarrow> copy_ok U P c"
  using proof_setD(1,4) [of sha U c] plain_setD(1) [of sha U] plain_setD(5) [of sha U c] by (simp add: copy_ok_def)

lemma rebuilt_copy_ok:
  assumes U: "plain_set sha U" and c: "c \<in> U" and rs: "list_all2 (prunes sha flt big P) (cell_children c) rs"
    and b: "build_ext sha (cb_like c rs) = Ok c'"
  shows "copy_ok U P c'" "\<not> is_pruned_branch (descriptor c')" "cell_children c' = rs"
proof -
  note p = plain_setD(1) [OF U]
  from opened_keeps [OF p c rs] b have k: "keeps c c'" "cell_is_exotic c' = cell_is_exotic c" "cell_children c' = rs"
    by (metis Inr_inject)+
  have x: "\<not> is_merkle (descriptor c') \<and> \<not> is_pruned_branch (descriptor c')"
  proof (cases "cell_is_exotic c")
    case True
    then have "cell_children c = []" using exotic_childless proof_setD(1,4) [OF p c] by blast
    then have "c' = c" using proof_setD(2) [OF p c] rs b by (simp add: built_def)
    then show ?thesis using proof_setD(4) [OF p c] plain_setD(5) [OF U c] by simp
  next
    case False
    then show ?thesis using k(2) by (simp add: is_merkle_def is_pruned_branch_def cell_is_exotic_def)
  qed
  then show "copy_ok U P c'" "\<not> is_pruned_branch (descriptor c')" "cell_children c' = rs"
    using k by (auto simp: copy_ok_def keeps_def)
qed

lemma prunes_copy:
  assumes U: "plain_set sha U" and "prunes sha flt big P c c'"
  shows "c \<in> U \<Longrightarrow> \<forall>z \<in> set (subcells c'). copy_ok U P z"
  using assms(2)
proof (induction rule: prunes.induct)
  case (subtree c)
  then show ?case using subcells_in [OF plain_setD(2) [OF U]] plain_copy_ok [OF U] by blast
next
  case (pruned c pb)
  from prune_low [OF plain_setD(1) [OF U] pruned.prems] pruned.hyps(3)
  have k: "keeps c pb" "cell_children pb = []" "is_pruned_branch (descriptor pb)" "cell_level_mask pb = 1" by (metis Inr_inject)+
  then have "copy_ok U P pb"
    using pruned.hyps(2) pruned.prems plain_setD(4) [OF U pruned.prems]
    by (auto simp: copy_ok_def keeps_def is_merkle_def is_pruned_branch_def)
  then show ?case using k(2) by (simp add: subcells_unfold [of pb])
next
  case (node c rs c')
  have l: "list_all2 (prunes sha flt big P) (cell_children c) rs" using node.IH by (auto elim: list_all2_mono)
  note r = rebuilt_copy_ok [OF U node.prems l node.hyps(3)]
  have "list_all2 (\<lambda>x x'. \<forall>z \<in> set (subcells x'). copy_ok U P z) (cell_children c) rs"
    by (rule list_all2_mono_set [OF node.IH]) (use proof_setD(5) [OF plain_setD(1) [OF U] node.prems] in blast)
  then have "\<forall>x' \<in> set rs. \<forall>z \<in> set (subcells x'). copy_ok U P z" by (rule list_all2_right)
  then show ?case using r by (simp add: subcells_unfold [of c'])
qed

lemma opened_copy:
  assumes U: "plain_set sha U" and c: "c \<in> U" and "opened sha flt big P c c'"
  shows "\<forall>z \<in> set (subcells c'). copy_ok U P z" "\<not> is_pruned_branch (descriptor c')"
proof -
  obtain rs where l: "list_all2 (prunes sha flt big P) (cell_children c) rs" and b: "build_ext sha (cb_like c rs) = Ok c'"
    using assms(3) by (auto simp: opened_def)
  note r = rebuilt_copy_ok [OF U c l b]
  have "list_all2 (\<lambda>x x'. \<forall>z \<in> set (subcells x'). copy_ok U P z) (cell_children c) rs"
    by (rule list_all2_mono_set [OF l]) (use prunes_copy [OF U] proof_setD(5) [OF plain_setD(1) [OF U] c] in blast)
  then have "\<forall>x' \<in> set rs. \<forall>z \<in> set (subcells x'). copy_ok U P z" by (rule list_all2_right)
  then show "\<forall>z \<in> set (subcells c'). copy_ok U P z" "\<not> is_pruned_branch (descriptor c')"
    using r by (simp_all add: subcells_unfold [of c'])
qed

section \<open>Restoring a tree\<close>

definition cache_ok :: "cell set \<Rightarrow> cell_map \<Rightarrow> bool" where
  "cache_ok U m \<longleftrightarrow> (\<forall>h c. m h = Some c \<longrightarrow> c \<in> U \<and> repr_hash c = h)"

lemma cache_ok_upd: "cache_ok U m \<Longrightarrow> c \<in> U \<Longrightarrow> cache_ok U (m(repr_hash c \<mapsto> c))"
  by (auto simp: cache_ok_def)

lemma cache_ok_get: "tree_set U \<Longrightarrow> cache_ok U m \<Longrightarrow> c \<in> U \<Longrightarrow> m (repr_hash c) = Some d \<Longrightarrow> d = c"
  using tree_setD(3) unfolding cache_ok_def by blast

text \<open>One child: a pruned branch is looked up, an open cell is restored or found in the cache.\<close>

definition restore_child ::
  "sha256 \<Rightarrow> (hash_bytes \<Rightarrow> cell option) \<Rightarrow> cell \<Rightarrow> nat \<Rightarrow> cell \<Rightarrow> cell_map \<Rightarrow> (cell \<times> cell_map) result" where
  "restore_child sha find_cell parent i child new_cells =
    (if is_pruned_branch (descriptor child) then resolve_pruned find_cell False child 0 parent i new_cells
     else case new_cells (cell_hash child 0) of
            Some c \<Rightarrow> Ok (c, new_cells)
          | None \<Rightarrow> ok (applier_run sha find_cell False child 0 new_cells) (\<lambda>(c, new_cells).
              Ok (c, new_cells(cell_hash child 0 \<mapsto> c))))"

lemma restore_child_ok:
  assumes U: "plain_set sha U" and c: "c \<in> U" and flt: "\<forall>h. flt h \<noteq> IncludeSubtree"
    and find: "\<forall>c \<in> U. repr_hash c \<in> P \<longrightarrow> find_cell (repr_hash c) = Some c"
    and run: "\<And>nc. opened sha flt big P c c' \<Longrightarrow> cache_ok U nc \<Longrightarrow>
      \<exists>nc'. applier_run sha find_cell False c' 0 nc = Ok (c, nc') \<and> cache_ok U nc'"
    and p: "prunes sha flt big P c c'" and nc: "cache_ok U nc"
  shows "\<exists>nc'. restore_child sha find_cell parent i c' nc = Ok (c, nc') \<and> cache_ok U nc'"
  using p
proof cases
  case subtree
  then show ?thesis using flt by blast
next
  case pruned
  from prune_low [OF plain_setD(1) [OF U] c] pruned(3)
  have k: "keeps c c'" "is_pruned_branch (descriptor c')" "cell_level_mask c' = 1" by (metis Inr_inject)+
  then have "cell_hash c' 0 = repr_hash c" using plain_setD(4) [OF U c] by (simp add: keeps_def)
  then show ?thesis
    using k(2,3) find c pruned(2) nc
    by (simp add: restore_child_def resolve_pruned_def Let_def cell_level_mask_def level_values)
next
  case (node rs)
  note r = rebuilt_copy_ok [OF U c node(3,4)]
  have o: "opened sha flt big P c c'" using node(3,4) by (auto simp: opened_def)
  have h: "cell_hash c' 0 = repr_hash c"
    using opened_root(1) [OF plain_setD(1) [OF U] c o] plain_setD(4) [OF U c] by (simp add: keeps_def)
  show ?thesis
  proof (cases "nc (repr_hash c)")
    case None
    from run [OF o nc] obtain nc' where "applier_run sha find_cell False c' 0 nc = Ok (c, nc')" "cache_ok U nc'" by blast
    then show ?thesis using None r(2) h cache_ok_upd [OF _ c] by (simp add: restore_child_def)
  next
    case (Some d)
    then show ?thesis using r(2) h cache_ok_get [OF plain_setD(2) [OF U] nc c Some] nc by (simp add: restore_child_def)
  qed
qed

lemma applier_children_step:
  "applier_children sha find_cell False cell 0 i (Suc n) result new_cells =
    (case reference cell i of
       None \<Rightarrow> Err CellUnderflow
     | Some child \<Rightarrow> ok (restore_child sha find_cell cell i child new_cells) (\<lambda>(c, new_cells).
         applier_children sha find_cell False cell 0 (i + 1) n (attempt (\<lambda>b. store_reference b c) result) new_cells))"
  unfolding applier_children.simps(2) restore_child_def Let_def by (rule refl)

lemma applier_children_ok:
  assumes w: "wf_cell c'" and ch: "\<And>i nc. i < length cs \<Longrightarrow> cache_ok U nc \<Longrightarrow>
      \<exists>nc'. restore_child sha find_cell c' i (cell_children c' ! i) nc = Ok (cs ! i, nc') \<and> cache_ok U nc'"
    and l: "length (cell_children c') = length cs" "length cs \<le> 4"
  shows "i + n = length cs \<Longrightarrow> cache_ok U nc \<Longrightarrow>
    \<exists>nc'. applier_children sha find_cell False c' 0 i n (b\<lparr>cb_references := take i cs\<rparr>) nc
      = Ok (b\<lparr>cb_references := cs\<rparr>, nc') \<and> cache_ok U nc'"
proof (induction n arbitrary: i nc)
  case (Suc n)
  then have i: "i < length cs" by simp
  from ch [OF i Suc.prems(2)] obtain nc' where
    n: "restore_child sha find_cell c' i (cell_children c' ! i) nc = Ok (cs ! i, nc')" "cache_ok U nc'" by blast
  have r: "reference c' i = Some (cell_children c' ! i)"
    using wf_cell_children(3) [OF w] i l(1) by (simp add: nth_opt_def)
  have s: "attempt (\<lambda>b. store_reference b (cs ! i)) (b\<lparr>cb_references := take i cs\<rparr>) = b\<lparr>cb_references := take (Suc i) cs\<rparr>"
    using i l(2) by (simp add: attempt_def store_reference_def refs_store_reference_def MAX_REF_COUNT_def take_Suc_conv_app_nth)
  have "applier_children sha find_cell False c' 0 i (Suc n) (b\<lparr>cb_references := take i cs\<rparr>) nc
      = applier_children sha find_cell False c' 0 (Suc i) n (b\<lparr>cb_references := take (Suc i) cs\<rparr>) nc'"
    unfolding applier_children_step r by (simp add: n(1) s)
  then show ?case using Suc.IH [OF _ n(2), of "Suc i"] Suc.prems(1) by simp
qed simp

lemma not_merkle_type: "\<not> is_merkle d \<Longrightarrow> \<not> ct_is_merkle (cell_type d)"
  by (auto simp: is_merkle_def ct_is_merkle_def cell_type_def is_exotic_def reference_count_def unat_eq_zero)

lemma applier_restores:
  assumes U: "plain_set sha U" and flt: "\<forall>h. flt h \<noteq> IncludeSubtree"
    and find: "\<forall>c \<in> U. repr_hash c \<in> P \<longrightarrow> find_cell (repr_hash c) = Some c"
  shows "c \<in> U \<Longrightarrow> opened sha flt big P c c' \<Longrightarrow> cache_ok U nc \<Longrightarrow>
    \<exists>nc'. applier_run sha find_cell False c' 0 nc = Ok (c, nc') \<and> cache_ok U nc'"
proof (induction "tree_size c" arbitrary: c c' nc rule: less_induct)
  case less
  note D = proof_setD [OF plain_setD(1) [OF U] less.prems(1)]
  note o = opened_root [OF plain_setD(1) [OF U] less.prems(1,2)]
  have w: "wf_cell c'" using o(1) by (simp add: keeps_def)
  have l: "length (cell_children c') = length (cell_children c)" "length (cell_children c) \<le> 4"
    using o(4) wf_cell_children(2) [OF D(1)] wf_cell_shape(3) [OF D(1)] by (simp_all add: list_all2_lengthD MAX_REF_COUNT_def)
  have ch: "\<exists>nc'. restore_child sha find_cell c' i (cell_children c' ! i) nc = Ok (cell_children c ! i, nc') \<and> cache_ok U nc'"
    if i: "i < length (cell_children c)" and nc: "cache_ok U nc" for i nc
  proof -
    have x: "cell_children c ! i \<in> set (cell_children c)" using i by simp
    have p: "prunes sha flt big P (cell_children c ! i) (cell_children c' ! i)" using o(4) i by (simp add: list_all2_conv_all_nth)
    show ?thesis
      by (rule restore_child_ok [OF U _ flt find less.hyps p nc]) (use x D(5) children_size [OF D(1) x] in auto)
  qed
  let ?b = "set_exotic cb_new (is_exotic (descriptor c'))"
  have d: "\<not> is_merkle (descriptor c')" "reference_count (descriptor c') = length (cell_children c)"
    using opened_copy(1) [OF U less.prems(1,2)] wf_cell_children(2) [OF w] l
    by (auto simp: copy_ok_def cell_reference_count_def)
  from applier_children_ok [where b = ?b and i = 0, OF w ch l, of "length (cell_children c)"] less.prems(3) obtain nc' where
    n: "applier_children sha find_cell False c' 0 0 (length (cell_children c)) (?b\<lparr>cb_references := []\<rparr>) nc
      = Ok (?b\<lparr>cb_references := cell_children c\<rparr>, nc')" "cache_ok U nc'" by auto
  have b: "?b\<lparr>cb_references := []\<rparr> = ?b" by (simp add: set_exotic_def cb_new_def)
  have "attempt (on_inner (\<lambda>b. store_cell_data b c')) (?b\<lparr>cb_references := cell_children c\<rparr>) = cb_like c (cell_children c)"
    using store_cell_data_new [OF w] o(2,3)
    by (simp add: attempt_def on_inner_def set_exotic_def cb_new_def cb_like_def cell_is_exotic_def)
  then have "applier_run sha find_cell False c' 0 nc = Ok (c, nc')"
    using n(1) d D(2) not_merkle_type [OF d(1)] by (simp add: applier_run.simps Let_def b built_def)
  then show ?case using n(2) by blast
qed

end
