(* ===== verification/Merkle_Update_Props.thy ===== *)
theory Merkle_Update_Props
  imports Merkle_Copy
begin

text \<open>
  Updates that were built by \<open>MerkleUpdateBuilder\<close> apply: which old cells the resolver keeps open, that the
  search in the old tree then finds every cell that was pruned on the new side, and that the applier
  gives back the new tree.
\<close>

section \<open>Old cells that the new tree shares\<close>

text \<open>
  \<open>known flt old c\<close>: \<open>c\<close> is reached from the old root through cells that the filter knows.
  \<open>leads flt P c\<close>: from \<open>c\<close>, in this way, a cell of \<open>P\<close> is reached.
\<close>

inductive known :: "merkle_filter \<Rightarrow> cell \<Rightarrow> cell \<Rightarrow> bool" for flt old where
  root: "known flt old old"
| child: "known flt old c \<Longrightarrow> flt (repr_hash c) \<noteq> Skip \<Longrightarrow> d \<in> set (cell_children c) \<Longrightarrow> known flt old d"

inductive leads :: "merkle_filter \<Rightarrow> hash_bytes set \<Rightarrow> cell \<Rightarrow> bool" for flt P where
  found: "repr_hash c \<in> P \<Longrightarrow> leads flt P c"
| up: "leads flt P d \<Longrightarrow> flt (repr_hash c) \<noteq> Skip \<Longrightarrow> d \<in> set (cell_children c) \<Longrightarrow> leads flt P c"

definition leads_below :: "merkle_filter \<Rightarrow> hash_bytes set \<Rightarrow> cell \<Rightarrow> bool" where
  "leads_below flt P c \<longleftrightarrow> flt (repr_hash c) \<noteq> Skip \<and> (\<exists>d \<in> set (cell_children c). leads flt P d)"

lemma leads_cases: "leads flt P c \<longleftrightarrow> repr_hash c \<in> P \<or> leads_below flt P c"
  by (auto simp: leads_below_def elim: leads.cases intro: leads.intros)

section \<open>The resolver\<close>

text \<open>What the resolver has recorded: every cell with a result has the right one, and so have its children.\<close>

definition filled :: "merkle_filter \<Rightarrow> hash_bytes set \<Rightarrow> cell set \<Rightarrow> merkle_resolver \<Rightarrow> bool" where
  "filled flt P U st \<longleftrightarrow> (\<forall>c \<in> U. \<forall>r. rs_visited st (repr_hash c) = Some r \<longrightarrow>
    (leads flt P c \<longrightarrow> r) \<and> (leads_below flt P c \<longrightarrow> repr_hash c \<in> rs_changed st)
    \<and> (flt (repr_hash c) \<noteq> Skip \<longrightarrow> (\<forall>d \<in> set (cell_children c). rs_visited st (repr_hash d) \<noteq> None)))"

lemma filledD:
  assumes "filled flt P U st" "c \<in> U" "rs_visited st (repr_hash c) = Some r"
  shows "leads flt P c \<Longrightarrow> r" "leads_below flt P c \<Longrightarrow> repr_hash c \<in> rs_changed st"
    "flt (repr_hash c) \<noteq> Skip \<Longrightarrow> d \<in> set (cell_children c) \<Longrightarrow> rs_visited st (repr_hash d) \<noteq> None"
  using assms unfolding filled_def by blast+

definition extends :: "merkle_resolver \<Rightarrow> merkle_resolver \<Rightarrow> bool" where
  "extends st st' \<longleftrightarrow> rs_visited st \<subseteq>\<^sub>m rs_visited st' \<and> rs_changed st \<subseteq> rs_changed st'"

lemma extends_refl: "extends st st"
  by (simp add: extends_def)

lemma extends_trans: "extends a b \<Longrightarrow> extends b c \<Longrightarrow> extends a c"
  by (auto simp: extends_def intro: map_le_trans)

lemma extends_visited: "extends a b \<Longrightarrow> rs_visited a h = Some r \<Longrightarrow> rs_visited b h = Some r"
  by (auto simp: extends_def map_le_def dom_def)

text \<open>The loop over the children.\<close>

definition fill_step ::
  "merkle_filter \<Rightarrow> hash_bytes set \<Rightarrow> bool \<Rightarrow> cell \<Rightarrow> bool \<times> merkle_resolver \<Rightarrow> bool \<times> merkle_resolver" where
  "fill_step flt P skip child = (\<lambda>(result, st). let (r, st) = resolver_fill flt P child skip st in (result \<or> r, st))"

definition fills :: "merkle_filter \<Rightarrow> hash_bytes set \<Rightarrow> cell set \<Rightarrow> cell \<Rightarrow> bool" where
  "fills flt P U c \<longleftrightarrow> (\<forall>skip st r st'. filled flt P U st \<longrightarrow> resolver_fill flt P c skip st = (r, st') \<longrightarrow>
    filled flt P U st' \<and> extends st st' \<and> rs_visited st' (repr_hash c) = Some r)"

lemma fill_children:
  assumes "\<forall>c \<in> set cs. fills flt P U c" "set cs \<subseteq> U"
  shows "filled flt P U st \<Longrightarrow> fold (fill_step flt P skip) cs (r0, st) = (r, st') \<Longrightarrow>
    filled flt P U st' \<and> extends st st' \<and> (r0 \<longrightarrow> r)
    \<and> (\<forall>c \<in> set cs. rs_visited st' (repr_hash c) \<noteq> None \<and> (leads flt P c \<longrightarrow> r))"
  using assms
proof (induction cs arbitrary: st r0)
  case Nil
  then show ?case by (simp add: extends_refl)
next
  case (Cons c cs)
  obtain q s where q: "resolver_fill flt P c skip st = (q, s)" by fastforce
  have f: "filled flt P U s" "extends st s" "rs_visited s (repr_hash c) = Some q"
    using Cons.prems(1,3) q unfolding fills_def by auto
  have l: "leads flt P c \<longrightarrow> q" using filledD(1) [OF f(1) _ f(3)] Cons.prems(4) by auto
  have "fill_step flt P skip c (r0, st) = (r0 \<or> q, s)" using q by (simp add: fill_step_def)
  then have "fold (fill_step flt P skip) cs (r0 \<or> q, s) = (r, st')" using Cons.prems(2) by simp
  from Cons.IH [OF f(1) this] Cons.prems(3,4)
  have h: "filled flt P U st'" "extends s st'" "r0 \<or> q \<longrightarrow> r"
    "\<forall>c \<in> set cs. rs_visited st' (repr_hash c) \<noteq> None \<and> (leads flt P c \<longrightarrow> r)" by simp_all
  have "rs_visited st' (repr_hash c) = Some q" by (rule extends_visited [OF h(2) f(3)])
  then show ?case using h l extends_trans [OF f(2) h(2)] by auto
qed

lemma resolver_fill_step:
  assumes "wf_cell c"
  shows "resolver_fill flt P c skip st =
    (case rs_visited st (repr_hash c) of
       Some result \<Rightarrow> (result, st)
     | None \<Rightarrow>
         let (process, skip) = fill_decision flt (repr_hash c) skip;
             (r, st) = (if process then fold (fill_step flt P skip) (cell_children c) (False, st) else (False, st));
             st = (if r then st\<lparr>rs_changed := insert (repr_hash c) (rs_changed st)\<rparr> else st);
             r = (r \<or> repr_hash c \<in> P)
         in (r, st\<lparr>rs_visited := (rs_visited st)(repr_hash c \<mapsto> r)\<rparr>))"
  unfolding resolver_fill.simps [of flt P c skip st] iter_references [OF assms] fill_step_def [symmetric, abs_def]
  by (cases "fill_decision flt (repr_hash c) skip") (simp add: Let_def split: option.split prod.split)

text \<open>A cell joins the recorded ones: its result, and that it changed, are those of its children.\<close>

lemma filled_insert:
  assumes U: "tree_set U" "c \<in> U" and f: "filled flt P U st"
    and r: "leads flt P c \<Longrightarrow> r" "leads_below flt P c \<Longrightarrow> repr_hash c \<in> ch" "rs_changed st \<subseteq> ch"
    and d: "flt (repr_hash c) \<noteq> Skip \<Longrightarrow> \<forall>d \<in> set (cell_children c). rs_visited st (repr_hash d) \<noteq> None"
  shows "filled flt P U (st\<lparr>rs_changed := ch, rs_visited := (rs_visited st)(repr_hash c \<mapsto> r)\<rparr>)"
  unfolding filled_def
proof (intro ballI allI impI)
  fix x q assume x: "x \<in> U" "rs_visited (st\<lparr>rs_changed := ch, rs_visited := (rs_visited st)(repr_hash c \<mapsto> r)\<rparr>) (repr_hash x) = Some q"
  show "(leads flt P x \<longrightarrow> q)
    \<and> (leads_below flt P x \<longrightarrow> repr_hash x \<in> rs_changed (st\<lparr>rs_changed := ch, rs_visited := (rs_visited st)(repr_hash c \<mapsto> r)\<rparr>))
    \<and> (flt (repr_hash x) \<noteq> Skip \<longrightarrow> (\<forall>d \<in> set (cell_children x).
        rs_visited (st\<lparr>rs_changed := ch, rs_visited := (rs_visited st)(repr_hash c \<mapsto> r)\<rparr>) (repr_hash d) \<noteq> None))"
  proof (cases "x = c")
    case True
    then show ?thesis using x(2) r d by auto
  next
    case False
    then have "rs_visited st (repr_hash x) = Some q" using x tree_setD(3) [OF U(1) x(1) U(2)] by simp
    then show ?thesis using filledD [OF f x(1)] r(3) by (auto split: if_splits)
  qed
qed

lemma resolver_fills:
  assumes U: "tree_set U"
  shows "c \<in> U \<Longrightarrow> fills flt P U c"
proof (induction "tree_size c" arbitrary: c rule: less_induct)
  case less
  note w = tree_setD(1) [OF U less.prems]
  show ?case
    unfolding fills_def
  proof (intro allI impI)
    fix skip st r st' assume f: "filled flt P U st" and e: "resolver_fill flt P c skip st = (r, st')"
    show "filled flt P U st' \<and> extends st st' \<and> rs_visited st' (repr_hash c) = Some r"
    proof (cases "rs_visited st (repr_hash c)")
      case (Some q)
      then show ?thesis using e f by (simp add: resolver_fill_step [OF w] extends_refl)
    next
      case None
      obtain p sk where p: "fill_decision flt (repr_hash c) skip = (p, sk)" by fastforce
      have np: "flt (repr_hash c) \<noteq> Skip \<Longrightarrow> p"
        using p by (auto simp: fill_decision_def split: if_splits filter_action.splits)
      obtain q s where q: "(if p then fold (fill_step flt P sk) (cell_children c) (False, st) else (False, st)) = (q, s)"
        by fastforce
      have ch: "\<forall>x \<in> set (cell_children c). fills flt P U x" "set (cell_children c) \<subseteq> U"
        using less.hyps children_size [OF w] tree_setD(2) [OF U less.prems] by auto
      have s: "filled flt P U s" "extends st s"
        "p \<Longrightarrow> \<forall>x \<in> set (cell_children c). rs_visited s (repr_hash x) \<noteq> None \<and> (leads flt P x \<longrightarrow> q)"
        using q f fill_children [OF ch f, of sk False q s] by (auto simp: extends_refl split: if_splits)
      have b: "leads_below flt P c \<Longrightarrow> q" using np s(3) by (auto simp: leads_below_def)
      define chg where "chg = (if q then insert (repr_hash c) (rs_changed s) else rs_changed s)"
      have r: "r = (q \<or> repr_hash c \<in> P)" and t: "st' = s\<lparr>rs_changed := chg, rs_visited := (rs_visited s)(repr_hash c \<mapsto> r)\<rparr>"
        using e p q None by (auto simp: resolver_fill_step [OF w] Let_def chg_def)
      have "filled flt P U st'"
        unfolding t by (rule filled_insert [OF U less.prems s(1)]) (use b r np s(3) in \<open>auto simp: leads_cases chg_def\<close>)
      moreover have "extends st st'"
        using s(2) None by (auto simp: t extends_def chg_def map_le_def dom_def)
      ultimately show ?thesis by (simp add: t)
    qed
  qed
qed

lemma resolver_root:
  assumes U: "tree_set U" "old \<in> U"
    and f: "resolver_fill flt P old False \<lparr>rs_visited = Map.empty, rs_changed = {}\<rparr> = (r, st)"
    and k: "known flt old c"
  shows "leads_below flt P c \<Longrightarrow> repr_hash c \<in> rs_changed st"
proof -
  have "filled flt P U \<lparr>rs_visited = Map.empty, rs_changed = {}\<rparr>" by (simp add: filled_def)
  then have s: "filled flt P U st" "rs_visited st (repr_hash old) = Some r"
    using resolver_fills [OF U] f unfolding fills_def by blast+
  from k have "c \<in> U \<and> rs_visited st (repr_hash c) \<noteq> None"
  proof induction
    case root
    then show ?case using U(2) s(2) by simp
  next
    case (child c d)
    then show ?case using filledD(3) [OF s(1)] tree_setD(2) [OF U(1)] by blast
  qed
  then show "leads_below flt P c \<Longrightarrow> repr_hash c \<in> rs_changed st" using filledD(2) [OF s(1)] by blast
qed

section \<open>The searches of the applier\<close>

lemma tv_enter_plain: "\<not> is_merkle (descriptor c) \<Longrightarrow> tv_depth s = 0 \<Longrightarrow> tv_enter c s = s"
  by (simp add: tv_enter_def)

lemma tv_leave_plain: "\<not> is_merkle (descriptor c) \<Longrightarrow> tv_leave c s = s"
  by (simp add: tv_leave_def)

lemma update_hashes_ok:
  assumes W: "tree_set W" "root \<in> W" and m: "\<forall>c \<in> W. \<not> is_merkle (descriptor c)"
  obtains s where "update_hashes root = Ok s" "tv_depth s = 0"
    "\<And>c. c \<in> W \<Longrightarrow> repr_hash c \<in> tv_visited s \<Longrightarrow> cell_hash c 0 \<in> tv_acc s" "repr_hash root \<in> tv_visited s"
    "\<And>c. c \<in> W \<Longrightarrow> repr_hash c \<in> tv_visited s \<Longrightarrow> c = root \<or> \<not> is_pruned_branch (descriptor c) \<Longrightarrow>
      repr_hash ` set (cell_children c) \<subseteq> tv_visited s"
proof -
  let ?I = "\<lambda>s :: hash_bytes set traversal. tv_depth s = 0 \<and> (\<forall>c \<in> W. repr_hash c \<in> tv_visited s \<longrightarrow> cell_hash c 0 \<in> tv_acc s)"
  let ?s = "\<lparr>tv_depth = 0, tv_visited = {repr_hash root}, tv_acc = {cell_hash root 0}\<rparr> :: hash_bytes set traversal"
  have s: "?I ?s" using tree_setD(3) [OF W] by fastforce
  have v: "\<exists>s'. visit_update c it s = Ok (repr_hash c \<notin> tv_visited s \<and> \<not> is_pruned_branch (descriptor c), s') \<and> ?I s'
      \<and> tv_visited s' = insert (repr_hash c) (tv_visited s)" if "c \<in> W" "?I s" for c it s
    using that m tree_setD(3) [OF W(1) _ that(1)] by (auto simp: visit_update_def tv_enter_plain insert_absorb Let_def)
  obtain s' where s': "dfs_loop visit_update tv_leave [references root] ?s = Ok s'" "?I s'" "repr_hash root \<in> tv_visited s'"
    "\<And>c. c \<in> W \<Longrightarrow> repr_hash c \<in> tv_visited s' \<Longrightarrow> c = root \<or> \<not> is_pruned_branch (descriptor c) \<Longrightarrow>
      repr_hash ` set (cell_children c) \<subseteq> tv_visited s'"
    by (rule dfs_root [where I = ?I and seen = tv_visited and visit = visit_update and leave = tv_leave
          and enter = "\<lambda>c. \<not> is_pruned_branch (descriptor c)" and s = ?s, OF W s])
       (use v m in \<open>auto simp: tv_leave_plain\<close>)
  then show thesis using that [of s'] m W(2) by (simp add: update_hashes_def tv_enter_plain)
qed

text \<open>The new side only has pruned branches for cells of the old side.\<close>

lemma find_old_cells_ok:
  assumes s: "update_hashes (mu_old u) = Ok s" "tv_depth s = 0"
    and W: "tree_set W" "mu_new u \<in> W" and m: "\<forall>c \<in> W. copy_ok U P c"
    and P: "\<forall>c \<in> U. repr_hash c \<in> P \<longrightarrow> repr_hash c \<in> tv_acc s"
  shows "find_old_cells u = Ok (tv_acc s)"
proof -
  let ?I = "\<lambda>s :: unit traversal. tv_depth s = 0"
  let ?s = "\<lparr>tv_depth = 0, tv_visited = {repr_hash (mu_new u)}, tv_acc = ()\<rparr> :: unit traversal"
  have v: "\<exists>t'. visit_new (tv_acc s) c it t = Ok (repr_hash c \<notin> tv_visited t \<and> \<not> is_pruned_branch (descriptor c), t') \<and> ?I t'
      \<and> tv_visited t' = insert (repr_hash c) (tv_visited t)" if "c \<in> W" "?I t" for c it t
    using that m P unfolding copy_ok_def by (fastforce simp: visit_new_def tv_enter_plain insert_absorb Let_def)
  obtain s' where "dfs_loop (visit_new (tv_acc s)) tv_leave [references (mu_new u)] ?s = Ok s'"
    by (rule dfs_root [where I = ?I and seen = tv_visited and visit = "visit_new (tv_acc s)" and leave = tv_leave
          and enter = "\<lambda>c. \<not> is_pruned_branch (descriptor c)" and s = ?s, OF W])
       (use v m in \<open>auto simp: tv_leave_plain copy_ok_def\<close>)
  then show ?thesis using s m W(2) by (simp add: find_old_cells_def tv_enter_plain copy_ok_def Let_def)
qed

text \<open>The cells of the old tree that the update mentions.\<close>

lemma collect_old_cells_ok:
  assumes W: "plain_set sha W" "old \<in> W"
  obtains m V where "collect_old_cells hs old = Ok m" "cache_ok W m" "repr_hash old \<in> V"
    "\<And>c. c \<in> W \<Longrightarrow> repr_hash c \<in> V \<Longrightarrow> c = old \<or> repr_hash c \<in> hs \<Longrightarrow>
      m (repr_hash c) = Some c \<and> repr_hash ` set (cell_children c) \<subseteq> V"
proof -
  note T = plain_setD(2) [OF W(1)]
  let ?I = "\<lambda>s :: cell_map traversal. tv_depth s = 0 \<and> cache_ok W (tv_acc s) \<and> repr_hash old \<in> tv_visited s
    \<and> (\<forall>c \<in> W. repr_hash c \<in> tv_visited s \<and> (c = old \<or> repr_hash c \<in> hs) \<longrightarrow> tv_acc s (repr_hash c) \<noteq> None)"
  let ?s = "\<lparr>tv_depth = 0, tv_visited = {repr_hash old}, tv_acc = [cell_hash old 0 \<mapsto> old]\<rparr> :: cell_map traversal"
  have m: "\<not> is_merkle (descriptor c)" if "c \<in> W" for c using proof_setD(4) [OF plain_setD(1) [OF W(1)] that] .
  have s: "?I ?s" using W(2) tree_setD(3) [OF T _ W(2)] plain_setD(4) [OF W(1)] by (auto simp: cache_ok_def)
  have v: "\<exists>s'. visit_old_tree hs c it s = Ok (repr_hash c \<notin> tv_visited s \<and> repr_hash c \<in> hs, s') \<and> ?I s'
      \<and> tv_visited s' = insert (repr_hash c) (tv_visited s)"
    if c: "c \<in> W" and s: "?I s" and p: "the (ri_peek_prev_cloned it) = c" for c it s
  proof (cases "repr_hash c \<in> tv_visited s")
    case True
    then show ?thesis using s by (auto simp: visit_old_tree_def)
  next
    case False
    let ?n = "if repr_hash c \<in> hs then (tv_acc s)(repr_hash c \<mapsto> c) else tv_acc s"
    let ?t = "s\<lparr>tv_visited := insert (repr_hash c) (tv_visited s), tv_acc := ?n\<rparr>"
    have "visit_old_tree hs c it s = Ok (repr_hash c \<in> hs, ?t)"
      using False s p plain_setD(4) [OF W(1) c] m [OF c] by (simp add: visit_old_tree_def Let_def tv_enter_plain)
    moreover have "?I ?t"
      using s c False cache_ok_upd [of W "tv_acc s" c] tree_setD(3) [OF T _ c] by auto
    ultimately show ?thesis using False by auto
  qed
  obtain s' where s': "dfs_loop (visit_old_tree hs) tv_leave [references old] ?s = Ok s'" "?I s'" "repr_hash old \<in> tv_visited s'"
    "\<And>c. c \<in> W \<Longrightarrow> repr_hash c \<in> tv_visited s' \<Longrightarrow> c = old \<or> repr_hash c \<in> hs \<Longrightarrow>
      repr_hash ` set (cell_children c) \<subseteq> tv_visited s'"
    by (rule dfs_root [where I = ?I and seen = tv_visited and visit = "visit_old_tree hs" and leave = tv_leave
          and enter = "\<lambda>c. repr_hash c \<in> hs" and s = ?s, OF T W(2) s])
       (use v m in \<open>auto simp: tv_leave_plain\<close>)
  have a: "tv_acc s' (repr_hash c) = Some c" if "c \<in> W" "repr_hash c \<in> tv_visited s'" "c = old \<or> repr_hash c \<in> hs" for c
    using s'(2) that cache_ok_get [OF T _ that(1)] by blast
  show thesis
    by (rule that [of "tv_acc s'" "tv_visited s'"])
       (use s' a m [OF W(2)] in \<open>simp_all add: collect_old_cells_def tv_enter_plain Let_def\<close>)
qed

section \<open>The old side\<close>

lemma old_side_hashes:
  assumes U: "plain_set sha U" "old \<in> U" and o: "opened sha (set_filter ch) False UNIV old old'"
    and ch: "\<And>c. known flt old c \<Longrightarrow> leads_below flt P c \<Longrightarrow> repr_hash c \<in> ch"
    and W: "tree_set W" "old' \<in> W"
    and s: "\<And>c. c \<in> W \<Longrightarrow> repr_hash c \<in> tv_visited s \<Longrightarrow> cell_hash c 0 \<in> tv_acc s" "repr_hash old' \<in> tv_visited s"
    "\<And>c. c \<in> W \<Longrightarrow> repr_hash c \<in> tv_visited s \<Longrightarrow> c = old' \<or> \<not> is_pruned_branch (descriptor c) \<Longrightarrow>
      repr_hash ` set (cell_children c) \<subseteq> tv_visited s"
    and c: "known flt old c" "leads flt P c"
  shows "c \<in> U" "repr_hash c \<in> tv_acc s"
proof -
  note p = plain_setD(1) [OF U(1)]
  let ?pr = "prunes sha (set_filter ch) False UNIV"
  let ?im = "\<lambda>c c'. c' \<in> W \<and> repr_hash c' \<in> tv_visited s \<and> keeps c c'
    \<and> (leads_below flt P c \<longrightarrow> (c' = old' \<or> \<not> is_pruned_branch (descriptor c')) \<and> list_all2 ?pr (cell_children c) (cell_children c'))"
  have "c \<in> U \<and> (\<exists>c'. ?im c c')"
    using c
  proof induction
    case root
    then show ?case using U(2) W(2) s(2) opened_root [OF p U(2) o] by blast
  next
    case (child c d)
    have l: "leads_below flt P c" using child.hyps(2,3) child.prems by (auto simp: leads_below_def)
    then have "leads flt P c" by (simp add: leads_cases)
    with child.IH obtain c' where c': "c \<in> U" "?im c c'" by blast
    have d: "d \<in> U" using tree_setD(2) [OF plain_setD(2) [OF U(1)] c'(1) child.hyps(3)] .
    from c'(2) l child.hyps(3) obtain d' where d': "d' \<in> set (cell_children c')" "?pr d d'"
      by (metis in_set_conv_nth list_all2_conv_all_nth)
    have v: "d' \<in> W" "repr_hash d' \<in> tv_visited s" using c'(2) l s(3) [of c'] d'(1) tree_setD(2) [OF W(1)] by blast+
    have "\<not> is_pruned_branch (descriptor d') \<and> list_all2 ?pr (cell_children d) (cell_children d')" if "leads_below flt P d"
      using d'(2)
    proof cases
      case pruned
      then show ?thesis
        using ch [OF known.child [OF child.hyps] that] by (simp add: is_cut_def set_filter_def)
    next
      case (node rs)
      then show ?thesis using rebuilt_copy_ok [OF U(1) d node(3,4)] by simp
    qed (simp add: set_filter_def split: if_splits)
    then show ?case using d v prunes_keeps [OF p d'(2) d] by blast
  qed
  then obtain c' where i: "c \<in> U" "c' \<in> W" "repr_hash c' \<in> tv_visited s" "keeps c c'" by blast
  then show "c \<in> U" by simp
  show "repr_hash c \<in> tv_acc s" using s(1) [OF i(2,3)] i(4) plain_setD(4) [OF U(1) i(1)] by (simp add: keeps_def)
qed

section \<open>Building and applying\<close>

definition covers :: "merkle_filter \<Rightarrow> cell \<Rightarrow> cell \<Rightarrow> bool" where
  "covers flt old new \<longleftrightarrow> (\<forall>c \<in> set (subcells new). flt (repr_hash c) \<noteq> Skip \<and> cell_children c \<noteq> [] \<longrightarrow> known flt old c)"

lemma inverted_not_subtree: "inverted_filter flt h \<noteq> IncludeSubtree"
  by (simp add: inverted_filter_def)

text \<open>The two sides of an update of different trees.\<close>

lemma update_build_sides:
  assumes U: "plain_set sha U" "old \<in> U" "new \<in> U" and ne: "repr_hash old \<noteq> repr_hash new" and cv: "covers flt old new"
  obtains br P ch where "update_build sha old new flt = Ok br"
    "mu_old_hash (br_update br) = repr_hash old" "mu_new_hash (br_update br) = repr_hash new"
    "mu_old_depth (br_update br) = repr_depth old" "mu_new_depth (br_update br) = repr_depth new"
    "opened sha (inverted_filter flt) False P new (mu_new (br_update br))"
    "opened sha (set_filter ch) False UNIV old (mu_old (br_update br))"
    "\<And>c. c \<in> U \<Longrightarrow> repr_hash c \<in> P \<Longrightarrow> known flt old c"
    "\<And>c. known flt old c \<Longrightarrow> leads_below flt P c \<Longrightarrow> repr_hash c \<in> ch"
proof -
  note p = plain_setD(1) [OF U(1)] and T = plain_setD(2) [OF U(1)]
  let ?V = "set (subcells new)"
  have V: "?V \<subseteq> U" by (rule subcells_in [OF T U(3)])
  then have pV: "proof_set sha ?V" using plain_setD(1) [OF plain_subset [OF U(1) V]] subcells_children by blast
  let ?bn = "set_allow_different_root (proof_create new (inverted_filter flt)) True"
  obtain new' s where n: "merkle_build sha ?bn (Some {}) = Ok (new', remember new new' s)"
    "opened sha (inverted_filter flt) False (pruned_hashes s) new new'" "state_ok sha (inverted_filter flt) False ?V s"
    "ms_pruned s \<noteq> None"
    using merkle_build_correct [OF pV, of ?bn "Some {}"] by (auto simp: set_allow_different_root_def proof_create_def)
  then obtain P where P: "ms_pruned s = Some P" "pruned_hashes s = P" by (auto simp: pruned_hashes_def)
  obtain r st where f: "resolver_fill flt P old False \<lparr>rs_visited = Map.empty, rs_changed = {}\<rparr> = (r, st)" by fastforce
  define ch where "ch = (if r then insert (repr_hash old) (rs_changed st) else rs_changed st)"
  let ?bo = "set_allow_different_root (proof_create old (set_filter ch)) True"
  obtain old' where o: "proof_build_raw sha ?bo = Ok old'" "opened sha (set_filter ch) False UNIV old old'"
    using proof_build_ok [OF p, of ?bo] U(2) by (auto simp: set_allow_different_root_def proof_create_def)
  have k: "known flt old c" if "c \<in> U" "repr_hash c \<in> P" for c
  proof -
    from n(3) P that(2) obtain d where d: "d \<in> ?V" "repr_hash d = repr_hash c" "prunes_child (inverted_filter flt) False d"
      unfolding state_ok_def by blast
    then have "d = c" using tree_setD(3) [OF T that(1), of d] V by auto
    with d have c: "c \<in> ?V" "prunes_child (inverted_filter flt) False c" by simp_all
    then have "flt (repr_hash c) \<noteq> Skip" "cell_children c \<noteq> []"
      using wf_cell_children(2) [OF tree_setD(1) [OF T that(1)]]
      by (auto simp: prunes_child_def inverted_filter_def cell_reference_count_def split: if_splits)
    then show ?thesis using cv c(1) by (simp add: covers_def)
  qed
  have lb: "repr_hash c \<in> ch" if "known flt old c" "leads_below flt P c" for c
    using resolver_root [OF T U(2) f that] by (simp add: ch_def)
  define br where "br = \<lparr>br_update = \<lparr>mu_old_hash = repr_hash old, mu_new_hash = repr_hash new, mu_old_depth = repr_depth old,
    mu_new_depth = repr_depth new, mu_old = old', mu_new = new'\<rparr>, br_new_cells_count = map_len (ms_cells (remember new new' s))\<rparr>"
  have "update_build sha old new flt = Ok br"
    using ne n(1) o(1) f P by (simp add: update_build_def ext_build_raw_def Let_def br_def ch_def)
  then show thesis using that [of br P ch] n(2) o(2) k lb P by (simp add: br_def)
qed

text \<open>What the loader of an update cell requires of the two trees.\<close>

definition mu_valid :: "merkle_update \<Rightarrow> bool" where
  "mu_valid u \<longleftrightarrow> cell_hash (mu_old u) 0 = mu_old_hash u \<and> cell_depth (mu_old u) 0 = mu_old_depth u
    \<and> cell_hash (mu_new u) 0 = mu_new_hash u \<and> cell_depth (mu_new u) 0 = mu_new_depth u"

lemma keeps_plain:
  assumes "plain_set sha U" "c \<in> U" "keeps c c'"
  shows "cell_hash c' 0 = repr_hash c" "cell_depth c' 0 = repr_depth c"
proof -
  have "cell_depth c 0 = repr_depth c"
    unfolding repr_depth_def using plain_setD(3) [OF assms(1,2)]
    by (intro cell_hash_level tree_setD(1) [OF plain_setD(2) [OF assms(1)] assms(2)]) (simp add: hash_index_def)
  then show "cell_hash c' 0 = repr_hash c" "cell_depth c' 0 = repr_depth c"
    using assms(3) plain_setD(4) [OF assms(1,2)] by (simp_all add: keeps_def)
qed

text \<open>The search in the old tree finds the shared cells, whatever set it looks for, as long as the way to them is in it.\<close>

lemma shared_cells_found:
  assumes U: "plain_set sha U" "old \<in> U"
    and kl: "\<And>c. known flt old c \<Longrightarrow> leads flt P c \<Longrightarrow> c \<in> U \<and> repr_hash c \<in> hs"
    and k: "\<And>c. c \<in> U \<Longrightarrow> repr_hash c \<in> P \<Longrightarrow> known flt old c"
  obtains m where "collect_old_cells hs old = Ok m" "\<forall>c \<in> U. repr_hash c \<in> P \<longrightarrow> m (repr_hash c) = Some c"
proof -
  obtain m V where m: "collect_old_cells hs old = Ok m" "repr_hash old \<in> V"
    and V: "\<And>c. c \<in> U \<Longrightarrow> repr_hash c \<in> V \<Longrightarrow> c = old \<or> repr_hash c \<in> hs \<Longrightarrow>
      m (repr_hash c) = Some c \<and> repr_hash ` set (cell_children c) \<subseteq> V"
    by (rule collect_old_cells_ok [OF U]) (rule that)
  have r: "repr_hash c \<in> V" if "known flt old c" "leads flt P c" for c
    using that
  proof induction
    case (child c d)
    have l: "leads flt P c" by (rule leads.up [OF child.prems child.hyps(2,3)])
    from V [of c] kl [OF child.hyps(1) l] child.IH [OF l] child.hyps(3) show ?case by auto
  qed (rule m(2))
  have "m (repr_hash c) = Some c" if c: "c \<in> U" "repr_hash c \<in> P" for c
    using V [OF c(1) r [OF k [OF c] leads.found [OF c(2)]]] kl [OF k [OF c] leads.found [OF c(2)]] by simp
  then show thesis using that m(1) by blast
qed

lemma sides_apply:
  assumes U: "plain_set sha U" "old \<in> U" "new \<in> U"
    and h: "mu_old_hash u = repr_hash old" "mu_new_hash u = repr_hash new" "repr_hash old \<noteq> repr_hash new"
    and n: "opened sha (inverted_filter flt) False P new (mu_new u)"
    and o: "opened sha (set_filter ch) False UNIV old (mu_old u)"
    and k: "\<And>c. c \<in> U \<Longrightarrow> repr_hash c \<in> P \<Longrightarrow> known flt old c"
    and ch: "\<And>c. known flt old c \<Longrightarrow> leads_below flt P c \<Longrightarrow> repr_hash c \<in> ch"
    and inj: "inj_on repr_hash (set (subcells (mu_old u)))" "inj_on repr_hash (set (subcells (mu_new u)))"
  shows "mu_apply sha u old = Ok new"
proof -
  note p = plain_setD(1) [OF U(1)]
  have w: "wf_cell (mu_old u)" "wf_cell (mu_new u)"
    using opened_root(1) [OF p U(2) o] opened_root(1) [OF p U(3) n] by (simp_all add: keeps_def)
  note W = tree_set_subcells [OF w(1) inj(1)] tree_set_subcells [OF w(2) inj(2)]
  have m: "\<forall>z \<in> set (subcells (mu_old u)). \<not> is_merkle (descriptor z)"
    using opened_copy(1) [OF U(1,2) o] by (simp add: copy_ok_def)
  obtain s where s: "update_hashes (mu_old u) = Ok s" "tv_depth s = 0"
    "\<And>c. c \<in> set (subcells (mu_old u)) \<Longrightarrow> repr_hash c \<in> tv_visited s \<Longrightarrow> cell_hash c 0 \<in> tv_acc s"
    "repr_hash (mu_old u) \<in> tv_visited s"
    "\<And>c. c \<in> set (subcells (mu_old u)) \<Longrightarrow> repr_hash c \<in> tv_visited s \<Longrightarrow> c = mu_old u \<or> \<not> is_pruned_branch (descriptor c) \<Longrightarrow>
      repr_hash ` set (cell_children c) \<subseteq> tv_visited s"
    using update_hashes_ok [OF W(1) subcells_self m] by blast
  have kl: "c \<in> U \<and> repr_hash c \<in> tv_acc s" if "known flt old c" "leads flt P c" for c
    using old_side_hashes [OF U(1,2) o ch W(1) subcells_self s(3-5) that] by simp
  have fo: "find_old_cells u = Ok (tv_acc s)"
    by (rule find_old_cells_ok [OF s(1,2) W(2) subcells_self opened_copy(1) [OF U(1,3) n]]) (use k kl leads.found in blast)
  obtain mp where mp: "collect_old_cells (tv_acc s) old = Ok mp" "\<forall>c \<in> U. repr_hash c \<in> P \<longrightarrow> mp (repr_hash c) = Some c"
    by (rule shared_cells_found [OF U(1,2) kl k])
  have "cache_ok U Map.empty" by (simp add: cache_ok_def)
  from applier_restores [OF U(1) _ mp(2) U(3) n this] inverted_not_subtree obtain nc where
    "applier_run sha mp False (mu_new u) 0 Map.empty = Ok (new, nc)" by blast
  then show ?thesis using h fo mp(1) by (simp add: mu_apply_def apply_ext_with_stats_def run_applier_def)
qed

lemma update_applies:
  assumes U: "plain_set sha U" "old \<in> U" "new \<in> U" and cv: "covers flt old new"
  obtains br where "update_build sha old new flt = Ok br" "mu_valid (br_update br)"
    "inj_on repr_hash (set (subcells (mu_old (br_update br)))) \<Longrightarrow> inj_on repr_hash (set (subcells (mu_new (br_update br)))) \<Longrightarrow>
      mu_apply sha (br_update br) old = Ok new"
proof (cases "repr_hash old = repr_hash new")
  case True
  then have e: "old = new" using tree_setD(3) [OF plain_setD(2) [OF U(1)] U(2,3)] by simp
  obtain pb where pb: "make_pruned_branch sha old 0 = Ok pb" "keeps old pb"
    by (rule prune_low [OF plain_setD(1) [OF U(1)] U(2)])
  show thesis
    using that e pb(1) keeps_plain [OF U(1,2) pb(2)]
    by (simp add: update_build_def mu_apply_def apply_ext_with_stats_def mu_valid_def Let_def)
next
  case ne: False
  note p = plain_setD(1) [OF U(1)]
  show thesis
  proof (rule update_build_sides [OF U ne cv])
    fix br :: merkle_build_result and P ch
    let ?u = "br_update br"
    assume b: "update_build sha old new flt = Ok br"
      and h: "mu_old_hash ?u = repr_hash old" "mu_new_hash ?u = repr_hash new"
        "mu_old_depth ?u = repr_depth old" "mu_new_depth ?u = repr_depth new"
      and n: "opened sha (inverted_filter flt) False P new (mu_new ?u)"
      and o: "opened sha (set_filter ch) False UNIV old (mu_old ?u)"
      and k: "\<And>c. c \<in> U \<Longrightarrow> repr_hash c \<in> P \<Longrightarrow> known flt old c"
      and ch: "\<And>c. known flt old c \<Longrightarrow> leads_below flt P c \<Longrightarrow> repr_hash c \<in> ch"
    have "mu_valid ?u"
      using h keeps_plain [OF U(1,2) opened_root(1) [OF p U(2) o]] keeps_plain [OF U(1,3) opened_root(1) [OF p U(3) n]]
      by (simp add: mu_valid_def)
    from that [OF b this sides_apply [OF U h(1,2) ne n o k ch]] show thesis by simp
  qed
qed

end
