(* ===== verification/Merkle_Properties.thy ===== *)
theory Merkle_Properties
  imports Merkle_Exotic Merkle_Update_Props
begin

text \<open>
  The properties of \<^verbatim>\<open>src/merkle\<close>: pruned branches, Merkle proofs, the cell of a proof, and Merkle updates.
\<close>

section \<open>A small tree\<close>

text \<open>
  A hash that shows the first data byte and the length of its input tells the cells of the examples
  apart: a chain of three cells, and another root over the same child.
\<close>

definition demo_sha :: sha256 where
  "demo_sha x = replicate 30 0 @ [case drop 2 x of [] \<Rightarrow> 0 | b # _ \<Rightarrow> b, of_nat (length x)]"

lemma demo_sha_length: "\<forall>x. length (demo_sha x) = 32"
  by (simp add: demo_sha_def)

definition link :: "bool list \<Rightarrow> cell \<Rightarrow> cell" where
  "link bs child = (let p = ordinary_parts bs [child]
    in make_cell p [(demo_sha (hash_input p False 0 0 []), cell_depth child 0 + 1)])"

definition linkable :: "nat \<Rightarrow> cell \<Rightarrow> bool" where
  "linkable n c \<longleftrightarrow> built demo_sha c \<and> cell_level_mask c = 0 \<and> \<not> is_merkle (descriptor c)
    \<and> length (cell_hash c 0) = 32 \<and> cell_depth c 0 = n"

lemma linkable_empty: "linkable 0 EmptyOrdinaryCell"
proof -
  have "build_ext demo_sha (mk_cb [] []) = Ok EmptyOrdinaryCell"
    by (simp add: build_ordinary_low compute_level_mask_def Let_def make_cell_def cell_type_eq)
       (simp add: ordinary_parts_def compute_level_mask_def compute_d1_def compute_d2_def cd_new_def)
  from build_ext_built [OF _ _ _ this] show ?thesis
    by (simp add: linkable_def is_merkle_def cell_level_mask_def EMPTY_CELL_HASH_def) code_simp
qed

lemma link_ok:
  assumes "linkable n c" "0 < length bs" "length bs < 8" "n < 1000"
  shows "linkable (Suc n) (link bs c)" "holds (link bs c) bs [c]"
    "repr_hash (link bs c) = replicate 30 0 @ [hd (tagged bs), 37]"
proof -
  let ?p = "ordinary_parts bs [c]"
  have w: "wf_cell c" using assms(1) by (simp add: linkable_def built_def)
  have m: "compute_level_mask [c] = 0" using assms(1) by (simp add: linkable_def compute_level_mask_def)
  have b: "build_ext demo_sha (mk_cb bs [c]) = Ok (link bs c)"
    using build_ordinary_low [of bs "[c]" demo_sha] assms w m by (simp add: link_def linkable_def Let_def)
  show h: "holds (link bs c) bs [c]" using build_ext_holds [OF _ _ _ b] assms(3) w by simp
  have l: "link bs c = OrdinaryCell (length bs) [(demo_sha (hash_input ?p False 0 0 []), cell_depth c 0 + 1)]
      (cp_descriptor ?p) [c] (tagged bs)"
    using make_ordinary [of bs "[c]"] assms(2,3) by (simp add: link_def Let_def)
  have "div_ceil8 (length bs) = 1" unfolding div_ceil8_def using assms(2,3) by linarith
  then have "length (tagged bs) = 1" by simp
  then obtain t where t: "tagged bs = [t]" by (metis One_nat_def length_0_conv length_Suc_conv)
  have r: "demo_sha (hash_input ?p False 0 0 []) = replicate 30 0 @ [hd (tagged bs), 37]"
    using assms(1) t by (simp add: hash_input_def demo_sha_def linkable_def u16_be_def Let_def)
  then show "repr_hash (link bs c) = replicate 30 0 @ [hd (tagged bs), 37]"
    by (simp add: l repr_hash_def cd_hash_index_def m hash_index_def level_values)
  have "\<not> cell_is_exotic (link bs c)" using h by (simp add: holds_def)
  moreover have "built demo_sha (link bs c)" by (rule build_ext_built [OF _ _ _ b]) (use assms(3) w in auto)
  ultimately show "linkable (Suc n) (link bs c)"
    using assms(1) demo_sha_length
    by (simp add: linkable_def is_merkle_def cell_is_exotic_def) (simp add: l cell_level_mask_def m cd_hash_index_def hash_index_def level_values)
qed

definition demo_x :: cell where "demo_x = link [True, True] EmptyOrdinaryCell"

definition demo_a :: cell where "demo_a = link [True] demo_x"

definition demo_b :: cell where "demo_b = link [False] demo_x"

lemma demo_linkable: "linkable 1 demo_x" "linkable 2 demo_a" "linkable 2 demo_b"
proof -
  show x: "linkable 1 demo_x"
    unfolding demo_x_def using link_ok(1) [OF linkable_empty, of "[True, True]"] by simp
  show "linkable 2 demo_a" "linkable 2 demo_b"
    unfolding demo_a_def demo_b_def using link_ok(1) [OF x] by (simp_all add: numeral_2_eq_2)
qed

lemma demo_hash: "repr_hash demo_x = replicate 30 0 @ [0xE0, 37]" "repr_hash demo_a = replicate 30 0 @ [0xC0, 37]"
  "repr_hash demo_b = replicate 30 0 @ [0x40, 37]" "repr_hash EmptyOrdinaryCell = EMPTY_CELL_HASH"
proof -
  have t: "hd (tagged [True, True]) = 0xE0" "hd (tagged [True]) = 0xC0" "hd (tagged [False]) = 0x40" by code_simp+
  show "repr_hash demo_x = replicate 30 0 @ [0xE0, 37]" "repr_hash demo_a = replicate 30 0 @ [0xC0, 37]"
    "repr_hash demo_b = replicate 30 0 @ [0x40, 37]" "repr_hash EmptyOrdinaryCell = EMPTY_CELL_HASH"
    unfolding demo_a_def demo_b_def demo_x_def
    using link_ok(3) [OF linkable_empty, of "[True, True]"] link_ok(3) [OF demo_linkable(1), of "[True]"]
      link_ok(3) [OF demo_linkable(1), of "[False]"]
    by (simp_all add: t demo_x_def repr_hash_def)
qed

lemma demo_children: "cell_children demo_x = [EmptyOrdinaryCell]" "cell_children demo_a = [demo_x]"
  "cell_children demo_b = [demo_x]" "cell_children EmptyOrdinaryCell = []"
  unfolding demo_a_def demo_b_def demo_x_def
  using link_ok(2) [OF linkable_empty, of "[True, True]"] link_ok(2) [OF demo_linkable(1), of "[True]"]
    link_ok(2) [OF demo_linkable(1), of "[False]"]
  by (simp_all add: holds_def demo_x_def)

lemma demo_subcells: "set (subcells demo_a) = {demo_a, demo_x, EmptyOrdinaryCell}"
  "set (subcells demo_b) = {demo_b, demo_x, EmptyOrdinaryCell}"
  by (auto simp: subcells_unfold demo_children)

lemma demo_plain: "plain_set demo_sha {demo_a, demo_b, demo_x, EmptyOrdinaryCell}"
proof -
  let ?U = "{demo_a, demo_b, demo_x, EmptyOrdinaryCell}"
  have k: "\<exists>n. linkable n c" if "c \<in> ?U" for c using that demo_linkable linkable_empty by blast
  have e: "EMPTY_CELL_HASH ! 0 = 0x96" "\<And>x y. (replicate 30 0 @ [x, y]) ! 0 = (0 :: byte)"
    by (simp_all add: EMPTY_CELL_HASH_def nth_append)
  have d: "EMPTY_CELL_HASH \<noteq> replicate 30 0 @ [x, y]" for x y 
  proof
    assume "EMPTY_CELL_HASH = replicate 30 0 @ [x, y]"
    from arg_cong [OF this, of "\<lambda>l. l ! 0"] show False unfolding e by simp
  qed
  have "inj_on repr_hash ?U" using d d [symmetric] by (auto simp: inj_on_def demo_hash)
  moreover have "wf_cell c \<and> built demo_sha c \<and> low_mask c \<and> \<not> is_merkle (descriptor c) \<and> cell_level_mask c = 0"
    if "c \<in> ?U" for c using k [OF that] by (auto simp: linkable_def built_def low_mask_def)
  moreover have "set (cell_children c) \<subseteq> ?U" if "c \<in> ?U" for c using that by (auto simp: demo_children)
  ultimately show ?thesis using demo_sha_length by (simp add: plain_set_def proof_set_def tree_set_def)
qed

section \<open>Pruned branches\<close>

text \<open>
  C26. A cell of level at most \<open>merkle_depth + 1\<close> can be pruned at that depth: the pruned branch has no
  references, adds the level of the depth to the level mask, has the hashes and the depths of the cell at
  every level up to the depth, and its own representation hash is the hash of its descriptor and data.
\<close>

theorem pruned_branch_commits:
  assumes "finalize_cell sha p = Ok c" "wf_parts p" "\<forall>x. length (sha x) = 32"
    and "md \<le> 2" "cell_level_mask c < push_bit (md + 1) 1"
  shows "\<exists>pb. make_pruned_branch sha c md = Ok pb \<and> wf_cell pb \<and> cell_children pb = []
    \<and> is_pruned_branch (descriptor pb) \<and> cell_level_mask pb = lm_new (cell_level_mask c OR push_bit md 1)
    \<and> (\<forall>l \<le> md. cell_hash pb l = cell_hash c l \<and> cell_depth pb l = cell_depth c l)
    \<and> repr_hash pb = sha ([d1 (descriptor pb), d2 (descriptor pb)] @ cell_data pb)"
proof -
  have "md mod 8 = md" using assms(4) by simp
  then show ?thesis
    using pruned_branch [OF finalize_cell_wf(1) [OF assms(2,1)] assms(4,5) finalize_bounds [OF assms(1-3)]] by metis
qed

lemma pruned_branch_commits_witness:
  "\<exists>pb. make_pruned_branch demo_sha demo_x 0 = Ok pb \<and> cell_hash pb 0 = repr_hash demo_x \<and> cell_depth pb 0 = 1"
proof -
  note l = demo_linkable(1) [unfolded linkable_def]
  have w: "wf_cell demo_x" using l by (simp add: built_def)
  have "wf_parts (build_parts (cb_like demo_x (cell_children demo_x)))"
    by (rule wf_parts_like [OF w]) (simp_all add: demo_children)
  moreover have "finalize_cell demo_sha (build_parts (cb_like demo_x (cell_children demo_x))) = Ok demo_x"
    using l by (simp add: built_def build_ext_def)
  moreover have "cell_level_mask demo_x < push_bit (0 + 1) 1" using l by simp
  ultimately have "\<exists>pb. make_pruned_branch demo_sha demo_x 0 = Ok pb \<and> (\<forall>l \<le> 0. cell_hash pb l = cell_hash demo_x l
      \<and> cell_depth pb l = cell_depth demo_x l)"
    using pruned_branch_commits [OF _ _ demo_sha_length le0, of _ demo_x] by blast
  then show ?thesis using l plain_setD(4) [OF demo_plain, of demo_x] by auto
qed

section \<open>Merkle proofs\<close>

text \<open>
  C27. For a tree without Merkle cells whose levels are at most 1, the builder of proofs never fails unless
  the filter skips the root, which gives \<open>EmptyProof\<close>. The result carries the representation hash and depth
  of the root; its tree is the root over copies of its children (\<open>opened\<close>), with the data of the root and
  its hash and depth of level 0. In the copies a cell that the filter includes with its subtree is the cell
  itself, a skipped cell with children (or a big one, if these are to be pruned) is a pruned branch, and
  every other cell is built again over the copies of its children; there is exactly one such tree. The root
  is opened whether the filter says \<open>Include\<close> or \<open>IncludeSubtree\<close>, so the filter is asked about its
  children in both cases.
\<close>

theorem merkle_proof_correct:
  assumes "proof_set sha (set (subcells root))"
  shows "if flt (repr_hash root) = Skip
    then proof_build sha (set_prune_big_cells (proof_create root flt) big) = Err EmptyProof
    else \<exists>c. proof_build sha (set_prune_big_cells (proof_create root flt) big)
          = Ok \<lparr>mp_hash = repr_hash root, mp_depth = repr_depth root, mp_cell = c\<rparr>
        \<and> (\<forall>d. opened sha flt big UNIV root d \<longleftrightarrow> d = c) \<and> cell_bits c = cell_bits root
        \<and> cell_hash c 0 = cell_hash root 0 \<and> cell_depth c 0 = cell_depth root 0"
proof (cases "flt (repr_hash root) = Skip")
  case True
  then show ?thesis
    by (simp add: proof_build_def proof_build_raw_def merkle_build_def set_prune_big_cells_def proof_create_def)
next
  case False
  let ?b = "set_prune_big_cells (proof_create root flt) big"
  have b: "pb_root ?b = root" "pb_filter ?b = flt" "pb_prune_big_cells ?b = big"
    by (simp_all add: set_prune_big_cells_def proof_create_def)
  from proof_build_ok [OF assms, of ?b, unfolded b] False obtain c where
    c: "proof_build sha ?b = Ok \<lparr>mp_hash = repr_hash root, mp_depth = repr_depth root, mp_cell = c\<rparr>"
      "opened sha flt big UNIV root c" by auto
  from opened_root [OF assms _ c(2)] have "keeps root c" "cell_bits c = cell_bits root" by simp_all
  moreover have "opened sha flt big UNIV root d \<longleftrightarrow> d = c" for d using c(2) opened_unique by blast
  ultimately show ?thesis using False c(1) by (simp add: keeps_def)
qed

text \<open>A proof of \<open>demo_a\<close> that includes the subtree of its child has the whole tree.\<close>

definition demo_subtree :: merkle_filter where
  "demo_subtree h = (if h = repr_hash demo_x then IncludeSubtree else if h = repr_hash demo_a then Include else Skip)"

lemma demo_opened:
  assumes "opened demo_sha demo_subtree big P demo_a c"
  shows "c = demo_a"
proof -
  obtain x where x: "prunes demo_sha demo_subtree big P demo_x x" "build_ext demo_sha (cb_like demo_a [x]) = Ok c"
    using assms by (auto simp: opened_def demo_children list_all2_Cons1)
  from x(1) have "x = demo_x" by cases (simp_all add: is_cut_def demo_subtree_def)
  then show ?thesis using x(2) demo_linkable(2) by (simp add: linkable_def built_def demo_children)
qed

lemma merkle_proof_correct_witness:
  "proof_build demo_sha (set_prune_big_cells (proof_create demo_a demo_subtree) False)
      = Ok \<lparr>mp_hash = repr_hash demo_a, mp_depth = repr_depth demo_a, mp_cell = demo_a\<rparr>"
proof -
  have "proof_set demo_sha (set (subcells demo_a))"
    unfolding demo_subcells
    by (rule plain_setD(1) [OF plain_subset [OF demo_plain]]) (auto simp: demo_children)
  moreover have "demo_subtree (repr_hash demo_a) \<noteq> Skip" by (simp add: demo_subtree_def)
  ultimately obtain c where "opened demo_sha demo_subtree False UNIV demo_a c"
      "proof_build demo_sha (set_prune_big_cells (proof_create demo_a demo_subtree) False)
        = Ok \<lparr>mp_hash = repr_hash demo_a, mp_depth = repr_depth demo_a, mp_cell = c\<rparr>"
    using merkle_proof_correct [of demo_sha demo_a demo_subtree False] by auto
  then show ?thesis using demo_opened by blast
qed

text \<open>
  A parsed proof goes into a cell exactly if its hash and depth are those of level 0 of its tree; the
  builder refuses any other with \<open>InvalidCell\<close>. The cell loads back as the same proof, and its level is one
  less than that of the tree.
\<close>

theorem merkle_proof_cell:
  assumes "wf_cell (mp_cell p)" "length (mp_hash p) = 32" "mp_depth p < 65536" "\<forall>l. cell_depth (mp_cell p) l \<le> 65534"
  shows "if cell_hash (mp_cell p) 0 = mp_hash p \<and> cell_depth (mp_cell p) 0 = mp_depth p
    then \<exists>c. build_from sha (mp_store_into p) = Ok c \<and> mp_load_from_cell c = Ok p
      \<and> cell_level_mask c = lm_virtualize (cell_level_mask (mp_cell p)) 1
    else build_from sha (mp_store_into p) = Err InvalidCell"
  using mp_build [OF assms(1-3)] assms(4) unfolding mp_valid_def by (metis (full_types))

lemma merkle_proof_cell_witness:
  "\<exists>c. build_from demo_sha (mp_store_into \<lparr>mp_hash = repr_hash demo_x, mp_depth = 1, mp_cell = demo_x\<rparr>) = Ok c
    \<and> mp_load_from_cell c = Ok \<lparr>mp_hash = repr_hash demo_x, mp_depth = 1, mp_cell = demo_x\<rparr>"
proof -
  note l = demo_linkable(1) [unfolded linkable_def]
  have w: "wf_cell demo_x" using l by (simp add: built_def)
  have "cell_depth demo_x j = cell_depth demo_x 0" for j
    by (rule cell_hash_level(2) [OF w]) (use l in \<open>simp add: hash_index_def\<close>)
  then show ?thesis
    using merkle_proof_cell [of "\<lparr>mp_hash = repr_hash demo_x, mp_depth = 1, mp_cell = demo_x\<rparr>" demo_sha] l w
      plain_setD(4) [OF demo_plain, of demo_x] by auto
qed

section \<open>Merkle updates\<close>

text \<open>
  C28. For an old and a new tree of level 0 without Merkle cells, and a filter whose cells are reached from
  the old root through cells of the filter, the builder of updates never fails, and the update has the
  hashes and depths of level 0 of its two trees, as the loader of update cells requires. Applied to the
  old tree it gives the new tree, if no two cells on one side of the update have the same hash.
\<close>

theorem merkle_update_correct:
  assumes "plain_set sha (set (subcells old) \<union> set (subcells new))" "covers flt old new"
  shows "\<exists>br. update_build sha old new flt = Ok br \<and> mu_valid (br_update br)
    \<and> (inj_on repr_hash (set (subcells (mu_old (br_update br)))) \<and> inj_on repr_hash (set (subcells (mu_new (br_update br))))
       \<longrightarrow> mu_apply sha (br_update br) old = Ok new)"
  by (rule update_applies [OF assms(1) _ _ assms(2)]) auto

text \<open>The two sides of an update from \<open>demo_a\<close> to \<open>demo_b\<close>.\<close>

lemma demo_prunes:
  assumes "prunes demo_sha flt False P demo_x x" "\<forall>h. flt h \<noteq> IncludeSubtree"
  shows "x = demo_x \<or> make_pruned_branch demo_sha demo_x 0 = Ok x"
  using assms(1)
proof cases
  case (node rs)
  obtain e where rs: "rs = [e]" "prunes demo_sha flt False P EmptyOrdinaryCell e"
    using node(3) by (auto simp: demo_children list_all2_Cons1)
  have b: "built demo_sha EmptyOrdinaryCell" "built demo_sha demo_x"
    using linkable_empty demo_linkable(1) by (simp_all add: linkable_def)
  from rs(2) have "e = EmptyOrdinaryCell"
  proof cases
    case pruned
    then show ?thesis by (simp add: is_cut_def demo_children)
  next
    case (node rs)
    then show ?thesis using b(1) by (simp add: built_def)
  qed (use assms(2) in blast)
  then show ?thesis using node(4) rs(1) b(2) by (simp add: built_def demo_children)
qed (use assms(2) in simp_all)

lemma demo_sha_last: "demo_sha x ! 31 = of_nat (length x)"
  by (simp add: demo_sha_def nth_append)

lemma demo_pruned:
  obtains pb where "make_pruned_branch demo_sha demo_x 0 = Ok pb" "wf_cell pb" "cell_level_mask pb = 1" "cell_children pb = []"
    "cell_hash pb 0 = repr_hash demo_x" "cell_depth pb 0 = 1" "cell_depth pb 1 = 0" "repr_hash pb ! 31 = 38"
    "length (cell_hash pb 1) = 32"
proof -
  note l = demo_linkable(1) [unfolded linkable_def]
  have w: "wf_cell demo_x" using l by (simp add: built_def)
  have e: "cell_hash demo_x j = cell_hash demo_x 0" "cell_depth demo_x j = cell_depth demo_x 0" for j
    by (rule cell_hash_level [OF w]; use l in \<open>simp add: hash_index_def\<close>)+
  have b: "length (cell_hash demo_x j) = 32" "cell_depth demo_x j < 65536" for j
    unfolding e(1) [of j] e(2) [of j] using l by simp_all
  obtain pb where pb: "make_pruned_branch demo_sha demo_x 0 = Ok pb" "wf_cell pb" "cell_children pb = []"
    "cell_level_mask pb = lm_new (cell_level_mask demo_x OR push_bit (0 mod 8) 1)"
    "cell_hash pb 0 = cell_hash demo_x 0 \<and> cell_depth pb 0 = cell_depth demo_x 0"
    "hash_index (cell_level_mask pb) 1 = level (cell_level_mask pb) \<Longrightarrow> cell_depth pb 1 = 0"
    "repr_hash pb = demo_sha ([d1 (descriptor pb), d2 (descriptor pb)] @ cell_data pb)"
    "cell_bit_len pb = 16 + level (cell_level_mask pb) * 272"
    by (rule pruned_branch [OF w _ _ b, of 0 demo_sha 1]) (use l in simp_all)
  have m: "cell_level_mask pb = 1" using pb(4) l by (simp add: lm_new_def)
  then have i: "hash_index (cell_level_mask pb) 1 = level (cell_level_mask pb)"
    "hash_index (cell_level_mask pb) 1 = hash_index (cell_level_mask pb) 3" by (simp_all add: hi_masks level_values)
  have "length (cell_data pb) = 36"
    using wf_cell_shape(2) [OF pb(2)] pb(8) m by (simp add: level_values div_ceil8_def)
  then have r: "repr_hash pb ! 31 = 38" unfolding pb(7) demo_sha_last by simp
  have "length (cell_hash pb 1) = 32"
    using cell_hash_level(1) [OF pb(2) i(2)] pb(7) demo_sha_length by (simp add: repr_hash_def MAX_LEVEL_def)
  then show thesis
    using that [OF pb(1,2) m pb(3)] pb(5) pb(6) [OF i(1)] r l e(1) [of MAX_LEVEL] by (simp add: repr_hash_def)
qed

lemma demo_side_inj:
  assumes c: "c = link bs demo_x" "0 < length bs" "length bs < 8" "c \<in> {demo_a, demo_b}"
    and o: "opened demo_sha flt False P c c'" and flt: "\<forall>h. flt h \<noteq> IncludeSubtree"
  shows "inj_on repr_hash (set (subcells c'))"
proof -
  have h: "holds c bs [demo_x]" "linkable 2 c"
    using link_ok(1,2) [OF demo_linkable(1) c(2,3)] c(1) by (simp_all add: numeral_2_eq_2)
  obtain x where x: "prunes demo_sha flt False P demo_x x" "build_ext demo_sha (mk_cb bs [x]) = Ok c'"
    using o h(1) by (auto simp: opened_def holds_def cb_like_ordinary list_all2_Cons1)
  from demo_prunes [OF x(1) flt] show ?thesis
  proof
    assume "x = demo_x"
    then have "c' = c" using x(2) h by (simp add: linkable_def built_def holds_def cb_like_ordinary)
    then have "set (subcells c') \<subseteq> {demo_a, demo_b, demo_x, EmptyOrdinaryCell}" using c(4) demo_subcells by auto
    moreover have "inj_on repr_hash {demo_a, demo_b, demo_x, EmptyOrdinaryCell}"
      using plain_setD(2) [OF demo_plain] unfolding tree_set_def by blast
    ultimately show ?thesis by (rule inj_on_subset [rotated])
  next
    assume "make_pruned_branch demo_sha demo_x 0 = Ok x"
    then have pb: "wf_cell x" "cell_level_mask x = 1" "cell_children x = []" "cell_depth x 0 = 1" "cell_depth x 1 = 0"
      "repr_hash x ! 31 = 38" "length (cell_hash x 1) = 32" using demo_pruned by (metis Inr_inject)+
    let ?p = "ordinary_parts bs [x]" and ?h = "(demo_sha (hash_input (ordinary_parts bs [x]) False 0 0 []), 2)"
    have m: "compute_level_mask [x] = 1" using pb(2) by (simp add: compute_level_mask_def)
    have "c' = make_cell ?p [?h, (demo_sha (hash_input ?p False 0 1 [?h]), 1)]"
      using x(2) build_ordinary_low [of bs "[x]" demo_sha] c(3) pb m by (simp add: Let_def numeral_2_eq_2)
    then have "repr_hash c' = demo_sha (hash_input ?p False 0 1 [?h])" "cell_children c' = [x]"
      using make_ordinary [of bs "[x]"] c(2,3)
      by (simp_all add: repr_hash_def MAX_LEVEL_def cd_hash_index_def m hi_masks level_values)
    moreover have "length (hash_input ?p False 0 1 [?h]) = 68"
      using pb(7) demo_sha_length by (simp add: hash_input_def u16_be_def Let_def)
    ultimately have "repr_hash c' ! 31 = 68" "cell_children c' = [x]" by (simp_all add: demo_sha_last)
    then show ?thesis using pb(3,6) by (auto simp: subcells_unfold [of c'] subcells_unfold [of x] inj_on_def)
  qed
qed

lemma merkle_update_correct_witness:
  "\<exists>br. update_build demo_sha demo_a demo_b (set_filter {repr_hash demo_a, repr_hash demo_x}) = Ok br
    \<and> mu_apply demo_sha (br_update br) demo_a = Ok demo_b"
proof -
  let ?flt = "set_filter {repr_hash demo_a, repr_hash demo_x}" and ?U = "{demo_a, demo_b, demo_x, EmptyOrdinaryCell}"
  have U: "set (subcells demo_a) \<union> set (subcells demo_b) = ?U" by (auto simp: demo_subcells)
  have "known ?flt demo_a demo_x"
    by (rule known.child [OF known.root]) (simp_all add: set_filter_def demo_children)
  then have cv: "covers ?flt demo_a demo_b"
    by (auto simp: covers_def demo_subcells demo_children set_filter_def demo_hash)
  have ne: "repr_hash demo_a \<noteq> repr_hash demo_b" by (simp add: demo_hash)
  from merkle_update_correct [of demo_sha demo_a demo_b ?flt, unfolded U, OF demo_plain cv] obtain br where
    b: "update_build demo_sha demo_a demo_b ?flt = Ok br"
      "inj_on repr_hash (set (subcells (mu_old (br_update br)))) \<and> inj_on repr_hash (set (subcells (mu_new (br_update br))))
        \<longrightarrow> mu_apply demo_sha (br_update br) demo_a = Ok demo_b" by blast
  obtain P ch where "opened demo_sha (inverted_filter ?flt) False P demo_b (mu_new (br_update br))"
    "opened demo_sha (set_filter ch) False UNIV demo_a (mu_old (br_update br))"
    using update_build_sides [OF demo_plain _ _ ne cv] b(1) by (metis Inr_inject insertI1 insertI2)
  then have "inj_on repr_hash (set (subcells (mu_old (br_update br))))" "inj_on repr_hash (set (subcells (mu_new (br_update br))))"
    using demo_side_inj [of demo_a "[True]"] demo_side_inj [of demo_b "[False]"] inverted_not_subtree
    by (simp_all add: demo_a_def demo_b_def set_filter_def)
  then show ?thesis using b by blast
qed

end
