(* ===== verification/Shard_Ident.thy ===== *)
theory Shard_Ident
  imports Cell_Load
begin

text \<open>
  \<^verbatim>\<open>src/models/block/block_id.rs\<close>: shard identifiers and block identifiers. A shard is a workchain and a
  prefix of up to 60 bits; in the 64-bit word the bits of the prefix are followed by a one (the tag) and
  zeros. Not modelled: the text forms.
\<close>

section \<open>Shards\<close>

record shard_ident =
  si_workchain :: "32 word"
  si_prefix :: "64 word"

definition PREFIX_FULL :: "64 word" where "PREFIX_FULL = 0x8000000000000000"

definition MAX_SPLIT_DEPTH :: nat where "MAX_SPLIT_DEPTH = 60"

definition si_BITS :: nat where "si_BITS = 8 + 32 + 64"

definition UNUSED_BITS_MASK :: "64 word" where "UNUSED_BITS_MASK = drop_bit (MAX_SPLIT_DEPTH + 1) (NOT 0)"

definition si_new :: "32 word \<Rightarrow> 64 word \<Rightarrow> shard_ident option" where
  "si_new wc pfx =
    (if pfx = 0 \<or> pfx AND UNUSED_BITS_MASK \<noteq> 0 \<or> wc = - 1 \<and> pfx \<noteq> PREFIX_FULL then None
     else Some \<lparr>si_workchain = wc, si_prefix = pfx\<rparr>)"

definition si_new_full :: "32 word \<Rightarrow> shard_ident" where
  "si_new_full wc = \<lparr>si_workchain = wc, si_prefix = PREFIX_FULL\<rparr>"

definition MASTERCHAIN :: shard_ident where "MASTERCHAIN = si_new_full (- 1)"

definition BASECHAIN :: shard_ident where "BASECHAIN = si_new_full 0"

definition si_is_masterchain :: "shard_ident \<Rightarrow> bool" where
  "si_is_masterchain s \<longleftrightarrow> si_workchain s = si_workchain MASTERCHAIN"

definition prefix_tag_mask :: "shard_ident \<Rightarrow> 64 word" where
  "prefix_tag_mask s = NOT (si_prefix s) + 1"

definition prefix_tag :: "shard_ident \<Rightarrow> 64 word" where
  "prefix_tag s = si_prefix s AND prefix_tag_mask s"

definition is_full :: "shard_ident \<Rightarrow> bool" where
  "is_full s \<longleftrightarrow> si_prefix s = PREFIX_FULL"

definition is_right_child :: "shard_ident \<Rightarrow> bool" where
  "is_right_child s \<longleftrightarrow> si_prefix s AND push_bit 1 (prefix_tag s) \<noteq> 0"

definition is_left_child :: "shard_ident \<Rightarrow> bool" where
  "is_left_child s \<longleftrightarrow> \<not> is_right_child s"

definition is_ancestor_of :: "shard_ident \<Rightarrow> shard_ident \<Rightarrow> bool" where
  "is_ancestor_of s shard =
    (if si_workchain s \<noteq> si_workchain shard then False
     else
       let ancestor_tag = prefix_tag s; shard_tag = prefix_tag shard
       in ancestor_tag \<ge> shard_tag \<and> (si_prefix s XOR si_prefix shard) AND push_bit 1 (prefix_tag_mask s) = 0)"

definition is_parent_of :: "shard_ident \<Rightarrow> shard_ident \<Rightarrow> bool" where
  "is_parent_of s child =
    (if si_workchain s \<noteq> si_workchain child \<or> is_full child then False
     else
       let tag = prefix_tag child; child_parent_prefix = (si_prefix child - tag) OR push_bit 1 tag
       in child_parent_prefix = si_prefix s)"

definition is_child_of :: "shard_ident \<Rightarrow> shard_ident \<Rightarrow> bool" where
  "is_child_of s parent \<longleftrightarrow> is_parent_of parent s"

definition shard_intersects :: "shard_ident \<Rightarrow> shard_ident \<Rightarrow> bool" where
  "shard_intersects s other =
    (if si_workchain s \<noteq> si_workchain other then False
     else
       let self_tag_mask = prefix_tag s; other_tag_mask = prefix_tag other;
           longest_prefix_tag = (if other_tag_mask > self_tag_mask then other_tag_mask else self_tag_mask);
           longest_bits = push_bit 1 (NOT longest_prefix_tag + 1);
           equal_bits = si_prefix s XOR si_prefix other
       in equal_bits AND longest_bits = 0)"

definition shard_merge :: "shard_ident \<Rightarrow> shard_ident option" where
  "shard_merge s =
    (if is_full s then None
     else
       let tag = prefix_tag s
       in Some \<lparr>si_workchain = si_workchain s, si_prefix = (si_prefix s - tag) OR push_bit 1 tag\<rparr>)"

definition shard_split :: "shard_ident \<Rightarrow> (shard_ident \<times> shard_ident) option" where
  "shard_split s =
    (if si_prefix s AND (push_bit 1 UNUSED_BITS_MASK + 1) \<noteq> 0 then None
     else
       let tag = drop_bit 1 (prefix_tag s);
           left = \<lparr>si_workchain = si_workchain s, si_prefix = si_prefix s - tag\<rparr>;
           right = \<lparr>si_workchain = si_workchain s, si_prefix = si_prefix s + tag\<rparr>
       in Some (left, right))"

definition shard_opposite :: "shard_ident \<Rightarrow> shard_ident option" where
  "shard_opposite s =
    (if is_full s then None
     else
       let last_bit_mask = push_bit 1 (prefix_tag s)
       in Some \<lparr>si_workchain = si_workchain s, si_prefix = si_prefix s XOR last_bit_mask\<rparr>)"

definition prefix_len :: "shard_ident \<Rightarrow> nat" where
  "prefix_len s = (if si_prefix s = 0 then 64 else 63 - trailing_zeros (si_prefix s))"

definition can_split :: "shard_ident \<Rightarrow> bool" where
  "can_split s \<longleftrightarrow> prefix_len s < MAX_SPLIT_DEPTH"

text \<open>The loop of \<open>contains_account_prefix\<close>: \<open>n\<close> bits are left, the lists start at the current byte.\<close>

fun account_loop :: "nat \<Rightarrow> byte list \<Rightarrow> byte list \<Rightarrow> bool" where
  "account_loop n (prefix_byte # pfx) (account_byte # account) =
    (if n = 0 then True
     else if n \<ge> 8
     then if prefix_byte \<noteq> account_byte then False else account_loop (n - 8) pfx account
     else (prefix_byte XOR account_byte) AND push_bit (8 - n) 0xff = 0)"
| "account_loop n _ _ = True"

definition contains_account_prefix :: "shard_ident \<Rightarrow> byte list \<Rightarrow> bool" where
  "contains_account_prefix s account = account_loop (prefix_len s) (to_be_bytes (si_prefix s)) account"

definition contains_account :: "shard_ident \<Rightarrow> hash_bytes \<Rightarrow> bool" where
  "contains_account s account = contains_account_prefix s (take 8 account)"

definition si_store_into :: "shard_ident \<Rightarrow> cell_builder \<Rightarrow> cell_builder result" where
  "si_store_into s b =
    (let prefix_without_tag = si_prefix s - prefix_tag s
     in ok (on_inner (\<lambda>d. store_u8 d (of_nat (prefix_len s))) b) (\<lambda>b.
        ok (on_inner (\<lambda>d. store_u32 d (si_workchain s)) b) (\<lambda>b.
        on_inner (\<lambda>d. store_u64 d prefix_without_tag) b)))"

definition si_load_from :: "cell_slice \<Rightarrow> (shard_ident \<times> cell_slice) result" where
  "si_load_from s = ok (load_u8 s) (\<lambda>(prefix_len, s).
    if unat prefix_len > MAX_SPLIT_DEPTH then Err IntOverflow
    else ok (load_u32 s) (\<lambda>(workchain, s). ok (load_u64 s) (\<lambda>(prefix_without_tag, s).
      let tag = push_bit (63 - unat prefix_len) 1;
          pfx = (prefix_without_tag AND (NOT tag + 1)) OR tag
      in Ok (\<lparr>si_workchain = workchain, si_prefix = pfx\<rparr>, s))))"

section \<open>Blocks\<close>

record block_id_short =
  bs_shard :: shard_ident
  bs_seqno :: "32 word"

definition saturating_add32 :: "32 word \<Rightarrow> 32 word \<Rightarrow> 32 word" where
  "saturating_add32 a b = (if unat a + unat b < 2 ^ 32 then a + b else - 1)"

definition saturating_sub32 :: "32 word \<Rightarrow> 32 word \<Rightarrow> 32 word" where
  "saturating_sub32 a b = (if b \<le> a then a - b else 0)"

definition bs_saturating_add :: "block_id_short \<Rightarrow> 32 word \<Rightarrow> block_id_short" where
  "bs_saturating_add b n = \<lparr>bs_shard = bs_shard b, bs_seqno = saturating_add32 (bs_seqno b) n\<rparr>"

definition bs_saturating_sub :: "block_id_short \<Rightarrow> 32 word \<Rightarrow> block_id_short" where
  "bs_saturating_sub b n = \<lparr>bs_shard = bs_shard b, bs_seqno = saturating_sub32 (bs_seqno b) n\<rparr>"

definition bs_saturating_prev :: "block_id_short \<Rightarrow> block_id_short" where
  "bs_saturating_prev b = bs_saturating_sub b 1"

definition bs_saturating_next :: "block_id_short \<Rightarrow> block_id_short" where
  "bs_saturating_next b = bs_saturating_add b 1"

record block_id =
  bi_shard :: shard_ident
  bi_seqno :: "32 word"
  bi_root_hash :: hash_bytes
  bi_file_hash :: hash_bytes

definition bi_BITS :: nat where "bi_BITS = si_BITS + 32 + 256 + 256"

definition as_short_id :: "block_id \<Rightarrow> block_id_short" where
  "as_short_id b = \<lparr>bs_shard = bi_shard b, bs_seqno = bi_seqno b\<rparr>"

text \<open>The derived \<open>Store\<close> and \<open>Load\<close>: field after field.\<close>

definition bi_store_into :: "block_id \<Rightarrow> cell_builder \<Rightarrow> cell_builder result" where
  "bi_store_into v b =
    ok (si_store_into (bi_shard v) b) (\<lambda>b.
    ok (on_inner (\<lambda>d. store_u32 d (bi_seqno v)) b) (\<lambda>b.
    ok (on_inner (\<lambda>d. store_u256 d (bi_root_hash v)) b) (\<lambda>b.
    on_inner (\<lambda>d. store_u256 d (bi_file_hash v)) b)))"

definition bi_load_from :: "cell_slice \<Rightarrow> (block_id \<times> cell_slice) result" where
  "bi_load_from s =
    ok (si_load_from s) (\<lambda>(shard, s).
    ok (load_u32 s) (\<lambda>(seqno, s).
    ok (load_u256 s) (\<lambda>(root_hash, s).
    ok (load_u256 s) (\<lambda>(file_hash, s).
    Ok (\<lparr>bi_shard = shard, bi_seqno = seqno, bi_root_hash = root_hash, bi_file_hash = file_hash\<rparr>, s)))))"

end
