(* ===== verification/Shard_Path.thy ===== *)
theory Shard_Path
  imports Shard_Ident "HOL-Library.Sublist"
begin

text \<open>
  The words of shard prefixes as lists of bits. \<open>path_word p\<close> is the word of the path \<open>p\<close>; the operations
  on shards are those of paths: a child appends a bit, the parent drops it, accounts are in a shard if
  the path is a prefix of their bits.
\<close>

section \<open>The lowest bit of a word\<close>

text \<open>\<open>k\<close> is the position of the lowest one.\<close>

definition lowest :: "'a::len word \<Rightarrow> nat \<Rightarrow> bool" where
  "lowest w k \<longleftrightarrow> bit w k \<and> (\<forall>i < k. \<not> bit w i)"

lemma lowest_less: "lowest w k \<Longrightarrow> k < LENGTH('a)" for w :: "'a::len word"
  by (auto simp: lowest_def dest: bit_imp_le_length)

lemma lowest_ex:
  fixes w :: "'a::len word"
  assumes "w \<noteq> 0"
  shows "\<exists>k. lowest w k"
proof -
  have "\<exists>n. bit w n"
  proof (rule ccontr)
    assume "\<nexists>n. bit w n"
    then have "w = 0" by (intro bit_word_eqI) simp
    then show False using assms by simp
  qed
  then obtain n where "bit w n" by blast
  then show ?thesis
    unfolding lowest_def
    using LeastI [of "\<lambda>i. bit w i" n] not_less_Least [of _ "\<lambda>i. bit w i"] by (intro exI [of _ "LEAST i. bit w i"]) blast
qed

lemma lowest_minus:
  fixes w :: "'a::len word"
  assumes "lowest w k"
  shows "w = unset_bit k w + push_bit k 1" "bit (w - 1) i \<longleftrightarrow> i < LENGTH('a) \<and> (i < k \<or> i \<noteq> k \<and> bit w i)"
proof -
  have k: "k < LENGTH('a)" by (rule lowest_less [OF assms])
  have "unset_bit k w + push_bit k 1 = unset_bit k w OR push_bit k 1"
    by (rule disjunctive_add) (auto simp: bit_simps)
  also have "\<dots> = w" by (rule bit_word_eqI) (use assms k in \<open>auto simp: bit_simps lowest_def\<close>)
  finally show e: "w = unset_bit k w + push_bit k 1" by simp
  have "w - 1 = unset_bit k w + mask k" by (subst e) (simp add: mask_eq_exp_minus_1 push_bit_of_1)
  also have "\<dots> = unset_bit k w OR mask k"
    by (rule disjunctive_add) (use assms in \<open>auto simp: bit_simps lowest_def\<close>)
  finally show "bit (w - 1) i \<longleftrightarrow> i < LENGTH('a) \<and> (i < k \<or> i \<noteq> k \<and> bit w i)"
    using assms k by (auto simp: bit_simps lowest_def dest: bit_imp_le_length)
qed

lemma lowest_neg:
  fixes w :: "'a::len word"
  assumes "lowest w k"
  shows "bit (NOT w + 1) i \<longleftrightarrow> i < LENGTH('a) \<and> (i = k \<or> k < i \<and> \<not> bit w i)"
proof -
  have "NOT w + 1 = NOT (w - 1)" by (simp add: not_eq_complement)
  then show ?thesis using lowest_minus(2) [OF assms, of i] lowest_less [OF assms] by (auto simp: bit_simps)
qed

lemma lowest_tag:
  fixes w :: "'a::len word"
  assumes "lowest w k"
  shows "w AND (NOT w + 1) = push_bit k 1"
  by (rule bit_word_eqI) (use assms lowest_neg [OF assms] lowest_less [OF assms] in \<open>auto simp: bit_simps lowest_def\<close>)

lemma lowest_trailing_zeros:
  fixes w :: "'a::len word"
  assumes "lowest w k"
  shows "trailing_zeros w = k"
proof -
  let ?xs = "rev (word_bits LENGTH('a) w)"
  have n: "?xs ! i = bit w i" if "i < LENGTH('a)" for i using that by (simp add: rev_nth)
  have "takeWhile Not ?xs = take k ?xs"
    by (rule takeWhile_eq_take_P_nth) (use assms lowest_less [OF assms] n in \<open>auto simp: lowest_def\<close>)
  then show ?thesis using lowest_less [OF assms] by (simp add: trailing_zeros_def)
qed

section \<open>Paths\<close>

definition path_base :: "bool list \<Rightarrow> 64 word" where
  "path_base p = word_of_bits (p @ replicate (64 - length p) False)"

definition path_word :: "bool list \<Rightarrow> 64 word" where
  "path_word p = path_base p + push_bit (63 - length p) 1"

lemma bit_path_base: "length p \<le> 60 \<Longrightarrow> bit (path_base p) i \<longleftrightarrow> i < 64 \<and> 64 - length p \<le> i \<and> p ! (63 - i)"
  by (auto simp: path_base_def bit_simps nth_append)

lemma path_word_or: "length p \<le> 60 \<Longrightarrow> path_word p = path_base p OR push_bit (63 - length p) 1"
  unfolding path_word_def by (rule disjunctive_add) (auto simp: bit_path_base bit_simps)

lemma bit_path_word:
  "length p \<le> 60 \<Longrightarrow> bit (path_word p) i \<longleftrightarrow> i < 64 \<and> (i = 63 - length p \<or> 64 - length p \<le> i \<and> p ! (63 - i))"
  by (auto simp: path_word_or bit_path_base bit_simps)

lemma lowest_path_word: "length p \<le> 60 \<Longrightarrow> lowest (path_word p) (63 - length p)"
  by (auto simp: lowest_def bit_path_word)

lemma path_base_snoc:
  assumes "length p < 60"
  shows "path_base (p @ [b]) = path_base p + (if b then push_bit (63 - length p) 1 else 0)"
proof -
  have "path_base (p @ [b]) = path_base p OR (if b then push_bit (63 - length p) 1 else 0)"
    by (rule bit_word_eqI) (use assms in \<open>auto simp: bit_path_base bit_simps nth_append\<close>)
  also have "\<dots> = path_base p + (if b then push_bit (63 - length p) 1 else 0)"
    by (rule disjunctive_add [symmetric]) (use assms in \<open>auto simp: bit_path_base bit_simps\<close>)
  finally show ?thesis .
qed

lemma path_word_inj:
  assumes "length p \<le> 60" "length q \<le> 60" "path_word p = path_word q"
  shows "p = q"
proof (rule nth_equalityI)
  have "trailing_zeros (path_word p) = 63 - length p" "trailing_zeros (path_word q) = 63 - length q"
    using lowest_trailing_zeros lowest_path_word assms by blast+
  then show n: "length p = length q" using assms by simp
  fix i assume i: "i < length p"
  have "bit (path_word p) (63 - i) = bit (path_word q) (63 - i)" using assms(3) by simp
  then show "p ! i = q ! i" using i n assms(1,2) by (auto simp: bit_path_word)
qed

section \<open>Valid shards\<close>

definition valid_prefix :: "shard_ident \<Rightarrow> bool" where
  "valid_prefix s \<longleftrightarrow> si_prefix s \<noteq> 0 \<and> si_prefix s AND UNUSED_BITS_MASK = 0"

text \<open>A shard with a given path.\<close>

definition has_path :: "shard_ident \<Rightarrow> bool list \<Rightarrow> bool" where
  "has_path s p \<longleftrightarrow> length p \<le> MAX_SPLIT_DEPTH \<and> si_prefix s = path_word p"

lemma unused_bits: "bit UNUSED_BITS_MASK i \<longleftrightarrow> i < 3"
  by (auto simp: UNUSED_BITS_MASK_def MAX_SPLIT_DEPTH_def bit_simps)

lemma and_unused: "w AND UNUSED_BITS_MASK = 0 \<longleftrightarrow> (\<forall>i < 3. \<not> bit w i)"
proof
  assume "w AND UNUSED_BITS_MASK = 0"
  then have "\<not> bit (w AND UNUSED_BITS_MASK) i" for i by simp
  then show "\<forall>i < 3. \<not> bit w i" unfolding bit_and_iff unused_bits by blast
qed (auto intro!: bit_word_eqI simp: bit_and_iff unused_bits)

lemma has_path_valid: "has_path s p \<Longrightarrow> valid_prefix s"
proof -
  assume "has_path s p"
  then have p: "length p \<le> 60" "si_prefix s = path_word p" by (simp_all add: has_path_def MAX_SPLIT_DEPTH_def)
  have "bit (path_word p) (63 - length p)" using p(1) by (simp add: bit_path_word)
  then have "path_word p \<noteq> 0" by auto
  moreover have "\<forall>i < 3. \<not> bit (path_word p) i" using p(1) by (auto simp: bit_path_word)
  ultimately show ?thesis using p(2) by (simp add: valid_prefix_def and_unused)
qed

lemma valid_has_path:
  assumes "valid_prefix s"
  obtains p where "has_path s p"
proof -
  let ?w = "si_prefix s"
  from assms obtain k where k: "lowest ?w k" by (auto simp: valid_prefix_def dest: lowest_ex)
  have k3: "\<not> k < 3" "k < 64"
    using assms k lowest_less [OF k] by (auto simp: valid_prefix_def and_unused lowest_def)
  let ?p = "take (63 - k) (word_bits 64 ?w)"
  have n: "length ?p = 63 - k" by simp
  have "?w = path_word ?p"
  proof (rule bit_word_eqI)
    fix i assume i: "i < LENGTH(64)"
    consider "i < k" | "i = k" | "k < i" by linarith
    then show "bit ?w i = bit (path_word ?p) i"
    proof cases
      case 3
      then have "63 - i < 63 - k" "63 - (63 - i) = i" using i by simp_all
      then show ?thesis using k3 i 3 by (simp add: bit_path_word)
    qed (use k k3 in \<open>auto simp: bit_path_word lowest_def\<close>)
  qed
  then show thesis using that [of ?p] n k3 by (simp add: has_path_def MAX_SPLIT_DEPTH_def)
qed

section \<open>Operations on paths\<close>

lemma has_pathD:
  assumes "has_path s p"
  shows "length p \<le> 60" "si_prefix s = path_word p" "prefix_tag s = push_bit (63 - length p) 1" "prefix_len s = length p"
proof -
  show n: "length p \<le> 60" and w: "si_prefix s = path_word p" using assms by (simp_all add: has_path_def MAX_SPLIT_DEPTH_def)
  note l = lowest_path_word [OF n]
  show "prefix_tag s = push_bit (63 - length p) 1"
    unfolding prefix_tag_def prefix_tag_mask_def w by (rule lowest_tag [OF l])
  show "prefix_len s = length p"
    using has_path_valid [OF assms] lowest_trailing_zeros [OF l] n by (simp add: prefix_len_def valid_prefix_def w)
qed

lemma path_word_Nil: "path_word [] = PREFIX_FULL"
  by code_simp

lemma has_path_unique: "has_path s p \<Longrightarrow> has_path s q \<Longrightarrow> p = q"
  using path_word_inj by (metis has_pathD(1,2))

lemma is_full_path: "has_path s p \<Longrightarrow> is_full s \<longleftrightarrow> p = []"
  using has_pathD(1,2) [of s p] path_word_inj [of p "[]"] by (auto simp: is_full_def path_word_Nil)

lemma path_word_minus_tag: "length p \<le> 60 \<Longrightarrow> path_word p - push_bit (63 - length p) 1 = path_base p"
  by (simp add: path_word_def)

lemma tag_up: "n < 60 \<Longrightarrow> push_bit 1 (push_bit (62 - n) 1) = (push_bit (63 - n) 1 :: 64 word)"
  by (simp add: push_bit_push_bit Suc_diff_le numeral_eq_Suc)

lemma path_merge:
  assumes "length p < 60"
  shows "(path_word (p @ [b]) - push_bit (62 - length p) 1) OR push_bit 1 (push_bit (62 - length p) 1) = path_word p"
proof -
  have "path_word (p @ [b]) - push_bit (62 - length p) 1 = path_base (p @ [b])"
    using path_word_minus_tag [of "p @ [b]"] assms by simp
  then show ?thesis
    unfolding tag_up [OF assms] using assms by (simp add: path_word_or) (rule bit_word_eqI, auto simp: bit_path_base bit_simps nth_append)
qed

lemma shard_merge_path:
  assumes "has_path s p"
  shows "shard_merge s = (if p = [] then None else Some \<lparr>si_workchain = si_workchain s, si_prefix = path_word (butlast p)\<rparr>)"
proof (cases p rule: rev_cases)
  case (snoc q b)
  note D = has_pathD [OF assms]
  have "63 - length p = 62 - length q" using snoc by simp
  then show ?thesis
    using is_full_path [OF assms] snoc path_merge [of q b] D by (simp add: shard_merge_def)
qed (use is_full_path [OF assms] in \<open>simp add: shard_merge_def\<close>)

lemma shard_split_path:
  assumes "has_path s p"
  shows "shard_split s = (if length p < 60
    then Some (\<lparr>si_workchain = si_workchain s, si_prefix = path_word (p @ [False])\<rparr>,
               \<lparr>si_workchain = si_workchain s, si_prefix = path_word (p @ [True])\<rparr>) else None)"
proof -
  note D = has_pathD [OF assms]
  have "push_bit 1 UNUSED_BITS_MASK + 1 = (mask 4 :: 64 word)" by code_simp
  then have m: "si_prefix s AND (push_bit 1 UNUSED_BITS_MASK + 1) = 0 \<longleftrightarrow> take_bit 4 (path_word p) = 0"
    using D(2) by (simp add: take_bit_eq_mask)
  have m: "si_prefix s AND (push_bit 1 UNUSED_BITS_MASK + 1) = 0 \<longleftrightarrow> length p < 60"
  proof (cases "length p < 60")
    case True
    then have "take_bit 4 (path_word p) = 0" by (intro bit_word_eqI) (auto simp: bit_path_word bit_simps)
    then show ?thesis using m True by simp
  next
    case False
    then have "bit (take_bit 4 (path_word p)) 3" using D(1) by (simp add: bit_path_word bit_simps)
    then have "take_bit 4 (path_word p) \<noteq> 0" by auto
    then show ?thesis using m False by simp
  qed
  have t: "drop_bit 1 (push_bit (63 - length p) 1) = (push_bit (62 - length p) 1 :: 64 word)" if "length p < 60"
    by (rule bit_word_eqI) (use that in \<open>auto simp: bit_simps\<close>)
  have d: "(push_bit (63 - length p) 1 :: 64 word) = push_bit (62 - length p) 1 + push_bit (62 - length p) 1" if "length p < 60"
    using that by (simp add: push_bit_of_1 numeral_eq_Suc Suc_diff_le)
  show ?thesis
    using m t d D(2,3) path_base_snoc [of p] by (auto simp: shard_split_def Let_def path_word_def)
qed

lemma shard_opposite_path:
  assumes "has_path s (p @ [b])"
  shows "shard_opposite s = Some \<lparr>si_workchain = si_workchain s, si_prefix = path_word (p @ [\<not> b])\<rparr>"
proof -
  note D = has_pathD [OF assms]
  have "path_word (p @ [b]) XOR push_bit (63 - length p) 1 = path_word (p @ [\<not> b])"
    by (rule bit_word_eqI) (use D(1) in \<open>auto simp: bit_path_word bit_simps nth_append\<close>)
  then show ?thesis
    using is_full_path [OF assms] D tag_up [of "length p"] by (simp add: shard_opposite_def)
qed

lemma and_push_bit_1: "w AND push_bit k 1 \<noteq> 0 \<longleftrightarrow> k < LENGTH('a) \<and> bit w k" for w :: "'a::len word"
  by (metis and_exp_eq_0_iff_not_bit bit_imp_le_length push_bit_of_1)

lemma is_right_child_path:
  assumes "has_path s p"
  shows "is_right_child s \<longleftrightarrow> p \<noteq> [] \<and> last p"
proof (cases p rule: rev_cases)
  case Nil
  note D = has_pathD [OF assms]
  have z: "push_bit 1 (push_bit (63 - length ([] :: bool list)) 1) = (0 :: 64 word)" by code_simp
  show ?thesis unfolding is_right_child_def D(3) [unfolded Nil] z using Nil by simp
next
  case (snoc q b)
  note D = has_pathD [OF assms]
  show ?thesis
    using D snoc tag_up [of "length q"] and_push_bit_1 [of "path_word p" "63 - length q"]
    by (auto simp: is_right_child_def bit_path_word nth_append)
qed

lemma is_parent_of_path:
  assumes "has_path s p" "has_path c q"
  shows "is_parent_of s c \<longleftrightarrow> si_workchain s = si_workchain c \<and> q \<noteq> [] \<and> p = butlast q"
proof -
  have "is_parent_of s c \<longleftrightarrow> si_workchain s = si_workchain c \<and> (\<exists>d. shard_merge c = Some d \<and> si_prefix d = si_prefix s)"
    by (simp add: is_parent_of_def shard_merge_def Let_def)
  then show ?thesis
    using has_pathD(1,2) [OF assms(1)] has_pathD(1) [OF assms(2)] path_word_inj [of "butlast q" p]
    by (auto simp: shard_merge_path [OF assms(2)])
qed

section \<open>Accounts\<close>

lemma word_and_eq_0_iff: "w AND v = 0 \<longleftrightarrow> (\<forall>i < LENGTH('a). \<not> (bit w i \<and> bit v i))" for w v :: "'a::len word"
  by (auto simp: bit_eq_iff bit_and_iff dest: bit_imp_le_length)

lemma take_eq_iff: "length xs = length ys \<Longrightarrow> n \<le> length xs \<Longrightarrow> take n xs = take n ys \<longleftrightarrow> (\<forall>i < n. xs ! i = ys ! i)"
  by (simp add: list_eq_iff_nth_eq min_def)

lemma rev_index_iff: "(\<forall>i < (m :: nat). n \<le> i \<longrightarrow> P i) \<longleftrightarrow> (\<forall>i < m - n. P (m - 1 - i))"
proof (intro iffI allI impI)
  fix i assume "\<forall>i < m. n \<le> i \<longrightarrow> P i" "i < m - n"
  then show "P (m - 1 - i)" by simp
next
  fix i assume a: "\<forall>i < m - n. P (m - 1 - i)" "i < m" "n \<le> i"
  then have "m - 1 - i < m - n" "m - 1 - (m - 1 - i) = i" by linarith+
  then show "P i" using a(1) by metis
qed

lemma byte_top_bits:
  fixes x y :: byte
  assumes "n \<le> 8"
  shows "(x XOR y) AND push_bit (8 - n) 0xff = 0 \<longleftrightarrow> take n (word_bits 8 x) = take n (word_bits 8 y)"
proof -
  have "(x XOR y) AND push_bit (8 - n) 0xff = 0 \<longleftrightarrow> (\<forall>i < 8. 8 - n \<le> i \<longrightarrow> bit x i = bit y i)"
    unfolding ones8 word_and_eq_0_iff by (auto simp: bit_simps)
  also have "\<dots> \<longleftrightarrow> (\<forall>i < n. bit x (7 - i) = bit y (7 - i))"
    using assms rev_index_iff [of 8 "8 - n" "\<lambda>i. bit x i = bit y i"] by simp
  finally show ?thesis using assms by (simp add: take_eq_iff)
qed

lemma account_loop_prefix:
  "length pfx = length account \<Longrightarrow> n \<le> 8 * length pfx \<Longrightarrow>
    account_loop n pfx account \<longleftrightarrow> take n (bytes_bits pfx) = take n (bytes_bits account)"
proof (induction n pfx account rule: account_loop.induct)
  case (1 n x pfx y account)
  show ?case
  proof (cases "8 \<le> n")
    case True
    have "word_bits 8 x = word_bits 8 y \<longleftrightarrow> x = y" using bytes_bits_inj [of "[x]" "[y]"] by (auto simp: bytes_bits_byte)
    then show ?thesis using 1 True by (auto simp: bytes_bits_Cons)
  next
    case False
    then show ?thesis using 1 byte_top_bits [of n x y] by (simp add: bytes_bits_Cons)
  qed
qed auto

lemma contains_account_path:
  assumes "has_path s p" "8 \<le> length account"
  shows "contains_account s account \<longleftrightarrow> prefix p (bytes_bits account)"
proof -
  note D = has_pathD [OF assms(1)]
  have b: "bytes_bits (to_be_bytes (path_word p)) = word_bits 64 (path_word p)" by (simp add: bytes_bits_to_be)
  have w: "take (length p) (word_bits 64 (path_word p)) = p"
    using D(1) by (intro nth_equalityI) (auto simp: bit_path_word)
  have t: "take (length p) (bytes_bits (take 8 account)) = take (length p) (bytes_bits account)"
    using bytes_bits_append [of "take 8 account" "drop 8 account"] D(1) assms(2) by (simp add: min_def)
  have "contains_account s account \<longleftrightarrow> p = take (length p) (bytes_bits account)"
    using D assms(2) account_loop_prefix [of "to_be_bytes (path_word p)" "take 8 account" "length p"]
    by (simp add: contains_account_def contains_account_prefix_def b w t)
  then show ?thesis by (metis append_take_drop_id prefixI prefix_def append_eq_conv_conj)
qed

section \<open>Shards that intersect\<close>

lemma tag_less_iff: "a < 64 \<Longrightarrow> b < 64 \<Longrightarrow> (push_bit a 1 :: 64 word) < push_bit b 1 \<longleftrightarrow> a < b"
proof -
  assume l: "a < 64" "b < 64"
  have u: "unat (push_bit n 1 :: 64 word) = 2 ^ n" if "n < 64" for n
  proof -
    have "unat (push_bit n 1 :: 64 word) = take_bit 64 (push_bit n 1)" by (simp add: unsigned_push_bit_eq del: push_bit_of_1)
    also have "\<dots> = 2 ^ n" using that by (simp add: take_bit_nat_eq_self)
    finally show ?thesis .
  qed
  show ?thesis unfolding word_less_nat_alt u [OF l(1)] u [OF l(2)] by simp
qed

lemma above_tag:
  assumes "k < 64"
  shows "bit (push_bit 1 (NOT (push_bit k 1) + 1) :: 64 word) i \<longleftrightarrow> i < 64 \<and> k < i"
proof -
  have "lowest (push_bit k 1 :: 64 word) k" using assms by (auto simp: lowest_def bit_simps)
  from lowest_neg [OF this] have n: "bit (NOT (push_bit k 1) + 1 :: 64 word) j \<longleftrightarrow> j < 64 \<and> (j = k \<or> k < j \<and> \<not> bit (push_bit k 1 :: 64 word) j)"
    for j by simp
  show ?thesis unfolding bit_push_bit_iff n by (auto simp: bit_simps)
qed

lemma path_word_agree:
  assumes "length p \<le> 60" "length q \<le> 60" "m \<le> length p" "m \<le> length q"
  shows "(path_word p XOR path_word q) AND push_bit 1 (NOT (push_bit (63 - m) 1) + 1) = 0 \<longleftrightarrow> take m p = take m q"
proof -
  have k: "63 - m < 64" and c: "63 - m < i \<longleftrightarrow> 64 - m \<le> i" for i using assms by linarith+
  have "(path_word p XOR path_word q) AND push_bit 1 (NOT (push_bit (63 - m) 1) + 1) = 0
      \<longleftrightarrow> (\<forall>i < 64. 64 - m \<le> i \<longrightarrow> bit (path_word p) i = bit (path_word q) i)"
    unfolding word_and_eq_0_iff above_tag [OF k] c bit_xor_iff by auto
  also have "\<dots> \<longleftrightarrow> (\<forall>i < m. bit (path_word p) (63 - i) = bit (path_word q) (63 - i))"
    using assms rev_index_iff [of 64 "64 - m" "\<lambda>i. bit (path_word p) i = bit (path_word q) i"] by simp
  also have "\<dots> \<longleftrightarrow> (\<forall>i < m. p ! i = q ! i)" using assms by (auto simp: bit_path_word)
  finally show ?thesis using assms by (simp add: list_eq_iff_nth_eq min_def)
qed

lemma prefix_take: "length p \<le> length q \<Longrightarrow> prefix p q \<longleftrightarrow> take (length p) p = take (length p) q"
  by (metis append_eq_conv_conj append_take_drop_id prefixI prefixE take_all_iff order_refl)

lemma shard_intersects_path:
  assumes "has_path s p" "has_path t q"
  shows "shard_intersects s t \<longleftrightarrow> si_workchain s = si_workchain t \<and> (prefix p q \<or> prefix q p)"
proof -
  note P = has_pathD [OF assms(1)] and Q = has_pathD [OF assms(2)]
  define m where "m = min (length p) (length q)"
  have k: "63 - n < 64" for n :: nat by simp
  have tag: "(if prefix_tag t > prefix_tag s then prefix_tag t else prefix_tag s) = push_bit (63 - m) 1"
    unfolding P(3) Q(3) tag_less_iff [OF k k] using P(1) Q(1) by (auto simp: m_def min_def)
  have "shard_intersects s t \<longleftrightarrow> si_workchain s = si_workchain t \<and> take m p = take m q"
    unfolding shard_intersects_def Let_def tag P(2) Q(2)
    using path_word_agree [OF P(1) Q(1), of m] by (simp add: m_def)
  moreover have "take m p = take m q \<longleftrightarrow> prefix p q \<or> prefix q p"
  proof (cases "length p \<le> length q")
    case True
    have "prefix q p \<Longrightarrow> q = p" using True by (auto simp: prefix_def)
    then show ?thesis
      using prefix_take [OF True] True by (auto simp: m_def min_def)
  next
    case False
    then show ?thesis
      using prefix_take [of q p] prefix_length_le [of p q] by (auto simp: m_def min_def)
  qed
  ultimately show ?thesis by simp
qed

section \<open>Shards in cells\<close>

definition si_bits :: "shard_ident \<Rightarrow> bool list" where
  "si_bits s = word_bits 8 (of_nat (prefix_len s) :: byte) @ word_bits 32 (si_workchain s)
     @ word_bits 64 (si_prefix s - prefix_tag s)"

lemma si_store_appends: "appends (si_store_into s) (si_bits s) []"
  unfolding si_store_into_def [abs_def] Let_def si_bits_def
  using appends_bind [OF appends_inner [where f = "\<lambda>d. store_u8 d (of_nat (prefix_len s))"]
      appends_bind [OF appends_inner [where f = "\<lambda>d. store_u32 d (si_workchain s)"]
        appends_inner [where f = "\<lambda>d. store_u64 d (si_prefix s - prefix_tag s)"]]]
  by simp

lemma path_word_load:
  assumes "n \<le> 60"
  shows "(w AND (NOT (push_bit (63 - n) 1) + 1)) OR push_bit (63 - n) 1 = path_word (take n (word_bits 64 w))"
proof (rule bit_word_eqI)
  fix i assume i: "i < LENGTH(64)"
  have "lowest (push_bit (63 - n) 1 :: 64 word) (63 - n)" by (auto simp: lowest_def bit_simps)
  from lowest_neg [OF this, of i]
  have b: "bit (NOT (push_bit (63 - n) 1) + 1 :: 64 word) i \<longleftrightarrow> 63 - n \<le> i" using i by (auto simp: bit_simps)
  have "63 - n < i \<Longrightarrow> take n (word_bits 64 w) ! (63 - i) = bit w i" using i assms by simp
  then show "bit ((w AND (NOT (push_bit (63 - n) 1) + 1)) OR push_bit (63 - n) 1) i = bit (path_word (take n (word_bits 64 w))) i"
    unfolding bit_or_iff bit_and_iff b using i assms by (auto simp: bit_path_word bit_simps)
qed

lemma si_loads:
  fixes wc :: "32 word" and w :: "64 word"
  assumes "n \<le> 60"
  shows "loads si_load_from (word_bits 8 (of_nat n :: byte) @ word_bits 32 wc @ word_bits 64 w) []
    \<lparr>si_workchain = wc, si_prefix = path_word (take n (word_bits 64 w))\<rparr>"
proof -
  let ?k = "\<lambda>(wc :: 32 word) (w :: 64 word). let tag = push_bit (63 - n) 1 in \<lparr>si_workchain = wc, si_prefix = (w AND (NOT tag + 1)) OR tag\<rparr>"
  have n: "unat (of_nat n :: byte) = n" using assms by (simp add: unat_of_nat)
  have f: "si_load_from = (\<lambda>s. ok (load_u8 s) (\<lambda>(pl, s). if unat pl > MAX_SPLIT_DEPTH then Err IntOverflow
      else ok (load_u32 s) (\<lambda>(wc, s). ok (load_u64 s) (\<lambda>(w, s). let tag = push_bit (63 - unat pl) 1 in
        Ok (\<lparr>si_workchain = wc, si_prefix = (w AND (NOT tag + 1)) OR tag\<rparr>, s)))))"
    unfolding si_load_from_def [abs_def] Let_def by (rule refl)
  have "loads (\<lambda>s. ok (load_u32 s) (\<lambda>(wc, s). ok (load_u64 s) (\<lambda>(w, s). Ok (?k wc w, s)))) (word_bits 32 wc @ word_bits 64 w) [] (?k wc w)"
    using loads_bind [OF loads_u32 [of wc], where g = "\<lambda>wc s. ok (load_u64 s) (\<lambda>(w, s). Ok (?k wc w, s))",
        OF loads_map [OF loads_u64 [of w]]] by simp
  then show ?thesis
    unfolding f
    using loads_bind [OF loads_u8 [of "of_nat n"], where g = "\<lambda>pl s. if unat pl > MAX_SPLIT_DEPTH then Err IntOverflow
      else ok (load_u32 s) (\<lambda>(wc, s). ok (load_u64 s) (\<lambda>(w, s). let tag = push_bit (63 - unat pl) 1 in
        Ok (\<lparr>si_workchain = wc, si_prefix = (w AND (NOT tag + 1)) OR tag\<rparr>, s)))"] assms path_word_load [OF assms, of w]
    by (simp add: n MAX_SPLIT_DEPTH_def Let_def)
qed

lemma si_loads_stored:
  assumes "valid_prefix s"
  shows "loads si_load_from (si_bits s) [] s"
proof -
  obtain p where p: "has_path s p" by (rule valid_has_path [OF assms])
  note D = has_pathD [OF p]
  have t: "take (length p) (word_bits 64 (path_base p)) = p"
    using D(1) by (intro nth_equalityI) (auto simp: bit_path_base)
  have e: "\<lparr>si_workchain = si_workchain s, si_prefix = path_word p\<rparr> = s" using D(2) by simp
  show ?thesis
    using si_loads [OF D(1), of "si_workchain s" "path_base p", unfolded t e] path_word_minus_tag [OF D(1)] D(2-4)
    by (simp add: si_bits_def)
qed

interpretation shard_codec: cell_codec valid_prefix si_bits "\<lambda>_. []" si_store_into si_load_from
  by unfold_locales (rule si_store_appends, rule si_loads_stored)

section \<open>Block identifiers in cells\<close>

definition bi_valid :: "block_id \<Rightarrow> bool" where
  "bi_valid v \<longleftrightarrow> valid_prefix (bi_shard v) \<and> length (bi_root_hash v) = 32 \<and> length (bi_file_hash v) = 32"

definition bi_bits :: "block_id \<Rightarrow> bool list" where
  "bi_bits v = si_bits (bi_shard v) @ word_bits 32 (bi_seqno v) @ bytes_bits (bi_root_hash v) @ bytes_bits (bi_file_hash v)"

lemma bi_loads: "bi_valid v \<Longrightarrow> loads bi_load_from (bi_bits v) [] v"
  using loads_fields4 [OF si_loads_stored loads_u32 loads_u256 loads_u256, where h = block_id.make,
      of "bi_shard v" "bi_root_hash v" "bi_file_hash v" "bi_seqno v"]
  by (cases v) (simp add: bi_load_from_def [abs_def] bi_bits_def bi_valid_def block_id.make_def)

lemma bi_stores: "bi_valid v \<Longrightarrow> appends (bi_store_into v) (bi_bits v) []"
  unfolding bi_store_into_def [abs_def] bi_bits_def bi_valid_def
  using appends_bind [OF si_store_appends appends_bind [OF u32_store.store_appends
    appends_bind [OF u256_store.store_appends u256_store.store_appends]]] by simp

interpretation block_id_codec: cell_codec bi_valid bi_bits "\<lambda>_. []" bi_store_into bi_load_from
  by unfold_locales (rule bi_stores, assumption, rule bi_loads, assumption)

end
