(* ===== verification/Numbers.thy ===== *)
theory Numbers
  imports Cell_Load
begin

text \<open>
  \<^verbatim>\<open>src/num/mod.rs\<close>: integers of variable length, small integers and split depths. The macro
  \<open>impl_var_uints\<close> is instantiated for \<open>VarUint24\<close>, \<open>VarUint56\<close> and \<open>Tokens\<close>, which wrap a primitive integer
  that may exceed what the type can hold; \<open>n\<close> is its \<open>$max_bytes\<close>. The macro \<open>impl_small_uints\<close> is
  instantiated for 9, 12 and 15 bits. Not modelled: the text forms, the operators of \<open>impl_ops\<close>, which
  are those of the primitive integers, and serde.
\<close>

section \<open>Checked arithmetic of the primitive integers\<close>

definition checked_add_word :: "'a::len word \<Rightarrow> 'a word \<Rightarrow> 'a word option" where
  "checked_add_word a b = (if unat a + unat b < 2 ^ LENGTH('a) then Some (a + b) else None)"

definition checked_sub_word :: "'a::len word \<Rightarrow> 'a word \<Rightarrow> 'a word option" where
  "checked_sub_word a b = (if b \<le> a then Some (a - b) else None)"

definition checked_mul_word :: "'a::len word \<Rightarrow> 'a word \<Rightarrow> 'a word option" where
  "checked_mul_word a b = (if unat a * unat b < 2 ^ LENGTH('a) then Some (a * b) else None)"

definition checked_div_word :: "'a::len word \<Rightarrow> 'a word \<Rightarrow> 'a word option" where
  "checked_div_word a b = (if b = 0 then None else Some (a div b))"

section \<open>Integers of variable length\<close>

definition vu_VALUE_BITS :: "nat \<Rightarrow> nat" where "vu_VALUE_BITS n = n * 8"

definition vu_LEN_BITS :: "nat \<Rightarrow> nat" where "vu_LEN_BITS n = 8 - leading_zeros (of_nat n :: byte)"

definition vu_MAX_BITS :: "nat \<Rightarrow> nat" where "vu_MAX_BITS n = vu_LEN_BITS n + vu_VALUE_BITS n"

definition vu_MAX :: "nat \<Rightarrow> 'a::len word" where "vu_MAX n = push_bit (vu_VALUE_BITS n) 1 - 1"

definition vu_is_zero :: "'a::len word \<Rightarrow> bool" where "vu_is_zero v \<longleftrightarrow> v = 0"

definition vu_is_valid :: "nat \<Rightarrow> 'a::len word \<Rightarrow> bool" where "vu_is_valid n v \<longleftrightarrow> v \<le> vu_MAX n"

definition vu_bytes :: "'a::len word \<Rightarrow> nat" where
  "vu_bytes v = LENGTH('a) div 8 - leading_zeros v div 8"

definition vu_bit_len :: "nat \<Rightarrow> 'a::len word \<Rightarrow> nat option" where
  "vu_bit_len n v = (let bytes = vu_bytes v in if bytes > n then None else Some (vu_LEN_BITS n + bytes * 8))"

definition vu_unwrap_bit_len :: "nat \<Rightarrow> 'a::len word \<Rightarrow> nat" where
  "vu_unwrap_bit_len n v = (let bytes = vu_bytes v in if bytes > n then vu_MAX_BITS n else vu_LEN_BITS n + bytes * 8)"

definition vu_saturating_add :: "nat \<Rightarrow> 'a::len word \<Rightarrow> 'a word \<Rightarrow> 'a word" where
  "vu_saturating_add n a b =
    (case checked_add_word a b of Some v \<Rightarrow> if v \<le> vu_MAX n then v else vu_MAX n | None \<Rightarrow> vu_MAX n)"

definition vu_saturating_sub :: "nat \<Rightarrow> 'a::len word \<Rightarrow> 'a word \<Rightarrow> 'a word" where
  "vu_saturating_sub n a b =
    (case checked_sub_word a b of Some v \<Rightarrow> if v \<le> vu_MAX n then v else vu_MAX n | None \<Rightarrow> 0)"

definition vu_saturating_mul :: "nat \<Rightarrow> 'a::len word \<Rightarrow> 'a word \<Rightarrow> 'a word" where
  "vu_saturating_mul n a b =
    (case checked_mul_word a b of Some v \<Rightarrow> if v \<le> vu_MAX n then v else vu_MAX n | None \<Rightarrow> vu_MAX n)"

definition vu_checked_add :: "nat \<Rightarrow> 'a::len word \<Rightarrow> 'a word \<Rightarrow> 'a word option" where
  "vu_checked_add n a b =
    (case checked_add_word a b of Some v \<Rightarrow> if v \<le> vu_MAX n then Some v else None | None \<Rightarrow> None)"

definition vu_checked_sub :: "nat \<Rightarrow> 'a::len word \<Rightarrow> 'a word \<Rightarrow> 'a word option" where
  "vu_checked_sub n a b =
    (case checked_sub_word a b of Some v \<Rightarrow> if v \<le> vu_MAX n then Some v else None | None \<Rightarrow> None)"

definition vu_checked_mul :: "nat \<Rightarrow> 'a::len word \<Rightarrow> 'a word \<Rightarrow> 'a word option" where
  "vu_checked_mul n a b =
    (case checked_mul_word a b of Some v \<Rightarrow> if v \<le> vu_MAX n then Some v else None | None \<Rightarrow> None)"

definition vu_checked_div :: "nat \<Rightarrow> 'a::len word \<Rightarrow> 'a word \<Rightarrow> 'a word option" where
  "vu_checked_div n a b =
    (case checked_div_word a b of Some v \<Rightarrow> if v \<le> vu_MAX n then Some v else None | None \<Rightarrow> None)"

text \<open>The assigning forms: a failing one leaves the value unchanged.\<close>

definition int_overflow :: "'a option \<Rightarrow> 'a result" where
  "int_overflow x = (case x of Some v \<Rightarrow> Ok v | None \<Rightarrow> Err IntOverflow)"

definition vu_try_add_assign :: "nat \<Rightarrow> 'a::len word \<Rightarrow> 'a word \<Rightarrow> 'a word result" where
  "vu_try_add_assign n a b = int_overflow (vu_checked_add n a b)"

definition vu_try_sub_assign :: "nat \<Rightarrow> 'a::len word \<Rightarrow> 'a word \<Rightarrow> 'a word result" where
  "vu_try_sub_assign n a b = int_overflow (vu_checked_sub n a b)"

definition vu_try_mul_assign :: "nat \<Rightarrow> 'a::len word \<Rightarrow> 'a word \<Rightarrow> 'a word result" where
  "vu_try_mul_assign n a b = int_overflow (vu_checked_mul n a b)"

definition vu_try_div_assign :: "nat \<Rightarrow> 'a::len word \<Rightarrow> 'a word \<Rightarrow> 'a word result" where
  "vu_try_div_assign n a b = int_overflow (vu_checked_div n a b)"

definition vu_exact_size :: "nat \<Rightarrow> 'a::len word \<Rightarrow> size" where
  "vu_exact_size n v = \<lparr>sz_bits = (case vu_bit_len n v of Some k \<Rightarrow> k | None \<Rightarrow> 0), sz_refs = 0\<rparr>"

section \<open>In cells\<close>

definition vu24_store_into :: "32 word \<Rightarrow> cell_builder \<Rightarrow> cell_builder result" where
  "vu24_store_into v b =
    (let bytes = 4 - leading_zeros v div 8; bits = bytes * 8
     in if bytes > 3 \<or> \<not> has_capacity b (vu_LEN_BITS 3 + bits) 0 then Err CellOverflow
        else ok (on_inner (\<lambda>d. store_small_uint d (of_nat bytes) (vu_LEN_BITS 3)) b) (\<lambda>b.
          on_inner (\<lambda>d. store_uint d (ucast v) bits) b))"

definition vu24_load_from :: "cell_slice \<Rightarrow> (32 word \<times> cell_slice) result" where
  "vu24_load_from s = ok (load_small_uint s (vu_LEN_BITS 3)) (\<lambda>(bytes, s).
    ok (load_uint s (unat bytes * 8)) (\<lambda>(v, s). Ok (ucast v, s)))"

definition vu56_store_into :: "64 word \<Rightarrow> cell_builder \<Rightarrow> cell_builder result" where
  "vu56_store_into v b =
    (let bytes = 8 - leading_zeros v div 8; bits = bytes * 8
     in if bytes > 7 \<or> \<not> has_capacity b (vu_LEN_BITS 7 + bits) 0 then Err CellOverflow
        else ok (on_inner (\<lambda>d. store_small_uint d (of_nat bytes) (vu_LEN_BITS 7)) b) (\<lambda>b.
          on_inner (\<lambda>d. store_uint d v bits) b))"

definition vu56_load_from :: "cell_slice \<Rightarrow> (64 word \<times> cell_slice) result" where
  "vu56_load_from s = ok (load_small_uint s (vu_LEN_BITS 7)) (\<lambda>(bytes, s). load_uint s (unat bytes * 8))"

definition store_u128_bits :: "128 word \<Rightarrow> nat \<Rightarrow> cell_builder \<Rightarrow> cell_builder result" where
  "store_u128_bits v bits b =
    (if bits \<ge> 64
     then ok (on_inner (\<lambda>d. store_uint d (ucast (drop_bit 64 v)) (bits - 64)) b) (\<lambda>b.
       on_inner (\<lambda>d. store_uint d (ucast v) 64) b)
     else on_inner (\<lambda>d. store_uint d (ucast v) bits) b)"

definition load_u128_bytes :: "cell_slice \<Rightarrow> nat \<Rightarrow> (128 word \<times> cell_slice) result" where
  "load_u128_bytes s bytes =
    (if bytes > 8
     then ok (load_uint s ((bytes - 8) * 8)) (\<lambda>(high, s).
       ok (load_uint s (8 * 8)) (\<lambda>(v, s). Ok (push_bit 64 (ucast high) OR ucast v, s)))
     else ok (load_uint s (bytes * 8)) (\<lambda>(v, s). Ok (0 OR ucast v, s)))"

definition tokens_store_into :: "128 word \<Rightarrow> cell_builder \<Rightarrow> cell_builder result" where
  "tokens_store_into v b =
    (let bytes = 16 - leading_zeros v div 8; bits = bytes * 8
     in if bytes > 15 \<or> \<not> has_capacity b (vu_LEN_BITS 15 + bits) 0 then Err CellOverflow
        else ok (on_inner (\<lambda>d. store_small_uint d (of_nat bytes) (vu_LEN_BITS 15)) b) (\<lambda>b. store_u128_bits v bits b))"

definition tokens_load_from :: "cell_slice \<Rightarrow> (128 word \<times> cell_slice) result" where
  "tokens_load_from s = ok (load_small_uint s (vu_LEN_BITS 15)) (\<lambda>(bytes, s). load_u128_bytes s (unat bytes))"

section \<open>Small integers\<close>

definition su_MAX :: "nat \<Rightarrow> 16 word" where "su_MAX n = push_bit n 1 - 1"

definition su_is_valid :: "nat \<Rightarrow> 16 word \<Rightarrow> bool" where "su_is_valid n v \<longleftrightarrow> v \<le> su_MAX n"

definition su_saturating_add :: "nat \<Rightarrow> 16 word \<Rightarrow> 16 word \<Rightarrow> 16 word" where
  "su_saturating_add n a b =
    (case checked_add_word a b of Some v \<Rightarrow> if v \<le> su_MAX n then v else su_MAX n | None \<Rightarrow> su_MAX n)"

definition su_saturating_sub :: "nat \<Rightarrow> 16 word \<Rightarrow> 16 word \<Rightarrow> 16 word" where
  "su_saturating_sub n a b =
    (case checked_sub_word a b of Some v \<Rightarrow> if v \<le> su_MAX n then v else su_MAX n | None \<Rightarrow> 0)"

definition su_saturating_mul :: "nat \<Rightarrow> 16 word \<Rightarrow> 16 word \<Rightarrow> 16 word" where
  "su_saturating_mul n a b =
    (case checked_mul_word a b of Some v \<Rightarrow> if v \<le> su_MAX n then v else su_MAX n | None \<Rightarrow> su_MAX n)"

definition su_checked_add :: "nat \<Rightarrow> 16 word \<Rightarrow> 16 word \<Rightarrow> 16 word option" where
  "su_checked_add n a b =
    (case checked_add_word a b of Some v \<Rightarrow> if v \<le> su_MAX n then Some v else None | None \<Rightarrow> None)"

definition su_checked_sub :: "nat \<Rightarrow> 16 word \<Rightarrow> 16 word \<Rightarrow> 16 word option" where
  "su_checked_sub n a b =
    (case checked_sub_word a b of Some v \<Rightarrow> if v \<le> su_MAX n then Some v else None | None \<Rightarrow> None)"

definition su_checked_mul :: "nat \<Rightarrow> 16 word \<Rightarrow> 16 word \<Rightarrow> 16 word option" where
  "su_checked_mul n a b =
    (case checked_mul_word a b of Some v \<Rightarrow> if v \<le> su_MAX n then Some v else None | None \<Rightarrow> None)"

definition su_checked_div :: "nat \<Rightarrow> 16 word \<Rightarrow> 16 word \<Rightarrow> 16 word option" where
  "su_checked_div n a b =
    (case checked_div_word a b of Some v \<Rightarrow> if v \<le> su_MAX n then Some v else None | None \<Rightarrow> None)"

definition su_store_into :: "nat \<Rightarrow> 16 word \<Rightarrow> cell_builder \<Rightarrow> cell_builder result" where
  "su_store_into n v b =
    (if \<not> su_is_valid n v then Err IntOverflow else on_inner (\<lambda>d. store_uint d (ucast v) n) b)"

definition su_load_from :: "nat \<Rightarrow> cell_slice \<Rightarrow> (16 word \<times> cell_slice) result" where
  "su_load_from n s = ok (load_uint s n) (\<lambda>(v, s). Ok (ucast v, s))"

definition su_load_from_data :: "nat \<Rightarrow> cell_data_builder \<Rightarrow> 16 word option" where
  "su_load_from_data n d = Some (drop_bit (16 - n) (from_be_bytes [bd_data d ! 0, bd_data d ! 1]))"

section \<open>Split depths\<close>

definition sd_new :: "byte \<Rightarrow> byte result" where
  "sd_new v = (if v = 0 then Err IntOverflow else Ok v)"

definition sd_from_bit_len :: "nat \<Rightarrow> byte result" where
  "sd_from_bit_len bit_len = (if bit_len < 255 then sd_new (of_nat bit_len) else Err IntOverflow)"

definition sd_into_bit_len :: "byte \<Rightarrow> nat" where
  "sd_into_bit_len v = unat v"

definition sd_BITS :: nat where "sd_BITS = 5"

definition sd_store_into :: "byte \<Rightarrow> cell_builder \<Rightarrow> cell_builder result" where
  "sd_store_into v b = on_inner (\<lambda>d. store_small_uint d v sd_BITS) b"

definition sd_load_from :: "cell_slice \<Rightarrow> (byte \<times> cell_slice) result" where
  "sd_load_from s = ok (load_small_uint s sd_BITS) (\<lambda>(v, s). ok (sd_new v) (\<lambda>v. Ok (v, s)))"

end
