(* ===== verification/Numbers_Props.thy ===== *)
theory Numbers_Props
  imports Numbers
begin

text \<open>
  The number of bytes of a value, the arithmetic of the bounded integers as that of the natural numbers
  cut off at the bounds, and what is stored in cells.
\<close>

section \<open>Bounds of words\<close>

lemma le_leading_zeros:
  fixes w :: "'a::len word"
  assumes "k \<le> LENGTH('a)"
  shows "k \<le> leading_zeros w \<longleftrightarrow> take_bit (LENGTH('a) - k) w = w"
proof -
  have "k \<le> length (takeWhile P xs) \<longleftrightarrow> (\<forall>i < k. P (xs ! i))" if "k \<le> length xs" for P and xs :: "bool list"
    using that
  proof (induction xs arbitrary: k)
    case (Cons x xs)
    then show ?case by (cases k) (auto simp: less_Suc_eq_0_disj)
  qed simp
  then have "k \<le> leading_zeros w \<longleftrightarrow> (\<forall>i < k. \<not> bit w (LENGTH('a) - 1 - i))"
    unfolding leading_zeros_def using assms by simp
  also have "\<dots> \<longleftrightarrow> (\<forall>i < LENGTH('a). LENGTH('a) - k \<le> i \<longrightarrow> \<not> bit w i)"
  proof (intro iffI allI impI)
    fix i assume a: "\<forall>i < k. \<not> bit w (LENGTH('a) - 1 - i)" "i < LENGTH('a)" "LENGTH('a) - k \<le> i"
    then have "LENGTH('a) - 1 - i < k" "LENGTH('a) - 1 - (LENGTH('a) - 1 - i) = i" by linarith+
    then show "\<not> bit w i" using a(1) by metis
  qed (use assms in auto)
  also have "\<dots> \<longleftrightarrow> take_bit (LENGTH('a) - k) w = w"
    by (auto simp: bit_eq_iff bit_take_bit_iff not_less dest: bit_imp_le_length)
  finally show ?thesis .
qed

lemma take_bit_eq_self_unat: "take_bit n w = w \<longleftrightarrow> unat w < 2 ^ n" for w :: "'a::len word"
  by (metis take_bit_nat_eq_self_iff unsigned_take_bit_eq word_unat_eq_iff)

lemma unat_vu_MAX:
  assumes "8 * n < LENGTH('a)"
  shows "unat (vu_MAX n :: 'a::len word) = 2 ^ (8 * n) - 1"
proof -
  have "(vu_MAX n :: 'a word) = of_nat (2 ^ (8 * n) - 1)"
    by (simp add: vu_MAX_def vu_VALUE_BITS_def of_nat_diff mult.commute)
  moreover have "(2 :: nat) ^ (8 * n) - 1 < 2 ^ LENGTH('a)"
    using assms power_strict_increasing [of "8 * n" "LENGTH('a)" "2 :: nat"] by linarith
  ultimately show ?thesis by (simp only: unat_of_nat mod_less)
qed

lemma le_vu_MAX: "8 * n < LENGTH('a) \<Longrightarrow> (v :: 'a::len word) \<le> vu_MAX n \<longleftrightarrow> unat v < 2 ^ (8 * n)"
  by (simp add: word_le_nat_alt unat_vu_MAX less_eq_iff_succ_less)

lemma vu_bytes_le:
  assumes "8 dvd LENGTH('a)" "8 * n \<le> LENGTH('a)"
  shows "vu_bytes (v :: 'a::len word) \<le> n \<longleftrightarrow> unat v < 2 ^ (8 * n)"
proof -
  obtain m where m: "LENGTH('a) = 8 * m" using assms(1) by (auto elim: dvdE)
  have "vu_bytes v \<le> n \<longleftrightarrow> m - n \<le> leading_zeros v div 8" using m by (auto simp: vu_bytes_def)
  also have "\<dots> \<longleftrightarrow> 8 * (m - n) \<le> leading_zeros v" by (auto simp: less_eq_div_iff_mult_less_eq mult.commute)
  also have "\<dots> \<longleftrightarrow> take_bit (8 * n) v = v" using le_leading_zeros [of "8 * (m - n)" v] m assms(2) by (simp add: diff_mult_distrib2)
  finally show ?thesis by (simp add: take_bit_eq_self_unat)
qed

section \<open>Arithmetic up to a bound\<close>

definition up_to :: "nat \<Rightarrow> nat \<Rightarrow> nat option" where
  "up_to m v = (if v \<le> m then Some v else None)"

lemma checked_add_up_to:
  "map_option unat (case checked_add_word a b of Some v \<Rightarrow> if v \<le> mx then Some v else None | None \<Rightarrow> None)
    = up_to (unat mx) (unat a + unat b)" for a b mx :: "'a::len word"
proof (cases "unat a + unat b < 2 ^ LENGTH('a)")
  case True
  then have "unat (a + b) = unat a + unat b" by (simp add: unat_add_lem)
  then show ?thesis using True by (simp add: checked_add_word_def up_to_def word_le_nat_alt)
next
  case False
  have "unat mx < unat a + unat b" using less_le_trans [OF unsigned_less False [unfolded not_less]] .
  then show ?thesis using False by (simp add: checked_add_word_def up_to_def)
qed

lemma checked_mul_up_to:
  "map_option unat (case checked_mul_word a b of Some v \<Rightarrow> if v \<le> mx then Some v else None | None \<Rightarrow> None)
    = up_to (unat mx) (unat a * unat b)" for a b mx :: "'a::len word"
proof (cases "unat a * unat b < 2 ^ LENGTH('a)")
  case True
  then have "unat (a * b) = unat a * unat b" by (simp add: unat_mult_lem)
  then show ?thesis using True by (simp add: checked_mul_word_def up_to_def word_le_nat_alt)
next
  case False
  have "unat mx < unat a * unat b" using less_le_trans [OF unsigned_less False [unfolded not_less]] .
  then show ?thesis using False by (simp add: checked_mul_word_def up_to_def)
qed

lemma checked_sub_up_to:
  "map_option unat (case checked_sub_word a b of Some v \<Rightarrow> if v \<le> mx then Some v else None | None \<Rightarrow> None)
    = (if unat b \<le> unat a then up_to (unat mx) (unat a - unat b) else None)" for a b mx :: "'a::len word"
  by (simp add: checked_sub_word_def up_to_def word_le_nat_alt unat_sub)

lemma checked_div_up_to:
  "map_option unat (case checked_div_word a b of Some v \<Rightarrow> if v \<le> mx then Some v else None | None \<Rightarrow> None)
    = (if unat b = 0 then None else up_to (unat mx) (unat a div unat b))" for a b mx :: "'a::len word"
  by (simp add: checked_div_word_def up_to_def word_le_nat_alt unat_div unat_eq_zero)

text \<open>A saturating operation is the checked one with the bound for a missing result.\<close>

lemma saturating_up_to:
  fixes mx :: "'a::len word"
  assumes "map_option unat (case x of Some v \<Rightarrow> if v \<le> mx then Some v else None | None \<Rightarrow> None) = up_to (unat mx) r"
  shows "unat (case x of Some v \<Rightarrow> if v \<le> mx then v else mx | None \<Rightarrow> mx) = min r (unat mx)"
  using assms by (auto simp: up_to_def split: option.splits if_splits)

lemma saturating_sub_up_to:
  "unat (case checked_sub_word a b of Some v \<Rightarrow> if v \<le> mx then v else mx | None \<Rightarrow> 0) = min (unat a - unat b) (unat mx)"
  for a b mx :: "'a::len word"
  by (auto simp: checked_sub_word_def word_le_nat_alt unat_sub min_def)

lemmas up_to_ops = checked_add_up_to checked_sub_up_to checked_mul_up_to checked_div_up_to
  saturating_up_to [OF checked_add_up_to] saturating_sub_up_to saturating_up_to [OF checked_mul_up_to]

section \<open>In cells\<close>

definition vu_bits :: "nat \<Rightarrow> 'a::len word \<Rightarrow> bool list" where
  "vu_bits n v = word_bits (vu_LEN_BITS n) (of_nat (vu_bytes v) :: byte) @ word_bits (8 * vu_bytes v) v"

lemma vu_LEN_BITS_values: "vu_LEN_BITS 3 = 2" "vu_LEN_BITS 7 = 3" "vu_LEN_BITS 15 = 4"
  by code_simp+

lemma word_bits_ucast: "n \<le> LENGTH('b) \<Longrightarrow> word_bits n (ucast (v :: 'a::len word) :: 'b::len word) = word_bits n v"
  by (rule nth_equalityI) (auto simp: bit_simps dest: bit_imp_le_length)

lemma appends_guarded:
  assumes "appends f xs []" "length xs = n" "n \<le> 1023"
  shows "appends (\<lambda>b. if \<not> has_capacity b n 0 then Err CellOverflow else f b) xs []"
proof (rule appendsI)
  fix bs :: "bool list" and rs :: "cell list" assume l: "length bs \<le> 1023" "length rs \<le> 4"
  have "has_capacity (mk_cb bs rs) n 0 \<longleftrightarrow> length bs + n \<le> 1023"
    using l assms(3) by (simp add: has_capacity_def mk_cb_def mk_bd_def MAX_BIT_LEN_def MAX_REF_COUNT_def)
  then show "(if \<not> has_capacity (mk_cb bs rs) n 0 then Err CellOverflow else f (mk_cb bs rs)) = cb_appended bs rs xs []"
    using appendsD [OF assms(1) l] assms(2) by (simp add: cb_appended_def MAX_BIT_LEN_def)
qed

lemma appends_small_uint: "n \<le> 8 \<Longrightarrow> appends (on_inner (\<lambda>d. store_small_uint d v n)) (word_bits n v) []"
  by (intro appends_inner) simp

lemma vu24_stores:
  assumes "vu_is_valid 3 v"
  shows "appends (vu24_store_into v) (vu_bits 3 v) []"
proof -
  have n: "vu_bytes v \<le> 3" "4 - leading_zeros v div 8 = vu_bytes v"
    using assms vu_bytes_le [of 3 v] le_vu_MAX [of 3 v] by (simp_all add: vu_is_valid_def vu_bytes_def)
  have "appends (\<lambda>b. ok (on_inner (\<lambda>d. store_small_uint d (of_nat (vu_bytes v)) 2) b)
      (on_inner (\<lambda>d. store_uint d (ucast v) (8 * vu_bytes v)))) (vu_bits 3 v) []"
    using appends_bind [OF appends_small_uint appends_store_uint, of 2 "8 * vu_bytes v" "of_nat (vu_bytes v)" "ucast v"] n(1)
    by (simp add: vu_bits_def vu_LEN_BITS_values word_bits_ucast)
  from appends_guarded [OF this, of "2 + 8 * vu_bytes v"] show ?thesis
    unfolding vu24_store_into_def [abs_def] Let_def n(2) vu_LEN_BITS_values mult.commute [of "vu_bytes v" 8]
    using n(1) by (simp add: vu_bits_def vu_LEN_BITS_values)
qed

lemma vu56_stores:
  assumes "vu_is_valid 7 v"
  shows "appends (vu56_store_into v) (vu_bits 7 v) []"
proof -
  have n: "vu_bytes v \<le> 7" "8 - leading_zeros v div 8 = vu_bytes v"
    using assms vu_bytes_le [of 7 v] le_vu_MAX [of 7 v] by (simp_all add: vu_is_valid_def vu_bytes_def)
  have "appends (\<lambda>b. ok (on_inner (\<lambda>d. store_small_uint d (of_nat (vu_bytes v)) 3) b)
      (on_inner (\<lambda>d. store_uint d v (8 * vu_bytes v)))) (vu_bits 7 v) []"
    using appends_bind [OF appends_small_uint appends_store_uint, of 3 "8 * vu_bytes v" "of_nat (vu_bytes v)" v] n(1)
    by (simp add: vu_bits_def vu_LEN_BITS_values)
  from appends_guarded [OF this, of "3 + 8 * vu_bytes v"] show ?thesis
    unfolding vu56_store_into_def [abs_def] Let_def n(2) vu_LEN_BITS_values mult.commute [of "vu_bytes v" 8]
    using n(1) by (simp add: vu_bits_def vu_LEN_BITS_values)
qed

lemma word_bits_split: "m \<le> n \<Longrightarrow> word_bits n v = word_bits (n - m) (drop_bit m v) @ word_bits m v" for v :: "'a::len word"
  by (rule nth_equalityI) (auto simp: nth_append bit_simps)

lemma store_u128_appends:
  assumes "n \<le> 128"
  shows "appends (store_u128_bits v n) (word_bits n v) []"
proof (cases "64 \<le> n")
  case True
  have "word_bits n v = word_bits (n - 64) (ucast (drop_bit 64 v) :: 64 word) @ word_bits 64 (ucast v :: 64 word)"
    using word_bits_split [OF True, of v] assms by (simp add: word_bits_ucast)
  then show ?thesis
    using appends_bind [OF appends_store_uint appends_store_uint, of "n - 64" 64 "ucast (drop_bit 64 v)" "ucast v"] True assms
    by (simp add: store_u128_bits_def [abs_def])
next
  case False
  then show ?thesis
    using appends_store_uint [of n "ucast v"] by (simp add: store_u128_bits_def [abs_def] word_bits_ucast)
qed

lemma tokens_stores:
  assumes "vu_is_valid 15 v"
  shows "appends (tokens_store_into v) (vu_bits 15 v) []"
proof -
  have n: "vu_bytes v \<le> 15" "16 - leading_zeros v div 8 = vu_bytes v"
    using assms vu_bytes_le [of 15 v] le_vu_MAX [of 15 v] by (simp_all add: vu_is_valid_def vu_bytes_def)
  have "appends (\<lambda>b. ok (on_inner (\<lambda>d. store_small_uint d (of_nat (vu_bytes v)) 4) b) (store_u128_bits v (8 * vu_bytes v)))
      (vu_bits 15 v) []"
    using appends_bind [OF appends_small_uint store_u128_appends, of 4 "8 * vu_bytes v" "of_nat (vu_bytes v)" v] n(1)
    by (simp add: vu_bits_def vu_LEN_BITS_values)
  from appends_guarded [OF this, of "4 + 8 * vu_bytes v"] show ?thesis
    unfolding tokens_store_into_def [abs_def] Let_def n(2) vu_LEN_BITS_values mult.commute [of "vu_bytes v" 8]
    using n(1) by (simp add: vu_bits_def vu_LEN_BITS_values)
qed

text \<open>A value that is too large is refused.\<close>

lemma vu_store_too_large:
  "\<not> vu_is_valid 3 u \<Longrightarrow> vu24_store_into u b = Err CellOverflow"
  "\<not> vu_is_valid 7 v \<Longrightarrow> vu56_store_into v b = Err CellOverflow"
  "\<not> vu_is_valid 15 w \<Longrightarrow> tokens_store_into w b = Err CellOverflow"
  using vu_bytes_le [of 3 u] le_vu_MAX [of 3 u] vu_bytes_le [of 7 v] le_vu_MAX [of 7 v] vu_bytes_le [of 15 w] le_vu_MAX [of 15 w]
  by (simp_all add: vu_is_valid_def vu_bytes_def vu24_store_into_def vu56_store_into_def tokens_store_into_def Let_def)

section \<open>Loaded from cells\<close>

lemma word_of_bits_word_bits_le:
  fixes v :: "'a::len word" and w :: "'b::len word"
  assumes "unat v < 2 ^ n" "n \<le> LENGTH('b)" "w = ucast v"
  shows "word_of_bits (word_bits n v) = w"
proof (rule bit_word_eqI)
  fix i assume "i < LENGTH('b)"
  moreover have "take_bit n v = v" using assms(1) by (simp add: take_bit_eq_self_unat)
  then have "bit v i \<longleftrightarrow> i < n \<and> bit v i" by (metis bit_take_bit_iff)
  ultimately show "bit (word_of_bits (word_bits n v) :: 'b word) i = bit w i"
    using assms(3) by (auto simp: bit_simps)
qed

lemma loads_small_uint:
  assumes "n \<le> 8" "unat v < 2 ^ n"
  shows "loads (\<lambda>s. load_small_uint s n) (word_bits n v) [] v"
  unfolding load_small_uint_def [abs_def]
  using assms word_of_bits_word_bits_le [of v n v]
  by (intro loads_with) (auto simp: get_small_uint_spec word_of_bits_def)

lemma loads_uint_of:
  fixes v :: "'a::len word"
  assumes "n \<le> 64" "unat v < 2 ^ n"
  shows "loads (\<lambda>s. load_uint s n) (word_bits n v) [] (ucast v)"
  unfolding load_uint_def [abs_def]
  using assms word_of_bits_word_bits_le [of v n "ucast v :: 64 word"]
  by (intro loads_with) (auto simp: get_uint_spec word_of_bits_def)

text \<open>Any number of bytes that the prefix can express is read, a shorter value than the prefix promises included.\<close>

definition vu_enc :: "nat \<Rightarrow> nat \<Rightarrow> 'a::len word \<Rightarrow> bool list" where
  "vu_enc mx n v = word_bits (vu_LEN_BITS mx) (of_nat n :: byte) @ word_bits (8 * n) v"

lemma vu_bits_enc: "vu_bits mx v = vu_enc mx (vu_bytes v) v"
  by (simp add: vu_bits_def vu_enc_def)

lemma loads_vu:
  assumes "n < 2 ^ vu_LEN_BITS mx" "vu_LEN_BITS mx \<le> 8" "loads (body n) (word_bits (8 * n) v) [] w"
  shows "loads (\<lambda>s. ok (load_small_uint s (vu_LEN_BITS mx)) (\<lambda>(bytes, s). body (unat bytes) s)) (vu_enc mx n v) [] w"
proof -
  have "n < 2 ^ 8" using assms(1) power_increasing [OF assms(2), of "2 :: nat"] by simp
  then have n: "unat (of_nat n :: byte) = n" by (simp add: unat_of_nat)
  have "loads (\<lambda>s. load_small_uint s (vu_LEN_BITS mx)) (word_bits (vu_LEN_BITS mx) (of_nat n :: byte)) [] (of_nat n :: byte)"
    using assms(1,2) n by (simp add: loads_small_uint)
  from loads_bind [OF this, of "\<lambda>bytes s. body (unat bytes) s"] show ?thesis
    unfolding vu_enc_def n using assms(3) by simp
qed

lemma ucast_ucast_back: "ucast (ucast v :: 64 word) = v" for v :: "32 word"
  by (rule bit_word_eqI) (simp add: bit_simps)

lemma vu24_loads:
  assumes "n \<le> 3" "unat v < 2 ^ (8 * n)"
  shows "loads vu24_load_from (vu_enc 3 n v) [] v"
  using loads_vu [of n 3 "\<lambda>n s. ok (load_uint s (n * 8)) (\<lambda>(v, s). Ok (ucast v, s))" v v]
    loads_map [OF loads_uint_of [of "8 * n" v], of "ucast :: _ \<Rightarrow> 32 word"] assms ucast_ucast_back [of v]
  by (simp add: vu24_load_from_def [abs_def] vu_LEN_BITS_values mult.commute)

lemma vu56_loads:
  assumes "n \<le> 7" "unat v < 2 ^ (8 * n)"
  shows "loads vu56_load_from (vu_enc 7 n v) [] v"
  using loads_vu [of n 7 "\<lambda>n s. load_uint s (n * 8)" v v] loads_uint_of [of "8 * n" v] assms
  by (simp add: vu56_load_from_def [abs_def] vu_LEN_BITS_values mult.commute)

lemma load_u128_loads:
  assumes "n \<le> 16" "unat v < 2 ^ (8 * n)"
  shows "loads (\<lambda>s. load_u128_bytes s n) (word_bits (8 * n) v) [] v"
proof (cases "n > 8")
  case True
  let ?h = "ucast (drop_bit 64 v) :: 64 word" and ?l = "ucast v :: 64 word"
  have "word_bits (8 * n) v = word_bits (8 * n - 64) ?h @ word_bits 64 ?l"
    using word_bits_split [of 64 "8 * n" v] True assms(1) by (simp add: word_bits_ucast)
  moreover have "unat v div 2 ^ 64 < 2 ^ (8 * n - 64)"
  proof -
    have "(2 :: nat) ^ (8 * n) = 2 ^ (8 * n - 64) * 2 ^ 64" using True by (simp only: flip: power_add) simp
    then show ?thesis using less_mult_imp_div_less [of "unat v" "2 ^ (8 * n - 64)" "2 ^ 64"] assms(2) by (simp only:)
  qed
  then have "unat ?h < 2 ^ (8 * n - 64)"
    unfolding unsigned_ucast_eq unsigned_drop_bit_eq take_bit_eq_mod
    by (intro le_less_trans [OF mod_less_eq_dividend]) (simp add: drop_bit_eq_div)
  moreover have "push_bit 64 (ucast ?h) OR ucast ?l = v"
    by (rule bit_word_eqI) (auto simp: bit_simps)
  ultimately show ?thesis
    using loads_fields2 [OF loads_uint [of "8 * n - 64" ?h] loads_uint [of 64 ?l],
      where h = "\<lambda>h l. push_bit 64 (ucast h) OR ucast l :: 128 word"] True assms(1) unsigned_less [of ?l, where 'a = nat]
    by (simp add: load_u128_bytes_def [abs_def] take_bit_eq_self_unat diff_mult_distrib2 mult.commute)
next
  case False
  have "ucast (ucast v :: 64 word) = v"
  proof -
    have "unat v < 2 ^ 64" using less_le_trans [OF assms(2) power_increasing [of "8 * n" 64 "2 :: nat"]] False by simp
    then have "bit v i \<longleftrightarrow> i < 64 \<and> bit v i" for i by (metis bit_take_bit_iff take_bit_eq_self_unat)
    then show ?thesis by (intro bit_word_eqI) (auto simp: bit_simps)
  qed
  then show ?thesis
    using False assms(2) loads_map [OF loads_uint_of [of "8 * n" v], of "ucast :: _ \<Rightarrow> 128 word"]
    by (simp add: load_u128_bytes_def [abs_def] mult.commute)
qed

lemma tokens_loads:
  assumes "n \<le> 15" "unat v < 2 ^ (8 * n)"
  shows "loads tokens_load_from (vu_enc 15 n v) [] v"
  using loads_vu [of n 15 "\<lambda>n s. load_u128_bytes s n" v v] load_u128_loads [of n v] assms
  by (simp add: tokens_load_from_def [abs_def] vu_LEN_BITS_values)

lemma vu_is_valid_bytes:
  assumes "8 dvd LENGTH('a)" "8 * n < LENGTH('a)" "vu_is_valid n (v :: 'a::len word)"
  shows "vu_bytes v \<le> n" "unat v < 2 ^ (8 * vu_bytes v)"
proof -
  show "vu_bytes v \<le> n" using assms by (simp add: vu_is_valid_def vu_bytes_le le_vu_MAX)
  then show "unat v < 2 ^ (8 * vu_bytes v)" using vu_bytes_le [of "vu_bytes v" v] assms(1,2) by simp
qed

lemma vu_bytes_exact:
  assumes "8 dvd LENGTH('a)"
  shows "unat (v :: 'a::len word) < 2 ^ (8 * k) \<longleftrightarrow> vu_bytes v \<le> k"
proof (cases "8 * k \<le> LENGTH('a)")
  case False
  then have "unat v < 2 ^ (8 * k)"
    using less_le_trans [OF unsigned_less [of v, where 'a = nat] power_increasing [of "LENGTH('a)" "8 * k"]] by simp
  then show ?thesis using False by (simp add: vu_bytes_def)
qed (simp add: vu_bytes_le assms)

interpretation vu24_codec: cell_codec "vu_is_valid 3" "vu_bits 3" "\<lambda>_. []" vu24_store_into vu24_load_from
  by unfold_locales (erule vu24_stores, unfold vu_bits_enc, intro vu24_loads, simp_all add: vu_is_valid_bytes vu_is_valid_bytes(2) [where n = 3])

interpretation vu56_codec: cell_codec "vu_is_valid 7" "vu_bits 7" "\<lambda>_. []" vu56_store_into vu56_load_from
  by unfold_locales (erule vu56_stores, unfold vu_bits_enc, intro vu56_loads, simp_all add: vu_is_valid_bytes vu_is_valid_bytes(2) [where n = 7])

interpretation tokens_codec: cell_codec "vu_is_valid 15" "vu_bits 15" "\<lambda>_. []" tokens_store_into tokens_load_from
  by unfold_locales (erule tokens_stores, unfold vu_bits_enc, intro tokens_loads, simp_all add: vu_is_valid_bytes vu_is_valid_bytes(2) [where n = 15])

section \<open>Small integers and split depths in cells\<close>

lemma le_su_MAX:
  assumes "n < 16"
  shows "su_is_valid n v \<longleftrightarrow> unat v < 2 ^ n"
proof -
  have "(su_MAX n :: 16 word) = of_nat (2 ^ n - 1)" by (simp add: su_MAX_def of_nat_diff)
  moreover have "(2 :: nat) ^ n - 1 < 2 ^ 16" using power_strict_increasing [OF assms, of "2 :: nat"] by linarith
  ultimately have "unat (su_MAX n) = 2 ^ n - 1" by (simp only: unat_of_nat mod_less len_num1 len_bit0) (simp add: mod_less)
  then show ?thesis by (simp add: su_is_valid_def word_le_nat_alt less_eq_iff_succ_less)
qed

lemma su_stores:
  assumes "n < 16" "su_is_valid n v"
  shows "appends (su_store_into n v) (word_bits n v) []"
  using appends_store_uint [of n "ucast v"] assms by (simp add: su_store_into_def [abs_def] word_bits_ucast)

lemma su_loads:
  assumes "n < 16" "su_is_valid n v"
  shows "loads (su_load_from n) (word_bits n v) [] v"
proof -
  have "ucast (ucast v :: 64 word) = v" by (rule bit_word_eqI) (simp add: bit_simps)
  then show ?thesis
    using loads_map [OF loads_uint_of [of n v], of "ucast :: _ \<Rightarrow> 16 word"] assms le_su_MAX
    by (simp add: su_load_from_def [abs_def])
qed

interpretation su9_codec: cell_codec "su_is_valid 9" "word_bits 9" "\<lambda>_. []" "su_store_into 9" "su_load_from 9"
  by unfold_locales (simp_all add: su_stores su_loads)

interpretation su12_codec: cell_codec "su_is_valid 12" "word_bits 12" "\<lambda>_. []" "su_store_into 12" "su_load_from 12"
  by unfold_locales (simp_all add: su_stores su_loads)

interpretation su15_codec: cell_codec "su_is_valid 15" "word_bits 15" "\<lambda>_. []" "su_store_into 15" "su_load_from 15"
  by unfold_locales (simp_all add: su_stores su_loads)

lemma sd_stores: "appends (sd_store_into v) (word_bits 5 v) []"
  using appends_small_uint [of 5 v] by (simp add: sd_store_into_def [abs_def] sd_BITS_def)

lemma sd_loads:
  assumes "0 < v" "v < 32"
  shows "loads sd_load_from (word_bits 5 v) [] v"
proof -
  have "loads (\<lambda>s. load_small_uint s 5) (word_bits 5 v) [] v"
    using assms(2) by (simp add: loads_small_uint word_less_nat_alt)
  from loads_bind [OF this, of "\<lambda>v s. ok (sd_new v) (\<lambda>v. Ok (v, s))" "[]" "[]" v] show ?thesis
    using assms(1) [unfolded word_gt_0] loads_Ok [of v] by (simp add: sd_load_from_def [abs_def] sd_BITS_def sd_new_def)
qed

interpretation split_depth_codec: cell_codec "\<lambda>v. 0 < v \<and> v < 32" "word_bits 5" "\<lambda>_. []" sd_store_into sd_load_from
  by unfold_locales (simp_all add: sd_stores sd_loads)

end
