(* ===== verification/Models_Properties.thy ===== *)
theory Models_Properties
  imports Shard_Path Numbers_Props
begin

text \<open>
  The properties of the shards, the block identifiers and the numbers.
\<close>

section \<open>Shards\<close>

lemma prefix_snoc_iff:
  assumes "length p < length xs"
  shows "prefix (p @ [b]) xs \<longleftrightarrow> prefix p xs \<and> xs ! length p = b"
proof -
  have t: "prefix q xs \<longleftrightarrow> take (length q) xs = q" for q by (metis append_eq_conv_conj prefix_def take_is_prefix)
  show ?thesis unfolding t using assms by (simp add: take_Suc_conv_app_nth)
qed

text \<open>
  C29. Splitting a valid shard is possible exactly when its prefix has fewer than 60 bits; the two halves are
  valid, are the left and the right child of the shard, are opposite to each other, do not intersect,
  merge to the shard again, and every account of the shard belongs to exactly one of them.
\<close>

lemma shard_split_partition:
  assumes "valid_prefix s"
  shows "if can_split s
    then \<exists>l r. shard_split s = Some (l, r) \<and> valid_prefix l \<and> valid_prefix r
      \<and> is_parent_of s l \<and> is_parent_of s r \<and> is_left_child l \<and> is_right_child r
      \<and> shard_opposite l = Some r \<and> shard_opposite r = Some l
      \<and> shard_merge l = Some s \<and> shard_merge r = Some s \<and> \<not> shard_intersects l r
      \<and> (\<forall>account. length account = 32 \<longrightarrow>
           (contains_account s account \<longleftrightarrow> contains_account l account \<noteq> contains_account r account)
           \<and> \<not> (contains_account l account \<and> contains_account r account))
    else shard_split s = None"
proof -
  obtain p where p: "has_path s p" by (rule valid_has_path [OF assms])
  note D = has_pathD [OF p]
  show ?thesis
  proof (cases "length p < 60")
    case True
    let ?l = "\<lparr>si_workchain = si_workchain s, si_prefix = path_word (p @ [False])\<rparr>"
    let ?r = "\<lparr>si_workchain = si_workchain s, si_prefix = path_word (p @ [True])\<rparr>"
    have c: "has_path ?l (p @ [False])" "has_path ?r (p @ [True])" using True by (simp_all add: has_path_def MAX_SPLIT_DEPTH_def)
    have m: "\<lparr>si_workchain = si_workchain s, si_prefix = path_word p\<rparr> = s" using D(2) by (cases s) simp
    have a: "(contains_account s account \<longleftrightarrow> contains_account ?l account \<noteq> contains_account ?r account)
        \<and> \<not> (contains_account ?l account \<and> contains_account ?r account)" if "length account = 32" for account
    proof -
      have b: "contains_account s account \<longleftrightarrow> prefix p (bytes_bits account)"
        "contains_account ?l account \<longleftrightarrow> prefix (p @ [False]) (bytes_bits account)"
        "contains_account ?r account \<longleftrightarrow> prefix (p @ [True]) (bytes_bits account)"
        using contains_account_path p c that by simp_all
      have n: "length p < length (bytes_bits account)" using True that by simp
      show ?thesis unfolding b using n prefix_snoc_iff [OF n] by auto
    qed
    have "shard_split s = Some (?l, ?r)" "valid_prefix ?l" "valid_prefix ?r" "is_parent_of s ?l" "is_parent_of s ?r"
      "is_left_child ?l" "is_right_child ?r" "shard_opposite ?l = Some ?r" "shard_opposite ?r = Some ?l"
      "shard_merge ?l = Some s" "shard_merge ?r = Some s" "\<not> shard_intersects ?l ?r"
      using True p c m has_path_valid c
      by (simp_all add: shard_split_path is_parent_of_path is_left_child_def is_right_child_path shard_opposite_path
        shard_merge_path shard_intersects_path)
    moreover have "can_split s" using True D(4) by (simp add: can_split_def MAX_SPLIT_DEPTH_def)
    ultimately show ?thesis using a by auto
  next
    case False
    then show ?thesis using D(4) shard_split_path [OF p] by (simp add: can_split_def MAX_SPLIT_DEPTH_def)
  qed
qed

definition demo_shard :: shard_ident where
  "demo_shard = \<lparr>si_workchain = 0, si_prefix = 0xA000000000000000\<rparr>"

lemma shard_split_partition_witness:
  "shard_split demo_shard = Some (\<lparr>si_workchain = 0, si_prefix = 0x9000000000000000\<rparr>, \<lparr>si_workchain = 0, si_prefix = 0xB000000000000000\<rparr>)
   \<and> shard_merge \<lparr>si_workchain = 0, si_prefix = 0x9000000000000000\<rparr> = Some demo_shard"
proof -
  have "valid_prefix demo_shard" "can_split demo_shard" by code_simp+
  moreover have "shard_split demo_shard = Some (\<lparr>si_workchain = 0, si_prefix = 0x9000000000000000\<rparr>, \<lparr>si_workchain = 0, si_prefix = 0xB000000000000000\<rparr>)"
    by code_simp
  ultimately show ?thesis using shard_split_partition [of demo_shard] by auto
qed

text \<open>
  Two valid shards intersect exactly when they are of the same workchain and some account belongs to both.
\<close>

lemma shard_intersects_accounts:
  assumes "valid_prefix s" "valid_prefix t"
  shows "shard_intersects s t \<longleftrightarrow> si_workchain s = si_workchain t
    \<and> (\<exists>account. length account = 32 \<and> contains_account s account \<and> contains_account t account)"
proof -
  obtain p q where pq: "has_path s p" "has_path t q" using valid_has_path assms by metis
  have n: "length p \<le> 60" "length q \<le> 60" using has_pathD(1) pq by simp_all
  have c: "contains_account s a \<longleftrightarrow> prefix p (bytes_bits a)" "contains_account t a \<longleftrightarrow> prefix q (bytes_bits a)"
    if "length a = 32" for a using contains_account_path pq that by simp_all
  have "\<exists>a. length a = 32 \<and> prefix r (bytes_bits a)" if "length r \<le> 60" for r
  proof -
    let ?x = "r @ replicate (256 - length r) False"
    have l: "length ?x = 256" using that by simp
    have "bytes_bits (pack_bits ?x) = ?x"
      using bits_range_pack_bits [of ?x] l by (simp add: bytes_bits_def div_ceil8_def)
    then show ?thesis using l by (intro exI [of _ "pack_bits ?x"]) (simp add: div_ceil8_def)
  qed
  then have "prefix p q \<or> prefix q p \<longleftrightarrow> (\<exists>a. length a = 32 \<and> prefix p (bytes_bits a) \<and> prefix q (bytes_bits a))"
    using n prefix_same_cases prefix_order.trans by metis
  then show ?thesis using shard_intersects_path [OF pq] c by auto
qed

lemma shard_intersects_accounts_witness:
  "shard_intersects demo_shard BASECHAIN \<and> (\<exists>account. length account = 32 \<and> contains_account demo_shard account)"
proof -
  have "valid_prefix demo_shard" "valid_prefix BASECHAIN" "shard_intersects demo_shard BASECHAIN" by code_simp+
  then show ?thesis using shard_intersects_accounts [of demo_shard BASECHAIN] by auto
qed

text \<open>
  The test whether a shard is an ancestor of another compares the wrong bits: it accepts a pair of valid
  shards that have no account in common.
\<close>

lemma is_ancestor_of_disjoint:
  "\<exists>s t. valid_prefix s \<and> valid_prefix t \<and> is_ancestor_of s t \<and> \<not> shard_intersects s t
     \<and> (\<nexists>account. length account = 32 \<and> contains_account s account \<and> contains_account t account)"
proof -
  let ?s = "\<lparr>si_workchain = 0, si_prefix = 0xE000000000000000\<rparr>" and ?t = "\<lparr>si_workchain = 0, si_prefix = 0x6000000000000000\<rparr>"
  have v: "valid_prefix ?s" "valid_prefix ?t" and a: "is_ancestor_of ?s ?t" "\<not> shard_intersects ?s ?t" by code_simp+
  obtain p q where pq: "has_path ?s p" "has_path ?t q" using valid_has_path v by metis
  have "\<not> (prefix p (bytes_bits a) \<and> prefix q (bytes_bits a))" for a
    using a(2) shard_intersects_path [OF pq] prefix_same_cases by auto
  then have "\<nexists>account. length account = 32 \<and> contains_account ?s account \<and> contains_account ?t account"
    using contains_account_path pq by auto
  with v a show ?thesis by blast
qed

section \<open>Block identifiers\<close>

text \<open>
  A block identifier with a valid shard goes into a cell and is read back from it, and a cell with any
  104 bits at the front, whose first byte is at most 60, is read as a valid shard.
\<close>

lemma block_id_roundtrip:
  assumes "bi_valid v"
  shows "reads_back sha bi_store_into bi_load_from v
    \<and> (\<forall>s n wc w r. wf_slice s \<and> \<not> is_virtual (sl_cell s) \<and> n \<le> 60
         \<and> slice_bits s = word_bits 8 (of_nat n :: byte) @ word_bits 32 (wc :: 32 word) @ word_bits 64 (w :: 64 word) @ r \<longrightarrow>
       (\<exists>shard s'. si_load_from s = Ok (shard, s') \<and> valid_prefix shard \<and> prefix_len shard = n
          \<and> si_workchain shard = wc \<and> slice_bits s' = r))"
proof (intro conjI allI impI)
  have "length (bi_bits v) \<le> 1023" using assms by (simp add: bi_bits_def bi_valid_def si_bits_def)
  then show "reads_back sha bi_store_into bi_load_from v"
    using assms by (intro block_id_codec.stored_reads_back [where D = 0]) simp_all
  fix s n and wc :: "32 word" and w :: "64 word" and r
  assume s: "wf_slice s \<and> \<not> is_virtual (sl_cell s) \<and> n \<le> 60
    \<and> slice_bits s = word_bits 8 (of_nat n :: byte) @ word_bits 32 wc @ word_bits 64 w @ r"
  let ?shard = "\<lparr>si_workchain = wc, si_prefix = path_word (take n (word_bits 64 w))\<rparr>"
  have "has_path ?shard (take n (word_bits 64 w))" using s by (simp add: has_path_def MAX_SPLIT_DEPTH_def)
  note p = has_path_valid [OF this] has_pathD(4) [OF this]
  obtain s' where "si_load_from s = Ok (?shard, s')" "slice_bits s' = r"
    using loadsE [OF si_loads [of n wc w], of s r "slice_refs s"] s by auto
  then show "\<exists>shard s'. si_load_from s = Ok (shard, s') \<and> valid_prefix shard \<and> prefix_len shard = n
      \<and> si_workchain shard = wc \<and> slice_bits s' = r"
    using p s by (intro exI [of _ ?shard] exI [of _ s']) simp
qed

definition demo_block :: block_id where
  "demo_block = \<lparr>bi_shard = demo_shard, bi_seqno = 7, bi_root_hash = replicate 32 0, bi_file_hash = replicate 32 0xff\<rparr>"

lemma block_id_roundtrip_witness: "reads_back (\<lambda>_. replicate 32 0) bi_store_into bi_load_from demo_block"
proof -
  have "valid_prefix demo_shard" by code_simp
  then have "bi_valid demo_block" by (simp add: bi_valid_def demo_block_def)
  then show ?thesis using block_id_roundtrip [of demo_block "\<lambda>_. replicate 32 0"] by blast
qed

section \<open>Numbers\<close>

text \<open>
  The arithmetic of the integers of variable length is that of the natural numbers up to the maximal
  value: the checked operations fail exactly when the result is not in the range, the saturating ones
  give the nearest bound.
\<close>

lemma var_uint_arithmetic:
  fixes a b :: "'a::len word"
  assumes "8 * n < LENGTH('a)"
  shows "map_option unat (vu_checked_add n a b) = up_to (2 ^ (8 * n) - 1) (unat a + unat b)
    \<and> map_option unat (vu_checked_sub n a b) = (if unat b \<le> unat a then up_to (2 ^ (8 * n) - 1) (unat a - unat b) else None)
    \<and> map_option unat (vu_checked_mul n a b) = up_to (2 ^ (8 * n) - 1) (unat a * unat b)
    \<and> map_option unat (vu_checked_div n a b) = (if unat b = 0 then None else up_to (2 ^ (8 * n) - 1) (unat a div unat b))
    \<and> unat (vu_saturating_add n a b) = min (unat a + unat b) (2 ^ (8 * n) - 1)
    \<and> unat (vu_saturating_sub n a b) = min (unat a - unat b) (2 ^ (8 * n) - 1)
    \<and> unat (vu_saturating_mul n a b) = min (unat a * unat b) (2 ^ (8 * n) - 1)"
  unfolding vu_checked_add_def vu_checked_sub_def vu_checked_mul_def vu_checked_div_def vu_saturating_add_def
    vu_saturating_sub_def vu_saturating_mul_def up_to_ops unat_vu_MAX [OF assms]
  by (intro conjI refl)

lemma var_uint_arithmetic_witness:
  "unat (vu_saturating_add 3 (0xffffff :: 32 word) 2) = 0xffffff \<and> vu_checked_add 3 (0xffffff :: 32 word) 2 = None"
  using var_uint_arithmetic [of 3 "0xffffff :: 32 word" 2] by (simp add: up_to_def)

text \<open>
  What the cell holds: a prefix of \<open>p\<close> bits with a number of bytes, then that many bytes of the value. The
  number is the least that the value fits in.
\<close>

definition fewest_bytes :: "('a::len word \<Rightarrow> cell_builder \<Rightarrow> cell_builder result) \<Rightarrow> nat \<Rightarrow> 'a word \<Rightarrow> bool" where
  "fewest_bytes store p v \<longleftrightarrow> (\<exists>n. appends (store v) (word_bits p (of_nat n :: byte) @ word_bits (8 * n) v) []
     \<and> (\<forall>k. unat v < 2 ^ (8 * k) \<longleftrightarrow> n \<le> k))"

lemma fewest_bytesI:
  assumes "appends (store v) (vu_bits mx v) []" "vu_LEN_BITS mx = p" "8 dvd LENGTH('a)"
  shows "fewest_bytes store p (v :: 'a::len word)"
  using assms vu_bytes_exact [OF assms(3), of v] by (auto simp: fewest_bytes_def vu_bits_def)

text \<open>
  C30. Integers of variable length in cells: what is in the range (24, 56 and 120 bits) is written as its
  number of bytes, in 2, 3 or 4 bits, and exactly that many bytes, the fewest that hold it; it is read back,
  and what is not in the range is refused with \<open>CellOverflow\<close>. A number of tokens that is written with
  more bytes than it needs is read all the same.
\<close>

lemma var_uint_roundtrip:
  "(if unat a < 2 ^ 24 then fewest_bytes vu24_store_into 2 a \<and> reads_back sha vu24_store_into vu24_load_from a
      else vu24_store_into a b = Err CellOverflow)
   \<and> (if unat c < 2 ^ 56 then fewest_bytes vu56_store_into 3 c \<and> reads_back sha vu56_store_into vu56_load_from c
      else vu56_store_into c b = Err CellOverflow)
   \<and> (if unat d < 2 ^ 120 then fewest_bytes tokens_store_into 4 d \<and> reads_back sha tokens_store_into tokens_load_from d
      else tokens_store_into d b = Err CellOverflow)
   \<and> (\<forall>n \<le> 15. unat d < 2 ^ (8 * n) \<longrightarrow> loads tokens_load_from (vu_enc 15 n d) [] d)"
proof -
  note valid = le_vu_MAX [of 3 a] le_vu_MAX [of 7 c] le_vu_MAX [of 15 d]
  have v: "unat a < 2 ^ 24 \<longleftrightarrow> vu_is_valid 3 a" "unat c < 2 ^ 56 \<longleftrightarrow> vu_is_valid 7 c" "unat d < 2 ^ 120 \<longleftrightarrow> vu_is_valid 15 d"
    using valid by (simp_all add: vu_is_valid_def)
  have "reads_back sha vu24_store_into vu24_load_from a" if "vu_is_valid 3 a"
    using that vu_is_valid_bytes(1) [of 3 a] by (intro vu24_codec.stored_reads_back [where D = 0]) (simp_all add: vu_bits_def vu_LEN_BITS_values)
  moreover have "reads_back sha vu56_store_into vu56_load_from c" if "vu_is_valid 7 c"
    using that vu_is_valid_bytes(1) [of 7 c] by (intro vu56_codec.stored_reads_back [where D = 0]) (simp_all add: vu_bits_def vu_LEN_BITS_values)
  moreover have "reads_back sha tokens_store_into tokens_load_from d" if "vu_is_valid 15 d"
    using that vu_is_valid_bytes(1) [of 15 d] by (intro tokens_codec.stored_reads_back [where D = 0]) (simp_all add: vu_bits_def vu_LEN_BITS_values)
  moreover have "vu_is_valid 3 a \<Longrightarrow> fewest_bytes vu24_store_into 2 a" "vu_is_valid 7 c \<Longrightarrow> fewest_bytes vu56_store_into 3 c"
    "vu_is_valid 15 d \<Longrightarrow> fewest_bytes tokens_store_into 4 d"
    by (rule fewest_bytesI, erule vu24_stores vu56_stores tokens_stores, simp_all add: vu_LEN_BITS_values)+
  ultimately show ?thesis unfolding v by (auto simp: vu_store_too_large tokens_loads)
qed

lemma var_uint_roundtrip_witness:
  "fewest_bytes tokens_store_into 4 1000000000
   \<and> reads_back (\<lambda>_. replicate 32 0) tokens_store_into tokens_load_from 1000000000
   \<and> loads tokens_load_from (vu_enc 15 9 (1000000000 :: 128 word)) [] 1000000000"
proof -
  note t = var_uint_roundtrip [of 0 "\<lambda>_. replicate 32 0" cb_new 0 1000000000, THEN conjunct2, THEN conjunct2]
  have "loads tokens_load_from (vu_enc 15 9 (1000000000 :: 128 word)) [] (1000000000 :: 128 word)"
    using t [THEN conjunct2] by (elim allE [of _ 9]) simp
  then show ?thesis using t [THEN conjunct1] by simp
qed

end
