(* ===== verification/Address.thy ===== *)
theory Address
  imports Numbers Shard_Ident
begin

text \<open>
  Message addresses (\<^verbatim>\<open>src/models/message/address.rs\<close>) and their cell forms: anycast prefixes, standard,
  variable-length and external addresses, the unions of them, optional addresses in messages
  (\<^verbatim>\<open>src/models/message/mod.rs\<close>), and standard addresses as keys of dictionaries. Signed workchains are the
  words of their two's complement.
\<close>

unbundle bit_operations_syntax

section \<open>Anycast\<close>

record anycast =
  ac_depth :: byte
  ac_rewrite_prefix :: "byte list"

definition ac_MAX_DEPTH :: nat where "ac_MAX_DEPTH = 30"
definition ac_BITS_MAX :: nat where "ac_BITS_MAX = sd_BITS + ac_MAX_DEPTH"

definition ac_from_slice :: "cell_slice \<Rightarrow> anycast result" where
  "ac_from_slice rewrite_prefix =
    ok (sd_from_bit_len (size_bits rewrite_prefix)) (\<lambda>depth.
    ok (get_raw rewrite_prefix 0 (replicate (div_ceil8 (sd_into_bit_len depth)) 0) (sd_into_bit_len depth)) (\<lambda>data.
    Ok \<lparr>ac_depth = depth, ac_rewrite_prefix = data\<rparr>))"

definition ac_bit_len :: "anycast \<Rightarrow> nat" where
  "ac_bit_len a = sd_BITS + sd_into_bit_len (ac_depth a)"

definition ac_store_into :: "anycast \<Rightarrow> cell_builder \<Rightarrow> cell_builder result" where
  "ac_store_into a b =
    (if \<not> has_capacity b (ac_bit_len a) 0 then Err CellOverflow
     else ok (sd_store_into (ac_depth a) b)
       (on_inner (\<lambda>d. store_raw d (ac_rewrite_prefix a) (sd_into_bit_len (ac_depth a)))))"

definition ac_load_from :: "cell_slice \<Rightarrow> (anycast \<times> cell_slice) result" where
  "ac_load_from s =
    ok (sd_load_from s) (\<lambda>(depth, s).
    if \<not> has_remaining s (sd_into_bit_len depth) 0 then Err CellUnderflow
    else ok (load_raw s (replicate (div_ceil8 (sd_into_bit_len depth)) 0) (sd_into_bit_len depth)) (\<lambda>(rewrite_prefix, s).
    Ok (\<lparr>ac_depth = depth, ac_rewrite_prefix = rewrite_prefix\<rparr>, s)))"

section \<open>Standard addresses\<close>

record std_addr =
  sa_anycast :: "anycast option"
  sa_workchain :: "8 word"
  sa_address :: hash_bytes

definition sa_BITS_WITHOUT_ANYCAST :: nat where "sa_BITS_WITHOUT_ANYCAST = 2 + 1 + 8 + 256"
definition sa_BITS_MAX :: nat where "sa_BITS_MAX = sa_BITS_WITHOUT_ANYCAST + ac_BITS_MAX"

definition sa_new :: "8 word \<Rightarrow> hash_bytes \<Rightarrow> std_addr" where
  "sa_new workchain address = \<lparr>sa_anycast = None, sa_workchain = workchain, sa_address = address\<rparr>"

definition sa_new_masterchain :: "hash_bytes \<Rightarrow> std_addr" where
  "sa_new_masterchain address = \<lparr>sa_anycast = None, sa_workchain = ucast (si_workchain MASTERCHAIN), sa_address = address\<rparr>"

definition sa_ZERO :: std_addr where "sa_ZERO = sa_new 0 (replicate 32 0)"

definition sa_is_masterchain :: "std_addr \<Rightarrow> bool" where
  "sa_is_masterchain a \<longleftrightarrow> scast (sa_workchain a) = si_workchain MASTERCHAIN"

definition sa_is_zero :: "std_addr \<Rightarrow> bool" where
  "sa_is_zero a \<longleftrightarrow> sa_workchain a = 0 \<and> sa_anycast a = None \<and> sa_address a = replicate 32 0"

definition sa_bit_len :: "std_addr \<Rightarrow> nat" where
  "sa_bit_len a = (case sa_anycast a of
     None \<Rightarrow> sa_BITS_WITHOUT_ANYCAST
   | Some anycast \<Rightarrow> u16_add sa_BITS_WITHOUT_ANYCAST (ac_bit_len anycast))"

definition sa_prefix :: "std_addr \<Rightarrow> 64 word" where
  "sa_prefix a = from_be_bytes (take 8 (sa_address a))"

definition sa_store_into :: "std_addr \<Rightarrow> cell_builder \<Rightarrow> cell_builder result" where
  "sa_store_into a b =
    (if \<not> has_capacity b (sa_bit_len a) 0 then Err CellOverflow
     else ok (on_inner (\<lambda>d. store_small_uint d 0b10 2) b) (\<lambda>b.
       ok (store_option ac_store_into (sa_anycast a) b) (\<lambda>b.
       ok (on_inner (\<lambda>d. store_u8 d (sa_workchain a)) b)
       (on_inner (\<lambda>d. store_u256 d (sa_address a))))))"

text \<open>The fields after the tag, which two loaders share.\<close>

definition sa_load_fields :: "cell_slice \<Rightarrow> (std_addr \<times> cell_slice) result" where
  "sa_load_fields s =
    ok (load_option ac_load_from s) (\<lambda>(anycast, s).
    ok (load_u8 s) (\<lambda>(workchain, s).
    ok (load_u256 s) (\<lambda>(address, s).
    Ok (\<lparr>sa_anycast = anycast, sa_workchain = workchain, sa_address = address\<rparr>, s))))"

definition sa_load_from :: "cell_slice \<Rightarrow> (std_addr \<times> cell_slice) result" where
  "sa_load_from s =
    ok (load_bit s) (\<lambda>(b0, s).
    if \<not> b0 then Err InvalidTag
    else ok (load_bit s) (\<lambda>(b1, s).
      if b1 then Err InvalidTag else sa_load_fields s))"

subsection \<open>As keys of dictionaries\<close>

definition sa_store_into_data :: "std_addr \<Rightarrow> cell_data_builder \<Rightarrow> cell_data_builder result" where
  "sa_store_into_data a d =
    (if sa_anycast a \<noteq> None \<or> \<not> has_capacity_bits d sa_BITS_WITHOUT_ANYCAST then Err InvalidData
     else ok (store_small_uint d 0b100 3) (\<lambda>d.
       ok (store_u8 d (sa_workchain a)) (\<lambda>d.
       store_u256 d (sa_address a))))"

definition sa_load_from_data :: "cell_data_builder \<Rightarrow> std_addr option" where
  "sa_load_from_data d =
    (let first_byte = bd_data d ! 0; second_byte = bd_data d ! 1; data = drop 2 (bd_data d)
     in if (first_byte XOR 0b10000000) AND 0b11100000 \<noteq> 0 then None
        else
          let workchain = push_bit 3 first_byte OR drop_bit 5 second_byte;
              hi = from_be_bytes (take 16 data) :: 128 word;
              lo = from_be_bytes (take 16 (drop 16 data)) :: 128 word
          in Some \<lparr>sa_anycast = None, sa_workchain = workchain,
               sa_address = to_be_bytes (drop_bit 5 hi OR push_bit 123 (ucast second_byte))
                 @ to_be_bytes (drop_bit 5 lo OR push_bit 123 hi)\<rparr>)"

section \<open>Variable-length addresses\<close>

record var_addr =
  va_anycast :: "anycast option"
  va_address_len :: "16 word"
  va_workchain :: "32 word"
  va_address :: "byte list"

definition va_BITS_MAX :: nat where
  "va_BITS_MAX = 2 + 1 + ac_BITS_MAX + 9 + 32 + unat (su_MAX 9)"

definition va_is_masterchain :: "var_addr \<Rightarrow> bool" where
  "va_is_masterchain a \<longleftrightarrow> va_workchain a = si_workchain MASTERCHAIN"

definition va_bit_len :: "var_addr \<Rightarrow> nat" where
  "va_bit_len a =
    (let bit_len = u16_add (2 + 1 + 9 + 32) (unat (va_address_len a))
     in case va_anycast a of None \<Rightarrow> bit_len | Some anycast \<Rightarrow> u16_add bit_len (ac_bit_len anycast))"

definition va_prefix :: "var_addr \<Rightarrow> 64 word" where
  "va_prefix a = (let total_bytes = min (length (va_address a)) 8
     in from_be_bytes (take total_bytes (va_address a) @ replicate (8 - total_bytes) 0))"

definition va_store_into :: "var_addr \<Rightarrow> cell_builder \<Rightarrow> cell_builder result" where
  "va_store_into a b =
    (if \<not> has_capacity b (va_bit_len a) 0 then Err CellOverflow
     else ok (on_inner (\<lambda>d. store_small_uint d 0b11 2) b) (\<lambda>b.
       ok (store_option ac_store_into (va_anycast a) b) (\<lambda>b.
       ok (su_store_into 9 (va_address_len a) b) (\<lambda>b.
       ok (on_inner (\<lambda>d. store_u32 d (va_workchain a)) b)
       (on_inner (\<lambda>d. store_raw d (va_address a) (unat (va_address_len a))))))))"

section \<open>Internal addresses\<close>

datatype int_addr = IntStd std_addr | IntVar var_addr

definition ia_BITS_MAX :: nat where "ia_BITS_MAX = 1 + va_BITS_MAX"

fun ia_workchain :: "int_addr \<Rightarrow> 32 word" where
  "ia_workchain (IntStd a) = scast (sa_workchain a)"
| "ia_workchain (IntVar a) = va_workchain a"

definition ia_is_masterchain :: "int_addr \<Rightarrow> bool" where
  "ia_is_masterchain a \<longleftrightarrow> ia_workchain a = si_workchain MASTERCHAIN"

fun ia_anycast :: "int_addr \<Rightarrow> anycast option" where
  "ia_anycast (IntStd a) = sa_anycast a"
| "ia_anycast (IntVar a) = va_anycast a"

fun ia_bit_len :: "int_addr \<Rightarrow> nat" where
  "ia_bit_len (IntStd a) = sa_bit_len a"
| "ia_bit_len (IntVar a) = va_bit_len a"

fun ia_prefix :: "int_addr \<Rightarrow> 64 word" where
  "ia_prefix (IntStd a) = sa_prefix a"
| "ia_prefix (IntVar a) = va_prefix a"

fun ia_store_into :: "int_addr \<Rightarrow> cell_builder \<Rightarrow> cell_builder result" where
  "ia_store_into (IntStd a) b = sa_store_into a b"
| "ia_store_into (IntVar a) b = va_store_into a b"

definition va_load_fields :: "cell_slice \<Rightarrow> (var_addr \<times> cell_slice) result" where
  "va_load_fields s =
    ok (load_option ac_load_from s) (\<lambda>(anycast, s).
    ok (su_load_from 9 s) (\<lambda>(address_len, s).
    ok (load_u32 s) (\<lambda>(workchain, s).
    if \<not> has_remaining s (unat address_len) 0 then Err CellUnderflow
    else ok (load_raw s (replicate (div_ceil8 (unat address_len)) 0) (unat address_len)) (\<lambda>(address, s).
    Ok (\<lparr>va_anycast = anycast, va_address_len = address_len, va_workchain = workchain, va_address = address\<rparr>, s)))))"

definition ia_load_from :: "cell_slice \<Rightarrow> (int_addr \<times> cell_slice) result" where
  "ia_load_from s =
    ok (load_bit s) (\<lambda>(b0, s).
    if \<not> b0 then Err InvalidTag
    else ok (load_bit s) (\<lambda>(b1, s).
      if b1 then ok (va_load_fields s) (\<lambda>(a, s). Ok (IntVar a, s))
      else ok (sa_load_fields s) (\<lambda>(a, s). Ok (IntStd a, s))))"

section \<open>External addresses\<close>

record ext_addr =
  ea_data_bit_len :: "16 word"
  ea_data :: "byte list"

definition ea_new :: "16 word \<Rightarrow> byte list \<Rightarrow> ext_addr option" where
  "ea_new data_bit_len data =
    (if su_is_valid 9 data_bit_len then
       let bits = unat data_bit_len;
           bytes = div_ceil8 bits;
           data = take bytes data @ replicate (bytes - length data) 0;
           rem = bits mod 8;
           data = (if rem > 0 then
                     let tag_mask = push_bit (7 - rem) 1;
                         data_mask = push_bit 1 (NOT (tag_mask - 1))
                     in data[bytes - 1 := data ! (bytes - 1) AND data_mask]
                   else data)
       in Some \<lparr>ea_data_bit_len = data_bit_len, ea_data = data\<rparr>
     else None)"

definition ea_bit_len :: "ext_addr \<Rightarrow> nat" where
  "ea_bit_len a = u16_add 9 (unat (ea_data_bit_len a))"

fun store_ext_addr :: "ext_addr option \<Rightarrow> cell_builder \<Rightarrow> cell_builder result" where
  "store_ext_addr None b = on_inner (\<lambda>d. store_zeros d 2) b"
| "store_ext_addr (Some a) b =
    (if \<not> has_capacity b (u16_add (2 + 9) (unat (ea_data_bit_len a))) 0 then Err CellOverflow
     else ok (on_inner store_bit_zero b) (\<lambda>b.
       ok (on_inner store_bit_one b) (\<lambda>b.
       ok (su_store_into 9 (ea_data_bit_len a) b)
       (on_inner (\<lambda>d. store_raw d (ea_data a) (unat (ea_data_bit_len a)))))))"

definition load_ext_addr :: "cell_slice \<Rightarrow> (ext_addr option \<times> cell_slice) result" where
  "load_ext_addr s =
    ok (load_bit s) (\<lambda>(b0, s).
    if b0 then Err InvalidTag
    else ok (load_bit s) (\<lambda>(b1, s).
      if \<not> b1 then Ok (None, s)
      else ok (su_load_from 9 s) (\<lambda>(data_bit_len, s).
        if \<not> has_remaining s (unat data_bit_len) 0 then Err CellUnderflow
        else ok (load_raw s (replicate (div_ceil8 (unat data_bit_len)) 0) (unat data_bit_len)) (\<lambda>(data, s).
        Ok (Some \<lparr>ea_data_bit_len = data_bit_len, ea_data = data\<rparr>, s)))))"

section \<open>Any address\<close>

datatype any_addr = AnyNone | AnyExt ext_addr | AnyStd std_addr | AnyVar var_addr

fun aa_bit_len :: "any_addr \<Rightarrow> nat" where
  "aa_bit_len AnyNone = 2"
| "aa_bit_len (AnyExt a) = ea_bit_len a"
| "aa_bit_len (AnyStd a) = sa_bit_len a"
| "aa_bit_len (AnyVar a) = va_bit_len a"

fun aa_store_into :: "any_addr \<Rightarrow> cell_builder \<Rightarrow> cell_builder result" where
  "aa_store_into AnyNone b = store_ext_addr None b"
| "aa_store_into (AnyStd a) b = sa_store_into a b"
| "aa_store_into (AnyVar a) b = va_store_into a b"
| "aa_store_into (AnyExt a) b = store_ext_addr (Some a) b"

definition aa_load_from :: "cell_slice \<Rightarrow> (any_addr \<times> cell_slice) result" where
  "aa_load_from s =
    ok (get_bit s 0) (\<lambda>b.
    if b then ok (ia_load_from s) (\<lambda>(a, s). Ok (case a of IntStd a \<Rightarrow> AnyStd a | IntVar a \<Rightarrow> AnyVar a, s))
    else ok (load_ext_addr s) (\<lambda>(a, s). Ok (case a of Some a \<Rightarrow> AnyExt a | None \<Rightarrow> AnyNone, s)))"

fun aa_from_opt_ext :: "ext_addr option \<Rightarrow> any_addr" where
  "aa_from_opt_ext (Some a) = AnyExt a"
| "aa_from_opt_ext None = AnyNone"

fun aa_from_opt_int :: "int_addr option \<Rightarrow> any_addr" where
  "aa_from_opt_int (Some (IntStd a)) = AnyStd a"
| "aa_from_opt_int (Some (IntVar a)) = AnyVar a"
| "aa_from_opt_int None = AnyNone"

section \<open>Optional addresses of messages\<close>

fun compute_ext_addr_bit_len :: "ext_addr option \<Rightarrow> nat" where
  "compute_ext_addr_bit_len (Some a) = u16_add 2 (ea_bit_len a)"
| "compute_ext_addr_bit_len None = 2"

fun compute_opt_int_addr_bit_len :: "int_addr option \<Rightarrow> nat" where
  "compute_opt_int_addr_bit_len (Some a) = ia_bit_len a"
| "compute_opt_int_addr_bit_len None = 2"

fun store_opt_int_addr :: "int_addr option \<Rightarrow> cell_builder \<Rightarrow> cell_builder result" where
  "store_opt_int_addr (Some a) b = ia_store_into a b"
| "store_opt_int_addr None b = on_inner (\<lambda>d. store_zeros d 2) b"

definition load_opt_int_addr :: "cell_slice \<Rightarrow> (int_addr option \<times> cell_slice) result" where
  "load_opt_int_addr s =
    ok (get_bit s 0) (\<lambda>b.
    if b then ok (ia_load_from s) (\<lambda>(a, s). Ok (Some a, s))
    else ok (load_small_uint s 2) (\<lambda>(tag, s).
      if tag = 0b00 then Ok (None, s) else Err InvalidTag))"

end
