(* ===== verification/Storage_Stat.thy ===== *)
theory Storage_Stat
  imports Cell_Tree_Props
begin

text \<open>
  \<^verbatim>\<open>src/cell/mod.rs\<close>, \<open>StorageStat\<close>: the number of distinct cells of a tree and of their bits, up to a
  limit. The set of visited hashes is a set; the counters are \<open>u64\<close>, which no tree can exhaust, so their
  additions are those of the natural numbers. The stack has its top first.
\<close>

section \<open>The traversal\<close>

record storage_stat =
  ss_visited :: "hash_bytes set"
  ss_stack :: "refs_iter list"
  ss_stats :: cell_tree_stats
  ss_limit :: nat

definition ss_with_limit :: "nat \<Rightarrow> storage_stat" where
  "ss_with_limit limit = \<lparr>ss_visited = {}, ss_stack = [], ss_stats = stats_ZERO, ss_limit = limit\<rparr>"

definition ss_unlimited :: storage_stat where
  "ss_unlimited = ss_with_limit u64_max"

definition ss_count_bits :: "nat \<Rightarrow> storage_stat \<Rightarrow> storage_stat" where
  "ss_count_bits n s = s\<lparr>ss_stats := (ss_stats s)\<lparr>st_bit_count := st_bit_count (ss_stats s) + n\<rparr>\<rparr>"

definition ss_count_cell :: "cell \<Rightarrow> storage_stat \<Rightarrow> storage_stat" where
  "ss_count_cell c s = s\<lparr>ss_stats :=
     \<lparr>st_bit_count = st_bit_count (ss_stats s) + cell_bit_len c, st_cell_count = st_cell_count (ss_stats s) + 1\<rparr>\<rparr>"

definition ss_visit :: "cell \<Rightarrow> storage_stat \<Rightarrow> storage_stat" where
  "ss_visit c s = s\<lparr>ss_visited := insert (repr_hash c) (ss_visited s)\<rparr>"

function reduce_stack :: "refs_iter list \<Rightarrow> storage_stat \<Rightarrow> bool \<times> storage_stat" where
  "reduce_stack [] s = (True, s\<lparr>ss_stack := []\<rparr>)"
| "reduce_stack (item # stack) s =
    (case ri_next item of
       (None, _) \<Rightarrow> reduce_stack stack s
     | (Some c, item') \<Rightarrow>
         if repr_hash c \<in> ss_visited s then reduce_stack (item' # stack) s
         else let s = ss_visit c s in
           if st_cell_count (ss_stats s) \<ge> ss_limit s then (False, s\<lparr>ss_stack := item' # stack\<rparr>)
           else let s = ss_count_cell c s; next = references c
             in if ri_max next > 0 then reduce_stack (next # item' # stack) s
                else reduce_stack (item' # stack) s)"
  by pat_completeness auto
termination
  by (relation "measure (\<lambda>(stack, s). sum_list (map frame_weight stack))")
     (auto simp: frame_weight_pos frame_weight_step)

declare reduce_stack.simps(2) [simp del]

definition ss_add_cell :: "cell \<Rightarrow> storage_stat \<Rightarrow> bool \<times> storage_stat" where
  "ss_add_cell c s =
    (if repr_hash c \<in> ss_visited s then (True, s)
     else reduce_stack [references c] (ss_count_cell c (ss_visit c s)))"

definition ss_add_slice :: "cell_slice \<Rightarrow> storage_stat \<Rightarrow> bool \<times> storage_stat" where
  "ss_add_slice sl s = reduce_stack [slice_references sl] (ss_count_bits (size_bits sl) s)"

definition ss_compute_for_slice :: "cell_slice \<Rightarrow> nat \<Rightarrow> cell_tree_stats option" where
  "ss_compute_for_slice sl limit =
    (let (b, s) = ss_add_slice sl (ss_with_limit limit) in if b then Some (ss_stats s) else None)"

definition ss_compute_for_cell :: "cell \<Rightarrow> nat \<Rightarrow> cell_tree_stats option" where
  "ss_compute_for_cell c limit =
    (let (b, s) = ss_add_cell c (ss_with_limit limit) in if b then Some (ss_stats s) else None)"

section \<open>What it counts\<close>

definition total_bits :: "cell set \<Rightarrow> nat" where
  "total_bits V = (\<Sum>c\<in>V. cell_bit_len c)"

definition pending :: "refs_iter list \<Rightarrow> cell set" where
  "pending stack = (\<Union>it\<in>set stack. set (iter_list it))"

lemma pending_Cons [simp]: "pending (it # stack) = set (iter_list it) \<union> pending stack"
  by (simp add: pending_def)

lemma pending_Nil [simp]: "pending [] = {}"
  by (simp add: pending_def)

text \<open>The cells visited so far: their children are visited or still to be visited.\<close>

definition counts :: "cell set \<Rightarrow> nat \<Rightarrow> cell set \<Rightarrow> refs_iter list \<Rightarrow> storage_stat \<Rightarrow> bool" where
  "counts U n V stack s \<longleftrightarrow> V \<subseteq> U \<and> pending stack \<subseteq> U \<and> ss_visited s = repr_hash ` V
     \<and> ss_stats s = \<lparr>st_bit_count = n + total_bits V, st_cell_count = card V\<rparr>
     \<and> (\<forall>c\<in>V. set (cell_children c) \<subseteq> V \<union> pending stack)"

lemma counts_skip:
  assumes "counts U n V (item # stack) s" "ri_next item = (None, i)"
  shows "counts U n V stack s"
  using assms by (simp add: counts_def iter_list.simps [of item])

lemma counts_seen:
  assumes "tree_set U" "counts U n V (item # stack) s" "ri_next item = (Some c, item')" "repr_hash c \<in> ss_visited s"
  shows "c \<in> V" "counts U n V (item' # stack) s"
proof -
  have i: "iter_list item = c # iter_list item'" by (subst iter_list.simps) (simp add: assms(3))
  have c: "c \<in> U" "V \<subseteq> U" using assms(2) i by (auto simp: counts_def)
  then show "c \<in> V" using assms(2,4) tree_setD(3) [OF assms(1)] by (fastforce simp: counts_def)
  then show "counts U n V (item' # stack) s" using assms(2) i by (auto simp: counts_def)
qed

lemma counts_new:
  assumes "tree_set U" "finite U" "counts U n V (item # stack) s" "ri_next item = (Some c, item')" "repr_hash c \<notin> ss_visited s"
  shows "c \<in> U - V" "counts U n (insert c V) (references c # item' # stack) (ss_count_cell c (ss_visit c s))"
proof -
  have i: "iter_list item = c # iter_list item'" by (subst iter_list.simps) (simp add: assms(4))
  have c: "c \<in> U" "c \<notin> V" "V \<subseteq> U" using assms(3,5) i by (auto simp: counts_def)
  then show "c \<in> U - V" by simp
  have r: "iter_list (references c) = cell_children c" "set (cell_children c) \<subseteq> U"
    using tree_setD [OF assms(1) c(1)] iter_references by auto
  have f: "finite V" using c(3) assms(2) by (rule finite_subset)
  show "counts U n (insert c V) (references c # item' # stack) (ss_count_cell c (ss_visit c s))"
    using assms(3) c i r f by (auto simp: counts_def ss_count_cell_def ss_visit_def total_bits_def)
qed

definition closed_cells :: "cell set \<Rightarrow> bool" where
  "closed_cells V \<longleftrightarrow> (\<forall>c\<in>V. set (cell_children c) \<subseteq> V)"

lemma references_leaf: "\<not> 0 < ri_max (references c) \<Longrightarrow> iter_list (references c) = []"
  by (subst iter_list.simps) (simp add: ri_next_def references_def)

lemma counts_leaf: "\<not> 0 < ri_max (references c) \<Longrightarrow> counts U n V (references c # stack) s \<Longrightarrow> counts U n V stack s"
  by (simp add: counts_def references_leaf)

text \<open>The outcome: all the needed cells, and what they lead to, are counted; or there are too many.\<close>

definition counted :: "cell set \<Rightarrow> nat \<Rightarrow> cell set \<Rightarrow> nat \<Rightarrow> nat \<Rightarrow> bool \<times> storage_stat \<Rightarrow> bool" where
  "counted U n need k limit r \<longleftrightarrow>
    (if fst r then \<exists>V. need \<subseteq> V \<and> V \<subseteq> U \<and> closed_cells V \<and> card V \<le> max k limit
        \<and> ss_stats (snd r) = \<lparr>st_bit_count = n + total_bits V, st_cell_count = card V\<rparr>
     else max k limit < card U)"

lemma counted_mono:
  "counted U n need k limit r \<Longrightarrow> need' \<subseteq> need \<Longrightarrow> max k limit = max k' limit \<Longrightarrow> counted U n need' k' limit r"
  unfolding counted_def by (cases "fst r") (simp_all, meson subset_trans)

lemma reduce_stack_counts:
  assumes "tree_set U" "finite U" "counts U n V stack s"
  shows "counted U n (V \<union> pending stack) (card V) (ss_limit s) (reduce_stack stack s)"
  using assms(3)
proof (induction stack s arbitrary: V rule: reduce_stack.induct)
  case (1 s)
  then have "V \<subseteq> U" "closed_cells V" "ss_stats s = \<lparr>st_bit_count = n + total_bits V, st_cell_count = card V\<rparr>"
    by (simp_all add: counts_def closed_cells_def)
  then show ?case by (auto simp: counted_def)
next
  case (2 item stack s)
  obtain x item' where n: "ri_next item = (x, item')" by (cases "ri_next item")
  show ?case
  proof (cases x)
    case None
    have i: "iter_list item = []" by (subst iter_list.simps) (simp add: n None)
    have e: "reduce_stack (item # stack) s = reduce_stack stack s" by (simp add: reduce_stack.simps n None)
    from 2(1) [OF n [symmetric] None counts_skip [OF 2(5) n [unfolded None]]]
    show ?thesis unfolding e by (simp add: i)
  next
    case (Some c)
    have i: "iter_list item = c # iter_list item'" by (subst iter_list.simps) (simp add: n Some)
    show ?thesis
    proof (cases "repr_hash c \<in> ss_visited s")
      case True
      have e: "reduce_stack (item # stack) s = reduce_stack (item' # stack) s"
        by (simp add: reduce_stack.simps(2) [of item] n Some True)
      note c = counts_seen [OF assms(1) 2(5) n [unfolded Some] True]
      from 2(2) [OF n [symmetric] Some True c(2)] show ?thesis
        unfolding e by (rule counted_mono) (use c(1) in \<open>auto simp: i\<close>)
    next
      case False
      note c = counts_new [OF assms(1,2) 2(5) n [unfolded Some] False]
      have v: "card V = st_cell_count (ss_stats s)" "finite V" "V \<subseteq> U"
        using 2(5) assms(2) finite_subset by (auto simp: counts_def)
      then have cv: "card (insert c V) = card V + 1" using c(1) by simp
      have cu: "card (insert c V) \<le> card U" using c(1) v assms(2) by (intro card_mono) auto
      show ?thesis
      proof (cases "ss_limit s \<le> card V")
        case True
        then have "reduce_stack (item # stack) s = (False, (ss_visit c s)\<lparr>ss_stack := item' # stack\<rparr>)"
          using v False by (simp add: reduce_stack.simps(2) [of item] n Some ss_visit_def)
        then show ?thesis using True cv cu by (simp add: counted_def)
      next
        case le: False
        let ?s = "ss_count_cell c (ss_visit c s)"
        let ?st = "if 0 < ri_max (references c) then references c # item' # stack else item' # stack"
        have l: "\<not> ss_limit (ss_visit c s) \<le> st_cell_count (ss_stats (ss_visit c s))" "ss_limit ?s = ss_limit s"
          using le v by (simp_all add: ss_visit_def ss_count_cell_def)
        have e: "reduce_stack (item # stack) s = reduce_stack ?st ?s"
          using l False by (simp add: reduce_stack.simps(2) [of item] n Some Let_def)
        have st: "counts U n (insert c V) ?st ?s" using c(2) counts_leaf by simp
        have "counted U n (insert c V \<union> pending ?st) (card (insert c V)) (ss_limit ?s) (reduce_stack ?st ?s)"
        proof (cases "0 < ri_max (references c)")
          case True
          then show ?thesis
            using 2(3) [OF n [symmetric] Some False refl l(1) refl refl True, of "insert c V"] st by simp
        next
          case f: False
          then show ?thesis
            using 2(4) [OF n [symmetric] Some False refl l(1) refl refl f, of "insert c V"] st by simp
        qed
        then show ?thesis
          unfolding e l(2) cv by (rule counted_mono) (use le in \<open>auto simp: i\<close>)
      qed
    qed
  qed
qed

lemma closed_subcells:
  assumes "wf_cell c" "c \<in> V" "closed_cells V"
  shows "set (subcells c) \<subseteq> V"
  using assms
proof (induction c rule: subcells.induct)
  case (1 n hs d rs ds)
  have "set (subcells r) \<subseteq> V" if "r \<in> set rs" for r
    using 1(1) [OF that] 1(2-4) that by (fastforce simp: closed_cells_def list_all_iff)
  then show ?case using 1(3) by auto
qed simp_all

lemma counted_result:
  assumes "counted U n need k limit r" "\<And>V. need \<subseteq> V \<Longrightarrow> V \<subseteq> U \<Longrightarrow> closed_cells V \<Longrightarrow> V = U"
  shows "(if fst r then Some (ss_stats (snd r)) else None)
    = (if card U \<le> max k limit then Some \<lparr>st_bit_count = n + total_bits U, st_cell_count = card U\<rparr> else None)"
proof (cases "fst r")
  case True
  then obtain V where "need \<subseteq> V" "V \<subseteq> U" "closed_cells V" "card V \<le> max k limit"
      "ss_stats (snd r) = \<lparr>st_bit_count = n + total_bits V, st_cell_count = card V\<rparr>"
    using assms(1) unfolding counted_def by auto
  moreover have "V = U" by (rule assms(2)) fact+
  ultimately show ?thesis using True by simp
next
  case False
  then have "max k limit < card U" using assms(1) unfolding counted_def by simp
  then show ?thesis using False by (metis not_le)
qed

lemma ss_limit_simps [simp]: "ss_limit (ss_count_cell c s) = ss_limit s" "ss_limit (ss_visit c s) = ss_limit s"
    "ss_limit (ss_count_bits n s) = ss_limit s" "ss_limit (ss_with_limit l) = l" "ss_visited (ss_with_limit l) = {}"
  by (simp_all add: ss_count_cell_def ss_visit_def ss_count_bits_def ss_with_limit_def)

lemma compute_for_cell_eq:
  assumes "wf_cell c" "inj_on repr_hash (set (subcells c))"
  shows "ss_compute_for_cell c limit =
    (if card (set (subcells c)) \<le> max 1 limit
     then Some \<lparr>st_bit_count = total_bits (set (subcells c)), st_cell_count = card (set (subcells c))\<rparr> else None)"
proof -
  let ?U = "set (subcells c)"
  let ?s = "ss_count_cell c (ss_visit c (ss_with_limit limit))"
  have t: "tree_set ?U" using assms by (rule tree_set_subcells)
  have i: "iter_list (references c) = cell_children c" using assms(1) by (rule iter_references)
  have p: "set (cell_children c) \<subseteq> ?U" using tree_setD(2) [OF t subcells_self] by blast
  have "counts ?U 0 {c} [references c] ?s"
    using p by (auto simp: counts_def i ss_count_cell_def ss_visit_def ss_with_limit_def stats_ZERO_def total_bits_def)
  from reduce_stack_counts [OF t finite_set this]
  have k: "counted ?U 0 (insert c (set (cell_children c))) 1 limit (reduce_stack [references c] ?s)" by (simp add: i)
  have "V = ?U" if "insert c (set (cell_children c)) \<subseteq> V" "V \<subseteq> ?U" "closed_cells V" for V
    using closed_subcells [OF assms(1) _ that(3)] that(1,2) by auto
  from counted_result [OF k this] show ?thesis
    by (simp add: ss_compute_for_cell_def ss_add_cell_def case_prod_beta Let_def)
qed

text \<open>A slice has the cells below its references; itself it counts with its bits only.\<close>

lemma iter_list_range:
  assumes "\<And>i. i < m \<Longrightarrow> reference c i \<noteq> None"
  shows "iter_list \<lparr>ri_cell = c, ri_max = m, ri_index = i\<rparr> = map (\<lambda>i. the (reference c i)) [i..<m]"
proof (induction "m - i" arbitrary: i)
  case (Suc n)
  then have "i < m" by simp
  then have "ri_next \<lparr>ri_cell = c, ri_max = m, ri_index = i\<rparr> = (Some (the (reference c i)), \<lparr>ri_cell = c, ri_max = m, ri_index = Suc i\<rparr>)"
    using assms [of i] by (auto simp: ri_next_def)
  then show ?case
    using Suc(1) [of "Suc i"] Suc(2) \<open>i < m\<close> by (subst iter_list.simps) (simp add: upt_conv_Cons)
qed (simp add: iter_list.simps ri_next_def)

lemma iter_slice_references:
  assumes "wf_slice s"
  shows "iter_list (slice_references s) = slice_refs s"
  unfolding slice_references_def slice_refs_def
  by (rule iter_list_range) (use wf_slice_reference [OF assms] in blast)

definition slice_subcells :: "cell_slice \<Rightarrow> cell set" where
  "slice_subcells s = (\<Union>r\<in>set (slice_refs s). set (subcells r))"

lemma compute_for_slice_eq:
  assumes "wf_slice s" "list_all wf_cell (slice_refs s)" "inj_on repr_hash (slice_subcells s)"
  shows "ss_compute_for_slice s limit =
    (if card (slice_subcells s) \<le> limit
     then Some \<lparr>st_bit_count = size_bits s + total_bits (slice_subcells s), st_cell_count = card (slice_subcells s)\<rparr> else None)"
proof -
  let ?U = "slice_subcells s"
  let ?s = "ss_count_bits (size_bits s) (ss_with_limit limit)"
  have w: "wf_cell r" if "r \<in> set (slice_refs s)" for r using assms(2) that by (simp add: list_all_iff)
  have t: "tree_set ?U"
    using assms(3) wf_subcells [OF w] by (auto simp: tree_set_def slice_subcells_def subcells_children)
  have f: "finite ?U" by (simp add: slice_subcells_def)
  have i: "iter_list (slice_references s) = slice_refs s" using assms(1) by (rule iter_slice_references)
  have p: "set (slice_refs s) \<subseteq> ?U" using subcells_self by (auto simp: slice_subcells_def)
  have "counts ?U (size_bits s) {} [slice_references s] ?s"
    using p by (simp add: counts_def i ss_count_bits_def ss_with_limit_def stats_ZERO_def total_bits_def)
  from reduce_stack_counts [OF t f this]
  have k: "counted ?U (size_bits s) (set (slice_refs s)) 0 limit (reduce_stack [slice_references s] ?s)" by (simp add: i)
  have "V = ?U" if "set (slice_refs s) \<subseteq> V" "V \<subseteq> ?U" "closed_cells V" for V
    using closed_subcells [OF w _ that(3)] that(1,2) unfolding slice_subcells_def by blast
  from counted_result [OF k this] show ?thesis
    by (simp add: ss_compute_for_slice_def ss_add_slice_def case_prod_beta Let_def)
qed

end
