(* ===== verification/Account.thy ===== *)
theory Account
  imports Address Lazy Storage_Stat
begin

text \<open>
  Balances (\<^verbatim>\<open>src/models/currency.rs\<close>) and accounts (\<^verbatim>\<open>src/models/account/mod.rs\<close>). The derived \<open>Store\<close>
  and \<open>Load\<close> implementations store and load the fields in the order of their declaration. Not modelled: the
  arithmetic of extra currencies, which rests on \<open>VarUint248\<close>.
\<close>

unbundle bit_operations_syntax

section \<open>Currencies\<close>

record currency_collection =
  cc_tokens :: "128 word"
  cc_other :: typed_dict

definition cc_ZERO :: currency_collection where
  "cc_ZERO = \<lparr>cc_tokens = 0, cc_other = td_new\<rparr>"

definition cc_new :: "128 word \<Rightarrow> currency_collection" where
  "cc_new tokens = \<lparr>cc_tokens = tokens, cc_other = td_new\<rparr>"

definition cc_is_zero :: "currency_collection \<Rightarrow> bool" where
  "cc_is_zero c \<longleftrightarrow> vu_is_zero (cc_tokens c) \<and> td_is_empty (cc_other c)"

definition cc_bit_len :: "currency_collection \<Rightarrow> nat" where
  "cc_bit_len c = u16_add (vu_unwrap_bit_len 15 (cc_tokens c)) 1"

definition cc_try_add_assign_tokens :: "currency_collection \<Rightarrow> 128 word \<Rightarrow> currency_collection result" where
  "cc_try_add_assign_tokens c other =
    (case vu_checked_add 15 (cc_tokens c) other of Some v \<Rightarrow> Ok (c\<lparr>cc_tokens := v\<rparr>) | None \<Rightarrow> Err IntOverflow)"

definition cc_try_sub_assign_tokens :: "currency_collection \<Rightarrow> 128 word \<Rightarrow> currency_collection result" where
  "cc_try_sub_assign_tokens c other =
    (case vu_checked_sub 15 (cc_tokens c) other of Some v \<Rightarrow> Ok (c\<lparr>cc_tokens := v\<rparr>) | None \<Rightarrow> Err IntOverflow)"

definition cc_exact_size :: "currency_collection \<Rightarrow> size" where
  "cc_exact_size c = size_add (vu_exact_size 15 (cc_tokens c)) (td_exact_size (cc_other c))"

definition cc_store_into :: "currency_collection \<Rightarrow> cell_builder \<Rightarrow> cell_builder result" where
  "cc_store_into c b = ok (tokens_store_into (cc_tokens c) b) (td_store_into (cc_other c))"

definition cc_load_from :: "cell_slice \<Rightarrow> (currency_collection \<times> cell_slice) result" where
  "cc_load_from s = ok (tokens_load_from s) (\<lambda>(tokens, s). ok (td_load_from s) (\<lambda>(other, s).
    Ok (\<lparr>cc_tokens = tokens, cc_other = other\<rparr>, s)))"

section \<open>State of an account\<close>

record special_flags =
  sf_tick :: bool
  sf_tock :: bool

definition sf_BITS :: nat where "sf_BITS = 2"

definition sf_store_into :: "special_flags \<Rightarrow> cell_builder \<Rightarrow> cell_builder result" where
  "sf_store_into f b = on_inner (\<lambda>d. store_small_uint d (push_bit 1 (of_bool (sf_tick f)) OR of_bool (sf_tock f)) 2) b"

definition sf_load_from :: "cell_slice \<Rightarrow> (special_flags \<times> cell_slice) result" where
  "sf_load_from s = ok (load_small_uint s 2) (\<lambda>(data, s).
    Ok (\<lparr>sf_tick = data AND 0b10 \<noteq> 0, sf_tock = data AND 0b01 \<noteq> 0\<rparr>, s))"

record simple_lib =
  lib_public :: bool
  lib_root :: cell

definition lib_store_into :: "simple_lib \<Rightarrow> cell_builder \<Rightarrow> cell_builder result" where
  "lib_store_into l b = ok (on_inner (\<lambda>d. store_bit d (lib_public l)) b) (\<lambda>b. store_reference b (lib_root l))"

definition lib_load_from :: "cell_slice \<Rightarrow> (simple_lib \<times> cell_slice) result" where
  "lib_load_from s = ok (load_bit s) (\<lambda>(public, s). ok (load_reference_cloned s) (\<lambda>(root, s).
    Ok (\<lparr>lib_public = public, lib_root = root\<rparr>, s)))"

record state_init =
  init_split_depth :: "byte option"
  init_special :: "special_flags option"
  init_code :: "cell option"
  init_data :: "cell option"
  init_libraries :: typed_dict

definition init_bit_len :: "state_init \<Rightarrow> nat" where
  "init_bit_len i =
    u16_add (u16_add (1 + of_bool (init_split_depth i \<noteq> None) * sd_BITS) (1 + of_bool (init_special i \<noteq> None) * sf_BITS)) 3"

definition init_reference_count :: "state_init \<Rightarrow> nat" where
  "init_reference_count i = u8_add (u8_add (of_bool (init_code i \<noteq> None)) (of_bool (init_data i \<noteq> None)))
    (of_bool (\<not> td_is_empty (init_libraries i)))"

definition init_exact_size :: "state_init \<Rightarrow> size" where
  "init_exact_size i = \<lparr>sz_bits = init_bit_len i, sz_refs = init_reference_count i\<rparr>"

definition init_store_into :: "state_init \<Rightarrow> cell_builder \<Rightarrow> cell_builder result" where
  "init_store_into i b =
    ok (store_option sd_store_into (init_split_depth i) b) (\<lambda>b.
    ok (store_option sf_store_into (init_special i) b) (\<lambda>b.
    ok (store_option (\<lambda>c b. store_reference b c) (init_code i) b) (\<lambda>b.
    ok (store_option (\<lambda>c b. store_reference b c) (init_data i) b)
    (td_store_into (init_libraries i)))))"

definition init_load_from :: "cell_slice \<Rightarrow> (state_init \<times> cell_slice) result" where
  "init_load_from s =
    ok (load_option sd_load_from s) (\<lambda>(split_depth, s).
    ok (load_option sf_load_from s) (\<lambda>(special, s).
    ok (load_option load_reference_cloned s) (\<lambda>(code, s).
    ok (load_option load_reference_cloned s) (\<lambda>(data, s).
    ok (td_load_from s) (\<lambda>(libraries, s).
    Ok (\<lparr>init_split_depth = split_depth, init_special = special, init_code = code, init_data = data,
      init_libraries = libraries\<rparr>, s))))))"

datatype account_status = Status_Uninit | Status_Frozen | Status_Active | Status_NotExists

fun status_to_byte :: "account_status \<Rightarrow> byte" where
  "status_to_byte Status_Uninit = 0b00"
| "status_to_byte Status_Frozen = 0b01"
| "status_to_byte Status_Active = 0b10"
| "status_to_byte Status_NotExists = 0b11"

definition status_store_into :: "account_status \<Rightarrow> cell_builder \<Rightarrow> cell_builder result" where
  "status_store_into s b = on_inner (\<lambda>d. store_small_uint d (status_to_byte s) 2) b"

definition status_load_from :: "cell_slice \<Rightarrow> (account_status \<times> cell_slice) result" where
  "status_load_from s = ok (load_small_uint s 2) (\<lambda>(ty, s).
    Ok (if ty = 0b00 then Status_Uninit else if ty = 0b01 then Status_Frozen
        else if ty = 0b10 then Status_Active else Status_NotExists, s))"

datatype account_state = Uninit | Active state_init | Frozen hash_bytes

fun acc_status :: "account_state \<Rightarrow> account_status" where
  "acc_status Uninit = Status_Uninit"
| "acc_status (Active _) = Status_Active"
| "acc_status (Frozen _) = Status_Frozen"

fun acc_state_store_into :: "account_state \<Rightarrow> cell_builder \<Rightarrow> cell_builder result" where
  "acc_state_store_into Uninit b = on_inner (\<lambda>d. store_small_uint d 0b00 2) b"
| "acc_state_store_into (Active state) b = ok (on_inner store_bit_one b) (init_store_into state)"
| "acc_state_store_into (Frozen hash) b =
     ok (on_inner (\<lambda>d. store_small_uint d 0b01 2) b) (on_inner (\<lambda>d. store_u256 d hash))"

definition acc_state_load_from :: "cell_slice \<Rightarrow> (account_state \<times> cell_slice) result" where
  "acc_state_load_from s =
    ok (load_bit s) (\<lambda>(b0, s).
    if b0 then ok (init_load_from s) (\<lambda>(state, s). Ok (Active state, s))
    else ok (load_bit s) (\<lambda>(b1, s).
      if b1 then ok (load_u256 s) (\<lambda>(hash, s). Ok (Frozen hash, s)) else Ok (Uninit, s)))"

section \<open>Storage\<close>

record storage_used =
  used_cells :: "64 word"
  used_bits :: "64 word"

definition used_ZERO :: storage_used where "used_ZERO = \<lparr>used_cells = 0, used_bits = 0\<rparr>"

definition used_store_into :: "storage_used \<Rightarrow> cell_builder \<Rightarrow> cell_builder result" where
  "used_store_into u b = ok (vu56_store_into (used_cells u) b) (vu56_store_into (used_bits u))"

definition used_load_from :: "cell_slice \<Rightarrow> (storage_used \<times> cell_slice) result" where
  "used_load_from s = ok (vu56_load_from s) (\<lambda>(cells, s). ok (vu56_load_from s) (\<lambda>(bits, s).
    Ok (\<lparr>used_cells = cells, used_bits = bits\<rparr>, s)))"

datatype storage_extra = StorageExtra_None | DictHash hash_bytes

fun extra_store_into :: "storage_extra \<Rightarrow> cell_builder \<Rightarrow> cell_builder result" where
  "extra_store_into StorageExtra_None b = on_inner (\<lambda>d. store_zeros d 3) b"
| "extra_store_into (DictHash dict_hash) b =
     ok (on_inner (\<lambda>d. store_small_uint d 1 3) b) (on_inner (\<lambda>d. store_u256 d dict_hash))"

definition extra_load_from :: "cell_slice \<Rightarrow> (storage_extra \<times> cell_slice) result" where
  "extra_load_from s = ok (load_small_uint s 3) (\<lambda>(tag, s).
    if tag = 0b000 then Ok (StorageExtra_None, s)
    else if tag = 0b001 then ok (load_u256 s) (\<lambda>(h, s). Ok (DictHash h, s))
    else Err InvalidTag)"

record storage_info =
  info_used :: storage_used
  info_storage_extra :: storage_extra
  info_last_paid :: "32 word"
  info_due_payment :: "128 word option"

definition info_store_into :: "storage_info \<Rightarrow> cell_builder \<Rightarrow> cell_builder result" where
  "info_store_into i b =
    ok (used_store_into (info_used i) b) (\<lambda>b.
    ok (extra_store_into (info_storage_extra i) b) (\<lambda>b.
    ok (on_inner (\<lambda>d. store_u32 d (info_last_paid i)) b)
    (store_option tokens_store_into (info_due_payment i))))"

definition info_load_from :: "cell_slice \<Rightarrow> (storage_info \<times> cell_slice) result" where
  "info_load_from s =
    ok (used_load_from s) (\<lambda>(used, s).
    ok (extra_load_from s) (\<lambda>(extra, s).
    ok (load_u32 s) (\<lambda>(last_paid, s).
    ok (load_option tokens_load_from s) (\<lambda>(due_payment, s).
    Ok (\<lparr>info_used = used, info_storage_extra = extra, info_last_paid = last_paid, info_due_payment = due_payment\<rparr>, s)))))"

section \<open>Accounts\<close>

record account =
  acc_address :: int_addr
  acc_storage_stat :: storage_info
  acc_last_trans_lt :: "64 word"
  acc_balance :: currency_collection
  acc_state :: account_state

definition acc_store_into :: "account \<Rightarrow> cell_builder \<Rightarrow> cell_builder result" where
  "acc_store_into a b =
    ok (ia_store_into (acc_address a) b) (\<lambda>b.
    ok (info_store_into (acc_storage_stat a) b) (\<lambda>b.
    ok (on_inner (\<lambda>d. store_u64 d (acc_last_trans_lt a)) b) (\<lambda>b.
    ok (cc_store_into (acc_balance a) b)
    (acc_state_store_into (acc_state a)))))"

definition acc_load_from :: "cell_slice \<Rightarrow> (account \<times> cell_slice) result" where
  "acc_load_from s =
    ok (ia_load_from s) (\<lambda>(address, s).
    ok (info_load_from s) (\<lambda>(storage_stat, s).
    ok (load_u64 s) (\<lambda>(last_trans_lt, s).
    ok (cc_load_from s) (\<lambda>(balance, s).
    ok (acc_state_load_from s) (\<lambda>(state, s).
    Ok (\<lparr>acc_address = address, acc_storage_stat = storage_stat, acc_last_trans_lt = last_trans_lt,
      acc_balance = balance, acc_state = state\<rparr>, s))))))"

text \<open>The wrapper \<open>OptionalAccount\<close> of an optional account, and the entries of the accounts of a shard.\<close>

definition oa_store_into :: "account option \<Rightarrow> cell_builder \<Rightarrow> cell_builder result" where
  "oa_store_into a b = store_option acc_store_into a b"

definition oa_load_from :: "cell_slice \<Rightarrow> (account option \<times> cell_slice) result" where
  "oa_load_from s = load_option acc_load_from s"

definition oa_status :: "account option \<Rightarrow> account_status" where
  "oa_status a = (case a of None \<Rightarrow> Status_NotExists | Some a \<Rightarrow> acc_status (acc_state a))"

definition oa_last_trans_lt :: "account option \<Rightarrow> 64 word" where
  "oa_last_trans_lt a = (case a of None \<Rightarrow> 0 | Some a \<Rightarrow> acc_last_trans_lt a)"

definition oa_balance :: "account option \<Rightarrow> currency_collection" where
  "oa_balance a = (case a of None \<Rightarrow> cc_ZERO | Some a \<Rightarrow> acc_balance a)"

definition oa_state :: "account option \<Rightarrow> account_state option" where
  "oa_state a = (case a of None \<Rightarrow> None | Some a \<Rightarrow> Some (acc_state a))"

record shard_account =
  sh_account :: lazy
  sh_last_trans_hash :: hash_bytes
  sh_last_trans_lt :: "64 word"

definition sh_store_into :: "shard_account \<Rightarrow> cell_builder \<Rightarrow> cell_builder result" where
  "sh_store_into a b =
    ok (lz_store_into (sh_account a) b) (\<lambda>b.
    ok (on_inner (\<lambda>d. store_u256 d (sh_last_trans_hash a)) b)
    (on_inner (\<lambda>d. store_u64 d (sh_last_trans_lt a))))"

definition sh_load_from :: "cell_slice \<Rightarrow> (shard_account \<times> cell_slice) result" where
  "sh_load_from s =
    ok (lz_load_from False s) (\<lambda>(account, s).
    ok (load_u256 s) (\<lambda>(last_trans_hash, s).
    ok (load_u64 s) (\<lambda>(last_trans_lt, s).
    Ok (\<lparr>sh_account = account, sh_last_trans_hash = last_trans_hash, sh_last_trans_lt = last_trans_lt\<rparr>, s))))"

definition sh_load_account :: "shard_account \<Rightarrow> account option result" where
  "sh_load_account a = ok (lz_load oa_load_from (sh_account a)) Ok"

text \<open>The storage that an account uses, with the check that the code makes of the two counters.\<close>

definition used_compute :: "sha256 \<Rightarrow> account \<Rightarrow> nat \<Rightarrow> storage_used result" where
  "used_compute sha account cell_limit =
    ok (ok (on_inner (\<lambda>d. store_u64 d (acc_last_trans_lt account)) cb_new) (\<lambda>b.
        ok (cc_store_into (acc_balance account) b) (\<lambda>b.
        ok (acc_state_store_into (acc_state account) b) (build_ext sha)))) (\<lambda>c.
    case ss_compute_for_cell c cell_limit of
      None \<Rightarrow> Err Cancelled
    | Some res \<Rightarrow>
        let res = \<lparr>used_cells = of_nat (st_cell_count res), used_bits = of_nat (st_bit_count res)\<rparr>
        in if vu_is_valid 7 (used_cells res) \<or> \<not> vu_is_valid 7 (used_bits res) then Err IntOverflow else Ok res)"

end
