(* ===== verification/Message.thy ===== *)
theory Message
  imports Account
begin

text \<open>
  Messages (\<^verbatim>\<open>src/models/message/mod.rs\<close>). First the headers: flags, internal, external incoming and
  external outgoing headers, and their unions. The relaxed headers differ from the others in their source
  address, which is optional, so an internal and an outgoing header is a record over the type of its source.
  Then the layout of the parts of a message and \<open>BaseMessage\<close>. The trait implementations of the header and
  of the body are arguments; \<open>Message\<close>, \<open>OwnedMessage\<close>, \<open>RelaxedMessage\<close> and \<open>OwnedRelaxedMessage\<close> are the
  instances at the end. Cells are built in the empty context. Not modelled: serde and arbitrary.
\<close>

unbundle bit_operations_syntax

section \<open>Flags of messages\<close>

definition MF_ALL :: byte where "MF_ALL = 0b01 OR 0b10"

definition mf_from_bits :: "byte \<Rightarrow> byte option" where
  "mf_from_bits v = (if v AND NOT MF_ALL = 0 then Some v else None)"

definition mf_from_stored :: "128 word \<Rightarrow> byte option" where
  "mf_from_stored tokens = (if tokens \<le> 255 then mf_from_bits (ucast tokens) else None)"

definition mf_as_stored :: "byte \<Rightarrow> 128 word" where
  "mf_as_stored f = ucast f"

definition mf_is_new_bounce_format :: "byte \<Rightarrow> bool" where
  "mf_is_new_bounce_format f \<longleftrightarrow> f AND 0b01 = 0b01"

definition mf_is_full_body_in_bounced :: "byte \<Rightarrow> bool" where
  "mf_is_full_body_in_bounced f \<longleftrightarrow> f AND 0b10 = 0b10"

definition mf_bit_len :: "byte \<Rightarrow> nat" where
  "mf_bit_len f = u16_add (vu_LEN_BITS 15) (8 * of_bool (f \<noteq> 0))"

definition mf_store_into :: "byte \<Rightarrow> cell_builder \<Rightarrow> cell_builder result" where
  "mf_store_into f b = tokens_store_into (mf_as_stored f) b"

definition mf_load_from :: "cell_slice \<Rightarrow> (byte \<times> cell_slice) result" where
  "mf_load_from s = ok (tokens_load_from s) (\<lambda>(v, s).
    case mf_from_stored v of Some f \<Rightarrow> Ok (f, s) | None \<Rightarrow> Err InvalidData)"

section \<open>Internal messages\<close>

record 'src int_msg_info =
  im_ihr_disabled :: bool
  im_bounce :: bool
  im_bounced :: bool
  im_src :: 'src
  im_dst :: int_addr
  im_value :: currency_collection
  im_extra_flags :: byte
  im_fwd_fee :: "128 word"
  im_created_lt :: "64 word"
  im_created_at :: "32 word"

definition im_bit_len_with :: "('src \<Rightarrow> nat) \<Rightarrow> 'src int_msg_info \<Rightarrow> nat" where
  "im_bit_len_with src_bit_len i =
    u16_add (u16_add (u16_add (u16_add (u16_add (u16_add (u16_add 3 (src_bit_len (im_src i))) (ia_bit_len (im_dst i)))
      (cc_bit_len (im_value i))) (mf_bit_len (im_extra_flags i))) (vu_unwrap_bit_len 15 (im_fwd_fee i))) 64) 32"

definition im_flags :: "'src int_msg_info \<Rightarrow> byte" where
  "im_flags i = push_bit 2 (of_bool (im_ihr_disabled i)) OR push_bit 1 (of_bool (im_bounce i)) OR of_bool (im_bounced i)"

definition im_store_with ::
  "('src \<Rightarrow> cell_builder \<Rightarrow> cell_builder result) \<Rightarrow> 'src int_msg_info \<Rightarrow> cell_builder \<Rightarrow> cell_builder result" where
  "im_store_with store_src i b =
    ok (on_inner (\<lambda>d. store_small_uint d (im_flags i) 3) b) (\<lambda>b.
    ok (store_src (im_src i) b) (\<lambda>b.
    ok (ia_store_into (im_dst i) b) (\<lambda>b.
    ok (cc_store_into (im_value i) b) (\<lambda>b.
    ok (mf_store_into (im_extra_flags i) b) (\<lambda>b.
    ok (tokens_store_into (im_fwd_fee i) b) (\<lambda>b.
    ok (on_inner (\<lambda>d. store_u64 d (im_created_lt i)) b)
    (on_inner (\<lambda>d. store_u32 d (im_created_at i)))))))))"

definition im_load_with ::
  "(cell_slice \<Rightarrow> ('src \<times> cell_slice) result) \<Rightarrow> cell_slice \<Rightarrow> ('src int_msg_info \<times> cell_slice) result" where
  "im_load_with load_src s =
    ok (load_small_uint s 3) (\<lambda>(flags, s).
    ok (load_src s) (\<lambda>(src, s).
    ok (ia_load_from s) (\<lambda>(dst, s).
    ok (cc_load_from s) (\<lambda>(v, s).
    ok (mf_load_from s) (\<lambda>(extra_flags, s).
    ok (tokens_load_from s) (\<lambda>(fwd_fee, s).
    ok (load_u64 s) (\<lambda>(created_lt, s).
    ok (load_u32 s) (\<lambda>(created_at, s).
    Ok (\<lparr>im_ihr_disabled = flags AND 0b100 \<noteq> 0, im_bounce = flags AND 0b010 \<noteq> 0, im_bounced = flags AND 0b001 \<noteq> 0,
      im_src = src, im_dst = dst, im_value = v, im_extra_flags = extra_flags, im_fwd_fee = fwd_fee,
      im_created_lt = created_lt, im_created_at = created_at\<rparr>, s)))))))))"

definition im_bit_len :: "int_addr int_msg_info \<Rightarrow> nat" where "im_bit_len = im_bit_len_with ia_bit_len"
definition im_store_into :: "int_addr int_msg_info \<Rightarrow> cell_builder \<Rightarrow> cell_builder result" where
  "im_store_into = im_store_with ia_store_into"
definition im_load_from :: "cell_slice \<Rightarrow> (int_addr int_msg_info \<times> cell_slice) result" where
  "im_load_from = im_load_with ia_load_from"

definition rim_bit_len :: "int_addr option int_msg_info \<Rightarrow> nat" where "rim_bit_len = im_bit_len_with compute_opt_int_addr_bit_len"
definition rim_store_into :: "int_addr option int_msg_info \<Rightarrow> cell_builder \<Rightarrow> cell_builder result" where
  "rim_store_into = im_store_with store_opt_int_addr"
definition rim_load_from :: "cell_slice \<Rightarrow> (int_addr option int_msg_info \<times> cell_slice) result" where
  "rim_load_from = im_load_with load_opt_int_addr"

section \<open>External incoming messages\<close>

record ext_in_msg_info =
  ei_src :: "ext_addr option"
  ei_dst :: int_addr
  ei_import_fee :: "128 word"

definition ei_bit_len :: "ext_in_msg_info \<Rightarrow> nat" where
  "ei_bit_len i = u16_add (u16_add (u16_add 2 (compute_ext_addr_bit_len (ei_src i))) (ia_bit_len (ei_dst i)))
    (vu_unwrap_bit_len 15 (ei_import_fee i))"

definition ei_store_into :: "ext_in_msg_info \<Rightarrow> cell_builder \<Rightarrow> cell_builder result" where
  "ei_store_into i b =
    (if \<not> vu_is_valid 15 (ei_import_fee i) then Err InvalidData
     else if \<not> has_capacity b (ei_bit_len i) 0 then Err CellOverflow
     else ok (store_ext_addr (ei_src i) b) (\<lambda>b. ok (ia_store_into (ei_dst i) b) (tokens_store_into (ei_import_fee i))))"

definition ei_load_from :: "cell_slice \<Rightarrow> (ext_in_msg_info \<times> cell_slice) result" where
  "ei_load_from s =
    ok (load_ext_addr s) (\<lambda>(src, s).
    ok (ia_load_from s) (\<lambda>(dst, s).
    ok (tokens_load_from s) (\<lambda>(import_fee, s).
    Ok (\<lparr>ei_src = src, ei_dst = dst, ei_import_fee = import_fee\<rparr>, s))))"

section \<open>External outgoing messages\<close>

record 'src ext_out_msg_info =
  eo_src :: 'src
  eo_dst :: "ext_addr option"
  eo_created_lt :: "64 word"
  eo_created_at :: "32 word"

definition eo_bit_len_with :: "('src \<Rightarrow> nat) \<Rightarrow> 'src ext_out_msg_info \<Rightarrow> nat" where
  "eo_bit_len_with src_bit_len i =
    u16_add (u16_add (u16_add (u16_add 2 (src_bit_len (eo_src i))) (compute_ext_addr_bit_len (eo_dst i))) 64) 32"

definition eo_store_with ::
  "('src \<Rightarrow> cell_builder \<Rightarrow> cell_builder result) \<Rightarrow> 'src ext_out_msg_info \<Rightarrow> cell_builder \<Rightarrow> cell_builder result" where
  "eo_store_with store_src i b =
    ok (store_src (eo_src i) b) (\<lambda>b.
    ok (store_ext_addr (eo_dst i) b) (\<lambda>b.
    ok (on_inner (\<lambda>d. store_u64 d (eo_created_lt i)) b)
    (on_inner (\<lambda>d. store_u32 d (eo_created_at i)))))"

definition eo_load_with ::
  "(cell_slice \<Rightarrow> ('src \<times> cell_slice) result) \<Rightarrow> cell_slice \<Rightarrow> ('src ext_out_msg_info \<times> cell_slice) result" where
  "eo_load_with load_src s =
    ok (load_src s) (\<lambda>(src, s).
    ok (load_ext_addr s) (\<lambda>(dst, s).
    ok (load_u64 s) (\<lambda>(created_lt, s).
    ok (load_u32 s) (\<lambda>(created_at, s).
    Ok (\<lparr>eo_src = src, eo_dst = dst, eo_created_lt = created_lt, eo_created_at = created_at\<rparr>, s)))))"

definition eo_bit_len :: "int_addr ext_out_msg_info \<Rightarrow> nat" where "eo_bit_len = eo_bit_len_with ia_bit_len"
definition eo_store_into :: "int_addr ext_out_msg_info \<Rightarrow> cell_builder \<Rightarrow> cell_builder result" where
  "eo_store_into i b = (if \<not> has_capacity b (eo_bit_len i) 0 then Err CellOverflow else eo_store_with ia_store_into i b)"
definition eo_load_from :: "cell_slice \<Rightarrow> (int_addr ext_out_msg_info \<times> cell_slice) result" where
  "eo_load_from = eo_load_with ia_load_from"

text \<open>The relaxed outgoing header does not check the capacity.\<close>

definition reo_bit_len :: "int_addr option ext_out_msg_info \<Rightarrow> nat" where "reo_bit_len = eo_bit_len_with compute_opt_int_addr_bit_len"
definition reo_store_into :: "int_addr option ext_out_msg_info \<Rightarrow> cell_builder \<Rightarrow> cell_builder result" where
  "reo_store_into = eo_store_with store_opt_int_addr"
definition reo_load_from :: "cell_slice \<Rightarrow> (int_addr option ext_out_msg_info \<times> cell_slice) result" where
  "reo_load_from = eo_load_with load_opt_int_addr"

section \<open>Types of messages\<close>

datatype msg_type = Type_Int | Type_ExtIn | Type_ExtOut

fun mt_store_into :: "msg_type \<Rightarrow> cell_builder \<Rightarrow> cell_builder result" where
  "mt_store_into Type_Int b = on_inner store_bit_zero b"
| "mt_store_into Type_ExtIn b = on_inner (\<lambda>d. store_small_uint d 0b10 2) b"
| "mt_store_into Type_ExtOut b = on_inner (\<lambda>d. store_small_uint d 0b11 2) b"

definition mt_load_from :: "cell_slice \<Rightarrow> (msg_type \<times> cell_slice) result" where
  "mt_load_from s =
    ok (load_bit s) (\<lambda>(b0, s).
    if \<not> b0 then Ok (Type_Int, s)
    else ok (load_bit s) (\<lambda>(b1, s). if \<not> b1 then Ok (Type_ExtIn, s) else Ok (Type_ExtOut, s)))"

section \<open>Headers\<close>

datatype msg_info = MsgInt "int_addr int_msg_info" | MsgExtIn ext_in_msg_info | MsgExtOut "int_addr ext_out_msg_info"

fun mi_ty :: "msg_info \<Rightarrow> msg_type" where
  "mi_ty (MsgInt _) = Type_Int"
| "mi_ty (MsgExtIn _) = Type_ExtIn"
| "mi_ty (MsgExtOut _) = Type_ExtOut"

fun mi_bit_len :: "msg_info \<Rightarrow> nat" where
  "mi_bit_len (MsgInt i) = im_bit_len i"
| "mi_bit_len (MsgExtIn i) = ei_bit_len i"
| "mi_bit_len (MsgExtOut i) = eo_bit_len i"

fun mi_has_references :: "msg_info \<Rightarrow> bool" where
  "mi_has_references (MsgInt i) \<longleftrightarrow> \<not> td_is_empty (cc_other (im_value i))"
| "mi_has_references _ \<longleftrightarrow> False"

definition mi_exact_size :: "msg_info \<Rightarrow> size" where
  "mi_exact_size i = \<lparr>sz_bits = mi_bit_len i, sz_refs = of_bool (mi_has_references i)\<rparr>"

fun mi_store_into :: "msg_info \<Rightarrow> cell_builder \<Rightarrow> cell_builder result" where
  "mi_store_into (MsgInt i) b = ok (on_inner store_bit_zero b) (im_store_into i)"
| "mi_store_into (MsgExtIn i) b = ok (on_inner (\<lambda>d. store_small_uint d 0b10 2) b) (ei_store_into i)"
| "mi_store_into (MsgExtOut i) b = ok (on_inner (\<lambda>d. store_small_uint d 0b11 2) b) (eo_store_into i)"

definition mi_load_from :: "cell_slice \<Rightarrow> (msg_info \<times> cell_slice) result" where
  "mi_load_from s =
    ok (load_bit s) (\<lambda>(b0, s).
    if \<not> b0 then ok (im_load_from s) (\<lambda>(i, s). Ok (MsgInt i, s))
    else ok (load_bit s) (\<lambda>(b1, s).
      if \<not> b1 then ok (ei_load_from s) (\<lambda>(i, s). Ok (MsgExtIn i, s))
      else ok (eo_load_from s) (\<lambda>(i, s). Ok (MsgExtOut i, s))))"

datatype relaxed_msg_info = RelaxedInt "int_addr option int_msg_info" | RelaxedExtOut "int_addr option ext_out_msg_info"

fun rmi_bit_len :: "relaxed_msg_info \<Rightarrow> nat" where
  "rmi_bit_len (RelaxedInt i) = rim_bit_len i"
| "rmi_bit_len (RelaxedExtOut i) = reo_bit_len i"

fun rmi_has_references :: "relaxed_msg_info \<Rightarrow> bool" where
  "rmi_has_references (RelaxedInt i) \<longleftrightarrow> \<not> td_is_empty (cc_other (im_value i))"
| "rmi_has_references (RelaxedExtOut _) \<longleftrightarrow> False"

definition rmi_exact_size :: "relaxed_msg_info \<Rightarrow> size" where
  "rmi_exact_size i = \<lparr>sz_bits = rmi_bit_len i, sz_refs = of_bool (rmi_has_references i)\<rparr>"

fun rmi_store_into :: "relaxed_msg_info \<Rightarrow> cell_builder \<Rightarrow> cell_builder result" where
  "rmi_store_into (RelaxedInt i) b = ok (on_inner store_bit_zero b) (rim_store_into i)"
| "rmi_store_into (RelaxedExtOut i) b = ok (on_inner (\<lambda>d. store_small_uint d 0b11 2) b) (reo_store_into i)"

definition rmi_load_from :: "cell_slice \<Rightarrow> (relaxed_msg_info \<times> cell_slice) result" where
  "rmi_load_from s =
    ok (load_bit s) (\<lambda>(b0, s).
    if \<not> b0 then ok (rim_load_from s) (\<lambda>(i, s). Ok (RelaxedInt i, s))
    else ok (load_bit s) (\<lambda>(b1, s).
      if b1 then ok (reo_load_from s) (\<lambda>(i, s). Ok (RelaxedExtOut i, s))
      else Err InvalidTag))"

definition rmi_from_int :: "int_addr int_msg_info \<Rightarrow> relaxed_msg_info" where
  "rmi_from_int i = RelaxedInt \<lparr>im_ihr_disabled = im_ihr_disabled i, im_bounce = im_bounce i, im_bounced = im_bounced i,
     im_src = Some (im_src i), im_dst = im_dst i, im_value = im_value i, im_extra_flags = im_extra_flags i,
     im_fwd_fee = im_fwd_fee i, im_created_lt = im_created_lt i, im_created_at = im_created_at i\<rparr>"

definition rmi_from_ext_out :: "int_addr ext_out_msg_info \<Rightarrow> relaxed_msg_info" where
  "rmi_from_ext_out i = RelaxedExtOut \<lparr>eo_src = Some (eo_src i), eo_dst = eo_dst i, eo_created_lt = eo_created_lt i,
     eo_created_at = eo_created_at i\<rparr>"

section \<open>Layouts\<close>

record message_layout =
  ml_init_to_cell :: bool
  ml_body_to_cell :: bool

definition ml_plain :: message_layout where
  "ml_plain = \<lparr>ml_init_to_cell = False, ml_body_to_cell = False\<rparr>"

record detailed_message_layout =
  dl_info :: size
  dl_init :: size
  dl_body :: size

definition dl_compute :: "size \<Rightarrow> state_init option \<Rightarrow> size \<Rightarrow> detailed_message_layout" where
  "dl_compute info init body =
    (let info = info\<lparr>sz_bits := u16_add (sz_bits info) 2\<rparr>
     in case init of
          Some i \<Rightarrow> \<lparr>dl_info = info\<lparr>sz_bits := u16_add (sz_bits info) 1\<rparr>, dl_init = init_exact_size i, dl_body = body\<rparr>
        | None \<Rightarrow> \<lparr>dl_info = info, dl_init = size_ZERO, dl_body = body\<rparr>)"

definition ml_compute_full_size :: "message_layout \<Rightarrow> size \<Rightarrow> state_init option \<Rightarrow> size \<Rightarrow> size" where
  "ml_compute_full_size layout info_size init body_size =
    (let l = dl_compute info_size init body_size;
         total = dl_info l;
         total = (if ml_init_to_cell layout then total\<lparr>sz_refs := u8_add (sz_refs total) 1\<rparr> else size_add total (dl_init l))
     in if ml_body_to_cell layout then total\<lparr>sz_refs := u8_add (sz_refs total) 1\<rparr> else size_add total (dl_body l))"

definition ml_compute :: "size \<Rightarrow> state_init option \<Rightarrow> size \<Rightarrow> message_layout \<times> size" where
  "ml_compute info_size init body_size =
    (let l = dl_compute info_size init body_size;
         total_bits = u16_add (u16_add (sz_bits (dl_info l)) (sz_bits (dl_init l))) (sz_bits (dl_body l));
         total_refs = u8_add (u8_add (sz_refs (dl_info l)) (sz_refs (dl_init l))) (sz_refs (dl_body l))
     in if total_bits \<le> MAX_BIT_LEN \<and> total_refs \<le> MAX_REF_COUNT
        then (\<lparr>ml_init_to_cell = False, ml_body_to_cell = False\<rparr>, \<lparr>sz_bits = total_bits, sz_refs = total_refs\<rparr>)
        else let total_bits = u16_add (sz_bits (dl_info l)) (sz_bits (dl_init l));
                 total_refs = u8_add (sz_refs (dl_info l)) (sz_refs (dl_init l))
          in if total_bits \<le> MAX_BIT_LEN \<and> total_refs < MAX_REF_COUNT
             then (\<lparr>ml_init_to_cell = False, ml_body_to_cell = True\<rparr>, \<lparr>sz_bits = total_bits, sz_refs = u8_add total_refs 1\<rparr>)
             else let total_bits = u16_add (sz_bits (dl_info l)) (sz_bits (dl_body l));
                      total_refs = u8_add (sz_refs (dl_info l)) (sz_refs (dl_body l))
               in if total_bits \<le> MAX_BIT_LEN \<and> total_refs < MAX_REF_COUNT
                  then (\<lparr>ml_init_to_cell = True, ml_body_to_cell = False\<rparr>, \<lparr>sz_bits = total_bits, sz_refs = u8_add total_refs 1\<rparr>)
                  else (\<lparr>ml_init_to_cell = True, ml_body_to_cell = True\<rparr>,
                        \<lparr>sz_bits = sz_bits (dl_info l), sz_refs = u8_add (sz_refs (dl_info l)) 2\<rparr>))"

section \<open>Values in a slice or in a cell of their own\<close>

definition store_only_value_into ::
  "sha256 \<Rightarrow> ('v \<Rightarrow> cell_builder \<Rightarrow> cell_builder result) \<Rightarrow> bool \<Rightarrow> 'v \<Rightarrow> cell_builder \<Rightarrow> cell_builder result" where
  "store_only_value_into sha store_into to_cell v b =
    (if to_cell then ok (ok (store_into v cb_new) (build_ext sha)) (\<lambda>c. store_reference b c)
     else store_into v b)"

definition soc_store_into ::
  "sha256 \<Rightarrow> ('v \<Rightarrow> cell_builder \<Rightarrow> cell_builder result) \<Rightarrow> bool \<Rightarrow> 'v \<Rightarrow> cell_builder \<Rightarrow> cell_builder result" where
  "soc_store_into sha store_into to_cell v b =
    ok (on_inner (\<lambda>d. store_bit d to_cell) b) (store_only_value_into sha store_into to_cell v)"

definition soc_load_from ::
  "(cell_slice \<Rightarrow> ('v \<times> cell_slice) result) \<Rightarrow> cell_slice \<Rightarrow> ((bool \<times> 'v) \<times> cell_slice) result" where
  "soc_load_from load_from s =
    ok (load_bit s) (\<lambda>(to_cell, s).
    if to_cell then ok (load_reference_as_slice s) (\<lambda>(child, s). ok (load_from child) (\<lambda>(v, _). Ok ((to_cell, v), s)))
    else ok (load_from s) (\<lambda>(v, s). Ok ((to_cell, v), s)))"

section \<open>Bodies\<close>

definition slice_store_body :: "sha256 \<Rightarrow> bool \<Rightarrow> cell_slice \<Rightarrow> cell_builder \<Rightarrow> cell_builder result" where
  "slice_store_body sha to_cell s b = store_only_value_into sha (\<lambda>s b. store_slice b s) to_cell s b"

definition slice_load_body :: "bool \<Rightarrow> cell_slice \<Rightarrow> (cell_slice \<times> cell_slice) result" where
  "slice_load_body from_cell s = (if from_cell then load_reference_as_slice s else Ok (load_remaining s))"

definition slice_exact_size :: "cell_slice \<Rightarrow> size" where
  "slice_exact_size s = range_size (sl_range s)"

type_synonym cell_slice_parts = "cell_slice_range \<times> cell"

definition parts_exact_size :: "cell_slice_parts \<Rightarrow> size" where
  "parts_exact_size p = range_size (fst p)"

definition parts_from_cell :: "cell \<Rightarrow> cell_slice_parts" where
  "parts_from_cell c = (range_full c, c)"

definition parts_store_body :: "sha256 \<Rightarrow> bool \<Rightarrow> cell_slice_parts \<Rightarrow> cell_builder \<Rightarrow> cell_builder result" where
  "parts_store_body sha to_cell p b =
    (let (range, c) = p
     in if to_cell \<and> range_is_full range c then store_reference b c
        else ok (range_apply range c) (\<lambda>s. store_only_value_into sha (\<lambda>s b. store_slice b s) to_cell s b))"

definition parts_load_body :: "sha256 \<Rightarrow> bool \<Rightarrow> cell_slice \<Rightarrow> (cell_slice_parts \<times> cell_slice) result" where
  "parts_load_body sha from_cell s =
    ok (if from_cell then load_reference_cloned s
        else let (rest, s) = load_remaining s
          in ok (store_slice cb_new rest) (\<lambda>b. ok (build_ext sha b) (\<lambda>c. Ok (c, s))))
      (\<lambda>(c, s). Ok (parts_from_cell c, s))"

section \<open>Messages\<close>

record ('i, 'b) base_message =
  bm_info :: 'i
  bm_init :: "state_init option"
  bm_body :: 'b
  bm_layout :: "message_layout option"

definition bm_compute_layout ::
  "('i \<Rightarrow> size) \<Rightarrow> ('b \<Rightarrow> size) \<Rightarrow> 'i \<Rightarrow> state_init option \<Rightarrow> 'b \<Rightarrow> message_layout" where
  "bm_compute_layout i_exact_size b_exact_size info init body =
    fst (ml_compute (i_exact_size info) init (b_exact_size body))"

definition bm_layout_size ::
  "('i \<Rightarrow> size) \<Rightarrow> ('b \<Rightarrow> size) \<Rightarrow> ('i, 'b) base_message \<Rightarrow> message_layout \<times> size" where
  "bm_layout_size i_exact_size b_exact_size m =
    (let info_size = i_exact_size (bm_info m); body_size = b_exact_size (bm_body m)
     in case bm_layout m of
          Some layout \<Rightarrow> (layout, ml_compute_full_size layout info_size (bm_init m) body_size)
        | None \<Rightarrow> ml_compute info_size (bm_init m) body_size)"

definition bm_store_into ::
  "('i \<Rightarrow> size) \<Rightarrow> ('i \<Rightarrow> cell_builder \<Rightarrow> cell_builder result)
    \<Rightarrow> ('b \<Rightarrow> size) \<Rightarrow> (bool \<Rightarrow> 'b \<Rightarrow> cell_builder \<Rightarrow> cell_builder result)
    \<Rightarrow> sha256 \<Rightarrow> ('i, 'b) base_message \<Rightarrow> cell_builder \<Rightarrow> cell_builder result" where
  "bm_store_into i_exact_size i_store_into b_exact_size store_body sha m b =
    (let (layout, full_size) = bm_layout_size i_exact_size b_exact_size m
     in if \<not> has_capacity b (sz_bits full_size) (sz_refs full_size) then Err CellOverflow
        else ok (i_store_into (bm_info m) b) (\<lambda>b.
          ok (case bm_init m of
                Some v \<Rightarrow> ok (on_inner store_bit_one b) (soc_store_into sha init_store_into (ml_init_to_cell layout) v)
              | None \<Rightarrow> on_inner store_bit_zero b) (\<lambda>b.
          ok (on_inner (\<lambda>d. store_bit d (ml_body_to_cell layout)) b)
          (store_body (ml_body_to_cell layout) (bm_body m)))))"

definition bm_load_from ::
  "(cell_slice \<Rightarrow> ('i \<times> cell_slice) result) \<Rightarrow> (bool \<Rightarrow> cell_slice \<Rightarrow> ('b \<times> cell_slice) result)
    \<Rightarrow> cell_slice \<Rightarrow> (('i, 'b) base_message \<times> cell_slice) result" where
  "bm_load_from i_load_from load_body s =
    ok (i_load_from s) (\<lambda>(info, s).
    ok (load_option (soc_load_from init_load_from) s) (\<lambda>(init, s).
    ok (load_bit s) (\<lambda>(body_to_cell, s).
    ok (load_body body_to_cell s) (\<lambda>(body, s).
    let (init, init_to_cell) = (case init of Some (to_cell, v) \<Rightarrow> (Some v, to_cell) | None \<Rightarrow> (None, False))
    in Ok (\<lparr>bm_info = info, bm_init = init, bm_body = body,
         bm_layout = Some \<lparr>ml_init_to_cell = init_to_cell, ml_body_to_cell = body_to_cell\<rparr>\<rparr>, s)))))"

definition message_store_into :: "sha256 \<Rightarrow> (msg_info, cell_slice) base_message \<Rightarrow> cell_builder \<Rightarrow> cell_builder result" where
  "message_store_into sha = bm_store_into mi_exact_size mi_store_into slice_exact_size (slice_store_body sha) sha"

definition message_load_from :: "cell_slice \<Rightarrow> ((msg_info, cell_slice) base_message \<times> cell_slice) result" where
  "message_load_from = bm_load_from mi_load_from slice_load_body"

definition owned_message_store_into :: "sha256 \<Rightarrow> (msg_info, cell_slice_parts) base_message \<Rightarrow> cell_builder \<Rightarrow> cell_builder result" where
  "owned_message_store_into sha = bm_store_into mi_exact_size mi_store_into parts_exact_size (parts_store_body sha) sha"

definition owned_message_load_from :: "sha256 \<Rightarrow> cell_slice \<Rightarrow> ((msg_info, cell_slice_parts) base_message \<times> cell_slice) result" where
  "owned_message_load_from sha = bm_load_from mi_load_from (parts_load_body sha)"

definition relaxed_message_store_into :: "sha256 \<Rightarrow> (relaxed_msg_info, cell_slice) base_message \<Rightarrow> cell_builder \<Rightarrow> cell_builder result" where
  "relaxed_message_store_into sha = bm_store_into rmi_exact_size rmi_store_into slice_exact_size (slice_store_body sha) sha"

definition relaxed_message_load_from :: "cell_slice \<Rightarrow> ((relaxed_msg_info, cell_slice) base_message \<times> cell_slice) result" where
  "relaxed_message_load_from = bm_load_from rmi_load_from slice_load_body"

definition owned_relaxed_message_store_into ::
  "sha256 \<Rightarrow> (relaxed_msg_info, cell_slice_parts) base_message \<Rightarrow> cell_builder \<Rightarrow> cell_builder result" where
  "owned_relaxed_message_store_into sha = bm_store_into rmi_exact_size rmi_store_into parts_exact_size (parts_store_body sha) sha"

definition owned_relaxed_message_load_from ::
  "sha256 \<Rightarrow> cell_slice \<Rightarrow> ((relaxed_msg_info, cell_slice_parts) base_message \<times> cell_slice) result" where
  "owned_relaxed_message_load_from sha = bm_load_from rmi_load_from (parts_load_body sha)"

section \<open>Bodies of bounced messages\<close>

record new_bounce_original_info =
  bo_value :: currency_collection
  bo_created_lt :: "64 word"
  bo_created_at :: "32 word"

record new_bounce_compute_phase_info =
  bc_gas_used :: "32 word"
  bc_vm_steps :: "32 word"

record new_bounce_body =
  bb_original_body :: cell
  bb_original_info :: lazy
  bb_bounced_by_phase :: byte
  bb_exit_code :: "32 word"
  bb_compute_phase :: "new_bounce_compute_phase_info option"

definition bo_store_into :: "new_bounce_original_info \<Rightarrow> cell_builder \<Rightarrow> cell_builder result" where
  "bo_store_into i b = ok (cc_store_into (bo_value i) b) (\<lambda>b.
    ok (on_inner (\<lambda>d. store_u64 d (bo_created_lt i)) b) (on_inner (\<lambda>d. store_u32 d (bo_created_at i))))"

definition bo_load_from :: "cell_slice \<Rightarrow> (new_bounce_original_info \<times> cell_slice) result" where
  "bo_load_from s = ok (cc_load_from s) (\<lambda>(v, s). ok (load_u64 s) (\<lambda>(lt, s). ok (load_u32 s) (\<lambda>(created_at, s).
    Ok (\<lparr>bo_value = v, bo_created_lt = lt, bo_created_at = created_at\<rparr>, s))))"

definition bc_store_into :: "new_bounce_compute_phase_info \<Rightarrow> cell_builder \<Rightarrow> cell_builder result" where
  "bc_store_into i b = ok (on_inner (\<lambda>d. store_u32 d (bc_gas_used i)) b) (on_inner (\<lambda>d. store_u32 d (bc_vm_steps i)))"

definition bc_load_from :: "cell_slice \<Rightarrow> (new_bounce_compute_phase_info \<times> cell_slice) result" where
  "bc_load_from s = ok (load_u32 s) (\<lambda>(gas_used, s). ok (load_u32 s) (\<lambda>(vm_steps, s).
    Ok (\<lparr>bc_gas_used = gas_used, bc_vm_steps = vm_steps\<rparr>, s)))"

definition bb_store_into :: "new_bounce_body \<Rightarrow> cell_builder \<Rightarrow> cell_builder result" where
  "bb_store_into i b =
    ok (on_inner (\<lambda>d. store_u32 d 0xfffffffe) b) (\<lambda>b.
    ok (store_reference b (bb_original_body i)) (\<lambda>b.
    ok (lz_store_into (bb_original_info i) b) (\<lambda>b.
    ok (on_inner (\<lambda>d. store_u8 d (bb_bounced_by_phase i)) b) (\<lambda>b.
    ok (on_inner (\<lambda>d. store_u32 d (bb_exit_code i)) b)
    (store_option bc_store_into (bb_compute_phase i))))))"

definition bb_load_from :: "cell_slice \<Rightarrow> (new_bounce_body \<times> cell_slice) result" where
  "bb_load_from s =
    ok (load_u32 s) (\<lambda>(tag, s).
    if tag \<noteq> 0xfffffffe then Err InvalidTag
    else ok (load_reference_cloned s) (\<lambda>(original_body, s).
    ok (lz_load_from False s) (\<lambda>(original_info, s).
    ok (load_u8 s) (\<lambda>(phase, s).
    ok (load_u32 s) (\<lambda>(exit_code, s).
    ok (load_option bc_load_from s) (\<lambda>(compute_phase, s).
    Ok (\<lparr>bb_original_body = original_body, bb_original_info = original_info, bb_bounced_by_phase = phase,
      bb_exit_code = exit_code, bb_compute_phase = compute_phase\<rparr>, s)))))))"

text \<open>Why a message was bounced.\<close>

datatype skip_reason = NoState | BadState | NoGas | Suspended

datatype bounce_reason = ComputePhaseSkipped skip_reason | ComputePhaseFailed "32 word" | ActionPhaseFailed "32 word"

definition bb_bounce_reason :: "new_bounce_body \<Rightarrow> bounce_reason option" where
  "bb_bounce_reason i =
    (if bb_bounced_by_phase i = 0 then
       (if bb_exit_code i = -1 then Some (ComputePhaseSkipped NoState)
        else if bb_exit_code i = -2 then Some (ComputePhaseSkipped BadState)
        else if bb_exit_code i = -3 then Some (ComputePhaseSkipped NoGas)
        else if bb_exit_code i = -4 then Some (ComputePhaseSkipped Suspended)
        else None)
     else if bb_bounced_by_phase i = 1 then Some (ComputePhaseFailed (bb_exit_code i))
     else if bb_bounced_by_phase i = 2 then Some (ActionPhaseFailed (bb_exit_code i))
     else None)"

fun br_flatten :: "bounce_reason \<Rightarrow> byte \<times> 32 word" where
  "br_flatten (ComputePhaseSkipped reason) =
     (0, case reason of NoState \<Rightarrow> -1 | BadState \<Rightarrow> -2 | NoGas \<Rightarrow> -3 | Suspended \<Rightarrow> -4)"
| "br_flatten (ComputePhaseFailed exit_code) = (1, exit_code)"
| "br_flatten (ActionPhaseFailed result_code) = (2, result_code)"

end
