(* ===== verification/Address_Props.thy ===== *)
theory Address_Props
  imports Address Numbers_Props
begin

text \<open>
  Addresses in cells: each kind of address is a codec (locale \<open>cell_codec\<close>), that is, storing appends
  the bits of the address and loading reads them back.
\<close>

section \<open>Packed bits\<close>

text \<open>Bytes that hold \<open>n\<close> bits, with zeros after them.\<close>

definition packed :: "nat \<Rightarrow> byte list \<Rightarrow> bool" where
  "packed n v \<longleftrightarrow> v = pack_bits (raw_bits v n)"

lemma packed_pack: "packed (length bs) (pack_bits bs)"
  by (simp add: packed_def)

lemma packed_length: "packed n v \<Longrightarrow> length v = div_ceil8 n"
  by (metis length_pack_bits length_raw_bits packed_def)

lemma appends_raw:
  assumes "packed n v" "n \<le> 1023"
  shows "appends (on_inner (\<lambda>d. store_raw d v n)) (raw_bits v n) []"
proof -
  have "length v \<le> 128" using packed_length [OF assms(1)] assms(2) by (simp add: div_ceil8_le_iff)
  then show ?thesis using assms(2) by (intro appends_inner store_raw_mk) simp_all
qed

lemma loads_then:
  "loads f xs [] v \<Longrightarrow> loads (g v) xs' ys w \<Longrightarrow> loads (\<lambda>s. ok (f s) (\<lambda>(v, s). g v s)) (xs @ xs') ys w"
  using loads_bind [of f xs "[]" v g xs' ys w] by simp

lemma loads_raw:
  assumes "packed n v" "n \<le> 1023" "loads (g v) xs ys w"
  shows "loads (\<lambda>s. if \<not> has_remaining s n 0 then Err CellUnderflow
      else ok (load_raw s (replicate (div_ceil8 n) 0) n) (\<lambda>(v, s). g v s)) (raw_bits v n @ xs) ys w"
proof (rule loadsI)
  fix s r q assume s: "wf_slice s" "\<not> is_virtual (sl_cell s)" "slice_bits s = (raw_bits v n @ xs) @ r" "slice_refs s = ys @ q"
  have n: "n \<le> size_bits s" using arg_cong [OF s(3), of length] by simp
  have g: "get_raw s 0 (replicate (div_ceil8 n) 0) n = Ok v"
    using get_raw_spec [OF s(1), of n "replicate (div_ceil8 n) 0"] assms(1,2) n s(3) by (simp add: packed_def)
  have h: "has_remaining s n 0"
    using n wf_sliceD [OF s(1)] by (simp add: has_remaining_def range_has_remaining_def size_bits_eq)
  from loadsE [OF assms(3), of "advance s n" r q] s n obtain s' where
    "g v (advance s n) = Ok (w, s')" "wf_slice s'" "sl_cell s' = sl_cell s" "slice_bits s' = r" "slice_refs s' = q"
    by (auto simp: wf_advance slice_bits_advance)
  with g h show "\<exists>s'. (if \<not> has_remaining s n 0 then Err CellUnderflow
      else ok (load_raw s (replicate (div_ceil8 n) 0) n) (\<lambda>(v, s). g v s)) = Ok (w, s')
      \<and> wf_slice s' \<and> sl_cell s' = sl_cell s \<and> slice_bits s' = r \<and> slice_refs s' = q"
    by (simp add: load_raw_def load_with_def)
qed

section \<open>Anycast\<close>

definition ac_valid :: "anycast \<Rightarrow> bool" where
  "ac_valid a \<longleftrightarrow> 0 < ac_depth a \<and> ac_depth a < 32 \<and> packed (unat (ac_depth a)) (ac_rewrite_prefix a)"

definition ac_bits :: "anycast \<Rightarrow> bool list" where
  "ac_bits a = word_bits 5 (ac_depth a) @ raw_bits (ac_rewrite_prefix a) (unat (ac_depth a))"

lemma length_ac_bits: "length (ac_bits a) = ac_bit_len a"
  by (simp add: ac_bits_def ac_bit_len_def sd_BITS_def sd_into_bit_len_def)

lemma ac_stores:
  assumes "ac_valid a"
  shows "appends (ac_store_into a) (ac_bits a) []"
proof -
  have d: "unat (ac_depth a) < 32" "packed (unat (ac_depth a)) (ac_rewrite_prefix a)"
    using assms by (simp_all add: ac_valid_def word_less_nat_alt)
  have "appends (\<lambda>b. ok (sd_store_into (ac_depth a) b)
      (on_inner (\<lambda>d. store_raw d (ac_rewrite_prefix a) (unat (ac_depth a))))) (ac_bits a) []"
    using appends_bind [OF sd_stores [of "ac_depth a"] appends_raw [OF d(2)]] d(1) by (simp add: ac_bits_def)
  from appends_guarded [OF this length_ac_bits] d(1) show ?thesis
    unfolding ac_store_into_def [abs_def] sd_into_bit_len_def by (simp add: ac_bit_len_def sd_BITS_def sd_into_bit_len_def)
qed

lemma ac_loads:
  assumes "ac_valid a"
  shows "loads ac_load_from (ac_bits a) [] a"
proof -
  have d: "0 < ac_depth a" "ac_depth a < 32" "unat (ac_depth a) \<le> 1023" "packed (unat (ac_depth a)) (ac_rewrite_prefix a)"
    using assms by (simp_all add: ac_valid_def word_less_nat_alt)
  have "loads (\<lambda>s. Ok (\<lparr>ac_depth = ac_depth a, ac_rewrite_prefix = ac_rewrite_prefix a\<rparr>, s)) [] [] a"
    using loads_Ok [of a] by (cases a) simp
  from loads_raw [OF d(4,3), where g = "\<lambda>p s. Ok (\<lparr>ac_depth = ac_depth a, ac_rewrite_prefix = p\<rparr>, s)", OF this]
  show ?thesis
    unfolding ac_load_from_def [abs_def] ac_bits_def sd_into_bit_len_def
    by (intro loads_then [OF sd_loads [OF d(1,2)]]) simp
qed

interpretation anycast_codec: cell_codec ac_valid ac_bits "\<lambda>_. []" ac_store_into ac_load_from
  by unfold_locales (rule ac_stores, assumption, rule ac_loads, assumption)

section \<open>Standard addresses\<close>

lemma loads_bits2: "loads g xs ys w \<Longrightarrow> loads (\<lambda>s. ok (load_bit s) (\<lambda>(b0, s). h b0 s)) (c # xs) ys w"
  if "\<And>s. h c s = g s" for g :: "cell_slice \<Rightarrow> ('v \<times> cell_slice) result"
  using loads_then [OF loads_bit [of c], of h xs ys w] that by (simp add: that [abs_def])

definition opt_ac_bits :: "anycast option \<Rightarrow> bool list" where
  "opt_ac_bits a = (case a of None \<Rightarrow> [False] | Some a \<Rightarrow> True # ac_bits a)"

definition sa_valid :: "std_addr \<Rightarrow> bool" where
  "sa_valid a \<longleftrightarrow> pred_option ac_valid (sa_anycast a) \<and> length (sa_address a) = 32"

definition sa_field_bits :: "std_addr \<Rightarrow> bool list" where
  "sa_field_bits a = opt_ac_bits (sa_anycast a) @ word_bits 8 (sa_workchain a) @ bytes_bits (sa_address a)"

definition sa_bits :: "std_addr \<Rightarrow> bool list" where
  "sa_bits a = [True, False] @ sa_field_bits a"

lemma opt_ac_codec:
  assumes "pred_option ac_valid a"
  shows "appends (store_option ac_store_into a) (opt_ac_bits a) []" "loads (load_option ac_load_from) (opt_ac_bits a) [] a"
  using anycast_codec.option_appends [of a] anycast_codec.option_loads [of a] assms
  by (cases a; simp add: opt_ac_bits_def)+

lemma length_opt_ac_bits: "length (opt_ac_bits a) = 1 + (case a of None \<Rightarrow> 0 | Some a \<Rightarrow> ac_bit_len a)"
  by (simp add: opt_ac_bits_def length_ac_bits split: option.split)

lemma ac_bit_len_le: "ac_valid a \<Longrightarrow> ac_bit_len a \<le> 36"
  by (simp add: ac_valid_def ac_bit_len_def sd_BITS_def sd_into_bit_len_def word_less_nat_alt)

lemma u16_ac_bit_len: "ac_valid a \<Longrightarrow> n \<le> 1000 \<Longrightarrow> u16_add n (ac_bit_len a) = n + ac_bit_len a"
  using ac_bit_len_le [of a] by simp

lemma length_sa_bits:
  assumes "sa_valid a"
  shows "length (sa_bits a) = sa_bit_len a" "sa_bit_len a \<le> 303"
  using assms ac_bit_len_le
  by (auto simp: u16_ac_bit_len sa_valid_def sa_bits_def sa_field_bits_def length_opt_ac_bits sa_bit_len_def sa_BITS_WITHOUT_ANYCAST_def pred_option_def
      split: option.splits)

lemma sa_stores:
  assumes "sa_valid a"
  shows "appends (sa_store_into a) (sa_bits a) []"
proof -
  have v: "pred_option ac_valid (sa_anycast a)" "length (sa_address a) = 32" using assms by (simp_all add: sa_valid_def)
  have t: "word_bits 2 (0b10 :: byte) = [True, False]" by code_simp
  have "appends (\<lambda>b. ok (on_inner (\<lambda>d. store_small_uint d 0b10 2) b) (\<lambda>b.
       ok (store_option ac_store_into (sa_anycast a) b) (\<lambda>b.
       ok (on_inner (\<lambda>d. store_u8 d (sa_workchain a)) b)
       (on_inner (\<lambda>d. store_u256 d (sa_address a)))))) (sa_bits a) []"
    using appends_bind [OF appends_small_uint [of 2 "0b10"] appends_bind [OF opt_ac_codec(1) [OF v(1)]
        appends_bind [OF appends_inner [OF store_u8_mk, of "sa_workchain a"] u256_store.store_appends [OF v(2)]]]]
    by (simp add: sa_bits_def sa_field_bits_def t)
  from appends_guarded [OF this length_sa_bits(1) [OF assms]] length_sa_bits(2) [OF assms] show ?thesis
    unfolding sa_store_into_def [abs_def] by simp
qed

lemma sa_fields_load:
  assumes "sa_valid a"
  shows "loads sa_load_fields (sa_field_bits a) [] a"
  using loads_fields3 [OF opt_ac_codec(2) loads_u8 loads_u256, where h = "\<lambda>x y z. \<lparr>sa_anycast = x, sa_workchain = y, sa_address = z\<rparr>",
      of "sa_anycast a" "sa_address a" "sa_workchain a"] assms
  by (cases a) (simp add: sa_load_fields_def [abs_def] sa_field_bits_def sa_valid_def)

lemma sa_loads:
  assumes "sa_valid a"
  shows "loads sa_load_from (sa_bits a) [] a"
  unfolding sa_load_from_def [abs_def] sa_bits_def append.simps
  by (rule loads_bits2, simp, rule loads_bits2, simp, rule sa_fields_load [OF assms])

interpretation std_addr_codec: cell_codec sa_valid sa_bits "\<lambda>_. []" sa_store_into sa_load_from
  by unfold_locales (rule sa_stores, assumption, rule sa_loads, assumption)

section \<open>Variable-length and internal addresses\<close>

definition va_valid :: "var_addr \<Rightarrow> bool" where
  "va_valid a \<longleftrightarrow> pred_option ac_valid (va_anycast a) \<and> su_is_valid 9 (va_address_len a)
     \<and> packed (unat (va_address_len a)) (va_address a)"

definition va_field_bits :: "var_addr \<Rightarrow> bool list" where
  "va_field_bits a = opt_ac_bits (va_anycast a) @ word_bits 9 (va_address_len a) @ word_bits 32 (va_workchain a)
     @ raw_bits (va_address a) (unat (va_address_len a))"

definition va_bits :: "var_addr \<Rightarrow> bool list" where
  "va_bits a = [True, True] @ va_field_bits a"

lemma va_valid_len: "va_valid a \<Longrightarrow> unat (va_address_len a) \<le> 511"
  using le_su_MAX [of 9 "va_address_len a"] by (simp add: va_valid_def)

lemma length_va_bits:
  assumes "va_valid a"
  shows "length (va_bits a) = va_bit_len a" "va_bit_len a \<le> 591"
proof -
  have "case va_anycast a of None \<Rightarrow> True | Some x \<Rightarrow> ac_valid x \<and> ac_bit_len x \<le> 36"
    using assms ac_bit_len_le by (auto simp: va_valid_def split: option.split)
  with va_valid_len [OF assms] show "length (va_bits a) = va_bit_len a" "va_bit_len a \<le> 591"
    by (auto simp: va_bits_def va_field_bits_def length_opt_ac_bits va_bit_len_def Let_def u16_ac_bit_len split: option.splits)
qed

lemma va_stores:
  assumes "va_valid a"
  shows "appends (va_store_into a) (va_bits a) []"
proof -
  have v: "pred_option ac_valid (va_anycast a)" "su_is_valid 9 (va_address_len a)" "packed (unat (va_address_len a)) (va_address a)"
    using assms by (simp_all add: va_valid_def)
  have t: "word_bits 2 (0b11 :: byte) = [True, True]" by code_simp
  have "appends (\<lambda>b. ok (on_inner (\<lambda>d. store_small_uint d 0b11 2) b) (\<lambda>b.
       ok (store_option ac_store_into (va_anycast a) b) (\<lambda>b.
       ok (su_store_into 9 (va_address_len a) b) (\<lambda>b.
       ok (on_inner (\<lambda>d. store_u32 d (va_workchain a)) b)
       (on_inner (\<lambda>d. store_raw d (va_address a) (unat (va_address_len a)))))))) (va_bits a) []"
    using appends_bind [OF appends_small_uint [of 2 "0b11"] appends_bind [OF opt_ac_codec(1) [OF v(1)]
        appends_bind [OF su9_codec.store_appends [OF v(2)] appends_bind [OF u32_store.store_appends [of "va_workchain a"]
        appends_raw [OF v(3)]]]]] va_valid_len [OF assms]
    by (simp add: va_bits_def va_field_bits_def t)
  from appends_guarded [OF this length_va_bits(1) [OF assms]] length_va_bits(2) [OF assms] show ?thesis
    unfolding va_store_into_def [abs_def] by simp
qed

lemma va_fields_load:
  assumes "va_valid a"
  shows "loads va_load_fields (va_field_bits a) [] a"
proof -
  have v: "pred_option ac_valid (va_anycast a)" "su_is_valid 9 (va_address_len a)" "packed (unat (va_address_len a)) (va_address a)"
    using assms by (simp_all add: va_valid_def)
  let ?h = "\<lambda>p. \<lparr>va_anycast = va_anycast a, va_address_len = va_address_len a, va_workchain = va_workchain a, va_address = p\<rparr>"
  have "loads (\<lambda>s. Ok (?h (va_address a), s)) [] [] a" using loads_Ok [of a] by (cases a) simp
  from loads_raw [where g = "\<lambda>p s. Ok (?h p, s)", OF v(3) _ this] va_valid_len [OF assms] show ?thesis
    unfolding va_load_fields_def [abs_def] va_field_bits_def
    by (intro loads_then [OF opt_ac_codec(2) [OF v(1)]] loads_then [OF su9_codec.load_loads [OF v(2)]] loads_then [OF loads_u32]) simp
qed

fun ia_valid :: "int_addr \<Rightarrow> bool" where
  "ia_valid (IntStd a) = sa_valid a"
| "ia_valid (IntVar a) = va_valid a"

fun ia_bits :: "int_addr \<Rightarrow> bool list" where
  "ia_bits (IntStd a) = sa_bits a"
| "ia_bits (IntVar a) = va_bits a"

lemma ia_stores: "ia_valid a \<Longrightarrow> appends (ia_store_into a) (ia_bits a) []"
  using sa_stores va_stores by (cases a) (simp_all add: ia_store_into.simps [abs_def])

lemma ia_loads: "ia_valid a \<Longrightarrow> loads ia_load_from (ia_bits a) [] a"
proof (cases a)
  case (IntStd b)
  assume "ia_valid a"
  then show ?thesis
    unfolding ia_load_from_def [abs_def] IntStd ia_bits.simps sa_bits_def append.simps
    by (rule_tac loads_bits2, simp, rule_tac loads_bits2, simp, rule_tac loads_map [OF sa_fields_load]) simp
next
  case (IntVar b)
  assume "ia_valid a"
  then show ?thesis
    unfolding ia_load_from_def [abs_def] IntVar ia_bits.simps va_bits_def append.simps
    by (rule_tac loads_bits2, simp, rule_tac loads_bits2, simp, rule_tac loads_map [OF va_fields_load]) simp
qed

interpretation int_addr_codec: cell_codec ia_valid ia_bits "\<lambda>_. []" ia_store_into ia_load_from
  by unfold_locales (rule ia_stores, assumption, rule ia_loads, assumption)

section \<open>External addresses and unions\<close>

definition ea_valid :: "ext_addr \<Rightarrow> bool" where
  "ea_valid a \<longleftrightarrow> su_is_valid 9 (ea_data_bit_len a) \<and> packed (unat (ea_data_bit_len a)) (ea_data a)"

fun ext_bits :: "ext_addr option \<Rightarrow> bool list" where
  "ext_bits None = [False, False]"
| "ext_bits (Some a) = [False, True] @ word_bits 9 (ea_data_bit_len a) @ raw_bits (ea_data a) (unat (ea_data_bit_len a))"

lemma ea_valid_len: "ea_valid a \<Longrightarrow> unat (ea_data_bit_len a) \<le> 511"
  using le_su_MAX [of 9 "ea_data_bit_len a"] by (simp add: ea_valid_def)

lemma appends_zeros2: "appends (on_inner (\<lambda>d. store_zeros d 2)) [False, False] []"
  using appends_inner [of "\<lambda>d. store_zeros d 2" "replicate 2 False", OF store_zeros_mk] by (simp add: numeral_2_eq_2)

lemma ext_stores:
  assumes "pred_option ea_valid a"
  shows "appends (store_ext_addr a) (ext_bits a) []"
proof (cases a)
  case None
  then show ?thesis using appends_zeros2 by (simp add: store_ext_addr.simps [abs_def])
next
  case (Some e)
  then have v: "su_is_valid 9 (ea_data_bit_len e)" "packed (unat (ea_data_bit_len e)) (ea_data e)" "unat (ea_data_bit_len e) \<le> 511"
    using assms ea_valid_len by (simp_all add: ea_valid_def)
  have "appends (\<lambda>b. ok (on_inner store_bit_zero b) (\<lambda>b. ok (on_inner store_bit_one b) (\<lambda>b.
       ok (su_store_into 9 (ea_data_bit_len e) b)
       (on_inner (\<lambda>d. store_raw d (ea_data e) (unat (ea_data_bit_len e))))))) (ext_bits a) []"
    using appends_bind [OF appends_ops(1) appends_bind [OF appends_ops(2) appends_bind [OF su9_codec.store_appends [OF v(1)]
        appends_raw [OF v(2)]]]] v(3) Some by simp
  from appends_guarded [OF this refl] v(3) Some show ?thesis
    by (simp add: store_ext_addr.simps [abs_def])
qed

lemma ext_loads:
  assumes "pred_option ea_valid a"
  shows "loads load_ext_addr (ext_bits a) [] a"
proof (cases a)
  case None
  show ?thesis
    unfolding load_ext_addr_def [abs_def] None ext_bits.simps
    by (rule loads_bits2, simp, rule loads_bits2, simp, rule loads_Ok)
next
  case (Some e)
  then have v: "su_is_valid 9 (ea_data_bit_len e)" "packed (unat (ea_data_bit_len e)) (ea_data e)" "unat (ea_data_bit_len e) \<le> 1023"
    using assms ea_valid_len [of e] by (simp_all add: ea_valid_def)
  let ?h = "\<lambda>p. \<lparr>ea_data_bit_len = ea_data_bit_len e, ea_data = p\<rparr>"
  have "loads (\<lambda>s. Ok (Some (?h (ea_data e)), s)) [] [] (Some e)" using loads_Ok [of "Some e"] by (cases e) simp
  note r = loads_raw [OF v(2,3), where g = "\<lambda>p s. Ok (Some (?h p), s)", OF this]
  show ?thesis
    unfolding load_ext_addr_def [abs_def] Some ext_bits.simps append.simps
    by (rule loads_bits2, simp, rule loads_bits2, simp, rule loads_then [OF su9_codec.load_loads [OF v(1)]]) (use r in simp)
qed

interpretation ext_addr_codec: cell_codec "pred_option ea_valid" ext_bits "\<lambda>_. []" store_ext_addr load_ext_addr
  by unfold_locales (rule ext_stores, assumption, rule ext_loads, assumption)

lemma loads_peek:
  assumes "loads (h b) (b # xs) ys w"
  shows "loads (\<lambda>s. ok (get_bit s 0) (\<lambda>b. h b s)) (b # xs) ys w"
proof (rule loadsI)
  fix s r q assume s: "wf_slice s" "\<not> is_virtual (sl_cell s)" "slice_bits s = (b # xs) @ r" "slice_refs s = ys @ q"
  have "0 < size_bits s" using arg_cong [OF s(3), of length] by simp
  then have "get_bit s 0 = Ok b" using get_bit_spec [OF s(1), of 0] s(3) by simp
  then show "\<exists>s'. ok (get_bit s 0) (\<lambda>b. h b s) = Ok (w, s') \<and> wf_slice s' \<and> sl_cell s' = sl_cell s \<and> slice_bits s' = r \<and> slice_refs s' = q"
    using loadsE [OF assms s] by auto
qed

fun aa_valid :: "any_addr \<Rightarrow> bool" where
  "aa_valid AnyNone = True"
| "aa_valid (AnyExt a) = ea_valid a"
| "aa_valid (AnyStd a) = sa_valid a"
| "aa_valid (AnyVar a) = va_valid a"

fun aa_bits :: "any_addr \<Rightarrow> bool list" where
  "aa_bits AnyNone = ext_bits None"
| "aa_bits (AnyExt a) = ext_bits (Some a)"
| "aa_bits (AnyStd a) = sa_bits a"
| "aa_bits (AnyVar a) = va_bits a"

lemma aa_stores: "aa_valid a \<Longrightarrow> appends (aa_store_into a) (aa_bits a) []"
  using sa_stores va_stores ext_stores [of None] ext_stores [of "Some _"]
  by (cases a) (simp_all add: aa_store_into.simps [abs_def] del: store_ext_addr.simps)

lemma aa_load_int:
  assumes "loads ia_load_from (True # xs) [] a"
  shows "loads aa_load_from (True # xs) [] (case a of IntStd a \<Rightarrow> AnyStd a | IntVar a \<Rightarrow> AnyVar a)"
  unfolding aa_load_from_def [abs_def] by (rule loads_peek) (use loads_map [OF assms] in simp)

lemma aa_load_ext:
  assumes "loads load_ext_addr (False # xs) [] a"
  shows "loads aa_load_from (False # xs) [] (case a of Some a \<Rightarrow> AnyExt a | None \<Rightarrow> AnyNone)"
  unfolding aa_load_from_def [abs_def] by (rule loads_peek) (use loads_map [OF assms] in simp)

lemma aa_loads: "aa_valid a \<Longrightarrow> loads aa_load_from (aa_bits a) [] a"
  using aa_load_ext [OF ext_loads [of None, simplified]] aa_load_ext [OF ext_loads [of "Some _", simplified]]
    aa_load_int [OF ia_loads [of "IntStd _", simplified, unfolded sa_bits_def, simplified]]
    aa_load_int [OF ia_loads [of "IntVar _", simplified, unfolded va_bits_def, simplified]]
  by (cases a) (simp_all add: sa_bits_def va_bits_def)

interpretation any_addr_codec: cell_codec aa_valid aa_bits "\<lambda>_. []" aa_store_into aa_load_from
  by unfold_locales (rule aa_stores, assumption, rule aa_loads, assumption)

definition opt_ia_bits :: "int_addr option \<Rightarrow> bool list" where
  "opt_ia_bits a = (case a of None \<Rightarrow> [False, False] | Some a \<Rightarrow> ia_bits a)"

lemma opt_ia_stores: "pred_option ia_valid a \<Longrightarrow> appends (store_opt_int_addr a) (opt_ia_bits a) []"
  using ia_stores appends_zeros2 by (cases a) (simp_all add: store_opt_int_addr.simps [abs_def] opt_ia_bits_def)

lemma opt_ia_loads:
  assumes "pred_option ia_valid a"
  shows "loads load_opt_int_addr (opt_ia_bits a) [] a"
proof (cases a)
  case None
  have "word_bits 2 (0 :: byte) = [False, False]" by code_simp
  then have "loads (\<lambda>s. load_small_uint s 2) [False, False] [] 0" using loads_small_uint [of 2 0] by simp
  from loads_then [OF this, of "\<lambda>tag s. if tag = 0b00 then Ok (None, s) else Err InvalidTag" "[]" "[]" None] loads_Ok [of None]
  show ?thesis
    unfolding load_opt_int_addr_def [abs_def] None opt_ia_bits_def option.case by (intro loads_peek) simp
next
  case (Some b)
  then have "loads ia_load_from (ia_bits b) [] b" using assms by (simp add: ia_loads)
  moreover obtain xs where "ia_bits b = True # xs" by (cases b) (auto simp: sa_bits_def va_bits_def)
  ultimately show ?thesis
    unfolding load_opt_int_addr_def [abs_def] Some opt_ia_bits_def option.case
    by (simp only: ) (intro loads_peek, simp add: loads_map)
qed

interpretation opt_int_addr_codec: cell_codec "pred_option ia_valid" opt_ia_bits "\<lambda>_. []" store_opt_int_addr load_opt_int_addr
  by unfold_locales (rule opt_ia_stores, assumption, rule opt_ia_loads, assumption)

section \<open>External addresses are normalized\<close>

lemma ea_mask_bit:
  assumes "0 < r" "r < 8" "k < 8"
  shows "bit (push_bit 1 (NOT (push_bit (7 - r) 1 - 1)) :: byte) (7 - k) \<longleftrightarrow> k < r"
proof -
  have "(push_bit (7 - r) 1 - 1 :: byte) = mask (7 - r)" by (simp add: mask_eq_exp_minus_1 push_bit_eq_mult)
  then have "bit (push_bit 1 (NOT (push_bit (7 - r) 1 - 1)) :: byte) (7 - k) \<longleftrightarrow> bit (push_bit 1 (NOT (mask (7 - r))) :: byte) (7 - k)"
    by (simp only:)
  also have "\<dots> \<longleftrightarrow> k < r" unfolding bit_push_bit_iff bit_not_iff bit_mask_iff using assms by auto
  finally show ?thesis .
qed

lemma ea_new_packs:
  assumes "ea_new n data = Some a"
  shows "ea_data_bit_len a = n" "su_is_valid 9 n" "ea_data a = pack_bits (take (unat n) (bytes_bits data @ replicate (unat n) False))"
proof -
  show "ea_data_bit_len a = n" "su_is_valid 9 n" using assms by (auto simp: ea_new_def Let_def split: if_splits)
  define N where "N = unat n"
  define B where "B = div_ceil8 N"
  define d where "d = take B data @ replicate (B - length data) 0"
  have B: "N \<le> 8 * B" "8 * B < N + 8" using div_ceil8_bounds [of N] by (simp_all add: B_def)
  have l: "length d = B" by (simp add: d_def)
  have nd: "nbit d i \<longleftrightarrow> i < 8 * length data \<and> nbit data i" if "i < 8 * B" for i
    using that by (cases "length data < B") (auto simp: d_def nbit_append nbit_take nbit_replicate)
  have a: "ea_data a = (if N mod 8 > 0 then d[B - 1 := d ! (B - 1) AND push_bit 1 (NOT (push_bit (7 - N mod 8) 1 - 1))] else d)"
    using assms by (auto simp: ea_new_def Let_def N_def B_def d_def split: if_splits)
  show "ea_data a = pack_bits (take (unat n) (bytes_bits data @ replicate (unat n) False))"
    unfolding N_def [symmetric]
  proof (rule pack_bits_eqI)
    show "length (ea_data a) = div_ceil8 (length (take N (bytes_bits data @ replicate N False)))"
      using l by (simp add: a B_def min_def)
    fix i assume "i < 8 * length (ea_data a)"
    then have i: "i < 8 * B" using l by (simp add: a split: if_splits)
    have m: "nbit (ea_data a) i \<longleftrightarrow> nbit d i \<and> i < N"
    proof (cases "N mod 8 > 0")
      case True
      obtain Q J where J: "N = 8 * Q + J" "J < 8" "N mod 8 = J" by (rule split_index8)
      then have Q: "B = Q + 1" using B True by linarith
      then have q: "0 < B" "B - 1 = Q" by simp_all
      have "nbit (ea_data a) i \<longleftrightarrow> nbit d i \<and> (8 * (B - 1) \<le> i \<and> i < 8 * (B - 1) + 8 \<longrightarrow> i - 8 * (B - 1) < N mod 8)"
        using True q(1) l ea_mask_bit [OF True, of "i - 8 * (B - 1)"] by (auto simp: a nbit_and)
      moreover have "(8 * Q \<le> i \<and> i < 8 * Q + 8 \<longrightarrow> i - 8 * Q < J) \<longleftrightarrow> i < 8 * Q + J"
        using i unfolding Q by (cases "8 * Q \<le> i") auto
      ultimately show ?thesis unfolding q(2) J(3) J(1) [symmetric] by (simp only:)
    next
      case False
      obtain Q where Q: "N = 8 * Q" using False by (auto elim: dvdE simp: mod_eq_0_iff_dvd)
      then have "Q = B" using B by linarith
      then have "N = 8 * B" using Q by simp
      then show ?thesis using False i by (simp add: a)
    qed
    show "nbit (ea_data a) i \<longleftrightarrow> i < length (take N (bytes_bits data @ replicate N False))
        \<and> take N (bytes_bits data @ replicate N False) ! i"
      unfolding m nd [OF i] by (auto simp: nth_append)
  qed
qed

lemma ea_new_valid:
  assumes "ea_new n data = Some a"
  shows "ea_valid a"
proof -
  note p = ea_new_packs [OF assms]
  have "packed (unat n) (ea_data a)"
    unfolding p(3) using packed_pack [of "take (unat n) (bytes_bits data @ replicate (unat n) False)"]
    by (simp only: length_take length_append length_replicate min_absorb2 le_add2)
  then show ?thesis using p(1,2) by (simp add: ea_valid_def)
qed

section \<open>Keys of dictionaries\<close>

lemma sa_key_bits:
  assumes "sa_anycast a = None" "length (sa_address a) = 32"
  shows "sa_bits a = [True, False, False] @ word_bits 8 (sa_workchain a) @ bytes_bits (sa_address a)" "length (sa_bits a) = 267"
  using assms by (simp_all add: sa_bits_def sa_field_bits_def opt_ac_bits_def)

lemma sa_key_stores:
  assumes "sa_anycast a = None" "length (sa_address a) = 32"
  shows "sa_store_into_data a bd_new = Ok (mk_bd (sa_bits a))"
proof -
  have t: "word_bits 3 (0b100 :: byte) = [True, False, False]" by code_simp
  then show ?thesis
    using assms by (simp add: sa_store_into_data_def bd_new_mk has_capacity_bits_def sa_BITS_WITHOUT_ANYCAST_def MAX_BIT_LEN_def
        appended_def sa_key_bits)
qed

lemma sa_key_loads:
  assumes "sa_anycast a = None" "length (sa_address a) = 32"
  shows "sa_load_from_data (mk_bd (sa_bits a)) = Some a"
proof -
  let ?d = "pad128 (sa_bits a)"
  have nb: "nbit ?d i \<longleftrightarrow> i < 267 \<and> sa_bits a ! i" if "i < 1024" for i
    using nbit_pad128 [of "sa_bits a" i] that sa_key_bits(2) [OF assms] by simp
  have b: "bit (?d ! q) j \<longleftrightarrow> sa_bits a ! (8 * q + (7 - j))" if "j < 8" "q < 2" for q j
  proof -
    have "8 * q + (7 - j) < 267" "7 - (7 - j) = j" "7 - j < 8" using that by simp_all
    then show ?thesis using nb [of "8 * q + (7 - j)"] nbit_block [of "7 - j" ?d q] by simp
  qed
  have w: "sa_bits a ! (3 + i) = word_bits 8 (sa_workchain a) ! i" if "i < 8" for i
    using that by (simp add: sa_key_bits(1) [OF assms] nth_append)
  have x: "sa_bits a ! (11 + i) = nbit (sa_address a) i" if "i < 256" for i
    using that assms(2) by (simp add: sa_key_bits(1) [OF assms] nth_append nth_Cons')
  have nib: "sa_bits a ! 0" "\<not> sa_bits a ! 1" "\<not> sa_bits a ! 2" by (simp_all add: sa_key_bits(1) [OF assms])
  have ok: "(?d ! 0 XOR 0b10000000) AND 0b11100000 = (0 :: byte)"
  proof (rule bit_word_eqI)
    fix j assume "j < LENGTH(8)"
    then have "j \<in> {0, 1, 2, 3, 4, 5, 6, 7}" by auto
    then show "bit ((?d ! 0 XOR 0b10000000) AND 0b11100000) j = bit (0 :: byte) j"
      using b [of j 0] nib by (auto simp: bit_and_iff bit_xor_iff eval_nat_numeral)
  qed
  have wc: "push_bit 3 (?d ! 0) OR drop_bit 5 (?d ! 1) = sa_workchain a"
  proof (rule bit_word_eqI)
    fix j assume j: "j < LENGTH(8)"
    show "bit (push_bit 3 (?d ! 0) OR drop_bit 5 (?d ! 1)) j = bit (sa_workchain a) j"
    proof (cases "3 \<le> j")
      case True
      then have e: "8 * 0 + (7 - (j - 3)) = 3 + (7 - j)" "j - 3 < 8" using j by simp_all
      have "bit (?d ! 0) (j - 3) = bit (sa_workchain a) j"
        using b [OF e(2), of 0] w [of "7 - j"] j unfolding e(1) by simp
      moreover have "\<not> bit (?d ! 1) (5 + j)" using True by (auto dest: bit_imp_le_length)
      ultimately show ?thesis using True j by (simp add: bit_or_iff bit_push_bit_iff bit_drop_bit_eq)
    next
      case False
      then have e: "8 * 1 + (7 - (5 + j)) = 3 + (7 - j)" "5 + j < 8" using j by simp_all
      have "bit (?d ! 1) (5 + j) = bit (sa_workchain a) j"
        using b [OF e(2), of 1] w [of "7 - j"] j unfolding e(1) by simp
      then show ?thesis using False j by (simp add: bit_or_iff bit_push_bit_iff bit_drop_bit_eq)
    qed
  qed
  have "sa_address a = to_be_bytes (drop_bit 5 (from_be_bytes (take 16 (drop 2 ?d))) OR push_bit 123 (ucast (?d ! 1)) :: 128 word)
      @ to_be_bytes (drop_bit 5 (from_be_bytes (take 16 (drop 16 (drop 2 ?d)))) OR push_bit 123 (from_be_bytes (take 16 (drop 2 ?d))) :: 128 word)"
    (is "_ = to_be_bytes ?hi @ to_be_bytes ?lo")
  proof (rule byte_list_eqI)
    show "length (sa_address a) = length (to_be_bytes ?hi @ to_be_bytes ?lo)" using assms(2) by simp
    fix i assume "i < 8 * length (sa_address a)"
    then have i: "i < 256" using assms(2) by simp
    have L: "length ?d = 128" by (rule length_pad128) (simp add: sa_key_bits(2) [OF assms])
    have be: "bit (from_be_bytes (take 16 (drop q ?d)) :: 128 word) j \<longleftrightarrow> j < 128 \<and> nbit ?d (8 * q + (127 - j))" if "q \<le> 100" for q j
      using that L by (auto simp: bit_from_be_bytes nbit_take nbit_drop)
    have hi: "bit (from_be_bytes (take 16 (drop 2 ?d)) :: 128 word) j \<longleftrightarrow> j < 128 \<and> sa_bits a ! (16 + (127 - j))" for j
      using be [of 2 j] nb [of "16 + (127 - j)"] by auto
    have lo: "bit (from_be_bytes (take 16 (drop 16 (drop 2 ?d))) :: 128 word) j \<longleftrightarrow> j < 128 \<and> 144 + (127 - j) < 267 \<and> sa_bits a ! (144 + (127 - j))" for j
      using be [of 18 j] nb [of "144 + (127 - j)"] by auto
    show "nbit (sa_address a) i = nbit (to_be_bytes ?hi @ to_be_bytes ?lo) i"
    proof (cases "i < 128")
      case True
      then have "nbit (to_be_bytes ?hi @ to_be_bytes ?lo) i \<longleftrightarrow> bit ?hi (127 - i)" by (simp add: nbit_append nbit_to_be_bytes)
      also have "\<dots> \<longleftrightarrow> sa_bits a ! (11 + i)"
      proof (cases "i < 5")
        case T: True
        then have "8 * 1 + (7 - (4 - i)) = 11 + i" "123 \<le> 127 - i" "127 - i < 128" "4 - i < 128" "\<not> 132 - i < 128" by simp_all
        then show ?thesis using T b [of "4 - i" 1] by (simp add: bit_or_iff bit_push_bit_iff bit_drop_bit_eq bit_ucast_iff hi)
      next
        case F: False
        then have "16 + (127 - (5 + (127 - i))) = 11 + i" "\<not> 123 \<le> 127 - i" "132 - i < 128" using True by simp_all
        then show ?thesis using F True by (simp add: bit_or_iff bit_push_bit_iff bit_drop_bit_eq hi)
      qed
      finally show ?thesis using x [OF i] by simp
    next
      case False
      define k where "k = i - 128"
      have k: "i = 128 + k" "k < 128" using False i by (simp_all add: k_def)
      have "nbit (to_be_bytes ?hi @ to_be_bytes ?lo) i \<longleftrightarrow> bit ?lo (127 - k)" using k by (simp add: nbit_append nbit_to_be_bytes)
      also have "\<dots> \<longleftrightarrow> sa_bits a ! (139 + k)"
      proof (cases "k < 5")
        case T: True
        then have "123 \<le> 127 - k" "127 - k < 128" "127 - k - 123 = 4 - k" "16 + (127 - (4 - k)) = 139 + k" "4 - k < 128"
          "\<not> 132 - k < 128" by simp_all
        then show ?thesis unfolding bit_or_iff bit_push_bit_iff bit_drop_bit_eq comp_def hi lo by simp
      next
        case F: False
        then have "\<not> 123 \<le> 127 - k" "144 + (127 - (5 + (127 - k))) = 139 + k" "5 + (127 - k) < 128" "132 - k < 128" "139 + k < 267" using k(2) by simp_all
        then show ?thesis unfolding bit_or_iff bit_push_bit_iff bit_drop_bit_eq comp_def hi lo using F by auto
      qed
      also have "139 + k = 11 + i" using k by simp
      finally show ?thesis using x [OF i] by simp
    qed
  qed
  then show ?thesis
    using ok wc assms(1) by (cases a) (simp add: sa_load_from_data_def Let_def)
qed

end
