(* ===== verification/Account_Props.thy ===== *)
theory Account_Props
  imports Account Address_Props
begin

text \<open>
  Balances and accounts in cells: each type is a codec (locale \<open>cell_codec\<close>), and the computed sizes are
  the lengths of what is stored.
\<close>

unbundle bit_operations_syntax

section \<open>Options\<close>

definition opt_bits :: "('v \<Rightarrow> bool list) \<Rightarrow> 'v option \<Rightarrow> bool list" where
  "opt_bits f v = (case v of None \<Rightarrow> [False] | Some x \<Rightarrow> True # f x)"

definition opt_list :: "('v \<Rightarrow> 'a list) \<Rightarrow> 'v option \<Rightarrow> 'a list" where
  "opt_list f v = (case v of None \<Rightarrow> [] | Some x \<Rightarrow> f x)"

lemma opt_list_Nil [simp]: "opt_list (\<lambda>_. []) v = []"
  by (simp add: opt_list_def split: option.split)

context cell_codec begin

lemma opt_codec:
  assumes "pred_option valid v"
  shows "appends (store_option store v) (opt_bits bits_of v) (opt_list refs_of v)"
    "loads (load_option load) (opt_bits bits_of v) (opt_list refs_of v) v"
  using option_appends [of v] option_loads [of v] assms by (cases v; simp add: opt_bits_def opt_list_def)+

end

lemmas opt_sd = split_depth_codec.opt_codec [simplified]
  and opt_tokens = tokens_codec.opt_codec [simplified]

lemma appends_u32: "appends (on_inner (\<lambda>d. store_u32 d v)) (word_bits 32 v) []"
  by (rule u32_store.store_appends) simp

lemma appends_u64: "appends (on_inner (\<lambda>d. store_u64 d v)) (word_bits 64 v) []"
  by (rule appends_inner) simp

lemma appends_bit: "appends (on_inner (\<lambda>d. store_bit d v)) [v] []"
  by (rule appends_inner) simp

section \<open>Currencies\<close>

definition cc_valid :: "currency_collection \<Rightarrow> bool" where
  "cc_valid c \<longleftrightarrow> vu_is_valid 15 (cc_tokens c)"

definition cc_bits :: "currency_collection \<Rightarrow> bool list" where
  "cc_bits c = vu_bits 15 (cc_tokens c) @ [\<not> td_is_empty (cc_other c)]"

definition cc_refs :: "currency_collection \<Rightarrow> cell list" where
  "cc_refs c = opt_refs (td_root (cc_other c))"

lemma cc_stores: "cc_valid c \<Longrightarrow> appends (cc_store_into c) (cc_bits c) (cc_refs c)"
  using appends_bind [OF tokens_codec.store_appends dict_codec.store_appends, of "cc_tokens c" "cc_other c"]
  by (simp add: cc_store_into_def [abs_def] cc_bits_def cc_refs_def cc_valid_def)

lemma cc_loads: "cc_valid c \<Longrightarrow> loads cc_load_from (cc_bits c) (cc_refs c) c"
  using loads_fields2 [OF tokens_codec.load_loads dict_codec.load_loads,
      where h = "\<lambda>x y. \<lparr>cc_tokens = x, cc_other = y\<rparr>", of "cc_tokens c" "cc_other c"]
  by (cases c) (simp add: cc_load_from_def [abs_def] cc_bits_def cc_refs_def cc_valid_def)

interpretation currency_codec: cell_codec cc_valid cc_bits cc_refs cc_store_into cc_load_from
  by unfold_locales (rule cc_stores, assumption, rule cc_loads, assumption)

lemma length_vu_bits:
  assumes "vu_is_valid 15 (v :: 128 word)"
  shows "length (vu_bits 15 v) = vu_unwrap_bit_len 15 v" "vu_unwrap_bit_len 15 v \<le> 124"
    "vu_exact_size 15 v = \<lparr>sz_bits = vu_unwrap_bit_len 15 v, sz_refs = 0\<rparr>"
proof -
  have "vu_bytes v \<le> 15" using vu_is_valid_bytes [of 15 v] assms by simp
  then show "length (vu_bits 15 v) = vu_unwrap_bit_len 15 v" "vu_unwrap_bit_len 15 v \<le> 124"
    "vu_exact_size 15 v = \<lparr>sz_bits = vu_unwrap_bit_len 15 v, sz_refs = 0\<rparr>"
    by (simp_all add: vu_bits_def vu_unwrap_bit_len_def vu_exact_size_def vu_bit_len_def vu_LEN_BITS_values)
qed

lemma length_opt_refs: "length (opt_refs c) = of_bool (c \<noteq> None)"
  by (simp add: opt_refs_def split: option.split)

lemma length_cc_bits:
  assumes "cc_valid c"
  shows "length (cc_bits c) = cc_bit_len c" "cc_bit_len c \<le> 125"
    "cc_exact_size c = \<lparr>sz_bits = length (cc_bits c), sz_refs = length (cc_refs c)\<rparr>" "length (cc_refs c) \<le> 1"
  using length_vu_bits [of "cc_tokens c"] assms
  by (simp_all add: cc_valid_def cc_bits_def cc_bit_len_def cc_exact_size_def size_add_def td_exact_size_def cc_refs_def
      length_opt_refs del: of_bool_eq_1_iff)

section \<open>State of an account\<close>

lemma flag_bits:
  "word_bits 2 (push_bit 1 (of_bool x) OR of_bool y :: byte) = [x, y]"
  "(push_bit 1 (of_bool x) OR of_bool y :: byte) AND 0b10 \<noteq> 0 \<longleftrightarrow> x"
  "(push_bit 1 (of_bool x) OR of_bool y :: byte) AND 0b01 \<noteq> 0 \<longleftrightarrow> y"
  "unat (push_bit 1 (of_bool x) OR of_bool y :: byte) < 2 ^ 2"
proof -
  have "word_bits 2 (2 :: byte) = [True, False]" "word_bits 2 (1 :: byte) = [False, True]"
    "word_bits 2 (0 :: byte) = [False, False]" "word_bits 2 (3 :: byte) = [True, True]" by code_simp+
  then show "word_bits 2 (push_bit 1 (of_bool x) OR of_bool y :: byte) = [x, y]" by (cases x; cases y) simp_all
qed (cases x; cases y; simp)+

definition sf_bits :: "special_flags \<Rightarrow> bool list" where
  "sf_bits f = [sf_tick f, sf_tock f]"

interpretation flags_codec: cell_codec "\<lambda>_. True" sf_bits "\<lambda>_. []" sf_store_into sf_load_from
proof (unfold_locales)
  fix f :: special_flags
  let ?w = "push_bit 1 (of_bool (sf_tick f)) OR of_bool (sf_tock f) :: byte"
  show "appends (sf_store_into f) (sf_bits f) []"
    using appends_small_uint [of 2 ?w] unfolding sf_store_into_def [abs_def] flag_bits(1) sf_bits_def by simp
  have "loads (\<lambda>s. load_small_uint s 2) [sf_tick f, sf_tock f] [] ?w"
    using loads_small_uint [of 2 ?w] flag_bits(4) [of "sf_tick f" "sf_tock f"] unfolding flag_bits(1) by simp
  from loads_map [OF this, where h = "\<lambda>data. \<lparr>sf_tick = data AND 0b10 \<noteq> 0, sf_tock = data AND 0b01 \<noteq> 0\<rparr>"]
  show "loads sf_load_from (sf_bits f) [] f"
    unfolding sf_load_from_def [abs_def] flag_bits sf_bits_def by (cases f) simp
qed

interpretation simple_lib_codec: cell_codec "\<lambda>_. True" "\<lambda>l. [lib_public l]" "\<lambda>l. [lib_root l]" lib_store_into lib_load_from
proof (unfold_locales)
  fix l :: simple_lib
  show "appends (lib_store_into l) [lib_public l] [lib_root l]"
    using appends_bind [OF appends_bit appends_store_reference, of "lib_public l" "lib_root l"]
    by (simp add: lib_store_into_def [abs_def])
  show "loads lib_load_from [lib_public l] [lib_root l] l"
    using loads_fields2 [OF loads_bit loads_reference_cloned, where h = "\<lambda>x y. \<lparr>lib_public = x, lib_root = y\<rparr>", of "lib_public l" "lib_root l"]
    by (cases l) (simp add: lib_load_from_def [abs_def])
qed

definition init_valid :: "state_init \<Rightarrow> bool" where
  "init_valid i \<longleftrightarrow> pred_option (\<lambda>v. 0 < v \<and> v < 32) (init_split_depth i)"

definition init_bits :: "state_init \<Rightarrow> bool list" where
  "init_bits i = opt_bits (word_bits 5) (init_split_depth i) @ opt_bits sf_bits (init_special i)
     @ [init_code i \<noteq> None] @ [init_data i \<noteq> None] @ [\<not> td_is_empty (init_libraries i)]"

definition init_refs :: "state_init \<Rightarrow> cell list" where
  "init_refs i = opt_refs (init_code i) @ opt_refs (init_data i) @ opt_refs (td_root (init_libraries i))"

lemma opt_sf:
  "appends (store_option sf_store_into f) (opt_bits sf_bits f) []" "loads (load_option sf_load_from) (opt_bits sf_bits f) [] f"
  using flags_codec.opt_codec [of f] by (simp_all add: pred_option_def)

lemma init_stores: "init_valid i \<Longrightarrow> appends (init_store_into i) (init_bits i) (init_refs i)"
  using appends_bind [OF opt_sd(1) appends_bind [OF opt_sf(1) appends_bind [OF opt_cell_codec(1) appends_bind [OF opt_cell_codec(1)
      dict_codec.store_appends [OF TrueI]]]], of "init_split_depth i" "init_special i" "init_code i" "init_data i" "init_libraries i"]
  by (simp add: init_store_into_def [abs_def] init_bits_def init_refs_def init_valid_def del: not_None_eq)

lemma init_loads: "init_valid i \<Longrightarrow> loads init_load_from (init_bits i) (init_refs i) i"
  using loads_fields5 [OF opt_sd(2) opt_sf(2) opt_cell_codec(2) opt_cell_codec(2) dict_codec.load_loads [OF TrueI],
      where h = "\<lambda>a b c d e. \<lparr>init_split_depth = a, init_special = b, init_code = c, init_data = d, init_libraries = e\<rparr>",
      of "init_split_depth i" "init_special i" "init_code i" "init_data i" "init_libraries i"]
  by (cases i) (simp add: init_load_from_def [abs_def] init_bits_def init_refs_def init_valid_def del: not_None_eq)

interpretation state_init_codec: cell_codec init_valid init_bits init_refs init_store_into init_load_from
  by unfold_locales (rule init_stores, assumption, rule init_loads, assumption)

lemma length_init_bits:
  "length (init_bits i) = init_bit_len i" "length (init_refs i) = init_reference_count i" "init_bit_len i \<le> 12" "init_reference_count i \<le> 3"
  by (auto simp: init_bits_def init_refs_def init_bit_len_def init_reference_count_def opt_bits_def sf_bits_def sd_BITS_def sf_BITS_def
      length_opt_refs td_is_empty_def split: option.split)

interpretation status_codec: cell_codec "\<lambda>_. True" "\<lambda>s. word_bits 2 (status_to_byte s)" "\<lambda>_. []" status_store_into status_load_from
proof (unfold_locales)
  fix s :: account_status
  show "appends (status_store_into s) (word_bits 2 (status_to_byte s)) []"
    unfolding status_store_into_def [abs_def] by (rule appends_small_uint) simp
  have "unat (status_to_byte s) < 2 ^ 2" by (cases s) simp_all
  from loads_map [OF loads_small_uint [OF _ this], where h = "\<lambda>ty. if ty = 0b00 then Status_Uninit else if ty = 0b01 then Status_Frozen
        else if ty = 0b10 then Status_Active else Status_NotExists"]
  show "loads status_load_from (word_bits 2 (status_to_byte s)) [] s"
    unfolding status_load_from_def [abs_def] by (cases s) simp_all
qed

fun acc_state_valid :: "account_state \<Rightarrow> bool" where
  "acc_state_valid Uninit = True"
| "acc_state_valid (Active i) = init_valid i"
| "acc_state_valid (Frozen h) = (length h = 32)"

fun acc_state_bits :: "account_state \<Rightarrow> bool list" where
  "acc_state_bits Uninit = [False, False]"
| "acc_state_bits (Active i) = True # init_bits i"
| "acc_state_bits (Frozen h) = [False, True] @ bytes_bits h"

fun acc_state_refs :: "account_state \<Rightarrow> cell list" where
  "acc_state_refs (Active i) = init_refs i"
| "acc_state_refs _ = []"

lemma acc_state_stores:
  assumes "acc_state_valid a"
  shows "appends (acc_state_store_into a) (acc_state_bits a) (acc_state_refs a)"
proof -
  have t: "word_bits 2 (0 :: byte) = [False, False]" "word_bits 2 (1 :: byte) = [False, True]" by code_simp+
  show ?thesis
    using assms appends_small_uint [of 2 0] appends_bind [OF appends_small_uint u256_store.store_appends, of 2 _ 1]
      appends_bind [OF appends_ops(2) init_stores]
    by (cases a) (simp_all add: acc_state_store_into.simps [abs_def] t)
qed

lemma acc_state_loads: "acc_state_valid a \<Longrightarrow> loads acc_state_load_from (acc_state_bits a) (acc_state_refs a) a"
proof (cases a)
  case Uninit
  then show ?thesis
    unfolding acc_state_load_from_def [abs_def] by simp (rule loads_bits2, simp, rule loads_bits2, simp, rule loads_Ok)
next
  case (Active i)
  assume "acc_state_valid a"
  then show ?thesis
    unfolding acc_state_load_from_def [abs_def] Active by simp (rule loads_bits2, simp, rule loads_map, rule init_loads)
next
  case (Frozen h)
  assume "acc_state_valid a"
  then show ?thesis
    unfolding acc_state_load_from_def [abs_def] Frozen
    by simp (rule loads_bits2, simp, rule loads_bits2, simp, rule loads_map, rule loads_u256)
qed

interpretation account_state_codec: cell_codec acc_state_valid acc_state_bits acc_state_refs acc_state_store_into acc_state_load_from
  by unfold_locales (rule acc_state_stores, assumption, rule acc_state_loads, assumption)

section \<open>Storage\<close>

definition used_valid :: "storage_used \<Rightarrow> bool" where
  "used_valid u \<longleftrightarrow> vu_is_valid 7 (used_cells u) \<and> vu_is_valid 7 (used_bits u)"

definition used_enc :: "storage_used \<Rightarrow> bool list" where
  "used_enc u = vu_bits 7 (used_cells u) @ vu_bits 7 (used_bits u)"

lemma used_stores: "used_valid u \<Longrightarrow> appends (used_store_into u) (used_enc u) []"
  using appends_bind [OF vu56_codec.store_appends vu56_codec.store_appends, of "used_cells u" "used_bits u"]
  by (simp add: used_store_into_def [abs_def] used_enc_def used_valid_def)

lemma used_loads: "used_valid u \<Longrightarrow> loads used_load_from (used_enc u) [] u"
  using loads_fields2 [OF vu56_codec.load_loads vu56_codec.load_loads,
      where h = "\<lambda>x y. \<lparr>used_cells = x, used_bits = y\<rparr>", of "used_cells u" "used_bits u"]
  by (cases u) (simp add: used_load_from_def [abs_def] used_enc_def used_valid_def)

interpretation storage_used_codec: cell_codec used_valid used_enc "\<lambda>_. []" used_store_into used_load_from
  by unfold_locales (rule used_stores, assumption, rule used_loads, assumption)

fun extra_valid :: "storage_extra \<Rightarrow> bool" where
  "extra_valid StorageExtra_None = True"
| "extra_valid (DictHash h) = (length h = 32)"

fun extra_bits :: "storage_extra \<Rightarrow> bool list" where
  "extra_bits StorageExtra_None = [False, False, False]"
| "extra_bits (DictHash h) = [False, False, True] @ bytes_bits h"

lemma extra_tags: "word_bits 3 (0 :: byte) = [False, False, False]" "word_bits 3 (1 :: byte) = [False, False, True]"
  by code_simp+

lemma extra_stores:
  assumes "extra_valid e"
  shows "appends (extra_store_into e) (extra_bits e) []"
proof -
  have "appends (on_inner (\<lambda>d. store_zeros d 3)) [False, False, False] []"
    using appends_inner [of "\<lambda>d. store_zeros d 3" "replicate 3 False", OF store_zeros_mk] by (simp add: numeral_3_eq_3)
  then show ?thesis
    using assms appends_bind [OF appends_small_uint u256_store.store_appends, of 3 _ 1]
    by (cases e) (simp_all add: extra_store_into.simps [abs_def] extra_tags)
qed

lemma extra_loads:
  assumes "extra_valid e"
  shows "loads extra_load_from (extra_bits e) [] e"
proof -
  have t: "loads (\<lambda>s. load_small_uint s 3) [False, False, False] [] 0" "loads (\<lambda>s. load_small_uint s 3) [False, False, True] [] 1"
    using loads_small_uint [of 3 0] loads_small_uint [of 3 1] by (simp_all add: extra_tags)
  let ?g = "\<lambda>tag s. if tag = 0b000 then Ok (StorageExtra_None, s)
    else if tag = 0b001 then ok (load_u256 s) (\<lambda>(h, s). Ok (DictHash h, s)) else Err InvalidTag"
  show ?thesis
  proof (cases e)
    case StorageExtra_None
    show ?thesis
      using loads_bind [OF t(1), of ?g "[]" "[]" StorageExtra_None] loads_Ok [of StorageExtra_None]
      unfolding extra_load_from_def [abs_def] StorageExtra_None by simp
  next
    case (DictHash h)
    then show ?thesis
      using loads_bind [OF t(2), of ?g "bytes_bits h" "[]" "DictHash h"] loads_map [OF loads_u256, of h DictHash] assms
      unfolding extra_load_from_def [abs_def] DictHash by simp
  qed
qed

interpretation storage_extra_codec: cell_codec extra_valid extra_bits "\<lambda>_. []" extra_store_into extra_load_from
  by unfold_locales (rule extra_stores, assumption, rule extra_loads, assumption)

definition info_valid :: "storage_info \<Rightarrow> bool" where
  "info_valid i \<longleftrightarrow> used_valid (info_used i) \<and> extra_valid (info_storage_extra i) \<and> pred_option (vu_is_valid 15) (info_due_payment i)"

definition info_bits :: "storage_info \<Rightarrow> bool list" where
  "info_bits i = used_enc (info_used i) @ extra_bits (info_storage_extra i) @ word_bits 32 (info_last_paid i)
     @ opt_bits (vu_bits 15) (info_due_payment i)"

lemma info_stores: "info_valid i \<Longrightarrow> appends (info_store_into i) (info_bits i) []"
  using appends_bind [OF used_stores appends_bind [OF extra_stores appends_bind [OF appends_u32 opt_tokens(1)]],
      of "info_used i" "info_storage_extra i" "info_due_payment i" "info_last_paid i"]
  by (simp add: info_store_into_def [abs_def] info_bits_def info_valid_def)

lemma info_loads: "info_valid i \<Longrightarrow> loads info_load_from (info_bits i) [] i"
  using loads_fields4 [OF used_loads extra_loads loads_u32 opt_tokens(2), where h = "\<lambda>a b c d.
      \<lparr>info_used = a, info_storage_extra = b, info_last_paid = c, info_due_payment = d\<rparr>",
      of "info_used i" "info_storage_extra i" "info_due_payment i" "info_last_paid i"]
  by (cases i) (simp add: info_load_from_def [abs_def] info_bits_def info_valid_def)

interpretation storage_info_codec: cell_codec info_valid info_bits "\<lambda>_. []" info_store_into info_load_from
  by unfold_locales (rule info_stores, assumption, rule info_loads, assumption)

section \<open>Accounts\<close>

definition acc_valid :: "account \<Rightarrow> bool" where
  "acc_valid a \<longleftrightarrow> ia_valid (acc_address a) \<and> info_valid (acc_storage_stat a) \<and> cc_valid (acc_balance a) \<and> acc_state_valid (acc_state a)"

definition acc_bits :: "account \<Rightarrow> bool list" where
  "acc_bits a = ia_bits (acc_address a) @ info_bits (acc_storage_stat a) @ word_bits 64 (acc_last_trans_lt a)
     @ cc_bits (acc_balance a) @ acc_state_bits (acc_state a)"

definition acc_refs :: "account \<Rightarrow> cell list" where
  "acc_refs a = cc_refs (acc_balance a) @ acc_state_refs (acc_state a)"

lemma acc_stores: "acc_valid a \<Longrightarrow> appends (acc_store_into a) (acc_bits a) (acc_refs a)"
  using appends_bind [OF ia_stores appends_bind [OF info_stores appends_bind [OF appends_u64 appends_bind [OF cc_stores acc_state_stores]]],
      of "acc_address a" "acc_storage_stat a" "acc_balance a" "acc_state a" "acc_last_trans_lt a"]
  by (simp add: acc_store_into_def [abs_def] acc_bits_def acc_refs_def acc_valid_def)

lemma acc_loads: "acc_valid a \<Longrightarrow> loads acc_load_from (acc_bits a) (acc_refs a) a"
  using loads_fields5 [OF ia_loads info_loads loads_u64 cc_loads acc_state_loads, where h = "\<lambda>a b c d e.
      \<lparr>acc_address = a, acc_storage_stat = b, acc_last_trans_lt = c, acc_balance = d, acc_state = e\<rparr>",
      of "acc_address a" "acc_storage_stat a" "acc_balance a" "acc_state a" "acc_last_trans_lt a"]
  by (cases a) (simp add: acc_load_from_def [abs_def] acc_bits_def acc_refs_def acc_valid_def)

interpretation account_codec: cell_codec acc_valid acc_bits acc_refs acc_store_into acc_load_from
  by unfold_locales (rule acc_stores, assumption, rule acc_loads, assumption)

interpretation opt_account_codec: cell_codec "pred_option acc_valid" "opt_bits acc_bits" "opt_list acc_refs" oa_store_into oa_load_from
  unfolding oa_store_into_def [abs_def] oa_load_from_def [abs_def]
  by unfold_locales (rule account_codec.opt_codec, assumption, rule account_codec.opt_codec, assumption)

definition sh_valid :: "shard_account \<Rightarrow> bool" where
  "sh_valid a \<longleftrightarrow> \<not> cell_is_exotic (lz_cell (sh_account a)) \<and> length (sh_last_trans_hash a) = 32"

definition sh_bits :: "shard_account \<Rightarrow> bool list" where
  "sh_bits a = bytes_bits (sh_last_trans_hash a) @ word_bits 64 (sh_last_trans_lt a)"

lemma sh_stores: "sh_valid a \<Longrightarrow> appends (sh_store_into a) (sh_bits a) [lz_cell (sh_account a)]"
  using appends_bind [OF lz_codec(1) appends_bind [OF u256_store.store_appends appends_u64],
      of "sh_last_trans_hash a" "sh_account a" "sh_last_trans_lt a"]
  by (simp add: sh_store_into_def [abs_def] sh_bits_def sh_valid_def)

lemma sh_loads: "sh_valid a \<Longrightarrow> loads sh_load_from (sh_bits a) [lz_cell (sh_account a)] a"
  using loads_fields3 [OF lazy_codec.load_loads loads_u256 loads_u64, where h = "\<lambda>a b c.
      \<lparr>sh_account = a, sh_last_trans_hash = b, sh_last_trans_lt = c\<rparr>",
      of "sh_account a" "sh_last_trans_hash a" "sh_last_trans_lt a"]
  by (cases a) (simp add: sh_load_from_def [abs_def] sh_bits_def sh_valid_def)

interpretation shard_account_codec: cell_codec sh_valid sh_bits "\<lambda>a. [lz_cell (sh_account a)]" sh_store_into sh_load_from
  by unfold_locales (rule sh_stores, assumption, rule sh_loads, assumption)

lemma length_acc_refs: "length (acc_refs a) \<le> 4"
proof -
  have "length (acc_state_refs (acc_state a)) \<le> 3" using length_init_bits by (cases "acc_state a") simp_all
  then show ?thesis by (simp add: acc_refs_def cc_refs_def length_opt_refs)
qed

section \<open>The storage of an account\<close>

lemma reduce_stack_limit:
  "fst (reduce_stack stack s) \<Longrightarrow> st_cell_count (ss_stats (snd (reduce_stack stack s))) \<le> max (st_cell_count (ss_stats s)) (ss_limit s)"
proof (induction stack s rule: reduce_stack.induct)
  case (2 item stack s)
  obtain x item' where n: "ri_next item = (x, item')" by (cases "ri_next item")
  show ?case
  proof (cases x)
    case None
    then show ?thesis using 2 n by (simp add: reduce_stack.simps)
  next
    case (Some c)
    let ?s = "ss_count_cell c (ss_visit c s)"
    have l: "st_cell_count (ss_stats (ss_visit c s)) = st_cell_count (ss_stats s)"
      "st_cell_count (ss_stats ?s) = st_cell_count (ss_stats s) + 1" "ss_limit ?s = ss_limit s"
      by (simp_all add: ss_visit_def ss_count_cell_def)
    show ?thesis
    proof (cases "repr_hash c \<in> ss_visited s")
      case True
      then show ?thesis using 2(2) [OF n [symmetric] Some True] 2(5) n Some by (simp add: reduce_stack.simps)
    next
      case False
      show ?thesis
      proof (cases "ss_limit s \<le> st_cell_count (ss_stats s)")
        case True
        then show ?thesis using 2(5) n Some False l by (simp add: reduce_stack.simps(2) [of item])
      next
        case le: False
        have c: "\<not> ss_limit (ss_visit c s) \<le> st_cell_count (ss_stats (ss_visit c s))" using le l by simp
        have e: "reduce_stack (item # stack) s = (if 0 < ri_max (references c) then reduce_stack (references c # item' # stack) ?s
            else reduce_stack (item' # stack) ?s)"
          using c False by (simp add: reduce_stack.simps(2) [of item] n Some Let_def)
        note ih = 2(3) [OF n [symmetric] Some False refl c refl refl] 2(4) [OF n [symmetric] Some False refl c refl refl]
        have "st_cell_count (ss_stats (snd (reduce_stack (item # stack) s))) \<le> max (st_cell_count (ss_stats ?s)) (ss_limit ?s)"
          using ih 2(5) unfolding e by (cases "0 < ri_max (references c)") auto
        then show ?thesis using le l by simp
      qed
    qed
  qed
qed simp

lemma compute_for_cell_limit:
  assumes "ss_compute_for_cell c limit = Some st"
  shows "st_cell_count st \<le> max 1 limit"
  using assms reduce_stack_limit [of "[references c]" "ss_count_cell c (ss_visit c (ss_with_limit limit))"]
  by (auto simp: ss_compute_for_cell_def ss_add_cell_def case_prod_beta Let_def ss_count_cell_def ss_visit_def ss_with_limit_def
      stats_ZERO_def split: if_splits)

end
