(* ===== verification/Message_Info_Props.thy ===== *)
theory Message_Info_Props
  imports Message Account_Props
begin

text \<open>
  The headers of messages in cells. The checks of capacity of external headers count their tag, which is
  stored before, once more; a header therefore asks for two bits of room after it, which a message always
  fills (\<open>appends_room\<close>). The internal headers do not count their tag at all: their size is one bit short.
\<close>

unbundle bit_operations_syntax

section \<open>Stores that ask for room\<close>

text \<open>Like \<open>appends\<close>, but the store may be refused when less than \<open>k\<close> bits are left after it.\<close>

definition appends_room :: "nat \<Rightarrow> (cell_builder \<Rightarrow> cell_builder result) \<Rightarrow> bool list \<Rightarrow> cell list \<Rightarrow> bool" where
  "appends_room k f xs ys \<longleftrightarrow> (\<forall>bs rs. length bs \<le> 1023 \<and> length rs \<le> 4 \<longrightarrow>
     f (mk_cb bs rs) = cb_appended bs rs xs ys
     \<or> f (mk_cb bs rs) = Err CellOverflow \<and> 1023 < length bs + length xs + k)"

lemma appends_room: "appends f xs ys \<Longrightarrow> appends_room k f xs ys"
  by (simp add: appends_def appends_room_def)

lemma cb_appended_simps:
  "cb_appended bs rs xs ys = (if length bs + length xs \<le> 1023 \<and> length rs + length ys \<le> 4 then Ok (mk_cb (bs @ xs) (rs @ ys)) else Err CellOverflow)"
  by (simp add: cb_appended_def MAX_BIT_LEN_def MAX_REF_COUNT_def)

lemma appends_bind_room:
  assumes "appends f xs qs" "appends_room k g ys ss"
  shows "appends_room k (\<lambda>b. ok (f b) g) (xs @ ys) (qs @ ss)"
  unfolding appends_room_def
proof (intro allI impI, elim conjE)
  fix bs :: "bool list" and rs :: "cell list" assume l: "length bs \<le> 1023" "length rs \<le> 4"
  note f = appendsD [OF assms(1) l, unfolded cb_appended_simps]
  show "ok (f (mk_cb bs rs)) g = cb_appended bs rs (xs @ ys) (qs @ ss)
     \<or> ok (f (mk_cb bs rs)) g = Err CellOverflow \<and> 1023 < length bs + length (xs @ ys) + k"
  proof (cases "length bs + length xs \<le> 1023 \<and> length rs + length qs \<le> 4")
    case True
    then have "length (bs @ xs) \<le> 1023 \<and> length (rs @ qs) \<le> 4" by simp
    then have "g (mk_cb (bs @ xs) (rs @ qs)) = cb_appended (bs @ xs) (rs @ qs) ys ss
       \<or> g (mk_cb (bs @ xs) (rs @ qs)) = Err CellOverflow \<and> 1023 < length (bs @ xs) + length ys + k"
      using assms(2) unfolding appends_room_def by blast
    then show ?thesis using f True by (auto simp: cb_appended_simps)
  next
    case False
    then show ?thesis using f by (auto simp: cb_appended_simps)
  qed
qed

text \<open>What follows takes the room.\<close>

lemma appends_room_bind:
  assumes "appends_room k f xs qs" "appends g ys ss" "k \<le> length ys"
  shows "appends (\<lambda>b. ok (f b) g) (xs @ ys) (qs @ ss)"
proof (rule appendsI)
  fix bs :: "bool list" and rs :: "cell list" assume l: "length bs \<le> 1023" "length rs \<le> 4"
  then consider (a) "f (mk_cb bs rs) = cb_appended bs rs xs qs"
    | (e) "f (mk_cb bs rs) = Err CellOverflow" "1023 < length bs + length xs + k"
    using assms(1) unfolding appends_room_def by blast
  then show "ok (f (mk_cb bs rs)) g = cb_appended bs rs (xs @ ys) (qs @ ss)"
  proof cases
    case a
    show ?thesis
    proof (cases "length bs + length xs \<le> 1023 \<and> length rs + length qs \<le> 4")
      case True
      then show ?thesis using a appendsD [OF assms(2), of "bs @ xs" "rs @ qs"] by (simp add: cb_appended_simps)
    qed (use a in \<open>auto simp: cb_appended_simps\<close>)
  next
    case e
    then show ?thesis using assms(3) by (auto simp: cb_appended_simps)
  qed
qed

lemma appends_guard_room:
  assumes "appends f xs []" "length xs + k = n" "n \<le> 60000"
  shows "appends_room k (\<lambda>b. if \<not> has_capacity b n 0 then Err CellOverflow else f b) xs []"
  unfolding appends_room_def
proof (intro allI impI, elim conjE)
  fix bs :: "bool list" and rs :: "cell list" assume l: "length bs \<le> 1023" "length rs \<le> 4"
  have "has_capacity (mk_cb bs rs) n 0 \<longleftrightarrow> length bs + n \<le> 1023"
    using l assms(3) by (simp add: has_capacity_def mk_cb_def mk_bd_def MAX_BIT_LEN_def MAX_REF_COUNT_def)
  then show "(if \<not> has_capacity (mk_cb bs rs) n 0 then Err CellOverflow else f (mk_cb bs rs)) = cb_appended bs rs xs []
     \<or> (if \<not> has_capacity (mk_cb bs rs) n 0 then Err CellOverflow else f (mk_cb bs rs)) = Err CellOverflow
       \<and> 1023 < length bs + length xs + k"
    using appendsD [OF assms(1) l] assms(2) by simp
qed

section \<open>Source addresses\<close>

locale source_addr = cell_codec valid bits_of "\<lambda>_. []" store load
  for valid :: "'s \<Rightarrow> bool" and bits_of and store and load +
  fixes bit_len :: "'s \<Rightarrow> nat"
  assumes bits_length: "valid a \<Longrightarrow> length (bits_of a) = bit_len a \<and> bit_len a \<le> 591"
begin

lemma src_codec:
  "valid a \<Longrightarrow> appends (store a) (bits_of a) []" "valid a \<Longrightarrow> loads load (bits_of a) [] a"
  by (rule store_appends, assumption, rule load_loads, assumption)

end

lemma length_ia_bits: "ia_valid a \<Longrightarrow> length (ia_bits a) = ia_bit_len a \<and> ia_bit_len a \<le> 591"
  using length_sa_bits length_va_bits by (cases a) fastforce+

lemma length_ext_bits: "pred_option ea_valid a \<Longrightarrow> length (ext_bits a) = compute_ext_addr_bit_len a \<and> compute_ext_addr_bit_len a \<le> 522"
  using ea_valid_len by (cases a) (fastforce simp: ea_bit_len_def)+

interpretation int_src: source_addr ia_valid ia_bits ia_store_into ia_load_from ia_bit_len
  by unfold_locales (rule length_ia_bits)

interpretation opt_src: source_addr "pred_option ia_valid" opt_ia_bits store_opt_int_addr load_opt_int_addr compute_opt_int_addr_bit_len
  by unfold_locales (use length_ia_bits in \<open>force simp: opt_ia_bits_def split: option.split\<close>)

section \<open>Flags\<close>

lemma mf_cases:
  assumes "(f :: byte) \<le> 3"
  obtains "f = 0" | "f = 1" | "f = 2" | "f = 3"
proof -
  have "unat f \<le> 3" using assms by (simp add: word_le_nat_alt)
  then have "unat f = 0 \<or> unat f = 1 \<or> unat f = 2 \<or> unat f = 3" by auto
  then have "f = 0 \<or> f = 1 \<or> f = 2 \<or> f = 3" by (auto simp: word_unat_eq_iff)
  then show thesis using that by blast
qed

lemma mf_stored:
  assumes "f \<le> 3"
  shows "vu_is_valid 15 (mf_as_stored f)" "mf_from_stored (mf_as_stored f) = Some f"
    "length (vu_bits 15 (mf_as_stored f)) = mf_bit_len f" "mf_bit_len f \<le> 12"
proof -
  have "vu_is_valid 15 (mf_as_stored g) \<and> mf_from_stored (mf_as_stored g) = Some g
      \<and> length (vu_bits 15 (mf_as_stored g)) = mf_bit_len g \<and> mf_bit_len g \<le> 12" if "g = 0 \<or> g = 1 \<or> g = 2 \<or> g = 3" for g
  proof -
    have "vu_is_valid 15 (0 :: 128 word)" "vu_is_valid 15 (1 :: 128 word)" "vu_is_valid 15 (2 :: 128 word)" "vu_is_valid 15 (3 :: 128 word)"
      "vu_bytes (0 :: 128 word) = 0" "vu_bytes (1 :: 128 word) = 1" "vu_bytes (2 :: 128 word) = 1" "vu_bytes (3 :: 128 word) = 1"
      "(1 :: byte) AND NOT MF_ALL = 0" "(2 :: byte) AND NOT MF_ALL = 0" "(3 :: byte) AND NOT MF_ALL = 0"
      by code_simp+
    then show ?thesis
      using that by (auto simp: mf_as_stored_def mf_from_stored_def mf_from_bits_def vu_bits_def mf_bit_len_def vu_LEN_BITS_values)
  qed
  moreover have "f = 0 \<or> f = 1 \<or> f = 2 \<or> f = 3" using mf_cases [OF assms] by metis
  ultimately show "vu_is_valid 15 (mf_as_stored f)" "mf_from_stored (mf_as_stored f) = Some f"
    "length (vu_bits 15 (mf_as_stored f)) = mf_bit_len f" "mf_bit_len f \<le> 12" by blast+
qed

lemma mf_stores: "f \<le> 3 \<Longrightarrow> appends (mf_store_into f) (vu_bits 15 (mf_as_stored f)) []"
  unfolding mf_store_into_def [abs_def] by (rule tokens_stores) (rule mf_stored)

lemma mf_loads:
  assumes "f \<le> 3"
  shows "loads mf_load_from (vu_bits 15 (mf_as_stored f)) [] f"
proof -
  have "loads (\<lambda>s. case mf_from_stored (mf_as_stored f) of Some f \<Rightarrow> Ok (f, s) | None \<Rightarrow> Err InvalidData) [] [] f"
    by (simp add: mf_stored [OF assms] loads_Ok)
  from loads_then [where g = "\<lambda>v s. case mf_from_stored v of Some f \<Rightarrow> Ok (f, s) | None \<Rightarrow> Err InvalidData",
      OF tokens_codec.load_loads [OF mf_stored(1) [OF assms]] this]
  show ?thesis unfolding mf_load_from_def [abs_def] by simp
qed

interpretation extra_flags_codec: cell_codec "\<lambda>f. f \<le> 3" "\<lambda>f. vu_bits 15 (mf_as_stored f)" "\<lambda>_. []" mf_store_into mf_load_from
  by unfold_locales (rule mf_stores, assumption, rule mf_loads, assumption)

section \<open>Internal headers\<close>

definition im_valid :: "('s \<Rightarrow> bool) \<Rightarrow> 's int_msg_info \<Rightarrow> bool" where
  "im_valid src_valid i \<longleftrightarrow> src_valid (im_src i) \<and> ia_valid (im_dst i) \<and> cc_valid (im_value i) \<and> im_extra_flags i \<le> 3
     \<and> vu_is_valid 15 (im_fwd_fee i)"

definition im_bits :: "('s \<Rightarrow> bool list) \<Rightarrow> 's int_msg_info \<Rightarrow> bool list" where
  "im_bits src_bits i = [im_ihr_disabled i, im_bounce i, im_bounced i] @ src_bits (im_src i) @ ia_bits (im_dst i) @ cc_bits (im_value i)
     @ vu_bits 15 (mf_as_stored (im_extra_flags i)) @ vu_bits 15 (im_fwd_fee i) @ word_bits 64 (im_created_lt i) @ word_bits 32 (im_created_at i)"

definition im_refs :: "'s int_msg_info \<Rightarrow> cell list" where
  "im_refs i = cc_refs (im_value i)"

lemma flag3_bits:
  fixes x y z :: bool
  defines "w \<equiv> push_bit 2 (of_bool x) OR push_bit 1 (of_bool y) OR of_bool z :: byte"
  shows "word_bits 3 w = [x, y, z]" "w AND 0b100 \<noteq> 0 \<longleftrightarrow> x" "w AND 0b010 \<noteq> 0 \<longleftrightarrow> y" "w AND 0b001 \<noteq> 0 \<longleftrightarrow> z" "unat w < 2 ^ 3"
proof -
  have "word_bits 3 (0 :: byte) = [False, False, False]" "word_bits 3 (1 :: byte) = [False, False, True]"
    "word_bits 3 (2 :: byte) = [False, True, False]" "word_bits 3 (3 :: byte) = [False, True, True]"
    "word_bits 3 (4 :: byte) = [True, False, False]" "word_bits 3 (5 :: byte) = [True, False, True]"
    "word_bits 3 (6 :: byte) = [True, True, False]" "word_bits 3 (7 :: byte) = [True, True, True]" by code_simp+
  then show "word_bits 3 w = [x, y, z]" unfolding w_def by (cases x; cases y; cases z; simp)
  show "w AND 0b100 \<noteq> 0 \<longleftrightarrow> x" "w AND 0b010 \<noteq> 0 \<longleftrightarrow> y" "w AND 0b001 \<noteq> 0 \<longleftrightarrow> z" "unat w < 2 ^ 3"
    unfolding w_def by (cases x; cases y; cases z; simp)+
qed

lemma loads_fields8:
  assumes "loads f1 x1 y1 v1" "loads f2 x2 y2 v2" "loads f3 x3 y3 v3" "loads f4 x4 y4 v4" "loads f5 x5 y5 v5" "loads f6 x6 y6 v6"
    "loads f7 x7 y7 v7" "loads f8 x8 y8 v8"
  shows "loads (\<lambda>s. ok (f1 s) (\<lambda>(a1, s). ok (f2 s) (\<lambda>(a2, s). ok (f3 s) (\<lambda>(a3, s). ok (f4 s) (\<lambda>(a4, s). ok (f5 s) (\<lambda>(a5, s).
      ok (f6 s) (\<lambda>(a6, s). ok (f7 s) (\<lambda>(a7, s). ok (f8 s) (\<lambda>(a8, s). Ok (h a1 a2 a3 a4 a5 a6 a7 a8, s))))))))))
    (x1 @ x2 @ x3 @ x4 @ x5 @ x6 @ x7 @ x8) (y1 @ y2 @ y3 @ y4 @ y5 @ y6 @ y7 @ y8) (h v1 v2 v3 v4 v5 v6 v7 v8)"
  using loads_bind [OF assms(1), where g = "\<lambda>a1 s. ok (f2 s) (\<lambda>(a2, s). ok (f3 s) (\<lambda>(a3, s). ok (f4 s) (\<lambda>(a4, s). ok (f5 s) (\<lambda>(a5, s).
      ok (f6 s) (\<lambda>(a6, s). ok (f7 s) (\<lambda>(a7, s). ok (f8 s) (\<lambda>(a8, s). Ok (h a1 a2 a3 a4 a5 a6 a7 a8, s))))))))",
      OF loads_fields7 [where h = "h v1", OF assms(2-8)]] by simp

context source_addr begin

lemma im_stores:
  assumes "im_valid valid i"
  shows "appends (im_store_with store i) (im_bits bits_of i) (im_refs i)"
proof -
  have f: "appends (on_inner (\<lambda>d. store_small_uint d (im_flags i) 3)) [im_ihr_disabled i, im_bounce i, im_bounced i] []"
    using appends_small_uint [of 3 "im_flags i"] unfolding im_flags_def flag3_bits by simp
  have v: "valid (im_src i)" "ia_valid (im_dst i)" "cc_valid (im_value i)" "im_extra_flags i \<le> 3" "vu_is_valid 15 (im_fwd_fee i)"
    using assms by (simp_all add: im_valid_def)
  show ?thesis
    using appends_bind [OF f appends_bind [OF src_codec(1) [OF v(1)] appends_bind [OF ia_stores [OF v(2)] appends_bind [OF cc_stores [OF v(3)]
        appends_bind [OF mf_stores [OF v(4)] appends_bind [OF tokens_stores [OF v(5)] appends_bind [OF appends_u64 appends_u32]]]]]],
        of "im_created_lt i" "im_created_at i"]
    by (simp add: im_store_with_def [abs_def] im_bits_def im_refs_def)
qed

lemma im_loads:
  assumes "im_valid valid i"
  shows "loads (im_load_with load) (im_bits bits_of i) (im_refs i) i"
proof -
  have f: "loads (\<lambda>s. load_small_uint s 3) [im_ihr_disabled i, im_bounce i, im_bounced i] [] (im_flags i)"
    using loads_small_uint [of 3 "im_flags i"] flag3_bits(5) [of "im_ihr_disabled i" "im_bounce i" "im_bounced i"]
    unfolding im_flags_def flag3_bits(1) by simp
  have v: "valid (im_src i)" "ia_valid (im_dst i)" "cc_valid (im_value i)" "im_extra_flags i \<le> 3" "vu_is_valid 15 (im_fwd_fee i)"
    using assms by (simp_all add: im_valid_def)
  let ?h = "\<lambda>flags src dst v extra_flags fwd_fee created_lt created_at.
      \<lparr>im_ihr_disabled = flags AND 0b100 \<noteq> 0, im_bounce = flags AND 0b010 \<noteq> 0, im_bounced = flags AND 0b001 \<noteq> 0,
      im_src = src, im_dst = dst, im_value = v, im_extra_flags = extra_flags, im_fwd_fee = fwd_fee,
      im_created_lt = created_lt, im_created_at = created_at\<rparr>"
  have "?h (im_flags i) (im_src i) (im_dst i) (im_value i) (im_extra_flags i) (im_fwd_fee i) (im_created_lt i) (im_created_at i) = i"
    unfolding im_flags_def flag3_bits by (cases i) simp
  with loads_fields8 [OF f src_codec(2) [OF v(1)] ia_loads [OF v(2)] cc_loads [OF v(3)] mf_loads [OF v(4)] tokens_codec.load_loads [OF v(5)]
      loads_u64 loads_u32, where h = ?h, of "im_created_lt i" "im_created_at i"]
  show ?thesis by (simp add: im_load_with_def [abs_def] im_bits_def im_refs_def)
qed

lemma im_length:
  assumes "im_valid valid i"
  shows "length (im_bits bits_of i) = im_bit_len_with bit_len i" "im_bit_len_with bit_len i \<le> 1600"
  using assms bits_length [of "im_src i"] length_ia_bits [of "im_dst i"] length_cc_bits [of "im_value i"] mf_stored [of "im_extra_flags i"]
    length_vu_bits [of "im_fwd_fee i"]
  by (simp_all add: im_valid_def im_bits_def im_bit_len_with_def)

lemma eo_stores:
  assumes "valid (eo_src i)" "pred_option ea_valid (eo_dst i)"
  shows "appends (eo_store_with store i) (bits_of (eo_src i) @ ext_bits (eo_dst i) @ word_bits 64 (eo_created_lt i) @ word_bits 32 (eo_created_at i)) []"
  using appends_bind [OF src_codec(1) [OF assms(1)] appends_bind [OF ext_stores [OF assms(2)] appends_bind [OF appends_u64 appends_u32]],
      of "eo_created_lt i" "eo_created_at i"]
  by (simp add: eo_store_with_def [abs_def])

lemma eo_loads:
  assumes "valid (eo_src i)" "pred_option ea_valid (eo_dst i)"
  shows "loads (eo_load_with load) (bits_of (eo_src i) @ ext_bits (eo_dst i) @ word_bits 64 (eo_created_lt i) @ word_bits 32 (eo_created_at i)) [] i"
  using loads_fields4 [OF src_codec(2) [OF assms(1)] ext_loads [OF assms(2)] loads_u64 loads_u32, where h = "\<lambda>a b c d.
      \<lparr>eo_src = a, eo_dst = b, eo_created_lt = c, eo_created_at = d\<rparr>", of "eo_created_lt i" "eo_created_at i"]
  by (cases i) (simp add: eo_load_with_def [abs_def])

lemma eo_length:
  assumes "valid (eo_src i)" "pred_option ea_valid (eo_dst i)"
  shows "eo_bit_len_with bit_len i
      = 2 + length (bits_of (eo_src i) @ ext_bits (eo_dst i) @ word_bits 64 (eo_created_lt i) @ word_bits 32 (eo_created_at i))"
    "eo_bit_len_with bit_len i \<le> 1300"
  using bits_length [OF assms(1)] length_ext_bits [OF assms(2)] by (simp_all add: eo_bit_len_with_def)

end

end
