(* ===== verification/Message_Props.thy ===== *)
theory Message_Props
  imports Message_Info_Props Dict_Nearest
begin

text \<open>
  Messages in cells. A kind of header (locale \<open>message_header\<close>) and a kind of body (locale
  \<open>message_body\<close>) make a kind of message (locale \<open>message_codec\<close>), in which storing and loading are proved
  inverse once; the four kinds of messages of the code are its interpretations.
\<close>

section \<open>Headers\<close>

locale message_header =
  fixes valid :: "'i \<Rightarrow> bool"
    and bits_of :: "'i \<Rightarrow> bool list"
    and refs_of :: "'i \<Rightarrow> cell list"
    and exact_size :: "'i \<Rightarrow> size"
    and store :: "'i \<Rightarrow> cell_builder \<Rightarrow> cell_builder result"
    and load :: "cell_slice \<Rightarrow> ('i \<times> cell_slice) result"
  assumes header_stores: "valid i \<Longrightarrow> appends_room 2 (store i) (bits_of i) (refs_of i)"
    and header_loads: "valid i \<Longrightarrow> loads load (bits_of i) (refs_of i) i"
    and header_bits: "valid i \<Longrightarrow> sz_bits (exact_size i) \<le> length (bits_of i) \<and> length (bits_of i) \<le> 2000"
    and header_refs: "valid i \<Longrightarrow> sz_refs (exact_size i) = length (refs_of i) \<and> length (refs_of i) \<le> 1"

fun mi_valid :: "msg_info \<Rightarrow> bool" where
  "mi_valid (MsgInt i) = im_valid ia_valid i"
| "mi_valid (MsgExtIn i) = (pred_option ea_valid (ei_src i) \<and> ia_valid (ei_dst i) \<and> vu_is_valid 15 (ei_import_fee i))"
| "mi_valid (MsgExtOut i) = (ia_valid (eo_src i) \<and> pred_option ea_valid (eo_dst i))"

fun mi_bits :: "msg_info \<Rightarrow> bool list" where
  "mi_bits (MsgInt i) = False # im_bits ia_bits i"
| "mi_bits (MsgExtIn i) = [True, False] @ ext_bits (ei_src i) @ ia_bits (ei_dst i) @ vu_bits 15 (ei_import_fee i)"
| "mi_bits (MsgExtOut i) = [True, True] @ ia_bits (eo_src i) @ ext_bits (eo_dst i) @ word_bits 64 (eo_created_lt i) @ word_bits 32 (eo_created_at i)"

fun mi_refs :: "msg_info \<Rightarrow> cell list" where
  "mi_refs (MsgInt i) = im_refs i"
| "mi_refs _ = []"

lemma tag2_bits: "word_bits 2 (0b10 :: byte) = [True, False]" "word_bits 2 (0b11 :: byte) = [True, True]"
  by code_simp+

lemma ei_stores:
  assumes "pred_option ea_valid (ei_src i)" "ia_valid (ei_dst i)" "vu_is_valid 15 (ei_import_fee i)"
  shows "appends_room 2 (ei_store_into i) (ext_bits (ei_src i) @ ia_bits (ei_dst i) @ vu_bits 15 (ei_import_fee i)) []"
proof -
  have "appends (\<lambda>b. ok (store_ext_addr (ei_src i) b) (\<lambda>b. ok (ia_store_into (ei_dst i) b) (tokens_store_into (ei_import_fee i))))
      (ext_bits (ei_src i) @ ia_bits (ei_dst i) @ vu_bits 15 (ei_import_fee i)) []"
    using appends_bind [OF ext_stores [OF assms(1)] appends_bind [OF ia_stores [OF assms(2)] tokens_stores [OF assms(3)]]] by simp
  from appends_guard_room [OF this, of 2 "ei_bit_len i"] show ?thesis
    using assms length_ext_bits [OF assms(1)] length_ia_bits [OF assms(2)] length_vu_bits [OF assms(3)]
    unfolding ei_store_into_def [abs_def] by (simp add: ei_bit_len_def)
qed

lemma mi_stores:
  assumes "mi_valid i"
  shows "appends_room 2 (mi_store_into i) (mi_bits i) (mi_refs i)"
proof (cases i)
  case (MsgInt m)
  then have "im_valid ia_valid m" using assms by simp
  from appends_bind [OF appends_ops(1) int_src.im_stores [OF this]] show ?thesis
    using appends_room MsgInt by (simp add: mi_store_into.simps [abs_def] im_store_into_def)
next
  case (MsgExtIn m)
  then have v: "pred_option ea_valid (ei_src m)" "ia_valid (ei_dst m)" "vu_is_valid 15 (ei_import_fee m)" using assms by simp_all
  from appends_bind_room [OF appends_small_uint [of 2 "0b10"] ei_stores [OF v]] show ?thesis
    using MsgExtIn by (simp add: mi_store_into.simps [abs_def] tag2_bits)
next
  case (MsgExtOut m)
  then have v: "ia_valid (eo_src m)" "pred_option ea_valid (eo_dst m)" using assms by simp_all
  note l = int_src.eo_length [OF v]
  have "appends_room 2 (eo_store_into m)
      (ia_bits (eo_src m) @ ext_bits (eo_dst m) @ word_bits 64 (eo_created_lt m) @ word_bits 32 (eo_created_at m)) []"
    using appends_guard_room [OF int_src.eo_stores [OF v], of 2 "eo_bit_len m"] l
    unfolding eo_store_into_def [abs_def] by (simp add: eo_bit_len_def)
  from appends_bind_room [OF appends_small_uint [of 2 "0b11"] this] show ?thesis
    using MsgExtOut by (simp add: mi_store_into.simps [abs_def] tag2_bits)
qed

lemma mi_loads:
  assumes "mi_valid i"
  shows "loads mi_load_from (mi_bits i) (mi_refs i) i"
proof (cases i)
  case (MsgInt m)
  then have "im_valid ia_valid m" using assms by simp
  note l = int_src.im_loads [OF this, folded im_load_from_def]
  show ?thesis
    unfolding mi_load_from_def [abs_def] MsgInt mi_bits.simps mi_refs.simps
    by (rule loads_bits2, simp) (rule loads_map [OF l])
next
  case (MsgExtIn m)
  then have v: "pred_option ea_valid (ei_src m)" "ia_valid (ei_dst m)" "vu_is_valid 15 (ei_import_fee m)" using assms by simp_all
  have l: "loads ei_load_from (ext_bits (ei_src m) @ ia_bits (ei_dst m) @ vu_bits 15 (ei_import_fee m)) [] m"
    using loads_fields3 [OF ext_loads [OF v(1)] ia_loads [OF v(2)] tokens_codec.load_loads [OF v(3)],
        where h = "\<lambda>a b c. \<lparr>ei_src = a, ei_dst = b, ei_import_fee = c\<rparr>"]
    by (cases m) (simp add: ei_load_from_def [abs_def])
  show ?thesis
    unfolding mi_load_from_def [abs_def] MsgExtIn mi_bits.simps mi_refs.simps append.simps
    by (rule loads_bits2, simp, rule loads_bits2, simp) (rule loads_map [OF l])
next
  case (MsgExtOut m)
  then have v: "ia_valid (eo_src m)" "pred_option ea_valid (eo_dst m)" using assms by simp_all
  note l = int_src.eo_loads [OF v, folded eo_load_from_def]
  show ?thesis
    unfolding mi_load_from_def [abs_def] MsgExtOut mi_bits.simps mi_refs.simps append.simps
    by (rule loads_bits2, simp, rule loads_bits2, simp) (rule loads_map [OF l])
qed

text \<open>The size of an internal header is one bit less than what is stored.\<close>

lemma mi_size:
  assumes "mi_valid i"
  shows "length (mi_bits i) = sz_bits (mi_exact_size i) + of_bool (mi_ty i = Type_Int)" "length (mi_bits i) \<le> 2000"
    "sz_refs (mi_exact_size i) = length (mi_refs i)" "length (mi_refs i) \<le> 1"
proof -
  have "length (mi_bits i) = sz_bits (mi_exact_size i) + of_bool (mi_ty i = Type_Int) \<and> length (mi_bits i) \<le> 2000
    \<and> sz_refs (mi_exact_size i) = length (mi_refs i) \<and> length (mi_refs i) \<le> 1"
  proof (cases i)
    case (MsgInt m)
    then show ?thesis
      using assms int_src.im_length [of m]
      by (simp add: mi_exact_size_def im_bit_len_def im_refs_def cc_refs_def td_is_empty_def opt_refs_def split: option.split)
  next
    case (MsgExtIn m)
    then show ?thesis
      using assms length_ext_bits [of "ei_src m"] length_ia_bits [of "ei_dst m"] length_vu_bits [of "ei_import_fee m"]
      by (simp add: mi_exact_size_def ei_bit_len_def)
  next
    case (MsgExtOut m)
    then show ?thesis using assms int_src.eo_length [of m] by (simp add: mi_exact_size_def eo_bit_len_def)
  qed
  then show "length (mi_bits i) = sz_bits (mi_exact_size i) + of_bool (mi_ty i = Type_Int)" "length (mi_bits i) \<le> 2000"
    "sz_refs (mi_exact_size i) = length (mi_refs i)" "length (mi_refs i) \<le> 1" by blast+
qed

lemma mi_size_le:
  "mi_valid i \<Longrightarrow> sz_bits (mi_exact_size i) \<le> length (mi_bits i) \<and> length (mi_bits i) \<le> 2000"
  "mi_valid i \<Longrightarrow> sz_refs (mi_exact_size i) = length (mi_refs i) \<and> length (mi_refs i) \<le> 1"
  by (metis le_add1 mi_size(1,2)) (metis mi_size(3,4))

interpretation plain_header: message_header mi_valid mi_bits mi_refs mi_exact_size mi_store_into mi_load_from
  by unfold_locales (rule mi_stores, assumption, rule mi_loads, assumption, rule mi_size_le(1), assumption,
      rule mi_size_le(2), assumption)

fun rmi_valid :: "relaxed_msg_info \<Rightarrow> bool" where
  "rmi_valid (RelaxedInt i) = im_valid (pred_option ia_valid) i"
| "rmi_valid (RelaxedExtOut i) = (pred_option ia_valid (eo_src i) \<and> pred_option ea_valid (eo_dst i))"

fun rmi_bits :: "relaxed_msg_info \<Rightarrow> bool list" where
  "rmi_bits (RelaxedInt i) = False # im_bits opt_ia_bits i"
| "rmi_bits (RelaxedExtOut i) =
     [True, True] @ opt_ia_bits (eo_src i) @ ext_bits (eo_dst i) @ word_bits 64 (eo_created_lt i) @ word_bits 32 (eo_created_at i)"

fun rmi_refs :: "relaxed_msg_info \<Rightarrow> cell list" where
  "rmi_refs (RelaxedInt i) = im_refs i"
| "rmi_refs (RelaxedExtOut _) = []"

lemma rmi_stores:
  assumes "rmi_valid i"
  shows "appends (rmi_store_into i) (rmi_bits i) (rmi_refs i)"
proof (cases i)
  case (RelaxedInt m)
  then have "im_valid (pred_option ia_valid) m" using assms by simp
  from appends_bind [OF appends_ops(1) opt_src.im_stores [OF this]] show ?thesis
    using RelaxedInt by (simp add: rmi_store_into.simps [abs_def] rim_store_into_def)
next
  case (RelaxedExtOut m)
  then have v: "pred_option ia_valid (eo_src m)" "pred_option ea_valid (eo_dst m)" using assms by simp_all
  from appends_bind [OF appends_small_uint [of 2 "0b11"] opt_src.eo_stores [OF v]] show ?thesis
    using RelaxedExtOut by (simp add: rmi_store_into.simps [abs_def] tag2_bits reo_store_into_def)
qed

lemma rmi_loads:
  assumes "rmi_valid i"
  shows "loads rmi_load_from (rmi_bits i) (rmi_refs i) i"
proof (cases i)
  case (RelaxedInt m)
  then have "im_valid (pred_option ia_valid) m" using assms by simp
  note l = opt_src.im_loads [OF this, folded rim_load_from_def]
  show ?thesis
    unfolding rmi_load_from_def [abs_def] RelaxedInt rmi_bits.simps rmi_refs.simps
    by (rule loads_bits2, simp) (rule loads_map [OF l])
next
  case (RelaxedExtOut m)
  then have v: "pred_option ia_valid (eo_src m)" "pred_option ea_valid (eo_dst m)" using assms by simp_all
  note l = opt_src.eo_loads [OF v, folded reo_load_from_def]
  show ?thesis
    unfolding rmi_load_from_def [abs_def] RelaxedExtOut rmi_bits.simps rmi_refs.simps append.simps
    by (rule loads_bits2, simp, rule loads_bits2, simp) (rule loads_map [OF l])
qed

lemma rmi_size:
  assumes "rmi_valid i"
  shows "sz_bits (rmi_exact_size i) \<le> length (rmi_bits i) \<and> length (rmi_bits i) \<le> 2000"
    "sz_refs (rmi_exact_size i) = length (rmi_refs i) \<and> length (rmi_refs i) \<le> 1"
proof -
  have "sz_bits (rmi_exact_size i) \<le> length (rmi_bits i) \<and> length (rmi_bits i) \<le> 2000
    \<and> sz_refs (rmi_exact_size i) = length (rmi_refs i) \<and> length (rmi_refs i) \<le> 1"
  proof (cases i)
    case (RelaxedInt m)
    then show ?thesis
      using assms opt_src.im_length [of m]
      by (simp add: rmi_exact_size_def rim_bit_len_def im_refs_def cc_refs_def td_is_empty_def opt_refs_def split: option.split)
  next
    case (RelaxedExtOut m)
    then show ?thesis using assms opt_src.eo_length [of m] by (simp add: rmi_exact_size_def reo_bit_len_def)
  qed
  then show "sz_bits (rmi_exact_size i) \<le> length (rmi_bits i) \<and> length (rmi_bits i) \<le> 2000"
    "sz_refs (rmi_exact_size i) = length (rmi_refs i) \<and> length (rmi_refs i) \<le> 1" by blast+
qed

interpretation relaxed_header: message_header rmi_valid rmi_bits rmi_refs rmi_exact_size rmi_store_into rmi_load_from
  by unfold_locales (rule appends_room, rule rmi_stores, assumption, rule rmi_loads, assumption, rule rmi_size(1), assumption,
      rule rmi_size(2), assumption)

section \<open>Values in cells of their own\<close>

lemma load_reference_slice:
  assumes "wf_slice s" "slice_refs s = c # q" "holds c xs ys"
  shows "load_reference_as_slice s = Ok (slice_new_allow_exotic c, advance_refs s)"
  using slice_refs_Cons [OF assms(1,2)] holds_slice [OF assms(3)] by (simp add: load_reference_as_slice_def)

lemma soc_stores:
  assumes "appends (store_into v) xs ys"
  shows "appends (soc_store_into sha store_into False v) (False # xs) ys"
    "length xs \<le> 1023 \<Longrightarrow> length ys \<le> 4 \<Longrightarrow> build_ext sha (mk_cb xs ys) = Ok c \<Longrightarrow>
      appends (soc_store_into sha store_into True v) [True] [c]"
proof -
  show "appends (soc_store_into sha store_into False v) (False # xs) ys"
    using appends_bind [OF appends_bit assms, of False] by (simp add: soc_store_into_def [abs_def] store_only_value_into_def [abs_def])
  assume "length xs \<le> 1023" "length ys \<le> 4" "build_ext sha (mk_cb xs ys) = Ok c"
  then have "ok (store_into v cb_new) (build_ext sha) = Ok c"
    using appendsD [OF assms, of "[]" "[]"] by (simp add: cb_new_mk cb_appended_simps)
  then show "appends (soc_store_into sha store_into True v) [True] [c]"
    using appends_bind [OF appends_bit [of True] appends_store_reference [of c]]
    by (simp add: soc_store_into_def [abs_def] store_only_value_into_def [abs_def])
qed

lemma soc_loads:
  assumes "loads load_from xs ys v"
  shows "loads (soc_load_from load_from) (False # xs) ys (False, v)"
    "holds c xs ys \<Longrightarrow> loads (soc_load_from load_from) [True] [c] (True, v)"
proof -
  let ?g = "\<lambda>to_cell s. if to_cell then ok (load_reference_as_slice s) (\<lambda>(child, s). ok (load_from child) (\<lambda>(v, _). Ok ((to_cell, v), s)))
    else ok (load_from s) (\<lambda>(v, s). Ok ((to_cell, v), s))"
  have "loads (?g False) xs ys (False, v)" using loads_map [OF assms, of "\<lambda>v. (False, v)"] by simp
  from loads_bind [OF loads_bit, where g = ?g, OF this] show "loads (soc_load_from load_from) (False # xs) ys (False, v)"
    unfolding soc_load_from_def [abs_def] by simp
  assume c: "holds c xs ys"
  note cs = holds_slice [OF c] holds_not_virtual [OF c]
  obtain s' where l: "load_from (slice_new_allow_exotic c) = Ok (v, s')"
    using loadsE [OF assms cs(2), of "[]" "[]"] cs by auto
  have "loads (?g True) [] [c] (True, v)"
    by (rule loadsI) (use slice_refs_Cons load_reference_slice [OF _ _ c] l in auto)
  from loads_bind [OF loads_bit, where g = ?g, OF this] show "loads (soc_load_from load_from) [True] [c] (True, v)"
    unfolding soc_load_from_def [abs_def] by simp
qed

section \<open>Bodies\<close>

locale message_body =
  fixes sha :: sha256
    and body_valid :: "'b \<Rightarrow> bool"
    and body_bits :: "'b \<Rightarrow> bool list"
    and body_refs :: "'b \<Rightarrow> cell list"
    and body_size :: "'b \<Rightarrow> size"
    and store_body :: "bool \<Rightarrow> 'b \<Rightarrow> cell_builder \<Rightarrow> cell_builder result"
    and load_body :: "bool \<Rightarrow> cell_slice \<Rightarrow> ('b \<times> cell_slice) result"
  assumes body_size: "body_valid b \<Longrightarrow> body_size b = \<lparr>sz_bits = length (body_bits b), sz_refs = length (body_refs b)\<rparr>
      \<and> length (body_bits b) \<le> 1023 \<and> length (body_refs b) \<le> 4"
    and body_refs_ok: "body_valid b \<Longrightarrow> list_all wf_cell (body_refs b) \<and> list_all (depth_le 65533) (body_refs b)"
    and body_inline: "body_valid b \<Longrightarrow> appends (store_body False b) (body_bits b) (body_refs b)"
    and body_in_cell: "body_valid b \<Longrightarrow> \<exists>c. holds c (body_bits b) (body_refs b) \<and> depth_le 65534 c \<and> appends (store_body True b) [] [c]"
    and body_load_inline: "wf_slice s \<Longrightarrow> \<not> is_virtual (sl_cell s) \<Longrightarrow> list_all wf_cell (slice_refs s) \<Longrightarrow> list_all (depth_le 65534) (slice_refs s)
      \<Longrightarrow> \<exists>b s'. load_body False s = Ok (b, s') \<and> body_bits b = slice_bits s \<and> body_refs b = slice_refs s
        \<and> slice_bits s' = [] \<and> slice_refs s' = []"
    and body_load_cell: "wf_slice s \<Longrightarrow> \<not> is_virtual (sl_cell s) \<Longrightarrow> slice_refs s = c # q \<Longrightarrow> holds c xs ys
      \<Longrightarrow> \<exists>b s'. load_body True s = Ok (b, s') \<and> body_bits b = xs \<and> body_refs b = ys
        \<and> slice_bits s' = slice_bits s \<and> slice_refs s' = q"

definition slice_body_valid :: "cell_slice \<Rightarrow> bool" where
  "slice_body_valid s \<longleftrightarrow> wf_slice s \<and> \<not> is_virtual (sl_cell s) \<and> list_all wf_cell (slice_refs s) \<and> list_all (depth_le 65533) (slice_refs s)"

definition parts_slice :: "cell_slice_parts \<Rightarrow> cell_slice" where
  "parts_slice p = \<lparr>sl_cell = snd p, sl_range = fst p\<rparr>"

definition parts_valid :: "cell_slice_parts \<Rightarrow> bool" where
  "parts_valid p \<longleftrightarrow> slice_body_valid (parts_slice p) \<and> wf_cell (snd p) \<and> \<not> cell_is_exotic (snd p) \<and> depth_le 65534 (snd p)"

lemma slice_sizes:
  assumes "slice_body_valid s"
  shows "range_size (sl_range s) = \<lparr>sz_bits = length (slice_bits s), sz_refs = length (slice_refs s)\<rparr>"
    "length (slice_bits s) \<le> 1023" "length (slice_refs s) \<le> 4"
  using wf_sliceD [of s] assms by (simp_all add: slice_body_valid_def range_size_def size_bits_def size_refs_def range_size_refs_def)

lemma slice_in_cell:
  assumes "slice_body_valid s"
  obtains c where "holds c (slice_bits s) (slice_refs s)" "depth_le 65534 c"
    "appends (slice_store_body sha True s) [] [c]"
proof -
  have v: "wf_slice s" "\<not> is_virtual (sl_cell s)" "list_all wf_cell (slice_refs s)" "list_all (depth_le 65533) (slice_refs s)"
    using assms by (simp_all add: slice_body_valid_def)
  obtain c where c: "build_ext sha (mk_cb (slice_bits s) (slice_refs s)) = Ok c" "holds c (slice_bits s) (slice_refs s)" "depth_le (65533 + 1) c"
    by (rule build_ext_ok [OF slice_sizes(2,3) [OF assms] v(3) _ v(4)]) auto
  have "store_slice cb_new s = Ok (mk_cb (slice_bits s) (slice_refs s))"
    using appendsD [OF appends_store_slice [OF v(1,2)], of "[]" "[]"] slice_sizes(2,3) [OF assms] by (simp add: cb_new_mk cb_appended_simps)
  then have "appends (slice_store_body sha True s) [] [c]"
    using appends_store_reference [of c] c(1) by (simp add: slice_store_body_def [abs_def] store_only_value_into_def [abs_def])
  then show thesis using c(2,3) that by simp
qed

lemma slice_inline: "slice_body_valid s \<Longrightarrow> appends (slice_store_body sha False s) (slice_bits s) (slice_refs s)"
  unfolding slice_store_body_def [abs_def] store_only_value_into_def [abs_def] slice_body_valid_def by (simp add: appends_store_slice)

lemma load_remaining_rest:
  "load_remaining s = (s, s') \<Longrightarrow> slice_bits s' = [] \<and> slice_refs s' = []" "fst (load_remaining s) = s"
  by (auto simp: load_remaining_def slice_bits_def slice_refs_def size_bits_def range_size_bits_def)

lemma slice_body_load_inline: "\<exists>b s'. slice_load_body False s = Ok (b, s') \<and> slice_bits b = slice_bits s \<and> slice_refs b = slice_refs s
    \<and> slice_bits s' = [] \<and> slice_refs s' = []"
  using load_remaining_rest [of s] by (cases "load_remaining s") (auto simp: slice_load_body_def)

lemma slice_body_load_cell:
  assumes "wf_slice s" "slice_refs s = c # q" "holds c xs ys"
  shows "\<exists>b s'. slice_load_body True s = Ok (b, s') \<and> slice_bits b = xs \<and> slice_refs b = ys \<and> slice_bits s' = slice_bits s \<and> slice_refs s' = q"
  using load_reference_slice [OF assms] slice_refs_Cons [OF assms(1,2)] holds_slice [OF assms(3)] by (auto simp: slice_load_body_def)

interpretation slice_body: message_body sha slice_body_valid slice_bits slice_refs slice_exact_size "slice_store_body sha" slice_load_body for sha
proof (unfold_locales, goal_cases)
  case (1 b)
  then show ?case using slice_sizes [of b] by (simp add: slice_exact_size_def)
next
  case (4 b)
  then show ?case by (rule slice_in_cell) blast
next
  case (6 s c q xs ys)
  then show ?case using slice_body_load_cell by blast
qed (simp_all add: slice_body_valid_def slice_inline slice_body_load_inline)

lemma parts_full: "range_is_full (fst p) (snd p) \<Longrightarrow> parts_slice p = slice_new_allow_exotic (snd p)"
  by (cases p; cases "fst p") (simp add: parts_slice_def slice_new_allow_exotic_def range_is_full_def range_full_def)

lemma parts_store:
  assumes "parts_valid p" "\<not> (to_cell \<and> range_is_full (fst p) (snd p))"
  shows "parts_store_body sha to_cell p = slice_store_body sha to_cell (parts_slice p)"
  using range_apply_wf [of "parts_slice p"] assms
  by (auto simp: parts_store_body_def slice_store_body_def fun_eq_iff case_prod_beta parts_valid_def slice_body_valid_def parts_slice_def)

lemma parts_in_cell:
  assumes "parts_valid p"
  shows "\<exists>c. holds c (slice_bits (parts_slice p)) (slice_refs (parts_slice p)) \<and> depth_le 65534 c \<and> appends (parts_store_body sha True p) [] [c]"
proof (cases "range_is_full (fst p) (snd p)")
  case True
  then have "parts_store_body sha True p = (\<lambda>b. store_reference b (snd p))" by (simp add: parts_store_body_def fun_eq_iff case_prod_beta)
  moreover have "holds (snd p) (slice_bits (parts_slice p)) (slice_refs (parts_slice p))"
    using assms wf_cell_children(1) [of "snd p"] by (simp add: parts_full [OF True] holds_def parts_valid_def)
  ultimately show ?thesis using assms appends_store_reference by (auto simp: parts_valid_def)
next
  case False
  have "slice_body_valid (parts_slice p)" using assms by (simp add: parts_valid_def)
  from slice_in_cell [OF this] show ?thesis using parts_store [OF assms, of True sha] False by metis
qed

lemma parts_load_inline:
  assumes "wf_slice s" "\<not> is_virtual (sl_cell s)" "list_all wf_cell (slice_refs s)" "list_all (depth_le 65534) (slice_refs s)"
  shows "\<exists>b s'. parts_load_body sha False s = Ok (b, s') \<and> slice_bits (parts_slice b) = slice_bits s \<and> slice_refs (parts_slice b) = slice_refs s
    \<and> slice_bits s' = [] \<and> slice_refs s' = []"
proof -
  obtain s' where r: "load_remaining s = (s, s')" using load_remaining_rest(2) [of s] by (cases "load_remaining s") simp
  have n: "length (slice_bits s) \<le> 1023" "length (slice_refs s) \<le> 4" using wf_sliceD [OF assms(1)] by (simp_all add: size_refs_eq)
  obtain c where c: "build_ext sha (mk_cb (slice_bits s) (slice_refs s)) = Ok c" "holds c (slice_bits s) (slice_refs s)"
    by (rule build_ext_ok [OF n assms(3) _ assms(4)]) auto
  have "store_slice cb_new s = Ok (mk_cb (slice_bits s) (slice_refs s))"
    using appendsD [OF appends_store_slice [OF assms(1,2)], of "[]" "[]"] n by (simp add: cb_new_mk cb_appended_simps)
  then have "parts_load_body sha False s = Ok ((range_full c, c), s')" using r c(1) by (simp add: parts_load_body_def parts_from_cell_def)
  moreover have "parts_slice (range_full c, c) = slice_new_allow_exotic c" by (simp add: parts_slice_def slice_new_allow_exotic_def)
  ultimately show ?thesis using load_remaining_rest(1) [OF r] holds_slice [OF c(2)] by auto
qed

lemma parts_load_cell:
  assumes "wf_slice s" "\<not> is_virtual (sl_cell s)" "slice_refs s = c # q" "holds c xs ys"
  shows "\<exists>b s'. parts_load_body sha True s = Ok (b, s') \<and> slice_bits (parts_slice b) = xs \<and> slice_refs (parts_slice b) = ys
    \<and> slice_bits s' = slice_bits s \<and> slice_refs s' = q"
proof -
  have "load_reference_cloned s = Ok (c, advance_refs s)"
    using slice_refs_Cons [OF assms(1,3)] reference_cloned_plain [OF assms(2)] by (simp add: load_reference_cloned_def)
  moreover have "parts_slice (range_full c, c) = slice_new_allow_exotic c" by (simp add: parts_slice_def slice_new_allow_exotic_def)
  ultimately show ?thesis
    using slice_refs_Cons [OF assms(1,3)] holds_slice [OF assms(4)] by (auto simp: parts_load_body_def parts_from_cell_def)
qed

interpretation parts_body: message_body sha parts_valid "\<lambda>p. slice_bits (parts_slice p)" "\<lambda>p. slice_refs (parts_slice p)" parts_exact_size
  "parts_store_body sha" "parts_load_body sha" for sha
proof (unfold_locales, goal_cases)
  case (1 b)
  then show ?case using slice_sizes [of "parts_slice b"] by (simp add: parts_exact_size_def parts_valid_def) (simp add: parts_slice_def)
next
  case (2 b)
  then show ?case by (simp add: parts_valid_def slice_body_valid_def)
next
  case (3 b)
  then show ?case using slice_inline [of "parts_slice b" sha] parts_store [of b False sha] by (simp add: parts_valid_def)
next
  case (4 b)
  then show ?case by (rule parts_in_cell)
next
  case (5 s)
  then show ?case by (rule parts_load_inline)
next
  case (6 s c q xs ys)
  then show ?case by (rule parts_load_cell)
qed

section \<open>Layouts\<close>

definition ml_fits :: "message_layout \<Rightarrow> size \<Rightarrow> state_init option \<Rightarrow> size \<Rightarrow> bool" where
  "ml_fits layout info init body \<longleftrightarrow> fits_into_cell (ml_compute_full_size layout info init body)"

abbreviation layout_of :: "bool \<Rightarrow> bool \<Rightarrow> message_layout" where
  "layout_of i b \<equiv> \<lparr>ml_init_to_cell = i, ml_body_to_cell = b\<rparr>"

text \<open>The bits and references of the root cell of a message with a layout.\<close>

definition root_bits :: "message_layout \<Rightarrow> nat \<Rightarrow> state_init option \<Rightarrow> nat \<Rightarrow> nat" where
  "root_bits layout n init k = n + 2
     + (case init of None \<Rightarrow> 0 | Some v \<Rightarrow> 1 + (if ml_init_to_cell layout then 0 else init_bit_len v))
     + (if ml_body_to_cell layout then 0 else k)"

definition root_refs :: "message_layout \<Rightarrow> nat \<Rightarrow> state_init option \<Rightarrow> nat \<Rightarrow> nat" where
  "root_refs layout n init k = n
     + (case init of None \<Rightarrow> 0 | Some v \<Rightarrow> if ml_init_to_cell layout then 1 else init_reference_count v)
     + (if ml_body_to_cell layout then 1 else k)"

text \<open>The computed size is this one, except that an absent state init in a cell counts as a reference.\<close>

lemma full_size:
  assumes "sz_bits info \<le> 2000" "sz_refs info \<le> 1" "sz_bits body \<le> 1023" "sz_refs body \<le> 4"
  shows "ml_compute_full_size layout info init body =
    \<lparr>sz_bits = root_bits layout (sz_bits info) init (sz_bits body),
     sz_refs = root_refs layout (sz_refs info) init (sz_refs body) + of_bool (init = None \<and> ml_init_to_cell layout)\<rparr>"
proof (cases init)
  case None
  then show ?thesis
    using assms by (simp add: ml_compute_full_size_def dl_compute_def Let_def root_bits_def root_refs_def size_add_def size_ZERO_def)
next
  case (Some v)
  have "init_bit_len v \<le> 12" "init_reference_count v \<le> 3" by (rule length_init_bits)+
  then show ?thesis
    using assms Some
    by (simp add: ml_compute_full_size_def dl_compute_def Let_def root_bits_def root_refs_def size_add_def init_exact_size_def)
qed

text \<open>
  The computed layout is the first one with which the root cell is not overfull, of: everything in the root
  cell, the body in a cell of its own, the state init in a cell of its own, both in cells of their own; the
  last one is taken in any case.
\<close>

lemma ml_compute_first:
  assumes "sz_bits info \<le> 2000" "sz_refs info \<le> 1" "sz_bits body \<le> 1023" "sz_refs body \<le> 4"
  shows "ml_compute info init body =
    (let layout = if ml_fits (layout_of False False) info init body then layout_of False False
       else if ml_fits (layout_of False True) info init body then layout_of False True
       else if ml_fits (layout_of True False) info init body then layout_of True False
       else layout_of True True
     in (layout, ml_compute_full_size layout info init body))"
proof (cases init)
  case None
  then show ?thesis
    using assms unfolding ml_fits_def full_size [OF assms]
    by (simp add: ml_compute_def dl_compute_def Let_def root_bits_def root_refs_def size_ZERO_def fits_into_cell_def MAX_BIT_LEN_def
        MAX_REF_COUNT_def less_Suc_eq_le)
next
  case (Some v)
  have "init_bit_len v \<le> 12" "init_reference_count v \<le> 3" by (rule length_init_bits)+
  then show ?thesis
    using assms Some unfolding ml_fits_def full_size [OF assms]
    by (simp add: ml_compute_def dl_compute_def Let_def root_bits_def root_refs_def init_exact_size_def fits_into_cell_def MAX_BIT_LEN_def
        MAX_REF_COUNT_def less_Suc_eq_le)
qed

section \<open>Messages\<close>

definition init_ok :: "state_init \<Rightarrow> bool" where
  "init_ok v \<longleftrightarrow> init_valid v \<and> list_all wf_cell (init_refs v) \<and> list_all (depth_le 65533) (init_refs v)"

lemma depth_le_list: "list_all (depth_le a) rs \<Longrightarrow> a \<le> b \<Longrightarrow> list_all (depth_le b) rs"
  using depth_le_mono by (auto simp: list_all_iff)

lemma init_part:
  assumes "pred_option init_ok init"
  obtains xs ys where
    "appends (\<lambda>b. case init of Some v \<Rightarrow> ok (on_inner store_bit_one b) (soc_store_into sha init_store_into to_cell v)
       | None \<Rightarrow> on_inner store_bit_zero b) xs ys"
    "loads (load_option (soc_load_from init_load_from)) xs ys (map_option (Pair to_cell) init)"
    "length xs = 1 + (case init of None \<Rightarrow> 0 | Some v \<Rightarrow> 1 + (if to_cell then 0 else init_bit_len v))"
    "length ys = (case init of None \<Rightarrow> 0 | Some v \<Rightarrow> if to_cell then 1 else init_reference_count v)"
    "list_all wf_cell ys" "list_all (depth_le 65534) ys"
proof (cases init)
  case None
  then show thesis using that [of "[False]" "[]"] appends_ops(1) loads_option_None [of "soc_load_from init_load_from"] by simp
next
  case (Some v)
  have v: "init_valid v" "list_all wf_cell (init_refs v)" "list_all (depth_le 65533) (init_refs v)"
    using assms Some by (simp_all add: init_ok_def)
  have n: "length (init_bits v) \<le> 1023" "length (init_refs v) \<le> 4" using length_init_bits [of v] by simp_all
  obtain c where c: "build_ext sha (mk_cb (init_bits v) (init_refs v)) = Ok c" "holds c (init_bits v) (init_refs v)" "depth_le (65533 + 1) c"
    by (rule build_ext_ok [OF n v(2) _ v(3)]) auto
  show thesis
  proof (cases to_cell)
    case True
    show thesis
    proof (rule that [of "[True, True]" "[c]"])
      show "list_all wf_cell [c]" using c(2) by (simp add: holds_def)
      show "loads (load_option (soc_load_from init_load_from)) [True, True] [c] (map_option (Pair to_cell) init)"
        using loads_option_Some [OF soc_loads(2) [OF init_loads [OF v(1)] c(2)]] Some True by simp
      show "appends (\<lambda>b. case init of Some v \<Rightarrow> ok (on_inner store_bit_one b) (soc_store_into sha init_store_into to_cell v)
         | None \<Rightarrow> on_inner store_bit_zero b) [True, True] [c]"
        using appends_bind [OF appends_ops(2) soc_stores(2) [where c = c and store_into = init_store_into, OF init_stores [OF v(1)] n c(1)]] Some True by simp
    qed (use Some True c(3) in simp_all)
  next
    case False
    show thesis
    proof (rule that [of "True # False # init_bits v" "init_refs v"])
      show "loads (load_option (soc_load_from init_load_from)) (True # False # init_bits v) (init_refs v) (map_option (Pair to_cell) init)"
        using loads_option_Some [OF soc_loads(1) [OF init_loads [OF v(1)]]] Some False by simp
      show "appends (\<lambda>b. case init of Some v \<Rightarrow> ok (on_inner store_bit_one b) (soc_store_into sha init_store_into to_cell v)
         | None \<Rightarrow> on_inner store_bit_zero b) (True # False # init_bits v) (init_refs v)"
        using appends_bind [OF appends_ops(2) soc_stores(1) [where store_into = init_store_into, OF init_stores [OF v(1)]]] Some False by simp
    qed (use Some False v depth_le_list [OF v(3)] length_init_bits in simp_all)
  qed
qed

text \<open>What loads all of the rest of a slice.\<close>

definition reads_rest :: "(cell_slice \<Rightarrow> ('v \<times> cell_slice) result) \<Rightarrow> ('v \<Rightarrow> bool) \<Rightarrow> bool list \<Rightarrow> cell list \<Rightarrow> bool" where
  "reads_rest f P xs ys \<longleftrightarrow> (\<forall>s. wf_slice s \<and> \<not> is_virtual (sl_cell s) \<and> slice_bits s = xs \<and> slice_refs s = ys \<longrightarrow>
     (\<exists>v s'. f s = Ok (v, s') \<and> P v \<and> slice_bits s' = [] \<and> slice_refs s' = []))"

lemma reads_restI:
  "(\<And>s. wf_slice s \<Longrightarrow> \<not> is_virtual (sl_cell s) \<Longrightarrow> slice_bits s = xs \<Longrightarrow> slice_refs s = ys \<Longrightarrow>
     \<exists>v s'. f s = Ok (v, s') \<and> P v \<and> slice_bits s' = [] \<and> slice_refs s' = []) \<Longrightarrow> reads_rest f P xs ys"
  by (simp add: reads_rest_def)

lemma reads_restE:
  assumes "reads_rest f P xs ys" "wf_slice s" "\<not> is_virtual (sl_cell s)" "slice_bits s = xs" "slice_refs s = ys"
  obtains v s' where "f s = Ok (v, s')" "P v" "slice_bits s' = []" "slice_refs s' = []"
  using assms unfolding reads_rest_def by blast

locale message_codec = message_header valid bits_of refs_of exact_size store load
    + message_body sha body_valid body_bits body_refs body_size store_body load_body
  for valid :: "'i \<Rightarrow> bool" and bits_of and refs_of and exact_size and store and load
    and sha and body_valid :: "'b \<Rightarrow> bool" and body_bits and body_refs and body_size and store_body and load_body
begin

lemma body_part:
  assumes "body_valid b"
  obtains xs ys where
    "appends (store_body to_cell b) xs ys"
    "length xs = (if to_cell then 0 else sz_bits (body_size b))" "length ys = (if to_cell then 1 else sz_refs (body_size b))"
    "list_all wf_cell ys" "list_all (depth_le 65534) ys"
    "reads_rest (load_body to_cell) (\<lambda>b'. body_bits b' = body_bits b \<and> body_refs b' = body_refs b) xs ys"
proof (cases to_cell)
  case True
  obtain c where c: "holds c (body_bits b) (body_refs b)" "depth_le 65534 c" "appends (store_body True b) [] [c]"
    using body_in_cell [OF assms] by blast
  show thesis
  proof (rule that [of "[]" "[c]"])
    show "list_all wf_cell [c]" using c(1) by (simp add: holds_def)
    show "reads_rest (load_body to_cell) (\<lambda>b'. body_bits b' = body_bits b \<and> body_refs b' = body_refs b) [] [c]"
    proof (rule reads_restI)
      fix s assume s: "wf_slice s" "\<not> is_virtual (sl_cell s)" "slice_bits s = []" "slice_refs s = [c]"
      from body_load_cell [OF s(1,2,4) c(1)] s(3) True
      show "\<exists>b' s'. load_body to_cell s = Ok (b', s') \<and> (body_bits b' = body_bits b \<and> body_refs b' = body_refs b)
          \<and> slice_bits s' = [] \<and> slice_refs s' = []" by simp
    qed
  qed (use True c in simp_all)
next
  case False
  note r = body_refs_ok [OF assms]
  show thesis
  proof (rule that [of "body_bits b" "body_refs b"])
    show "reads_rest (load_body to_cell) (\<lambda>b'. body_bits b' = body_bits b \<and> body_refs b' = body_refs b) (body_bits b) (body_refs b)"
    proof (rule reads_restI)
      fix s assume s: "wf_slice s" "\<not> is_virtual (sl_cell s)" "slice_bits s = body_bits b" "slice_refs s = body_refs b"
      from body_load_inline [OF s(1,2)] s(3,4) r depth_le_list [of 65533 _ 65534] False
      show "\<exists>b' s'. load_body to_cell s = Ok (b', s') \<and> (body_bits b' = body_bits b \<and> body_refs b' = body_refs b)
          \<and> slice_bits s' = [] \<and> slice_refs s' = []" by simp
    qed
  qed (use False r body_inline [OF assms] body_size [OF assms] depth_le_list [of 65533 _ 65534] in simp_all)
qed

end

text \<open>Valid messages; a layout that is set does not put an absent state init into a cell.\<close>

definition bm_valid :: "('i \<Rightarrow> bool) \<Rightarrow> ('i \<Rightarrow> cell list) \<Rightarrow> ('b \<Rightarrow> bool) \<Rightarrow> ('i, 'b) base_message \<Rightarrow> bool" where
  "bm_valid valid refs_of body_valid m \<longleftrightarrow> valid (bm_info m) \<and> list_all wf_cell (refs_of (bm_info m))
     \<and> list_all (depth_le 65533) (refs_of (bm_info m)) \<and> pred_option init_ok (bm_init m) \<and> body_valid (bm_body m)
     \<and> (case bm_layout m of None \<Rightarrow> True | Some layout \<Rightarrow> ml_init_to_cell layout \<longrightarrow> bm_init m \<noteq> None)"

text \<open>Whether the root cell of a message with a layout has room for its parts.\<close>

definition root_fits :: "message_layout \<Rightarrow> nat \<Rightarrow> nat \<Rightarrow> state_init option \<Rightarrow> size \<Rightarrow> bool" where
  "root_fits layout n k init body \<longleftrightarrow> root_bits layout n init (sz_bits body) \<le> 1023 \<and> root_refs layout k init (sz_refs body) \<le> 4"

text \<open>The layout that a message is loaded with.\<close>

definition loaded_layout :: "message_layout \<Rightarrow> state_init option \<Rightarrow> message_layout" where
  "loaded_layout layout init = layout_of (ml_init_to_cell layout \<and> init \<noteq> None) (ml_body_to_cell layout)"

lemma appends_guard_full:
  assumes "appends f xs ys" "n \<le> length xs" "k \<le> length ys \<or> 1023 < n" "n \<le> 60000"
  shows "appends (\<lambda>b. if \<not> has_capacity b n k then Err CellOverflow else f b) xs ys"
proof (rule appendsI)
  fix bs :: "bool list" and rs :: "cell list" assume l: "length bs \<le> 1023" "length rs \<le> 4"
  have "has_capacity (mk_cb bs rs) n k \<longleftrightarrow> length bs + n \<le> 1023 \<and> length rs + k \<le> 4"
    using l assms(4) by (simp add: has_capacity_def mk_cb_def mk_bd_def MAX_BIT_LEN_def MAX_REF_COUNT_def)
  then show "(if \<not> has_capacity (mk_cb bs rs) n k then Err CellOverflow else f (mk_cb bs rs)) = cb_appended bs rs xs ys"
    using appendsD [OF assms(1) l] assms(2,3) by (auto simp: cb_appended_simps)
qed

context message_codec begin

lemma layout_size:
  assumes "bm_valid valid refs_of body_valid m" "bm_layout_size exact_size body_size m = (layout, sz)"
  shows "sz = ml_compute_full_size layout (exact_size (bm_info m)) (bm_init m) (body_size (bm_body m))"
    "ml_init_to_cell layout \<Longrightarrow> bm_init m = None \<Longrightarrow> 1023 < sz_bits sz"
proof -
  let ?i = "exact_size (bm_info m)" and ?b = "body_size (bm_body m)"
  have v: "valid (bm_info m)" "body_valid (bm_body m)" using assms(1) by (simp_all add: bm_valid_def)
  have n: "sz_bits ?i \<le> 2000" "sz_refs ?i \<le> 1" "sz_bits ?b \<le> 1023" "sz_refs ?b \<le> 4"
    using header_bits [OF v(1)] header_refs [OF v(1)] body_size [OF v(2)] by simp_all
  show s: "sz = ml_compute_full_size layout ?i (bm_init m) ?b"
    using assms(2) ml_compute_first [OF n] by (auto simp: bm_layout_size_def Let_def split: option.splits)
  assume a: "ml_init_to_cell layout" "bm_init m = None"
  then have "bm_layout m = None" using assms by (auto simp: bm_valid_def bm_layout_size_def Let_def split: option.splits)
  then have "fst (ml_compute ?i None ?b) = layout" using assms(2) a(2) by (simp add: bm_layout_size_def Let_def)
  then have "\<not> ml_fits (layout_of False True) ?i None ?b" using a(1) ml_compute_first [OF n, of None] by (auto simp: Let_def split: if_splits)
  then have "1023 < sz_bits ?i + 2"
    using n unfolding ml_fits_def full_size [OF n] by (auto simp: fits_into_cell_def MAX_BIT_LEN_def MAX_REF_COUNT_def root_bits_def root_refs_def)
  then show "1023 < sz_bits sz" unfolding s full_size [OF n] a(2) by (simp add: root_bits_def)
qed

lemma message_parts:
  assumes "bm_valid valid refs_of body_valid m" "bm_layout_size exact_size body_size m = (layout, sz)"
  obtains xs ys where "appends (bm_store_into exact_size store body_size store_body sha m) xs ys"
    "length xs = root_bits layout (length (bits_of (bm_info m))) (bm_init m) (sz_bits (body_size (bm_body m)))"
    "length ys = root_refs layout (length (refs_of (bm_info m))) (bm_init m) (sz_refs (body_size (bm_body m)))"
    "list_all wf_cell ys" "list_all (depth_le 65534) ys"
    "reads_rest (bm_load_from load load_body) (\<lambda>m'. bm_info m' = bm_info m \<and> bm_init m' = bm_init m
        \<and> body_bits (bm_body m') = body_bits (bm_body m) \<and> body_refs (bm_body m') = body_refs (bm_body m)
        \<and> bm_layout m' = Some (loaded_layout layout (bm_init m))) xs ys"
proof -
  let ?i = "bm_info m" and ?bs = "body_size (bm_body m)" and ?ic = "ml_init_to_cell layout" and ?bc = "ml_body_to_cell layout"
  have v: "valid ?i" "list_all wf_cell (refs_of ?i)" "list_all (depth_le 65533) (refs_of ?i)" "pred_option init_ok (bm_init m)"
    "body_valid (bm_body m)" using assms(1) by (simp_all add: bm_valid_def)
  have n: "sz_bits (exact_size ?i) \<le> 2000" "sz_refs (exact_size ?i) \<le> 1" "sz_bits ?bs \<le> 1023" "sz_refs ?bs \<le> 4"
    using header_bits [OF v(1)] header_refs [OF v(1)] body_size [OF v(5)] by simp_all
  note sz = layout_size [OF assms]
  let ?init = "\<lambda>b. case bm_init m of Some v \<Rightarrow> ok (on_inner store_bit_one b) (soc_store_into sha init_store_into ?ic v)
       | None \<Rightarrow> on_inner store_bit_zero b"
  obtain ix iy where i: "appends ?init ix iy"
    "loads (load_option (soc_load_from init_load_from)) ix iy (map_option (Pair ?ic) (bm_init m))"
    "length ix = 1 + (case bm_init m of None \<Rightarrow> 0 | Some v \<Rightarrow> 1 + (if ?ic then 0 else init_bit_len v))"
    "length iy = (case bm_init m of None \<Rightarrow> 0 | Some v \<Rightarrow> if ?ic then 1 else init_reference_count v)"
    "list_all wf_cell iy" "list_all (depth_le 65534) iy"
    by (rule init_part [OF v(4), of sha ?ic])
  obtain bx bY where b: "appends (store_body ?bc (bm_body m)) bx bY"
    "length bx = (if ?bc then 0 else sz_bits ?bs)" "length bY = (if ?bc then 1 else sz_refs ?bs)"
    "list_all wf_cell bY" "list_all (depth_le 65534) bY"
    "reads_rest (load_body ?bc) (\<lambda>b'. body_bits b' = body_bits (bm_body m) \<and> body_refs b' = body_refs (bm_body m)) bx bY"
    by (rule body_part [OF v(5), of ?bc])
  let ?P = "\<lambda>m'. bm_info m' = bm_info m \<and> bm_init m' = bm_init m
        \<and> body_bits (bm_body m') = body_bits (bm_body m) \<and> body_refs (bm_body m') = body_refs (bm_body m)
        \<and> bm_layout m' = Some (loaded_layout layout (bm_init m))"
  let ?xs = "bits_of ?i @ ix @ [?bc] @ bx" and ?ys = "refs_of ?i @ iy @ bY"
  have "appends (\<lambda>b. ok (?init b) (\<lambda>b. ok (on_inner (\<lambda>d. store_bit d ?bc) b) (store_body ?bc (bm_body m)))) (ix @ [?bc] @ bx) (iy @ bY)"
    using appends_bind [OF i(1) appends_bind [OF appends_bit b(1)]] by simp
  from appends_room_bind [OF header_stores [OF v(1)] this] have a:
    "appends (\<lambda>b. ok (store ?i b) (\<lambda>b. ok (?init b) (\<lambda>b. ok (on_inner (\<lambda>d. store_bit d ?bc) b) (store_body ?bc (bm_body m))))) ?xs ?ys"
    using i(3) by simp
  have lx: "length ?xs = root_bits layout (length (bits_of ?i)) (bm_init m) (sz_bits ?bs)" using i(3) b(2) by (simp add: root_bits_def)
  have ly: "length ?ys = root_refs layout (length (refs_of ?i)) (bm_init m) (sz_refs ?bs)" using i(4) b(3) by (simp add: root_refs_def)
  have g: "sz_bits sz \<le> length ?xs" "sz_refs sz \<le> length ?ys \<or> 1023 < sz_bits sz" "sz_bits sz \<le> 60000"
  proof -
    have "(case bm_init m of None \<Rightarrow> 0 | Some v \<Rightarrow> 1 + (if ?ic then 0 else init_bit_len v)) \<le> 13"
      using length_init_bits(3) by (auto split: option.split intro: le_trans)
    then have "root_bits layout (sz_bits (exact_size ?i)) (bm_init m) (sz_bits ?bs) \<le> 60000" using n by (simp add: root_bits_def)
    then show "sz_bits sz \<le> length ?xs" "sz_bits sz \<le> 60000"
      unfolding lx sz(1) full_size [OF n] using header_bits [OF v(1)] by (simp_all add: root_bits_def)
    show "sz_refs sz \<le> length ?ys \<or> 1023 < sz_bits sz"
      using sz(2) header_refs [OF v(1)] unfolding ly sz(1) full_size [OF n]
      by (cases "bm_init m = None \<and> ?ic") (auto simp: root_refs_def)
  qed
  show thesis
  proof (rule that [of ?xs ?ys])
    have "bm_store_into exact_size store body_size store_body sha m = (\<lambda>b. if \<not> has_capacity b (sz_bits sz) (sz_refs sz) then Err CellOverflow
      else ok (store ?i b) (\<lambda>b. ok (?init b) (\<lambda>b. ok (on_inner (\<lambda>d. store_bit d ?bc) b) (store_body ?bc (bm_body m)))))"
      by (simp add: bm_store_into_def [abs_def] assms(2) Let_def cong: option.case_cong)
    then show "appends (bm_store_into exact_size store body_size store_body sha m) ?xs ?ys"
      using appends_guard_full [OF a g] by simp
    show "length ?xs = root_bits layout (length (bits_of ?i)) (bm_init m) (sz_bits ?bs)" by (rule lx)
    show "length ?ys = root_refs layout (length (refs_of ?i)) (bm_init m) (sz_refs ?bs)" by (rule ly)
    show "list_all wf_cell ?ys" "list_all (depth_le 65534) ?ys"
      using v(2) depth_le_list [OF v(3), of 65534] i(5,6) b(4,5) by simp_all
    show "reads_rest (bm_load_from load load_body) ?P ?xs ?ys"
    proof (rule reads_restI)
    fix s assume s: "wf_slice s" "\<not> is_virtual (sl_cell s)" "slice_bits s = ?xs" "slice_refs s = ?ys"
    obtain s1 where s1: "load s = Ok (?i, s1)" "wf_slice s1" "sl_cell s1 = sl_cell s" "slice_bits s1 = ix @ [?bc] @ bx" "slice_refs s1 = iy @ bY"
      by (rule loadsE [OF header_loads [OF v(1)] s])
    obtain s2 where s2: "load_option (soc_load_from init_load_from) s1 = Ok (map_option (Pair ?ic) (bm_init m), s2)" "wf_slice s2"
        "sl_cell s2 = sl_cell s1" "slice_bits s2 = [?bc] @ bx" "slice_refs s2 = bY"
      by (rule loadsE [OF i(2) s1(2) _ s1(4,5)]) (use s1(3) s(2) in auto)
    obtain s3 where s3: "load_bit s2 = Ok (?bc, s3)" "wf_slice s3" "sl_cell s3 = sl_cell s2" "slice_bits s3 = bx" "slice_refs s3 = bY"
      by (rule loadsE [OF loads_bit [of ?bc] s2(2) _ s2(4), of bY]) (use s2(3,5) s1(3) s(2) in auto)
    obtain b' s' where s4: "load_body ?bc s3 = Ok (b', s')" "body_bits b' = body_bits (bm_body m)" "body_refs b' = body_refs (bm_body m)"
        "slice_bits s' = []" "slice_refs s' = []"
      by (rule reads_restE [OF b(6) s3(2) _ s3(4,5)]) (use s3(3) s2(3) s1(3) s(2) in auto)
    show "\<exists>m' s'. bm_load_from load load_body s = Ok (m', s') \<and> ?P m' \<and> slice_bits s' = [] \<and> slice_refs s' = []"
      unfolding bm_load_from_def s1(1) ok_Ok prod.case s2(1) s3(1) s4(1)
      using s4(2-5) by (cases "bm_init m") (simp_all add: loaded_layout_def)
    qed
  qed
qed

text \<open>What a valid message is stored as, and that it is loaded from there.\<close>

lemma message_stored:
  assumes "bm_valid valid refs_of body_valid m" "bm_layout_size exact_size body_size m = (layout, sz)"
  shows "if root_fits layout (length (bits_of (bm_info m))) (length (refs_of (bm_info m))) (bm_init m) (body_size (bm_body m))
    then \<exists>c s m' s'. build_from sha (bm_store_into exact_size store body_size store_body sha m) = Ok c \<and> slice_new c = Ok s
      \<and> bm_load_from load load_body s = Ok (m', s') \<and> slice_bits s' = [] \<and> slice_refs s' = []
      \<and> bm_info m' = bm_info m \<and> bm_init m' = bm_init m
      \<and> body_bits (bm_body m') = body_bits (bm_body m) \<and> body_refs (bm_body m') = body_refs (bm_body m)
      \<and> bm_layout m' = Some (loaded_layout layout (bm_init m))
    else build_from sha (bm_store_into exact_size store body_size store_body sha m) = Err CellOverflow"
proof -
  obtain xs ys where p: "appends (bm_store_into exact_size store body_size store_body sha m) xs ys"
    "length xs = root_bits layout (length (bits_of (bm_info m))) (bm_init m) (sz_bits (body_size (bm_body m)))"
    "length ys = root_refs layout (length (refs_of (bm_info m))) (bm_init m) (sz_refs (body_size (bm_body m)))"
    "list_all wf_cell ys" "list_all (depth_le 65534) ys"
    "reads_rest (bm_load_from load load_body) (\<lambda>m'. bm_info m' = bm_info m \<and> bm_init m' = bm_init m
        \<and> body_bits (bm_body m') = body_bits (bm_body m) \<and> body_refs (bm_body m') = body_refs (bm_body m)
        \<and> bm_layout m' = Some (loaded_layout layout (bm_init m))) xs ys"
    by (rule message_parts [OF assms])
  note st = appendsD [OF p(1), of "[]" "[]", unfolded cb_appended_simps]
  show ?thesis
  proof (cases "root_fits layout (length (bits_of (bm_info m))) (length (refs_of (bm_info m))) (bm_init m) (body_size (bm_body m))")
    case True
    then have n: "length xs \<le> 1023" "length ys \<le> 4" using p(2,3) by (simp_all add: root_fits_def)
    obtain c where c: "build_ext sha (mk_cb xs ys) = Ok c" "holds c xs ys"
      by (rule build_ext_ok [OF n p(4) _ p(5)]) auto
    have "build_from sha (bm_store_into exact_size store body_size store_body sha m) = Ok c"
      using st n c(1) by (simp add: build_from_def cb_new_mk)
    moreover have "\<not> is_virtual (sl_cell (slice_new_allow_exotic c))" using holds_slice(5) [OF c(2)] holds_not_virtual [OF c(2)] by simp
    ultimately show ?thesis
      using True holds_slice(1) [OF c(2)] reads_restE [OF p(6) holds_slice(2) [OF c(2)] _ holds_slice(3,4) [OF c(2)]] by (simp, metis)
  next
    case False
    then have "\<not> (length xs \<le> 1023 \<and> length ys \<le> 4)" using p(2,3) by (simp add: root_fits_def)
    then show ?thesis using st False by (auto simp: build_from_def cb_new_mk)
  qed
qed

end

interpretation message_kind: message_codec mi_valid mi_bits mi_refs mi_exact_size mi_store_into mi_load_from sha slice_body_valid slice_bits
    slice_refs slice_exact_size "slice_store_body sha" slice_load_body for sha
  by unfold_locales

interpretation owned_message_kind: message_codec mi_valid mi_bits mi_refs mi_exact_size mi_store_into mi_load_from sha parts_valid
    "\<lambda>p. slice_bits (parts_slice p)" "\<lambda>p. slice_refs (parts_slice p)" parts_exact_size "parts_store_body sha" "parts_load_body sha" for sha
  by unfold_locales

interpretation relaxed_message_kind: message_codec rmi_valid rmi_bits rmi_refs rmi_exact_size rmi_store_into rmi_load_from sha slice_body_valid
    slice_bits slice_refs slice_exact_size "slice_store_body sha" slice_load_body for sha
  by unfold_locales

interpretation owned_relaxed_message_kind: message_codec rmi_valid rmi_bits rmi_refs rmi_exact_size rmi_store_into rmi_load_from sha parts_valid
    "\<lambda>p. slice_bits (parts_slice p)" "\<lambda>p. slice_refs (parts_slice p)" parts_exact_size "parts_store_body sha" "parts_load_body sha" for sha
  by unfold_locales

end
