(* ===== verification/Bitstring.thy ===== *)
theory Bitstring
  imports Address_Props Boc_Cells
begin

text \<open>
  Bit strings as hexadecimal text (\<^verbatim>\<open>Bitstring\<close> of \<^verbatim>\<open>src/util.rs\<close>) and the text form of external addresses. A
  string is its list of bytes. The decoder of the crate \<open>hex\<close> is a parameter.
\<close>

unbundle bit_operations_syntax

section \<open>Printing\<close>

definition HEX_CHARS_LOWER :: "byte list" where
  "HEX_CHARS_LOWER = [0x30, 0x31, 0x32, 0x33, 0x34, 0x35, 0x36, 0x37, 0x38, 0x39, 0x61, 0x62, 0x63, 0x64, 0x65, 0x66]"

definition HEX_CHARS_UPPER :: "byte list" where
  "HEX_CHARS_UPPER = [0x30, 0x31, 0x32, 0x33, 0x34, 0x35, 0x36, 0x37, 0x38, 0x39, 0x41, 0x42, 0x43, 0x44, 0x45, 0x46]"

definition byte2hex :: "byte \<Rightarrow> byte list \<Rightarrow> byte \<times> byte" where
  "byte2hex b table = (table ! unat (drop_bit 4 (b AND 0xf0)), table ! unat (b AND 0x0f))"

definition encode_to_hex_slice :: "byte list \<Rightarrow> byte list \<Rightarrow> byte list" where
  "encode_to_hex_slice input table = concat (map (\<lambda>b. let (high, low) = byte2hex b table in [high, low]) input)"

text \<open>The iterator \<open>chunks\<close> of a slice.\<close>

function chunks :: "nat \<Rightarrow> 'a list \<Rightarrow> 'a list list" where
  "chunks n xs = (if n = 0 \<or> xs = [] then [] else take n xs # chunks n (drop n xs))"
  by pat_completeness auto
termination by (relation "measure (\<lambda>(n, xs). length xs)") auto

declare chunks.simps [simp del]

text \<open>The format \<open>{:0w$x}\<close> of a byte.\<close>

definition format_hex :: "byte list \<Rightarrow> nat \<Rightarrow> byte \<Rightarrow> byte list" where
  "format_hex table w b =
    (let digits = (if unat b < 16 then [table ! unat b] else [table ! (unat b div 16), table ! (unat b mod 16)])
     in replicate (w - length digits) 0x30 @ digits)"

definition fmt_hex :: "bool \<Rightarrow> byte list \<Rightarrow> nat \<Rightarrow> byte list" where
  "fmt_hex upper bytes bit_len =
    (let bit_len = min bit_len (length bytes * 8);
         bytes = take (div_ceil8 bit_len) bytes;
         rem = bit_len mod 8;
         (bytes, last_byte) =
           (if bytes \<noteq> [] \<and> rem \<noteq> 0 then
              let tag_mask = push_bit (7 - rem) 1;
                  data_mask = NOT (tag_mask - 1)
              in (butlast bytes, Some ((List.last bytes AND data_mask) OR tag_mask))
            else (bytes, None));
         table = (if upper then HEX_CHARS_UPPER else HEX_CHARS_LOWER);
         body = concat (map (\<lambda>data. encode_to_hex_slice data table) (chunks 16 bytes))
     in case last_byte of
          None \<Rightarrow> body
        | Some last_byte \<Rightarrow>
            let tag = (if rem \<noteq> 4 then [0x5f] else []);
                rem = 1 + of_bool (rem > 4);
                last_byte = (if rem = 1 then drop_bit 4 last_byte else last_byte)
            in body @ format_hex table rem last_byte @ tag)"

section \<open>Parsing\<close>

definition hex_char :: "byte \<Rightarrow> byte result" where
  "hex_char c =
    (if 0x41 \<le> c \<and> c \<le> 0x46 then Ok (c - 0x41 + 10)
     else if 0x61 \<le> c \<and> c \<le> 0x66 then Ok (c - 0x61 + 10)
     else if 0x30 \<le> c \<and> c \<le> 0x39 then Ok (c - 0x30)
     else Err InvalidData)"

text \<open>The loop over the bytes from the last one: it ends at the byte that holds the tag.\<close>

fun strip_tag :: "byte list \<Rightarrow> nat \<Rightarrow> byte list \<times> nat" where
  "strip_tag [] bit_len = ([], bit_len)"
| "strip_tag (b # bs) bit_len =
    (if b = 0 then let (bs, bit_len) = strip_tag bs (bit_len - 8) in (b # bs, bit_len)
     else let trailing = trailing_zeros b
          in ((b AND push_bit 1 (push_bit trailing 0xff)) # bs, bit_len - (1 + trailing)))"

text \<open>The digit after the last pair, and the pairs.\<close>

definition split_half :: "byte list \<Rightarrow> (byte option \<times> byte list) result" where
  "split_half s = (if length s mod 2 \<noteq> 0 then ok (hex_char (List.last s)) (\<lambda>h. Ok (Some h, butlast s)) else Ok (None, s))"

definition from_hex_str :: "(byte list \<Rightarrow> byte list option) \<Rightarrow> byte list \<Rightarrow> (byte list \<times> nat) result" where
  "from_hex_str hex_decode s =
    (if \<not> list_all (\<lambda>c. c < 128) s \<or> length s > 128 * 2 then Err InvalidData
     else
       let (s, with_tag) = (if s \<noteq> [] \<and> List.last s = 0x5f then (butlast s, True) else (s, False))
       in ok (split_half s) (\<lambda>(half_byte, s).
          case hex_decode s of
            None \<Rightarrow> Err InvalidData
          | Some data \<Rightarrow>
              let bit_len = length data * 8;
                  (data, bit_len) = (case half_byte of
                      Some h \<Rightarrow> (data @ [push_bit 4 h], bit_len + 4)
                    | None \<Rightarrow> (data, bit_len))
              in Ok (if with_tag then
                       let (rdata, bit_len) = strip_tag (rev data) (length data * 8)
                       in (take (div_ceil8 bit_len) (rev rdata), bit_len)
                     else (data, bit_len))))"

section \<open>External addresses\<close>

datatype parse_addr_error = AddrEmpty | InvalidWorkchain | InvalidAccountId | UnexpectedPart | BadFormat

definition ea_to_string :: "ext_addr \<Rightarrow> byte list" where
  "ea_to_string a = 0x3a # fmt_hex False (ea_data a) (unat (ea_data_bit_len a))"

definition ea_from_str :: "(byte list \<Rightarrow> byte list option) \<Rightarrow> byte list \<Rightarrow> parse_addr_error + ext_addr" where
  "ea_from_str hex_decode s =
    (case s of
       [] \<Rightarrow> Inl AddrEmpty
     | c # s \<Rightarrow>
         if c \<noteq> 0x3a then Inl UnexpectedPart
         else case from_hex_str hex_decode s of
                Inl _ \<Rightarrow> Inl InvalidAccountId
              | Inr (data, bit_len) \<Rightarrow>
                  (case ea_new (of_nat bit_len) data of None \<Rightarrow> Inl UnexpectedPart | Some a \<Rightarrow> Inr a))"

section \<open>What is printed is parsed\<close>

text \<open>What the crate \<open>hex\<close> promises of its decoder: it inverts both encodings.\<close>

definition hex_decodes :: "(byte list \<Rightarrow> byte list option) \<Rightarrow> bool" where
  "hex_decodes dec \<longleftrightarrow> (\<forall>ds. dec (encode_to_hex_slice ds HEX_CHARS_LOWER) = Some ds \<and> dec (encode_to_hex_slice ds HEX_CHARS_UPPER) = Some ds)"

lemma concat_chunks: "0 < n \<Longrightarrow> concat (chunks n xs) = xs"
  by (induction n xs rule: chunks.induct) (subst chunks.simps, simp)

lemma encode_append: "encode_to_hex_slice (xs @ ys) t = encode_to_hex_slice xs t @ encode_to_hex_slice ys t"
  by (simp add: encode_to_hex_slice_def)

lemma encode_Nil [simp]: "encode_to_hex_slice [] t = []"
  by (simp add: encode_to_hex_slice_def)

lemma encode_concat: "concat (map (\<lambda>d. encode_to_hex_slice d t) ds) = encode_to_hex_slice (concat ds) t"
  by (induction ds) (simp_all add: encode_append)

lemma length_encode [simp]: "length (encode_to_hex_slice xs t) = 2 * length xs"
  by (induction xs) (simp_all add: encode_to_hex_slice_def case_prod_unfold Let_def)

definition hex_table :: "bool \<Rightarrow> byte list" where
  "hex_table upper = (if upper then HEX_CHARS_UPPER else HEX_CHARS_LOWER)"

lemma hex_table_char:
  assumes "i < 16"
  shows "hex_char (hex_table up ! i) = Ok (of_nat i)" "hex_table up ! i < 128" "hex_table up ! i \<noteq> 0x5f"
proof -
  let ?P = "\<lambda>t. list_all (\<lambda>i. hex_char (t ! i) = Ok (of_nat i) \<and> t ! i < 128 \<and> t ! i \<noteq> 0x5f) [0..<16]"
  have "?P HEX_CHARS_LOWER" "?P HEX_CHARS_UPPER" by code_simp+
  then have "?P (hex_table up)" by (simp add: hex_table_def)
  then show "hex_char (hex_table up ! i) = Ok (of_nat i)" "hex_table up ! i < 128" "hex_table up ! i \<noteq> 0x5f"
    using assms by (simp_all add: list_all_iff)
qed

lemma nibbles_less: "unat (drop_bit 4 (b AND 0xf0) :: byte) < 16" "unat (b AND 0x0f :: byte) < 16"
proof -
  have "b AND 0x0f = take_bit 4 b" by (simp add: take_bit_eq_mask mask_eq_exp_minus_1)
  then show "unat (b AND 0x0f) < 16" using take_bit_nat_less_exp [of 4 "unat b"] by (simp add: unsigned_take_bit_eq)
  have "unat (drop_bit 4 (b AND 0xf0)) = unat (b AND 0xf0) div 16" by (simp add: drop_bit_eq_div unat_div_distrib)
  then show "unat (drop_bit 4 (b AND 0xf0)) < 16" using unat_byte_less [of "b AND 0xf0"] by (simp add: less_mult_imp_div_less)
qed

lemma encode_ascii:
  "c \<in> set (encode_to_hex_slice ds (hex_table up)) \<Longrightarrow> c < 128 \<and> c \<noteq> 0x5f"
  using hex_table_char(2,3) nibbles_less
  by (auto simp: encode_to_hex_slice_def byte2hex_def Let_def)

lemma format_hex_2: "format_hex (hex_table up) 2 b = encode_to_hex_slice [b] (hex_table up)"
proof -
  have h: "unat (drop_bit 4 (b AND 0xf0)) = unat b div 16"
  proof -
    have "drop_bit 4 (b AND 0xf0) = drop_bit 4 b"
    proof (rule bit_word_eqI)
      fix n assume "n < LENGTH(8)"
      then have "n \<in> {0, 1, 2, 3, 4, 5, 6, 7}" by auto
      then show "bit (drop_bit 4 (b AND 0xf0)) n = bit (drop_bit 4 b) n"
        by (auto simp: bit_drop_bit_eq bit_and_iff dest: bit_imp_le_length)
    qed
    then show ?thesis by (simp add: drop_bit_eq_div unat_div_distrib)
  qed
  have "b AND 0x0f = take_bit 4 b" by (simp add: take_bit_eq_mask mask_eq_exp_minus_1)
  then have l: "unat (b AND 0x0f) = unat b mod 16" by (simp add: take_bit_eq_mod unat_mod_distrib)
  have z: "hex_table up ! 0 = 0x30" by (simp add: hex_table_def HEX_CHARS_LOWER_def HEX_CHARS_UPPER_def)
  have "encode_to_hex_slice [b] (hex_table up) = [hex_table up ! (unat b div 16), hex_table up ! (unat b mod 16)]"
    by (simp only: encode_to_hex_slice_def list.map concat.simps byte2hex_def Let_def prod.case h l append.simps)
  then show ?thesis by (simp add: format_hex_def z)
qed

lemma format_hex_1: "unat b < 16 \<Longrightarrow> format_hex (hex_table up) 1 b = [hex_table up ! unat b]"
  by (simp add: format_hex_def)

text \<open>The last byte with its tag.\<close>

definition tag_last :: "nat \<Rightarrow> byte \<Rightarrow> byte" where
  "tag_last r l = (l AND NOT (push_bit (7 - r) 1 - 1)) OR push_bit (7 - r) 1"

lemma bit_tag_last:
  assumes "r < 8" "j < 8"
  shows "bit (tag_last r l) j \<longleftrightarrow> j = 7 - r \<or> 7 - r < j \<and> bit l j"
proof -
  have "(push_bit (7 - r) 1 - 1 :: byte) = mask (7 - r)" by (simp add: mask_eq_exp_minus_1 push_bit_eq_mult)
  then have e: "tag_last r l = (l AND NOT (mask (7 - r))) OR push_bit (7 - r) 1" by (simp only: tag_last_def)
  show ?thesis unfolding e bit_or_iff bit_and_iff bit_not_iff bit_mask_iff bit_push_bit_iff bit_1_iff using assms by auto
qed

text \<open>A byte whose bits after the first \<open>r\<close> are zero.\<close>

definition top_bits :: "nat \<Rightarrow> byte \<Rightarrow> bool" where
  "top_bits r l \<longleftrightarrow> (\<forall>j \<le> 7 - r. \<not> bit l j)"

lemma strip_tag_last:
  assumes "0 < r" "r < 8" "top_bits r l"
  shows "strip_tag (tag_last r l # bs) n = (l # bs, n - (8 - r))"
proof -
  let ?L = "tag_last r l"
  have b: "bit ?L j \<longleftrightarrow> j = 7 - r \<or> 7 - r < j \<and> bit l j" if "j < 8" for j by (rule bit_tag_last [OF assms(2) that])
  have t: "trailing_zeros ?L = 7 - r" by (rule trailing_zeros_eqI) (use b assms in auto)
  have "7 - r < 8" by linarith
  then have "?L \<noteq> 0" using b [of "7 - r"] by auto
  moreover have "?L AND push_bit 1 (push_bit (7 - r) 0xff) = l"
  proof (rule bit_word_eqI)
    fix j assume j: "j < LENGTH(8)"
    have m: "bit (push_bit 1 (push_bit (7 - r) 0xff) :: byte) j \<longleftrightarrow> 7 - r < j"
    proof -
      have "(0xff :: byte) = mask 8" by (simp add: mask_eq_exp_minus_1)
      then show ?thesis unfolding \<open>0xff = mask 8\<close> bit_push_bit_iff bit_mask_iff using j by auto
    qed
    show "bit (?L AND push_bit 1 (push_bit (7 - r) 0xff)) j = bit l j"
      unfolding bit_and_iff m using b [of j] j assms(3) by (auto simp: top_bits_def not_le)
  qed
  ultimately show ?thesis using assms(1,2) by (simp add: t)
qed

lemma tag_nibble:
  assumes "0 < r" "r \<le> 4" "top_bits r l"
  shows "push_bit 4 (drop_bit 4 (tag_last r l)) = (if r = 4 then l else tag_last r l)" "unat (drop_bit 4 (tag_last r l)) < 16"
proof -
  show "push_bit 4 (drop_bit 4 (tag_last r l)) = (if r = 4 then l else tag_last r l)"
  proof (rule bit_word_eqI)
    fix j assume "j < LENGTH(8)"
    then show "bit (push_bit 4 (drop_bit 4 (tag_last r l))) j = bit (if r = 4 then l else tag_last r l) j"
      using assms bit_tag_last [of r j l] by (auto simp: bit_push_bit_iff bit_drop_bit_eq top_bits_def)
  qed
  have "unat (drop_bit 4 (tag_last r l)) = unat (tag_last r l) div 16" by (simp add: drop_bit_eq_div unat_div_distrib)
  then show "unat (drop_bit 4 (tag_last r l)) < 16" using unat_byte_less [of "tag_last r l"] by (simp add: less_mult_imp_div_less)
qed

lemma fmt_hex_eq:
  assumes "length v = div_ceil8 n"
  shows "fmt_hex up v n = (if n mod 8 = 0 then encode_to_hex_slice v (hex_table up)
    else encode_to_hex_slice (butlast v) (hex_table up)
      @ (if n mod 8 > 4 then encode_to_hex_slice [tag_last (n mod 8) (List.last v)] (hex_table up)
         else format_hex (hex_table up) 1 (drop_bit 4 (tag_last (n mod 8) (List.last v))))
      @ (if n mod 8 = 4 then [] else [0x5f]))"
proof -
  have m: "min n (length v * 8) = n" "take (div_ceil8 n) v = v" using assms div_ceil8_bounds [of n] by simp_all
  show ?thesis
  proof (cases "n mod 8 = 0")
    case True
    then show ?thesis unfolding fmt_hex_def m by (simp add: m(2) hex_table_def encode_concat concat_chunks)
  next
    case False
    then have "v \<noteq> []" using assms by (cases "n = 0") (auto simp: div_ceil8_def)
    with False show ?thesis
      unfolding fmt_hex_def m Let_def tag_last_def [symmetric] hex_table_def [symmetric]
      by (simp add: encode_concat concat_chunks format_hex_2 numeral_2_eq_2 [symmetric])
  qed
qed

lemma hex_decodes_table: "hex_decodes dec \<Longrightarrow> dec (encode_to_hex_slice ds (hex_table up)) = Some ds"
  by (simp add: hex_decodes_def hex_table_def)

lemma packed_last:
  assumes "packed n v" "0 < n mod 8"
  shows "v = butlast v @ [List.last v]" "length (butlast v) = n div 8" "top_bits (n mod 8) (List.last v)"
proof -
  obtain q r where n: "n = 8 * q + r" "r < 8" "n div 8 = q" "n mod 8 = r" by (rule split_index8)
  have D: "div_ceil8 n = q + 1" using n assms(2) by (simp add: div_ceil8_def)
  then have "length v = q + 1" using packed_length [OF assms(1)] by simp
  then show v: "v = butlast v @ [List.last v]" "length (butlast v) = n div 8" using n(3) by (cases v rule: rev_cases; simp)+
  have "\<not> bit (List.last v) j" if j: "j \<le> 7 - r" for j
  proof -
    have l: "List.last v = v ! q" using \<open>length v = q + 1\<close> by (cases v rule: rev_cases) (simp_all add: nth_append)
    have "nbit v (8 * q + (7 - j)) = bit (List.last v) j" using j nbit_block [of "7 - j" v q] by (simp add: l)
    moreover have "nbit (pack_bits (raw_bits v n)) (8 * q + (7 - j)) = False"
    proof (subst nbit_pack_bits)
      show "8 * q + (7 - j) < 8 * div_ceil8 (length (raw_bits v n))" using D by simp
      have "\<not> 8 * q + (7 - j) < n" using j n by linarith
      then show "(8 * q + (7 - j) < length (raw_bits v n) \<and> raw_bits v n ! (8 * q + (7 - j))) = False" by simp
    qed
    ultimately show ?thesis using assms(1) by (simp add: packed_def)
  qed
  then show "top_bits (n mod 8) (List.last v)" by (simp add: top_bits_def n(4))
qed

lemma from_hex_untagged:
  assumes "hex_decodes dec" "length ds \<le> 128"
  shows "from_hex_str dec (encode_to_hex_slice ds (hex_table up)) = Ok (ds, 8 * length ds)"
proof -
  let ?s = "encode_to_hex_slice ds (hex_table up)"
  have a: "list_all (\<lambda>c. c < 128) ?s" "?s \<noteq> [] \<Longrightarrow> List.last ?s \<noteq> 0x5f"
    using encode_ascii last_in_set by (auto simp: list_all_iff)
  then show ?thesis using assms hex_decodes_table [OF assms(1)] by (auto simp: from_hex_str_def split_half_def)
qed

lemma from_hex_nibble:
  assumes "hex_decodes dec" "length ds \<le> 127" "i < 16"
  shows "from_hex_str dec (encode_to_hex_slice ds (hex_table up) @ [hex_table up ! i]) = Ok (ds @ [push_bit 4 (of_nat i)], 8 * length ds + 4)"
proof -
  let ?s = "encode_to_hex_slice ds (hex_table up)"
  have "list_all (\<lambda>c. c < 128) ?s" using encode_ascii by (auto simp: list_all_iff)
  then show ?thesis
    using assms hex_decodes_table [OF assms(1)] hex_table_char [OF assms(3), of up] by (simp add: from_hex_str_def split_half_def)
qed

lemma from_hex_tagged:
  assumes "from_hex_str dec s = Ok (ds @ [tag_last r l], n)" "List.last s \<noteq> 0x5f" "s \<noteq> []" "length s \<le> 255" "0 < r" "r < 8" "top_bits r l"
  shows "from_hex_str dec (s @ [0x5f]) = Ok (ds @ [l], 8 * length ds + r)"
proof -
  have a: "list_all (\<lambda>c. c < 128) s" using assms(1) by (auto simp: from_hex_str_def split: if_splits)
  obtain hb s' where h: "split_half s = Ok (hb, s')"
    using assms(1,2,4) a by (cases "split_half s") (auto simp: from_hex_str_def)
  obtain data where d: "dec s' = Some data"
    using assms(1,2,4) a h by (cases "dec s'") (auto simp: from_hex_str_def)
  have e: "(case hb of Some h \<Rightarrow> data @ [push_bit 4 h] | None \<Rightarrow> data) = ds @ [tag_last r l]"
    using assms(1,2,4) a h d by (cases hb) (auto simp: from_hex_str_def)
  have t: "strip_tag (tag_last r l # rev ds) (8 + length ds * 8) = (l # rev ds, length ds * 8 + r)"
    using strip_tag_last [OF assms(5-7), of "rev ds" "8 + length ds * 8"] assms(6) by simp
  show ?thesis
  proof (cases hb)
    case None
    then show ?thesis using a assms(4-6) h d e t by (simp add: from_hex_str_def div_ceil8_def)
  next
    case (Some h)
    then have "data = ds" "push_bit 4 h = tag_last r l" using e by simp_all
    then show ?thesis using Some a assms(4-6) h d e t by (simp add: from_hex_str_def div_ceil8_def)
  qed
qed

lemma fmt_hex_parses:
  assumes "hex_decodes dec" "packed n v" "n \<le> 1020"
  shows "from_hex_str dec (fmt_hex up v n) = Ok (v, n)"
proof (cases "n mod 8 = 0")
  case True
  then have "8 * length v = n" using packed_length [OF assms(2)] div_ceil8_bounds [of n] by (auto simp: div_ceil8_def elim: dvdE)
  then show ?thesis using True from_hex_untagged [OF assms(1), of v up] assms(3) by (simp add: fmt_hex_eq packed_length [OF assms(2)])
next
  case False
  obtain q r where n: "n = 8 * q + r" "r < 8" "n div 8 = q" "n mod 8 = r" by (rule split_index8)
  let ?l = "List.last v" and ?ds = "butlast v"
  note p = packed_last [OF assms(2), unfolded n(3,4)]
  have r: "0 < r" using False n(4) by simp
  then have v: "v = ?ds @ [?l]" "length ?ds = q" "top_bits r ?l" using p by simp_all
  note f = fmt_hex_eq [OF packed_length [OF assms(2)], of up, unfolded n(4)]
  show ?thesis
  proof (cases "r \<le> 4")
    case True
    note g = tag_nibble [OF r True v(3)]
    let ?i = "unat (drop_bit 4 (tag_last r ?l))"
    have h: "from_hex_str dec (encode_to_hex_slice ?ds (hex_table up) @ [hex_table up ! ?i])
        = Ok (?ds @ [if r = 4 then ?l else tag_last r ?l], 8 * q + 4)"
      using from_hex_nibble [OF assms(1) _ g(2), of ?ds up] n assms(3) v(2) g(1) by simp
    have s: "fmt_hex up v n = encode_to_hex_slice ?ds (hex_table up) @ [hex_table up ! ?i] @ (if r = 4 then [] else [0x5f])"
      using f True r by (simp add: format_hex_1 [OF g(2), unfolded One_nat_def])
    show ?thesis
    proof (cases "r = 4")
      case T: True
      then show ?thesis using s h v n by simp
    next
      case F: False
      have "from_hex_str dec ((encode_to_hex_slice ?ds (hex_table up) @ [hex_table up ! ?i]) @ [0x5f]) = Ok (?ds @ [?l], 8 * length ?ds + r)"
        by (rule from_hex_tagged [OF h [unfolded if_not_P [OF F]]])
          (use hex_table_char [OF g(2), of up] n assms(3) v r in simp_all)
      then show ?thesis using s F v n by simp
    qed
  next
    case F: False
    let ?s = "encode_to_hex_slice (?ds @ [tag_last r ?l]) (hex_table up)"
    have q: "q \<le> 126" using n assms(3) F by simp
    have "from_hex_str dec ?s = Ok (?ds @ [tag_last r ?l], 8 * (q + 1))"
      using from_hex_untagged [OF assms(1), of "?ds @ [tag_last r ?l]" up] q v(2) by simp
    moreover have "?s \<noteq> []" "List.last ?s \<noteq> 0x5f"
    proof -
      have "length ?s \<noteq> 0" by (simp add: v(2))
      then show "?s \<noteq> []" by (cases ?s) auto
      then show "List.last ?s \<noteq> 0x5f" using encode_ascii [OF last_in_set] by blast
    qed
    ultimately have "from_hex_str dec (?s @ [0x5f]) = Ok (?ds @ [?l], 8 * length ?ds + r)"
      by (rule_tac from_hex_tagged) (use q v r n in simp_all)
    moreover have "fmt_hex up v n = ?s @ [0x5f]" using f F by (simp add: encode_append)
    ultimately show ?thesis using v n by simp
  qed
qed

end
