(* ===== verification/Crc16.thy ===== *)
theory Crc16
  imports Cell_Load
begin

text \<open>
  The checksum of addresses (\<^verbatim>\<open>src/crc.rs\<close>), computed byte by byte with a table, and its definition bit by
  bit: the shift register of the polynomial \<open>x^16 + x^12 + x^5 + 1\<close>.
\<close>

unbundle bit_operations_syntax

definition CRC16_TABLE :: "16 word list" where
  "CRC16_TABLE = [
    0x0000, 0x1021, 0x2042, 0x3063, 0x4084, 0x50a5, 0x60c6, 0x70e7, 0x8108, 0x9129, 0xa14a, 0xb16b,
    0xc18c, 0xd1ad, 0xe1ce, 0xf1ef, 0x1231, 0x0210, 0x3273, 0x2252, 0x52b5, 0x4294, 0x72f7, 0x62d6,
    0x9339, 0x8318, 0xb37b, 0xa35a, 0xd3bd, 0xc39c, 0xf3ff, 0xe3de, 0x2462, 0x3443, 0x0420, 0x1401,
    0x64e6, 0x74c7, 0x44a4, 0x5485, 0xa56a, 0xb54b, 0x8528, 0x9509, 0xe5ee, 0xf5cf, 0xc5ac, 0xd58d,
    0x3653, 0x2672, 0x1611, 0x0630, 0x76d7, 0x66f6, 0x5695, 0x46b4, 0xb75b, 0xa77a, 0x9719, 0x8738,
    0xf7df, 0xe7fe, 0xd79d, 0xc7bc, 0x48c4, 0x58e5, 0x6886, 0x78a7, 0x0840, 0x1861, 0x2802, 0x3823,
    0xc9cc, 0xd9ed, 0xe98e, 0xf9af, 0x8948, 0x9969, 0xa90a, 0xb92b, 0x5af5, 0x4ad4, 0x7ab7, 0x6a96,
    0x1a71, 0x0a50, 0x3a33, 0x2a12, 0xdbfd, 0xcbdc, 0xfbbf, 0xeb9e, 0x9b79, 0x8b58, 0xbb3b, 0xab1a,
    0x6ca6, 0x7c87, 0x4ce4, 0x5cc5, 0x2c22, 0x3c03, 0x0c60, 0x1c41, 0xedae, 0xfd8f, 0xcdec, 0xddcd,
    0xad2a, 0xbd0b, 0x8d68, 0x9d49, 0x7e97, 0x6eb6, 0x5ed5, 0x4ef4, 0x3e13, 0x2e32, 0x1e51, 0x0e70,
    0xff9f, 0xefbe, 0xdfdd, 0xcffc, 0xbf1b, 0xaf3a, 0x9f59, 0x8f78, 0x9188, 0x81a9, 0xb1ca, 0xa1eb,
    0xd10c, 0xc12d, 0xf14e, 0xe16f, 0x1080, 0x00a1, 0x30c2, 0x20e3, 0x5004, 0x4025, 0x7046, 0x6067,
    0x83b9, 0x9398, 0xa3fb, 0xb3da, 0xc33d, 0xd31c, 0xe37f, 0xf35e, 0x02b1, 0x1290, 0x22f3, 0x32d2,
    0x4235, 0x5214, 0x6277, 0x7256, 0xb5ea, 0xa5cb, 0x95a8, 0x8589, 0xf56e, 0xe54f, 0xd52c, 0xc50d,
    0x34e2, 0x24c3, 0x14a0, 0x0481, 0x7466, 0x6447, 0x5424, 0x4405, 0xa7db, 0xb7fa, 0x8799, 0x97b8,
    0xe75f, 0xf77e, 0xc71d, 0xd73c, 0x26d3, 0x36f2, 0x0691, 0x16b0, 0x6657, 0x7676, 0x4615, 0x5634,
    0xd94c, 0xc96d, 0xf90e, 0xe92f, 0x99c8, 0x89e9, 0xb98a, 0xa9ab, 0x5844, 0x4865, 0x7806, 0x6827,
    0x18c0, 0x08e1, 0x3882, 0x28a3, 0xcb7d, 0xdb5c, 0xeb3f, 0xfb1e, 0x8bf9, 0x9bd8, 0xabbb, 0xbb9a,
    0x4a75, 0x5a54, 0x6a37, 0x7a16, 0x0af1, 0x1ad0, 0x2ab3, 0x3a92, 0xfd2e, 0xed0f, 0xdd6c, 0xcd4d,
    0xbdaa, 0xad8b, 0x9de8, 0x8dc9, 0x7c26, 0x6c07, 0x5c64, 0x4c45, 0x3ca2, 0x2c83, 0x1ce0, 0x0cc1,
    0xef1f, 0xff3e, 0xcf5d, 0xdf7c, 0xaf9b, 0xbfba, 0x8fd9, 0x9ff8, 0x6e17, 0x7e36, 0x4e55, 0x5e74,
    0x2e93, 0x3eb2, 0x0ed1, 0x1ef0]"

definition crc_16_step :: "32 word \<Rightarrow> byte \<Rightarrow> 32 word" where
  "crc_16_step crc c =
    (let t = c XOR ucast (drop_bit 8 crc)
     in ucast ((CRC16_TABLE ! unat t) XOR (ucast (push_bit 8 crc) :: 16 word)))"

definition crc_16 :: "byte list \<Rightarrow> 16 word" where
  "crc_16 data = ucast (foldl crc_16_step 0 data)"

section \<open>The shift register\<close>

definition crc_shift :: "16 word \<Rightarrow> bool \<Rightarrow> 16 word" where
  "crc_shift r b = push_bit 1 r XOR (if bit r 15 \<noteq> b then 0x1021 else 0)"

definition crc_bits :: "16 word \<Rightarrow> bool list \<Rightarrow> 16 word" where
  "crc_bits = foldl crc_shift"

lemma crc_bits_simps [simp]: "crc_bits r [] = r" "crc_bits r (b # bs) = crc_bits (crc_shift r b) bs"
  by (simp_all add: crc_bits_def)

lemma crc_bits_append: "crc_bits r (xs @ ys) = crc_bits (crc_bits r xs) ys"
  by (simp add: crc_bits_def)

text \<open>The register is linear: it may take the input with the state.\<close>

lemma crc_shift_xor: "crc_shift (x XOR y) (b \<noteq> c) = crc_shift x b XOR crc_shift y c"
  by (rule bit_word_eqI) (auto simp: crc_shift_def bit_simps)

lemma crc_bits_xor:
  "length bs = length cs \<Longrightarrow> crc_bits (x XOR y) (map2 (\<lambda>b c. b \<noteq> c) bs cs) = crc_bits x bs XOR crc_bits y cs"
proof (induction bs cs arbitrary: x y rule: list_induct2)
  case (Cons b bs c cs)
  show ?case using Cons.IH [of "crc_shift x b" "crc_shift y c"] crc_shift_xor [of x y b c] by simp
qed simp

text \<open>As long as the input is what leaves the register, it only shifts.\<close>

lemma crc_bits_shift:
  "length bs \<le> 16 \<Longrightarrow> (\<And>i. i < length bs \<Longrightarrow> bit r (15 - i) = bs ! i) \<Longrightarrow> crc_bits r bs = push_bit (length bs) r"
proof (induction bs arbitrary: r)
  case (Cons b bs)
  have "bit r 15 = b" using Cons.prems(2) [of 0] by simp
  then have s: "crc_shift r b = push_bit 1 r" by (simp add: crc_shift_def)
  have "bit (push_bit 1 r) (15 - i) = bs ! i" if "i < length bs" for i
  proof -
    have "15 - i = Suc (15 - Suc i)" using Cons.prems(1) that by simp
    then have "bit (push_bit 1 r) (15 - i) = bit r (15 - Suc i)" unfolding bit_push_bit_iff by auto
    then show ?thesis using Cons.prems(2) [of "Suc i"] that by simp
  qed
  with Cons.IH [of "push_bit 1 r"] Cons.prems(1) show ?case by (simp add: s)
qed simp

text \<open>Eight steps.\<close>

definition crc_byte :: "16 word \<Rightarrow> 16 word" where
  "crc_byte r = crc_bits r (replicate 8 False)"

lemma crc_byte_xor: "crc_byte (x XOR y) = crc_byte x XOR crc_byte y"
  using crc_bits_xor [of "replicate 8 False" "replicate 8 False" x y] by (simp add: crc_byte_def)

lemma crc_byte_low: "crc_byte (take_bit 8 r) = push_bit 8 r"
proof -
  have "crc_byte (take_bit 8 r) = push_bit 8 (take_bit 8 r)"
    unfolding crc_byte_def by (rule crc_bits_shift [of "replicate 8 False" "take_bit 8 r", simplified]) (auto simp: bit_take_bit_iff)
  also have "\<dots> = push_bit 8 r" by (rule bit_word_eqI) (auto simp: bit_push_bit_iff bit_take_bit_iff)
  finally show ?thesis .
qed

lemma crc_bits_byte: "crc_bits r (word_bits 8 c) = crc_byte (r XOR push_bit 8 (ucast c))"
proof -
  let ?h = "push_bit 8 (ucast c) :: 16 word"
  have "crc_bits ?h (word_bits 8 c) = push_bit 8 ?h"
    by (rule crc_bits_shift [of "word_bits 8 c" ?h, simplified length_word_bits]) (auto simp: bit_push_bit_iff bit_ucast_iff)
  also have "\<dots> = 0" by (rule bit_word_eqI) (auto simp: bit_push_bit_iff bit_ucast_iff dest: bit_imp_le_length)
  finally have z: "crc_bits ?h (word_bits 8 c) = 0" .
  have m: "map2 (\<lambda>b c. b \<noteq> c) (replicate 8 False) (word_bits 8 c) = word_bits 8 c"
    by (rule nth_equalityI) simp_all
  have "r = (r XOR ?h) XOR ?h" by (simp add: xor.assoc)
  then show ?thesis
    using crc_bits_xor [of "replicate 8 False" "word_bits 8 c" "r XOR ?h" ?h] unfolding m z crc_byte_def by simp
qed

section \<open>The table\<close>

text \<open>The values of a linear function on the words of \<open>k\<close> bits, from its values on the powers of two.\<close>

fun linear_table :: "'a::len word list \<Rightarrow> 'a word list" where
  "linear_table [] = [0]"
| "linear_table (b # bs) = (let t = linear_table bs in t @ map (\<lambda>x. x XOR b) t)"

lemma length_linear_table: "length (linear_table bs) = 2 ^ length bs"
  by (induction bs) (simp_all add: Let_def)

lemma of_nat_add_pow:
  assumes "s < 2 ^ k"
  shows "(of_nat (2 ^ k + s) :: 'a::len word) = of_nat s XOR of_nat (2 ^ k)"
proof -
  have "s AND 2 ^ k = 0" using assms
    by (metis and.commute and_exp_eq_0_iff_not_bit bit_take_bit_iff less_irrefl_nat take_bit_nat_eq_self_iff)
  then have "2 ^ k + s = s XOR 2 ^ k" by (simp add: disjunctive_add_eq_xor add.commute)
  then show ?thesis by (metis of_nat_xor_eq)
qed

lemma linear_table_nth:
  fixes f :: "'a::len word \<Rightarrow> 'b::len word"
  assumes "\<And>x y. f (x XOR y) = f x XOR f y"
  shows "t < 2 ^ k \<Longrightarrow> linear_table (map (\<lambda>i. f (of_nat (2 ^ i))) (rev [0..<k])) ! t = f (of_nat t)"
proof (induction k arbitrary: t)
  case 0
  then show ?case using assms [of 0 0] by simp
next
  case (Suc k)
  note l = length_linear_table [of "map (\<lambda>i. f (of_nat (2 ^ i))) (rev [0..<k])"]
  show ?case
  proof (cases "t < 2 ^ k")
    case True
    then show ?thesis using Suc.IH [OF True] l by (simp add: Let_def nth_append)
  next
    case False
    define s where "s = t - 2 ^ k"
    have s: "t = 2 ^ k + s" "s < 2 ^ k" using False Suc.prems by (simp_all add: s_def)
    then show ?thesis
      using Suc.IH [OF s(2)] l of_nat_add_pow [where 'a = 'a, OF s(2)] assms [of "of_nat s" "of_nat (2 ^ k)"] by (simp add: Let_def nth_append)
  qed
qed

definition crc_entry :: "16 word \<Rightarrow> 16 word" where
  "crc_entry t = crc_byte (push_bit 8 t)"

lemma crc_entry_basis:
  "map (\<lambda>i. crc_entry (of_nat (2 ^ i))) (rev [0..<8]) = [0x9188, 0x48c4, 0x2462, 0x1231, 0x8108, 0x4084, 0x2042, 0x1021]"
  by code_simp

lemma crc_table: "t < 256 \<Longrightarrow> CRC16_TABLE ! t = crc_entry (of_nat t)"
proof -
  assume t: "t < 256"
  have "linear_table [0x9188, 0x48c4, 0x2462, 0x1231, 0x8108, 0x4084, 0x2042, 0x1021] = CRC16_TABLE"
    by (simp add: CRC16_TABLE_def)
  moreover have "crc_entry (x XOR y) = crc_entry x XOR crc_entry y" for x y
    by (simp add: crc_entry_def push_bit_xor crc_byte_xor)
  ultimately show ?thesis using linear_table_nth [of crc_entry t 8] t unfolding crc_entry_basis by simp
qed

section \<open>The checksum\<close>

lemma crc_16_step_bits: "crc_16_step (ucast r) c = ucast (crc_bits r (word_bits 8 c))" for r :: "16 word"
proof -
  let ?t = "c XOR ucast (drop_bit 8 (ucast r :: 32 word)) :: byte"
  have t: "r XOR push_bit 8 (ucast c) = push_bit 8 (ucast ?t) XOR take_bit 8 r"
    by (rule bit_word_eqI) (auto simp: bit_simps)
  have u: "ucast (push_bit 8 (ucast r :: 32 word)) = push_bit 8 r"
    by (rule bit_word_eqI) (auto simp: bit_simps)
  have "crc_bits r (word_bits 8 c) = crc_entry (ucast ?t) XOR push_bit 8 r"
    by (simp add: crc_bits_byte t crc_byte_xor crc_byte_low crc_entry_def)
  also have "crc_entry (ucast ?t) = CRC16_TABLE ! unat ?t"
    using crc_table [OF unat_byte_less, of ?t] by (simp add: unsigned_of_nat)
  finally show ?thesis by (simp add: crc_16_step_def Let_def u)
qed

lemma crc_16_register: "foldl crc_16_step (ucast r) data = ucast (crc_bits r (bytes_bits data))" for r :: "16 word"
proof (induction data arbitrary: r)
  case (Cons c data)
  show ?case by (simp add: Cons.IH crc_16_step_bits bytes_bits_Cons crc_bits_append)
qed (simp add: bytes_bits_def)

lemma crc_16_bits: "crc_16 data = crc_bits 0 (bytes_bits data)"
proof -
  have "ucast (ucast (crc_bits 0 (bytes_bits data)) :: 32 word) = crc_bits 0 (bytes_bits data)"
    by (rule bit_word_eqI) (simp add: bit_ucast_iff)
  then show ?thesis using crc_16_register [of 0 data] by (simp add: crc_16_def)
qed

end
