(* ===== verification/Text_Forms.thy ===== *)
theory Text_Forms
  imports Bitstring Shard_Path Crc16
begin

text \<open>
  Text forms of addresses (\<^verbatim>\<open>src/models/message/address.rs\<close>) and of shard and block identifiers
  (\<^verbatim>\<open>src/models/block/block_id.rs\<close>). Printing and parsing of integers are those of the standard library; the
  decoders of the crates \<open>hex\<close> and \<open>base64\<close> are parameters.
\<close>

unbundle bit_operations_syntax

section \<open>Integers\<close>

fun nat_digits :: "nat \<Rightarrow> nat \<Rightarrow> nat list" where
  "nat_digits b n = (if b \<le> 1 \<or> n < b then [n] else nat_digits b (n div b) @ [n mod b])"

declare nat_digits.simps [simp del]

definition digit_char :: "nat \<Rightarrow> byte" where
  "digit_char d = HEX_CHARS_LOWER ! d"

definition char_digit :: "byte \<Rightarrow> nat option" where
  "char_digit c =
    (if 0x30 \<le> c \<and> c \<le> 0x39 then Some (unat c - 0x30)
     else if 0x61 \<le> c \<and> c \<le> 0x7a then Some (unat c - 0x61 + 10)
     else if 0x41 \<le> c \<and> c \<le> 0x5a then Some (unat c - 0x41 + 10)
     else None)"

fun parse_digits :: "nat \<Rightarrow> nat \<Rightarrow> byte list \<Rightarrow> nat option" where
  "parse_digits b acc [] = Some acc"
| "parse_digits b acc (c # cs) =
    (case char_digit c of
       None \<Rightarrow> None
     | Some d \<Rightarrow> if d < b then parse_digits b (acc * b + d) cs else None)"

text \<open>\<open>from_str_radix\<close> of an unsigned type of \<open>w\<close> bits, and \<open>parse\<close> of a signed one.\<close>

definition parse_uint :: "nat \<Rightarrow> nat \<Rightarrow> byte list \<Rightarrow> nat option" where
  "parse_uint b w s =
    (let s = (if s \<noteq> [] \<and> hd s = 0x2b then tl s else s)
     in if s = [] then None
        else case parse_digits b 0 s of None \<Rightarrow> None | Some v \<Rightarrow> if v < 2 ^ w then Some v else None)"

definition parse_int :: "nat \<Rightarrow> byte list \<Rightarrow> int option" where
  "parse_int w s =
    (let (neg, s) = (if s \<noteq> [] \<and> hd s = 0x2b then (False, tl s) else if s \<noteq> [] \<and> hd s = 0x2d then (True, tl s) else (False, s))
     in if s = [] then None
        else case parse_digits 10 0 s of
               None \<Rightarrow> None
             | Some v \<Rightarrow> if neg then if v \<le> 2 ^ (w - 1) then Some (- int v) else None
                         else if v < 2 ^ (w - 1) then Some (int v) else None)"

definition print_uint :: "nat \<Rightarrow> byte list" where
  "print_uint n = map digit_char (nat_digits 10 n)"

definition print_int :: "int \<Rightarrow> byte list" where
  "print_int i = (if i < 0 then 0x2d # print_uint (nat (- i)) else print_uint (nat i))"

definition print_hex :: "nat \<Rightarrow> nat \<Rightarrow> byte list" where
  "print_hex w n = (let ds = map digit_char (nat_digits 16 n) in replicate (w - length ds) 0x30 @ ds)"

text \<open>The parts of a string between separators.\<close>

fun split_on :: "byte \<Rightarrow> byte list \<Rightarrow> byte list list" where
  "split_on c [] = [[]]"
| "split_on c (x # xs) = (if x = c then [] # split_on c xs
     else case split_on c xs of p # ps \<Rightarrow> (x # p) # ps | [] \<Rightarrow> [[x]])"

section \<open>Standard addresses\<close>

definition hash_to_string :: "hash_bytes \<Rightarrow> byte list" where
  "hash_to_string h = encode_to_hex_slice h HEX_CHARS_LOWER"

text \<open>\<open>decode_to_slice\<close> into an array of 32 bytes.\<close>

definition decode_hash :: "(byte list \<Rightarrow> byte list option) \<Rightarrow> byte list \<Rightarrow> hash_bytes option" where
  "decode_hash hex_decode s = (case hex_decode s of Some h \<Rightarrow> if length h = 32 then Some h else None | None \<Rightarrow> None)"

definition sa_to_string :: "std_addr \<Rightarrow> byte list" where
  "sa_to_string a =
    (case sa_anycast a of
       Some anycast \<Rightarrow> fmt_hex False (ac_rewrite_prefix anycast) (sd_into_bit_len (ac_depth anycast)) @ [0x3a]
     | None \<Rightarrow> []) @ print_int (sint (sa_workchain a)) @ [0x3a] @ hash_to_string (sa_address a)"

definition sa_from_str :: "(byte list \<Rightarrow> byte list option) \<Rightarrow> byte list \<Rightarrow> parse_addr_error + std_addr" where
  "sa_from_str hex_decode s =
    (if s = [] then Inl AddrEmpty
     else case split_on 0x3a s of
       [] \<Rightarrow> Inl AddrEmpty
     | part # parts \<Rightarrow>
         (case parse_int 8 part of
            None \<Rightarrow> Inl InvalidWorkchain
          | Some workchain \<Rightarrow>
              (case parts of
                 [] \<Rightarrow> Inl InvalidAccountId
               | part # parts \<Rightarrow>
                   (case decode_hash hex_decode part of
                      None \<Rightarrow> Inl InvalidAccountId
                    | Some address \<Rightarrow>
                        if parts = [] then Inr (sa_new (word_of_int workchain) address) else Inl UnexpectedPart))))"

subsection \<open>In base64\<close>

record std_addr_format =
  allow_raw :: bool
  allow_base64 :: bool
  allow_base64_url :: bool

record base64_std_addr_flags =
  fl_testnet :: bool
  fl_base64_url :: bool
  fl_bounceable :: bool

text \<open>The parameters are the two engines of the crate, by the flag \<open>base64_url\<close>.\<close>

definition display_base64 :: "(bool \<Rightarrow> byte list \<Rightarrow> byte list) \<Rightarrow> base64_std_addr_flags \<Rightarrow> std_addr \<Rightarrow> byte list" where
  "display_base64 encode flags a =
    (let buffer = [word_of_int (0x51 - of_bool (fl_bounceable flags) * 0x40 + of_bool (fl_testnet flags) * 0x80), sa_workchain a] @ sa_address a;
         crc = crc_16 buffer
     in encode (fl_base64_url flags) (buffer @ [ucast (drop_bit 8 crc), ucast (crc AND 0xff)]))"

definition from_str_ext ::
  "(byte list \<Rightarrow> byte list option) \<Rightarrow> (bool \<Rightarrow> byte list \<Rightarrow> byte list option) \<Rightarrow> byte list \<Rightarrow> std_addr_format
   \<Rightarrow> parse_addr_error + (std_addr \<times> base64_std_addr_flags)" where
  "from_str_ext hex_decode decode s format =
    (if length s = 0 then Inl AddrEmpty
     else if 66 \<le> length s \<and> length s \<le> 69 \<and> allow_raw format then
       (case sa_from_str hex_decode s of
          Inl e \<Rightarrow> Inl e
        | Inr a \<Rightarrow> Inr (a, \<lparr>fl_testnet = False, fl_base64_url = False, fl_bounceable = False\<rparr>))
     else if length s = 48 \<and> (allow_base64 format \<or> allow_base64_url format) then
       let base64_url = list_ex (\<lambda>c. c = 0x5f \<or> c = 0x2d) s
       in (case decode base64_url s of
             None \<Rightarrow> Inl BadFormat
           | Some buffer \<Rightarrow>
               if length buffer \<noteq> 36 then Inl BadFormat
               else
                 let crc = crc_16 (take 34 buffer)
                 in if ucast (buffer ! 34) \<noteq> drop_bit 8 crc \<or> ucast (buffer ! 35) \<noteq> crc AND 0xff then Inl BadFormat
                    else Inr (sa_new (buffer ! 1) (take 32 (drop 2 buffer)),
                      \<lparr>fl_testnet = (buffer ! 0 AND 0x80 \<noteq> 0), fl_base64_url = base64_url, fl_bounceable = (buffer ! 0 AND 0x40 = 0)\<rparr>))
     else Inl BadFormat)"

section \<open>Shard and block identifiers\<close>

datatype parse_block_id_error = BlockEmpty | BlockInvalidWorkchain | InvalidShardIdent | InvalidSeqno | InvalidRootHash
  | InvalidFileHash | BlockUnexpectedPart

definition si_to_string :: "shard_ident \<Rightarrow> byte list" where
  "si_to_string s = print_int (sint (si_workchain s)) @ [0x3a] @ print_hex 16 (unat (si_prefix s))"

text \<open>The two parts of a shard, common to both parsers.\<close>

definition parse_shard :: "byte list list \<Rightarrow> parse_block_id_error + (shard_ident \<times> byte list list)" where
  "parse_shard parts =
    (case parts of
       [] \<Rightarrow> Inl BlockEmpty
     | wc # parts \<Rightarrow>
         (case parse_int 32 wc of
            None \<Rightarrow> Inl InvalidShardIdent
          | Some workchain \<Rightarrow>
              (case parts of
                 [] \<Rightarrow> Inl InvalidShardIdent
               | pfx # parts \<Rightarrow>
                   (case parse_uint 16 64 pfx of
                      None \<Rightarrow> Inl InvalidShardIdent
                    | Some pfx \<Rightarrow>
                        (case si_new (word_of_int workchain) (of_nat pfx) of
                           None \<Rightarrow> Inl InvalidShardIdent
                         | Some shard \<Rightarrow> Inr (shard, parts))))))"

definition si_from_str :: "byte list \<Rightarrow> parse_block_id_error + shard_ident" where
  "si_from_str s = (case parse_shard (split_on 0x3a s) of Inl e \<Rightarrow> Inl e | Inr (shard, parts) \<Rightarrow> Inr shard)"

definition bs_to_string :: "block_id_short \<Rightarrow> byte list" where
  "bs_to_string b = si_to_string (bs_shard b) @ [0x3a] @ print_uint (unat (bs_seqno b))"

definition bi_to_string :: "block_id \<Rightarrow> byte list" where
  "bi_to_string b = si_to_string (bi_shard b) @ [0x3a] @ print_uint (unat (bi_seqno b)) @ [0x3a]
     @ hash_to_string (bi_root_hash b) @ [0x3a] @ hash_to_string (bi_file_hash b)"

definition bi_from_str :: "(byte list \<Rightarrow> byte list option) \<Rightarrow> byte list \<Rightarrow> parse_block_id_error + block_id" where
  "bi_from_str hex_decode s =
    (if s = [] then Inl BlockEmpty
     else case parse_shard (split_on 0x3a s) of
       Inl e \<Rightarrow> Inl e
     | Inr (shard, parts) \<Rightarrow>
         (case (case parts of p # ps \<Rightarrow> parse_uint 10 32 p | [] \<Rightarrow> None) of
            None \<Rightarrow> Inl InvalidSeqno
          | Some seqno \<Rightarrow>
              (case (case tl parts of p # ps \<Rightarrow> decode_hash hex_decode p | [] \<Rightarrow> None) of
                 None \<Rightarrow> Inl InvalidRootHash
               | Some root_hash \<Rightarrow>
                   (case (case tl (tl parts) of p # ps \<Rightarrow> decode_hash hex_decode p | [] \<Rightarrow> None) of
                      None \<Rightarrow> Inl InvalidFileHash
                    | Some file_hash \<Rightarrow>
                        if tl (tl (tl parts)) = []
                        then Inr \<lparr>bi_shard = shard, bi_seqno = of_nat seqno, bi_root_hash = root_hash, bi_file_hash = file_hash\<rparr>
                        else Inl BlockUnexpectedPart))))"

end
