(* ===== verification/Text_Props.thy ===== *)
theory Text_Props
  imports Text_Forms
begin

text \<open>What is printed is parsed: integers, addresses, shard and block identifiers.\<close>

unbundle bit_operations_syntax

section \<open>Integers\<close>

lemma digit_char:
  assumes "d < 16"
  shows "char_digit (digit_char d) = Some d" "digit_char d \<noteq> 0x3a" "digit_char d \<noteq> 0x2b" "digit_char d \<noteq> 0x2d"
proof -
  have "list_all (\<lambda>d. char_digit (digit_char d) = Some d \<and> digit_char d \<noteq> 0x3a \<and> digit_char d \<noteq> 0x2b \<and> digit_char d \<noteq> 0x2d) [0..<16]"
    by code_simp
  then show "char_digit (digit_char d) = Some d" "digit_char d \<noteq> 0x3a" "digit_char d \<noteq> 0x2b" "digit_char d \<noteq> 0x2d"
    using assms by (simp_all add: list_all_iff)
qed

lemma parse_digits_append:
  "parse_digits b acc (xs @ ys) = (case parse_digits b acc xs of None \<Rightarrow> None | Some a \<Rightarrow> parse_digits b a ys)"
  by (induction b acc xs rule: parse_digits.induct) (auto split: option.split)

lemma nat_digits_less: "2 \<le> b \<Longrightarrow> d \<in> set (nat_digits b n) \<Longrightarrow> d < b"
  by (induction b n rule: nat_digits.induct) (subst (asm) (2) nat_digits.simps, auto split: if_splits)

lemma nat_digits_Cons: "nat_digits b n \<noteq> []"
  by (subst nat_digits.simps) simp

lemma parse_nat_digits:
  assumes "2 \<le> b" "b \<le> 16"
  shows "parse_digits b 0 (map digit_char (nat_digits b n)) = Some n"
proof (induction n rule: less_induct)
  case (less n)
  show ?case
  proof (cases "n < b")
    case True
    then show ?thesis using assms digit_char(1) [of n] by (subst nat_digits.simps) simp
  next
    case False
    then have "n div b < n" using assms by simp
    moreover have m: "n mod b < b" using assms by simp
    moreover have "char_digit (digit_char (n mod b)) = Some (n mod b)" using m assms(2) by (intro digit_char(1)) simp
    ultimately show ?thesis
      using False assms less.IH [of "n div b"] by (subst nat_digits.simps) (simp add: parse_digits_append)
  qed
qed

lemma digits_chars:
  "2 \<le> b \<Longrightarrow> b \<le> 16 \<Longrightarrow> c \<in> set (map digit_char (nat_digits b n)) \<Longrightarrow> c \<noteq> 0x3a \<and> c \<noteq> 0x2b \<and> c \<noteq> 0x2d"
  using nat_digits_less [of b _ n] digit_char(2-4) by fastforce

lemma parse_uint_digits:
  assumes "parse_digits b 0 s = Some v" "s \<noteq> []" "hd s \<noteq> 0x2b" "v < 2 ^ w"
  shows "parse_uint b w s = Some v"
  using assms by (simp add: parse_uint_def)

lemma print_uint_digits:
  "parse_digits 10 0 (print_uint n) = Some n" "print_uint n \<noteq> []" "hd (print_uint n) \<noteq> 0x2b" "hd (print_uint n) \<noteq> 0x2d"
proof -
  show "parse_digits 10 0 (print_uint n) = Some n" by (simp add: print_uint_def parse_nat_digits)
  show ne: "print_uint n \<noteq> []" by (simp add: print_uint_def nat_digits_Cons)
  then have "hd (print_uint n) \<in> set (map digit_char (nat_digits 10 n))" using hd_in_set [OF ne] by (simp add: print_uint_def)
  from digits_chars [OF _ _ this] show "hd (print_uint n) \<noteq> 0x2b" "hd (print_uint n) \<noteq> 0x2d" by simp_all
qed

lemma parse_print_uint: "n < 2 ^ w \<Longrightarrow> parse_uint 10 w (print_uint n) = Some n"
  using print_uint_digits [of n] by (intro parse_uint_digits) auto

lemma parse_zeros: "parse_digits b 0 (replicate k 0x30 @ s) = parse_digits b 0 s" if "0 < b"
  using that by (induction k) (auto simp: char_digit_def)

lemma print_hex_chars: "c \<in> set (print_hex w n) \<Longrightarrow> c \<noteq> 0x3a \<and> c \<noteq> 0x2b"
  using digits_chars [of 16 c n] by (auto simp: print_hex_def Let_def)

lemma parse_print_hex:
  assumes "n < 2 ^ w"
  shows "parse_uint 16 w (print_hex k n) = Some n"
proof (rule parse_uint_digits)
  show "parse_digits 16 0 (print_hex k n) = Some n" by (simp add: print_hex_def Let_def parse_zeros parse_nat_digits)
  show ne: "print_hex k n \<noteq> []" using nat_digits_Cons [of 16 n] by (simp add: print_hex_def Let_def)
  show "hd (print_hex k n) \<noteq> 0x2b" using print_hex_chars [OF hd_in_set [OF ne]] by simp
qed (rule assms)

lemma parse_print_int:
  assumes "- (2 ^ (w - 1)) \<le> i" "i < 2 ^ (w - 1)"
  shows "parse_int w (print_int i) = Some i"
proof -
  note d = print_uint_digits
  show ?thesis
  proof (cases "i < 0")
    case True
    then have "nat (- i) \<le> 2 ^ (w - 1)" using assms(1) by (simp add: nat_le_iff)
    then show ?thesis using True d by (simp add: parse_int_def print_int_def)
  next
    case False
    then have "nat i < 2 ^ (w - 1)" using assms(2) by (simp add: nat_less_iff)
    then show ?thesis using False d by (simp add: parse_int_def print_int_def)
  qed
qed

lemma print_uint_chars: "c \<in> set (print_uint n) \<Longrightarrow> c \<noteq> 0x3a"
  using digits_chars [of 10 c] by (auto simp: print_uint_def)

lemma print_int_chars: "c \<in> set (print_int i) \<Longrightarrow> c \<noteq> 0x3a"
  using print_uint_chars by (auto simp: print_int_def split: if_splits)

section \<open>Parts\<close>

lemma split_on_last: "c \<notin> set xs \<Longrightarrow> split_on c xs = [xs]"
  by (induction xs) auto

lemma split_on_append: "c \<notin> set xs \<Longrightarrow> split_on c (xs @ c # ys) = xs # split_on c ys"
  by (induction xs) auto

lemma hash_chars: "c \<in> set (hash_to_string h) \<Longrightarrow> c \<noteq> 0x3a"
proof -
  have "list_all (\<lambda>i. HEX_CHARS_LOWER ! i \<noteq> 0x3a) [0..<16]" by code_simp
  then show "c \<in> set (hash_to_string h) \<Longrightarrow> c \<noteq> 0x3a"
    using nibbles_less by (auto simp: hash_to_string_def encode_to_hex_slice_def byte2hex_def Let_def list_all_iff)
qed

lemmas text_chars = print_int_chars print_uint_chars print_hex_chars hash_chars

lemma decode_hash_to_string: "hex_decodes dec \<Longrightarrow> length h = 32 \<Longrightarrow> decode_hash dec (hash_to_string h) = Some h"
  by (simp add: decode_hash_def hash_to_string_def hex_decodes_def)

section \<open>Shards, blocks and addresses\<close>

lemma sint_range: "- (2 ^ (LENGTH('a) - 1)) \<le> sint w" "sint w < 2 ^ (LENGTH('a) - 1)" for w :: "'a::len word"
  using sint_range_size [of w] by (simp_all add: word_size sint_lt sint_ge)

lemma si_new_same: "si_new (si_workchain s) (si_prefix s) = None \<or> si_new (si_workchain s) (si_prefix s) = Some s"
  by (cases s) (simp add: si_new_def)

lemma parse_shard_string:
  "parse_shard (split_on 0x3a (si_to_string s)) =
     (if si_new (si_workchain s) (si_prefix s) = None then Inl InvalidShardIdent else Inr (s, []))"
  "parse_shard (split_on 0x3a (si_to_string s @ 0x3a # rest)) =
     (if si_new (si_workchain s) (si_prefix s) = None then Inl InvalidShardIdent else Inr (s, split_on 0x3a rest))"
proof -
  have "0x3a \<notin> set (print_int (sint (si_workchain s)))" "0x3a \<notin> set (print_hex 16 (unat (si_prefix s)))" using text_chars by blast+
  moreover have "parse_int 32 (print_int (sint (si_workchain s))) = Some (sint (si_workchain s))"
    using sint_range [of "si_workchain s"] by (intro parse_print_int) simp_all
  moreover have "parse_uint 16 64 (print_hex 16 (unat (si_prefix s))) = Some (unat (si_prefix s))"
    using unsigned_less [of "si_prefix s"] by (intro parse_print_hex) simp
  ultimately show "parse_shard (split_on 0x3a (si_to_string s)) =
     (if si_new (si_workchain s) (si_prefix s) = None then Inl InvalidShardIdent else Inr (s, []))"
    "parse_shard (split_on 0x3a (si_to_string s @ 0x3a # rest)) =
     (if si_new (si_workchain s) (si_prefix s) = None then Inl InvalidShardIdent else Inr (s, split_on 0x3a rest))"
    using si_new_same [of s] by (auto simp: si_to_string_def split_on_append split_on_last parse_shard_def)
qed

lemma si_text:
  "si_from_str (si_to_string s) = (if si_new (si_workchain s) (si_prefix s) = None then Inl InvalidShardIdent else Inr s)"
  by (simp add: si_from_str_def parse_shard_string)

lemma bi_text:
  assumes "hex_decodes dec" "length (bi_root_hash b) = 32" "length (bi_file_hash b) = 32"
  shows "bi_from_str dec (bi_to_string b) =
    (if si_new (si_workchain (bi_shard b)) (si_prefix (bi_shard b)) = None then Inl InvalidShardIdent else Inr b)"
proof -
  have "0x3a \<notin> set (print_uint (unat (bi_seqno b)))" "0x3a \<notin> set (hash_to_string h)" for h using text_chars by blast+
  moreover have "parse_uint 10 32 (print_uint (unat (bi_seqno b))) = Some (unat (bi_seqno b))"
    using unsigned_less [of "bi_seqno b"] by (intro parse_print_uint) simp
  moreover have "bi_to_string b \<noteq> []" by (simp add: bi_to_string_def si_to_string_def)
  ultimately show ?thesis
    using assms parse_shard_string(2) [of "bi_shard b"]
    by (cases b) (simp add: bi_from_str_def bi_to_string_def split_on_append split_on_last decode_hash_to_string)
qed

text \<open>The parts of a string, one more than its separators; a standard address has two.\<close>

lemma split_on_parts: "length (split_on c s) = Suc (length (filter (\<lambda>x. x = c) s))"
  by (induction s) (auto split: list.split)

lemma sa_from_str_parts: "sa_from_str dec s = Inr a \<Longrightarrow> length (split_on 0x3a s) = 2"
  by (auto simp: sa_from_str_def split: if_splits list.splits option.splits)

lemma sa_text:
  assumes "hex_decodes dec" "sa_anycast a = None" "length (sa_address a) = 32"
  shows "sa_from_str dec (sa_to_string a) = Inr a"
proof -
  have "0x3a \<notin> set (print_int (sint (sa_workchain a)))" "0x3a \<notin> set (hash_to_string h)" for h using text_chars by blast+
  moreover have "parse_int 8 (print_int (sint (sa_workchain a))) = Some (sint (sa_workchain a))"
    using sint_range [of "sa_workchain a"] by (intro parse_print_int) simp_all
  ultimately show ?thesis
    using assms by (cases a) (simp add: sa_from_str_def sa_to_string_def split_on_append split_on_last decode_hash_to_string sa_new_def)
qed

lemma sa_text_anycast:
  assumes "sa_anycast a \<noteq> None"
  shows "\<exists>e. sa_from_str dec (sa_to_string a) = Inl e"
proof (cases "sa_from_str dec (sa_to_string a)")
  case (Inr b)
  from sa_from_str_parts [OF this] show ?thesis using assms by (auto simp: sa_to_string_def split_on_parts)
qed blast

lemma ea_text:
  assumes "hex_decodes dec" "ea_valid a"
  shows "ea_from_str dec (ea_to_string a) = Inr a"
proof -
  let ?n = "unat (ea_data_bit_len a)"
  have n: "?n \<le> 511" "packed ?n (ea_data a)" "su_is_valid 9 (ea_data_bit_len a)" using assms(2) ea_valid_len by (simp_all add: ea_valid_def)
  have f: "from_hex_str dec (fmt_hex False (ea_data a) ?n) = Ok (ea_data a, ?n)" using n by (intro fmt_hex_parses assms(1)) simp_all
  obtain a' where a': "ea_new (ea_data_bit_len a) (ea_data a) = Some a'" using n(3) by (simp add: ea_new_def Let_def)
  note p = ea_new_packs [OF a']
  have "take ?n (bytes_bits (ea_data a) @ replicate ?n False) = raw_bits (ea_data a) ?n"
    using packed_length [OF n(2)] div_ceil8_bounds [of ?n] by (simp add: raw_bits_def)
  then have "ea_data a' = ea_data a" using p(3) n(2) by (simp add: packed_def)
  then have "a' = a" using p(1) by (cases a; cases a') simp
  then show ?thesis using f a' by (simp add: ea_from_str_def ea_to_string_def)
qed

text \<open>What the engines of the crate \<open>base64\<close> promise of 36 bytes: 48 characters without padding, which are decoded,
  by the standard engine too if there is none of its own.\<close>

definition base64_engines :: "(bool \<Rightarrow> byte list \<Rightarrow> byte list) \<Rightarrow> (bool \<Rightarrow> byte list \<Rightarrow> byte list option) \<Rightarrow> bool" where
  "base64_engines encode decode \<longleftrightarrow> (\<forall>url b. length b = 36 \<longrightarrow> length (encode url b) = 48
     \<and> (let own = list_ex (\<lambda>c. c = 0x5f \<or> c = 0x2d) (encode url b) in (own \<longrightarrow> url) \<and> decode own (encode url b) = Some b))"

text \<open>
  The checksum of some bytes, high byte first, and the flags of the first byte. The flag of the alphabet is
  not in the bytes; the characters \<open>_\<close> and \<open>-\<close> tell it.
\<close>

definition crc_bytes :: "byte list \<Rightarrow> byte list" where
  "crc_bytes d = [ucast (drop_bit 8 (crc_bits 0 (bytes_bits d))), ucast (crc_bits 0 (bytes_bits d))]"

definition flag_byte :: "base64_std_addr_flags \<Rightarrow> byte" where
  "flag_byte flags = (if fl_bounceable flags then 0x11 else 0x51) OR (if fl_testnet flags then 0x80 else 0)"

definition url_chars :: "byte list \<Rightarrow> bool" where
  "url_chars s \<longleftrightarrow> 0x5f \<in> set s \<or> 0x2d \<in> set s"

lemma flag_byte_bits: "bit (flag_byte flags) 7 = fl_testnet flags" "bit (flag_byte flags) 6 = (\<not> fl_bounceable flags)"
  "word_of_int (0x51 - of_bool (fl_bounceable flags) * 0x40 + of_bool (fl_testnet flags) * 0x80) = flag_byte flags"
  by (cases "fl_testnet flags"; cases "fl_bounceable flags"; simp add: flag_byte_def)+

lemma ucast_halves:
  fixes x :: byte and w :: "16 word"
  shows "ucast (w AND 0xff) = (ucast w :: byte)"
    "ucast x = drop_bit 8 w \<longleftrightarrow> x = ucast (drop_bit 8 w)" "ucast x = w AND 0xff \<longleftrightarrow> x = ucast w"
proof -
  have m: "w AND 0xff = take_bit 8 w" by (simp add: take_bit_eq_mask mask_eq_exp_minus_1)
  have "ucast (ucast x :: 16 word) = x" by (rule bit_word_eqI) (auto simp: bit_simps)
  moreover have "ucast (ucast (drop_bit 8 w) :: byte) = drop_bit 8 w"
    by (rule bit_word_eqI) (auto simp: bit_simps dest: bit_imp_le_length)
  moreover have "ucast (ucast w :: byte) = w AND 0xff"
    unfolding m by (rule bit_word_eqI) (auto simp: bit_simps)
  moreover show "ucast (w AND 0xff) = (ucast w :: byte)"
    unfolding m by (rule bit_word_eqI) (auto simp: bit_simps)
  ultimately show "ucast x = drop_bit 8 w \<longleftrightarrow> x = ucast (drop_bit 8 w)" "ucast x = w AND 0xff \<longleftrightarrow> x = ucast w"
    by metis+
qed

lemma display_base64_eq:
  "display_base64 encode flags a = (let d = [flag_byte flags, sa_workchain a] @ sa_address a in encode (fl_base64_url flags) (d @ crc_bytes d))"
  by (simp only: display_base64_def Let_def flag_byte_bits(3) crc_bytes_def crc_16_bits ucast_halves(1))

text \<open>What is parsed from the encoded form of any 36 bytes.\<close>

lemma from_str_base64:
  assumes "base64_engines encode decode" "allow_base64 format \<or> allow_base64_url format" "length b = 36"
  shows "from_str_ext dec decode (encode url b) format =
    (if drop 34 b = crc_bytes (take 34 b)
     then Inr (sa_new (b ! 1) (take 32 (drop 2 b)),
       \<lparr>fl_testnet = bit (b ! 0) 7, fl_base64_url = url_chars (encode url b), fl_bounceable = \<not> bit (b ! 0) 6\<rparr>)
     else Inl BadFormat)"
proof -
  let ?s = "encode url b"
  have u: "list_ex (\<lambda>c. c = 0x5f \<or> c = 0x2d) ?s = url_chars ?s" by (auto simp: list_ex_iff url_chars_def)
  have e: "length ?s = 48" "decode (url_chars ?s) ?s = Some b"
    using assms(1,3) unfolding base64_engines_def Let_def u [symmetric] by blast+
  have d: "drop 34 b = [b ! 34, b ! 35]" using assms(3) by (simp add: Cons_nth_drop_Suc [symmetric])
  have f: "b ! 0 AND 0x80 = 0 \<longleftrightarrow> \<not> bit (b ! 0) 7" "b ! 0 AND 0x40 = 0 \<longleftrightarrow> \<not> bit (b ! 0) 6"
    using and_exp_eq_0_iff_not_bit [of "b ! 0" 7] and_exp_eq_0_iff_not_bit [of "b ! 0" 6] by simp_all
  show ?thesis
    using e assms(2,3) by (simp add: from_str_ext_def Let_def u d f crc_bytes_def crc_16_bits ucast_halves(2,3))
qed

lemma sa_base64:
  assumes "base64_engines encode decode" "allow_base64 format \<or> allow_base64_url format" "sa_anycast a = None" "length (sa_address a) = 32"
  shows "from_str_ext dec decode (display_base64 encode flags a) format
    = Inr (a, flags\<lparr>fl_base64_url := url_chars (display_base64 encode flags a)\<rparr>)"
proof -
  let ?d = "[flag_byte flags, sa_workchain a] @ sa_address a"
  have l: "length (?d @ crc_bytes ?d) = 36" "length ?d = 34" using assms(4) by (simp_all add: crc_bytes_def)
  have t: "drop 34 (?d @ crc_bytes ?d) = crc_bytes ?d" "take 34 (?d @ crc_bytes ?d) = ?d"
    "take 32 (drop 2 (?d @ crc_bytes ?d)) = sa_address a" "(?d @ crc_bytes ?d) ! 0 = flag_byte flags" "(?d @ crc_bytes ?d) ! 1 = sa_workchain a"
    using l(2) assms(4) by simp_all
  show ?thesis
    unfolding display_base64_eq Let_def from_str_base64 [OF assms(1,2) l(1)] t flag_byte_bits
    using assms(3) by (cases a; cases flags) (simp add: sa_new_def)
qed

end
