(* ===== verification/Address_Properties.thy ===== *)
theory Address_Properties
  imports Text_Props
begin

text \<open>The properties of addresses and of the text forms of addresses, shards and blocks.\<close>

unbundle bit_operations_syntax

section \<open>Addresses in cells\<close>

definition demo_anycast :: anycast where
  "demo_anycast = \<lparr>ac_depth = 3, ac_rewrite_prefix = pack_bits [True, False, True]\<rparr>"

definition demo_var_addr :: var_addr where
  "demo_var_addr = \<lparr>va_anycast = Some demo_anycast, va_address_len = 5, va_workchain = -1,
     va_address = pack_bits [True, False, True, True, False]\<rparr>"

definition demo_ext_addr :: ext_addr where
  "demo_ext_addr = \<lparr>ea_data_bit_len = 5, ea_data = pack_bits [True, False, True, True, False]\<rparr>"

definition demo_std_addr :: std_addr where
  "demo_std_addr = sa_new (-1) (replicate 32 0x33)"

lemma demo_addresses: "va_valid demo_var_addr" "ea_valid demo_ext_addr" "sa_valid demo_std_addr"
proof -
  have p: "packed 3 (pack_bits [True, False, True])" "packed 5 (pack_bits [True, False, True, True, False])"
    using packed_pack [of "[True, False, True]"] packed_pack [of "[True, False, True, True, False]"] by (simp_all add: eval_nat_numeral)
  have v: "su_is_valid 9 (5 :: 16 word)" by code_simp
  have a: "ac_valid demo_anycast" using p(1) by (simp add: ac_valid_def demo_anycast_def)
  show "va_valid demo_var_addr" using p(2) v a by (simp add: va_valid_def demo_var_addr_def)
  show "ea_valid demo_ext_addr" using p(2) v by (simp add: ea_valid_def demo_ext_addr_def)
  show "sa_valid demo_std_addr" by (simp add: sa_valid_def demo_std_addr_def sa_new_def)
qed

text \<open>
  C31. Every address, standard, variable-length, external or none, with or without an anycast prefix, is
  read back from the cell it is stored in, and so are optional internal addresses as messages have
  them. An internal address takes exactly the number of bits that its \<open>bit_len\<close> says.
\<close>

theorem address_roundtrip:
  assumes "aa_valid a" "pred_option ia_valid i"
  shows "reads_back sha aa_store_into aa_load_from a \<and> reads_back sha store_opt_int_addr load_opt_int_addr i
    \<and> (\<forall>x b. i = Some x \<and> store_opt_int_addr i cb_new = Ok b \<longrightarrow> bd_bit_len (cb_inner b) = ia_bit_len x)"
proof (intro conjI allI impI)
  have l: "length (aa_bits a) \<le> 1023"
  proof (cases a)
    case (AnyExt e)
    then show ?thesis using assms(1) ea_valid_len [of e] by simp
  qed (use assms(1) length_sa_bits length_va_bits in \<open>fastforce+\<close>)
  have x: "length (ia_bits x) = ia_bit_len x \<and> ia_bit_len x \<le> 1023" if "ia_valid x" for x
    using that length_sa_bits length_va_bits by (cases x) fastforce+
  have m: "length (opt_ia_bits i) \<le> 1023" using assms(2) x by (cases i) (simp_all add: opt_ia_bits_def)
  show "reads_back sha aa_store_into aa_load_from a"
    using any_addr_codec.stored_reads_back [OF assms(1) l, of 0] by simp
  show "reads_back sha store_opt_int_addr load_opt_int_addr i"
    using opt_int_addr_codec.stored_reads_back [OF assms(2) m, of 0] by simp
  fix y b assume y: "i = Some y \<and> store_opt_int_addr i cb_new = Ok b"
  then show "bd_bit_len (cb_inner b) = ia_bit_len y"
    using opt_int_addr_codec.store_new [OF assms(2) m] x [of y] assms(2) by (auto simp: opt_ia_bits_def mk_cb_def)
qed

lemma address_roundtrip_witness:
  "reads_back (\<lambda>_. replicate 32 0) aa_store_into aa_load_from (AnyExt demo_ext_addr)
    \<and> reads_back (\<lambda>_. replicate 32 0) store_opt_int_addr load_opt_int_addr (Some (IntVar demo_var_addr))"
  using address_roundtrip [of "AnyExt demo_ext_addr" "Some (IntVar demo_var_addr)" "\<lambda>_. replicate 32 0"] demo_addresses by simp

text \<open>The length that \<open>bit_len\<close> gives for an external address leaves out the two bits of its tag.\<close>

lemma ext_addr_bit_len_short:
  assumes "ea_valid a" "aa_store_into (AnyExt a) cb_new = Ok b"
  shows "bd_bit_len (cb_inner b) = aa_bit_len (AnyExt a) + 2"
  using any_addr_codec.store_new [of "AnyExt a"] ea_valid_len [OF assms(1)] assms
  by (auto simp: ea_bit_len_def mk_cb_def)

text \<open>
  Standard addresses are keys of dictionaries: the key is the address as it is stored in a cell,
  267 bits without anycast, and decoding the key by shifts of 128-bit words gives the address back. An
  address with anycast is refused.
\<close>

theorem std_addr_key:
  assumes "length (sa_address a) = 32"
  shows "if sa_anycast a = None
    then \<exists>d b. sa_store_into_data a bd_new = Ok d \<and> bd_bit_len d = sa_BITS_WITHOUT_ANYCAST \<and> sa_load_from_data d = Some a
      \<and> sa_store_into a cb_new = Ok b \<and> cb_inner b = d
    else sa_store_into_data a bd_new = Err InvalidData"
proof (cases "sa_anycast a = None")
  case True
  have v: "sa_valid a" using True assms by (simp add: sa_valid_def)
  have "sa_store_into a cb_new = Ok (mk_cb (sa_bits a) [])"
    using std_addr_codec.store_new [OF v] sa_key_bits(2) [OF True assms] by simp
  then show ?thesis
    using True sa_key_stores [OF True assms] sa_key_loads [OF True assms] sa_key_bits(2) [OF True assms]
    by (simp add: sa_BITS_WITHOUT_ANYCAST_def mk_cb_def)
qed (auto simp: sa_store_into_data_def)

lemma std_addr_key_witness:
  "\<exists>d. sa_store_into_data demo_std_addr bd_new = Ok d \<and> sa_load_from_data d = Some demo_std_addr"
  using std_addr_key [of demo_std_addr] by (auto simp: demo_std_addr_def sa_new_def)

section \<open>Text forms\<close>

text \<open>A decoder of hexadecimal text.\<close>

fun demo_hex_decode :: "byte list \<Rightarrow> byte list option" where
  "demo_hex_decode [] = Some []"
| "demo_hex_decode [_] = None"
| "demo_hex_decode (a # b # cs) =
    (case (hex_char a, hex_char b, demo_hex_decode cs) of
       (Inr h, Inr l, Some ds) \<Rightarrow> Some ((push_bit 4 h OR l) # ds)
     | _ \<Rightarrow> None)"

lemma demo_hex: "hex_decodes demo_hex_decode"
proof -
  have b: "push_bit 4 (drop_bit 4 (x AND 0xf0)) OR (x AND 0x0f) = (x :: byte)" for x
  proof (rule bit_word_eqI)
    fix n assume "n < LENGTH(8)"
    then have "n \<in> {0, 1, 2, 3, 4, 5, 6, 7}" by auto
    then show "bit (push_bit 4 (drop_bit 4 (x AND 0xf0)) OR (x AND 0x0f)) n = bit x n"
      by (auto simp: bit_or_iff bit_and_iff bit_push_bit_iff bit_drop_bit_eq)
  qed
  have "demo_hex_decode (encode_to_hex_slice ds (hex_table up)) = Some ds" for ds up
  proof (induction ds)
    case (Cons x ds)
    then show ?case
      using hex_table_char(1) [OF nibbles_less(1), of up x] hex_table_char(1) [OF nibbles_less(2), of up x] b [of x]
      by (simp add: encode_to_hex_slice_def byte2hex_def)
  qed simp
  from this [where up = False] this [where up = True] show ?thesis by (simp add: hex_decodes_def hex_table_def)
qed

text \<open>
  C32. A bit string of at most 1020 bits is parsed from what it is printed as, in lower or upper case, with
  the tag of a length that does not end on a digit. A longer one, up to the 1023 bits of a cell, is
  printed with 257 characters, and the parser refuses them.
\<close>

theorem bitstring_text:
  assumes "hex_decodes dec" "packed n v" "n \<le> 1023"
  shows "from_hex_str dec (fmt_hex upper v n) = (if n \<le> 1020 then Ok (v, n) else Err InvalidData)"
proof (cases "n \<le> 1020")
  case True
  then show ?thesis using fmt_hex_parses [OF assms(1,2)] by simp
next
  case False
  then consider "n = 1021" | "n = 1022" | "n = 1023" using assms(3) by linarith
  then have r: "n mod 8 \<in> {5, 6, 7}" "length v = 128"
    by (cases; simp add: packed_length [OF assms(2)] div_ceil8_def)+
  then have "length (fmt_hex upper v n) = 257" using fmt_hex_eq [of v n upper] packed_length [OF assms(2)] by auto
  then show ?thesis using False by (simp add: from_hex_str_def)
qed

lemma bitstring_text_witness:
  "from_hex_str demo_hex_decode (fmt_hex True (pack_bits (replicate 1023 True)) 1023) = Err InvalidData"
  using bitstring_text [OF demo_hex, of 1023 "pack_bits (replicate 1023 True)" True] packed_pack [of "replicate 1023 True"] by simp

text \<open>
  C33. Printing and parsing. A shard, or a block identifier with 32-byte hashes, is parsed from what it is
  printed as if \<open>ShardIdent::new\<close> accepts the shard, and refused with \<open>InvalidShardIdent\<close> if not. A
  standard address of 32 bytes without anycast is parsed from what it is printed as; with anycast the
  printed form has a part more than the parser takes, and is always refused. An external address within
  the bounds of its type is parsed from what it is printed as.
\<close>

theorem text_roundtrip:
  assumes "hex_decodes dec"
  shows "si_from_str (si_to_string s) = (if si_new (si_workchain s) (si_prefix s) = None then Inl InvalidShardIdent else Inr s)
    \<and> (length (bi_root_hash b) = 32 \<and> length (bi_file_hash b) = 32 \<longrightarrow> bi_from_str dec (bi_to_string b)
         = (if si_new (si_workchain (bi_shard b)) (si_prefix (bi_shard b)) = None then Inl InvalidShardIdent else Inr b))
    \<and> (length (sa_address a) = 32 \<longrightarrow> (if sa_anycast a = None then sa_from_str dec (sa_to_string a) = Inr a
         else \<exists>e. sa_from_str dec (sa_to_string a) = Inl e))
    \<and> (ea_valid e \<longrightarrow> ea_from_str dec (ea_to_string e) = Inr e)"
proof (intro conjI impI)
  assume "length (sa_address a) = 32"
  then show "if sa_anycast a = None then sa_from_str dec (sa_to_string a) = Inr a
      else \<exists>e. sa_from_str dec (sa_to_string a) = Inl e"
    using sa_text [OF assms] sa_text_anycast by simp
qed (use si_text bi_text [OF assms] ea_text [OF assms] in simp_all)

definition demo_block_id :: block_id where
  "demo_block_id = \<lparr>bi_shard = BASECHAIN, bi_seqno = 17, bi_root_hash = replicate 32 1, bi_file_hash = replicate 32 2\<rparr>"

lemma text_roundtrip_witness:
  "bi_from_str demo_hex_decode (bi_to_string demo_block_id) = Inr demo_block_id
    \<and> sa_from_str demo_hex_decode (sa_to_string demo_std_addr) = Inr demo_std_addr
    \<and> (\<exists>e. sa_from_str demo_hex_decode (sa_to_string (demo_std_addr
          \<lparr>sa_anycast := Some demo_anycast\<rparr>)) = Inl e)
    \<and> ea_from_str demo_hex_decode (ea_to_string demo_ext_addr) = Inr demo_ext_addr"
proof -
  let ?a = "demo_std_addr\<lparr>sa_anycast := Some demo_anycast\<rparr>"
  have "si_new (si_workchain BASECHAIN) (si_prefix BASECHAIN) = Some BASECHAIN" by code_simp
  then show ?thesis
    using text_roundtrip [OF demo_hex, of BASECHAIN demo_block_id demo_std_addr demo_ext_addr]
      text_roundtrip [OF demo_hex, of BASECHAIN demo_block_id ?a demo_ext_addr] demo_addresses
    by (simp add: demo_block_id_def demo_std_addr_def sa_new_def)
qed

section \<open>Checksums\<close>

text \<open>
  The table-driven checksum is that of the shift register of the polynomial \<open>x^16 + x^12 + x^5 + 1\<close> which
  takes one bit at a time.
\<close>

theorem crc_16_table_driven: "crc_16 data = foldl (\<lambda>r b. push_bit 1 r XOR (if bit r 15 \<noteq> b then 0x1021 else 0)) 0 (bytes_bits data)"
  by (simp add: crc_16_bits crc_bits_def crc_shift_def [abs_def])

section \<open>Addresses in base64\<close>

text \<open>The two engines, as functions.\<close>

definition demo_b64_char :: "bool \<Rightarrow> nat \<Rightarrow> byte" where
  "demo_b64_char url i =
    (if i < 26 then 0x41 + of_nat i else if i < 52 then 0x61 + of_nat (i - 26) else if i < 62 then 0x30 + of_nat (i - 52)
     else if i = 62 then (if url then 0x2d else 0x2b) else (if url then 0x5f else 0x2f))"

definition demo_b64_index :: "bool \<Rightarrow> byte \<Rightarrow> nat option" where
  "demo_b64_index url c =
    (if 0x41 \<le> c \<and> c \<le> 0x5a then Some (unat c - 0x41)
     else if 0x61 \<le> c \<and> c \<le> 0x7a then Some (unat c - 0x61 + 26)
     else if 0x30 \<le> c \<and> c \<le> 0x39 then Some (unat c - 0x30 + 52)
     else if c = (if url then 0x2d else 0x2b) then Some 62
     else if c = (if url then 0x5f else 0x2f) then Some 63 else None)"

definition demo_b64_sextets :: "byte list \<Rightarrow> nat list" where
  "demo_b64_sextets b = map (\<lambda>g. unat (word_of_bits g :: byte)) (chunks 6 (bytes_bits b))"

definition demo_b64_encode :: "bool \<Rightarrow> byte list \<Rightarrow> byte list" where
  "demo_b64_encode url b = map (demo_b64_char url) (demo_b64_sextets b)"

definition demo_b64_decode :: "bool \<Rightarrow> byte list \<Rightarrow> byte list option" where
  "demo_b64_decode url s =
    (let is = map (demo_b64_index url) s
     in if list_all (\<lambda>i. i \<noteq> None) is then Some (pack_bits (concat (map (\<lambda>i. word_bits 6 (of_nat (the i) :: byte)) is))) else None)"

lemma chunks_groups: "length xs = 6 * k \<Longrightarrow> length (chunks 6 xs) = k \<and> list_all (\<lambda>g. length g = 6) (chunks 6 xs)"
proof (induction k arbitrary: xs)
  case (Suc k)
  then show ?case using Suc.IH [of "drop 6 xs"] by (subst (1 2) chunks.simps) auto
qed (simp add: chunks.simps)

lemma demo_b64_chars:
  assumes "i < 64"
  shows "demo_b64_index url (demo_b64_char url i) = Some i"
    "demo_b64_char url i = 0x5f \<or> demo_b64_char url i = 0x2d \<longleftrightarrow> url \<and> 62 \<le> i"
proof -
  have "list_all (\<lambda>i. demo_b64_index True (demo_b64_char True i) = Some i
      \<and> (demo_b64_char True i = 0x5f \<or> demo_b64_char True i = 0x2d \<longleftrightarrow> 62 \<le> i)) [0..<64]" by code_simp
  moreover have "list_all (\<lambda>i. demo_b64_index False (demo_b64_char False i) = Some i
      \<and> demo_b64_char False i \<noteq> 0x5f \<and> demo_b64_char False i \<noteq> 0x2d) [0..<64]" by code_simp
  ultimately show "demo_b64_index url (demo_b64_char url i) = Some i"
    "demo_b64_char url i = 0x5f \<or> demo_b64_char url i = 0x2d \<longleftrightarrow> url \<and> 62 \<le> i"
    using assms by (cases url; simp add: list_all_iff)+
qed

lemma demo_b64: "base64_engines demo_b64_encode demo_b64_decode"
proof -
  have "length (demo_b64_encode url b) = 48
     \<and> (let own = list_ex (\<lambda>c. c = 0x5f \<or> c = 0x2d) (demo_b64_encode url b)
        in (own \<longrightarrow> url) \<and> demo_b64_decode own (demo_b64_encode url b) = Some b)" if "length b = 36" for url b
  proof -
    let ?g = "chunks 6 (bytes_bits b)" and ?s = "demo_b64_encode url b"
    define own where "own = list_ex (\<lambda>c. c = 0x5f \<or> c = 0x2d) ?s"
    have g: "length ?g = 48" "\<And>x. x \<in> set ?g \<Longrightarrow> length x = 6" using chunks_groups [of "bytes_bits b" 48] that by (auto simp: list_all_iff)
    have x: "unat (word_of_bits x :: byte) < 64" "word_bits 6 (word_of_bits x :: byte) = x" if "x \<in> set ?g" for x
    proof -
      show "word_bits 6 (word_of_bits x :: byte) = x" using g(2) [OF that] by simp
      have "take_bit 6 (word_of_bits x :: byte) = word_of_bits x" using g(2) [OF that] by (intro bit_word_eqI) (auto simp: bit_simps)
      then show "unat (word_of_bits x :: byte) < 64" using take_bit_eq_self_unat [of 6 "word_of_bits x :: byte"] by simp
    qed
    have own: "own \<longleftrightarrow> url \<and> (\<exists>x \<in> set ?g. 62 \<le> unat (word_of_bits x :: byte))"
      using demo_b64_chars(2) x(1) by (auto simp: own_def demo_b64_encode_def demo_b64_sextets_def list_ex_iff)
    have i: "demo_b64_index own (demo_b64_char url (unat (word_of_bits x :: byte))) = Some (unat (word_of_bits x :: byte))" if "x \<in> set ?g" for x
    proof (cases "own = url")
      case True
      then show ?thesis using demo_b64_chars(1) [OF x(1) [OF that]] by simp
    next
      case False
      then have "\<not> 62 \<le> unat (word_of_bits x :: byte)" using own that by auto
      then have "demo_b64_char url (unat (word_of_bits x :: byte)) = demo_b64_char own (unat (word_of_bits x :: byte))" by (simp add: demo_b64_char_def)
      then show ?thesis using demo_b64_chars(1) [OF x(1) [OF that]] by simp
    qed
    have m: "map (demo_b64_index own) ?s = map (\<lambda>x. Some (unat (word_of_bits x :: byte))) ?g"
      using i by (simp add: demo_b64_encode_def demo_b64_sextets_def)
    have "map (\<lambda>x. word_bits 6 (of_nat (unat (word_of_bits x :: byte)) :: byte)) ?g = ?g" using x(2) by (simp add: map_idI)
    then have "demo_b64_decode own ?s = Some b"
      using concat_chunks [of 6 "bytes_bits b"] by (simp add: demo_b64_decode_def m list_all_iff comp_def)
    moreover have "length ?s = 48" by (simp add: demo_b64_encode_def demo_b64_sextets_def g(1))
    moreover have "own \<longrightarrow> url" using own by blast
    ultimately show ?thesis unfolding Let_def own_def [symmetric] by blast
  qed
  then show ?thesis by (simp add: base64_engines_def)
qed

text \<open>
  C34. A standard address in base64 (without anycast, of 32 bytes) is printed as its flags, workchain and
  address followed by the two bytes of their CRC-16, the shift register of \<open>x^16 + x^12 + x^5 + 1\<close>, in the
  alphabet of the flags. It is parsed from that text with the flags it was printed with, but for the flag of
  the alphabet, which says whether one of the characters \<open>_\<close> and \<open>-\<close> occurs. Of any 36 encoded bytes the
  parser takes exactly those that end with the CRC-16 of the others, and refuses all others with
  \<open>BadFormat\<close>. Either of \<open>allow_base64\<close> and \<open>allow_base64_url\<close> admits both alphabets.
\<close>

theorem base64_address_roundtrip:
  assumes "base64_engines encode decode" "allow_base64 format \<or> allow_base64_url format"
    and "sa_anycast a = None" "length (sa_address a) = 32" "length b = 36"
  shows "display_base64 encode flags a =
      (let d = [flag_byte flags, sa_workchain a] @ sa_address a in encode (fl_base64_url flags) (d @ crc_bytes d))
    \<and> from_str_ext dec decode (display_base64 encode flags a) format
      = Inr (a, flags\<lparr>fl_base64_url := url_chars (display_base64 encode flags a)\<rparr>)
    \<and> from_str_ext dec decode (encode url b) format =
      (if drop 34 b = crc_bytes (take 34 b)
       then Inr (sa_new (b ! 1) (take 32 (drop 2 b)),
         \<lparr>fl_testnet = bit (b ! 0) 7, fl_base64_url = url_chars (encode url b), fl_bounceable = \<not> bit (b ! 0) 6\<rparr>)
       else Inl BadFormat)"
  using display_base64_eq sa_base64 [OF assms(1-4)] from_str_base64 [OF assms(1,2,5)] by blast

text \<open>
  An address in the alphabet of URLs is admitted by the switch of the standard alphabet; 36 zeros but for a
  last one are refused, for the checksum of zeros is zero.
\<close>

lemma base64_address_roundtrip_witness:
  "\<exists>url. from_str_ext demo_hex_decode demo_b64_decode (display_base64 demo_b64_encode
      \<lparr>fl_testnet = True, fl_base64_url = True, fl_bounceable = True\<rparr> demo_std_addr)
      \<lparr>allow_raw = False, allow_base64 = True, allow_base64_url = False\<rparr>
      = Inr (demo_std_addr, \<lparr>fl_testnet = True, fl_base64_url = url, fl_bounceable = True\<rparr>)
    \<and> from_str_ext demo_hex_decode demo_b64_decode (demo_b64_encode True (replicate 35 0 @ [1]))
      \<lparr>allow_raw = False, allow_base64 = True, allow_base64_url = False\<rparr> = Inl BadFormat"
proof -
  have "take 34 (replicate 35 0 @ [1 :: byte]) = replicate 34 0" "drop 34 (replicate 35 0 @ [1 :: byte]) = [0, 1]"
    by (simp_all add: take_replicate drop_replicate)
  moreover have "crc_bytes (replicate 34 0) = [0, 0]" by code_simp
  ultimately show ?thesis
    using base64_address_roundtrip [OF demo_b64, of "\<lparr>allow_raw = False, allow_base64 = True, allow_base64_url = False\<rparr>" demo_std_addr
        "replicate 35 0 @ [1]" "\<lparr>fl_testnet = True, fl_base64_url = True, fl_bounceable = True\<rparr>" demo_hex_decode True]
    by (auto simp: demo_std_addr_def sa_new_def)
qed

end
