(* ===== verification/Account_Properties.thy ===== *)
theory Account_Properties
  imports Account_Props Address_Properties Boc_Properties
begin

text \<open>The properties of storage statistics and of accounts.\<close>

section \<open>Storage statistics\<close>

text \<open>
  C35. The storage statistics of a cell count its distinct cells, itself included, and the bits in them, and
  those of a slice the distinct cells below its references, and the bits in them and in the slice itself.
  There are none exactly when there are more cells than the limit, which is never less than one for a cell.
\<close>

theorem unique_stats_exact:
  assumes "wf_cell c" "inj_on repr_hash (set (subcells c))"
    and "wf_slice s" "list_all wf_cell (slice_refs s)" "inj_on repr_hash (slice_subcells s)"
  shows "ss_compute_for_cell c limit =
      (if card (set (subcells c)) \<le> max 1 limit
       then Some \<lparr>st_bit_count = total_bits (set (subcells c)), st_cell_count = card (set (subcells c))\<rparr> else None)
    \<and> ss_compute_for_slice s limit =
      (if card (slice_subcells s) \<le> limit
       then Some \<lparr>st_bit_count = size_bits s + total_bits (slice_subcells s), st_cell_count = card (slice_subcells s)\<rparr> else None)"
  using compute_for_cell_eq [OF assms(1,2)] compute_for_slice_eq [OF assms(3-5)] by simp

text \<open>The empty cell is counted once, although it is referred to twice.\<close>

lemma unique_stats_exact_witness:
  "ss_compute_for_cell demo_tree 2 = Some \<lparr>st_bit_count = 3, st_cell_count = 2\<rparr> \<and> ss_compute_for_cell demo_tree 1 = None
    \<and> ss_compute_for_slice (slice_new_allow_exotic demo_tree) 1 = Some \<lparr>st_bit_count = 3, st_cell_count = 1\<rparr>"
proof -
  let ?s = "slice_new_allow_exotic demo_tree"
  have w: "wf_cell demo_tree" using demo_tree_storable(1) by (simp add: storable_def)
  have r: "slice_refs ?s = [EmptyOrdinaryCell, EmptyOrdinaryCell]" by code_simp
  then have u: "slice_subcells ?s = {EmptyOrdinaryCell}" by (simp add: slice_subcells_def)
  have s: "wf_slice ?s" using wf_cell_shape_ok [OF w] by simp
  have d: "demo_tree \<noteq> EmptyOrdinaryCell" by (simp add: demo_tree_def)
  have b: "cell_bit_len demo_tree = 3" "cell_bit_len EmptyOrdinaryCell = 0" "size_bits ?s = 3" by code_simp+
  note t = unique_stats_exact [of demo_tree ?s, unfolded demo_tree_cells u r, OF w demo_tree_hashes s]
  show ?thesis using t [of 2] t [of 1] d b by (simp add: total_bits_def)
qed

section \<open>Accounts\<close>

text \<open>
  C36. An account, or none, is wrapped into a cell that is read back as the account, also through the entry of
  the accounts of a shard, which itself is read back from the cell it is stored in; if the account has more
  than 1023 bits, it is refused instead.
\<close>

theorem account_roundtrip:
  assumes "pred_option acc_valid a" "list_all wf_cell (opt_list acc_refs a)" "list_all (depth_le D) (opt_list acc_refs a)"
    and "D < 65534" "length h = 32"
  shows "if length (opt_bits acc_bits a) \<le> 1023
    then \<exists>l. lz_new False sha oa_store_into a = Ok l
      \<and> (let entry = \<lparr>sh_account = l, sh_last_trans_hash = h, sh_last_trans_lt = lt\<rparr>
         in reads_back sha sh_store_into sh_load_from entry \<and> sh_load_account entry = Ok a)
    else lz_new False sha oa_store_into a = Err CellOverflow"
proof -
  note st = opt_account_codec.store_appends [OF assms(1)]
  have r: "length (opt_list acc_refs a) \<le> 4" using length_acc_refs by (simp add: opt_list_def split: option.split)
  show ?thesis
  proof (cases "length (opt_bits acc_bits a) \<le> 1023")
    case True
    obtain c where c: "build_ext sha (mk_cb (opt_bits acc_bits a) (opt_list acc_refs a)) = Ok c"
        "holds c (opt_bits acc_bits a) (opt_list acc_refs a)" "depth_le (D + 1) c"
      by (rule build_ext_ok [of "opt_bits acc_bits a" "opt_list acc_refs a" D sha]) (use assms r True in auto)
    have e: "\<not> cell_is_exotic c" "wf_cell c" using c(2) by (simp_all add: holds_def)
    let ?l = "\<lparr>lz_cell = c\<rparr>"
    have l: "lz_new False sha oa_store_into a = Ok ?l"
      using opt_account_codec.store_new [OF assms(1) True r] c(1) e by (simp add: lz_new_def build_from_def lz_from_raw_def)
    let ?e = "\<lparr>sh_account = ?l, sh_last_trans_hash = h, sh_last_trans_lt = lt\<rparr>"
    have v: "sh_valid ?e" using e assms(5) by (simp add: sh_valid_def)
    have "reads_back sha sh_store_into sh_load_from ?e"
      by (rule shard_account_codec.stored_reads_back [OF v, where D = "D + 1"])
        (use e c(3) assms(4,5) in \<open>simp_all add: sh_bits_def\<close>)
    moreover have "sh_load_account ?e = Ok a"
      using opt_account_codec.lz_new_load [OF assms(1,2) l] by (simp add: sh_load_account_def)
    ultimately show ?thesis using True l by (auto simp: Let_def)
  next
    case False
    then show ?thesis
      using appendsD [OF st, of "[]" "[]"]
      by (simp add: lz_new_def build_from_def cb_new_mk cb_appended_def MAX_BIT_LEN_def)
  qed
qed

definition demo_account :: account where
  "demo_account = \<lparr>acc_address = IntStd demo_std_addr,
     acc_storage_stat = \<lparr>info_used = \<lparr>used_cells = 3, used_bits = 1000\<rparr>, info_storage_extra = DictHash (replicate 32 7),
       info_last_paid = 17, info_due_payment = Some 5\<rparr>,
     acc_last_trans_lt = 1000, acc_balance = \<lparr>cc_tokens = 1000000, cc_other = td_from_raw (Some demo_tree)\<rparr>,
     acc_state = Active \<lparr>init_split_depth = Some 4, init_special = Some \<lparr>sf_tick = True, sf_tock = False\<rparr>,
       init_code = Some EmptyOrdinaryCell, init_data = None, init_libraries = td_new\<rparr>\<rparr>"

lemma demo_account_valid: "acc_valid demo_account" "acc_refs demo_account = [demo_tree, EmptyOrdinaryCell]"
    "length (acc_bits demo_account) \<le> 1022"
proof -
  have n: "vu_is_valid 7 (3 :: 64 word)" "vu_is_valid 7 (1000 :: 64 word)" "vu_is_valid 15 (5 :: 128 word)"
    "vu_is_valid 15 (1000000 :: 128 word)" "vu_bytes (3 :: 64 word) = 1" "vu_bytes (1000 :: 64 word) = 2"
    "vu_bytes (5 :: 128 word) = 1"
    by code_simp+
  then show "acc_valid demo_account"
    using demo_addresses(3) by (simp add: acc_valid_def demo_account_def info_valid_def used_valid_def cc_valid_def init_valid_def)
  show "acc_refs demo_account = [demo_tree, EmptyOrdinaryCell]"
    by (simp add: acc_refs_def demo_account_def cc_refs_def opt_refs_def init_refs_def td_from_raw_def td_new_def)
  have "length (ia_bits (acc_address demo_account)) \<le> 303"
    using length_sa_bits [OF demo_addresses(3)] by (simp add: demo_account_def)
  moreover have "length (cc_bits (acc_balance demo_account)) \<le> 125"
    using length_cc_bits [of "acc_balance demo_account"] n by (simp add: cc_valid_def demo_account_def)
  moreover have "init_bit_len \<lparr>init_split_depth = Some 4, init_special = Some \<lparr>sf_tick = True, sf_tock = False\<rparr>,
      init_code = Some EmptyOrdinaryCell, init_data = None, init_libraries = td_new\<rparr> \<le> 12" by (rule length_init_bits)
  ultimately show "length (acc_bits demo_account) \<le> 1022"
    using n(5-7)
    by (simp add: acc_bits_def demo_account_def info_bits_def used_enc_def opt_bits_def [of "vu_bits 15"] vu_bits_def
        vu_LEN_BITS_values length_init_bits(1))
qed

lemma account_roundtrip_witness:
  "\<exists>l. lz_new False no_hash oa_store_into (Some demo_account) = Ok l
      \<and> sh_load_account \<lparr>sh_account = l, sh_last_trans_hash = replicate 32 1, sh_last_trans_lt = 9\<rparr> = Ok (Some demo_account)"
proof -
  have w: "wf_cell demo_tree" using demo_tree_storable(1) by (simp add: storable_def)
  have d: "depth_le 1 demo_tree" "depth_le 1 EmptyOrdinaryCell" by code_simp+
  show ?thesis
    using account_roundtrip [of "Some demo_account" 1 "replicate 32 1" no_hash 9] demo_account_valid w d
    by (auto simp: opt_list_def opt_bits_def Let_def)
qed

text \<open>
  C37. The storage that an account uses is never computed: for any account and any limit below 2 to the 56 the
  result is an error, and for an account that can be stored it is \<open>IntOverflow\<close> just when the statistics
  exist, because the check of the number of cells has lost its negation.
\<close>

theorem storage_used_fails:
  assumes "limit < 2 ^ 56"
    and "cc_valid (acc_balance a)" "acc_state_valid (acc_state a)"
    and "list_all wf_cell (acc_refs a)" "list_all (depth_le D) (acc_refs a)" "D < 65535"
  shows "(\<exists>e. used_compute sha x limit = Err e)
    \<and> (\<exists>c. holds c (word_bits 64 (acc_last_trans_lt a) @ cc_bits (acc_balance a) @ acc_state_bits (acc_state a)) (acc_refs a)
        \<and> used_compute sha a limit = Err (if ss_compute_for_cell c limit = None then Cancelled else IntOverflow))"
proof
  have valid: "vu_is_valid 7 (of_nat (st_cell_count st) :: 64 word)" if "ss_compute_for_cell c limit = Some st" for c st
  proof -
    have l: "st_cell_count st < 2 ^ 56" using compute_for_cell_limit [OF that] assms(1) by (simp add: max_def split: if_splits)
    then have "unat (of_nat (st_cell_count st) :: 64 word) = st_cell_count st" by (simp add: unat_of_nat)
    then show ?thesis using l le_vu_MAX [of 7 "of_nat (st_cell_count st) :: 64 word"] by (simp add: vu_is_valid_def)
  qed
  show "\<exists>e. used_compute sha x limit = Err e"
    unfolding used_compute_def Let_def
    by (cases "ok (on_inner (\<lambda>d. store_u64 d (acc_last_trans_lt x)) cb_new) (\<lambda>b.
        ok (cc_store_into (acc_balance x) b) (\<lambda>b.
        ok (acc_state_store_into (acc_state x) b) (build_ext sha)))") (auto simp: valid split: option.split)
  let ?bs = "word_bits 64 (acc_last_trans_lt a) @ cc_bits (acc_balance a) @ acc_state_bits (acc_state a)"
  have l: "length (acc_state_bits (acc_state a)) \<le> 258"
    using assms(3) by (cases "acc_state a") (simp_all add: length_init_bits(1) le_trans [OF length_init_bits(3)])
  have n: "length ?bs \<le> 1023" using length_cc_bits [OF assms(2)] l by simp
  have "appends (\<lambda>b. ok (on_inner (\<lambda>d. store_u64 d (acc_last_trans_lt a)) b) (\<lambda>b.
      ok (cc_store_into (acc_balance a) b) (acc_state_store_into (acc_state a)))) ?bs (acc_refs a)"
    using appends_bind [OF appends_u64 appends_bind [OF cc_stores [OF assms(2)] acc_state_stores [OF assms(3)]], of "acc_last_trans_lt a"]
    by (simp add: acc_refs_def)
  from appendsD [OF this, of "[]" "[]"] have s: "ok (on_inner (\<lambda>d. store_u64 d (acc_last_trans_lt a)) cb_new) (\<lambda>b.
      ok (cc_store_into (acc_balance a) b) (acc_state_store_into (acc_state a))) = Ok (mk_cb ?bs (acc_refs a))"
    using n length_acc_refs [of a] by (simp add: cb_new_mk cb_appended_def MAX_BIT_LEN_def MAX_REF_COUNT_def)
  obtain c where c: "build_ext sha (mk_cb ?bs (acc_refs a)) = Ok c" "holds c ?bs (acc_refs a)"
    by (rule build_ext_ok [OF n length_acc_refs assms(4,6,5)])
  have "ok (on_inner (\<lambda>d. store_u64 d (acc_last_trans_lt a)) cb_new) (\<lambda>b.
        ok (cc_store_into (acc_balance a) b) (\<lambda>b.
        ok (acc_state_store_into (acc_state a) b) (build_ext sha))) = Ok c"
    using s c(1) by (auto simp: ok_eq_Ok_iff)
  then have "used_compute sha a limit = Err (if ss_compute_for_cell c limit = None then Cancelled else IntOverflow)"
    unfolding used_compute_def by (auto simp: valid Let_def split: option.split)
  with c(2) show "\<exists>c. holds c ?bs (acc_refs a) \<and> used_compute sha a limit = Err (if ss_compute_for_cell c limit = None then Cancelled else IntOverflow)"
    by blast
qed

lemma storage_used_fails_witness: "\<exists>e. used_compute no_hash demo_account 1000 = Err e"
proof -
  have w: "wf_cell demo_tree" using demo_tree_storable(1) by (simp add: storable_def)
  have d: "depth_le 1 demo_tree" "depth_le 1 EmptyOrdinaryCell" by code_simp+
  have v: "cc_valid (acc_balance demo_account)" "acc_state_valid (acc_state demo_account)"
    using demo_account_valid(1) by (simp_all add: acc_valid_def)
  show ?thesis
    using storage_used_fails [OF _ v, of 1000 1 no_hash demo_account] w d by (simp add: demo_account_valid(2))
qed

end
