(* ===== verification/Message_Properties.thy ===== *)
theory Message_Properties
  imports Message_Props Account_Properties
begin

text \<open>The properties of messages.\<close>

section \<open>Layouts\<close>

text \<open>
  C38. The layout that is computed for a message is the first of these with which the parts that stay in the
  root cell fit into it: everything in the root cell, the body in a cell of its own, the state init in a cell
  of its own; if none does, both get cells of their own. The size that comes with the layout is the one that
  is computed for this layout when it is given.
\<close>

theorem message_layout_first:
  assumes "sz_bits info \<le> 2000" "sz_refs info \<le> 1" "sz_bits body \<le> 1023" "sz_refs body \<le> 4"
  shows "ml_compute info init body =
    (let layout = if ml_fits (layout_of False False) info init body then layout_of False False
       else if ml_fits (layout_of False True) info init body then layout_of False True
       else if ml_fits (layout_of True False) info init body then layout_of True False
       else layout_of True True
     in (layout, ml_compute_full_size layout info init body))"
  by (rule ml_compute_first [OF assms])

lemma message_layout_first_witness:
  "ml_compute \<lparr>sz_bits = 700, sz_refs = 1\<rparr> None \<lparr>sz_bits = 400, sz_refs = 1\<rparr> = (layout_of False True, \<lparr>sz_bits = 702, sz_refs = 2\<rparr>)"
proof -
  let ?i = "\<lparr>sz_bits = 700, sz_refs = 1\<rparr>" and ?b = "\<lparr>sz_bits = 400, sz_refs = 1\<rparr>"
  have "\<not> ml_fits (layout_of False False) ?i None ?b" "ml_fits (layout_of False True) ?i None ?b"
    "ml_compute_full_size (layout_of False True) ?i None ?b = \<lparr>sz_bits = 702, sz_refs = 2\<rparr>"
    by (simp_all add: ml_fits_def full_size fits_into_cell_def MAX_BIT_LEN_def MAX_REF_COUNT_def root_bits_def root_refs_def)
  then show ?thesis using message_layout_first [of ?i ?b None] by simp
qed

section \<open>Round trips\<close>

text \<open>What a message with a layout and the root cell that it is stored in have to do with each other.\<close>

definition loads_back ::
  "bool \<Rightarrow> cell result \<Rightarrow> (cell_slice \<Rightarrow> (('i, 'b) base_message \<times> cell_slice) result) \<Rightarrow> ('b \<Rightarrow> bool list \<times> cell list)
    \<Rightarrow> message_layout \<Rightarrow> ('i, 'b) base_message \<Rightarrow> bool" where
  "loads_back fits stored load_from content layout m \<longleftrightarrow>
    (if fits
     then \<exists>c s m' s'. stored = Ok c \<and> slice_new c = Ok s \<and> load_from s = Ok (m', s') \<and> slice_bits s' = [] \<and> slice_refs s' = []
       \<and> bm_info m' = bm_info m \<and> bm_init m' = bm_init m \<and> content (bm_body m') = content (bm_body m)
       \<and> bm_layout m' = Some (loaded_layout layout (bm_init m))
     else stored = Err CellOverflow)"

lemma size_fits:
  assumes "bm_valid mi_valid mi_refs slice_body_valid m" "bm_layout_size mi_exact_size slice_exact_size m = (layout, sz)"
    and "mi_ty (bm_info m) \<noteq> Type_Int"
  shows "fits_into_cell sz \<longleftrightarrow>
    root_fits layout (length (mi_bits (bm_info m))) (length (mi_refs (bm_info m))) (bm_init m) (slice_exact_size (bm_body m))"
proof -
  have v: "mi_valid (bm_info m)" "slice_body_valid (bm_body m)" using assms(1) by (simp_all add: bm_valid_def)
  note i = mi_size [OF v(1)] and b = slice_body.body_size [OF v(2)]
  have n: "sz_bits (mi_exact_size (bm_info m)) \<le> 2000" "sz_refs (mi_exact_size (bm_info m)) \<le> 1"
    "sz_bits (slice_exact_size (bm_body m)) \<le> 1023" "sz_refs (slice_exact_size (bm_body m)) \<le> 4"
    using i b by simp_all
  note sz = message_kind.layout_size [OF assms(1,2)]
  have "sz_bits sz = root_bits layout (length (mi_bits (bm_info m))) (bm_init m) (sz_bits (slice_exact_size (bm_body m)))"
    "sz_refs sz = root_refs layout (length (mi_refs (bm_info m))) (bm_init m) (sz_refs (slice_exact_size (bm_body m)))
      + of_bool (bm_init m = None \<and> ml_init_to_cell layout)"
    using i(1,3) assms(3) unfolding sz(1) full_size [OF n] by simp_all
  then show ?thesis using sz(2) by (auto simp: fits_into_cell_def root_fits_def MAX_BIT_LEN_def MAX_REF_COUNT_def)
qed

text \<open>
  C39. A message whose parts fit into its root cell, with the layout it has or with the computed one, is read
  back from the cell it is stored in, with the same header, state init and body and with the layout it was
  stored with; otherwise it is refused. For external messages the computed size tells exactly whether it fits.
\<close>

theorem message_roundtrip:
  assumes "bm_valid mi_valid mi_refs slice_body_valid m" "bm_layout_size mi_exact_size slice_exact_size m = (layout, sz)"
  shows "loads_back
      (root_fits layout (length (mi_bits (bm_info m))) (length (mi_refs (bm_info m))) (bm_init m) (slice_exact_size (bm_body m)))
      (build_from sha (message_store_into sha m)) message_load_from (\<lambda>b. (slice_bits b, slice_refs b)) layout m
    \<and> (mi_ty (bm_info m) \<noteq> Type_Int \<longrightarrow> (fits_into_cell sz \<longleftrightarrow>
      root_fits layout (length (mi_bits (bm_info m))) (length (mi_refs (bm_info m))) (bm_init m) (slice_exact_size (bm_body m))))"
  using message_kind.message_stored [OF assms, of sha] size_fits [OF assms]
  by (auto simp: loads_back_def message_store_into_def message_load_from_def)

text \<open>The same for unfinished messages that own their body.\<close>

theorem owned_relaxed_message_roundtrip:
  assumes "bm_valid rmi_valid rmi_refs parts_valid m" "bm_layout_size rmi_exact_size parts_exact_size m = (layout, sz)"
  shows "loads_back
      (root_fits layout (length (rmi_bits (bm_info m))) (length (rmi_refs (bm_info m))) (bm_init m) (parts_exact_size (bm_body m)))
      (build_from sha (owned_relaxed_message_store_into sha m)) (owned_relaxed_message_load_from sha)
      (\<lambda>b. (slice_bits (parts_slice b), slice_refs (parts_slice b))) layout m"
  using owned_relaxed_message_kind.message_stored [OF assms]
  by (auto simp: loads_back_def owned_relaxed_message_store_into_def owned_relaxed_message_load_from_def)

definition demo_ext_message :: "(msg_info, cell_slice) base_message" where
  "demo_ext_message = \<lparr>bm_info = MsgExtIn \<lparr>ei_src = Some demo_ext_addr, ei_dst = IntStd demo_std_addr, ei_import_fee = 0\<rparr>,
     bm_init = Some \<lparr>init_split_depth = None, init_special = None, init_code = Some EmptyOrdinaryCell, init_data = None,
       init_libraries = td_new\<rparr>,
     bm_body = demo_slice, bm_layout = Some \<lparr>ml_init_to_cell = True, ml_body_to_cell = False\<rparr>\<rparr>"

lemma demo_empty_cell: "wf_cell EmptyOrdinaryCell" "depth_le 65533 EmptyOrdinaryCell" "\<not> is_virtual demo_cell"
  "slice_refs demo_slice = []" "vu_is_valid 15 (0 :: 128 word)" "sz_bits (slice_exact_size demo_slice) = 20"
  "sz_refs (slice_exact_size demo_slice) = 0"
proof -
  have "depth_le 0 EmptyOrdinaryCell" by code_simp
  then show "depth_le 65533 EmptyOrdinaryCell" by (rule depth_le_mono) simp
  show "vu_is_valid 15 (0 :: 128 word)" by (simp add: vu_is_valid_def)
qed code_simp+

lemma demo_ext_message_valid: "bm_valid mi_valid mi_refs slice_body_valid demo_ext_message"
  using demo_addresses demo_empty_cell demo_slice_wf
  by (simp add: bm_valid_def demo_ext_message_def slice_body_valid_def init_ok_def init_valid_def init_refs_def opt_refs_def td_new_def
      demo_slice_def slice_new_allow_exotic_def)

lemma message_roundtrip_witness:
  "\<exists>c s m' s'. build_from no_hash (message_store_into no_hash demo_ext_message) = Ok c \<and> slice_new c = Ok s
     \<and> message_load_from s = Ok (m', s') \<and> bm_info m' = bm_info demo_ext_message \<and> slice_bits (bm_body m') = demo_bits"
proof -
  let ?m = demo_ext_message and ?l = "layout_of True False"
  obtain sz where sz: "bm_layout_size mi_exact_size slice_exact_size ?m = (?l, sz)"
    by (simp add: bm_layout_size_def Let_def demo_ext_message_def)
  have "length (mi_bits (bm_info ?m)) \<le> 500"
    using length_sa_bits [OF demo_addresses(3)] length_vu_bits(1,2) [OF demo_empty_cell(5)]
    by (simp add: demo_ext_message_def demo_ext_addr_def)
  then have "root_fits ?l (length (mi_bits (bm_info ?m))) (length (mi_refs (bm_info ?m))) (bm_init ?m) (slice_exact_size (bm_body ?m))"
    by (simp add: root_fits_def root_bits_def root_refs_def demo_ext_message_def demo_empty_cell)
  then show ?thesis
    using message_roundtrip [OF demo_ext_message_valid sz, of no_hash] demo_slice_bits
    by (auto simp: loads_back_def) (auto simp: demo_ext_message_def)
qed

section \<open>The size of internal messages\<close>

text \<open>
  C40. The size of the header of an internal message is one bit short. A message without a state init for
  which the computed size of everything in the root cell is exactly 1023 bits therefore gets that layout and
  cannot be stored, although it could be stored with its body in a cell of its own.
\<close>

theorem message_size_short:
  assumes "bm_valid mi_valid mi_refs slice_body_valid m" "mi_ty (bm_info m) = Type_Int" "bm_init m = None" "bm_layout m = None"
    and "bm_layout_size mi_exact_size slice_exact_size m = (layout_of False False, sz)" "sz_bits sz = 1023" "slice_bits (bm_body m) \<noteq> []"
  shows "build_from sha (message_store_into sha m) = Err CellOverflow
    \<and> (\<exists>c. build_from sha (message_store_into sha (m\<lparr>bm_layout := Some (layout_of False True)\<rparr>)) = Ok c)"
proof
  have v: "mi_valid (bm_info m)" "slice_body_valid (bm_body m)" using assms(1) by (simp_all add: bm_valid_def)
  note i = mi_size [OF v(1)] and b = slice_body.body_size [OF v(2)]
  have n: "sz_bits (mi_exact_size (bm_info m)) \<le> 2000" "sz_refs (mi_exact_size (bm_info m)) \<le> 1"
    "sz_bits (slice_exact_size (bm_body m)) \<le> 1023" "sz_refs (slice_exact_size (bm_body m)) \<le> 4"
    using i b by simp_all
  have l: "length (mi_bits (bm_info m)) + 2 + length (slice_bits (bm_body m)) = 1024"
    using assms(2,3,6) i(1) b unfolding message_kind.layout_size(1) [OF assms(1,5)] full_size [OF n] by (simp add: root_bits_def)
  then show "build_from sha (message_store_into sha m) = Err CellOverflow"
    using message_kind.message_stored [OF assms(1,5), of sha] assms(3) b
    by (simp add: message_store_into_def root_fits_def root_bits_def)
  let ?m = "m\<lparr>bm_layout := Some (layout_of False True)\<rparr>"
  have w: "bm_valid mi_valid mi_refs slice_body_valid ?m" using assms(1) by (simp add: bm_valid_def)
  obtain t where t: "bm_layout_size mi_exact_size slice_exact_size ?m = (layout_of False True, t)"
    by (simp add: bm_layout_size_def Let_def)
  have "0 < length (slice_bits (bm_body m))" using assms(7) by (rule length_greater_0_conv [THEN iffD2])
  then have "root_fits (layout_of False True) (length (mi_bits (bm_info m))) (length (mi_refs (bm_info m))) None (slice_exact_size (bm_body m))"
    using l i(4) by (simp add: root_fits_def root_bits_def root_refs_def)
  then show "\<exists>c. build_from sha (message_store_into sha ?m) = Ok c"
    using message_kind.message_stored [OF w t, of sha] assms(3) by (auto simp: message_store_into_def)
qed

definition demo_long_body :: cell_slice where
  "demo_long_body = slice_new_allow_exotic (IntermediateDataCell (replicate 47 0) 375)"

definition demo_int_message :: "(msg_info, cell_slice) base_message" where
  "demo_int_message = \<lparr>bm_info = MsgInt \<lparr>im_ihr_disabled = True, im_bounce = False, im_bounced = False, im_src = IntStd demo_std_addr,
       im_dst = IntStd demo_std_addr, im_value = cc_ZERO, im_extra_flags = 0, im_fwd_fee = 0, im_created_lt = 0, im_created_at = 0\<rparr>,
     bm_init = None, bm_body = demo_long_body, bm_layout = None\<rparr>"

lemma demo_long_body_facts: "wf_slice demo_long_body" "\<not> is_virtual (sl_cell demo_long_body)" "slice_refs demo_long_body = []"
  "slice_exact_size demo_long_body = \<lparr>sz_bits = 375, sz_refs = 0\<rparr>" "size_bits demo_long_body = 375"
  by code_simp+

lemma message_size_short_witness:
  "build_from no_hash (message_store_into no_hash demo_int_message) = Err CellOverflow
    \<and> (\<exists>c. build_from no_hash (message_store_into no_hash (demo_int_message\<lparr>bm_layout := Some (layout_of False True)\<rparr>)) = Ok c)"
proof -
  let ?m = demo_int_message
  have z: "vu_unwrap_bit_len 15 (0 :: 128 word) = 4" "mf_bit_len 0 = 4" "sa_bit_len demo_std_addr = 267"
  proof -
    have "vu_bytes (0 :: 128 word) = 0" by code_simp
    then show "vu_unwrap_bit_len 15 (0 :: 128 word) = 4" by (simp add: vu_unwrap_bit_len_def vu_LEN_BITS_values)
  qed (simp_all add: mf_bit_len_def vu_LEN_BITS_values sa_bit_len_def demo_std_addr_def sa_new_def sa_BITS_WITHOUT_ANYCAST_def)
  have v: "bm_valid mi_valid mi_refs slice_body_valid ?m"
    using demo_long_body_facts demo_addresses(3) demo_empty_cell(5)
    by (simp add: bm_valid_def demo_int_message_def slice_body_valid_def im_valid_def cc_valid_def cc_ZERO_def im_refs_def cc_refs_def
        td_new_def opt_refs_def)
  have i: "mi_exact_size (bm_info ?m) = \<lparr>sz_bits = 646, sz_refs = 0\<rparr>"
    using z by (simp add: mi_exact_size_def demo_int_message_def im_bit_len_def im_bit_len_with_def cc_bit_len_def cc_ZERO_def
        td_new_def td_is_empty_def)
  have "ml_compute \<lparr>sz_bits = 646, sz_refs = 0\<rparr> None \<lparr>sz_bits = 375, sz_refs = 0\<rparr> = (layout_of False False, \<lparr>sz_bits = 1023, sz_refs = 0\<rparr>)"
    by (simp add: ml_compute_def dl_compute_def Let_def size_ZERO_def MAX_BIT_LEN_def MAX_REF_COUNT_def)
  then have s: "bm_layout_size mi_exact_size slice_exact_size ?m = (layout_of False False, \<lparr>sz_bits = 1023, sz_refs = 0\<rparr>)"
    unfolding bm_layout_size_def Let_def i by (simp add: demo_int_message_def demo_long_body_facts)
  have "length (slice_bits (bm_body ?m)) = 375" by (simp add: demo_int_message_def demo_long_body_facts)
  then have "slice_bits (bm_body ?m) \<noteq> []" by (metis length_greater_0_conv zero_less_numeral)
  then show ?thesis
    using message_size_short [OF v _ _ _ s, of no_hash] by (simp add: demo_int_message_def)
qed

end
