(* ===== verification/Spec2Isabelle.thy ===== *)
theory Spec2Isabelle
  imports Dict_Build_Properties Dict_Search_Properties Boc_Properties Merkle_Properties Models_Properties Message_Properties
begin

text \<open>
  A model of \<^verbatim>\<open>tycho-types\<close>, the Rust crate with the data types of the TVM blockchains, and proofs of what
  its core promises. Paths are relative to \<^verbatim>\<open>src/src\<close>.

  \<^bold>\<open>Parts of the program.\<close> A cell is up to 1023 bits of data with up to four references to other cells
  (\<^verbatim>\<open>cell\<close>). Cells are made by builders, which finalize them with their hashes, and are read by slices, which
  are windows over the data and the references. Dictionaries (\<^verbatim>\<open>dict\<close>) are binary tries in cells; their
  edges carry labels. A bag of cells (\<^verbatim>\<open>boc\<close>) is the byte form of cell trees. Merkle proofs and updates
  (\<^verbatim>\<open>merkle\<close>) are trees in which pruned branches stand for parts that are left out. The values of the
  blockchain (\<^verbatim>\<open>num\<close>, \<^verbatim>\<open>models\<close>) are written to builders and read from slices, the larger ones through
  references; shards, blocks, addresses and bit strings have text forms besides.

  \<^bold>\<open>Conventions.\<close> A failing function returns \<open>error + 'a\<close> (\<^verbatim>\<open>Prelude\<close>, \<open>ok\<close> is the macro \<open>ok!\<close>); a method on
  \<open>&mut self\<close> takes the state and returns it, and a failing one leaves the state of the caller as it was.
  Bytes are \<open>8 word\<close>, and lengths are natural numbers with the wrap-around written out where the source
  adds \<open>u16\<close> or \<open>u8\<close> values; the numbers and the words of shards keep their width. SHA-256, CRC-32C and the
  hexadecimal and base64 codecs are not in the repository: they are parameters, and the hypotheses on them
  are the width of the hash, that decoding inverts encoding, and, where a map is keyed by hashes, that the
  cells at hand have different hashes. A hash map is a map from hashes, its order is never observed. What
  the macros derive for a type is written out as the calls the derived code makes, field by field.

  \<^bold>\<open>Theories: cells.\<close>
  \<^item> \<^verbatim>\<open>Cell_Descriptor\<close> (level masks, types, descriptor bytes of \<^verbatim>\<open>cell/mod.rs\<close>), \<^verbatim>\<open>Cell_Impl\<close> (the cell
    representations of \<^verbatim>\<open>cell/cell_impl\<close> and the finalizer of \<^verbatim>\<open>cell/cell_context.rs\<close>: checks of exotic cells,
    level masks, hashes and depths), \<^verbatim>\<open>Cell_Tree\<close> (iterators over references, and the measures of loops with
    a stack of them); lemmas in \<^verbatim>\<open>Cell_Impl_Props\<close> and \<^verbatim>\<open>Cell_Tree_Props\<close>.
  \<^item> \<^verbatim>\<open>Cell_Slice\<close>, \<^verbatim>\<open>Cell_Slice_Scan\<close> (\<^verbatim>\<open>cell/slice.rs\<close>), \<^verbatim>\<open>Cell_Builder\<close> (\<^verbatim>\<open>cell/builder.rs\<close>), with the lemmas in
    \<^verbatim>\<open>Cell_Slice_Props\<close>, \<^verbatim>\<open>Cell_Slice_Read\<close>, \<^verbatim>\<open>Cell_Slice_Cmp\<close>, \<^verbatim>\<open>Cell_Builder_Props\<close> and \<^verbatim>\<open>Cell_Builder_Build\<close>:
    each reader is the value of a window of bits, each writer appends bits, at any alignment. \<^verbatim>\<open>Cell_Store\<close>
    and \<^verbatim>\<open>Cell_Load\<close> hold the interfaces (locales) of what can be stored in and loaded from a cell.
  \<^item> \<^verbatim>\<open>Storage_Stat\<close> (the statistics of \<^verbatim>\<open>cell/mod.rs\<close>): the traversal with a stack and a set of seen hashes
    counts what a recursion over the tree counts, up to the limit of cells.
  \<^item> \<^verbatim>\<open>Lazy\<close> (\<^verbatim>\<open>cell/lazy.rs\<close>, \<^verbatim>\<open>dict/typed.rs\<close>): cells that stand for values, dictionaries as fields.

  \<^bold>\<open>Theories: dictionaries.\<close>
  \<^item> \<^verbatim>\<open>Dict\<close> (labels) and \<^verbatim>\<open>Dict_Ops\<close> (lookup, insertion, removal of \<^verbatim>\<open>dict\<close>), \<^verbatim>\<open>Dict_Label\<close>, \<^verbatim>\<open>Dict_Tree\<close>,
    \<^verbatim>\<open>Dict_Rep\<close>, \<^verbatim>\<open>Dict_Ops_Props\<close> and \<^verbatim>\<open>Dict_Map\<close>: a dictionary cell represents a binary trie, the trie a map,
    and the operations are those of the map.
  \<^item> \<^verbatim>\<open>Dict_Find\<close> (\<^verbatim>\<open>dict/ops/find.rs\<close>, and the removal of a bound) with \<^verbatim>\<open>Dict_Order\<close>, \<^verbatim>\<open>Dict_Find_Props\<close>,
    \<^verbatim>\<open>Dict_Nearest\<close> and \<^verbatim>\<open>Dict_Remove_Bound\<close>: bounds and nearest keys in the order of signed or unsigned keys.
  \<^item> \<^verbatim>\<open>Dict_Iter\<close> (the iterators of \<^verbatim>\<open>dict/raw.rs\<close>) with \<^verbatim>\<open>Dict_Iter_Props\<close>, \<^verbatim>\<open>Dict_Values\<close> and
    \<^verbatim>\<open>Dict_Iter_Total\<close>: each entry once and in order; an iterator over arbitrary cells, also such as are not a
    dictionary, ends after at most \<open>2 ^ (n + 1)\<close> items for keys of \<open>n\<close> bits.
  \<^item> \<^verbatim>\<open>Dict_Split\<close> (\<^verbatim>\<open>dict/ops/split_merge.rs\<close>) and \<^verbatim>\<open>Dict_Build\<close> (\<^verbatim>\<open>dict/ops/build.rs\<close>), with \<^verbatim>\<open>Dict_Split_Props\<close>
    and \<^verbatim>\<open>Dict_Build_Props\<close>: splitting and merging invert each other, and the stack machine that builds from
    sorted entries makes the dictionary that inserting the entries one by one makes.
  \<^item> \<^verbatim>\<open>Dict_Aug\<close> (\<^verbatim>\<open>dict/aug.rs\<close>, the augmented operations of \<^verbatim>\<open>dict/ops\<close>, and the extra \<open>KeyMaxLt\<close> of
    \<^verbatim>\<open>models/shard/shard_extra.rs\<close>): the same trees with an extra in every leaf and fork. The locale
    \<open>augmentation\<close> is the trait of extras, interpreted for \<open>KeyMaxLt\<close>; the extra at the root summarises all
    entries, and a search that follows a property of extras finds an entry with it.

  \<^bold>\<open>Theories: bags of cells, Merkle trees.\<close>
  \<^item> \<^verbatim>\<open>Boc_Ser\<close>, \<^verbatim>\<open>Boc_De\<close> (\<^verbatim>\<open>boc/ser.rs\<close>, \<^verbatim>\<open>boc/de.rs\<close>), with \<^verbatim>\<open>Boc_Bytes\<close>, \<^verbatim>\<open>Boc_Cells\<close>, \<^verbatim>\<open>Boc_Ser_Props\<close>,
    \<^verbatim>\<open>Boc_Roundtrip\<close> and \<^verbatim>\<open>Boc_Sound\<close>: decoding is the inverse of encoding, and what is decoded is well-formed.
  \<^item> \<^verbatim>\<open>Merkle_Proof\<close>, \<^verbatim>\<open>Merkle_Update\<close> (\<^verbatim>\<open>merkle\<close>), with \<^verbatim>\<open>Merkle_Cells\<close>, \<^verbatim>\<open>Merkle_Proof_Props\<close>, \<^verbatim>\<open>Merkle_Exotic\<close>,
    \<^verbatim>\<open>Merkle_Search\<close>, \<^verbatim>\<open>Merkle_Copy\<close> and \<^verbatim>\<open>Merkle_Update_Props\<close>: pruned copies keep the hash of level 0, and an
    update that was built from two trees turns the old one into the new one.

  \<^bold>\<open>Theories: values of the blockchain.\<close>
  \<^item> \<^verbatim>\<open>Numbers\<close>, \<^verbatim>\<open>Numbers_Props\<close> (\<^verbatim>\<open>num/mod.rs\<close>): integers of variable length and bounded integers, their
    arithmetic as that of natural numbers cut off at the bounds.
  \<^item> \<^verbatim>\<open>Shard_Ident\<close>, \<^verbatim>\<open>Shard_Path\<close> (\<^verbatim>\<open>models/block/block_id.rs\<close>): shards and block identifiers; a shard prefix is
    the word of a path, and splitting, merging and containment are operations on paths.
  \<^item> \<^verbatim>\<open>Address\<close>, \<^verbatim>\<open>Address_Props\<close> (\<^verbatim>\<open>models/message/address.rs\<close>), \<^verbatim>\<open>Text_Forms\<close>, \<^verbatim>\<open>Text_Props\<close>, \<^verbatim>\<open>Bitstring\<close>
    (\<^verbatim>\<open>util.rs\<close>) and \<^verbatim>\<open>Crc16\<close> (\<^verbatim>\<open>crc.rs\<close>): cell and text forms of addresses and identifiers.
  \<^item> \<^verbatim>\<open>Account\<close>, \<^verbatim>\<open>Account_Props\<close> (\<^verbatim>\<open>models/currency.rs\<close>, \<^verbatim>\<open>models/account/mod.rs\<close>): each type is a codec, an
    interpretation of the locale \<open>cell_codec\<close>, built from those of its fields.
  \<^item> \<^verbatim>\<open>Message\<close>, \<^verbatim>\<open>Message_Info_Props\<close>, \<^verbatim>\<open>Message_Props\<close> (\<^verbatim>\<open>models/message/mod.rs\<close>): headers, layouts, bodies. The
    locales \<open>message_header\<close> and \<open>message_body\<close> are what a message expects of its header and body;
    \<open>message_codec\<close> joins them and is interpreted for final and for unfinished messages, with a borrowed and
    with an owned body.

  The theories \<^verbatim>\<open>Cell_Properties\<close>, \<^verbatim>\<open>Dict_Properties\<close>, \<^verbatim>\<open>Dict_Search_Properties\<close>, \<^verbatim>\<open>Dict_Build_Properties\<close>,
  \<^verbatim>\<open>Boc_Properties\<close>, \<^verbatim>\<open>Merkle_Properties\<close>, \<^verbatim>\<open>Models_Properties\<close>, \<^verbatim>\<open>Address_Properties\<close>, \<^verbatim>\<open>Account_Properties\<close> and
  \<^verbatim>\<open>Message_Properties\<close> state the properties, each with an instance where it has hypotheses.

  \<^bold>\<open>Termination and bounds.\<close> Loops over bits and bytes recurse on a remaining length, descents into cells on \<open>tree_size\<close>, and loops with a stack of iterators on the sum of their
  \<open>frame_weight\<close>, which bounds the number of cells the iterator will still yield. One
  loop takes fuel: \<open>read_hml_short_loop\<close>, which reads the unary length of a label, is given one step more than
  the slice has bits; each step takes a bit, so it ends, or leaves the slice, before the fuel does. Depths are \<open>u16\<close> in the
  source; where a property speaks of builds that succeed it asks for children of depth less than 65535,
  at which the finalizer refuses a cell.

  \<^bold>\<open>Flaws that the proofs show.\<close> The values of signed dictionaries come in the wrong order
  (\<open>raw_values_order_errors\<close>), building a dictionary from entries that compare as signed keys
  misplaces the values (\<open>build_signed_swaps\<close>), bit strings of 1021 to 1023 bits do not parse
  (\<open>bitstring_text\<close>), \<open>StorageUsed::compute\<close> always fails (\<open>storage_used_fails\<close>), the size of an internal
  message is one bit short (\<open>message_size_short\<close>), a standard address with anycast does not parse from its
  printed form (\<open>text_roundtrip\<close>), either switch for base64 admits both alphabets (\<open>base64_address_roundtrip\<close>),
  a bit count above 64512 wraps the length of a builder in release builds (\<open>reachable_builders\<close>), and at the
  root of a proof \<open>IncludeSubtree\<close> acts like \<open>Include\<close> (\<open>merkle_proof_correct\<close>). Smaller ones are lemmas: \<open>is_ancestor_of_disjoint\<close>,
  \<open>boc_pair_same_leaf\<close>, \<open>ext_addr_bit_len_short\<close>, \<open>full_size\<close>.

  \<^bold>\<open>Not modelled.\<close> The contract ABI (\<^verbatim>\<open>abi\<close>); the models other than those above (blocks, configuration,
  transactions, envelopes), whose loads and stores are of the same kind; \<^verbatim>\<open>VarUint248\<close> and the arithmetic of
  extra currencies (a third-party integer); usage trees, absent cells, the writers of big integers, the single-threaded twin of the cells and the
  parallel builders (interior mutability, threads); modification of dictionaries from sorted iterators, extras
  other than \<open>KeyMaxLt\<close> (they add balances), the union iterator; serde, formatting and fuzzing.
\<close>

end
